(* ===== verification/Prelude.thy ===== *)
theory Prelude
  imports Main "HOL-Library.Word" "HOL-Library.Monad_Syntax"
begin

text \<open>
  Shared vocabulary of the development: the machine types of the C sources, the
  error monad in which fallible C code is written, generic facts on lists and words, and the
  collections that the component proofs feed to the simplifier.
\<close>

section \<open>Machine types\<close>

text \<open>
  The sources are modelled on the LP64 little-endian targets of the Android build
  (arm64-v8a and x86\_64): \<^verbatim>\<open>int\<close> has 32 bits, \<^verbatim>\<open>size_t\<close> and pointers have 64.
\<close>

type_synonym byte = "8 word"
type_synonym u32 = "32 word"
type_synonym u64 = "64 word"
type_synonym bytes = "byte list"

section \<open>Collections\<close>

named_theorems monad_simps \<open>unfolding of the two error monads\<close>
named_theorems wlist_simps \<open>facts on rings of intrusive list nodes\<close>
named_theorems ring_simps \<open>facts on circular buffers\<close>
named_theorems wire_simps \<open>facts on the wire format\<close>
named_theorems scan_simps \<open>facts on the protocol scanner\<close>

section \<open>Fallible computations\<close>

text \<open>
  A computation that can fail is a value of type \<open>'e + 'a\<close>: \<open>Inl\<close> carries the error
  with which the C function returns early, exits or aborts, \<open>Inr\<close> its result.
\<close>

definition ebind :: "'e + 'a \<Rightarrow> ('a \<Rightarrow> 'e + 'b) \<Rightarrow> 'e + 'b" where
  "ebind m f = (case m of Inl e \<Rightarrow> Inl e | Inr x \<Rightarrow> f x)"

lemma ebind_Inl [simp, monad_simps]: "ebind (Inl e) f = Inl e"
  by (simp add: ebind_def)

lemma ebind_Inr [simp, monad_simps]: "ebind (Inr x) f = f x"
  by (simp add: ebind_def)

lemma ebind_eq_Inr [monad_simps]:
  "ebind m f = Inr y \<longleftrightarrow> (\<exists>x. m = Inr x \<and> f x = Inr y)"
  by (cases m) auto

text \<open>The loop \<^verbatim>\<open>for each x: s = f (x, s)\<close> that stops at the first failure.\<close>

fun efold :: "('a \<Rightarrow> 's \<Rightarrow> 'e + 's) \<Rightarrow> 'a list \<Rightarrow> 's \<Rightarrow> 'e + 's" where
  "efold f [] s = Inr s"
| "efold f (x # xs) s = ebind (f x s) (efold f xs)"

lemma efold_append: "efold f (xs @ ys) s = ebind (efold f xs s) (efold f ys)"
  by (induction xs arbitrary: s) (auto simp: ebind_def split: sum.splits)

fun ofold :: "('a \<Rightarrow> 's \<Rightarrow> 's option) \<Rightarrow> 'a list \<Rightarrow> 's \<Rightarrow> 's option" where
  "ofold f [] s = Some s"
| "ofold f (x # xs) s = Option.bind (f x s) (ofold f xs)"

text \<open>An invariant that every step of the loop keeps holds after the loop.\<close>

lemma efold_invariant:
  assumes "\<And>x s s'. x \<in> set xs \<Longrightarrow> P s \<Longrightarrow> f x s = Inr s' \<Longrightarrow> P s'"
    and "P s" and "efold f xs s = Inr s'"
  shows "P s'"
  using assms
proof (induction xs arbitrary: s)
  case Nil
  then show ?case by simp
next
  case (Cons x xs)
  from Cons.prems(3) obtain t where t: "f x s = Inr t" "efold f xs t = Inr s'"
    by (auto simp: ebind_eq_Inr)
  have "P t" using Cons.prems(1,2) t(1) by auto
  with Cons.IH Cons.prems(1) t(2) show ?case by (metis list.set_intros(2))
qed

lemma ofold_invariant:
  assumes "\<And>x s s'. x \<in> set xs \<Longrightarrow> P s \<Longrightarrow> f x s = Some s' \<Longrightarrow> P s'"
    and "P s" and "ofold f xs s = Some s'"
  shows "P s'"
  using assms
proof (induction xs arbitrary: s)
  case (Cons x xs)
  from Cons.prems(3) obtain t where t: "f x s = Some t" "ofold f xs t = Some s'"
    by (cases "f x s") auto
  have "P t" using Cons.prems(1,2) t(1) by auto
  with Cons.IH Cons.prems(1) t(2) show ?case by (metis list.set_intros(2))
qed simp

lemma bind_eq_Some [monad_simps]:
  "Option.bind m f = Some y \<longleftrightarrow> (\<exists>x. m = Some x \<and> f x = Some y)"
  by (cases m) auto

section \<open>Lists\<close>

lemma nth_take_drop:
  "i < n \<Longrightarrow> k + n \<le> length xs \<Longrightarrow> take n (drop k xs) ! i = xs ! (k + i)"
  by simp

text \<open>\<open>splice_at k ys xs\<close> is the array \<open>xs\<close> after \<^verbatim>\<open>memcpy (xs + k, ys, length ys)\<close>.\<close>

definition splice_at :: "nat \<Rightarrow> 'a list \<Rightarrow> 'a list \<Rightarrow> 'a list" where
  "splice_at k ys xs = take k xs @ ys @ drop (k + length ys) xs"

lemma length_splice_at [simp]:
  "k + length ys \<le> length xs \<Longrightarrow> length (splice_at k ys xs) = length xs"
  by (simp add: splice_at_def)

lemma nth_splice_at:
  assumes "k + length ys \<le> length xs" "i < length xs"
  shows "splice_at k ys xs ! i =
    (if k \<le> i \<and> i < k + length ys then ys ! (i - k) else xs ! i)"
  using assms by (auto simp: splice_at_def nth_append min_def)

lemma take_splice_at_before:
  "n \<le> k \<Longrightarrow> k + length ys \<le> length xs \<Longrightarrow> take n (splice_at k ys xs) = take n xs"
  by (simp add: splice_at_def min_def)

lemma take_drop_splice_at_same [simp]:
  "k + length ys \<le> length xs \<Longrightarrow> take (length ys) (drop k (splice_at k ys xs)) = ys"
  by (simp add: splice_at_def)

lemma take_drop_splice_at_other:
  assumes "k + length ys \<le> length xs" "j + n \<le> k \<or> k + length ys \<le> j" "j + n \<le> length xs"
  shows "take n (drop j (splice_at k ys xs)) = take n (drop j xs)"
  using assms by (intro nth_equalityI) (auto simp: nth_splice_at)

lemma splice_at_Nil [simp]: "k \<le> length xs \<Longrightarrow> splice_at k [] xs = xs"
  by (simp add: splice_at_def)

section \<open>Words\<close>

lemma unat_plus_no_overflow:
  fixes a b :: "'a::len word"
  shows "unat a + unat b < 2 ^ LENGTH('a) \<Longrightarrow> unat (a + b) = unat a + unat b"
  by (simp add: unat_word_ariths)

lemma unat_minus_le:
  fixes a b :: "'a::len word"
  shows "b \<le> a \<Longrightarrow> unat (a - b) = unat a - unat b"
  by (simp add: unat_sub)

lemma unat_u32_less [simp]: "unat (w :: u32) < 4294967296"
  using unsigned_less [of w] by simp

lemma unat_u64_less [simp]: "unat (w :: u64) < 18446744073709551616"
  using unsigned_less [of w] by simp

lemma unat_byte_less [simp]: "unat (b :: byte) < 256"
  using unsigned_less [of b] by simp

lemma ucast_u64_u32 [simp]: "(ucast (ucast (f :: u32) :: u64) :: u32) = f"
  by (rule bit_word_eqI) (auto simp: bit_unsigned_iff)

lemma sint_u32_small:
  assumes "unat (w :: u32) < 2147483648"
  shows "sint w = int (unat w)"
proof -
  have "int (unat w) < int 2147483648" using assms by (simp only: of_nat_less_iff)
  then have "uint w < 2 ^ 31" by simp
  moreover have "0 \<le> uint w" by simp
  ultimately have "- (2 ^ 31) \<le> uint w \<and> uint w < 2 ^ 31" by linarith
  then show ?thesis by (simp add: sint_uint signed_take_bit_int_eq_self_iff)
qed

end
