(* ===== verification/Circular.thy ===== *)
theory Circular
  imports Prelude
begin

text \<open>
  Circular storage with free-running positions, as used by the connection buffers of
  \<^verbatim>\<open>connection.c\<close> and by the shared audio ring of \<^verbatim>\<open>were1_ring_buffer.c\<close>: a position addresses
  the cell of its remainder by the capacity. \<open>window\<close> reads and \<open>circ_write\<close> writes a
  stretch of cells that may run across the end of the storage.
\<close>

definition window :: "'a list \<Rightarrow> nat \<Rightarrow> nat \<Rightarrow> 'a list" where
  "window xs s n = map (\<lambda>i. xs ! ((s + i) mod length xs)) [0..<n]"

definition circ_write :: "'a list \<Rightarrow> nat \<Rightarrow> 'a list \<Rightarrow> 'a list" where
  "circ_write xs s ys =
     (let k = s mod length xs
      in if k + length ys \<le> length xs then splice_at k ys xs
         else splice_at 0 (drop (length xs - k) ys) (splice_at k (take (length xs - k) ys) xs))"

lemma length_window [simp, ring_simps]: "length (window xs s n) = n"
  by (simp add: window_def)

lemma window_0 [simp, ring_simps]: "window xs s 0 = []"
  by (simp add: window_def)

lemma nth_window: "i < n \<Longrightarrow> window xs s n ! i = xs ! ((s + i) mod length xs)"
  by (simp add: window_def)

lemma window_mod: "window xs (s mod length xs) n = window xs s n"
  by (simp add: window_def mod_add_left_eq)

lemma window_cong_mod:
  "s mod length xs = t mod length xs \<Longrightarrow> window xs s n = window xs t n"
  by (metis window_mod)

lemma window_append: "window xs s (m + n) = window xs s m @ window xs (s + m) n"
  by (rule nth_equalityI) (auto simp: nth_window nth_append add.assoc)

lemma take_window: "m \<le> n \<Longrightarrow> take m (window xs s n) = window xs s m"
  using window_append [of xs s m "n - m"] by simp

lemma drop_window: "m \<le> n \<Longrightarrow> drop m (window xs s n) = window xs (s + m) (n - m)"
  using window_append [of xs s m "n - m"] by simp

lemma window_straight:
  assumes "s mod length xs + n \<le> length xs"
  shows "window xs s n = take n (drop (s mod length xs) xs)"
proof (rule nth_equalityI)
  show "length (window xs s n) = length (take n (drop (s mod length xs) xs))" using assms by simp
  fix i assume "i < length (window xs s n)"
  then have "(s + i) mod length xs = s mod length xs + i"
    using assms by (metis length_window mod_add_left_eq mod_less nat_add_left_cancel_less order_less_le_trans)
  with \<open>i < _\<close> assms show "window xs s n ! i = take n (drop (s mod length xs) xs) ! i"
    by (simp add: nth_window)
qed

lemma window_wrapped:
  assumes "length xs < s mod length xs + n" "n \<le> length xs"
  shows "window xs s n =
    drop (s mod length xs) xs @ take (n - (length xs - s mod length xs)) xs"
proof (cases "xs = []")
  case True
  with assms show ?thesis by simp
next
  case False
  let ?N = "length xs" let ?k = "s mod ?N"
  have k: "?k < ?N" using False by simp
  have "window xs s n = window xs s ((?N - ?k) + (n - (?N - ?k)))" using assms(1) k by simp
  also have "\<dots> = window xs s (?N - ?k) @ window xs (s + (?N - ?k)) (n - (?N - ?k))"
    by (rule window_append)
  also have "window xs s (?N - ?k) = drop ?k xs"
    using k by (simp add: window_straight)
  also have "window xs (s + (?N - ?k)) (n - (?N - ?k)) = take (n - (?N - ?k)) xs"
  proof -
    have "(s + (?N - ?k)) mod ?N = 0"
      using k by (metis add.commute add_diff_inverse_nat mod_add_left_eq mod_self nat_less_le not_le)
    then show ?thesis using assms k by (subst window_straight) auto
  qed
  finally show ?thesis .
qed

lemma length_circ_write [simp, ring_simps]:
  assumes "length ys \<le> length xs"
  shows "length (circ_write xs s ys) = length xs"
proof (cases "xs = []")
  case False
  then have "s mod length xs < length xs" by simp
  with assms show ?thesis by (auto simp: circ_write_def Let_def)
qed (use assms in \<open>simp add: circ_write_def splice_at_def\<close>)

text \<open>A cell is overwritten exactly when its distance from the start is below the length.\<close>

lemma nth_circ_write:
  assumes "length ys \<le> length xs" "j < length xs"
  shows "circ_write xs s ys ! ((s + j) mod length xs) =
    (if j < length ys then ys ! j else xs ! ((s + j) mod length xs))"
proof -
  let ?N = "length xs" let ?k = "s mod ?N"
  have k: "?k < ?N" using assms(2) by (metis gr_implies_not0 mod_less_divisor neq0_conv)
  have p: "(s + j) mod ?N = (if ?k + j < ?N then ?k + j else ?k + j - ?N)"
  proof -
    have "(s + j) mod ?N = (?k + j) mod ?N" by (simp add: mod_add_left_eq)
    then show ?thesis using k assms(2) by (simp add: mod_if [of "?k + j"] le_mod_geq)
  qed
  show ?thesis
  proof (cases "?k + length ys \<le> ?N")
    case True
    then show ?thesis
      using k assms by (auto simp: circ_write_def Let_def nth_splice_at p)
  next
    case False
    then show ?thesis
      using k assms by (auto simp: circ_write_def Let_def nth_splice_at p)
  qed
qed

lemma window_circ_write_same:
  assumes "length ys \<le> length xs"
  shows "window (circ_write xs s ys) s (length ys) = ys"
  using assms by (intro nth_equalityI) (auto simp: nth_window nth_circ_write)

lemma window_circ_write_before:
  assumes "n + length ys \<le> length xs"
  shows "window (circ_write xs (s + n) ys) s n = window xs s n"
proof (rule nth_equalityI)
  let ?N = "length xs"
  fix i assume "i < length (window (circ_write xs (s + n) ys) s n)"
  then have i: "i < n" by simp
  define j where "j = ?N - n + i"
  have j: "j < ?N" "length ys \<le> j" "(s + n + j) mod ?N = (s + i) mod ?N"
    using assms i by (auto simp: j_def add.left_commute [of s])
  have "circ_write xs (s + n) ys ! ((s + n + j) mod ?N) = xs ! ((s + n + j) mod ?N)"
    using nth_circ_write [of ys xs j "s + n"] assms j by simp
  with i j(3) assms show "window (circ_write xs (s + n) ys) s n ! i = window xs s n ! i"
    by (simp add: nth_window)
qed simp

text \<open>Writing behind a window of data appends to it as long as the capacity is respected.\<close>

lemma window_circ_write_append [ring_simps]:
  assumes "n + length ys \<le> length xs"
  shows "window (circ_write xs (s + n) ys) s (n + length ys) = window xs s n @ ys"
  using assms by (simp add: window_append window_circ_write_before window_circ_write_same)

lemma circ_write_mod: "circ_write xs (s mod length xs) ys = circ_write xs s ys"
  by (simp add: circ_write_def)

end
