(* ===== verification/Bytes.thy ===== *)
theory Bytes
  imports Prelude
begin

text \<open>
  Byte images of machine words. The C code moves words through character buffers with
  \<^verbatim>\<open>memcpy\<close> and pointer casts; on the targets modelled the representation is little-endian.
  The round trips between a word and its image, and the word cells of a byte array that
  \<^verbatim>\<open>wayland-util.c\<close> and \<^verbatim>\<open>connection.c\<close> index, are established here once.
\<close>

section \<open>Images of words\<close>

fun le_bytes :: "nat \<Rightarrow> 'a::len word \<Rightarrow> bytes" where
  "le_bytes 0 w = []"
| "le_bytes (Suc n) w = ucast w # le_bytes n (drop_bit 8 w)"

fun of_le :: "bytes \<Rightarrow> 'a::len word" where
  "of_le [] = 0"
| "of_le (b # bs) = ucast b + 256 * of_le bs"

fun nat_le :: "bytes \<Rightarrow> nat" where
  "nat_le [] = 0"
| "nat_le (b # bs) = unat b + 256 * nat_le bs"

lemma length_le_bytes [simp]: "length (le_bytes n w) = n"
  by (induction n arbitrary: w) auto

lemma nat_le_bound: "nat_le bs < 256 ^ length bs"
proof (induction bs)
  case (Cons b bs)
  have "unat b < 256" by simp
  moreover have "nat_le bs + 1 \<le> 256 ^ length bs" using Cons by simp
  ultimately have "unat b + 256 * nat_le bs < 256 * 256 ^ length bs" by linarith
  then show ?case by simp
qed simp

lemma nat_le_inj: "length xs = length ys \<Longrightarrow> nat_le xs = nat_le ys \<Longrightarrow> xs = ys"
proof (induction xs ys rule: list_induct2)
  case (Cons x xs y ys)
  have lt: "unat x < 256" "unat y < 256" by simp_all
  have eq: "unat x + 256 * nat_le xs = unat y + 256 * nat_le ys" using Cons.prems by simp
  have "unat x = unat y" using arg_cong [OF eq, of "\<lambda>n. n mod 256"] lt by simp
  moreover from this have "nat_le xs = nat_le ys" using eq by simp
  ultimately show ?case using Cons.IH by (simp add: word_unat_eq_iff)
qed simp

lemma nat_le_lt_word:
  assumes "8 * length bs \<le> LENGTH('a::len)"
  shows "nat_le bs < 2 ^ LENGTH('a)"
proof -
  have "(256::nat) ^ length bs = 2 ^ (8 * length bs)" by (simp add: power_mult)
  also have "\<dots> \<le> 2 ^ LENGTH('a)" using assms by simp
  finally show ?thesis using nat_le_bound [of bs] by linarith
qed

lemma unat_of_le:
  "8 * length bs \<le> LENGTH('a) \<Longrightarrow> unat (of_le bs :: 'a::len word) = nat_le bs"
proof (induction bs)
  case (Cons b bs)
  have len: "8 * Suc (length bs) \<le> LENGTH('a)" using Cons.prems by simp
  have lt: "nat_le (b # bs) < 2 ^ LENGTH('a)"
    by (rule nat_le_lt_word) (use len in simp)
  have "unat (ucast b :: 'a word) = unat b"
    using len by (simp add: unsigned_ucast_eq take_bit_eq_mod)
      (metis lt mod_less nat_le.simps(2) add_lessD1)
  moreover have "unat (of_le bs :: 'a word) = nat_le bs" using Cons by simp
  ultimately have "of_le (b # bs) = (of_nat (nat_le (b # bs)) :: 'a word)"
    by (simp flip: \<open>unat (of_le bs) = nat_le bs\<close>)
  then show ?case
    using lt by (simp only: unat_of_nat mod_less)
qed simp

lemma nat_le_le_bytes: "nat_le (le_bytes n w) = unat w mod 256 ^ n"
proof (induction n arbitrary: w)
  case (Suc n)
  have "unat (drop_bit 8 w) = unat w div 256"
    by (simp add: unat_drop_bit_eq flip: drop_bit_eq_div [of 8, simplified])
  moreover have "unat (ucast w :: byte) = unat w mod 256"
    by (simp add: unsigned_ucast_eq take_bit_eq_mod)
  ultimately show ?case
    using Suc by (simp add: mod_mult2_eq)
qed simp

lemma of_le_le_bytes:
  assumes "8 * n = LENGTH('a)"
  shows "of_le (le_bytes n w) = (w :: 'a::len word)"
proof -
  have "(256::nat) ^ n = 2 ^ LENGTH('a)" using assms [symmetric] by (simp add: power_mult)
  then have "unat (of_le (le_bytes n w) :: 'a word) = unat w"
    using assms by (simp add: unat_of_le nat_le_le_bytes)
  then show ?thesis by (simp add: word_unat_eq_iff)
qed

lemma of_le_le_bytes32 [simp]: "of_le (le_bytes 4 w) = (w :: u32)"
  by (rule of_le_le_bytes) simp

lemma of_le_le_bytes64 [simp]: "of_le (le_bytes 8 w) = (w :: u64)"
  by (rule of_le_le_bytes) simp

lemma le_bytes_of_le:
  assumes "8 * length bs \<le> LENGTH('a::len)" "n = length bs"
  shows "le_bytes n (of_le bs :: 'a word) = bs"
  using assms nat_le_bound [of bs]
  by (intro nat_le_inj) (simp_all add: nat_le_le_bytes unat_of_le)

section \<open>Word cells of a byte array\<close>

text \<open>
  \<open>load n k mem\<close> reads the \<open>n\<close>-byte word at offset \<open>k\<close>, \<open>store\<close> writes it.
\<close>

definition load :: "nat \<Rightarrow> nat \<Rightarrow> bytes \<Rightarrow> 'a::len word" where
  "load n k mem = of_le (take n (drop k mem))"

definition store :: "nat \<Rightarrow> nat \<Rightarrow> 'a::len word \<Rightarrow> bytes \<Rightarrow> bytes" where
  "store n k w mem = splice_at k (le_bytes n w) mem"

lemma length_store [simp]: "k + n \<le> length mem \<Longrightarrow> length (store n k w mem) = length mem"
  by (simp add: store_def)

lemma load_store_same:
  assumes "k + n \<le> length mem" "8 * n = LENGTH('a)"
  shows "load n k (store n k w mem) = (w :: 'a::len word)"
proof -
  have "take n (drop k (splice_at k (le_bytes n w) mem)) = le_bytes n w"
    using take_drop_splice_at_same [of k "le_bytes n w" mem] assms(1) by simp
  then show ?thesis
    using assms(2) by (simp add: load_def store_def of_le_le_bytes)
qed

lemma load_store_other:
  assumes "k + n \<le> length mem" "j + m \<le> k \<or> k + n \<le> j" "j + m \<le> length mem"
  shows "load m j (store n k w mem) = load m j mem"
  using assms by (simp add: load_def store_def take_drop_splice_at_other)

lemma load_take: "k + n \<le> m \<Longrightarrow> load n k (take m xs) = load n k xs"
  by (simp add: load_def drop_take min_def)

lemma load_append_left: "k + n \<le> length xs \<Longrightarrow> load n k (xs @ ys) = load n k xs"
  by (simp add: load_def)

end
