(* ===== verification/Wl_Buffer.thy ===== *)
theory Wl_Buffer
  imports Circular Bytes
begin

unbundle bit_operations_syntax

text \<open>
  The ring buffers of \<^verbatim>\<open>connection.c\<close> (\<^verbatim>\<open>struct wl_buffer\<close>): 4096 bytes with free-running 32-bit
  head and tail positions. Their contents are a byte sequence; every operation is related to an
  operation on that sequence.
\<close>

section \<open>State and operations\<close>

record wl_buffer =
  bdata :: bytes
  head :: u32
  tail :: u32

definition BUFFER_SIZE :: nat where
  "BUFFER_SIZE = 4096"

definition MASK :: "u32 \<Rightarrow> nat" where
  "MASK i = unat (i AND 4095)"

definition empty_buffer :: wl_buffer where
  "empty_buffer = \<lparr>bdata = replicate BUFFER_SIZE 0, head = 0, tail = 0\<rparr>"

text \<open>The result is \<open>-1\<close> (with \<^verbatim>\<open>errno\<close> set to \<^verbatim>\<open>E2BIG\<close>) when the data can never fit.\<close>

definition wl_buffer_put :: "wl_buffer \<Rightarrow> bytes \<Rightarrow> wl_buffer \<times> int" where
  "wl_buffer_put b data =
     (let count = length data in
      if count > BUFFER_SIZE then (b, -1)
      else
        let hd = MASK (head b);
            mem = (if hd + count \<le> BUFFER_SIZE then splice_at hd data (bdata b)
                   else let size = BUFFER_SIZE - hd
                        in splice_at 0 (drop size data) (splice_at hd (take size data) (bdata b)))
        in (b\<lparr>bdata := mem, head := head b + of_nat count\<rparr>, 0))"

text \<open>An I/O vector over the buffer's own storage: offsets and lengths.\<close>

type_synonym iovec = "(nat \<times> nat) list"

definition wl_buffer_put_iov :: "wl_buffer \<Rightarrow> iovec" where
  "wl_buffer_put_iov b =
     (let hd = MASK (head b); tl = MASK (tail b)
      in if hd < tl then [(hd, tl - hd)]
         else if tl = 0 then [(hd, BUFFER_SIZE - hd)]
         else [(hd, BUFFER_SIZE - hd), (0, tl)])"

definition wl_buffer_get_iov :: "wl_buffer \<Rightarrow> iovec" where
  "wl_buffer_get_iov b =
     (let hd = MASK (head b); tl = MASK (tail b)
      in if tl < hd then [(tl, hd - tl)]
         else if hd = 0 then [(tl, BUFFER_SIZE - tl)]
         else [(tl, BUFFER_SIZE - tl), (0, hd)])"

definition wl_buffer_copy :: "wl_buffer \<Rightarrow> nat \<Rightarrow> bytes" where
  "wl_buffer_copy b count =
     (let tl = MASK (tail b)
      in if tl + count \<le> BUFFER_SIZE then take count (drop tl (bdata b))
         else let size = BUFFER_SIZE - tl
              in take size (drop tl (bdata b)) @ take (count - size) (bdata b))"

definition wl_buffer_size :: "wl_buffer \<Rightarrow> u32" where
  "wl_buffer_size b = head b - tail b"

text \<open>The bytes an I/O vector designates, and the storage after the kernel filled it.\<close>

definition gather :: "iovec \<Rightarrow> bytes \<Rightarrow> bytes" where
  "gather iov mem = concat (map (\<lambda>(off, len). take len (drop off mem)) iov)"

fun scatter :: "iovec \<Rightarrow> bytes \<Rightarrow> bytes \<Rightarrow> bytes" where
  "scatter [] data mem = mem"
| "scatter ((off, len) # iov) data mem =
     scatter iov (drop len data) (splice_at off (take len data) mem)"

definition iov_space :: "iovec \<Rightarrow> nat" where
  "iov_space iov = sum_list (map snd iov)"

section \<open>Abstraction\<close>

definition buffer_ok :: "wl_buffer \<Rightarrow> bool" where
  "buffer_ok b \<longleftrightarrow> length (bdata b) = BUFFER_SIZE \<and> unat (wl_buffer_size b) \<le> BUFFER_SIZE"

definition contents :: "wl_buffer \<Rightarrow> bytes" where
  "contents b = window (bdata b) (unat (tail b)) (unat (wl_buffer_size b))"

lemma length_contents [simp, ring_simps]: "length (contents b) = unat (wl_buffer_size b)"
  by (simp add: contents_def)

lemma MASK_mod: "MASK i = unat i mod BUFFER_SIZE"
proof -
  have "i AND 4095 = take_bit 12 i" by (simp add: take_bit_eq_mask mask_eq_exp_minus_1)
  then show ?thesis by (simp add: MASK_def BUFFER_SIZE_def take_bit_eq_mod unat_mod)
qed

lemma MASK_less: "MASK i < BUFFER_SIZE"
  by (simp add: MASK_mod BUFFER_SIZE_def)

text \<open>The positions wrap at \<open>2 ^ 32\<close>, a multiple of the capacity.\<close>

lemma unat_add_mod_buffer:
  "unat (t + of_nat n :: u32) mod BUFFER_SIZE = (unat t + n) mod BUFFER_SIZE"
proof -
  have "unat (t + of_nat n :: u32) = (unat t + n) mod 2 ^ 32"
    by (simp add: unat_word_ariths unat_of_nat mod_add_right_eq)
  moreover have "BUFFER_SIZE dvd 2 ^ 32" by (simp add: BUFFER_SIZE_def)
  ultimately show ?thesis by (simp only: mod_mod_cancel)
qed

lemma head_tail: "head b = tail b + of_nat (unat (wl_buffer_size b))"
  by (simp add: wl_buffer_size_def)

lemma head_position:
  "MASK (head b) = (unat (tail b) + unat (wl_buffer_size b)) mod BUFFER_SIZE"
  unfolding MASK_mod by (subst head_tail) (rule unat_add_mod_buffer)

lemma empty_buffer_ok [simp]: "buffer_ok empty_buffer"
  by (simp add: buffer_ok_def empty_buffer_def wl_buffer_size_def BUFFER_SIZE_def)

lemma contents_empty_buffer [simp]: "contents empty_buffer = []"
  by (simp add: contents_def empty_buffer_def wl_buffer_size_def)

section \<open>Writing and reading\<close>

lemma wl_buffer_put_write:
  assumes "buffer_ok b" "length data \<le> BUFFER_SIZE"
  shows "wl_buffer_put b data =
    (b\<lparr>bdata := circ_write (bdata b) (unat (tail b) + unat (wl_buffer_size b)) data,
       head := head b + of_nat (length data)\<rparr>, 0)"
  using assms head_position [of b]
  by (simp add: wl_buffer_put_def Let_def circ_write_def buffer_ok_def)

lemma wl_buffer_put_ok:
  assumes "buffer_ok b" "unat (wl_buffer_size b) + length data \<le> BUFFER_SIZE"
  obtains b' where "wl_buffer_put b data = (b', 0)" "buffer_ok b'"
    "contents b' = contents b @ data"
    "unat (wl_buffer_size b') = unat (wl_buffer_size b) + length data" "tail b' = tail b"
proof -
  let ?n = "unat (wl_buffer_size b)" let ?d = "length data"
  let ?b = "b\<lparr>bdata := circ_write (bdata b) (unat (tail b) + ?n) data, head := head b + of_nat ?d\<rparr>"
  have len: "length (bdata b) = BUFFER_SIZE" using assms(1) by (simp add: buffer_ok_def)
  have "wl_buffer_size ?b = wl_buffer_size b + of_nat ?d" by (simp add: wl_buffer_size_def)
  then have sz: "unat (wl_buffer_size ?b) = ?n + ?d"
    using assms(2) by (simp add: unat_word_ariths unat_of_nat BUFFER_SIZE_def)
  have "contents ?b = contents b @ data"
    using assms(2) sz len by (simp add: contents_def window_circ_write_append)
  moreover have "buffer_ok ?b"
    using assms sz len by (simp add: buffer_ok_def)
  moreover have "wl_buffer_put b data = (?b, 0)"
    using assms by (simp add: wl_buffer_put_write)
  ultimately show ?thesis using that [of ?b] sz by simp
qed

lemma wl_buffer_copy_window:
  assumes "buffer_ok b" "n \<le> BUFFER_SIZE"
  shows "wl_buffer_copy b n = window (bdata b) (unat (tail b)) n"
proof -
  have len: "length (bdata b) = BUFFER_SIZE" using assms(1) by (simp add: buffer_ok_def)
  have k: "MASK (tail b) = unat (tail b) mod length (bdata b)" by (simp add: MASK_mod len)
  show ?thesis
  proof (cases "MASK (tail b) + n \<le> BUFFER_SIZE")
    case True
    then show ?thesis
      using window_straight [of "unat (tail b)" "bdata b" n] len k
      by (simp add: wl_buffer_copy_def Let_def)
  next
    case False
    then show ?thesis
      using window_wrapped [of "bdata b" "unat (tail b)" n] len k assms(2)
      by (simp add: wl_buffer_copy_def Let_def)
  qed
qed

lemma wl_buffer_copy_contents:
  assumes "buffer_ok b" "n \<le> unat (wl_buffer_size b)"
  shows "wl_buffer_copy b n = take n (contents b)"
  using assms by (simp add: wl_buffer_copy_window contents_def take_window buffer_ok_def)

text \<open>Advancing the tail drops bytes from the front.\<close>

lemma buffer_consume:
  assumes "buffer_ok b" "n \<le> unat (wl_buffer_size b)"
  shows "buffer_ok (b\<lparr>tail := tail b + of_nat n\<rparr>)"
    "contents (b\<lparr>tail := tail b + of_nat n\<rparr>) = drop n (contents b)"
    "unat (wl_buffer_size (b\<lparr>tail := tail b + of_nat n\<rparr>)) = unat (wl_buffer_size b) - n"
proof -
  let ?b = "b\<lparr>tail := tail b + of_nat n\<rparr>"
  have n32: "n < 2 ^ 32" using le_less_trans [OF assms(2) unat_u32_less] by simp
  have "wl_buffer_size ?b = wl_buffer_size b - of_nat n" by (simp add: wl_buffer_size_def)
  moreover have "(of_nat n :: u32) \<le> wl_buffer_size b"
    using assms(2) n32 by (simp add: word_le_nat_alt unat_of_nat)
  ultimately show sz: "unat (wl_buffer_size ?b) = unat (wl_buffer_size b) - n"
    using n32 by (simp add: unat_minus_le unat_of_nat)
  with assms show "buffer_ok ?b" by (auto simp: buffer_ok_def)
  have len: "length (bdata b) = BUFFER_SIZE" using assms(1) by (simp add: buffer_ok_def)
  have "window (bdata b) (unat (tail b + of_nat n)) k = window (bdata b) (unat (tail b) + n) k" for k
    by (rule window_cong_mod) (simp add: len unat_add_mod_buffer)
  with sz assms(2) show "contents ?b = drop n (contents b)"
    by (simp add: contents_def drop_window)
qed

section \<open>I/O vectors\<close>

lemma buffer_positions:
  assumes "buffer_ok b"
  obtains "MASK (head b) = MASK (tail b) + unat (wl_buffer_size b)"
      "MASK (tail b) + unat (wl_buffer_size b) < BUFFER_SIZE"
  | "MASK (head b) + BUFFER_SIZE = MASK (tail b) + unat (wl_buffer_size b)"
      "BUFFER_SIZE \<le> MASK (tail b) + unat (wl_buffer_size b)"
proof -
  let ?t = "MASK (tail b)" let ?n = "unat (wl_buffer_size b)"
  have n: "?n \<le> BUFFER_SIZE" using assms by (simp add: buffer_ok_def)
  have t: "?t < BUFFER_SIZE" by (rule MASK_less)
  have "MASK (head b) = (?t + ?n) mod BUFFER_SIZE"
    using head_position [of b] by (simp add: MASK_mod [of "tail b"] mod_add_left_eq)
  then have h: "MASK (head b) = (if ?t + ?n < BUFFER_SIZE then ?t + ?n else ?t + ?n - BUFFER_SIZE)"
    using n t by (simp add: mod_if [of "?t + ?n"] le_mod_geq)
  show ?thesis
    using that h by (cases "?t + ?n < BUFFER_SIZE") auto
qed

lemma wl_buffer_get_iov_contents:
  assumes ok: "buffer_ok b" and ne: "0 < unat (wl_buffer_size b)"
  shows "gather (wl_buffer_get_iov b) (bdata b) = contents b"
proof -
  let ?t = "MASK (tail b)" let ?h = "MASK (head b)" let ?n = "unat (wl_buffer_size b)"
  have len: "length (bdata b) = BUFFER_SIZE" "?n \<le> BUFFER_SIZE" using ok by (auto simp: buffer_ok_def)
  have k: "unat (tail b) mod BUFFER_SIZE = ?t" by (simp add: MASK_mod)
  from ok show ?thesis
  proof (rule buffer_positions)
    assume "?h = ?t + ?n" "?t + ?n < BUFFER_SIZE"
    with ne len show ?thesis
      using window_straight [of "unat (tail b)" "bdata b" ?n]
      by (simp add: wl_buffer_get_iov_def gather_def contents_def k Let_def)
  next
    assume h: "?h + BUFFER_SIZE = ?t + ?n" "BUFFER_SIZE \<le> ?t + ?n"
    then have n: "?n = BUFFER_SIZE - ?t + ?h" "?h \<le> ?t" using len MASK_less [of "tail b"] by auto
    show ?thesis
    proof (cases "?h = 0")
      case True
      then show ?thesis
        using n len window_straight [of "unat (tail b)" "bdata b" ?n] MASK_less [of "tail b"]
        by (simp add: wl_buffer_get_iov_def gather_def contents_def k Let_def)
    next
      case False
      then have "BUFFER_SIZE < ?t + ?n" using n MASK_less [of "tail b"] by auto
      then show ?thesis
        using False n len window_wrapped [of "bdata b" "unat (tail b)" ?n]
        by (simp add: wl_buffer_get_iov_def gather_def contents_def k Let_def)
    qed
  qed
qed

lemma wl_buffer_put_iov_space:
  assumes ok: "buffer_ok b" and room: "unat (wl_buffer_size b) < BUFFER_SIZE"
  shows "iov_space (wl_buffer_put_iov b) = BUFFER_SIZE - unat (wl_buffer_size b)"
  using ok
proof (rule buffer_positions)
  assume "MASK (head b) = MASK (tail b) + unat (wl_buffer_size b)"
    "MASK (tail b) + unat (wl_buffer_size b) < BUFFER_SIZE"
  then show ?thesis by (auto simp: wl_buffer_put_iov_def iov_space_def Let_def)
next
  assume "MASK (head b) + BUFFER_SIZE = MASK (tail b) + unat (wl_buffer_size b)"
    "BUFFER_SIZE \<le> MASK (tail b) + unat (wl_buffer_size b)"
  with room show ?thesis by (auto simp: wl_buffer_put_iov_def iov_space_def Let_def)
qed

lemma wl_buffer_put_iov_write:
  assumes ok: "buffer_ok b" and room: "unat (wl_buffer_size b) < BUFFER_SIZE"
    and fit: "unat (wl_buffer_size b) + length data \<le> BUFFER_SIZE"
  shows "scatter (wl_buffer_put_iov b) data (bdata b) =
    circ_write (bdata b) (unat (tail b) + unat (wl_buffer_size b)) data"
proof -
  let ?t = "MASK (tail b)" let ?h = "MASK (head b)" let ?n = "unat (wl_buffer_size b)"
  have len: "length (bdata b) = BUFFER_SIZE" using ok by (auto simp: buffer_ok_def)
  have k: "(unat (tail b) + ?n) mod BUFFER_SIZE = ?h" using head_position [of b] by simp
  have h: "?h < BUFFER_SIZE" by (rule MASK_less)
  from ok show ?thesis
  proof (rule buffer_positions)
    assume "?h = ?t + ?n" "?t + ?n < BUFFER_SIZE"
    with fit len show ?thesis
      by (auto simp: wl_buffer_put_iov_def Let_def circ_write_def k)
  next
    assume "?h + BUFFER_SIZE = ?t + ?n" "BUFFER_SIZE \<le> ?t + ?n"
    with room fit len h MASK_less [of "tail b"] show ?thesis
      by (auto simp: wl_buffer_put_iov_def Let_def circ_write_def k)
  qed
qed

text \<open>Receiving into the free space and advancing the head appends the received bytes.\<close>

lemma buffer_receive:
  assumes ok: "buffer_ok b" and room: "unat (wl_buffer_size b) < BUFFER_SIZE"
    and fit: "unat (wl_buffer_size b) + length data \<le> BUFFER_SIZE"
  defines "b' \<equiv> b\<lparr>bdata := scatter (wl_buffer_put_iov b) data (bdata b),
    head := head b + of_nat (length data)\<rparr>"
  shows "buffer_ok b'" "contents b' = contents b @ data"
    "unat (wl_buffer_size b') = unat (wl_buffer_size b) + length data"
proof -
  have "wl_buffer_put b data = (b', 0)"
    using ok room fit by (simp add: b'_def wl_buffer_put_iov_write wl_buffer_put_write)
  with ok fit show "buffer_ok b'" "contents b' = contents b @ data"
    "unat (wl_buffer_size b') = unat (wl_buffer_size b) + length data"
    using wl_buffer_put_ok [of b data] by auto
qed

end
