(* ===== verification/Wl_Connection.thy ===== *)
theory Wl_Connection
  imports Wl_Buffer
begin

text \<open>
  The connection of \<^verbatim>\<open>connection.c\<close>: four ring buffers (bytes and file descriptors, in and out),
  flushed to and filled from a socket. The socket's behaviour is an explicit script of outcomes,
  one per system call, so that short writes, interruptions and errors are all inputs of the
  model; what reaches the peer and what is closed is recorded.
\<close>

section \<open>The operating system\<close>

text \<open>
  \<open>Accept n\<close> is a \<^verbatim>\<open>sendmsg\<close> for which the kernel has room for \<open>n\<close> bytes: it takes that
  many of the offered ones, or all of them. \<open>Deliver bs cs\<close> is a \<^verbatim>\<open>recvmsg\<close> that finds the
  bytes \<open>bs\<close> and the control messages \<open>cs\<close>; no bytes is the end of the stream. \<open>dups\<close> are the
  descriptors that successive duplications return; when it is empty a duplication fails.
\<close>

record cmsghdr =
  cmsg_level :: int
  cmsg_type :: int
  cmsg_data :: bytes

datatype send_outcome = Accept nat | SendError int

datatype recv_outcome = Deliver bytes "cmsghdr list" | RecvError int

record os =
  sends :: "send_outcome list"
  recvs :: "recv_outcome list"
  dups :: "u32 list"
  sent :: bytes
  sent_fds :: "u32 list"
  closed :: "u32 list"
  errno :: int

definition EINTR :: int where "EINTR = 4"
definition E2BIG :: int where "E2BIG = 7"
definition EOVERFLOW :: int where "EOVERFLOW = 75"
definition SOL_SOCKET :: int where "SOL_SOCKET = 1"
definition SCM_RIGHTS :: int where "SCM_RIGHTS = 1"

fun words32 :: "bytes \<Rightarrow> u32 list" where
  "words32 bs = (if length bs < 4 then [] else of_le (take 4 bs) # words32 (drop 4 bs))"

declare words32.simps [simp del]

text \<open>
  The loops \<^verbatim>\<open>do ... while (len == -1 && errno == EINTR)\<close> around the two system calls: the first
  outcome that is no interruption and what is left of the script. \<open>None\<close>: still waiting.
\<close>

fun sendmsg_retry :: "send_outcome list \<Rightarrow> (send_outcome \<times> send_outcome list) option" where
  "sendmsg_retry [] = None"
| "sendmsg_retry (Accept n # rs) = Some (Accept n, rs)"
| "sendmsg_retry (SendError e # rs) =
     (if e = EINTR then sendmsg_retry rs else Some (SendError e, rs))"

fun recvmsg_retry :: "recv_outcome list \<Rightarrow> (recv_outcome \<times> recv_outcome list) option" where
  "recvmsg_retry [] = None"
| "recvmsg_retry (Deliver bs cs # rs) = Some (Deliver bs cs, rs)"
| "recvmsg_retry (RecvError e # rs) =
     (if e = EINTR then recvmsg_retry rs else Some (RecvError e, rs))"

lemma sendmsg_retry_shorter [termination_simp]:
  "sendmsg_retry rs = Some (r, rest) \<Longrightarrow> length rest < length rs"
  by (induction rs rule: sendmsg_retry.induct) (auto split: if_splits)

section \<open>Connections\<close>

record wl_connection =
  inb :: wl_buffer
  out :: wl_buffer
  fds_in :: wl_buffer
  fds_out :: wl_buffer
  cfd :: int
  want_flush :: bool

definition MAX_FDS_OUT :: nat where
  "MAX_FDS_OUT = 28"

text \<open>The first argument says whether \<^verbatim>\<open>zalloc\<close> finds memory.\<close>

definition wl_connection_create :: "bool \<Rightarrow> int \<Rightarrow> wl_connection option" where
  "wl_connection_create mem fd =
     (if \<not> mem then None
      else Some \<lparr>inb = empty_buffer, out = empty_buffer, fds_in = empty_buffer,
        fds_out = empty_buffer, cfd = fd, want_flush = False\<rparr>)"

definition close_fds :: "wl_buffer \<Rightarrow> int \<Rightarrow> os \<Rightarrow> wl_buffer \<times> os" where
  "close_fds buffer mx w =
     (let size = unat (wl_buffer_size buffer) in
      if size = 0 then (buffer, w)
      else
        let fds = words32 (wl_buffer_copy buffer size);
            count = size div 4;
            count = (if 0 < mx \<and> mx < int count then nat mx else count)
        in (buffer\<lparr>tail := tail buffer + of_nat (count * 4)\<rparr>,
            w\<lparr>closed := closed w @ take count fds\<rparr>))"

definition wl_connection_close_fds_in :: "wl_connection \<Rightarrow> int \<Rightarrow> os \<Rightarrow> wl_connection \<times> os" where
  "wl_connection_close_fds_in c mx w =
     (let (b, w) = close_fds (fds_in c) mx w in (c\<lparr>fds_in := b\<rparr>, w))"

definition wl_connection_destroy :: "wl_connection \<Rightarrow> os \<Rightarrow> int \<times> os" where
  "wl_connection_destroy c w =
     (let (_, w) = close_fds (fds_out c) (-1) w;
          (_, w) = close_fds (fds_in c) (-1) w
      in (cfd c, w))"

definition wl_connection_copy :: "wl_connection \<Rightarrow> nat \<Rightarrow> bytes" where
  "wl_connection_copy c sz = wl_buffer_copy (inb c) sz"

definition wl_connection_consume :: "wl_connection \<Rightarrow> nat \<Rightarrow> wl_connection" where
  "wl_connection_consume c sz = c\<lparr>inb := (inb c)\<lparr>tail := tail (inb c) + of_nat sz\<rparr>\<rparr>"

text \<open>The payload of the control message that goes with a write; none when it is empty.\<close>

definition build_cmsg :: "wl_buffer \<Rightarrow> bytes" where
  "build_cmsg buffer =
     (let size = unat (wl_buffer_size buffer);
          size = (if size > MAX_FDS_OUT * 4 then MAX_FDS_OUT * 4 else size)
      in if size > 0 then wl_buffer_copy buffer size else [])"

fun decode_cmsg_loop ::
    "cmsghdr list \<Rightarrow> bool \<Rightarrow> wl_buffer \<Rightarrow> os \<Rightarrow> wl_buffer \<times> os \<times> bool \<times> int" where
  "decode_cmsg_loop [] overflow buffer w = (buffer, w, overflow, 0)"
| "decode_cmsg_loop (m # ms) overflow buffer w =
     (if cmsg_level m \<noteq> SOL_SOCKET \<or> cmsg_type m \<noteq> SCM_RIGHTS
      then decode_cmsg_loop ms overflow buffer w
      else
        let size = length (cmsg_data m); mx = BUFFER_SIZE - unat (wl_buffer_size buffer)
        in if size > mx \<or> overflow
           then decode_cmsg_loop ms True buffer
                  (w\<lparr>closed := closed w @ words32 (cmsg_data m)\<rparr>)
           else case wl_buffer_put buffer (cmsg_data m) of
                  (buffer, r) \<Rightarrow>
                    if r < 0 then (buffer, w\<lparr>errno := E2BIG\<rparr>, overflow, -1)
                    else decode_cmsg_loop ms overflow buffer w)"

definition decode_cmsg :: "wl_buffer \<Rightarrow> cmsghdr list \<Rightarrow> os \<Rightarrow> wl_buffer \<times> os \<times> int" where
  "decode_cmsg buffer ms w =
     (case decode_cmsg_loop ms False buffer w of
        (buffer, w, overflow, r) \<Rightarrow>
          if r < 0 then (buffer, w, -1)
          else if overflow then (buffer, w\<lparr>errno := EOVERFLOW\<rparr>, -1)
          else (buffer, w, 0))"

text \<open>One iteration of the flush loop after a successful \<^verbatim>\<open>sendmsg\<close>.\<close>

definition sent_step :: "wl_connection \<Rightarrow> nat \<Rightarrow> os \<Rightarrow> wl_connection \<times> os" where
  "sent_step c n w =
     (let data = gather (wl_buffer_get_iov (out c)) (bdata (out c));
          len = min n (length data);
          w = w\<lparr>sent := sent w @ take len data,
                 sent_fds := sent_fds w @ words32 (build_cmsg (fds_out c))\<rparr>;
          (fb, w) = close_fds (fds_out c) (int MAX_FDS_OUT) w
      in (c\<lparr>fds_out := fb, out := (out c)\<lparr>tail := tail (out c) + of_nat len\<rparr>\<rparr>, w))"

function flush_loop :: "wl_connection \<Rightarrow> os \<Rightarrow> (wl_connection \<times> os \<times> bool) option" where
  "flush_loop c w =
     (if head (out c) - tail (out c) > 0 then
        (case sendmsg_retry (sends w) of
           None \<Rightarrow> None
         | Some (SendError e, rest) \<Rightarrow> Some (c, w\<lparr>sends := rest, errno := e\<rparr>, False)
         | Some (Accept n, rest) \<Rightarrow>
             (case sent_step c n (w\<lparr>sends := rest\<rparr>) of
                (c, w') \<Rightarrow> flush_loop c (w'\<lparr>sends := rest\<rparr>)))
      else Some (c, w, True))"
  by pat_completeness auto
termination
  by (relation "measure (\<lambda>(c, w). length (sends w))") (auto dest: sendmsg_retry_shorter)

declare flush_loop.simps [simp del]

definition wl_connection_flush :: "wl_connection \<Rightarrow> os \<Rightarrow> (wl_connection \<times> os \<times> int) option" where
  "wl_connection_flush c w =
     (if \<not> want_flush c then Some (c, w, 0)
      else case flush_loop c w of
        None \<Rightarrow> None
      | Some (c', w, ok) \<Rightarrow>
          if \<not> ok then Some (c', w, -1)
          else Some (c'\<lparr>want_flush := False\<rparr>, w, sint (head (out c') - tail (out c))))"

definition wl_connection_pending_input :: "wl_connection \<Rightarrow> u32" where
  "wl_connection_pending_input c = wl_buffer_size (inb c)"

definition wl_connection_read :: "wl_connection \<Rightarrow> os \<Rightarrow> (wl_connection \<times> os \<times> int) option" where
  "wl_connection_read c w =
     (if unat (wl_buffer_size (inb c)) \<ge> BUFFER_SIZE then Some (c, w\<lparr>errno := EOVERFLOW\<rparr>, -1)
      else
        let iov = wl_buffer_put_iov (inb c) in
        case recvmsg_retry (recvs w) of
          None \<Rightarrow> None
        | Some (RecvError e, rest) \<Rightarrow> Some (c, w\<lparr>recvs := rest, errno := e\<rparr>, -1)
        | Some (Deliver bs cs, rest) \<Rightarrow>
            let data = take (iov_space iov) bs; len = length data; w = w\<lparr>recvs := rest\<rparr> in
            if len = 0 then Some (c, w, 0)
            else
              let c = c\<lparr>inb := (inb c)\<lparr>bdata := scatter iov data (bdata (inb c))\<rparr>\<rparr> in
              case decode_cmsg (fds_in c) cs w of
                (fb, w, ret) \<Rightarrow>
                  let c = c\<lparr>fds_in := fb\<rparr> in
                  if ret \<noteq> 0 then Some (c, w, -1)
                  else
                    let c = c\<lparr>inb := (inb c)\<lparr>head := head (inb c) + of_nat len\<rparr>\<rparr>
                    in Some (c, w, sint (wl_connection_pending_input c)))"

text \<open>The room check both writers start with, which flushes when the data does not fit.\<close>

definition make_room :: "wl_connection \<Rightarrow> nat \<Rightarrow> os \<Rightarrow> (wl_connection \<times> os \<times> int) option" where
  "make_room c count w =
     (if unat (head (out c) - tail (out c)) + count > BUFFER_SIZE
      then wl_connection_flush (c\<lparr>want_flush := True\<rparr>) w
      else Some (c, w, 0))"

definition wl_connection_write ::
    "wl_connection \<Rightarrow> bytes \<Rightarrow> os \<Rightarrow> (wl_connection \<times> os \<times> int) option" where
  "wl_connection_write c data w = do {
     (c, w, r) \<leftarrow> make_room c (length data) w;
     if r < 0 then Some (c, w, -1)
     else case wl_buffer_put (out c) data of
       (b, r) \<Rightarrow>
         if r < 0 then Some (c\<lparr>out := b\<rparr>, w\<lparr>errno := E2BIG\<rparr>, -1)
         else Some (c\<lparr>out := b, want_flush := True\<rparr>, w, 0)
   }"

definition wl_connection_queue ::
    "wl_connection \<Rightarrow> bytes \<Rightarrow> os \<Rightarrow> (wl_connection \<times> os \<times> int) option" where
  "wl_connection_queue c data w = do {
     (c, w, r) \<leftarrow> make_room c (length data) w;
     if r < 0 then Some (c, w, -1)
     else case wl_buffer_put (out c) data of
       (b, r) \<Rightarrow> Some (c\<lparr>out := b\<rparr>, if r < 0 then w\<lparr>errno := E2BIG\<rparr> else w, r)
   }"

definition wl_connection_get_fd :: "wl_connection \<Rightarrow> int" where
  "wl_connection_get_fd c = cfd c"

definition wl_connection_put_fd ::
    "wl_connection \<Rightarrow> u32 \<Rightarrow> os \<Rightarrow> (wl_connection \<times> os \<times> int) option" where
  "wl_connection_put_fd c fd w = do {
     (c, w, r) \<leftarrow> (if unat (wl_buffer_size (fds_out c)) = MAX_FDS_OUT * 4
       then wl_connection_flush (c\<lparr>want_flush := True\<rparr>) w
       else Some (c, w, 0));
     if r < 0 then Some (c, w, -1)
     else case wl_buffer_put (fds_out c) (le_bytes 4 fd) of
       (b, r) \<Rightarrow> Some (c\<lparr>fds_out := b\<rparr>, if r < 0 then w\<lparr>errno := E2BIG\<rparr> else w, r)
   }"

section \<open>Queues of file descriptors\<close>

lemma words32_short [simp]: "length bs < 4 \<Longrightarrow> words32 bs = []"
  by (simp add: words32.simps)

lemma words32_cell [simp]: "words32 (le_bytes 4 w @ bs) = w # words32 bs"
  by (subst words32.simps) simp

lemma words32_le_bytes [simp]: "words32 (le_bytes 4 w) = [w]"
  using words32_cell [of w "[]"] by simp

lemma words32_append:
  "4 dvd length bs \<Longrightarrow> words32 (bs @ cs) = words32 bs @ words32 cs"
proof (induction bs rule: words32.induct)
  case (1 bs)
  show ?case
  proof (cases "length bs < 4")
    case True
    with 1(2) have "bs = []" by (auto elim: dvdE)
    then show ?thesis by simp
  next
    case False
    then show ?thesis
      using 1 words32.simps [of "bs @ cs"] words32.simps [of bs] by (simp add: dvd_minus_self)
  qed
qed

lemma length_words32: "length (words32 bs) = length bs div 4"
proof (induction bs rule: words32.induct)
  case (1 bs)
  then show ?case
    by (cases "length bs < 4") (simp_all add: words32.simps [of bs] le_div_geq)
qed

lemma words32_take_drop:
  assumes "4 dvd k" "k \<le> length bs"
  shows "words32 (take k bs) = take (k div 4) (words32 bs)"
    "words32 (drop k bs) = drop (k div 4) (words32 bs)"
proof -
  have "words32 bs = words32 (take k bs) @ words32 (drop k bs)"
    using words32_append [of "take k bs" "drop k bs"] assms by simp
  moreover have "length (words32 (take k bs)) = k div 4"
    using assms by (simp add: length_words32 min_def)
  ultimately show "words32 (take k bs) = take (k div 4) (words32 bs)"
    "words32 (drop k bs) = drop (k div 4) (words32 bs)" by simp_all
qed

definition fdbuf_ok :: "wl_buffer \<Rightarrow> bool" where
  "fdbuf_ok b \<longleftrightarrow> buffer_ok b \<and> 4 dvd unat (wl_buffer_size b)"

definition queued_fds :: "wl_buffer \<Rightarrow> u32 list" where
  "queued_fds b = words32 (contents b)"

lemma length_queued_fds: "length (queued_fds b) = unat (wl_buffer_size b) div 4"
  by (simp add: queued_fds_def length_words32)

lemma fdbuf_empty [simp]: "fdbuf_ok empty_buffer" "queued_fds empty_buffer = []"
  by (simp_all add: fdbuf_ok_def queued_fds_def)
    (simp add: empty_buffer_def wl_buffer_size_def)

lemma fdbuf_consume:
  assumes "fdbuf_ok b" "n \<le> length (queued_fds b)"
  shows "fdbuf_ok (b\<lparr>tail := tail b + of_nat (n * 4)\<rparr>)"
    "queued_fds (b\<lparr>tail := tail b + of_nat (n * 4)\<rparr>) = drop n (queued_fds b)"
proof -
  have n: "n * 4 \<le> unat (wl_buffer_size b)"
    using assms(2) by (simp add: length_queued_fds)
  have ok: "buffer_ok b" "4 dvd unat (wl_buffer_size b)" using assms(1) by (auto simp: fdbuf_ok_def)
  show "fdbuf_ok (b\<lparr>tail := tail b + of_nat (n * 4)\<rparr>)"
    using buffer_consume [OF ok(1) n] ok(2) by (simp add: fdbuf_ok_def dvd_diff_nat)
  show "queued_fds (b\<lparr>tail := tail b + of_nat (n * 4)\<rparr>) = drop n (queued_fds b)"
    using buffer_consume(2) [OF ok(1) n] words32_take_drop(2) [of "n * 4" "contents b"] n
    by (simp add: queued_fds_def)
qed

lemma fdbuf_put:
  assumes "fdbuf_ok b" "unat (wl_buffer_size b) + length data \<le> BUFFER_SIZE" "4 dvd length data"
    and "wl_buffer_put b data = (b', r)"
  shows "r = 0" "fdbuf_ok b'" "queued_fds b' = queued_fds b @ words32 data"
proof -
  have ok: "buffer_ok b" "4 dvd unat (wl_buffer_size b)" using assms(1) by (auto simp: fdbuf_ok_def)
  obtain b'' where b: "wl_buffer_put b data = (b'', 0)" "buffer_ok b''"
    "contents b'' = contents b @ data"
    "unat (wl_buffer_size b'') = unat (wl_buffer_size b) + length data"
    by (rule wl_buffer_put_ok [OF ok(1) assms(2)])
  from b(1) assms(4) show "r = 0" by simp
  from b assms(3,4) ok(2) show "fdbuf_ok b'" by (simp add: fdbuf_ok_def)
  from b assms(4) ok(2) show "queued_fds b' = queued_fds b @ words32 data"
    by (simp add: queued_fds_def words32_append)
qed

text \<open>
  \<^verbatim>\<open>close_fds\<close> takes descriptors from the front of the queue, at most \<open>mx\<close> of them when
  \<open>mx\<close> is positive, and closes exactly those.
\<close>

definition close_count :: "int \<Rightarrow> nat \<Rightarrow> nat" where
  "close_count mx n = (if 0 < mx \<and> mx < int n then nat mx else n)"

lemma close_count_le: "close_count mx n \<le> n"
  by (auto simp: close_count_def)

lemma close_fds_queue:
  assumes ok: "fdbuf_ok b" and cl: "close_fds b mx w = (b', w')"
  defines "k \<equiv> close_count mx (length (queued_fds b))"
  shows "fdbuf_ok b'" "queued_fds b' = drop k (queued_fds b)"
    "w' = w\<lparr>closed := closed w @ take k (queued_fds b)\<rparr>"
proof -
  let ?n = "unat (wl_buffer_size b)"
  have n: "4 dvd ?n" "buffer_ok b" using ok by (auto simp: fdbuf_ok_def)
  have "?n \<le> length (contents b)" by simp
  then have copy: "words32 (wl_buffer_copy b ?n) = queued_fds b"
    using wl_buffer_copy_contents [OF n(2), of ?n] by (simp add: queued_fds_def)
  have "(b', w') = (b\<lparr>tail := tail b + of_nat (k * 4)\<rparr>,
      w\<lparr>closed := closed w @ take k (queued_fds b)\<rparr>)"
  proof (cases "?n = 0")
    case True
    then have "queued_fds b = []" using length_queued_fds [of b] by simp
    with True cl show ?thesis by (simp add: close_fds_def k_def close_count_def)
  next
    case False
    with cl copy show ?thesis
      by (simp add: close_fds_def k_def close_count_def Let_def length_queued_fds)
  qed
  then show "fdbuf_ok b'" "queued_fds b' = drop k (queued_fds b)"
    "w' = w\<lparr>closed := closed w @ take k (queued_fds b)\<rparr>"
    using fdbuf_consume [OF ok, of k] close_count_le by (auto simp: k_def)
qed

lemma build_cmsg_fds:
  assumes "fdbuf_ok b"
  shows "words32 (build_cmsg b) = take MAX_FDS_OUT (queued_fds b)"
proof -
  let ?n = "unat (wl_buffer_size b)"
  let ?s = "min ?n (MAX_FDS_OUT * 4)"
  have n: "4 dvd ?n" "buffer_ok b" using assms by (auto simp: fdbuf_ok_def)
  have s: "4 dvd ?s" using n(1) by (simp add: min_def)
  have "build_cmsg b = take ?s (contents b)"
    using wl_buffer_copy_contents [OF n(2), of ?s]
    by (auto simp: build_cmsg_def Let_def min_def)
  then have "words32 (build_cmsg b) = take (?s div 4) (queued_fds b)"
    using words32_take_drop(1) [OF s, of "contents b"] by (simp add: queued_fds_def)
  also have "\<dots> = take MAX_FDS_OUT (queued_fds b)"
    using length_queued_fds [of b] n(1) by (auto simp: min_def)
  finally show ?thesis .
qed

section \<open>Flushing\<close>

text \<open>
  What the peer has received and what is still to be sent form one byte stream and one stream of
  descriptors. Flushing moves the boundary and never changes the streams.
\<close>

definition conn_ok :: "wl_connection \<Rightarrow> bool" where
  "conn_ok c \<longleftrightarrow> buffer_ok (inb c) \<and> buffer_ok (out c) \<and> fdbuf_ok (fds_in c) \<and> fdbuf_ok (fds_out c)"

definition stream :: "wl_connection \<Rightarrow> os \<Rightarrow> bytes" where
  "stream c w = sent w @ contents (out c)"

definition fd_stream :: "wl_connection \<Rightarrow> os \<Rightarrow> u32 list" where
  "fd_stream c w = sent_fds w @ queued_fds (fds_out c)"

text \<open>
  The descriptors closed between two states are exactly those handed to the peer between them:
  none is leaked, none is closed twice or before it was sent.
\<close>

definition fds_released :: "os \<Rightarrow> os \<Rightarrow> bool" where
  "fds_released w w' \<longleftrightarrow>
     (\<exists>ds. closed w' = closed w @ ds \<and> sent_fds w' = sent_fds w @ ds)"

lemma fds_released_refl [simp]: "fds_released w w"
  by (simp add: fds_released_def)

lemma fds_released_trans:
  "fds_released u v \<Longrightarrow> fds_released v w \<Longrightarrow> fds_released u w"
  by (force simp: fds_released_def)

definition same_input :: "wl_connection \<Rightarrow> wl_connection \<Rightarrow> bool" where
  "same_input c c' \<longleftrightarrow> inb c' = inb c \<and> fds_in c' = fds_in c \<and> cfd c' = cfd c"

definition output_kept :: "wl_connection \<times> os \<Rightarrow> wl_connection \<times> os \<Rightarrow> bool" where
  "output_kept s s' = (case (s, s') of ((c, w), (c', w')) \<Rightarrow>
     stream c' w' = stream c w \<and> fd_stream c' w' = fd_stream c w \<and> fds_released w w' \<and>
     same_input c c')"

lemma output_kept_trans:
  "output_kept s t \<Longrightarrow> output_kept t u \<Longrightarrow> output_kept s u"
  by (auto simp: output_kept_def same_input_def intro: fds_released_trans)

lemma output_kept_flags [simp]:
  "output_kept (c\<lparr>want_flush := f\<rparr>, w) s = output_kept (c, w) s"
  "output_kept s (c\<lparr>want_flush := f\<rparr>, w) = output_kept s (c, w)"
  "output_kept (c, w\<lparr>sends := ss\<rparr>) s = output_kept (c, w) s"
  "output_kept s (c, w\<lparr>sends := ss\<rparr>) = output_kept s (c, w)"
  "output_kept s (c, w\<lparr>errno := e\<rparr>) = output_kept s (c, w)"
  "output_kept (c, w) (c, w)"
  by (auto simp: output_kept_def stream_def fd_stream_def same_input_def fds_released_def
      split: prod.splits)

lemma conn_ok_flag [simp]: "conn_ok (c\<lparr>want_flush := f\<rparr>) = conn_ok c"
  by (simp add: conn_ok_def)

lemma sent_step_ok:
  assumes ok: "conn_ok c" and ne: "0 < unat (wl_buffer_size (out c))"
    and st: "sent_step c n w = (c', w')"
  shows "conn_ok c'" "output_kept (c, w) (c', w')"
    "contents (out c') = drop n (contents (out c))" "sends w' = sends w"
    "head (out c') = head (out c)" "want_flush c' = want_flush c"
proof -
  define len where "len = min n (length (contents (out c)))"
  define w1 where "w1 = w\<lparr>sent := sent w @ take len (contents (out c)),
    sent_fds := sent_fds w @ take MAX_FDS_OUT (queued_fds (fds_out c))\<rparr>"
  have oks: "buffer_ok (out c)" "fdbuf_ok (fds_out c)" using ok by (auto simp: conn_ok_def)
  obtain fb w2 where cl: "close_fds (fds_out c) (int MAX_FDS_OUT) w1 = (fb, w2)"
    by (cases "close_fds (fds_out c) (int MAX_FDS_OUT) w1")
  from st oks ne cl have eqs: "c' = c\<lparr>fds_out := fb, out := (out c)\<lparr>tail := tail (out c) + of_nat len\<rparr>\<rparr>"
    "w' = w2"
    by (auto simp: sent_step_def Let_def wl_buffer_get_iov_contents build_cmsg_fds len_def w1_def)
  have len: "len \<le> unat (wl_buffer_size (out c))" by (simp add: len_def)
  note cons = buffer_consume [OF oks(1) len]
  note fdq = close_fds_queue [OF oks(2) cl]
  have k: "take (close_count (int MAX_FDS_OUT) (length (queued_fds (fds_out c)))) (queued_fds (fds_out c))
      = take MAX_FDS_OUT (queued_fds (fds_out c))"
    "drop (close_count (int MAX_FDS_OUT) (length (queued_fds (fds_out c)))) (queued_fds (fds_out c))
      = drop MAX_FDS_OUT (queued_fds (fds_out c))"
    by (auto simp: close_count_def MAX_FDS_OUT_def)
  show "conn_ok c'" using ok cons(1) fdq(1) by (simp add: eqs conn_ok_def)
  show "contents (out c') = drop n (contents (out c))"
    using cons(2) by (simp add: eqs len_def min_def)
  show "sends w' = sends w" "head (out c') = head (out c)" "want_flush c' = want_flush c"
    using fdq(3) by (simp_all add: eqs w1_def)
  show "output_kept (c, w) (c', w')"
    using cons(2) fdq(2,3) k
    by (auto simp: eqs output_kept_def stream_def fd_stream_def fds_released_def same_input_def w1_def)
qed

lemma flush_pending: "head b - tail b > 0 \<longleftrightarrow> 0 < unat (wl_buffer_size b)"
  unfolding wl_buffer_size_def word_less_nat_alt by simp

lemma flush_loop_ok:
  assumes "conn_ok c" "flush_loop c w = Some (c', w', ok)"
  shows "conn_ok c' \<and> output_kept (c, w) (c', w') \<and> (ok \<longrightarrow> contents (out c') = []) \<and>
    head (out c') = head (out c)"
  using assms
proof (induction c w rule: flush_loop.induct)
  case (1 c w)
  show ?case
  proof (cases "0 < unat (wl_buffer_size (out c))")
    case False
    with 1 show ?thesis
      by (auto simp: flush_loop.simps [of c] flush_pending simp flip: length_0_conv)
  next
    case True
    then have pend: "head (out c) - tail (out c) > 0" by (simp add: flush_pending)
    show ?thesis
    proof (cases "sendmsg_retry (sends w)")
      case None
      with pend "1.prems" show ?thesis by (simp add: flush_loop.simps [of c])
    next
      case (Some rr)
      obtain r rest where rr: "rr = (r, rest)" by (cases rr)
      show ?thesis
      proof (cases r)
        case (SendError e)
        with pend "1.prems" Some rr show ?thesis
          by (auto simp: flush_loop.simps [of c] output_kept_def stream_def fd_stream_def
              fds_released_def same_input_def)
      next
        case (Accept n)
        obtain c1 w1 where st: "sent_step c n (w\<lparr>sends := rest\<rparr>) = (c1, w1)"
          by (cases "sent_step c n (w\<lparr>sends := rest\<rparr>)")
        note s = sent_step_ok [OF "1.prems"(1) True st]
        have rec: "flush_loop c1 (w1\<lparr>sends := rest\<rparr>) = Some (c', w', ok)"
          using "1.prems"(2) pend Some rr Accept st by (simp add: flush_loop.simps [of c])
        have "conn_ok c' \<and> output_kept (c1, w1\<lparr>sends := rest\<rparr>) (c', w') \<and>
            (ok \<longrightarrow> contents (out c') = []) \<and> head (out c') = head (out c1)"
          using "1.IH" [OF pend Some rr [symmetric] Accept st [symmetric] s(1) rec] by simp
        with s(2,5) show ?thesis by (auto intro: output_kept_trans)
      qed
    qed
  qed
qed

lemma flush_keeps_output:
  assumes "conn_ok c" "wl_connection_flush c w = Some (c', w', r)"
  shows "conn_ok c'" "output_kept (c, w) (c', w')"
    "want_flush c \<Longrightarrow> r \<ge> 0 \<Longrightarrow> contents (out c') = []"
    "want_flush c \<Longrightarrow> r \<ge> 0 \<Longrightarrow> \<not> want_flush c'"
    "want_flush c \<Longrightarrow> r \<ge> 0 \<Longrightarrow> r = int (length (contents (out c)))"
    "r < 0 \<Longrightarrow> r = -1"
proof -
  have "conn_ok c' \<and> output_kept (c, w) (c', w') \<and> (want_flush c \<longrightarrow> r \<ge> 0 \<longrightarrow> contents (out c') = [])
    \<and> (want_flush c \<longrightarrow> r \<ge> 0 \<longrightarrow> \<not> want_flush c') \<and>
    (want_flush c \<longrightarrow> r \<ge> 0 \<longrightarrow> r = int (length (contents (out c)))) \<and> (r < 0 \<longrightarrow> r = -1)"
  proof (cases "want_flush c")
    case False
    with assms show ?thesis by (auto simp: wl_connection_flush_def)
  next
    case True
    obtain c1 ok where fl: "flush_loop c w = Some (c1, w', ok)" and
      res: "if ok then c' = c1\<lparr>want_flush := False\<rparr> \<and> r = sint (head (out c1) - tail (out c))
            else c' = c1 \<and> r = -1"
      using True assms(2) by (auto simp: wl_connection_flush_def split: option.splits if_splits)
    note f = flush_loop_ok [OF assms(1) fl]
    have "unat (head (out c) - tail (out c)) \<le> BUFFER_SIZE"
      using assms(1) by (simp add: conn_ok_def buffer_ok_def wl_buffer_size_def)
    then have "sint (head (out c) - tail (out c)) = int (unat (head (out c) - tail (out c)))"
      by (simp add: sint_u32_small BUFFER_SIZE_def)
    then show ?thesis
      using res f by (cases ok) (auto simp: wl_buffer_size_def)
  qed
  then show "conn_ok c'" "output_kept (c, w) (c', w')"
    "want_flush c \<Longrightarrow> r \<ge> 0 \<Longrightarrow> contents (out c') = []"
    "want_flush c \<Longrightarrow> r \<ge> 0 \<Longrightarrow> \<not> want_flush c'"
    "want_flush c \<Longrightarrow> r \<ge> 0 \<Longrightarrow> r = int (length (contents (out c)))"
    "r < 0 \<Longrightarrow> r = -1" by auto
qed

text \<open>
  Liveness: as soon as the socket takes, over a run of successful calls, as many bytes as are
  pending, the flush returns.
\<close>

fun accepted :: "send_outcome list \<Rightarrow> nat" where
  "accepted [] = 0"
| "accepted (Accept n # rs) = n + accepted rs"
| "accepted (SendError e # rs) = accepted rs"

lemma accepted_retry:
  "sendmsg_retry rs = Some (r, rest) \<Longrightarrow>
    accepted rs = (case r of Accept n \<Rightarrow> n | SendError e \<Rightarrow> 0) + accepted rest"
  by (induction rs rule: sendmsg_retry.induct) (auto split: if_splits)

lemma accepted_retry_None: "sendmsg_retry rs = None \<Longrightarrow> accepted rs = 0"
  by (induction rs rule: sendmsg_retry.induct) (auto split: if_splits)

text \<open>A socket that takes everything at once.\<close>

lemma flush_one_write:
  assumes "conn_ok c" "want_flush c" "contents (out c) \<noteq> []" "sends w = Accept n # rest"
    and "length (contents (out c)) \<le> n"
  obtains c' w' r where "wl_connection_flush c w = Some (c', w', r)" "contents (out c') = []"
proof -
  have pos: "0 < unat (wl_buffer_size (out c))" using assms(3) by (simp flip: length_contents)
  obtain c1 w1 where st: "sent_step c n (w\<lparr>sends := rest\<rparr>) = (c1, w1)" by (cases "sent_step c n (w\<lparr>sends := rest\<rparr>)")
  note s = sent_step_ok [OF assms(1) pos st]
  have e: "contents (out c1) = []" using s(3) assms(5) by simp
  then have "\<not> 0 < unat (wl_buffer_size (out c1))" by (simp flip: length_contents)
  then have "flush_loop c1 (w1\<lparr>sends := rest\<rparr>) = Some (c1, w1\<lparr>sends := rest\<rparr>, True)"
    by (simp add: flush_loop.simps [of c1] flush_pending)
  then have "flush_loop c w = Some (c1, w1\<lparr>sends := rest\<rparr>, True)"
    using pos assms(4) st by (simp add: flush_loop.simps [of c] flush_pending)
  then have "wl_connection_flush c w = Some (c1\<lparr>want_flush := False\<rparr>, w1\<lparr>sends := rest\<rparr>, sint (head (out c1) - tail (out c)))"
    using assms(2) by (simp add: wl_connection_flush_def)
  then show ?thesis by (rule that) (simp add: e)
qed

lemma flush_loop_returns:
  assumes "conn_ok c" "length (contents (out c)) \<le> accepted (sends w)"
  shows "flush_loop c w \<noteq> None"
  using assms
proof (induction c w rule: flush_loop.induct)
  case (1 c w)
  show ?case
  proof (cases "0 < unat (wl_buffer_size (out c))")
    case False
    then show ?thesis by (simp add: flush_loop.simps [of c] flush_pending)
  next
    case True
    then have pend: "head (out c) - tail (out c) > 0" by (simp add: flush_pending)
    have "sendmsg_retry (sends w) \<noteq> None"
      using accepted_retry_None [of "sends w"] "1.prems"(2) True by (intro notI) simp
    then obtain r rest where r: "sendmsg_retry (sends w) = Some (r, rest)" by auto
    show ?thesis
    proof (cases r)
      case (SendError e)
      with pend r show ?thesis by (simp add: flush_loop.simps [of c])
    next
      case (Accept n)
      obtain c1 w1 where st: "sent_step c n (w\<lparr>sends := rest\<rparr>) = (c1, w1)"
        by (cases "sent_step c n (w\<lparr>sends := rest\<rparr>)")
      note s = sent_step_ok [OF "1.prems"(1) True st]
      have "length (contents (out c1)) \<le> accepted (sends (w1\<lparr>sends := rest\<rparr>))"
        using s(3) accepted_retry [OF r] Accept "1.prems"(2) by simp
      then have "flush_loop c1 (w1\<lparr>sends := rest\<rparr>) \<noteq> None"
        using "1.IH" [OF pend r refl Accept st [symmetric] s(1)] by simp
      with pend r Accept st show ?thesis by (simp add: flush_loop.simps [of c])
    qed
  qed
qed

section \<open>Queueing output\<close>

text \<open>The streams after an operation that appended \<open>bs\<close> and \<open>fds\<close>.\<close>

definition output_grown ::
    "wl_connection \<times> os \<Rightarrow> bytes \<Rightarrow> u32 list \<Rightarrow> wl_connection \<times> os \<Rightarrow> bool" where
  "output_grown s bs fds s' = (case (s, s') of ((c, w), (c', w')) \<Rightarrow>
     stream c' w' = stream c w @ bs \<and> fd_stream c' w' = fd_stream c w @ fds \<and>
     fds_released w w' \<and> same_input c c')"

lemma output_kept_grown: "output_kept s s' = output_grown s [] [] s'"
  by (simp add: output_kept_def output_grown_def split: prod.splits)

lemma output_grown_trans:
  "output_grown s bs fds t \<Longrightarrow> output_grown t bs' fds' u \<Longrightarrow>
    output_grown s (bs @ bs') (fds @ fds') u"
  by (auto simp: output_grown_def same_input_def intro: fds_released_trans)

lemma make_room_ok:
  assumes "conn_ok c" "make_room c count w = Some (c', w', r)"
  shows "conn_ok c'" "output_kept (c, w) (c', w')"
    "r \<ge> 0 \<Longrightarrow> count \<le> BUFFER_SIZE \<Longrightarrow> unat (wl_buffer_size (out c')) + count \<le> BUFFER_SIZE"
proof -
  have "conn_ok c' \<and> output_kept (c, w) (c', w') \<and>
    (r \<ge> 0 \<longrightarrow> count \<le> BUFFER_SIZE \<longrightarrow> unat (wl_buffer_size (out c')) + count \<le> BUFFER_SIZE)"
  proof (cases "unat (head (out c) - tail (out c)) + count > BUFFER_SIZE")
    case True
    then have fl: "wl_connection_flush (c\<lparr>want_flush := True\<rparr>) w = Some (c', w', r)"
      using assms(2) by (simp add: make_room_def)
    have ok: "conn_ok (c\<lparr>want_flush := True\<rparr>)" using assms(1) by simp
    show ?thesis
      using flush_keeps_output(1-3) [OF ok fl] by (auto simp flip: length_contents)
  next
    case False
    with assms show ?thesis by (auto simp: make_room_def wl_buffer_size_def)
  qed
  then show "conn_ok c'" "output_kept (c, w) (c', w')"
    "r \<ge> 0 \<Longrightarrow> count \<le> BUFFER_SIZE \<Longrightarrow> unat (wl_buffer_size (out c')) + count \<le> BUFFER_SIZE"
    by auto
qed

lemma put_out_ok:
  assumes "conn_ok c" "unat (wl_buffer_size (out c)) + length data \<le> BUFFER_SIZE"
    "wl_buffer_put (out c) data = (b, r)"
  shows "r = 0" "conn_ok (c\<lparr>out := b\<rparr>)" "output_grown (c, w) data [] (c\<lparr>out := b\<rparr>, w)"
  using assms wl_buffer_put_ok [of "out c" data]
  by (auto simp: conn_ok_def output_grown_def stream_def fd_stream_def same_input_def)

lemma wl_buffer_put_result: "wl_buffer_put b data = (b', r) \<Longrightarrow> r = (if length data > BUFFER_SIZE then -1 else 0)"
  by (auto simp: wl_buffer_put_def Let_def split: if_splits)

lemma wl_buffer_put_too_big: "length data > BUFFER_SIZE \<Longrightarrow> wl_buffer_put b data = (b, -1)"
  by (simp add: wl_buffer_put_def)

lemma output_grown_flags [simp]:
  "output_grown s bs fds (c\<lparr>want_flush := f\<rparr>, w) = output_grown s bs fds (c, w)"
  "output_grown s bs fds (c, w\<lparr>errno := e\<rparr>) = output_grown s bs fds (c, w)"
  "output_grown (c\<lparr>want_flush := f\<rparr>, w) bs fds s = output_grown (c, w) bs fds s"
  by (auto simp: output_grown_def stream_def fd_stream_def same_input_def fds_released_def
      split: prod.splits)

text \<open>
  Queueing appends the whole message to the stream or, when it fails, nothing of it. The two
  entry points differ only in the flag that asks for a flush.
\<close>

lemma wl_connection_queue_ok:
  assumes "conn_ok c" "wl_connection_queue c data w = Some (c', w', r)"
  shows "conn_ok c'" "output_grown (c, w) (if r < 0 then [] else data) [] (c', w')"
    "r = 0 \<or> r = -1"
proof -
  obtain c1 w1 r1 where room: "make_room c (length data) w = Some (c1, w1, r1)"
    and rest: "(if r1 < 0 then Some (c1, w1, -1)
      else case wl_buffer_put (out c1) data of
        (b, r) \<Rightarrow> Some (c1\<lparr>out := b\<rparr>, if r < 0 then w1\<lparr>errno := E2BIG\<rparr> else w1, r)) = Some (c', w', r)"
    using assms(2) by (auto simp: wl_connection_queue_def bind_eq_Some)
  note m = make_room_ok [OF assms(1) room]
  have kept: "output_grown (c, w) [] [] (c1, w1)" using m(2) by (simp add: output_kept_grown)
  have "conn_ok c' \<and> output_grown (c, w) (if r < 0 then [] else data) [] (c', w') \<and> (r = 0 \<or> r = -1)"
  proof (cases "r1 < 0 \<or> length data > BUFFER_SIZE")
    case True
    with rest m(1) kept show ?thesis
      by (auto simp: wl_buffer_put_too_big split: if_splits)
  next
    case False
    obtain b rb where put: "wl_buffer_put (out c1) data = (b, rb)"
      by (cases "wl_buffer_put (out c1) data")
    have fit: "unat (wl_buffer_size (out c1)) + length data \<le> BUFFER_SIZE"
      using m(3) False by simp
    note p = put_out_ok [OF m(1) fit put]
    show ?thesis
      using rest False put p(1,2) output_grown_trans [OF kept p(3)] by auto
  qed
  then show "conn_ok c'" "output_grown (c, w) (if r < 0 then [] else data) [] (c', w')"
    "r = 0 \<or> r = -1" by auto
qed

lemma write_queue:
  "wl_connection_write c data w = do {
     (c', w', r) \<leftarrow> wl_connection_queue c data w;
     Some (if r < 0 then c' else c'\<lparr>want_flush := True\<rparr>, w', r) }"
  unfolding wl_connection_write_def wl_connection_queue_def Option.bind_assoc
  by (rule Option.bind_cong)
    (auto simp: wl_buffer_put_def Let_def split: prod.splits if_splits)

lemma wl_connection_write_ok:
  assumes "conn_ok c" "wl_connection_write c data w = Some (c', w', r)"
  shows "conn_ok c'" "output_grown (c, w) (if r < 0 then [] else data) [] (c', w')"
    "r = 0 \<or> r = -1" "r = 0 \<Longrightarrow> want_flush c'"
proof -
  obtain c1 where q: "wl_connection_queue c data w = Some (c1, w', r)"
    and c': "c' = (if r < 0 then c1 else c1\<lparr>want_flush := True\<rparr>)"
    using assms(2) by (auto simp: write_queue bind_eq_Some)
  show "conn_ok c'" "output_grown (c, w) (if r < 0 then [] else data) [] (c', w')"
    "r = 0 \<or> r = -1" "r = 0 \<Longrightarrow> want_flush c'"
    using wl_connection_queue_ok [OF assms(1) q] by (auto simp: c')
qed

text \<open>
  A descriptor is queued behind the others. While the queue is below its storage (that is,
  while the output buffer was not left empty for a thousand descriptors) nothing is lost.
\<close>

lemma wl_connection_put_fd_ok:
  assumes "conn_ok c" "wl_connection_put_fd c fd w = Some (c', w', r)"
    "length (queued_fds (fds_out c)) < 1024"
  shows "conn_ok c'" "output_grown (c, w) [] (if r < 0 then [] else [fd]) (c', w')"
    "r = 0 \<or> r = -1"
proof -
  obtain c1 w1 r1 where room: "(if unat (wl_buffer_size (fds_out c)) = MAX_FDS_OUT * 4
      then wl_connection_flush (c\<lparr>want_flush := True\<rparr>) w else Some (c, w, 0)) = Some (c1, w1, r1)"
    and rest: "(if r1 < 0 then Some (c1, w1, -1)
      else case wl_buffer_put (fds_out c1) (le_bytes 4 fd) of
        (b, r) \<Rightarrow> Some (c1\<lparr>fds_out := b\<rparr>, if r < 0 then w1\<lparr>errno := E2BIG\<rparr> else w1, r)) = Some (c', w', r)"
    using assms(2) by (auto simp: wl_connection_put_fd_def bind_eq_Some)
  have okt: "conn_ok (c\<lparr>want_flush := True\<rparr>)" using assms(1) by simp
  have m: "conn_ok c1" "output_grown (c, w) [] [] (c1, w1)"
    using room assms(1) flush_keeps_output(1,2) [OF okt, of w c1 w1 r1]
    by (auto simp: output_kept_grown [symmetric] split: if_splits)
  have "length (queued_fds (fds_out c1)) \<le> length (queued_fds (fds_out c))"
    using m(2) by (auto simp: output_grown_def fd_stream_def fds_released_def dest!: arg_cong [of _ _ length])
  then have "length (queued_fds (fds_out c1)) < 1024" using assms(3) by simp
  moreover have fok: "fdbuf_ok (fds_out c1)" using m(1) by (simp add: conn_ok_def)
  ultimately have fit: "unat (wl_buffer_size (fds_out c1)) + length (le_bytes 4 fd) \<le> BUFFER_SIZE"
    by (auto simp: length_queued_fds fdbuf_ok_def BUFFER_SIZE_def elim!: dvdE)
  obtain b rb where put: "wl_buffer_put (fds_out c1) (le_bytes 4 fd) = (b, rb)"
    by (cases "wl_buffer_put (fds_out c1) (le_bytes 4 fd)")
  note p = fdbuf_put [OF fok fit _ put, simplified]
  have "output_grown (c1, w1) [] [fd] (c1\<lparr>fds_out := b\<rparr>, w1)"
    using p by (simp add: output_grown_def stream_def fd_stream_def same_input_def)
  from output_grown_trans [OF m(2) this] rest put p m
  show "conn_ok c'" "output_grown (c, w) [] (if r < 0 then [] else [fd]) (c', w')"
    "r = 0 \<or> r = -1"
    by (auto simp: conn_ok_def split: if_splits)
qed

text \<open>
  The limit that is tested for equality only does not protect the storage: with nothing in the
  output buffer the flush has no carrier for the descriptors, and the 1025th overruns the ring.
\<close>

lemma wl_connection_put_fd_overrun:
  assumes "conn_ok c" "length (queued_fds (fds_out c)) = 1024"
  obtains c' where "wl_connection_put_fd c fd w = Some (c', w, 0)" "wl_buffer_size (fds_out c') = 4100"
proof -
  have fok: "buffer_ok (fds_out c)" "4 dvd unat (wl_buffer_size (fds_out c))"
    using assms(1) by (auto simp: conn_ok_def fdbuf_ok_def)
  then have sz: "unat (wl_buffer_size (fds_out c)) = 4096"
    using assms(2) by (auto simp: length_queued_fds)
  then have s: "wl_buffer_size (fds_out c) = 4096" by (simp add: word_unat_eq_iff)
  define b where "b = fst (wl_buffer_put (fds_out c) (le_bytes 4 fd))"
  have put: "wl_buffer_put (fds_out c) (le_bytes 4 fd) = (b, 0)"
    by (simp add: b_def wl_buffer_put_def Let_def BUFFER_SIZE_def)
  have "wl_buffer_size b = wl_buffer_size (fds_out c) + 4"
    by (simp add: b_def wl_buffer_put_def Let_def BUFFER_SIZE_def wl_buffer_size_def)
  then have "wl_buffer_size (fds_out (c\<lparr>fds_out := b\<rparr>)) = 4100" by (simp add: s)
  moreover have "wl_connection_put_fd c fd w = Some (c\<lparr>fds_out := b\<rparr>, w, 0)"
    using put sz by (simp add: wl_connection_put_fd_def MAX_FDS_OUT_def)
  ultimately show ?thesis using that by blast
qed

section \<open>Receiving\<close>

text \<open>
  Every descriptor that arrives with a message is either queued or closed. On the overflow path
  the descriptors queued before the overflow stay queued.
\<close>

fun rights :: "cmsghdr list \<Rightarrow> u32 list" where
  "rights [] = []"
| "rights (m # ms) =
     (if cmsg_level m \<noteq> SOL_SOCKET \<or> cmsg_type m \<noteq> SCM_RIGHTS then []
      else words32 (cmsg_data m)) @ rights ms"

lemma decode_cmsg_loop_overflow:
  assumes "decode_cmsg_loop ms True b w = (b', w', ov, r)"
  shows "b' = b \<and> w' = w\<lparr>closed := closed w @ rights ms\<rparr> \<and> ov \<and> r = 0"
  using assms by (induction ms arbitrary: w) (fastforce simp: Let_def split: if_splits)+

lemma decode_cmsg_loop_ok:
  assumes "fdbuf_ok b" "\<And>m. m \<in> set ms \<Longrightarrow> 4 dvd length (cmsg_data m)"
    and "decode_cmsg_loop ms False b w = (b', w', ov, r)"
  shows "fdbuf_ok b' \<and> r = 0 \<and> (\<exists>qs cs. rights ms = qs @ cs \<and> queued_fds b' = queued_fds b @ qs \<and>
    w' = w\<lparr>closed := closed w @ cs\<rparr> \<and> (\<not> ov \<longrightarrow> cs = []))"
  using assms
proof (induction ms arbitrary: b w)
  case Nil
  then show ?case by auto
next
  case (Cons m ms)
  consider (skip) "cmsg_level m \<noteq> SOL_SOCKET \<or> cmsg_type m \<noteq> SCM_RIGHTS"
    | (over) "\<not> (cmsg_level m \<noteq> SOL_SOCKET \<or> cmsg_type m \<noteq> SCM_RIGHTS)"
        "length (cmsg_data m) > BUFFER_SIZE - unat (wl_buffer_size b)"
    | (fits) "\<not> (cmsg_level m \<noteq> SOL_SOCKET \<or> cmsg_type m \<noteq> SCM_RIGHTS)"
        "length (cmsg_data m) \<le> BUFFER_SIZE - unat (wl_buffer_size b)"
    by linarith
  then show ?case
  proof cases
    case skip
    with Cons show ?thesis by auto
  next
    case over
    then show ?thesis
      using Cons.prems(1,3) decode_cmsg_loop_overflow
        [of ms b "w\<lparr>closed := closed w @ words32 (cmsg_data m)\<rparr>" b' w' ov r]
      by auto
  next
    case fits
    have dvd: "4 dvd length (cmsg_data m)" using Cons.prems(2) by simp
    have fit: "unat (wl_buffer_size b) + length (cmsg_data m) \<le> BUFFER_SIZE"
      using fits(2) Cons.prems(1) by (auto simp: fdbuf_ok_def buffer_ok_def)
    obtain b1 r1 where put: "wl_buffer_put b (cmsg_data m) = (b1, r1)"
      by (cases "wl_buffer_put b (cmsg_data m)")
    note p = fdbuf_put [OF Cons.prems(1) fit dvd put]
    have "decode_cmsg_loop ms False b1 w = (b', w', ov, r)"
      using Cons.prems(3) fits put p(1) by simp
    with Cons.IH [OF p(2)] Cons.prems(2) fits(1) p(3) show ?thesis by fastforce
  qed
qed

lemma decode_cmsg_ok:
  assumes "fdbuf_ok b" "\<And>m. m \<in> set ms \<Longrightarrow> 4 dvd length (cmsg_data m)"
    and "decode_cmsg b ms w = (b', w', r)"
  obtains qs cs where "fdbuf_ok b'" "rights ms = qs @ cs" "queued_fds b' = queued_fds b @ qs"
    "closed w' = closed w @ cs" "recvs w' = recvs w" "r = 0 \<or> r = -1" "r = 0 \<Longrightarrow> cs = []"
    "sent w' = sent w" "sent_fds w' = sent_fds w" "sends w' = sends w"
proof -
  obtain w1 ov r1 where lp: "decode_cmsg_loop ms False b w = (b', w1, ov, r1)"
    and res: "r1 \<ge> 0 \<longrightarrow> (w', r) = (if ov then (w1\<lparr>errno := EOVERFLOW\<rparr>, -1) else (w1, 0))"
    using assms(3) by (auto simp: decode_cmsg_def split: prod.splits if_splits)
  from decode_cmsg_loop_ok [OF assms(1,2) lp] res show ?thesis
    by (auto split: if_splits intro: that)
qed

text \<open>A read appends what the socket delivered, or reports why it did not.\<close>

lemma recvmsg_retry_mem:
  "recvmsg_retry rs = Some (r, rest) \<Longrightarrow> r \<in> set rs"
  by (induction rs rule: recvmsg_retry.induct) (auto split: if_splits)

lemma buffer_scatter_unread:
  assumes ok: "buffer_ok b" and room: "unat (wl_buffer_size b) < BUFFER_SIZE"
    and fit: "unat (wl_buffer_size b) + length data \<le> BUFFER_SIZE"
  defines "b' \<equiv> b\<lparr>bdata := scatter (wl_buffer_put_iov b) data (bdata b)\<rparr>"
  shows "buffer_ok b'" "contents b' = contents b" "wl_buffer_size b' = wl_buffer_size b"
proof -
  have len: "length (bdata b) = BUFFER_SIZE" using ok by (simp add: buffer_ok_def)
  have b': "b' = b\<lparr>bdata := circ_write (bdata b) (unat (tail b) + unat (wl_buffer_size b)) data\<rparr>"
    using ok room fit by (simp add: b'_def wl_buffer_put_iov_write)
  show sz: "wl_buffer_size b' = wl_buffer_size b" by (simp add: b' wl_buffer_size_def)
  show "buffer_ok b'" using ok sz len fit by (simp add: b' buffer_ok_def)
  show "contents b' = contents b"
    using sz len fit by (simp add: b' contents_def window_circ_write_before)
qed

lemma wl_connection_read_deliver:
  assumes ok: "conn_ok c" and room: "unat (wl_buffer_size (inb c)) < BUFFER_SIZE"
    and msg: "recvmsg_retry (recvs w) = Some (Deliver bs cs, rest)" "bs \<noteq> []"
    and kernel: "\<And>m. m \<in> set cs \<Longrightarrow> 4 dvd length (cmsg_data m)"
  obtains c' w' r qs ds where "wl_connection_read c w = Some (c', w', r)" "conn_ok c'"
    "out c' = out c" "fds_out c' = fds_out c"
    "rights cs = qs @ ds" "queued_fds (fds_in c') = queued_fds (fds_in c) @ qs"
    "closed w' = closed w @ ds" "sent w' = sent w" "sent_fds w' = sent_fds w" "recvs w' = rest"
    "r = -1 \<Longrightarrow> contents (inb c') = contents (inb c)"
    "r \<noteq> -1 \<Longrightarrow> ds = [] \<and> r = int (length (contents (inb c'))) \<and>
      contents (inb c') = contents (inb c) @ take (BUFFER_SIZE - unat (wl_buffer_size (inb c))) bs"
proof -
  define data where "data = take (BUFFER_SIZE - unat (wl_buffer_size (inb c))) bs"
  have bok: "buffer_ok (inb c)" "fdbuf_ok (fds_in c)" using ok by (auto simp: conn_ok_def)
  have sp: "iov_space (wl_buffer_put_iov (inb c)) = BUFFER_SIZE - unat (wl_buffer_size (inb c))"
    by (rule wl_buffer_put_iov_space [OF bok(1) room])
  have ne: "data \<noteq> []" using msg(2) room by (simp add: data_def)
  have fit: "unat (wl_buffer_size (inb c)) + length data \<le> BUFFER_SIZE"
    using room by (simp add: data_def)
  let ?m = "scatter (wl_buffer_put_iov (inb c)) data (bdata (inb c))"
  let ?h = "head (inb c) + of_nat (length data)"
  obtain fb w1 r1 where dec: "decode_cmsg (fds_in c) cs (w\<lparr>recvs := rest\<rparr>) = (fb, w1, r1)"
    by (cases "decode_cmsg (fds_in c) cs (w\<lparr>recvs := rest\<rparr>)")
  obtain qs ds where d: "fdbuf_ok fb" "rights cs = qs @ ds" "queued_fds fb = queued_fds (fds_in c) @ qs"
    "closed w1 = closed w @ ds" "recvs w1 = rest" "r1 = 0 \<or> r1 = -1" "r1 = 0 \<Longrightarrow> ds = []"
    "sent w1 = sent w" "sent_fds w1 = sent_fds w"
    by (rule decode_cmsg_ok [OF bok(2) kernel dec]) auto
  note u = buffer_scatter_unread [OF bok(1) room fit]
  note g = buffer_receive [OF bok(1) room fit]
  show ?thesis
  proof (cases "r1 = 0")
    case False
    define c' where "c' = c\<lparr>inb := (inb c)\<lparr>bdata := ?m\<rparr>, fds_in := fb\<rparr>"
    have "wl_connection_read c w = Some (c', w1, -1)"
      using msg ne room dec False
      by (simp add: wl_connection_read_def sp data_def [symmetric] Let_def c'_def)
    moreover have "conn_ok c'" using ok u(1) d(1) by (simp add: c'_def conn_ok_def)
    ultimately show ?thesis using d u(2) by (intro that [of c' w1 "-1" qs ds]) (auto simp: c'_def)
  next
    case True
    define c' where "c' = c\<lparr>fds_in := fb, inb := (inb c)\<lparr>bdata := ?m, head := ?h\<rparr>\<rparr>"
    have "unat (wl_buffer_size (inb c')) \<le> BUFFER_SIZE"
      using g(1) by (simp add: c'_def buffer_ok_def)
    then have r: "sint (wl_connection_pending_input c') = int (length (contents (inb c')))"
      by (simp add: wl_connection_pending_input_def sint_u32_small BUFFER_SIZE_def)
    have "wl_connection_read c w = Some (c', w1, sint (wl_connection_pending_input c'))"
      using msg ne room dec True
      by (simp add: wl_connection_read_def sp data_def [symmetric] Let_def c'_def)
    moreover have "conn_ok c'" using ok g(1) d(1) by (simp add: c'_def conn_ok_def)
    moreover have "contents (inb c') = contents (inb c) @ data" using g(2) by (simp add: c'_def)
    ultimately show ?thesis
      using d True r
      by (intro that [of c' w1 "sint (wl_connection_pending_input c')" qs ds])
        (simp_all add: c'_def [THEN arg_cong [of _ _ out]] c'_def [THEN arg_cong [of _ _ fds_out]]
          c'_def [THEN arg_cong [of _ _ fds_in]] data_def)
  qed
qed

section \<open>Message streams\<close>

text \<open>
  A sink takes messages one at a time; each is appended to its stream whole or not at all.
  Then a sequence of messages arrives in order, without the refused ones.
\<close>

locale message_sink =
  fixes sink_inv :: "'s \<Rightarrow> bool"
    and sink_stream :: "'s \<Rightarrow> 'b list"
    and push :: "'b list \<Rightarrow> 's \<Rightarrow> ('s \<times> bool) option"
  assumes push_atomic: "sink_inv s \<Longrightarrow> push m s = Some (s', taken) \<Longrightarrow>
    sink_inv s' \<and> sink_stream s' = sink_stream s @ (if taken then m else [])"
begin

fun push_all :: "'b list list \<Rightarrow> 's \<Rightarrow> ('s \<times> bool list) option" where
  "push_all [] s = Some (s, [])"
| "push_all (m # ms) s = do {
     (s, t) \<leftarrow> push m s;
     (s, ts) \<leftarrow> push_all ms s;
     Some (s, t # ts)
   }"

lemma push_all_in_order:
  assumes "sink_inv s" "push_all ms s = Some (s', ts)"
  shows "sink_inv s'"
    "sink_stream s' = sink_stream s @ concat (map fst (filter snd (zip ms ts)))"
    "length ts = length ms"
proof -
  have "sink_inv s' \<and> sink_stream s' = sink_stream s @ concat (map fst (filter snd (zip ms ts))) \<and>
    length ts = length ms"
    using assms
  proof (induction ms arbitrary: s ts)
    case Nil
    then show ?case by simp
  next
    case (Cons m ms)
    from Cons.prems(2) obtain s1 t ts1 where st: "push m s = Some (s1, t)"
      "push_all ms s1 = Some (s', ts1)" "ts = t # ts1"
      by (auto simp: bind_eq_Some)
    note p = push_atomic [OF Cons.prems(1) st(1)]
    from Cons.IH [OF conjunct1 [OF p] st(2)] p st(3) show ?case by simp
  qed
  then show "sink_inv s'" "length ts = length ms"
    "sink_stream s' = sink_stream s @ concat (map fst (filter snd (zip ms ts)))" by auto
qed

end

definition conn_inv :: "wl_connection \<times> os \<Rightarrow> bool" where
  "conn_inv s \<longleftrightarrow> conn_ok (fst s)"

definition conn_stream :: "wl_connection \<times> os \<Rightarrow> bytes" where
  "conn_stream s = stream (fst s) (snd s)"

definition push_write :: "bytes \<Rightarrow> wl_connection \<times> os \<Rightarrow> ((wl_connection \<times> os) \<times> bool) option" where
  "push_write data s = do {
     (c, w, r) \<leftarrow> wl_connection_write (fst s) data (snd s);
     Some ((c, w), r = 0) }"

definition push_queue :: "bytes \<Rightarrow> wl_connection \<times> os \<Rightarrow> ((wl_connection \<times> os) \<times> bool) option" where
  "push_queue data s = do {
     (c, w, r) \<leftarrow> wl_connection_queue (fst s) data (snd s);
     Some ((c, w), r = 0) }"

interpretation cw: message_sink conn_inv conn_stream push_write
proof
  fix s m s' taken
  assume inv: "conn_inv s" and p: "push_write m s = Some (s', taken)"
  obtain r where w: "wl_connection_write (fst s) m (snd s) = Some (fst s', snd s', r)"
    and t: "taken \<longleftrightarrow> r = 0"
    using p by (auto simp: push_write_def bind_eq_Some)
  show "conn_inv s' \<and> conn_stream s' = conn_stream s @ (if taken then m else [])"
    using wl_connection_write_ok [OF _ w] inv t
    by (auto simp: conn_inv_def conn_stream_def output_grown_def)
qed

interpretation cq: message_sink conn_inv conn_stream push_queue
proof
  fix s m s' taken
  assume inv: "conn_inv s" and p: "push_queue m s = Some (s', taken)"
  obtain r where w: "wl_connection_queue (fst s) m (snd s) = Some (fst s', snd s', r)"
    and t: "taken \<longleftrightarrow> r = 0"
    using p by (auto simp: push_queue_def bind_eq_Some)
  show "conn_inv s' \<and> conn_stream s' = conn_stream s @ (if taken then m else [])"
    using wl_connection_queue_ok [OF _ w] inv t
    by (auto simp: conn_inv_def conn_stream_def output_grown_def)
qed

section \<open>Properties\<close>

text \<open>A connection as \<^verbatim>\<open>wl_connection_create\<close> makes it, and a world in which nothing happened yet.\<close>

definition fresh_connection :: wl_connection where
  "fresh_connection = the (wl_connection_create True 3)"

definition quiet :: os where
  "quiet = \<lparr>sends = [], recvs = [], dups = [], sent = [], sent_fds = [], closed = [], errno = 0\<rparr>"

lemma fresh_connection_ok [simp]:
  "conn_ok fresh_connection" "contents (out fresh_connection) = []" "contents (inb fresh_connection) = []"
  "queued_fds (fds_out fresh_connection) = []" "queued_fds (fds_in fresh_connection) = []"
  "unat (wl_buffer_size (inb fresh_connection)) = 0"
  by (simp_all add: fresh_connection_def wl_connection_create_def conn_ok_def)
    (simp add: empty_buffer_def wl_buffer_size_def)

lemma fresh_write:
  assumes "length data \<le> BUFFER_SIZE"
  obtains c where "wl_connection_write fresh_connection data w = Some (c, w, 0)" "conn_ok c"
    "contents (out c) = data" "want_flush c"
proof -
  have len: "unat (wl_buffer_size (out fresh_connection)) = 0"
    by (simp add: fresh_connection_def wl_connection_create_def empty_buffer_def wl_buffer_size_def)
  then have room: "make_room fresh_connection (length data) w = Some (fresh_connection, w, 0)"
    using assms by (simp add: make_room_def wl_buffer_size_def)
  obtain c r where r: "wl_connection_write fresh_connection data w = Some (c, w, r)" "r = 0"
    using room wl_buffer_put_result [of "out fresh_connection" data] assms
    by (cases "wl_buffer_put (out fresh_connection) data")
      (auto simp: wl_connection_write_def split: if_splits)
  from wl_connection_write_ok [OF fresh_connection_ok(1) r(1)] r show ?thesis
    by (intro that [of c]) (auto simp: output_grown_def stream_def)
qed

text \<open>
  C11: Whatever the socket does, a flush neither loses, repeats nor reorders output: what was sent
  followed by what is still buffered is unchanged, for bytes and for descriptors; the
  descriptors closed are exactly the ones handed over; and a flush that reports success has
  emptied the buffer and returns the number of bytes it had to send.
\<close>

theorem flush_preserves_streams:
  assumes "conn_ok c" "wl_connection_flush c w = Some (c', w', r)"
  shows "conn_ok c' \<and> sent w' @ contents (out c') = sent w @ contents (out c) \<and>
    sent_fds w' @ queued_fds (fds_out c') = sent_fds w @ queued_fds (fds_out c) \<and>
    (\<exists>ds. sent_fds w' = sent_fds w @ ds \<and> closed w' = closed w @ ds) \<and>
    inb c' = inb c \<and> fds_in c' = fds_in c \<and>
    (if want_flush c \<and> r \<ge> 0 then contents (out c') = [] \<and> r = int (length (contents (out c)))
     else r = 0 \<or> r = -1)"
proof -
  note f = flush_keeps_output [OF assms]
  have "\<not> want_flush c \<Longrightarrow> r = 0" using assms(2) by (simp add: wl_connection_flush_def)
  with f show ?thesis
    by (auto simp: output_kept_def stream_def fd_stream_def fds_released_def same_input_def)
qed

theorem flush_preserves_streams_witness:
  "\<exists>c w c' w' r. wl_connection_write fresh_connection [1, 2, 3] (quiet\<lparr>sends := [Accept 2, SendError EINTR, Accept 9]\<rparr>)
      = Some (c, w, 0) \<and>
    wl_connection_flush c w = Some (c', w', r) \<and> sent w' @ contents (out c') = [1, 2, 3]"
proof -
  let ?w = "quiet\<lparr>sends := [Accept 2, SendError EINTR, Accept 9]\<rparr>"
  obtain c where c: "wl_connection_write fresh_connection [1, 2, 3] ?w = Some (c, ?w, 0)" "conn_ok c"
    "contents (out c) = [1, 2, 3]" "want_flush c"
    by (rule fresh_write [of "[1, 2, 3]" ?w]) (auto simp: BUFFER_SIZE_def)
  have "flush_loop c ?w \<noteq> None" using flush_loop_returns [OF c(2), of ?w] c(3) by (simp add: quiet_def)
  then have "wl_connection_flush c ?w \<noteq> None"
    using c(4) by (auto simp: wl_connection_flush_def split: option.splits if_splits)
  then obtain c' w' r where fl: "wl_connection_flush c ?w = Some (c', w', r)" by auto
  show ?thesis
    using c(1,3) fl flush_preserves_streams [OF c(2) fl] by (auto simp: quiet_def)
qed

text \<open>
  C36: A flush returns as soon as the socket has taken, over any number of partial writes and
  interruptions, as many bytes as were buffered.
\<close>

theorem flush_returns:
  assumes "conn_ok c" "length (contents (out c)) \<le> accepted (sends w)"
  shows "wl_connection_flush c w \<noteq> None"
  using flush_loop_returns [OF assms] by (auto simp: wl_connection_flush_def split: option.splits if_splits)

theorem flush_returns_witness:
  "\<exists>c w. wl_connection_write fresh_connection [1, 2, 3] (quiet\<lparr>sends := [Accept 1, Accept 2]\<rparr>) = Some (c, w, 0) \<and>
    wl_connection_flush c w \<noteq> None"
proof -
  let ?w = "quiet\<lparr>sends := [Accept 1, Accept 2]\<rparr>"
  obtain c where c: "wl_connection_write fresh_connection [1, 2, 3] ?w = Some (c, ?w, 0)" "conn_ok c"
    "contents (out c) = [1, 2, 3]"
    by (rule fresh_write [of "[1, 2, 3]" ?w]) (auto simp: BUFFER_SIZE_def)
  from flush_returns [OF c(2), of ?w] c show ?thesis by auto
qed

text \<open>
  Messages written one after the other appear in the output stream in that order, each whole or,
  when the call reported failure, not at all.
\<close>

theorem writes_in_order:
  assumes "conn_ok (fst s)" "cw.push_all ms s = Some (s', ts)"
  shows "conn_ok (fst s') \<and> length ts = length ms \<and>
    sent (snd s') @ contents (out (fst s')) =
    sent (snd s) @ contents (out (fst s)) @ concat (map fst (filter snd (zip ms ts)))"
  using cw.push_all_in_order [OF _ assms(2)] assms(1)
  by (simp add: conn_inv_def conn_stream_def stream_def)

theorem writes_in_order_witness:
  "\<exists>s. cw.push_all [[1, 2], []] (fresh_connection, quiet) = Some (s, [True, True]) \<and>
    contents (out (fst s)) = [1, 2]"
proof -
  obtain c where c: "wl_connection_write fresh_connection [1, 2] quiet = Some (c, quiet, 0)" "conn_ok c"
    "contents (out c) = [1, 2]"
    by (rule fresh_write [of "[1, 2]" quiet]) (auto simp: BUFFER_SIZE_def)
  have "make_room c 0 quiet = Some (c, quiet, 0)"
    using c(2) by (simp add: make_room_def conn_ok_def buffer_ok_def wl_buffer_size_def)
  then obtain c' where c': "wl_connection_write c [] quiet = Some (c', quiet, 0)"
    using wl_buffer_put_result [of "out c" "[]"]
    by (cases "wl_buffer_put (out c) []") (auto simp: wl_connection_write_def split: if_splits)
  then have run: "cw.push_all [[1, 2], []] (fresh_connection, quiet) = Some ((c', quiet), [True, True])"
    using c(1) by (simp add: push_write_def)
  from writes_in_order [OF _ run] run show ?thesis by (simp add: quiet_def)
qed

text \<open>
  C34: A read appends to the input exactly the bytes the socket delivered, as far as there is room, and
  returns the number of bytes pending. Every descriptor that came with them is queued or closed,
  and closed only when the read fails.
\<close>

theorem read_appends:
  assumes "conn_ok c" "length (contents (inb c)) < BUFFER_SIZE"
    and "recvmsg_retry (recvs w) = Some (Deliver bs cs, rest)" "bs \<noteq> []"
    and "\<forall>m \<in> set cs. 4 dvd length (cmsg_data m)"
  shows "\<exists>c' w' r qs ds. wl_connection_read c w = Some (c', w', r) \<and> conn_ok c' \<and>
    rights cs = qs @ ds \<and> queued_fds (fds_in c') = queued_fds (fds_in c) @ qs \<and> closed w' = closed w @ ds \<and>
    (if r = -1 then contents (inb c') = contents (inb c)
     else ds = [] \<and> r = int (length (contents (inb c'))) \<and>
       contents (inb c') = contents (inb c) @ take (BUFFER_SIZE - length (contents (inb c))) bs)"
proof -
  have k: "4 dvd length (cmsg_data m)" if "m \<in> set cs" for m using assms(5) that by blast
  have room: "unat (wl_buffer_size (inb c)) < BUFFER_SIZE" using assms(2) by simp
  obtain c' w' r qs ds where "wl_connection_read c w = Some (c', w', r)" "conn_ok c'"
    "rights cs = qs @ ds" "queued_fds (fds_in c') = queued_fds (fds_in c) @ qs" "closed w' = closed w @ ds"
    "r = -1 \<Longrightarrow> contents (inb c') = contents (inb c)"
    "r \<noteq> -1 \<Longrightarrow> ds = [] \<and> r = int (length (contents (inb c'))) \<and>
      contents (inb c') = contents (inb c) @ take (BUFFER_SIZE - unat (wl_buffer_size (inb c))) bs"
    by (rule wl_connection_read_deliver [OF assms(1) room assms(3,4) k]) blast+
  then have "wl_connection_read c w = Some (c', w', r) \<and> conn_ok c' \<and>
    rights cs = qs @ ds \<and> queued_fds (fds_in c') = queued_fds (fds_in c) @ qs \<and> closed w' = closed w @ ds \<and>
    (if r = -1 then contents (inb c') = contents (inb c)
     else ds = [] \<and> r = int (length (contents (inb c'))) \<and>
       contents (inb c') = contents (inb c) @ take (BUFFER_SIZE - length (contents (inb c))) bs)"
    unfolding length_contents by (cases "r = -1") (simp_all only: if_True if_False simp_thms)
  then show ?thesis by blast
qed

theorem read_appends_witness:
  "\<exists>c' w' r. wl_connection_read fresh_connection (quiet\<lparr>recvs := [RecvError EINTR, Deliver [9, 8] []]\<rparr>) =
    Some (c', w', r) \<and> conn_ok c'"
  using read_appends [of fresh_connection "quiet\<lparr>recvs := [RecvError EINTR, Deliver [9, 8] []]\<rparr>" "[9, 8]" "[]" "[]"]
  by (auto simp: BUFFER_SIZE_def)

text \<open>
  The queue of outgoing descriptors is guarded by an equality test that a flush without pending
  bytes cannot make true again: with 1024 queued descriptors the next one is accepted and
  overruns the ring.
\<close>

lemma put_fd_overruns:
  assumes "conn_ok c" "length (queued_fds (fds_out c)) = 1024"
  shows "\<exists>c'. wl_connection_put_fd c fd w = Some (c', w, 0) \<and>
    unat (wl_buffer_size (fds_out c')) > BUFFER_SIZE"
proof -
  obtain c' where c': "wl_connection_put_fd c fd w = Some (c', w, 0)" "wl_buffer_size (fds_out c') = 4100"
    by (rule wl_connection_put_fd_overrun [OF assms])
  then show ?thesis by (simp add: BUFFER_SIZE_def)
qed

end
