(* ===== verification/Wl_Array.thy ===== *)
theory Wl_Array
  imports Bytes
begin

text \<open>
  The growable byte arrays of \<^verbatim>\<open>wayland-util.c\<close> (\<^verbatim>\<open>wl_array_*\<close>): object maps, format lists and the
  scanner's list of referenced types are stored in them. Sizes are 64-bit words, so the doubling
  loop of \<^verbatim>\<open>wl_array_add\<close> is modelled with its wrap-around, and the outcome of \<^verbatim>\<open>malloc\<close> is an
  argument.
\<close>

section \<open>State\<close>

datatype array_data = DNull | DPoison | DBlock bytes

record wl_array =
  asize :: u64
  aalloc :: u64
  adata :: array_data

text \<open>
  The C library's allocator: for a requested number of bytes, the fresh block (whose contents
  are whatever the memory held) or \<open>None\<close> when memory is exhausted.
\<close>

type_synonym allocator = "u64 \<Rightarrow> bytes option"

definition allocator_ok :: "allocator \<Rightarrow> bool" where
  "allocator_ok A \<longleftrightarrow> (\<forall>n bs. A n = Some bs \<longrightarrow> length bs = unat n)"

text \<open>\<^verbatim>\<open>realloc\<close> keeps the old contents; a pointer that is no heap block crashes it, \<open>None\<close>.\<close>

fun mem_realloc :: "allocator \<Rightarrow> array_data \<Rightarrow> u64 \<Rightarrow> bytes option option" where
  "mem_realloc A DNull n = Some (A n)"
| "mem_realloc A (DBlock old) n =
     Some (map_option (\<lambda>fresh. take (length fresh) old @ drop (length old) fresh) (A n))"
| "mem_realloc A DPoison n = None"

section \<open>Operations\<close>

definition wl_array_init :: wl_array where
  "wl_array_init = \<lparr>asize = 0, aalloc = 0, adata = DNull\<rparr>"

definition wl_array_release :: "wl_array \<Rightarrow> wl_array" where
  "wl_array_release a = a\<lparr>adata := DPoison\<rparr>"

partial_function (option) wl_array_grow :: "u64 \<Rightarrow> u64 \<Rightarrow> u64 option" where
  "wl_array_grow alloc need =
     (if alloc < need then wl_array_grow (alloc * 2) need else Some alloc)"

text \<open>
  The result is \<open>None\<close> when the call crashes or never returns; otherwise the new array and
  the offset of the new space in its data, or \<open>None\<close> for the \<^verbatim>\<open>NULL\<close> result.
\<close>

definition wl_array_add :: "allocator \<Rightarrow> wl_array \<Rightarrow> u64 \<Rightarrow> (wl_array \<times> nat option) option" where
  "wl_array_add A array sz = do {
     alloc \<leftarrow> wl_array_grow (if aalloc array > 0 then aalloc array else 16) (asize array + sz);
     if aalloc array < alloc then do {
       data \<leftarrow> (if aalloc array > 0 then mem_realloc A (adata array) alloc else Some (A alloc));
       Some (case data of
         None \<Rightarrow> (array, None)
       | Some bs \<Rightarrow>
           (array\<lparr>adata := DBlock bs, aalloc := alloc, asize := asize array + sz\<rparr>,
            Some (unat (asize array))))
     }
     else Some (array\<lparr>asize := asize array + sz\<rparr>, Some (unat (asize array)))
   }"

definition array_memcpy :: "array_data \<Rightarrow> array_data \<Rightarrow> nat \<Rightarrow> array_data option" where
  "array_memcpy dst src n =
     (if n = 0 then Some dst
      else case (dst, src) of
        (DBlock d, DBlock s) \<Rightarrow>
          if n \<le> length d \<and> n \<le> length s then Some (DBlock (splice_at 0 (take n s) d)) else None
      | _ \<Rightarrow> None)"

definition wl_array_copy :: "allocator \<Rightarrow> wl_array \<Rightarrow> wl_array \<Rightarrow> (wl_array \<times> int) option" where
  "wl_array_copy A array source = do {
     (array, r) \<leftarrow> (if asize array < asize source
       then wl_array_add A array (asize source - asize array)
       else Some (array\<lparr>asize := asize source\<rparr>, Some 0));
     case r of
       None \<Rightarrow> Some (array, -1)
     | Some _ \<Rightarrow> do {
         d \<leftarrow> array_memcpy (adata array) (adata source) (unat (asize source));
         Some (array\<lparr>adata := d\<rparr>, 0)
       }
   }"

section \<open>Invariant and contents\<close>

definition array_block :: "wl_array \<Rightarrow> bytes" where
  "array_block a = (case adata a of DBlock bs \<Rightarrow> bs | _ \<Rightarrow> [])"

definition array_bytes :: "wl_array \<Rightarrow> bytes" where
  "array_bytes a = take (unat (asize a)) (array_block a)"

definition array_ok :: "wl_array \<Rightarrow> bool" where
  "array_ok a \<longleftrightarrow> adata a \<noteq> DPoison \<and> (adata a = DNull \<longleftrightarrow> aalloc a = 0) \<and>
     length (array_block a) = unat (aalloc a) \<and> asize a \<le> aalloc a"

lemma array_ok_init: "array_ok wl_array_init"
  by (simp add: array_ok_def wl_array_init_def array_block_def)

lemma length_array_bytes: "array_ok a \<Longrightarrow> length (array_bytes a) = unat (asize a)"
  by (auto simp: array_ok_def array_bytes_def min_def word_le_nat_alt)

section \<open>The doubling loop\<close>

lemma double_no_wrap:
  fixes a b :: u64
  assumes "a < b" "b \<le> 2 ^ 63"
  shows "unat (a * 2) = 2 * unat a"
proof -
  have "unat a < 2 ^ 63" using assms unat_mono [of a b] by (simp add: word_le_nat_alt)
  then show ?thesis by (simp add: unat_word_ariths)
qed

lemma wl_array_grow_total:
  assumes "0 < alloc" "need \<le> 2 ^ 63"
  shows "\<exists>r. wl_array_grow alloc need = Some r \<and> need \<le> r \<and> alloc \<le> r \<and>
    (r = alloc \<or> unat r < 2 * unat need)"
  using assms(1)
proof (induction "unat need - unat alloc" arbitrary: alloc rule: less_induct)
  case less
  show ?case
  proof (cases "alloc < need")
    case False
    then show ?thesis by (simp add: wl_array_grow.simps)
  next
    case True
    with assms(2) have d: "unat (alloc * 2) = 2 * unat alloc" by (rule double_no_wrap [rotated])
    have lt: "unat alloc < unat need" and pos: "0 < unat alloc"
      using True less.prems by (simp_all add: unat_mono unat_gt_0)
    from d pos have "0 < alloc * 2" "alloc \<le> alloc * 2"
      by (simp_all add: word_less_nat_alt word_le_nat_alt)
    moreover have "unat need - unat (alloc * 2) < unat need - unat alloc"
      using d lt pos by linarith
    ultimately obtain r where r: "wl_array_grow (alloc * 2) need = Some r" "need \<le> r"
        "alloc * 2 \<le> r" "r = alloc * 2 \<or> unat r < 2 * unat need"
      using less.hyps [of "alloc * 2"] by auto
    then show ?thesis
      using True d lt \<open>alloc \<le> alloc * 2\<close> by (subst wl_array_grow.simps) auto
  qed
qed

lemma u64_power_le: "(2 ^ k :: u64) \<le> 2 ^ 63"
proof -
  have "unat (2 ^ k :: u64) = 2 ^ k mod 2 ^ 64"
    using unat_of_nat [of "2 ^ k", where ?'a = 64] by simp
  also have "\<dots> \<le> (2 ^ 63 :: nat)"
  proof (cases "k < 64")
    case True
    then have "(2 :: nat) ^ k \<le> 2 ^ 63" by (intro power_increasing) auto
    then show ?thesis by (metis mod_less_eq_dividend order_trans)
  next
    case False
    then have "(2 ^ 64 :: nat) dvd 2 ^ k" by (intro le_imp_power_dvd) simp
    then have "(2 :: nat) ^ k mod 2 ^ 64 = 0" by presburger
    then show ?thesis by linarith
  qed
  finally show ?thesis by (simp add: word_le_nat_alt)
qed

text \<open>Beyond \<open>2 ^ 63\<close> bytes the capacity wraps to zero and the loop does not end.\<close>

lemma wl_array_grow_bounded:
  assumes "wl_array_grow alloc need = Some r" "alloc = 2 ^ k"
  shows "need \<le> 2 ^ 63"
proof (rule wl_array_grow.raw_induct
    [where P = "\<lambda>alloc need r. \<forall>k. alloc = 2 ^ k \<longrightarrow> need \<le> 2 ^ 63", OF _ assms(1),
     THEN spec, THEN mp, OF _ assms(2)])
  fix f :: "u64 \<Rightarrow> u64 \<Rightarrow> u64 option" and alloc need r
  assume IH: "\<And>alloc need r. f alloc need = Some r \<Longrightarrow> \<forall>k. alloc = 2 ^ k \<longrightarrow> need \<le> 2 ^ 63"
    and eq: "(if alloc < need then f (alloc * 2) need else Some alloc) = Some r"
  show "\<forall>k. alloc = 2 ^ k \<longrightarrow> need \<le> 2 ^ 63"
  proof (intro allI impI)
    fix k assume k: "alloc = 2 ^ k"
    show "need \<le> 2 ^ 63"
    proof (cases "alloc < need")
      case True
      with eq IH [of "alloc * 2" need r] have "\<forall>k. alloc * 2 = 2 ^ k \<longrightarrow> need \<le> 2 ^ 63" by simp
      moreover have "alloc * 2 = 2 ^ Suc k" using k by simp
      ultimately show ?thesis by blast
    next
      case False
      then have "need \<le> 2 ^ k" using k by simp
      then show ?thesis using u64_power_le [of k] by (rule order_trans)
    qed
  qed
qed

section \<open>Adding and copying\<close>

lemma array_bytes_grown:
  assumes "length bs \<ge> unat (asize a)" "take (unat (asize a)) bs = array_bytes a"
    "unat (asize a) + unat n < 2 ^ 64"
  shows "take (unat (asize a)) (array_bytes (a\<lparr>adata := DBlock bs, aalloc := c, asize := asize a + n\<rparr>))
    = array_bytes a"
  using assms by (simp add: array_bytes_def array_block_def unat_word_ariths)

lemma mem_realloc_block:
  assumes "allocator_ok A" "array_ok a" "0 < aalloc a" "aalloc a \<le> c"
  obtains "mem_realloc A (adata a) c = Some None"
  | bs where "mem_realloc A (adata a) c = Some (Some bs)" "length bs = unat c"
    "take (unat (asize a)) bs = array_bytes a"
proof -
  obtain old where old: "adata a = DBlock old" "length old = unat (aalloc a)"
    using assms(2,3) by (cases "adata a") (auto simp: array_ok_def array_block_def)
  show ?thesis
  proof (cases "A c")
    case None
    with old that(1) show ?thesis by simp
  next
    case (Some fresh)
    then have len: "length fresh = unat c" using assms(1) by (simp add: allocator_ok_def)
    have "unat (aalloc a) \<le> unat c" "unat (asize a) \<le> unat (aalloc a)"
      using assms(2,4) by (simp_all add: word_le_nat_alt array_ok_def)
    with Some len old that(2) show ?thesis
      by (simp add: array_bytes_def array_block_def)
  qed
qed

text \<open>What a successful \<open>wl_array_add\<close> does to the contents.\<close>

definition array_extended :: "wl_array \<Rightarrow> u64 \<Rightarrow> wl_array \<Rightarrow> bool" where
  "array_extended a n a' \<longleftrightarrow> array_ok a' \<and> asize a' = asize a + n \<and>
     take (unat (asize a)) (array_bytes a') = array_bytes a \<and>
     length (array_bytes a') = unat (asize a) + unat n"

lemma array_extended_grown:
  assumes "length bs = unat c" "take (unat (asize a)) bs = array_bytes a" "0 < c"
    "asize a + n \<le> c" "unat (asize a) + unat n < 2 ^ 64"
  shows "array_extended a n (a\<lparr>adata := DBlock bs, aalloc := c, asize := asize a + n\<rparr>)"
proof -
  let ?a = "a\<lparr>adata := DBlock bs, aalloc := c, asize := asize a + n\<rparr>"
  have sum: "unat (asize a + n) = unat (asize a) + unat n"
    using assms(5) by (simp add: unat_word_ariths)
  have ok: "array_ok ?a" using assms by (auto simp: array_ok_def array_block_def)
  have "unat (asize a) \<le> length bs"
    using assms(1,4) sum by (simp add: word_le_nat_alt)
  then have "take (unat (asize a)) (array_bytes ?a) = array_bytes a"
    using assms by (intro array_bytes_grown) auto
  with ok sum show ?thesis
    using length_array_bytes [OF ok] by (simp add: array_extended_def)
qed

lemma wl_array_add_grows:
  assumes A: "allocator_ok A" and ok: "array_ok a" and lt: "aalloc a < c" and need: "asize a + n \<le> c"
    and sz: "unat (asize a) + unat n < 2 ^ 64"
    and g: "wl_array_grow (if aalloc a > 0 then aalloc a else 16) (asize a + n) = Some c"
  shows "wl_array_add A a n = Some (a, None) \<or>
    (\<exists>a'. wl_array_add A a n = Some (a', Some (unat (asize a))) \<and> array_extended a n a')"
proof (cases "aalloc a > 0")
  case True
  with A ok lt consider "mem_realloc A (adata a) c = Some None"
    | bs where "mem_realloc A (adata a) c = Some (Some bs)" "length bs = unat c"
      "take (unat (asize a)) bs = array_bytes a"
    by (metis mem_realloc_block less_imp_le)
  then show ?thesis
  proof cases
    case 1
    with g lt True show ?thesis by (simp add: wl_array_add_def)
  next
    case (2 bs)
    with lt have "array_extended a n (a\<lparr>adata := DBlock bs, aalloc := c, asize := asize a + n\<rparr>)"
      by (intro array_extended_grown [OF _ _ _ need sz]) (auto simp: word_gt_0)
    with 2(1) g lt True show ?thesis by (simp add: wl_array_add_def)
  qed
next
  case False
  then have z: "asize a = 0" "array_bytes a = []"
    using ok by (auto simp: array_ok_def array_bytes_def word_gt_0)
  show ?thesis
  proof (cases "A c")
    case None
    with g lt False show ?thesis by (simp add: wl_array_add_def)
  next
    case (Some bs)
    with A have "length bs = unat c" by (simp add: allocator_ok_def)
    with lt z have "array_extended a n (a\<lparr>adata := DBlock bs, aalloc := c, asize := asize a + n\<rparr>)"
      by (intro array_extended_grown [OF _ _ _ need sz]) (auto simp: word_gt_0)
    with Some g lt False show ?thesis by (simp add: wl_array_add_def)
  qed
qed

lemma wl_array_add_ok:
  assumes A: "allocator_ok A" and ok: "array_ok a" and sz: "unat (asize a) + unat n \<le> 2 ^ 63"
  shows "wl_array_add A a n = Some (a, None) \<or>
    (\<exists>a'. wl_array_add A a n = Some (a', Some (unat (asize a))) \<and> array_extended a n a')"
proof -
  let ?start = "if aalloc a > 0 then aalloc a else 16"
  have sum: "unat (asize a + n) = unat (asize a) + unat n"
    using sz by (simp add: unat_word_ariths)
  then have "asize a + n \<le> 2 ^ 63" using sz by (simp add: word_le_nat_alt)
  moreover have "0 < ?start" by simp
  ultimately obtain c where c: "wl_array_grow ?start (asize a + n) = Some c" "asize a + n \<le> c"
    "?start \<le> c"
    using wl_array_grow_total by blast
  show ?thesis
  proof (cases "aalloc a < c")
    case True
    then show ?thesis using wl_array_add_grows [OF A ok True c(2) _ c(1)] sz by simp
  next
    case False
    with c(3) have eq: "c = aalloc a" by (auto simp: word_gt_0 split: if_splits)
    let ?a = "a\<lparr>asize := asize a + n\<rparr>"
    have "array_ok ?a" using ok eq c(2) by (auto simp: array_ok_def array_block_def)
    moreover have "take (unat (asize a)) (array_bytes ?a) = array_bytes a"
      by (simp add: array_bytes_def array_block_def sum)
    ultimately have "array_extended a n ?a"
      using length_array_bytes [of ?a] sum by (simp add: array_extended_def)
    with c(1) eq show ?thesis by (simp add: wl_array_add_def)
  qed
qed

lemma wl_array_copy_ok:
  assumes A: "allocator_ok A" and ok: "array_ok a" "array_ok src" and sz: "asize src \<le> 2 ^ 63"
  shows "(\<exists>a'. wl_array_copy A a src = Some (a', -1) \<and> a' = a) \<or>
    (\<exists>a'. wl_array_copy A a src = Some (a', 0) \<and> array_ok a' \<and> array_bytes a' = array_bytes src)"
proof -
  have copied: "\<exists>d. array_memcpy (adata b) (adata src) (unat (asize src)) = Some d \<and>
      array_ok (b\<lparr>adata := d\<rparr>) \<and> array_bytes (b\<lparr>adata := d\<rparr>) = array_bytes src"
    if b: "array_ok b" "asize b = asize src" for b
  proof (cases "asize src = 0")
    case True
    with b show ?thesis by (simp add: array_memcpy_def array_bytes_def)
  next
    case False
    with b ok have "aalloc b \<noteq> 0" "aalloc src \<noteq> 0" by (auto simp: array_ok_def)
    with b(1) ok(2) obtain d s where d: "adata b = DBlock d" "adata src = DBlock s"
      "length d = unat (aalloc b)" "length s = unat (aalloc src)"
      by (cases "adata b"; cases "adata src") (auto simp: array_ok_def array_block_def)
    have "unat (asize src) \<le> length d" "unat (asize src) \<le> length s"
      using b ok(2) d by (auto simp: array_ok_def word_le_nat_alt)
    with b d False show ?thesis
      by (auto simp: array_memcpy_def array_ok_def array_block_def array_bytes_def splice_at_def
          unat_eq_0)
  qed
  show ?thesis
  proof (cases "asize a < asize src")
    case False
    let ?b = "a\<lparr>asize := asize src\<rparr>"
    have "array_ok ?b" using ok(1) False by (auto simp: array_ok_def array_block_def word_gt_0)
    with copied [of ?b] False show ?thesis by (auto simp: wl_array_copy_def)
  next
    case True
    then have "unat (asize a) + unat (asize src - asize a) = unat (asize src)"
      using unat_minus_le [of "asize a" "asize src"] unat_mono [of "asize a" "asize src"] by auto
    then have "unat (asize a) + unat (asize src - asize a) \<le> 2 ^ 63"
      using sz by (simp add: word_le_nat_alt)
    from wl_array_add_ok [OF A ok(1) this] show ?thesis
    proof
      assume "wl_array_add A a (asize src - asize a) = Some (a, None)"
      with True show ?thesis by (simp add: wl_array_copy_def)
    next
      assume "\<exists>a'. wl_array_add A a (asize src - asize a) = Some (a', Some (unat (asize a))) \<and>
        array_extended a (asize src - asize a) a'"
      then obtain b where b: "wl_array_add A a (asize src - asize a) = Some (b, Some (unat (asize a)))"
        "array_ok b" "asize b = asize src"
        by (auto simp: array_extended_def)
      with copied [of b] True show ?thesis by (auto simp: wl_array_copy_def)
    qed
  qed
qed

section \<open>An allocator that never fails\<close>

text \<open>
  The allocator that gives what \<open>A\<close> gives and never fails: with it an operation does what it does with \<open>A\<close>
  as long as \<open>A\<close> has memory.
\<close>

definition never_fails :: "allocator \<Rightarrow> allocator" where
  "never_fails A n = Some (case A n of None \<Rightarrow> replicate (unat n) 0 | Some bs \<Rightarrow> bs)"

lemma never_fails_ok: "allocator_ok A \<Longrightarrow> allocator_ok (never_fails A)" "never_fails A n \<noteq> None"
  by (auto simp: allocator_ok_def never_fails_def split: option.splits)

lemma wl_array_grow_bound:
  assumes "wl_array_grow c need = Some c'" "c \<noteq> c'"
  shows "c < need"
  using assms by (cases "c < need") (simp_all add: wl_array_grow.simps)

lemma wl_array_add_never_fails:
  assumes ok: "array_ok a"
  shows "wl_array_add A a n = wl_array_add (never_fails A) a n \<or>
    wl_array_add A a n = Some (a, None) \<and> (\<exists>k. A k = None) \<and> (aalloc a = 0 \<or> aalloc a < asize a + n)"
proof -
  consider (none) "wl_array_grow (if aalloc a > 0 then aalloc a else 16) (asize a + n) = None"
    | (some) c where "wl_array_grow (if aalloc a > 0 then aalloc a else 16) (asize a + n) = Some c" by fastforce
  then show ?thesis
  proof cases
    case (some c)
    show ?thesis
    proof (cases "A c")
      case None
      have "aalloc a = 0 \<or> aalloc a < asize a + n" if "aalloc a < c"
        using wl_array_grow_bound [OF some] that by (cases "aalloc a = 0") (simp_all add: word_gt_0)
      with None some ok show ?thesis
        by (cases "adata a") (auto simp: wl_array_add_def array_ok_def word_gt_0)
    next
      case (Some bs)
      then have "A c = never_fails A c" by (simp add: never_fails_def)
      then have "mem_realloc A d c = mem_realloc (never_fails A) d c" for d by (cases d) simp_all
      with \<open>A c = never_fails A c\<close> some show ?thesis by (simp add: wl_array_add_def)
    qed
  qed (simp add: wl_array_add_def)
qed

section \<open>Arrays of pointer-sized cells\<close>

text \<open>
  The object maps read and write their arrays as \<^verbatim>\<open>union map_entry *\<close>, cells of eight bytes. An
  access outside the allocated block is a crash, \<open>None\<close>.
\<close>

definition cell_count :: "wl_array \<Rightarrow> nat" where
  "cell_count a = unat (asize a) div 8"

definition cell_get :: "wl_array \<Rightarrow> nat \<Rightarrow> u64 option" where
  "cell_get a i = (if 8 * i + 8 \<le> length (array_block a)
     then Some (load 8 (8 * i) (array_block a)) else None)"

definition cell_set :: "wl_array \<Rightarrow> nat \<Rightarrow> u64 \<Rightarrow> wl_array option" where
  "cell_set a i v = (if 8 * i + 8 \<le> length (array_block a)
     then Some (a\<lparr>adata := DBlock (store 8 (8 * i) v (array_block a))\<rparr>) else None)"

definition cells :: "wl_array \<Rightarrow> u64 list" where
  "cells a = map (\<lambda>i. load 8 (8 * i) (array_block a)) [0..<cell_count a]"

lemma length_cells [simp]: "length (cells a) = cell_count a"
  by (simp add: cells_def)

lemma cells_init [simp]: "cells wl_array_init = []"
  by (simp add: cells_def cell_count_def wl_array_init_def)

lemma cell_in_block:
  assumes "array_ok a" "i < cell_count a"
  shows "8 * i + 8 \<le> unat (asize a) \<and> 8 * i + 8 \<le> length (array_block a)"
proof -
  have "8 * Suc i \<le> unat (asize a)"
    using assms(2) by (simp add: cell_count_def)
  moreover have "unat (asize a) \<le> length (array_block a)"
    using assms(1) by (simp add: array_ok_def word_le_nat_alt)
  ultimately show ?thesis by simp
qed

lemma cell_get_cells:
  "array_ok a \<Longrightarrow> i < cell_count a \<Longrightarrow> cell_get a i = Some (cells a ! i)"
  using cell_in_block [of a i] by (simp add: cell_get_def cells_def)

lemma cell_set_cells:
  assumes "array_ok a" "i < cell_count a"
  obtains a' where "cell_set a i v = Some a'" "array_ok a'" "cells a' = (cells a)[i := v]"
    "asize a' = asize a"
proof -
  let ?m = "array_block a"
  let ?a = "a\<lparr>adata := DBlock (store 8 (8 * i) v ?m)\<rparr>"
  have in_block: "8 * i + 8 \<le> length ?m" using cell_in_block [OF assms] by simp
  have "aalloc a \<noteq> 0" using in_block assms(1) by (auto simp: array_ok_def)
  then have ok: "array_ok ?a"
    using assms(1) in_block by (auto simp: array_ok_def array_block_def)
  have "cells ?a = (cells a)[i := v]"
  proof (rule nth_equalityI)
    show "length (cells ?a) = length ((cells a)[i := v])" by (simp add: cell_count_def)
    fix j assume "j < length (cells ?a)"
    then have j: "j < cell_count a" by (simp add: cell_count_def)
    have "load 8 (8 * j) (store 8 (8 * i) v ?m) = (if i = j then v else load 8 (8 * j) ?m)"
      using in_block cell_in_block [OF assms(1) j]
      by (auto simp: load_store_same intro!: load_store_other)
    then show "cells ?a ! j = (cells a)[i := v] ! j"
      using j by (simp add: cells_def cell_count_def array_block_def nth_list_update)
  qed
  with ok show ?thesis using that [of ?a] in_block by (simp add: cell_set_def)
qed

lemma array_bytes_load:
  assumes "array_ok a" "8 * i + 8 \<le> unat (asize a)"
  shows "load 8 (8 * i) (array_block a) = load 8 (8 * i) (array_bytes a)"
  using assms by (simp add: array_bytes_def load_take)

lemma cells_extended:
  assumes "array_ok a" "array_extended a 8 a'" "8 dvd unat (asize a)"
  shows "\<exists>x. cells a' = cells a @ [x]" "8 dvd unat (asize a')" "cell_count a' = Suc (cell_count a)"
proof -
  have ok': "array_ok a'" and pre: "take (unat (asize a)) (array_bytes a') = array_bytes a"
    and len: "length (array_bytes a') = unat (asize a) + 8"
    using assms(2) by (auto simp: array_extended_def)
  have sz: "unat (asize a') = unat (asize a) + 8" using length_array_bytes [OF ok'] len by simp
  then show "8 dvd unat (asize a')" using assms(3) by simp
  show cnt: "cell_count a' = Suc (cell_count a)" using sz by (simp add: cell_count_def)
  have "load 8 (8 * i) (array_block a') = (load 8 (8 * i) (array_block a) :: u64)"
    if "i < cell_count a" for i
  proof -
    have i: "8 * i + 8 \<le> unat (asize a)" using cell_in_block [OF assms(1) that] by simp
    have "load 8 (8 * i) (array_block a') = (load 8 (8 * i) (array_bytes a') :: u64)"
      using i sz by (intro array_bytes_load ok') simp
    also have "\<dots> = load 8 (8 * i) (array_bytes a)"
      using i by (simp flip: pre add: load_take)
    also have "\<dots> = load 8 (8 * i) (array_block a)"
      by (rule array_bytes_load [OF assms(1) i, symmetric])
    finally show ?thesis .
  qed
  then have "cells a' = cells a @ [load 8 (8 * cell_count a) (array_block a')]"
    by (simp add: cells_def cnt)
  then show "\<exists>x. cells a' = cells a @ [x]" by blast
qed

section \<open>Properties\<close>

text \<open>
  Adding space to an array either fails and leaves it as it was, or returns the old end, keeps
  every byte stored so far and makes room for exactly the bytes asked for. It returns for
  every size up to \<open>2 ^ 63\<close> bytes.
\<close>

theorem array_add_keeps_contents:
  assumes "allocator_ok A" "array_ok a" "unat (asize a) + unat n \<le> 2 ^ 63"
  shows "wl_array_add A a n = Some (a, None) \<or>
    (\<exists>a'. wl_array_add A a n = Some (a', Some (length (array_bytes a))) \<and> array_ok a' \<and>
       take (length (array_bytes a)) (array_bytes a') = array_bytes a \<and>
       length (array_bytes a') = length (array_bytes a) + unat n)"
  using wl_array_add_ok [OF assms] length_array_bytes [OF assms(2)]
  by (auto simp: array_extended_def)

theorem array_add_keeps_contents_witness:
  "wl_array_add (\<lambda>n. Some (replicate (unat n) 7)) wl_array_init 20 \<noteq> None"
proof -
  have "unat (asize wl_array_init) + unat (20 :: u64) \<le> 2 ^ 63" by (simp add: wl_array_init_def)
  from array_add_keeps_contents [OF _ array_ok_init this, of "\<lambda>n. Some (replicate (unat n) 7)"]
  show ?thesis by (auto simp: allocator_ok_def)
qed

text \<open>
  Copying an array makes the destination's contents equal to the source's, unless memory is
  exhausted, in which case the destination is unchanged.
\<close>

theorem array_copy_equal:
  assumes "allocator_ok A" "array_ok a" "array_ok src" "asize src \<le> 2 ^ 63"
  shows "wl_array_copy A a src = Some (a, -1) \<or>
    (\<exists>a'. wl_array_copy A a src = Some (a', 0) \<and> array_ok a' \<and> array_bytes a' = array_bytes src)"
  using wl_array_copy_ok [OF assms] by auto

theorem array_copy_equal_witness:
  "\<exists>r. wl_array_copy (\<lambda>n. Some (replicate (unat n) 0)) wl_array_init
    \<lparr>asize = 2, aalloc = 4, adata = DBlock [1, 2, 3, 4]\<rparr> = Some r"
  using array_copy_equal [of "\<lambda>n. Some (replicate (unat n) 0)" wl_array_init
      "\<lparr>asize = 2, aalloc = 4, adata = DBlock [1, 2, 3, 4]\<rparr>"] array_ok_init
  by (auto simp: allocator_ok_def array_ok_def array_block_def)

text \<open>
  The doubling loop has no guard against overflow: started from a power of two, as it always
  is, it does not return for a size beyond \<open>2 ^ 63\<close>, because the capacity wraps to zero.
\<close>

lemma array_grow_diverges:
  assumes "2 ^ 63 < need"
  shows "wl_array_grow (2 ^ k) need = None"
proof (cases "wl_array_grow (2 ^ k) need")
  case (Some r)
  from wl_array_grow_bounded [OF this refl] assms show ?thesis by (simp add: word_less_nat_alt word_le_nat_alt)
qed simp

end
