(* ===== verification/Wl_Map.thy ===== *)
theory Wl_Map
  imports Wl_Array
begin

unbundle bit_operations_syntax

text \<open>
  The object maps of \<^verbatim>\<open>wayland-util.c\<close> (\<^verbatim>\<open>wl_map_*\<close>): they give protocol objects their ids. A map has
  one table per side; ids from \<open>WL_SERVER_ID_START\<close> on index the server's. An entry is a
  pointer whose two low bits are a free mark and one flag; the free entries of the map's own side
  are chained through the table itself.
\<close>

section \<open>State\<close>

definition WL_SERVER_ID_START :: u32 where
  "WL_SERVER_ID_START = 0xff000000"

definition WL_MAP_SERVER_SIDE :: u32 where
  "WL_MAP_SERVER_SIDE = 0"

definition WL_MAP_CLIENT_SIDE :: u32 where
  "WL_MAP_CLIENT_SIDE = 1"

record wl_map =
  client_entries :: wl_array
  server_entries :: wl_array
  side :: u32
  free_list :: u32

datatype wl_iterator_result = WL_ITERATOR_STOP | WL_ITERATOR_CONTINUE

definition map_entry_is_free :: "u64 \<Rightarrow> bool" where
  "map_entry_is_free e \<longleftrightarrow> e AND 1 \<noteq> 0"

definition map_entry_get_data :: "u64 \<Rightarrow> u64" where
  "map_entry_get_data e = e AND NOT 3"

definition map_entry_get_flags :: "u64 \<Rightarrow> u32" where
  "map_entry_get_flags e = ucast (drop_bit 1 e AND 1)"

text \<open>The table a pointer \<^verbatim>\<open>entries\<close> of the C code designates, by which side it belongs to.\<close>

definition entries_of :: "bool \<Rightarrow> wl_map \<Rightarrow> wl_array" where
  "entries_of client m = (if client then client_entries m else server_entries m)"

definition set_entries :: "bool \<Rightarrow> wl_array \<Rightarrow> wl_map \<Rightarrow> wl_map" where
  "set_entries client a m =
     (if client then m\<lparr>client_entries := a\<rparr> else m\<lparr>server_entries := a\<rparr>)"

text \<open>Both insertions write an entry in two steps, the pointer and then the flag bit.\<close>

definition entry_write :: "wl_array \<Rightarrow> nat \<Rightarrow> u64 \<Rightarrow> u32 \<Rightarrow> wl_array option" where
  "entry_write a i data flags = do {
     a \<leftarrow> cell_set a i data;
     e \<leftarrow> cell_get a i;
     cell_set a i (e OR ucast (push_bit 1 (flags AND 1)))
   }"

section \<open>Operations\<close>

definition wl_map_init :: "u32 \<Rightarrow> wl_map" where
  "wl_map_init s = \<lparr>client_entries = wl_array_init, server_entries = wl_array_init,
     side = s, free_list = 0\<rparr>"

definition wl_map_release :: "wl_map \<Rightarrow> wl_map" where
  "wl_map_release m = m\<lparr>client_entries := wl_array_release (client_entries m),
     server_entries := wl_array_release (server_entries m)\<rparr>"

definition wl_map_insert_new :: "allocator \<Rightarrow> wl_map \<Rightarrow> u32 \<Rightarrow> u64 \<Rightarrow> (wl_map \<times> u32) option" where
  "wl_map_insert_new A m flags data =
     (let client = (side m = WL_MAP_CLIENT_SIDE);
          base = (if client then 0 else WL_SERVER_ID_START);
          entries = entries_of client m
      in if free_list m \<noteq> 0 then do {
           let i = unat (drop_bit 1 (free_list m));
           entry \<leftarrow> cell_get entries i;
           entries \<leftarrow> entry_write entries i data flags;
           Some (set_entries client entries (m\<lparr>free_list := ucast entry\<rparr>), of_nat i + base)
         }
         else do {
           (entries, p) \<leftarrow> wl_array_add A entries 8;
           case p of
             None \<Rightarrow> Some (set_entries client entries m, 0)
           | Some off \<Rightarrow> do {
               entries \<leftarrow> entry_write entries (off div 8) data flags;
               Some (set_entries client entries m, of_nat (off div 8) + base)
             }
         })"

definition wl_map_insert_at ::
    "allocator \<Rightarrow> wl_map \<Rightarrow> u32 \<Rightarrow> u32 \<Rightarrow> u64 \<Rightarrow> (wl_map \<times> int) option" where
  "wl_map_insert_at A m flags i data =
     (let client = (i < WL_SERVER_ID_START);
          entries = entries_of client m;
          i = (if client then i else i - WL_SERVER_ID_START);
          count = (ucast (asize entries div 8) :: u32)
      in if count < i then Some (m, -1)
         else do {
           entries \<leftarrow> (if count = i then map_option fst (wl_array_add A entries 8) else Some entries);
           entries \<leftarrow> entry_write entries (unat i) data flags;
           Some (set_entries client entries m, 0)
         })"

definition wl_map_reserve_new :: "allocator \<Rightarrow> wl_map \<Rightarrow> u32 \<Rightarrow> (wl_map \<times> int) option" where
  "wl_map_reserve_new A m i =
     (let client = (i < WL_SERVER_ID_START)
      in if client \<and> side m = WL_MAP_CLIENT_SIDE then Some (m, -1)
         else if \<not> client \<and> side m = WL_MAP_SERVER_SIDE then Some (m, -1)
         else
           let entries = entries_of client m;
               i = (if client then i else i - WL_SERVER_ID_START);
               count = (ucast (asize entries div 8) :: u32)
           in if count < i then Some (m, -1)
              else if count = i then do {
                (entries, _) \<leftarrow> wl_array_add A entries 8;
                entries \<leftarrow> cell_set entries (unat i) 0;
                Some (set_entries client entries m, 0)
              }
              else do {
                e \<leftarrow> cell_get entries (unat i);
                Some (m, if e \<noteq> 0 then -1 else 0)
              })"

definition wl_map_remove :: "wl_map \<Rightarrow> u32 \<Rightarrow> wl_map option" where
  "wl_map_remove m i =
     (let client = (i < WL_SERVER_ID_START)
      in if client \<and> side m = WL_MAP_SERVER_SIDE then Some m
         else if \<not> client \<and> side m = WL_MAP_CLIENT_SIDE then Some m
         else do {
           let i = (if client then i else i - WL_SERVER_ID_START);
           entries \<leftarrow> cell_set (entries_of client m) (unat i) (ucast (free_list m));
           Some (set_entries client entries m\<lparr>free_list := push_bit 1 i OR 1\<rparr>)
         })"

definition wl_map_lookup :: "wl_map \<Rightarrow> u32 \<Rightarrow> u64 option" where
  "wl_map_lookup m i =
     (let client = (i < WL_SERVER_ID_START);
          entries = entries_of client m;
          i = (if client then i else i - WL_SERVER_ID_START);
          count = (ucast (asize entries div 8) :: u32)
      in if i < count then do {
           e \<leftarrow> cell_get entries (unat i);
           Some (if map_entry_is_free e then 0 else map_entry_get_data e)
         } else Some 0)"

definition wl_map_lookup_flags :: "wl_map \<Rightarrow> u32 \<Rightarrow> u32 option" where
  "wl_map_lookup_flags m i =
     (let client = (i < WL_SERVER_ID_START);
          entries = entries_of client m;
          i = (if client then i else i - WL_SERVER_ID_START);
          count = (ucast (asize entries div 8) :: u32)
      in if i < count then do {
           e \<leftarrow> cell_get entries (unat i);
           Some (if map_entry_is_free e then 0 else map_entry_get_flags e)
         } else Some 0)"

text \<open>
  The iterator calls back for every entry in use until the callback asks to stop; the
  callback's effect is a transformation of a client state.
\<close>

fun for_each_helper ::
    "u64 list \<Rightarrow> (u64 \<Rightarrow> u32 \<Rightarrow> 's \<Rightarrow> 's \<times> wl_iterator_result) \<Rightarrow> 's \<Rightarrow> 's \<times> wl_iterator_result" where
  "for_each_helper [] func s = (s, WL_ITERATOR_CONTINUE)"
| "for_each_helper (p # ps) func s =
     (if p \<noteq> 0 \<and> \<not> map_entry_is_free p then
        (case func (map_entry_get_data p) (map_entry_get_flags p) s of
           (s, WL_ITERATOR_STOP) \<Rightarrow> (s, WL_ITERATOR_STOP)
         | (s, WL_ITERATOR_CONTINUE) \<Rightarrow> for_each_helper ps func s)
      else for_each_helper ps func s)"

definition wl_map_for_each ::
    "wl_map \<Rightarrow> (u64 \<Rightarrow> u32 \<Rightarrow> 's \<Rightarrow> 's \<times> wl_iterator_result) \<Rightarrow> 's \<Rightarrow> 's" where
  "wl_map_for_each m func s =
     (case for_each_helper (cells (client_entries m)) func s of
        (s, WL_ITERATOR_CONTINUE) \<Rightarrow> fst (for_each_helper (cells (server_entries m)) func s)
      | (s, WL_ITERATOR_STOP) \<Rightarrow> s)"

section \<open>Entries\<close>

definition entry_data :: "u64 \<Rightarrow> u64" where
  "entry_data e = (if map_entry_is_free e then 0 else map_entry_get_data e)"

definition entry_flags :: "u64 \<Rightarrow> u32" where
  "entry_flags e = (if map_entry_is_free e then 0 else map_entry_get_flags e)"

definition used_entry :: "u64 \<Rightarrow> u32 \<Rightarrow> u64" where
  "used_entry data flags = data OR ucast (push_bit 1 (flags AND 1))"

text \<open>A pointer is aligned, so its two low bits are free to hold the marks.\<close>

lemma aligned_bits:
  assumes "(data :: u64) AND 3 = 0"
  shows "\<not> bit data 0" "\<not> bit data 1"
proof -
  have "bit (data AND 3) n = (bit data n \<and> bit (3 :: u64) n)" for n by (simp add: bit_and_iff)
  from this [of 0] this [of 1] assms show "\<not> bit data 0" "\<not> bit data 1"
    by (simp_all add: bit_numeral_rec)
qed

lemma bit_used_entry:
  "bit (used_entry data flags) n \<longleftrightarrow> bit data n \<or> n = 1 \<and> bit flags 0"
proof -
  have "bit (push_bit 1 (flags AND 1)) n \<longleftrightarrow> n = 1 \<and> bit flags 0"
    by (cases n) (simp_all only: bit_push_bit_iff bit_and_iff bit_1_iff, auto)
  then show ?thesis
    by (auto simp only: used_entry_def bit_or_iff bit_unsigned_iff) simp_all
qed

lemma map_entry_is_free_bit: "map_entry_is_free e \<longleftrightarrow> bit e 0"
  by (simp add: map_entry_is_free_def and_one_eq bit_0 mod_2_eq_odd)

lemma used_entry_marks:
  assumes "data AND 3 = 0"
  shows "\<not> map_entry_is_free (used_entry data flags)"
    "entry_data (used_entry data flags) = data"
    "entry_flags (used_entry data flags) = flags AND 1"
proof -
  note al = aligned_bits [OF assms]
  show free: "\<not> map_entry_is_free (used_entry data flags)"
    using al by (simp add: map_entry_is_free_bit bit_used_entry)
  have "used_entry data flags AND NOT 3 = data"
  proof (rule bit_word_eqI)
    fix n assume n: "n < LENGTH(64)"
    have three: "bit (3 :: u64) n \<longleftrightarrow> n = 0 \<or> n = 1"
      by (cases n) (auto simp: bit_numeral_rec bit_1_iff split: nat.splits)
    have "bit (used_entry data flags AND NOT 3) n \<longleftrightarrow>
        bit (used_entry data flags) n \<and> \<not> bit (3 :: u64) n"
      using n by (simp only: bit_and_iff bit_not_iff possible_bit_word) simp
    then show "bit (used_entry data flags AND NOT 3) n = bit data n"
      using al three by (auto simp: bit_used_entry)
  qed
  with free show "entry_data (used_entry data flags) = data"
    by (simp add: entry_data_def map_entry_get_data_def)
  have "ucast (drop_bit 1 (used_entry data flags) AND 1) = flags AND 1"
    using al by (intro bit_word_eqI)
      (auto simp: bit_unsigned_iff bit_and_iff bit_drop_bit_eq bit_used_entry bit_1_iff)
  with free show "entry_flags (used_entry data flags) = flags AND 1"
    by (simp add: entry_flags_def map_entry_get_flags_def)
qed

section \<open>The free list\<close>

definition free_link :: "nat \<Rightarrow> u32" where
  "free_link i = push_bit 1 (of_nat i) OR 1"

lemma free_link_eq: "free_link i = of_nat (2 * i + 1)"
proof -
  have "even (push_bit 1 (of_nat i :: u32))" by (simp add: even_push_bit_iff del: push_bit_of_nat)
  then show ?thesis by (simp add: free_link_def or_one_eq del: push_bit_of_nat)
qed

lemma free_link_odd [simp]: "bit (free_link i) 0"
  by (simp add: free_link_def bit_or_iff)

lemma free_link_nonzero [simp]: "free_link i \<noteq> 0"
  using free_link_odd [of i] by (metis bit_0_eq bot_apply bot_bool_def)

lemma free_link_index:
  assumes "i < 2 ^ 31"
  shows "unat (drop_bit 1 (free_link i)) = i"
proof -
  have "unat (free_link i) = 2 * i + 1"
    using assms unat_of_nat [of "2 * i + 1", where ?'a = 32] by (simp only: free_link_eq) simp
  then show ?thesis by (simp add: drop_bit_Suc unat_div)
qed

text \<open>\<open>free_chain cs f xs\<close>: following the list from \<open>f\<close> through the table \<open>cs\<close> visits \<open>xs\<close>.\<close>

fun free_chain :: "u64 list \<Rightarrow> u32 \<Rightarrow> nat list \<Rightarrow> bool" where
  "free_chain cs f [] \<longleftrightarrow> f = 0"
| "free_chain cs f (i # xs) \<longleftrightarrow> f = free_link i \<and> i < length cs \<and> i < 2 ^ 31 \<and>
     cs ! i = ucast (ucast (cs ! i) :: u32) \<and> free_chain cs (ucast (cs ! i)) xs"

lemma free_chain_update:
  "j \<notin> set xs \<Longrightarrow> free_chain (cs[j := v]) f xs \<longleftrightarrow> free_chain cs f xs"
  by (induction xs arbitrary: f) auto

lemma free_chain_append:
  "free_chain cs f xs \<Longrightarrow> free_chain (cs @ ys) f xs"
  by (induction xs arbitrary: f) (auto simp: nth_append)

lemma free_chain_entry:
  assumes "free_chain cs f xs" "i \<in> set xs"
  shows "i < length cs \<and> entry_data (cs ! i) = 0 \<and> entry_flags (cs ! i) = 0"
  using assms
proof (induction xs arbitrary: f)
  case (Cons j xs)
  show ?case
  proof (cases "i = j")
    case True
    define g :: u32 where "g = ucast (cs ! j)"
    have e: "cs ! j = ucast g" "free_chain cs g xs" "j < length cs"
      using Cons.prems(1) by (simp_all add: g_def)
    show ?thesis
    proof (cases xs)
      case Nil
      with e have "cs ! j = 0" by simp
      with True e(3) show ?thesis
        by (simp add: entry_data_def entry_flags_def map_entry_get_data_def map_entry_get_flags_def
            map_entry_is_free_bit)
    next
      case (Cons k ys)
      with e have "g = free_link k" by simp
      then have "bit (cs ! j) 0" using e(1) by (simp add: bit_unsigned_iff)
      with True e(3) show ?thesis
        by (simp add: entry_data_def entry_flags_def map_entry_is_free_bit)
    qed
  next
    case False
    with Cons show ?thesis by auto
  qed
qed simp

section \<open>Invariant\<close>

definition table_limit :: "bool \<Rightarrow> nat" where
  "table_limit client = (if client then 2 ^ 31 else 2 ^ 24)"

definition table_ok :: "bool \<Rightarrow> wl_array \<Rightarrow> bool" where
  "table_ok client a \<longleftrightarrow> array_ok a \<and> 8 dvd unat (asize a) \<and> cell_count a \<le> table_limit client"

definition own_side :: "wl_map \<Rightarrow> bool" where
  "own_side m \<longleftrightarrow> side m = WL_MAP_CLIENT_SIDE"

definition map_ok :: "wl_map \<Rightarrow> nat list \<Rightarrow> bool" where
  "map_ok m xs \<longleftrightarrow> side m \<in> {WL_MAP_SERVER_SIDE, WL_MAP_CLIENT_SIDE} \<and>
     table_ok True (client_entries m) \<and> table_ok False (server_entries m) \<and>
     free_chain (cells (entries_of (own_side m) m)) (free_list m) xs \<and> distinct xs"

text \<open>An id names a slot of one of the two tables.\<close>

definition slot :: "u32 \<Rightarrow> bool \<times> nat" where
  "slot i = (i < WL_SERVER_ID_START,
     unat (if i < WL_SERVER_ID_START then i else i - WL_SERVER_ID_START))"

definition slot_id :: "bool \<Rightarrow> nat \<Rightarrow> u32" where
  "slot_id client k = of_nat k + (if client then 0 else WL_SERVER_ID_START)"

lemma slot_inj: "slot i = slot j \<Longrightarrow> i = j"
  by (auto simp: slot_def word_unat_eq_iff [symmetric] split: if_splits)

lemma slot_slot_id:
  assumes "k < table_limit client"
  shows "slot (slot_id client k) = (client, k)"
proof (cases client)
  case True
  with assms have "unat (of_nat k :: u32) = k" "(of_nat k :: u32) < WL_SERVER_ID_START"
    by (simp_all add: table_limit_def unat_of_nat WL_SERVER_ID_START_def word_less_nat_alt)
  with True show ?thesis by (simp add: slot_def slot_id_def)
next
  case False
  with assms have k: "k < 2 ^ 24" by (simp add: table_limit_def)
  then have "unat (of_nat k :: u32) = k" by (simp add: unat_of_nat)
  moreover have "unat (of_nat k + WL_SERVER_ID_START) = k + 0xff000000"
    using k calculation by (simp add: unat_word_ariths WL_SERVER_ID_START_def)
  then have "\<not> of_nat k + WL_SERVER_ID_START < WL_SERVER_ID_START"
    by (simp add: word_less_nat_alt WL_SERVER_ID_START_def)
  ultimately show ?thesis using False by (simp add: slot_def slot_id_def)
qed

lemma table_count_u32:
  assumes "table_ok client a"
  shows "unat (ucast (asize a div 8) :: u32) = cell_count a"
proof -
  have "cell_count a < 2 ^ 32"
    using assms by (auto simp: table_ok_def table_limit_def split: if_splits)
  then show ?thesis
    by (simp add: cell_count_def unsigned_ucast_eq unat_div take_bit_eq_mod)
qed

lemma entries_of_simps [simp]:
  "entries_of c (set_entries c a m) = a"
  "c \<noteq> c' \<Longrightarrow> entries_of c (set_entries c' a m) = entries_of c m"
  "entries_of c (m\<lparr>free_list := f\<rparr>) = entries_of c m"
  "side (set_entries c a m) = side m" "free_list (set_entries c a m) = free_list m"
  by (auto simp: entries_of_def set_entries_def)

lemma table_ok_entries: "map_ok m xs \<Longrightarrow> table_ok c (entries_of c m)"
  by (simp add: map_ok_def entries_of_def)

lemma map_ok_entries:
  "map_ok m xs \<longleftrightarrow> side m \<in> {WL_MAP_SERVER_SIDE, WL_MAP_CLIENT_SIDE} \<and>
     (\<forall>c. table_ok c (entries_of c m)) \<and>
     free_chain (cells (entries_of (own_side m) m)) (free_list m) xs \<and> distinct xs"
  by (auto simp: map_ok_def entries_of_def split: if_splits)

section \<open>Lookups\<close>

definition table_lookup :: "(u64 \<Rightarrow> 'v::zero) \<Rightarrow> u64 list \<Rightarrow> nat \<Rightarrow> 'v" where
  "table_lookup f cs k = (if k < length cs then f (cs ! k) else 0)"

lemma wl_map_lookup_cells:
  assumes "\<And>c. table_ok c (entries_of c m)" "slot i = (c, k)"
  shows "wl_map_lookup m i = Some (table_lookup entry_data (cells (entries_of c m)) k)"
    "wl_map_lookup_flags m i = Some (table_lookup entry_flags (cells (entries_of c m)) k)"
proof -
  let ?a = "entries_of c m" let ?i = "if c then i else i - WL_SERVER_ID_START"
  have c: "c = (i < WL_SERVER_ID_START)" "k = unat ?i" using assms(2) by (auto simp: slot_def)
  have ok: "array_ok ?a" using assms(1) by (simp add: table_ok_def)
  have cnt: "(?i < ucast (asize ?a div 8)) = (k < cell_count ?a)"
    using table_count_u32 [OF assms(1) [of c]] c(2) by (simp add: word_less_nat_alt)
  have get: "k < cell_count ?a \<Longrightarrow> cell_get ?a (unat ?i) = Some (cells ?a ! k)"
    using cell_get_cells [OF ok, of k] c(2) by simp
  show "wl_map_lookup m i = Some (table_lookup entry_data (cells ?a) k)"
    unfolding wl_map_lookup_def c(1) [symmetric] Let_def cnt
    using get by (simp add: table_lookup_def entry_data_def)
  show "wl_map_lookup_flags m i = Some (table_lookup entry_flags (cells ?a) k)"
    unfolding wl_map_lookup_flags_def c(1) [symmetric] Let_def cnt
    using get by (simp add: table_lookup_def entry_flags_def)
qed

lemma entry_write_cells:
  assumes "array_ok a" "k < cell_count a"
  obtains a' where "entry_write a k data flags = Some a'" "array_ok a'"
    "cells a' = (cells a)[k := used_entry data flags]" "asize a' = asize a"
proof -
  obtain a1 where a1: "cell_set a k data = Some a1" "array_ok a1" "cells a1 = (cells a)[k := data]"
    "asize a1 = asize a"
    using cell_set_cells [OF assms] by metis
  have k: "k < cell_count a1" using assms(2) a1(4) by (simp add: cell_count_def)
  have "cell_get a1 k = Some data"
    using cell_get_cells [OF a1(2) k] a1(3) assms(2) by simp
  moreover obtain a2 where "cell_set a1 k (used_entry data flags) = Some a2" "array_ok a2"
    "cells a2 = (cells a1)[k := used_entry data flags]" "asize a2 = asize a1"
    using cell_set_cells [OF a1(2) k] by metis
  ultimately show ?thesis
    using that [of a2] a1 by (simp add: entry_write_def used_entry_def)
qed

section \<open>Changing one entry\<close>

text \<open>
  Every operation replaces one table by a copy that differs in a single slot. \<open>differs_at\<close>
  says that two tables agree elsewhere, \<open>same_except\<close> that two maps do as far as lookups
  can tell.
\<close>

definition differs_at :: "nat \<Rightarrow> u64 list \<Rightarrow> u64 list \<Rightarrow> bool" where
  "differs_at k cs cs' \<longleftrightarrow> (\<forall>j. j \<noteq> k \<longrightarrow>
     table_lookup entry_data cs' j = table_lookup entry_data cs j \<and>
     table_lookup entry_flags cs' j = table_lookup entry_flags cs j)"

definition same_except :: "u32 \<Rightarrow> wl_map \<Rightarrow> wl_map \<Rightarrow> bool" where
  "same_except i m m' \<longleftrightarrow> (\<forall>j. j \<noteq> i \<longrightarrow>
     wl_map_lookup m' j = wl_map_lookup m j \<and> wl_map_lookup_flags m' j = wl_map_lookup_flags m j)"

lemma differs_at_update: "k < length cs \<Longrightarrow> differs_at k cs (cs[k := e])"
  by (simp add: differs_at_def table_lookup_def)

lemma differs_at_append: "differs_at (length cs) cs (cs @ [e])"
  by (auto simp: differs_at_def table_lookup_def nth_append)

lemma map_replace_table:
  assumes m: "map_ok m xs" and a: "table_ok c a'"
    and fc: "free_chain (cells (entries_of (own_side m) (set_entries c a' m))) f ys" "distinct ys"
    and i: "slot i = (c, k)" "k < cell_count a'" "differs_at k (cells (entries_of c m)) (cells a')"
    and m': "m' = set_entries c a' (m\<lparr>free_list := f\<rparr>)"
  shows "map_ok m' ys" "wl_map_lookup m' i = Some (entry_data (cells a' ! k))"
    "wl_map_lookup_flags m' i = Some (entry_flags (cells a' ! k))" "same_except i m m'"
proof -
  have own: "own_side m' = own_side m" by (simp add: m' own_side_def)
  have ent: "entries_of d m' = (if d = c then a' else entries_of d m)" for d
    by (simp add: m')
  have ok: "table_ok d (entries_of d m)" "table_ok d (entries_of d m')" for d
    using table_ok_entries [OF m] a by (auto simp only: ent split: if_splits)
  have "entries_of (own_side m) (set_entries c a' m) = entries_of (own_side m) m'"
    by (simp add: ent)
  with fc ok(2) m show "map_ok m' ys"
    unfolding map_ok_entries own by (simp add: m')
  note look = wl_map_lookup_cells [of m', OF ok(2)]
  from look [OF i(1)] i(2) show "wl_map_lookup m' i = Some (entry_data (cells a' ! k))"
    "wl_map_lookup_flags m' i = Some (entry_flags (cells a' ! k))"
    by (simp_all add: ent table_lookup_def)
  show "same_except i m m'"
    unfolding same_except_def
  proof (intro allI impI)
    fix j assume "j \<noteq> i"
    obtain d l where j: "slot j = (d, l)" by (cases "slot j")
    with \<open>j \<noteq> i\<close> i(1) slot_inj [of j i] have "(d, l) \<noteq> (c, k)" by auto
    then have "d \<noteq> c \<or> l \<noteq> k" by blast
    with i(3) look [OF j] wl_map_lookup_cells [of m, OF ok(1) j]
    show "wl_map_lookup m' j = wl_map_lookup m j \<and> wl_map_lookup_flags m' j = wl_map_lookup_flags m j"
      by (auto simp: ent differs_at_def)
  qed
qed

lemma table_add_ok:
  assumes "allocator_ok A" "table_ok c a" "cell_count a < table_limit c"
  shows "wl_array_add A a 8 = Some (a, None) \<or>
    (\<exists>a' x. wl_array_add A a 8 = Some (a', Some (8 * cell_count a)) \<and> table_ok c a' \<and>
       cells a' = cells a @ [x])"
proof -
  have ok: "array_ok a" "8 dvd unat (asize a)" using assms(2) by (simp_all add: table_ok_def)
  have sz: "unat (asize a) = 8 * cell_count a" using ok(2) by (simp add: cell_count_def)
  moreover have "cell_count a < 2 ^ 31"
    using assms(3) by (auto simp: table_limit_def split: if_splits)
  ultimately have "unat (asize a) + unat (8 :: u64) \<le> 2 ^ 63" by simp
  from wl_array_add_ok [OF assms(1) ok(1) this] show ?thesis
  proof
    assume "\<exists>a'. wl_array_add A a 8 = Some (a', Some (unat (asize a))) \<and> array_extended a 8 a'"
    then obtain a' where a': "wl_array_add A a 8 = Some (a', Some (unat (asize a)))"
      "array_extended a 8 a'" by blast
    from cells_extended [OF ok(1) a'(2) ok(2)] assms(3) a'(2)
    have "table_ok c a'" "\<exists>x. cells a' = cells a @ [x]"
      by (auto simp: table_ok_def array_extended_def)
    with a'(1) sz show ?thesis by auto
  qed simp
qed

lemma table_write_ok:
  assumes "table_ok c a" "k < cell_count a"
  obtains a' where "entry_write a k data flags = Some a'" "table_ok c a'"
    "cells a' = (cells a)[k := used_entry data flags]" "cell_count a' = cell_count a"
proof -
  have "array_ok a" using assms(1) by (simp add: table_ok_def)
  with assms(2) obtain a' where "entry_write a k data flags = Some a'" "array_ok a'"
    "cells a' = (cells a)[k := used_entry data flags]" "asize a' = asize a"
    using entry_write_cells by metis
  with that [of a'] assms(1) show ?thesis by (simp add: table_ok_def cell_count_def)
qed

section \<open>Inserting and removing\<close>

text \<open>What a successful insertion of \<open>data\<close> at the id \<open>i\<close> does.\<close>

definition inserted :: "wl_map \<Rightarrow> u32 \<Rightarrow> u64 \<Rightarrow> u32 \<Rightarrow> wl_map \<Rightarrow> bool" where
  "inserted m i data flags m' \<longleftrightarrow> wl_map_lookup m' i = Some data \<and>
     wl_map_lookup_flags m' i = Some (flags AND 1) \<and> same_except i m m'"

lemma slot_id_nonzero:
  assumes "k < table_limit c" "c \<longrightarrow> 0 < k"
  shows "slot_id c k \<noteq> 0"
proof
  assume "slot_id c k = 0"
  with slot_slot_id [OF assms(1)] have "slot 0 = (c, k)" by simp
  with assms(2) show False by (auto simp: slot_def WL_SERVER_ID_START_def)
qed

lemma wl_map_insert_new_reuse:
  assumes m: "map_ok m xs" "free_list m \<noteq> 0" and d: "data AND 3 = 0"
  obtains m' k ks where "xs = k # ks" "wl_map_insert_new A m flags data = Some (m', slot_id (own_side m) k)"
    "map_ok m' ks" "wl_map_lookup m (slot_id (own_side m) k) = Some 0"
    "inserted m (slot_id (own_side m) k) data flags m'" "side m' = side m"
    "cell_count (entries_of (own_side m) m') = cell_count (entries_of (own_side m) m)"
proof -
  let ?c = "own_side m" let ?a = "entries_of ?c m"
  have fc: "free_chain (cells ?a) (free_list m) xs" "distinct xs" using m(1) by (auto simp: map_ok_def)
  then obtain k ks where xs: "xs = k # ks" using m(2) by (cases xs) auto
  then have k: "free_list m = free_link k" "k < cell_count ?a" "k < 2 ^ 31"
    "free_chain (cells ?a) (ucast (cells ?a ! k)) ks" "k \<notin> set ks" "distinct ks"
    using fc by auto
  have ta: "table_ok ?c ?a" using m(1) by (rule table_ok_entries)
  then have lim: "k < table_limit ?c" using k(2) by (simp add: table_ok_def)
  obtain a' where a': "entry_write ?a k data flags = Some a'" "table_ok ?c a'"
    "cells a' = (cells ?a)[k := used_entry data flags]" "cell_count a' = cell_count ?a"
    using table_write_ok [OF ta k(2)] by metis
  let ?m' = "set_entries ?c a' (m\<lparr>free_list := ucast (cells ?a ! k)\<rparr>)"
  have get: "cell_get ?a k = Some (cells ?a ! k)"
    using ta k(2) by (intro cell_get_cells) (auto simp: table_ok_def)
  have step: "wl_map_insert_new A m flags data = Some (?m', slot_id ?c k)"
    using m(2) get a'(1) free_link_index [OF k(3)]
    by (simp add: wl_map_insert_new_def Let_def k(1) own_side_def slot_id_def)
  have fc': "free_chain (cells (entries_of ?c (set_entries ?c a' m))) (ucast (cells ?a ! k)) ks"
    using k(4,5) by (simp add: a'(3) free_chain_update)
  note res = map_replace_table [OF m(1) a'(2) fc' k(6) slot_slot_id [OF lim] _ _ refl]
  have kc: "k < cell_count a'" using k(2) a'(4) by simp
  have df: "differs_at k (cells ?a) (cells a')" using k(2) by (simp add: a'(3) differs_at_update)
  have old: "wl_map_lookup m (slot_id ?c k) = Some 0"
    using wl_map_lookup_cells(1) [OF table_ok_entries [OF m(1)] slot_slot_id [OF lim]]
      free_chain_entry [OF fc(1), of k] xs by (simp add: table_lookup_def)
  have "cells a' ! k = used_entry data flags" using k(2) by (simp add: a'(3))
  with res [OF kc df] used_entry_marks [OF d, of flags] old xs step a'(4) show ?thesis
    by (intro that [of k ks ?m']) (auto simp: inserted_def)
qed

lemma wl_map_insert_new_append:
  assumes A: "allocator_ok A" and m: "map_ok m xs" "free_list m = 0" and d: "data AND 3 = 0"
    and room: "cell_count (entries_of (own_side m) m) < table_limit (own_side m)"
  defines "k \<equiv> cell_count (entries_of (own_side m) m)"
  shows "wl_map_insert_new A m flags data = Some (m, 0) \<or>
    (\<exists>m'. wl_map_insert_new A m flags data = Some (m', slot_id (own_side m) k) \<and>
       map_ok m' [] \<and> wl_map_lookup m (slot_id (own_side m) k) = Some 0 \<and>
       inserted m (slot_id (own_side m) k) data flags m' \<and> side m' = side m \<and>
       cell_count (entries_of (own_side m) m') = Suc k)"
proof -
  let ?c = "own_side m" let ?a = "entries_of ?c m"
  have xs: "xs = []" using m by (cases xs) (auto simp: map_ok_def)
  have ta: "table_ok ?c ?a" using m(1) by (rule table_ok_entries)
  have same: "set_entries ?c ?a m = m" by (simp add: set_entries_def entries_of_def)
  from table_add_ok [OF A ta room] show ?thesis
  proof
    assume "wl_array_add A ?a 8 = Some (?a, None)"
    with m(2) same show ?thesis
      by (simp add: wl_map_insert_new_def Let_def own_side_def)
  next
    assume "\<exists>a' x. wl_array_add A ?a 8 = Some (a', Some (8 * cell_count ?a)) \<and> table_ok ?c a' \<and>
      cells a' = cells ?a @ [x]"
    then obtain b x where b: "wl_array_add A ?a 8 = Some (b, Some (8 * k))" "table_ok ?c b"
      "cells b = cells ?a @ [x]" by (auto simp: k_def)
    then have kb: "cell_count b = Suc k" by (metis k_def length_append_singleton length_cells)
    then obtain a' where a': "entry_write b k data flags = Some a'" "table_ok ?c a'"
      "cells a' = (cells b)[k := used_entry data flags]" "cell_count a' = cell_count b"
      using table_write_ok [OF b(2), of k] by auto
    have ca': "cells a' = cells ?a @ [used_entry data flags]"
      by (simp add: a'(3) b(3) k_def list_update_append)
    let ?m' = "set_entries ?c a' (m\<lparr>free_list := 0\<rparr>)"
    have eq: "?m' = set_entries ?c a' m" using m(2) by (simp add: set_entries_def)
    have step: "wl_map_insert_new A m flags data = Some (?m', slot_id ?c k)"
      using m(2) b(1) a'(1)
      by (simp only: eq) (simp add: wl_map_insert_new_def Let_def own_side_def slot_id_def)
    have sl: "slot (slot_id ?c k) = (?c, k)" using room by (simp add: slot_slot_id k_def)
    have old: "wl_map_lookup m (slot_id ?c k) = Some 0"
      using wl_map_lookup_cells(1) [OF table_ok_entries [OF m(1)] sl]
      by (simp add: table_lookup_def k_def)
    have fc: "free_chain (cells (entries_of ?c (set_entries ?c a' m))) 0 []" by simp
    have df: "differs_at k (cells ?a) (cells a')"
      using differs_at_append [of "cells ?a"] by (simp add: ca' k_def)
    note res = map_replace_table [OF m(1) a'(2) fc distinct.simps(1) [THEN iffD2, OF TrueI] sl _ df refl]
    have "cells a' ! k = used_entry data flags" by (simp add: ca' k_def nth_append)
    with res used_entry_marks [OF d, of flags] old step a'(4) kb show ?thesis
      by (auto simp: inserted_def)
  qed
qed

lemma wl_map_remove_ok:
  assumes m: "map_ok m xs" and i: "fst (slot i) = own_side m" "wl_map_lookup m i \<noteq> Some 0"
  obtains m' where "wl_map_remove m i = Some m'" "map_ok m' (snd (slot i) # xs)"
    "wl_map_lookup m' i = Some 0" "same_except i m m'" "side m' = side m"
    "free_list m' = free_link (snd (slot i))"
    "cell_count (entries_of (own_side m) m') = cell_count (entries_of (own_side m) m)"
    "wl_map_lookup_flags m' i = Some 0"
proof -
  let ?c = "own_side m" let ?a = "entries_of ?c m"
  obtain k where sl: "slot i = (?c, k)" using i(1) by (cases "slot i") auto
  have ta: "table_ok ?c ?a" using m by (rule table_ok_entries)
  then have ok: "array_ok ?a" by (simp add: table_ok_def)
  from i(2) wl_map_lookup_cells(1) [OF table_ok_entries [OF m] sl]
  have k: "k < cell_count ?a" "entry_data (cells ?a ! k) \<noteq> 0"
    by (auto simp: table_lookup_def split: if_splits)
  have fc: "free_chain (cells ?a) (free_list m) xs" "distinct xs" using m by (auto simp: map_ok_def)
  have nk: "k \<notin> set xs" using free_chain_entry [OF fc(1)] k(2) by blast
  have k31: "k < 2 ^ 31"
    using k(1) ta by (auto simp: table_ok_def table_limit_def split: if_splits)
  obtain a' where a': "cell_set ?a k (ucast (free_list m)) = Some a'" "array_ok a'"
    "cells a' = (cells ?a)[k := ucast (free_list m)]" "asize a' = asize ?a"
    using cell_set_cells [OF ok k(1)] by metis
  then have ta': "table_ok ?c a'" and ca': "cell_count a' = cell_count ?a"
    using ta by (simp_all add: table_ok_def cell_count_def)
  let ?i = "if ?c then i else i - WL_SERVER_ID_START"
  let ?m' = "set_entries ?c a' (m\<lparr>free_list := free_link k\<rparr>)"
  have ci: "?c = (i < WL_SERVER_ID_START)" "k = unat ?i" using sl by (auto simp: slot_def)
  have link: "push_bit 1 ?i OR 1 = free_link k" by (simp add: free_link_def ci(2))
  have sides: "\<not> (?c \<and> side m = WL_MAP_SERVER_SIDE)" "\<not> (\<not> ?c \<and> side m = WL_MAP_CLIENT_SIDE)"
    by (auto simp: own_side_def WL_MAP_SERVER_SIDE_def WL_MAP_CLIENT_SIDE_def)
  have "set_entries ?c a' m\<lparr>free_list := free_link k\<rparr> = ?m'" by (simp add: set_entries_def)
  then have step: "wl_map_remove m i = Some ?m'"
    using a'(1) sides link ci(2)
    unfolding wl_map_remove_def ci(1) [symmetric] Let_def by auto
  have "free_chain ((cells ?a)[k := ucast (free_list m)]) (free_list m) xs"
    using fc(1) nk by (simp add: free_chain_update)
  then have fc': "free_chain (cells (entries_of ?c (set_entries ?c a' m))) (free_link k) (k # xs)"
    using k(1) k31 by (simp add: a'(3))
  have df: "differs_at k (cells ?a) (cells a')" using k(1) by (simp add: a'(3) differs_at_update)
  have kc: "k < cell_count a'" using k(1) ca' by simp
  have dk: "distinct (k # xs)" using nk fc(2) by simp
  note res = map_replace_table [OF m ta' fc' dk sl kc df refl]
  have fc'': "free_chain (cells a') (free_link k) (k # xs)" using fc' by simp
  have "entry_data (cells a' ! k) = 0" "entry_flags (cells a' ! k) = 0"
    using free_chain_entry [OF fc'', of k] by simp_all
  with res step ca' sl show ?thesis by (intro that [of ?m']) simp_all
qed

lemma wl_map_insert_new_ok:
  assumes A: "allocator_ok A" and m: "map_ok m xs" and d: "data AND 3 = 0"
    and room: "cell_count (entries_of (own_side m) m) < table_limit (own_side m)"
  shows "wl_map_insert_new A m flags data = Some (m, 0) \<or>
    (\<exists>m' k ys. wl_map_insert_new A m flags data = Some (m', slot_id (own_side m) k) \<and>
       k < table_limit (own_side m) \<and>
       (k \<in> set xs \<or> k = cell_count (entries_of (own_side m) m)) \<and>
       map_ok m' ys \<and> set ys \<subseteq> set xs \<and> side m' = side m \<and>
       wl_map_lookup m (slot_id (own_side m) k) = Some 0 \<and>
       inserted m (slot_id (own_side m) k) data flags m' \<and>
       cell_count (entries_of (own_side m) m) \<le> cell_count (entries_of (own_side m) m') \<and>
       cell_count (entries_of (own_side m) m') \<le> Suc (cell_count (entries_of (own_side m) m)))"
proof (cases "free_list m = 0")
  case True
  from wl_map_insert_new_append [OF A m True d room, of flags] room show ?thesis
    by (elim disjE exE conjE) (simp, fastforce)
next
  case False
  obtain m' k ks where r: "xs = k # ks"
    "wl_map_insert_new A m flags data = Some (m', slot_id (own_side m) k)" "map_ok m' ks"
    "wl_map_lookup m (slot_id (own_side m) k) = Some 0"
    "inserted m (slot_id (own_side m) k) data flags m'" "side m' = side m"
    "cell_count (entries_of (own_side m) m') = cell_count (entries_of (own_side m) m)"
    using wl_map_insert_new_reuse [OF m False d, of A flags] by metis
  have "k < cell_count (entries_of (own_side m) m)"
    using m r(1) by (auto simp: map_ok_def)
  with r room show ?thesis by (intro disjI2 exI [of _ m'] exI [of _ k] exI [of _ ks]) auto
qed

text \<open>
  A peer announces the ids of its own side. \<^verbatim>\<open>wl_map_reserve_new\<close> accepts exactly the next id of the
  peer's range and ids whose slot is empty, and never changes what a lookup returns. As written
  it relies on the allocator: the result of \<^verbatim>\<open>wl_array_add\<close> is not checked.
\<close>

definition reservable :: "wl_map \<Rightarrow> u32 \<Rightarrow> bool" where
  "reservable m i = (case slot i of (c, k) \<Rightarrow> c \<noteq> own_side m \<and>
     (k = cell_count (entries_of c m) \<or>
      k < cell_count (entries_of c m) \<and> cells (entries_of c m) ! k = 0))"

definition peer_room :: "wl_map \<Rightarrow> nat \<Rightarrow> bool" where
  "peer_room m n \<longleftrightarrow>
     (let c = \<not> own_side m in cell_count (entries_of c m) + n \<le> table_limit c)"

definition reserved :: "wl_map \<Rightarrow> wl_map \<Rightarrow> nat list \<Rightarrow> bool" where
  "reserved m m' xs \<longleftrightarrow> map_ok m' xs \<and> side m' = side m \<and>
     wl_map_lookup m' = wl_map_lookup m \<and> wl_map_lookup_flags m' = wl_map_lookup_flags m \<and>
     (\<forall>n. peer_room m (Suc n) \<longrightarrow> peer_room m' n) \<and>
     (\<forall>c. cell_count (entries_of c m) \<le> cell_count (entries_of c m'))"

text \<open>The id has its place in the peer's table and names nothing yet.\<close>

definition id_reserved :: "wl_map \<Rightarrow> u32 \<Rightarrow> bool" where
  "id_reserved m i \<longleftrightarrow> (case slot i of (c, k) \<Rightarrow>
     c \<noteq> own_side m \<and> k < cell_count (entries_of c m) \<and> wl_map_lookup m i = Some 0)"

lemma id_reserved_mono: "reserved m m' xs \<Longrightarrow> id_reserved m i \<Longrightarrow> id_reserved m' i"
  by (cases "slot i") (auto simp: reserved_def id_reserved_def own_side_def intro: less_le_trans)

lemma wl_array_add_total_allocator:
  assumes "\<And>n. A n \<noteq> None"
  shows "wl_array_add A a n \<noteq> Some (a', None)"
proof -
  have "mem_realloc A d n \<noteq> Some None" for d n
    using assms by (cases d) auto
  with assms show ?thesis
    by (auto simp: wl_array_add_def bind_eq_Some split: option.splits if_splits simp del: not_None_eq)
qed

lemma reserved_refl: "map_ok m xs \<Longrightarrow> reserved m m xs"
  by (auto simp: reserved_def peer_room_def Let_def)

text \<open>\<open>wl_map_reserve_new\<close> over the cells of the table in which the id has its slot.\<close>

lemma wl_map_reserve_new_cells:
  assumes m: "map_ok m xs" and sl: "slot i = (c, k)"
  shows "wl_map_reserve_new A m i =
     (if c = own_side m then Some (m, -1)
      else if cell_count (entries_of c m) < k then Some (m, -1)
      else if cell_count (entries_of c m) = k then do {
        (entries, _) \<leftarrow> wl_array_add A (entries_of c m) 8;
        entries \<leftarrow> cell_set entries k 0;
        Some (set_entries c entries m, 0) }
      else do { e \<leftarrow> cell_get (entries_of c m) k; Some (m, if e \<noteq> 0 then -1 else 0) })"
proof -
  let ?a = "entries_of c m" let ?i = "if c then i else i - WL_SERVER_ID_START"
  have ci: "c = (i < WL_SERVER_ID_START)" "k = unat ?i" using sl by (auto simp: slot_def)
  have ta: "table_ok c ?a" using m by (rule table_ok_entries)
  have cnt: "(ucast (asize ?a div 8) < ?i) = (cell_count ?a < k)"
    "(ucast (asize ?a div 8) = ?i) = (cell_count ?a = k)"
    using table_count_u32 [OF ta] ci(2) by (auto simp: word_less_nat_alt word_unat_eq_iff)
  have sides: "side m = WL_MAP_SERVER_SIDE \<longleftrightarrow> \<not> own_side m" "side m = WL_MAP_CLIENT_SIDE \<longleftrightarrow> own_side m"
    using m by (auto simp: map_ok_def own_side_def WL_MAP_SERVER_SIDE_def WL_MAP_CLIENT_SIDE_def)
  show ?thesis unfolding wl_map_reserve_new_def ci(1) [symmetric] Let_def cnt sides ci(2) by auto
qed

lemma wl_map_reserve_new_ok:
  assumes A: "allocator_ok A" "\<And>n. A n \<noteq> None" and m: "map_ok m xs" and room: "peer_room m 1"
  obtains m' r where "wl_map_reserve_new A m i = Some (m', r)"
    "r = (if reservable m i then 0 else -1)" "reserved m m' xs" "r = 0 \<Longrightarrow> id_reserved m' i"
proof -
  obtain c k where sl: "slot i = (c, k)" by (cases "slot i")
  let ?a = "entries_of c m"
  have ta: "table_ok c ?a" using m by (rule table_ok_entries)
  then have aok: "array_ok ?a" by (simp add: table_ok_def)
  note def = wl_map_reserve_new_cells [OF m sl, of A]
  consider (refused) "c = own_side m \<or> cell_count ?a < k"
    | (grown) "c \<noteq> own_side m" "cell_count ?a = k" | (old) "c \<noteq> own_side m" "k < cell_count ?a"
    by linarith
  then show ?thesis
  proof cases
    case refused
    then show ?thesis
      using def sl m by (intro that [of m "-1"]) (auto simp: reservable_def reserved_refl)
  next
    case old
    then have "cell_get ?a k = Some (cells ?a ! k)" using cell_get_cells [OF aok] by simp
    moreover have "cells ?a ! k = 0 \<Longrightarrow> id_reserved m i"
      using old sl wl_map_lookup_cells(1) [OF table_ok_entries [OF m] sl]
      by (simp add: id_reserved_def table_lookup_def entry_data_def map_entry_get_data_def)
    ultimately show ?thesis using old def sl m
      by (intro that [of m "if cells ?a ! k \<noteq> 0 then -1 else 0"]) (auto simp: reservable_def reserved_refl split: if_splits)
  next
    case grown
    have lim: "cell_count ?a < table_limit c" using room grown(1) by (auto simp: peer_room_def Let_def)
    have "wl_array_add A ?a 8 \<noteq> Some (?a, None)"
      using A(2) by (rule wl_array_add_total_allocator)
    then obtain a1 x where a1: "wl_array_add A ?a 8 = Some (a1, Some (8 * cell_count ?a))"
      "table_ok c a1" "cells a1 = cells ?a @ [x]"
      using table_add_ok [OF A(1) ta lim] by blast
    have c1: "cell_count a1 = Suc k" using arg_cong [OF a1(3), of length] grown(2) by simp
    obtain a2 where a2: "cell_set a1 k 0 = Some a2" "array_ok a2" "cells a2 = (cells a1)[k := 0]"
      "asize a2 = asize a1"
      using cell_set_cells [of a1 k] a1(2) c1 by (metis lessI table_ok_def)
    have c2: "cell_count a2 = Suc k" "table_ok c a2"
      using a2 c1 a1(2) by (simp_all add: cell_count_def table_ok_def)
    let ?m = "set_entries c a2 (m\<lparr>free_list := free_list m\<rparr>)"
    have eq: "?m = set_entries c a2 m" by (simp add: set_entries_def)
    have cs2: "cells a2 = cells ?a @ [0]" using a1(3) a2(3) grown(2) by (simp add: list_update_append)
    have fc: "free_chain (cells (entries_of (own_side m) (set_entries c a2 m))) (free_list m) xs"
      "distinct xs" using m grown(1) by (simp_all add: map_ok_entries)
    have df: "differs_at k (cells ?a) (cells a2)"
      using differs_at_append [of "cells ?a" 0] grown(2) by (simp add: cs2)
    note res = map_replace_table [OF m c2(2) fc sl _ df refl, unfolded c2(1), OF lessI]
    have z: "entry_data (cells a2 ! k) = 0" "entry_flags (cells a2 ! k) = 0"
      using grown(2) by (simp_all add: cs2 nth_append entry_data_def entry_flags_def
          map_entry_get_data_def map_entry_get_flags_def)
    have old: "wl_map_lookup m i = Some 0" "wl_map_lookup_flags m i = Some 0"
      using wl_map_lookup_cells [OF table_ok_entries [OF m] sl] grown(2)
      by (simp_all add: table_lookup_def)
    have "wl_map_lookup ?m j = wl_map_lookup m j \<and> wl_map_lookup_flags ?m j = wl_map_lookup_flags m j" for j
      using res(2,3,4) z old by (cases "j = i") (auto simp: same_except_def)
    then have look: "wl_map_lookup ?m = wl_map_lookup m" "wl_map_lookup_flags ?m = wl_map_lookup_flags m"
      by (simp_all add: fun_eq_iff)
    have pr: "peer_room m (Suc n) \<Longrightarrow> peer_room ?m n" for n
    proof -
      have "own_side ?m = own_side m" "(\<not> own_side m) = c" using grown(1) by (auto simp: own_side_def)
      then show "peer_room m (Suc n) \<Longrightarrow> peer_room ?m n"
        using grown(2) c2(1) by (simp add: peer_room_def Let_def)
    qed
    have "wl_map_reserve_new A m i = Some (?m, 0)"
      using grown a1(1) a2(1) unfolding def eq by simp
    moreover have "cell_count (entries_of c' m) \<le> cell_count (entries_of c' ?m)" for c'
      using c2(1) grown(2) by (cases "c' = c") simp_all
    with res(1) look pr have "reserved m ?m xs" by (simp add: reserved_def)
    moreover have "reservable m i" using grown sl by (simp add: reservable_def)
    moreover have "id_reserved ?m i"
      using grown sl look(1) old(1) c2(1) by (simp add: id_reserved_def own_side_def)
    ultimately show ?thesis using that [of ?m 0] by simp
  qed
qed

text \<open>When the allocator fails, a reservation crashes or does what it would have done with memory.\<close>

lemma wl_map_reserve_new_failing:
  assumes m: "map_ok m xs" and room: "peer_room m 1"
  shows "wl_map_reserve_new A m i = wl_map_reserve_new (never_fails A) m i \<or>
    wl_map_reserve_new A m i = None \<and> (\<exists>k. A k = None)"
proof -
  obtain c k where sl: "slot i = (c, k)" by (cases "slot i")
  let ?a = "entries_of c m"
  have ta: "table_ok c ?a" using m by (rule table_ok_entries)
  then have aok: "array_ok ?a" by (simp add: table_ok_def)
  note def = wl_map_reserve_new_cells [OF m sl]
  show ?thesis
  proof (cases "c \<noteq> own_side m \<and> cell_count ?a = k \<and> wl_array_add A ?a 8 \<noteq> wl_array_add (never_fails A) ?a 8")
    case True
    then have f: "wl_array_add A ?a 8 = Some (?a, None)" "\<exists>k. A k = None" "aalloc ?a = 0 \<or> aalloc ?a < asize ?a + 8"
      using wl_array_add_never_fails [OF aok, of A 8] by auto
    have lim: "k < 2 ^ 31" using room True by (auto simp: peer_room_def Let_def table_limit_def split: if_splits)
    have sz: "unat (asize ?a) = 8 * k" using True ta by (auto simp: cell_count_def table_ok_def)
    then have "unat (asize ?a + 8) = 8 * k + 8" using lim by (simp add: unat_word_ariths)
    with f(3) have "unat (aalloc ?a) < 8 * k + 8" by (auto simp: word_less_nat_alt)
    with aok have "cell_set ?a k 0 = None" by (simp add: cell_set_def array_ok_def)
    with True f def [of A] show ?thesis by auto
  qed (auto simp: def)
qed

text \<open>An entry of the peer's range is replaced, or appended when it is the next one.\<close>

lemma wl_map_insert_at_ok:
  assumes A: "allocator_ok A" "\<And>n. A n \<noteq> None" and m: "map_ok m xs"
    and d: "data AND 3 = 0" and sl: "slot i = (c, k)" and peer: "c \<noteq> own_side m"
    and room: "k < cell_count (entries_of c m) \<or> peer_room m 1"
  shows "if cell_count (entries_of c m) < k then wl_map_insert_at A m flags i data = Some (m, -1)
    else \<exists>m'. wl_map_insert_at A m flags i data = Some (m', 0) \<and> map_ok m' xs \<and> side m' = side m \<and>
      inserted m i data flags m' \<and> (\<forall>n. peer_room m (Suc n) \<longrightarrow> peer_room m' n) \<and>
      (k < cell_count (entries_of c m) \<longrightarrow> (\<forall>n. peer_room m n \<longrightarrow> peer_room m' n)) \<and>
      cell_count (entries_of c m') = max (cell_count (entries_of c m)) (Suc k)"
proof -
  let ?a = "entries_of c m" let ?i = "if c then i else i - WL_SERVER_ID_START"
  have ci: "c = (i < WL_SERVER_ID_START)" "k = unat ?i" using sl by (auto simp: slot_def)
  have ta: "table_ok c ?a" using m by (rule table_ok_entries)
  have cnt: "(ucast (asize ?a div 8) < ?i) = (cell_count ?a < k)"
    "(ucast (asize ?a div 8) = ?i) = (cell_count ?a = k)"
    using table_count_u32 [OF ta] ci(2) by (auto simp: word_less_nat_alt word_unat_eq_iff)
  have def: "wl_map_insert_at A m flags i data =
     (if cell_count ?a < k then Some (m, -1)
      else do {
        entries \<leftarrow> (if cell_count ?a = k then map_option fst (wl_array_add A ?a 8) else Some ?a);
        entries \<leftarrow> entry_write entries k data flags;
        Some (set_entries c entries m, 0) })"
    unfolding wl_map_insert_at_def ci(1) [symmetric] Let_def cnt ci(2) by auto
  show ?thesis
  proof (cases "cell_count ?a < k")
    case False
    have "\<exists>b. (if cell_count ?a = k then map_option fst (wl_array_add A ?a 8) else Some ?a) = Some b \<and>
        table_ok c b \<and> k < cell_count b \<and> cell_count b \<le> Suc (cell_count ?a) \<and>
        (k < cell_count ?a \<longrightarrow> cell_count b = cell_count ?a) \<and>
        differs_at k (cells ?a) ((cells b)[k := used_entry data flags])"
    proof (cases "cell_count ?a = k")
      case True
      have lim: "cell_count ?a < table_limit c" using room peer True by (auto simp: peer_room_def Let_def)
      have "wl_array_add A ?a 8 \<noteq> Some (?a, None)" using A(2) by (rule wl_array_add_total_allocator)
      then obtain b x where b: "wl_array_add A ?a 8 = Some (b, Some (8 * cell_count ?a))"
        "table_ok c b" "cells b = cells ?a @ [x]"
        using table_add_ok [OF A(1) ta lim] by blast
      have "cell_count b = Suc k" using arg_cong [OF b(3), of length] True by simp
      moreover have "(cells b)[k := used_entry data flags] = cells ?a @ [used_entry data flags]"
        using b(3) True by (simp add: list_update_append)
      ultimately show ?thesis using b True differs_at_append [of "cells ?a"] by simp
    next
      case False
      with \<open>\<not> cell_count ?a < k\<close> show ?thesis using ta by (simp add: differs_at_update)
    qed
    then obtain b where b: "(if cell_count ?a = k then map_option fst (wl_array_add A ?a 8) else Some ?a) = Some b"
      "table_ok c b" "k < cell_count b" "cell_count b \<le> Suc (cell_count ?a)"
      "k < cell_count ?a \<longrightarrow> cell_count b = cell_count ?a"
      "differs_at k (cells ?a) ((cells b)[k := used_entry data flags])" by blast
    obtain a' where a': "entry_write b k data flags = Some a'" "table_ok c a'"
      "cells a' = (cells b)[k := used_entry data flags]" "cell_count a' = cell_count b"
      using table_write_ok [OF b(2,3)] by blast
    let ?m = "set_entries c a' (m\<lparr>free_list := free_list m\<rparr>)"
    have eq: "?m = set_entries c a' m" by (simp add: set_entries_def)
    have fc: "free_chain (cells (entries_of (own_side m) (set_entries c a' m))) (free_list m) xs"
      "distinct xs" using m peer by (simp_all add: map_ok_entries)
    have df: "differs_at k (cells ?a) (cells a')" using b(6) a'(3) by simp
    note res = map_replace_table [OF m a'(2) fc sl _ df refl, unfolded a'(4), OF b(3)]
    have "cells a' ! k = used_entry data flags" using a'(3) b(3) by simp
    with res used_entry_marks [OF d, of flags] have ins: "inserted m i data flags ?m"
      by (simp add: inserted_def)
    have own: "own_side ?m = own_side m" "(\<not> own_side m) = c" using peer by (auto simp: own_side_def)
    have pr: "peer_room m (Suc n) \<Longrightarrow> peer_room ?m n"
      "k < cell_count ?a \<Longrightarrow> peer_room m n \<Longrightarrow> peer_room ?m n" for n
      using own b(4,5) a'(4) by (auto simp: peer_room_def Let_def)
    have "wl_map_insert_at A m flags i data = Some (?m, 0)"
      using def False b(1) a'(1) eq by simp
    moreover have "cell_count (entries_of c ?m) = max (cell_count ?a) (Suc k)"
      using a'(4) b(3,4,5) False by (auto simp: max_def)
    ultimately show ?thesis using False ins res(1) pr by auto
  qed (simp add: def)
qed

text \<open>
  An id of its own for an object, as \<^verbatim>\<open>wl_resource_create\<close> makes one: a new entry that names nothing, which is
  then filled in. The entry has left the free list.
\<close>

lemma wl_map_insert_at_claimed:
  assumes m: "map_ok m xs" and d: "data AND 3 = 0" and sl: "slot i = (c, k)"
    and k: "k < cell_count (entries_of c m)" "c = own_side m \<longrightarrow> k \<notin> set xs"
  obtains m' where "wl_map_insert_at A m flags i data = Some (m', 0)" "map_ok m' xs" "side m' = side m"
    "inserted m i data flags m'"
proof -
  let ?a = "entries_of c m" let ?i = "if c then i else i - WL_SERVER_ID_START"
  have ci: "c = (i < WL_SERVER_ID_START)" "k = unat ?i" using sl by (auto simp: slot_def)
  have ta: "table_ok c ?a" using m by (rule table_ok_entries)
  have cnt: "(ucast (asize ?a div 8) < ?i) = (cell_count ?a < k)"
    "(ucast (asize ?a div 8) = ?i) = (cell_count ?a = k)"
    using table_count_u32 [OF ta] ci(2) by (auto simp: word_less_nat_alt word_unat_eq_iff)
  obtain a' where a': "entry_write ?a k data flags = Some a'" "table_ok c a'"
    "cells a' = (cells ?a)[k := used_entry data flags]" "cell_count a' = cell_count ?a"
    using table_write_ok [OF ta k(1)] by metis
  let ?m = "set_entries c a' (m\<lparr>free_list := free_list m\<rparr>)"
  have "wl_map_insert_at A m flags i data = Some (set_entries c a' m, 0)"
    using k(1) a'(1) unfolding wl_map_insert_at_def ci(1) [symmetric] Let_def cnt ci(2) [symmetric] by auto
  then have run: "wl_map_insert_at A m flags i data = Some (?m, 0)" by (simp add: set_entries_def)
  have fc: "free_chain (cells (entries_of (own_side m) m)) (free_list m) xs" "distinct xs" using m by (auto simp: map_ok_entries)
  then have fc': "free_chain (cells (entries_of (own_side m) (set_entries c a' m))) (free_list m) xs"
    using k(2) by (cases "c = own_side m") (simp_all add: a'(3) free_chain_update)
  have df: "differs_at k (cells ?a) (cells a')" using k(1) by (simp add: a'(3) differs_at_update)
  have kc: "k < cell_count a'" using k(1) a'(4) by simp
  note res = map_replace_table [OF m a'(2) fc' fc(2) sl kc df refl]
  have "cells a' ! k = used_entry data flags" using k(1) by (simp add: a'(3))
  with res used_entry_marks [OF d, of flags] have "inserted m i data flags ?m" by (simp add: inserted_def)
  with run res(1) that [of ?m] show thesis by simp
qed

lemma wl_map_insert_new_claims:
  assumes A: "allocator_ok A" "\<And>n. A n \<noteq> None" and m: "map_ok m xs" "\<not> own_side m" and d: "data AND 3 = 0"
    and room: "cell_count (entries_of (own_side m) m) < table_limit (own_side m)"
  obtains m' i k ys where "wl_map_insert_new A m flags data = Some (m', i)" "slot i = (own_side m, k)"
    "k < cell_count (entries_of (own_side m) m')" "k \<notin> set ys" "map_ok m' ys" "side m' = side m"
    "wl_map_lookup m i = Some 0" "inserted m i data flags m'"
proof (cases "free_list m = 0")
  case False
  obtain m' k ks where r: "xs = k # ks" "wl_map_insert_new A m flags data = Some (m', slot_id (own_side m) k)"
    "map_ok m' ks" "wl_map_lookup m (slot_id (own_side m) k) = Some 0"
    "inserted m (slot_id (own_side m) k) data flags m'" "side m' = side m"
    "cell_count (entries_of (own_side m) m') = cell_count (entries_of (own_side m) m)"
    using wl_map_insert_new_reuse [OF m(1) False d, of A flags] by metis
  have k: "k < cell_count (entries_of (own_side m) m)" "k \<notin> set ks" using m(1) r(1) by (auto simp: map_ok_def)
  then have "slot (slot_id (own_side m) k) = (own_side m, k)" using room by (intro slot_slot_id) simp
  with r k show thesis by (intro that [of m' _ k ks]) auto
next
  case True
  let ?a = "entries_of (own_side m) m" let ?k = "cell_count (entries_of (own_side m) m)"
  have sl: "slot (slot_id (own_side m) ?k) = (own_side m, ?k)" by (rule slot_slot_id [OF room])
  have xs: "xs = []" using m(1) True by (cases xs) (auto simp: map_ok_def)
  have "wl_array_add A ?a 8 \<noteq> Some (?a, None)" using A(2) by (rule wl_array_add_total_allocator)
  then obtain b where b: "wl_array_add A ?a 8 = Some (b, Some (8 * ?k))"
    using table_add_ok [OF A(1) table_ok_entries [OF m(1)] room] by blast
  have "side m \<noteq> WL_MAP_CLIENT_SIDE" using m(2) by (simp add: own_side_def)
  then have "wl_map_insert_new A m flags data \<noteq> Some (m, 0)"
    using True b m(2) slot_id_nonzero [OF room] by (auto simp: wl_map_insert_new_def Let_def slot_id_def bind_eq_Some)
  then obtain m' where "wl_map_insert_new A m flags data = Some (m', slot_id (own_side m) ?k)"
    "map_ok m' []" "wl_map_lookup m (slot_id (own_side m) ?k) = Some 0"
    "inserted m (slot_id (own_side m) ?k) data flags m'" "side m' = side m"
    "cell_count (entries_of (own_side m) m') = Suc ?k"
    using wl_map_insert_new_append [OF A(1) m(1) True d room, of flags] by blast
  with sl show thesis by (intro that [of m' _ ?k "[]"]) auto
qed

section \<open>Allocation of ids as an interface\<close>

text \<open>
  What the display and client code relies on: a new object gets an id that named nothing before,
  the other ids keep their objects, and a removed id names nothing again.
\<close>

locale id_allocator =
  fixes inv :: "'s \<Rightarrow> bool"
    and room :: "'s \<Rightarrow> nat \<Rightarrow> bool"
    and own :: "'s \<Rightarrow> 'i \<Rightarrow> bool"
    and valid :: "'v \<Rightarrow> bool"
    and null :: 'v
    and lookup :: "'s \<Rightarrow> 'i \<Rightarrow> 'v"
    and insert :: "'s \<Rightarrow> 'v \<Rightarrow> ('s \<times> 'i) option"
    and remove :: "'s \<Rightarrow> 'i \<Rightarrow> 's"
  assumes insert_ok: "inv s \<Longrightarrow> room s (Suc n) \<Longrightarrow> valid v \<Longrightarrow> insert s v = Some (s', i) \<Longrightarrow>
      inv s' \<and> room s' n \<and> own s' i \<and> lookup s i = null \<and> lookup s' i = v \<and>
      (\<forall>j. j \<noteq> i \<longrightarrow> lookup s' j = lookup s j)"
    and remove_ok: "inv s \<Longrightarrow> own s i \<Longrightarrow> lookup s i \<noteq> null \<Longrightarrow>
      inv (remove s i) \<and> lookup (remove s i) i = null \<and>
      (\<forall>j. j \<noteq> i \<longrightarrow> lookup (remove s i) j = lookup s j)"
begin

primrec insert_all :: "'s \<Rightarrow> 'v list \<Rightarrow> ('s \<times> 'i list) option" where
  "insert_all s [] = Some (s, [])"
| "insert_all s (v # vs) = Option.bind (insert s v) (\<lambda>(s, i).
     Option.bind (insert_all s vs) (\<lambda>(s, is). Some (s, i # is)))"

lemma insert_all_distinct:
  assumes "inv s" "room s (length vs)" "\<forall>v \<in> set vs. valid v \<and> v \<noteq> null"
    "insert_all s vs = Some (s', is)"
  shows "inv s' \<and> distinct is \<and> map (lookup s') is = vs \<and> (\<forall>i \<in> set is. lookup s i = null) \<and>
    (\<forall>j. j \<notin> set is \<longrightarrow> lookup s' j = lookup s j)"
  using assms
proof (induction vs arbitrary: s s' "is")
  case Nil
  then show ?case by simp
next
  case (Cons v vs)
  then obtain s1 i js where i: "insert s v = Some (s1, i)" "insert_all s1 vs = Some (s', js)"
    "is = i # js"
    by (auto simp: bind_eq_Some split: prod.splits)
  have r: "room s (Suc (length vs))" using Cons.prems(2) by simp
  have ins: "inv s1" "room s1 (length vs)" "lookup s i = null" "lookup s1 i = v"
    "\<forall>j. j \<noteq> i \<longrightarrow> lookup s1 j = lookup s j"
    using insert_ok [OF Cons.prems(1) r _ i(1)] Cons.prems(3) by auto
  have IH: "inv s'" "distinct js" "map (lookup s') js = vs" "\<forall>i \<in> set js. lookup s1 i = null"
    "\<forall>j. j \<notin> set js \<longrightarrow> lookup s' j = lookup s1 j"
    using Cons.IH [OF ins(1,2) _ i(2)] Cons.prems(3) by auto
  have "i \<notin> set js" using IH(4) ins(4) Cons.prems(3) by auto
  with IH ins show ?case by (auto simp: i(3))
qed

lemma insert_remove_lookup:
  assumes "inv s" "room s (Suc n)" "valid v" "v \<noteq> null" "insert s v = Some (s', i)"
  shows "inv (remove s' i)" "lookup (remove s' i) j = lookup s j"
  using insert_ok [OF assms(1,2,3,5)] remove_ok [of s' i] assms(4) by (cases "j = i"; auto)+

end

text \<open>
  The state is the map together with the allocator its tables grow from. Id 0 is the null
  object: both libraries reserve the first client slot before they hand out ids.
\<close>

type_synonym map_state = "allocator \<times> wl_map"

definition idmap_inv :: "map_state \<Rightarrow> bool" where
  "idmap_inv s \<longleftrightarrow> allocator_ok (fst s) \<and> (\<exists>xs. map_ok (snd s) xs \<and>
     (own_side (snd s) \<longrightarrow> 0 < cell_count (client_entries (snd s)) \<and> 0 \<notin> set xs \<and>
       wl_map_lookup (snd s) 0 = Some 0))"

definition idmap_room :: "map_state \<Rightarrow> nat \<Rightarrow> bool" where
  "idmap_room s n \<longleftrightarrow>
     cell_count (entries_of (own_side (snd s)) (snd s)) + n \<le> table_limit (own_side (snd s))"

definition idmap_insert :: "map_state \<Rightarrow> u64 \<Rightarrow> (map_state \<times> u32) option" where
  "idmap_insert s data = (case wl_map_insert_new (fst s) (snd s) 0 data of
     None \<Rightarrow> None
   | Some (m, i) \<Rightarrow> if i = 0 then None else Some ((fst s, m), i))"

definition idmap_lookup :: "map_state \<Rightarrow> u32 \<Rightarrow> u64" where
  "idmap_lookup s i = (case wl_map_lookup (snd s) i of None \<Rightarrow> 0 | Some d \<Rightarrow> d)"

definition idmap_remove :: "map_state \<Rightarrow> u32 \<Rightarrow> map_state" where
  "idmap_remove s i = (fst s, case wl_map_remove (snd s) i of None \<Rightarrow> snd s | Some m \<Rightarrow> m)"

definition idmap_own :: "map_state \<Rightarrow> u32 \<Rightarrow> bool" where
  "idmap_own s i \<longleftrightarrow> fst (slot i) = own_side (snd s)"

lemma idmap_insert_ok:
  assumes s: "idmap_inv s" and r: "idmap_room s (Suc n)" and v: "v AND 3 = 0"
    and ins: "idmap_insert s v = Some (s', i)"
  shows "idmap_inv s' \<and> idmap_room s' n \<and> idmap_own s' i \<and> idmap_lookup s i = 0 \<and>
    idmap_lookup s' i = v \<and> (\<forall>j. j \<noteq> i \<longrightarrow> idmap_lookup s' j = idmap_lookup s j)"
proof -
  obtain A m where sm: "s = (A, m)" by (cases s)
  let ?c = "own_side m" let ?n = "\<lambda>m'. cell_count (entries_of ?c m')"
  obtain xs where A: "allocator_ok A" and m: "map_ok m xs"
    and z: "?c \<longrightarrow> 0 < ?n m \<and> 0 \<notin> set xs \<and> wl_map_lookup m 0 = Some 0"
    using s by (auto simp: idmap_inv_def sm entries_of_def)
  have room: "?n m < table_limit ?c" using r by (simp add: idmap_room_def sm)
  have "wl_map_insert_new A m 0 v \<noteq> Some (m, 0)"
    using ins by (auto simp: idmap_insert_def sm)
  then obtain m' k ys where k: "wl_map_insert_new A m 0 v = Some (m', slot_id ?c k)"
      "k < table_limit ?c" "k \<in> set xs \<or> k = ?n m"
    and m': "map_ok m' ys" "set ys \<subseteq> set xs" "side m' = side m"
      "wl_map_lookup m (slot_id ?c k) = Some 0" "inserted m (slot_id ?c k) v 0 m'"
      "?n m \<le> ?n m'" "?n m' \<le> Suc (?n m)"
    using wl_map_insert_new_ok [OF A m v room, of 0] by blast
  have c': "own_side m' = ?c" using m'(3) by (simp add: own_side_def)
  have nz: "slot_id ?c k \<noteq> 0"
    using k(2,3) z by (intro slot_id_nonzero) (auto intro: Nat.gr0I)
  have i: "i = slot_id ?c k" "s' = (A, m')"
    using ins k(1) nz by (auto simp: idmap_insert_def sm)
  have "?c \<longrightarrow> wl_map_lookup m' 0 = Some 0"
    using z m'(5) nz by (auto simp: inserted_def same_except_def)
  then have "idmap_inv s'"
    using A m'(1,2,6) z c'
    by (auto simp: idmap_inv_def i(2) entries_of_def intro!: exI [of _ ys])
  moreover have "idmap_room s' n" using r m'(7) c' by (simp add: idmap_room_def sm i(2))
  moreover have "idmap_own s' i" using slot_slot_id [OF k(2)] c' by (simp add: idmap_own_def i)
  ultimately show ?thesis
    using m'(4,5) by (simp add: idmap_lookup_def i sm inserted_def same_except_def)
qed

lemma idmap_remove_ok:
  assumes s: "idmap_inv s" and i: "idmap_own s i" "idmap_lookup s i \<noteq> 0"
  shows "idmap_inv (idmap_remove s i) \<and> idmap_lookup (idmap_remove s i) i = 0 \<and>
    (\<forall>j. j \<noteq> i \<longrightarrow> idmap_lookup (idmap_remove s i) j = idmap_lookup s j)"
proof -
  obtain A m where sm: "s = (A, m)" by (cases s)
  let ?c = "own_side m"
  obtain xs where A: "allocator_ok A" and m: "map_ok m xs"
    and z: "?c \<longrightarrow> 0 < cell_count (entries_of ?c m) \<and> 0 \<notin> set xs \<and> wl_map_lookup m 0 = Some 0"
    using s by (auto simp: idmap_inv_def sm entries_of_def)
  have sl: "fst (slot i) = ?c" using i(1) by (simp add: idmap_own_def sm)
  have nz: "wl_map_lookup m i \<noteq> Some 0" using i(2) by (auto simp: idmap_lookup_def sm)
  obtain m' where m': "wl_map_remove m i = Some m'" "map_ok m' (snd (slot i) # xs)"
    "wl_map_lookup m' i = Some 0" "same_except i m m'" "side m' = side m"
    "cell_count (entries_of ?c m') = cell_count (entries_of ?c m)"
    using wl_map_remove_ok [OF m sl nz] by metis
  have c': "own_side m' = ?c" using m'(5) by (simp add: own_side_def)
  have "slot 0 = (True, 0)" by (simp add: slot_def WL_SERVER_ID_START_def)
  then have "?c \<longrightarrow> snd (slot i) \<noteq> 0"
    using sl z nz slot_inj [of i 0] by (cases "snd (slot i) = 0") (auto simp: prod_eq_iff)
  then have "idmap_inv (A, m')"
    using A m' z c' by (auto simp: idmap_inv_def entries_of_def same_except_def
        intro!: exI [of _ "snd (slot i) # xs"])
  moreover have "idmap_remove s i = (A, m')" by (simp add: idmap_remove_def sm m'(1))
  ultimately show ?thesis
    using m'(3,4) by (simp add: idmap_lookup_def sm same_except_def)
qed

interpretation idm: id_allocator idmap_inv idmap_room idmap_own "\<lambda>v. v AND 3 = 0" 0
  idmap_lookup idmap_insert idmap_remove
  by unfold_locales (rule idmap_insert_ok idmap_remove_ok; assumption)+

section \<open>Properties\<close>

text \<open>
  C29: Objects inserted one after the other get pairwise distinct ids that named nothing before; each
  id then names its object and every other id what it named before.
\<close>

theorem map_ids_distinct:
  assumes "idmap_inv s" "idmap_room s (length vs)" "\<forall>v \<in> set vs. v AND 3 = 0 \<and> v \<noteq> 0"
    and "idm.insert_all s vs = Some (s', is)"
  shows "idmap_inv s' \<and> distinct is \<and> map (idmap_lookup s') is = vs \<and>
    (\<forall>i \<in> set is. idmap_lookup s i = 0) \<and> (\<forall>j. j \<notin> set is \<longrightarrow> idmap_lookup s' j = idmap_lookup s j)"
  using assms by (rule idm.insert_all_distinct)

lemma idmap_inv_server: "allocator_ok A \<Longrightarrow> idmap_inv (A, wl_map_init WL_MAP_SERVER_SIDE)"
  by (auto simp: idmap_inv_def map_ok_def wl_map_init_def own_side_def entries_of_def table_ok_def
      array_ok_init cell_count_def WL_MAP_SERVER_SIDE_def WL_MAP_CLIENT_SIDE_def intro!: exI [of _ "[]"])
    (simp_all add: wl_array_init_def)

lemma idmap_room_server: "n \<le> 2 ^ 24 \<Longrightarrow> idmap_room (A, wl_map_init WL_MAP_SERVER_SIDE) n"
  by (simp add: idmap_room_def wl_map_init_def own_side_def entries_of_def cell_count_def
      wl_array_init_def table_limit_def WL_MAP_SERVER_SIDE_def WL_MAP_CLIENT_SIDE_def)

text \<open>The first object of the server side gets the first id of its range.\<close>

lemma first_server_id:
  "idmap_insert (\<lambda>n. Some (replicate (unat n) 0), wl_map_init WL_MAP_SERVER_SIDE) 16 \<noteq> None \<and>
   idm.insert_all (\<lambda>n. Some (replicate (unat n) 0), wl_map_init WL_MAP_SERVER_SIDE) [16] \<noteq> None"
proof -
  let ?A = "\<lambda>n :: u64. Some (replicate (unat n) (0 :: byte))"
  let ?m = "wl_map_init WL_MAP_SERVER_SIDE"
  have A: "allocator_ok ?A" by (simp add: allocator_ok_def)
  have tot: "?A n \<noteq> None" for n by simp
  have inv: "map_ok ?m []"
    using idmap_inv_server [OF A]
    by (simp add: map_ok_def wl_map_init_def own_side_def entries_of_def table_ok_def array_ok_init
        cell_count_def WL_MAP_SERVER_SIDE_def WL_MAP_CLIENT_SIDE_def wl_array_init_def)
      (simp add: array_ok_def array_block_def cells_def cell_count_def)
  have room: "cell_count (entries_of (own_side ?m) ?m) < table_limit (own_side ?m)"
    using idmap_room_server [of 1 ?A] by (simp add: idmap_room_def)
  have fl: "free_list ?m = 0" "(16 :: u64) AND 3 = 0" "\<not> own_side ?m"
    by (simp_all add: wl_map_init_def own_side_def WL_MAP_SERVER_SIDE_def WL_MAP_CLIENT_SIDE_def)
  obtain a' where add: "wl_array_add ?A wl_array_init 8 = Some (a', Some 0)"
    using wl_array_add_ok [OF A array_ok_init, of 8]
      wl_array_add_total_allocator [of ?A wl_array_init 8 wl_array_init, OF tot]
    by (auto simp: wl_array_init_def)
  have ne: "wl_map_insert_new ?A ?m 0 16 \<noteq> Some (?m, 0)"
    using add fl(1)
    by (auto simp: wl_map_insert_new_def bind_eq_Some Let_def WL_SERVER_ID_START_def entries_of_def
        wl_map_init_def WL_MAP_SERVER_SIDE_def WL_MAP_CLIENT_SIDE_def)
  then obtain m' k where k: "wl_map_insert_new ?A ?m 0 16 = Some (m', slot_id (own_side ?m) k)"
    "k < table_limit (own_side ?m)"
    using wl_map_insert_new_ok [OF A inv fl(2) room, of 0] by blast
  have "slot_id (own_side ?m) k \<noteq> 0" using k(2) fl(3) by (intro slot_id_nonzero) auto
  with k(1) show ?thesis by (simp add: idmap_insert_def)
qed

theorem map_ids_distinct_witness:
  "\<exists>s i. idm.insert_all (\<lambda>n. Some (replicate (unat n) 0), wl_map_init WL_MAP_SERVER_SIDE) [16] =
     Some (s, [i]) \<and> idmap_lookup s i = 16"
proof -
  let ?A = "\<lambda>n :: u64. Some (replicate (unat n) (0 :: byte))"
  have A: "allocator_ok ?A" by (simp add: allocator_ok_def)
  obtain s "is" where run: "idm.insert_all (?A, wl_map_init WL_MAP_SERVER_SIDE) [16] = Some (s, is)"
    using first_server_id by fastforce
  have "distinct is \<and> map (idmap_lookup s) is = [16]"
    using map_ids_distinct [OF idmap_inv_server [OF A] idmap_room_server _ run] by simp
  with run show ?thesis by auto
qed

text \<open>
  Removing an id right after it was handed out restores every lookup, so ids can be reused
  without disturbing other objects.
\<close>

theorem map_insert_remove:
  assumes "idmap_inv s" "idmap_room s (Suc n)" "v AND 3 = 0" "v \<noteq> 0" "idmap_insert s v = Some (s', i)"
  shows "idmap_inv (idmap_remove s' i) \<and> idmap_lookup s' i = v \<and>
    idmap_lookup (idmap_remove s' i) = idmap_lookup s"
  using idm.insert_remove_lookup [OF assms] idm.insert_ok [OF assms(1,2,3,5)] by (auto simp: fun_eq_iff)

theorem map_insert_remove_witness:
  "\<exists>s i. idmap_insert (\<lambda>n. Some (replicate (unat n) 0), wl_map_init WL_MAP_SERVER_SIDE) 16 = Some (s, i) \<and>
    idmap_lookup s i = 16"
proof -
  let ?A = "\<lambda>n :: u64. Some (replicate (unat n) (0 :: byte))"
  have A: "allocator_ok ?A" by (simp add: allocator_ok_def)
  obtain s i where run: "idmap_insert (?A, wl_map_init WL_MAP_SERVER_SIDE) 16 = Some (s, i)"
    using first_server_id by fastforce
  from map_insert_remove [OF idmap_inv_server [OF A] idmap_room_server [of "Suc 0"] _ _ run] run
  show ?thesis by simp
qed

text \<open>
  A peer may only announce the next id of its own range or one whose slot is empty; any other
  announcement is refused with \<open>-1\<close>, and no announcement changes what a lookup returns.
\<close>

theorem map_reserve_new_exact:
  assumes "allocator_ok A" "\<forall>n. A n \<noteq> None" "map_ok m xs" "peer_room m 1"
  shows "\<exists>m'. wl_map_reserve_new A m i = Some (m', if reservable m i then 0 else -1) \<and>
    map_ok m' xs \<and> wl_map_lookup m' = wl_map_lookup m \<and> wl_map_lookup_flags m' = wl_map_lookup_flags m"
proof -
  obtain m' r where "wl_map_reserve_new A m i = Some (m', r)"
    "r = (if reservable m i then 0 else -1)" "reserved m m' xs"
    using wl_map_reserve_new_ok [OF assms(1) assms(2) [THEN spec] assms(3,4)] .
  then show ?thesis by (auto simp: reserved_def)
qed

theorem map_reserve_new_exact_witness:
  "\<exists>m. wl_map_reserve_new (\<lambda>n. Some (replicate (unat n) 0)) (wl_map_init WL_MAP_SERVER_SIDE) 5 = Some (m, -1)"
proof -
  let ?m = "wl_map_init WL_MAP_SERVER_SIDE"
  have ok: "map_ok ?m []"
    by (simp add: map_ok_def wl_map_init_def own_side_def entries_of_def table_ok_def array_ok_init
        cell_count_def WL_MAP_SERVER_SIDE_def WL_MAP_CLIENT_SIDE_def wl_array_init_def)
      (simp add: array_ok_def array_block_def cells_def cell_count_def)
  have "peer_room ?m 1" "\<not> reservable ?m 5"
    by (simp_all add: peer_room_def reservable_def slot_def wl_map_init_def own_side_def entries_of_def
        cell_count_def wl_array_init_def table_limit_def WL_MAP_SERVER_SIDE_def WL_MAP_CLIENT_SIDE_def
        WL_SERVER_ID_START_def Let_def)
  then show ?thesis
    using map_reserve_new_exact [of "\<lambda>n. Some (replicate (unat n) 0)" ?m "[]" 5] ok
    by (auto simp: allocator_ok_def)
qed

text \<open>
  When memory is exhausted, announcing the next id of the peer's range writes through the
  unchecked result of \<^verbatim>\<open>wl_array_add\<close> and crashes instead of failing.
\<close>

lemma map_reserve_new_unchecked:
  "wl_map_reserve_new (\<lambda>n. None) (wl_map_init WL_MAP_SERVER_SIDE) 0 = None"
  by (simp add: wl_map_reserve_new_def wl_map_init_def entries_of_def wl_array_init_def
      wl_array_add_def cell_set_def WL_SERVER_ID_START_def WL_MAP_SERVER_SIDE_def WL_MAP_CLIENT_SIDE_def
      wl_array_grow.simps word_less_nat_alt Let_def array_block_def)

end
