(* ===== verification/C_String.thy ===== *)
theory C_String
  imports Prelude "HOL-Library.Char_ord" "HOL-Library.List_Lexorder"
begin

text \<open>
  What the sources use of the C library's strings: character classes, \<^verbatim>\<open>atoi\<close> and \<^verbatim>\<open>strtol\<close>,
  \<^verbatim>\<open>toupper\<close>, \<^verbatim>\<open>strcmp\<close> and \<^verbatim>\<open>strncmp\<close>, and the decimal numbers that \<^verbatim>\<open>printf\<close> prints. A string is
  the list of its characters before the terminating zero; no locale is ever set, so the character
  classes are those of ASCII.
\<close>

section \<open>Characters\<close>

definition NUL :: char where
  "NUL = CHR 0x00"

definition endl :: string where
  "endl = [CHR 0x0A]"

definition tab :: string where
  "tab = [CHR 0x09]"

definition quot :: string where
  "quot = [CHR 0x22]"

definition is_digit :: "char \<Rightarrow> bool" where
  "is_digit c \<longleftrightarrow> 48 \<le> (of_char c :: nat) \<and> (of_char c :: nat) \<le> 57"

definition digit_value :: "char \<Rightarrow> nat" where
  "digit_value c = (of_char c :: nat) - 48"

definition is_space :: "char \<Rightarrow> bool" where
  "is_space c \<longleftrightarrow> (of_char c :: nat) = 32 \<or> 9 \<le> (of_char c :: nat) \<and> (of_char c :: nat) \<le> 13"

definition toupper :: "char \<Rightarrow> char" where
  "toupper c = (let n = of_char c :: nat in if 97 \<le> n \<and> n \<le> 122 then char_of (n - 32) else c)"

section \<open>Comparison\<close>

text \<open>The library's lexicographic order of strings compares characters by their unsigned codes.\<close>

definition strcmp :: "string \<Rightarrow> string \<Rightarrow> int" where
  "strcmp a b = (if a = b then 0 else if a < b then -1 else 1)"

definition strncmp_eq :: "string \<Rightarrow> string \<Rightarrow> nat \<Rightarrow> bool" where
  "strncmp_eq a b n \<longleftrightarrow> take n a = take n b"

section \<open>Numbers\<close>

definition EINVAL :: int where
  "EINVAL = 22"

definition ERANGE :: int where
  "ERANGE = 34"

fun digits_value :: "nat \<Rightarrow> string \<Rightarrow> nat" where
  "digits_value acc [] = acc"
| "digits_value acc (c # cs) =
     (if is_digit c then digits_value (acc * 10 + digit_value c) cs else acc)"

text \<open>\<^verbatim>\<open>atoi\<close> on the values that fit an \<^verbatim>\<open>int\<close>.\<close>

definition atoi :: "string \<Rightarrow> int" where
  "atoi s = (let s = dropWhile is_space s in
     case s of
       [] \<Rightarrow> 0
     | c # cs \<Rightarrow>
         if c = CHR ''-'' then - int (digits_value 0 cs)
         else if c = CHR ''+'' then int (digits_value 0 cs)
         else int (digits_value 0 s))"

text \<open>
  \<^verbatim>\<open>strtol\<close> in base 10: the value, the rest of the string, and whether the value was out of the range
  of a 64-bit \<^verbatim>\<open>long\<close>. Without digits the rest is the whole string.
\<close>

definition strtol :: "string \<Rightarrow> int \<times> string \<times> bool" where
  "strtol str =
     (let s = dropWhile is_space str;
          (neg, s) = (case s of
             [] \<Rightarrow> (False, [])
           | c # cs \<Rightarrow> if c = CHR ''-'' then (True, cs) else if c = CHR ''+'' then (False, cs) else (False, s));
          v = (if neg then - int (digits_value 0 s) else int (digits_value 0 s))
      in if takeWhile is_digit s = [] then (0, str, False)
         else if v < - (2 ^ 63) then (- (2 ^ 63), dropWhile is_digit s, True)
         else if v > 2 ^ 63 - 1 then (2 ^ 63 - 1, dropWhile is_digit s, True)
         else (v, dropWhile is_digit s, False))"

definition digit_char :: "nat \<Rightarrow> char" where
  "digit_char d = char_of (48 + d)"

text \<open>What \<^verbatim>\<open>printf\<close> writes for \<^verbatim>\<open>%d\<close>.\<close>

fun dec :: "nat \<Rightarrow> string" where
  "dec n = (if n < 10 then [digit_char n] else dec (n div 10) @ [digit_char (n mod 10)])"

declare dec.simps [simp del]

definition show_int :: "int \<Rightarrow> string" where
  "show_int i = (if i < 0 then CHR ''-'' # dec (nat (- i)) else dec (nat i))"

section \<open>Reading printed numbers\<close>

lemma digit_char_ok:
  assumes "d < 10"
  shows "is_digit (digit_char d)" "digit_value (digit_char d) = d" "\<not> is_space (digit_char d)"
    "digit_char d \<noteq> CHR ''-''" "digit_char d \<noteq> CHR ''+''"
proof -
  have c: "of_char (digit_char d) = 48 + d" using assms by (simp add: digit_char_def)
  with assms show "is_digit (digit_char d)" "digit_value (digit_char d) = d" "\<not> is_space (digit_char d)"
    by (simp_all add: is_digit_def digit_value_def is_space_def)
  show "digit_char d \<noteq> CHR ''-''" "digit_char d \<noteq> CHR ''+''" using c by auto
qed

lemma digits_value_append:
  "list_all is_digit ds \<Longrightarrow> digits_value acc (ds @ rest) = digits_value (digits_value acc ds) rest"
  by (induction ds arbitrary: acc) auto

lemma dec_digits: "list_all is_digit (dec n)"
proof (induction n rule: dec.induct)
  case (1 n)
  then show ?case by (subst dec.simps) (auto simp: digit_char_ok)
qed

lemma dec_not_Nil [simp]: "dec n \<noteq> []"
  by (subst dec.simps) simp

lemma dec_value: "digits_value 0 (dec n) = n"
proof (induction n rule: dec.induct)
  case (1 n)
  show ?case
  proof (cases "n < 10")
    case True
    then show ?thesis by (subst dec.simps) (simp add: digit_char_ok)
  next
    case False
    have "digits_value 0 (dec (n div 10) @ [digit_char (n mod 10)]) = (n div 10) * 10 + n mod 10"
      using 1 [OF False] by (simp add: digits_value_append dec_digits digit_char_ok)
    with False show ?thesis by (subst dec.simps) simp
  qed
qed

lemma digits_value_stop: "rest = [] \<or> \<not> is_digit (hd rest) \<Longrightarrow> digits_value acc rest = acc"
  by (cases rest) auto

lemma dec_head: obtains d ds where "dec n = digit_char d # ds" "d < 10"
proof (induction n arbitrary: thesis rule: dec.induct)
  case (1 n)
  show ?case
  proof (cases "n < 10")
    case True
    then show ?thesis by (intro 1(2) [of n "[]"]) (simp_all add: dec.simps)
  next
    case False
    then show ?thesis
      using 1(1) [OF False] 1(2) by (metis append_Cons dec.simps)
  qed
qed

lemma dec_no_space: "dropWhile is_space (dec n @ rest) = dec n @ rest"
proof -
  obtain d ds where d: "dec n = digit_char d # ds" "d < 10" by (rule dec_head)
  then show ?thesis by (simp add: digit_char_ok)
qed

lemma atoi_dec:
  assumes "rest = [] \<or> \<not> is_digit (hd rest)"
  shows "atoi (dec n @ rest) = int n"
proof -
  have v: "digits_value 0 (dec n @ rest) = n"
    by (simp add: digits_value_append dec_digits dec_value digits_value_stop [OF assms])
  obtain d ds where d: "dec n = digit_char d # ds" "d < 10" by (rule dec_head)
  have "atoi (dec n @ rest) = int (digits_value 0 (dec n @ rest))"
    using dec_no_space [of n rest] digit_char_ok [OF d(2)] unfolding atoi_def Let_def by (simp add: d(1))
  with v show ?thesis by simp
qed

lemma strtol_dec_cases:
  "strtol (dec n) = (if int n > 2 ^ 63 - 1 then (2 ^ 63 - 1, [], True) else (int n, [], False))"
proof -
  obtain d ds where d: "dec n = digit_char d # ds" "d < 10" by (rule dec_head)
  have t: "takeWhile is_digit (dec n) = dec n" "dropWhile is_digit (dec n) = []"
    using dec_digits [of n] by (auto simp: list_all_iff takeWhile_eq_all_conv)
  show ?thesis
    using dec_no_space [of n "[]"] digit_char_ok [OF d(2)] t dec_value [of n]
    unfolding strtol_def Let_def by (simp add: d(1))
qed

lemma strtol_dec: "n < 2 ^ 63 \<Longrightarrow> strtol (dec n) = (int n, [], False)"
  by (simp add: strtol_dec_cases)

lemma strtol_dec_large: "\<not> n < 2 ^ 63 \<Longrightarrow> strtol (dec n) = (2 ^ 63 - 1, [], True)"
  by (simp add: strtol_dec_cases)

end
