(* ===== verification/Wl_Closure.thy ===== *)
theory Wl_Closure
  imports Wl_Connection Wl_Map C_String
begin

unbundle bit_operations_syntax

text \<open>
  Messages of \<^verbatim>\<open>connection.c\<close>: signatures, closures, their wire format and their delivery
  (\<^verbatim>\<open>wl_closure_*\<close>, \<^verbatim>\<open>serialize_closure\<close>, \<^verbatim>\<open>wl_connection_demarshal\<close>). Pointers to objects are
  addresses in an explicit object store, which is what makes id lookups meaningful.
\<close>

section \<open>Signatures\<close>

record argument_details =
  atype :: char
  nullable :: bool

definition is_arg_char :: "char \<Rightarrow> bool" where
  "is_arg_char c \<longleftrightarrow> c \<in> set ''iufsonah''"

fun get_next_argument_loop :: "bool \<Rightarrow> string \<Rightarrow> argument_details \<times> string" where
  "get_next_argument_loop nl [] = (\<lparr>atype = NUL, nullable = nl\<rparr>, [])"
| "get_next_argument_loop nl (c # cs) =
     (if is_arg_char c then (\<lparr>atype = c, nullable = nl\<rparr>, cs)
      else get_next_argument_loop (nl \<or> c = CHR ''?'') cs)"

definition get_next_argument :: "string \<Rightarrow> argument_details \<times> string" where
  "get_next_argument sig = get_next_argument_loop False sig"

fun arg_count_for_signature :: "string \<Rightarrow> nat" where
  "arg_count_for_signature [] = 0"
| "arg_count_for_signature (c # cs) =
     (if is_arg_char c then Suc (arg_count_for_signature cs) else arg_count_for_signature cs)"

fun count_arrays :: "string \<Rightarrow> nat" where
  "count_arrays [] = 0"
| "count_arrays (c # cs) = (if c = CHR ''a'' then Suc (count_arrays cs) else count_arrays cs)"

section \<open>Messages, objects, closures\<close>

record wl_interface =
  iname :: string
  iversion :: int

record wl_object =
  interface :: wl_interface
  implementation :: "bool list"
  obj_id :: u32

text \<open>Objects by address; address 0 is the null pointer.\<close>

type_synonym object_store = "u64 \<Rightarrow> wl_object option"

record wl_message =
  msg_name :: string
  signature :: string
  types :: "wl_interface option list"

datatype wl_argument =
    Arg_i u32 | Arg_u u32 | Arg_f u32 | Arg_s "bytes option" | Arg_o u64 | Arg_n u32
  | Arg_a "bytes option" | Arg_h u32 | Arg_unset

record wl_closure =
  ccount :: nat
  cmessage :: wl_message
  copcode :: u32
  csender_id :: u32
  cargs :: "wl_argument list"

definition WL_CLOSURE_MAX_ARGS :: nat where
  "WL_CLOSURE_MAX_ARGS = 20"

definition wl_interface_equal :: "wl_interface \<Rightarrow> wl_interface \<Rightarrow> bool" where
  "wl_interface_equal a b \<longleftrightarrow> a = b \<or> iname a = iname b"

definition wl_message_count_arrays :: "wl_message \<Rightarrow> nat" where
  "wl_message_count_arrays m = count_arrays (signature m)"

definition wl_message_get_since :: "wl_message \<Rightarrow> int" where
  "wl_message_get_since m = (let since = atoi (signature m) in if since = 0 then 1 else since)"

text \<open>
  How a function of this file can go wrong: it reports \<^verbatim>\<open>EINVAL\<close> or \<^verbatim>\<open>ERANGE\<close>, it aborts the
  process, or it would read or write memory it must not (\<open>Undefined\<close>).
\<close>

datatype fault = Einval | Erange | Abort | Undefined

text \<open>
  The loop all functions of this file have in common,
  \<^verbatim>\<open>for (i = 0; i < count; i++) { signature = get_next_argument(signature, &arg); ... }\<close>;
  a \<^verbatim>\<open>goto\<close> out of it carries the state reached.
\<close>

fun for_args ::
    "(nat \<Rightarrow> argument_details \<Rightarrow> 's \<Rightarrow> (fault \<times> 's) + 's) \<Rightarrow> nat \<Rightarrow> nat \<Rightarrow> string \<Rightarrow> 's \<Rightarrow> (fault \<times> 's) + 's" where
  "for_args body i 0 sig s = Inr s"
| "for_args body i (Suc n) sig s =
     (case get_next_argument sig of
        (arg, sig) \<Rightarrow> ebind (body i arg s) (for_args body (Suc i) n sig))"

section \<open>Building closures\<close>

definition ENOMEM :: int where "ENOMEM = 12"

definition va_arg :: "char \<Rightarrow> wl_argument \<Rightarrow> bool" where
  "va_arg t a = (case a of
     Arg_i _ \<Rightarrow> t = CHR ''i'' | Arg_u _ \<Rightarrow> t = CHR ''u'' | Arg_f _ \<Rightarrow> t = CHR ''f''
   | Arg_s _ \<Rightarrow> t = CHR ''s'' | Arg_o _ \<Rightarrow> t = CHR ''o'' \<or> t = CHR ''n''
   | Arg_n _ \<Rightarrow> False | Arg_a _ \<Rightarrow> t = CHR ''a'' | Arg_h _ \<Rightarrow> t = CHR ''h'' | Arg_unset \<Rightarrow> False)"

text \<open>
  \<^verbatim>\<open>wl_argument_from_va_list\<close>: a variadic argument read at a type it was not passed with, or that
  was not passed, is \<open>Undefined\<close>.
\<close>

fun from_va_list_loop :: "nat \<Rightarrow> nat \<Rightarrow> string \<Rightarrow> wl_argument list \<Rightarrow> wl_argument list \<Rightarrow> fault + wl_argument list" where
  "from_va_list_loop i 0 sig args ap = Inr args"
| "from_va_list_loop i (Suc n) sig args ap =
     (case get_next_argument sig of
        (arg, sig) \<Rightarrow>
          if atype arg = NUL then Inr args
          else case ap of
            [] \<Rightarrow> Inl Undefined
          | a # ap \<Rightarrow>
              if va_arg (atype arg) a then from_va_list_loop (Suc i) n sig (args[i := a]) ap
              else Inl Undefined)"

definition wl_argument_from_va_list ::
    "string \<Rightarrow> wl_argument list \<Rightarrow> nat \<Rightarrow> wl_argument list \<Rightarrow> fault + wl_argument list" where
  "wl_argument_from_va_list sig args count ap = from_va_list_loop 0 count sig args ap"

definition clear_fd :: "nat \<Rightarrow> argument_details \<Rightarrow> wl_argument list \<Rightarrow> (fault \<times> wl_argument list) + wl_argument list" where
  "clear_fd i arg args = Inr (if atype arg = CHR ''h'' then args[i := Arg_h (-1)] else args)"

definition wl_closure_clear_fds :: "wl_closure \<Rightarrow> wl_closure" where
  "wl_closure_clear_fds cl =
     (case for_args clear_fd 0 (ccount cl) (signature (cmessage cl)) (cargs cl) of
        Inr args \<Rightarrow> cl\<lparr>cargs := args\<rparr> | Inl _ \<Rightarrow> cl)"

text \<open>
  \<^verbatim>\<open>wl_closure_init\<close>: the closure and the number of array slots allocated behind it, which is only
  set when the closure has a message body. The first argument says whether \<^verbatim>\<open>malloc\<close> succeeds.
\<close>

definition wl_closure_init ::
    "bool \<Rightarrow> wl_message \<Rightarrow> nat \<Rightarrow> wl_argument list option \<Rightarrow> int + wl_closure \<times> nat option" where
  "wl_closure_init mem message sz args =
     (let count = arg_count_for_signature (signature message) in
      if count > WL_CLOSURE_MAX_ARGS then Inl EINVAL
      else
        let num_arrays = (if sz \<noteq> 0 then Some (wl_message_count_arrays message) else None) in
        if \<not> mem then Inl ENOMEM
        else
          let cells = (case args of None \<Rightarrow> replicate WL_CLOSURE_MAX_ARGS Arg_unset
                       | Some as \<Rightarrow> take count as @ replicate (WL_CLOSURE_MAX_ARGS - count) Arg_unset)
          in Inr (wl_closure_clear_fds
                     \<lparr>ccount = count, cmessage = message, copcode = 0, csender_id = 0, cargs = cells\<rparr>,
                   num_arrays))"

definition close_fd_arg ::
    "wl_argument list \<Rightarrow> nat \<Rightarrow> argument_details \<Rightarrow> os \<Rightarrow> (fault \<times> os) + os" where
  "close_fd_arg args i arg w = Inr
     (case args ! i of
        Arg_h fd \<Rightarrow>
          if atype arg = CHR ''h'' \<and> fd \<noteq> -1 then w\<lparr>closed := closed w @ [fd]\<rparr> else w
      | _ \<Rightarrow> w)"

definition wl_closure_close_fds :: "wl_closure \<Rightarrow> os \<Rightarrow> os" where
  "wl_closure_close_fds cl w =
     (case for_args (close_fd_arg (cargs cl)) 0 (ccount cl) (signature (cmessage cl)) w of
        Inr w \<Rightarrow> w | Inl _ \<Rightarrow> w)"

definition wl_closure_destroy :: "wl_closure option \<Rightarrow> os \<Rightarrow> os" where
  "wl_closure_destroy cl w = (case cl of None \<Rightarrow> w | Some cl \<Rightarrow> wl_closure_close_fds cl w)"

text \<open>One argument of \<^verbatim>\<open>wl_closure_marshal\<close>. The state is the closure's arguments and the world.\<close>

definition marshal_arg ::
    "object_store \<Rightarrow> wl_argument list \<Rightarrow> nat \<Rightarrow> argument_details \<Rightarrow>
     wl_argument list \<times> os \<Rightarrow> (fault \<times> wl_argument list \<times> os) + (wl_argument list \<times> os)" where
  "marshal_arg objs args i arg = (\<lambda>(cas, w).
     (let t = atype arg; fail = (\<lambda>e. Inl (e, cas, w)) in
      if t = CHR ''f'' \<or> t = CHR ''u'' \<or> t = CHR ''i'' then Inr (cas, w)
      else if t = CHR ''s'' then
        (case args ! i of
           Arg_s s \<Rightarrow> if \<not> nullable arg \<and> s = None then fail Einval else Inr (cas, w)
         | _ \<Rightarrow> fail Undefined)
      else if t = CHR ''o'' then
        (case args ! i of
           Arg_o p \<Rightarrow> if \<not> nullable arg \<and> p = 0 then fail Einval else Inr (cas, w)
         | _ \<Rightarrow> fail Undefined)
      else if t = CHR ''n'' then
        (case args ! i of
           Arg_o p \<Rightarrow>
             if \<not> nullable arg \<and> p = 0 then fail Einval
             else if p = 0 then Inr (cas[i := Arg_n 0], w)
             else (case objs p of
                     None \<Rightarrow> fail Undefined
                   | Some ob \<Rightarrow> Inr (cas[i := Arg_n (obj_id ob)], w))
         | _ \<Rightarrow> fail Undefined)
      else if t = CHR ''a'' then
        (case args ! i of
           Arg_a a \<Rightarrow> if \<not> nullable arg \<and> a = None then fail Einval else Inr (cas, w)
         | _ \<Rightarrow> fail Undefined)
      else if t = CHR ''h'' then
        (case args ! i of
           Arg_h fd \<Rightarrow>
             (case dups w of
                [] \<Rightarrow> fail Abort
              | d # ds \<Rightarrow>
                  if sint d < 0 then fail Abort else Inr (cas[i := Arg_h d], w\<lparr>dups := ds\<rparr>))
         | _ \<Rightarrow> fail Undefined)
      else fail Abort))"

text \<open>
  \<open>Inl\<close> is an abort or undefined behaviour; otherwise the closure, or \<open>None\<close> for the \<^verbatim>\<open>NULL\<close>
  result, and the world.
\<close>

definition wl_closure_marshal ::
    "bool \<Rightarrow> object_store \<Rightarrow> wl_object \<Rightarrow> u32 \<Rightarrow> wl_argument list \<Rightarrow> wl_message \<Rightarrow> os \<Rightarrow>
     fault + (wl_closure option \<times> os)" where
  "wl_closure_marshal mem objs sender opcode args message w =
     (case wl_closure_init mem message 0 (Some args) of
        Inl e \<Rightarrow> Inr (None, w\<lparr>errno := e\<rparr>)
      | Inr (cl, _) \<Rightarrow>
          (case for_args (marshal_arg objs args) 0 (ccount cl) (signature message) (cargs cl, w) of
             Inr (cas, w) \<Rightarrow>
               Inr (Some (cl\<lparr>cargs := cas, csender_id := obj_id sender, copcode := opcode\<rparr>), w)
           | Inl (Einval, cas, w) \<Rightarrow>
               Inr (None, (wl_closure_destroy (Some (cl\<lparr>cargs := cas\<rparr>)) w)\<lparr>errno := EINVAL\<rparr>)
           | Inl (e, _, _) \<Rightarrow> Inl e))"

definition wl_closure_vmarshal ::
    "bool \<Rightarrow> object_store \<Rightarrow> wl_object \<Rightarrow> u32 \<Rightarrow> wl_argument list \<Rightarrow> wl_message \<Rightarrow> os \<Rightarrow>
     fault + (wl_closure option \<times> os)" where
  "wl_closure_vmarshal mem objs sender opcode ap message w =
     ebind (wl_argument_from_va_list (signature message) (replicate WL_CLOSURE_MAX_ARGS Arg_unset)
              WL_CLOSURE_MAX_ARGS ap)
       (\<lambda>args. wl_closure_marshal mem objs sender opcode args message w)"

section \<open>The wire format\<close>

definition DIV_ROUNDUP :: "nat \<Rightarrow> nat \<Rightarrow> nat" where
  "DIV_ROUNDUP n a = (n + (a - 1)) div a"

text \<open>The same macro as a target with a 32-bit \<^verbatim>\<open>size_t\<close> evaluates it.\<close>

definition DIV_ROUNDUP_ilp32 :: "u32 \<Rightarrow> u32 \<Rightarrow> u32" where
  "DIV_ROUNDUP_ilp32 n a = (n + (a - 1)) div a"

text \<open>
  \<^verbatim>\<open>strlen(s) + 1\<close> and the array size are stored in 32-bit variables before they are used; the
  macro itself is computed in the 64-bit \<^verbatim>\<open>size_t\<close>.
\<close>

definition string_size :: "bytes \<Rightarrow> u32" where
  "string_size s = of_nat (length s + 1)"

definition array_size :: "bytes \<Rightarrow> u32" where
  "array_size a = of_nat (length a)"

definition payload_words :: "u32 \<Rightarrow> nat" where
  "payload_words sz = DIV_ROUNDUP (unat sz) 4"

definition size_arg :: "wl_argument list \<Rightarrow> nat \<Rightarrow> argument_details \<Rightarrow> u32 \<Rightarrow> (fault \<times> u32) + u32" where
  "size_arg args i arg bs =
     (let t = atype arg in
      if t = CHR ''h'' then Inr bs
      else if t \<in> set ''uifon'' then Inr (bs + 1)
      else if t = CHR ''s'' then
        (case args ! i of
           Arg_s None \<Rightarrow> Inr (bs + 1)
         | Arg_s (Some s) \<Rightarrow> Inr (bs + of_nat (1 + payload_words (string_size s)))
         | _ \<Rightarrow> Inl (Undefined, bs))
      else if t = CHR ''a'' then
        (case args ! i of
           Arg_a None \<Rightarrow> Inr (bs + 1)
         | Arg_a (Some a) \<Rightarrow> Inr (bs + of_nat (1 + payload_words (array_size a)))
         | _ \<Rightarrow> Inl (Undefined, bs))
      else Inr bs)"

definition buffer_size_for_closure :: "wl_closure \<Rightarrow> fault + u32" where
  "buffer_size_for_closure cl =
     (let sig = signature (cmessage cl) in
      case for_args (size_arg (cargs cl)) 0 (arg_count_for_signature sig) sig 0 of
        Inl (e, _) \<Rightarrow> Inl e
      | Inr bs \<Rightarrow> Inr (bs + 2))"

text \<open>
  The serializer's state: the next word to write, \<^verbatim>\<open>p - buffer\<close>, and the buffer's bytes. A write
  beyond the buffer is \<open>Undefined\<close>.
\<close>

type_synonym out_state = "nat \<times> bytes"

definition put_word :: "u32 \<Rightarrow> out_state \<Rightarrow> (fault \<times> out_state) + out_state" where
  "put_word v = (\<lambda>(p, buf).
     if 4 * p + 4 \<le> length buf then Inr (p + 1, store 4 (4 * p) v buf)
     else Inl (Undefined, p, buf))"

text \<open>The length word, the room check, the copy and the padding, as for strings and arrays.\<close>

definition put_payload :: "nat \<Rightarrow> u32 \<Rightarrow> bytes \<Rightarrow> out_state \<Rightarrow> (fault \<times> out_state) + out_state" where
  "put_payload end sz data st =
     ebind (put_word sz st) (\<lambda>(p, buf).
       if p + payload_words sz > end then Inl (Erange, p, buf)
       else if 4 * p + unat sz > length buf \<or> unat sz > length data then Inl (Undefined, p, buf)
       else Inr (p + payload_words sz, splice_at (4 * p) (take (unat sz) data) buf))"

definition serialize_arg ::
    "object_store \<Rightarrow> wl_argument list \<Rightarrow> nat \<Rightarrow> nat \<Rightarrow> argument_details \<Rightarrow> out_state \<Rightarrow>
     (fault \<times> out_state) + out_state" where
  "serialize_arg objs args end i arg st =
     (let t = atype arg in
      if t = CHR ''h'' then Inr st
      else if fst st + 1 > end then Inl (Erange, st)
      else case args ! i of
        Arg_u v \<Rightarrow> if t = CHR ''u'' then put_word v st else Inl (Undefined, st)
      | Arg_i v \<Rightarrow> if t = CHR ''i'' then put_word v st else Inl (Undefined, st)
      | Arg_f v \<Rightarrow> if t = CHR ''f'' then put_word v st else Inl (Undefined, st)
      | Arg_o p \<Rightarrow>
          if t \<noteq> CHR ''o'' then Inl (Undefined, st)
          else if p = 0 then put_word 0 st
          else (case objs p of None \<Rightarrow> Inl (Undefined, st) | Some ob \<Rightarrow> put_word (obj_id ob) st)
      | Arg_n v \<Rightarrow> if t = CHR ''n'' then put_word v st else Inl (Undefined, st)
      | Arg_s None \<Rightarrow> if t = CHR ''s'' then put_word 0 st else Inl (Undefined, st)
      | Arg_s (Some s) \<Rightarrow>
          if t = CHR ''s'' then put_payload end (string_size s) (s @ [0]) st
          else Inl (Undefined, st)
      | Arg_a None \<Rightarrow> if t = CHR ''a'' then put_word 0 st else Inl (Undefined, st)
      | Arg_a (Some a) \<Rightarrow>
          if t = CHR ''a'' then put_payload end (array_size a) a st else Inl (Undefined, st)
      | _ \<Rightarrow> Inl (Undefined, st))"

text \<open>
  \<open>serialize_closure objs cl buf\<close> fills the buffer, whose length is four times the C parameter
  \<^verbatim>\<open>buffer_count\<close>: the size returned and the buffer, or the fault. The old contents of the
  buffer stay where nothing is written, that is, in the padding.
\<close>

definition serialize_closure :: "object_store \<Rightarrow> wl_closure \<Rightarrow> bytes \<Rightarrow> fault + (u32 \<times> bytes)" where
  "serialize_closure objs cl buf =
     (let buffer_count = length buf div 4; sig = signature (cmessage cl) in
      if buffer_count < 2 then Inl Erange
      else case for_args (serialize_arg objs (cargs cl) buffer_count) 0
                  (arg_count_for_signature sig) sig (2, buf) of
        Inl (e, _) \<Rightarrow> Inl e
      | Inr (p, buf) \<Rightarrow>
          let sz = of_nat (p * 4) :: u32;
              buf = store 4 0 (csender_id cl) buf;
              buf = store 4 4 (push_bit 16 sz OR (copcode cl AND 0xffff)) buf
          in Inr (sz, buf))"

section \<open>Sending\<close>

text \<open>\<open>None\<close> as everywhere: a system call that has not returned yet.\<close>

fun copy_fds_loop ::
    "nat \<Rightarrow> nat \<Rightarrow> string \<Rightarrow> wl_closure \<Rightarrow> wl_connection \<Rightarrow> os \<Rightarrow>
     (wl_closure \<times> wl_connection \<times> os \<times> int) option" where
  "copy_fds_loop i 0 sig cl c w = Some (cl, c, w, 0)"
| "copy_fds_loop i (Suc n) sig cl c w =
     (case get_next_argument sig of
        (arg, sig) \<Rightarrow>
          if atype arg \<noteq> CHR ''h'' then copy_fds_loop (Suc i) n sig cl c w
          else case cargs cl ! i of
            Arg_h fd \<Rightarrow> do {
              (c, w, r) \<leftarrow> wl_connection_put_fd c fd w;
              if r \<noteq> 0 then Some (cl, c, w, -1)
              else copy_fds_loop (Suc i) n sig (cl\<lparr>cargs := (cargs cl)[i := Arg_h (-1)]\<rparr>) c w
            }
          | _ \<Rightarrow> None)"

definition copy_fds_to_connection ::
    "wl_closure \<Rightarrow> wl_connection \<Rightarrow> os \<Rightarrow> (wl_closure \<times> wl_connection \<times> os \<times> int) option" where
  "copy_fds_to_connection cl c w =
     (let sig = signature (cmessage cl)
      in copy_fds_loop 0 (arg_count_for_signature sig) sig cl c w)"

text \<open>
  The allocator of the message buffer: \<^verbatim>\<open>zalloc\<close> clears it, \<^verbatim>\<open>malloc\<close> leaves whatever was there.
\<close>

definition zalloc :: "allocator \<Rightarrow> allocator" where
  "zalloc A n = map_option (\<lambda>bs. replicate (length bs) 0) (A n)"

definition closure_output ::
    "(wl_connection \<Rightarrow> bytes \<Rightarrow> os \<Rightarrow> (wl_connection \<times> os \<times> int) option) \<Rightarrow> allocator \<Rightarrow> object_store \<Rightarrow>
     wl_closure \<Rightarrow> wl_connection \<Rightarrow> os \<Rightarrow> (wl_closure \<times> wl_connection \<times> os \<times> int) option" where
  "closure_output put alloc objs cl c w = do {
     (cl, c, w, r) \<leftarrow> copy_fds_to_connection cl c w;
     if r \<noteq> 0 then Some (cl, c, w, -1)
     else case buffer_size_for_closure cl of
       Inl _ \<Rightarrow> None
     | Inr buffer_size \<Rightarrow>
         (case alloc (ucast buffer_size * 4) of
            None \<Rightarrow> Some (cl, c, w, -1)
          | Some buf \<Rightarrow>
              (case serialize_closure objs cl buf of
                 Inl Erange \<Rightarrow> Some (cl, c, w\<lparr>errno := ERANGE\<rparr>, -1)
               | Inl _ \<Rightarrow> None
               | Inr (sz, buf) \<Rightarrow>
                   if sint sz < 0 then Some (cl, c, w, -1)
                   else do {
                     (c, w, r) \<leftarrow> put c (take (unat sz) buf) w;
                     Some (cl, c, w, r)
                   }))
   }"

definition wl_closure_send ::
    "allocator \<Rightarrow> object_store \<Rightarrow> wl_closure \<Rightarrow> wl_connection \<Rightarrow> os \<Rightarrow>
     (wl_closure \<times> wl_connection \<times> os \<times> int) option" where
  "wl_closure_send A = closure_output wl_connection_write (zalloc A)"

definition wl_closure_queue ::
    "allocator \<Rightarrow> object_store \<Rightarrow> wl_closure \<Rightarrow> wl_connection \<Rightarrow> os \<Rightarrow>
     (wl_closure \<times> wl_connection \<times> os \<times> int) option" where
  "wl_closure_queue A = closure_output wl_connection_queue A"

section \<open>Receiving\<close>

text \<open>
  The state of \<^verbatim>\<open>wl_connection_demarshal\<close>: the arguments found, the next word of the message, the
  array headers used, the descriptors received and the map in which new ids are reserved.
\<close>

record demarshal_state =
  dargs :: "wl_argument list"
  dpos :: nat
  dextra :: nat
  dfds :: wl_buffer
  dmap :: wl_map

definition take_word :: "bytes \<Rightarrow> demarshal_state \<Rightarrow> (fault \<times> demarshal_state) + (u32 \<times> demarshal_state)" where
  "take_word buf s =
     (if 4 * dpos s + 4 \<le> length buf
      then Inr (load 4 (4 * dpos s) buf, s\<lparr>dpos := dpos s + 1\<rparr>)
      else Inl (Undefined, s))"

definition demarshal_arg ::
    "allocator \<Rightarrow> nat \<Rightarrow> bytes \<Rightarrow> nat \<Rightarrow> argument_details \<Rightarrow> demarshal_state \<Rightarrow>
     (fault \<times> demarshal_state) + demarshal_state" where
  "demarshal_arg A num_arrays buf i arg s =
     (let t = atype arg; end = length buf div 4;
          set_arg = (\<lambda>a s. s\<lparr>dargs := (dargs s)[i := a]\<rparr>) in
      if t \<noteq> CHR ''h'' \<and> dpos s + 1 > end then Inl (Einval, s)
      else if t = CHR ''u'' then ebind (take_word buf s) (\<lambda>(v, s). Inr (set_arg (Arg_u v) s))
      else if t = CHR ''i'' then ebind (take_word buf s) (\<lambda>(v, s). Inr (set_arg (Arg_i v) s))
      else if t = CHR ''f'' then ebind (take_word buf s) (\<lambda>(v, s). Inr (set_arg (Arg_f v) s))
      else if t = CHR ''s'' then
        ebind (take_word buf s) (\<lambda>(length', s).
          if length' = 0 then Inr (set_arg (Arg_s None) s)
          else
            let nxt = dpos s + DIV_ROUNDUP (unat length') 4 in
            if nxt > end then Inl (Einval, s)
            else if length buf < 4 * dpos s + unat length' then Inl (Undefined, s)
            else if buf ! (4 * dpos s + unat length' - 1) \<noteq> 0 then Inl (Einval, s)
            else
              let str = takeWhile (\<lambda>b. b \<noteq> 0) (take (unat length') (drop (4 * dpos s) buf))
              in Inr ((set_arg (Arg_s (Some str)) s)\<lparr>dpos := nxt\<rparr>))
      else if t = CHR ''o'' then
        ebind (take_word buf s) (\<lambda>(id', s).
          let s = set_arg (Arg_n id') s in
          if id' = 0 \<and> \<not> nullable arg then Inl (Einval, s) else Inr s)
      else if t = CHR ''n'' then
        ebind (take_word buf s) (\<lambda>(id', s).
          let s = set_arg (Arg_n id') s in
          if id' = 0 \<and> \<not> nullable arg then Inl (Einval, s)
          else case wl_map_reserve_new A (dmap s) id' of
            None \<Rightarrow> Inl (Undefined, s)
          | Some (m, r) \<Rightarrow>
              let s = s\<lparr>dmap := m\<rparr> in if r < 0 then Inl (Einval, s) else Inr s)
      else if t = CHR ''a'' then
        ebind (take_word buf s) (\<lambda>(length', s).
          let nxt = dpos s + DIV_ROUNDUP (unat length') 4 in
          if nxt > end then Inl (Einval, s)
          else if dextra s \<ge> num_arrays \<or> length buf < 4 * dpos s + unat length'
          then Inl (Undefined, s)
          else
            let a = take (unat length') (drop (4 * dpos s) buf)
            in Inr ((set_arg (Arg_a (Some a)) s)\<lparr>dextra := dextra s + 1, dpos := nxt\<rparr>))
      else if t = CHR ''h'' then
        if tail (dfds s) = head (dfds s) then Inl (Einval, s)
        else
          let fd = of_le (wl_buffer_copy (dfds s) 4)
          in Inr (set_arg (Arg_h fd) (s\<lparr>dfds := (dfds s)\<lparr>tail := tail (dfds s) + 4\<rparr>\<rparr>))
      else Inl (Abort, s))"

text \<open>
  The result: the closure or \<open>None\<close> for \<^verbatim>\<open>NULL\<close>, the connection, the object map and the world.
\<close>

definition wl_connection_demarshal ::
    "bool \<Rightarrow> allocator \<Rightarrow> wl_connection \<Rightarrow> u32 \<Rightarrow> wl_map \<Rightarrow> wl_message \<Rightarrow> os \<Rightarrow>
     fault + (wl_closure option \<times> wl_connection \<times> wl_map \<times> os)" where
  "wl_connection_demarshal mem A c sz objects message w =
     (case wl_closure_init mem message (unat sz) None of
        Inl e \<Rightarrow> Inr (None, wl_connection_consume c (unat sz), objects, w\<lparr>errno := e\<rparr>)
      | Inr (cl, None) \<Rightarrow> Inl Undefined
      | Inr (cl, Some num_arrays) \<Rightarrow>
          if unat sz < 8 then Inl Undefined
          else
            let buf = wl_connection_copy c (unat sz);
                cl = cl\<lparr>csender_id := load 4 0 buf, copcode := load 4 4 buf AND 0xffff\<rparr>;
                s = \<lparr>dargs = cargs cl, dpos = 2, dextra = 0, dfds = fds_in c, dmap = objects\<rparr>
            in case for_args (demarshal_arg A num_arrays buf) 0 (ccount cl) (signature message) s of
                 Inr s \<Rightarrow>
                   Inr (Some (cl\<lparr>cargs := dargs s\<rparr>),
                        wl_connection_consume (c\<lparr>fds_in := dfds s\<rparr>) (unat sz), dmap s, w)
               | Inl (Einval, s) \<Rightarrow>
                   Inr (None, wl_connection_consume (c\<lparr>fds_in := dfds s\<rparr>) (unat sz), dmap s,
                        (wl_closure_destroy (Some (cl\<lparr>cargs := dargs s\<rparr>)) w)\<lparr>errno := EINVAL\<rparr>)
               | Inl (e, s) \<Rightarrow> Inl e)"

definition WL_MAP_ENTRY_ZOMBIE :: u32 where
  "WL_MAP_ENTRY_ZOMBIE = 1"

definition wl_object_is_zombie :: "wl_map \<Rightarrow> u32 \<Rightarrow> bool option" where
  "wl_object_is_zombie m i =
     (if side m = WL_MAP_SERVER_SIDE then Some False
      else if i \<ge> WL_SERVER_ID_START then Some False
      else map_option (\<lambda>flags. flags AND WL_MAP_ENTRY_ZOMBIE \<noteq> 0) (wl_map_lookup_flags m i))"

definition lookup_object_arg ::
    "object_store \<Rightarrow> wl_map \<Rightarrow> wl_message \<Rightarrow> nat \<Rightarrow> argument_details \<Rightarrow> wl_argument list \<Rightarrow>
     (fault \<times> wl_argument list) + wl_argument list" where
  "lookup_object_arg objs objects message i arg args =
     (if atype arg \<noteq> CHR ''o'' then Inr args
      else case args ! i of
        Arg_n id' \<Rightarrow>
          (let args = args[i := Arg_o 0] in
           case (wl_map_lookup objects id', wl_object_is_zombie objects id') of
             (Some obj, Some zombie) \<Rightarrow>
               if \<not> zombie \<and> obj = 0 \<and> id' \<noteq> 0 then Inl (Einval, args)
               else
                 let obj = (if zombie then 0 else obj) in
                 if obj = 0 then Inr (args[i := Arg_o 0])
                 else if length (types message) \<le> i then Inl (Undefined, args)
                 else (case types message ! i of
                         None \<Rightarrow> Inr (args[i := Arg_o obj])
                       | Some t \<Rightarrow>
                           (case objs obj of
                              None \<Rightarrow> Inl (Undefined, args)
                            | Some ob \<Rightarrow>
                                if wl_interface_equal (interface ob) t
                                then Inr (args[i := Arg_o obj]) else Inl (Einval, args)))
           | _ \<Rightarrow> Inl (Undefined, args))
      | _ \<Rightarrow> Inl (Undefined, args))"

definition wl_closure_lookup_objects ::
    "object_store \<Rightarrow> wl_closure \<Rightarrow> wl_map \<Rightarrow> fault + (wl_closure \<times> int)" where
  "wl_closure_lookup_objects objs cl objects =
     (let message = cmessage cl; sig = signature message in
      case for_args (lookup_object_arg objs objects message) 0 (arg_count_for_signature sig) sig (cargs cl) of
        Inr args \<Rightarrow> Inr (cl\<lparr>cargs := args\<rparr>, 0)
      | Inl (Einval, args) \<Rightarrow> Inr (cl\<lparr>cargs := args\<rparr>, -1)
      | Inl (e, args) \<Rightarrow> Inl e)"

section \<open>Delivery to a listener\<close>

datatype ffi_type = Ffi_sint32 | Ffi_uint32 | Ffi_pointer

definition WL_CLOSURE_INVOKE_CLIENT :: u32 where
  "WL_CLOSURE_INVOKE_CLIENT = 1"

definition ffi_arg ::
    "u32 \<Rightarrow> nat \<Rightarrow> argument_details \<Rightarrow> ffi_type list \<Rightarrow> (fault \<times> ffi_type list) + ffi_type list" where
  "ffi_arg flags i arg ts =
     (let t = atype arg in
      if t = CHR ''i'' \<or> t = CHR ''f'' \<or> t = CHR ''h'' then Inr (ts @ [Ffi_sint32])
      else if t = CHR ''u'' then Inr (ts @ [Ffi_uint32])
      else if t = CHR ''s'' \<or> t = CHR ''o'' \<or> t = CHR ''a'' then Inr (ts @ [Ffi_pointer])
      else if t = CHR ''n'' then
        Inr (ts @ [if flags AND WL_CLOSURE_INVOKE_CLIENT \<noteq> 0 then Ffi_pointer else Ffi_uint32])
      else Inl (Abort, ts))"

definition convert_arguments_to_ffi :: "string \<Rightarrow> u32 \<Rightarrow> nat \<Rightarrow> fault + ffi_type list" where
  "convert_arguments_to_ffi sig flags count =
     (case for_args (ffi_arg flags) 0 count sig [] of Inl (e, _) \<Rightarrow> Inl e | Inr ts \<Rightarrow> Inr ts)"

text \<open>
  A call of a listener: its slot, the types of its parameters and the arguments passed after the
  user data and the target.
\<close>

record listener_call =
  call_opcode :: nat
  call_types :: "ffi_type list"
  call_args :: "wl_argument list"

definition wl_closure_invoke ::
    "wl_closure \<Rightarrow> u32 \<Rightarrow> wl_object \<Rightarrow> nat \<Rightarrow> fault + (listener_call \<times> wl_closure)" where
  "wl_closure_invoke cl flags target opcode =
     (let sig = signature (cmessage cl); count = arg_count_for_signature sig in
      ebind (convert_arguments_to_ffi sig flags count) (\<lambda>ts.
        if opcode \<ge> length (implementation target) then Inl Undefined
        else if \<not> implementation target ! opcode then Inl Abort
        else Inr (\<lparr>call_opcode = opcode, call_types = [Ffi_pointer, Ffi_pointer] @ ts,
                   call_args = take count (cargs cl)\<rparr>, wl_closure_clear_fds cl)))"

definition wl_closure_dispatch :: "wl_closure \<Rightarrow> (wl_argument list \<Rightarrow> 's \<Rightarrow> 's) \<Rightarrow> 's \<Rightarrow> 's \<times> wl_closure" where
  "wl_closure_dispatch cl dispatcher s = (dispatcher (cargs cl) s, wl_closure_clear_fds cl)"

section \<open>Signatures as lists of argument details\<close>

fun details_from :: "bool \<Rightarrow> string \<Rightarrow> argument_details list" where
  "details_from nl [] = []"
| "details_from nl (c # cs) =
     (if is_arg_char c then \<lparr>atype = c, nullable = nl\<rparr> # details_from False cs
      else details_from (nl \<or> c = CHR ''?'') cs)"

definition details :: "string \<Rightarrow> argument_details list" where
  "details sig = details_from False sig"

lemma length_details_from: "length (details_from nl sig) = arg_count_for_signature sig"
  by (induction nl sig rule: details_from.induct) auto

lemma length_details [simp]: "length (details sig) = arg_count_for_signature sig"
  by (simp add: details_def length_details_from)

lemma details_from_Cons:
  assumes "details_from nl sig = d # ds"
  shows "\<exists>rest. get_next_argument_loop nl sig = (d, rest) \<and> details rest = ds"
  using assms by (induction nl sig rule: details_from.induct) (auto simp: details_def split: if_splits)

lemma details_Cons:
  "details sig = d # ds \<Longrightarrow> \<exists>rest. get_next_argument sig = (d, rest) \<and> details rest = ds"
  using details_from_Cons [of False sig d ds] by (simp add: details_def get_next_argument_def)

lemma details_type: "d \<in> set (details sig) \<Longrightarrow> is_arg_char (atype d)"
proof -
  have "d \<in> set (details_from nl sig) \<Longrightarrow> is_arg_char (atype d)" for nl
    by (induction nl sig rule: details_from.induct) (auto split: if_splits)
  then show "d \<in> set (details sig) \<Longrightarrow> is_arg_char (atype d)" by (simp add: details_def)
qed

text \<open>The signature loop is a loop over the numbered argument details.\<close>

lemma for_args_efold:
  "for_args body i (length (details sig)) sig s =
     efold (\<lambda>(j, d). body j d) (enumerate i (details sig)) s"
proof (induction "details sig" arbitrary: i sig s)
  case Nil
  then show ?case by (simp flip: Nil)
next
  case (Cons d ds)
  obtain rest where rest: "get_next_argument sig = (d, rest)" "details rest = ds"
    using details_Cons [OF Cons.hyps(2) [symmetric]] by auto
  have "for_args body (Suc i) (length ds) rest = efold (\<lambda>(j, d). body j d) (enumerate (Suc i) ds)"
    using Cons.hyps(1) [of rest "Suc i"] rest(2) by auto
  then show ?case
    using rest(1) by (simp flip: Cons.hyps(2))
qed

lemma for_args_details:
  "for_args body i (arg_count_for_signature sig) sig s =
     efold (\<lambda>(j, d). body j d) (enumerate i (details sig)) s"
  using for_args_efold [of body i sig s] by simp

text \<open>An array header is allocated for every array of the signature.\<close>

lemma count_arrays_details:
  "count_arrays sig = length (filter (\<lambda>d. atype d = CHR ''a'') (details sig))"
proof -
  have "count_arrays sig = length (filter (\<lambda>d. atype d = CHR ''a'') (details_from nl sig))" for nl
    by (induction nl sig rule: details_from.induct) (auto simp: is_arg_char_def)
  then show ?thesis by (simp add: details_def)
qed

lemma efold_enumerate_Cons [simp]:
  "efold (\<lambda>(j, d). body j d) (enumerate i (d # ds)) s =
     ebind (body i d s) (efold (\<lambda>(j, d). body j d) (enumerate (Suc i) ds))"
  by simp

section \<open>Typed arguments and their encoding\<close>

text \<open>
  What a marshalled closure holds for an argument of each type. Strings carry no NUL byte, and
  sizes fit the 32-bit length word.
\<close>

definition typed :: "object_store \<Rightarrow> argument_details \<Rightarrow> wl_argument \<Rightarrow> bool" where
  "typed objs d a = (case a of
     Arg_i _ \<Rightarrow> atype d = CHR ''i''
   | Arg_u _ \<Rightarrow> atype d = CHR ''u''
   | Arg_f _ \<Rightarrow> atype d = CHR ''f''
   | Arg_s s \<Rightarrow> atype d = CHR ''s'' \<and>
       (case s of None \<Rightarrow> nullable d | Some s \<Rightarrow> 0 \<notin> set s \<and> length s + 1 < 2 ^ 32)
   | Arg_o p \<Rightarrow> atype d = CHR ''o'' \<and>
       (if p = 0 then nullable d else (\<exists>ob. objs p = Some ob \<and> obj_id ob \<noteq> 0))
   | Arg_n v \<Rightarrow> atype d = CHR ''n'' \<and> (v = 0 \<longrightarrow> nullable d)
   | Arg_a a \<Rightarrow> atype d = CHR ''a'' \<and>
       (case a of None \<Rightarrow> nullable d | Some a \<Rightarrow> length a < 2 ^ 32)
   | Arg_h _ \<Rightarrow> atype d = CHR ''h''
   | Arg_unset \<Rightarrow> False)"

definition object_id :: "object_store \<Rightarrow> u64 \<Rightarrow> u32" where
  "object_id objs p = (if p = 0 then 0 else case objs p of None \<Rightarrow> 0 | Some ob \<Rightarrow> obj_id ob)"

text \<open>The meaningful bytes of an argument, and the number of words it occupies.\<close>

definition wire_data :: "object_store \<Rightarrow> wl_argument \<Rightarrow> bytes" where
  "wire_data objs a = (case a of
     Arg_i v \<Rightarrow> le_bytes 4 v | Arg_u v \<Rightarrow> le_bytes 4 v | Arg_f v \<Rightarrow> le_bytes 4 v
   | Arg_n v \<Rightarrow> le_bytes 4 v
   | Arg_o p \<Rightarrow> le_bytes 4 (object_id objs p)
   | Arg_s None \<Rightarrow> le_bytes 4 (0 :: u32)
   | Arg_s (Some s) \<Rightarrow> le_bytes 4 (string_size s) @ s @ [0]
   | Arg_a None \<Rightarrow> le_bytes 4 (0 :: u32)
   | Arg_a (Some a) \<Rightarrow> le_bytes 4 (array_size a) @ a
   | Arg_h _ \<Rightarrow> [] | Arg_unset \<Rightarrow> [])"

definition arg_words :: "wl_argument \<Rightarrow> nat" where
  "arg_words a = (case a of
     Arg_s (Some s) \<Rightarrow> 1 + DIV_ROUNDUP (length s + 1) 4
   | Arg_a (Some a) \<Rightarrow> 1 + DIV_ROUNDUP (length a) 4
   | Arg_h _ \<Rightarrow> 0 | Arg_unset \<Rightarrow> 0 | _ \<Rightarrow> 1)"

definition args_words :: "wl_argument list \<Rightarrow> nat" where
  "args_words as = sum_list (map arg_words as)"

text \<open>
  \<open>wire_args objs as bs\<close>: the bytes \<open>bs\<close> encode the arguments \<open>as\<close>. The padding behind strings and
  arrays is arbitrary.
\<close>

fun wire_args :: "object_store \<Rightarrow> wl_argument list \<Rightarrow> bytes \<Rightarrow> bool" where
  "wire_args objs [] bs \<longleftrightarrow> bs = []"
| "wire_args objs (a # as) bs \<longleftrightarrow>
     4 * arg_words a \<le> length bs \<and>
     take (length (wire_data objs a)) (take (4 * arg_words a) bs) = wire_data objs a \<and>
     wire_args objs as (drop (4 * arg_words a) bs)"

lemma DIV_ROUNDUP_bounds: "n \<le> 4 * DIV_ROUNDUP n 4" "4 * DIV_ROUNDUP n 4 < n + 4"
  by (auto simp: DIV_ROUNDUP_def)

lemma wire_data_length: "length (wire_data objs a) \<le> 4 * arg_words a"
  using DIV_ROUNDUP_bounds
  by (auto simp: wire_data_def arg_words_def split: wl_argument.splits option.splits)

lemma unat_sizes:
  "length s + 1 < 2 ^ 32 \<Longrightarrow> unat (string_size s) = length s + 1"
  "length a < 2 ^ 32 \<Longrightarrow> unat (array_size a) = length a"
  by (simp_all only: string_size_def array_size_def unat_of_nat) simp_all

lemma args_words_simps [simp]:
  "args_words [] = 0" "args_words (a # as) = arg_words a + args_words as"
  "args_words (as @ bs) = args_words as + args_words bs"
  by (simp_all add: args_words_def)

lemma wire_args_length: "wire_args objs as bs \<Longrightarrow> length bs = 4 * args_words as"
proof (induction as arbitrary: bs)
  case (Cons a as)
  then show ?case using Cons.IH [of "drop (4 * arg_words a) bs"] by auto
qed simp

section \<open>Serialization\<close>

text \<open>
  \<open>wrote p bs buf buf'\<close>: the bytes \<open>bs\<close> were written at word \<open>p\<close>, and nothing before them changed.
\<close>

definition wrote :: "nat \<Rightarrow> bytes \<Rightarrow> bytes \<Rightarrow> bytes \<Rightarrow> bool" where
  "wrote p bs buf buf' \<longleftrightarrow> length buf' = length buf \<and> take (4 * p) buf' = take (4 * p) buf \<and>
     take (length bs) (drop (4 * p) buf') = bs"

lemma put_word_ok:
  assumes "4 * p + 4 \<le> length buf"
  shows "\<exists>buf'. put_word v (p, buf) = Inr (p + 1, buf') \<and> wrote p (le_bytes 4 v) buf buf'"
proof -
  have "wrote p (le_bytes 4 v) buf (store 4 (4 * p) v buf)"
    using assms take_drop_splice_at_same [of "4 * p" "le_bytes 4 v" buf]
    by (simp add: wrote_def store_def take_splice_at_before)
  with assms show ?thesis by (simp add: put_word_def)
qed

lemma put_payload_ok:
  assumes "length buf = 4 * end" "p + 1 + DIV_ROUNDUP (unat sz) 4 \<le> end" "length data = unat sz"
  shows "\<exists>buf'. put_payload end sz data (p, buf) = Inr (p + 1 + DIV_ROUNDUP (unat sz) 4, buf') \<and>
    wrote p (le_bytes 4 sz @ data) buf buf'"
proof -
  have "4 * p + 4 \<le> length buf" using assms(1,2) by simp
  from put_word_ok [OF this, of sz] obtain b1 where b1: "put_word sz (p, buf) = Inr (p + 1, b1)"
    "wrote p (le_bytes 4 sz) buf b1" by blast
  have fit: "4 * (p + 1) + length data \<le> length b1"
    using assms b1(2) DIV_ROUNDUP_bounds(1) [of "unat sz"] by (simp add: wrote_def)
  let ?b = "splice_at (4 * (p + 1)) data b1"
  have "wrote p (le_bytes 4 sz @ data) buf ?b"
  proof -
    have "drop 4 (drop (4 * p) ?b) = drop (4 * (p + 1)) ?b" by (simp add: add.commute)
    then have "drop (4 * p) ?b = take 4 (drop (4 * p) ?b) @ drop (4 * (p + 1)) ?b"
      using append_take_drop_id [of 4 "drop (4 * p) ?b"] by simp
    moreover have "take 4 (drop (4 * p) ?b) = take 4 (drop (4 * p) b1)"
      using fit by (intro take_drop_splice_at_other) auto
    moreover have "take 4 (drop (4 * p) b1) = le_bytes 4 sz" using b1(2) by (simp add: wrote_def)
    ultimately have "drop (4 * p) ?b = le_bytes 4 sz @ drop (4 * (p + 1)) ?b" by simp
    moreover have "take (length data) (drop (4 * (p + 1)) ?b) = data" using fit by simp
    ultimately show ?thesis
      using fit b1(2) by (simp add: wrote_def take_splice_at_before)
  qed
  with b1(1) assms fit show ?thesis
    by (simp add: put_payload_def payload_words_def)
qed

lemma serialize_arg_ok:
  assumes t: "typed objs d a" and a: "args ! i = a" and fit: "p + arg_words a \<le> end"
    and len: "length buf = 4 * end"
  shows "\<exists>buf'. serialize_arg objs args end i d (p, buf) = Inr (p + arg_words a, buf') \<and>
    wrote p (wire_data objs a) buf buf'"
proof -
  have w: "p + 1 \<le> end \<Longrightarrow> \<exists>buf'. put_word v (p, buf) = Inr (p + 1, buf') \<and> wrote p (le_bytes 4 v) buf buf'" for v
    using len by (intro put_word_ok) simp
  show ?thesis
  proof (cases a)
    case (Arg_s s)
    show ?thesis
    proof (cases s)
      case None
      with Arg_s t a fit w [of 0] show ?thesis
        by (simp add: serialize_arg_def typed_def arg_words_def wire_data_def)
    next
      case (Some s)
      with Arg_s t have "unat (string_size s) = length s + 1"
        by (simp add: typed_def unat_sizes)
      with Arg_s Some t a fit put_payload_ok [OF len, of p "string_size s" "s @ [0]"] show ?thesis
        by (simp add: serialize_arg_def typed_def arg_words_def wire_data_def add.assoc)
    qed
  next
    case (Arg_a ar)
    show ?thesis
    proof (cases ar)
      case None
      with Arg_a t a fit w [of 0] show ?thesis
        by (simp add: serialize_arg_def typed_def arg_words_def wire_data_def)
    next
      case (Some ar)
      with Arg_a t have sz: "unat (array_size ar) = length ar"
        by (simp add: typed_def unat_sizes)
      have "p + 1 + DIV_ROUNDUP (unat (array_size ar)) 4 \<le> end"
        using fit Arg_a Some by (simp add: sz arg_words_def)
      from put_payload_ok [OF len this sz [symmetric]] Arg_a Some t a fit sz show ?thesis
        by (simp add: serialize_arg_def typed_def arg_words_def wire_data_def add.assoc)
    qed
  next
    case (Arg_o q)
    with t a fit w [of "object_id objs q"] show ?thesis
      by (auto simp: serialize_arg_def typed_def arg_words_def wire_data_def object_id_def
          split: if_splits)
  next
    case (Arg_h fd)
    with t a show ?thesis
      by (simp add: serialize_arg_def typed_def arg_words_def wire_data_def wrote_def)
  qed (use t a fit w in \<open>simp_all add: serialize_arg_def typed_def arg_words_def wire_data_def\<close>)
qed

lemma drop_eq_Cons:
  assumes "drop i xs = y # ys"
  shows "i < length xs" "xs ! i = y" "drop (Suc i) xs = ys"
proof -
  show i: "i < length xs" using assms by (cases "i < length xs") auto
  show "xs ! i = y" "drop (Suc i) xs = ys"
    using Cons_nth_drop_Suc [OF i] assms by simp_all
qed

lemma wrote_take:
  assumes "wrote p bs buf buf'" "take (4 * q) buf'' = take (4 * q) buf'" "length buf'' = length buf'"
    "4 * p + length bs \<le> 4 * q"
  shows "wrote p bs buf buf''"
proof -
  have "take n (drop (4 * p) b) = drop (4 * p) (take (4 * p + n) b)" for n and b :: bytes
    by (simp add: drop_take)
  moreover have "take k buf'' = take k buf'" if "k \<le> 4 * q" for k
    using assms(2) that by (metis min.absorb1 take_take)
  ultimately show ?thesis using assms by (simp add: wrote_def)
qed

lemma serialize_args_ok:
  assumes "list_all2 (typed objs) ds as" "drop i args = as @ rest" "p + args_words as \<le> end"
    "length buf = 4 * end"
  shows "\<exists>buf'. efold (\<lambda>(j, d). serialize_arg objs args end j d) (enumerate i ds) (p, buf) =
      Inr (p + args_words as, buf') \<and> length buf' = length buf \<and>
      take (4 * p) buf' = take (4 * p) buf \<and>
      wire_args objs as (take (4 * args_words as) (drop (4 * p) buf'))"
  using assms
proof (induction ds as arbitrary: i p buf rule: list_all2_induct)
  case Nil
  then show ?case by simp
next
  case (Cons d ds a as)
  have i: "args ! i = a" "drop (Suc i) args = as @ rest"
    using Cons.prems(1) drop_eq_Cons by auto
  obtain b1 where b1: "serialize_arg objs args end i d (p, buf) = Inr (p + arg_words a, b1)"
    "wrote p (wire_data objs a) buf b1"
    using serialize_arg_ok [OF Cons.hyps(1) i(1), of p "end" buf] Cons.prems(2,3) by auto
  have len: "length b1 = length buf" using b1(2) by (simp add: wrote_def)
  obtain b2 where b2: "efold (\<lambda>(j, d). serialize_arg objs args end j d) (enumerate (Suc i) ds)
      (p + arg_words a, b1) = Inr (p + arg_words a + args_words as, b2)" "length b2 = length b1"
    "take (4 * (p + arg_words a)) b2 = take (4 * (p + arg_words a)) b1"
    "wire_args objs as (take (4 * args_words as) (drop (4 * (p + arg_words a)) b2))"
    using Cons.IH [of "Suc i" "p + arg_words a" b1] i(2) Cons.prems(2,3) len by auto
  have wr: "wrote p (wire_data objs a) buf b2"
    using wrote_take [OF b1(2) b2(3,2)] wire_data_length [of objs a] by simp
  let ?bs = "take (4 * args_words (a # as)) (drop (4 * p) b2)"
  have "take (length (wire_data objs a)) (take (4 * arg_words a) ?bs) =
      take (length (wire_data objs a)) (drop (4 * p) b2)"
    using wire_data_length [of objs a] by (simp add: min_def)
  moreover have "drop (4 * arg_words a) ?bs = take (4 * args_words as) (drop (4 * (p + arg_words a)) b2)"
    by (simp add: drop_take add.commute)
  moreover have "4 * arg_words a \<le> length ?bs" using len b2(2) Cons.prems(2,3) by simp
  ultimately have "wire_args objs (a # as) ?bs" using wr b2(4) by (simp add: wrote_def)
  then show ?case
    using b1(1) b2 len wr by (simp add: wrote_def add.assoc)
qed

text \<open>The buffer that \<^verbatim>\<open>buffer_size_for_closure\<close> asks for is exactly filled.\<close>

lemma size_args_ok:
  assumes "list_all2 (typed objs) ds as" "drop i args = as @ rest"
  shows "efold (\<lambda>(j, d). size_arg args j d) (enumerate i ds) bs = Inr (bs + of_nat (args_words as))"
  using assms
proof (induction ds as arbitrary: i bs rule: list_all2_induct)
  case Nil
  then show ?case by simp
next
  case (Cons d ds a as)
  have i: "args ! i = a" "drop (Suc i) args = as @ rest"
    using Cons.prems drop_eq_Cons by auto
  have "size_arg args i d bs = Inr (bs + of_nat (arg_words a))"
    using Cons.hyps(1) i(1)
    by (auto simp: size_arg_def typed_def arg_words_def payload_words_def unat_sizes
        split: wl_argument.splits option.splits)
  with Cons.IH [OF i(2)] show ?case by (simp add: add.assoc)
qed

definition closure_typed :: "object_store \<Rightarrow> wl_closure \<Rightarrow> bool" where
  "closure_typed objs cl \<longleftrightarrow> length (cargs cl) \<ge> ccount cl \<and>
     ccount cl = arg_count_for_signature (signature (cmessage cl)) \<and>
     list_all2 (typed objs) (details (signature (cmessage cl))) (take (ccount cl) (cargs cl))"

definition closure_words :: "wl_closure \<Rightarrow> nat" where
  "closure_words cl = args_words (take (ccount cl) (cargs cl)) + 2"

lemma closure_typed_args:
  assumes "closure_typed objs cl"
  shows "list_all2 (typed objs) (details (signature (cmessage cl))) (take (ccount cl) (cargs cl))"
    "drop 0 (cargs cl) = take (ccount cl) (cargs cl) @ drop (ccount cl) (cargs cl)"
  using assms by (auto simp: closure_typed_def)

lemma buffer_size_for_closure_ok:
  assumes "closure_typed objs cl"
  shows "buffer_size_for_closure cl = Inr (of_nat (closure_words cl))"
  using size_args_ok [OF closure_typed_args [OF assms], of 0]
  by (simp add: buffer_size_for_closure_def for_args_details closure_words_def Let_def)

definition message_bytes :: "object_store \<Rightarrow> wl_closure \<Rightarrow> bytes \<Rightarrow> bool" where
  "message_bytes objs cl bs \<longleftrightarrow> length bs = 4 * closure_words cl \<and>
     load 4 0 bs = csender_id cl \<and>
     load 4 4 bs = push_bit 16 (of_nat (4 * closure_words cl)) OR (copcode cl AND 0xffff) \<and>
     wire_args objs (take (ccount cl) (cargs cl)) (drop 8 bs)"

lemma serialize_closure_ok:
  assumes ty: "closure_typed objs cl" and len: "length buf = 4 * closure_words cl"
  shows "\<exists>buf'. serialize_closure objs cl buf = Inr (of_nat (4 * closure_words cl), buf') \<and>
    message_bytes objs cl buf'"
proof -
  let ?as = "take (ccount cl) (cargs cl)"
  have end': "length buf = 4 * (length buf div 4)" "2 + args_words ?as = length buf div 4"
    using len by (simp_all add: closure_words_def)
  obtain b1 where b1: "for_args (serialize_arg objs (cargs cl) (length buf div 4)) 0
      (arg_count_for_signature (signature (cmessage cl))) (signature (cmessage cl)) (2, buf) =
      Inr (2 + args_words ?as, b1)" "length b1 = length buf"
    "wire_args objs ?as (take (4 * args_words ?as) (drop 8 b1))"
    using serialize_args_ok [OF closure_typed_args [OF ty] eq_refl [OF end'(2)] end'(1)]
    by (auto simp: for_args_details)
  let ?h = "push_bit 16 (of_nat (4 * closure_words cl) :: u32) OR (copcode cl AND 0xffff)"
  let ?b2 = "store 4 0 (csender_id cl) b1" let ?b = "store 4 4 ?h ?b2"
  have n: "8 \<le> length b1" "length b1 = 4 * closure_words cl" using b1(2) len by (simp_all add: closure_words_def)
  have "load 4 0 ?b = csender_id cl"
    using n by (subst load_store_other) (auto simp: load_store_same)
  moreover have "load 4 4 ?b = ?h" using n by (subst load_store_same) auto
  moreover have "drop 8 ?b = drop 8 b1" using n by (simp add: store_def splice_at_def)
  moreover have "take (4 * args_words ?as) (drop 8 b1) = drop 8 b1"
    using n by (simp add: closure_words_def)
  ultimately have "message_bytes objs cl ?b"
    using b1(3) n by (simp add: message_bytes_def)
  moreover have "serialize_closure objs cl buf = Inr (of_nat (4 * closure_words cl), ?b)"
    using b1(1) end'(2)
    by (simp add: serialize_closure_def Let_def closure_words_def algebra_simps)
  ultimately show ?thesis by blast
qed

section \<open>Deserialization\<close>

text \<open>
  What the receiver finds for an argument: objects travel as ids, and a null array arrives as an
  empty one.
\<close>

definition received :: "object_store \<Rightarrow> wl_argument \<Rightarrow> wl_argument" where
  "received objs a = (case a of
     Arg_o p \<Rightarrow> Arg_n (object_id objs p) | Arg_a None \<Rightarrow> Arg_a (Some []) | _ \<Rightarrow> a)"

fun arg_fds :: "wl_argument list \<Rightarrow> u32 list" where
  "arg_fds [] = []"
| "arg_fds (Arg_h fd # as) = fd # arg_fds as"
| "arg_fds (_ # as) = arg_fds as"

fun arg_news :: "wl_argument list \<Rightarrow> u32 list" where
  "arg_news [] = []"
| "arg_news (Arg_n v # as) = v # arg_news as"
| "arg_news (_ # as) = arg_news as"

fun arg_arrays :: "wl_argument list \<Rightarrow> nat" where
  "arg_arrays [] = 0"
| "arg_arrays (Arg_a _ # as) = Suc (arg_arrays as)"
| "arg_arrays (_ # as) = arg_arrays as"

fun reserve_all :: "allocator \<Rightarrow> wl_map \<Rightarrow> u32 list \<Rightarrow> wl_map option" where
  "reserve_all A m [] = Some m"
| "reserve_all A m (v # vs) =
     (case wl_map_reserve_new A m v of
        Some (m', r) \<Rightarrow> if r < 0 then None else reserve_all A m' vs
      | None \<Rightarrow> None)"

lemma load_word:
  "take 4 (drop k buf) = le_bytes 4 (v :: u32) \<Longrightarrow> load 4 k buf = v"
  by (simp add: load_def)

lemma take_drop_append:
  assumes "take n (drop k buf) = xs @ ys" "n = length xs + length ys"
  shows "take (length xs) (drop k buf) = xs" "take (length ys) (drop (k + length xs) buf) = ys"
proof -
  have "take (length xs) (take n (drop k buf)) = xs" "drop (length xs) (take n (drop k buf)) = ys"
    using assms(1) by simp_all
  then show "take (length xs) (drop k buf) = xs" "take (length ys) (drop (k + length xs) buf) = ys"
    using assms(2) by (simp_all add: drop_take add.commute)
qed

lemma fdbuf_front:
  assumes ok: "fdbuf_ok b" and q: "queued_fds b = fd # fds"
  shows "tail b \<noteq> head b" "of_le (wl_buffer_copy b 4) = fd"
    "fdbuf_ok (b\<lparr>tail := tail b + 4\<rparr>)" "queued_fds (b\<lparr>tail := tail b + 4\<rparr>) = fds"
proof -
  have n: "4 \<le> unat (wl_buffer_size b)"
    using arg_cong [OF q, of length] by (simp add: length_queued_fds)
  then show "tail b \<noteq> head b" by (auto simp: wl_buffer_size_def)
  have "wl_buffer_copy b 4 = take 4 (contents b)"
    using ok n by (intro wl_buffer_copy_contents) (auto simp: fdbuf_ok_def)
  then show "of_le (wl_buffer_copy b 4) = fd"
    using q n words32.simps [of "contents b"] by (simp add: queued_fds_def)
  show "fdbuf_ok (b\<lparr>tail := tail b + 4\<rparr>)" "queued_fds (b\<lparr>tail := tail b + 4\<rparr>) = fds"
    using fdbuf_consume [OF ok, of 1] q by simp_all
qed

text \<open>Decoding a string or array payload whose length word and bytes are in place.\<close>

lemma take_word_ok:
  assumes "take 4 (drop (4 * dpos s) buf) = le_bytes 4 v" "4 * dpos s + 4 \<le> length buf"
  shows "take_word buf s = Inr (v, s\<lparr>dpos := dpos s + 1\<rparr>)"
  using assms by (simp add: take_word_def load_word)

definition arg_received ::
    "allocator \<Rightarrow> object_store \<Rightarrow> nat \<Rightarrow> wl_argument \<Rightarrow> demarshal_state \<Rightarrow> demarshal_state \<Rightarrow> bool" where
  "arg_received A objs i a s s' \<longleftrightarrow>
     dargs s' = (dargs s)[i := received objs a] \<and> dpos s' = dpos s + arg_words a \<and>
     dextra s' = dextra s + arg_arrays [a] \<and> reserve_all A (dmap s) (arg_news [a]) = Some (dmap s') \<and>
     fdbuf_ok (dfds s') \<and> queued_fds (dfds s) = arg_fds [a] @ queued_fds (dfds s')"

lemma demarshal_scalar_ok:
  assumes t: "typed objs d a" and a: "arg_words a = 1" "arg_arrays [a] = 0" "arg_news [a] = []"
    and nof: "arg_fds [a] = []" "length (wire_data objs a) = 4"
    and buf: "take 4 (drop (4 * dpos s) buf) = wire_data objs a" "4 * (dpos s + 1) \<le> length buf"
    and ok: "fdbuf_ok (dfds s)"
  shows "\<exists>s'. demarshal_arg A n buf i d s = Inr s' \<and> arg_received A objs i a s s' \<and> dmap s' = dmap s"
proof -
  have e: "\<not> length buf div 4 < Suc (dpos s)" "4 * dpos s + 4 \<le> length buf" using buf(2) by auto
  note tw = take_word_ok [OF _ e(2)]
  show ?thesis
    using t a nof buf(1) e ok tw
    by (cases a) (auto simp: demarshal_arg_def typed_def wire_data_def arg_received_def received_def
        object_id_def Let_def split: option.splits if_splits)
qed

lemma demarshal_arg_ok:
  assumes t: "typed objs d a"
    and buf: "take (length (wire_data objs a)) (drop (4 * dpos s) buf) = wire_data objs a"
      "4 * (dpos s + arg_words a) \<le> length buf"
    and ok: "fdbuf_ok (dfds s)" "queued_fds (dfds s) = arg_fds [a] @ fds"
    and n: "dextra s + arg_arrays [a] \<le> n" and m: "reserve_all A (dmap s) (arg_news [a]) = Some m"
  shows "\<exists>s'. demarshal_arg A n buf i d s = Inr s' \<and> arg_received A objs i a s s' \<and> dmap s' = m"
proof -
  note scalar = demarshal_scalar_ok [OF t _ _ _ _ _ _ _ ok(1), of buf A n i]
  show ?thesis
  proof (cases a)
    case (Arg_n v)
    then have e: "\<not> length buf div 4 < Suc (dpos s)" "4 * dpos s + 4 \<le> length buf"
      using buf(2) by (auto simp: arg_words_def)
    show ?thesis
      using Arg_n t buf(1) take_word_ok [OF _ e(2), of v] e(1) ok m
      by (auto simp: demarshal_arg_def typed_def wire_data_def arg_received_def received_def
          arg_words_def Let_def split: option.splits prod.splits if_splits)
  next
    case (Arg_h fd)
    with ok(2) have q: "queued_fds (dfds s) = fd # fds" by simp
    show ?thesis
      using Arg_h t q fdbuf_front [OF ok(1) q] m
      by (simp add: demarshal_arg_def typed_def arg_received_def received_def arg_words_def)
  next
    case (Arg_s str)
    show ?thesis
    proof (cases str)
      case None
      with Arg_s show ?thesis
        using scalar buf m by (simp add: wire_data_def arg_words_def)
    next
      case (Some x)
      have x: "0 \<notin> set x" "unat (string_size x) = length x + 1" "atype d = CHR ''s''"
        using t Arg_s Some by (auto simp: typed_def unat_sizes)
      let ?p = "dpos s + 1" let ?nx = "?p + DIV_ROUNDUP (length x + 1) 4"
      have e: "4 * dpos s + 4 \<le> length buf" "?nx \<le> length buf div 4" "4 * ?p + (length x + 1) \<le> length buf"
        using buf(2) Arg_s Some DIV_ROUNDUP_bounds(1) [of "length x + 1"] by (simp_all add: arg_words_def)
      have wd: "wire_data objs a = le_bytes 4 (string_size x) @ (x @ [0])"
        by (simp add: Arg_s Some wire_data_def)
      note tk2 = take_drop_append [OF trans [OF buf(1) wd]]
      have b: "take 4 (drop (4 * dpos s) buf) = le_bytes 4 (string_size x)"
        "take (length x + 1) (drop (4 * ?p) buf) = x @ [0]"
        using tk2 by (simp_all add: wd add.commute)
      have last: "buf ! (4 + (4 * dpos s + length x)) = 0"
        using arg_cong [OF b(2), of "\<lambda>l. l ! length x"] e(3) by (simp add: add.assoc)
      have tk: "takeWhile (\<lambda>b. b \<noteq> 0) (x @ [0]) = x"
        using x(1) by (subst takeWhile_append2) auto
      have nz: "string_size x \<noteq> 0" using x(2) by auto
      show ?thesis
        using Arg_s Some x e b last tk nz take_word_ok [OF b(1) e(1)] ok m
        by (simp add: demarshal_arg_def arg_received_def received_def arg_words_def Let_def)
    qed
  next
    case (Arg_a ar)
    define x where "x = (case ar of None \<Rightarrow> [] | Some y \<Rightarrow> y)"
    have x: "unat (array_size x) = length x" "atype d = CHR ''a''"
      using t Arg_a by (auto simp: typed_def unat_sizes x_def split: option.splits)
    have aw: "arg_words a = 1 + DIV_ROUNDUP (length x) 4" "received objs a = Arg_a (Some x)"
      "wire_data objs a = le_bytes 4 (array_size x) @ x"
      using Arg_a by (auto simp: arg_words_def x_def DIV_ROUNDUP_def received_def wire_data_def
          array_size_def split: option.splits)
    let ?p = "dpos s + 1" let ?nx = "?p + DIV_ROUNDUP (length x) 4"
    have e: "4 * dpos s + 4 \<le> length buf" "?nx \<le> length buf div 4" "4 * ?p + length x \<le> length buf"
      using buf(2) DIV_ROUNDUP_bounds(1) [of "length x"] by (simp_all add: aw)
    have b: "take 4 (drop (4 * dpos s) buf) = le_bytes 4 (array_size x)"
      "take (length x) (drop (4 * ?p) buf) = x"
      using take_drop_append [OF trans [OF buf(1) aw(3)]] by (simp_all add: aw(3) add.commute)
    show ?thesis
      using Arg_a x e b take_word_ok [OF b(1) e(1)] ok n m
      by (simp add: demarshal_arg_def arg_received_def aw [unfolded Arg_a] Let_def)
  next
    case Arg_unset
    with t show ?thesis by (simp add: typed_def)
  qed (use scalar buf m in \<open>simp_all add: wire_data_def arg_words_def\<close>)
qed

lemma arg_lists_Cons:
  "arg_fds (a # as) = arg_fds [a] @ arg_fds as" "arg_news (a # as) = arg_news [a] @ arg_news as"
  "arg_arrays (a # as) = arg_arrays [a] + arg_arrays as"
  by (cases a; simp)+

lemma reserve_all_append:
  "reserve_all A m (vs @ us) = Option.bind (reserve_all A m vs) (\<lambda>m. reserve_all A m us)"
  by (induction vs arbitrary: m) (auto split: option.splits prod.splits)

lemma demarshal_args_ok:
  assumes "list_all2 (typed objs) ds as"
    and "wire_args objs as (take (4 * args_words as) (drop (4 * dpos s) buf))"
    and "4 * (dpos s + args_words as) \<le> length buf" "i + length as \<le> length (dargs s)"
    and "fdbuf_ok (dfds s)" "queued_fds (dfds s) = arg_fds as @ fds"
    and "dextra s + arg_arrays as \<le> n" "reserve_all A (dmap s) (arg_news as) = Some m"
  shows "\<exists>s'. efold (\<lambda>(j, d). demarshal_arg A n buf j d) (enumerate i ds) s = Inr s' \<and>
    dargs s' = take i (dargs s) @ map (received objs) as @ drop (i + length as) (dargs s) \<and>
    dmap s' = m \<and> fdbuf_ok (dfds s') \<and> queued_fds (dfds s') = fds"
  using assms
proof (induction ds as arbitrary: i s rule: list_all2_induct)
  case Nil
  then show ?case by simp
next
  case (Cons d ds a as)
  have wb: "take (length (wire_data objs a)) (drop (4 * dpos s) buf) = wire_data objs a"
    using Cons.prems(1) wire_data_length [of objs a] by (simp add: min_def)
  have wr: "wire_args objs as (take (4 * args_words as) (drop (4 * (dpos s + arg_words a)) buf))"
    using Cons.prems(1) by (simp add: drop_take add.commute)
  have q: "queued_fds (dfds s) = arg_fds [a] @ (arg_fds as @ fds)"
    using Cons.prems(5) by (simp add: arg_lists_Cons(1) [of a as])
  obtain m1 where m1: "reserve_all A (dmap s) (arg_news [a]) = Some m1" "reserve_all A m1 (arg_news as) = Some m"
    using Cons.prems(7) by (auto simp: arg_lists_Cons(2) [of a as] reserve_all_append bind_eq_Some)
  obtain s1 where s1: "demarshal_arg A n buf i d s = Inr s1" "arg_received A objs i a s s1" "dmap s1 = m1"
    using demarshal_arg_ok [OF Cons.hyps(1) wb _ Cons.prems(4) q _ m1(1), of n i] Cons.prems(2,6)
    by (auto simp: arg_lists_Cons(3) [of a as])
  have "\<exists>s'. efold (\<lambda>(j, d). demarshal_arg A n buf j d) (enumerate (Suc i) ds) s1 = Inr s' \<and>
      dargs s' = take (Suc i) (dargs s1) @ map (received objs) as @ drop (Suc i + length as) (dargs s1) \<and>
      dmap s' = m \<and> fdbuf_ok (dfds s') \<and> queued_fds (dfds s') = fds"
    using Cons.prems(2,3,6) s1(2,3) m1(2) wr q
    by (intro Cons.IH) (auto simp: arg_received_def arg_lists_Cons(3) [of a as])
  with s1 Cons.prems(3) show ?case
    by (auto simp: arg_received_def take_Suc_conv_app_nth drop_update_cancel)
qed

text \<open>Clearing the descriptors keeps the array of arguments at its size.\<close>

lemma clear_fds_args:
  "\<exists>args'. efold (\<lambda>(j, d). clear_fd j d) (enumerate i ds) args = Inr args' \<and> length args' = length args"
proof (induction ds arbitrary: i args)
  case (Cons d ds)
  show ?case
    using Cons.IH [of "Suc i" args] Cons.IH [of "Suc i" "args[i := Arg_h (-1)]"]
    by (auto simp: clear_fd_def)
qed simp

lemma wl_closure_init_ok:
  assumes "arg_count_for_signature (signature msg) \<le> WL_CLOSURE_MAX_ARGS" "n \<noteq> 0"
  shows "\<exists>cl. wl_closure_init True msg n None = Inr (cl, Some (wl_message_count_arrays msg)) \<and>
    ccount cl = arg_count_for_signature (signature msg) \<and> cmessage cl = msg \<and>
    length (cargs cl) = WL_CLOSURE_MAX_ARGS"
proof -
  let ?cl = "\<lparr>ccount = arg_count_for_signature (signature msg), cmessage = msg, copcode = 0,
    csender_id = 0, cargs = replicate WL_CLOSURE_MAX_ARGS Arg_unset\<rparr>"
  have "\<exists>args. wl_closure_clear_fds ?cl = ?cl\<lparr>cargs := args\<rparr> \<and> length args = WL_CLOSURE_MAX_ARGS"
    using clear_fds_args [of 0 "details (signature msg)" "cargs ?cl"]
    by (auto simp: wl_closure_clear_fds_def for_args_details)
  with assms show ?thesis by (auto simp: wl_closure_init_def Let_def)
qed

lemma arg_arrays_details:
  "list_all2 (typed objs) ds as \<Longrightarrow> arg_arrays as = length (filter (\<lambda>d. atype d = CHR ''a'') ds)"
proof (induction ds as rule: list_all2_induct)
  case (Cons d ds a as)
  then show ?case by (cases a) (auto simp: typed_def)
qed simp

text \<open>
  The whole exchange: a message that a serializer produced from a typed closure is read back as
  that closure, it is consumed exactly, and so are its descriptors.
\<close>

lemma demarshal_message_bytes:
  assumes ty: "closure_typed objs cl" and cnt: "ccount cl \<le> WL_CLOSURE_MAX_ARGS"
    and mb: "message_bytes objs cl bs" and sz: "4 * closure_words cl \<le> BUFFER_SIZE"
    and c: "conn_ok c" "contents (inb c) = bs @ rest"
    and q: "queued_fds (fds_in c) = arg_fds (take (ccount cl) (cargs cl)) @ fds"
    and m: "reserve_all A objects (arg_news (take (ccount cl) (cargs cl))) = Some objects'"
  shows "\<exists>cl' c'. wl_connection_demarshal True A c (of_nat (length bs)) objects (cmessage cl) w =
      Inr (Some cl', c', objects', w) \<and>
    ccount cl' = ccount cl \<and> cmessage cl' = cmessage cl \<and> csender_id cl' = csender_id cl \<and>
    copcode cl' = copcode cl AND 0xffff \<and>
    take (ccount cl) (cargs cl') = map (received objs) (take (ccount cl) (cargs cl)) \<and>
    conn_ok c' \<and> contents (inb c') = rest \<and> queued_fds (fds_in c') = fds \<and>
    out c' = out c \<and> fds_out c' = fds_out c"
proof -
  let ?as = "take (ccount cl) (cargs cl)" let ?msg = "cmessage cl" let ?n = "length bs"
  have len: "?n = 4 * closure_words cl" "8 \<le> ?n" "?n \<le> BUFFER_SIZE" "length ?as = ccount cl"
    "ccount cl = arg_count_for_signature (signature ?msg)"
    using mb sz ty by (auto simp: message_bytes_def closure_words_def closure_typed_def)
  have un: "unat (of_nat ?n :: u32) = ?n"
    using len(3) by (simp add: unat_of_nat BUFFER_SIZE_def)
  obtain cl0 where cl0: "wl_closure_init True ?msg ?n None = Inr (cl0, Some (wl_message_count_arrays ?msg))"
    "ccount cl0 = ccount cl" "cmessage cl0 = ?msg" "length (cargs cl0) = WL_CLOSURE_MAX_ARGS"
    using wl_closure_init_ok [of ?msg ?n] len cnt by auto
  have bok: "buffer_ok (inb c)" using c(1) by (simp add: conn_ok_def)
  have nsz: "?n \<le> unat (wl_buffer_size (inb c))"
    using arg_cong [OF c(2), of length] by simp
  have copy: "wl_connection_copy c ?n = bs"
    using wl_buffer_copy_contents [OF bok nsz] c(2) by (simp add: wl_connection_copy_def)
  let ?s = "\<lparr>dargs = cargs cl0, dpos = 2, dextra = 0, dfds = fds_in c, dmap = objects\<rparr>"
  have "\<exists>s'. efold (\<lambda>(j, d). demarshal_arg A (wl_message_count_arrays ?msg) bs j d)
      (enumerate 0 (details (signature ?msg))) ?s = Inr s' \<and>
    dargs s' = take 0 (dargs ?s) @ map (received objs) ?as @ drop (0 + length ?as) (dargs ?s) \<and>
    dmap s' = objects' \<and> fdbuf_ok (dfds s') \<and> queued_fds (dfds s') = fds"
  proof (rule demarshal_args_ok [OF closure_typed_args(1) [OF ty]])
    show "wire_args objs ?as (take (4 * args_words ?as) (drop (4 * dpos ?s) bs))"
      using mb wire_args_length [of objs ?as "drop 8 bs"] by (simp add: message_bytes_def)
    show "dextra ?s + arg_arrays ?as \<le> wl_message_count_arrays ?msg"
      using arg_arrays_details [OF closure_typed_args(1) [OF ty]]
      by (simp add: wl_message_count_arrays_def count_arrays_details)
  qed (use len cl0 cnt c(1) q m in \<open>simp_all add: closure_words_def conn_ok_def\<close>)
  then obtain s' where s': "for_args (demarshal_arg A (wl_message_count_arrays ?msg) bs) 0 (ccount cl)
      (signature ?msg) ?s = Inr s'" "dargs s' = map (received objs) ?as @ drop (ccount cl) (cargs cl0)"
    "dmap s' = objects'" "fdbuf_ok (dfds s')" "queued_fds (dfds s') = fds"
    using len by (auto simp: for_args_details)
  let ?cl = "cl0\<lparr>csender_id := load 4 0 bs, copcode := load 4 4 bs AND 0xffff, cargs := dargs s'\<rparr>"
  let ?c = "wl_connection_consume (c\<lparr>fds_in := dfds s'\<rparr>) ?n"
  have dem: "wl_connection_demarshal True A c (of_nat ?n) objects ?msg w = Inr (Some ?cl, ?c, objects', w)"
    using cl0 s'(1,3) len(2) by (simp add: wl_connection_demarshal_def un copy Let_def)
  have mask: "(0xffff :: u32) = mask 16" by (simp add: mask_eq_exp_minus_1)
  have "push_bit 16 x AND (0xffff :: u32) = 0" for x
    unfolding mask by (rule bit_word_eqI) (simp add: bit_and_iff bit_push_bit_iff bit_mask_iff)
  then have opc: "load 4 4 bs AND 0xffff = copcode cl AND 0xffff"
    using mb by (simp add: message_bytes_def bit.conj_disj_distrib2 and.assoc)
  have cok: "conn_ok ?c" "contents (inb ?c) = rest"
    using buffer_consume [OF bok nsz] c s'(4) by (simp_all add: wl_connection_consume_def conn_ok_def)
  show ?thesis
    using dem mb opc cok s' cl0 len
    by (intro exI [of _ ?cl] exI [of _ ?c])
      (simp add: message_bytes_def wl_connection_consume_def)
qed

section \<open>Safety on arbitrary input\<close>

text \<open>
  Whatever bytes the peer sent, demarshalling ends in a closure or in \<^verbatim>\<open>EINVAL\<close>: no read outside the
  message, no write outside the array headers, no abort. \<open>outcome\<close> is the state of such an end.
\<close>

definition outcome :: "(fault \<times> 's) + 's \<Rightarrow> 's option" where
  "outcome r = (case r of Inr s \<Rightarrow> Some s | Inl (e, s) \<Rightarrow> if e = Einval then Some s else None)"

lemma outcome_simps [simp]:
  "outcome (Inr s) = Some s" "outcome (Inl (Einval, s)) = Some s"
  by (simp_all add: outcome_def)

definition fds_taken :: "argument_details \<Rightarrow> nat \<Rightarrow> demarshal_state \<Rightarrow> demarshal_state \<Rightarrow> bool" where
  "fds_taken d i s s' \<longleftrightarrow> fdbuf_ok (dfds s') \<and>
     (queued_fds (dfds s') = queued_fds (dfds s) \<and>
        (atype d = CHR ''h'' \<longrightarrow> dargs s' ! i = dargs s ! i) \<or>
      atype d = CHR ''h'' \<and>
        (\<exists>fd. queued_fds (dfds s) = fd # queued_fds (dfds s') \<and> dargs s' ! i = Arg_h fd))"

definition arg_step :: "nat list \<Rightarrow> argument_details \<Rightarrow> nat \<Rightarrow> demarshal_state \<Rightarrow> demarshal_state \<Rightarrow> bool" where
  "arg_step xs d i s s' \<longleftrightarrow> length (dargs s') = length (dargs s) \<and>
     (\<forall>j. j \<noteq> i \<longrightarrow> dargs s' ! j = dargs s ! j) \<and> fds_taken d i s s' \<and>
     dextra s' \<le> dextra s + (if atype d = CHR ''a'' then 1 else 0) \<and>
     reserved (dmap s) (dmap s') xs"

lemma arg_chars:
  assumes "is_arg_char c"
  obtains "c = CHR ''u''" | "c = CHR ''i''" | "c = CHR ''f''" | "c = CHR ''s''"
    | "c = CHR ''o''" | "c = CHR ''n''" | "c = CHR ''a''" | "c = CHR ''h''"
  using assms by (auto simp: is_arg_char_def)

lemma fdbuf_nonempty:
  assumes "fdbuf_ok b" "tail b \<noteq> head b"
  obtains fd fds where "queued_fds b = fd # fds"
proof -
  have "wl_buffer_size b \<noteq> 0" using assms(2) by (auto simp: wl_buffer_size_def)
  then have "0 < unat (wl_buffer_size b)" by (simp add: unat_gt_0)
  moreover have "4 dvd unat (wl_buffer_size b)" using assms(1) by (simp add: fdbuf_ok_def)
  ultimately have "length (queued_fds b) > 0" by (auto simp: length_queued_fds elim!: dvdE)
  then show ?thesis using that by (cases "queued_fds b") auto
qed

lemma take_word_safe:
  assumes "dpos s + 1 \<le> length buf div 4"
  shows "take_word buf s = Inr (load 4 (4 * dpos s) buf, s\<lparr>dpos := dpos s + 1\<rparr>)"
  using assms by (simp add: take_word_def)

lemma payload_in_buffer:
  "p + DIV_ROUNDUP n 4 \<le> length buf div 4 \<Longrightarrow> 4 * p + n \<le> length buf"
  using DIV_ROUNDUP_bounds(1) [of n] by linarith

lemma demarshal_arg_safe:
  assumes d: "is_arg_char (atype d)" and i: "i < length (dargs s)" and f: "fdbuf_ok (dfds s)"
    and n: "atype d = CHR ''a'' \<Longrightarrow> dextra s < n"
    and A: "allocator_ok A" "\<And>n. A n \<noteq> None" and m: "map_ok (dmap s) xs" "peer_room (dmap s) 1"
  shows "\<exists>s'. outcome (demarshal_arg A n buf i d s) = Some s' \<and> arg_step xs d i s s'"
proof (cases "atype d \<noteq> CHR ''h'' \<and> dpos s + 1 > length buf div 4")
  case True
  with f m show ?thesis
    by (auto simp: demarshal_arg_def arg_step_def fds_taken_def reserved_refl)
next
  case False
  have tw: "atype d \<noteq> CHR ''h'' \<Longrightarrow>
      take_word buf s = Inr (load 4 (4 * dpos s) buf, s\<lparr>dpos := dpos s + 1\<rparr>)"
    using False by (intro take_word_safe) simp
  note fresh = arg_step_def fds_taken_def reserved_refl [OF m(1)] f
  show ?thesis
    using d
  proof (cases rule: arg_chars)
    case 4
    let ?l = "load 4 (4 * dpos s) buf :: u32"
    have "dpos s + 1 + DIV_ROUNDUP (unat ?l) 4 \<le> length buf div 4 \<Longrightarrow>
        4 * (dpos s + 1) + unat ?l \<le> length buf" by (rule payload_in_buffer)
    with 4 tw False show ?thesis
      by (auto simp: demarshal_arg_def Let_def fresh)
  next
    case 6
    let ?v = "load 4 (4 * dpos s) buf :: u32"
    obtain m' r where r: "wl_map_reserve_new A (dmap s) ?v = Some (m', r)"
      "reserved (dmap s) m' xs"
      using wl_map_reserve_new_ok [OF A m] by metis
    with 6 tw False show ?thesis
      by (auto simp: demarshal_arg_def Let_def fresh)
  next
    case 7
    let ?l = "load 4 (4 * dpos s) buf :: u32"
    have "dpos s + 1 + DIV_ROUNDUP (unat ?l) 4 \<le> length buf div 4 \<Longrightarrow>
        4 * (dpos s + 1) + unat ?l \<le> length buf" by (rule payload_in_buffer)
    with 7 tw False n show ?thesis
      by (auto simp: demarshal_arg_def Let_def fresh)
  next
    case 8
    show ?thesis
    proof (cases "tail (dfds s) = head (dfds s)")
      case True
      with 8 show ?thesis by (auto simp: demarshal_arg_def Let_def fresh)
    next
      case False
      obtain fd fds where q: "queued_fds (dfds s) = fd # fds" by (rule fdbuf_nonempty [OF f False])
      show ?thesis
        using 8 False i q fdbuf_front [OF f q] by (auto simp: demarshal_arg_def Let_def fresh)
    qed
  qed (use tw False in \<open>auto simp: demarshal_arg_def Let_def fresh\<close>)
qed

text \<open>The descriptors a closure holds: those \<^verbatim>\<open>wl_closure_destroy\<close> closes.\<close>

definition held_fd :: "argument_details \<Rightarrow> wl_argument \<Rightarrow> u32 list" where
  "held_fd d a = (case a of
     Arg_h fd \<Rightarrow> if atype d = CHR ''h'' \<and> fd \<noteq> -1 then [fd] else [] | _ \<Rightarrow> [])"

fun held_fds :: "nat \<Rightarrow> argument_details list \<Rightarrow> wl_argument list \<Rightarrow> u32 list" where
  "held_fds i [] args = []"
| "held_fds i (d # ds) args = held_fd d (args ! i) @ held_fds (Suc i) ds args"

definition closure_fds :: "wl_closure \<Rightarrow> u32 list" where
  "closure_fds cl = held_fds 0 (details (signature (cmessage cl))) (cargs cl)"

lemma held_fds_cong:
  "(\<And>j. i \<le> j \<Longrightarrow> args ! j = args' ! j) \<Longrightarrow> held_fds i ds args = held_fds i ds args'"
  by (induction ds arbitrary: i) auto

lemma close_fds_loop:
  "efold (\<lambda>(j, d). close_fd_arg args j d) (enumerate i ds) w =
     Inr (w\<lparr>closed := closed w @ held_fds i ds args\<rparr>)"
  by (induction ds arbitrary: i w) (auto simp: close_fd_arg_def held_fd_def split: wl_argument.splits)

lemma wl_closure_destroy_closes:
  assumes "ccount cl = arg_count_for_signature (signature (cmessage cl))"
  shows "wl_closure_destroy (Some cl) w = w\<lparr>closed := closed w @ closure_fds cl\<rparr>"
  using assms
  by (simp add: wl_closure_destroy_def wl_closure_close_fds_def closure_fds_def for_args_details close_fds_loop)

text \<open>After clearing, the closure owns no descriptor.\<close>

lemma clear_fds_loop:
  "\<exists>args'. efold (\<lambda>(j, d). clear_fd j d) (enumerate i ds) args = Inr args' \<and>
    length args' = length args \<and> (\<forall>j<i. args' ! j = args ! j) \<and>
    (i + length ds \<le> length args \<longrightarrow> held_fds i ds args' = [])"
proof (induction ds arbitrary: i args)
  case (Cons d ds)
  let ?a = "if atype d = CHR ''h'' then args[i := Arg_h (-1)] else args"
  obtain args' where a: "efold (\<lambda>(j, d). clear_fd j d) (enumerate (Suc i) ds) ?a = Inr args'"
    "length args' = length args" "\<forall>j<Suc i. args' ! j = ?a ! j"
    "Suc i + length ds \<le> length args \<longrightarrow> held_fds (Suc i) ds args' = []"
    using Cons.IH [of "Suc i" ?a] by auto
  have step: "clear_fd i d args = Inr ?a" by (simp add: clear_fd_def)
  have "Suc i + length ds \<le> length args \<Longrightarrow> held_fd d (args' ! i) = []"
    using a(3) by (auto simp: held_fd_def split: wl_argument.splits)
  moreover have "\<forall>j<i. args' ! j = args ! j" using a(3) by simp
  ultimately show ?case using a step by auto
qed simp

lemma wl_closure_clear_fds_ok:
  assumes "ccount cl = arg_count_for_signature (signature (cmessage cl))" "ccount cl \<le> length (cargs cl)"
  obtains args where "wl_closure_clear_fds cl = cl\<lparr>cargs := args\<rparr>" "length args = length (cargs cl)"
    "closure_fds (wl_closure_clear_fds cl) = []"
proof -
  obtain args where "efold (\<lambda>(j, d). clear_fd j d) (enumerate 0 (details (signature (cmessage cl))))
      (cargs cl) = Inr args" "length args = length (cargs cl)"
    "held_fds 0 (details (signature (cmessage cl))) args = []"
    using clear_fds_loop [of 0 "details (signature (cmessage cl))" "cargs cl"] assms by auto
  then show ?thesis
    using that [of args] assms(1)
    by (simp add: wl_closure_clear_fds_def for_args_details closure_fds_def)
qed

lemma demarshal_args_safe:
  assumes "\<forall>d \<in> set ds. is_arg_char (atype d)" "i + length ds \<le> length (dargs s)" "fdbuf_ok (dfds s)"
    and "dextra s + length (filter (\<lambda>d. atype d = CHR ''a'') ds) \<le> n"
    and A: "allocator_ok A" "\<And>n. A n \<noteq> None"
    and "map_ok (dmap s) xs" "peer_room (dmap s) (length ds)" "held_fds i ds (dargs s) = []"
  shows "\<exists>s' fds. outcome (efold (\<lambda>(j, d). demarshal_arg A n buf j d) (enumerate i ds) s) = Some s' \<and>
    length (dargs s') = length (dargs s) \<and> (\<forall>j<i. dargs s' ! j = dargs s ! j) \<and>
    fdbuf_ok (dfds s') \<and> queued_fds (dfds s) = fds @ queued_fds (dfds s') \<and>
    held_fds i ds (dargs s') = filter (\<lambda>fd. fd \<noteq> -1) fds \<and>
    map_ok (dmap s') xs \<and> wl_map_lookup (dmap s') = wl_map_lookup (dmap s) \<and>
    wl_map_lookup_flags (dmap s') = wl_map_lookup_flags (dmap s) \<and> side (dmap s') = side (dmap s)"
  using assms(1-4,7-)
proof (induction ds arbitrary: i s)
  case Nil
  then show ?case by simp
next
  case (Cons d ds)
  have pr1: "peer_room (dmap s) 1" using Cons.prems(6) by (simp add: peer_room_def Let_def)
  have n1: "atype d = CHR ''a'' \<Longrightarrow> dextra s < n" using Cons.prems(4) by simp
  obtain s1 where s1: "outcome (demarshal_arg A n buf i d s) = Some s1" "arg_step xs d i s s1"
    using demarshal_arg_safe [OF _ _ Cons.prems(3) n1 A Cons.prems(5) pr1, where i = i and buf = buf] Cons.prems(1,2)
    by auto
  have st: "length (dargs s1) = length (dargs s)" "\<And>j. j \<noteq> i \<Longrightarrow> dargs s1 ! j = dargs s ! j"
    "fdbuf_ok (dfds s1)" "reserved (dmap s) (dmap s1) xs" "fds_taken d i s s1"
    "dextra s1 \<le> dextra s + (if atype d = CHR ''a'' then 1 else 0)"
    using s1(2) by (auto simp: arg_step_def fds_taken_def)
  have h0: "held_fd d (dargs s ! i) = []" "held_fds (Suc i) ds (dargs s) = []" using Cons.prems(7) by auto
  have h1: "held_fds (Suc i) ds (dargs s1) = []"
    using h0(2) st(2) held_fds_cong [of "Suc i" "dargs s1" "dargs s" ds] by simp
  have m1: "map_ok (dmap s1) xs" "wl_map_lookup (dmap s1) = wl_map_lookup (dmap s)"
    "peer_room (dmap s1) (length ds)" "wl_map_lookup_flags (dmap s1) = wl_map_lookup_flags (dmap s)"
    "side (dmap s1) = side (dmap s)"
    using st(4) Cons.prems(6) by (auto simp: reserved_def)
  obtain fd1 where fd1: "queued_fds (dfds s) = fd1 @ queued_fds (dfds s1)"
    "held_fd d (dargs s1 ! i) = filter (\<lambda>fd. fd \<noteq> -1) fd1"
    using st(5) h0(1) by (auto simp: fds_taken_def held_fd_def split: wl_argument.splits)
  let ?rest = "efold (\<lambda>(j, d). demarshal_arg A n buf j d) (enumerate (Suc i) ds)"
  show ?case
  proof (cases "demarshal_arg A n buf i d s")
    case (Inl e)
    with s1(1) have "outcome (efold (\<lambda>(j, d). demarshal_arg A n buf j d) (enumerate i (d # ds)) s) = Some s1"
      by simp
    then show ?thesis using st m1 fd1 h1 by auto
  next
    case (Inr s2)
    with s1(1) have run: "efold (\<lambda>(j, d). demarshal_arg A n buf j d) (enumerate i (d # ds)) s = ?rest s1"
      by simp
    have "\<exists>s' fds. outcome (?rest s1) = Some s' \<and>
      length (dargs s') = length (dargs s1) \<and> (\<forall>j<Suc i. dargs s' ! j = dargs s1 ! j) \<and>
      fdbuf_ok (dfds s') \<and> queued_fds (dfds s1) = fds @ queued_fds (dfds s') \<and>
      held_fds (Suc i) ds (dargs s') = filter (\<lambda>fd. fd \<noteq> -1) fds \<and>
      map_ok (dmap s') xs \<and> wl_map_lookup (dmap s') = wl_map_lookup (dmap s1) \<and>
      wl_map_lookup_flags (dmap s') = wl_map_lookup_flags (dmap s1) \<and> side (dmap s') = side (dmap s1)"
      using Cons.prems(1,2,4) st h1 m1 by (intro Cons.IH) (auto split: if_splits)
    then obtain s' fds where "outcome (?rest s1) = Some s'"
      "length (dargs s') = length (dargs s1)" "\<forall>j<Suc i. dargs s' ! j = dargs s1 ! j"
      "fdbuf_ok (dfds s')" "queued_fds (dfds s1) = fds @ queued_fds (dfds s')"
      "held_fds (Suc i) ds (dargs s') = filter (\<lambda>fd. fd \<noteq> -1) fds"
      "map_ok (dmap s') xs" "wl_map_lookup (dmap s') = wl_map_lookup (dmap s1)"
      "wl_map_lookup_flags (dmap s') = wl_map_lookup_flags (dmap s1)" "side (dmap s') = side (dmap s1)" by blast
    with st(1,2) fd1 m1(2,4,5) show ?thesis
      unfolding run by (intro exI [of _ s'] exI [of _ "fd1 @ fds"]) auto
  qed
qed

lemma wl_connection_demarshal_safe:
  assumes c: "conn_ok c" and size: "8 \<le> unat sz \<or> wl_connection_demarshal mem A c sz objects message w \<noteq> Inl Undefined"
    and fit: "unat sz \<le> length (contents (inb c))"
    and A: "allocator_ok A" "\<And>n. A n \<noteq> None" and m: "map_ok objects xs" "peer_room objects WL_CLOSURE_MAX_ARGS"
  shows "\<exists>res c' objects' w' fds.
    wl_connection_demarshal mem A c sz objects message w = Inr (res, c', objects', w') \<and>
    conn_ok c' \<and> contents (inb c') = drop (unat sz) (contents (inb c)) \<and>
    queued_fds (fds_in c) = fds @ queued_fds (fds_in c') \<and>
    map_ok objects' xs \<and> wl_map_lookup objects' = wl_map_lookup objects \<and>
    wl_map_lookup_flags objects' = wl_map_lookup_flags objects \<and> side objects' = side objects \<and>
    out c' = out c \<and> fds_out c' = fds_out c \<and> cfd c' = cfd c \<and> want_flush c' = want_flush c \<and>
    w' = w\<lparr>closed := closed w', errno := errno w'\<rparr> \<and>
    (case res of
       Some cl \<Rightarrow> closure_fds cl = filter (\<lambda>fd. fd \<noteq> -1) fds \<and> closed w' = closed w
     | None \<Rightarrow> closed w' = closed w @ filter (\<lambda>fd. fd \<noteq> -1) fds)"
proof -
  let ?n = "unat sz" let ?sig = "signature message" let ?buf = "wl_connection_copy c ?n"
  have bok: "buffer_ok (inb c)" "fdbuf_ok (fds_in c)" using c by (auto simp: conn_ok_def)
  have nsz: "?n \<le> unat (wl_buffer_size (inb c))" using fit by simp
  have cons: "conn_ok (wl_connection_consume (c\<lparr>fds_in := f\<rparr>) ?n)"
    "contents (inb (wl_connection_consume (c\<lparr>fds_in := f\<rparr>) ?n)) = drop ?n (contents (inb c))"
    if "fdbuf_ok f" for f
    using buffer_consume [OF bok(1) nsz] c that by (simp_all add: wl_connection_consume_def conn_ok_def)
  show ?thesis
  proof (cases "wl_closure_init mem message ?n None")
    case (Inl e)
    then show ?thesis
      using cons [OF bok(2)] m by (simp add: wl_connection_demarshal_def wl_connection_consume_def)
  next
    case (Inr r)
    then have sz: "8 \<le> ?n" using size by (cases "snd r") (auto simp: wl_connection_demarshal_def not_less [symmetric] split: prod.splits option.splits)
    from Inr have mem: mem and cnt: "arg_count_for_signature ?sig \<le> WL_CLOSURE_MAX_ARGS"
      by (auto simp: wl_closure_init_def Let_def split: if_splits)
    define cl0 where "cl0 = \<lparr>ccount = arg_count_for_signature ?sig, cmessage = message, copcode = 0,
      csender_id = 0, cargs = replicate WL_CLOSURE_MAX_ARGS Arg_unset\<rparr>"
    define cl where "cl = wl_closure_clear_fds cl0"
    have init: "wl_closure_init mem message ?n None = Inr (cl, Some (count_arrays ?sig))"
      using mem cnt sz by (auto simp: wl_closure_init_def cl_def cl0_def wl_message_count_arrays_def)
    have pre: "ccount cl0 = arg_count_for_signature (signature (cmessage cl0))" "ccount cl0 \<le> length (cargs cl0)"
      using cnt by (simp_all add: cl0_def)
    obtain args where "wl_closure_clear_fds cl0 = cl0\<lparr>cargs := args\<rparr>" "length args = length (cargs cl0)"
      "closure_fds (wl_closure_clear_fds cl0) = []" by (rule wl_closure_clear_fds_ok [OF pre])
    then have "cl = cl0\<lparr>cargs := args\<rparr>" "length args = length (cargs cl0)" "closure_fds cl = []"
      by (simp_all add: cl_def)
    then have cl: "ccount cl = arg_count_for_signature ?sig" "cmessage cl = message"
      "length (cargs cl) = WL_CLOSURE_MAX_ARGS" "held_fds 0 (details ?sig) (cargs cl) = []"
      by (simp_all add: cl0_def closure_fds_def)
    let ?s = "\<lparr>dargs = cargs cl, dpos = 2, dextra = 0, dfds = fds_in c, dmap = objects\<rparr>"
    let ?run = "efold (\<lambda>(j, d). demarshal_arg A (count_arrays ?sig) ?buf j d) (enumerate 0 (details ?sig)) ?s"
    have "peer_room objects (arg_count_for_signature ?sig)"
      using m(2) cnt by (simp add: peer_room_def Let_def)
    then obtain s' fds where s': "outcome ?run = Some s'" "fdbuf_ok (dfds s')"
      "queued_fds (fds_in c) = fds @ queued_fds (dfds s')"
      "held_fds 0 (details ?sig) (dargs s') = filter (\<lambda>fd. fd \<noteq> -1) fds" "map_ok (dmap s') xs"
      "wl_map_lookup (dmap s') = wl_map_lookup objects" "wl_map_lookup_flags (dmap s') = wl_map_lookup_flags objects"
      "side (dmap s') = side objects"
      using demarshal_args_safe [of "details ?sig" 0 ?s "count_arrays ?sig" A xs ?buf] details_type
        A cnt cl(3,4) bok(2) m(1) by (auto simp: count_arrays_details)
    let ?cl = "\<lambda>s. cl\<lparr>csender_id := load 4 0 ?buf, copcode := load 4 4 ?buf AND 0xffff, cargs := dargs s\<rparr>"
    have run: "for_args (demarshal_arg A (count_arrays ?sig) ?buf) 0 (ccount cl) ?sig ?s = ?run"
      by (simp add: cl(1) for_args_details)
    have fds: "closure_fds (?cl s') = filter (\<lambda>fd. fd \<noteq> -1) fds"
      using s'(4) cl(2) by (simp add: closure_fds_def)
    have dest: "wl_closure_destroy (Some (?cl s')) w = w\<lparr>closed := closed w @ filter (\<lambda>fd. fd \<noteq> -1) fds\<rparr>"
      using wl_closure_destroy_closes [of "?cl s'" w] fds cl(1,2) by simp
    let ?c = "wl_connection_consume (c\<lparr>fds_in := dfds s'\<rparr>) ?n"
    have ff: "fds_in ?c = dfds s'" "out ?c = out c" "fds_out ?c = fds_out c" "cfd ?c = cfd c" "want_flush ?c = want_flush c"
      by (simp_all add: wl_connection_consume_def)
    note dem = wl_connection_demarshal_def [of mem A c sz objects message w]
    show ?thesis
    proof (cases ?run)
      case (Inr s2)
      with s'(1) run have r: "for_args (demarshal_arg A (count_arrays ?sig) ?buf) 0 (ccount cl) ?sig ?s = Inr s'"
        by simp
      have "wl_connection_demarshal mem A c sz objects message w = Inr (Some (?cl s'), ?c, dmap s', w)"
        using sz r by (simp add: dem init Let_def)
      then show ?thesis
        using s'(3,5-8) fds cons [OF s'(2)] ff by auto
    next
      case (Inl es)
      with s'(1) have "?run = Inl (Einval, s')" by (cases es) (auto simp: outcome_def split: if_splits)
      with run have r: "for_args (demarshal_arg A (count_arrays ?sig) ?buf) 0 (ccount cl) ?sig ?s = Inl (Einval, s')"
        by simp
      have "wl_connection_demarshal mem A c sz objects message w = Inr (None, ?c, dmap s',
          w\<lparr>closed := closed w @ filter (\<lambda>fd. fd \<noteq> -1) fds, errno := EINVAL\<rparr>)"
        using sz r dest by (simp add: dem init Let_def)
      then show ?thesis
        using s'(3,5-8) cons [OF s'(2)] ff by auto
    qed
  qed
qed

text \<open>Demarshalling while memory lasts, and when it does not.\<close>

lemma demarshal_arg_failing:
  assumes m: "map_ok (dmap s) xs" "peer_room (dmap s) 1"
  shows "demarshal_arg A n buf i d s = demarshal_arg (never_fails A) n buf i d s \<or>
    (\<exists>t. demarshal_arg A n buf i d s = Inl (Undefined, t)) \<and> (\<exists>k. A k = None)"
proof (cases "atype d = CHR ''n''")
  case True
  show ?thesis
  proof (cases "take_word buf s")
    case (Inr r)
    then obtain v where "r = (v, s\<lparr>dpos := dpos s + 1\<rparr>)" by (auto simp: take_word_def split: if_splits)
    with Inr True wl_map_reserve_new_failing [OF m, of A v] show ?thesis by (auto simp: demarshal_arg_def Let_def)
  qed (use True in \<open>auto simp: demarshal_arg_def Let_def\<close>)
qed (auto simp: demarshal_arg_def Let_def)

lemma demarshal_args_failing:
  assumes "\<forall>d \<in> set ds. is_arg_char (atype d)" "i + length ds \<le> length (dargs s)" "fdbuf_ok (dfds s)"
    and "dextra s + length (filter (\<lambda>d. atype d = CHR ''a'') ds) \<le> n" and A: "allocator_ok A"
    and "map_ok (dmap s) xs" "peer_room (dmap s) (length ds)"
  shows "efold (\<lambda>(j, d). demarshal_arg A n buf j d) (enumerate i ds) s =
      efold (\<lambda>(j, d). demarshal_arg (never_fails A) n buf j d) (enumerate i ds) s \<or>
    (\<exists>t. efold (\<lambda>(j, d). demarshal_arg A n buf j d) (enumerate i ds) s = Inl (Undefined, t)) \<and> (\<exists>k. A k = None)"
  using assms(1-4,6-)
proof (induction ds arbitrary: i s)
  case (Cons d ds)
  have pr1: "peer_room (dmap s) 1" using Cons.prems(6) by (simp add: peer_room_def Let_def)
  have n1: "atype d = CHR ''a'' \<Longrightarrow> dextra s < n" using Cons.prems(4) by simp
  obtain s1 where s1: "outcome (demarshal_arg (never_fails A) n buf i d s) = Some s1" "arg_step xs d i s s1"
    using demarshal_arg_safe [OF _ _ Cons.prems(3) n1 never_fails_ok(1) [OF A] never_fails_ok(2) Cons.prems(5) pr1,
        where i = i and buf = buf] Cons.prems(1,2) by auto
  show ?case
  proof (cases "demarshal_arg (never_fails A) n buf i d s")
    case (Inl e)
    with demarshal_arg_failing [OF Cons.prems(5) pr1, of A n buf i d] show ?thesis by auto
  next
    case (Inr s2)
    with s1(1) have "s2 = s1" by simp
    have "dextra s1 + length (filter (\<lambda>d. atype d = CHR ''a'') ds) \<le> n" "fdbuf_ok (dfds s1)" "length (dargs s1) = length (dargs s)"
      "map_ok (dmap s1) xs" "peer_room (dmap s1) (length ds)"
      using s1(2) Cons.prems(4,6) by (auto simp: arg_step_def fds_taken_def reserved_def split: if_splits)
    with Cons.IH [of "Suc i" s1] Cons.prems(1,2) have
      "efold (\<lambda>(j, d). demarshal_arg A n buf j d) (enumerate (Suc i) ds) s1 =
        efold (\<lambda>(j, d). demarshal_arg (never_fails A) n buf j d) (enumerate (Suc i) ds) s1 \<or>
      (\<exists>t. efold (\<lambda>(j, d). demarshal_arg A n buf j d) (enumerate (Suc i) ds) s1 = Inl (Undefined, t)) \<and> (\<exists>k. A k = None)"
      by simp
    with demarshal_arg_failing [OF Cons.prems(5) pr1, of A n buf i d] Inr \<open>s2 = s1\<close> show ?thesis by auto
  qed
qed simp

lemma wl_connection_demarshal_failing:
  assumes "conn_ok c" "allocator_ok A" "map_ok objects xs" "peer_room objects WL_CLOSURE_MAX_ARGS"
  shows "wl_connection_demarshal mem A c sz objects message w = wl_connection_demarshal mem (never_fails A) c sz objects message w \<or>
    wl_connection_demarshal mem A c sz objects message w = Inl Undefined \<and> (\<exists>k. A k = None)"
proof (cases "wl_closure_init mem message (unat sz) None")
  case (Inr r)
  let ?sig = "signature message" and ?buf = "wl_connection_copy c (unat sz)"
  define cl0 where "cl0 = \<lparr>ccount = arg_count_for_signature ?sig, cmessage = message, copcode = 0,
    csender_id = 0, cargs = replicate WL_CLOSURE_MAX_ARGS Arg_unset\<rparr>"
  have cnt: "arg_count_for_signature ?sig \<le> WL_CLOSURE_MAX_ARGS"
    and r: "r = (wl_closure_clear_fds cl0, if unat sz \<noteq> 0 then Some (count_arrays ?sig) else None)"
    using Inr by (auto simp: wl_closure_init_def cl0_def wl_message_count_arrays_def Let_def split: if_splits)
  obtain args where args: "wl_closure_clear_fds cl0 = cl0\<lparr>cargs := args\<rparr>" "length args = WL_CLOSURE_MAX_ARGS"
    by (rule wl_closure_clear_fds_ok [of cl0]) (use cnt that in \<open>simp_all add: cl0_def\<close>)
  let ?s = "\<lparr>dargs = args, dpos = 2, dextra = 0, dfds = fds_in c, dmap = objects\<rparr>"
  have "peer_room objects (arg_count_for_signature ?sig)" using assms(4) cnt by (simp add: peer_room_def Let_def)
  with demarshal_args_failing [of "details ?sig" 0 ?s "count_arrays ?sig" A xs ?buf] details_type assms cnt args(2)
  have "for_args (demarshal_arg A (count_arrays ?sig) ?buf) 0 (arg_count_for_signature ?sig) ?sig ?s =
      for_args (demarshal_arg (never_fails A) (count_arrays ?sig) ?buf) 0 (arg_count_for_signature ?sig) ?sig ?s \<or>
    (\<exists>t. for_args (demarshal_arg A (count_arrays ?sig) ?buf) 0 (arg_count_for_signature ?sig) ?sig ?s = Inl (Undefined, t)) \<and>
    (\<exists>k. A k = None)"
    by (auto simp: for_args_details count_arrays_details conn_ok_def)
  moreover have "ccount (wl_closure_clear_fds cl0) = arg_count_for_signature ?sig" "cargs (wl_closure_clear_fds cl0) = args"
    by (simp_all add: args(1)) (simp add: cl0_def)
  moreover let ?cl = "\<lambda>s. (wl_closure_clear_fds cl0)\<lparr>csender_id := load 4 0 ?buf, copcode := load 4 4 ?buf AND 0xffff, cargs := dargs s\<rparr>"
  have "wl_connection_demarshal mem B c sz objects message w =
      (if unat sz < 8 then Inl Undefined
       else case for_args (demarshal_arg B (count_arrays ?sig) ?buf) 0 (ccount (wl_closure_clear_fds cl0)) ?sig
           (?s\<lparr>dargs := cargs (wl_closure_clear_fds cl0)\<rparr>) of
         Inr s \<Rightarrow> Inr (Some (?cl s), wl_connection_consume (c\<lparr>fds_in := dfds s\<rparr>) (unat sz), dmap s, w)
       | Inl (Einval, s) \<Rightarrow> Inr (None, wl_connection_consume (c\<lparr>fds_in := dfds s\<rparr>) (unat sz), dmap s,
           (wl_closure_destroy (Some (?cl s)) w)\<lparr>errno := EINVAL\<rparr>)
       | Inl (e, s) \<Rightarrow> Inl e)" for B
    unfolding wl_connection_demarshal_def Inr r by (cases "unat sz < 8") (simp_all add: Let_def)
  ultimately show ?thesis by (cases "unat sz < 8") auto
qed (simp add: wl_connection_demarshal_def)

section \<open>Marshalling\<close>

text \<open>
  What a caller may pass for an argument: a value of the right type; a pointer to an object with an
  id, or null. Null values are judged by \<^verbatim>\<open>wl_closure_marshal\<close> itself.
\<close>

definition given :: "object_store \<Rightarrow> argument_details \<Rightarrow> wl_argument \<Rightarrow> bool" where
  "given objs d a \<longleftrightarrow> va_arg (atype d) a \<and> (case a of
     Arg_s (Some s) \<Rightarrow> 0 \<notin> set s \<and> length s + 1 < 2 ^ 32
   | Arg_a (Some a) \<Rightarrow> length a < 2 ^ 32
   | Arg_o p \<Rightarrow> p = 0 \<or> (\<exists>ob. objs p = Some ob \<and> obj_id ob \<noteq> 0)
   | _ \<Rightarrow> True)"

definition null_arg :: "argument_details \<Rightarrow> wl_argument \<Rightarrow> bool" where
  "null_arg d a \<longleftrightarrow> \<not> nullable d \<and> (a = Arg_s None \<or> a = Arg_a None \<or> a = Arg_o 0)"

definition is_fd :: "argument_details \<Rightarrow> bool" where
  "is_fd d \<longleftrightarrow> atype d = CHR ''h''"

text \<open>One argument: it is rejected when it is a forbidden null, and typed otherwise.\<close>

lemma marshal_arg_ok:
  assumes g: "given objs d (args ! i)" and d: "is_arg_char (atype d)"
    and c: "i < length cas" "\<not> is_fd d \<Longrightarrow> cas ! i = args ! i"
    and fds: "is_fd d \<Longrightarrow> dups w \<noteq> []" "\<forall>f \<in> set (dups w). 0 \<le> sint f"
  shows "if null_arg d (args ! i) then marshal_arg objs args i d (cas, w) = Inl (Einval, cas, w)
    else \<exists>a. marshal_arg objs args i d (cas, w) =
        Inr (cas[i := a], w\<lparr>dups := drop (length (arg_fds [a])) (dups w)\<rparr>) \<and>
      typed objs d a \<and> arg_fds [a] = take (length (arg_fds [a])) (dups w) \<and>
      length (arg_fds [a]) = (if is_fd d then 1 else 0)"
proof (cases "is_fd d")
  case True
  then obtain f where "args ! i = Arg_h f" "atype d = CHR ''h''"
    using g by (cases "args ! i") (auto simp: given_def va_arg_def is_fd_def)
  moreover obtain e es where "dups w = e # es" using fds(1) [OF True] by (cases "dups w") auto
  ultimately show ?thesis
    using True fds(2)
    by (auto simp: marshal_arg_def null_arg_def typed_def Let_def intro!: exI [of _ "Arg_h e"])
next
  case False
  have same: "cas[i := args ! i] = cas" using c False by (metis list_update_id)
  have w: "w\<lparr>dups := drop 0 (dups w)\<rparr> = w" by simp
  show ?thesis
  proof (cases "args ! i")
    case (Arg_o p)
    with g have t: "atype d = CHR ''o'' \<or> atype d = CHR ''n''" by (simp add: given_def va_arg_def)
    show ?thesis
    proof (cases "atype d = CHR ''o''")
      case True
      with Arg_o g False same show ?thesis
        by (auto simp: marshal_arg_def null_arg_def typed_def given_def va_arg_def Let_def
            intro!: exI [of _ "Arg_o p"])
    next
      case n: False
      with t have "atype d = CHR ''n''" by simp
      with Arg_o g False show ?thesis
        by (auto simp: marshal_arg_def null_arg_def typed_def given_def va_arg_def Let_def
            intro!: exI [of _ "Arg_n (object_id objs p)"] simp: object_id_def)
    qed
  next
    case (Arg_s x)
    with g False same show ?thesis
      by (auto simp: marshal_arg_def null_arg_def typed_def given_def va_arg_def Let_def is_fd_def
          intro!: exI [of _ "Arg_s x"] split: option.splits)
  next
    case (Arg_a x)
    with g False same show ?thesis
      by (auto simp: marshal_arg_def null_arg_def typed_def given_def va_arg_def Let_def is_fd_def
          intro!: exI [of _ "Arg_a x"] split: option.splits)
  next
    case (Arg_h x)
    with g False show ?thesis by (simp add: given_def va_arg_def is_fd_def)
  next
    case (Arg_n x)
    with g show ?thesis by (simp add: given_def va_arg_def)
  next
    case Arg_unset
    with g show ?thesis by (simp add: given_def va_arg_def)
  qed (use g False same in \<open>auto simp: marshal_arg_def null_arg_def typed_def given_def va_arg_def
        Let_def is_fd_def intro!: exI [of _ "args ! i"]\<close>)
qed

text \<open>The cells of a closure that \<^verbatim>\<open>wl_closure_init\<close> filled from the caller's arguments.\<close>

fun prepared :: "nat \<Rightarrow> argument_details list \<Rightarrow> wl_argument list \<Rightarrow> wl_argument list \<Rightarrow> bool" where
  "prepared i [] args cas \<longleftrightarrow> True"
| "prepared i (d # ds) args cas \<longleftrightarrow>
     cas ! i = (if is_fd d then Arg_h (-1) else args ! i) \<and> prepared (Suc i) ds args cas"

lemma prepared_update: "j < i \<Longrightarrow> prepared i ds args (cas[j := a]) = prepared i ds args cas"
  by (induction ds arbitrary: i) auto

lemma prepared_held:
  assumes "prepared i ds args cas" "list_all2 (given objs) ds as" "drop i args = as @ rest"
  shows "held_fds i ds cas = []"
  using assms(2,1,3)
proof (induction ds as arbitrary: i rule: list_all2_induct)
  case (Cons d ds a as)
  then have i: "args ! i = a" "drop (Suc i) args = as @ rest" using drop_eq_Cons by auto
  with Cons.prems(1) Cons.hyps(1) have "held_fd d (cas ! i) = []"
    by (auto simp: held_fd_def is_fd_def given_def va_arg_def split: wl_argument.splits)
  with Cons.IH [OF _ i(2)] Cons.prems(1) show ?case by simp
qed simp

abbreviation fd_count :: "argument_details list \<Rightarrow> nat" where
  "fd_count ds \<equiv> length (filter is_fd ds)"

fun has_null :: "argument_details list \<Rightarrow> wl_argument list \<Rightarrow> bool" where
  "has_null (d # ds) (a # as) \<longleftrightarrow> null_arg d a \<or> has_null ds as"
| "has_null _ _ \<longleftrightarrow> False"

lemma held_fd_typed: "typed objs d a \<Longrightarrow> \<forall>f \<in> set (arg_fds [a]). f \<noteq> -1 \<Longrightarrow> held_fd d a = arg_fds [a]"
  by (cases a) (auto simp: typed_def held_fd_def)

lemma marshal_args_ok:
  assumes "list_all2 (given objs) ds as" "drop i args = as @ rest" "\<forall>d \<in> set ds. is_arg_char (atype d)"
    "i + length ds \<le> length cas" "prepared i ds args cas"
    "fd_count ds \<le> length (dups w)" "\<forall>f \<in> set (dups w). 0 \<le> sint f"
  shows "if has_null ds as
    then \<exists>cas' k. efold (\<lambda>(j, d). marshal_arg objs args j d) (enumerate i ds) (cas, w) =
        Inl (Einval, cas', w\<lparr>dups := drop k (dups w)\<rparr>) \<and> length cas' = length cas \<and>
        (\<forall>j<i. cas' ! j = cas ! j) \<and> held_fds i ds cas' = take k (dups w)
    else \<exists>as'. efold (\<lambda>(j, d). marshal_arg objs args j d) (enumerate i ds) (cas, w) =
        Inr (take i cas @ as' @ drop (i + length as') cas, w\<lparr>dups := drop (fd_count ds) (dups w)\<rparr>) \<and>
        list_all2 (typed objs) ds as' \<and> arg_fds as' = take (fd_count ds) (dups w)"
  using assms
proof (induction ds as arbitrary: i cas w rule: list_all2_induct)
  case Nil
  then show ?case by simp
next
  case (Cons d ds a as)
  let ?run = "\<lambda>i. efold (\<lambda>(j, d). marshal_arg objs args j d) (enumerate i ds)"
  have i: "args ! i = a" "drop (Suc i) args = as @ rest" using Cons.prems(1) drop_eq_Cons by auto
  have step: "if null_arg d a then marshal_arg objs args i d (cas, w) = Inl (Einval, cas, w)
    else \<exists>b. marshal_arg objs args i d (cas, w) =
        Inr (cas[i := b], w\<lparr>dups := drop (length (arg_fds [b])) (dups w)\<rparr>) \<and>
      typed objs d b \<and> arg_fds [b] = take (length (arg_fds [b])) (dups w) \<and>
      length (arg_fds [b]) = (if is_fd d then 1 else 0)"
    using marshal_arg_ok [of objs d args i cas w] Cons.hyps(1) Cons.prems i(1) by fastforce
  show ?case
  proof (cases "null_arg d a")
    case True
    have "held_fds i (d # ds) cas = []"
      using Cons.hyps Cons.prems(1,4) by (intro prepared_held [of _ _ args _ objs "a # as" rest]) auto
    with True step show ?thesis by (auto intro!: exI [of _ 0])
  next
    case False
    with step obtain b where b: "marshal_arg objs args i d (cas, w) =
        Inr (cas[i := b], w\<lparr>dups := drop (length (arg_fds [b])) (dups w)\<rparr>)" "typed objs d b"
      "arg_fds [b] = take (length (arg_fds [b])) (dups w)"
      "length (arg_fds [b]) = (if is_fd d then 1 else 0)" by auto
    define n where "n = length (arg_fds [b])"
    define w1 where "w1 = w\<lparr>dups := drop n (dups w)\<rparr>"
    have n: "fd_count (d # ds) = n + fd_count ds" using b(4) by (simp add: n_def)
    have m1: "fd_count ds \<le> length (dups w1)" "\<forall>f \<in> set (dups w1). 0 \<le> sint f"
      using Cons.prems(5,6) n by (auto simp: w1_def dest: in_set_dropD)
    have p1: "prepared (Suc i) ds args (cas[i := b])" using Cons.prems(4) by (simp add: prepared_update)
    have run: "efold (\<lambda>(j, d). marshal_arg objs args j d) (enumerate i (d # ds)) (cas, w) =
        ?run (Suc i) (cas[i := b], w1)"
      using b(1) by (simp add: n_def w1_def)
    have fds: "arg_fds [b] = take n (dups w)" using b(3) by (simp add: n_def)
    note IH = Cons.IH [OF i(2) _ _ p1 m1]
    show ?thesis
    proof (cases "has_null ds as")
      case True
      with IH obtain cas' k where r: "?run (Suc i) (cas[i := b], w1) =
          Inl (Einval, cas', w1\<lparr>dups := drop k (dups w1)\<rparr>)" "length cas' = length cas"
        "\<forall>j<Suc i. cas' ! j = cas[i := b] ! j" "held_fds (Suc i) ds cas' = take k (dups w1)"
        using Cons.prems(2,3) by auto
      have "\<forall>f \<in> set (arg_fds [b]). f \<noteq> -1"
        using Cons.prems(6) fds by (auto dest!: in_set_takeD)
      then have "held_fd d (cas' ! i) = take n (dups w)"
        using r(3) Cons.prems(3) held_fd_typed [OF b(2)] fds by simp
      then have "held_fds i (d # ds) cas' = take (n + k) (dups w)"
        using r(4) by (simp add: w1_def take_add)
      moreover have "w1\<lparr>dups := drop k (dups w1)\<rparr> = w\<lparr>dups := drop (n + k) (dups w)\<rparr>"
        by (simp add: w1_def add.commute)
      ultimately show ?thesis
        unfolding run using True r(1-3) by (auto intro!: exI [of _ "n + k"])
    next
      case no: False
      with IH obtain as' where r: "?run (Suc i) (cas[i := b], w1) =
          Inr (take (Suc i) (cas[i := b]) @ as' @ drop (Suc i + length as') (cas[i := b]),
               w1\<lparr>dups := drop (fd_count ds) (dups w1)\<rparr>)"
        "list_all2 (typed objs) ds as'" "arg_fds as' = take (fd_count ds) (dups w1)"
        using Cons.prems(2,3) by auto
      have "take (Suc i) (cas[i := b]) @ as' @ drop (Suc i + length as') (cas[i := b]) =
          take i cas @ (b # as') @ drop (i + length (b # as')) cas"
        using Cons.prems(3) by (simp add: take_Suc_conv_app_nth drop_update_cancel)
      moreover have "w1\<lparr>dups := drop (fd_count ds) (dups w1)\<rparr> = w\<lparr>dups := drop (fd_count (d # ds)) (dups w)\<rparr>"
        unfolding n by (simp add: w1_def add.commute)
      moreover have "arg_fds (b # as') = take (fd_count (d # ds)) (dups w)"
        unfolding n arg_lists_Cons(1) [of b as'] fds r(3) by (simp add: w1_def take_add)
      ultimately show ?thesis
        unfolding run using False no r(1,2) b(2) by (intro if_not_P [THEN iffD2] exI [of _ "b # as'"]) auto
    qed
  qed
qed

lemma clear_fds_prepared:
  assumes "\<forall>j. i \<le> j \<and> j < i + length ds \<longrightarrow> cs ! j = args ! j" "i + length ds \<le> length cs"
  shows "\<exists>cas. efold (\<lambda>(j, d). clear_fd j d) (enumerate i ds) cs = Inr cas \<and>
    length cas = length cs \<and> (\<forall>j<i. cas ! j = cs ! j) \<and> prepared i ds args cas"
  using assms
proof (induction ds arbitrary: i cs)
  case (Cons d ds)
  let ?c = "if is_fd d then cs[i := Arg_h (-1)] else cs"
  have step: "clear_fd i d cs = Inr ?c" by (simp add: clear_fd_def is_fd_def)
  have pre: "\<forall>j. Suc i \<le> j \<and> j < Suc i + length ds \<longrightarrow> ?c ! j = args ! j" "Suc i + length ds \<le> length ?c"
    "length ?c = length cs"
    using Cons.prems by auto
  obtain cas where c: "efold (\<lambda>(j, d). clear_fd j d) (enumerate (Suc i) ds) ?c = Inr cas"
    "length cas = length cs" "\<forall>j<Suc i. cas ! j = ?c ! j" "prepared (Suc i) ds args cas"
    using Cons.IH [OF pre(1,2)] pre(3) by metis
  have "cas ! i = (if is_fd d then Arg_h (-1) else args ! i)" using c(3) Cons.prems by auto
  moreover have "\<forall>j<i. cas ! j = cs ! j" using c(3) by auto
  ultimately show ?case using c step by auto
qed simp

text \<open>
  A closure is made of the caller's arguments with fresh duplicates of the descriptors; a forbidden
  null value makes the call fail after the duplicates made so far were closed.
\<close>

lemma wl_closure_marshal_ok:
  assumes g: "list_all2 (given objs) (details (signature message)) as" and args: "args = as @ rest"
    and cnt: "arg_count_for_signature (signature message) \<le> WL_CLOSURE_MAX_ARGS"
    and fds: "fd_count (details (signature message)) \<le> length (dups w)" "\<forall>f \<in> set (dups w). 0 \<le> sint f"
  shows "if has_null (details (signature message)) as
    then \<exists>k. wl_closure_marshal True objs sender opcode args message w =
      Inr (None, w\<lparr>dups := drop k (dups w), closed := closed w @ take k (dups w), errno := EINVAL\<rparr>)
    else \<exists>cl. wl_closure_marshal True objs sender opcode args message w =
        Inr (Some cl, w\<lparr>dups := drop (fd_count (details (signature message))) (dups w)\<rparr>) \<and>
      closure_typed objs cl \<and> ccount cl \<le> WL_CLOSURE_MAX_ARGS \<and> cmessage cl = message \<and>
      csender_id cl = obj_id sender \<and> copcode cl = opcode \<and>
      arg_fds (take (ccount cl) (cargs cl)) = take (fd_count (details (signature message))) (dups w)"
proof -
  let ?sig = "signature message" let ?ds = "details ?sig" let ?n = "arg_count_for_signature ?sig"
  have len: "length as = ?n" using list_all2_lengthD [OF g] by simp
  define cs where "cs = take ?n args @ replicate (WL_CLOSURE_MAX_ARGS - ?n) Arg_unset"
  define cl0 where "cl0 = \<lparr>ccount = ?n, cmessage = message, copcode = 0, csender_id = 0, cargs = cs\<rparr>"
  have lc: "length cs = WL_CLOSURE_MAX_ARGS" using len cnt by (simp add: cs_def args)
  obtain cas where cas: "efold (\<lambda>(j, d). clear_fd j d) (enumerate 0 ?ds) cs = Inr cas"
    "length cas = WL_CLOSURE_MAX_ARGS" "prepared 0 ?ds args cas"
    using clear_fds_prepared [of 0 ?ds cs args] len lc cnt
    by (auto simp: cs_def args nth_append)
  have init: "wl_closure_init True message 0 (Some args) = Inr (cl0\<lparr>cargs := cas\<rparr>, None)"
    using cnt cas(1)
    by (simp add: wl_closure_init_def wl_closure_clear_fds_def for_args_details Let_def
        cl0_def cs_def)
  note run = marshal_args_ok [OF g _ _ _ cas(3) fds, of rest]
  note def = wl_closure_marshal_def [of True objs sender opcode args message w]
  show ?thesis
  proof (cases "has_null ?ds as")
    case True
    with run obtain cas' k where r: "efold (\<lambda>(j, d). marshal_arg objs args j d) (enumerate 0 ?ds) (cas, w) =
        Inl (Einval, cas', w\<lparr>dups := drop k (dups w)\<rparr>)" "held_fds 0 ?ds cas' = take k (dups w)"
      using details_type cas(2) cnt by (auto simp: args)
    have "wl_closure_destroy (Some (cl0\<lparr>cargs := cas'\<rparr>)) w' = w'\<lparr>closed := closed w' @ take k (dups w)\<rparr>" for w'
      using wl_closure_destroy_closes [of "cl0\<lparr>cargs := cas'\<rparr>" w'] r(2)
      by (simp add: cl0_def closure_fds_def)
    with r(1) True show ?thesis
      by (auto simp: def init for_args_details cl0_def)
  next
    case False
    with run obtain as' where r: "efold (\<lambda>(j, d). marshal_arg objs args j d) (enumerate 0 ?ds) (cas, w) =
        Inr (as' @ drop (length as') cas, w\<lparr>dups := drop (fd_count ?ds) (dups w)\<rparr>)"
      "list_all2 (typed objs) ?ds as'" "arg_fds as' = take (fd_count ?ds) (dups w)"
      using details_type cas(2) cnt by (auto simp: args)
    have l': "length as' = ?n" using list_all2_lengthD [OF r(2)] by simp
    let ?cl = "cl0\<lparr>cargs := as' @ drop (length as') cas, csender_id := obj_id sender, copcode := opcode\<rparr>"
    have "wl_closure_marshal True objs sender opcode args message w =
        Inr (Some ?cl, w\<lparr>dups := drop (fd_count ?ds) (dups w)\<rparr>)"
      using r(1) by (simp add: def init for_args_details cl0_def)
    moreover have "closure_typed objs ?cl"
      using r(2) l' by (simp add: closure_typed_def cl0_def)
    ultimately show ?thesis
      using False cnt r(3) l' by (auto simp: cl0_def)
  qed
qed

section \<open>Sending a closure\<close>

text \<open>Handing the descriptors to the connection leaves \<open>-1\<close> in the closure.\<close>

definition fd_moved :: "wl_argument \<Rightarrow> wl_argument" where
  "fd_moved a = (case a of Arg_h _ \<Rightarrow> Arg_h (-1) | _ \<Rightarrow> a)"

lemma fd_moved_simps [simp]:
  "typed objs d (fd_moved a) = typed objs d a" "wire_data objs (fd_moved a) = wire_data objs a"
  "arg_words (fd_moved a) = arg_words a"
  by (cases a; simp add: fd_moved_def typed_def wire_data_def arg_words_def)+

lemma wire_args_moved [simp]: "wire_args objs (map fd_moved as) bs = wire_args objs as bs"
  by (induction as arbitrary: bs) auto

lemma args_words_moved [simp]: "args_words (map fd_moved as) = args_words as"
  by (simp add: args_words_def comp_def)

lemma output_grown_queue:
  assumes "output_grown (c, w) bs fds (c', w')"
  shows "length (queued_fds (fds_out c')) \<le> length (queued_fds (fds_out c)) + length fds"
  using assms by (auto simp: output_grown_def fd_stream_def fds_released_def dest!: arg_cong [of _ _ length])

lemma output_grown_refl: "output_grown (c, w) [] [] (c, w)"
  by (simp add: output_grown_def same_input_def)

lemma copy_fds_loop_ok:
  assumes "list_all2 (typed objs) ds as" "details sig = ds" "drop i (cargs cl) = as @ rest"
    and "conn_ok c" "length (queued_fds (fds_out c)) + length (arg_fds as) \<le> 1024"
    and "copy_fds_loop i (length ds) sig cl c w = Some (cl', c', w', r)"
  shows "conn_ok c' \<and> (r = 0 \<or> r = -1) \<and> (r = 0 \<longrightarrow> output_grown (c, w) [] (arg_fds as) (c', w') \<and>
    cl' = cl\<lparr>cargs := take i (cargs cl) @ map fd_moved as @ rest\<rparr>)"
  using assms
proof (induction ds as arbitrary: i sig cl c w rule: list_all2_induct)
  case Nil
  then have "rest = drop i (cargs cl)" by simp
  with Nil show ?case by (auto simp: output_grown_refl append_take_drop_id)
next
  case (Cons d ds a as)
  obtain sg where sg: "get_next_argument sig = (d, sg)" "details sg = ds"
    using details_Cons [OF Cons.prems(1)] by auto
  have i: "cargs cl ! i = a" "drop (Suc i) (cargs cl) = as @ rest" "i < length (cargs cl)"
    using Cons.prems(2) drop_eq_Cons by auto
  have split: "take (Suc i) (cargs cl) = take i (cargs cl) @ [a]"
    using i by (simp add: take_Suc_conv_app_nth)
  show ?case
  proof (cases "is_fd d")
    case False
    then have "arg_fds (a # as) = arg_fds as" "fd_moved a = a"
      using Cons.hyps(1) by (cases a; simp add: typed_def fd_moved_def is_fd_def)+
    moreover have "copy_fds_loop (Suc i) (length ds) sg cl c w = Some (cl', c', w', r)"
      using Cons.prems(5) sg(1) False by (simp add: is_fd_def)
    ultimately show ?thesis
      using Cons.IH [OF sg(2) i(2) Cons.prems(3)] Cons.prems(4) split by (metis append.assoc append_Cons append_Nil list.simps(9))
  next
    case True
    then obtain fd where a: "a = Arg_h fd" using Cons.hyps(1) by (cases a) (auto simp: typed_def is_fd_def)
    let ?cl = "cl\<lparr>cargs := (cargs cl)[i := Arg_h (-1)]\<rparr>"
    obtain c1 w1 r1 where put: "wl_connection_put_fd c fd w = Some (c1, w1, r1)" and
      rest: "(if r1 \<noteq> 0 then Some (cl, c1, w1, -1)
              else copy_fds_loop (Suc i) (length ds) sg ?cl c1 w1) = Some (cl', c', w', r)"
      using Cons.prems(5) sg(1) True i(1) a by (auto simp: is_fd_def bind_eq_Some)
    have "length (queued_fds (fds_out c)) < 1024" using Cons.prems(4) by (simp add: a)
    note p = wl_connection_put_fd_ok [OF Cons.prems(3) put this]
    show ?thesis
    proof (cases "r1 = 0")
      case False
      with rest p(1) show ?thesis by auto
    next
      case ok: True
      have g: "output_grown (c, w) [] [fd] (c1, w1)" using p(2) ok by simp
      have q: "length (queued_fds (fds_out c1)) + length (arg_fds as) \<le> 1024"
        using output_grown_queue [OF g] Cons.prems(4) by (simp add: a)
      have dr: "drop (Suc i) (cargs ?cl) = as @ rest" using i by simp
      have run: "copy_fds_loop (Suc i) (length ds) sg ?cl c1 w1 = Some (cl', c', w', r)"
        using rest ok by simp
      note IH = Cons.IH [OF sg(2) dr p(1) q run]
      have "take (Suc i) (cargs ?cl) = take i (cargs cl) @ [Arg_h (-1)]"
        using i(3) by (simp add: take_Suc_conv_app_nth)
      then show ?thesis
        using IH output_grown_trans [OF g, of "[]" "arg_fds as" "(c', w')"]
        by (auto simp: a fd_moved_def)
    qed
  qed
qed

text \<open>
  A message goes out whole: its bytes are appended to the byte stream and its descriptors to the
  descriptor stream, and the closure no longer owns them.
\<close>

definition sent_closure ::
    "object_store \<Rightarrow> wl_closure \<Rightarrow> wl_connection \<times> os \<Rightarrow> wl_connection \<times> os \<Rightarrow> bool" where
  "sent_closure objs cl s s' \<longleftrightarrow> (\<exists>bs. message_bytes objs cl bs \<and>
     output_grown s bs (arg_fds (take (ccount cl) (cargs cl))) s')"

lemma closure_output_ok:
  assumes put: "\<And>c data w c' w' r. conn_ok c \<Longrightarrow> put c data w = Some (c', w', r) \<Longrightarrow>
      conn_ok c' \<and> output_grown (c, w) (if r < 0 then [] else data) [] (c', w') \<and> (r = 0 \<or> r = -1)"
    and A: "allocator_ok A" and ty: "closure_typed objs cl" and c: "conn_ok c"
    and sz: "4 * closure_words cl < 2 ^ 31"
    and q: "length (queued_fds (fds_out c)) + length (arg_fds (take (ccount cl) (cargs cl))) \<le> 1024"
    and run: "closure_output put A objs cl c w = Some (cl', c', w', r)"
  shows "conn_ok c' \<and> (r = 0 \<or> r = -1) \<and> (r = 0 \<longrightarrow> sent_closure objs cl (c, w) (c', w'))"
proof -
  let ?as = "take (ccount cl) (cargs cl)" let ?sig = "signature (cmessage cl)"
  obtain cl1 c1 w1 r1 where cp: "copy_fds_to_connection cl c w = Some (cl1, c1, w1, r1)"
    using run by (auto simp: closure_output_def bind_eq_Some)
  then have lp: "copy_fds_loop 0 (length (details ?sig)) ?sig cl c w = Some (cl1, c1, w1, r1)"
    by (simp add: copy_fds_to_connection_def Let_def)
  note f = copy_fds_loop_ok [OF closure_typed_args(1) [OF ty] refl closure_typed_args(2) [OF ty] c q lp]
  show ?thesis
  proof (cases "r1 = 0")
    case False
    with run cp f show ?thesis by (auto simp: closure_output_def)
  next
    case True
    with f have cl1: "cl1 = cl\<lparr>cargs := map fd_moved ?as @ drop (ccount cl) (cargs cl)\<rparr>"
      and g: "conn_ok c1" "output_grown (c, w) [] (arg_fds ?as) (c1, w1)" by auto
    have lenas: "length ?as = ccount cl" using ty by (simp add: closure_typed_def)
    have tk: "take (ccount cl) (cargs cl1) = map fd_moved ?as" using lenas by (simp add: cl1)
    have ty1: "closure_typed objs cl1" "closure_words cl1 = closure_words cl"
      "message_bytes objs cl1 = message_bytes objs cl"
      using ty tk by (auto simp: cl1 closure_typed_def closure_words_def message_bytes_def list_all2_map2 fun_eq_iff)
    have bsz: "buffer_size_for_closure cl1 = Inr (of_nat (closure_words cl))"
      using buffer_size_for_closure_ok [OF ty1(1)] ty1(2) by simp
    have un: "unat (of_nat (4 * closure_words cl) :: u32) = 4 * closure_words cl"
      "unat (ucast (of_nat (closure_words cl) :: u32) * 4 :: u64) = 4 * closure_words cl"
      using sz by (simp_all add: unat_of_nat unat_word_ariths unsigned_ucast_eq take_bit_nat_eq_self)
    show ?thesis
    proof (cases "A (ucast (of_nat (closure_words cl) :: u32) * 4)")
      case None
      with run cp True bsz g(1) show ?thesis by (simp add: closure_output_def)
    next
      case (Some buf)
      then have "length buf = 4 * closure_words cl1" using A un ty1(2) by (simp add: allocator_ok_def)
      from serialize_closure_ok [OF ty1(1) this] ty1(2,3) obtain buf' where
        ser: "serialize_closure objs cl1 buf = Inr (of_nat (4 * closure_words cl), buf')"
        "message_bytes objs cl buf'" by auto
      have lb: "length buf' = 4 * closure_words cl" using ser(2) by (simp add: message_bytes_def)
      have sg: "\<not> sint (of_nat (4 * closure_words cl) :: u32) < 0"
        using sz un(1) by (subst sint_u32_small) auto
      obtain c2 w2 r2 where pt: "put c1 buf' w1 = Some (c2, w2, r2)" "(c', w', r) = (c2, w2, r2)"
        using run cp True bsz Some ser(1) sg un(1) lb
        by (auto simp: closure_output_def bind_eq_Some simp del: of_nat_mult)
      note p = put [OF g(1) pt(1)]
      show ?thesis
        using p pt(2) ser(2) output_grown_trans [OF g(2), of buf' "[]"]
        by (auto simp: sent_closure_def)
    qed
  qed
qed

lemma zalloc_ok: "allocator_ok A \<Longrightarrow> allocator_ok (zalloc A)"
  by (auto simp: allocator_ok_def zalloc_def)

lemma wl_closure_send_ok:
  assumes "allocator_ok A" "closure_typed objs cl" "conn_ok c" "4 * closure_words cl < 2 ^ 31"
    "length (queued_fds (fds_out c)) + length (arg_fds (take (ccount cl) (cargs cl))) \<le> 1024"
    "wl_closure_send A objs cl c w = Some (cl', c', w', r)"
  shows "conn_ok c' \<and> (r = 0 \<or> r = -1) \<and> (r = 0 \<longrightarrow> sent_closure objs cl (c, w) (c', w'))"
  using assms(6) unfolding wl_closure_send_def
  by (rule closure_output_ok [OF _ zalloc_ok [OF assms(1)] assms(2-5), rotated])
    (blast dest: wl_connection_write_ok)

lemma wl_closure_queue_ok:
  assumes "allocator_ok A" "closure_typed objs cl" "conn_ok c" "4 * closure_words cl < 2 ^ 31"
    "length (queued_fds (fds_out c)) + length (arg_fds (take (ccount cl) (cargs cl))) \<le> 1024"
    "wl_closure_queue A objs cl c w = Some (cl', c', w', r)"
  shows "conn_ok c' \<and> (r = 0 \<or> r = -1) \<and> (r = 0 \<longrightarrow> sent_closure objs cl (c, w) (c', w'))"
  using assms(6) unfolding wl_closure_queue_def
  by (rule closure_output_ok [OF _ assms(1-5), rotated]) (blast dest: wl_connection_queue_ok)

section \<open>Resolving object ids and calling the listener\<close>

text \<open>A loop that treats the argument cells one by one treats each of them by its own step.\<close>

lemma efold_cells:
  assumes step: "\<And>j d args args'. body j d args = Inr args' \<Longrightarrow>
      length args' = length args \<and> (\<forall>l. l \<noteq> j \<longrightarrow> args' ! l = args ! l) \<and> R d j (args ! j) (args' ! j)"
    and "efold (\<lambda>(j, d). body j d) (enumerate i ds) args = Inr args'"
  shows "length args' = length args \<and> (\<forall>l<i. args' ! l = args ! l) \<and>
    (\<forall>k<length ds. R (ds ! k) (i + k) (args ! (i + k)) (args' ! (i + k)))"
  using assms(2)
proof (induction ds arbitrary: i args)
  case Nil
  then show ?case by simp
next
  case (Cons d ds)
  then obtain args1 where a: "body i d args = Inr args1"
    "efold (\<lambda>(j, d). body j d) (enumerate (Suc i) ds) args1 = Inr args'"
    by (auto simp: ebind_eq_Inr)
  note s = step [OF a(1)] and IH = Cons.IH [OF a(2)]
  have "R ((d # ds) ! k) (i + k) (args ! (i + k)) (args' ! (i + k))" if "k < length (d # ds)" for k
    using that s IH by (cases k) auto
  with s IH show ?case by auto
qed

definition resolved ::
    "object_store \<Rightarrow> wl_map \<Rightarrow> wl_message \<Rightarrow> argument_details \<Rightarrow> nat \<Rightarrow> wl_argument \<Rightarrow> wl_argument \<Rightarrow> bool" where
  "resolved objs objects message d i a a' \<longleftrightarrow>
     (if atype d \<noteq> CHR ''o'' then a' = a
      else \<exists>v p. a = Arg_n v \<and> a' = Arg_o p \<and>
        (if p = 0 then v = 0 \<or> wl_map_lookup objects v = Some 0 \<or> wl_object_is_zombie objects v = Some True
         else wl_map_lookup objects v = Some p \<and> wl_object_is_zombie objects v = Some False \<and>
           i < length (types message) \<and>
           (\<forall>t. types message ! i = Some t \<longrightarrow> (\<exists>ob. objs p = Some ob \<and> wl_interface_equal (interface ob) t))))"

lemma lookup_object_arg_ok:
  assumes "lookup_object_arg objs objects message i d args = Inr args'" "i < length args"
  shows "length args' = length args \<and> (\<forall>l. l \<noteq> i \<longrightarrow> args' ! l = args ! l) \<and>
    resolved objs objects message d i (args ! i) (args' ! i)"
proof (cases "atype d = CHR ''o''")
  case False
  with assms show ?thesis by (simp add: lookup_object_arg_def resolved_def)
next
  case True
  with assms(1) obtain v where v: "args ! i = Arg_n v"
    by (cases "args ! i") (simp_all add: lookup_object_arg_def)
  with True assms(1) obtain ob z where look: "wl_map_lookup objects v = Some ob"
    "wl_object_is_zombie objects v = Some z"
    by (cases "wl_map_lookup objects v"; cases "wl_object_is_zombie objects v")
      (simp_all add: lookup_object_arg_def Let_def)
  show ?thesis
  proof (cases "z \<or> ob = 0")
    case null: True
    with True assms v look have "args' = args[i := Arg_o 0]" "z \<or> v = 0 \<or> ob = 0"
      by (auto simp: lookup_object_arg_def Let_def split: if_splits)
    with True assms(2) v look show ?thesis by (auto simp: resolved_def)
  next
    case False
    with True assms(1) v look have i: "i < length (types message)"
      by (simp add: lookup_object_arg_def Let_def split: if_splits)
    have "args' = args[i := Arg_o ob] \<and>
        (\<forall>t. types message ! i = Some t \<longrightarrow> (\<exists>b. objs ob = Some b \<and> wl_interface_equal (interface b) t))"
      using False True assms(1) v look i
      by (auto simp: lookup_object_arg_def Let_def split: if_splits option.splits)
    with False True assms(2) v look i show ?thesis by (simp add: resolved_def)
  qed
qed

lemma wl_closure_lookup_objects_ok:
  assumes "wl_closure_lookup_objects objs cl objects = Inr (cl', 0)"
    and len: "arg_count_for_signature (signature (cmessage cl)) \<le> length (cargs cl)"
    and k: "k < arg_count_for_signature (signature (cmessage cl))"
  shows "resolved objs objects (cmessage cl) (details (signature (cmessage cl)) ! k) k
    (cargs cl ! k) (cargs cl' ! k)"
proof -
  let ?ds = "details (signature (cmessage cl))"
  let ?body = "\<lambda>j d args. if j < length args then lookup_object_arg objs objects (cmessage cl) j d args
    else Inl (Undefined, args)"
  obtain args where a: "efold (\<lambda>(j, d). lookup_object_arg objs objects (cmessage cl) j d)
      (enumerate 0 ?ds) (cargs cl) = Inr args" "cl' = cl\<lparr>cargs := args\<rparr>"
    using assms(1)
    by (auto simp: wl_closure_lookup_objects_def Let_def for_args_details split: sum.splits fault.splits)
  have same: "efold (\<lambda>(j, d). ?body j d) (enumerate i ds) xs =
      efold (\<lambda>(j, d). lookup_object_arg objs objects (cmessage cl) j d) (enumerate i ds) xs"
    if "i + length ds \<le> length xs" for i ds xs
    using that
  proof (induction ds arbitrary: i xs)
    case (Cons d ds)
    show ?case
    proof (cases "lookup_object_arg objs objects (cmessage cl) i d xs")
      case (Inr ys)
      then have "length ys = length xs" using lookup_object_arg_ok [OF Inr] Cons.prems by simp
      with Inr Cons show ?thesis by simp
    qed (use Cons.prems in simp)
  qed simp
  have fold: "efold (\<lambda>(j, d). ?body j d) (enumerate 0 ?ds) (cargs cl) = Inr args"
    using same [of 0 ?ds "cargs cl"] len a(1) by simp
  have "\<forall>k<length ?ds. resolved objs objects (cmessage cl) (?ds ! k) (0 + k) (cargs cl ! (0 + k)) (args ! (0 + k))"
  proof -
    have "length ys = length xs \<and> (\<forall>l. l \<noteq> j \<longrightarrow> ys ! l = xs ! l) \<and>
        resolved objs objects (cmessage cl) d j (xs ! j) (ys ! j)"
      if "?body j d xs = Inr ys" for j d xs ys
    proof -
      have "lookup_object_arg objs objects (cmessage cl) j d xs = Inr ys" "j < length xs"
        using that by (simp_all split: if_splits)
      then show ?thesis by (rule lookup_object_arg_ok)
    qed
    then have "length args = length (cargs cl) \<and> (\<forall>l<0. args ! l = cargs cl ! l) \<and>
        (\<forall>k<length ?ds. resolved objs objects (cmessage cl) (?ds ! k) (0 + k) (cargs cl ! (0 + k)) (args ! (0 + k)))"
      by (rule efold_cells [OF _ fold])
    then show ?thesis by blast
  qed
  with k a(2) show ?thesis by simp
qed

text \<open>The types handed to the foreign function interface, one per argument.\<close>

definition arg_ffi_type :: "u32 \<Rightarrow> argument_details \<Rightarrow> ffi_type" where
  "arg_ffi_type flags d =
     (if atype d \<in> set ''ifh'' then Ffi_sint32 else if atype d \<in> set ''soa'' then Ffi_pointer
      else if atype d = CHR ''n'' \<and> flags AND WL_CLOSURE_INVOKE_CLIENT \<noteq> 0 then Ffi_pointer
      else Ffi_uint32)"

lemma ffi_args_ok:
  assumes "\<forall>d \<in> set ds. is_arg_char (atype d)"
  shows "efold (\<lambda>(j, d). ffi_arg flags j d) (enumerate i ds) ts = Inr (ts @ map (arg_ffi_type flags) ds)"
  using assms
proof (induction ds arbitrary: i ts)
  case (Cons d ds)
  have "ffi_arg flags i d ts = Inr (ts @ [arg_ffi_type flags d])"
    using Cons.prems by (auto simp: ffi_arg_def arg_ffi_type_def is_arg_char_def Let_def)
  with Cons show ?case by simp
qed simp

lemma convert_arguments_to_ffi_ok:
  "convert_arguments_to_ffi sig flags (arg_count_for_signature sig) =
     Inr (map (arg_ffi_type flags) (details sig))"
  using ffi_args_ok [of "details sig" flags 0 "[]"] details_type
  by (auto simp: convert_arguments_to_ffi_def for_args_details)

lemma wl_closure_invoke_ok:
  assumes "ccount cl = arg_count_for_signature (signature (cmessage cl))" "ccount cl \<le> length (cargs cl)"
    and "opcode < length (implementation target)" "implementation target ! opcode"
  shows "\<exists>cl'. wl_closure_invoke cl flags target opcode = Inr
      (\<lparr>call_opcode = opcode,
        call_types = [Ffi_pointer, Ffi_pointer] @ map (arg_ffi_type flags) (details (signature (cmessage cl))),
        call_args = take (ccount cl) (cargs cl)\<rparr>, cl') \<and> closure_fds cl' = []"
proof -
  obtain args where "closure_fds (wl_closure_clear_fds cl) = []"
    by (rule wl_closure_clear_fds_ok [OF assms(1,2)])
  with assms show ?thesis
    by (simp add: wl_closure_invoke_def convert_arguments_to_ffi_ok Let_def)
qed

section \<open>Properties\<close>

text \<open>A connection that has received given bytes and descriptors.\<close>

lemma peer_connection:
  assumes "length bs \<le> BUFFER_SIZE" "length fds \<le> 1024"
  obtains c where "conn_ok c" "contents (inb c) = bs" "queued_fds (fds_in c) = fds"
proof -
  have e: "buffer_ok empty_buffer" "unat (wl_buffer_size empty_buffer) = 0"
    by (simp_all add: empty_buffer_def wl_buffer_size_def buffer_ok_def BUFFER_SIZE_def)
  obtain b where b: "buffer_ok b" "contents b = bs"
    using wl_buffer_put_ok [of empty_buffer bs] e assms(1) by auto
  let ?d = "concat (map (le_bytes 4) fds)"
  have w: "words32 ?d = fds" "length ?d = 4 * length fds" by (induction fds) simp_all
  have fit: "unat (wl_buffer_size empty_buffer) + length ?d \<le> BUFFER_SIZE" "4 dvd length ?d"
    using e(2) w(2) assms(2) by (simp_all add: BUFFER_SIZE_def)
  obtain f r where p: "wl_buffer_put empty_buffer ?d = (f, r)" by (cases "wl_buffer_put empty_buffer ?d")
  note fd = fdbuf_put [OF fdbuf_empty(1) fit p]
  show ?thesis
    using that [of "\<lparr>inb = b, out = empty_buffer, fds_in = f, fds_out = empty_buffer, cfd = 0, want_flush = False\<rparr>"]
      b fd w(1) by (simp add: conn_ok_def)
qed

text \<open>A closure for the witnesses: an integer, a string, an array and a descriptor.\<close>

definition sample_message :: wl_message where
  "sample_message = \<lparr>msg_name = ''sample'', signature = ''2us?ah'', types = [None, None, None, None]\<rparr>"

definition sample_closure :: wl_closure where
  "sample_closure = \<lparr>ccount = 4, cmessage = sample_message, copcode = 5, csender_id = 9,
     cargs = [Arg_u 7, Arg_s (Some [104, 105]), Arg_a (Some [1, 2, 3, 4, 5]), Arg_h 11]\<rparr>"

lemma sample_details [simp]:
  "details ''2us?ah'' = [\<lparr>atype = CHR ''u'', nullable = False\<rparr>, \<lparr>atype = CHR ''s'', nullable = False\<rparr>,
     \<lparr>atype = CHR ''a'', nullable = True\<rparr>, \<lparr>atype = CHR ''h'', nullable = False\<rparr>]"
  by (simp add: details_def is_arg_char_def)

lemma sample_closure_ok:
  "closure_typed objs sample_closure" "closure_words sample_closure = 8"
  "ccount sample_closure \<le> WL_CLOSURE_MAX_ARGS"
  by (simp_all add: closure_typed_def sample_closure_def sample_message_def typed_def is_arg_char_def
      closure_words_def arg_words_def DIV_ROUNDUP_def WL_CLOSURE_MAX_ARGS_def)

text \<open>
  C7: Serializing a closure and demarshalling the bytes on the other side gives back the sender, the
  opcode and every argument, objects as their ids; the message and its descriptors are
  consumed exactly, whatever follows them.
\<close>

theorem closure_roundtrip:
  assumes "closure_typed objs cl" "ccount cl \<le> WL_CLOSURE_MAX_ARGS" "4 * closure_words cl \<le> BUFFER_SIZE"
    and "length buf = 4 * closure_words cl" "serialize_closure objs cl buf = Inr (sz, bs)"
    and "conn_ok c" "contents (inb c) = bs @ rest"
    and "queued_fds (fds_in c) = arg_fds (take (ccount cl) (cargs cl)) @ fds"
    and "reserve_all A objects (arg_news (take (ccount cl) (cargs cl))) = Some objects'"
  shows "\<exists>cl' c'. wl_connection_demarshal True A c sz objects (cmessage cl) w =
      Inr (Some cl', c', objects', w) \<and>
    csender_id cl' = csender_id cl \<and> copcode cl' = copcode cl AND 0xffff \<and>
    take (ccount cl) (cargs cl') = map (received objs) (take (ccount cl) (cargs cl)) \<and>
    conn_ok c' \<and> contents (inb c') = rest \<and> queued_fds (fds_in c') = fds"
proof -
  have m: "sz = of_nat (4 * closure_words cl)" "message_bytes objs cl bs"
    using serialize_closure_ok [OF assms(1,4)] assms(5) by auto
  then have "sz = of_nat (length bs)" by (simp add: message_bytes_def)
  with demarshal_message_bytes [OF assms(1,2) m(2) assms(3,6,7,8,9), of w] show ?thesis by auto
qed

theorem closure_roundtrip_witness:
  "\<exists>bs c cl' c'. serialize_closure (\<lambda>_. None) sample_closure (replicate 32 0) = Inr (32, bs) \<and>
    contents (inb c) = bs \<and>
    wl_connection_demarshal True (\<lambda>_. None) c 32 (wl_map_init 1) sample_message quiet =
      Inr (Some cl', c', wl_map_init 1, quiet) \<and>
    take 4 (cargs cl') = [Arg_u 7, Arg_s (Some [104, 105]), Arg_a (Some [1, 2, 3, 4, 5]), Arg_h 11]"
proof -
  let ?o = "\<lambda>_ :: u64. None :: wl_object option"
  have sz: "4 * closure_words sample_closure = 32" by (simp add: sample_closure_ok(2))
  have lb: "length (replicate 32 (0 :: byte)) = 4 * closure_words sample_closure" unfolding sz by simp
  obtain bs where s: "serialize_closure ?o sample_closure (replicate 32 0) = Inr (32, bs)"
    "message_bytes ?o sample_closure bs"
    using serialize_closure_ok [OF sample_closure_ok(1) lb] unfolding sz by auto
  have len: "length bs \<le> BUFFER_SIZE" using s(2) by (simp add: message_bytes_def sz BUFFER_SIZE_def)
  obtain c where c: "conn_ok c" "contents (inb c) = bs" "queued_fds (fds_in c) = [11]"
    by (rule peer_connection [of bs "[11]"]) (use len in auto)
  have small: "4 * closure_words sample_closure \<le> BUFFER_SIZE" unfolding sz by (simp add: BUFFER_SIZE_def)
  have in': "contents (inb c) = bs @ []"
    "queued_fds (fds_in c) = arg_fds (take (ccount sample_closure) (cargs sample_closure)) @ []"
    "reserve_all (\<lambda>_. None) (wl_map_init 1) (arg_news (take (ccount sample_closure) (cargs sample_closure))) = Some (wl_map_init 1)"
    using c by (simp_all add: sample_closure_def)
  from closure_roundtrip [OF sample_closure_ok(1,3) small lb s(1) c(1) in', of quiet] s(1) c(2)
  show ?thesis
    by (fastforce simp: sample_closure_def received_def)
qed



text \<open>
  C33: Marshalling checks null values against the signature and duplicates every descriptor once. A
  forbidden null makes it fail with \<^verbatim>\<open>EINVAL\<close> after closing the duplicates made so far; otherwise
  the closure holds typed arguments, the sender's id, the opcode and exactly the duplicates.
\<close>

theorem marshal_complete:
  assumes "list_all2 (given objs) (details (signature message)) as"
    and "arg_count_for_signature (signature message) \<le> WL_CLOSURE_MAX_ARGS"
    and "fd_count (details (signature message)) \<le> length (dups w)" "\<forall>f \<in> set (dups w). 0 \<le> sint f"
  shows "if has_null (details (signature message)) as
    then \<exists>k. wl_closure_marshal True objs sender opcode (as @ rest) message w =
      Inr (None, w\<lparr>dups := drop k (dups w), closed := closed w @ take k (dups w), errno := EINVAL\<rparr>)
    else \<exists>cl. wl_closure_marshal True objs sender opcode (as @ rest) message w =
        Inr (Some cl, w\<lparr>dups := drop (fd_count (details (signature message))) (dups w)\<rparr>) \<and>
      closure_typed objs cl \<and> csender_id cl = obj_id sender \<and> copcode cl = opcode \<and>
      arg_fds (take (ccount cl) (cargs cl)) = take (fd_count (details (signature message))) (dups w)"
  using wl_closure_marshal_ok [OF assms(1) refl assms(2-4), where rest = rest and sender = sender and opcode = opcode]
  by (auto split: if_splits)

theorem marshal_complete_witness:
  "\<exists>cl. wl_closure_marshal True (\<lambda>_. None) \<lparr>interface = \<lparr>iname = ''i'', iversion = 1\<rparr>, implementation = [], obj_id = 9\<rparr> 5
      [Arg_u 7, Arg_s (Some [104, 105]), Arg_a None, Arg_h 11] sample_message (quiet\<lparr>dups := [40]\<rparr>) =
    Inr (Some cl, quiet) \<and> arg_fds (take (ccount cl) (cargs cl)) = [40]"
proof -
  have sm: "signature sample_message = ''2us?ah''" by (simp add: sample_message_def)
  have q: "quiet\<lparr>dups := []\<rparr> = quiet" by (simp add: quiet_def)
  show ?thesis
    using marshal_complete [of "\<lambda>_. None" sample_message "[Arg_u 7, Arg_s (Some [104, 105]), Arg_a None, Arg_h 11]"
        "quiet\<lparr>dups := [40]\<rparr>" _ 5 "[]"]
    unfolding sm by (auto simp: given_def va_arg_def null_arg_def is_fd_def is_arg_char_def
        WL_CLOSURE_MAX_ARGS_def q)
qed

text \<open>
  C35: The buffer the sender allocates has exactly the size of the message: serialization fills it to
  the last word, never past it, and the size it returns is the one in the message header.
\<close>

theorem serialize_fills_buffer:
  assumes "closure_typed objs cl" "closure_words cl < 2 ^ 30"
  shows "\<exists>n. buffer_size_for_closure cl = Inr n \<and> (\<forall>buf. length buf = 4 * unat n \<longrightarrow>
    (\<exists>bs. serialize_closure objs cl buf = Inr (4 * n, bs) \<and> length bs = 4 * unat n \<and>
      load 4 0 bs = csender_id cl \<and> load 4 4 bs = push_bit 16 (4 * n) OR (copcode cl AND 0xffff)))"
proof -
  have n: "unat (of_nat (closure_words cl) :: u32) = closure_words cl"
    using assms(2) by (simp add: unat_of_nat)
  have n4: "(of_nat (4 * closure_words cl) :: u32) = 4 * of_nat (closure_words cl)" by simp
  show ?thesis
    using buffer_size_for_closure_ok [OF assms(1)] serialize_closure_ok [OF assms(1)]
    by (auto simp: n message_bytes_def n4 simp del: of_nat_mult)
qed

theorem serialize_fills_buffer_witness:
  "\<exists>n. buffer_size_for_closure sample_closure = Inr n \<and>
    (\<forall>buf. length buf = 4 * unat n \<longrightarrow> (\<exists>bs. serialize_closure (\<lambda>_. None) sample_closure buf = Inr (4 * n, bs)))"
proof -
  have "closure_words sample_closure < 2 ^ 30" by (simp add: sample_closure_ok(2))
  from serialize_fills_buffer [OF sample_closure_ok(1) [of "\<lambda>_. None"] this] show ?thesis by blast
qed

text \<open>
  C20: A closure that is sent or queued successfully has appended one whole message to the byte stream
  and its descriptors, in order, to the descriptor stream; nothing of what was there before
  changed.
\<close>

theorem closure_sent_whole:
  assumes "allocator_ok A" "closure_typed objs cl" "conn_ok c" "4 * closure_words cl < 2 ^ 31"
    and "length (queued_fds (fds_out c)) + length (arg_fds (take (ccount cl) (cargs cl))) \<le> 1024"
    and "wl_closure_send A objs cl c w = Some (cl', c', w', 0) \<or> wl_closure_queue A objs cl c w = Some (cl', c', w', 0)"
  shows "\<exists>bs. conn_ok c' \<and> message_bytes objs cl bs \<and>
    sent w' @ contents (out c') = sent w @ contents (out c) @ bs \<and>
    sent_fds w' @ queued_fds (fds_out c') =
      sent_fds w @ queued_fds (fds_out c) @ arg_fds (take (ccount cl) (cargs cl))"
  using assms(6) wl_closure_send_ok [OF assms(1-5), of w cl' c' w' 0]
    wl_closure_queue_ok [OF assms(1-5), of w cl' c' w' 0]
  by (auto simp: sent_closure_def output_grown_def stream_def fd_stream_def)

definition plain_closure :: wl_closure where
  "plain_closure = \<lparr>ccount = 1, cmessage = \<lparr>msg_name = ''ping'', signature = ''u'', types = [None]\<rparr>,
     copcode = 0, csender_id = 2, cargs = [Arg_u 7]\<rparr>"

lemma plain_closure_ok: "closure_typed objs plain_closure" "closure_words plain_closure = 3"
  by (simp_all add: closure_typed_def plain_closure_def typed_def is_arg_char_def closure_words_def
      arg_words_def details_def)

lemma plain_closure_send:
  obtains c' where "wl_closure_send (\<lambda>n. Some (replicate (unat n) 1)) (\<lambda>_. None) plain_closure fresh_connection w =
      Some (plain_closure, c', w, 0)"
    "conn_ok c'" "length (contents (out c')) = 12" "want_flush c'"
proof -
  have sig: "signature (cmessage plain_closure) = ''u''" by (simp add: plain_closure_def)
  have cp: "copy_fds_to_connection plain_closure fresh_connection w =
      Some (plain_closure, fresh_connection, w, 0)"
    by (simp add: copy_fds_to_connection_def sig is_arg_char_def get_next_argument_def)
  have al: "zalloc (\<lambda>n. Some (replicate (unat n) 1)) 12 = Some (replicate 12 0)"
    by (simp add: zalloc_def)
  have sz: "4 * closure_words plain_closure = 12" by (simp add: plain_closure_ok(2))
  have bs: "buffer_size_for_closure plain_closure = Inr 3"
    using buffer_size_for_closure_ok [OF plain_closure_ok(1)] by (simp add: plain_closure_ok(2))
  have lb: "length (replicate 12 (0 :: byte)) = 4 * closure_words plain_closure" unfolding sz by simp
  obtain buf where ser: "serialize_closure (\<lambda>_. None) plain_closure (replicate 12 0) = Inr (12, buf)"
    "message_bytes (\<lambda>_. None) plain_closure buf"
    using serialize_closure_ok [OF plain_closure_ok(1) lb] unfolding sz by auto
  have len: "length buf = 12" using ser(2) by (simp add: message_bytes_def sz)
  obtain c' where c': "wl_connection_write fresh_connection buf w = Some (c', w, 0)" "conn_ok c'"
    "contents (out c') = buf" "want_flush c'"
    by (rule fresh_write [of buf w]) (simp_all add: len BUFFER_SIZE_def)
  have "sint (12 :: u32) = 12" by (subst sint_u32_small) simp_all
  with c'(1) have "wl_closure_send (\<lambda>n. Some (replicate (unat n) 1)) (\<lambda>_. None) plain_closure fresh_connection w =
      Some (plain_closure, c', w, 0)"
    by (simp add: wl_closure_send_def closure_output_def cp bs al ser(1) len)
  then show ?thesis using c'(2-4) len by (intro that) simp_all
qed

theorem closure_sent_whole_witness:
  "\<exists>c' bs. wl_closure_send (\<lambda>n. Some (replicate (unat n) 1)) (\<lambda>_. None) plain_closure fresh_connection quiet =
    Some (plain_closure, c', quiet, 0) \<and> message_bytes (\<lambda>_. None) plain_closure bs \<and> contents (out c') = bs"
proof -
  obtain c' where run: "wl_closure_send (\<lambda>n. Some (replicate (unat n) 1)) (\<lambda>_. None) plain_closure
      fresh_connection quiet = Some (plain_closure, c', quiet, 0)"
    by (rule plain_closure_send)
  have "4 * closure_words plain_closure < 2 ^ 31"
    "length (queued_fds (fds_out fresh_connection)) +
       length (arg_fds (take (ccount plain_closure) (cargs plain_closure))) \<le> 1024"
    "allocator_ok (\<lambda>n. Some (replicate (unat n) 1))"
    by (simp_all add: plain_closure_ok(2) allocator_ok_def) (simp add: plain_closure_def)
  from closure_sent_whole [OF this(3) plain_closure_ok(1) fresh_connection_ok(1) this(1,2) disjI1 [OF run]] run
  show ?thesis by (auto simp: quiet_def)
qed

text \<open>
  After a successful lookup every object argument is the object its id names, with the interface
  the message declares for that position, or null for the id 0 and for objects the client has
  already destroyed; the other arguments are untouched.
\<close>

theorem lookup_resolves_ids:
  assumes "wl_closure_lookup_objects objs cl objects = Inr (cl', 0)"
    and "arg_count_for_signature (signature (cmessage cl)) \<le> length (cargs cl)"
    and "k < arg_count_for_signature (signature (cmessage cl))"
  shows "resolved objs objects (cmessage cl) (details (signature (cmessage cl)) ! k) k
    (cargs cl ! k) (cargs cl' ! k)"
  using assms by (rule wl_closure_lookup_objects_ok)

theorem lookup_resolves_ids_witness:
  "\<exists>cl'. wl_closure_lookup_objects (\<lambda>_. None)
      \<lparr>ccount = 1, cmessage = \<lparr>msg_name = ''m'', signature = ''?o'', types = [None]\<rparr>, copcode = 0,
       csender_id = 1, cargs = [Arg_n 0]\<rparr> (wl_map_init WL_MAP_SERVER_SIDE) = Inr (cl', 0) \<and>
    cargs cl' ! 0 = Arg_o 0"
proof -
  let ?m = "\<lparr>msg_name = ''m'', signature = ''?o'', types = [None]\<rparr>"
  let ?cl = "\<lparr>ccount = 1, cmessage = ?m, copcode = 0, csender_id = 1, cargs = [Arg_n 0]\<rparr>"
  have det: "details ''?o'' = [\<lparr>atype = CHR ''o'', nullable = True\<rparr>]"
    by (simp add: details_def is_arg_char_def)
  have run: "wl_closure_lookup_objects (\<lambda>_. None) ?cl (wl_map_init WL_MAP_SERVER_SIDE) =
      Inr (?cl\<lparr>cargs := [Arg_o 0]\<rparr>, 0)"
    by (simp add: wl_closure_lookup_objects_def for_args_details det lookup_object_arg_def wl_map_lookup_def
        wl_object_is_zombie_def wl_map_init_def entries_of_def wl_array_init_def WL_SERVER_ID_START_def Let_def)
  from lookup_resolves_ids [OF run, of 0] run show ?thesis
    by (simp add: is_arg_char_def det resolved_def)
qed

text \<open>
  A listener is called with one parameter per argument of the signature after the two fixed
  pointers, each of the width and kind the signature gives it, and afterwards the closure owns no
  descriptor, so the ones passed on are not closed a second time.
\<close>

theorem invoke_matches_signature:
  assumes "ccount cl = arg_count_for_signature (signature (cmessage cl))" "ccount cl \<le> length (cargs cl)"
    and "opcode < length (implementation target)" "implementation target ! opcode"
  shows "\<exists>call cl'. wl_closure_invoke cl flags target opcode = Inr (call, cl') \<and>
    call_opcode call = opcode \<and> call_args call = take (ccount cl) (cargs cl) \<and>
    call_types call = [Ffi_pointer, Ffi_pointer] @ map (arg_ffi_type flags) (details (signature (cmessage cl))) \<and>
    length (call_types call) = ccount cl + 2 \<and> closure_fds cl' = []"
  using wl_closure_invoke_ok [OF assms, of flags] assms(1) by auto

theorem invoke_matches_signature_witness:
  "\<exists>call cl'. wl_closure_invoke sample_closure 0
      \<lparr>interface = \<lparr>iname = ''i'', iversion = 1\<rparr>, implementation = [True], obj_id = 9\<rparr> 0 = Inr (call, cl') \<and>
    call_types call = [Ffi_pointer, Ffi_pointer, Ffi_uint32, Ffi_pointer, Ffi_pointer, Ffi_sint32]"
  using invoke_matches_signature [of sample_closure 0
      "\<lparr>interface = \<lparr>iname = ''i'', iversion = 1\<rparr>, implementation = [True], obj_id = 9\<rparr>" 0]
  by (auto simp: sample_closure_def sample_message_def is_arg_char_def arg_ffi_type_def)

text \<open>
  The bounds check of \<^verbatim>\<open>wl_connection_demarshal\<close> rounds the length up in \<^verbatim>\<open>size_t\<close>. With the 64-bit
  one it is exact. Where \<^verbatim>\<open>size_t\<close> has 32 bits the sum wraps: lengths from \<open>2 ^ 32 - 3\<close> on count as
  no words at all and pass the check.
\<close>

lemma div_roundup_wraps:
  fixes n :: u32
  shows "(0xfffffffd \<le> n \<longrightarrow> DIV_ROUNDUP_ilp32 n 4 = 0) \<and>
   unat n \<le> 4 * DIV_ROUNDUP (unat n) 4 \<and> 4 * DIV_ROUNDUP (unat n) 4 < unat n + 4"
proof -
  have "DIV_ROUNDUP_ilp32 n 4 = 0" if "0xfffffffd \<le> n"
  proof -
    have "unat n \<ge> 0xfffffffd" using that by (simp add: word_le_nat_alt)
    then obtain k where k: "unat n = 0xfffffffd + k" using le_Suc_ex by blast
    then have "k < 3" using unat_u32_less [of n] by linarith
    then have "unat (n + 3) < 4" by (simp add: unat_word_ariths k)
    then have "unat ((n + 3) div 4) = 0" by (simp add: unat_div)
    then show ?thesis by (simp add: DIV_ROUNDUP_ilp32_def word_unat_eq_iff)
  qed
  then show ?thesis using DIV_ROUNDUP_bounds by blast
qed

end
