(* ===== verification/Wl_Signal.thy ===== *)
theory Wl_Signal
  imports Prelude
begin

text \<open>
  The signals of libwayland: \<^verbatim>\<open>wl_signal\<close> of \<^verbatim>\<open>wayland-server-core.h\<close> and \<^verbatim>\<open>wl_priv_signal\<close> of
  \<^verbatim>\<open>wayland-server.c\<close>. A signal is a list of listeners, known by their addresses. A listener may do
  anything to the program's state, the signal included, so emitting is written over an arbitrary
  state \<open>'s\<close> in which the signal is stored: \<open>get\<close> reads it, \<open>None\<close> when its memory has been freed,
  \<open>put\<close> writes it. The results are \<open>None\<close> when a listener or the emission itself crashes or never
  returns.
\<close>

section \<open>Events of a descriptor\<close>

definition WL_EVENT_READABLE :: u32 where "WL_EVENT_READABLE = 1"
definition WL_EVENT_WRITABLE :: u32 where "WL_EVENT_WRITABLE = 2"
definition WL_EVENT_HANGUP :: u32 where "WL_EVENT_HANGUP = 4"
definition WL_EVENT_ERROR :: u32 where "WL_EVENT_ERROR = 8"

section \<open>Iteration safe against removal\<close>

text \<open>
  The macro \<^verbatim>\<open>wl_list_for_each_safe\<close>: the position after the current one is fetched before the
  body runs. \<^verbatim>\<open>wl_list_remove\<close> clears the links of the removed element, so the successor of an
  element that is not in the list is a null pointer.
\<close>

datatype list_pos = Head | Node u64 | Null

definition next_pos :: "u64 list \<Rightarrow> list_pos \<Rightarrow> list_pos" where
  "next_pos xs pos = (case pos of
     Head \<Rightarrow> (case xs of [] \<Rightarrow> Head | x # _ \<Rightarrow> Node x)
   | Node l \<Rightarrow> (case dropWhile (\<lambda>x. x \<noteq> l) xs of [] \<Rightarrow> Null | [_] \<Rightarrow> Head | _ # y # _ \<Rightarrow> Node y)
   | Null \<Rightarrow> Null)"

partial_function (option) for_each_safe_loop ::
    "('s \<Rightarrow> u64 list option) \<Rightarrow> (u64 \<Rightarrow> 's \<Rightarrow> 's option) \<Rightarrow> list_pos \<Rightarrow> list_pos \<Rightarrow> 's \<Rightarrow> 's option" where
  "for_each_safe_loop get body pos tmp s =
     (case pos of
        Head \<Rightarrow> Some s
      | Null \<Rightarrow> None
      | Node l \<Rightarrow> do {
          s \<leftarrow> body l s;
          xs \<leftarrow> get s;
          for_each_safe_loop get body tmp (next_pos xs tmp) s
        })"

definition wl_list_for_each_safe ::
    "('s \<Rightarrow> u64 list option) \<Rightarrow> (u64 \<Rightarrow> 's \<Rightarrow> 's option) \<Rightarrow> 's \<Rightarrow> 's option" where
  "wl_list_for_each_safe get body s = do {
     xs \<leftarrow> get s;
     let pos = next_pos xs Head;
     for_each_safe_loop get body pos (next_pos xs pos) s
   }"

section \<open>Signals\<close>

text \<open>\<^verbatim>\<open>struct wl_signal\<close> is its list of listeners.\<close>

definition wl_signal_init :: "u64 list" where
  "wl_signal_init = []"

definition wl_signal_add :: "u64 list \<Rightarrow> u64 \<Rightarrow> u64 list" where
  "wl_signal_add sg listener = sg @ [listener]"

definition wl_signal_get :: "(u64 \<Rightarrow> nat) \<Rightarrow> u64 list \<Rightarrow> nat \<Rightarrow> u64 option" where
  "wl_signal_get notify_of sg notify = find (\<lambda>l. notify_of l = notify) sg"

definition wl_signal_emit ::
    "('s \<Rightarrow> u64 list option) \<Rightarrow> (u64 \<Rightarrow> 's \<Rightarrow> 's option) \<Rightarrow> 's \<Rightarrow> 's option" where
  "wl_signal_emit get notify = wl_list_for_each_safe get notify"

record wl_priv_signal =
  listener_list :: "u64 list"
  emit_list :: "u64 list"

definition wl_priv_signal_init :: wl_priv_signal where
  "wl_priv_signal_init = \<lparr>listener_list = [], emit_list = []\<rparr>"

definition wl_priv_signal_add :: "wl_priv_signal \<Rightarrow> u64 \<Rightarrow> wl_priv_signal" where
  "wl_priv_signal_add sg listener = sg\<lparr>listener_list := listener_list sg @ [listener]\<rparr>"

definition wl_priv_signal_get :: "(u64 \<Rightarrow> nat) \<Rightarrow> wl_priv_signal \<Rightarrow> nat \<Rightarrow> u64 option" where
  "wl_priv_signal_get notify_of sg notify =
     (case find (\<lambda>l. notify_of l = notify) (listener_list sg) of
        Some l \<Rightarrow> Some l
      | None \<Rightarrow> find (\<lambda>l. notify_of l = notify) (emit_list sg))"

partial_function (option) priv_emit_loop ::
    "('s \<Rightarrow> wl_priv_signal option) \<Rightarrow> (wl_priv_signal \<Rightarrow> 's \<Rightarrow> 's) \<Rightarrow> (u64 \<Rightarrow> 's \<Rightarrow> 's option) \<Rightarrow> 's \<Rightarrow> 's option" where
  "priv_emit_loop get put notify s = do {
     sg \<leftarrow> get s;
     (case emit_list sg of
        [] \<Rightarrow> Some s
      | l # ls \<Rightarrow> do {
          s \<leftarrow> notify l (put \<lparr>listener_list = l # listener_list sg, emit_list = ls\<rparr> s);
          priv_emit_loop get put notify s
        })
   }"

definition wl_priv_signal_emit ::
    "('s \<Rightarrow> wl_priv_signal option) \<Rightarrow> (wl_priv_signal \<Rightarrow> 's \<Rightarrow> 's) \<Rightarrow> (u64 \<Rightarrow> 's \<Rightarrow> 's option) \<Rightarrow> 's \<Rightarrow> 's option" where
  "wl_priv_signal_emit get put notify s = do {
     sg \<leftarrow> get s;
     let s = put \<lparr>listener_list = [], emit_list = listener_list sg @ emit_list sg\<rparr> s;
     priv_emit_loop get put notify s
   }"

lemma priv_signal_get_added:
  assumes "\<forall>k \<in> set (listener_list sg). notify_of k \<noteq> notify_of l"
  shows "wl_priv_signal_get notify_of (wl_priv_signal_add sg l) (notify_of l) = Some l"
proof -
  have "find (\<lambda>k. notify_of k = notify_of l) (xs @ [l]) = Some l"
    if "\<forall>k \<in> set xs. notify_of k \<noteq> notify_of l" for xs
    using that by (induction xs) auto
  then show ?thesis using assms by (simp add: wl_priv_signal_get_def wl_priv_signal_add_def)
qed

text \<open>
  Whatever relation between states the single steps of an emission or a traversal respect, the
  whole of it respects.
\<close>

lemma for_each_safe_rel:
  assumes "wl_list_for_each_safe get body s = Some s'"
    and "\<And>l s t. body l s = Some t \<Longrightarrow> R s t" and "\<And>s. R s s" "\<And>s t u. R s t \<Longrightarrow> R t u \<Longrightarrow> R s u"
  shows "R s s'"
proof -
  have "b = body \<longrightarrow> R s s'" if "for_each_safe_loop g b pos tmp s = Some s'" for g b pos tmp s s'
    using that
  proof (induction rule: for_each_safe_loop.raw_induct [rotated, consumes 1])
    case (1 loop g b pos tmp s s')
    show ?case
    proof (cases pos)
      case (Node l)
      with 1(2) obtain t xs where t: "b l s = Some t" "loop g b tmp (next_pos xs tmp) t = Some s'"
        by (auto simp: bind_eq_Some)
      with assms(2,4) 1(1) [OF t(2)] show ?thesis by blast
    qed (use 1(2) assms(3) in auto)
  qed
  then show ?thesis using assms(1) by (auto simp: wl_list_for_each_safe_def bind_eq_Some Let_def)
qed

lemma priv_emit_rel:
  assumes "wl_priv_signal_emit get put notify s = Some s'"
    and "\<And>l s t. notify l s = Some t \<Longrightarrow> R s t" "\<And>sg s. R s (put sg s)"
    and "\<And>s. R s s" "\<And>s t u. R s t \<Longrightarrow> R t u \<Longrightarrow> R s u"
  shows "R s s'"
proof -
  have "p = put \<and> n = notify \<longrightarrow> R s s'" if "priv_emit_loop g p n s = Some s'" for g p n s s'
    using that
  proof (induction rule: priv_emit_loop.raw_induct [rotated, consumes 1])
    case (1 loop g p n s s')
    then obtain sg where sg: "g s = Some sg" by (auto simp: bind_eq_Some)
    show ?case
    proof (cases "emit_list sg")
      case Nil
      with 1(2) sg assms(4) show ?thesis by simp
    next
      case (Cons l ls)
      let ?s = "p \<lparr>listener_list = l # listener_list sg, emit_list = ls\<rparr> s"
      obtain t where t: "n l ?s = Some t" "loop g p n t = Some s'"
        using 1(2) sg Cons by (auto simp: bind_eq_Some)
      with assms(2,3,5) 1(1) [OF t(2)] show ?thesis by blast
    qed
  qed
  moreover obtain sg :: wl_priv_signal where "priv_emit_loop get put notify
      (put \<lparr>listener_list = [], emit_list = listener_list sg @ emit_list sg\<rparr> s) = Some s'"
    using assms(1) by (auto simp: wl_priv_signal_emit_def bind_eq_Some Let_def)
  ultimately show ?thesis using assms(3,5) by blast
qed

section \<open>Emission with listeners that remove listeners\<close>

text \<open>
  \<open>R l\<close> are the listeners that the notification of \<open>l\<close> takes off the signal. \<open>visit\<close> is the
  specification of an emission: whoever is still registered when its turn comes is notified, once.
\<close>

fun visit :: "('l \<Rightarrow> 'l list) \<Rightarrow> 'l list \<Rightarrow> 'l list" where
  "visit R [] = []"
| "visit R (l # ls) = l # visit R (filter (\<lambda>k. k \<notin> set (R l)) ls)"

fun left_over :: "('l \<Rightarrow> 'l list) \<Rightarrow> 'l list \<Rightarrow> 'l list \<Rightarrow> 'l list" where
  "left_over R acc [] = acc"
| "left_over R acc (l # ls) =
     left_over R (filter (\<lambda>k. k \<notin> set (R l)) (l # acc)) (filter (\<lambda>k. k \<notin> set (R l)) ls)"

definition without :: "u64 list \<Rightarrow> wl_priv_signal \<Rightarrow> wl_priv_signal" where
  "without rs sg = \<lparr>listener_list = filter (\<lambda>k. k \<notin> set rs) (listener_list sg),
     emit_list = filter (\<lambda>k. k \<notin> set rs) (emit_list sg)\<rparr>"

lemma visit_nothing_removed: "(\<And>l. l \<in> set ls \<Longrightarrow> R l = []) \<Longrightarrow> visit R ls = ls"
  by (induction R ls rule: visit.induct) auto

lemma left_over_nothing_removed: "(\<And>l. l \<in> set ls \<Longrightarrow> R l = []) \<Longrightarrow> left_over R acc ls = rev ls @ acc"
  by (induction R acc ls rule: left_over.induct) auto

lemma visit_subset: "set (visit R ls) \<subseteq> set ls"
  by (induction R ls rule: visit.induct) fastforce+

lemma visit_distinct: "distinct ls \<Longrightarrow> distinct (visit R ls)"
proof (induction R ls rule: visit.induct)
  case (2 R l ls)
  then show ?case using visit_subset [of R "filter (\<lambda>k. k \<notin> set (R l)) ls"] by auto
qed simp

text \<open>
  Where a signal is stored: what was written is read back, as long as the memory is not freed.
\<close>

locale signal_store =
  fixes get :: "'s \<Rightarrow> wl_priv_signal option"
    and put :: "wl_priv_signal \<Rightarrow> 's \<Rightarrow> 's"
  assumes get_put: "get s \<noteq> None \<Longrightarrow> get (put sg s) = Some sg"
begin

lemma emit_loop_visits:
  assumes notify: "\<And>l t sg. get t = Some sg \<Longrightarrow>
      \<exists>t'. notify l t = Some t' \<and> get t' = Some (without (R l) sg) \<and> trace t' = trace t @ [l]"
    and put: "\<And>sg t. trace (put sg t) = trace t"
    and s: "get s = Some \<lparr>listener_list = acc, emit_list = ls\<rparr>"
  shows "\<exists>s'. priv_emit_loop get put notify s = Some s' \<and> trace s' = trace s @ visit R ls \<and>
    get s' = Some \<lparr>listener_list = left_over R acc ls, emit_list = []\<rparr>"
  using s
proof (induction ls arbitrary: acc s rule: length_induct)
  case (1 ls)
  show ?case
  proof (cases ls)
    case Nil
    with 1(2) show ?thesis by (subst priv_emit_loop.simps) simp
  next
    case (Cons l ks)
    let ?s = "put \<lparr>listener_list = l # acc, emit_list = ks\<rparr> s"
    let ?f = "filter (\<lambda>k. k \<notin> set (R l))"
    have "get ?s = Some \<lparr>listener_list = l # acc, emit_list = ks\<rparr>"
      using 1(2) by (simp add: get_put)
    then obtain t where t: "notify l ?s = Some t" "trace t = trace s @ [l]"
      "get t = Some \<lparr>listener_list = ?f (l # acc), emit_list = ?f ks\<rparr>"
      using notify [of ?s _ l] by (force simp: without_def put)
    have "length (?f ks) < length ls" using Cons by (simp add: less_Suc_eq_le)
    with 1(1) t(3) have "\<exists>s'. priv_emit_loop get put notify t = Some s' \<and>
        trace s' = trace t @ visit R (?f ks) \<and>
        get s' = Some \<lparr>listener_list = left_over R (?f (l # acc)) (?f ks), emit_list = []\<rparr>"
      by blast
    with t(1,2) 1(2) Cons show ?thesis by (subst priv_emit_loop.simps) simp
  qed
qed

lemma emit_visits:
  assumes notify: "\<And>l t sg. get t = Some sg \<Longrightarrow>
      \<exists>t'. notify l t = Some t' \<and> get t' = Some (without (R l) sg) \<and> trace t' = trace t @ [l]"
    and put: "\<And>sg t. trace (put sg t) = trace t"
    and s: "get s = Some sg"
  shows "\<exists>s'. wl_priv_signal_emit get put notify s = Some s' \<and>
    trace s' = trace s @ visit R (listener_list sg @ emit_list sg) \<and>
    get s' = Some \<lparr>listener_list = left_over R [] (listener_list sg @ emit_list sg), emit_list = []\<rparr>"
proof -
  let ?s = "put \<lparr>listener_list = [], emit_list = listener_list sg @ emit_list sg\<rparr> s"
  have "get ?s = Some \<lparr>listener_list = [], emit_list = listener_list sg @ emit_list sg\<rparr>"
    using s by (simp add: get_put)
  from emit_loop_visits [where R = R and trace = trace, OF notify put this]
  show ?thesis using s put by (simp add: wl_priv_signal_emit_def)
qed

lemma emit_nobody:
  assumes "get s = Some \<lparr>listener_list = [], emit_list = []\<rparr>"
  shows "wl_priv_signal_emit get put notify s = Some (put \<lparr>listener_list = [], emit_list = []\<rparr> s)"
  using assms get_put [of s] by (simp add: wl_priv_signal_emit_def priv_emit_loop.simps)

end

end
