(* ===== verification/Wl_Server.thy ===== *)
theory Wl_Server
  imports Wl_Closure Wl_Signal
begin

text \<open>
  The server side of libwayland, \<^verbatim>\<open>wayland-server.c\<close>: clients, their resources, the globals and the
  registry, the dispatch of requests and the events sent. Structures live in explicit stores by
  address; an access to a structure that has been freed, a null pointer, an \<^verbatim>\<open>abort\<close> and a call that
  never returns make the result \<open>None\<close>. The intrusive lists are the lists of the addresses
  of their elements. The code of the compositor (request handlers, bind functions, destructors,
  listeners) is an argument: state transformers of the whole server, whose own state is the
  field \<open>user\<close>.
\<close>

section \<open>Interfaces\<close>

text \<open>\<^verbatim>\<open>struct wl_interface\<close> with the tables of its messages.\<close>

record interface_spec =
  ispec :: wl_interface
  methods :: "wl_message list"
  events :: "wl_message list"

definition wl_callback_interface :: interface_spec where
  "wl_callback_interface = \<lparr>ispec = \<lparr>iname = ''wl_callback'', iversion = 1\<rparr>, methods = [],
     events = [\<lparr>msg_name = ''done'', signature = ''u'', types = [None]\<rparr>]\<rparr>"

definition wl_registry_interface :: interface_spec where
  "wl_registry_interface = \<lparr>ispec = \<lparr>iname = ''wl_registry'', iversion = 1\<rparr>,
     methods = [\<lparr>msg_name = ''bind'', signature = ''usun'', types = [None, None, None, None]\<rparr>],
     events = [\<lparr>msg_name = ''global'', signature = ''usu'', types = [None, None, None]\<rparr>,
               \<lparr>msg_name = ''global_remove'', signature = ''u'', types = [None]\<rparr>]\<rparr>"

definition wl_display_interface :: interface_spec where
  "wl_display_interface = \<lparr>ispec = \<lparr>iname = ''wl_display'', iversion = 1\<rparr>,
     methods = [\<lparr>msg_name = ''sync'', signature = ''n'', types = [Some (ispec wl_callback_interface)]\<rparr>,
                \<lparr>msg_name = ''get_registry'', signature = ''n'', types = [Some (ispec wl_registry_interface)]\<rparr>],
     events = [\<lparr>msg_name = ''error'', signature = ''ous'', types = [None, None, None]\<rparr>,
               \<lparr>msg_name = ''delete_id'', signature = ''u'', types = [None]\<rparr>]\<rparr>"

definition WL_DISPLAY_ERROR :: u32 where "WL_DISPLAY_ERROR = 0"
definition WL_DISPLAY_DELETE_ID :: u32 where "WL_DISPLAY_DELETE_ID = 1"
definition WL_REGISTRY_GLOBAL :: u32 where "WL_REGISTRY_GLOBAL = 0"
definition WL_REGISTRY_GLOBAL_REMOVE :: u32 where "WL_REGISTRY_GLOBAL_REMOVE = 1"
definition WL_CALLBACK_DONE :: u32 where "WL_CALLBACK_DONE = 0"
definition WL_DISPLAY_ERROR_INVALID_OBJECT :: u32 where "WL_DISPLAY_ERROR_INVALID_OBJECT = 0"
definition WL_DISPLAY_ERROR_INVALID_METHOD :: u32 where "WL_DISPLAY_ERROR_INVALID_METHOD = 1"
definition WL_DISPLAY_ERROR_NO_MEMORY :: u32 where "WL_DISPLAY_ERROR_NO_MEMORY = 2"
definition WL_MAP_ENTRY_LEGACY :: u32 where "WL_MAP_ENTRY_LEGACY = 1"
definition WL_CLOSURE_INVOKE_SERVER :: u32 where "WL_CLOSURE_INVOKE_SERVER = 2"
definition EAGAIN :: int where "EAGAIN = 11"

section \<open>State\<close>

text \<open>
  Function pointers: the library's own handlers have names, those of the compositor are numbers.
  For an implementation of the compositor the list says which handlers of it are not null.
\<close>

datatype wl_implementation =
  No_implementation | Display_interface | Registry_interface | Implementation nat "bool list"

datatype wl_destructor =
  No_destroy | Destroy_client_display_resource | Unbind_resource | Destroy nat

record wl_resource =
  rinterface :: interface_spec
  rimplementation :: wl_implementation
  rid :: u32
  rdestroy :: wl_destructor
  deprecated_destroy_signal :: "u64 list"
  rclient :: u64
  rdata :: u64
  rversion :: int
  rdispatcher :: "nat option"
  rdestroy_signal :: wl_priv_signal

record wl_client =
  connection :: wl_connection
  csource :: u32
  display_resource :: u64
  objects :: wl_map
  cdestroy_signal :: wl_priv_signal
  ucred :: "int \<times> int \<times> int"
  cerror :: bool
  resource_created_signal :: wl_priv_signal

record wl_global =
  ginterface :: interface_spec
  gname :: u32
  gversion :: u32
  gdata :: u64
  gbind :: nat

record wl_display =
  drun :: bool
  did :: u32
  dserial :: u32
  registry_resource_list :: "u64 list"
  global_list :: "u64 list"
  client_list :: "u64 list"
  protocol_loggers :: "u64 list"
  ddestroy_signal :: wl_priv_signal
  create_client_signal :: wl_priv_signal
  additional_shm_formats :: wl_array
  global_filter :: "(u64 \<Rightarrow> u64 \<Rightarrow> bool) option"

text \<open>What a protocol logger is told: the direction, the resource, the opcode and the arguments.\<close>

record logger_message =
  llogger :: u64
  lsend :: bool
  lresource :: u64
  lopcode :: u32
  largs :: "wl_argument list"

text \<open>
  The sockets of the process by descriptor. \<open>detached\<close> are the clients in the temporary list of
  \<^verbatim>\<open>wl_display_destroy_clients\<close>. \<open>ticks\<close> counts the allocations made, so that
  successive calls of \<^verbatim>\<open>malloc\<close> may differ.
\<close>

record 'u server =
  display :: wl_display
  resources :: "u64 \<Rightarrow> wl_resource option"
  clients :: "u64 \<Rightarrow> wl_client option"
  globals :: "u64 \<Rightarrow> wl_global option"
  detached :: "u64 list"
  sockets :: "int \<Rightarrow> os"
  ticks :: nat
  logged :: "logger_message list"
  user :: 'u

text \<open>
  The C library's allocator (the address of a new structure, or 0; the contents of a new block
  of bytes) and the compositor's functions. A request handler is given the client, the resource
  and the call; a dispatcher the resource, the opcode and the arguments; a bind function the
  client, the data of the global, the version and the new id.
\<close>

record 's env =
  malloc :: "'s \<Rightarrow> u64"
  blocks :: allocator
  notify :: "u64 \<Rightarrow> u64 \<Rightarrow> 's \<Rightarrow> 's option"
  request :: "nat \<Rightarrow> u64 \<Rightarrow> u64 \<Rightarrow> listener_call \<Rightarrow> 's \<Rightarrow> 's option"
  dispatch :: "nat \<Rightarrow> u64 \<Rightarrow> u32 \<Rightarrow> wl_argument list \<Rightarrow> 's \<Rightarrow> 's option"
  destructor :: "nat \<Rightarrow> u64 \<Rightarrow> 's \<Rightarrow> 's option"
  bind_func :: "nat \<Rightarrow> u64 \<Rightarrow> u64 \<Rightarrow> u32 \<Rightarrow> u32 \<Rightarrow> 's \<Rightarrow> 's option"

type_synonym 'u senv = "'u server env"

definition live :: "'u server \<Rightarrow> u64 \<Rightarrow> bool" where
  "live s p \<longleftrightarrow> resources s p \<noteq> None \<or> clients s p \<noteq> None \<or> globals s p \<noteq> None"

definition do_malloc :: "'u senv \<Rightarrow> 'u server \<Rightarrow> u64 \<times> 'u server" where
  "do_malloc E s = (malloc E s, s\<lparr>ticks := ticks s + 1\<rparr>)"

definition impl_slots :: "wl_implementation \<Rightarrow> bool list" where
  "impl_slots impl = (case impl of
     No_implementation \<Rightarrow> [] | Display_interface \<Rightarrow> [True, True] | Registry_interface \<Rightarrow> [True]
   | Implementation _ slots \<Rightarrow> slots)"

text \<open>The \<^verbatim>\<open>wl_object\<close> a resource starts with, and the objects by address.\<close>

definition robject :: "wl_resource \<Rightarrow> wl_object" where
  "robject r = \<lparr>interface = ispec (rinterface r), implementation = impl_slots (rimplementation r), obj_id = rid r\<rparr>"

definition object_at :: "'u server \<Rightarrow> object_store" where
  "object_at s p = map_option robject (resources s p)"

definition upd_resource :: "u64 \<Rightarrow> (wl_resource \<Rightarrow> wl_resource) \<Rightarrow> 'u server \<Rightarrow> 'u server option" where
  "upd_resource p f s = map_option (\<lambda>r. s\<lparr>resources := (resources s)(p \<mapsto> f r)\<rparr>) (resources s p)"

definition upd_client :: "u64 \<Rightarrow> (wl_client \<Rightarrow> wl_client) \<Rightarrow> 'u server \<Rightarrow> 'u server option" where
  "upd_client ca f s = map_option (\<lambda>c. s\<lparr>clients := (clients s)(ca \<mapsto> f c)\<rparr>) (clients s ca)"

definition upd_display :: "(wl_display \<Rightarrow> wl_display) \<Rightarrow> 'u server \<Rightarrow> 'u server" where
  "upd_display f s = s\<lparr>display := f (display s)\<rparr>"

definition upd_socket :: "int \<Rightarrow> os \<Rightarrow> 'u server \<Rightarrow> 'u server" where
  "upd_socket fd w s = s\<lparr>sockets := (sockets s)(fd := w)\<rparr>"

definition free_resource :: "u64 \<Rightarrow> 'u server \<Rightarrow> 'u server" where
  "free_resource p s = s\<lparr>resources := (resources s)(p := None)\<rparr>"

text \<open>The program's strings as bytes.\<close>

definition ascii :: "string \<Rightarrow> bytes" where
  "ascii cs = map (\<lambda>c. of_nat (of_char c)) cs"

section \<open>Signals of the structures\<close>

datatype signal_ref =
  Client_destroy u64 | Resource_created u64 | Resource_destroy u64 | Display_destroy | Create_client

definition signal_of :: "signal_ref \<Rightarrow> 'u server \<Rightarrow> wl_priv_signal option" where
  "signal_of ref s = (case ref of
     Client_destroy ca \<Rightarrow> map_option cdestroy_signal (clients s ca)
   | Resource_created ca \<Rightarrow> map_option resource_created_signal (clients s ca)
   | Resource_destroy p \<Rightarrow> map_option rdestroy_signal (resources s p)
   | Display_destroy \<Rightarrow> Some (ddestroy_signal (display s))
   | Create_client \<Rightarrow> Some (create_client_signal (display s)))"

definition set_signal :: "signal_ref \<Rightarrow> wl_priv_signal \<Rightarrow> 'u server \<Rightarrow> 'u server" where
  "set_signal ref sg s = (case ref of
     Client_destroy ca \<Rightarrow> s\<lparr>clients := (clients s)(ca := map_option (cdestroy_signal_update (\<lambda>_. sg)) (clients s ca))\<rparr>
   | Resource_created ca \<Rightarrow> s\<lparr>clients := (clients s)(ca := map_option (resource_created_signal_update (\<lambda>_. sg)) (clients s ca))\<rparr>
   | Resource_destroy p \<Rightarrow> s\<lparr>resources := (resources s)(p := map_option (rdestroy_signal_update (\<lambda>_. sg)) (resources s p))\<rparr>
   | Display_destroy \<Rightarrow> upd_display (ddestroy_signal_update (\<lambda>_. sg)) s
   | Create_client \<Rightarrow> upd_display (create_client_signal_update (\<lambda>_. sg)) s)"

definition emit :: "'u senv \<Rightarrow> signal_ref \<Rightarrow> u64 \<Rightarrow> 'u server \<Rightarrow> 'u server option" where
  "emit E ref data s =
     wl_priv_signal_emit (signal_of ref) (set_signal ref) (\<lambda>l. notify E l data) s"

section \<open>Events\<close>

definition verify_object ::
    "'u server \<Rightarrow> u64 \<Rightarrow> wl_argument list \<Rightarrow> nat \<Rightarrow> argument_details \<Rightarrow> unit \<Rightarrow> (fault \<times> unit) + unit" where
  "verify_object s ca args i arg u =
     (if atype arg = CHR ''n'' \<or> atype arg = CHR ''o'' then
        (case args ! i of
           Arg_o p \<Rightarrow>
             if p = 0 then Inr ()
             else (case resources s p of
                     None \<Rightarrow> Inl (Undefined, ())
                   | Some res \<Rightarrow> if rclient res \<noteq> ca then Inl (Einval, ()) else Inr ())
         | _ \<Rightarrow> Inl (Undefined, ()))
      else Inr ())"

definition verify_objects :: "'u server \<Rightarrow> u64 \<Rightarrow> wl_message \<Rightarrow> wl_argument list \<Rightarrow> bool option" where
  "verify_objects s ca message args =
     (case for_args (verify_object s ca args) 0 (arg_count_for_signature (signature message))
             (signature message) () of
        Inr _ \<Rightarrow> Some True
      | Inl (Einval, _) \<Rightarrow> Some False
      | Inl _ \<Rightarrow> None)"

definition log_closure :: "u64 \<Rightarrow> wl_closure \<Rightarrow> bool \<Rightarrow> 'u server \<Rightarrow> 'u server" where
  "log_closure p cl send s = s\<lparr>logged := logged s @
     map (\<lambda>l. \<lparr>llogger = l, lsend = send, lresource = p, lopcode = copcode cl,
               largs = take (ccount cl) (cargs cl)\<rparr>) (protocol_loggers (display s))\<rparr>"

definition nth_message :: "wl_message list \<Rightarrow> u32 \<Rightarrow> wl_message option" where
  "nth_message ms opcode = (if unat opcode < length ms then Some (ms ! unat opcode) else None)"

type_synonym send_func =
  "allocator \<Rightarrow> object_store \<Rightarrow> wl_closure \<Rightarrow> wl_connection \<Rightarrow> os \<Rightarrow>
   (wl_closure \<times> wl_connection \<times> os \<times> int) option"

definition handle_array ::
    "'u senv \<Rightarrow> send_func \<Rightarrow> u64 \<Rightarrow> u32 \<Rightarrow> wl_argument list \<Rightarrow> 'u server \<Rightarrow> 'u server option" where
  "handle_array E send_func p opcode args s = do {
     r \<leftarrow> resources s p;
     c \<leftarrow> clients s (rclient r);
     if cerror c then Some s
     else do {
       message \<leftarrow> nth_message (events (rinterface r)) opcode;
       ok \<leftarrow> verify_objects s (rclient r) message args;
       if \<not> ok then upd_client (rclient r) (cerror_update (\<lambda>_. True)) s
       else do {
         let (mem, s) = do_malloc E s;
         let fd = cfd (connection c);
         case wl_closure_marshal (mem \<noteq> 0) (object_at s) (robject r) opcode args message (sockets s fd) of
           Inl _ \<Rightarrow> None
         | Inr (None, w) \<Rightarrow> upd_client (rclient r) (cerror_update (\<lambda>_. True)) (upd_socket fd w s)
         | Inr (Some cl, w) \<Rightarrow> do {
             let s = log_closure p cl True s;
             (cl, conn, w, ret) \<leftarrow> send_func (blocks E) (object_at s) cl (connection c) w;
             let w = wl_closure_destroy (Some cl) w;
             upd_client (rclient r) (\<lambda>c. c\<lparr>connection := conn, cerror := ret \<noteq> 0\<rparr>) (upd_socket fd w s)
           }
       }
     }
   }"

definition wl_resource_post_event_array ::
    "'u senv \<Rightarrow> u64 \<Rightarrow> u32 \<Rightarrow> wl_argument list \<Rightarrow> 'u server \<Rightarrow> 'u server option" where
  "wl_resource_post_event_array E = handle_array E wl_closure_send"

definition wl_resource_queue_event_array ::
    "'u senv \<Rightarrow> u64 \<Rightarrow> u32 \<Rightarrow> wl_argument list \<Rightarrow> 'u server \<Rightarrow> 'u server option" where
  "wl_resource_queue_event_array E = handle_array E wl_closure_queue"

text \<open>The arguments after the opcode, read into an array of \<^verbatim>\<open>WL_CLOSURE_MAX_ARGS\<close> elements.\<close>

definition va_event ::
    "(u32 \<Rightarrow> wl_argument list \<Rightarrow> 'u server \<Rightarrow> 'u server option) \<Rightarrow> u64 \<Rightarrow> u32 \<Rightarrow> wl_argument list \<Rightarrow>
     'u server \<Rightarrow> 'u server option" where
  "va_event post p opcode ap s = do {
     r \<leftarrow> resources s p;
     message \<leftarrow> nth_message (events (rinterface r)) opcode;
     case wl_argument_from_va_list (signature message) (replicate WL_CLOSURE_MAX_ARGS Arg_unset)
            WL_CLOSURE_MAX_ARGS ap of
       Inl _ \<Rightarrow> None
     | Inr args \<Rightarrow> post opcode args s
   }"

definition wl_resource_post_event ::
    "'u senv \<Rightarrow> u64 \<Rightarrow> u32 \<Rightarrow> wl_argument list \<Rightarrow> 'u server \<Rightarrow> 'u server option" where
  "wl_resource_post_event E p = va_event (wl_resource_post_event_array E p) p"

definition wl_resource_queue_event ::
    "'u senv \<Rightarrow> u64 \<Rightarrow> u32 \<Rightarrow> wl_argument list \<Rightarrow> 'u server \<Rightarrow> 'u server option" where
  "wl_resource_queue_event E p = va_event (wl_resource_queue_event_array E p) p"

text \<open>\<open>msg\<close> is the formatted text, which is cut to the buffer of 128 bytes.\<close>

definition wl_resource_post_error ::
    "'u senv \<Rightarrow> u64 \<Rightarrow> u32 \<Rightarrow> bytes \<Rightarrow> 'u server \<Rightarrow> 'u server option" where
  "wl_resource_post_error E p code msg s = do {
     r \<leftarrow> resources s p;
     c \<leftarrow> clients s (rclient r);
     let buffer = take 127 msg;
     if cerror c \<or> display_resource c = 0 then Some s
     else do {
       s \<leftarrow> wl_resource_post_event E (display_resource c) WL_DISPLAY_ERROR
              [Arg_o p, Arg_u code, Arg_s (Some buffer)] s;
       upd_client (rclient r) (cerror_update (\<lambda>_. True)) s
     }
   }"

definition wl_client_post_no_memory :: "'u senv \<Rightarrow> u64 \<Rightarrow> 'u server \<Rightarrow> 'u server option" where
  "wl_client_post_no_memory E ca s = do {
     c \<leftarrow> clients s ca;
     wl_resource_post_error E (display_resource c) WL_DISPLAY_ERROR_NO_MEMORY (ascii ''no memory'') s
   }"

definition wl_resource_post_no_memory :: "'u senv \<Rightarrow> u64 \<Rightarrow> 'u server \<Rightarrow> 'u server option" where
  "wl_resource_post_no_memory E p s = do {
     r \<leftarrow> resources s p;
     c \<leftarrow> clients s (rclient r);
     wl_resource_post_error E (display_resource c) WL_DISPLAY_ERROR_NO_MEMORY (ascii ''no memory'') s
   }"

section \<open>Resources\<close>

definition wl_resource_set_implementation ::
    "u64 \<Rightarrow> wl_implementation \<Rightarrow> u64 \<Rightarrow> wl_destructor \<Rightarrow> 'u server \<Rightarrow> 'u server option" where
  "wl_resource_set_implementation p impl data destroy =
     upd_resource p (\<lambda>r. r\<lparr>rimplementation := impl, rdata := data, rdestroy := destroy, rdispatcher := None\<rparr>)"

definition wl_resource_set_dispatcher ::
    "u64 \<Rightarrow> nat \<Rightarrow> wl_implementation \<Rightarrow> u64 \<Rightarrow> wl_destructor \<Rightarrow> 'u server \<Rightarrow> 'u server option" where
  "wl_resource_set_dispatcher p disp impl data destroy =
     upd_resource p (\<lambda>r. r\<lparr>rdispatcher := Some disp, rimplementation := impl, rdata := data, rdestroy := destroy\<rparr>)"

text \<open>The result is the address of the new resource, 0 for \<^verbatim>\<open>NULL\<close>.\<close>

definition wl_resource_create ::
    "'u senv \<Rightarrow> u64 \<Rightarrow> interface_spec \<Rightarrow> int \<Rightarrow> u32 \<Rightarrow> 'u server \<Rightarrow> (u64 \<times> 'u server) option" where
  "wl_resource_create E ca iface version i s = do {
     let (p, s) = do_malloc E s;
     if p = 0 then Some (0, s)
     else do {
       c \<leftarrow> clients s ca;
       (m, i) \<leftarrow> (if i = 0 then wl_map_insert_new (blocks E) (objects c) 0 0 else Some (objects c, i));
       let s = s\<lparr>resources := (resources s)(p \<mapsto>
         \<lparr>rinterface = iface, rimplementation = No_implementation, rid = i, rdestroy = No_destroy,
          deprecated_destroy_signal = wl_signal_init, rclient = ca, rdata = 0, rversion = version,
          rdispatcher = None, rdestroy_signal = wl_priv_signal_init\<rparr>)\<rparr>;
       (m, ret) \<leftarrow> wl_map_insert_at (blocks E) m 0 i p;
       s \<leftarrow> upd_client ca (objects_update (\<lambda>_. m)) s;
       if ret < 0 then do {
         s \<leftarrow> wl_resource_post_error E (display_resource c) WL_DISPLAY_ERROR_INVALID_OBJECT
                (ascii (''invalid new id '' @ show_int (sint i))) s;
         Some (0, free_resource p s)
       }
       else do {
         s \<leftarrow> emit E (Resource_created ca) p s;
         Some (p, s)
       }
     }
   }"

definition resource_is_deprecated :: "u64 \<Rightarrow> 'u server \<Rightarrow> bool option" where
  "resource_is_deprecated p s = do {
     r \<leftarrow> resources s p;
     c \<leftarrow> clients s (rclient r);
     flags \<leftarrow> wl_map_lookup_flags (objects c) (rid r);
     Some (flags AND WL_MAP_ENTRY_LEGACY \<noteq> 0)
   }"

definition unbind_resource :: "u64 \<Rightarrow> 'u server \<Rightarrow> 'u server option" where
  "unbind_resource p s = Some (upd_display (registry_resource_list_update (remove1 p)) s)"

definition destroy_client_display_resource :: "u64 \<Rightarrow> 'u server \<Rightarrow> 'u server option" where
  "destroy_client_display_resource p s = do {
     r \<leftarrow> resources s p;
     upd_client (rclient r) (display_resource_update (\<lambda>_. 0)) s
   }"

definition run_destructor :: "'u senv \<Rightarrow> u64 \<Rightarrow> 'u server \<Rightarrow> 'u server option" where
  "run_destructor E p s = do {
     r \<leftarrow> resources s p;
     case rdestroy r of
       No_destroy \<Rightarrow> Some s
     | Destroy_client_display_resource \<Rightarrow> destroy_client_display_resource p s
     | Unbind_resource \<Rightarrow> unbind_resource p s
     | Destroy k \<Rightarrow> destructor E k p s
   }"

definition destroy_resource :: "'u senv \<Rightarrow> u64 \<Rightarrow> u32 \<Rightarrow> 'u server \<Rightarrow> 'u server option" where
  "destroy_resource E p flags s = do {
     s \<leftarrow> wl_signal_emit (\<lambda>s. map_option deprecated_destroy_signal (resources s p)) (\<lambda>l. notify E l p) s;
     old \<leftarrow> resource_is_deprecated p s;
     s \<leftarrow> (if old then Some s else emit E (Resource_destroy p) p s);
     s \<leftarrow> run_destructor E p s;
     Some (if flags AND WL_MAP_ENTRY_LEGACY = 0 then free_resource p s else s)
   }"

definition wl_resource_destroy :: "'u senv \<Rightarrow> u64 \<Rightarrow> 'u server \<Rightarrow> 'u server option" where
  "wl_resource_destroy E p s = do {
     r \<leftarrow> resources s p;
     c \<leftarrow> clients s (rclient r);
     flags \<leftarrow> wl_map_lookup_flags (objects c) (rid r);
     s \<leftarrow> destroy_resource E p flags s;
     c \<leftarrow> clients s (rclient r);
     if rid r < WL_SERVER_ID_START then do {
       s \<leftarrow> (if display_resource c \<noteq> 0
             then wl_resource_queue_event E (display_resource c) WL_DISPLAY_DELETE_ID [Arg_u (rid r)] s
             else Some s);
       c \<leftarrow> clients s (rclient r);
       (m, _) \<leftarrow> wl_map_insert_at (blocks E) (objects c) 0 (rid r) 0;
       upd_client (rclient r) (objects_update (\<lambda>_. m)) s
     }
     else do {
       m \<leftarrow> wl_map_remove (objects c) (rid r);
       upd_client (rclient r) (objects_update (\<lambda>_. m)) s
     }
   }"

definition wl_resource_get_id :: "u64 \<Rightarrow> 'u server \<Rightarrow> u32 option" where
  "wl_resource_get_id p s = map_option rid (resources s p)"

definition wl_resource_find_for_client :: "u64 list \<Rightarrow> u64 \<Rightarrow> 'u server \<Rightarrow> u64 option" where
  "wl_resource_find_for_client xs ca s =
     (if ca = 0 then None
      else find (\<lambda>p. case resources s p of None \<Rightarrow> False | Some r \<Rightarrow> rclient r = ca) xs)"

definition wl_resource_instance_of ::
    "u64 \<Rightarrow> interface_spec \<Rightarrow> wl_implementation \<Rightarrow> 'u server \<Rightarrow> bool option" where
  "wl_resource_instance_of p iface impl s = map_option (\<lambda>r.
     wl_interface_equal (ispec (rinterface r)) (ispec iface) \<and> rimplementation r = impl) (resources s p)"

definition wl_resource_add_destroy_listener :: "u64 \<Rightarrow> u64 \<Rightarrow> 'u server \<Rightarrow> 'u server option" where
  "wl_resource_add_destroy_listener p l s = do {
     old \<leftarrow> resource_is_deprecated p s;
     upd_resource p (if old then deprecated_destroy_signal_update (\<lambda>sg. wl_signal_add sg l)
                     else rdestroy_signal_update (\<lambda>sg. wl_priv_signal_add sg l)) s
   }"

definition wl_client_get_object :: "u64 \<Rightarrow> u32 \<Rightarrow> 'u server \<Rightarrow> u64 option" where
  "wl_client_get_object ca i s = do {
     c \<leftarrow> clients s ca;
     wl_map_lookup (objects c) i
   }"

text \<open>Resources that the compositor has allocated itself, a deprecated way to create them.\<close>

definition wl_client_add_resource :: "'u senv \<Rightarrow> u64 \<Rightarrow> u64 \<Rightarrow> 'u server \<Rightarrow> (u32 \<times> 'u server) option" where
  "wl_client_add_resource E ca p s = do {
     r \<leftarrow> resources s p;
     c \<leftarrow> clients s ca;
     if rid r = 0 then do {
       (m, i) \<leftarrow> wl_map_insert_new (blocks E) (objects c) WL_MAP_ENTRY_LEGACY p;
       s \<leftarrow> upd_client ca (objects_update (\<lambda>_. m)) s;
       s \<leftarrow> upd_resource p (\<lambda>r. r\<lparr>rid := i, rclient := ca, deprecated_destroy_signal := wl_signal_init\<rparr>) s;
       Some (i, s)
     }
     else do {
       (m, ret) \<leftarrow> wl_map_insert_at (blocks E) (objects c) WL_MAP_ENTRY_LEGACY (rid r) p;
       s \<leftarrow> upd_client ca (objects_update (\<lambda>_. m)) s;
       if ret < 0 then do {
         s \<leftarrow> wl_resource_post_error E (display_resource c) WL_DISPLAY_ERROR_INVALID_OBJECT
                (ascii (''invalid new id '' @ show_int (sint (rid r)))) s;
         Some (0, s)
       }
       else do {
         s \<leftarrow> upd_resource p (\<lambda>r. r\<lparr>rclient := ca, deprecated_destroy_signal := wl_signal_init\<rparr>) s;
         Some (rid r, s)
       }
     }
   }"

definition wl_client_add_object ::
    "'u senv \<Rightarrow> u64 \<Rightarrow> interface_spec \<Rightarrow> wl_implementation \<Rightarrow> u32 \<Rightarrow> u64 \<Rightarrow> 'u server \<Rightarrow> (u64 \<times> 'u server) option" where
  "wl_client_add_object E ca iface impl i data s = do {
     (p, s) \<leftarrow> wl_resource_create E ca iface (-1) i s;
     s \<leftarrow> (if p = 0 then wl_client_post_no_memory E ca s
           else wl_resource_set_implementation p impl data No_destroy s);
     Some (p, s)
   }"

definition wl_client_new_object ::
    "'u senv \<Rightarrow> u64 \<Rightarrow> interface_spec \<Rightarrow> wl_implementation \<Rightarrow> u64 \<Rightarrow> 'u server \<Rightarrow> (u64 \<times> 'u server) option" where
  "wl_client_new_object E ca iface impl data s = wl_client_add_object E ca iface impl 0 data s"

section \<open>Messages without descriptors\<close>

definition no_fds :: "string \<Rightarrow> bool" where
  "no_fds sig \<longleftrightarrow> list_all (\<lambda>d. \<not> is_fd d) (details sig)"

lemma no_fds_mem: "no_fds sig \<Longrightarrow> (j, d) \<in> set (enumerate i (details sig)) \<Longrightarrow> atype d \<noteq> CHR ''h''"
  by (auto simp: no_fds_def list_all_iff in_set_enumerate_eq is_fd_def)

text \<open>A property of the state that no step of the loop changes holds however the loop ends.\<close>

lemma efold_ends:
  assumes "efold f xs s = Inr t \<or> efold f xs s = Inl (e, t)"
    and "\<And>x s t e. x \<in> set xs \<Longrightarrow> P s \<Longrightarrow> f x s = Inr t \<or> f x s = Inl (e, t) \<Longrightarrow> P t" and "P s"
  shows "P t"
  using assms
proof (induction xs arbitrary: s)
  case (Cons x xs)
  show ?case
  proof (cases "f x s")
    case (Inl y)
    with Cons.prems(1) have "f x s = Inl (e, t)" by auto
    then show ?thesis using Cons.prems(2) [of x s t e] Cons.prems(3) by simp
  next
    case (Inr s1)
    then have "P s1" using Cons.prems(2) [of x s s1] Cons.prems(3) by simp
    with Inr Cons.IH [of s1] Cons.prems(1,2) show ?thesis by (simp, blast)
  qed
qed simp

lemma copy_fds_none: "no_fds (signature (cmessage cl)) \<Longrightarrow> copy_fds_to_connection cl c w = Some (cl, c, w, 0)"
proof -
  have "list_all (\<lambda>d. \<not> is_fd d) (details sig) \<Longrightarrow>
      copy_fds_loop i (length (details sig)) sig cl c w = Some (cl, c, w, 0)" for i sig
  proof (induction "details sig" arbitrary: i sig)
    case (Cons d ds)
    obtain sg where sg: "get_next_argument sig = (d, sg)" "details sg = ds"
      using details_Cons Cons.hyps(2) by metis
    from Cons.hyps(1) [of sg "Suc i"] sg Cons.prems show ?case
      by (simp flip: Cons.hyps(2) add: is_fd_def)
  qed (simp flip: Nil)
  from this [of "signature (cmessage cl)" 0] show "no_fds (signature (cmessage cl)) \<Longrightarrow> ?thesis"
    by (simp add: copy_fds_to_connection_def Let_def no_fds_def)
qed

lemma destroy_no_fds:
  assumes "no_fds (signature (cmessage cl))" "ccount cl = arg_count_for_signature (signature (cmessage cl))"
  shows "wl_closure_destroy (Some cl) w = w"
proof -
  have "list_all (\<lambda>d. \<not> is_fd d) ds \<Longrightarrow>
      efold (\<lambda>(j, d). close_fd_arg (cargs cl) j d) (enumerate i ds) w = Inr w" for i ds
    by (induction ds arbitrary: i) (auto simp: close_fd_arg_def is_fd_def split: wl_argument.splits)
  then show ?thesis
    using assms by (simp add: wl_closure_destroy_def wl_closure_close_fds_def for_args_details no_fds_def)
qed

lemma clear_fds_fields [simp]:
  "cmessage (wl_closure_clear_fds cl) = cmessage cl" "ccount (wl_closure_clear_fds cl) = ccount cl"
  "copcode (wl_closure_clear_fds cl) = copcode cl" "csender_id (wl_closure_clear_fds cl) = csender_id cl"
  by (auto simp: wl_closure_clear_fds_def split: sum.splits)

lemma closure_init_fields:
  assumes "wl_closure_init mem message sz args = Inr (cl, n)"
  shows "cmessage cl = message" "ccount cl = arg_count_for_signature (signature message)"
  using assms by (auto simp: wl_closure_init_def Let_def split: if_splits)

lemma marshal_no_fds:
  assumes nf: "no_fds (signature message)"
    and run: "wl_closure_marshal mem objs sender opcode args message w = Inr (res, w')"
  shows "\<exists>e. w' = w\<lparr>errno := e\<rparr>"
    "res = Some cl \<Longrightarrow> cmessage cl = message \<and> ccount cl = arg_count_for_signature (signature message)"
proof -
  let ?sig = "signature message"
  show "\<exists>e. w' = w\<lparr>errno := e\<rparr>"
  proof (cases "wl_closure_init mem message 0 (Some args)")
    case (Inl e)
    with run show ?thesis by (auto simp: wl_closure_marshal_def)
  next
    case (Inr x)
    obtain cl0 n where x: "x = (cl0, n)" by (cases x)
    note f = closure_init_fields [OF Inr [unfolded x]]
    let ?r = "efold (\<lambda>(j, d). marshal_arg objs args j d) (enumerate 0 (details ?sig)) (cargs cl0, w)"
    have same: "snd st = w" if "?r = Inr st \<or> ?r = Inl (e, st)" for st e
    proof (rule efold_ends [OF that, of "\<lambda>st. snd st = w"])
      fix x st t e' assume "x \<in> set (enumerate 0 (details ?sig))" "snd st = w"
        "(case x of (j, d) \<Rightarrow> marshal_arg objs args j d) st = Inr t \<or>
         (case x of (j, d) \<Rightarrow> marshal_arg objs args j d) st = Inl (e', t)"
      then show "snd t = w"
        using no_fds_mem [OF nf, of "fst x" "snd x" 0]
        by (auto simp: marshal_arg_def Let_def split: prod.splits if_splits wl_argument.splits option.splits)
    qed simp
    have d: "wl_closure_destroy (Some (cl0\<lparr>cargs := cas\<rparr>)) w = w" for cas
      using destroy_no_fds [of "cl0\<lparr>cargs := cas\<rparr>"] f nf by simp
    show ?thesis
    proof (cases ?r)
      case (Inl y)
      then obtain e cas where y: "?r = Inl (e, cas, w)" using same [of "snd y" "fst y"] by (cases y) auto
      show ?thesis
        using run Inr x f y d by (cases e) (auto simp: wl_closure_marshal_def for_args_details)
    next
      case (Inr y)
      then obtain cas where "?r = Inr (cas, w)" using same [of y] by (cases y) auto
      with run \<open>wl_closure_init mem message 0 (Some args) = Inr x\<close> x f show ?thesis
        by (auto simp: wl_closure_marshal_def for_args_details intro!: exI [of _ "errno w"])
    qed
  qed
  show "res = Some cl \<Longrightarrow> cmessage cl = message \<and> ccount cl = arg_count_for_signature ?sig"
    using run closure_init_fields [of mem message 0 "Some args"]
    by (auto simp: wl_closure_marshal_def split: sum.splits prod.splits fault.splits)
qed

text \<open>However a closure without descriptors is sent, the connection is in order afterwards.\<close>

lemma closure_output_frame:
  assumes put: "\<And>c data w c' w' r. conn_ok c \<Longrightarrow> put c data w = Some (c', w', r) \<Longrightarrow>
      conn_ok c' \<and> output_grown (c, w) (if r < 0 then [] else data) [] (c', w')"
    and nf: "no_fds (signature (cmessage cl))" and c: "conn_ok c"
    and run: "closure_output put A objs cl c w = Some (cl', c', w', r)"
  shows "cl' = cl \<and> conn_ok c' \<and> (\<exists>bs. output_grown (c, w) bs [] (c', w'))"
proof -
  have e: "output_grown (c, w) [] [] (c, w\<lparr>errno := e\<rparr>)" for e
    by (simp add: output_grown_refl)
  have e': "output_grown (c, w) [] [] (c, w)" by (rule output_grown_refl)
  show ?thesis
    using run copy_fds_none [OF nf] c e e' put [OF c]
    by (auto simp: closure_output_def bind_eq_Some split: sum.splits option.splits fault.splits if_splits) blast+
qed

definition good_send :: "send_func \<Rightarrow> bool" where
  "good_send f \<longleftrightarrow> f = wl_closure_send \<or> f = wl_closure_queue"

lemma send_frame:
  assumes "good_send f" "no_fds (signature (cmessage cl))" "conn_ok c" "f A objs cl c w = Some (cl', c', w', r)"
  shows "cl' = cl \<and> conn_ok c' \<and> (\<exists>bs. output_grown (c, w) bs [] (c', w'))"
proof -
  have "\<exists>put B. f A objs cl c w = closure_output put B objs cl c w \<and>
    (\<forall>c data w c' w' r. conn_ok c \<longrightarrow> put c data w = Some (c', w', r) \<longrightarrow>
      conn_ok c' \<and> output_grown (c, w) (if r < 0 then [] else data) [] (c', w'))"
    using assms(1) unfolding good_send_def wl_closure_send_def wl_closure_queue_def
    by (elim disjE) (metis wl_connection_write_ok(1,2), metis wl_connection_queue_ok(1,2))
  then obtain put B where put: "f A objs cl c w = closure_output put B objs cl c w"
    "\<And>c data w c' w' r. conn_ok c \<Longrightarrow> put c data w = Some (c', w', r) \<Longrightarrow>
      conn_ok c' \<and> output_grown (c, w) (if r < 0 then [] else data) [] (c', w')" by blast
  show ?thesis
    by (rule closure_output_frame [OF put(2) assms(2,3) trans [OF put(1) [symmetric] assms(4)]])
qed

section \<open>What sending an event changes\<close>

lemma object_at_simps [simp]:
  "object_at (s\<lparr>ticks := n\<rparr>) = object_at s" "object_at (s\<lparr>logged := l\<rparr>) = object_at s"
  "object_at (s\<lparr>clients := cs\<rparr>) = object_at s" "object_at (s\<lparr>sockets := ws\<rparr>) = object_at s"
  "object_at (log_closure p cl send s) = object_at s"
  by (simp_all add: object_at_def log_closure_def fun_eq_iff)

text \<open>
  \<open>emits ca bs s s'\<close>: between the two states only output happened, to the client \<open>ca\<close>, whose
  byte stream grew by \<open>bs\<close>.
\<close>

definition emits :: "u64 \<Rightarrow> bytes \<Rightarrow> 'u server \<Rightarrow> 'u server \<Rightarrow> bool" where
  "emits ca bs s s' \<longleftrightarrow> (\<exists>c c' w' l t. clients s ca = Some c \<and>
     s' = s\<lparr>clients := (clients s)(ca \<mapsto> c'), sockets := (sockets s)(cfd (connection c) := w'),
            ticks := t, logged := l\<rparr> \<and>
     c' = c\<lparr>connection := connection c', cerror := cerror c'\<rparr> \<and> (cerror c \<longrightarrow> cerror c') \<and>
     (conn_ok (connection c) \<longrightarrow> conn_ok (connection c') \<and>
        output_grown (connection c, sockets s (cfd (connection c))) bs [] (connection c', w')))"

lemma emitsI:
  assumes "clients s ca = Some c"
    and "conn_ok (connection c) \<Longrightarrow> conn_ok conn \<and>
      output_grown (connection c, sockets s (cfd (connection c))) bs [] (conn, w)"
    and "cerror c \<Longrightarrow> err"
    and "s' = s\<lparr>clients := (clients s)(ca \<mapsto> c\<lparr>connection := conn, cerror := err\<rparr>),
      sockets := (sockets s)(cfd (connection c) := w), ticks := t, logged := l\<rparr>"
  shows "emits ca bs s s'"
  unfolding emits_def using assms
  by (intro exI [of _ c] exI [of _ "c\<lparr>connection := conn, cerror := err\<rparr>"] exI [of _ w] exI [of _ l] exI [of _ t]) auto

lemma emitsE:
  assumes "emits ca bs s s'" "clients s ca = Some c"
  obtains conn err w l t where "s' = s\<lparr>clients := (clients s)(ca \<mapsto> c\<lparr>connection := conn, cerror := err\<rparr>),
      sockets := (sockets s)(cfd (connection c) := w), ticks := t, logged := l\<rparr>"
    "cerror c \<Longrightarrow> err"
    "conn_ok (connection c) \<Longrightarrow> conn_ok conn \<and>
      output_grown (connection c, sockets s (cfd (connection c))) bs [] (conn, w)"
proof -
  obtain c' w' l t where e:
    "s' = s\<lparr>clients := (clients s)(ca \<mapsto> c'), sockets := (sockets s)(cfd (connection c) := w'),
            ticks := t, logged := l\<rparr>"
    "c' = c\<lparr>connection := connection c', cerror := cerror c'\<rparr>" "cerror c \<longrightarrow> cerror c'"
    "conn_ok (connection c) \<longrightarrow> conn_ok (connection c') \<and>
        output_grown (connection c, sockets s (cfd (connection c))) bs [] (connection c', w')"
    using assms by (auto simp: emits_def)
  have "s' = s\<lparr>clients := (clients s)(ca \<mapsto> c\<lparr>connection := connection c', cerror := cerror c'\<rparr>),
      sockets := (sockets s)(cfd (connection c) := w'), ticks := t, logged := l\<rparr>"
    using e(1) by (simp only: e(2) [symmetric])
  with e(3,4) that show thesis by blast
qed

lemma emits_refl: "clients s ca = Some c \<Longrightarrow> emits ca [] s s"
  by (rule emitsI [of s ca c "connection c" "[]" "sockets s (cfd (connection c))" "cerror c" _ "logged s" "ticks s"])
    (auto simp: output_grown_refl fun_upd_idem)

lemma emits_error:
  assumes "emits ca bs s s'" "upd_client ca (cerror_update (\<lambda>_. True)) s' = Some s''"
  shows "emits ca bs s s''"
proof -
  obtain c c' w' l t where e: "clients s ca = Some c"
    "s' = s\<lparr>clients := (clients s)(ca \<mapsto> c'), sockets := (sockets s)(cfd (connection c) := w'),
            ticks := t, logged := l\<rparr>"
    "c' = c\<lparr>connection := connection c', cerror := cerror c'\<rparr>"
    "conn_ok (connection c) \<longrightarrow> conn_ok (connection c') \<and>
        output_grown (connection c, sockets s (cfd (connection c))) bs [] (connection c', w')"
    using assms(1) by (auto simp: emits_def)
  have "c'\<lparr>cerror := True\<rparr> = c\<lparr>connection := connection c', cerror := True\<rparr>"
    by (subst e(3)) simp
  with e assms(2) show ?thesis
    by (intro emitsI [of s ca c "connection c'" bs w' True s'' l t]) (auto simp: upd_client_def)
qed

lemma emits_trans:
  assumes "emits ca bs s t" "emits ca bs' t u" "conn_ok (connection (the (clients s ca)))"
  shows "emits ca (bs @ bs') s u"
proof -
  obtain c c' w' l n where e: "clients s ca = Some c"
    "t = s\<lparr>clients := (clients s)(ca \<mapsto> c'), sockets := (sockets s)(cfd (connection c) := w'),
            ticks := n, logged := l\<rparr>"
    "c' = c\<lparr>connection := connection c', cerror := cerror c'\<rparr>" "cerror c \<longrightarrow> cerror c'"
    "conn_ok (connection c')"
    "output_grown (connection c, sockets s (cfd (connection c))) bs [] (connection c', w')"
    using assms(1,3) by (auto simp: emits_def)
  have fd: "cfd (connection c') = cfd (connection c)"
    using e(6) by (simp add: output_grown_def same_input_def)
  obtain c'' w'' l' n' where f:
    "u = t\<lparr>clients := (clients t)(ca \<mapsto> c''), sockets := (sockets t)(cfd (connection c) := w''),
            ticks := n', logged := l'\<rparr>"
    "c'' = c'\<lparr>connection := connection c'', cerror := cerror c''\<rparr>" "cerror c' \<longrightarrow> cerror c''"
    "conn_ok (connection c'')"
    "output_grown (connection c', w') bs' [] (connection c'', w'')"
    using assms(2) e(2,5) fd by (auto simp: emits_def)
  have c: "c'' = c\<lparr>connection := connection c'', cerror := cerror c''\<rparr>"
    by (subst f(2), subst e(3)) simp
  show ?thesis
    using e(1,4) f(3,4) output_grown_trans [OF e(6) f(5)] f(1) [unfolded e(2)] c
    by (intro emitsI [of s ca c "connection c''" "bs @ bs'" w'' "cerror c''" u l' n']) auto
qed

lemma emits_fields:
  assumes "emits ca bs s s'"
  shows "resources s' = resources s" "globals s' = globals s" "display s' = display s" "user s' = user s"
    "detached s' = detached s" "object_at s' = object_at s" "ca' \<noteq> ca \<Longrightarrow> clients s' ca' = clients s ca'"
    "clients s ca \<noteq> None" "clients s' ca \<noteq> None"
  using assms by (auto simp: emits_def object_at_def fun_eq_iff)

lemma emits_client:
  assumes "emits ca bs s s'" "clients s ca = Some c"
  obtains c' where "clients s' ca = Some c'" "objects c' = objects c" "display_resource c' = display_resource c"
    "csource c' = csource c" "cdestroy_signal c' = cdestroy_signal c"
    "resource_created_signal c' = resource_created_signal c" "cerror c \<Longrightarrow> cerror c'"
    "conn_ok (connection c) \<Longrightarrow> conn_ok (connection c') \<and>
      output_grown (connection c, sockets s (cfd (connection c))) bs []
        (connection c', sockets s' (cfd (connection c)))"
proof -
  obtain c' w' where e: "clients s' ca = Some c'" "sockets s' (cfd (connection c)) = w'"
    "c' = c\<lparr>connection := connection c', cerror := cerror c'\<rparr>" "cerror c \<longrightarrow> cerror c'"
    "conn_ok (connection c) \<longrightarrow> conn_ok (connection c') \<and>
        output_grown (connection c, sockets s (cfd (connection c))) bs [] (connection c', w')"
    using assms by (auto simp: emits_def)
  have "objects c' = objects c" "display_resource c' = display_resource c"
    "csource c' = csource c" "cdestroy_signal c' = cdestroy_signal c"
    "resource_created_signal c' = resource_created_signal c"
    by (subst e(3), simp)+
  with e that show thesis by blast
qed

lemma handle_array_frame:
  assumes "good_send f" "resources s p = Some r"
    and "\<And>m. nth_message (events (rinterface r)) opcode = Some m \<Longrightarrow> no_fds (signature m)"
    and "handle_array E f p opcode args s = Some s'"
  shows "\<exists>bs. emits (rclient r) bs s s'"
proof -
  obtain c where c: "clients s (rclient r) = Some c"
    using assms(2,4) by (auto simp: handle_array_def bind_eq_Some)
  note run = assms(4) [unfolded handle_array_def assms(2) Option.bind.simps(2) c]
  show ?thesis
  proof (cases "cerror c")
    case True
    with run emits_refl [OF c] show ?thesis by auto
  next
    case err: False
    obtain m ok where m: "nth_message (events (rinterface r)) opcode = Some m"
      "verify_objects s (rclient r) m args = Some ok"
      using run err by (auto simp: bind_eq_Some)
    note nf = assms(3) [OF m(1)]
    let ?fd = "cfd (connection c)" let ?w = "sockets s (cfd (connection c))"
    let ?s = "s\<lparr>ticks := ticks s + 1\<rparr>"
    show ?thesis
    proof (cases ok)
      case False
      with run err m emits_error [OF emits_refl [OF c]] show ?thesis by auto
    next
      case True
      obtain res w1 where mar: "wl_closure_marshal (malloc E s \<noteq> 0) (object_at s) (robject r) opcode args m ?w = Inr (res, w1)"
        using run err m True by (auto simp: Let_def do_malloc_def bind_eq_Some split: sum.splits)
      obtain e where w1: "w1 = ?w\<lparr>errno := e\<rparr>" using marshal_no_fds(1) [OF nf mar] by blast
      show ?thesis
      proof (cases res)
        case None
        have "s' = s\<lparr>clients := (clients s)(rclient r \<mapsto> c\<lparr>connection := connection c, cerror := True\<rparr>),
            sockets := (sockets s)(?fd := w1), ticks := ticks s + 1, logged := logged s\<rparr>"
          using run err m True mar None c by (auto simp: Let_def do_malloc_def upd_client_def upd_socket_def)
        then have "emits (rclient r) [] s s'"
          by (rule emitsI [OF c, rotated -1]) (auto simp: w1 output_grown_refl)
        then show ?thesis by blast
      next
        case (Some cl)
        note cl = marshal_no_fds(2) [OF nf mar Some]
        obtain cl' conn w2 ret where snd: "f (blocks E) (object_at s) cl (connection c) w1 = Some (cl', conn, w2, ret)"
          "s' = s\<lparr>clients := (clients s)(rclient r \<mapsto> c\<lparr>connection := conn, cerror := ret \<noteq> 0\<rparr>),
            sockets := (sockets s)(?fd := wl_closure_destroy (Some cl') w2), ticks := ticks s + 1,
            logged := logged (log_closure p cl True ?s)\<rparr>"
          using run err m True mar Some c
          by (auto simp: Let_def do_malloc_def upd_client_def upd_socket_def log_closure_def bind_eq_Some)
        have fr: "cl' = cl \<and> conn_ok conn \<and> (\<exists>bs. output_grown (connection c, w1) bs [] (conn, w2))"
          if "conn_ok (connection c)"
          by (rule send_frame [OF assms(1) _ that snd(1)]) (simp add: cl nf)
        have gr: "output_grown (connection c, w1) bs [] x = output_grown (connection c, ?w) bs [] x" for bs x
          by (cases x) (simp add: w1 output_grown_def stream_def fd_stream_def fds_released_def)
        have "\<exists>bs. conn_ok (connection c) \<longrightarrow> conn_ok conn \<and>
            output_grown (connection c, ?w) bs [] (conn, wl_closure_destroy (Some cl') w2)"
          using fr gr destroy_no_fds [of cl] cl nf by auto
        then show ?thesis
          by (elim exE, intro exI) (rule emitsI [OF c _ _ snd(2)], auto simp: err)
      qed
    qed
  qed
qed

lemma va_event_frame:
  assumes "va_event post p opcode ap s = Some s'"
    and "\<And>args. post opcode args s = Some s' \<Longrightarrow> Q"
  shows Q
  using assms unfolding va_event_def bind_eq_Some by (elim exE conjE) (auto split: sum.split_asm)

lemma event_frame:
  assumes "wl_resource_post_event E p opcode ap s = Some s' \<or> wl_resource_queue_event E p opcode ap s = Some s'"
    and "resources s p = Some r"
    and "\<And>m. nth_message (events (rinterface r)) opcode = Some m \<Longrightarrow> no_fds (signature m)"
  obtains bs where "emits (rclient r) bs s s'"
proof -
  obtain f args where "good_send f" "handle_array E f p opcode args s = Some s'"
    using assms(1) by (auto simp: wl_resource_post_event_def wl_resource_queue_event_def
        wl_resource_post_event_array_def wl_resource_queue_event_array_def good_send_def elim!: va_event_frame)
  from handle_array_frame [OF this(1) assms(2,3) this(2)] that show thesis by blast
qed

text \<open>The library's own events carry no descriptors.\<close>

lemma own_events:
  assumes "iface \<in> {wl_display_interface, wl_registry_interface, wl_callback_interface}"
    and "nth_message (events iface) opcode = Some m"
  shows "no_fds (signature m)"
  using assms
  by (auto simp: nth_message_def wl_display_interface_def wl_registry_interface_def wl_callback_interface_def
      no_fds_def details_def is_arg_char_def is_fd_def nth_Cons split: if_splits nat.splits)

definition display_resource_ok :: "'u server \<Rightarrow> u64 \<Rightarrow> bool" where
  "display_resource_ok s ca \<longleftrightarrow> (\<forall>c. clients s ca = Some c \<longrightarrow> display_resource c \<noteq> 0 \<longrightarrow>
     (\<exists>r. resources s (display_resource c) = Some r \<and> rclient r = ca \<and> rid r = 1 \<and>
        rinterface r = wl_display_interface \<and> rdestroy r = Destroy_client_display_resource))"

lemma post_error_frame:
  assumes "wl_resource_post_error E p code msg s = Some s'" "resources s p = Some r"
    and "display_resource_ok s (rclient r)"
  obtains bs c c' where "emits (rclient r) bs s s'" "clients s (rclient r) = Some c"
    "clients s' (rclient r) = Some c'" "cerror c' \<longleftrightarrow> cerror c \<or> display_resource c \<noteq> 0"
proof -
  obtain c where c: "clients s (rclient r) = Some c"
    using assms(1,2) by (auto simp: wl_resource_post_error_def bind_eq_Some)
  show thesis
  proof (cases "cerror c \<or> display_resource c = 0")
    case True
    with assms(1,2) c have "s' = s" by (auto simp: wl_resource_post_error_def)
    with that [of "[]" c c] emits_refl [OF c] c True show thesis by auto
  next
    case False
    then obtain dr where dr: "resources s (display_resource c) = Some dr" "rclient dr = rclient r"
      "rinterface dr = wl_display_interface"
      using assms(3) c by (auto simp: display_resource_ok_def)
    obtain s1 where s1: "wl_resource_post_event E (display_resource c) WL_DISPLAY_ERROR
        [Arg_o p, Arg_u code, Arg_s (Some (take 127 msg))] s = Some s1"
      "upd_client (rclient r) (cerror_update (\<lambda>_. True)) s1 = Some s'"
      using assms(1,2) c False by (auto simp: wl_resource_post_error_def bind_eq_Some)
    obtain bs where "emits (rclient r) bs s s1"
      using event_frame [OF disjI1 [OF s1(1)] dr(1)] own_events [of "rinterface dr"] dr(2,3) by auto
    note e = emits_error [OF this s1(2)]
    from s1(2) obtain c' where "clients s' (rclient r) = Some c'" "cerror c'"
      by (auto simp: upd_client_def)
    with that [OF e c] False show thesis by auto
  qed
qed

section \<open>Signals\<close>

interpretation sig: signal_store "signal_of ref" "set_signal ref" for ref
  by unfold_locales (auto simp: signal_of_def set_signal_def upd_display_def split: signal_ref.splits)

text \<open>
  C28: Emitting a signal of the server notifies every listener that is still registered when its turn
  comes exactly once, in the order of registration, whatever the listeners remove from the signal.
\<close>

theorem signal_notifies_once:
  assumes "signal_of ref s = Some sg" "distinct (listener_list sg)" "emit_list sg = []"
    and "\<forall>l t sg. signal_of ref t = Some sg \<longrightarrow> (\<exists>t'. notify E l data t = Some t' \<and>
      signal_of ref t' = Some (without (R l) sg) \<and> user t' = user t @ [l])"
  shows "\<exists>s'. emit E ref data s = Some s' \<and> user s' = user s @ visit R (listener_list sg) \<and>
    distinct (visit R (listener_list sg)) \<and>
    signal_of ref s' = Some \<lparr>listener_list = left_over R [] (listener_list sg), emit_list = []\<rparr>"
proof -
  have "user (set_signal ref sg' t) = user t" for sg' and t :: "u64 list server"
    by (simp add: set_signal_def upd_display_def split: signal_ref.splits)
  from sig.emit_visits [of ref "\<lambda>l. notify E l data" R user, OF _ this assms(1)] assms
  show ?thesis by (simp add: emit_def visit_distinct)
qed

text \<open>Listener 1 removes itself and the next one.\<close>

definition listening_env :: "signal_ref \<Rightarrow> u64 list server env" where
  "listening_env ref = \<lparr>malloc = (\<lambda>_. 0), blocks = (\<lambda>_. None),
     notify = (\<lambda>l data t. Some (set_signal ref
        (without (if l = 1 then [1, 2] else []) (the (signal_of ref t))) t\<lparr>user := user t @ [l]\<rparr>)),
     request = (\<lambda>_ _ _ _ _. None), dispatch = (\<lambda>_ _ _ _ _. None), destructor = (\<lambda>_ _ _. None),
     bind_func = (\<lambda>_ _ _ _ _ _. None)\<rparr>"

definition listening_server :: "u64 list server" where
  "listening_server = \<lparr>display = \<lparr>drun = False, did = 1, dserial = 0, registry_resource_list = [], global_list = [],
        client_list = [], protocol_loggers = [], ddestroy_signal = \<lparr>listener_list = [1, 2, 3], emit_list = []\<rparr>,
        create_client_signal = wl_priv_signal_init, additional_shm_formats = wl_array_init, global_filter = None\<rparr>,
     resources = (\<lambda>_. None), clients = (\<lambda>_. None), globals = (\<lambda>_. None), detached = [],
     sockets = (\<lambda>_. quiet), ticks = 0, logged = [], user = []\<rparr>"

theorem signal_notifies_once_witness:
  "\<exists>s. emit (listening_env Display_destroy) Display_destroy 0 listening_server = Some s \<and> user s = [1, 3]"
proof -
  let ?R = "\<lambda>l. if l = 1 then [1, 2] else [] :: u64 list"
  have "\<forall>l t sg. signal_of Display_destroy t = Some sg \<longrightarrow>
      (\<exists>t'. notify (listening_env Display_destroy) l 0 t = Some t' \<and>
        signal_of Display_destroy t' = Some (without (?R l) sg) \<and> user t' = user t @ [l])"
    by (auto simp: listening_env_def signal_of_def set_signal_def upd_display_def)
  from signal_notifies_once [of Display_destroy listening_server _ "listening_env Display_destroy" 0 ?R, OF _ _ _ this]
  show ?thesis by (auto simp: listening_server_def signal_of_def)
qed

end
