(* ===== verification/Wl_Proxy.thy ===== *)
theory Wl_Proxy
  imports Wl_Server
begin

text \<open>
  The client's side of a connection (\<^verbatim>\<open>wayland-client.c\<close>), first part: the display with its errors, proxies
  for the objects of the server, and requests. A proxy is counted: the application holds one reference,
  every event in a queue holds one for each proxy it mentions. What is left of a destroyed proxy in the
  table of ids is a zombie, until the server confirms.
\<close>

section \<open>State\<close>

text \<open>Queues: the two inside the display, and those of the application by address.\<close>

datatype queue_ref = Default_queue | Display_queue | Queue u64

text \<open>
  Listeners: those of the library have names, \<open>Sync_listener\<close> being that of a round trip; for one of the
  application the list says which functions are not null.
\<close>

datatype wl_listener = Display_listener | Sync_listener | Listener nat "bool list"

record wl_proxy =
  pinterface :: interface_spec
  pimplementation :: "wl_listener option"
  pid :: u32
  pqueue :: queue_ref
  pflags :: u32
  prefcount :: int
  puser_data :: u64
  pdispatcher :: "nat option"
  pversion :: u32

text \<open>An event in a queue: the closure and its \<^verbatim>\<open>proxy\<close>.\<close>

record queued_event =
  qclosure :: wl_closure
  qproxy :: u64

record protocol_error =
  ecode :: u32
  einterface :: "interface_spec option"
  eid :: u32

text \<open>
  One display and the proxies and queues that belong to it, by address; \<open>ddisplay\<close> is the address of the
  display, and of its own proxy. The mutex is held by every operation as long as it runs, so it is not a part of the
  state; \<open>synced\<close> are the callbacks of round trips that have been answered.
\<close>

record 'a wl_client_display =
  ddisplay :: u64
  proxies :: "u64 \<Rightarrow> wl_proxy option"
  zombies :: "u64 \<Rightarrow> nat list option"
  queues :: "queue_ref \<Rightarrow> queued_event list option"
  dconnection :: wl_connection
  last_error :: int
  protocol_error :: protocol_error
  dfd :: int
  dobjects :: wl_map
  reader_count :: int
  read_serial :: u32
  dsocket :: os
  dticks :: nat
  synced :: "u64 set"
  application :: 'a

text \<open>
  The world of a client: memory, the interface a name in a table of types stands for, the functions of
  listeners and dispatchers, \<^verbatim>\<open>poll\<close>, and what other threads do while one waits for a condition.
\<close>

record 's client_env =
  cmalloc :: "'s \<Rightarrow> u64"
  cblocks :: allocator
  spec_of :: "wl_interface \<Rightarrow> interface_spec"
  listener_func :: "nat \<Rightarrow> u64 \<Rightarrow> listener_call \<Rightarrow> 's \<Rightarrow> 's option"
  dispatcher_func :: "nat \<Rightarrow> u64 \<Rightarrow> u32 \<Rightarrow> wl_argument list \<Rightarrow> 's \<Rightarrow> 's option"
  poll_call :: "bool \<Rightarrow> 's \<Rightarrow> (int \<times> 's) option"
  others :: "u32 \<Rightarrow> 's \<Rightarrow> 's option"

type_synonym 'a cenv = "'a wl_client_display client_env"

definition WL_PROXY_FLAG_ID_DELETED :: u32 where "WL_PROXY_FLAG_ID_DELETED = 1"
definition WL_PROXY_FLAG_DESTROYED :: u32 where "WL_PROXY_FLAG_DESTROYED = 2"
definition WL_PROXY_FLAG_WRAPPER :: u32 where "WL_PROXY_FLAG_WRAPPER = 4"
definition EFAULT :: int where "EFAULT = 14"
definition EPIPE :: int where "EPIPE = 32"
definition EPROTO :: int where "EPROTO = 71"

definition has_flag :: "u32 \<Rightarrow> wl_proxy \<Rightarrow> bool" where
  "has_flag f P \<longleftrightarrow> pflags P AND f \<noteq> 0"

definition set_proxy :: "u64 \<Rightarrow> wl_proxy option \<Rightarrow> 'a wl_client_display \<Rightarrow> 'a wl_client_display" where
  "set_proxy p P s = s\<lparr>proxies := (proxies s)(p := P)\<rparr>"

definition set_errno :: "int \<Rightarrow> 'a wl_client_display \<Rightarrow> 'a wl_client_display" where
  "set_errno e s = s\<lparr>dsocket := (dsocket s)\<lparr>errno := e\<rparr>\<rparr>"

text \<open>\<^verbatim>\<open>malloc\<close>: a failure sets \<^verbatim>\<open>errno\<close>.\<close>

definition client_malloc :: "'a cenv \<Rightarrow> 'a wl_client_display \<Rightarrow> u64 \<times> 'a wl_client_display" where
  "client_malloc E s =
     (let p = cmalloc E s; s = s\<lparr>dticks := dticks s + 1\<rparr> in (p, if p = 0 then set_errno ENOMEM s else s))"

definition listener_slots :: "wl_listener option \<Rightarrow> bool list" where
  "listener_slots l = (case l of
     None \<Rightarrow> [] | Some Display_listener \<Rightarrow> [True, True] | Some Sync_listener \<Rightarrow> [True] | Some (Listener _ slots) \<Rightarrow> slots)"

definition proxy_object :: "wl_proxy \<Rightarrow> wl_object" where
  "proxy_object P = \<lparr>interface = ispec (pinterface P), implementation = listener_slots (pimplementation P), obj_id = pid P\<rparr>"

definition proxy_objects :: "'a wl_client_display \<Rightarrow> object_store" where
  "proxy_objects s p = map_option proxy_object (proxies s p)"

section \<open>Errors\<close>

definition display_wakeup_threads :: "'a wl_client_display \<Rightarrow> 'a wl_client_display" where
  "display_wakeup_threads s = s\<lparr>read_serial := read_serial s + 1\<rparr>"

definition display_fatal_error :: "int \<Rightarrow> 'a wl_client_display \<Rightarrow> 'a wl_client_display" where
  "display_fatal_error e s =
     (if last_error s \<noteq> 0 then s
      else display_wakeup_threads (s\<lparr>last_error := if e = 0 then EFAULT else e\<rparr>))"

definition display_protocol_error :: "u32 \<Rightarrow> u32 \<Rightarrow> interface_spec option \<Rightarrow> 'a wl_client_display \<Rightarrow> 'a wl_client_display" where
  "display_protocol_error code i intf s =
     (if last_error s \<noteq> 0 then s
      else
        let err = (case intf of
              Some f \<Rightarrow>
                if wl_interface_equal (ispec f) (ispec wl_display_interface) then
                  (if code = WL_DISPLAY_ERROR_INVALID_OBJECT \<or> code = WL_DISPLAY_ERROR_INVALID_METHOD then EINVAL
                   else if code = WL_DISPLAY_ERROR_NO_MEMORY then ENOMEM else EFAULT)
                else EPROTO
            | None \<Rightarrow> EPROTO)
        in s\<lparr>last_error := err, protocol_error := \<lparr>ecode = code, einterface = intf, eid = i\<rparr>\<rparr>)"

section \<open>Proxies\<close>

definition wl_proxy_unref :: "u64 \<Rightarrow> 'a wl_client_display \<Rightarrow> 'a wl_client_display option" where
  "wl_proxy_unref p s = do {
     P \<leftarrow> proxies s p;
     if \<not> prefcount P > 0 then None
     else if prefcount P - 1 > 0 then Some (set_proxy p (Some (P\<lparr>prefcount := prefcount P - 1\<rparr>)) s)
     else if \<not> has_flag WL_PROXY_FLAG_DESTROYED P then None
     else Some (set_proxy p None s)
   }"

definition message_count_fds :: "string \<Rightarrow> nat" where
  "message_count_fds sig = length (filter (\<lambda>d. atype d = CHR ''h'') (details sig))"

definition prepare_zombie :: "'a cenv \<Rightarrow> wl_proxy \<Rightarrow> 'a wl_client_display \<Rightarrow> u64 \<times> 'a wl_client_display" where
  "prepare_zombie E P s =
     (let counts = map (\<lambda>m. message_count_fds (signature m)) (events (pinterface P)) in
      if \<forall>n \<in> set counts. n = 0 then (0, s)
      else
        let (z, s) = client_malloc E s in
        if z = 0 then (0, s) else (z, s\<lparr>zombies := (zombies s)(z \<mapsto> counts)\<rparr>))"

definition proxy_create :: "'a cenv \<Rightarrow> u64 \<Rightarrow> interface_spec \<Rightarrow> u32 \<Rightarrow> 'a wl_client_display \<Rightarrow> (u64 \<times> 'a wl_client_display) option" where
  "proxy_create E factory f version s = do {
     F \<leftarrow> proxies s factory;
     let (p, s) = client_malloc E s;
     if p = 0 then Some (0, s)
     else do {
       (m, i) \<leftarrow> wl_map_insert_new (cblocks E) (dobjects s) 0 p;
       Some (p, set_proxy p (Some \<lparr>pinterface = f, pimplementation = None, pid = i, pqueue = pqueue F, pflags = 0, prefcount = 1,
         puser_data = 0, pdispatcher = None, pversion = version\<rparr>) (s\<lparr>dobjects := m\<rparr>))
     }
   }"

definition wl_proxy_create :: "'a cenv \<Rightarrow> u64 \<Rightarrow> interface_spec \<Rightarrow> 'a wl_client_display \<Rightarrow> (u64 \<times> 'a wl_client_display) option" where
  "wl_proxy_create E factory f s = do { F \<leftarrow> proxies s factory; proxy_create E factory f (pversion F) s }"

definition wl_proxy_create_for_id ::
    "'a cenv \<Rightarrow> u64 \<Rightarrow> u32 \<Rightarrow> interface_spec \<Rightarrow> 'a wl_client_display \<Rightarrow> (u64 \<times> 'a wl_client_display) option" where
  "wl_proxy_create_for_id E factory i f s = do {
     F \<leftarrow> proxies s factory;
     let (p, s) = client_malloc E s;
     if p = 0 then Some (0, s)
     else do {
       (m, _) \<leftarrow> wl_map_insert_at (cblocks E) (dobjects s) 0 i p;
       Some (p, set_proxy p (Some \<lparr>pinterface = f, pimplementation = None, pid = i, pqueue = pqueue F, pflags = 0, prefcount = 1,
         puser_data = 0, pdispatcher = None, pversion = pversion F\<rparr>) (s\<lparr>dobjects := m\<rparr>))
     }
   }"

definition proxy_destroy :: "'a cenv \<Rightarrow> u64 \<Rightarrow> 'a wl_client_display \<Rightarrow> 'a wl_client_display option" where
  "proxy_destroy E p s = do {
     P \<leftarrow> proxies s p;
     s \<leftarrow> (if has_flag WL_PROXY_FLAG_ID_DELETED P then do {
             m \<leftarrow> wl_map_remove (dobjects s) (pid P);
             Some (s\<lparr>dobjects := m\<rparr>)
           }
           else if pid P < WL_SERVER_ID_START then do {
             let (z, s) = prepare_zombie E P s;
             (m, _) \<leftarrow> wl_map_insert_at (cblocks E) (dobjects s) WL_MAP_ENTRY_ZOMBIE (pid P) z;
             Some (s\<lparr>dobjects := m\<rparr>)
           }
           else do {
             (m, _) \<leftarrow> wl_map_insert_at (cblocks E) (dobjects s) 0 (pid P) 0;
             Some (s\<lparr>dobjects := m\<rparr>)
           });
     wl_proxy_unref p (set_proxy p (Some (P\<lparr>pflags := pflags P OR WL_PROXY_FLAG_DESTROYED\<rparr>)) s)
   }"

definition wl_proxy_destroy :: "'a cenv \<Rightarrow> u64 \<Rightarrow> 'a wl_client_display \<Rightarrow> 'a wl_client_display option" where
  "wl_proxy_destroy E p s = do {
     P \<leftarrow> proxies s p;
     if has_flag WL_PROXY_FLAG_WRAPPER P then None else proxy_destroy E p s
   }"

definition wl_proxy_add_listener :: "u64 \<Rightarrow> wl_listener \<Rightarrow> u64 \<Rightarrow> 'a wl_client_display \<Rightarrow> (int \<times> 'a wl_client_display) option" where
  "wl_proxy_add_listener p l data s = do {
     P \<leftarrow> proxies s p;
     if has_flag WL_PROXY_FLAG_WRAPPER P then None
     else if pimplementation P \<noteq> None \<or> pdispatcher P \<noteq> None then Some (-1, s)
     else Some (0, set_proxy p (Some (P\<lparr>pimplementation := Some l, puser_data := data\<rparr>)) s)
   }"

definition wl_proxy_get_listener :: "u64 \<Rightarrow> 'a wl_client_display \<Rightarrow> wl_listener option option" where
  "wl_proxy_get_listener p s = map_option pimplementation (proxies s p)"

definition wl_proxy_add_dispatcher ::
    "u64 \<Rightarrow> nat \<Rightarrow> wl_listener option \<Rightarrow> u64 \<Rightarrow> 'a wl_client_display \<Rightarrow> (int \<times> 'a wl_client_display) option" where
  "wl_proxy_add_dispatcher p d l data s = do {
     P \<leftarrow> proxies s p;
     if has_flag WL_PROXY_FLAG_WRAPPER P then None
     else if pimplementation P \<noteq> None \<or> pdispatcher P \<noteq> None then Some (-1, s)
     else Some (0, set_proxy p (Some (P\<lparr>pimplementation := l, pdispatcher := Some d, puser_data := data\<rparr>)) s)
   }"

definition wl_proxy_set_user_data :: "u64 \<Rightarrow> u64 \<Rightarrow> 'a wl_client_display \<Rightarrow> 'a wl_client_display option" where
  "wl_proxy_set_user_data p data s = do { P \<leftarrow> proxies s p; Some (set_proxy p (Some (P\<lparr>puser_data := data\<rparr>)) s) }"

definition wl_proxy_get_user_data :: "u64 \<Rightarrow> 'a wl_client_display \<Rightarrow> u64 option" where
  "wl_proxy_get_user_data p s = map_option puser_data (proxies s p)"

definition wl_proxy_get_version :: "u64 \<Rightarrow> 'a wl_client_display \<Rightarrow> u32 option" where
  "wl_proxy_get_version p s = map_option pversion (proxies s p)"

definition wl_proxy_get_id :: "u64 \<Rightarrow> 'a wl_client_display \<Rightarrow> u32 option" where
  "wl_proxy_get_id p s = map_option pid (proxies s p)"

definition wl_proxy_get_class :: "u64 \<Rightarrow> 'a wl_client_display \<Rightarrow> string option" where
  "wl_proxy_get_class p s = map_option (\<lambda>P. iname (ispec (pinterface P))) (proxies s p)"

definition wl_proxy_set_queue :: "u64 \<Rightarrow> queue_ref option \<Rightarrow> 'a wl_client_display \<Rightarrow> 'a wl_client_display option" where
  "wl_proxy_set_queue p q s = do {
     P \<leftarrow> proxies s p;
     Some (set_proxy p (Some (P\<lparr>pqueue := (case q of Some q \<Rightarrow> q | None \<Rightarrow> Default_queue)\<rparr>)) s)
   }"

definition wl_proxy_create_wrapper :: "'a cenv \<Rightarrow> u64 \<Rightarrow> 'a wl_client_display \<Rightarrow> (u64 \<times> 'a wl_client_display) option" where
  "wl_proxy_create_wrapper E p s =
     (let (w, s) = client_malloc E s in
      if w = 0 then Some (0, s)
      else do {
        P \<leftarrow> proxies s p;
        Some (w, set_proxy w (Some \<lparr>pinterface = pinterface P, pimplementation = None, pid = pid P, pqueue = pqueue P,
          pflags = WL_PROXY_FLAG_WRAPPER, prefcount = 1, puser_data = 0, pdispatcher = None, pversion = pversion P\<rparr>) s)
      })"

definition wl_proxy_wrapper_destroy :: "u64 \<Rightarrow> 'a wl_client_display \<Rightarrow> 'a wl_client_display option" where
  "wl_proxy_wrapper_destroy w s = do {
     P \<leftarrow> proxies s w;
     if \<not> has_flag WL_PROXY_FLAG_WRAPPER P \<or> prefcount P \<noteq> 1 then None else Some (set_proxy w None s)
   }"

section \<open>Requests\<close>

fun outgoing_loop ::
    "'a cenv \<Rightarrow> u64 \<Rightarrow> interface_spec \<Rightarrow> u32 \<Rightarrow> nat \<Rightarrow> argument_details list \<Rightarrow> wl_argument list \<Rightarrow> u64 \<Rightarrow>
     'a wl_client_display \<Rightarrow> (u64 \<times> wl_argument list \<times> 'a wl_client_display) option" where
  "outgoing_loop E p f version i [] args new s = Some (new, args, s)"
| "outgoing_loop E p f version i (d # ds) args new s =
     (if atype d = CHR ''n'' then do {
        (q, s) \<leftarrow> proxy_create E p f version s;
        if q = 0 then Some (0, args, s) else outgoing_loop E p f version (Suc i) ds (args[i := Arg_o q]) q s
      }
      else outgoing_loop E p f version (Suc i) ds args new s)"

definition create_outgoing_proxy ::
    "'a cenv \<Rightarrow> u64 \<Rightarrow> wl_message \<Rightarrow> wl_argument list \<Rightarrow> interface_spec \<Rightarrow> u32 \<Rightarrow> 'a wl_client_display \<Rightarrow>
     (u64 \<times> wl_argument list \<times> 'a wl_client_display) option" where
  "create_outgoing_proxy E p message args f version s = outgoing_loop E p f version 0 (details (signature message)) args 0 s"

definition wl_proxy_marshal_array_constructor_versioned ::
    "'a cenv \<Rightarrow> u64 \<Rightarrow> u32 \<Rightarrow> wl_argument list \<Rightarrow> interface_spec option \<Rightarrow> u32 \<Rightarrow> 'a wl_client_display \<Rightarrow>
     (u64 \<times> 'a wl_client_display) option" where
  "wl_proxy_marshal_array_constructor_versioned E p opcode args f version s = do {
     P \<leftarrow> proxies s p;
     message \<leftarrow> nth_message (methods (pinterface P)) opcode;
     (new, args, s) \<leftarrow> (case f of None \<Rightarrow> Some (0, args, s) | Some f \<Rightarrow> create_outgoing_proxy E p message args f version s);
     if f \<noteq> None \<and> new = 0 then Some (0, s)
     else do {
       let (mem, s) = client_malloc E s;
       case wl_closure_marshal (mem \<noteq> 0) (proxy_objects s) (proxy_object P) opcode args message (dsocket s) of
         Inl _ \<Rightarrow> None
       | Inr (None, w) \<Rightarrow> None
       | Inr (Some cl, w) \<Rightarrow> do {
           (cl, conn, w, ret) \<leftarrow> wl_closure_send (cblocks E) (proxy_objects s) cl (dconnection s) w;
           if ret \<noteq> 0 then None
           else Some (new, s\<lparr>dconnection := conn, dsocket := wl_closure_destroy (Some cl) w\<rparr>)
         }
     }
   }"

definition wl_proxy_marshal_array_constructor ::
    "'a cenv \<Rightarrow> u64 \<Rightarrow> u32 \<Rightarrow> wl_argument list \<Rightarrow> interface_spec option \<Rightarrow> 'a wl_client_display \<Rightarrow> (u64 \<times> 'a wl_client_display) option" where
  "wl_proxy_marshal_array_constructor E p opcode args f s = do {
     P \<leftarrow> proxies s p;
     wl_proxy_marshal_array_constructor_versioned E p opcode args f (pversion P) s
   }"

definition wl_proxy_marshal_array :: "'a cenv \<Rightarrow> u64 \<Rightarrow> u32 \<Rightarrow> wl_argument list \<Rightarrow> 'a wl_client_display \<Rightarrow> 'a wl_client_display option" where
  "wl_proxy_marshal_array E p opcode args s = map_option snd (wl_proxy_marshal_array_constructor E p opcode args None s)"

text \<open>The variants with a variable number of arguments.\<close>

definition va_request :: "u64 \<Rightarrow> u32 \<Rightarrow> wl_argument list \<Rightarrow> 'a wl_client_display \<Rightarrow> wl_argument list option" where
  "va_request p opcode ap s = do {
     P \<leftarrow> proxies s p;
     m \<leftarrow> nth_message (methods (pinterface P)) opcode;
     case wl_argument_from_va_list (signature m) (replicate WL_CLOSURE_MAX_ARGS Arg_unset) WL_CLOSURE_MAX_ARGS ap of
       Inl _ \<Rightarrow> None | Inr args \<Rightarrow> Some args
   }"

definition wl_proxy_marshal :: "'a cenv \<Rightarrow> u64 \<Rightarrow> u32 \<Rightarrow> wl_argument list \<Rightarrow> 'a wl_client_display \<Rightarrow> 'a wl_client_display option" where
  "wl_proxy_marshal E p opcode ap s = do {
     args \<leftarrow> va_request p opcode ap s;
     map_option snd (wl_proxy_marshal_array_constructor E p opcode args None s)
   }"

definition wl_proxy_marshal_constructor ::
    "'a cenv \<Rightarrow> u64 \<Rightarrow> u32 \<Rightarrow> interface_spec \<Rightarrow> wl_argument list \<Rightarrow> 'a wl_client_display \<Rightarrow> (u64 \<times> 'a wl_client_display) option" where
  "wl_proxy_marshal_constructor E p opcode f ap s = do {
     args \<leftarrow> va_request p opcode ap s;
     wl_proxy_marshal_array_constructor E p opcode args (Some f) s
   }"

definition wl_proxy_marshal_constructor_versioned ::
    "'a cenv \<Rightarrow> u64 \<Rightarrow> u32 \<Rightarrow> interface_spec \<Rightarrow> u32 \<Rightarrow> wl_argument list \<Rightarrow> 'a wl_client_display \<Rightarrow> (u64 \<times> 'a wl_client_display) option" where
  "wl_proxy_marshal_constructor_versioned E p opcode f version ap s = do {
     args \<leftarrow> va_request p opcode ap s;
     wl_proxy_marshal_array_constructor_versioned E p opcode args (Some f) version s
   }"

section \<open>Events of the display\<close>

definition display_handle_error :: "u64 \<Rightarrow> u32 \<Rightarrow> 'a wl_client_display \<Rightarrow> 'a wl_client_display option" where
  "display_handle_error obj code s =
     (if obj = 0 then Some (display_protocol_error code 0 None s)
      else do { P \<leftarrow> proxies s obj; Some (display_protocol_error code (pid P) (Some (pinterface P)) s) })"

definition display_handle_delete_id :: "u32 \<Rightarrow> 'a wl_client_display \<Rightarrow> 'a wl_client_display option" where
  "display_handle_delete_id i s = do {
     p \<leftarrow> wl_map_lookup (dobjects s) i;
     zombie \<leftarrow> wl_object_is_zombie (dobjects s) i;
     if zombie then do {
       m \<leftarrow> wl_map_remove (dobjects s) i;
       Some (s\<lparr>zombies := (zombies s)(p := None), dobjects := m\<rparr>)
     }
     else if p \<noteq> 0 then do {
       P \<leftarrow> proxies s p;
       Some (set_proxy p (Some (P\<lparr>pflags := pflags P OR WL_PROXY_FLAG_ID_DELETED\<rparr>)) s)
     }
     else Some s
   }"

section \<open>The display\<close>

text \<open>
  A new display on a descriptor. \<open>mem\<close> says whether the two allocations of \<^verbatim>\<open>wl_connection_create\<close> succeed; what
  is left of a display that fails is \<open>None\<close> with the descriptor closed.
\<close>

definition wl_display_connect_to_fd :: "'a cenv \<Rightarrow> int \<Rightarrow> bool \<Rightarrow> os \<Rightarrow> 'a wl_client_display \<Rightarrow> ('a wl_client_display option \<times> os) option" where
  "wl_display_connect_to_fd E fd mem w s =
     (let (d, s) = client_malloc E s; closed_fd = (None, w\<lparr>closed := closed w @ [of_int fd]\<rparr>) in
      if d = 0 then Some closed_fd
      else do {
        let m = wl_map_init WL_MAP_CLIENT_SIDE;
        (m, _) \<leftarrow> wl_map_insert_new (cblocks E) m 0 0;
        (m, i) \<leftarrow> wl_map_insert_new (cblocks E) m 0 d;
        case wl_connection_create mem fd of
          None \<Rightarrow> Some closed_fd
        | Some conn \<Rightarrow> Some (Some (s\<lparr>ddisplay := d,
            proxies := [d \<mapsto> \<lparr>pinterface = wl_display_interface, pimplementation = Some Display_listener, pid = i, pqueue = Default_queue,
              pflags = 0, prefcount = 1, puser_data = d, pdispatcher = None, pversion = 0\<rparr>],
            zombies := Map.empty, queues := [Default_queue \<mapsto> [], Display_queue \<mapsto> []], dconnection := conn, last_error := 0,
            protocol_error := \<lparr>ecode = 0, einterface = None, eid = 0\<rparr>, dfd := fd, dobjects := m, reader_count := 0,
            read_serial := 0, dsocket := w, synced := {}\<rparr>), w)
      })"

definition wl_display_get_fd :: "'a wl_client_display \<Rightarrow> int" where
  "wl_display_get_fd s = dfd s"

definition wl_display_get_error :: "'a wl_client_display \<Rightarrow> int" where
  "wl_display_get_error s = last_error s"

definition wl_display_get_protocol_error :: "'a wl_client_display \<Rightarrow> u32 \<times> interface_spec option \<times> u32" where
  "wl_display_get_protocol_error s =
     (ecode (protocol_error s), einterface (protocol_error s), eid (protocol_error s))"

end
