(* ===== verification/Wl_Queue.thy ===== *)
theory Wl_Queue
  imports Wl_Proxy
begin

text \<open>
  The client's side, second part: event queues. The bytes of the connection become closures in the queue of the
  proxy they are for, and closures become calls of listeners. A closure in a queue holds a reference to its proxy
  and to every proxy among its arguments.
\<close>

section \<open>Closures in queues\<close>

text \<open>The positions the loops over a signature stop at: new objects and objects.\<close>

definition object_slots :: "wl_closure \<Rightarrow> nat list" where
  "object_slots cl = map fst (filter (\<lambda>(i, d). atype d = CHR ''n'' \<or> atype d = CHR ''o'') (enumerate 0 (details (signature (cmessage cl)))))"

text \<open>The pointer in an argument, \<open>None\<close> when there is no such argument or it holds something else.\<close>

definition slot_proxy :: "wl_closure \<Rightarrow> nat \<Rightarrow> u64 option" where
  "slot_proxy cl i =
     (if i < length (cargs cl) then (case cargs cl ! i of Arg_o p \<Rightarrow> Some p | _ \<Rightarrow> None) else None)"

definition validate_slot :: "'a wl_client_display \<Rightarrow> nat \<Rightarrow> wl_closure \<Rightarrow> wl_closure option" where
  "validate_slot s i cl = do {
     p \<leftarrow> slot_proxy cl i;
     if p = 0 then Some cl
     else do {
       P \<leftarrow> proxies s p;
       Some (if has_flag WL_PROXY_FLAG_DESTROYED P then cl\<lparr>cargs := (cargs cl)[i := Arg_o 0]\<rparr> else cl)
     }
   }"

definition validate_closure_objects :: "wl_closure \<Rightarrow> 'a wl_client_display \<Rightarrow> wl_closure option" where
  "validate_closure_objects cl s = ofold (validate_slot s) (object_slots cl) cl"

definition unref_slot :: "wl_closure \<Rightarrow> nat \<Rightarrow> 'a wl_client_display \<Rightarrow> 'a wl_client_display option" where
  "unref_slot cl i s = do { p \<leftarrow> slot_proxy cl i; if p \<noteq> 0 then wl_proxy_unref p s else Some s }"

definition destroy_queued_closure :: "queued_event \<Rightarrow> 'a wl_client_display \<Rightarrow> 'a wl_client_display option" where
  "destroy_queued_closure ev s = do {
     s \<leftarrow> ofold (unref_slot (qclosure ev)) (object_slots (qclosure ev)) s;
     s \<leftarrow> wl_proxy_unref (qproxy ev) s;
     Some (s\<lparr>dsocket := wl_closure_destroy (Some (qclosure ev)) (dsocket s)\<rparr>)
   }"

definition set_queue :: "queue_ref \<Rightarrow> queued_event list option \<Rightarrow> 'a wl_client_display \<Rightarrow> 'a wl_client_display" where
  "set_queue q evs s = s\<lparr>queues := (queues s)(q := evs)\<rparr>"

text \<open>The loop takes the events off one by one; its body does not put new ones in.\<close>

fun release_events :: "queue_ref \<Rightarrow> queued_event list \<Rightarrow> 'a wl_client_display \<Rightarrow> 'a wl_client_display option" where
  "release_events q [] s = Some s"
| "release_events q (ev # evs) s = Option.bind (destroy_queued_closure ev (set_queue q (Some evs) s)) (release_events q evs)"

definition wl_event_queue_release :: "queue_ref \<Rightarrow> 'a wl_client_display \<Rightarrow> 'a wl_client_display option" where
  "wl_event_queue_release q s = do { evs \<leftarrow> queues s q; release_events q evs s }"

definition wl_event_queue_destroy :: "queue_ref \<Rightarrow> 'a wl_client_display \<Rightarrow> 'a wl_client_display option" where
  "wl_event_queue_destroy q s = do { s \<leftarrow> wl_event_queue_release q s; Some (set_queue q None s) }"

definition wl_display_create_queue :: "'a cenv \<Rightarrow> 'a wl_client_display \<Rightarrow> queue_ref option \<times> 'a wl_client_display" where
  "wl_display_create_queue E s =
     (let (a, s) = client_malloc E s in if a = 0 then (None, s) else (Some (Queue a), set_queue (Queue a) (Some []) s))"

section \<open>Queueing\<close>

text \<open>
  A proxy for every new object of an event. An entry of the message's \<^verbatim>\<open>types\<close> that is missing or null would make a
  proxy without an interface: \<open>None\<close>.
\<close>

fun create_loop ::
    "'a cenv \<Rightarrow> u64 \<Rightarrow> wl_message \<Rightarrow> nat \<Rightarrow> argument_details list \<Rightarrow> wl_argument list \<Rightarrow> 'a wl_client_display \<Rightarrow>
     (wl_argument list \<times> int \<times> 'a wl_client_display) option" where
  "create_loop E sender message i [] args s = Some (args, 0, s)"
| "create_loop E sender message i (d # ds) args s =
     (if atype d = CHR ''n'' then
        (case args ! i of
           Arg_n id' \<Rightarrow>
             if id' = 0 then create_loop E sender message (Suc i) ds (args[i := Arg_o 0]) s
             else if length (types message) \<le> i then None
             else do {
               f \<leftarrow> types message ! i;
               (p, s) \<leftarrow> wl_proxy_create_for_id E sender id' (spec_of E f) s;
               if p = 0 then Some (args, -1, s)
               else create_loop E sender message (Suc i) ds (args[i := Arg_o p]) s
             }
         | _ \<Rightarrow> None)
      else create_loop E sender message (Suc i) ds args s)"

definition create_proxies ::
    "'a cenv \<Rightarrow> u64 \<Rightarrow> wl_closure \<Rightarrow> 'a wl_client_display \<Rightarrow> (wl_closure \<times> int \<times> 'a wl_client_display) option" where
  "create_proxies E sender cl s = do {
     (args, ret, s) \<leftarrow> create_loop E sender (cmessage cl) 0 (details (signature (cmessage cl))) (cargs cl) s;
     Some (cl\<lparr>cargs := args\<rparr>, ret, s)
   }"

definition proxy_ref :: "u64 \<Rightarrow> 'a wl_client_display \<Rightarrow> 'a wl_client_display option" where
  "proxy_ref p s = do { P \<leftarrow> proxies s p; Some (set_proxy p (Some (P\<lparr>prefcount := prefcount P + 1\<rparr>)) s) }"

definition ref_slot :: "wl_closure \<Rightarrow> nat \<Rightarrow> 'a wl_client_display \<Rightarrow> 'a wl_client_display option" where
  "ref_slot cl i s = do { p \<leftarrow> slot_proxy cl i; if p \<noteq> 0 then proxy_ref p s else Some s }"

definition increase_closure_args_refcount :: "queued_event \<Rightarrow> 'a wl_client_display \<Rightarrow> 'a wl_client_display option" where
  "increase_closure_args_refcount ev s = do {
     s \<leftarrow> ofold (ref_slot (qclosure ev)) (object_slots (qclosure ev)) s;
     proxy_ref (qproxy ev) s
   }"

text \<open>An event for an object that is gone: the descriptors that came with it are closed.\<close>

definition eat_event :: "u64 \<Rightarrow> u32 \<Rightarrow> u32 \<Rightarrow> 'a wl_client_display \<Rightarrow> 'a wl_client_display option" where
  "eat_event z opcode sz s = do {
     n \<leftarrow> (if z = 0 then Some 0
          else do { counts \<leftarrow> zombies s z; if unat opcode < length counts then Some (counts ! unat opcode) else None });
     let (conn, w) = (if n \<noteq> 0 then wl_connection_close_fds_in (dconnection s) (int n) (dsocket s) else (dconnection s, dsocket s));
     Some (s\<lparr>dconnection := wl_connection_consume conn (unat sz), dsocket := w\<rparr>)
   }"

definition append_event :: "u64 \<Rightarrow> wl_closure \<Rightarrow> 'a wl_client_display \<Rightarrow> 'a wl_client_display option" where
  "append_event p cl s = do {
     let ev = \<lparr>qclosure = cl, qproxy = p\<rparr>;
     s \<leftarrow> increase_closure_args_refcount ev s;
     P \<leftarrow> proxies s p;
     let q = (if p = ddisplay s then Display_queue else pqueue P);
     evs \<leftarrow> queues s q;
     Some (set_queue q (Some (evs @ [ev])) s)
   }"

definition drop_closure :: "wl_closure \<Rightarrow> 'a wl_client_display \<Rightarrow> 'a wl_client_display" where
  "drop_closure cl s = s\<lparr>dsocket := wl_closure_destroy (Some cl) (dsocket s)\<rparr>"

text \<open>
  \<^verbatim>\<open>queue_event\<close> for a proxy that is there, in two parts: the closure is built, then its objects are resolved and it is
  queued. The table of events is indexed with the opcode as received: \<open>None\<close> when it is beyond the end.
\<close>

definition resolve_event :: "'a cenv \<Rightarrow> u64 \<Rightarrow> u32 \<Rightarrow> wl_closure \<Rightarrow> 'a wl_client_display \<Rightarrow> (int \<times> 'a wl_client_display) option" where
  "resolve_event E p sz cl s = do {
     (cl, ret, s) \<leftarrow> create_proxies E p cl s;
     if ret < 0 then Some (-1, drop_closure cl s)
     else case wl_closure_lookup_objects (proxy_objects s) cl (dobjects s) of
       Inl _ \<Rightarrow> None
     | Inr (cl, ret) \<Rightarrow>
         if ret \<noteq> 0 then Some (-1, set_errno EINVAL (drop_closure cl s))
         else do { s \<leftarrow> append_event p cl s; Some (int (unat sz), s) }
   }"

definition receive_event :: "'a cenv \<Rightarrow> u64 \<Rightarrow> u32 \<Rightarrow> u32 \<Rightarrow> 'a wl_client_display \<Rightarrow> (int \<times> 'a wl_client_display) option" where
  "receive_event E p opcode sz s = do {
     P \<leftarrow> proxies s p;
     message \<leftarrow> nth_message (events (pinterface P)) opcode;
     let (mem, s) = client_malloc E s;
     case wl_connection_demarshal (mem \<noteq> 0) (cblocks E) (dconnection s) sz (dobjects s) message (dsocket s) of
       Inl _ \<Rightarrow> None
     | Inr (res, conn, m, w) \<Rightarrow>
         let s = s\<lparr>dconnection := conn, dobjects := m, dsocket := w\<rparr> in
         (case res of None \<Rightarrow> Some (-1, s) | Some cl \<Rightarrow> resolve_event E p sz cl s)
   }"

text \<open>The size of the event, 0 when it is not complete, -1 for an error.\<close>

definition queue_event :: "'a cenv \<Rightarrow> int \<Rightarrow> 'a wl_client_display \<Rightarrow> (int \<times> 'a wl_client_display) option" where
  "queue_event E len s =
     (let buf = wl_connection_copy (dconnection s) 8;
          p0 = (load 4 0 buf :: u32);
          p1 = (load 4 4 buf :: u32);
          opcode = p1 AND 0xffff;
          sz = drop_bit 16 p1
      in if len < int (unat sz) then Some (0, s)
      else do {
        p \<leftarrow> wl_map_lookup (dobjects s) p0;
        zombie \<leftarrow> wl_object_is_zombie (dobjects s) p0;
        if p = 0 \<or> zombie then do { s \<leftarrow> eat_event p opcode sz s; Some (int (unat sz), s) }
        else receive_event E p opcode sz s
      })"

lemma resolve_event_size: "resolve_event E p sz cl s = Some (r, t) \<Longrightarrow> r = -1 \<or> r = int (unat sz)"
  unfolding resolve_event_def by (auto simp: bind_eq_Some split: if_split_asm sum.split_asm)

text \<open>What a step of the receiver does to the state before the event is resolved.\<close>

lemma receive_event_cases:
  assumes "receive_event E p opcode sz s = Some (r, t)"
  obtains P message res conn m w where "proxies s p = Some P" "nth_message (events (pinterface P)) opcode = Some message"
    "wl_connection_demarshal (cmalloc E s \<noteq> 0) (cblocks E) (dconnection s) sz (dobjects s) message (dsocket (snd (client_malloc E s))) =
       Inr (res, conn, m, w)"
    "(case res of
        None \<Rightarrow> r = -1 \<and> t = (snd (client_malloc E s))\<lparr>dconnection := conn, dobjects := m, dsocket := w\<rparr>
      | Some cl \<Rightarrow> resolve_event E p sz cl ((snd (client_malloc E s))\<lparr>dconnection := conn, dobjects := m, dsocket := w\<rparr>) = Some (r, t))"
proof -
  obtain mem s' where m: "client_malloc E s = (mem, s')" by fastforce
  have m': "mem = cmalloc E s" "dconnection s' = dconnection s" "dobjects s' = dobjects s"
    using m by (auto simp: client_malloc_def set_errno_def Let_def split: if_split_asm)
  obtain P message where P: "proxies s p = Some P" "nth_message (events (pinterface P)) opcode = Some message"
    using assms unfolding receive_event_def by (auto simp: bind_eq_Some)
  let ?d = "wl_connection_demarshal (mem \<noteq> 0) (cblocks E) (dconnection s') sz (dobjects s') message (dsocket s')"
  show ?thesis
  proof (cases ?d)
    case (Inl e)
    then show ?thesis using assms P m by (simp add: receive_event_def)
  next
    case (Inr x)
    obtain res conn om w where x: "x = (res, conn, om, w)" by (cases x) auto
    show ?thesis
      by (rule that [of P message res conn om w]) (use assms P m m' Inr x in \<open>auto simp: receive_event_def split: option.splits\<close>)
  qed
qed

lemma receive_event_size: "receive_event E p opcode sz s = Some (r, t) \<Longrightarrow> r = -1 \<or> r = int (unat sz)"
  by (elim receive_event_cases) (auto split: option.split_asm dest: resolve_event_size)

definition event_header :: "'a wl_client_display \<Rightarrow> u32 \<times> u32 \<times> u32" where
  "event_header s =
     (let buf = wl_connection_copy (dconnection s) 8; p1 = (load 4 4 buf :: u32)
      in (load 4 0 buf, p1 AND 0xffff, drop_bit 16 p1))"

lemma queue_event_cases:
  assumes "queue_event E len s = Some (r, t)" and "event_header s = (p0, opcode, sz)"
  obtains (incomplete) "len < int (unat sz)" "r = 0" "t = s"
  | (gone) p where "int (unat sz) \<le> len" "wl_map_lookup (dobjects s) p0 = Some p" "p = 0 \<or> wl_object_is_zombie (dobjects s) p0 = Some True"
      "eat_event p opcode sz s = Some t" "r = int (unat sz)"
  | (there) p where "int (unat sz) \<le> len" "wl_map_lookup (dobjects s) p0 = Some p" "p \<noteq> 0" "wl_object_is_zombie (dobjects s) p0 = Some False"
      "receive_event E p opcode sz s = Some (r, t)"
proof (cases "len < int (unat sz)")
  case True
  then show ?thesis using assms incomplete by (simp add: queue_event_def event_header_def Let_def)
next
  case False
  then obtain p zombie where p: "wl_map_lookup (dobjects s) p0 = Some p" "wl_object_is_zombie (dobjects s) p0 = Some zombie"
    and r: "(if p = 0 \<or> zombie then do { s \<leftarrow> eat_event p opcode sz s; Some (int (unat sz), s) } else receive_event E p opcode sz s) = Some (r, t)"
    using assms by (auto simp: queue_event_def event_header_def Let_def bind_eq_Some)
  show ?thesis
  proof (cases "p = 0 \<or> zombie")
    case True
    with r have r': "eat_event p opcode sz s = Some t" "r = int (unat sz)" by (simp_all add: bind_eq_Some)
    show ?thesis by (rule gone [OF _ p(1) _ r']) (use False True p(2) in auto)
  next
    case zombie: False
    with r have r': "receive_event E p opcode sz s = Some (r, t)" by simp
    show ?thesis by (rule there [OF _ p(1) _ _ r']) (use False zombie p(2) in auto)
  qed
qed

lemma queue_event_size:
  assumes "queue_event E len s = Some (r, t)" "0 \<le> len"
  shows "r = -1 \<or> 0 \<le> r \<and> r \<le> len"
proof -
  obtain p0 opcode sz where h: "event_header s = (p0, opcode, sz)" by (metis prod_cases3)
  show ?thesis
    using assms(1) h
  proof (cases rule: queue_event_cases)
    case incomplete
    then show ?thesis using assms(2) by simp
  next
    case (gone p)
    from gone(1,5) show ?thesis by simp
  next
    case (there p)
    from receive_event_size [OF there(5)] there(1) show ?thesis by (elim disjE) simp_all
  qed
qed

lemma queue_event_shrinks:
  assumes "8 \<le> rem" "queue_event E rem s = Some x" "(sz, t) = x" "sz \<noteq> -1" "sz \<noteq> 0"
  shows "nat (rem - sz) < nat rem"
  using queue_event_size [of E rem s sz t] assms by simp

function queue_events :: "'a cenv \<Rightarrow> int \<Rightarrow> 'a wl_client_display \<Rightarrow> (int \<times> 'a wl_client_display) option" where
  "queue_events E rem s =
     (if rem \<ge> 8 then
        (case queue_event E rem s of
           None \<Rightarrow> None
         | Some (sz, s) \<Rightarrow>
             if sz = -1 then Some (-1, display_fatal_error (errno (dsocket s)) s)
             else if sz = 0 then Some (0, s)
             else queue_events E (rem - sz) s)
      else Some (0, s))"
  by pat_completeness auto
termination
  by (relation "measure (\<lambda>(E, rem, s). nat rem)", rule wf_measure) (simp only: in_measure prod.case, rule queue_event_shrinks)

declare queue_events.simps [simp del]

section \<open>Dispatching\<close>

text \<open>
  \<^verbatim>\<open>dispatch_event\<close> up to the call: the event leaves its queue, and destroyed proxies leave its arguments. The
  result says whether the proxy of the event is destroyed.
\<close>

definition take_event :: "queue_ref \<Rightarrow> 'a wl_client_display \<Rightarrow> (queued_event \<times> bool \<times> 'a wl_client_display) option" where
  "take_event q s = do {
     evs \<leftarrow> queues s q;
     case evs of
       [] \<Rightarrow> None
     | ev # evs \<Rightarrow> do {
         let s = set_queue q (Some evs) s;
         cl \<leftarrow> validate_closure_objects (qclosure ev) s;
         P \<leftarrow> proxies s (qproxy ev);
         Some (ev\<lparr>qclosure := cl\<rparr>, has_flag WL_PROXY_FLAG_DESTROYED P, s)
       }
   }"

lemma take_event_cases:
  assumes "take_event q s = Some (ev, d, t)"
  obtains ev0 evs cl P where "queues s q = Some (ev0 # evs)" "t = set_queue q (Some evs) s"
    "validate_closure_objects (qclosure ev0) t = Some cl" "ev = ev0\<lparr>qclosure := cl\<rparr>"
    "proxies s (qproxy ev0) = Some P" "d = has_flag WL_PROXY_FLAG_DESTROYED P"
proof -
  obtain evs' where q: "queues s q = Some evs'" using assms by (auto simp: take_event_def bind_eq_Some)
  then obtain ev0 evs where evs: "evs' = ev0 # evs" using assms by (cases evs') (auto simp: take_event_def)
  have px: "proxies (set_queue q (Some evs) s) = proxies s" by (simp add: set_queue_def)
  show ?thesis
    using assms q evs that [of ev0 evs] by (auto simp: take_event_def bind_eq_Some Let_def px)
qed

text \<open>A call of the function in the listener of a proxy.\<close>

definition run_listener :: "'a cenv \<Rightarrow> u64 \<Rightarrow> wl_listener \<Rightarrow> listener_call \<Rightarrow> 'a wl_client_display \<Rightarrow> 'a wl_client_display option" where
  "run_listener E p l call s =
     (case l of
        Display_listener \<Rightarrow>
          (case call_args call of
             [Arg_o obj, Arg_u code, Arg_s msg] \<Rightarrow> if call_opcode call = 0 then display_handle_error obj code s else None
           | [Arg_u i] \<Rightarrow> if call_opcode call = 1 then display_handle_delete_id i s else None
           | _ \<Rightarrow> None)
      | Sync_listener \<Rightarrow> wl_proxy_destroy E p (s\<lparr>synced := insert p (synced s)\<rparr>)
      | Listener k _ \<Rightarrow> listener_func E k p call s)"

text \<open>
  The call itself, made without the lock, and what is left of the closure: its descriptors belong to the listener
  when there is one.
\<close>

definition call_event :: "'a cenv \<Rightarrow> queued_event \<Rightarrow> 'a wl_client_display \<Rightarrow> (queued_event \<times> 'a wl_client_display) option" where
  "call_event E ev s = do {
     P \<leftarrow> proxies s (qproxy ev);
     let cl = qclosure ev;
     let opcode = copcode cl;
     case pdispatcher P of
       Some d \<Rightarrow> do {
         s \<leftarrow> dispatcher_func E d (qproxy ev) opcode (take (ccount cl) (cargs cl)) s;
         Some (ev\<lparr>qclosure := wl_closure_clear_fds cl\<rparr>, s)
       }
     | None \<Rightarrow>
         (case pimplementation P of
            None \<Rightarrow> Some (ev, s)
          | Some l \<Rightarrow>
              (case wl_closure_invoke cl WL_CLOSURE_INVOKE_CLIENT (proxy_object P) (unat opcode) of
                 Inl _ \<Rightarrow> None
               | Inr (call, cl) \<Rightarrow> do { s \<leftarrow> run_listener E (qproxy ev) l call s; Some (ev\<lparr>qclosure := cl\<rparr>, s) }))
   }"

definition dispatch_event :: "'a cenv \<Rightarrow> queue_ref \<Rightarrow> 'a wl_client_display \<Rightarrow> 'a wl_client_display option" where
  "dispatch_event E q s = do {
     (ev, proxy_destroyed, s) \<leftarrow> take_event q s;
     (ev, s) \<leftarrow> (if proxy_destroyed then Some (ev, s) else call_event E ev s);
     destroy_queued_closure ev s
   }"

text \<open>The two loops of \<^verbatim>\<open>dispatch_queue\<close>: the number of events, or -1 for an error of the display.\<close>

partial_function (option) dispatch_all :: "'a cenv \<Rightarrow> queue_ref \<Rightarrow> int \<Rightarrow> 'a wl_client_display \<Rightarrow> (int \<times> 'a wl_client_display) option" where
  "dispatch_all E q count s =
     Option.bind (queues s q) (\<lambda>evs.
       if evs = [] then Some (count, s)
       else Option.bind (dispatch_event E q s) (\<lambda>s.
         if last_error s \<noteq> 0 then Some (-1, s) else dispatch_all E q (count + 1) s))"

definition dispatch_queue :: "'a cenv \<Rightarrow> queue_ref \<Rightarrow> 'a wl_client_display \<Rightarrow> (int \<times> 'a wl_client_display) option" where
  "dispatch_queue E q s =
     (if last_error s \<noteq> 0 then Some (-1, set_errno (last_error s) s)
      else do {
        (count, s) \<leftarrow> dispatch_all E Display_queue 0 s;
        (count, s) \<leftarrow> (if count = -1 then Some (-1, s) else dispatch_all E q count s);
        if count = -1 then Some (-1, set_errno (last_error s) s) else Some (count, s)
      })"

definition wl_display_dispatch_queue_pending :: "'a cenv \<Rightarrow> queue_ref \<Rightarrow> 'a wl_client_display \<Rightarrow> (int \<times> 'a wl_client_display) option" where
  "wl_display_dispatch_queue_pending E q s = dispatch_queue E q s"

definition wl_display_dispatch_pending :: "'a cenv \<Rightarrow> 'a wl_client_display \<Rightarrow> (int \<times> 'a wl_client_display) option" where
  "wl_display_dispatch_pending E s = wl_display_dispatch_queue_pending E Default_queue s"

section \<open>Reading\<close>

text \<open>
  A thread that is not the last reader waits, and remembers the serial it saw; \<open>Waits\<close> is where it gives up the lock.
\<close>

datatype read_result = Returned int | Waits u32

definition read_socket :: "'a cenv \<Rightarrow> 'a wl_client_display \<Rightarrow> (int \<times> 'a wl_client_display) option" where
  "read_socket E s = do {
     (conn, w, total) \<leftarrow> wl_connection_read (dconnection s) (dsocket s);
     let s = s\<lparr>dconnection := conn, dsocket := w\<rparr>;
     if total = -1 then
       (if errno w = EAGAIN then Some (0, display_wakeup_threads s)
        else Some (-1, display_fatal_error (errno w) s))
     else if total = 0 then Some (-1, display_fatal_error EPIPE (set_errno EPIPE s))
     else do {
       (ret, s) \<leftarrow> queue_events E total s;
       if ret = -1 then Some (-1, s) else Some (0, display_wakeup_threads s)
     }
   }"

definition read_events :: "'a cenv \<Rightarrow> 'a wl_client_display \<Rightarrow> (read_result \<times> 'a wl_client_display) option" where
  "read_events E s =
     (let s = s\<lparr>reader_count := reader_count s - 1\<rparr> in
      if reader_count s = 0 then do { (ret, s) \<leftarrow> read_socket E s; Some (Returned ret, s) }
      else Some (Waits (read_serial s), s))"

text \<open>The rest of \<^verbatim>\<open>read_events\<close> for a thread that waited: \<open>None\<close> as long as the serial is the one it saw.\<close>

definition read_resume :: "u32 \<Rightarrow> 'a wl_client_display \<Rightarrow> (int \<times> 'a wl_client_display) option" where
  "read_resume serial s =
     (if read_serial s = serial then None
      else if last_error s \<noteq> 0 then Some (-1, set_errno (last_error s) s)
      else Some (0, s))"

definition cancel_read :: "'a wl_client_display \<Rightarrow> 'a wl_client_display" where
  "cancel_read s =
     (let s = s\<lparr>reader_count := reader_count s - 1\<rparr> in if reader_count s = 0 then display_wakeup_threads s else s)"

definition start_read :: "'a cenv \<Rightarrow> 'a wl_client_display \<Rightarrow> (read_result \<times> 'a wl_client_display) option" where
  "start_read E s =
     (if last_error s \<noteq> 0 then Some (Returned (-1), set_errno (last_error s) (cancel_read s)) else read_events E s)"

definition wl_display_read_events :: "'a cenv \<Rightarrow> 'a wl_client_display \<Rightarrow> (int \<times> 'a wl_client_display) option" where
  "wl_display_read_events E s = do {
     (res, s) \<leftarrow> start_read E s;
     case res of Returned ret \<Rightarrow> Some (ret, s) | Waits serial \<Rightarrow> do { s \<leftarrow> others E serial s; read_resume serial s }
   }"

definition wl_display_prepare_read_queue :: "queue_ref \<Rightarrow> 'a wl_client_display \<Rightarrow> (int \<times> 'a wl_client_display) option" where
  "wl_display_prepare_read_queue q s = do {
     evs \<leftarrow> queues s q;
     if evs \<noteq> [] then Some (-1, set_errno EAGAIN s) else Some (0, s\<lparr>reader_count := reader_count s + 1\<rparr>)
   }"

definition wl_display_prepare_read :: "'a wl_client_display \<Rightarrow> (int \<times> 'a wl_client_display) option" where
  "wl_display_prepare_read s = wl_display_prepare_read_queue Default_queue s"

definition wl_display_cancel_read :: "'a wl_client_display \<Rightarrow> 'a wl_client_display" where
  "wl_display_cancel_read s = cancel_read s"

definition wl_display_flush :: "'a wl_client_display \<Rightarrow> (int \<times> 'a wl_client_display) option" where
  "wl_display_flush s =
     (if last_error s \<noteq> 0 then Some (-1, set_errno (last_error s) s)
      else do {
        (conn, w, ret) \<leftarrow> wl_connection_flush (dconnection s) (dsocket s);
        let s = s\<lparr>dconnection := conn, dsocket := w\<rparr>;
        Some (ret, if ret < 0 \<and> errno w \<noteq> EAGAIN \<and> errno w \<noteq> EPIPE then display_fatal_error (errno w) s else s)
      })"

section \<open>Blocking operations\<close>

text \<open>\<open>output\<close>: wait until the descriptor can be written, otherwise until it can be read.\<close>

partial_function (option) wl_display_poll :: "'a cenv \<Rightarrow> bool \<Rightarrow> 'a wl_client_display \<Rightarrow> (int \<times> 'a wl_client_display) option" where
  "wl_display_poll E output s =
     Option.bind (poll_call E output s) (\<lambda>(ret, s).
       if ret = -1 \<and> errno (dsocket s) = EINTR then wl_display_poll E output s else Some (ret, s))"

text \<open>The loop that sends everything: its last result, or \<open>None\<close> inside for a failed \<^verbatim>\<open>poll\<close>.\<close>

partial_function (option) flush_all :: "'a cenv \<Rightarrow> 'a wl_client_display \<Rightarrow> (int option \<times> 'a wl_client_display) option" where
  "flush_all E s =
     Option.bind (wl_display_flush s) (\<lambda>(ret, s).
       if ret \<noteq> -1 \<or> errno (dsocket s) \<noteq> EAGAIN then Some (Some ret, s)
       else Option.bind (wl_display_poll E True s) (\<lambda>(ret, s).
         if ret = -1 then Some (None, s) else flush_all E s))"

definition wl_display_dispatch_queue :: "'a cenv \<Rightarrow> queue_ref \<Rightarrow> 'a wl_client_display \<Rightarrow> (int \<times> 'a wl_client_display) option" where
  "wl_display_dispatch_queue E q s = do {
     (ret, s) \<leftarrow> wl_display_prepare_read_queue q s;
     if ret = -1 then wl_display_dispatch_queue_pending E q s
     else do {
       (ret, s) \<leftarrow> flush_all E s;
       if (case ret of None \<Rightarrow> True | Some r \<Rightarrow> r < 0 \<and> errno (dsocket s) \<noteq> EPIPE) then Some (-1, wl_display_cancel_read s)
       else do {
         (ret, s) \<leftarrow> wl_display_poll E False s;
         if ret = -1 then Some (-1, wl_display_cancel_read s)
         else do {
           (ret, s) \<leftarrow> wl_display_read_events E s;
           if ret = -1 then Some (-1, s) else wl_display_dispatch_queue_pending E q s
         }
       }
     }
   }"

definition wl_display_dispatch :: "'a cenv \<Rightarrow> 'a wl_client_display \<Rightarrow> (int \<times> 'a wl_client_display) option" where
  "wl_display_dispatch E s = wl_display_dispatch_queue E Default_queue s"

text \<open>The request \<^verbatim>\<open>wl_display.sync\<close>, as the scanner writes it.\<close>

definition wl_display_sync :: "'a cenv \<Rightarrow> u64 \<Rightarrow> 'a wl_client_display \<Rightarrow> (u64 \<times> 'a wl_client_display) option" where
  "wl_display_sync E d s = wl_proxy_marshal_constructor E d 0 wl_callback_interface [Arg_o 0] s"

partial_function (option) await_done :: "'a cenv \<Rightarrow> u64 \<Rightarrow> queue_ref \<Rightarrow> int \<Rightarrow> 'a wl_client_display \<Rightarrow> (int \<times> 'a wl_client_display) option" where
  "await_done E callback q ret s =
     (if callback \<in> synced s \<or> ret < 0 then Some (ret, s)
      else Option.bind (wl_display_dispatch_queue E q s) (\<lambda>(ret, s). await_done E callback q ret s))"

definition wl_display_roundtrip_queue :: "'a cenv \<Rightarrow> queue_ref \<Rightarrow> 'a wl_client_display \<Rightarrow> (int \<times> 'a wl_client_display) option" where
  "wl_display_roundtrip_queue E q s = do {
     (display_wrapper, s) \<leftarrow> wl_proxy_create_wrapper E (ddisplay s) s;
     if display_wrapper = 0 then Some (-1, s)
     else do {
       s \<leftarrow> wl_proxy_set_queue display_wrapper (Some q) s;
       (callback, s) \<leftarrow> wl_display_sync E display_wrapper s;
       s \<leftarrow> wl_proxy_wrapper_destroy display_wrapper s;
       if callback = 0 then Some (-1, s)
       else do {
         (_, s) \<leftarrow> wl_proxy_add_listener callback Sync_listener 0 (s\<lparr>synced := synced s - {callback}\<rparr>);
         (ret, s) \<leftarrow> await_done E callback q 0 s;
         if ret = -1 \<and> callback \<notin> synced s then do { s \<leftarrow> wl_proxy_destroy E callback s; Some (ret, s) } else Some (ret, s)
       }
     }
   }"

definition wl_display_roundtrip :: "'a cenv \<Rightarrow> 'a wl_client_display \<Rightarrow> (int \<times> 'a wl_client_display) option" where
  "wl_display_roundtrip E s = wl_display_roundtrip_queue E Default_queue s"

section \<open>The end of a display\<close>

definition free_zombies :: "u64 \<Rightarrow> u32 \<Rightarrow> 'a wl_client_display \<Rightarrow> 'a wl_client_display \<times> wl_iterator_result" where
  "free_zombies element flags s =
     (if flags AND WL_MAP_ENTRY_ZOMBIE \<noteq> 0 then s\<lparr>zombies := (zombies s)(element := None)\<rparr> else s, WL_ITERATOR_CONTINUE)"

definition wl_display_disconnect :: "'a wl_client_display \<Rightarrow> 'a wl_client_display option" where
  "wl_display_disconnect s =
     (let (_, w) = wl_connection_destroy (dconnection s) (dsocket s);
          s = wl_map_for_each (dobjects s) free_zombies (s\<lparr>dsocket := w\<rparr>);
          s = s\<lparr>dobjects := wl_map_release (dobjects s)\<rparr>
      in do {
        s \<leftarrow> wl_event_queue_release Default_queue s;
        s \<leftarrow> wl_event_queue_release Display_queue s;
        let s = s\<lparr>dsocket := (dsocket s)\<lparr>closed := closed (dsocket s) @ [of_int (dfd s)]\<rparr>\<rparr>;
        Some (set_proxy (ddisplay s) None s)
      })"

end
