(* ===== verification/Wl_Threads.thy ===== *)
theory Wl_Threads
  imports Wl_Queue
begin

text \<open>
  Threads that share one display. Every operation that takes the lock is a step; the call of a listener is made
  without it, so that an event is taken off its queue in one step and released in another, with steps of any thread
  between them. The main result is that no thread that waits in \<^verbatim>\<open>wl_display_read_events\<close> is forgotten.
\<close>

section \<open>What the operations leave alone\<close>

definition calm :: "'a wl_client_display \<Rightarrow> 'a wl_client_display \<Rightarrow> bool" where
  "calm s t \<longleftrightarrow> reader_count t = reader_count s \<and> read_serial t = read_serial s \<and> last_error t = last_error s"

lemma calm_refl [simp]: "calm s s"
  by (simp add: calm_def)

lemma calm_trans [trans]: "calm s t \<Longrightarrow> calm t u \<Longrightarrow> calm s u"
  by (simp add: calm_def)

lemma calm_updates [simp]:
  "calm s (set_proxy p P t) \<longleftrightarrow> calm s t" "calm s (set_errno e t) \<longleftrightarrow> calm s t" "calm s (set_queue q evs t) \<longleftrightarrow> calm s t"
  "calm s (drop_closure cl t) \<longleftrightarrow> calm s t" "calm s (t\<lparr>dobjects := m\<rparr>) \<longleftrightarrow> calm s t" "calm s (t\<lparr>zombies := z\<rparr>) \<longleftrightarrow> calm s t"
  "calm s (t\<lparr>dconnection := c\<rparr>) \<longleftrightarrow> calm s t" "calm s (t\<lparr>dsocket := w\<rparr>) \<longleftrightarrow> calm s t" "calm s (t\<lparr>synced := d\<rparr>) \<longleftrightarrow> calm s t"
  "calm s (t\<lparr>dconnection := c, dsocket := w\<rparr>) \<longleftrightarrow> calm s t" "calm s (snd (client_malloc E t)) \<longleftrightarrow> calm s t"
  by (simp_all add: calm_def set_proxy_def set_errno_def set_queue_def drop_closure_def client_malloc_def Let_def)

lemma calm_updates_left [simp]:
  "calm (set_proxy p P s) t \<longleftrightarrow> calm s t" "calm (set_errno e s) t \<longleftrightarrow> calm s t" "calm (set_queue q evs s) t \<longleftrightarrow> calm s t"
  "calm (s\<lparr>dobjects := m\<rparr>) t \<longleftrightarrow> calm s t" "calm (s\<lparr>zombies := z\<rparr>) t \<longleftrightarrow> calm s t"
  "calm (s\<lparr>dconnection := c, dobjects := m, dsocket := w\<rparr>) t \<longleftrightarrow> calm s t" "calm (s\<lparr>synced := d\<rparr>) t \<longleftrightarrow> calm s t"
  "calm (snd (client_malloc E s)) t \<longleftrightarrow> calm s t"
  by (simp_all add: calm_def set_proxy_def set_errno_def set_queue_def client_malloc_def Let_def)

lemma client_malloc_calm: "client_malloc E s = (p, t) \<Longrightarrow> calm s t"
  using calm_updates(11) [of s E s] by simp

lemma unref_calm: "wl_proxy_unref p s = Some t \<Longrightarrow> calm s t"
  by (auto simp: wl_proxy_unref_def bind_eq_Some split: if_split_asm)

lemma prepare_zombie_calm: "prepare_zombie E P s = (z, t) \<Longrightarrow> calm s t"
  by (cases "client_malloc E s") (auto simp: prepare_zombie_def Let_def split: if_split_asm dest: client_malloc_calm)

lemma proxy_create_calm: "proxy_create E p f v s = Some (q, t) \<Longrightarrow> calm s t"
  by (cases "client_malloc E s") (auto simp: proxy_create_def bind_eq_Some split: if_split_asm dest: client_malloc_calm)

lemma create_for_id_calm: "wl_proxy_create_for_id E p i f s = Some (q, t) \<Longrightarrow> calm s t"
  by (cases "client_malloc E s") (auto simp: wl_proxy_create_for_id_def bind_eq_Some split: if_split_asm dest: client_malloc_calm)

lemma proxy_destroy_calm: "proxy_destroy E p s = Some t \<Longrightarrow> calm s t"
proof -
  assume run: "proxy_destroy E p s = Some t"
  then obtain P where P: "proxies s p = Some P" by (auto simp: proxy_destroy_def bind_eq_Some)
  obtain z u where z: "prepare_zombie E P s = (z, u)" by fastforce
  then show ?thesis using run P
    by (auto simp: proxy_destroy_def bind_eq_Some split: if_split_asm dest!: unref_calm prepare_zombie_calm elim: calm_trans)
qed

lemma outgoing_calm: "outgoing_loop E p f v i ds args new s = Some (q, args', t) \<Longrightarrow> calm s t"
  by (induction E p f v i ds args new s rule: outgoing_loop.induct)
    (auto simp: bind_eq_Some split: if_split_asm dest: proxy_create_calm intro: calm_trans)

lemma create_outgoing_calm: "create_outgoing_proxy E p m args f v s = Some (q, args', t) \<Longrightarrow> calm s t"
  by (simp add: create_outgoing_proxy_def outgoing_calm)

lemma marshal_calm: "wl_proxy_marshal_array_constructor_versioned E p opcode args f v s = Some (q, t) \<Longrightarrow> calm s t"
proof -
  assume run: "wl_proxy_marshal_array_constructor_versioned E p opcode args f v s = Some (q, t)"
  then obtain P message new args' s1 where P: "proxies s p = Some P" "nth_message (methods (pinterface P)) opcode = Some message"
    and s1: "(case f of None \<Rightarrow> Some (0, args, s) | Some f \<Rightarrow> create_outgoing_proxy E p message args f v s) = Some (new, args', s1)"
    unfolding wl_proxy_marshal_array_constructor_versioned_def by (auto simp: bind_eq_Some)
  have c1: "calm s s1" using s1 by (auto split: option.splits dest: create_outgoing_calm)
  obtain mem s2 where s2: "client_malloc E s1 = (mem, s2)" by fastforce
  have c2: "calm s s2" using c1 client_malloc_calm [OF s2] by (rule calm_trans)
  show ?thesis
    using run P s1 s2 c1 c2 unfolding wl_proxy_marshal_array_constructor_versioned_def
    by (auto simp: bind_eq_Some split: if_split_asm sum.split_asm prod.split_asm option.split_asm)
qed

lemma ofold_calm:
  assumes "\<And>x s t. f x s = Some t \<Longrightarrow> calm s t" "ofold f xs s = Some t"
  shows "calm s t"
  using assms(2) by (rule ofold_invariant [where P = "calm s", rotated 2]) (auto intro: calm_trans assms(1))

lemma unref_slot_calm: "unref_slot cl i s = Some t \<Longrightarrow> calm s t"
  by (auto simp: unref_slot_def bind_eq_Some unref_calm split: if_split_asm)

lemma ref_calm: "proxy_ref p s = Some t \<Longrightarrow> calm s t"
  by (auto simp: proxy_ref_def bind_eq_Some)

lemma ref_slot_calm: "ref_slot cl i s = Some t \<Longrightarrow> calm s t"
  by (auto simp: ref_slot_def bind_eq_Some ref_calm split: if_split_asm)

lemma unref_slots_calm: "ofold (unref_slot cl) is s = Some t \<Longrightarrow> calm s t"
  by (rule ofold_calm) (rule unref_slot_calm)

lemma ref_slots_calm: "ofold (ref_slot cl) is s = Some t \<Longrightarrow> calm s t"
  by (rule ofold_calm) (rule ref_slot_calm)

lemma destroy_queued_calm: "destroy_queued_closure ev s = Some t \<Longrightarrow> calm s t"
  unfolding destroy_queued_closure_def
  by (auto simp: bind_eq_Some dest!: unref_calm unref_slots_calm elim: calm_trans)

lemma release_events_calm: "release_events q evs s = Some t \<Longrightarrow> calm s t"
proof (induction evs arbitrary: s)
  case (Cons ev evs)
  then obtain u where "destroy_queued_closure ev (set_queue q (Some evs) s) = Some u" "release_events q evs u = Some t"
    by (auto simp: bind_eq_Some)
  with Cons.IH [of u] destroy_queued_calm show ?case using calm_trans by fastforce
qed simp

lemma take_event_calm: "take_event q s = Some (ev, d, t) \<Longrightarrow> calm s t"
  by (elim take_event_cases) simp

lemma create_loop_calm: "create_loop E p m i ds args s = Some (args', ret, t) \<Longrightarrow> calm s t"
  by (induction E p m i ds args s rule: create_loop.induct)
    (auto simp: bind_eq_Some split: if_split_asm wl_argument.split_asm dest: create_for_id_calm intro: calm_trans)

lemma create_proxies_calm: "create_proxies E p cl s = Some (cl', ret, t) \<Longrightarrow> calm s t"
  by (auto simp: create_proxies_def bind_eq_Some dest: create_loop_calm)

lemma append_event_calm: "append_event p cl s = Some t \<Longrightarrow> calm s t"
  unfolding append_event_def increase_closure_args_refcount_def
  by (auto simp: bind_eq_Some Let_def dest!: ref_calm ref_slots_calm elim: calm_trans)

lemma resolve_event_calm: "resolve_event E p sz cl s = Some (r, t) \<Longrightarrow> calm s t"
  unfolding resolve_event_def
  by (auto simp: bind_eq_Some split: if_split_asm sum.split_asm dest!: create_proxies_calm append_event_calm elim: calm_trans)

lemma receive_event_calm: "receive_event E p opcode sz s = Some (r, t) \<Longrightarrow> calm s t"
proof (elim receive_event_cases)
  fix res conn m w
  assume "case res of
      None \<Rightarrow> r = -1 \<and> t = (snd (client_malloc E s))\<lparr>dconnection := conn, dobjects := m, dsocket := w\<rparr>
    | Some cl \<Rightarrow> resolve_event E p sz cl ((snd (client_malloc E s))\<lparr>dconnection := conn, dobjects := m, dsocket := w\<rparr>) = Some (r, t)"
  then show ?thesis
    by (auto simp: calm_def client_malloc_def set_errno_def Let_def split: option.splits dest!: resolve_event_calm)
qed

lemma eat_event_calm: "eat_event z opcode sz s = Some t \<Longrightarrow> calm s t"
  unfolding eat_event_def by (auto simp: bind_eq_Some Let_def split: if_split_asm prod.split_asm)

lemma queue_event_calm: "queue_event E len s = Some (r, t) \<Longrightarrow> calm s t"
proof -
  assume run: "queue_event E len s = Some (r, t)"
  obtain p0 opcode sz where h: "event_header s = (p0, opcode, sz)" by (metis prod_cases3)
  from run h show ?thesis
    by (cases rule: queue_event_cases) (auto dest: eat_event_calm receive_event_calm)
qed

lemma display_handle_delete_calm: "display_handle_delete_id i s = Some t \<Longrightarrow> calm s t"
  by (auto simp: display_handle_delete_id_def bind_eq_Some split: if_split_asm)

text \<open>An operation may also wake everybody, once.\<close>

definition woken :: "'a wl_client_display \<Rightarrow> 'a wl_client_display \<Rightarrow> bool" where
  "woken s t \<longleftrightarrow> reader_count t = reader_count s \<and> read_serial t = read_serial s + 1"

lemma calm_woken: "calm s t \<Longrightarrow> woken t u \<Longrightarrow> woken s u"
  by (simp add: calm_def woken_def)

lemma wakeup_woken [simp]: "woken s (display_wakeup_threads t) \<longleftrightarrow> reader_count t = reader_count s \<and> read_serial t = read_serial s"
  by (auto simp: woken_def display_wakeup_threads_def)

lemma fatal_error_woken: "last_error s = 0 \<Longrightarrow> woken s (display_fatal_error e s)"
  by (simp add: display_fatal_error_def)

lemma queue_events_wake:
  assumes "queue_events E rem s = Some (r, t)" "last_error s = 0"
  shows "if r = -1 then woken s t else calm s t"
  using assms
proof (induction E rem s rule: queue_events.induct)
  case (1 E rem s)
  show ?case
  proof (cases "rem \<ge> 8")
    case True
    then obtain sz u where q: "queue_event E rem s = Some (sz, u)"
      and r: "(if sz = -1 then Some (-1, display_fatal_error (errno (dsocket u)) u)
        else if sz = 0 then Some (0, u) else queue_events E (rem - sz) u) = Some (r, t)"
      using 1(2) queue_events.simps [of E rem s] by (auto split: option.split_asm)
    have su: "calm s u" using queue_event_calm [OF q] .
    then have u: "last_error u = 0" using 1(3) by (simp add: calm_def)
    consider "sz = -1" | "sz = 0" | "sz \<noteq> -1" "sz \<noteq> 0" by blast
    then show ?thesis
    proof cases
      case 3
      with r 1(1) [OF True q refl 3] u have "if r = -1 then woken u t else calm u t" by simp
      then show ?thesis using su calm_woken calm_trans by (auto split: if_splits)
    qed (use r calm_woken [OF su fatal_error_woken [OF u]] su in auto)
  next
    case False
    then show ?thesis using 1(2) queue_events.simps [of E rem s] by simp
  qed
qed

lemma read_socket_wakes:
  assumes "read_socket E s = Some (r, t)" "last_error s = 0"
  shows "woken s t"
proof -
  obtain conn w total where c: "wl_connection_read (dconnection s) (dsocket s) = Some (conn, w, total)"
    using assms(1) by (auto simp: read_socket_def bind_eq_Some)
  let ?s = "s\<lparr>dconnection := conn, dsocket := w\<rparr>"
  have same: "calm s ?s" "last_error ?s = 0" using assms(2) by (simp_all add: calm_def)
  consider "total = -1" | "total = 0" | "total \<noteq> -1" "total \<noteq> 0" by blast
  then show ?thesis
  proof cases
    case 1
    then show ?thesis using assms c same fatal_error_woken [OF same(2)]
      by (auto simp: read_socket_def Let_def woken_def display_wakeup_threads_def split: if_split_asm)
  next
    case 2
    have "last_error (set_errno EPIPE ?s) = 0" using same(2) by (simp add: set_errno_def)
    from fatal_error_woken [OF this] show ?thesis using assms c 2
      by (auto simp: read_socket_def Let_def woken_def set_errno_def)
  next
    case 3
    then obtain ret u where u: "queue_events E total ?s = Some (ret, u)"
      "(r, t) = (if ret = -1 then (-1, u) else (0, display_wakeup_threads u))"
      using assms(1) c by (auto simp: read_socket_def Let_def bind_eq_Some split: if_split_asm)
    show ?thesis using queue_events_wake [OF u(1) same(2)] u(2) same(1)
      by (auto simp: woken_def calm_def display_wakeup_threads_def split: if_split_asm)
  qed
qed

lemma flush_wakes: "wl_display_flush s = Some (r, t) \<Longrightarrow> calm s t \<or> woken s t"
  by (auto simp: wl_display_flush_def bind_eq_Some Let_def calm_def woken_def display_fatal_error_def display_wakeup_threads_def
      set_errno_def split: if_split_asm)

section \<open>Threads\<close>

text \<open>
  A thread reads in three stages. With the serial a waiting thread compares, \<open>Waiting\<close> records how many times
  everybody had been woken when it began to wait.
\<close>

datatype thread_mode = Idle | Prepared | Waiting u32 nat

text \<open>
  \<open>running\<close> are the events whose listener is being called; \<open>wakes\<close> counts the wake-ups.
\<close>

record 'a client_system =
  cstate :: "'a wl_client_display"
  modes :: "nat \<Rightarrow> thread_mode"
  running :: "queued_event list"
  wakes :: nat

definition moved :: "'a client_system \<Rightarrow> 'a wl_client_display \<Rightarrow> 'a client_system" where
  "moved S s = S\<lparr>cstate := s, wakes := wakes S + (if read_serial s = read_serial (cstate S) then 0 else 1)\<rparr>"

text \<open>
  What the application may use: proxies it has not destroyed, and it destroys only those that are its own.
\<close>

definition usable :: "'a wl_client_display \<Rightarrow> u64 \<Rightarrow> bool" where
  "usable s p \<longleftrightarrow> (case proxies s p of None \<Rightarrow> False | Some P \<Rightarrow> \<not> has_flag WL_PROXY_FLAG_DESTROYED P)"

definition owned :: "'a wl_client_display \<Rightarrow> u64 \<Rightarrow> bool" where
  "owned s p \<longleftrightarrow> usable s p \<and> p \<noteq> ddisplay s"

inductive app_step :: "'a cenv \<Rightarrow> 'a wl_client_display \<Rightarrow> 'a wl_client_display \<Rightarrow> bool" for E where
  create: "usable s f \<Longrightarrow> wl_proxy_create E f intf s = Some (p, t) \<Longrightarrow> app_step E s t"
| destroy: "owned s p \<Longrightarrow> wl_proxy_destroy E p s = Some t \<Longrightarrow> app_step E s t"
| request: "usable s p \<Longrightarrow> wl_proxy_marshal_array_constructor_versioned E p opcode args f v s = Some (q, t) \<Longrightarrow> app_step E s t"
| add_listener: "usable s p \<Longrightarrow> wl_proxy_add_listener p l data s = Some (r, t) \<Longrightarrow> app_step E s t"
| add_dispatcher: "usable s p \<Longrightarrow> wl_proxy_add_dispatcher p d l data s = Some (r, t) \<Longrightarrow> app_step E s t"
| user_data: "usable s p \<Longrightarrow> wl_proxy_set_user_data p data s = Some t \<Longrightarrow> app_step E s t"
| set_queue: "usable s p \<Longrightarrow> wl_proxy_set_queue p q s = Some t \<Longrightarrow> app_step E s t"
| create_wrapper: "usable s p \<Longrightarrow> wl_proxy_create_wrapper E p s = Some (w, t) \<Longrightarrow> app_step E s t"
| destroy_wrapper: "owned s w \<Longrightarrow> wl_proxy_wrapper_destroy w s = Some t \<Longrightarrow> app_step E s t"
| create_queue: "wl_display_create_queue E s = (q, t) \<Longrightarrow> app_step E s t"
| destroy_queue: "wl_event_queue_destroy (Queue a) s = Some t \<Longrightarrow> app_step E s t"
| other: "app_step E s (s\<lparr>application := x\<rparr>)"

text \<open>
  The steps of the system. The last three are the ends of a call: the library's own listeners run as one step, one of
  the application has run as the steps of the application and returns; then the event is released. A queue is
  dispatched by one thread at a time, so the callback of a round trip is not called again once it is destroyed.
\<close>

inductive client_step :: "'a cenv \<Rightarrow> 'a client_system \<Rightarrow> 'a client_system \<Rightarrow> bool" for E where
  app: "app_step E (cstate S) s \<Longrightarrow> client_step E S (moved S s)"
| flush: "wl_display_flush (cstate S) = Some (r, s) \<Longrightarrow> client_step E S (moved S s)"
| prepare: "modes S i = Idle \<Longrightarrow> wl_display_prepare_read_queue q (cstate S) = Some (r, s) \<Longrightarrow>
    client_step E S ((moved S s)\<lparr>modes := (modes S)(i := if r = 0 then Prepared else Idle)\<rparr>)"
| cancel: "modes S i = Prepared \<Longrightarrow> s = wl_display_cancel_read (cstate S) \<Longrightarrow>
    client_step E S ((moved S s)\<lparr>modes := (modes S)(i := Idle)\<rparr>)"
| read: "modes S i = Prepared \<Longrightarrow> start_read E (cstate S) = Some (res, s) \<Longrightarrow>
    m = (case res of Returned _ \<Rightarrow> Idle | Waits n \<Rightarrow> Waiting n (wakes S)) \<Longrightarrow>
    client_step E S ((moved S s)\<lparr>modes := (modes S)(i := m)\<rparr>)"
| resume: "modes S i = Waiting n k \<Longrightarrow> read_resume n (cstate S) = Some (r, s) \<Longrightarrow>
    client_step E S ((moved S s)\<lparr>modes := (modes S)(i := Idle)\<rparr>)"
| take: "take_event q (cstate S) = Some (ev, False, s) \<Longrightarrow> client_step E S ((moved S s)\<lparr>running := ev # running S\<rparr>)"
| drop: "take_event q (cstate S) = Some (ev, True, s) \<Longrightarrow> destroy_queued_closure ev s = Some t \<Longrightarrow> client_step E S (moved S t)"
| handle: "running S = evs @ ev # evs' \<Longrightarrow> proxies (cstate S) (qproxy ev) = Some P \<Longrightarrow> pdispatcher P = None \<Longrightarrow>
    pimplementation P = Some Display_listener \<or>
      pimplementation P = Some Sync_listener \<and> owned (cstate S) (qproxy ev) \<Longrightarrow>
    call_event E ev (cstate S) = Some (ev', s) \<Longrightarrow> client_step E S ((moved S s)\<lparr>running := evs @ ev' # evs'\<rparr>)"
| return: "running S = evs @ ev # evs' \<Longrightarrow>
    client_step E S (S\<lparr>running := evs @ ev\<lparr>qclosure := wl_closure_clear_fds (qclosure ev)\<rparr> # evs'\<rparr>)"
| finish: "running S = evs @ ev # evs' \<Longrightarrow> destroy_queued_closure ev (cstate S) = Some s \<Longrightarrow>
    client_step E S ((moved S s)\<lparr>running := evs @ evs'\<rparr>)"

definition fresh_system :: "'a wl_client_display \<Rightarrow> 'a client_system" where
  "fresh_system s = \<lparr>cstate = s, modes = (\<lambda>_. Idle), running = [], wakes = 0\<rparr>"

inductive client_reach :: "'a cenv \<Rightarrow> 'a client_system \<Rightarrow> bool" for E where
  connected: "wl_display_connect_to_fd E fd mem w s0 = Some (Some s, w') \<Longrightarrow> client_reach E (fresh_system s)"
| step: "client_reach E S \<Longrightarrow> client_step E S T \<Longrightarrow> client_reach E T"

section \<open>No thread is forgotten\<close>

text \<open>
  The number of readers is the number of threads that have prepared. A thread that waits has seen the serial of the
  moment; as long as nobody has been woken since, somebody is left to read or to cancel.
\<close>

definition readers :: "(nat \<Rightarrow> thread_mode) \<Rightarrow> nat set" where
  "readers m = {i. m i = Prepared}"

definition readers_ok :: "'a client_system \<Rightarrow> bool" where
  "readers_ok S \<longleftrightarrow> finite (readers (modes S)) \<and> reader_count (cstate S) = int (card (readers (modes S))) \<and>
     read_serial (cstate S) = of_nat (wakes S) \<and>
     (\<forall>i n k. modes S i = Waiting n k \<longrightarrow> n = of_nat k \<and> k \<le> wakes S \<and> (k = wakes S \<longrightarrow> readers (modes S) \<noteq> {}))"

definition quiet_step :: "'a wl_client_display \<Rightarrow> 'a wl_client_display \<Rightarrow> bool" where
  "quiet_step s t \<longleftrightarrow> reader_count t = reader_count s \<and> (read_serial t = read_serial s \<or> read_serial t = read_serial s + 1)"

lemma calm_quiet: "calm s t \<Longrightarrow> quiet_step s t"
  by (simp add: calm_def quiet_step_def)

lemma woken_quiet: "woken s t \<Longrightarrow> quiet_step s t"
  by (simp add: woken_def quiet_step_def)

lemma plus_one_differs [simp]: "(x :: u32) + 1 \<noteq> x" "x \<noteq> x + 1"
  by simp_all

lemma quiet_keeps:
  assumes "readers_ok S" "quiet_step (cstate S) s"
  shows "readers_ok (moved S s)"
proof -
  have s: "read_serial s = of_nat (wakes (moved S s))" "reader_count s = reader_count (cstate S)"
    using assms by (auto simp: readers_ok_def quiet_step_def moved_def)
  have m: "modes (moved S s) = modes S" "cstate (moved S s) = s" "wakes S \<le> wakes (moved S s)" by (simp_all add: moved_def)
  have "n = of_nat k \<and> k \<le> wakes (moved S s) \<and> (k = wakes (moved S s) \<longrightarrow> readers (modes S) \<noteq> {})"
    if "modes S i = Waiting n k" for i n k
  proof -
    have "n = of_nat k" "k \<le> wakes S" "k = wakes S \<longrightarrow> readers (modes S) \<noteq> {}"
      using assms(1) that by (auto simp: readers_ok_def)
    then show ?thesis using m(3) by (cases "k = wakes S") auto
  qed
  then show ?thesis using assms(1) s m by (simp add: readers_ok_def)
qed

lemma readers_update:
  "readers (m(i := x)) = (if x = Prepared then insert i (readers m) else readers m - {i})"
  by (auto simp: readers_def)

lemma app_step_calm: "app_step E s t \<Longrightarrow> calm s t"
proof (induction rule: app_step.induct)
  case (create s f intf p t)
  then show ?case by (auto simp: wl_proxy_create_def bind_eq_Some dest: proxy_create_calm)
next
  case (destroy s p t)
  then show ?case by (auto simp: wl_proxy_destroy_def bind_eq_Some split: if_split_asm dest: proxy_destroy_calm)
next
  case (create_wrapper s p w t)
  then show ?case
    by (cases "client_malloc E s")
      (auto simp: wl_proxy_create_wrapper_def bind_eq_Some split: if_split_asm dest!: client_malloc_calm)
next
  case (create_queue s q t)
  then show ?case
    by (cases "client_malloc E s")
      (auto simp: wl_display_create_queue_def split: if_split_asm dest!: client_malloc_calm)
next
  case (destroy_queue a s t)
  then show ?case
    by (auto simp: wl_event_queue_destroy_def wl_event_queue_release_def bind_eq_Some dest!: release_events_calm)
next
  case (other s x)
  show ?case by (simp add: calm_def)
qed (auto simp: wl_proxy_add_listener_def wl_proxy_add_dispatcher_def wl_proxy_set_user_data_def wl_proxy_set_queue_def
    wl_proxy_wrapper_destroy_def bind_eq_Some marshal_calm split: if_split_asm)

lemma run_listener_quiet:
  assumes "run_listener E p l call s = Some t" "l = Display_listener \<or> l = Sync_listener"
  shows "reader_count t = reader_count s" "read_serial t = read_serial s"
proof -
  have e: "reader_count (display_protocol_error c i f u) = reader_count u" "read_serial (display_protocol_error c i f u) = read_serial u"
    for c i f and u :: "'a wl_client_display"
    by (simp_all add: display_protocol_error_def Let_def)
  have h: "reader_count t = reader_count s \<and> read_serial t = read_serial s" if "display_handle_error obj code s = Some t" for obj code
    using that by (auto simp: display_handle_error_def bind_eq_Some e split: if_split_asm)
  have d: "reader_count t = reader_count s \<and> read_serial t = read_serial s" if "display_handle_delete_id i s = Some t" for i
    using display_handle_delete_calm [OF that] by (simp add: calm_def)
  have y: "reader_count t = reader_count s \<and> read_serial t = read_serial s"
    if "wl_proxy_destroy E p (s\<lparr>synced := x\<rparr>) = Some t" for x
    using that by (auto simp: wl_proxy_destroy_def bind_eq_Some calm_def split: if_split_asm dest!: proxy_destroy_calm)
  have "reader_count t = reader_count s \<and> read_serial t = read_serial s"
    using assms h d y by (auto simp: run_listener_def split: list.split_asm wl_argument.split_asm if_split_asm)
  then show "reader_count t = reader_count s" "read_serial t = read_serial s" by simp_all
qed

lemma handle_quiet:
  assumes "call_event E ev s = Some (ev', t)" "proxies s (qproxy ev) = Some P" "pdispatcher P = None"
    and "pimplementation P = Some Display_listener \<or> pimplementation P = Some Sync_listener"
  shows "quiet_step s t"
proof -
  obtain l where l: "pimplementation P = Some l" "l = Display_listener \<or> l = Sync_listener" using assms(4) by auto
  then obtain call where "run_listener E (qproxy ev) l call s = Some t"
    using assms(1-3) by (auto simp: call_event_def Let_def bind_eq_Some split: sum.split_asm)
  from run_listener_quiet [OF this l(2)] show ?thesis by (simp add: quiet_step_def)
qed

lemma prepare_keeps:
  assumes "readers_ok S" "modes S i = Idle" "wl_display_prepare_read_queue q (cstate S) = Some (r, s)"
  shows "readers_ok ((moved S s)\<lparr>modes := (modes S)(i := if r = 0 then Prepared else Idle)\<rparr>)"
proof -
  have i: "i \<notin> readers (modes S)" using assms(2) by (simp add: readers_def)
  have "read_serial s = read_serial (cstate S)" "reader_count s = reader_count (cstate S) + (if r = 0 then 1 else 0)"
  proof -
    obtain evs where q: "queues (cstate S) q = Some evs"
      using assms(3) by (auto simp: wl_display_prepare_read_queue_def bind_eq_Some)
    show "read_serial s = read_serial (cstate S)" "reader_count s = reader_count (cstate S) + (if r = 0 then 1 else 0)"
      using assms(3) q by (cases "evs = []"; auto simp: wl_display_prepare_read_queue_def set_errno_def)+
  qed
  then show ?thesis
    using assms(1) i by (auto simp: readers_ok_def moved_def readers_update)
qed

text \<open>A reader leaves, and when it is the last one everybody is woken.\<close>

lemma leave_keeps:
  assumes S: "readers_ok S" "modes S i = Prepared"
    and s: "reader_count s = reader_count (cstate S) - 1"
      "read_serial s = (if reader_count s = 0 then read_serial (cstate S) + 1 else read_serial (cstate S))"
    and m: "m = Idle \<or> reader_count s \<noteq> 0 \<and> m = Waiting (read_serial s) (wakes S)"
  shows "readers_ok ((moved S s)\<lparr>modes := (modes S)(i := m)\<rparr>)"
proof -
  let ?R = "readers (modes S)"
  have R: "finite ?R" "i \<in> ?R" "reader_count (cstate S) = int (card ?R)" "read_serial (cstate S) = of_nat (wakes S)"
    using S by (simp_all add: readers_ok_def readers_def)
  have R': "readers ((modes S)(i := m)) = ?R - {i}" using m by (auto simp: readers_update)
  have card: "card (?R - {i}) = card ?R - 1" "card ?R > 0" using R(1,2) by (auto simp: card_gt_0_iff)
  then have count: "reader_count s = int (card (?R - {i}))" using s(1) R(3) by linarith
  have some: "reader_count s \<noteq> 0 \<longleftrightarrow> ?R - {i} \<noteq> {}" using count R(1) by (simp add: card_gt_0_iff)
  have w: "wakes (moved S s) = wakes S + (if reader_count s = 0 then 1 else 0)" using s(2) by (simp add: moved_def)
  have serial: "read_serial s = of_nat (wakes (moved S s))" using s(2) R(4) w by simp
  have wait: "n = of_nat k \<and> k \<le> wakes (moved S s) \<and> (k = wakes (moved S s) \<longrightarrow> ?R - {i} \<noteq> {})"
    if "((modes S)(i := m)) j = Waiting n k" for j n k
  proof (cases "j = i")
    case True
    with that m have "m = Waiting (read_serial s) (wakes S)" "reader_count s \<noteq> 0" by auto
    then have "n = read_serial s" "k = wakes S" using that True by auto
    then show ?thesis using some w serial \<open>reader_count s \<noteq> 0\<close> by simp
  next
    case False
    with that S(1) have k: "n = of_nat k" "k \<le> wakes S" by (auto simp: readers_ok_def)
    with w some show ?thesis by (cases "reader_count s = 0") auto
  qed
  show ?thesis
    using R(1) R' count serial wait by (simp add: readers_ok_def moved_def)
qed

lemma cancel_leaves:
  "reader_count (cancel_read s) = reader_count s - 1"
  "read_serial (cancel_read s) = (if reader_count (cancel_read s) = 0 then read_serial s + 1 else read_serial s)"
  by (simp_all add: cancel_read_def display_wakeup_threads_def Let_def)

lemma start_read_leaves:
  assumes "start_read E s = Some (res, t)"
  shows "reader_count t = reader_count s - 1"
    "read_serial t = (if reader_count t = 0 then read_serial s + 1 else read_serial s)"
    "(\<exists>r. res = Returned r) \<or> reader_count t \<noteq> 0 \<and> res = Waits (read_serial t)"
proof -
  have "reader_count t = reader_count s - 1 \<and> read_serial t = (if reader_count t = 0 then read_serial s + 1 else read_serial s) \<and>
      ((\<exists>r. res = Returned r) \<or> reader_count t \<noteq> 0 \<and> res = Waits (read_serial t))"
  proof (cases "last_error s = 0")
    case True
    let ?s = "s\<lparr>reader_count := reader_count s - 1\<rparr>"
    show ?thesis
    proof (cases "reader_count s = 1")
      case last: True
      then obtain r where r: "read_socket E ?s = Some (r, t)" "res = Returned r"
        using assms True by (auto simp: start_read_def read_events_def bind_eq_Some)
      from read_socket_wakes [OF r(1)] True show ?thesis using r(2) last by (simp add: woken_def)
    next
      case False
      then have "res = Waits (read_serial s) \<and> t = ?s" using assms True by (simp add: start_read_def read_events_def)
      with False show ?thesis by simp
    qed
  next
    case False
    then have "res = Returned (-1)" "t = set_errno (last_error s) (cancel_read s)" using assms by (simp_all add: start_read_def)
    then show ?thesis using cancel_leaves [of s] by (simp add: set_errno_def)
  qed
  then show "reader_count t = reader_count s - 1"
    "read_serial t = (if reader_count t = 0 then read_serial s + 1 else read_serial s)"
    "(\<exists>r. res = Returned r) \<or> reader_count t \<noteq> 0 \<and> res = Waits (read_serial t)" by blast+
qed

lemma resume_keeps:
  assumes "readers_ok S" "modes S i = Waiting n k" "read_resume n (cstate S) = Some (r, s)"
  shows "readers_ok ((moved S s)\<lparr>modes := (modes S)(i := Idle)\<rparr>)"
proof -
  have "calm (cstate S) s" using assms(3) by (auto simp: read_resume_def split: if_split_asm)
  then have "readers_ok (moved S s)" using assms(1) calm_quiet quiet_keeps by blast
  moreover have "readers ((modes S)(i := Idle)) = readers (modes S)" using assms(2) by (auto simp: readers_def)
  ultimately show ?thesis by (auto simp: readers_ok_def moved_def)
qed

lemma readers_ok_running: "readers_ok (S\<lparr>running := x\<rparr>) \<longleftrightarrow> readers_ok S"
  by (simp add: readers_ok_def)

lemma client_step_readers:
  assumes "client_step E S T" "readers_ok S"
  shows "readers_ok T"
  using assms
proof (induction rule: client_step.induct)
  case (app S s)
  then show ?case by (intro quiet_keeps calm_quiet app_step_calm)
next
  case (flush S r s)
  then show ?case using flush_wakes quiet_keeps calm_quiet woken_quiet by blast
next
  case (prepare S i q r s)
  then show ?case by (intro prepare_keeps)
next
  case (cancel S i s)
  then show ?case using cancel_leaves [of "cstate S"] by (intro leave_keeps) (simp_all add: wl_display_cancel_read_def)
next
  case (read S i res s m)
  from start_read_leaves [OF read(2)] read show ?case by (intro leave_keeps) auto
next
  case (resume S i n k r s)
  then show ?case by (intro resume_keeps)
next
  case (take q S ev s)
  then show ?case by (simp add: readers_ok_running quiet_keeps calm_quiet take_event_calm)
next
  case (drop q S ev s t)
  then have "calm (cstate S) t" using calm_trans [OF take_event_calm destroy_queued_calm] by blast
  with drop show ?case by (intro quiet_keeps calm_quiet)
next
  case (handle S evs ev evs' P ev' s)
  then have "quiet_step (cstate S) s" using handle_quiet by blast
  with handle show ?case by (simp add: readers_ok_running quiet_keeps)
next
  case (return S evs ev evs')
  then show ?case by (simp add: readers_ok_running)
next
  case (finish S evs ev evs' s)
  then show ?case by (simp add: readers_ok_running quiet_keeps calm_quiet destroy_queued_calm)
qed

lemma fresh_readers:
  assumes "wl_display_connect_to_fd E fd mem w s0 = Some (Some s, w')"
  shows "readers_ok (fresh_system s)"
proof -
  have "reader_count s = 0" "read_serial s = 0"
    using assms by (cases "client_malloc E s0";
      auto simp: wl_display_connect_to_fd_def Let_def bind_eq_Some split: if_split_asm option.split_asm)+
  then show ?thesis by (simp add: readers_ok_def fresh_system_def readers_def)
qed

lemma client_reach_readers: "client_reach E S \<Longrightarrow> readers_ok S"
  by (induction rule: client_reach.induct) (auto intro: fresh_readers client_step_readers)

section \<open>A new display\<close>

text \<open>An allocator that never fails always finds an entry.\<close>

lemma wl_map_insert_new_total:
  assumes A: "allocator_ok A" "\<And>n. A n \<noteq> None" and m: "map_ok m xs" and d: "data AND 3 = 0"
    and room: "cell_count (entries_of (own_side m) m) < table_limit (own_side m)"
  obtains m' k ys where "wl_map_insert_new A m flags data = Some (m', slot_id (own_side m) k)"
    "k < table_limit (own_side m)" "map_ok m' ys" "set ys \<subseteq> set xs" "side m' = side m"
    "wl_map_lookup m (slot_id (own_side m) k) = Some 0" "inserted m (slot_id (own_side m) k) data flags m'"
    "k \<in> set xs \<and> cell_count (entries_of (own_side m) m') = cell_count (entries_of (own_side m) m) \<or>
     k = cell_count (entries_of (own_side m) m) \<and> cell_count (entries_of (own_side m) m') = Suc k"
proof (cases "free_list m = 0")
  case True
  let ?c = "own_side m" let ?a = "entries_of ?c m"
  have "table_ok ?c ?a" using m by (rule table_ok_entries)
  from table_add_ok [OF A(1) this room] obtain b x where
    b: "wl_array_add A ?a 8 = Some (b, Some (8 * cell_count ?a))" "table_ok ?c b" "cells b = cells ?a @ [x]"
    using wl_array_add_total_allocator [of A ?a 8 ?a, OF A(2)] by auto
  then have cb: "cell_count b = Suc (cell_count ?a)" by (metis length_append_singleton length_cells)
  then obtain a' where a': "entry_write b (cell_count ?a) data flags = Some a'" "cell_count a' = cell_count b"
    using table_write_ok [OF b(2), of "cell_count ?a" data flags] by auto
  have "wl_map_insert_new A m flags data \<noteq> Some (m, 0)"
  proof
    assume same: "wl_map_insert_new A m flags data = Some (m, 0)"
    have "wl_map_insert_new A m flags data = Some (set_entries ?c a' m, slot_id ?c (cell_count ?a))"
      using True b(1) a'(1) by (simp add: wl_map_insert_new_def Let_def own_side_def slot_id_def)
    with same have "set_entries ?c a' m = m" by simp
    then have "a' = ?a" by (metis entries_of_simps(1))
    with a'(2) cb show False by simp
  qed
  with wl_map_insert_new_append [OF A(1) m True d room, of flags] obtain m' where
    "wl_map_insert_new A m flags data = Some (m', slot_id ?c (cell_count ?a))" "map_ok m' []"
    "wl_map_lookup m (slot_id ?c (cell_count ?a)) = Some 0" "inserted m (slot_id ?c (cell_count ?a)) data flags m'"
    "side m' = side m" "cell_count (entries_of ?c m') = Suc (cell_count ?a)" by blast
  with room show ?thesis by (intro that [of m' "cell_count ?a" "[]"]) simp_all
next
  case False
  from wl_map_insert_new_reuse [OF m False d, of A flags] obtain m' k ks where r: "xs = k # ks"
    "wl_map_insert_new A m flags data = Some (m', slot_id (own_side m) k)" "map_ok m' ks"
    "wl_map_lookup m (slot_id (own_side m) k) = Some 0" "inserted m (slot_id (own_side m) k) data flags m'"
    "side m' = side m" "cell_count (entries_of (own_side m) m') = cell_count (entries_of (own_side m) m)" by metis
  have "k < cell_count (entries_of (own_side m) m)" using m r(1) by (auto simp: map_ok_def)
  with r room show ?thesis by (intro that [of m' k ks]) auto
qed

lemma insert_new_other_side:
  "wl_map_insert_new A m flags data = Some (m', i) \<Longrightarrow> entries_of (\<not> own_side m) m' = entries_of (\<not> own_side m) m"
  by (auto simp: wl_map_insert_new_def Let_def bind_eq_Some own_side_def entries_of_def set_entries_def
      split: if_split_asm option.split_asm)

text \<open>
  What is asked of the C library: a new block is aligned and is not in use, and the table of ids can grow.
\<close>

definition used_address :: "'a wl_client_display \<Rightarrow> u64 \<Rightarrow> bool" where
  "used_address s p \<longleftrightarrow> proxies s p \<noteq> None \<or> zombies s p \<noteq> None \<or> queues s (Queue p) \<noteq> None"

definition cenv_ok :: "'a cenv \<Rightarrow> bool" where
  "cenv_ok E \<longleftrightarrow> (\<forall>s. cmalloc E s AND 3 = 0 \<and> (cmalloc E s \<noteq> 0 \<longrightarrow> \<not> used_address s (cmalloc E s))) \<and>
     allocator_ok (cblocks E) \<and> (\<forall>n. cblocks E n \<noteq> None)"

text \<open>The table of a new display: a null entry for the id 0, and the display itself.\<close>

definition connected_display :: "u64 \<Rightarrow> int \<Rightarrow> wl_map \<Rightarrow> os \<Rightarrow> 'a wl_client_display \<Rightarrow> 'a wl_client_display \<Rightarrow> bool" where
  "connected_display d fd m w s0 s \<longleftrightarrow> ddisplay s = d \<and> dobjects s = m \<and> dsocket s = w \<and> dfd s = fd \<and>
     proxies s = [d \<mapsto> \<lparr>pinterface = wl_display_interface, pimplementation = Some Display_listener, pid = 1, pqueue = Default_queue,
       pflags = 0, prefcount = 1, puser_data = d, pdispatcher = None, pversion = 0\<rparr>] \<and>
     zombies s = Map.empty \<and> queues s = [Default_queue \<mapsto> [], Display_queue \<mapsto> []] \<and> last_error s = 0 \<and>
     reader_count s = 0 \<and> read_serial s = 0 \<and> synced s = {} \<and> dticks s = dticks s0 + 1 \<and> application s = application s0"

definition display_table :: "u64 \<Rightarrow> wl_map \<Rightarrow> bool" where
  "display_table d m \<longleftrightarrow> side m = WL_MAP_CLIENT_SIDE \<and> (\<exists>xs. map_ok m xs) \<and>
     (\<forall>i. wl_map_lookup m i = Some (if i = 1 then d else 0) \<and> wl_map_lookup_flags m i = Some 0) \<and>
     cell_count (client_entries m) = 2 \<and> cell_count (server_entries m) = 0"

lemma fresh_client_table:
  assumes A: "allocator_ok A" "\<And>n. A n \<noteq> None" and d: "d AND 3 = 0"
  obtains m1 m where "wl_map_insert_new A (wl_map_init WL_MAP_CLIENT_SIDE) 0 0 = Some (m1, 0)"
    "wl_map_insert_new A m1 0 d = Some (m, 1)" "display_table d m"
proof -
  let ?m = "wl_map_init WL_MAP_CLIENT_SIDE"
  have own: "own_side ?m" by (simp add: wl_map_init_def own_side_def)
  have xs: "map_ok ?m []"
    by (simp add: map_ok_def wl_map_init_def table_ok_def array_ok_init cell_count_def)
      (simp add: wl_array_init_def)
  have cnt: "cell_count (entries_of c ?m) = 0" for c
    by (simp add: wl_map_init_def entries_of_def cell_count_def wl_array_init_def)
  have look: "wl_map_lookup ?m i = Some 0" "wl_map_lookup_flags ?m i = Some 0" for i
    using wl_map_lookup_cells [OF table_ok_entries [OF xs], of i] cnt
    by (cases "slot i"; simp add: table_lookup_def)+
  have "cell_count (entries_of (own_side ?m) ?m) < table_limit (own_side ?m)" using own cnt by (simp add: table_limit_def)
  from wl_map_insert_new_total [OF A xs _ this, of 0 0] own cnt obtain m1 where m1:
    "wl_map_insert_new A ?m 0 0 = Some (m1, 0)" "map_ok m1 []" "side m1 = side ?m" "inserted ?m 0 0 0 m1"
    "cell_count (entries_of True m1) = 1"
    by (auto simp: slot_id_def)
  have own1: "own_side m1" using m1(3) own by (simp add: own_side_def)
  have "cell_count (entries_of (own_side m1) m1) < table_limit (own_side m1)" using own1 m1(5) by (simp add: table_limit_def)
  from wl_map_insert_new_total [OF A m1(2) d this, of 0] own1 m1(5) obtain m where m:
    "wl_map_insert_new A m1 0 d = Some (m, 1)" "map_ok m []" "side m = side m1" "inserted m1 1 d 0 m"
    "cell_count (entries_of True m) = 2"
    by (auto simp: slot_id_def numeral_2_eq_2)
  have l: "\<forall>i. wl_map_lookup m i = Some (if i = 1 then d else 0) \<and> wl_map_lookup_flags m i = Some 0"
  proof
    fix i
    show "wl_map_lookup m i = Some (if i = 1 then d else 0) \<and> wl_map_lookup_flags m i = Some 0"
    proof (cases "i = 1")
      case True
      then show ?thesis using m(4) by (simp add: inserted_def)
    next
      case False
      have "wl_map_lookup m1 i = Some 0 \<and> wl_map_lookup_flags m1 i = Some 0"
      proof (cases "i = 0")
        case True
        then show ?thesis using m1(4) by (simp add: inserted_def)
      next
        case False
        with m1(4) have "wl_map_lookup m1 i = wl_map_lookup ?m i \<and> wl_map_lookup_flags m1 i = wl_map_lookup_flags ?m i"
          unfolding inserted_def same_except_def by blast
        with look [of i] show ?thesis by metis
      qed
      moreover have "wl_map_lookup m i = wl_map_lookup m1 i \<and> wl_map_lookup_flags m i = wl_map_lookup_flags m1 i"
        using m(4) False unfolding inserted_def same_except_def by blast
      ultimately show ?thesis using False by metis
    qed
  qed
  have sc: "cell_count (server_entries m) = 0"
    using insert_new_other_side [OF m1(1)] insert_new_other_side [OF m(1)] own own1 cnt [of False] by (simp add: entries_of_def)
  have "side m = WL_MAP_CLIENT_SIDE" "cell_count (client_entries m) = 2"
    using m(3,5) m1(3) by (simp_all add: wl_map_init_def entries_of_def)
  with l sc m(2) have "display_table d m" unfolding display_table_def by blast
  then show thesis using that m1(1) m(1) by blast
qed

lemma connect_ok:
  assumes E: "cenv_ok E" and d: "cmalloc E s0 \<noteq> 0"
  obtains s m where "wl_display_connect_to_fd E fd True w s0 = Some (Some s, w)"
    "connected_display (cmalloc E s0) fd m w s0 s" "display_table (cmalloc E s0) m"
    "dconnection s = the (wl_connection_create True fd)"
proof -
  let ?d = "cmalloc E s0"
  have A: "allocator_ok (cblocks E)" "\<And>n. cblocks E n \<noteq> None" "?d AND 3 = 0" using E by (auto simp: cenv_ok_def)
  obtain m1 m where m: "wl_map_insert_new (cblocks E) (wl_map_init WL_MAP_CLIENT_SIDE) 0 0 = Some (m1, 0)"
    "wl_map_insert_new (cblocks E) m1 0 ?d = Some (m, 1)" "display_table ?d m"
    using fresh_client_table [OF A] by blast
  obtain s where s: "wl_display_connect_to_fd E fd True w s0 = Some (Some s, w)" "connected_display ?d fd m w s0 s"
    "dconnection s = the (wl_connection_create True fd)"
    using m d by (simp add: wl_display_connect_to_fd_def client_malloc_def wl_connection_create_def connected_display_def)
  then show thesis using that m(3) by blast
qed

text \<open>
  C14: the readers of a display never wait for nothing. In any reachable state of any number of threads, a thread
  that waits in \<^verbatim>\<open>wl_display_read_events\<close> may go on as soon as no other thread is left that has prepared to read and
  neither read nor cancelled; this as long as the 32-bit serial has not gone once around since it began to wait.
\<close>

theorem no_lost_wakeup:
  assumes "client_reach E S" "modes S i = Waiting n k" "\<forall>j. modes S j \<noteq> Prepared" "wakes S < k + 2 ^ 32"
  shows "k < wakes S \<and> (\<exists>r s. read_resume n (cstate S) = Some (r, s) \<and> (r = 0 \<longleftrightarrow> last_error (cstate S) = 0))"
proof -
  have ok: "read_serial (cstate S) = of_nat (wakes S)" "n = of_nat k" "k \<le> wakes S" "k = wakes S \<longrightarrow> readers (modes S) \<noteq> {}"
    using client_reach_readers [OF assms(1)] assms(2) by (auto simp: readers_ok_def)
  have "readers (modes S) = {}" using assms(3) by (simp add: readers_def)
  with ok(3,4) have k: "k < wakes S" by auto
  have "unat (of_nat (wakes S - k) :: u32) = wakes S - k" using assms(4) by (simp add: unat_of_nat)
  with k have "(of_nat (wakes S - k) :: u32) \<noteq> 0" by (metis diff_is_0_eq not_le unat_0)
  moreover have "(of_nat (wakes S) :: u32) = of_nat k + of_nat (wakes S - k)"
    using k by (metis le_add_diff_inverse less_imp_le of_nat_add)
  ultimately have "read_serial (cstate S) \<noteq> n" using ok(1,2) by auto
  then show ?thesis using k by (auto simp: read_resume_def)
qed


text \<open>A client whose application does nothing.\<close>

definition demo_cenv :: "unit cenv" where
  "demo_cenv = \<lparr>cmalloc = (\<lambda>s. let p = 16 * of_nat (dticks s + 1) in if used_address s p then 0 else p),
     cblocks = (\<lambda>n. Some (replicate (unat n) 0)), spec_of = (\<lambda>_. wl_callback_interface),
     listener_func = (\<lambda>_ _ _. Some), dispatcher_func = (\<lambda>_ _ _ _. Some), poll_call = (\<lambda>_ s. Some (1, s)), others = (\<lambda>_ _. None)\<rparr>"

definition demo_display_start :: "unit wl_client_display" where
  "demo_display_start = \<lparr>ddisplay = 0, proxies = Map.empty, zombies = Map.empty, queues = Map.empty,
     dconnection = the (wl_connection_create True 3), last_error = 0, protocol_error = \<lparr>ecode = 0, einterface = None, eid = 0\<rparr>,
     dfd = 3, dobjects = wl_map_init WL_MAP_CLIENT_SIDE, reader_count = 0, read_serial = 0,
     dsocket = \<lparr>sends = [], recvs = [], dups = [], sent = [], sent_fds = [], closed = [], errno = 0\<rparr>, dticks = 0, synced = {},
     application = ()\<rparr>"

lemma aligned_16: "(16 * x :: u64) AND 3 = 0"
proof -
  have "16 * x = push_bit 4 x" by (simp add: push_bit_eq_mult mult.commute)
  moreover have "push_bit 4 x AND mask 2 = 0" unfolding take_bit_eq_mask [symmetric] by (simp add: take_bit_push_bit)
  moreover have "mask 2 = (3 :: u64)" by (simp add: mask_eq_exp_minus_1)
  ultimately show ?thesis by metis
qed

lemma demo_cenv_ok: "cenv_ok demo_cenv"
  by (simp add: cenv_ok_def demo_cenv_def allocator_ok_def Let_def aligned_16 del: distrib_left_numeral)

lemma demo_display_connected:
  obtains s m where "wl_display_connect_to_fd demo_cenv 3 True w demo_display_start = Some (Some s, w)"
    "connected_display 16 3 m w demo_display_start s" "display_table 16 m" "dconnection s = the (wl_connection_create True 3)"
proof -
  have "cmalloc demo_cenv demo_display_start = 16"
    by (simp add: demo_cenv_def demo_display_start_def used_address_def)
  with connect_ok [OF demo_cenv_ok, of demo_display_start 3 w] that show thesis by auto
qed

text \<open>Two threads prepare; one reads and has to wait, the other one cancels.\<close>

theorem no_lost_wakeup_witness:
  "\<exists>S. client_reach demo_cenv S \<and> modes S 0 = Waiting 0 0 \<and> wakes S = 1 \<and>
     (\<exists>r s. read_resume 0 (cstate S) = Some (r, s) \<and> (r = 0 \<longleftrightarrow> last_error (cstate S) = 0))"
proof -
  obtain s m where c: "wl_display_connect_to_fd demo_cenv 3 True (dsocket demo_display_start) demo_display_start = Some (Some s, (dsocket demo_display_start))"
    "connected_display 16 3 m (dsocket demo_display_start) demo_display_start s" by (rule demo_display_connected)
  let ?S0 = "fresh_system s"
  have s: "queues s Default_queue = Some []" "reader_count s = 0" "read_serial s = 0" "last_error s = 0"
    using c(2) by (simp_all add: connected_display_def)
  define s1 where "s1 = s\<lparr>reader_count := 1\<rparr>"
  define s2 where "s2 = s\<lparr>reader_count := 2\<rparr>"
  define s4 where "s4 = s\<lparr>reader_count := 0, read_serial := 1\<rparr>"
  let ?S1 = "(moved ?S0 s1)\<lparr>modes := (modes ?S0)(0 := Prepared)\<rparr>"
  let ?S2 = "(moved ?S1 s2)\<lparr>modes := (modes ?S1)(1 := Prepared)\<rparr>"
  let ?S3 = "(moved ?S2 s1)\<lparr>modes := (modes ?S2)(0 := Waiting 0 0)\<rparr>"
  let ?S4 = "(moved ?S3 s4)\<lparr>modes := (modes ?S3)(1 := Idle)\<rparr>"
  have f: "cstate ?S0 = s" "modes ?S0 = (\<lambda>_. Idle)" "wakes ?S0 = 0" by (simp_all add: fresh_system_def)
  have r0: "client_reach demo_cenv ?S0" using c(1) by (rule connected)
  have "wl_display_prepare_read_queue Default_queue s = Some (0, s1)"
    using s by (simp add: wl_display_prepare_read_queue_def s1_def)
  then have r1: "client_reach demo_cenv ?S1"
    using prepare [of ?S0 0 Default_queue 0 s1 demo_cenv] step [OF r0] f by simp
  have "wl_display_prepare_read_queue Default_queue s1 = Some (0, s2)"
    using s by (simp add: wl_display_prepare_read_queue_def s1_def s2_def)
  then have r2: "client_reach demo_cenv ?S2"
    using prepare [of ?S1 1 Default_queue 0 s2 demo_cenv] step [OF r1] f by (simp add: moved_def)
  have "start_read demo_cenv s2 = Some (Waits 0, s1)"
    using s by (simp add: start_read_def read_events_def s1_def s2_def)
  then have r3: "client_reach demo_cenv ?S3"
    using read [of ?S2 0 demo_cenv "Waits 0" s1] step [OF r2] f s by (simp add: moved_def s1_def s2_def)
  have "wl_display_cancel_read s1 = s4"
    using s by (simp add: wl_display_cancel_read_def cancel_read_def display_wakeup_threads_def s1_def s4_def)
  then have r4: "client_reach demo_cenv ?S4"
    using cancel [of ?S3 1 s4 demo_cenv] step [OF r3] by (simp add: moved_def)
  have S4: "modes ?S4 0 = Waiting 0 0" "\<forall>j. modes ?S4 j \<noteq> Prepared" "wakes ?S4 = 1"
    using f s by (simp_all add: moved_def s1_def s2_def s4_def)
  from no_lost_wakeup [OF r4 S4(1,2)] S4 r4 show ?thesis by (intro exI [of _ ?S4]) simp
qed

end
