(* ===== verification/Wl_References.thy ===== *)
theory Wl_References
  imports Wl_Threads "HOL-Library.Multiset"
begin

text \<open>
  References to proxies. The application holds one reference to a proxy until it destroys it; every event in a queue,
  and every event whose listener is being called, holds one for each proxy it mentions. The reference counts of the
  library say exactly that for the proxies in use, so that no event leads to a proxy that has been freed.
\<close>

section \<open>References of events\<close>

fun slot_refs :: "wl_closure \<Rightarrow> nat list \<Rightarrow> u64 multiset" where
  "slot_refs cl [] = {#}"
| "slot_refs cl (i # is) =
     (case slot_proxy cl i of Some p \<Rightarrow> if p = 0 then slot_refs cl is else add_mset p (slot_refs cl is) | None \<Rightarrow> slot_refs cl is)"

definition closure_refs :: "wl_closure \<Rightarrow> u64 multiset" where
  "closure_refs cl = slot_refs cl (object_slots cl)"

definition event_refs :: "queued_event \<Rightarrow> u64 multiset" where
  "event_refs ev = add_mset (qproxy ev) (closure_refs (qclosure ev))"

fun events_refs :: "queued_event list \<Rightarrow> u64 multiset" where
  "events_refs [] = {#}"
| "events_refs (ev # evs) = event_refs ev + events_refs evs"

definition event_good :: "queued_event \<Rightarrow> bool" where
  "event_good ev \<longleftrightarrow> (\<forall>i \<in> set (object_slots (qclosure ev)). slot_proxy (qclosure ev) i \<noteq> None)"

definition queue_refs :: "'a wl_client_display \<Rightarrow> queue_ref \<Rightarrow> u64 multiset" where
  "queue_refs s q = (case queues s q of None \<Rightarrow> {#} | Some evs \<Rightarrow> events_refs evs)"

definition held :: "'a wl_client_display \<Rightarrow> u64 multiset" where
  "held s = (\<Sum>q \<in> dom (queues s). queue_refs s q)"

lemma events_refs_append [simp]: "events_refs (xs @ ys) = events_refs xs + events_refs ys"
  by (induction xs) (simp_all add: ac_simps)

lemma slot_refs_append: "slot_refs cl (xs @ ys) = slot_refs cl xs + slot_refs cl ys"
  by (induction xs) (auto split: option.splits)

lemma slot_refs_cong: "(\<And>i. i \<in> set is \<Longrightarrow> slot_proxy cl i = slot_proxy cl' i) \<Longrightarrow> slot_refs cl is = slot_refs cl' is"
  by (induction "is") (auto split: option.splits)

text \<open>What is held, with one queue set apart.\<close>

definition held_elsewhere :: "'a wl_client_display \<Rightarrow> queue_ref \<Rightarrow> u64 multiset" where
  "held_elsewhere s q = (\<Sum>r \<in> dom (queues s) - {q}. queue_refs s r)"

lemma held_split: "finite (dom (queues s)) \<Longrightarrow> held s = queue_refs s q + held_elsewhere s q"
  by (cases "q \<in> dom (queues s)")
    (auto simp: held_def held_elsewhere_def sum.remove queue_refs_def domIff)

lemma held_elsewhere_set_queue: "held_elsewhere (set_queue q v s) q = held_elsewhere s q"
  unfolding held_elsewhere_def by (rule sum.cong) (auto simp: set_queue_def queue_refs_def)

lemma held_set_queue:
  assumes "finite (dom (queues s))"
  shows "held (set_queue q (Some evs) s) = events_refs evs + held_elsewhere s q"
    and "held (set_queue q None s) = held_elsewhere s q"
proof -
  have fin: "finite (dom (queues (set_queue q v s)))" for v
    by (rule finite_subset [of _ "insert q (dom (queues s))"]) (use assms in \<open>auto simp: set_queue_def split: if_splits\<close>)
  have r: "queue_refs (set_queue q v s) q = (case v of None \<Rightarrow> {#} | Some evs \<Rightarrow> events_refs evs)" for v
    by (simp add: queue_refs_def set_queue_def)
  show "held (set_queue q (Some evs) s) = events_refs evs + held_elsewhere s q" "held (set_queue q None s) = held_elsewhere s q"
    by (simp_all add: held_split [OF fin, of _ q] r held_elsewhere_set_queue)
qed

section \<open>Reference counts\<close>

definition is_destroyed :: "wl_proxy \<Rightarrow> bool" where
  "is_destroyed P \<longleftrightarrow> has_flag WL_PROXY_FLAG_DESTROYED P"

definition counted :: "nat \<Rightarrow> wl_proxy \<Rightarrow> bool" where
  "counted n P \<longleftrightarrow> prefcount P > 0 \<and> (if is_destroyed P then int n \<le> prefcount P else prefcount P = 1 + int n)"

definition refs_ok :: "u64 multiset \<Rightarrow> 'a wl_client_display \<Rightarrow> bool" where
  "refs_ok M s \<longleftrightarrow> proxies s 0 = None \<and>
     (\<forall>p. case proxies s p of None \<Rightarrow> count M p = 0 | Some P \<Rightarrow> counted (count M p) P)"

lemma refs_okD: "refs_ok M s \<Longrightarrow> proxies s p = Some P \<Longrightarrow> counted (count M p) P"
  unfolding refs_ok_def by (metis option.simps(5))

lemma refs_ok_None: "refs_ok M s \<Longrightarrow> proxies s p = None \<Longrightarrow> count M p = 0"
  unfolding refs_ok_def by (metis option.simps(4))

lemma refs_ok_zero: "refs_ok M s \<Longrightarrow> proxies s 0 = None"
  by (simp add: refs_ok_def)

lemma refs_ok_some: "refs_ok M s \<Longrightarrow> p \<in># M \<Longrightarrow> \<exists>P. proxies s p = Some P"
  using refs_ok_None by (metis not_in_iff option.exhaust)

lemma refs_ok_cong: "proxies t = proxies s \<Longrightarrow> refs_ok M t \<longleftrightarrow> refs_ok M s"
  by (simp add: refs_ok_def)

lemma refs_ok_set:
  assumes "refs_ok M s" "\<And>x. x \<noteq> p \<Longrightarrow> count N x = count M x" "p \<noteq> 0"
    and "case P of None \<Rightarrow> count N p = 0 | Some P \<Rightarrow> counted (count N p) P"
  shows "refs_ok N (set_proxy p P s)"
proof -
  have "case proxies (set_proxy p P s) x of None \<Rightarrow> count N x = 0 | Some P \<Rightarrow> counted (count N x) P" for x
  proof (cases "x = p")
    case True
    show ?thesis using assms(4) unfolding True by (simp add: set_proxy_def)
  next
    case False
    have "case proxies s x of None \<Rightarrow> count M x = 0 | Some P \<Rightarrow> counted (count M x) P" using assms(1) by (simp add: refs_ok_def)
    with False assms(2) [OF False] show ?thesis by (cases "proxies s x") (simp_all add: set_proxy_def)
  qed
  then show ?thesis using assms(1,3) by (simp add: refs_ok_def set_proxy_def)
qed

lemma destroyed_flags [simp]:
  "is_destroyed (P\<lparr>pflags := pflags P OR WL_PROXY_FLAG_DESTROYED\<rparr>)"
  "is_destroyed (P\<lparr>pflags := pflags P OR WL_PROXY_FLAG_ID_DELETED\<rparr>) \<longleftrightarrow> is_destroyed P"
proof -
  have d: "is_destroyed Q \<longleftrightarrow> bit (pflags Q) 1" for Q
    using bit_iff_and_push_bit_not_eq_0 [of "pflags Q" 1]
    by (simp add: is_destroyed_def has_flag_def WL_PROXY_FLAG_DESTROYED_def)
  show "is_destroyed (P\<lparr>pflags := pflags P OR WL_PROXY_FLAG_DESTROYED\<rparr>)"
    "is_destroyed (P\<lparr>pflags := pflags P OR WL_PROXY_FLAG_ID_DELETED\<rparr>) \<longleftrightarrow> is_destroyed P"
    by (simp_all add: d bit_or_iff WL_PROXY_FLAG_DESTROYED_def WL_PROXY_FLAG_ID_DELETED_def bit_numeral_rec bit_1_iff)
qed

lemma proxy_ref_ok:
  assumes "refs_ok M s" "proxy_ref p s = Some t"
  shows "refs_ok (add_mset p M) t" "queues t = queues s" "ddisplay t = ddisplay s"
proof -
  obtain P where P: "proxies s p = Some P" "t = set_proxy p (Some (P\<lparr>prefcount := prefcount P + 1\<rparr>)) s"
    using assms(2) by (auto simp: proxy_ref_def bind_eq_Some)
  have "p \<noteq> 0" using refs_ok_zero [OF assms(1)] P(1) by auto
  moreover have "counted (Suc (count M p)) (P\<lparr>prefcount := prefcount P + 1\<rparr>)"
    using refs_okD [OF assms(1) P(1)] by (auto simp: counted_def is_destroyed_def has_flag_def)
  ultimately show "refs_ok (add_mset p M) t" unfolding P(2) by (intro refs_ok_set [OF assms(1)]) auto
  show "queues t = queues s" "ddisplay t = ddisplay s" by (simp_all add: P(2) set_proxy_def)
qed

lemma unref_ok:
  assumes "refs_ok (add_mset p M) s"
  obtains t where "wl_proxy_unref p s = Some t" "refs_ok M t" "queues t = queues s" "ddisplay t = ddisplay s"
    "\<And>x. proxies t x = None \<Longrightarrow> proxies s x = None \<or> x = p \<and> p \<notin># M"
proof -
  obtain P where P: "proxies s p = Some P" using refs_ok_some [OF assms] by fastforce
  have p: "p \<noteq> 0" using refs_ok_zero [OF assms] P by auto
  have c: "counted (Suc (count M p)) P" using refs_okD [OF assms P] by simp
  let ?P = "P\<lparr>prefcount := prefcount P - 1\<rparr>"
  have f: "is_destroyed ?P = is_destroyed P" by (simp add: is_destroyed_def has_flag_def)
  show thesis
  proof (cases "prefcount P - 1 > 0")
    case True
    then have "counted (count M p) ?P" using c f by (auto simp: counted_def)
    then have "refs_ok M (set_proxy p (Some ?P) s)" using p by (intro refs_ok_set [OF assms]) auto
    with True c P show thesis
      by (intro that [of "set_proxy p (Some ?P) s"]) (auto simp: wl_proxy_unref_def counted_def set_proxy_def split: if_splits)
  next
    case False
    then have z: "prefcount P = 1" "is_destroyed P" "count M p = 0" using c by (auto simp: counted_def split: if_splits)
    then have "refs_ok M (set_proxy p None s)" using p by (intro refs_ok_set [OF assms]) auto
    with z P show thesis
      by (intro that [of "set_proxy p None s"]) (auto simp: wl_proxy_unref_def is_destroyed_def set_proxy_def not_in_iff split: if_splits)
  qed
qed

section \<open>Closures\<close>

lemma unref_slots_ok:
  assumes "refs_ok (slot_refs cl is + M) s" "\<forall>i \<in> set is. slot_proxy cl i \<noteq> None"
  obtains t where "ofold (unref_slot cl) is s = Some t" "refs_ok M t" "queues t = queues s" "ddisplay t = ddisplay s"
proof -
  have "\<exists>t. ofold (unref_slot cl) is s = Some t \<and> refs_ok M t \<and> queues t = queues s \<and> ddisplay t = ddisplay s"
    using assms
  proof (induction "is" arbitrary: s)
    case (Cons i "is")
    then obtain p where p: "slot_proxy cl i = Some p" by auto
    show ?case
    proof (cases "p = 0")
      case True
      with Cons p show ?thesis by (simp add: unref_slot_def)
    next
      case False
      then have "refs_ok (add_mset p (slot_refs cl is + M)) s" using Cons.prems(1) p by simp
      from unref_ok [OF this] obtain u where u: "wl_proxy_unref p s = Some u" "refs_ok (slot_refs cl is + M) u"
        "queues u = queues s" "ddisplay u = ddisplay s" by blast
      then show ?thesis using Cons.IH [OF u(2)] Cons.prems(2) p False by (auto simp: unref_slot_def)
    qed
  qed simp
  then show thesis using that by blast
qed

lemma destroy_queued_ok:
  assumes "refs_ok (event_refs ev + M) s" "event_good ev"
  obtains t where "destroy_queued_closure ev s = Some t" "refs_ok M t" "queues t = queues s" "ddisplay t = ddisplay s"
proof -
  let ?cl = "qclosure ev"
  have r: "refs_ok (slot_refs ?cl (object_slots ?cl) + add_mset (qproxy ev) M) s"
    using assms(1) by (simp add: event_refs_def closure_refs_def)
  from unref_slots_ok [OF r] assms(2) obtain u where u: "ofold (unref_slot ?cl) (object_slots ?cl) s = Some u"
    "refs_ok (add_mset (qproxy ev) M) u" "queues u = queues s" "ddisplay u = ddisplay s" by (auto simp: event_good_def)
  from unref_ok [OF u(2)] obtain v where v: "wl_proxy_unref (qproxy ev) u = Some v" "refs_ok M v" "queues v = queues u"
    "ddisplay v = ddisplay u" by blast
  show thesis
    by (rule that [of "v\<lparr>dsocket := wl_closure_destroy (Some ?cl) (dsocket v)\<rparr>"])
      (use u v in \<open>simp_all add: destroy_queued_closure_def refs_ok_def\<close>)
qed

lemma ref_slots_ok:
  assumes "refs_ok M s" "ofold (ref_slot cl) is s = Some t"
  shows "refs_ok (slot_refs cl is + M) t" "queues t = queues s" "ddisplay t = ddisplay s" "\<forall>i \<in> set is. slot_proxy cl i \<noteq> None"
proof -
  have "refs_ok (slot_refs cl is + M) t \<and> queues t = queues s \<and> ddisplay t = ddisplay s \<and> (\<forall>i \<in> set is. slot_proxy cl i \<noteq> None)"
    using assms
  proof (induction "is" arbitrary: s M)
    case (Cons i "is")
    then obtain u where u: "ref_slot cl i s = Some u" "ofold (ref_slot cl) is u = Some t" by (auto simp: bind_eq_Some)
    then obtain p where p: "slot_proxy cl i = Some p" by (auto simp: ref_slot_def bind_eq_Some)
    show ?case
    proof (cases "p = 0")
      case True
      then have "u = s" using u(1) p by (simp add: ref_slot_def)
      with Cons.IH [OF Cons.prems(1)] u(2) p True show ?thesis by simp
    next
      case False
      then have r: "proxy_ref p s = Some u" using u(1) p by (simp add: ref_slot_def)
      from proxy_ref_ok [OF Cons.prems(1) r] Cons.IH [of "add_mset p M" u] u(2) p False show ?thesis by simp
    qed
  qed simp
  then show "refs_ok (slot_refs cl is + M) t" "queues t = queues s" "ddisplay t = ddisplay s"
    "\<forall>i \<in> set is. slot_proxy cl i \<noteq> None" by blast+
qed

lemma increase_refs_ok:
  assumes "refs_ok M s" "increase_closure_args_refcount ev s = Some t"
  shows "refs_ok (event_refs ev + M) t" "queues t = queues s" "ddisplay t = ddisplay s" "event_good ev"
proof -
  let ?cl = "qclosure ev"
  obtain u where u: "ofold (ref_slot ?cl) (object_slots ?cl) s = Some u" "proxy_ref (qproxy ev) u = Some t"
    using assms(2) by (auto simp: increase_closure_args_refcount_def bind_eq_Some)
  note a = ref_slots_ok [OF assms(1) u(1)]
  note b = proxy_ref_ok [OF a(1) u(2)]
  show "refs_ok (event_refs ev + M) t" "queues t = queues s" "ddisplay t = ddisplay s" "event_good ev"
    using a b by (simp_all add: event_refs_def closure_refs_def event_good_def)
qed

text \<open>
  Before an event is dispatched its destroyed proxies are replaced by null. Their references are not dropped; what is
  left are references to proxies in use.
\<close>

lemma object_slots_args [simp]: "object_slots (cl\<lparr>cargs := args\<rparr>) = object_slots cl"
  by (simp add: object_slots_def)

lemma distinct_object_slots: "distinct (object_slots cl)"
  unfolding object_slots_def by (rule distinct_map_filter) (simp add: enumerate_eq_zip)

lemma slot_proxy_update:
  "slot_proxy (cl\<lparr>cargs := (cargs cl)[i := Arg_o 0]\<rparr>) j = (if j = i \<and> i < length (cargs cl) then Some 0 else slot_proxy cl j)"
  by (cases "i < length (cargs cl)") (auto simp: slot_proxy_def nth_list_update list_update_beyond)

lemma slot_proxy_in: "slot_proxy cl i = Some p \<Longrightarrow> i < length (cargs cl)"
  by (simp add: slot_proxy_def split: if_splits)

definition refs_left :: "'a wl_client_display \<Rightarrow> wl_closure \<Rightarrow> wl_closure \<Rightarrow> bool" where
  "refs_left s cl cl' \<longleftrightarrow> object_slots cl' = object_slots cl \<and>
     (\<forall>i \<in> set (object_slots cl). slot_proxy cl' i = slot_proxy cl i \<or>
        (\<exists>p P. slot_proxy cl i = Some p \<and> p \<noteq> 0 \<and> proxies s p = Some P \<and> is_destroyed P \<and> slot_proxy cl' i = Some 0))"

lemma slot_refs_left:
  assumes "\<forall>i \<in> set is. slot_proxy cl' i = slot_proxy cl i \<or>
      (\<exists>p P. slot_proxy cl i = Some p \<and> p \<noteq> 0 \<and> proxies s p = Some P \<and> is_destroyed P \<and> slot_proxy cl' i = Some 0)"
  shows "\<exists>D. slot_refs cl is = slot_refs cl' is + D \<and> (\<forall>p \<in># D. \<exists>P. proxies s p = Some P \<and> is_destroyed P)"
  using assms
proof (induction "is")
  case (Cons i "is")
  then obtain D where D: "slot_refs cl is = slot_refs cl' is + D" "\<forall>p \<in># D. \<exists>P. proxies s p = Some P \<and> is_destroyed P" by auto
  from Cons.prems consider "slot_proxy cl' i = slot_proxy cl i"
    | p P where "slot_proxy cl i = Some p" "p \<noteq> 0" "proxies s p = Some P" "is_destroyed P" "slot_proxy cl' i = Some 0"
    by auto
  then show ?case
  proof cases
    case 1
    with D show ?thesis by (intro exI [of _ D]) (auto split: option.splits)
  next
    case (2 p P)
    with D show ?thesis by (intro exI [of _ "add_mset p D"]) auto
  qed
qed simp

lemma refs_ok_drop_destroyed:
  assumes "refs_ok (N + D) s" "\<forall>p \<in># D. \<exists>P. proxies s p = Some P \<and> is_destroyed P"
  shows "refs_ok N s"
proof -
  have "case proxies s p of None \<Rightarrow> count N p = 0 | Some P \<Rightarrow> counted (count N p) P" for p
  proof (cases "proxies s p")
    case None
    then show ?thesis using refs_ok_None [OF assms(1)] by simp
  next
    case (Some P)
    have c: "counted (count (N + D) p) P" using refs_okD [OF assms(1) Some] .
    have "p \<notin># D" if "\<not> is_destroyed P" using assms(2) Some that by fastforce
    then show ?thesis using c Some by (auto simp: counted_def not_in_iff)
  qed
  then show ?thesis using assms(1) by (simp add: refs_ok_def)
qed

lemma validate_slots_ok:
  assumes "\<forall>i \<in> set is. \<forall>p. slot_proxy cl i = Some p \<longrightarrow> p = 0 \<or> (\<exists>P. proxies s p = Some P)"
    and "\<forall>i \<in> set is. slot_proxy cl i \<noteq> None" "distinct is"
  shows "\<exists>cl'. ofold (validate_slot s) is cl = Some cl' \<and> object_slots cl' = object_slots cl \<and> cl'\<lparr>cargs := cargs cl\<rparr> = cl \<and>
    (\<forall>i. i \<notin> set is \<longrightarrow> slot_proxy cl' i = slot_proxy cl i) \<and>
    (\<forall>i \<in> set is. (\<exists>p. slot_proxy cl' i = Some p \<and> (p = 0 \<or> usable s p)) \<and>
       (slot_proxy cl' i = slot_proxy cl i \<or>
        (\<exists>p P. slot_proxy cl i = Some p \<and> p \<noteq> 0 \<and> proxies s p = Some P \<and> is_destroyed P \<and> slot_proxy cl' i = Some 0)))"
  using assms
proof (induction "is" arbitrary: cl)
  case (Cons i "is")
  obtain p where p: "slot_proxy cl i = Some p" using Cons.prems(2) by auto
  define c1 where "c1 = (if p \<noteq> 0 \<and> is_destroyed (the (proxies s p)) then cl\<lparr>cargs := (cargs cl)[i := Arg_o 0]\<rparr> else cl)"
  have step: "validate_slot s i cl = Some c1"
    using Cons.prems(1) p by (auto simp: validate_slot_def c1_def is_destroyed_def)
  have here: "(\<exists>q. slot_proxy c1 i = Some q \<and> (q = 0 \<or> usable s q)) \<and> (slot_proxy c1 i = slot_proxy cl i \<or>
      (\<exists>p P. slot_proxy cl i = Some p \<and> p \<noteq> 0 \<and> proxies s p = Some P \<and> is_destroyed P \<and> slot_proxy c1 i = Some 0))"
    using p Cons.prems(1) by (auto simp: c1_def slot_proxy_update usable_def is_destroyed_def slot_proxy_in)
  have other: "slot_proxy c1 j = slot_proxy cl j" if "j \<noteq> i" for j using that by (simp add: c1_def slot_proxy_update)
  have i: "i \<notin> set is" "distinct is" using Cons.prems(3) by auto
  have "\<forall>j \<in> set is. slot_proxy c1 j = slot_proxy cl j" using other i(1) by metis
  then obtain cl' where cl': "ofold (validate_slot s) is c1 = Some cl'" "object_slots cl' = object_slots c1" "cl'\<lparr>cargs := cargs c1\<rparr> = c1"
    "\<forall>j. j \<notin> set is \<longrightarrow> slot_proxy cl' j = slot_proxy c1 j"
    "\<forall>j \<in> set is. (\<exists>p. slot_proxy cl' j = Some p \<and> (p = 0 \<or> usable s p)) \<and>
       (slot_proxy cl' j = slot_proxy c1 j \<or>
        (\<exists>p P. slot_proxy c1 j = Some p \<and> p \<noteq> 0 \<and> proxies s p = Some P \<and> is_destroyed P \<and> slot_proxy cl' j = Some 0))"
    using Cons.IH [of c1] Cons.prems i(2) by auto
  have c1: "object_slots c1 = object_slots cl" "c1\<lparr>cargs := cargs cl\<rparr> = cl" by (simp_all add: c1_def)
  have args: "cl'\<lparr>cargs := cargs cl\<rparr> = cl"
    using arg_cong [OF cl'(3), of "\<lambda>c. c\<lparr>cargs := cargs cl\<rparr>"] c1(2) by simp
  have i': "slot_proxy cl' i = slot_proxy c1 i" using cl'(4) i(1) by blast
  have "\<forall>j. j \<notin> set (i # is) \<longrightarrow> slot_proxy cl' j = slot_proxy cl j" using cl'(4) other by auto
  moreover have "(\<exists>p. slot_proxy cl' j = Some p \<and> (p = 0 \<or> usable s p)) \<and> (slot_proxy cl' j = slot_proxy cl j \<or>
      (\<exists>p P. slot_proxy cl j = Some p \<and> p \<noteq> 0 \<and> proxies s p = Some P \<and> is_destroyed P \<and> slot_proxy cl' j = Some 0))"
    if "j \<in> set (i # is)" for j
  proof (cases "j = i")
    case True
    then show ?thesis using here i' by simp
  next
    case False
    then have "j \<in> set is" using that by simp
    with cl'(5) other [OF False] show ?thesis by metis
  qed
  ultimately show ?case using step cl'(1,2) c1(1) args by auto
qed simp

section \<open>The invariant\<close>

definition queued_good :: "'a wl_client_display \<Rightarrow> bool" where
  "queued_good s \<longleftrightarrow> (\<forall>q evs. queues s q = Some evs \<longrightarrow> (\<forall>ev \<in> set evs. event_good ev))"

text \<open>\<open>M\<close> are the references held outside the queues.\<close>

definition refs_inv :: "u64 multiset \<Rightarrow> 'a wl_client_display \<Rightarrow> bool" where
  "refs_inv M s \<longleftrightarrow> finite (dom (queues s)) \<and> refs_ok (held s + M) s \<and> queued_good s"

definition same_refs :: "'a wl_client_display \<Rightarrow> 'a wl_client_display \<Rightarrow> bool" where
  "same_refs s t \<longleftrightarrow> proxies t = proxies s \<and> queues t = queues s"

lemma held_cong: "queues t = queues s \<Longrightarrow> held t = held s"
  by (simp add: held_def queue_refs_def)

lemma refs_inv_proxies: "refs_inv M s \<Longrightarrow> refs_ok (held s + N) t \<Longrightarrow> queues t = queues s \<Longrightarrow> refs_inv N t"
  using held_cong [of t s] by (simp add: refs_inv_def queued_good_def)

lemma refs_inv_same: "same_refs s t \<Longrightarrow> refs_inv M t \<longleftrightarrow> refs_inv M s"
  using held_cong [of t s] refs_ok_cong [of t s] by (simp add: same_refs_def refs_inv_def queued_good_def)

lemma same_refs_simps [simp]:
  "same_refs s s" "same_refs s (t\<lparr>dobjects := m\<rparr>) \<longleftrightarrow> same_refs s t" "same_refs s (t\<lparr>zombies := z\<rparr>) \<longleftrightarrow> same_refs s t"
  "same_refs s (t\<lparr>dsocket := w\<rparr>) \<longleftrightarrow> same_refs s t" "same_refs s (t\<lparr>dconnection := c\<rparr>) \<longleftrightarrow> same_refs s t"
  "same_refs s (t\<lparr>synced := x\<rparr>) \<longleftrightarrow> same_refs s t" "same_refs s (set_errno e t) \<longleftrightarrow> same_refs s t"
  "same_refs s (drop_closure cl t) \<longleftrightarrow> same_refs s t" "same_refs s (display_wakeup_threads t) \<longleftrightarrow> same_refs s t"
  "same_refs s (display_fatal_error e t) \<longleftrightarrow> same_refs s t" "same_refs s (t\<lparr>reader_count := n\<rparr>) \<longleftrightarrow> same_refs s t"
  "same_refs s (snd (client_malloc E t)) \<longleftrightarrow> same_refs s t" "same_refs s (t\<lparr>application := a\<rparr>) \<longleftrightarrow> same_refs s t"
  by (simp_all add: same_refs_def set_errno_def drop_closure_def display_wakeup_threads_def display_fatal_error_def
      client_malloc_def Let_def)

lemma client_malloc_fresh:
  assumes "cenv_ok E" "client_malloc E s = (p, t)" "p \<noteq> 0"
  shows "proxies s p = None" "queues s (Queue p) = None" "same_refs s t"
proof -
  have p: "p = cmalloc E s" using assms(2) by (simp add: client_malloc_def Let_def)
  have "\<not> used_address s p" using assms(1,3) unfolding p cenv_ok_def by blast
  then show "proxies s p = None" "queues s (Queue p) = None" by (simp_all add: used_address_def)
  show "same_refs s t" using assms(2) same_refs_simps(12) [of s E s] by simp
qed

lemma client_malloc_same: "client_malloc E s = (p, t) \<Longrightarrow> same_refs s t"
  using same_refs_simps(12) [of s E s] by simp

lemma refs_inv_change:
  assumes "refs_inv M s" "proxies s p = Some P" "prefcount P' = prefcount P" "is_destroyed P' = is_destroyed P"
  shows "refs_inv M (set_proxy p (Some P') s)"
proof -
  have r: "refs_ok (held s + M) s" using assms(1) by (simp add: refs_inv_def)
  have "p \<noteq> 0" using refs_ok_zero [OF r] assms(2) by auto
  moreover have "counted (count (held s + M) p) P'" using refs_okD [OF r assms(2)] assms(3,4) unfolding counted_def by metis
  ultimately have "refs_ok (held s + M) (set_proxy p (Some P') s)" by (intro refs_ok_set [OF r]) auto
  then show ?thesis by (rule refs_inv_proxies [OF assms(1)]) (simp add: set_proxy_def)
qed

lemma refs_inv_new:
  assumes "refs_inv M s" "proxies s p = None" "p \<noteq> 0" "prefcount P = 1" "\<not> is_destroyed P"
  shows "refs_inv M (set_proxy p (Some P) s)"
proof -
  have r: "refs_ok (held s + M) s" using assms(1) by (simp add: refs_inv_def)
  have "counted (count (held s + M) p) P" using refs_ok_None [OF r assms(2)] assms(4,5) by (simp add: counted_def)
  with assms(3) have "refs_ok (held s + M) (set_proxy p (Some P) s)" by (intro refs_ok_set [OF r]) auto
  then show ?thesis by (rule refs_inv_proxies [OF assms(1)]) (simp add: set_proxy_def)
qed

lemma refs_inv_free:
  assumes "refs_inv M s" "proxies s p = Some P" "prefcount P = 1" "\<not> is_destroyed P"
  shows "refs_inv M (set_proxy p None s)"
proof -
  have r: "refs_ok (held s + M) s" using assms(1) by (simp add: refs_inv_def)
  have "p \<noteq> 0" using refs_ok_zero [OF r] assms(2) by auto
  moreover have "count (held s + M) p = 0" using refs_okD [OF r assms(2)] assms(3,4) by (simp add: counted_def)
  ultimately have "refs_ok (held s + M) (set_proxy p None s)" by (intro refs_ok_set [OF r]) auto
  then show ?thesis by (rule refs_inv_proxies [OF assms(1)]) (simp add: set_proxy_def)
qed

text \<open>A proxy without flags is in use.\<close>

lemma no_flags [simp]: "pflags P = 0 \<Longrightarrow> \<not> is_destroyed P" "pflags P = WL_PROXY_FLAG_WRAPPER \<Longrightarrow> \<not> is_destroyed P"
  by (simp_all add: is_destroyed_def has_flag_def WL_PROXY_FLAG_WRAPPER_def WL_PROXY_FLAG_DESTROYED_def)

section \<open>Operations of the application\<close>

lemma proxy_create_refs:
  assumes "cenv_ok E" "refs_inv M s" "proxy_create E f intf v s = Some (p, t)"
  shows "refs_inv M t"
proof -
  obtain q u where m: "client_malloc E s = (q, u)" by fastforce
  show ?thesis
  proof (cases "q = 0")
    case True
    then show ?thesis using assms m client_malloc_same [OF m] by (auto simp: proxy_create_def bind_eq_Some refs_inv_same)
  next
    case False
    obtain P m' where t: "t = set_proxy q (Some P) (u\<lparr>dobjects := m'\<rparr>)" "prefcount P = 1" "pflags P = 0"
      using assms(3) m False by (auto simp: proxy_create_def bind_eq_Some)
    note fresh = client_malloc_fresh [OF assms(1) m False]
    have "same_refs s (u\<lparr>dobjects := m'\<rparr>)" using fresh(3) by simp
    then have "refs_inv M (u\<lparr>dobjects := m'\<rparr>)" "proxies (u\<lparr>dobjects := m'\<rparr>) q = None"
      using assms(2) fresh(1) refs_inv_same by (blast, simp add: same_refs_def)
    with t False show ?thesis by (simp add: refs_inv_new)
  qed
qed

lemma create_for_id_refs:
  assumes "cenv_ok E" "refs_inv M s" "wl_proxy_create_for_id E f i intf s = Some (p, t)"
  shows "refs_inv M t"
proof -
  obtain q u where m: "client_malloc E s = (q, u)" by fastforce
  show ?thesis
  proof (cases "q = 0")
    case True
    then show ?thesis using assms m client_malloc_same [OF m] by (auto simp: wl_proxy_create_for_id_def bind_eq_Some refs_inv_same)
  next
    case False
    obtain P m' where t: "t = set_proxy q (Some P) (u\<lparr>dobjects := m'\<rparr>)" "prefcount P = 1" "pflags P = 0"
      using assms(3) m False by (auto simp: wl_proxy_create_for_id_def bind_eq_Some)
    note fresh = client_malloc_fresh [OF assms(1) m False]
    have "same_refs s (u\<lparr>dobjects := m'\<rparr>)" using fresh(3) by simp
    then have "refs_inv M (u\<lparr>dobjects := m'\<rparr>)" "proxies (u\<lparr>dobjects := m'\<rparr>) q = None"
      using assms(2) fresh(1) refs_inv_same by (blast, simp add: same_refs_def)
    with t False show ?thesis by (simp add: refs_inv_new)
  qed
qed

lemma prepare_zombie_same: "prepare_zombie E P s = (z, t) \<Longrightarrow> same_refs s t"
  by (cases "client_malloc E s") (auto simp: prepare_zombie_def Let_def split: if_split_asm dest: client_malloc_same)

text \<open>
  The application gives up its reference; the proxy is freed only when no event is left that mentions it.
\<close>

lemma proxy_destroy_refs:
  assumes "refs_inv M s" "usable s p" "proxy_destroy E p s = Some t"
  shows "refs_inv M t" "proxies t p = None \<Longrightarrow> p \<notin># held s + M"
proof -
  obtain P where P: "proxies s p = Some P" "\<not> is_destroyed P"
    using assms(2) by (auto simp: usable_def is_destroyed_def split: option.splits)
  let ?P = "P\<lparr>pflags := pflags P OR WL_PROXY_FLAG_DESTROYED\<rparr>"
  obtain z v where z: "prepare_zombie E P s = (z, v)" by fastforce
  obtain u where u: "same_refs s u" "wl_proxy_unref p (set_proxy p (Some ?P) u) = Some t"
  proof (cases "has_flag WL_PROXY_FLAG_ID_DELETED P")
    case True
    with assms(3) P(1) obtain m where "wl_proxy_unref p (set_proxy p (Some ?P) (s\<lparr>dobjects := m\<rparr>)) = Some t"
      by (auto simp: proxy_destroy_def bind_eq_Some)
    then show thesis using that [of "s\<lparr>dobjects := m\<rparr>"] by simp
  next
    case False
    show thesis
    proof (cases "pid P < WL_SERVER_ID_START")
      case True
      with False assms(3) P(1) z obtain m where "wl_proxy_unref p (set_proxy p (Some ?P) (v\<lparr>dobjects := m\<rparr>)) = Some t"
        by (auto simp: proxy_destroy_def bind_eq_Some)
      then show thesis using that [of "v\<lparr>dobjects := m\<rparr>"] prepare_zombie_same [OF z] by simp
    next
      case server: False
      with False assms(3) P(1) obtain m where "wl_proxy_unref p (set_proxy p (Some ?P) (s\<lparr>dobjects := m\<rparr>)) = Some t"
        by (auto simp: proxy_destroy_def bind_eq_Some)
      then show thesis using that [of "s\<lparr>dobjects := m\<rparr>"] by simp
    qed
  qed
  have r: "refs_ok (held s + M) s" using assms(1) by (simp add: refs_inv_def)
  have p: "p \<noteq> 0" using refs_ok_zero [OF r] P(1) by auto
  have "counted (count (add_mset p (held s + M)) p) ?P" using refs_okD [OF r P(1)] P(2) by (simp add: counted_def)
  then have "refs_ok (add_mset p (held s + M)) (set_proxy p (Some ?P) s)" using p by (intro refs_ok_set [OF r]) auto
  then have "refs_ok (add_mset p (held s + M)) (set_proxy p (Some ?P) u)"
    using u(1) by (simp add: refs_ok_def set_proxy_def same_refs_def)
  from unref_ok [OF this] obtain t' where t': "wl_proxy_unref p (set_proxy p (Some ?P) u) = Some t'"
    "refs_ok (held s + M) t'" "queues t' = queues (set_proxy p (Some ?P) u)"
    "\<And>x. proxies t' x = None \<Longrightarrow> proxies (set_proxy p (Some ?P) u) x = None \<or> x = p \<and> p \<notin># held s + M" by metis
  then have eq: "t' = t" using u(2) by simp
  with t' u(1) have t: "refs_ok (held s + M) t" "queues t = queues s" by (simp_all add: set_proxy_def same_refs_def)
  show "refs_inv M t" by (rule refs_inv_proxies [OF assms(1) t(1,2)])
  show "proxies t p = None \<Longrightarrow> p \<notin># held s + M" using t'(4) [of p] eq by (simp add: set_proxy_def)
qed

lemma outgoing_refs:
  assumes "cenv_ok E" "refs_inv M s" "outgoing_loop E p f v i ds args new s = Some (q, args', t)"
  shows "refs_inv M t"
  using assms
proof (induction E p f v i ds args new s rule: outgoing_loop.induct)
  case (2 E p f v i d ds args new s)
  show ?case
  proof (cases "atype d = CHR ''n''")
    case True
    then obtain r u where r: "proxy_create E p f v s = Some (r, u)"
      "(if r = 0 then Some (0, args, u) else outgoing_loop E p f v (Suc i) ds (args[i := Arg_o r]) r u) = Some (q, args', t)"
      using 2(5) by (auto simp: bind_eq_Some)
    note ru = proxy_create_refs [OF 2(3,4) r(1)]
    show ?thesis
    proof (cases "r = 0")
      case True
      with r ru show ?thesis by simp
    next
      case False
      with 2(1) [OF True r(1) refl False 2(3) ru] r show ?thesis by simp
    qed
  next
    case False
    with 2(2) [OF False 2(3,4)] 2(5) show ?thesis by simp
  qed
qed simp

lemma marshal_refs:
  assumes "cenv_ok E" "refs_inv M s" "wl_proxy_marshal_array_constructor_versioned E p opcode args f v s = Some (q, t)"
  shows "refs_inv M t"
proof -
  obtain P message new args' s1 where P: "proxies s p = Some P" "nth_message (methods (pinterface P)) opcode = Some message"
    and s1: "(case f of None \<Rightarrow> Some (0, args, s) | Some f \<Rightarrow> create_outgoing_proxy E p message args f v s) = Some (new, args', s1)"
    using assms(3) unfolding wl_proxy_marshal_array_constructor_versioned_def by (auto simp: bind_eq_Some)
  have c1: "refs_inv M s1"
    using s1 assms(2) outgoing_refs [OF assms(1,2)] by (cases f) (auto simp: create_outgoing_proxy_def)
  obtain mem s2 where s2: "client_malloc E s1 = (mem, s2)" by fastforce
  have "same_refs s1 t \<or> t = s1"
    using assms(3) P s1 s2 client_malloc_same [OF s2] unfolding wl_proxy_marshal_array_constructor_versioned_def
    by (auto simp: bind_eq_Some split: if_split_asm sum.split_asm prod.split_asm option.split_asm)
  with c1 refs_inv_same [of s1 t M] show ?thesis by auto
qed

lemma release_events_refs:
  assumes "refs_inv M s" "queues s q = Some evs" "release_events q evs s = Some t"
  shows "refs_inv M t \<and> queues t q = Some []"
  using assms
proof (induction evs arbitrary: s)
  case (Cons ev evs)
  let ?s = "set_queue q (Some evs) s"
  have fin: "finite (dom (queues s))" and r: "refs_ok (held s + M) s" and good: "event_good ev" "queued_good ?s"
    using Cons.prems(1,2) by (auto simp: refs_inv_def queued_good_def set_queue_def split: if_splits)
  have "held s = event_refs ev + held ?s"
    unfolding held_split [OF fin, of q] held_set_queue(1) [OF fin, of q evs] using Cons.prems(2) by (simp add: queue_refs_def)
  then have "refs_ok (event_refs ev + (held ?s + M)) s" using r by (metis add.assoc)
  then have "refs_ok (event_refs ev + (held ?s + M)) ?s" using refs_ok_cong [of ?s s] by (simp add: set_queue_def)
  from destroy_queued_ok [OF this good(1)] obtain u where u: "destroy_queued_closure ev ?s = Some u" "refs_ok (held ?s + M) u"
    "queues u = queues ?s" by blast
  have "finite (dom (queues ?s))" by (rule finite_subset [OF _ fin]) (use Cons.prems(2) in \<open>auto simp: set_queue_def split: if_splits\<close>)
  then have "refs_inv M u" using u good(2) held_cong [of u ?s] by (simp add: refs_inv_def queued_good_def)
  moreover have "queues u q = Some evs" using u(3) by (simp add: set_queue_def)
  moreover have "release_events q evs u = Some t" using Cons.prems(3) u(1) by simp
  ultimately show ?case by (rule Cons.IH)
qed simp

lemma set_empty_queue_refs:
  assumes "refs_inv M s" "v = None \<or> v = Some []" "queues s q = None \<or> queues s q = Some []"
  shows "refs_inv M (set_queue q v s)"
proof -
  have fin: "finite (dom (queues s))" using assms(1) by (simp add: refs_inv_def)
  have "queue_refs s q = {#}" using assms(3) by (auto simp: queue_refs_def)
  then have "held (set_queue q v s) = held s"
    unfolding held_split [OF fin, of q] using held_set_queue [OF fin, of q] assms(2) by auto
  moreover have "finite (dom (queues (set_queue q v s)))"
    by (rule finite_subset [of _ "insert q (dom (queues s))"]) (use fin in \<open>auto simp: set_queue_def split: if_splits\<close>)
  ultimately show ?thesis
    using assms(1,2) refs_ok_cong [of "set_queue q v s" s] by (auto simp: refs_inv_def queued_good_def set_queue_def split: if_splits)
qed

lemma app_step_refs:
  assumes "app_step E s t" "cenv_ok E" "refs_inv M s"
  shows "refs_inv M t"
  using assms
proof (induction rule: app_step.induct)
  case (create s f intf p t)
  then show ?case by (auto simp: wl_proxy_create_def bind_eq_Some intro: proxy_create_refs)
next
  case (destroy s p t)
  then show ?case
    by (auto simp: wl_proxy_destroy_def owned_def bind_eq_Some split: if_split_asm intro: proxy_destroy_refs)
next
  case (request s p opcode args f v q t)
  then show ?case by (auto intro: marshal_refs)
next
  case (create_wrapper s p w t)
  obtain q u where m: "client_malloc E s = (q, u)" by fastforce
  note fresh = client_malloc_fresh [OF create_wrapper(3) m]
  have u: "refs_inv M u" using create_wrapper(4) client_malloc_same [OF m] refs_inv_same by blast
  show ?case
  proof (cases "q = 0")
    case True
    with create_wrapper(2) m u show ?thesis by (simp add: wl_proxy_create_wrapper_def)
  next
    case False
    then have "proxies u q = None" using fresh by (simp add: same_refs_def)
    with False create_wrapper(2) m u show ?thesis
      by (auto simp: wl_proxy_create_wrapper_def bind_eq_Some intro!: refs_inv_new)
  qed
next
  case (destroy_wrapper s w t)
  then show ?case
    by (auto simp: wl_proxy_wrapper_destroy_def owned_def usable_def is_destroyed_def bind_eq_Some split: if_split_asm
        intro!: refs_inv_free)
next
  case (create_queue s q t)
  obtain a u where m: "client_malloc E s = (a, u)" by fastforce
  have u: "refs_inv M u" using create_queue(3) client_malloc_same [OF m] refs_inv_same by blast
  show ?case
  proof (cases "a = 0")
    case True
    with create_queue(1) m u show ?thesis by (simp add: wl_display_create_queue_def)
  next
    case False
    note fresh = client_malloc_fresh [OF create_queue(2) m False]
    then have "queues u (Queue a) = None" by (simp add: same_refs_def)
    with False create_queue(1) m u show ?thesis
      by (auto simp: wl_display_create_queue_def intro!: set_empty_queue_refs)
  qed
next
  case (destroy_queue a s t)
  then obtain evs u where u: "queues s (Queue a) = Some evs" "release_events (Queue a) evs s = Some u" "t = set_queue (Queue a) None u"
    by (auto simp: wl_event_queue_destroy_def wl_event_queue_release_def bind_eq_Some)
  from release_events_refs [OF destroy_queue(3) u(1,2)] u(3) show ?case by (simp add: set_empty_queue_refs)
next
  case (other s x)
  then show ?case using refs_inv_same [of s "s\<lparr>application := x\<rparr>" M] by simp
qed (auto simp: wl_proxy_add_listener_def wl_proxy_add_dispatcher_def wl_proxy_set_user_data_def wl_proxy_set_queue_def
    bind_eq_Some is_destroyed_def has_flag_def split: if_split_asm intro!: refs_inv_change)

section \<open>Receiving\<close>

lemma create_loop_refs:
  assumes "cenv_ok E" "refs_inv M s" "create_loop E p m i ds args s = Some (args', ret, t)"
  shows "refs_inv M t"
  using assms
proof (induction E p m i ds args s rule: create_loop.induct)
  case (2 E p m i d ds args s)
  show ?case
  proof (cases "atype d = CHR ''n''")
    case n: True
    then obtain id' where a: "args ! i = Arg_n id'" using 2(6) by (cases "args ! i") auto
    show ?thesis
    proof (cases "id' = 0")
      case True
      with 2(1) [OF n a True 2(4,5)] 2(6) n a show ?thesis by simp
    next
      case False
      then obtain f r u where f: "\<not> length (types m) \<le> i" "types m ! i = Some f" "wl_proxy_create_for_id E p id' (spec_of E f) s = Some (r, u)"
        "(if r = 0 then Some (args, -1, u) else create_loop E p m (Suc i) ds (args[i := Arg_o r]) u) = Some (args', ret, t)"
        using 2(6) n a by (auto simp: bind_eq_Some split: if_split_asm)
      note ru = create_for_id_refs [OF 2(4,5) f(3)]
      show ?thesis
      proof (cases "r = 0")
        case True
        with f ru show ?thesis by simp
      next
        case r: False
        with 2(2) [OF n a False f(1,2,3) refl r 2(4) ru] f show ?thesis by simp
      qed
    qed
  next
    case False
    with 2(3) [OF False 2(4,5)] 2(6) show ?thesis by simp
  qed
qed simp

lemma append_event_refs:
  assumes "refs_inv M s" "append_event p cl s = Some t"
  shows "refs_inv M t"
proof -
  let ?ev = "\<lparr>qclosure = cl, qproxy = p\<rparr>"
  obtain u q evs where u: "increase_closure_args_refcount ?ev s = Some u" "queues u q = Some evs" "t = set_queue q (Some (evs @ [?ev])) u"
    using assms(2) by (auto simp: append_event_def bind_eq_Some Let_def)
  have s: "finite (dom (queues s))" "refs_ok (held s + M) s" "queued_good s" using assms(1) by (simp_all add: refs_inv_def)
  note i = increase_refs_ok [OF s(2) u(1)]
  have fin: "finite (dom (queues u))" using s(1) i(2) by simp
  have "held t = events_refs evs + event_refs ?ev + held_elsewhere u q"
    unfolding u(3) held_set_queue(1) [OF fin] by simp
  also have "\<dots> = event_refs ?ev + held u"
    unfolding held_split [OF fin, of q] using u(2) by (simp add: queue_refs_def ac_simps)
  finally have "held t = event_refs ?ev + held s" using held_cong [OF i(2)] by simp
  moreover have "refs_ok (event_refs ?ev + (held s + M)) t" using i(1) refs_ok_cong [of t u] u(3) by (simp add: set_queue_def)
  ultimately have "refs_ok (held t + M) t" by (simp add: add.assoc)
  moreover have "finite (dom (queues t))"
    by (rule finite_subset [OF _ fin]) (use u(2,3) in \<open>auto simp: set_queue_def split: if_splits\<close>)
  moreover have "queued_good t" using s(3) i(2,4) u(2,3) by (auto simp: queued_good_def set_queue_def split: if_splits)
  ultimately show ?thesis by (simp add: refs_inv_def)
qed

lemma resolve_event_refs:
  assumes "cenv_ok E" "refs_inv M s" "resolve_event E p sz cl s = Some (r, t)"
  shows "refs_inv M t"
proof -
  obtain cl' ret u where u: "create_proxies E p cl s = Some (cl', ret, u)" using assms(3) by (auto simp: resolve_event_def bind_eq_Some)
  then have ru: "refs_inv M u" using assms(1,2) by (auto simp: create_proxies_def bind_eq_Some intro: create_loop_refs)
  have same: "refs_inv M (drop_closure c u)" "refs_inv M (set_errno e (drop_closure c u))" for c e
    using ru refs_inv_same [of u "drop_closure c u"] refs_inv_same [of u "set_errno e (drop_closure c u)"] by simp_all
  show ?thesis
    using assms(3) u same ru append_event_refs
    by (auto simp: resolve_event_def bind_eq_Some split: if_split_asm sum.split_asm)
qed

lemma receive_event_refs:
  assumes "cenv_ok E" "refs_inv M s" "receive_event E p opcode sz s = Some (r, t)"
  shows "refs_inv M t"
  using assms(3)
proof (rule receive_event_cases)
  fix P message res conn m w
  let ?u = "(snd (client_malloc E s))\<lparr>dconnection := conn, dobjects := m, dsocket := w\<rparr>"
  assume u: "case res of None \<Rightarrow> r = -1 \<and> t = ?u | Some cl \<Rightarrow> resolve_event E p sz cl ?u = Some (r, t)"
  have "same_refs s ?u" using same_refs_simps(12) [of s E s] by (simp add: same_refs_def)
  then have "refs_inv M ?u" using assms(2) refs_inv_same by blast
  with u resolve_event_refs [OF assms(1)] show ?thesis by (cases res) auto
qed

lemma eat_event_same: "eat_event z opcode sz s = Some t \<Longrightarrow> same_refs s t"
  unfolding eat_event_def by (auto simp: bind_eq_Some Let_def same_refs_def split: if_split_asm prod.split_asm)

lemma queue_event_refs:
  assumes "cenv_ok E" "refs_inv M s" "queue_event E len s = Some (r, t)"
  shows "refs_inv M t"
proof -
  obtain p0 opcode sz where h: "event_header s = (p0, opcode, sz)" by (metis prod_cases3)
  from assms(3) h show ?thesis
  proof (cases rule: queue_event_cases)
    case incomplete
    with assms(2) show ?thesis by simp
  next
    case (gone p)
    with assms(2) eat_event_same refs_inv_same show ?thesis by blast
  next
    case (there p)
    with assms(1,2) receive_event_refs show ?thesis by blast
  qed
qed

lemma queue_events_refs:
  assumes "cenv_ok E" "refs_inv M s" "queue_events E rem s = Some (r, t)"
  shows "refs_inv M t"
  using assms
proof (induction E rem s rule: queue_events.induct)
  case (1 E rem s)
  show ?case
  proof (cases "rem \<ge> 8")
    case True
    then obtain sz u where q: "queue_event E rem s = Some (sz, u)"
      and r: "(if sz = -1 then Some (-1, display_fatal_error (errno (dsocket u)) u)
        else if sz = 0 then Some (0, u) else queue_events E (rem - sz) u) = Some (r, t)"
      using 1(4) queue_events.simps [of E rem s] by (auto split: option.split_asm)
    have u: "refs_inv M u" by (rule queue_event_refs [OF 1(2,3) q])
    consider "sz = -1" | "sz = 0" | "sz \<noteq> -1" "sz \<noteq> 0" by blast
    then show ?thesis
    proof cases
      case 1
      then have "same_refs u t" using r by auto
      with u refs_inv_same show ?thesis by blast
    next
      case 2
      with r u show ?thesis by simp
    next
      case 3
      with r 1(1) [OF True q refl 3 1(2) u] show ?thesis by simp
    qed
  next
    case False
    then show ?thesis using 1(3,4) queue_events.simps [of E rem s] by simp
  qed
qed

lemma read_socket_refs:
  assumes "cenv_ok E" "refs_inv M s" "read_socket E s = Some (r, t)"
  shows "refs_inv M t"
proof -
  obtain conn w total where c: "wl_connection_read (dconnection s) (dsocket s) = Some (conn, w, total)"
    using assms(3) by (auto simp: read_socket_def bind_eq_Some)
  let ?s = "s\<lparr>dconnection := conn, dsocket := w\<rparr>"
  have s: "refs_inv M ?s" using assms(2) refs_inv_same [of s ?s] by (simp add: same_refs_def)
  consider "total = -1" | "total = 0" | "total \<noteq> -1" "total \<noteq> 0" by blast
  then show ?thesis
  proof cases
    case 3
    then obtain ret u where u: "queue_events E total ?s = Some (ret, u)" "t = u \<or> t = display_wakeup_threads u"
      using assms(3) c by (auto simp: read_socket_def Let_def bind_eq_Some split: if_split_asm)
    have "same_refs u t" using u(2) by auto
    then show ?thesis using queue_events_refs [OF assms(1) s u(1)] refs_inv_same by blast
  next
    case 1
    then have "same_refs ?s t" using assms(3) c by (auto simp: read_socket_def Let_def split: if_split_asm)
    with s refs_inv_same show ?thesis by blast
  next
    case 2
    then have "same_refs ?s t" using assms(3) c by (auto simp: read_socket_def Let_def)
    with s refs_inv_same show ?thesis by blast
  qed
qed

lemma start_read_refs:
  assumes "cenv_ok E" "refs_inv M s" "start_read E s = Some (r, t)"
  shows "refs_inv M t"
proof -
  let ?s = "s\<lparr>reader_count := reader_count s - 1\<rparr>"
  have s: "refs_inv M ?s" using assms(2) refs_inv_same [of s ?s] by simp
  have "same_refs s t \<or> (\<exists>x. read_socket E ?s = Some (x, t))"
    using assms(3)
    by (auto simp: start_read_def read_events_def cancel_read_def Let_def bind_eq_Some split: if_split_asm)
  then show ?thesis using assms(2) refs_inv_same read_socket_refs [OF assms(1) s] by blast
qed

section \<open>Dispatching\<close>

lemma slot_refs_mem: "i \<in> set is \<Longrightarrow> slot_proxy cl i = Some p \<Longrightarrow> p \<noteq> 0 \<Longrightarrow> p \<in># slot_refs cl is"
  by (induction "is") (auto split: option.splits)

text \<open>An event can always be taken off its queue: every proxy it mentions is there.\<close>

lemma take_event_total:
  assumes inv: "refs_inv M s" and q: "queues s q = Some (ev0 # evs)"
  obtains ev d t where "take_event q s = Some (ev, d, t)" "refs_inv (event_refs ev + M) t" "event_good ev"
    "qproxy ev = qproxy ev0" "d \<longleftrightarrow> \<not> usable t (qproxy ev)" "\<exists>P. proxies t (qproxy ev) = Some P"
    "\<forall>i \<in> set (object_slots (qclosure ev)). \<exists>p. slot_proxy (qclosure ev) i = Some p \<and> (p = 0 \<or> usable t p)"
proof -
  let ?t = "set_queue q (Some evs) s" let ?cl = "qclosure ev0"
  have fin: "finite (dom (queues s))" and r: "refs_ok (held s + M) s" and good: "event_good ev0" "queued_good ?t"
    using inv q by (auto simp: refs_inv_def queued_good_def set_queue_def split: if_splits)
  have h: "held s = event_refs ev0 + held ?t"
    unfolding held_split [OF fin, of q] held_set_queue(1) [OF fin, of q evs] using q by (simp add: queue_refs_def)
  then have "refs_ok (event_refs ev0 + (held ?t + M)) s" using r by (metis add.assoc)
  then have rt: "refs_ok (event_refs ev0 + (held ?t + M)) ?t" using refs_ok_cong [of ?t s] by (simp add: set_queue_def)
  have alive: "\<exists>P. proxies ?t p = Some P" if "p \<in># event_refs ev0" for p
    using refs_ok_some [OF rt, of p] that by simp
  have "\<forall>i \<in> set (object_slots ?cl). \<forall>p. slot_proxy ?cl i = Some p \<longrightarrow> p = 0 \<or> (\<exists>P. proxies ?t p = Some P)"
    using alive slot_refs_mem by (fastforce simp: event_refs_def closure_refs_def)
  note val = validate_slots_ok [OF this _ distinct_object_slots]
  have "\<forall>i \<in> set (object_slots ?cl). slot_proxy ?cl i \<noteq> None" using good(1) by (simp add: event_good_def)
  from val [OF this] obtain cl where
    cl: "validate_closure_objects ?cl ?t = Some cl" "object_slots cl = object_slots ?cl"
    "\<forall>i \<in> set (object_slots ?cl). \<exists>p. slot_proxy cl i = Some p \<and> (p = 0 \<or> usable ?t p)"
    "\<forall>i \<in> set (object_slots ?cl). slot_proxy cl i = slot_proxy ?cl i \<or>
      (\<exists>p P. slot_proxy ?cl i = Some p \<and> p \<noteq> 0 \<and> proxies ?t p = Some P \<and> is_destroyed P \<and> slot_proxy cl i = Some 0)"
    unfolding validate_closure_objects_def by blast
  from slot_refs_left [OF cl(4)] obtain D where D: "slot_refs ?cl (object_slots ?cl) = slot_refs cl (object_slots ?cl) + D"
    "\<forall>p \<in># D. \<exists>P. proxies ?t p = Some P \<and> is_destroyed P" by blast
  obtain P where P: "proxies ?t (qproxy ev0) = Some P" using alive by (force simp: event_refs_def)
  let ?ev = "ev0\<lparr>qclosure := cl\<rparr>"
  have "event_refs ev0 + (held ?t + M) = held ?t + (event_refs ?ev + M) + D"
    using D(1) cl(2) by (simp add: event_refs_def closure_refs_def ac_simps)
  with rt have "refs_ok (held ?t + (event_refs ?ev + M)) ?t" using refs_ok_drop_destroyed [OF _ D(2)] by metis
  moreover have "finite (dom (queues ?t))"
    by (rule finite_subset [OF _ fin]) (use q in \<open>auto simp: set_queue_def split: if_splits\<close>)
  ultimately have "refs_inv (event_refs ?ev + M) ?t" using good(2) by (simp add: refs_inv_def)
  moreover have "take_event q s = Some (?ev, has_flag WL_PROXY_FLAG_DESTROYED P, ?t)"
    using q cl(1) P by (simp add: take_event_def)
  ultimately show thesis using cl P by (intro that [of ?ev _ ?t]) (auto simp: event_good_def usable_def)
qed

text \<open>A call clears descriptors in a closure, never proxies.\<close>

lemma details_Nil: "details sig = [] \<Longrightarrow> \<exists>nl. get_next_argument sig = (\<lparr>atype = NUL, nullable = nl\<rparr>, [])"
proof -
  have "details_from a sig = [] \<Longrightarrow> \<exists>nl. get_next_argument_loop b sig = (\<lparr>atype = NUL, nullable = nl\<rparr>, [])" for a b
    by (induction b sig arbitrary: a rule: get_next_argument_loop.induct) (auto split: if_splits)
  then show "details sig = [] \<Longrightarrow> ?thesis" by (simp add: details_def get_next_argument_def)
qed

lemma clear_fds_only_fds:
  assumes "for_args clear_fd i n sig args = Inr args'"
  shows "length args' = length args \<and>
    (\<forall>j. args' ! j \<noteq> args ! j \<longrightarrow> i \<le> j \<and> j - i < length (details sig) \<and> atype (details sig ! (j - i)) = CHR ''h'')"
  using assms
proof (induction n arbitrary: i sig args)
  case (Suc n)
  obtain d rest where g: "get_next_argument sig = (d, rest)" by fastforce
  let ?a = "if atype d = CHR ''h'' then args[i := Arg_h (-1)] else args"
  have "clear_fd i d args = Inr ?a" by (simp add: clear_fd_def)
  then have r: "for_args clear_fd (Suc i) n rest ?a = Inr args'" using Suc.prems g by simp
  note IH = Suc.IH [OF r]
  show ?case
  proof (cases "details sig")
    case Nil
    from details_Nil [OF this] g have d: "atype d \<noteq> CHR ''h''" "details rest = []" by (auto simp: details_def NUL_def)
    then have a: "?a = args" by simp
    have "args' ! j = args ! j" for j using IH unfolding a d(2) by auto
    then show ?thesis using conjunct1 [OF IH] unfolding a by simp
  next
    case (Cons e es)
    from details_Cons [OF this] g have d: "e = d" "details rest = es" by auto
    have "i \<le> j \<and> j - i < length (details sig) \<and> atype (details sig ! (j - i)) = CHR ''h''" if j: "args' ! j \<noteq> args ! j" for j
    proof (cases "args' ! j = ?a ! j")
      case True
      with j have ne: "?a ! j \<noteq> args ! j" by simp
      then have h: "atype d = CHR ''h''" by (cases "atype d = CHR ''h''") auto
      with ne have "j = i" by (cases "i = j") auto
      with h have "j = i \<and> atype d = CHR ''h''" by simp
      then show ?thesis using Cons d by simp
    next
      case False
      with IH d have k: "Suc i \<le> j" "j - Suc i < length es" "atype (es ! (j - Suc i)) = CHR ''h''" by auto
      then have "j - i = Suc (j - Suc i)" by simp
      then show ?thesis using Cons d k by simp
    qed
    moreover have "length args' = length args" using conjunct1 [OF IH] by (cases "atype d = CHR ''h''") simp_all
    ultimately show ?thesis by blast
  qed
qed simp

lemma object_slots_mem:
  "i \<in> set (object_slots cl) \<longleftrightarrow> i < length (details (signature (cmessage cl))) \<and>
     (atype (details (signature (cmessage cl)) ! i) = CHR ''n'' \<or> atype (details (signature (cmessage cl)) ! i) = CHR ''o'')"
  by (auto simp: object_slots_def in_set_enumerate_eq image_iff)

lemma clear_fds_slots:
  "object_slots (wl_closure_clear_fds cl) = object_slots cl"
  "i \<in> set (object_slots cl) \<Longrightarrow> slot_proxy (wl_closure_clear_fds cl) i = slot_proxy cl i"
proof -
  let ?f = "for_args clear_fd 0 (ccount cl) (signature (cmessage cl)) (cargs cl)"
  have "object_slots (wl_closure_clear_fds cl) = object_slots cl \<and>
    (i \<in> set (object_slots cl) \<longrightarrow> slot_proxy (wl_closure_clear_fds cl) i = slot_proxy cl i)"
  proof (cases ?f)
    case (Inl e)
    then show ?thesis by (simp add: wl_closure_clear_fds_def)
  next
    case (Inr args)
    note c = clear_fds_only_fds [OF Inr]
    have "args ! i = cargs cl ! i" if "i \<in> set (object_slots cl)"
    proof (rule ccontr)
      assume "args ! i \<noteq> cargs cl ! i"
      with c have "atype (details (signature (cmessage cl)) ! i) = CHR ''h''" by auto
      with that show False by (simp add: object_slots_mem)
    qed
    then show ?thesis using Inr c by (simp add: wl_closure_clear_fds_def slot_proxy_def)
  qed
  then show "object_slots (wl_closure_clear_fds cl) = object_slots cl"
    "i \<in> set (object_slots cl) \<Longrightarrow> slot_proxy (wl_closure_clear_fds cl) i = slot_proxy cl i" by simp_all
qed

lemma clear_fds_refs [simp]:
  "event_refs (ev\<lparr>qclosure := wl_closure_clear_fds (qclosure ev)\<rparr>) = event_refs ev"
  "event_good (ev\<lparr>qclosure := wl_closure_clear_fds (qclosure ev)\<rparr>) \<longleftrightarrow> event_good ev"
  using clear_fds_slots slot_refs_cong [of "object_slots (qclosure ev)" "wl_closure_clear_fds (qclosure ev)" "qclosure ev"]
  by (auto simp: event_refs_def closure_refs_def event_good_def)

lemma finish_refs:
  assumes "refs_inv (event_refs ev + M) s" "event_good ev"
  obtains t where "destroy_queued_closure ev s = Some t" "refs_inv M t"
proof -
  have "refs_ok (event_refs ev + (held s + M)) s" using assms(1) by (simp add: refs_inv_def add.left_commute)
  from destroy_queued_ok [OF this assms(2)] obtain t where
    t: "destroy_queued_closure ev s = Some t" "refs_ok (held s + M) t" "queues t = queues s" by blast
  with refs_inv_proxies [OF assms(1) t(2,3)] that show thesis by blast
qed

lemma run_listener_refs:
  assumes "refs_inv M s" "run_listener E p l call s = Some t"
    and "l = Display_listener \<or> l = Sync_listener \<and> owned s p"
  shows "refs_inv M t"
proof -
  have h: "refs_inv M t" if "display_handle_error obj code s = Some t" for obj code
  proof -
    have "same_refs s t"
      using that by (auto simp: display_handle_error_def display_protocol_error_def same_refs_def bind_eq_Some Let_def split: if_split_asm)
    with assms(1) refs_inv_same show ?thesis by blast
  qed
  have d: "refs_inv M t" if run: "display_handle_delete_id i s = Some t" for i
  proof -
    from run have "same_refs s t \<or> (\<exists>q P. proxies s q = Some P \<and>
        t = set_proxy q (Some (P\<lparr>pflags := pflags P OR WL_PROXY_FLAG_ID_DELETED\<rparr>)) s)"
      by (auto simp: display_handle_delete_id_def bind_eq_Some split: if_split_asm)
    with assms(1) refs_inv_same refs_inv_change show ?thesis by fastforce
  qed
  have y: "refs_inv M t" if run: "wl_proxy_destroy E p (s\<lparr>synced := x\<rparr>) = Some t" and o: "owned s p" for x
  proof -
    have "refs_inv M (s\<lparr>synced := x\<rparr>)" using assms(1) refs_inv_same [of s "s\<lparr>synced := x\<rparr>" M] by simp
    moreover have "usable (s\<lparr>synced := x\<rparr>) p" using o by (simp add: owned_def usable_def)
    moreover have "proxy_destroy E p (s\<lparr>synced := x\<rparr>) = Some t"
      using run by (auto simp: wl_proxy_destroy_def bind_eq_Some split: if_split_asm)
    ultimately show ?thesis by (rule proxy_destroy_refs)
  qed
  show ?thesis
    using assms(2,3) h d y by (auto simp: run_listener_def split: list.split_asm wl_argument.split_asm if_split_asm)
qed

lemma handle_refs:
  assumes "refs_inv M s" "call_event E ev s = Some (ev', t)" "proxies s (qproxy ev) = Some P" "pdispatcher P = None"
    and "pimplementation P = Some Display_listener \<or> pimplementation P = Some Sync_listener \<and> owned s (qproxy ev)"
  shows "refs_inv M t" "event_refs ev' = event_refs ev" "event_good ev' \<longleftrightarrow> event_good ev"
proof -
  obtain l where l: "pimplementation P = Some l" "l = Display_listener \<or> l = Sync_listener \<and> owned s (qproxy ev)" using assms(5) by auto
  then obtain call cl where c: "wl_closure_invoke (qclosure ev) WL_CLOSURE_INVOKE_CLIENT (proxy_object P) (unat (copcode (qclosure ev))) = Inr (call, cl)"
    "run_listener E (qproxy ev) l call s = Some t" "ev' = ev\<lparr>qclosure := cl\<rparr>"
    using assms(2-4) by (auto simp: call_event_def Let_def bind_eq_Some split: sum.split_asm)
  have "cl = wl_closure_clear_fds (qclosure ev)"
    using c(1) by (auto simp: wl_closure_invoke_def Let_def ebind_eq_Inr split: if_split_asm)
  with c(3) show "event_refs ev' = event_refs ev" "event_good ev' \<longleftrightarrow> event_good ev" by simp_all
  show "refs_inv M t" by (rule run_listener_refs [OF assms(1) c(2) l(2)])
qed

section \<open>The system\<close>

definition system_refs :: "'a client_system \<Rightarrow> bool" where
  "system_refs S \<longleftrightarrow> refs_inv (events_refs (running S)) (cstate S) \<and> (\<forall>ev \<in> set (running S). event_good ev)"

lemma system_refs_moved:
  "running T = running S \<Longrightarrow> cstate T = s \<Longrightarrow> system_refs S \<Longrightarrow> refs_inv (events_refs (running S)) s \<Longrightarrow> system_refs T"
  by (simp add: system_refs_def)

lemma events_refs_mid: "events_refs (evs @ ev # evs') = event_refs ev + events_refs (evs @ evs')"
  by (simp add: ac_simps)

lemma client_step_refs:
  assumes "client_step E S T" "cenv_ok E" "system_refs S"
  shows "system_refs T"
proof -
  let ?M = "events_refs (running S)"
  have inv: "refs_inv ?M (cstate S)" and good: "\<forall>ev \<in> set (running S). event_good ev"
    using assms(3) by (simp_all add: system_refs_def)
  have same: "refs_inv ?M s" if "same_refs (cstate S) s" for s using inv that refs_inv_same by blast
  have move: "system_refs T" if "running T = running S" "refs_inv ?M (cstate T)" for T
    using that assms(3) by (simp add: system_refs_def)
  from assms(1) show ?thesis
  proof cases
    case (app s)
    with inv assms(2) app_step_refs show ?thesis by (intro move) (auto simp: moved_def)
  next
    case (flush r s)
    have "same_refs (cstate S) s"
      using flush(2) by (auto simp: wl_display_flush_def bind_eq_Some Let_def same_refs_def set_errno_def display_fatal_error_def
          display_wakeup_threads_def split: if_split_asm)
    with flush same show ?thesis by (intro move) (auto simp: moved_def)
  next
    case (prepare i q r s)
    have "same_refs (cstate S) s"
      using prepare(3) by (auto simp: wl_display_prepare_read_queue_def bind_eq_Some split: if_split_asm)
    with prepare same show ?thesis by (intro move) (auto simp: moved_def)
  next
    case (cancel i s)
    have "same_refs (cstate S) s" using cancel(3) by (simp add: wl_display_cancel_read_def cancel_read_def Let_def)
    with cancel same show ?thesis by (intro move) (auto simp: moved_def)
  next
    case (read i res s m)
    with inv assms(2) start_read_refs show ?thesis by (intro move) (auto simp: moved_def)
  next
    case (resume i n k r s)
    have "same_refs (cstate S) s" using resume(3) by (auto simp: read_resume_def split: if_split_asm)
    with resume same show ?thesis by (intro move) (auto simp: moved_def)
  next
    case (take q ev s)
    from take(2) obtain ev0 evs where "queues (cstate S) q = Some (ev0 # evs)" by (rule take_event_cases)
    from take_event_total [OF inv this] take(2) have "refs_inv (event_refs ev + ?M) s" "event_good ev"
      by (metis option.inject prod.inject)+
    with take(1) good show ?thesis by (simp add: system_refs_def moved_def)
  next
    case (drop q ev s t)
    from drop(2) obtain ev0 evs where "queues (cstate S) q = Some (ev0 # evs)" by (rule take_event_cases)
    from take_event_total [OF inv this] drop(2) have "refs_inv (event_refs ev + ?M) s" "event_good ev"
      by (metis option.inject prod.inject)+
    from finish_refs [OF this] drop(3) have "refs_inv ?M t" by (metis option.inject)
    with drop(1) show ?thesis by (intro move) (simp_all add: moved_def)
  next
    case (handle evs ev evs' P ev' s)
    note h = handle_refs [OF inv handle(6,3,4,5)]
    have "event_good ev" using good handle(2) by simp
    with h handle(1,2) good show ?thesis by (auto simp: system_refs_def moved_def)
  next
    case (return evs ev evs')
    with inv good show ?thesis by (auto simp: system_refs_def)
  next
    case (finish evs ev evs' s)
    have "refs_inv (event_refs ev + events_refs (evs @ evs')) (cstate S)" using inv unfolding finish(2) events_refs_mid .
    moreover have "event_good ev" using good finish(2) by simp
    ultimately obtain t where "destroy_queued_closure ev (cstate S) = Some t" "refs_inv (events_refs (evs @ evs')) t"
      by (rule finish_refs)
    with finish good show ?thesis by (auto simp: system_refs_def moved_def)
  qed
qed

lemma fresh_refs:
  assumes "wl_display_connect_to_fd E fd mem w s0 = Some (Some s, w')" "cenv_ok E"
  shows "system_refs (fresh_system s)"
proof -
  have q: "queues s = [Default_queue \<mapsto> [], Display_queue \<mapsto> []]" "ddisplay s \<noteq> 0"
    and "\<exists>P. proxies s (ddisplay s) = Some P \<and> prefcount P = 1 \<and> pflags P = 0"
    and other: "\<forall>p. p \<noteq> ddisplay s \<longrightarrow> proxies s p = None"
    using assms(1) by (cases "client_malloc E s0";
      auto simp: wl_display_connect_to_fd_def Let_def bind_eq_Some split: if_split_asm option.split_asm)+
  then obtain P where P: "proxies s (ddisplay s) = Some P" "prefcount P = 1" "pflags P = 0" by blast
  have "case proxies s p of None \<Rightarrow> count {#} p = 0 | Some P \<Rightarrow> counted (count {#} p) P" for p
    using P other by (cases "p = ddisplay s") (auto simp: counted_def)
  then have "refs_ok {#} s" using other q(2) by (simp add: refs_ok_def)
  moreover have "held s = {#}" unfolding held_def by (rule sum.neutral) (auto simp: queue_refs_def q split: if_split_asm)
  ultimately show ?thesis using q(1) by (auto simp: system_refs_def fresh_system_def refs_inv_def queued_good_def split: if_split_asm)
qed

lemma client_reach_refs: "client_reach E S \<Longrightarrow> cenv_ok E \<Longrightarrow> system_refs S"
  by (induction rule: client_reach.induct) (auto intro: fresh_refs client_step_refs)

text \<open>
  A misbehaving server: once it has deleted an id of its own range, the proxy under that id is freed when it is
  destroyed, and the table still leads to it.
\<close>

lemma deleted_server_id_dangles:
  assumes "side (dobjects s) = WL_MAP_CLIENT_SIDE" "proxies s p = Some P" "wl_map_lookup (dobjects s) (pid P) = Some p"
    and "\<not> pid P < WL_SERVER_ID_START" "has_flag WL_PROXY_FLAG_ID_DELETED P" "\<not> has_flag WL_PROXY_FLAG_WRAPPER P" "prefcount P = 1"
  shows "\<exists>t. wl_proxy_destroy E p s = Some t \<and> proxies t p = None \<and> wl_map_lookup (dobjects t) (pid P) = Some p"
proof -
  let ?P = "P\<lparr>pflags := pflags P OR WL_PROXY_FLAG_DESTROYED\<rparr>"
  have "wl_map_remove (dobjects s) (pid P) = Some (dobjects s)" using assms(1,4) by (simp add: wl_map_remove_def)
  moreover have "has_flag WL_PROXY_FLAG_DESTROYED ?P" using destroyed_flags(1) [of P] by (simp add: is_destroyed_def)
  ultimately show ?thesis
    using assms by (simp add: wl_proxy_destroy_def proxy_destroy_def wl_proxy_unref_def set_proxy_def)
qed

definition client_refs :: "'a client_system \<Rightarrow> u64 multiset" where
  "client_refs S = held (cstate S) + events_refs (running S)"

text \<open>A client to which the server has sent \<^verbatim>\<open>wl_display.delete_id(7)\<close>, before and after it has read.\<close>

definition delete_msg :: bytes where
  "delete_msg = le_bytes 4 (1 :: u32) @ le_bytes 4 (0xC0001 :: u32) @ le_bytes 4 (7 :: u32)"

definition delete_closure :: wl_closure where
  "delete_closure = \<lparr>ccount = 1, cmessage = \<lparr>msg_name = ''delete_id'', signature = ''u'', types = [None]\<rparr>, copcode = 1,
     csender_id = 1, cargs = (replicate 20 Arg_unset)[0 := Arg_u 7]\<rparr>"

lemma delete_msg_length [simp]: "length delete_msg = 12"
  by (simp add: delete_msg_def)

lemma delete_msg_words:
  "load 4 0 (take 8 delete_msg) = (1 :: u32)" "load 4 4 (take 8 delete_msg) = (0xC0001 :: u32)"
  "load 4 0 delete_msg = (1 :: u32)" "load 4 4 delete_msg = (0xC0001 :: u32)" "load 4 8 delete_msg = (7 :: u32)"
  by (simp_all add: delete_msg_def load_def)

lemma delete_slots [simp]: "object_slots delete_closure = []" "details ''u'' = [\<lparr>atype = CHR ''u'', nullable = False\<rparr>]"
  by (simp_all add: object_slots_def delete_closure_def details_def is_arg_char_def enumerate_eq_zip)

lemma delete_copy:
  assumes "buffer_ok (inb c)" "contents (inb c) = delete_msg"
  shows "wl_connection_copy c 8 = take 8 delete_msg" "wl_connection_copy c 12 = delete_msg"
proof -
  have "unat (wl_buffer_size (inb c)) = 12" using arg_cong [OF assms(2), of length] by simp
  then show "wl_connection_copy c 8 = take 8 delete_msg" "wl_connection_copy c 12 = delete_msg"
    using wl_buffer_copy_contents [OF assms(1)] assms(2) by (simp_all add: wl_connection_copy_def)
qed

lemma delete_demarshal:
  assumes "buffer_ok (inb c)" "contents (inb c) = delete_msg"
  shows "wl_connection_demarshal True A c 12 m \<lparr>msg_name = ''delete_id'', signature = ''u'', types = [None]\<rparr> w =
    Inr (Some delete_closure, wl_connection_consume c 12, m, w)"
  using delete_copy [OF assms] delete_msg_words
  by (simp add: wl_connection_demarshal_def wl_closure_init_def Let_def is_arg_char_def WL_CLOSURE_MAX_ARGS_def
      wl_closure_clear_fds_def clear_fd_def get_next_argument_def wl_message_count_arrays_def demarshal_arg_def take_word_def
      delete_closure_def)

definition display_proxy :: "wl_proxy \<Rightarrow> bool" where
  "display_proxy P \<longleftrightarrow> pinterface P = wl_display_interface \<and> prefcount P = 1 \<and> pflags P = 0"

text \<open>The event is queued for the display, which is now counted twice.\<close>

lemma delete_queued:
  assumes c: "buffer_ok (inb (dconnection s))" "contents (inb (dconnection s)) = delete_msg"
    and s: "proxies s = [16 \<mapsto> P]" "display_proxy P" "ddisplay s = 16" "queues s Display_queue = Some []" "zombies s = Map.empty"
      "queues s (Queue 32) = None" "dticks s = 1" "display_table 16 (dobjects s)"
  obtains t where "queue_event demo_cenv 12 s = Some (12, t)"
    "queues t = (queues s)(Display_queue \<mapsto> [\<lparr>qclosure = delete_closure, qproxy = 16\<rparr>])"
    "proxies t = [16 \<mapsto> P\<lparr>prefcount := 2\<rparr>]"
proof -
  let ?m = "\<lparr>msg_name = ''delete_id'', signature = ''u'', types = [None]\<rparr>"
  have h: "load 4 0 (wl_connection_copy (dconnection s) 8) = (1 :: u32)" "load 4 4 (wl_connection_copy (dconnection s) 8) = (0xC0001 :: u32)"
    using delete_copy [OF c] delete_msg_words by simp_all
  have w: "(0xC0001 :: u32) AND 0xffff = 1" "drop_bit 16 (0xC0001 :: u32) = 12" by (simp_all add: drop_bit_eq_div)
  have look: "wl_map_lookup (dobjects s) 1 = Some 16" "wl_object_is_zombie (dobjects s) 1 = Some False"
    using s(8) by (simp_all add: display_table_def wl_object_is_zombie_def WL_SERVER_ID_START_def WL_MAP_SERVER_SIDE_def WL_MAP_CLIENT_SIDE_def
        WL_MAP_ENTRY_ZOMBIE_def)
  have "cmalloc demo_cenv s = 32" using s by (simp add: demo_cenv_def used_address_def)
  then have mem: "client_malloc demo_cenv s = (32, s\<lparr>dticks := 2\<rparr>)" using s(7) by (simp add: client_malloc_def)
  have msg: "nth_message (events (pinterface P)) 1 = Some ?m"
    using s(2) by (simp add: display_proxy_def wl_display_interface_def nth_message_def)
  let ?u = "s\<lparr>dticks := 2, dconnection := wl_connection_consume (dconnection s) 12, dobjects := dobjects s, dsocket := dsocket s\<rparr>"
  let ?ev = "\<lparr>qclosure = delete_closure, qproxy = 16\<rparr>"
  let ?t = "set_queue Display_queue (Some [?ev]) (set_proxy 16 (Some (P\<lparr>prefcount := 2\<rparr>)) ?u)"
  have cp: "create_proxies demo_cenv 16 delete_closure ?u = Some (delete_closure, 0, ?u)"
    by (simp add: create_proxies_def delete_closure_def)
  have lo: "wl_closure_lookup_objects objs delete_closure om = Inr (delete_closure, 0)" for objs om
    by (simp add: wl_closure_lookup_objects_def Let_def delete_closure_def is_arg_char_def lookup_object_arg_def get_next_argument_def)
  have ap: "append_event 16 delete_closure ?u = Some ?t"
    using s(1-4) by (simp add: append_event_def increase_closure_args_refcount_def proxy_ref_def set_proxy_def Let_def display_proxy_def)
  have "resolve_event demo_cenv 16 12 delete_closure ?u = Some (12, ?t)"
    using cp lo ap by (simp add: resolve_event_def)
  then have "receive_event demo_cenv 16 1 12 s = Some (12, ?t)"
    using s(1) msg mem delete_demarshal [OF c] by (simp add: receive_event_def)
  then have "queue_event demo_cenv 12 s = Some (12, ?t)"
    using h w look by (simp add: queue_event_def Let_def)
  moreover have "queues ?t = (queues s)(Display_queue \<mapsto> [?ev])" by (simp add: set_queue_def set_proxy_def)
  moreover have "proxies ?t = [16 \<mapsto> P\<lparr>prefcount := 2\<rparr>]" using s(1) by (simp add: set_queue_def set_proxy_def)
  ultimately show thesis by (rule that)
qed

lemma delete_read:
  assumes "recvs w = [Deliver delete_msg []]"
  obtains c w' where "wl_connection_read fresh_connection w = Some (c, w', 12)" "buffer_ok (inb c)" "contents (inb c) = delete_msg"
proof -
  have ne: "delete_msg \<noteq> []" using delete_msg_length by force
  have rr: "recvmsg_retry (recvs w) = Some (Deliver delete_msg [], [])" using assms by simp
  obtain c w' r where c: "wl_connection_read fresh_connection w = Some (c, w', r)" "conn_ok c"
    "r = -1 \<Longrightarrow> contents (inb c) = []"
    "r \<noteq> -1 \<Longrightarrow> r = int (length (contents (inb c))) \<and> contents (inb c) = take BUFFER_SIZE delete_msg"
  proof (rule wl_connection_read_deliver [of fresh_connection w delete_msg "[]" "[]"])
    show "conn_ok fresh_connection" by simp
    show "unat (wl_buffer_size (inb fresh_connection)) < BUFFER_SIZE" by (simp add: BUFFER_SIZE_def)
    show "recvmsg_retry (recvs w) = Some (Deliver delete_msg [], [])" by (rule rr)
    show "delete_msg \<noteq> []" by (rule ne)
  qed (auto intro: that)
  have "r \<noteq> -1"
  proof
    assume r: "r = -1"
    have "unat (wl_buffer_size (inb c)) = 0" using arg_cong [OF c(3) [OF r], of length] by simp
    then have "wl_connection_pending_input c = 0" by (simp add: wl_connection_pending_input_def unat_eq_0)
    moreover have "r = 0 \<or> r = sint (wl_connection_pending_input c)"
      using c(1) rr assms ne by (auto simp: wl_connection_read_def Let_def decode_cmsg_def BUFFER_SIZE_def split: if_split_asm)
    ultimately show False using r by simp
  qed
  then show thesis using that [of c w'] c(1,2) c(4) by (simp add: conn_ok_def BUFFER_SIZE_def del: length_contents)
qed

lemma demo_received:
  obtains S P where "client_reach demo_cenv S" "running S = []" "proxies (cstate S) = [16 \<mapsto> P\<lparr>prefcount := 2\<rparr>]" "display_proxy P"
    "queues (cstate S) = [Default_queue \<mapsto> [], Display_queue \<mapsto> [\<lparr>qclosure = delete_closure, qproxy = 16\<rparr>]]"
proof -
  let ?w = "(dsocket demo_display_start)\<lparr>recvs := [Deliver delete_msg []]\<rparr>"
  obtain s m where c: "wl_display_connect_to_fd demo_cenv 3 True ?w demo_display_start = Some (Some s, ?w)"
    "connected_display 16 3 m ?w demo_display_start s" "display_table 16 m" "dconnection s = the (wl_connection_create True 3)"
    by (rule demo_display_connected)
  have s: "queues s = [Default_queue \<mapsto> [], Display_queue \<mapsto> []]" "reader_count s = 0" "last_error s = 0" "dsocket s = ?w"
    "dobjects s = m" "ddisplay s = 16" "zombies s = Map.empty" "dticks s = 1"
    using c(2) by (simp_all add: connected_display_def demo_display_start_def)
  obtain P where P: "proxies s = [16 \<mapsto> P]" "display_proxy P" using c(2) by (simp add: connected_display_def display_proxy_def)
  have conn: "dconnection s = fresh_connection" using c(4) by (simp add: fresh_connection_def)
  obtain cn w' where r: "wl_connection_read fresh_connection ?w = Some (cn, w', 12)" "buffer_ok (inb cn)" "contents (inb cn) = delete_msg"
    by (rule delete_read [of ?w]) simp
  let ?s0 = "s\<lparr>reader_count := 0, dconnection := cn, dsocket := w'\<rparr>"
  obtain t where t: "queue_event demo_cenv 12 ?s0 = Some (12, t)"
    "queues t = (queues ?s0)(Display_queue \<mapsto> [\<lparr>qclosure = delete_closure, qproxy = 16\<rparr>])"
    "proxies t = [16 \<mapsto> P\<lparr>prefcount := 2\<rparr>]"
    by (rule delete_queued [of ?s0 P]) (use r P s c(3) in \<open>simp_all\<close>)
  have q: "queue_events demo_cenv 12 ?s0 = Some (0, t)"
    using t(1) by (simp add: queue_events.simps [of _ 12] queue_events.simps [of _ 0])
  let ?S0 = "fresh_system s" let ?s1 = "s\<lparr>reader_count := 1\<rparr>"
  let ?S1 = "(moved ?S0 ?s1)\<lparr>modes := (modes ?S0)(0 := Prepared)\<rparr>"
  have f: "cstate ?S0 = s" "modes ?S0 = (\<lambda>_. Idle)" "running ?S0 = []" by (simp_all add: fresh_system_def)
  have r0: "client_reach demo_cenv ?S0" using c(1) by (rule connected)
  have "wl_display_prepare_read_queue Default_queue s = Some (0, ?s1)" using s by (simp add: wl_display_prepare_read_queue_def)
  then have r1: "client_reach demo_cenv ?S1" using prepare [of ?S0 0 Default_queue 0 ?s1 demo_cenv] step [OF r0] f by simp
  have "start_read demo_cenv ?s1 = Some (Returned 0, display_wakeup_threads t)"
    using s(3,4) conn r(1) q by (simp add: start_read_def read_events_def read_socket_def Let_def)
  then have r2: "client_reach demo_cenv ((moved ?S1 (display_wakeup_threads t))\<lparr>modes := (modes ?S1)(0 := Idle)\<rparr>)" (is "client_reach _ ?S2")
    using read [of ?S1 0 demo_cenv "Returned 0" "display_wakeup_threads t"] step [OF r1] by (simp add: moved_def)
  show thesis
    by (rule that [OF r2]) (use f t(2,3) P(2) s(1) in \<open>simp_all add: moved_def display_wakeup_threads_def fun_upd_twist\<close>)
qed

text \<open>
  C12: dispatching never touches a freed proxy. In any reachable state of any threads, the first event of any queue
  can be taken; if its proxy has been destroyed it is released and no listener runs, otherwise the listener is called for a
  proxy in use, with arguments that are null or proxies in use. An event whose listener has run can be released,
  whatever the listener and other threads have destroyed in the meantime.
\<close>

theorem no_use_after_free:
  assumes "cenv_ok E" "client_reach E S"
  shows "(\<forall>q ev evs. queues (cstate S) q = Some (ev # evs) \<longrightarrow>
      (\<exists>ev' d s. take_event q (cstate S) = Some (ev', d, s) \<and> qproxy ev' = qproxy ev \<and>
         (if d then \<not> usable (cstate S) (qproxy ev) \<and> destroy_queued_closure ev' s \<noteq> None
          else usable s (qproxy ev) \<and>
            (\<forall>i \<in> set (object_slots (qclosure ev')). \<exists>p. slot_proxy (qclosure ev') i = Some p \<and> (p = 0 \<or> usable s p))))) \<and>
    (\<forall>ev \<in> set (running S). destroy_queued_closure ev (cstate S) \<noteq> None)"
proof (intro conjI allI ballI impI)
  have inv: "refs_inv (events_refs (running S)) (cstate S)" and good: "\<forall>ev \<in> set (running S). event_good ev"
    using client_reach_refs [OF assms(2,1)] by (simp_all add: system_refs_def)
  show "\<exists>ev' d s. take_event q (cstate S) = Some (ev', d, s) \<and> qproxy ev' = qproxy ev \<and>
      (if d then \<not> usable (cstate S) (qproxy ev) \<and> destroy_queued_closure ev' s \<noteq> None
       else usable s (qproxy ev) \<and>
         (\<forall>i \<in> set (object_slots (qclosure ev')). \<exists>p. slot_proxy (qclosure ev') i = Some p \<and> (p = 0 \<or> usable s p)))"
    if q: "queues (cstate S) q = Some (ev # evs)" for q ev evs
  proof -
    obtain ev' d t where t: "take_event q (cstate S) = Some (ev', d, t)" "refs_inv (event_refs ev' + events_refs (running S)) t"
      "event_good ev'" "qproxy ev' = qproxy ev" "d \<longleftrightarrow> \<not> usable t (qproxy ev)"
      "\<forall>i \<in> set (object_slots (qclosure ev')). \<exists>p. slot_proxy (qclosure ev') i = Some p \<and> (p = 0 \<or> usable t p)"
      using take_event_total [OF inv q] by metis
    have "usable t x = usable (cstate S) x" for x
      using t(1) by (rule take_event_cases) (simp add: usable_def set_queue_def)
    moreover from finish_refs [OF t(2,3)] have "destroy_queued_closure ev' t \<noteq> None" by (metis option.distinct(1))
    ultimately show ?thesis using t by (intro exI [of _ ev'] exI [of _ d] exI [of _ t]) simp
  qed
  show "destroy_queued_closure ev (cstate S) \<noteq> None" if ev: "ev \<in> set (running S)" for ev
  proof -
    obtain evs evs' where "running S = evs @ ev # evs'" using split_list [OF ev] by blast
    then have "refs_inv (event_refs ev + events_refs (evs @ evs')) (cstate S)" using inv events_refs_mid by metis
    from finish_refs [OF this] good ev show ?thesis by (metis option.distinct(1))
  qed
qed

theorem no_use_after_free_witness:
  "\<exists>S ev d s. client_reach demo_cenv S \<and> queues (cstate S) Display_queue = Some [\<lparr>qclosure = delete_closure, qproxy = 16\<rparr>] \<and>
     take_event Display_queue (cstate S) = Some (ev, d, s) \<and> qproxy ev = 16"
proof -
  obtain S where S: "client_reach demo_cenv S"
    "queues (cstate S) = [Default_queue \<mapsto> [], Display_queue \<mapsto> [\<lparr>qclosure = delete_closure, qproxy = 16\<rparr>]]"
    by (rule demo_received)
  then have q: "queues (cstate S) Display_queue = Some [\<lparr>qclosure = delete_closure, qproxy = 16\<rparr>]" by simp
  from no_use_after_free [OF demo_cenv_ok S(1)] q
  have "\<exists>ev d s. take_event Display_queue (cstate S) = Some (ev, d, s) \<and> qproxy ev = 16" by fastforce
  with S(1) q show ?thesis by blast
qed

text \<open>
  C13: reference counts are what they count. In any reachable state a proxy in use has one reference for the
  application and one for every mention of it in an event that is queued or being dispatched; whatever such
  an event mentions has not been freed; and a destroyed proxy is kept for at least as many references as there are mentions.
\<close>

theorem references_counted:
  assumes "cenv_ok E" "client_reach E S"
  shows "case proxies (cstate S) p of
      None \<Rightarrow> p \<notin># client_refs S
    | Some P \<Rightarrow> prefcount P > 0 \<and>
        (if has_flag WL_PROXY_FLAG_DESTROYED P then int (count (client_refs S) p) \<le> prefcount P
         else prefcount P = 1 + int (count (client_refs S) p))"
proof -
  have r: "refs_ok (client_refs S) (cstate S)"
    using client_reach_refs [OF assms(2,1)] by (simp add: system_refs_def refs_inv_def client_refs_def)
  show ?thesis
  proof (cases "proxies (cstate S) p")
    case None
    with refs_ok_None [OF r] show ?thesis by (simp add: not_in_iff)
  next
    case (Some P)
    with refs_okD [OF r] show ?thesis by (simp add: counted_def is_destroyed_def)
  qed
qed

theorem references_counted_witness:
  "\<exists>S P. client_reach demo_cenv S \<and> proxies (cstate S) 16 = Some P \<and> prefcount P = 2 \<and> count (client_refs S) 16 = 1"
proof -
  obtain S P where S: "client_reach demo_cenv S" "proxies (cstate S) = [16 \<mapsto> P\<lparr>prefcount := 2\<rparr>]" "display_proxy P"
    by (rule demo_received)
  have "\<not> has_flag WL_PROXY_FLAG_DESTROYED (P\<lparr>prefcount := 2\<rparr>)" using S(3) by (simp add: display_proxy_def has_flag_def)
  with references_counted [OF demo_cenv_ok S(1), of 16] S(2) have "count (client_refs S) 16 = 1" by simp
  with S show ?thesis by (intro exI [of _ S] exI [of _ "P\<lparr>prefcount := 2\<rparr>"]) simp
qed

end
