(* ===== verification/Ring_Buffer.thy ===== *)
theory Ring_Buffer
  imports Circular
begin

text \<open>
  The shared ring buffer of \<^verbatim>\<open>were/were1_ring_buffer.c\<close>, through which the ALSA plugin hands audio
  to the player. Its positions are free-running 64-bit counters; a transfer is a contiguous
  piece of the storage that the client fills or reads between a start and a finish call.
\<close>

section \<open>State and operations\<close>

record were1_ring_buffer =
  rsize :: int
  write_position :: u64
  read_position :: u64
  rdata :: bytes

definition were1_ring_buffer_initialize :: "were1_ring_buffer \<Rightarrow> int \<Rightarrow> were1_ring_buffer" where
  "were1_ring_buffer_initialize b sz = b\<lparr>rsize := sz, write_position := 0, read_position := 0\<rparr>"

definition were1_ring_buffer_finish :: "were1_ring_buffer \<Rightarrow> were1_ring_buffer" where
  "were1_ring_buffer_finish b = b"

text \<open>The offset of the piece in the data and its length.\<close>

definition were1_ring_buffer_write_start :: "were1_ring_buffer \<Rightarrow> int \<Rightarrow> nat \<times> int" where
  "were1_ring_buffer_write_start b sz =
     (let wp = unat (write_position b mod of_int (rsize b));
          mx = rsize b - int wp;
          sz = (if sz > mx then mx else sz)
      in (wp, sz))"

definition were1_ring_buffer_write_finish :: "were1_ring_buffer \<Rightarrow> int \<Rightarrow> were1_ring_buffer" where
  "were1_ring_buffer_write_finish b sz = b\<lparr>write_position := write_position b + of_int sz\<rparr>"

definition were1_ring_buffer_read_start :: "were1_ring_buffer \<Rightarrow> int \<Rightarrow> nat \<times> int" where
  "were1_ring_buffer_read_start b sz =
     (let rp = unat (read_position b mod of_int (rsize b));
          mx = rsize b - int rp;
          sz = (if sz > mx then mx else sz)
      in (rp, sz))"

definition were1_ring_buffer_read_finish :: "were1_ring_buffer \<Rightarrow> int \<Rightarrow> were1_ring_buffer" where
  "were1_ring_buffer_read_finish b sz = b\<lparr>read_position := read_position b + of_int sz\<rparr>"

definition were1_ring_buffer_bytes_available :: "were1_ring_buffer \<Rightarrow> int" where
  "were1_ring_buffer_bytes_available b =
     sint (ucast (write_position b - read_position b) :: u32)"

definition were1_ring_buffer_reset :: "were1_ring_buffer \<Rightarrow> were1_ring_buffer" where
  "were1_ring_buffer_reset b = b\<lparr>write_position := 0, read_position := 0\<rparr>"

text \<open>What the client does with a piece between start and finish.\<close>

definition ring_fill :: "were1_ring_buffer \<Rightarrow> nat \<Rightarrow> bytes \<Rightarrow> were1_ring_buffer" where
  "ring_fill b off data = b\<lparr>rdata := splice_at off data (rdata b)\<rparr>"

definition ring_piece :: "were1_ring_buffer \<Rightarrow> nat \<Rightarrow> nat \<Rightarrow> bytes" where
  "ring_piece b off n = take n (drop off (rdata b))"

section \<open>Abstraction\<close>

text \<open>
  The capacity divides \<open>2 ^ 64\<close> (it is 65536 in the program), so that wrapping positions still
  address the right cells, and the distance of the positions is at most the capacity.
\<close>

definition ring_used :: "were1_ring_buffer \<Rightarrow> nat" where
  "ring_used b = unat (write_position b - read_position b)"

definition ring_ok :: "were1_ring_buffer \<Rightarrow> bool" where
  "ring_ok b \<longleftrightarrow> 0 < rsize b \<and> rsize b < 2 ^ 31 \<and> length (rdata b) = nat (rsize b) \<and>
     nat (rsize b) dvd 2 ^ 64 \<and> ring_used b \<le> nat (rsize b)"

definition ring_bytes :: "were1_ring_buffer \<Rightarrow> bytes" where
  "ring_bytes b = window (rdata b) (unat (read_position b)) (ring_used b)"

lemma length_ring_bytes [simp, ring_simps]: "length (ring_bytes b) = ring_used b"
  by (simp add: ring_bytes_def)

lemma unat_mod_size:
  assumes "0 < s" "s < 2 ^ 31"
  shows "unat (p mod of_int s :: u64) = unat p mod nat s"
proof -
  have "of_int s = (of_nat (nat s) :: u64)" using assms(1) by simp
  moreover have "unat (of_nat (nat s) :: u64) = nat s"
    using assms by (simp only: unat_of_nat) (simp add: nat_less_iff)
  ultimately show ?thesis by (simp add: unat_mod)
qed

lemma unat_add_mod_size:
  assumes "N dvd 2 ^ 64"
  shows "unat (p + of_nat n :: u64) mod N = (unat p + n) mod N"
proof -
  have "unat (p + of_nat n) = (unat p + n) mod 2 ^ 64"
    by (simp add: unat_word_ariths unat_of_nat mod_add_right_eq)
  then show ?thesis using assms by (simp only: mod_mod_cancel)
qed

lemma ring_write_position:
  assumes "nat (rsize b) dvd 2 ^ 64"
  shows "unat (write_position b) mod nat (rsize b) =
    (unat (read_position b) + ring_used b) mod nat (rsize b)"
proof -
  have "write_position b = read_position b + of_nat (ring_used b)" by (simp add: ring_used_def)
  with unat_add_mod_size [OF assms] show ?thesis by metis
qed

section \<open>Transfers\<close>

lemma ring_write_start:
  assumes "ring_ok b" "0 \<le> sz" "were1_ring_buffer_write_start b sz = (off, n)"
  shows "off = unat (write_position b) mod nat (rsize b)" "0 \<le> n" "n \<le> sz"
    "off + nat n \<le> nat (rsize b)" "0 < sz \<Longrightarrow> 0 < n"
    "n = min sz (rsize b - int off)"
proof -
  have s: "0 < rsize b" "rsize b < 2 ^ 31" using assms(1) by (auto simp: ring_ok_def)
  show off: "off = unat (write_position b) mod nat (rsize b)"
    using assms(3) unat_mod_size [OF s] by (simp add: were1_ring_buffer_write_start_def Let_def)
  then have lt: "int off < rsize b" using s(1) by (simp add: zless_nat_eq_int_zless [symmetric])
  have n: "n = min sz (rsize b - int off)"
    using assms(3) by (auto simp: were1_ring_buffer_write_start_def Let_def min_def)
  then show "n = min sz (rsize b - int off)" .
  from n lt assms(2) show "0 \<le> n" "n \<le> sz" "off + nat n \<le> nat (rsize b)" "0 < sz \<Longrightarrow> 0 < n"
    by auto
qed

lemma ring_read_start:
  assumes "ring_ok b" "0 \<le> sz" "were1_ring_buffer_read_start b sz = (off, n)"
  shows "off = unat (read_position b) mod nat (rsize b)" "0 \<le> n" "n \<le> sz"
    "off + nat n \<le> nat (rsize b)" "0 < sz \<Longrightarrow> 0 < n"
proof -
  have s: "0 < rsize b" "rsize b < 2 ^ 31" using assms(1) by (auto simp: ring_ok_def)
  show off: "off = unat (read_position b) mod nat (rsize b)"
    using assms(3) unat_mod_size [OF s] by (simp add: were1_ring_buffer_read_start_def Let_def)
  then have lt: "int off < rsize b" using s(1) by (simp add: zless_nat_eq_int_zless [symmetric])
  have n: "n = min sz (rsize b - int off)"
    using assms(3) by (auto simp: were1_ring_buffer_read_start_def Let_def min_def)
  with lt assms(2) show "0 \<le> n" "n \<le> sz" "off + nat n \<le> nat (rsize b)" "0 < sz \<Longrightarrow> 0 < n"
    by auto
qed

text \<open>A piece written into free space is appended to the contents.\<close>

lemma ring_write:
  assumes ok: "ring_ok b" and sz: "0 \<le> sz" and st: "were1_ring_buffer_write_start b sz = (off, n)"
    and data: "length data = nat n" and room: "ring_used b + nat n \<le> nat (rsize b)"
  defines "b' \<equiv> were1_ring_buffer_write_finish (ring_fill b off data) n"
  shows "ring_ok b'" "ring_bytes b' = ring_bytes b @ data" "ring_used b' = ring_used b + nat n"
    "read_position b' = read_position b" "rsize b' = rsize b" "length (rdata b') = length (rdata b)"
proof -
  note w = ring_write_start [OF ok sz st]
  have s: "0 < rsize b" "rsize b < 2 ^ 31" "length (rdata b) = nat (rsize b)" "nat (rsize b) dvd 2 ^ 64"
    using ok by (auto simp: ring_ok_def)
  let ?N = "nat (rsize b)" let ?r = "unat (read_position b)"
  have in': "of_int n = (of_nat (nat n) :: u64)" using w(2) by simp
  have "write_position b' - read_position b' = (write_position b - read_position b) + of_nat (nat n)"
    by (simp add: b'_def were1_ring_buffer_write_finish_def ring_fill_def in')
  moreover have "unat (write_position b - read_position b) + nat n < 2 ^ 64"
    using room s(2) by (simp add: ring_used_def)
  ultimately show used: "ring_used b' = ring_used b + nat n"
    by (simp add: ring_used_def unat_word_ariths unat_of_nat)
  have pos: "off = (?r + ring_used b) mod ?N" using w(1) ring_write_position [OF s(4)] by simp
  have "splice_at off data (rdata b) = circ_write (rdata b) (?r + ring_used b) data"
    using pos w(4) data s(3) by (simp add: circ_write_def)
  then have rd: "rdata b' = circ_write (rdata b) (?r + ring_used b) data"
    by (simp add: b'_def were1_ring_buffer_write_finish_def ring_fill_def)
  show "read_position b' = read_position b" "rsize b' = rsize b" "length (rdata b') = length (rdata b)"
    using w(4) data s(3) by (simp_all add: b'_def were1_ring_buffer_write_finish_def ring_fill_def)
  then show "ring_ok b'" using ok used room by (simp add: ring_ok_def)
  show "ring_bytes b' = ring_bytes b @ data"
    unfolding ring_bytes_def used rd \<open>read_position b' = read_position b\<close> data [symmetric]
    using room data s(3) by (intro window_circ_write_append) simp
qed

text \<open>The piece of a read is the front of the contents, and finishing it removes it.\<close>

lemma ring_read:
  assumes ok: "ring_ok b" and sz: "0 \<le> sz" "nat sz \<le> ring_used b"
    and st: "were1_ring_buffer_read_start b sz = (off, n)"
  shows "ring_piece b off (nat n) = take (nat n) (ring_bytes b)" "nat n \<le> ring_used b"
proof -
  note r = ring_read_start [OF ok sz(1) st]
  have s: "length (rdata b) = nat (rsize b)" using ok by (auto simp: ring_ok_def)
  show n: "nat n \<le> ring_used b" using r(2,3) sz by linarith
  have "window (rdata b) (unat (read_position b)) (nat n) = take (nat n) (drop off (rdata b))"
    using window_straight [of "unat (read_position b)" "rdata b" "nat n"] r(1,4) s by simp
  with n show "ring_piece b off (nat n) = take (nat n) (ring_bytes b)"
    by (simp add: ring_piece_def ring_bytes_def take_window)
qed

lemma ring_read_finish:
  assumes ok: "ring_ok b" and n: "0 \<le> n" "nat n \<le> ring_used b"
  defines "b' \<equiv> were1_ring_buffer_read_finish b n"
  shows "ring_ok b'" "ring_bytes b' = drop (nat n) (ring_bytes b)" "ring_used b' = ring_used b - nat n"
    "write_position b' = write_position b" "rsize b' = rsize b" "rdata b' = rdata b"
proof -
  have s: "nat (rsize b) dvd 2 ^ 64" "length (rdata b) = nat (rsize b)" using ok by (auto simp: ring_ok_def)
  have in': "of_int n = (of_nat (nat n) :: u64)" using n(1) by simp
  have n64: "nat n < 2 ^ 64" using le_less_trans [OF n(2) [unfolded ring_used_def] unat_u64_less] by simp
  have "write_position b' - read_position b' = (write_position b - read_position b) - of_nat (nat n)"
    by (simp add: b'_def were1_ring_buffer_read_finish_def in')
  moreover have "(of_nat (nat n) :: u64) \<le> write_position b - read_position b"
    using n(2) n64 by (simp add: word_le_nat_alt unat_of_nat ring_used_def)
  ultimately show used: "ring_used b' = ring_used b - nat n"
    using n64 by (simp add: ring_used_def unat_minus_le unat_of_nat)
  show "write_position b' = write_position b" "rsize b' = rsize b" "rdata b' = rdata b"
    by (simp_all add: b'_def were1_ring_buffer_read_finish_def)
  with ok used show "ring_ok b'" by (auto simp: ring_ok_def)
  have "unat (read_position b') mod nat (rsize b) = (unat (read_position b) + nat n) mod nat (rsize b)"
    using unat_add_mod_size [OF s(1), of "read_position b" "nat n"]
    by (simp add: b'_def were1_ring_buffer_read_finish_def in')
  then have "window (rdata b) (unat (read_position b')) k = window (rdata b) (unat (read_position b) + nat n) k" for k
    using s(2) by (intro window_cong_mod) simp
  with used n(2) \<open>rdata b' = rdata b\<close> show "ring_bytes b' = drop (nat n) (ring_bytes b)"
    by (simp add: ring_bytes_def drop_window)
qed

lemma ring_bytes_available:
  assumes "ring_ok b"
  shows "were1_ring_buffer_bytes_available b = int (ring_used b)"
proof -
  have lt: "ring_used b < 2 ^ 31" using assms by (auto simp: ring_ok_def nat_less_iff)
  then have "unat (ucast (write_position b - read_position b) :: u32) = ring_used b"
    by (simp add: ring_used_def unsigned_ucast_eq take_bit_nat_eq_self)
  with lt show ?thesis by (simp add: were1_ring_buffer_bytes_available_def sint_u32_small)
qed

lemma ring_initialize_ok:
  assumes "length (rdata b) = 65536"
  shows "ring_ok (were1_ring_buffer_initialize b 65536)" "ring_bytes (were1_ring_buffer_initialize b 65536) = []"
proof -
  have "(65536 :: nat) dvd 2 ^ 64" by (simp add: dvd_def)
  then show "ring_ok (were1_ring_buffer_initialize b 65536)"
    using assms by (simp add: ring_ok_def were1_ring_buffer_initialize_def ring_used_def)
  show "ring_bytes (were1_ring_buffer_initialize b 65536) = []"
    by (simp add: ring_bytes_def ring_used_def were1_ring_buffer_initialize_def)
qed

lemma ring_reset_ok:
  assumes "ring_ok b"
  shows "ring_ok (were1_ring_buffer_reset b)" "ring_bytes (were1_ring_buffer_reset b) = []"
  using assms by (simp_all add: ring_ok_def were1_ring_buffer_reset_def ring_used_def ring_bytes_def)

end
