(* ===== verification/Unix_Socket.thy ===== *)
theory Unix_Socket
  imports Prelude
begin

text \<open>
  The socket and shared-memory helpers of \<^verbatim>\<open>were/were1_unix_socket.c\<close> and \<^verbatim>\<open>were/were1_tmpfile.c\<close>.
  The kernel is a script of the results its calls return, one after the other, together with the
  record of what was asked of it; running out of script is a call that has not returned.
\<close>

section \<open>The kernel\<close>

datatype syscall =
    Sys_unlink string | Sys_socket | Sys_bind int string | Sys_listen int int | Sys_close int
  | Sys_shutdown int | Sys_accept int | Sys_connect int string | Sys_send int | Sys_recv int nat
  | Sys_ioctl int | Sys_sendmsg int "int list" | Sys_recvmsg int nat | Sys_mkstemp string
  | Sys_ftruncate int int | Sys_mmap int nat | Sys_munmap nat

text \<open>
  \<open>Ret n\<close>: an integer result, \<open>-1\<close> for failure. \<open>Data bs\<close>: received bytes, none at the end of the
  stream. \<open>Msg n fds\<close>: a \<^verbatim>\<open>recvmsg\<close> of \<open>n\<close> bytes with the descriptors of its first control message,
  if it has one. \<open>Map a\<close>: a mapping at address \<open>a\<close>, or its failure.
\<close>

datatype sys_result = Ret int | Data bytes | Msg int "int list option" | Map "nat option"

record posix =
  script :: "sys_result list"
  trace :: "syscall list"
  tx :: bytes

definition sys :: "syscall \<Rightarrow> posix \<Rightarrow> (sys_result \<times> posix) option" where
  "sys c w = (case script w of
     [] \<Rightarrow> None
   | r # rs \<Rightarrow> Some (r, w\<lparr>script := rs, trace := trace w @ [c]\<rparr>))"

definition sys_int :: "syscall \<Rightarrow> posix \<Rightarrow> (int \<times> posix) option" where
  "sys_int c w = do {
     (r, w) \<leftarrow> sys c w;
     case r of Ret n \<Rightarrow> Some (n, w) | _ \<Rightarrow> None
   }"

text \<open>Calls whose result the sources ignore.\<close>

definition sys_void :: "syscall \<Rightarrow> posix \<Rightarrow> posix" where
  "sys_void c w = w\<lparr>trace := trace w @ [c]\<rparr>"

section \<open>Servers and connections\<close>

text \<open>\<^verbatim>\<open>strncpy(name.sun_path, path, sizeof(name.sun_path) - 1)\<close>: the array has 108 bytes.\<close>

definition sun_path :: "string \<Rightarrow> string" where
  "sun_path path = take 107 path"

definition were1_unix_server_create :: "string \<Rightarrow> posix \<Rightarrow> (int \<times> posix) option" where
  "were1_unix_server_create path w = do {
     let w = sys_void (Sys_unlink path) w;
     (fd, w) \<leftarrow> sys_int Sys_socket w;
     if fd = -1 then Some (-1, w)
     else do {
       (r, w) \<leftarrow> sys_int (Sys_bind fd (sun_path path)) w;
       if r = -1 then Some (-1, sys_void (Sys_close fd) w)
       else do {
         (r, w) \<leftarrow> sys_int (Sys_listen fd 4) w;
         if r = -1 then Some (-1, sys_void (Sys_close fd) w)
         else Some (fd, w)
       }
     }
   }"

definition were1_unix_server_shutdown :: "string \<Rightarrow> int \<Rightarrow> posix \<Rightarrow> posix" where
  "were1_unix_server_shutdown path fd w = sys_void (Sys_unlink path) (sys_void (Sys_shutdown fd) w)"

definition were1_unix_server_accept :: "int \<Rightarrow> posix \<Rightarrow> (int \<times> posix) option" where
  "were1_unix_server_accept fd w = sys_int (Sys_accept fd) w"

definition were1_unix_server_reject :: "int \<Rightarrow> posix \<Rightarrow> posix option" where
  "were1_unix_server_reject fd w = do {
     (client_fd, w) \<leftarrow> sys_int (Sys_accept fd) w;
     Some (sys_void (Sys_close client_fd) (sys_void (Sys_shutdown client_fd) w))
   }"

definition were1_unix_socket_connect :: "string \<Rightarrow> posix \<Rightarrow> (int \<times> posix) option" where
  "were1_unix_socket_connect path w = do {
     (fd, w) \<leftarrow> sys_int Sys_socket w;
     if fd = -1 then Some (-1, w)
     else do {
       (r, w) \<leftarrow> sys_int (Sys_connect fd (sun_path path)) w;
       if r = -1 then Some (-1, sys_void (Sys_close fd) w) else Some (fd, w)
     }
   }"

definition were1_unix_socket_shutdown :: "int \<Rightarrow> posix \<Rightarrow> posix" where
  "were1_unix_socket_shutdown fd w = sys_void (Sys_shutdown fd) w"

section \<open>Transfers\<close>

text \<open>
  The loops of \<^verbatim>\<open>send_all\<close> and \<^verbatim>\<open>receive_all\<close>, by recursion over the kernel's script. A \<^verbatim>\<open>send\<close> that
  returns \<open>n\<close> has taken the first \<open>n\<close> bytes offered; a \<^verbatim>\<open>recv\<close> delivers at most what was asked.
\<close>

fun send_loop :: "int \<Rightarrow> bytes \<Rightarrow> sys_result list \<Rightarrow> posix \<Rightarrow> (int \<times> posix) option" where
  "send_loop fd [] rs w = Some (0, w\<lparr>script := rs\<rparr>)"
| "send_loop fd data (Ret n # rs) w =
     (let w = w\<lparr>trace := trace w @ [Sys_send fd]\<rparr> in
      if n = -1 then Some (-1, w\<lparr>script := rs\<rparr>)
      else send_loop fd (drop (nat n) data) rs (w\<lparr>tx := tx w @ take (nat n) data\<rparr>))"
| "send_loop fd data rs w = None"

definition were1_unix_socket_send_all :: "int \<Rightarrow> bytes \<Rightarrow> posix \<Rightarrow> (int \<times> posix) option" where
  "were1_unix_socket_send_all fd data w = send_loop fd data (script w) w"

fun receive_loop :: "int \<Rightarrow> nat \<Rightarrow> bytes \<Rightarrow> sys_result list \<Rightarrow> posix \<Rightarrow> (int \<times> bytes \<times> posix) option" where
  "receive_loop fd len buf rs w =
     (if length buf = len then Some (0, buf, w\<lparr>script := rs\<rparr>)
      else case rs of
        Data bs # rs \<Rightarrow>
          receive_loop fd len (buf @ take (len - length buf) bs) rs
            (w\<lparr>trace := trace w @ [Sys_recv fd (len - length buf)]\<rparr>)
      | Ret n # rs \<Rightarrow>
          if n = -1
          then Some (-1, buf, w\<lparr>script := rs, trace := trace w @ [Sys_recv fd (len - length buf)]\<rparr>)
          else None
      | _ \<Rightarrow> None)"

declare receive_loop.simps [simp del]

definition were1_unix_socket_receive_all :: "int \<Rightarrow> nat \<Rightarrow> posix \<Rightarrow> (int \<times> bytes \<times> posix) option" where
  "were1_unix_socket_receive_all fd len w = receive_loop fd len [] (script w) w"

text \<open>\<^verbatim>\<open>FIONREAD\<close> writes the count through its argument; the script gives it, or \<open>-1\<close> for failure.\<close>

definition were1_unix_socket_bytes_available :: "int \<Rightarrow> posix \<Rightarrow> (int \<times> posix) option" where
  "were1_unix_socket_bytes_available fd w = sys_int (Sys_ioctl fd) w"

definition were1_unix_socket_send_fds :: "int \<Rightarrow> int list \<Rightarrow> posix \<Rightarrow> (int \<times> posix) option" where
  "were1_unix_socket_send_fds fd fds w = do {
     (r, w) \<leftarrow> sys_int (Sys_sendmsg fd fds) w;
     Some (if r \<noteq> 1 then -1 else 0, w)
   }"

text \<open>
  The received control message is used without looking at it: a message without one, or with fewer
  descriptors than expected, makes \<^verbatim>\<open>memcpy\<close> read memory that is not there.
\<close>

datatype 'a run = Done 'a | Blocked | Crashed

definition were1_unix_socket_receive_fds :: "int \<Rightarrow> nat \<Rightarrow> posix \<Rightarrow> (int \<times> int list \<times> posix) run" where
  "were1_unix_socket_receive_fds fd n w =
     (case sys (Sys_recvmsg fd n) w of
        None \<Rightarrow> Blocked
      | Some (Msg r cmsg, w) \<Rightarrow>
          if r \<noteq> 1 then Done (-1, [], w)
          else (case cmsg of
                  None \<Rightarrow> Crashed
                | Some fds \<Rightarrow> if length fds < n then Crashed else Done (0, take n fds, w))
      | Some (Ret r, w) \<Rightarrow> if r = -1 then Done (-1, [], w) else Blocked
      | Some (_, w) \<Rightarrow> Blocked)"

section \<open>Temporary files\<close>

definition tmpfile_template :: string where
  "tmpfile_template = ''/were-shared-XXXXXX''"

text \<open>
  \<open>env\<close> is the value of \<^verbatim>\<open>XDG_RUNTIME_DIR\<close>, \<open>mem\<close> whether \<^verbatim>\<open>malloc\<close> succeeds. The name \<^verbatim>\<open>mkstemp\<close>
  chooses is the template's, as far as the calls are concerned.
\<close>

definition were1_tmpfile_create :: "string option \<Rightarrow> bool \<Rightarrow> int \<Rightarrow> posix \<Rightarrow> (int \<times> posix) option" where
  "were1_tmpfile_create env mem sz w = do {
     let path = (case env of None \<Rightarrow> ''/tmp'' | Some p \<Rightarrow> p);
     if \<not> mem then Some (-1, w)
     else do {
       let name = path @ tmpfile_template;
       (fd, w) \<leftarrow> sys_int (Sys_mkstemp name) w;
       if fd = -1 then Some (-1, w)
       else do {
         let w = sys_void (Sys_unlink name) w;
         (r, w) \<leftarrow> sys_int (Sys_ftruncate fd sz) w;
         if r = -1 then Some (-1, sys_void (Sys_close fd) w) else Some (fd, w)
       }
     }
   }"

definition were1_tmpfile_map :: "nat \<Rightarrow> int \<Rightarrow> posix \<Rightarrow> (nat option \<times> int \<times> posix) option" where
  "were1_tmpfile_map len fd w = do {
     (r, w) \<leftarrow> sys (Sys_mmap fd len) w;
     case r of
       Map None \<Rightarrow> Some (None, -1, w)
     | Map (Some a) \<Rightarrow> Some (Some a, 0, w)
     | _ \<Rightarrow> None
   }"

definition were1_tmpfile_unmap :: "nat \<Rightarrow> posix \<Rightarrow> int \<times> posix" where
  "were1_tmpfile_unmap len w = (0, sys_void (Sys_munmap len) w)"

section \<open>Transfers are complete\<close>

lemma send_loop_ok:
  assumes "send_loop fd data rs w = Some (r, w')"
  shows "if r = 0 then tx w' = tx w @ data else r = -1 \<and> (\<exists>k. tx w' = tx w @ take k data)"
  using assms
proof (induction fd data rs w rule: send_loop.induct)
  case (2 fd v va n rs w)
  show ?case
  proof (cases "n = -1")
    case True
    with "2.prems" show ?thesis by (auto intro: exI [of _ 0])
  next
    case False
    let ?d = "v # va"
    have IH: "if r = 0 then tx w' = (tx w @ take (nat n) ?d) @ drop (nat n) ?d
      else r = -1 \<and> (\<exists>k. tx w' = (tx w @ take (nat n) ?d) @ take k (drop (nat n) ?d))"
      using "2.IH" [OF refl False] "2.prems" False by (auto split: if_splits)
    have "take (nat n) ?d @ take k (drop (nat n) ?d) = take (nat n + k) ?d" for k
      by (simp add: take_add)
    with IH show ?thesis by (auto simp del: take_Cons drop_Cons simp: take_drop [symmetric] split: if_splits)
  qed
qed auto

lemma receive_loop_ok:
  assumes "receive_loop fd len buf rs w = Some (r, got, w')" "length buf \<le> len"
  shows "(r = 0 \<or> r = -1) \<and> (r = 0 \<longrightarrow> length got = len) \<and>
    (\<exists>ds rest. rs = map Data ds @ rest \<and> (r = 0 \<longrightarrow> take len (buf @ concat ds) = got \<and> script w' = rest))"
  using assms
proof (induction rs arbitrary: buf w)
  case Nil
  then show ?case by (auto simp: receive_loop.simps split: if_splits)
next
  case (Cons x rs)
  show ?case
  proof (cases "length buf = len")
    case True
    with Cons.prems show ?thesis
      by (auto simp: receive_loop.simps intro!: exI [of _ "[]"])
  next
    case False
    show ?thesis
    proof (cases x)
      case (Data bs)
      let ?b = "buf @ take (len - length buf) bs"
      have run: "receive_loop fd len ?b rs (w\<lparr>trace := trace w @ [Sys_recv fd (len - length buf)]\<rparr>) = Some (r, got, w')"
        using Cons.prems(1) False Data by (simp add: receive_loop.simps [of fd len buf])
      have "length ?b \<le> len" using Cons.prems(2) by auto
      from Cons.IH [OF run this] obtain ds rest where ih: "r = 0 \<or> r = -1" "r = 0 \<longrightarrow> length got = len"
        "rs = map Data ds @ rest" "r = 0 \<longrightarrow> take len (?b @ concat ds) = got \<and> script w' = rest" by blast
      have "take len (buf @ concat (bs # ds)) = take len (?b @ concat ds)"
        if "length (concat (bs # ds)) \<ge> 0"
        by (cases "length bs \<le> len - length buf") (auto simp: take_all)
      with ih Data show ?thesis by (intro conjI exI [of _ "bs # ds"] exI [of _ rest]) auto
    next
      case (Ret n)
      with Cons.prems False show ?thesis
        by (auto simp: receive_loop.simps [of fd len buf] split: if_splits
            intro!: exI [of _ "[] :: bytes list"] exI [of _ "x # rs"])
    qed (use Cons.prems False in \<open>auto simp: receive_loop.simps [of fd len buf]\<close>)
  qed
qed

lemma send_loop_returns:
  assumes "list_all (\<lambda>n. 0 < n) ns" "length data \<le> sum_list ns"
  shows "\<exists>w'. send_loop fd data (map (\<lambda>n. Ret (int n)) ns) w = Some (0, w')"
  using assms
proof (induction ns arbitrary: data w)
  case Nil
  then show ?case by simp
next
  case (Cons n ns)
  show ?case
  proof (cases data)
    case Nil
    then show ?thesis by simp
  next
    case (Cons b bs)
    have "length (drop n data) \<le> sum_list ns" using Cons.prems(2) by simp
    with Cons.IH [of "drop n data"] Cons.prems(1) Cons show ?thesis by (simp add: Let_def)
  qed
qed

text \<open>
  What an opening function leaves behind: the descriptor it returns is open, and when it fails the
  descriptor it had obtained, if any, was closed by its last call.
\<close>

definition opened :: "posix \<Rightarrow> int \<times> posix \<Rightarrow> bool" where
  "opened w = (\<lambda>(r, w').
     case script w of
       Ret fd # _ \<Rightarrow>
         if r = -1 then fd = -1 \<or> last (trace w') = Sys_close fd
         else fd = r \<and> Sys_close r \<notin> set (drop (length (trace w)) (trace w'))
     | _ \<Rightarrow> False)"

lemma sys_int_Some:
  "sys_int c w = Some (n, w') \<longleftrightarrow>
     (\<exists>rs. script w = Ret n # rs \<and> w' = w\<lparr>script := rs, trace := trace w @ [c]\<rparr>)"
  by (auto simp: sys_int_def sys_def bind_eq_Some split: list.splits sys_result.splits)

lemma server_opened:
  assumes "were1_unix_server_create path w = Some r"
  shows "opened w r"
proof -
  let ?w = "sys_void (Sys_unlink path) w" and ?p = "sun_path path"
  obtain fd w1 where s: "sys_int Sys_socket ?w = Some (fd, w1)" and
    rest: "(if fd = -1 then Some (-1, w1)
      else do {
        (q, w2) \<leftarrow> sys_int (Sys_bind fd ?p) w1;
        if q = -1 then Some (-1, sys_void (Sys_close fd) w2)
        else do {
          (q', w3) \<leftarrow> sys_int (Sys_listen fd 4) w2;
          if q' = -1 then Some (-1, sys_void (Sys_close fd) w3) else Some (fd, w3) } }) = Some r"
    using assms unfolding were1_unix_server_create_def Let_def bind_eq_Some by fastforce
  then obtain rs where w1: "script w = Ret fd # rs" "trace w1 = trace w @ [Sys_unlink path, Sys_socket]"
    by (auto simp: sys_int_Some sys_void_def)
  show ?thesis
  proof (cases "fd = -1")
    case True
    with rest w1(1) show ?thesis by (auto simp: opened_def)
  next
    case False
    then obtain q w2 where q: "sys_int (Sys_bind fd ?p) w1 = Some (q, w2)" and
      rest2: "(if q = -1 then Some (-1, sys_void (Sys_close fd) w2)
        else do {
          (q', w3) \<leftarrow> sys_int (Sys_listen fd 4) w2;
          if q' = -1 then Some (-1, sys_void (Sys_close fd) w3) else Some (fd, w3) }) = Some r"
      using rest by (auto simp: bind_eq_Some)
    then have t2: "trace w2 = trace w @ [Sys_unlink path, Sys_socket, Sys_bind fd ?p]"
      using w1(2) by (auto simp: sys_int_Some)
    show ?thesis
    proof (cases "q = -1")
      case True
      with rest2 w1(1) False show ?thesis by (auto simp: opened_def sys_void_def)
    next
      case no: False
      then obtain q' w3 where q': "sys_int (Sys_listen fd 4) w2 = Some (q', w3)"
        "r = (if q' = -1 then (-1, sys_void (Sys_close fd) w3) else (fd, w3))"
        using rest2 by (auto simp: bind_eq_Some split: if_splits)
      then have "trace w3 = trace w @ [Sys_unlink path, Sys_socket, Sys_bind fd ?p, Sys_listen fd 4]"
        using t2 by (auto simp: sys_int_Some)
      with q'(2) w1(1) False show ?thesis by (auto simp: opened_def sys_void_def)
    qed
  qed
qed

lemma connect_opened:
  assumes "were1_unix_socket_connect path w = Some r"
  shows "opened w r"
proof -
  obtain fd w1 where s: "sys_int Sys_socket w = Some (fd, w1)" and
    rest: "(if fd = -1 then Some (-1, w1)
      else do {
        (q, w2) \<leftarrow> sys_int (Sys_connect fd (sun_path path)) w1;
        if q = -1 then Some (-1, sys_void (Sys_close fd) w2) else Some (fd, w2) }) = Some r"
    using assms unfolding were1_unix_socket_connect_def bind_eq_Some by fastforce
  then obtain rs where w1: "script w = Ret fd # rs" "trace w1 = trace w @ [Sys_socket]"
    by (auto simp: sys_int_Some)
  show ?thesis
  proof (cases "fd = -1")
    case True
    with rest w1(1) show ?thesis by (auto simp: opened_def)
  next
    case False
    then obtain q w2 where q: "sys_int (Sys_connect fd (sun_path path)) w1 = Some (q, w2)"
      "r = (if q = -1 then (-1, sys_void (Sys_close fd) w2) else (fd, w2))"
      using rest by (auto simp: bind_eq_Some split: if_splits)
    then have "trace w2 = trace w @ [Sys_socket, Sys_connect fd (sun_path path)]"
      using w1(2) by (auto simp: sys_int_Some)
    with q(2) w1(1) False show ?thesis by (auto simp: opened_def sys_void_def)
  qed
qed

lemma tmpfile_opened:
  assumes "were1_tmpfile_create env True sz w = Some r"
  shows "opened w r"
proof -
  let ?name = "(case env of None \<Rightarrow> ''/tmp'' | Some p \<Rightarrow> p) @ tmpfile_template"
  obtain fd w1 where s: "sys_int (Sys_mkstemp ?name) w = Some (fd, w1)" and
    rest: "(if fd = -1 then Some (-1, w1)
      else do {
        (q, w2) \<leftarrow> sys_int (Sys_ftruncate fd sz) (sys_void (Sys_unlink ?name) w1);
        if q = -1 then Some (-1, sys_void (Sys_close fd) w2) else Some (fd, w2) }) = Some r"
    using assms
    unfolding were1_tmpfile_create_def Let_def not_True_eq_False if_False bind_eq_Some by fastforce
  then obtain rs where w1: "script w = Ret fd # rs" "trace w1 = trace w @ [Sys_mkstemp ?name]"
    by (auto simp: sys_int_Some)
  show ?thesis
  proof (cases "fd = -1")
    case True
    with rest w1(1) show ?thesis by (auto simp: opened_def)
  next
    case False
    then obtain q w2 where q: "sys_int (Sys_ftruncate fd sz) (sys_void (Sys_unlink ?name) w1) = Some (q, w2)"
      "r = (if q = -1 then (-1, sys_void (Sys_close fd) w2) else (fd, w2))"
      using rest by (auto simp: bind_eq_Some split: if_splits)
    then have "trace w2 = trace w @ [Sys_mkstemp ?name, Sys_unlink ?name, Sys_ftruncate fd sz]"
      using w1(2) by (auto simp: sys_int_Some sys_void_def)
    with q(2) w1(1) False show ?thesis by (auto simp: opened_def sys_void_def)
  qed
qed

section \<open>Properties\<close>

text \<open>
  \<^verbatim>\<open>send_all\<close> reports success only when the kernel has taken every byte in order, and on failure a
  prefix; it succeeds as soon as the kernel keeps taking at least one byte per call.
\<close>

theorem send_all_complete:
  "(\<forall>w r w'. were1_unix_socket_send_all fd data w = Some (r, w') \<longrightarrow>
      (if r = 0 then tx w' = tx w @ data else r = -1 \<and> (\<exists>k. tx w' = tx w @ take k data))) \<and>
   (\<forall>ns w. list_all (\<lambda>n. 0 < n) ns \<longrightarrow> length data \<le> sum_list ns \<longrightarrow>
      script w = map (\<lambda>n. Ret (int n)) ns \<longrightarrow>
      (\<exists>w'. were1_unix_socket_send_all fd data w = Some (0, w')))"
  unfolding were1_unix_socket_send_all_def
proof (intro conjI allI impI)
  fix w r w' assume "send_loop fd data (script w) w = Some (r, w')"
  then show "if r = 0 then tx w' = tx w @ data else r = -1 \<and> (\<exists>k. tx w' = tx w @ take k data)"
    by (rule send_loop_ok)
next
  fix ns and w :: posix
  assume "list_all (\<lambda>n. 0 < n) ns" "length data \<le> sum_list ns" "script w = map (\<lambda>n. Ret (int n)) ns"
  then show "\<exists>w'. send_loop fd data (script w) w = Some (0, w')" by (simp add: send_loop_returns)
qed

theorem send_all_complete_witness:
  "\<exists>w'. were1_unix_socket_send_all 3 [1, 2, 3] \<lparr>script = [Ret 1, Ret 2], trace = [], tx = []\<rparr> = Some (0, w') \<and>
    tx w' = [1, 2, 3]"
proof -
  let ?w = "\<lparr>script = [Ret 1, Ret 2], trace = [], tx = []\<rparr>"
  have "list_all (\<lambda>n. 0 < n) [1, 2 :: nat]" "length [1 :: byte, 2, 3] \<le> sum_list [1, 2]"
    "script ?w = map (\<lambda>n. Ret (int n)) [1, 2]" by simp_all
  then obtain w' where "were1_unix_socket_send_all 3 [1, 2, 3] ?w = Some (0, w')"
    using send_all_complete [of 3 "[1, 2, 3]", THEN conjunct2] by blast
  with send_all_complete [of 3 "[1, 2, 3]", THEN conjunct1] show ?thesis by fastforce
qed

text \<open>
  \<^verbatim>\<open>receive_all\<close> reports success only with exactly the number of bytes asked for, in the order in
  which the socket delivered them.
\<close>

theorem receive_all_complete:
  assumes "were1_unix_socket_receive_all fd len w = Some (r, got, w')"
  shows "(r = 0 \<or> r = -1) \<and> (r = 0 \<longrightarrow> length got = len \<and>
    (\<exists>ds. script w = map Data ds @ script w' \<and> got = take len (concat ds)))"
  using receive_loop_ok [OF assms [unfolded were1_unix_socket_receive_all_def]] by auto

theorem receive_all_complete_witness:
  "\<exists>got w'. were1_unix_socket_receive_all 3 4 \<lparr>script = [Data [1, 2, 3], Data [4]], trace = [], tx = []\<rparr> =
    Some (0, got, w') \<and> length got = 4"
proof -
  have "\<exists>got w'. were1_unix_socket_receive_all 3 4 \<lparr>script = [Data [1, 2, 3], Data [4]], trace = [], tx = []\<rparr> =
    Some (0, got, w')"
    by (simp add: were1_unix_socket_receive_all_def receive_loop.simps)
  then show ?thesis using receive_all_complete by fastforce
qed

text \<open>
  When the peer has closed the connection, \<^verbatim>\<open>receive_all\<close> never returns: \<^verbatim>\<open>recv\<close> answers 0 for ever
  and the loop treats that as progress.
\<close>

lemma receive_all_eof_spins:
  "were1_unix_socket_receive_all fd (Suc k) (w\<lparr>script := replicate n (Data [])\<rparr>) = None"
proof -
  have "receive_loop fd (Suc k) [] (replicate n (Data [])) v = None" for v
    by (induction n arbitrary: v) (simp_all add: receive_loop.simps)
  then show ?thesis by (simp add: were1_unix_socket_receive_all_def)
qed

text \<open>
  C40: Creating a server, connecting and creating a shared file either return an open descriptor or
  fail having closed what they had opened.
\<close>

theorem open_or_close:
  "(\<forall>w r. were1_unix_server_create path w = Some r \<longrightarrow> opened w r) \<and>
   (\<forall>w r. were1_unix_socket_connect path w = Some r \<longrightarrow> opened w r) \<and>
   (\<forall>w r. were1_tmpfile_create env True sz w = Some r \<longrightarrow> opened w r)"
proof (intro conjI allI impI)
  fix w r
  show "were1_unix_server_create path w = Some r \<Longrightarrow> opened w r"
    by (rule server_opened)
  show "were1_unix_socket_connect path w = Some r \<Longrightarrow> opened w r"
    by (rule connect_opened)
  show "were1_tmpfile_create env True sz w = Some r \<Longrightarrow> opened w r"
    by (rule tmpfile_opened)
qed

theorem open_or_close_witness:
  "\<exists>w'. were1_unix_socket_connect ''/s'' \<lparr>script = [Ret 5, Ret (-1)], trace = [], tx = []\<rparr> = Some (-1, w') \<and>
    last (trace w') = Sys_close 5"
proof -
  let ?w = "\<lparr>script = [Ret 5, Ret (-1)], trace = [], tx = []\<rparr>"
  define w' where "w' = \<lparr>script = [], trace = [Sys_socket, Sys_connect 5 (sun_path ''/s''), Sys_close 5], tx = []\<rparr>"
  have run: "were1_unix_socket_connect ''/s'' ?w = Some (-1, w')"
    by (simp add: were1_unix_socket_connect_def sys_int_def sys_def sys_void_def w'_def)
  from open_or_close [of "''/s''" None 0] run have "opened ?w (-1, w')" by blast
  with run show ?thesis by (auto simp: opened_def)
qed

text \<open>
  A peer that sends a plain byte instead of descriptors crashes \<^verbatim>\<open>receive_fds\<close>, which uses the first
  control message without checking that there is one.
\<close>

lemma receive_fds_unchecked:
  "were1_unix_socket_receive_fds fd n (w\<lparr>script := Msg 1 None # rs\<rparr>) = Crashed \<and>
   were1_unix_socket_receive_fds fd (length fds) (w\<lparr>script := Msg 1 (Some fds) # rs\<rparr>) =
     Done (0, fds, w\<lparr>script := rs, trace := trace w @ [Sys_recvmsg fd (length fds)]\<rparr>)"
  by (simp add: were1_unix_socket_receive_fds_def sys_def)

end
