(* ===== verification/Pcm_Sparkle.thy ===== *)
theory Pcm_Sparkle
  imports Ring_Buffer Unix_Socket Bytes
begin

text \<open>
  The ALSA plugin \<^verbatim>\<open>pcm_sparkle.c\<close>, which writes audio into the shared ring buffer and talks to the
  Android service over a socket, and the consumer of that ring, \<^verbatim>\<open>sparkle_android/sparkle_player.cpp\<close>.
  ALSA and OpenSL ES are arguments of the definitions.
\<close>

section \<open>The plugin's state\<close>

definition sparkle_period_size :: int where
  "sparkle_period_size = 65536 div 8"

definition sparkle_periods :: int where
  "sparkle_periods = 8"

definition sparkle_buffer_size :: int where
  "sparkle_buffer_size = sparkle_period_size * sparkle_periods"

text \<open>
  \<^verbatim>\<open>struct sparkle_audio_buffer\<close>: a ring header of 24 bytes and 65536 bytes of data, which the
  header's empty array aliases. A new file is filled with zeros.
\<close>

definition sizeof_audio_buffer :: nat where
  "sizeof_audio_buffer = 24 + 65536"

definition zero_buffer :: were1_ring_buffer where
  "zero_buffer = \<lparr>rsize = 0, write_position = 0, read_position = 0, rdata = replicate 65536 0\<rparr>"

record snd_pcm_sparkle =
  frame_bytes :: u32
  sfd :: int
  buffer_fd :: int
  sbuffer :: "were1_ring_buffer option"

definition calloc_sparkle :: snd_pcm_sparkle where
  "calloc_sparkle = \<lparr>frame_bytes = 0, sfd = 0, buffer_fd = 0, sbuffer = None\<rparr>"

text \<open>\<^verbatim>\<open>critical\<close> aborts the process on \<open>-1\<close>.\<close>

datatype pcm_fault = Aborted | Segfault

definition critical :: "int \<Rightarrow> 'a \<Rightarrow> pcm_fault + 'a" where
  "critical ret x = (if ret = -1 then Inl Aborted else Inr x)"

section \<open>Opening and closing\<close>

definition sparkle_initialize ::
    "string option \<Rightarrow> bool \<Rightarrow> snd_pcm_sparkle \<Rightarrow> string \<Rightarrow> posix \<Rightarrow>
     (pcm_fault + int \<times> snd_pcm_sparkle \<times> posix) option" where
  "sparkle_initialize env mem sp path w = do {
     (bfd, w) \<leftarrow> were1_tmpfile_create env mem (int sizeof_audio_buffer) w;
     let sp = sp\<lparr>buffer_fd := bfd\<rparr>;
     if bfd = -1 then Some (Inr (-1, sp, w))
     else do {
       (p, r, w) \<leftarrow> were1_tmpfile_map sizeof_audio_buffer bfd w;
       if r = -1 then Some (Inr (-1, sp, w))
       else do {
         let sp = sp\<lparr>sbuffer := Some (were1_ring_buffer_initialize zero_buffer 65536)\<rparr>;
         (fd, w) \<leftarrow> were1_unix_socket_connect path w;
         let sp = sp\<lparr>sfd := fd\<rparr>;
         if fd = -1 then Some (Inr (-1, sp, w))
         else do {
           (r, w) \<leftarrow> were1_unix_socket_send_all fd (le_bytes 8 (1 :: u64)) w;
           case critical r w of
             Inl e \<Rightarrow> Some (Inl e)
           | Inr w \<Rightarrow> do {
               (r, w) \<leftarrow> were1_unix_socket_send_fds fd [bfd] w;
               Some (ebind (critical r w) (\<lambda>w. Inr (0, sp, w)))
             }
         }
       }
     }
   }"

definition sparkle_finish :: "snd_pcm_sparkle \<Rightarrow> posix \<Rightarrow> snd_pcm_sparkle \<times> posix" where
  "sparkle_finish sp w =
     (let (sp, w) = (if sfd sp > 0
            then (sp\<lparr>sfd := -1\<rparr>, sys_void (Sys_close (sfd sp)) (were1_unix_socket_shutdown (sfd sp) w))
            else (sp, w));
          (sp, w) = (if sbuffer sp \<noteq> None
            then (sp\<lparr>sbuffer := None\<rparr>, snd (were1_tmpfile_unmap sizeof_audio_buffer w)) else (sp, w));
          (sp, w) = (if buffer_fd sp > 0
            then (sp\<lparr>buffer_fd := -1\<rparr>, sys_void (Sys_close (buffer_fd sp)) w) else (sp, w))
      in (sp, w))"

definition sparkle_close :: "snd_pcm_sparkle \<Rightarrow> posix \<Rightarrow> int \<times> posix" where
  "sparkle_close sp w = (0, snd (sparkle_finish sp w))"

text \<open>
  \<^verbatim>\<open>sparkle_receive\<close> drains the socket. The comparison converts \<^verbatim>\<open>bytes_available\<close>'s \<^verbatim>\<open>int\<close> to
  \<^verbatim>\<open>size_t\<close>, so the failure value \<open>-1\<close> counts as a huge number of bytes.
\<close>

definition enough_bytes :: "int \<Rightarrow> bool" where
  "enough_bytes n \<longleftrightarrow> (of_int n :: u64) \<ge> 8"

partial_function (option) sparkle_receive :: "snd_pcm_sparkle \<Rightarrow> posix \<Rightarrow> (pcm_fault + posix) option" where
  "sparkle_receive sp w = do {
     (n, w) \<leftarrow> were1_unix_socket_bytes_available (sfd sp) w;
     if enough_bytes n then do {
       (r, _, w) \<leftarrow> were1_unix_socket_receive_all (sfd sp) 8 w;
       case critical r w of Inl e \<Rightarrow> Some (Inl e) | Inr w \<Rightarrow> sparkle_receive sp w
     } else Some (Inr w)
   }"

datatype poll_event = POLLIN | POLLOUT

definition sparkle_poll_revents :: "snd_pcm_sparkle \<Rightarrow> posix \<Rightarrow> (pcm_fault + poll_event \<times> int \<times> posix) option" where
  "sparkle_poll_revents sp w = do {
     r \<leftarrow> sparkle_receive sp w;
     Some (ebind r (\<lambda>w. Inr (POLLOUT, 0, w)))
   }"

definition send_code :: "u64 \<Rightarrow> snd_pcm_sparkle \<Rightarrow> posix \<Rightarrow> (pcm_fault + int \<times> posix) option" where
  "send_code code sp w = do {
     (r, w) \<leftarrow> were1_unix_socket_send_all (sfd sp) (le_bytes 8 code) w;
     Some (ebind (critical r w) (\<lambda>w. Inr (0, w)))
   }"

definition sparkle_start :: "snd_pcm_sparkle \<Rightarrow> posix \<Rightarrow> (pcm_fault + int \<times> posix) option" where
  "sparkle_start = send_code 2"

definition sparkle_stop :: "snd_pcm_sparkle \<Rightarrow> posix \<Rightarrow> (pcm_fault + int \<times> posix) option" where
  "sparkle_stop = send_code 3"

section \<open>Transfers\<close>

text \<open>An ALSA channel area: memory with the bit offset of the first sample and between frames.\<close>

record channel_area =
  addr :: bytes
  first :: nat
  step :: nat

definition sparkle_write ::
    "snd_pcm_sparkle \<Rightarrow> channel_area \<Rightarrow> nat \<Rightarrow> u64 \<Rightarrow> pcm_fault + int \<times> snd_pcm_sparkle" where
  "sparkle_write sp area offset sz =
     (let data = drop ((first area + step area * offset) div 8) (addr area);
          size_bytes = sint (ucast (sz * ucast (frame_bytes sp)) :: u32);
          size_bytes = (if size_bytes > sparkle_period_size then sparkle_period_size else size_bytes)
      in case sbuffer sp of
           None \<Rightarrow> Inl Segfault
         | Some ring \<Rightarrow>
             (case were1_ring_buffer_write_start ring size_bytes of
                (off, n) \<Rightarrow>
                  if n < 0 \<or> length data < nat n \<or> frame_bytes sp = 0 then Inl Segfault
                  else
                    let ring = ring_fill ring off (take (nat n) data);
                        ring = were1_ring_buffer_write_finish ring n
                    in Inr (int (unat ((of_int n :: u32) div frame_bytes sp)), sp\<lparr>sbuffer := Some ring\<rparr>)))"

definition sparkle_read :: "u64 \<Rightarrow> int" where
  "sparkle_read sz = sint sz"

text \<open>The \<^verbatim>\<open>transfer\<close> callback of the playback and of the capture table.\<close>

datatype pcm_stream = SND_PCM_STREAM_PLAYBACK | SND_PCM_STREAM_CAPTURE

definition sparkle_transfer ::
    "pcm_stream \<Rightarrow> snd_pcm_sparkle \<Rightarrow> channel_area \<Rightarrow> nat \<Rightarrow> u64 \<Rightarrow> pcm_fault + int \<times> snd_pcm_sparkle" where
  "sparkle_transfer stream sp area offset sz = (case stream of
     SND_PCM_STREAM_PLAYBACK \<Rightarrow> sparkle_write sp area offset sz
   | SND_PCM_STREAM_CAPTURE \<Rightarrow> Inr (sparkle_read sz, sp))"

definition sparkle_pointer :: "snd_pcm_sparkle \<Rightarrow> posix \<Rightarrow> (pcm_fault + u64 \<times> posix) option" where
  "sparkle_pointer sp w = do {
     r \<leftarrow> sparkle_receive sp w;
     Some (ebind r (\<lambda>w. case sbuffer sp of
       None \<Rightarrow> Inl Segfault
     | Some ring \<Rightarrow>
         if frame_bytes sp = 0 then Inl Segfault
         else Inr (read_position ring div ucast (frame_bytes sp), w)))
   }"

section \<open>Hardware parameters\<close>

datatype pcm_format = SND_PCM_FORMAT_S16_LE | Other_format nat

text \<open>\<open>width\<close> is ALSA's \<^verbatim>\<open>snd_pcm_format_physical_width\<close>, the number of bits of a sample.\<close>

definition sparkle_hw_params ::
    "(pcm_format \<Rightarrow> nat) \<Rightarrow> pcm_format \<Rightarrow> nat \<Rightarrow> snd_pcm_sparkle \<Rightarrow> int \<times> snd_pcm_sparkle" where
  "sparkle_hw_params width format channels sp =
     (let sp = sp\<lparr>frame_bytes := of_nat ((width format * channels) div 8)\<rparr>
      in case format of
           SND_PCM_FORMAT_S16_LE \<Rightarrow> (0, sp)
         | _ \<Rightarrow> (-22, sp))"

datatype hw_param =
    HW_ACCESS_RW_INTERLEAVED | HW_FORMAT "pcm_format list" | HW_CHANNELS int int | HW_RATE int int
  | HW_PERIOD_BYTES int int | HW_PERIODS int int | HW_BUFFER_BYTES int int

definition hw_constraints :: "hw_param list" where
  "hw_constraints = [HW_ACCESS_RW_INTERLEAVED, HW_FORMAT [SND_PCM_FORMAT_S16_LE], HW_CHANNELS 2 2,
     HW_RATE 48000 48000, HW_PERIOD_BYTES sparkle_period_size sparkle_period_size,
     HW_PERIODS sparkle_periods sparkle_periods, HW_BUFFER_BYTES sparkle_buffer_size sparkle_buffer_size]"

text \<open>The calls that set a parameter, in order, until one fails; those made are returned.\<close>

fun set_params :: "(hw_param \<Rightarrow> int) \<Rightarrow> hw_param list \<Rightarrow> int \<times> hw_param list" where
  "set_params set_param [] = (0, [])"
| "set_params set_param (p # ps) =
     (if set_param p < 0 then (set_param p, [p])
      else case set_params set_param ps of (r, qs) \<Rightarrow> (r, p # qs))"

definition sparkle_hw_constraint :: "(hw_param \<Rightarrow> int) \<Rightarrow> int \<times> hw_param list" where
  "sparkle_hw_constraint set_param = set_params set_param hw_constraints"

section \<open>The plugin entry point\<close>

text \<open>A configuration node: its id and its string value, where ALSA can give them.\<close>

type_synonym config_node = "string option \<times> string option"

fun read_config :: "config_node list \<Rightarrow> string \<Rightarrow> int + string" where
  "read_config [] path = Inr path"
| "read_config ((None, v) # ns) path = read_config ns path"
| "read_config ((Some i, v) # ns) path =
     (if i = ''comment'' \<or> i = ''type'' \<or> i = ''hint'' then read_config ns path
      else if i = ''path'' then
        (case v of None \<Rightarrow> Inl (-22) | Some p \<Rightarrow> read_config ns p)
      else Inl (-22))"

definition sparkle_path :: string where
  "sparkle_path = ''/data/data/com.sion.sparkle/files/audio-0''"

text \<open>
  \<open>create\<close> is the result of \<^verbatim>\<open>snd_pcm_ioplug_create\<close>. \<^verbatim>\<open>snd_pcm_ioplug_delete\<close> closes the device through
  the plugin's own callback.
\<close>

definition sparkle_open ::
    "config_node list \<Rightarrow> string option \<Rightarrow> bool \<Rightarrow> bool \<Rightarrow> int \<Rightarrow> (hw_param \<Rightarrow> int) \<Rightarrow> posix \<Rightarrow>
     (pcm_fault + int \<times> snd_pcm_sparkle option \<times> posix) option" where
  "sparkle_open conf env mem mem' create set_param w =
     (case read_config conf sparkle_path of
        Inl e \<Rightarrow> Some (Inr (e, None, w))
      | Inr path \<Rightarrow>
          if \<not> mem then Some (Inr (-12, None, w))
          else do {
            r \<leftarrow> sparkle_initialize env mem' calloc_sparkle path w;
            Some (ebind r (\<lambda>(r, sp, w).
              if r = -1 then Inr (-2, None, snd (sparkle_finish sp w))
              else if create < 0 then Inr (create, None, snd (sparkle_finish sp w))
              else
                let err = fst (sparkle_hw_constraint set_param) in
                if err < 0 then Inr (err, None, snd (sparkle_close sp w))
                else Inr (0, Some sp, w)))
          })"

section \<open>The player\<close>

datatype play_state = SL_PLAYSTATE_STOPPED | SL_PLAYSTATE_PLAYING | Initial_state

record sparkle_player =
  pstate :: play_state
  playing :: int
  pbuffer :: "were1_ring_buffer option"
  timer_on :: bool

text \<open>The requests to OpenSL ES; \<open>sl\<close> says which succeed, and a failure is an exception.\<close>

datatype sl_call = SetPlayState play_state | ClearQueue | Enqueue nat bytes

definition sparkle_player_check ::
    "(sl_call \<Rightarrow> bool) \<Rightarrow> sparkle_player \<Rightarrow> (sl_call list + sparkle_player \<times> sl_call list)" where
  "sparkle_player_check sl p =
     (case pbuffer p of
        Some ring \<Rightarrow>
          if pstate p = SL_PLAYSTATE_PLAYING \<and> playing p = 0 then
            let n = were1_ring_buffer_bytes_available ring in
            if n < 1 then Inr (p, [])
            else
              let n = (if n > 8192 then 8192 else n) in
              (case were1_ring_buffer_read_start ring n of
                 (off, n) \<Rightarrow>
                   let c = Enqueue off (ring_piece ring off (nat n)) in
                   if \<not> sl c then Inl [c] else Inr (p\<lparr>playing := n\<rparr>, [c]))
          else Inr (p, [])
      | None \<Rightarrow> Inr (p, []))"

definition sparkle_player_callback ::
    "(sl_call \<Rightarrow> bool) \<Rightarrow> sparkle_player \<Rightarrow> (sl_call list + sparkle_player \<times> sl_call list)" where
  "sparkle_player_callback sl p =
     (if pstate p \<noteq> SL_PLAYSTATE_PLAYING then Inr (p, [])
      else case pbuffer p of
        None \<Rightarrow> Inl []
      | Some ring \<Rightarrow>
          sparkle_player_check sl
            (p\<lparr>pbuffer := Some (were1_ring_buffer_read_finish ring (playing p)), playing := 0\<rparr>))"

definition sparkle_player_start ::
    "(sl_call \<Rightarrow> bool) \<Rightarrow> sparkle_player \<Rightarrow> (sl_call list + sparkle_player \<times> sl_call list)" where
  "sparkle_player_start sl p =
     (if pstate p \<noteq> SL_PLAYSTATE_PLAYING then
        let p = p\<lparr>pstate := SL_PLAYSTATE_PLAYING\<rparr>; c = SetPlayState SL_PLAYSTATE_PLAYING in
        if \<not> sl c then Inl [c]
        else (case sparkle_player_check sl (p\<lparr>playing := 0\<rparr>) of
                Inl cs \<Rightarrow> Inl (c # cs)
              | Inr (p, cs) \<Rightarrow> Inr (p\<lparr>timer_on := True\<rparr>, c # cs))
      else Inr (p, []))"

definition sparkle_player_stop ::
    "(sl_call \<Rightarrow> bool) \<Rightarrow> sparkle_player \<Rightarrow> (sl_call list + sparkle_player \<times> sl_call list)" where
  "sparkle_player_stop sl p =
     (if pstate p \<noteq> SL_PLAYSTATE_STOPPED then
        let p = p\<lparr>timer_on := False, pstate := SL_PLAYSTATE_STOPPED\<rparr>; c = SetPlayState SL_PLAYSTATE_STOPPED in
        if \<not> sl c then Inl [c]
        else if \<not> sl ClearQueue then Inl [c, ClearQueue]
        else Inr (p\<lparr>pbuffer := map_option were1_ring_buffer_reset (pbuffer p), playing := 0\<rparr>, [c, ClearQueue])
      else Inr (p, []))"

section \<open>Writing whole frames\<close>

text \<open>
  A ring that holds whole 16-bit stereo frames. ALSA only transfers what its view of the buffer has
  room for, which is what \<open>room\<close> below states.
\<close>

definition frame_ring :: "were1_ring_buffer \<Rightarrow> bool" where
  "frame_ring r \<longleftrightarrow> ring_ok r \<and> rsize r = 65536 \<and> 4 dvd unat (write_position r)"

definition area_data :: "channel_area \<Rightarrow> nat \<Rightarrow> bytes" where
  "area_data area offset = drop ((first area + step area * offset) div 8) (addr area)"

lemma transfer_size:
  assumes "unat (sz :: u64) \<le> 16384"
  shows "sint (ucast (sz * 4) :: u32) = 4 * int (unat sz)"
proof -
  have "unat (sz * 4) = 4 * unat sz" using assms by (simp add: unat_word_ariths)
  then have "unat (ucast (sz * 4) :: u32) = 4 * unat sz"
    using assms by (simp add: unsigned_ucast_eq take_bit_nat_eq_self)
  with assms show ?thesis by (simp add: sint_u32_small)
qed

lemma frame_piece:
  assumes r: "frame_ring r" and sz: "unat (sz :: u64) \<le> 16384"
    and st: "were1_ring_buffer_write_start r (min (4 * int (unat sz)) sparkle_period_size) = (off, n)"
  shows "4 dvd nat n" "0 \<le> n" "nat n \<le> 4 * unat sz" "0 < unat sz \<Longrightarrow> 0 < n" "nat n \<le> 8192"
proof -
  have ok: "ring_ok r" "rsize r = 65536" "4 dvd unat (write_position r)" using r by (auto simp: frame_ring_def)
  let ?s = "min (4 * int (unat sz)) sparkle_period_size"
  have "0 \<le> ?s" by (simp add: sparkle_period_size_def)
  note w = ring_write_start [OF ok(1) this st]
  show n: "0 \<le> n" by (rule w(2))
  show "0 < n" if "0 < unat sz"
  proof (rule w(5))
    have "0 < int (unat sz)" using that by (simp only: of_nat_0_less_iff)
    then show "0 < ?s" by (simp add: sparkle_period_size_def)
  qed
  have "n \<le> 4 * int (unat sz)" "n \<le> 8192"
    using w(3) unfolding sparkle_period_size_def by linarith+
  then show "nat n \<le> 4 * unat sz" "nat n \<le> 8192" using n by linarith+
  have "4 dvd off" using w(1) ok(2,3) by (simp add: dvd_mod)
  then have "4 dvd (rsize r - int off)" using ok(2) by (auto elim!: dvdE intro!: dvd_diff)
  moreover have "4 dvd ?s" by (auto simp: min_def sparkle_period_size_def)
  ultimately have "4 dvd n" using w(6) by (simp add: min_def)
  then show "4 dvd nat n" using n by presburger
qed

lemma sparkle_write_ok:
  assumes sp: "sbuffer sp = Some r" "frame_bytes sp = 4" and r: "frame_ring r"
    and room: "4 * unat sz + ring_used r \<le> 65536" and data: "4 * unat sz \<le> length (area_data area offset)"
  obtains k r' where "sparkle_write sp area offset sz = Inr (int k, sp\<lparr>sbuffer := Some r'\<rparr>)"
    "k \<le> unat sz" "0 < unat sz \<longrightarrow> 0 < k" "frame_ring r'"
    "ring_bytes r' = ring_bytes r @ take (4 * k) (area_data area offset)"
    "ring_used r' = ring_used r + 4 * k" "read_position r' = read_position r"
proof -
  have sz: "unat sz \<le> 16384" using room by simp
  let ?s = "min (4 * int (unat sz)) sparkle_period_size"
  obtain off n where st: "were1_ring_buffer_write_start r ?s = (off, n)"
    by (cases "were1_ring_buffer_write_start r ?s")
  note f = frame_piece [OF r sz st]
  obtain k where k: "nat n = 4 * k" using f(1) by (elim dvdE)
  then have n: "n = 4 * int k" using f(2) by simp
  have ok: "ring_ok r" "rsize r = 65536" "4 dvd unat (write_position r)" using r by (auto simp: frame_ring_def)
  have s0: "0 \<le> ?s" by (simp add: sparkle_period_size_def)
  let ?d = "take (nat n) (area_data area offset)"
  let ?r = "were1_ring_buffer_write_finish (ring_fill r off ?d) n"
  have ld: "length ?d = nat n" using data f(3) by simp
  have rm: "ring_used r + nat n \<le> nat (rsize r)" using room f(3) ok(2) by simp
  note w = ring_write [OF ok(1) s0 st ld rm]
  have "write_position ?r = write_position r + of_nat (4 * k)"
    by (simp add: were1_ring_buffer_write_finish_def ring_fill_def n)
  moreover have "(4 :: nat) dvd 2 ^ 64" by (simp add: dvd_def)
  ultimately have "unat (write_position ?r) mod 4 = (unat (write_position r) + 4 * k) mod 4"
    by (simp only: unat_add_mod_size)
  then have "4 dvd unat (write_position ?r)" using ok(3) by (simp add: mod_eq_0_iff_dvd [symmetric])
  with w(1,5) ok(2) have fr: "frame_ring ?r" by (simp add: frame_ring_def)
  have k32: "unat (of_int n :: u32) = 4 * k"
    using f(5) k by (simp add: n) (simp add: unat_word_ariths unat_of_nat)
  have fb: "int (unat ((of_int n :: u32) div 4)) = int k" using k32 by (simp add: unat_div)
  have if_min: "(if x > y then y else x) = min x y" for x y :: int by (simp add: min_def)
  have run: "sparkle_write sp area offset sz = Inr (int k, sp\<lparr>sbuffer := Some ?r\<rparr>)"
    using sp st f(2) data f(3) fb transfer_size [OF sz]
    unfolding sparkle_write_def Let_def area_data_def [symmetric] if_min by simp
  show ?thesis
    by (rule that [OF run]) (use f(3,4) k n fr w in auto)
qed

section \<open>The player's threads\<close>

text \<open>
  The timer, \<^verbatim>\<open>start\<close> and \<^verbatim>\<open>stop\<close> run on the player's thread; the completion callback, as the file is built
  (\<^verbatim>\<open>UNSAFE\<close> is 1), on a thread of OpenSL ES, with no lock between them. Each function is split into
  its accesses to what the threads share: an instruction of \<open>player_exec\<close> is one access, and it returns the
  instructions that come next, before those already waiting. \<^verbatim>\<open>check\<close> is the body that follows
  \<open>I_check\<close>, wherever it is called from.
\<close>

datatype player_instr = I_check | I_take | I_enqueue nat int | I_playing int
  | I_callback | I_finish | I_start | I_stop | I_state play_state | I_call sl_call | I_timer bool | I_reset

definition player_exec ::
    "(sl_call \<Rightarrow> bool) \<Rightarrow> player_instr \<Rightarrow> sparkle_player \<Rightarrow>
     (sl_call list + player_instr list \<times> sparkle_player \<times> sl_call list)" where
  "player_exec sl i p = (case i of
     I_check \<Rightarrow> Inr (if pstate p = SL_PLAYSTATE_PLAYING \<and> playing p = 0 \<and> pbuffer p \<noteq> None then [I_take] else [], p, [])
   | I_take \<Rightarrow> (case pbuffer p of
        None \<Rightarrow> Inl []
      | Some ring \<Rightarrow>
          let n = were1_ring_buffer_bytes_available ring in
          if n < 1 then Inr ([], p, [])
          else (case were1_ring_buffer_read_start ring (if n > 8192 then 8192 else n) of
                  (off, n) \<Rightarrow> Inr ([I_enqueue off n], p, [])))
   | I_enqueue off n \<Rightarrow> (case pbuffer p of
        None \<Rightarrow> Inl []
      | Some ring \<Rightarrow>
          let c = Enqueue off (ring_piece ring off (nat n)) in
          if sl c then Inr ([I_playing n], p, [c]) else Inl [c])
   | I_playing n \<Rightarrow> Inr ([], p\<lparr>playing := n\<rparr>, [])
   | I_callback \<Rightarrow>
       Inr (if pstate p \<noteq> SL_PLAYSTATE_PLAYING then [] else [I_finish, I_playing 0, I_check], p, [])
   | I_finish \<Rightarrow> (case pbuffer p of
        None \<Rightarrow> Inl []
      | Some ring \<Rightarrow> Inr ([], p\<lparr>pbuffer := Some (were1_ring_buffer_read_finish ring (playing p))\<rparr>, []))
   | I_start \<Rightarrow>
       Inr (if pstate p \<noteq> SL_PLAYSTATE_PLAYING
         then [I_state SL_PLAYSTATE_PLAYING, I_call (SetPlayState SL_PLAYSTATE_PLAYING), I_playing 0, I_check, I_timer True]
         else [], p, [])
   | I_stop \<Rightarrow>
       Inr (if pstate p \<noteq> SL_PLAYSTATE_STOPPED
         then [I_timer False, I_state SL_PLAYSTATE_STOPPED, I_call (SetPlayState SL_PLAYSTATE_STOPPED),
               I_call ClearQueue, I_reset, I_playing 0]
         else [], p, [])
   | I_state st \<Rightarrow> Inr ([], p\<lparr>pstate := st\<rparr>, [])
   | I_call c \<Rightarrow> if sl c then Inr ([], p, [c]) else Inl [c]
   | I_timer b \<Rightarrow> Inr ([], p\<lparr>timer_on := b\<rparr>, [])
   | I_reset \<Rightarrow> Inr ([], p\<lparr>pbuffer := map_option were1_ring_buffer_reset (pbuffer p)\<rparr>, []))"

text \<open>A thread that is left alone does what the whole functions say.\<close>

fun player_run ::
    "(sl_call \<Rightarrow> bool) \<Rightarrow> nat \<Rightarrow> player_instr list \<Rightarrow> sparkle_player \<Rightarrow> sl_call list \<Rightarrow>
     (sl_call list + sparkle_player \<times> sl_call list) option" where
  "player_run sl 0 is p cs = None"
| "player_run sl (Suc n) [] p cs = Some (Inr (p, cs))"
| "player_run sl (Suc n) (i # is) p cs = (case player_exec sl i p of
     Inl ds \<Rightarrow> Some (Inl (cs @ ds))
   | Inr (js, p, ds) \<Rightarrow> player_run sl n (js @ is) p (cs @ ds))"

lemma player_runs_alone:
  "player_run sl 9 [I_check] p [] = Some (sparkle_player_check sl p)"
  "player_run sl 9 [I_callback] p [] = Some (sparkle_player_callback sl p)"
  "player_run sl 12 [I_start] p [] = Some (sparkle_player_start sl p)"
  "player_run sl 9 [I_stop] p [] = Some (sparkle_player_stop sl p)"
  by (simp_all add: player_exec_def sparkle_player_check_def sparkle_player_callback_def sparkle_player_start_def
      sparkle_player_stop_def eval_nat_numeral Let_def split: option.split prod.split)

section \<open>Producer and consumer\<close>

text \<open>
  The plugin and the player share the ring. \<open>produced\<close> are the bytes the plugin has accepted from the
  application, \<open>queued\<close> the bytes the player has handed to the audio system, both since the
  player's last reset of the ring. The threads hold the instructions they still have to execute.
\<close>

record audio =
  splug :: snd_pcm_sparkle
  splayer :: sparkle_player
  produced :: bytes
  queued :: bytes
  player_thread :: "player_instr list"
  audio_thread :: "player_instr list"

fun enqueued :: "sl_call list \<Rightarrow> bytes" where
  "enqueued [] = []"
| "enqueued (Enqueue off bs # cs) = bs @ enqueued cs"
| "enqueued (_ # cs) = enqueued cs"

text \<open>What the execution of one instruction makes of the shared state.\<close>

definition after_instr :: "player_instr \<Rightarrow> sparkle_player \<Rightarrow> sl_call list \<Rightarrow> audio \<Rightarrow> audio" where
  "after_instr i p cs s = s\<lparr>splayer := p, splug := (splug s)\<lparr>sbuffer := pbuffer p\<rparr>,
     produced := (if i = I_reset then [] else produced s),
     queued := (if i = I_reset then [] else queued s @ enqueued cs)\<rparr>"

text \<open>
  The steps: a transfer by the plugin, with what ALSA has room for, taken as one step since its last
  write publishes its bytes; the main loop calls the timer's \<^verbatim>\<open>check\<close>, \<^verbatim>\<open>start\<close> or \<^verbatim>\<open>stop\<close>; the
  audio system calls back; either thread executes its next instruction.
\<close>

inductive audio_step :: "audio \<Rightarrow> audio \<Rightarrow> bool" where
  transfer: "sparkle_write (splug s) area offset sz = Inr (k, sp') \<Longrightarrow>
    sbuffer (splug s) = Some r \<Longrightarrow> 4 * unat sz + ring_used r \<le> 65536 \<Longrightarrow>
    4 * unat sz \<le> length (area_data area offset) \<Longrightarrow>
    audio_step s (s\<lparr>splug := sp', splayer := (splayer s)\<lparr>pbuffer := sbuffer sp'\<rparr>,
      produced := produced s @ take (4 * nat k) (area_data area offset)\<rparr>)"
| main_loop: "player_thread s = [] \<Longrightarrow> i = I_start \<or> i = I_stop \<or> i = I_check \<and> timer_on (splayer s) \<Longrightarrow>
    audio_step s (s\<lparr>player_thread := [i]\<rparr>)"
| calls_back: "audio_thread s = [] \<Longrightarrow> audio_step s (s\<lparr>audio_thread := [I_callback]\<rparr>)"
| player_runs: "player_thread s = i # is \<Longrightarrow> player_exec sl i (splayer s) = Inr (js, p', cs) \<Longrightarrow>
    audio_step s ((after_instr i p' cs s)\<lparr>player_thread := js @ is\<rparr>)"
| audio_runs: "audio_thread s = i # is \<Longrightarrow> player_exec sl i (splayer s) = Inr (js, p', cs) \<Longrightarrow>
    audio_step s ((after_instr i p' cs s)\<lparr>audio_thread := js @ is\<rparr>)"

text \<open>The threads are apart: not both are inside the player.\<close>

definition apart :: "audio \<Rightarrow> bool" where
  "apart s \<longleftrightarrow> player_thread s = [] \<or> audio_thread s = []"

inductive apart_run :: "audio \<Rightarrow> audio \<Rightarrow> bool" where
  refl: "apart_run s s"
| step: "apart_run s t \<Longrightarrow> audio_step t u \<Longrightarrow> apart u \<Longrightarrow> apart_run s u"

section \<open>The invariant of a thread alone\<close>

text \<open>The ring begins behind \<open>played\<close>; \<^verbatim>\<open>playing_\<close> bytes of it have been handed over.\<close>

definition handed :: "were1_ring_buffer \<Rightarrow> bytes \<Rightarrow> bytes \<Rightarrow> int \<Rightarrow> bool" where
  "handed r played q n \<longleftrightarrow> 0 \<le> n \<and> nat n \<le> ring_used r \<and> q = played @ take (nat n) (ring_bytes r)"

definition at_rest :: "were1_ring_buffer \<Rightarrow> bytes \<Rightarrow> bytes \<Rightarrow> sparkle_player \<Rightarrow> bool" where
  "at_rest r played q p \<longleftrightarrow> handed r played q (playing p) \<and> (pstate p \<noteq> SL_PLAYSTATE_PLAYING \<longrightarrow> playing p = 0)"

text \<open>What a thread may have left to do, and what holds before it.\<close>

definition check_end :: "player_instr list \<Rightarrow> bool" where
  "check_end is \<longleftrightarrow> is = [] \<or> is = [I_timer True]"

fun thread_inv :: "player_instr list \<Rightarrow> were1_ring_buffer \<Rightarrow> bytes \<Rightarrow> bytes \<Rightarrow> sparkle_player \<Rightarrow> bool" where
  "thread_inv [] r b q p \<longleftrightarrow> at_rest r b q p"
| "thread_inv (I_check # is) r b q p \<longleftrightarrow> check_end is \<and> at_rest r b q p"
| "thread_inv (I_take # is) r b q p \<longleftrightarrow> check_end is \<and> at_rest r b q p \<and> pstate p = SL_PLAYSTATE_PLAYING \<and> playing p = 0"
| "thread_inv (I_enqueue off n # is) r b q p \<longleftrightarrow> check_end is \<and> at_rest r b q p \<and> pstate p = SL_PLAYSTATE_PLAYING \<and>
     playing p = 0 \<and> (\<exists>k. 0 \<le> k \<and> nat k \<le> ring_used r \<and> were1_ring_buffer_read_start r k = (off, n))"
| "thread_inv (I_playing n # is) r b q p \<longleftrightarrow> handed r b q n \<and> (pstate p \<noteq> SL_PLAYSTATE_PLAYING \<longrightarrow> n = 0) \<and>
     (check_end is \<or> (\<exists>js. is = I_check # js \<and> check_end js))"
| "thread_inv (I_callback # is) r b q p \<longleftrightarrow> is = [] \<and> at_rest r b q p"
| "thread_inv (I_finish # is) r b q p \<longleftrightarrow> is = [I_playing 0, I_check] \<and> at_rest r b q p \<and> pstate p = SL_PLAYSTATE_PLAYING"
| "thread_inv (I_start # is) r b q p \<longleftrightarrow> is = [] \<and> at_rest r b q p"
| "thread_inv (I_stop # is) r b q p \<longleftrightarrow> is = [] \<and> at_rest r b q p"
| "thread_inv (I_state st # is) r b q p \<longleftrightarrow>
     st = SL_PLAYSTATE_PLAYING \<and> handed r b q 0 \<and>
       is = [I_call (SetPlayState SL_PLAYSTATE_PLAYING), I_playing 0, I_check, I_timer True] \<or>
     st = SL_PLAYSTATE_STOPPED \<and> is = [I_call (SetPlayState SL_PLAYSTATE_STOPPED), I_call ClearQueue, I_reset, I_playing 0] \<and>
       handed r b q (playing p)"
| "thread_inv (I_call c # is) r b q p \<longleftrightarrow>
     c = SetPlayState SL_PLAYSTATE_PLAYING \<and> is = [I_playing 0, I_check, I_timer True] \<and> handed r b q 0 \<or>
     c = SetPlayState SL_PLAYSTATE_STOPPED \<and> is = [I_call ClearQueue, I_reset, I_playing 0] \<and> handed r b q (playing p) \<or>
     c = ClearQueue \<and> is = [I_reset, I_playing 0] \<and> handed r b q (playing p)"
| "thread_inv (I_timer on # is) r b q p \<longleftrightarrow>
     on \<and> is = [] \<and> at_rest r b q p \<or>
     \<not> on \<and> is = [I_state SL_PLAYSTATE_STOPPED, I_call (SetPlayState SL_PLAYSTATE_STOPPED), I_call ClearQueue, I_reset, I_playing 0] \<and>
       at_rest r b q p"
| "thread_inv (I_reset # is) r b q p \<longleftrightarrow> is = [I_playing 0] \<and> handed r b q (playing p)"

definition audio_inv :: "audio \<Rightarrow> bool" where
  "audio_inv s \<longleftrightarrow> (\<exists>r played. sbuffer (splug s) = Some r \<and> pbuffer (splayer s) = Some r \<and>
     frame_bytes (splug s) = 4 \<and> frame_ring r \<and> produced s = played @ ring_bytes r \<and>
     thread_inv (player_thread s @ audio_thread s) r played (queued s) (splayer s))"

lemma handed_transfer:
  assumes "handed r b q n" "ring_bytes r' = ring_bytes r @ bs"
  shows "handed r' b q n"
proof -
  have "ring_used r' = ring_used r + length bs" using arg_cong [OF assms(2), of length] by simp
  with assms show ?thesis by (simp add: handed_def)
qed

lemma thread_inv_transfer:
  assumes "thread_inv is r b q p" and r': "ring_bytes r' = ring_bytes r @ bs" "read_position r' = read_position r" "rsize r' = rsize r"
  shows "thread_inv is r' b q (p\<lparr>pbuffer := x\<rparr>)"
proof -
  have u: "ring_used r \<le> ring_used r'" using arg_cong [OF r'(1), of length] by simp
  have st: "were1_ring_buffer_read_start r' k = were1_ring_buffer_read_start r k" for k
    by (simp add: were1_ring_buffer_read_start_def r'(2,3))
  have h: "handed r b q n \<Longrightarrow> handed r' b q n" for n using handed_transfer [OF _ r'(1)] .
  have e: "(\<exists>k. 0 \<le> k \<and> nat k \<le> ring_used r \<and> were1_ring_buffer_read_start r k = x) \<Longrightarrow>
      (\<exists>k. 0 \<le> k \<and> nat k \<le> ring_used r' \<and> were1_ring_buffer_read_start r' k = x)" for x
    using u by (auto simp: st intro: order_trans)
  show ?thesis
  proof (cases "is")
    case (Cons i js)
    with assms(1) h e show ?thesis by (cases i) (auto simp: at_rest_def)
  qed (use assms(1) h in \<open>auto simp: at_rest_def\<close>)
qed

lemma check_end_inv: "check_end is \<Longrightarrow> at_rest r b q p \<Longrightarrow> thread_inv is r b q p"
  by (auto simp: check_end_def)

text \<open>One instruction of a thread that is alone. A completion moves the bytes played.\<close>

lemma exec_inv:
  assumes run: "player_exec sl i p = Inr (js, p', cs)" and p: "pbuffer p = Some r" and r: "frame_ring r"
    and inv: "thread_inv (i # is) r b q p" and pr: "pd = b @ ring_bytes r"
  shows "\<exists>r' b'. pbuffer p' = Some r' \<and> frame_ring r' \<and> (if i = I_reset then [] else pd) = b' @ ring_bytes r' \<and>
    thread_inv (js @ is) r' b' (if i = I_reset then [] else q @ enqueued cs) p'"
proof -
  have ok: "ring_ok r" using r by (simp add: frame_ring_def)
  have same: ?thesis if "pbuffer p' = Some r" "i \<noteq> I_reset" "thread_inv (js @ is) r b (q @ enqueued cs) p'"
    using that r pr by (intro exI [of _ r] exI [of _ b]) simp
  show ?thesis
  proof (cases i)
    case I_check
    with run inv p same show ?thesis by (auto simp: player_exec_def check_end_inv)
  next
    case I_take
    have av: "were1_ring_buffer_bytes_available r = int (ring_used r)" by (rule ring_bytes_available [OF ok])
    let ?k = "if int (ring_used r) > 8192 then 8192 else int (ring_used r)"
    obtain off n where st: "were1_ring_buffer_read_start r ?k = (off, n)" by (cases "were1_ring_buffer_read_start r ?k")
    have k: "0 \<le> ?k" "nat ?k \<le> ring_used r" by auto
    have at: "check_end is" "at_rest r b q p" "pstate p = SL_PLAYSTATE_PLAYING" "playing p = 0" using inv I_take by auto
    have "p' = p \<and> cs = [] \<and> (js = [] \<or> js = [I_enqueue off n])"
      using run p I_take av st by (auto simp: player_exec_def Let_def split: if_split_asm)
    then show ?thesis
    proof (elim conjE disjE)
      assume "p' = p" "cs = []" "js = []"
      then show ?thesis using at p I_take by (intro same) (simp_all add: check_end_inv)
    next
      assume "p' = p" "cs = []" "js = [I_enqueue off n]"
      moreover have "\<exists>k. 0 \<le> k \<and> nat k \<le> ring_used r \<and> were1_ring_buffer_read_start r k = (off, n)" using k st by blast
      ultimately show ?thesis using at p I_take by (intro same) simp_all
    qed
  next
    case (I_enqueue off n)
    then obtain k where k: "0 \<le> k" "nat k \<le> ring_used r" "were1_ring_buffer_read_start r k = (off, n)"
      and at: "check_end is" "at_rest r b q p" "pstate p = SL_PLAYSTATE_PLAYING" "playing p = 0" using inv by auto
    note rd = ring_read [OF ok k] ring_read_start [OF ok k(1,3)]
    have e: "js = [I_playing n]" "p' = p" "cs = [Enqueue off (ring_piece r off (nat n))]"
      using run p I_enqueue by (auto simp: player_exec_def Let_def split: if_splits)
    have "handed r b (q @ enqueued cs) n" using at(2,4) rd e(3) by (simp add: at_rest_def handed_def)
    with e I_enqueue at same p show ?thesis by simp
  next
    case (I_playing n)
    with run inv p same show ?thesis
      by (auto simp: player_exec_def at_rest_def check_end_inv)
  next
    case I_callback
    with run inv p same show ?thesis by (auto simp: player_exec_def)
  next
    case I_finish
    let ?n = "playing p"
    define r1 where "r1 = were1_ring_buffer_read_finish r ?n"
    have h: "0 \<le> ?n" "nat ?n \<le> ring_used r" "q = b @ take (nat ?n) (ring_bytes r)"
      using inv I_finish by (simp_all add: at_rest_def handed_def)
    note rf = ring_read_finish [OF ok h(1,2), folded r1_def]
    have fr: "frame_ring r1" using rf(1,4,5) r by (simp add: frame_ring_def)
    have "pd = (b @ take (nat ?n) (ring_bytes r)) @ ring_bytes r1" using pr rf(2) by simp
    with run inv p I_finish h fr show ?thesis
      by (intro exI [of _ r1] exI [of _ "b @ take (nat ?n) (ring_bytes r)"])
        (auto simp: player_exec_def handed_def r1_def check_end_def)
  next
    case I_reset
    have fr: "frame_ring (were1_ring_buffer_reset r)" using ring_reset_ok(1) [OF ok] r
      by (simp add: frame_ring_def were1_ring_buffer_reset_def)
    with run inv p I_reset ring_reset_ok(2) [OF ok] show ?thesis
      by (intro exI [of _ "were1_ring_buffer_reset r"] exI [of _ "[]"])
        (auto simp: player_exec_def handed_def check_end_def)
  qed (use run inv p same in \<open>auto simp: player_exec_def at_rest_def check_end_def split: if_splits\<close>)
qed

lemma audio_step_inv:
  assumes "audio_step s t" "apart s" "apart t" "audio_inv s"
  shows "audio_inv t"
proof -
  obtain r b where i: "sbuffer (splug s) = Some r" "pbuffer (splayer s) = Some r" "frame_bytes (splug s) = 4"
    "frame_ring r" "produced s = b @ ring_bytes r"
    "thread_inv (player_thread s @ audio_thread s) r b (queued s) (splayer s)"
    using assms(4) by (auto simp: audio_inv_def)
  show ?thesis
    using assms(1)
  proof cases
    case (transfer area offset sz k sp' r0)
    have r0: "r0 = r" using transfer(3) i(1) by simp
    obtain k' r' where w: "sparkle_write (splug s) area offset sz = Inr (int k', (splug s)\<lparr>sbuffer := Some r'\<rparr>)"
      "frame_ring r'" "ring_bytes r' = ring_bytes r @ take (4 * k') (area_data area offset)"
      "read_position r' = read_position r"
      by (rule sparkle_write_ok [OF i(1,3,4) transfer(4) [unfolded r0] transfer(5)])
    have rs: "rsize r' = rsize r" using w(2) i(4) by (simp add: frame_ring_def)
    from w(1) transfer(2) have eq: "k = int k'" "sp' = (splug s)\<lparr>sbuffer := Some r'\<rparr>" by auto
    from thread_inv_transfer [OF i(6) w(3,4) rs, of "Some r'"] i w show ?thesis
      by (auto simp: audio_inv_def transfer(1) eq intro!: exI [of _ b])
  next
    case (main_loop x)
    then have "audio_thread s = []" using assms(3) by (simp add: apart_def)
    with main_loop i show ?thesis by (auto simp: audio_inv_def check_end_def intro!: exI [of _ b])
  next
    case calls_back
    then have "player_thread s = []" using assms(3) by (simp add: apart_def)
    with calls_back i show ?thesis by (auto simp: audio_inv_def intro!: exI [of _ b])
  next
    case (player_runs x "is" sl js p' cs)
    have a: "audio_thread s = []" using assms(2) player_runs(2) by (simp add: apart_def)
    from exec_inv [OF player_runs(3) i(2,4) _ i(5), of "is" "queued s"] i(6) player_runs(2) a
    show ?thesis using i(3) by (auto simp: audio_inv_def player_runs(1) after_instr_def)
  next
    case (audio_runs x "is" sl js p' cs)
    have a: "player_thread s = []" using assms(2) audio_runs(2) by (simp add: apart_def)
    from exec_inv [OF audio_runs(3) i(2,4) _ i(5), of "is" "queued s"] i(6) audio_runs(2) a
    show ?thesis using i(3) by (auto simp: audio_inv_def audio_runs(1) after_instr_def)
  qed
qed

lemma apart_run_inv: "apart_run s t \<Longrightarrow> apart s \<Longrightarrow> audio_inv s \<Longrightarrow> audio_inv t \<and> apart t"
  by (induction rule: apart_run.induct) (auto dest: audio_step_inv)

section \<open>Both threads at once\<close>

lemma exec_step:
  assumes "player_exec sl i (splayer s) = Inr (js, p', cs)" "i \<noteq> I_reset"
  shows "audio_thread s = i # is \<Longrightarrow> \<exists>t. audio_step s t \<and> splayer t = p' \<and> queued t = queued s @ enqueued cs \<and>
      produced t = produced s \<and> player_thread t = player_thread s \<and> audio_thread t = js @ is"
    "player_thread s = i # is \<Longrightarrow> \<exists>t. audio_step s t \<and> splayer t = p' \<and> queued t = queued s @ enqueued cs \<and>
      produced t = produced s \<and> audio_thread t = audio_thread s \<and> player_thread t = js @ is"
  using assms audio_step.audio_runs [of s i "is" sl js p' cs] audio_step.player_runs [of s i "is" sl js p' cs]
  by (auto simp: after_instr_def)

text \<open>
  Nothing in the file keeps the threads apart. Both enqueue the same bytes when the timer's \<^verbatim>\<open>check\<close> reads \<^verbatim>\<open>playing_\<close>
  between the callback's writing 0 into it and its own \<^verbatim>\<open>check\<close> writing the new size.
\<close>

lemma callback_races_check:
  assumes inv: "audio_inv s" and idle: "player_thread s = []" "audio_thread s = []"
    and on: "pstate (splayer s) = SL_PLAYSTATE_PLAYING" "timer_on (splayer s)"
    and more: "length (queued s) < length (produced s)"
  shows "\<exists>t bs. audio_step\<^sup>*\<^sup>* s t \<and> bs \<noteq> [] \<and> produced t = produced s \<and> queued t = queued s @ bs @ bs"
proof -
  let ?p = "splayer s" and ?sl = "\<lambda>_. True"
  obtain r b where i: "pbuffer ?p = Some r" "frame_ring r" "produced s = b @ ring_bytes r" "handed r b (queued s) (playing ?p)"
    using inv idle by (auto simp: audio_inv_def at_rest_def)
  have ok: "ring_ok r" using i(2) by (simp add: frame_ring_def)
  have h: "0 \<le> playing ?p" "nat (playing ?p) \<le> ring_used r" "queued s = b @ take (nat (playing ?p)) (ring_bytes r)"
    using i(4) by (simp_all add: handed_def)
  define r1 where "r1 = were1_ring_buffer_read_finish r (playing ?p)"
  note rf = ring_read_finish [OF ok h(1,2), folded r1_def]
  have av: "were1_ring_buffer_bytes_available r1 = int (ring_used r1)" by (rule ring_bytes_available [OF rf(1)])
  have pos: "0 < ring_used r1" using more h i(3) rf(3) by simp
  let ?k = "if int (ring_used r1) > 8192 then 8192 else int (ring_used r1)"
  obtain off n where st: "were1_ring_buffer_read_start r1 ?k = (off, n)" by (cases "were1_ring_buffer_read_start r1 ?k")
  have k: "0 \<le> ?k" "nat ?k \<le> ring_used r1" "0 < ?k" using pos by auto
  note rd = ring_read [OF rf(1) k(1,2) st] ring_read_start [OF rf(1) k(1) st]
  define bs where "bs = ring_piece r1 off (nat n)"
  have "length bs = nat n" using rd(1,2) by (simp add: bs_def)
  then have bs: "bs \<noteq> []" using rd(7) [OF k(3)] by auto
  let ?q = "?p\<lparr>pbuffer := Some r1, playing := 0\<rparr>"
  have take: "player_exec ?sl I_take ?q = Inr ([I_enqueue off n], ?q, [])"
    using av pos st by (auto simp: player_exec_def Let_def)
  have enq: "player_exec ?sl (I_enqueue off n) x = Inr ([I_playing n], x, [Enqueue off bs])" if "pbuffer x = Some r1" for x
    using that by (simp add: player_exec_def bs_def Let_def)
  define s1 where "s1 = s\<lparr>audio_thread := [I_callback]\<rparr>"
  define s2 where "s2 = s1\<lparr>player_thread := [I_check]\<rparr>"
  have go: "audio_step s s1" "audio_step s1 s2"
    using audio_step.calls_back [OF idle(2)] audio_step.main_loop [of s1 I_check] idle on by (simp_all add: s1_def s2_def)
  obtain s3 where s3: "audio_step s2 s3" "splayer s3 = ?p" "queued s3 = queued s" "produced s3 = produced s"
    "player_thread s3 = [I_check]" "audio_thread s3 = [I_finish, I_playing 0, I_check]"
    using exec_step(1) [of ?sl I_callback s2 "[I_finish, I_playing 0, I_check]" ?p "[]" "[]"] on
    by (auto simp: s1_def s2_def player_exec_def)
  obtain s4 where s4: "audio_step s3 s4" "splayer s4 = ?p\<lparr>pbuffer := Some r1\<rparr>" "queued s4 = queued s" "produced s4 = produced s"
    "player_thread s4 = [I_check]" "audio_thread s4 = [I_playing 0, I_check]"
    using exec_step(1) [of ?sl I_finish s3 "[]" "?p\<lparr>pbuffer := Some r1\<rparr>" "[]" "[I_playing 0, I_check]"] s3 i(1)
    by (auto simp: player_exec_def r1_def)
  obtain s5 where s5: "audio_step s4 s5" "splayer s5 = ?q" "queued s5 = queued s" "produced s5 = produced s"
    "player_thread s5 = [I_check]" "audio_thread s5 = [I_check]"
    using exec_step(1) [of ?sl "I_playing 0" s4 "[]" ?q "[]" "[I_check]"] s4 by (auto simp: player_exec_def)
  have check: "player_exec ?sl I_check ?q = Inr ([I_take], ?q, [])" using on by (simp add: player_exec_def)
  obtain s6 where s6: "audio_step s5 s6" "splayer s6 = ?q" "queued s6 = queued s" "produced s6 = produced s"
    "player_thread s6 = [I_check]" "audio_thread s6 = [I_take]"
    using exec_step(1) [of ?sl I_check s5 "[I_take]" ?q "[]" "[]"] s5 check by auto
  obtain s7 where s7: "audio_step s6 s7" "splayer s7 = ?q" "queued s7 = queued s" "produced s7 = produced s"
    "player_thread s7 = [I_take]" "audio_thread s7 = [I_take]"
    using exec_step(2) [of ?sl I_check s6 "[I_take]" ?q "[]" "[]"] s6 check by auto
  obtain s8 where s8: "audio_step s7 s8" "splayer s8 = ?q" "queued s8 = queued s" "produced s8 = produced s"
    "player_thread s8 = [I_take]" "audio_thread s8 = [I_enqueue off n]"
    using exec_step(1) [of ?sl I_take s7 "[I_enqueue off n]" ?q "[]" "[]"] s7 take by auto
  obtain s9 where s9: "audio_step s8 s9" "splayer s9 = ?q" "queued s9 = queued s" "produced s9 = produced s"
    "player_thread s9 = [I_enqueue off n]" "audio_thread s9 = [I_enqueue off n]"
    using exec_step(2) [of ?sl I_take s8 "[I_enqueue off n]" ?q "[]" "[]"] s8 take by auto
  obtain s10 where s10: "audio_step s9 s10" "splayer s10 = ?q" "queued s10 = queued s @ bs" "produced s10 = produced s"
    "player_thread s10 = [I_enqueue off n]"
    using exec_step(1) [of ?sl "I_enqueue off n" s9 "[I_playing n]" ?q "[Enqueue off bs]" "[]"] s9 enq [of ?q] by auto
  obtain s11 where s11: "audio_step s10 s11" "queued s11 = (queued s @ bs) @ bs" "produced s11 = produced s"
    using exec_step(2) [of ?sl "I_enqueue off n" s10 "[I_playing n]" ?q "[Enqueue off bs]" "[]"] s10 enq [of ?q] by auto
  have "audio_step\<^sup>*\<^sup>* s s11"
    using go s3(1) s4(1) s5(1) s6(1) s7(1) s8(1) s9(1) s10(1) s11(1)
    by (meson converse_rtranclp_into_rtranclp rtranclp.rtrancl_refl)
  with bs s11(2,3) show ?thesis by auto
qed

section \<open>Releasing resources\<close>

lemma sparkle_finish_ok:
  "sparkle_finish sp w =
     (sp\<lparr>sfd := if sfd sp > 0 then -1 else sfd sp, sbuffer := None,
         buffer_fd := if buffer_fd sp > 0 then -1 else buffer_fd sp\<rparr>,
      w\<lparr>trace := trace w @
        (if sfd sp > 0 then [Sys_shutdown (sfd sp), Sys_close (sfd sp)] else []) @
        (if sbuffer sp \<noteq> None then [Sys_munmap sizeof_audio_buffer] else []) @
        (if buffer_fd sp > 0 then [Sys_close (buffer_fd sp)] else [])\<rparr>)"
  by (auto simp: sparkle_finish_def sys_void_def were1_unix_socket_shutdown_def were1_tmpfile_unmap_def)

section \<open>Setting the hardware parameters\<close>

lemma set_params_ok:
  "set_params f cs = (r, asked) \<Longrightarrow>
     r = 0 \<and> asked = cs \<and> (\<forall>p \<in> set cs. f p \<ge> 0) \<or>
     r < 0 \<and> (\<exists>ps p qs. cs = ps @ p # qs \<and> asked = ps @ [p] \<and> f p = r \<and> (\<forall>q \<in> set ps. f q \<ge> 0))"
proof (induction cs arbitrary: r asked)
  case Nil
  then show ?case by simp
next
  case (Cons c cs)
  show ?case
  proof (cases "f c < 0")
    case True
    with Cons.prems show ?thesis by (auto intro!: exI [of _ "[]"])
  next
    case False
    obtain r' asked' where t: "set_params f cs = (r', asked')" by (cases "set_params f cs")
    with Cons.prems False have e: "r = r'" "asked = c # asked'" by auto
    from Cons.IH [OF t] consider "r' = 0" "asked' = cs" "\<forall>p \<in> set cs. f p \<ge> 0"
      | ps p qs where "r' < 0" "cs = ps @ p # qs" "asked' = ps @ [p]" "f p = r'" "\<forall>q \<in> set ps. f q \<ge> 0"
      by blast
    then show ?thesis
    proof cases
      case 1
      with False e show ?thesis by simp
    next
      case 2
      then have "c # cs = (c # ps) @ p # qs \<and> asked = (c # ps) @ [p] \<and> f p = r \<and> (\<forall>q \<in> set (c # ps). f q \<ge> 0)"
        using False e by simp
      moreover have "r < 0" using 2 e by simp
      ultimately show ?thesis by blast
    qed
  qed
qed

section \<open>Properties\<close>

definition initial_audio :: audio where
  "initial_audio = \<lparr>splug = \<lparr>frame_bytes = 4, sfd = 3, buffer_fd = 4,
       sbuffer = Some (were1_ring_buffer_initialize zero_buffer 65536)\<rparr>,
     splayer = \<lparr>pstate = SL_PLAYSTATE_STOPPED, playing = 0,
       pbuffer = Some (were1_ring_buffer_initialize zero_buffer 65536), timer_on = False\<rparr>,
     produced = [], queued = [], player_thread = [], audio_thread = []\<rparr>"

lemma initial_ring: "frame_ring (were1_ring_buffer_initialize zero_buffer 65536)"
  "ring_bytes (were1_ring_buffer_initialize zero_buffer 65536) = []"
  using ring_initialize_ok [of zero_buffer]
  by (simp_all add: frame_ring_def zero_buffer_def were1_ring_buffer_initialize_def)

lemma initial_audio_inv: "audio_inv initial_audio"
  using initial_ring by (simp add: audio_inv_def initial_audio_def at_rest_def handed_def)

lemma thread_inv_handed: "thread_inv is r b q p \<Longrightarrow> \<exists>n. handed r b q n"
proof (cases "is")
  case (Cons i js)
  then show "thread_inv is r b q p \<Longrightarrow> ?thesis" by (cases i) (auto simp: at_rest_def)
qed (auto simp: at_rest_def)



text \<open>
  A transfer stores whole frames: it accepts at least one frame when it is given one, at most a
  period, returns the number of frames it has stored, appends exactly their bytes behind the
  unread ones and leaves the storage of the unread ones untouched.
\<close>

theorem write_whole_frames:
  assumes "sbuffer sp = Some r" "frame_bytes sp = 4" "frame_ring r"
    and "4 * unat sz + ring_used r \<le> 65536" "4 * unat sz \<le> length (area_data area offset)"
  shows "\<exists>k r'. sparkle_write sp area offset sz = Inr (int k, sp\<lparr>sbuffer := Some r'\<rparr>) \<and>
    k \<le> unat sz \<and> (0 < unat sz \<longrightarrow> 0 < k) \<and> frame_ring r' \<and>
    ring_bytes r' = ring_bytes r @ take (4 * k) (area_data area offset) \<and>
    read_position r' = read_position r"
proof -
  obtain k r' where w: "sparkle_write sp area offset sz = Inr (int k, sp\<lparr>sbuffer := Some r'\<rparr>)"
    "k \<le> unat sz" "0 < unat sz \<longrightarrow> 0 < k" "frame_ring r'"
    "ring_bytes r' = ring_bytes r @ take (4 * k) (area_data area offset)"
    "read_position r' = read_position r"
    by (rule sparkle_write_ok [OF assms])
  show ?thesis by (intro exI conjI) (rule w)+
qed

theorem write_whole_frames_witness:
  "\<exists>k r'. sparkle_write (splug initial_audio) \<lparr>addr = [1, 2, 3, 4, 5, 6, 7, 8], first = 0, step = 32\<rparr> 1 1 =
    Inr (int k, (splug initial_audio)\<lparr>sbuffer := Some r'\<rparr>) \<and> 0 < k \<and> ring_bytes r' = take (4 * k) [5, 6, 7, 8]"
proof -
  let ?r = "were1_ring_buffer_initialize zero_buffer 65536"
  let ?a = "\<lparr>addr = [1, 2, 3, 4, 5, 6, 7, 8], first = 0, step = 32\<rparr>"
  have "ring_used ?r = 0" using arg_cong [OF initial_ring(2), of length] by simp
  then show ?thesis
    using write_whole_frames [of "splug initial_audio" ?r 1 ?a 1] initial_ring
    by (auto simp: initial_audio_def area_data_def)
qed

text \<open>
  Closing the device releases each resource it holds exactly once: the socket is shut down and
  closed, the shared memory unmapped, its file closed; a second call does nothing.
\<close>

theorem finish_releases_once:
  assumes "sfd sp \<noteq> buffer_fd sp \<or> sfd sp \<le> 0"
  shows "\<exists>sp' calls. sparkle_finish sp w = (sp', w\<lparr>trace := trace w @ calls\<rparr>) \<and> distinct calls \<and>
     set calls = (if sfd sp > 0 then {Sys_shutdown (sfd sp), Sys_close (sfd sp)} else {}) \<union>
       (if sbuffer sp \<noteq> None then {Sys_munmap sizeof_audio_buffer} else {}) \<union>
       (if buffer_fd sp > 0 then {Sys_close (buffer_fd sp)} else {}) \<and>
     sparkle_finish sp' v = (sp', v)"
  using assms by (auto simp: sparkle_finish_ok)

theorem finish_releases_once_witness:
  "\<exists>sp' calls. sparkle_finish (splug initial_audio) \<lparr>script = [], trace = [], tx = []\<rparr> = (sp', \<lparr>script = [], trace = calls, tx = []\<rparr>) \<and>
     distinct calls \<and> set calls = {Sys_shutdown 3, Sys_close 3, Sys_munmap sizeof_audio_buffer, Sys_close 4}"
proof -
  let ?w = "\<lparr>script = [], trace = [], tx = []\<rparr>"
  have i: "sfd (splug initial_audio) = 3" "buffer_fd (splug initial_audio) = 4" "sbuffer (splug initial_audio) \<noteq> None"
    by (simp_all add: initial_audio_def)
  from finish_releases_once [of "splug initial_audio" ?w ?w] obtain sp' calls where
    f: "sparkle_finish (splug initial_audio) ?w = (sp', ?w\<lparr>trace := calls\<rparr>)" "distinct calls"
      "set calls = {Sys_shutdown 3, Sys_close 3} \<union> {Sys_munmap sizeof_audio_buffer} \<union> {Sys_close 4}"
    using i by auto
  then show ?thesis by (intro exI [of _ sp'] exI [of _ calls]) auto
qed

text \<open>
  The buffer geometry the plugin asks ALSA for is that of the shared ring: when every constraint
  is accepted, eight periods of 8192 bytes make the 65536 bytes the ring is initialised with,
  and the first refusal is returned with no further request made.
\<close>

lemma hw_constraint_geometry:
  assumes "sparkle_hw_constraint set_param = (r, asked)"
  shows "(r = 0 \<and> asked = hw_constraints \<and> (\<forall>p \<in> set hw_constraints. set_param p \<ge> 0) \<or>
     r < 0 \<and> (\<exists>ps p qs. hw_constraints = ps @ p # qs \<and> asked = ps @ [p] \<and> set_param p = r \<and>
        (\<forall>q \<in> set ps. set_param q \<ge> 0))) \<and>
     HW_PERIOD_BYTES 8192 8192 \<in> set hw_constraints \<and> HW_PERIODS 8 8 \<in> set hw_constraints \<and>
     HW_BUFFER_BYTES (rsize (were1_ring_buffer_initialize zero_buffer 65536))
       (rsize (were1_ring_buffer_initialize zero_buffer 65536)) \<in> set hw_constraints"
proof (rule conjI [OF set_params_ok [OF assms [unfolded sparkle_hw_constraint_def]]])
qed (simp add: hw_constraints_def sparkle_period_size_def sparkle_periods_def sparkle_buffer_size_def
      were1_ring_buffer_initialize_def)

end
