(* ===== verification/Scanner_Data.thy ===== *)
theory Scanner_Data
  imports C_String
begin

text \<open>
  The data of the protocol scanner \<^verbatim>\<open>scanner/src/scanner.c\<close> and the small operations on it. The
  intrusive lists of a protocol's parts only ever grow at their end, by
  \<^verbatim>\<open>wl_list_insert(list.prev, elm)\<close>, and are visited in order (\<^verbatim>\<open>list_append_in_order\<close> of the
  theory on \<^verbatim>\<open>wl_list\<close>), so they are Isabelle lists here. A pointer to a part is its position in
  these lists, which never changes once the part is linked in.
\<close>

section \<open>Data\<close>

datatype side = CLIENT | SERVER

datatype visibility = PRIVATE | PUBLIC

record description =
  summary :: string
  dtext :: "string option"

text \<open>\<open>INT_T\<close> is the source's \<^verbatim>\<open>INT\<close>, a keyword of the logic.\<close>

datatype arg_type = NEW_ID | INT_T | UNSIGNED | FIXED | STRING | OBJECT | ARRAY | FD

record arg =
  aname :: string
  akind :: arg_type
  anullable :: bool
  ainterface :: "string option"
  asummary :: "string option"
  aenum :: "string option"

record message =
  mline :: nat
  mname :: string
  muppercase :: string
  arg_list :: "arg list"
  arg_count :: nat
  new_id_count :: nat
  type_index :: nat
  all_null :: bool
  destructor :: bool
  msince :: int
  mdescription :: "description option"

record entry =
  ename :: string
  euppercase :: string
  evalue :: string
  esummary :: "string option"
  esince :: int

record enumeration =
  enum_name :: string
  enum_uppercase :: string
  entry_list :: "entry list"
  enum_description :: "description option"
  bitfield :: bool
  enum_since :: int

record interface =
  iline :: nat
  name :: string
  uppercase_name :: string
  version :: int
  since :: int
  request_list :: "message list"
  event_list :: "message list"
  enumeration_list :: "enumeration list"
  idescription :: "description option"

record protocol =
  pname :: "string option"
  puppercase :: "string option"
  interface_list :: "interface list"
  ptype_index :: nat
  null_run_length :: nat
  copyright :: "string option"
  pdescription :: "description option"
  core_headers :: bool

text \<open>Pointers, as positions.\<close>

datatype message_kind = Request | Event

type_synonym interface_ptr = nat
type_synonym message_ptr = "nat \<times> message_kind \<times> nat"
type_synonym enumeration_ptr = "nat \<times> nat"

datatype description_ptr =
    Of_message message_ptr | Of_enumeration enumeration_ptr | Of_interface interface_ptr | Of_protocol

text \<open>
  The parse context. \<open>chars\<close> holds the first \<^verbatim>\<open>character_data_length\<close> characters of the buffer;
  \<open>warnings\<close> is what \<^verbatim>\<open>warn\<close> has written to the standard error.
\<close>

record parse_context =
  line_number :: nat
  protocol :: protocol
  cur_interface :: "interface_ptr option"
  cur_message :: "message_ptr option"
  cur_enumeration :: "enumeration_ptr option"
  cur_description :: "description_ptr option"
  chars :: string
  warnings :: "(nat \<times> string) list"

definition empty_protocol :: "bool \<Rightarrow> protocol" where
  "empty_protocol core = \<lparr>pname = None, puppercase = None, interface_list = [], ptype_index = 0,
     null_run_length = 0, copyright = None, pdescription = None, core_headers = core\<rparr>"

definition empty_context :: "bool \<Rightarrow> parse_context" where
  "empty_context core = \<lparr>line_number = 0, protocol = empty_protocol core, cur_interface = None,
     cur_message = None, cur_enumeration = None, cur_description = None, chars = [], warnings = []\<rparr>"

section \<open>Ways to stop\<close>

text \<open>
  \<open>Fail\<close>: the scanner reports an error at a line and exits; \<open>Too_much_data\<close> and \<open>Xml_error\<close> are
  its other exits; \<open>Crash\<close>: it dereferences a null pointer.
\<close>

datatype scan_fault = Fail nat string | Too_much_data | Xml_error | Crash

definition fail :: "parse_context \<Rightarrow> string \<Rightarrow> scan_fault + 'a" where
  "fail ctx msg = Inl (Fail (line_number ctx) msg)"

definition warn :: "parse_context \<Rightarrow> string \<Rightarrow> parse_context" where
  "warn ctx msg = ctx\<lparr>warnings := warnings ctx @ [(line_number ctx, msg)]\<rparr>"

text \<open>A pointer that the code dereferences.\<close>

definition deref :: "'p option \<Rightarrow> scan_fault + 'p" where
  "deref p = (case p of None \<Rightarrow> Inl Crash | Some x \<Rightarrow> Inr x)"

lemma deref_eq_Inr [simp, scan_simps]: "deref p = Inr x \<longleftrightarrow> p = Some x"
  by (cases p) (auto simp: deref_def)

lemma fail_not_Inr [simp, scan_simps]: "fail ctx msg \<noteq> Inr x"
  by (simp add: fail_def)

section \<open>Small operations\<close>

definition uppercase_dup :: "string \<Rightarrow> string" where
  "uppercase_dup src = map toupper src"

definition is_nullable_type :: "arg \<Rightarrow> bool" where
  "is_nullable_type a = (case akind a of STRING \<Rightarrow> True | OBJECT \<Rightarrow> True | NEW_ID \<Rightarrow> True | ARRAY \<Rightarrow> True | _ \<Rightarrow> False)"

definition create_message :: "nat \<Rightarrow> string \<Rightarrow> message" where
  "create_message loc nm = \<lparr>mline = loc, mname = nm, muppercase = uppercase_dup nm, arg_list = [],
     arg_count = 0, new_id_count = 0, type_index = 0, all_null = False, destructor = False,
     msince = 0, mdescription = None\<rparr>"

text \<open>Zeroed memory makes the type \<^verbatim>\<open>NEW_ID\<close>.\<close>

definition create_arg :: "string \<Rightarrow> arg" where
  "create_arg nm = \<lparr>aname = nm, akind = NEW_ID, anullable = False, ainterface = None,
     asummary = None, aenum = None\<rparr>"

definition set_arg_type :: "arg \<Rightarrow> string \<Rightarrow> arg option" where
  "set_arg_type a type =
     (if type = ''int'' then Some (a\<lparr>akind := INT_T\<rparr>)
      else if type = ''uint'' then Some (a\<lparr>akind := UNSIGNED\<rparr>)
      else if type = ''fixed'' then Some (a\<lparr>akind := FIXED\<rparr>)
      else if type = ''string'' then Some (a\<lparr>akind := STRING\<rparr>)
      else if type = ''array'' then Some (a\<lparr>akind := ARRAY\<rparr>)
      else if type = ''fd'' then Some (a\<lparr>akind := FD\<rparr>)
      else if type = ''new_id'' then Some (a\<lparr>akind := NEW_ID\<rparr>)
      else if type = ''object'' then Some (a\<lparr>akind := OBJECT\<rparr>)
      else None)"

definition create_enumeration :: "string \<Rightarrow> enumeration" where
  "create_enumeration nm = \<lparr>enum_name = nm, enum_uppercase = uppercase_dup nm, entry_list = [],
     enum_description = None, bitfield = False, enum_since = 1\<rparr>"

definition create_entry :: "string \<Rightarrow> string \<Rightarrow> entry" where
  "create_entry nm value = \<lparr>ename = nm, euppercase = uppercase_dup nm, evalue = value,
     esummary = None, esince = 0\<rparr>"

definition create_interface :: "nat \<Rightarrow> string \<Rightarrow> int \<Rightarrow> interface" where
  "create_interface loc nm ver = \<lparr>iline = loc, name = nm, uppercase_name = uppercase_dup nm,
     version = ver, since = 1, request_list = [], event_list = [], enumeration_list = [],
     idescription = None\<rparr>"

section \<open>Numbers\<close>

definition INT_MAX :: int where
  "INT_MAX = 2 ^ 31 - 1"

text \<open>The result and the value of \<^verbatim>\<open>errno\<close> afterwards, from its value before.\<close>

definition strtouint :: "int \<Rightarrow> string \<Rightarrow> int \<times> int" where
  "strtouint prev_errno str =
     (case strtol str of (ret, rest, erange) \<Rightarrow>
        let errno = (if erange then ERANGE else 0) in
        if errno \<noteq> 0 \<or> rest = str \<or> rest \<noteq> [] then (-1, errno)
        else if ret < 0 \<or> ret > INT_MAX then (-1, errno)
        else (ret, prev_errno))"

text \<open>No caller looks at \<^verbatim>\<open>errno\<close>.\<close>

abbreviation "to_uint s \<equiv> fst (strtouint 0 s)"

lemma strtouint_range: "-1 \<le> to_uint s" "to_uint s \<le> INT_MAX"
  by (auto simp: strtouint_def Let_def INT_MAX_def split: prod.splits)

lemma to_uint_nonneg: "to_uint s \<noteq> -1 \<Longrightarrow> 0 \<le> to_uint s"
  using strtouint_range(1) [of s] by linarith

text \<open>
  \<^verbatim>\<open>strtouint\<close> reads back every decimal number that fits an \<^verbatim>\<open>int\<close> and keeps \<^verbatim>\<open>errno\<close>; every larger
  number is refused with -1, also beyond the range of \<^verbatim>\<open>long\<close>, but then \<^verbatim>\<open>errno\<close> is left at 0 or
  \<^verbatim>\<open>ERANGE\<close> and not at its former value.
\<close>

theorem strtouint_decimal:
  "strtouint e (dec n) =
     (if int n \<le> INT_MAX then (int n, e) else if n < 2 ^ 63 then (-1, 0) else (-1, ERANGE))"
proof (cases "n < 2 ^ 63")
  case True
  then show ?thesis using dec_not_Nil [of n, symmetric] by (simp add: strtouint_def strtol_dec)
next
  case False
  then have "\<not> int n \<le> INT_MAX" by (simp add: INT_MAX_def)
  with False strtol_dec_large [of n] show ?thesis by (simp add: strtouint_def ERANGE_def)
qed

end
