(* ===== verification/Scanner_Parse.thy ===== *)
theory Scanner_Parse
  imports Scanner_Data
begin

text \<open>
  The parser of \<^verbatim>\<open>scanner/src/scanner.c\<close>: the three callbacks that expat calls for the XML
  document, and the checks they make. Expat itself is not part of the sources: the document is
  the sequence of callbacks expat makes, with the line number each start tag has.
\<close>

section \<open>Writing through pointers\<close>

definition upd :: "nat \<Rightarrow> ('a \<Rightarrow> 'a) \<Rightarrow> 'a list \<Rightarrow> 'a list" where
  "upd k f xs = (if k < length xs then xs[k := f (xs ! k)] else xs)"

lemma length_upd [simp]: "length (upd k f xs) = length xs"
  by (simp add: upd_def)

lemma nth_upd [simp]: "j < length xs \<Longrightarrow> upd k f xs ! j = (if j = k then f (xs ! k) else xs ! j)"
  by (simp add: upd_def nth_list_update)

lemma list_all_upd:
  "list_all P xs \<Longrightarrow> (k < length xs \<Longrightarrow> P (xs ! k) \<Longrightarrow> P (f (xs ! k))) \<Longrightarrow> list_all P (upd k f xs)"
  by (auto simp: list_all_length)

definition upd_interface :: "nat \<Rightarrow> (interface \<Rightarrow> interface) \<Rightarrow> parse_context \<Rightarrow> parse_context" where
  "upd_interface i f ctx =
     ctx\<lparr>protocol := (protocol ctx)\<lparr>interface_list := upd i f (interface_list (protocol ctx))\<rparr>\<rparr>"

definition upd_message :: "message_ptr \<Rightarrow> (message \<Rightarrow> message) \<Rightarrow> parse_context \<Rightarrow> parse_context" where
  "upd_message p f ctx = (case p of
     (i, Request, k) \<Rightarrow> upd_interface i (\<lambda>iface. iface\<lparr>request_list := upd k f (request_list iface)\<rparr>) ctx
   | (i, Event, k) \<Rightarrow> upd_interface i (\<lambda>iface. iface\<lparr>event_list := upd k f (event_list iface)\<rparr>) ctx)"

definition upd_enumeration :: "enumeration_ptr \<Rightarrow> (enumeration \<Rightarrow> enumeration) \<Rightarrow> parse_context \<Rightarrow> parse_context" where
  "upd_enumeration p f ctx = (case p of
     (i, k) \<Rightarrow> upd_interface i (\<lambda>iface. iface\<lparr>enumeration_list := upd k f (enumeration_list iface)\<rparr>) ctx)"

definition upd_description :: "description_ptr \<Rightarrow> (description option \<Rightarrow> description option) \<Rightarrow> parse_context \<Rightarrow> parse_context" where
  "upd_description p f ctx = (case p of
     Of_message m \<Rightarrow> upd_message m (\<lambda>m. m\<lparr>mdescription := f (mdescription m)\<rparr>) ctx
   | Of_enumeration e \<Rightarrow> upd_enumeration e (\<lambda>e. e\<lparr>enum_description := f (enum_description e)\<rparr>) ctx
   | Of_interface i \<Rightarrow> upd_interface i (\<lambda>i. i\<lparr>idescription := f (idescription i)\<rparr>) ctx
   | Of_protocol \<Rightarrow> ctx\<lparr>protocol := (protocol ctx)\<lparr>pdescription := f (pdescription (protocol ctx))\<rparr>\<rparr>)"

abbreviation get_interface :: "parse_context \<Rightarrow> nat \<Rightarrow> interface" where
  "get_interface ctx i \<equiv> interface_list (protocol ctx) ! i"

definition get_enumeration :: "parse_context \<Rightarrow> enumeration_ptr \<Rightarrow> enumeration" where
  "get_enumeration ctx p = enumeration_list (get_interface ctx (fst p)) ! snd p"

section \<open>Attributes\<close>

record attributes =
  at_name :: "string option"
  at_type :: "string option"
  at_interface :: "string option"
  at_value :: "string option"
  at_summary :: "string option"
  at_since :: "string option"
  at_allow_null :: "string option"
  at_enum :: "string option"
  at_bitfield :: "string option"
  at_version :: int

definition no_attributes :: attributes where
  "no_attributes = \<lparr>at_name = None, at_type = None, at_interface = None, at_value = None,
     at_summary = None, at_since = None, at_allow_null = None, at_enum = None, at_bitfield = None,
     at_version = 0\<rparr>"

definition read_attribute :: "parse_context \<Rightarrow> string \<times> string \<Rightarrow> attributes \<Rightarrow> scan_fault + attributes" where
  "read_attribute ctx kv as = (case kv of (k, v) \<Rightarrow>
     if k = ''name'' then Inr (as\<lparr>at_name := Some v\<rparr>)
     else if k = ''version'' then
       (if to_uint v = -1 then fail ctx (''wrong version ('' @ v @ '')'')
        else Inr (as\<lparr>at_version := to_uint v\<rparr>))
     else if k = ''type'' then Inr (as\<lparr>at_type := Some v\<rparr>)
     else if k = ''value'' then Inr (as\<lparr>at_value := Some v\<rparr>)
     else if k = ''interface'' then Inr (as\<lparr>at_interface := Some v\<rparr>)
     else if k = ''summary'' then Inr (as\<lparr>at_summary := Some v\<rparr>)
     else if k = ''since'' then Inr (as\<lparr>at_since := Some v\<rparr>)
     else if k = ''allow-null'' then Inr (as\<lparr>at_allow_null := Some v\<rparr>)
     else if k = ''enum'' then Inr (as\<lparr>at_enum := Some v\<rparr>)
     else if k = ''bitfield'' then Inr (as\<lparr>at_bitfield := Some v\<rparr>)
     else Inr as)"

definition version_from_since :: "parse_context \<Rightarrow> string option \<Rightarrow> scan_fault + int" where
  "version_from_since ctx snc = (case snc of
     Some s \<Rightarrow>
       let v = to_uint s in
       if v = -1 then fail ctx (''invalid integer ('' @ s @ '')'' @ endl)
       else ebind (deref (cur_interface ctx)) (\<lambda>i.
         if v > version (get_interface ctx i)
         then fail ctx (''since ('' @ show_int v @ '') larger than version ('' @
           show_int (version (get_interface ctx i)) @ '')'' @ endl)
         else Inr v)
   | None \<Rightarrow> Inr 1)"

section \<open>Start tags\<close>

definition start_protocol :: "attributes \<Rightarrow> parse_context \<Rightarrow> scan_fault + parse_context" where
  "start_protocol as ctx = (case at_name as of
     None \<Rightarrow> fail ctx ''no protocol name given''
   | Some nm \<Rightarrow> Inr (ctx\<lparr>protocol := (protocol ctx)\<lparr>pname := Some nm, puppercase := Some (uppercase_dup nm)\<rparr>\<rparr>))"

definition start_interface :: "attributes \<Rightarrow> parse_context \<Rightarrow> scan_fault + parse_context" where
  "start_interface as ctx = (case at_name as of
     None \<Rightarrow> fail ctx ''no interface name given''
   | Some nm \<Rightarrow>
       if at_version as = 0 then fail ctx ''no interface version given''
       else
         let is = interface_list (protocol ctx) in
         Inr (ctx\<lparr>protocol := (protocol ctx)\<lparr>interface_list :=
                is @ [create_interface (line_number ctx) nm (at_version as)]\<rparr>,
              cur_interface := Some (length is)\<rparr>))"

definition start_message :: "message_kind \<Rightarrow> attributes \<Rightarrow> parse_context \<Rightarrow> scan_fault + parse_context" where
  "start_message kind as ctx = (case at_name as of
     None \<Rightarrow> fail ctx ''no request name given''
   | Some nm \<Rightarrow>
       let m = create_message (line_number ctx) nm in
       ebind (deref (cur_interface ctx)) (\<lambda>i.
         let k = (case kind of Request \<Rightarrow> length (request_list (get_interface ctx i))
                             | Event \<Rightarrow> length (event_list (get_interface ctx i)));
             p = (i, kind, k);
             destr = (at_type as = Some ''destructor'');
             ctx = upd_interface i (\<lambda>iface. case kind of
               Request \<Rightarrow> iface\<lparr>request_list := request_list iface @ [m\<lparr>destructor := destr\<rparr>]\<rparr>
             | Event \<Rightarrow> iface\<lparr>event_list := event_list iface @ [m\<lparr>destructor := destr\<rparr>]\<rparr>) ctx
         in ebind (version_from_since ctx (at_since as)) (\<lambda>v.
              let ctx = (if v < since (get_interface ctx i)
                         then warn ctx (''since version not increasing'' @ endl) else ctx);
                  ctx = upd_interface i (\<lambda>iface. iface\<lparr>since := v\<rparr>) ctx;
                  ctx = upd_message p (\<lambda>m. m\<lparr>msince := v\<rparr>) ctx
              in if nm = ''destroy'' \<and> \<not> destr
                 then fail ctx ''destroy request should be destructor type''
                 else Inr (ctx\<lparr>cur_message := Some p\<rparr>))))"

text \<open>The \<^verbatim>\<open>switch\<close> on the type of an argument, and its \<^verbatim>\<open>allow-null\<close> attribute.\<close>

definition arg_interface :: "string \<Rightarrow> attributes \<Rightarrow> arg \<Rightarrow> parse_context \<Rightarrow> scan_fault + arg \<times> parse_context" where
  "arg_interface type as a ctx = (case akind a of
     NEW_ID \<Rightarrow> ebind (deref (cur_message ctx)) (\<lambda>p.
       Inr (a\<lparr>ainterface := at_interface as\<rparr>,
         upd_message p (\<lambda>m. m\<lparr>new_id_count := new_id_count m + 1\<rparr>) ctx))
   | OBJECT \<Rightarrow> Inr (a\<lparr>ainterface := at_interface as\<rparr>, ctx)
   | _ \<Rightarrow> if at_interface as \<noteq> None
          then fail ctx (''interface attribute not allowed for type '' @ type) else Inr (a, ctx))"

definition arg_allow_null :: "attributes \<Rightarrow> arg \<Rightarrow> parse_context \<Rightarrow> scan_fault + arg" where
  "arg_allow_null as a ctx = (case at_allow_null as of
     None \<Rightarrow> Inr a
   | Some v \<Rightarrow>
       if v = ''true'' \<or> v = ''false'' then
         (if \<not> is_nullable_type a
          then fail ctx ''allow-null is only valid for objects, strings, and arrays''
          else Inr (a\<lparr>anullable := (v = ''true'')\<rparr>))
       else fail ctx (''invalid value for allow-null attribute ('' @ v @ '')''))"

text \<open>The argument of an \<^verbatim>\<open>arg\<close> tag, up to the point where it is linked into its message.\<close>

definition arg_of_attributes :: "string \<Rightarrow> string \<Rightarrow> attributes \<Rightarrow> parse_context \<Rightarrow> scan_fault + arg \<times> parse_context" where
  "arg_of_attributes nm type as ctx = (case set_arg_type (create_arg nm) type of
     None \<Rightarrow> fail ctx (''unknown type ('' @ type @ '')'')
   | Some a \<Rightarrow>
       ebind (arg_interface type as a ctx) (\<lambda>(a, ctx).
       ebind (arg_allow_null as a ctx) (\<lambda>a.
       Inr (a\<lparr>aenum := (if at_enum as = Some [] then None else at_enum as), asummary := at_summary as\<rparr>, ctx))))"

definition start_arg :: "attributes \<Rightarrow> parse_context \<Rightarrow> scan_fault + parse_context" where
  "start_arg as ctx = (case at_name as of
     None \<Rightarrow> fail ctx ''no argument name given''
   | Some nm \<Rightarrow>
       ebind (deref (at_type as)) (\<lambda>type.
       ebind (arg_of_attributes nm type as ctx) (\<lambda>(a, ctx).
       ebind (deref (cur_message ctx)) (\<lambda>p.
         Inr (upd_message p (\<lambda>m. m\<lparr>arg_list := arg_list m @ [a], arg_count := arg_count m + 1\<rparr>) ctx)))))"

definition start_enum :: "attributes \<Rightarrow> parse_context \<Rightarrow> scan_fault + parse_context" where
  "start_enum as ctx = (case at_name as of
     None \<Rightarrow> fail ctx ''no enum name given''
   | Some nm \<Rightarrow>
       let e = create_enumeration nm in
       ebind (case at_bitfield as of
           None \<Rightarrow> Inr (e\<lparr>bitfield := False\<rparr>)
         | Some b \<Rightarrow>
             if b = ''false'' then Inr (e\<lparr>bitfield := False\<rparr>)
             else if b = ''true'' then Inr (e\<lparr>bitfield := True\<rparr>)
             else fail ctx (''invalid value ('' @ b @ '') for bitfield attribute (only true/false are accepted)''))
        (\<lambda>e. ebind (deref (cur_interface ctx)) (\<lambda>i.
          Inr ((upd_interface i (\<lambda>iface. iface\<lparr>enumeration_list := enumeration_list iface @ [e]\<rparr>) ctx)
            \<lparr>cur_enumeration := Some (i, length (enumeration_list (get_interface ctx i)))\<rparr>))))"

definition start_entry :: "attributes \<Rightarrow> parse_context \<Rightarrow> scan_fault + parse_context" where
  "start_entry as ctx = (case at_name as of
     None \<Rightarrow> fail ctx ''no entry name given''
   | Some nm \<Rightarrow>
       ebind (deref (at_value as)) (\<lambda>vl.
       ebind (version_from_since ctx (at_since as)) (\<lambda>v.
       ebind (deref (cur_enumeration ctx)) (\<lambda>p.
         let ctx = (if v < enum_since (get_enumeration ctx p)
                    then warn ctx (''since version not increasing'' @ endl) else ctx);
             en = (create_entry nm vl)\<lparr>esince := v, esummary := at_summary as\<rparr>
         in Inr (upd_enumeration p (\<lambda>e. e\<lparr>enum_since := v, entry_list := entry_list e @ [en]\<rparr>) ctx)))))"

definition start_description :: "attributes \<Rightarrow> parse_context \<Rightarrow> scan_fault + parse_context" where
  "start_description as ctx = (case at_summary as of
     None \<Rightarrow> fail ctx ''description without summary''
   | Some s \<Rightarrow>
       let p = (case cur_message ctx of
                  Some m \<Rightarrow> Of_message m
                | None \<Rightarrow> (case cur_enumeration ctx of
                    Some e \<Rightarrow> Of_enumeration e
                  | None \<Rightarrow> (case cur_interface ctx of Some i \<Rightarrow> Of_interface i | None \<Rightarrow> Of_protocol)))
       in Inr ((upd_description p (\<lambda>_. Some \<lparr>summary = s, dtext = None\<rparr>) ctx)\<lparr>cur_description := Some p\<rparr>))"

definition start_element :: "nat \<Rightarrow> string \<Rightarrow> (string \<times> string) list \<Rightarrow> parse_context \<Rightarrow> scan_fault + parse_context" where
  "start_element line element_name atts ctx =
     (let ctx = ctx\<lparr>line_number := line\<rparr> in
      ebind (efold (read_attribute ctx) atts no_attributes) (\<lambda>as.
        let ctx = ctx\<lparr>chars := []\<rparr> in
        if element_name = ''protocol'' then start_protocol as ctx
        else if element_name = ''copyright'' then Inr ctx
        else if element_name = ''interface'' then start_interface as ctx
        else if element_name = ''request'' then start_message Request as ctx
        else if element_name = ''event'' then start_message Event as ctx
        else if element_name = ''arg'' then start_arg as ctx
        else if element_name = ''enum'' then start_enum as ctx
        else if element_name = ''entry'' then start_entry as ctx
        else if element_name = ''description'' then start_description as ctx
        else Inr ctx))"

section \<open>Enumerations and end tags\<close>

text \<open>
  The last dot of an attribute \<^verbatim>\<open>interface.enum\<close> that is not its last character: the loop over \<open>j\<close>
  with \<open>j + 1 < strlen\<close>.
\<close>

definition dot_index :: "string \<Rightarrow> nat" where
  "dot_index attr = foldl (\<lambda>idx j. if attr ! j = CHR ''.'' then j else idx) 0 [0..<length attr - 1]"

definition find_enumeration :: "protocol \<Rightarrow> interface option \<Rightarrow> string \<Rightarrow> enumeration option" where
  "find_enumeration proto iface attr =
     (let idx = dot_index attr in
      if idx > 0 then
        let enm = drop (idx + 1) attr in
        find (\<lambda>e. enum_name e = enm)
          (concat (map enumeration_list (filter (\<lambda>i. strncmp_eq (name i) attr idx) (interface_list proto))))
      else case iface of
        Some i \<Rightarrow> find (\<lambda>e. enum_name e = attr) (enumeration_list i)
      | None \<Rightarrow> None)"

definition verify_argument :: "parse_context \<Rightarrow> interface \<Rightarrow> arg \<Rightarrow> unit \<Rightarrow> scan_fault + unit" where
  "verify_argument ctx iface a u = (case aenum a of
     None \<Rightarrow> Inr ()
   | Some en \<Rightarrow>
       let e = find_enumeration (protocol ctx) (Some iface) en in
       (case akind a of
          INT_T \<Rightarrow> (case e of
              Some e \<Rightarrow> if bitfield e then fail ctx ''bitfield-style enum must only be referenced by uint'' else Inr ()
            | None \<Rightarrow> Inr ())
        | UNSIGNED \<Rightarrow> Inr ()
        | _ \<Rightarrow> fail ctx ''enumeration-style argument has wrong type''))"

definition verify_arguments :: "parse_context \<Rightarrow> interface \<Rightarrow> message list \<Rightarrow> unit \<Rightarrow> scan_fault + unit" where
  "verify_arguments ctx iface messages u =
     efold (\<lambda>m. efold (verify_argument ctx iface) (arg_list m)) messages u"

text \<open>\<^verbatim>\<open>strndup\<close> stops at a zero character.\<close>

definition strndup :: "string \<Rightarrow> string" where
  "strndup s = takeWhile (\<lambda>c. c \<noteq> NUL) s"

definition end_element :: "string \<Rightarrow> parse_context \<Rightarrow> scan_fault + parse_context" where
  "end_element nm ctx =
     (if nm = ''copyright'' then
        Inr (ctx\<lparr>protocol := (protocol ctx)\<lparr>copyright := Some (strndup (chars ctx))\<rparr>\<rparr>)
      else if nm = ''description'' then
        ebind (deref (cur_description ctx)) (\<lambda>p.
          Inr ((upd_description p (map_option (\<lambda>d. d\<lparr>dtext := Some (strndup (chars ctx))\<rparr>)) ctx)
            \<lparr>cur_description := None\<rparr>))
      else if nm = ''request'' \<or> nm = ''event'' then Inr (ctx\<lparr>cur_message := None\<rparr>)
      else if nm = ''enum'' then
        ebind (deref (cur_enumeration ctx)) (\<lambda>p.
          if entry_list (get_enumeration ctx p) = []
          then fail ctx (''enumeration '' @ enum_name (get_enumeration ctx p) @ '' was empty'')
          else Inr (ctx\<lparr>cur_enumeration := None\<rparr>))
      else if nm = ''protocol'' then
        ebind (efold (\<lambda>i u. ebind (verify_arguments ctx i (request_list i) u)
                 (verify_arguments ctx i (event_list i))) (interface_list (protocol ctx)) ())
          (\<lambda>u. Inr ctx)
      else Inr ctx)"

definition character_data :: "string \<Rightarrow> parse_context \<Rightarrow> scan_fault + parse_context" where
  "character_data s ctx =
     (if length (chars ctx) + length s > 8192 then Inl Too_much_data
      else Inr (ctx\<lparr>chars := chars ctx @ s\<rparr>))"

section \<open>The document\<close>

datatype xml_event = Start nat string "(string \<times> string) list" | End string | Text string

fun handle :: "xml_event \<Rightarrow> parse_context \<Rightarrow> scan_fault + parse_context" where
  "handle (Start line nm atts) ctx = start_element line nm atts ctx"
| "handle (End nm) ctx = end_element nm ctx"
| "handle (Text s) ctx = character_data s ctx"

text \<open>
  The reading loop: each block read from the file makes expat call some handlers and report
  whether the document is still well-formed.
\<close>

fun parse_blocks :: "(xml_event list \<times> bool) list \<Rightarrow> parse_context \<Rightarrow> scan_fault + parse_context" where
  "parse_blocks [] ctx = Inr ctx"
| "parse_blocks ((evs, ok) # bs) ctx =
     ebind (efold handle evs ctx) (\<lambda>ctx. if ok then parse_blocks bs ctx else Inl Xml_error)"

section \<open>Well-formed protocols\<close>

definition wf_arg :: "arg \<Rightarrow> bool" where
  "wf_arg a \<longleftrightarrow> (anullable a \<longrightarrow> is_nullable_type a) \<and>
     (ainterface a \<noteq> None \<longrightarrow> akind a \<in> {NEW_ID, OBJECT}) \<and> aenum a \<noteq> Some []"

definition wf_message :: "int \<Rightarrow> message \<Rightarrow> bool" where
  "wf_message v m \<longleftrightarrow> list_all wf_arg (arg_list m) \<and> arg_count m = length (arg_list m) \<and>
     new_id_count m = length (filter (\<lambda>a. akind a = NEW_ID) (arg_list m)) \<and>
     0 \<le> msince m \<and> msince m \<le> v \<and> (mname m = ''destroy'' \<longrightarrow> destructor m) \<and>
     muppercase m = uppercase_dup (mname m)"

definition wf_entry :: "entry \<Rightarrow> bool" where
  "wf_entry e \<longleftrightarrow> 0 \<le> esince e \<and> euppercase e = uppercase_dup (ename e)"

definition wf_enumeration :: "enumeration \<Rightarrow> bool" where
  "wf_enumeration e \<longleftrightarrow> list_all wf_entry (entry_list e) \<and> enum_uppercase e = uppercase_dup (enum_name e)"

definition wf_interface :: "interface \<Rightarrow> bool" where
  "wf_interface i \<longleftrightarrow> 0 < version i \<and> version i \<le> INT_MAX \<and> uppercase_name i = uppercase_dup (name i) \<and>
     list_all (wf_message (version i)) (request_list i) \<and> list_all (wf_message (version i)) (event_list i) \<and>
     list_all wf_enumeration (enumeration_list i)"

definition wf_protocol :: "protocol \<Rightarrow> bool" where
  "wf_protocol p \<longleftrightarrow> list_all wf_interface (interface_list p) \<and> ptype_index p = 0 \<and> null_run_length p = 0"

fun messages :: "message_kind \<Rightarrow> interface \<Rightarrow> message list" where
  "messages Request i = request_list i"
| "messages Event i = event_list i"

definition valid_interface :: "parse_context \<Rightarrow> nat \<Rightarrow> bool" where
  "valid_interface ctx i \<longleftrightarrow> i < length (interface_list (protocol ctx))"

definition valid_message :: "parse_context \<Rightarrow> message_ptr \<Rightarrow> bool" where
  "valid_message ctx p = (case p of (i, kind, k) \<Rightarrow>
     valid_interface ctx i \<and> k < length (messages kind (get_interface ctx i)))"

definition valid_enumeration :: "parse_context \<Rightarrow> enumeration_ptr \<Rightarrow> bool" where
  "valid_enumeration ctx p = (case p of (i, k) \<Rightarrow>
     valid_interface ctx i \<and> k < length (enumeration_list (get_interface ctx i)))"

fun valid_description :: "parse_context \<Rightarrow> description_ptr \<Rightarrow> bool" where
  "valid_description ctx (Of_message p) = valid_message ctx p"
| "valid_description ctx (Of_enumeration p) = valid_enumeration ctx p"
| "valid_description ctx (Of_interface i) = valid_interface ctx i"
| "valid_description ctx Of_protocol = True"

definition pointers_ok :: "parse_context \<Rightarrow> bool" where
  "pointers_ok ctx \<longleftrightarrow> pred_option (valid_interface ctx) (cur_interface ctx) \<and>
     pred_option (valid_message ctx) (cur_message ctx) \<and>
     pred_option (valid_enumeration ctx) (cur_enumeration ctx) \<and>
     pred_option (valid_description ctx) (cur_description ctx)"

definition context_ok :: "parse_context \<Rightarrow> bool" where
  "context_ok ctx \<longleftrightarrow> wf_protocol (protocol ctx) \<and> pointers_ok ctx \<and> length (chars ctx) \<le> 8192"

subsection \<open>Writing keeps pointers valid\<close>

definition extends :: "interface \<Rightarrow> interface \<Rightarrow> bool" where
  "extends x y \<longleftrightarrow> (\<forall>kind. length (messages kind x) \<le> length (messages kind y)) \<and>
     length (enumeration_list x) \<le> length (enumeration_list y)"

definition grown :: "parse_context \<Rightarrow> parse_context \<Rightarrow> bool" where
  "grown ctx ctx' \<longleftrightarrow> (\<forall>p. valid_interface ctx p \<longrightarrow> valid_interface ctx' p) \<and>
     (\<forall>p. valid_message ctx p \<longrightarrow> valid_message ctx' p) \<and>
     (\<forall>p. valid_enumeration ctx p \<longrightarrow> valid_enumeration ctx' p) \<and>
     (\<forall>p. valid_description ctx p \<longrightarrow> valid_description ctx' p)"

lemma all_kinds: "(\<forall>kind. P kind) \<longleftrightarrow> P Request \<and> P Event"
  by (metis message_kind.exhaust)

lemma grown_interfaces:
  assumes "length (interface_list (protocol ctx)) \<le> length (interface_list (protocol ctx'))"
    and "\<And>i. i < length (interface_list (protocol ctx)) \<Longrightarrow> extends (get_interface ctx i) (get_interface ctx' i)"
  shows "grown ctx ctx'"
proof -
  have i: "valid_interface ctx p \<Longrightarrow> valid_interface ctx' p" for p
    using assms(1) by (simp add: valid_interface_def)
  have m: "valid_message ctx p \<Longrightarrow> valid_message ctx' p" for p
    using i assms(2) unfolding valid_message_def extends_def valid_interface_def
    by (cases p) (auto intro: less_le_trans)
  have e: "valid_enumeration ctx p \<Longrightarrow> valid_enumeration ctx' p" for p
    using i assms(2) unfolding valid_enumeration_def extends_def valid_interface_def
    by (cases p) (auto intro: less_le_trans)
  have "valid_description ctx p \<Longrightarrow> valid_description ctx' p" for p
    using i m e by (cases p) auto
  with i m e show ?thesis by (simp add: grown_def)
qed

lemma grown_pointers:
  "grown ctx ctx' \<Longrightarrow> pointers_ok ctx \<Longrightarrow> cur_interface ctx' = cur_interface ctx \<Longrightarrow>
   cur_message ctx' = cur_message ctx \<Longrightarrow> cur_enumeration ctx' = cur_enumeration ctx \<Longrightarrow>
   cur_description ctx' = cur_description ctx \<Longrightarrow> pointers_ok ctx'"
  by (auto simp: grown_def pointers_ok_def pred_option_def split: option.splits)

lemma upd_interface_simps [simp]:
  "length (interface_list (protocol (upd_interface i f ctx))) = length (interface_list (protocol ctx))"
  "cur_interface (upd_interface i f ctx) = cur_interface ctx"
  "cur_message (upd_interface i f ctx) = cur_message ctx"
  "cur_enumeration (upd_interface i f ctx) = cur_enumeration ctx"
  "cur_description (upd_interface i f ctx) = cur_description ctx"
  "chars (upd_interface i f ctx) = chars ctx"
  "line_number (upd_interface i f ctx) = line_number ctx"
  by (simp_all add: upd_interface_def)

lemma get_upd_interface:
  "valid_interface ctx j \<Longrightarrow>
   get_interface (upd_interface i f ctx) j = (if j = i then f (get_interface ctx i) else get_interface ctx j)"
  by (simp add: upd_interface_def valid_interface_def)

lemma extends_refl [simp]: "extends x x"
  by (simp add: extends_def)

lemma upd_interface_grown:
  assumes "valid_interface ctx i \<Longrightarrow> extends (get_interface ctx i) (f (get_interface ctx i))"
  shows "grown ctx (upd_interface i f ctx)"
  using assms by (intro grown_interfaces) (auto simp: get_upd_interface valid_interface_def)

lemma upd_interface_ok:
  assumes "context_ok ctx"
    and "valid_interface ctx i \<Longrightarrow> wf_interface (get_interface ctx i) \<Longrightarrow> wf_interface (f (get_interface ctx i))"
    and "valid_interface ctx i \<Longrightarrow> extends (get_interface ctx i) (f (get_interface ctx i))"
  shows "context_ok (upd_interface i f ctx)"
proof -
  have "wf_protocol (protocol (upd_interface i f ctx))"
    using assms(1,2) by (auto simp: context_ok_def wf_protocol_def upd_interface_def valid_interface_def intro!: list_all_upd)
  moreover have "pointers_ok (upd_interface i f ctx)"
    using upd_interface_grown [of ctx i f, OF assms(3)] assms(1) by (auto simp: context_ok_def intro: grown_pointers)
  ultimately show ?thesis using assms(1) by (simp add: context_ok_def)
qed

lemma upd_message_ok:
  assumes "context_ok ctx"
    and "\<And>m. wf_message (version (get_interface ctx (fst p))) m \<Longrightarrow>
      wf_message (version (get_interface ctx (fst p))) (f m)"
  shows "context_ok (upd_message p f ctx)"
proof -
  obtain i kind k where p: "p = (i, kind, k)" by (cases p)
  show ?thesis
    using assms unfolding p upd_message_def
    by (cases kind) (auto intro!: upd_interface_ok list_all_upd simp: wf_interface_def extends_def all_kinds)
qed

lemma upd_message_simps [simp]:
  "length (interface_list (protocol (upd_message p f ctx))) = length (interface_list (protocol ctx))"
  "cur_interface (upd_message p f ctx) = cur_interface ctx"
  "cur_message (upd_message p f ctx) = cur_message ctx"
  "cur_enumeration (upd_message p f ctx) = cur_enumeration ctx"
  "cur_description (upd_message p f ctx) = cur_description ctx"
  "chars (upd_message p f ctx) = chars ctx"
  "line_number (upd_message p f ctx) = line_number ctx"
  by (simp_all add: upd_message_def split: prod.splits message_kind.splits)

lemma upd_message_compose: "upd_message p f (upd_message p g ctx) = upd_message p (\<lambda>m. f (g m)) ctx"
  by (cases p) (auto simp: upd_message_def upd_interface_def upd_def split: message_kind.splits)

lemma upd_enumeration_ok:
  assumes "context_ok ctx" "\<And>e. wf_enumeration e \<Longrightarrow> wf_enumeration (f e)"
  shows "context_ok (upd_enumeration p f ctx)"
  using assms unfolding upd_enumeration_def
  by (cases p) (auto intro!: upd_interface_ok list_all_upd simp: wf_interface_def extends_def all_kinds)

lemma upd_description_ok:
  assumes "context_ok ctx"
  shows "context_ok (upd_description p f ctx)"
proof (cases p)
  case (Of_message m)
  with assms show ?thesis by (auto simp: upd_description_def wf_message_def intro!: upd_message_ok)
next
  case (Of_enumeration e)
  with assms show ?thesis by (auto simp: upd_description_def wf_enumeration_def intro!: upd_enumeration_ok)
next
  case (Of_interface i)
  with assms show ?thesis
    by (auto simp: upd_description_def wf_interface_def extends_def all_kinds intro!: upd_interface_ok)
next
  case Of_protocol
  have "grown ctx (upd_description p f ctx)"
    by (intro grown_interfaces) (simp_all add: Of_protocol upd_description_def)
  with assms show ?thesis
    by (auto simp: context_ok_def Of_protocol upd_description_def wf_protocol_def intro: grown_pointers)
qed

text \<open>Validity depends on the protocol only.\<close>

lemma valid_protocol:
  assumes "protocol ctx' = protocol ctx"
  shows "valid_interface ctx' = valid_interface ctx" "valid_message ctx' = valid_message ctx"
    "valid_enumeration ctx' = valid_enumeration ctx" "valid_description ctx' = valid_description ctx"
proof -
  show i: "valid_interface ctx' = valid_interface ctx"
    using assms by (simp add: valid_interface_def fun_eq_iff)
  show m: "valid_message ctx' = valid_message ctx" and e: "valid_enumeration ctx' = valid_enumeration ctx"
    using assms i by (simp_all add: valid_message_def valid_enumeration_def fun_eq_iff)
  have "valid_description ctx' p = valid_description ctx p" for p
    using i m e by (cases p) simp_all
  then show "valid_description ctx' = valid_description ctx" by auto
qed

lemma context_ok_same:
  assumes "context_ok ctx" "protocol ctx' = protocol ctx" "length (chars ctx') \<le> 8192"
    and "pred_option (valid_interface ctx) (cur_interface ctx')"
    and "pred_option (valid_message ctx) (cur_message ctx')"
    and "pred_option (valid_enumeration ctx) (cur_enumeration ctx')"
    and "pred_option (valid_description ctx) (cur_description ctx')"
  shows "context_ok ctx'"
  using assms valid_protocol [OF assms(2)] by (simp add: context_ok_def pointers_ok_def)

lemma context_okD:
  assumes "context_ok ctx"
  shows "pred_option (valid_interface ctx) (cur_interface ctx)"
    "pred_option (valid_message ctx) (cur_message ctx)"
    "pred_option (valid_enumeration ctx) (cur_enumeration ctx)"
    "pred_option (valid_description ctx) (cur_description ctx)"
    "length (chars ctx) \<le> 8192" "wf_protocol (protocol ctx)"
  using assms by (simp_all add: context_ok_def pointers_ok_def)

lemma context_ok_update [simp]:
  "context_ok ctx \<Longrightarrow> context_ok (ctx\<lparr>warnings := ws\<rparr>)"
  "context_ok ctx \<Longrightarrow> context_ok (ctx\<lparr>line_number := n\<rparr>)"
  "context_ok ctx \<Longrightarrow> length cs \<le> 8192 \<Longrightarrow> context_ok (ctx\<lparr>chars := cs\<rparr>)"
  "context_ok ctx \<Longrightarrow> pred_option (valid_interface ctx) pi \<Longrightarrow> context_ok (ctx\<lparr>cur_interface := pi\<rparr>)"
  "context_ok ctx \<Longrightarrow> pred_option (valid_message ctx) pm \<Longrightarrow> context_ok (ctx\<lparr>cur_message := pm\<rparr>)"
  "context_ok ctx \<Longrightarrow> pred_option (valid_enumeration ctx) pe \<Longrightarrow> context_ok (ctx\<lparr>cur_enumeration := pe\<rparr>)"
  "context_ok ctx \<Longrightarrow> pred_option (valid_description ctx) pd \<Longrightarrow> context_ok (ctx\<lparr>cur_description := pd\<rparr>)"
  by (rule context_ok_same [of ctx]; simp add: context_okD)+

lemma context_ok_protocol:
  assumes "context_ok ctx" "interface_list p = interface_list (protocol ctx)"
    and "ptype_index p = ptype_index (protocol ctx)" "null_run_length p = null_run_length (protocol ctx)"
  shows "context_ok (ctx\<lparr>protocol := p\<rparr>)"
proof -
  have "grown ctx (ctx\<lparr>protocol := p\<rparr>)" using assms(2) by (intro grown_interfaces) simp_all
  with assms show ?thesis by (auto simp: context_ok_def wf_protocol_def intro: grown_pointers)
qed

subsection \<open>The handlers keep the invariant\<close>

lemma version_from_since_ok:
  assumes "context_ok ctx" "version_from_since ctx s = Inr v" "cur_interface ctx = Some i"
  shows "0 \<le> v" "v \<le> version (get_interface ctx i)"
proof -
  have "0 < version (get_interface ctx i)"
    using assms(1,3) context_okD(1,6) [OF assms(1)]
    by (auto simp: wf_protocol_def list_all_length wf_interface_def valid_interface_def)
  moreover have "0 \<le> to_uint w" if "to_uint w \<noteq> -1" for w using to_uint_nonneg [OF that] .
  ultimately show "0 \<le> v" "v \<le> version (get_interface ctx i)"
    using assms(2,3) by (auto simp: version_from_since_def Let_def deref_def split: option.splits if_splits)
qed

lemma read_attributes_version:
  assumes "efold (read_attribute ctx) atts no_attributes = Inr as"
  shows "0 \<le> at_version as" "at_version as \<le> INT_MAX"
proof -
  have "0 \<le> at_version as \<and> at_version as \<le> INT_MAX"
  proof (rule efold_invariant [where P = "\<lambda>as. 0 \<le> at_version as \<and> at_version as \<le> INT_MAX", OF _ _ assms])
    show "0 \<le> at_version no_attributes \<and> at_version no_attributes \<le> INT_MAX"
      by (simp add: no_attributes_def INT_MAX_def)
  qed (auto simp: read_attribute_def to_uint_nonneg strtouint_range split: prod.splits if_splits)
  then show "0 \<le> at_version as" "at_version as \<le> INT_MAX" by auto
qed

lemma start_protocol_ok: "context_ok ctx \<Longrightarrow> start_protocol as ctx = Inr ctx' \<Longrightarrow> context_ok ctx'"
  by (auto simp: start_protocol_def split: option.splits intro!: context_ok_protocol)

lemma start_interface_ok:
  assumes "context_ok ctx" "0 \<le> at_version as" "at_version as \<le> INT_MAX"
    and "start_interface as ctx = Inr ctx'"
  shows "context_ok ctx'"
proof -
  obtain nm where nm: "at_name as = Some nm" "at_version as \<noteq> 0"
    using assms(4) by (auto simp: start_interface_def split: option.splits if_splits)
  let ?is = "interface_list (protocol ctx) @ [create_interface (line_number ctx) nm (at_version as)]"
  let ?c = "ctx\<lparr>protocol := (protocol ctx)\<lparr>interface_list := ?is\<rparr>\<rparr>"
  have ctx': "ctx' = ?c\<lparr>cur_interface := Some (length (interface_list (protocol ctx)))\<rparr>"
    using assms(4) nm by (simp add: start_interface_def Let_def)
  have "grown ctx ?c" by (intro grown_interfaces) (simp_all add: nth_append)
  moreover have "wf_protocol (protocol ?c)"
    using assms(1-3) nm(2) by (simp add: context_ok_def wf_protocol_def wf_interface_def create_interface_def)
  ultimately have "context_ok ?c"
    using assms(1) by (auto simp: context_ok_def intro: grown_pointers)
  then show ?thesis unfolding ctx' by (auto simp: valid_interface_def)
qed

lemma get_upd_message_interface:
  "valid_interface ctx j \<Longrightarrow> version (get_interface (upd_message p f ctx) j) = version (get_interface ctx j)"
  by (cases p) (auto simp: upd_message_def get_upd_interface split: message_kind.splits)

lemma start_message_ok:
  assumes ok: "context_ok ctx" and run: "start_message kind as ctx = Inr ctx'"
  shows "context_ok ctx'"
proof -
  obtain nm i where nm: "at_name as = Some nm" and i: "cur_interface ctx = Some i"
    using run by (auto simp: start_message_def ebind_eq_Inr Let_def split: option.splits)
  have vi: "valid_interface ctx i" using context_okD(1) [OF ok] i by simp
  define d where "d = (at_type as = Some ''destructor'')"
  define m where "m = (create_message (line_number ctx) nm)\<lparr>destructor := d\<rparr>"
  define k where "k = length (messages kind (get_interface ctx i))"
  define add :: "interface \<Rightarrow> interface" where "add = (\<lambda>iface. case kind of
      Request \<Rightarrow> iface\<lparr>request_list := request_list iface @ [m]\<rparr>
    | Event \<Rightarrow> iface\<lparr>event_list := event_list iface @ [m]\<rparr>)"
  define c1 where "c1 = upd_interface i add ctx"
  have k': "(case kind of Request \<Rightarrow> length (request_list (get_interface ctx i))
      | Event \<Rightarrow> length (event_list (get_interface ctx i))) = k"
    by (cases kind) (simp_all add: k_def)
  from run obtain v where v: "version_from_since c1 (at_since as) = Inr v"
    and nd: "\<not> (nm = ''destroy'' \<and> \<not> d)"
    and ctx': "ctx' = (upd_message (i, kind, k) (\<lambda>m. m\<lparr>msince := v\<rparr>)
        (upd_interface i (\<lambda>iface. iface\<lparr>since := v\<rparr>)
          (if v < since (get_interface c1 i) then warn c1 (''since version not increasing'' @ endl) else c1)))
        \<lparr>cur_message := Some (i, kind, k)\<rparr>"
    unfolding start_message_def nm i deref_def option.case ebind_Inr Let_def k' ebind_eq_Inr c1_def add_def m_def d_def
    by (auto split: if_splits)
  have w: "0 < version (get_interface ctx i)"
    using context_okD(6) [OF ok] vi by (auto simp: wf_protocol_def list_all_length valid_interface_def wf_interface_def)
  have "context_ok c1"
    unfolding c1_def
  proof (rule upd_interface_ok [OF ok])
    show "wf_interface (get_interface ctx i) \<Longrightarrow> wf_interface (add (get_interface ctx i))"
      using nd w by (cases kind) (auto simp: add_def wf_interface_def wf_message_def m_def create_message_def)
    show "extends (get_interface ctx i) (add (get_interface ctx i))"
      by (cases kind) (auto simp: add_def extends_def all_kinds)
  qed
  moreover have g1: "get_interface c1 i = add (get_interface ctx i)" "valid_interface c1 i"
    using vi by (simp_all add: c1_def get_upd_interface valid_interface_def)
  moreover have "version (add x) = version x" for x by (cases kind) (simp_all add: add_def)
  moreover have "cur_interface c1 = Some i" by (simp add: c1_def i)
  ultimately have vb: "0 \<le> v" "v \<le> version (get_interface c1 i)"
    using version_from_since_ok [OF _ v] by auto
  define c2 where "c2 = (if v < since (get_interface c1 i) then warn c1 (''since version not increasing'' @ endl) else c1)"
  have p2: "protocol c2 = protocol c1" "context_ok c2"
    using \<open>context_ok c1\<close> by (auto simp: c2_def warn_def)
  define c3 where "c3 = upd_interface i (\<lambda>iface. iface\<lparr>since := v\<rparr>) c2"
  have v2: "valid_interface c2 i" using g1(2) p2(1) by (simp add: valid_interface_def)
  have ok3: "context_ok c3"
    unfolding c3_def by (rule upd_interface_ok [OF p2(2)]) (simp_all add: wf_interface_def extends_def all_kinds)
  have g3: "get_interface c3 i = (get_interface c1 i)\<lparr>since := v\<rparr>" "valid_interface c3 i"
    using v2 p2(1) by (simp_all add: c3_def get_upd_interface valid_interface_def)
  have "context_ok (upd_message (i, kind, k) (\<lambda>m. m\<lparr>msince := v\<rparr>) c3)"
    by (rule upd_message_ok [OF ok3]) (use vb g3 in \<open>auto simp: wf_message_def\<close>)
  moreover have "valid_message (upd_message (i, kind, k) (\<lambda>m. m\<lparr>msince := v\<rparr>) c3) (i, kind, k)"
  proof -
    have "k < length (messages kind (get_interface c3 i))"
      using g1(1) by (cases kind) (auto simp: g3(1) add_def k_def)
    then show ?thesis
      using g3(2) by (cases kind) (auto simp: valid_message_def upd_message_def get_upd_interface valid_interface_def)
  qed
  ultimately show ?thesis unfolding ctx' c2_def [symmetric] c3_def [symmetric] by simp
qed

definition count_new_id :: "arg \<Rightarrow> message_ptr \<Rightarrow> parse_context \<Rightarrow> parse_context" where
  "count_new_id a p ctx =
     (if akind a = NEW_ID then upd_message p (\<lambda>m. m\<lparr>new_id_count := new_id_count m + 1\<rparr>) ctx else ctx)"

lemma set_arg_type_fresh:
  "set_arg_type (create_arg nm) type = Some a \<Longrightarrow>
   \<not> anullable a \<and> ainterface a = None \<and> aenum a = None \<and> aname a = nm"
  by (auto simp: set_arg_type_def create_arg_def split: if_splits)

lemma arg_interface_ok:
  assumes "arg_interface type as a ctx = Inr (b, ctx')" "ainterface a = None"
  shows "anullable b = anullable a" "akind b = akind a" "aenum b = aenum a"
    "ainterface b \<noteq> None \<longrightarrow> akind b \<in> {NEW_ID, OBJECT}"
    "cur_message ctx' = cur_message ctx" "cur_message ctx = Some p \<Longrightarrow> ctx' = count_new_id a p ctx"
  using assms by (auto simp: arg_interface_def ebind_eq_Inr count_new_id_def split: arg_type.splits if_splits)

lemma arg_allow_null_ok:
  assumes "arg_allow_null as a ctx = Inr b" "\<not> anullable a"
  shows "anullable b \<longrightarrow> is_nullable_type b" "akind b = akind a" "ainterface b = ainterface a" "aenum b = aenum a"
  using assms by (auto simp: arg_allow_null_def is_nullable_type_def split: option.splits if_splits)

lemma arg_of_attributes_ok:
  assumes "arg_of_attributes nm type as ctx = Inr (a, ctx')"
  shows "wf_arg a" "cur_message ctx' = cur_message ctx"
    "cur_message ctx = Some p \<Longrightarrow> ctx' = count_new_id a p ctx"
proof -
  obtain a0 a1 a2 where r: "set_arg_type (create_arg nm) type = Some a0"
    "arg_interface type as a0 ctx = Inr (a1, ctx')" "arg_allow_null as a1 ctx' = Inr a2"
    "a = a2\<lparr>aenum := (if at_enum as = Some [] then None else at_enum as), asummary := at_summary as\<rparr>"
    using assms by (auto simp: arg_of_attributes_def ebind_eq_Inr split: option.splits)
  note f = set_arg_type_fresh [OF r(1)]
  have i: "ainterface a0 = None" using f by simp
  note i = arg_interface_ok [OF r(2) i]
  have "\<not> anullable a1" using i(1) f by simp
  note n = arg_allow_null_ok [OF r(3) this]
  have k: "akind a = akind a0" "ainterface a = ainterface a1" "anullable a = anullable a2"
    using r(4) i n by auto
  show "wf_arg a"
    using i n k r(4) by (auto simp: wf_arg_def is_nullable_type_def)
  show "cur_message ctx' = cur_message ctx" by (rule i(5))
  show "ctx' = count_new_id a p ctx" if "cur_message ctx = Some p"
    using i(6) [OF that] k by (simp add: count_new_id_def)
qed

lemma start_arg_ok:
  assumes ok: "context_ok ctx" and run: "start_arg as ctx = Inr ctx'"
  shows "context_ok ctx'"
proof -
  obtain nm type a c1 p where r: "arg_of_attributes nm type as ctx = Inr (a, c1)" "cur_message c1 = Some p"
    "ctx' = upd_message p (\<lambda>m. m\<lparr>arg_list := arg_list m @ [a], arg_count := arg_count m + 1\<rparr>) c1"
    using run by (auto simp: start_arg_def ebind_eq_Inr split: option.splits prod.splits)
  note a = arg_of_attributes_ok [OF r(1)]
  have "c1 = count_new_id a p ctx" using a(2,3) r(2) by simp
  then have "ctx' = upd_message p (\<lambda>m. m\<lparr>new_id_count := new_id_count m + (if akind a = NEW_ID then 1 else 0),
      arg_list := arg_list m @ [a], arg_count := arg_count m + 1\<rparr>) ctx"
    by (simp add: r(3) count_new_id_def upd_message_compose)
  then show ?thesis using a(1) by (auto intro!: upd_message_ok [OF ok] simp: wf_message_def)
qed

lemma start_enum_ok:
  assumes ok: "context_ok ctx" and run: "start_enum as ctx = Inr ctx'"
  shows "context_ok ctx'"
proof -
  obtain nm b i where r: "cur_interface ctx = Some i"
    "ctx' = (upd_interface i (\<lambda>iface. iface\<lparr>enumeration_list := enumeration_list iface @
        [(create_enumeration nm)\<lparr>bitfield := b\<rparr>]\<rparr>) ctx)
      \<lparr>cur_enumeration := Some (i, length (enumeration_list (get_interface ctx i)))\<rparr>"
    using run by (auto simp: start_enum_def ebind_eq_Inr Let_def split: option.splits if_splits)
  have vi: "valid_interface ctx i" using context_okD(1) [OF ok] r(1) by simp
  show ?thesis
    unfolding r(2)
    by (rule context_ok_update, rule upd_interface_ok [OF ok])
      (use vi in \<open>auto simp: wf_interface_def wf_enumeration_def create_enumeration_def extends_def all_kinds
        valid_enumeration_def get_upd_interface valid_interface_def\<close>)
qed

lemma start_entry_ok:
  assumes ok: "context_ok ctx" and run: "start_entry as ctx = Inr ctx'"
  shows "context_ok ctx'"
proof -
  obtain nm vl v p where v: "version_from_since ctx (at_since as) = Inr v"
    and r: "ctx' = upd_enumeration p (\<lambda>e. e\<lparr>enum_since := v,
       entry_list := entry_list e @ [(create_entry nm vl)\<lparr>esince := v, esummary := at_summary as\<rparr>]\<rparr>)
       (if v < enum_since (get_enumeration ctx p) then warn ctx (''since version not increasing'' @ endl) else ctx)"
    using run by (auto simp: start_entry_def ebind_eq_Inr Let_def split: option.splits)
  have "0 \<le> v"
    using v to_uint_nonneg by (auto simp: version_from_since_def Let_def ebind_eq_Inr split: option.splits if_splits)
  then show ?thesis
    unfolding r using ok
    by (intro upd_enumeration_ok) (auto simp: warn_def wf_enumeration_def wf_entry_def create_entry_def)
qed

lemma upd_description_grown: "grown ctx (upd_description p f ctx)"
proof (cases p)
  case (Of_message m)
  then show ?thesis
    by (cases m) (auto simp: upd_description_def upd_message_def extends_def all_kinds
      split: message_kind.splits intro!: upd_interface_grown)
next
  case (Of_enumeration e)
  then show ?thesis
    by (cases e) (auto simp: upd_description_def upd_enumeration_def extends_def all_kinds intro!: upd_interface_grown)
next
  case (Of_interface i)
  then show ?thesis by (auto simp: upd_description_def extends_def all_kinds intro!: upd_interface_grown)
next
  case Of_protocol
  then show ?thesis by (auto simp: upd_description_def intro!: grown_interfaces)
qed

lemma start_description_ok:
  assumes ok: "context_ok ctx" and run: "start_description as ctx = Inr ctx'"
  shows "context_ok ctx'"
proof -
  obtain p f where r: "ctx' = (upd_description p f ctx)\<lparr>cur_description := Some p\<rparr>" "valid_description ctx p"
    using run context_okD(1-3) [OF ok] by (auto simp: start_description_def Let_def split: option.splits)
  then show ?thesis
    using upd_description_ok [OF ok, of p f] upd_description_grown [of ctx p f] by (auto simp: grown_def)
qed

lemma start_element_ok:
  assumes ok: "context_ok ctx" and run: "start_element line nm atts ctx = Inr ctx'"
  shows "context_ok ctx'"
proof -
  let ?c = "ctx\<lparr>line_number := line\<rparr>"
  obtain as where as: "efold (read_attribute ?c) atts no_attributes = Inr as"
    using run by (auto simp: start_element_def Let_def ebind_eq_Inr)
  have c: "context_ok (?c\<lparr>chars := []\<rparr>)" using ok by simp
  note v = read_attributes_version [OF as]
  note steps = start_protocol_ok [OF c] start_interface_ok [OF c v] start_message_ok [OF c] start_arg_ok [OF c]
    start_enum_ok [OF c] start_entry_ok [OF c] start_description_ok [OF c]
  show ?thesis
    using run c as unfolding start_element_def Let_def by (auto split: if_splits dest: steps)
qed

lemma end_element_ok:
  assumes ok: "context_ok ctx" and run: "end_element nm ctx = Inr ctx'"
  shows "context_ok ctx'"
  using run ok
  by (auto simp: end_element_def ebind_eq_Inr split: if_splits
      intro!: context_ok_protocol context_ok_update upd_description_ok)

lemma character_data_ok: "context_ok ctx \<Longrightarrow> character_data s ctx = Inr ctx' \<Longrightarrow> context_ok ctx'"
  by (auto simp: character_data_def split: if_splits)

lemma handle_ok: "context_ok ctx \<Longrightarrow> handle ev ctx = Inr ctx' \<Longrightarrow> context_ok ctx'"
  by (cases ev) (auto dest: start_element_ok end_element_ok character_data_ok)

lemma parse_events_ok:
  assumes "context_ok ctx" "efold handle evs ctx = Inr ctx'"
  shows "context_ok ctx'"
  by (rule efold_invariant [where P = context_ok, OF _ assms]) (rule handle_ok)

lemma parse_blocks_ok: "context_ok ctx \<Longrightarrow> parse_blocks bs ctx = Inr ctx' \<Longrightarrow> context_ok ctx'"
  by (induction bs ctx rule: parse_blocks.induct)
    (auto simp: ebind_eq_Inr split: if_splits dest: parse_events_ok)

lemma empty_context_ok: "context_ok (empty_context core)"
  by (simp add: context_ok_def empty_context_def empty_protocol_def wf_protocol_def pointers_ok_def)

lemma parse_wf: "parse_blocks bs (empty_context core) = Inr ctx \<Longrightarrow> wf_protocol (protocol ctx)"
  using parse_blocks_ok [OF empty_context_ok] context_okD(6) by blast

section \<open>Enumeration references\<close>

text \<open>What \<^verbatim>\<open>verify_arguments\<close> lets through.\<close>

definition enum_use_ok :: "protocol \<Rightarrow> interface \<Rightarrow> arg \<Rightarrow> bool" where
  "enum_use_ok p i a = (case aenum a of
     None \<Rightarrow> True
   | Some en \<Rightarrow> akind a = UNSIGNED \<or>
       akind a = INT_T \<and> pred_option (\<lambda>e. \<not> bitfield e) (find_enumeration p (Some i) en))"

lemma efold_unit:
  "efold f xs () = Inr u \<longleftrightarrow> (\<forall>x \<in> set xs. f x () = Inr ())"
  by (induction xs) (auto simp: ebind_eq_Inr)

lemma verify_argument_ok: "verify_argument ctx i a u = Inr () \<longleftrightarrow> enum_use_ok (protocol ctx) i a"
  by (auto simp: verify_argument_def enum_use_ok_def Let_def split: option.splits arg_type.splits)

lemma verify_arguments_ok:
  "verify_arguments ctx i ms u = Inr () \<longleftrightarrow> (\<forall>m \<in> set ms. \<forall>a \<in> set (arg_list m). enum_use_ok (protocol ctx) i a)"
  by (simp add: verify_arguments_def efold_unit verify_argument_ok)

lemma end_protocol_ok:
  "end_element ''protocol'' ctx = Inr ctx' \<longleftrightarrow> ctx' = ctx \<and>
     (\<forall>i \<in> set (interface_list (protocol ctx)). \<forall>m \<in> set (request_list i) \<union> set (event_list i).
        \<forall>a \<in> set (arg_list m). enum_use_ok (protocol ctx) i a)"
  by (auto simp: end_element_def ebind_eq_Inr efold_unit verify_arguments_ok)

lemma foldl_last:
  assumes "P d" "d < n" "\<And>j. d < j \<Longrightarrow> j < n \<Longrightarrow> \<not> P j"
  shows "foldl (\<lambda>k j. if P j then j else k) k0 [0..<n] = d"
  using assms(2,3)
proof (induction n)
  case (Suc n)
  show ?case
  proof (cases "d = n")
    case True
    with assms(1) show ?thesis by simp
  next
    case False
    with Suc.prems have "d < n" "\<not> P n" by auto
    with Suc show ?thesis by simp
  qed
qed simp

lemma dot_index_qualified:
  assumes "en \<noteq> []" "CHR ''.'' \<notin> set en"
  shows "dot_index (nm @ ''.'' @ en) = length nm"
  unfolding dot_index_def
proof (rule foldl_last)
  show "length nm < length (nm @ ''.'' @ en) - 1" using assms(1) by (cases en) auto
  show "(nm @ ''.'' @ en) ! j \<noteq> CHR ''.''" if "length nm < j" "j < length (nm @ ''.'' @ en) - 1" for j
  proof -
    have "(nm @ ''.'' @ en) ! j = en ! (j - length nm - 1)" "j - length nm - 1 < length en"
      using that by (auto simp: nth_append nth_Cons')
    then show ?thesis using assms(2) nth_mem by metis
  qed
qed (simp add: nth_append)

section \<open>Properties\<close>

text \<open>A small document: one interface with a request that has a nullable object and an untyped new id.\<close>

definition sample_document :: "xml_event list" where
  "sample_document =
     [Start 1 ''protocol'' [(''name'', ''p'')],
      Start 2 ''interface'' [(''name'', ''reg''), (''version'', ''3'')],
      Start 3 ''request'' [(''name'', ''bind''), (''since'', ''2'')],
      Start 4 ''arg'' [(''name'', ''id''), (''type'', ''new_id'')],
      Start 5 ''arg'' [(''name'', ''o''), (''type'', ''object''), (''interface'', ''reg''), (''allow-null'', ''true'')],
      End ''request'', End ''interface'', End ''protocol'']"

definition bind_message :: message where
  "bind_message = \<lparr>mline = 3, mname = ''bind'', muppercase = ''BIND'', arg_list =
     [\<lparr>aname = ''id'', akind = NEW_ID, anullable = False, ainterface = None, asummary = None, aenum = None\<rparr>,
      \<lparr>aname = ''o'', akind = OBJECT, anullable = True, ainterface = Some ''reg'', asummary = None, aenum = None\<rparr>],
     arg_count = 2, new_id_count = 1, type_index = 0, all_null = False, destructor = False, msince = 2,
     mdescription = None\<rparr>"

definition reg_interface :: interface where
  "reg_interface = \<lparr>iline = 2, name = ''reg'', uppercase_name = ''REG'', version = 3, since = 2,
     request_list = [bind_message], event_list = [], enumeration_list = [], idescription = None\<rparr>"

lemma sample_parsed:
  "map_sum id (\<lambda>ctx. interface_list (protocol ctx)) (efold handle sample_document (empty_context False)) =
     Inr [reg_interface]"
  by code_simp

lemma parse_sample:
  obtains ctx where "parse_blocks [(sample_document, True)] (empty_context False) = Inr ctx"
    "interface_list (protocol ctx) = [reg_interface]"
  using sample_parsed by (cases "efold handle sample_document (empty_context False)") auto

text \<open>
  C17: Whatever document the scanner accepts, the protocol it has built is well-formed: every message
  counts its arguments and new ids exactly, no message is newer than its interface's version,
  only objects and new ids name an interface, only nullable types allow null, and every request
  named \<^verbatim>\<open>destroy\<close> is a destructor. The parser's pointers point at parts of the protocol, and
  the character data stays within its buffer.
\<close>

theorem parse_wellformed:
  assumes "parse_blocks blocks (empty_context core) = Inr ctx"
  shows "wf_protocol (protocol ctx) \<and> pointers_ok ctx \<and> length (chars ctx) \<le> 8192"
  using parse_blocks_ok [OF empty_context_ok assms] by (simp add: context_ok_def)

theorem parse_wellformed_witness:
  "\<exists>ctx. parse_blocks [(sample_document, True)] (empty_context False) = Inr ctx \<and>
     interface_list (protocol ctx) = [reg_interface] \<and> wf_protocol (protocol ctx)"
proof -
  obtain ctx where c: "parse_blocks [(sample_document, True)] (empty_context False) = Inr ctx"
    "interface_list (protocol ctx) = [reg_interface]" by (rule parse_sample)
  with parse_wellformed [OF c(1)] show ?thesis by blast
qed


definition enum_document :: "xml_event list" where
  "enum_document =
     [Start 1 ''interface'' [(''name'', ''i''), (''version'', ''1'')], Start 2 ''event'' [(''name'', ''e'')],
      Start 3 ''arg'' [(''name'', ''a''), (''type'', ''uint''), (''enum'', ''b'')], End ''event'']"

definition enum_arg :: arg where
  "enum_arg = \<lparr>aname = ''a'', akind = UNSIGNED, anullable = False, ainterface = None, asummary = None, aenum = Some ''b''\<rparr>"

lemma enum_document_parsed:
  "map_sum id (\<lambda>ctx. map (\<lambda>i. map arg_list (event_list i)) (interface_list (protocol ctx)))
     (efold handle (enum_document @ [End ''protocol'']) (empty_context False)) = Inr [[[enum_arg]]]"
  by code_simp

lemma parse_enum_document:
  obtains ctx i m where "parse_blocks [(enum_document, True)] (empty_context False) = Inr ctx"
    "i \<in> set (interface_list (protocol ctx))" "m \<in> set (event_list i)" "arg_list m = [enum_arg]"
proof -
  obtain c ctx where c: "efold handle enum_document (empty_context False) = Inr c" "end_element ''protocol'' c = Inr ctx"
    "map (\<lambda>i. map arg_list (event_list i)) (interface_list (protocol ctx)) = [[[enum_arg]]]"
    using enum_document_parsed
    by (cases "efold handle (enum_document @ [End ''protocol'']) (empty_context False)")
      (auto simp: efold_append ebind_eq_Inr)
  then obtain i m where "i \<in> set (interface_list (protocol c))" "m \<in> set (event_list i)" "arg_list m = [enum_arg]"
    by (auto simp: map_eq_Cons_conv end_protocol_ok)
  with c(1) show ?thesis by (intro that) auto
qed


text \<open>
  An \<^verbatim>\<open>arg\<close> tag without a type and an \<^verbatim>\<open>entry\<close> tag without a value make the scanner read through a null
  pointer; the other mandatory attributes are checked.
\<close>

lemma missing_attributes_crash:
  "start_arg (as\<lparr>at_name := Some nm, at_type := None\<rparr>) ctx = Inl Crash \<and>
   start_entry (as\<lparr>at_name := Some nm, at_value := None\<rparr>) ctx = Inl Crash \<and>
   start_arg (as\<lparr>at_name := None\<rparr>) ctx = Inl (Fail (line_number ctx) ''no argument name given'') \<and>
   start_entry (as\<lparr>at_name := None\<rparr>) ctx = Inl (Fail (line_number ctx) ''no entry name given'')"
  by (simp add: start_arg_def start_entry_def deref_def fail_def)

text \<open>
  A qualified reference \<^verbatim>\<open>interface.enum\<close> is resolved in the interface of that name, provided no
  other interface's name starts with it; an unqualified one in the interface of the argument.
\<close>

theorem find_enumeration_exact:
  assumes "nm \<noteq> []" "en \<noteq> []" "CHR ''.'' \<notin> set en"
    and "\<And>i. i \<in> set (interface_list p) \<Longrightarrow> take (length nm) (name i) = nm \<Longrightarrow> name i = nm"
  shows "find_enumeration p iface (nm @ ''.'' @ en) =
    find (\<lambda>e. enum_name e = en) (concat (map enumeration_list (filter (\<lambda>i. name i = nm) (interface_list p))))"
proof -
  have d: "dot_index (nm @ ''.'' @ en) = length nm" by (rule dot_index_qualified [OF assms(2,3)])
  have "filter (\<lambda>i. strncmp_eq (name i) (nm @ ''.'' @ en) (length nm)) (interface_list p) =
      filter (\<lambda>i. name i = nm) (interface_list p)"
    using assms(4) by (intro filter_cong) (auto simp: strncmp_eq_def)
  then show ?thesis using assms(1) unfolding find_enumeration_def d Let_def by simp
qed

definition shell_interface :: "string \<Rightarrow> string \<Rightarrow> interface" where
  "shell_interface nm en = (create_interface 1 nm 1)\<lparr>enumeration_list := [create_enumeration en]\<rparr>"

theorem find_enumeration_exact_witness:
  "find_enumeration ((empty_protocol False)\<lparr>interface_list := [shell_interface ''b'' ''e'', shell_interface ''a'' ''e'']\<rparr>)
     None ''a.e'' = Some (create_enumeration ''e'') \<and> CHR ''.'' \<notin> set ''e''"
proof -
  let ?p = "(empty_protocol False)\<lparr>interface_list := [shell_interface ''b'' ''e'', shell_interface ''a'' ''e'']\<rparr>"
  have "find_enumeration ?p None (''a'' @ ''.'' @ ''e'') =
      find (\<lambda>e. enum_name e = ''e'') (concat (map enumeration_list (filter (\<lambda>i. name i = ''a'') (interface_list ?p))))"
    by (rule find_enumeration_exact) (auto simp: shell_interface_def create_interface_def)
  then show ?thesis by (simp add: shell_interface_def create_interface_def create_enumeration_def)
qed

text \<open>
  Since only the first characters of the interface's name are compared, a reference to an
  enumeration of \<^verbatim>\<open>wl_shell\<close> is resolved to one of \<^verbatim>\<open>wl_shell_surface\<close>, even when \<^verbatim>\<open>wl_shell\<close> has one of
  that name.
\<close>

lemma find_enumeration_prefix:
  "find_enumeration ((empty_protocol False)\<lparr>interface_list :=
       [(shell_interface ''wl_shell_surface'' ''mode'')\<lparr>enumeration_list := [(create_enumeration ''mode'')\<lparr>bitfield := True\<rparr>]\<rparr>,
        shell_interface ''wl_shell'' ''mode'']\<rparr>) None ''wl_shell.mode'' =
   Some ((create_enumeration ''mode'')\<lparr>bitfield := True\<rparr>)"
  by code_simp

end
