(* ===== verification/Scanner_Emit.thy ===== *)
theory Scanner_Emit
  imports Scanner_Parse
begin

text \<open>
  The output side of \<^verbatim>\<open>scanner/src/scanner.c\<close>: comments, the public header, and the tables of
  messages and types in the generated code. Each \<^verbatim>\<open>emit_*\<close> function is the text it prints; the
  two that can also stop the program return a sum. Warnings, which go to the standard error, are
  not part of the text.
\<close>

section \<open>Printing\<close>

text \<open>\<^verbatim>\<open>printf\<close> writes \<^verbatim>\<open>(null)\<close> for a null string.\<close>

definition str :: "string option \<Rightarrow> string" where
  "str s = (case s of None \<Rightarrow> ''(null)'' | Some s \<Rightarrow> s)"

text \<open>Printing one text after the other, until one stops the program.\<close>

fun econcat :: "('e + string) list \<Rightarrow> 'e + string" where
  "econcat [] = Inr []"
| "econcat (x # xs) = ebind x (\<lambda>s. ebind (econcat xs) (\<lambda>t. Inr (s @ t)))"

definition line :: "string list \<Rightarrow> string" where
  "line ss = concat ss @ endl"

text \<open>
  \<^verbatim>\<open>indent\<close> returns a pointer into one of eight strings of twelve tabs and up to seven blanks; from
  104 columns on the pointer is in front of the string.
\<close>

definition indent :: "nat \<Rightarrow> scan_fault + string" where
  "indent n = (let whitespace = replicate 12 (CHR 0x09) @ replicate (n mod 8) (CHR '' '') in
     if n div 8 \<le> 12 then Inr (drop (12 - n div 8) whitespace) else Inl Crash)"

section \<open>Descriptions and comments\<close>

text \<open>The column after printing a prefix: a tab goes to the next multiple of eight.\<close>

fun columns :: "string \<Rightarrow> nat \<Rightarrow> nat" where
  "columns [] col = col"
| "columns (c # cs) col = columns cs (if c = CHR 0x09 then (col + 8) div 8 * 8 else col + 1)"

lemma shorter_after_word:
  assumes "dropWhile is_space desc \<noteq> []"
  shows "length (dropWhile (\<lambda>c. \<not> is_space c) (dropWhile is_space desc)) < length desc"
proof -
  obtain c cs where d: "dropWhile is_space desc = c # cs" "\<not> is_space c"
    using assms hd_dropWhile [OF assms] by (cases "dropWhile is_space desc") auto
  have "length (dropWhile (\<lambda>c. \<not> is_space c) (c # cs)) \<le> length cs"
    using d(2) by (simp add: length_dropWhile_le)
  moreover have "length (c # cs) \<le> length desc" using length_dropWhile_le [of is_space desc] d(1) by simp
  ultimately show ?thesis unfolding d(1) by simp
qed

text \<open>
  The words of a description: \<open>started\<close> says that this is not the first word, \<open>col\<close> is the
  current column.
\<close>

function dump_words :: "char \<Rightarrow> nat \<Rightarrow> bool \<Rightarrow> nat \<Rightarrow> string \<Rightarrow> scan_fault + string" where
  "dump_words hang startcol started col desc =
     (let ws = takeWhile is_space desc;
          newlines = length (filter (\<lambda>c. c = CHR 0x0A) ws);
          desc = dropWhile is_space desc
      in if desc = [] then Inr []
         else
           let word = takeWhile (\<lambda>c. \<not> is_space c) desc;
               rest = dropWhile (\<lambda>c. \<not> is_space c) desc;
               wrap = (newlines > 1 \<or> col + length word > 72);
               col = (if wrap then startcol else col);
               blank = (col > startcol \<and> started)
           in ebind (if newlines > 1 \<or> wrap then indent startcol else Inr []) (\<lambda>ind.
              ebind (dump_words hang startcol True (col + (if blank then 1 else 0) + length word) rest) (\<lambda>more.
                Inr (concat [if newlines > 1 then endl @ ind @ ''*'' else [],
                  if wrap then endl @ ind @ ''*'' @ [hang] else [],
                  if blank then '' '' else [], word, more]))))"
  by auto

termination
  by (relation "measure (\<lambda>(_, _, _, _, s). length s)") (simp_all add: shorter_after_word)

declare dump_words.simps [simp del]

text \<open>
  \<open>buf\<close> is the prefix that the caller gives as the format, up to and with its star; the columns
  before the star are where the lines start.
\<close>

definition desc_dump :: "string option \<Rightarrow> string \<Rightarrow> scan_fault + string" where
  "desc_dump desc buf =
     (let startcol = columns (takeWhile (\<lambda>c. c \<noteq> CHR ''*'') buf) 0 in
      case desc of
        None \<Rightarrow> Inr (buf @ ''(none)'' @ endl)
      | Some d \<Rightarrow>
          let tail = dropWhile (\<lambda>c. c \<noteq> CHR ''*'') buf;
              hang = (if length tail > 2 then CHR 0x09 else CHR '' '')
          in ebind (dump_words hang startcol False (startcol + length tail) d) (\<lambda>body. Inr (buf @ body @ endl)))"

definition char_at :: "string \<Rightarrow> nat \<Rightarrow> char" where
  "char_at text i = (if i < length text then text ! i else NUL)"

type_synonym comment_state = "bool \<times> nat \<times> bool \<times> string"

definition comment_step :: "string \<Rightarrow> comment_state \<Rightarrow> nat \<Rightarrow> comment_state" where
  "comment_step text = (\<lambda>(bol, start, started, out) i.
     let c = char_at text i in
     if bol \<and> (c = CHR '' '' \<or> c = CHR 0x09) then (bol, start, started, out)
     else
       let start = (if bol then i else start) in
       if c = CHR 0x0A \<or> (c = NUL \<and> start \<noteq> i)
       then (True, start, True, out @ (if started then '' *'' else ''/*'') @ (if i > start then '' '' else []) @
          take (i - start) (drop start text) @ endl)
       else (False, start, started, out))"

definition format_text_to_comment :: "string \<Rightarrow> bool \<Rightarrow> string" where
  "format_text_to_comment text standalone =
     (case foldl (comment_step text) (True, 0, \<not> standalone, []) [0..<length text + 1] of
        (_, _, started, out) \<Rightarrow> out @ (if started \<and> standalone then '' */'' @ endl @ endl else []))"

section \<open>Declarations in the header\<close>

fun number_from :: "nat \<Rightarrow> interface \<Rightarrow> message list \<Rightarrow> string list" where
  "number_from opcode i [] = []"
| "number_from opcode i (m # ms) =
     line [''#define '', uppercase_name i, ''_'', muppercase m, '' '', dec opcode] # number_from (opcode + 1) i ms"

definition emit_opcodes :: "message list \<Rightarrow> interface \<Rightarrow> string" where
  "emit_opcodes ms i = (if ms = [] then [] else concat (number_from 0 i ms) @ endl)"

definition emit_opcode_versions :: "message list \<Rightarrow> interface \<Rightarrow> string" where
  "emit_opcode_versions ms i = concat (map (\<lambda>m.
     line [''/**''] @ line ['' * @ingroup iface_'', name i] @ line ['' */''] @
     line [''#define '', uppercase_name i, ''_'', muppercase m, ''_SINCE_VERSION '', show_int (msince m)]) ms) @ endl"

definition emit_type :: "arg \<Rightarrow> string" where
  "emit_type a = (case akind a of
     INT_T \<Rightarrow> ''int32_t '' | FD \<Rightarrow> ''int32_t '' | NEW_ID \<Rightarrow> ''uint32_t '' | UNSIGNED \<Rightarrow> ''uint32_t ''
   | FIXED \<Rightarrow> ''wl_fixed_t '' | STRING \<Rightarrow> ''const char *'' | OBJECT \<Rightarrow> ''struct '' @ str (ainterface a) @ '' *''
   | ARRAY \<Rightarrow> ''struct wl_array *'')"

definition emit_entry :: "interface \<Rightarrow> enumeration \<Rightarrow> entry \<Rightarrow> string" where
  "emit_entry i e en =
     (if esummary en \<noteq> None \<or> esince en > 1 then
        tab @ line [''/**''] @
        (case esummary en of Some s \<Rightarrow> tab @ line ['' * '', s] | None \<Rightarrow> []) @
        (if esince en > 1 then tab @ line ['' * @since '', show_int (esince en)] else []) @
        tab @ line ['' */'']
      else []) @
     tab @ line [uppercase_name i, ''_'', enum_uppercase e, ''_'', euppercase en, '' = '', evalue en, '','']"

definition emit_entry_version :: "interface \<Rightarrow> enumeration \<Rightarrow> entry \<Rightarrow> string" where
  "emit_entry_version i e en =
     (if esince en = 1 then []
      else line [''/**''] @ line ['' * @ingroup iface_'', name i] @ line ['' */''] @
        line [''#define '', uppercase_name i, ''_'', enum_uppercase e, ''_'', euppercase en,
          ''_SINCE_VERSION '', show_int (esince en)])"

definition emit_enumeration :: "interface \<Rightarrow> enumeration \<Rightarrow> string" where
  "emit_enumeration i e =
     line [''#ifndef '', uppercase_name i, ''_'', enum_uppercase e, ''_ENUM''] @
     line [''#define '', uppercase_name i, ''_'', enum_uppercase e, ''_ENUM''] @
     (case enum_description e of
        Some d \<Rightarrow> line [''/**''] @ line ['' * @ingroup iface_'', name i] @
          format_text_to_comment (summary d) False @
          (case dtext d of Some t \<Rightarrow> format_text_to_comment t False | None \<Rightarrow> []) @ line ['' */'']
      | None \<Rightarrow> []) @
     line [''enum '', name i, ''_'', enum_name e, '' {''] @
     concat (map (emit_entry i e) (entry_list e)) @ line [''};''] @
     concat (map (emit_entry_version i e) (entry_list e)) @
     line [''#endif /* '', uppercase_name i, ''_'', enum_uppercase e, ''_ENUM */''] @ endl"

definition emit_enumerations :: "interface \<Rightarrow> string" where
  "emit_enumerations i = concat (map (emit_enumeration i) (enumeration_list i))"

section \<open>Structures of callbacks\<close>

definition struct_suffix :: "side \<Rightarrow> string" where
  "struct_suffix side = (if side = SERVER then ''interface'' else ''listener'')"

definition emit_struct_doc :: "side \<Rightarrow> arg \<Rightarrow> string" where
  "emit_struct_doc side a =
     (if side = SERVER \<and> akind a = NEW_ID \<and> ainterface a = None then
        tab @ line ['' * @param interface name of the objects interface''] @
        tab @ line ['' * @param version version of the objects interface'']
      else []) @
     (case asummary a of Some s \<Rightarrow> tab @ line ['' * @param '', aname a, '' '', s] | None \<Rightarrow> [])"

definition emit_struct_arg :: "side \<Rightarrow> string \<Rightarrow> arg \<Rightarrow> string" where
  "emit_struct_arg side ind a =
     '','' @ endl @ ind @
     (if side = SERVER \<and> akind a = OBJECT then ''struct wl_resource *''
      else if side = SERVER \<and> akind a = NEW_ID \<and> ainterface a = None
      then ''const char *interface, uint32_t version, uint32_t ''
      else if side = CLIENT \<and> akind a = OBJECT \<and> ainterface a = None then ''void *''
      else if side = CLIENT \<and> akind a = NEW_ID then ''struct '' @ str (ainterface a) @ '' *''
      else emit_type a) @
     aname a"

definition emit_struct_member :: "interface \<Rightarrow> side \<Rightarrow> message \<Rightarrow> scan_fault + string" where
  "emit_struct_member i side m =
     econcat [
       Inr (tab @ line [''/**'']),
       (case mdescription m of
          Some d \<Rightarrow> econcat [Inr (tab @ line ['' * '', summary d]), Inr (tab @ line ['' *'']),
            desc_dump (dtext d) (tab @ '' * '')]
        | None \<Rightarrow> Inr []),
       Inr (concat (map (emit_struct_doc side) (arg_list m))),
       Inr (if msince m > 1 then tab @ line ['' * @since '', show_int (msince m)] else []),
       Inr (tab @ line ['' */'']),
       Inr (tab @ ''void (*'' @ mname m @ '')(''),
       ebind (indent (length (mname m) + 17)) (\<lambda>ind.
         Inr ((if side = SERVER
               then line [''struct wl_client *client,''] @ ind @ ''struct wl_resource *resource''
               else line [''void *data,''] @ ind @ ''struct '' @ name i @ '' *'' @ name i) @
              concat (map (emit_struct_arg side ind) (arg_list m)) @ line ['');'']))]"

definition emit_add_listener :: "interface \<Rightarrow> scan_fault + string" where
  "emit_add_listener i =
     ebind (indent (14 + length (name i))) (\<lambda>ind.
     ebind (indent 37) (\<lambda>ind37.
       Inr (line [''/**''] @ line ['' * @ingroup iface_'', name i] @ line ['' */''] @
         line [''static inline int''] @
         line [name i, ''_add_listener(struct '', name i, '' *'', name i, '',''] @
         line [ind, ''const struct '', name i, ''_listener *listener, void *data)''] @
         line [''{''] @
         line [tab, ''return wl_proxy_add_listener((struct wl_proxy *) '', name i, '',''] @
         line [ind37, ''(void (**)(void)) listener, data);''] @
         line [''}''] @ endl)))"

definition emit_structs :: "message list \<Rightarrow> interface \<Rightarrow> side \<Rightarrow> scan_fault + string" where
  "emit_structs ms i side =
     (if ms = [] then Inr []
      else econcat [
        Inr (line [''/**''] @ line ['' * @ingroup iface_'', name i] @
          line ['' * @struct '', name i, ''_'', struct_suffix side] @ line ['' */''] @
          line [''struct '', name i, ''_'', struct_suffix side, '' {'']),
        econcat (map (emit_struct_member i side) ms),
        Inr (line [''};''] @ endl),
        if side = CLIENT then emit_add_listener i else Inr []])"

section \<open>Client stubs and server wrappers\<close>

definition emit_accessor :: "interface \<Rightarrow> string \<Rightarrow> string \<Rightarrow> string \<Rightarrow> string" where
  "emit_accessor i head params body =
     line [head] @ line [name i, params] @ line [''{''] @ line [tab, body] @ line [''}''] @ endl"

definition last_new_id :: "message \<Rightarrow> arg option" where
  "last_new_id m = foldl (\<lambda>ret a. if akind a = NEW_ID then Some a else ret) None (arg_list m)"

definition stub_param :: "arg \<Rightarrow> string" where
  "stub_param a =
     (if akind a = NEW_ID \<and> ainterface a = None then '', const struct wl_interface *interface, uint32_t version''
      else if akind a = NEW_ID then []
      else '', '' @ emit_type a @ aname a)"

definition stub_value :: "arg \<Rightarrow> string" where
  "stub_value a =
     (if akind a = NEW_ID then (if ainterface a = None then '', interface->name, version'' else []) @ '', NULL''
      else '', '' @ aname a)"

definition emit_stub :: "interface \<Rightarrow> message \<Rightarrow> string" where
  "emit_stub i m =
     (let ret = last_new_id m;
          opcode = uppercase_name i @ ''_'' @ muppercase m
      in if new_id_count m > 1 then []
         else
           line [''/**''] @ line ['' * @ingroup iface_'', name i] @
           (case mdescription m of
              Some d \<Rightarrow> (case dtext d of Some t \<Rightarrow> format_text_to_comment t False | None \<Rightarrow> []) | None \<Rightarrow> []) @
           line ['' */''] @
           (case ret of
              Some r \<Rightarrow> (case ainterface r of None \<Rightarrow> line [''static inline void *'']
                         | Some t \<Rightarrow> line [''static inline struct '', t, '' *''])
            | None \<Rightarrow> line [''static inline void'']) @
           name i @ ''_'' @ mname m @ ''(struct '' @ name i @ '' *'' @ name i @
           concat (map stub_param (arg_list m)) @ line ['')''] @ line [''{''] @
           (case ret of
              Some r \<Rightarrow>
                line [tab, ''struct wl_proxy *'', aname r, '';''] @ endl @
                (case ainterface r of
                   None \<Rightarrow> line [tab, aname r, '' = wl_proxy_marshal_constructor_versioned((struct wl_proxy *) '', name i, '',''] @
                     tab @ tab @ tab @ '' '' @ opcode @ '', interface, version''
                 | Some t \<Rightarrow> line [tab, aname r, '' = wl_proxy_marshal_constructor((struct wl_proxy *) '', name i, '',''] @
                     tab @ tab @ tab @ '' '' @ opcode @ '', &'' @ t @ ''_interface'')
            | None \<Rightarrow> line [tab, ''wl_proxy_marshal((struct wl_proxy *) '', name i, '',''] @
                tab @ tab @ tab @ '' '' @ opcode) @
           concat (map stub_value (arg_list m)) @ line ['');''] @
           (if destructor m then endl @ line [tab, ''wl_proxy_destroy((struct wl_proxy *) '', name i, '');''] else []) @
           (case ret of
              Some r \<Rightarrow> (case ainterface r of
                  None \<Rightarrow> endl @ line [tab, ''return (void *) '', aname r, '';'']
                | Some t \<Rightarrow> endl @ line [tab, ''return (struct '', t, '' *) '', aname r, '';''])
            | None \<Rightarrow> []) @
           line [''}''] @ endl)"

definition emit_stubs :: "message list \<Rightarrow> interface \<Rightarrow> scan_fault + string" where
  "emit_stubs ms i =
     (let has_destructor = list_ex destructor ms;
          has_destroy = list_ex (\<lambda>m. mname m = ''destroy'') ms
      in if \<not> has_destructor \<and> has_destroy
         then Inl (Fail (iline i) (''interface '' @ [CHR 0x27] @ name i @ [CHR 0x27] @
           '' has method named destroy but no destructor''))
         else Inr (
           line [''/** @ingroup iface_'', name i, '' */''] @
           emit_accessor i ''static inline void''
             (''_set_user_data(struct '' @ name i @ '' *'' @ name i @ '', void *user_data)'')
             (''wl_proxy_set_user_data((struct wl_proxy *) '' @ name i @ '', user_data);'') @
           line [''/** @ingroup iface_'', name i, '' */''] @
           emit_accessor i ''static inline void *''
             (''_get_user_data(struct '' @ name i @ '' *'' @ name i @ '')'')
             (''return wl_proxy_get_user_data((struct wl_proxy *) '' @ name i @ '');'') @
           emit_accessor i ''static inline uint32_t''
             (''_get_version(struct '' @ name i @ '' *'' @ name i @ '')'')
             (''return wl_proxy_get_version((struct wl_proxy *) '' @ name i @ '');'') @
           (if \<not> has_destroy \<and> name i \<noteq> ''wl_display'' then
              line [''/** @ingroup iface_'', name i, '' */''] @
              emit_accessor i ''static inline void''
                (''_destroy(struct '' @ name i @ '' *'' @ name i @ '')'')
                (''wl_proxy_destroy((struct wl_proxy *) '' @ name i @ '');'')
            else []) @
           concat (map (emit_stub i) ms)))"

definition wrapper_param :: "arg \<Rightarrow> string" where
  "wrapper_param a = '', '' @
     (case akind a of NEW_ID \<Rightarrow> ''struct wl_resource *'' | OBJECT \<Rightarrow> ''struct wl_resource *'' | _ \<Rightarrow> emit_type a) @ aname a"

definition emit_event_wrapper :: "interface \<Rightarrow> message \<Rightarrow> string" where
  "emit_event_wrapper i m =
     line [''/**''] @ line ['' * @ingroup iface_'', name i] @
     line ['' * Sends an '', mname m, '' event to the client owning the resource.''] @
     line ['' * @param resource_ The client'', [CHR 0x27], ''s resource''] @
     concat (map (\<lambda>a. case asummary a of Some s \<Rightarrow> line ['' * @param '', aname a, '' '', s] | None \<Rightarrow> []) (arg_list m)) @
     line ['' */''] @ line [''static inline void''] @
     name i @ ''_send_'' @ mname m @ ''(struct wl_resource *resource_'' @
     concat (map wrapper_param (arg_list m)) @ line ['')''] @ line [''{''] @
     tab @ ''wl_resource_post_event(resource_, '' @ uppercase_name i @ ''_'' @ muppercase m @
     concat (map (\<lambda>a. '', '' @ aname a) (arg_list m)) @ line ['');''] @ line [''}''] @ endl"

definition emit_event_wrappers :: "message list \<Rightarrow> interface \<Rightarrow> string" where
  "emit_event_wrappers ms i =
     (if name i = ''wl_display'' then [] else concat (map (emit_event_wrapper i) ms))"

section \<open>Comments line by line\<close>

text \<open>
  The reference for \<^verbatim>\<open>format_text_to_comment\<close>: the lines of the text without the blanks they start
  with, a last line only if there is something on it.
\<close>

fun split_lines :: "string \<Rightarrow> string list" where
  "split_lines [] = [[]]"
| "split_lines (c # cs) =
     (if c = CHR 0x0A then [] # split_lines cs
      else case split_lines cs of [] \<Rightarrow> [[c]] | l # ls \<Rightarrow> (c # l) # ls)"

definition strip :: "string \<Rightarrow> string" where
  "strip l = dropWhile (\<lambda>c. c = CHR '' '' \<or> c = CHR 0x09) l"

definition comment_lines :: "string \<Rightarrow> string list" where
  "comment_lines text =
     (let ls = split_lines text in
      map strip (butlast ls) @ (if strip (last ls) = [] then [] else [strip (last ls)]))"

fun render :: "bool \<Rightarrow> string list \<Rightarrow> string" where
  "render started [] = []"
| "render started (l # ls) =
     (if started then '' *'' else ''/*'') @ (if l = [] then [] else '' '' @ l) @ endl @ render True ls"

text \<open>The loop, reading the rest of the text with the current line so far.\<close>

fun line_scan :: "string \<Rightarrow> bool \<Rightarrow> string \<Rightarrow> string list" where
  "line_scan [] bol frag = (if bol then [] else [frag])"
| "line_scan (c # cs) bol frag =
     (if bol \<and> (c = CHR '' '' \<or> c = CHR 0x09) then line_scan cs True []
      else let frag = (if bol then [] else frag) in
        if c = CHR 0x0A then frag # line_scan cs True [] else line_scan cs False (frag @ [c]))"

lemma comment_loop:
  "NUL \<notin> set suf \<Longrightarrow> \<not> bol \<longrightarrow> start < length pre \<and> drop start pre = frag \<Longrightarrow>
   \<exists>bol' start'. foldl (comment_step (pre @ suf)) (bol, start, started, out) [length pre..<length (pre @ suf) + 1] =
     (bol', start', started \<or> line_scan suf bol frag \<noteq> [], out @ render started (line_scan suf bol frag))"
proof (induction suf arbitrary: pre bol start started out frag)
  case Nil
  then show ?case
    by (auto simp: comment_step_def char_at_def Let_def NUL_def)
next
  case (Cons c cs)
  let ?t = "pre @ c # cs"
  have split: "[length pre..<length ?t + 1] = length pre # [length (pre @ [c])..<length ?t + 1]"
    using upt_conv_Cons [of "length pre" "length ?t + 1"] by simp
  have c: "char_at ?t (length pre) = c" by (simp add: char_at_def)
  have nul: "c \<noteq> NUL" "NUL \<notin> set cs" using Cons.prems(1) by auto
  note ih = Cons.IH [OF nul(2), where pre = "pre @ [c]", unfolded append_assoc append_Cons append_Nil]
  let ?start = "if bol then length pre else start" and ?frag = "if bol then [] else frag"
  consider (blank) "bol" "c = CHR '' '' \<or> c = CHR 0x09"
    | (newline) "\<not> (bol \<and> (c = CHR '' '' \<or> c = CHR 0x09))" "c = CHR 0x0A"
    | (other) "\<not> (bol \<and> (c = CHR '' '' \<or> c = CHR 0x09))" "c \<noteq> CHR 0x0A" by blast
  then show ?case
  proof cases
    case blank
    have step: "comment_step ?t (bol, start, started, out) (length pre) = (True, start, started, out)"
      "line_scan (c # cs) bol frag = line_scan cs True []"
      using blank by (auto simp: comment_step_def c)
    show ?thesis unfolding split foldl.simps step by (rule ih) simp
  next
    case newline
    have f: "take (length pre - ?start) (drop ?start ?t) = ?frag" "length pre > ?start \<longleftrightarrow> ?frag \<noteq> []"
      using Cons.prems(2) by auto
    have step: "comment_step ?t (bol, start, started, out) (length pre) =
        (True, ?start, True, out @ render started [?frag])"
      unfolding comment_step_def prod.case c Let_def f using newline by simp
    have scan: "line_scan (c # cs) bol frag = ?frag # line_scan cs True []" using newline by simp
    have r: "started \<or> ?frag # ls \<noteq> [] \<longleftrightarrow> True \<or> ls \<noteq> []"
      "out @ render started (?frag # ls) = (out @ render started [?frag]) @ render True ls" for ls by simp_all
    show ?thesis unfolding split foldl.simps step scan r(1)
      by (subst r(2) [of "line_scan cs True []"], rule ih) simp
  next
    case other
    have step: "comment_step ?t (bol, start, started, out) (length pre) = (False, ?start, started, out)"
      "line_scan (c # cs) bol frag = line_scan cs False (?frag @ [c])"
      using other nul(1) by (auto simp: comment_step_def c Let_def)
    show ?thesis unfolding split foldl.simps step by (rule ih) (use Cons.prems(2) in auto)
  qed
qed

lemma split_lines_not_Nil [simp]: "split_lines cs \<noteq> []"
  by (cases cs) (auto split: list.splits)

lemma split_lines_Cons:
  obtains l ls where "split_lines cs = l # ls"
  by (cases "split_lines cs") auto

lemma line_scan_lines:
  "line_scan cs True [] = comment_lines cs"
  "frag \<noteq> [] \<Longrightarrow> line_scan cs False frag =
     (let ls = split_lines cs in
      if tl ls = [] then [frag @ hd ls]
      else (frag @ hd ls) # map strip (butlast (tl ls)) @ (if strip (last ls) = [] then [] else [strip (last ls)]))"
proof (induction cs arbitrary: frag)
  case Nil
  {
    case 1
    show ?case by (simp add: comment_lines_def strip_def)
  next
    case 2
    then show ?case by simp
  }
next
  case (Cons c cs)
  obtain l ls where ls: "split_lines cs = l # ls" by (rule split_lines_Cons)
  {
    case 1
    show ?case
      using Cons.IH(1) Cons.IH(2) [of "[c]"] ls
      by (auto simp: comment_lines_def Let_def strip_def)
  next
    case 2
    then show ?case
      using Cons.IH(1) Cons.IH(2) [of "frag @ [c]"] ls
      by (auto simp: comment_lines_def Let_def)
  }
qed

section \<open>Properties\<close>

text \<open>
  The character loop of \<^verbatim>\<open>format_text_to_comment\<close> prints the text line by line: each line without its
  leading blanks behind a star, a blank last line left out, and for a comment of its own the
  delimiters around it, unless there is nothing to print.
\<close>

theorem comment_by_lines:
  assumes "NUL \<notin> set text"
  shows "format_text_to_comment text standalone =
    render (\<not> standalone) (comment_lines text) @
    (if standalone \<and> comment_lines text \<noteq> [] then '' */'' @ endl @ endl else [])"
proof -
  from comment_loop [OF assms, of True 0 "[]" "[]" "\<not> standalone" "[]"] obtain bol start where
    "foldl (comment_step text) (True, 0, \<not> standalone, []) [0..<length text + 1] =
      (bol, start, \<not> standalone \<or> comment_lines text \<noteq> [], render (\<not> standalone) (comment_lines text))"
    by (auto simp: line_scan_lines(1))
  then show ?thesis by (auto simp: format_text_to_comment_def)
qed

definition sample_text :: string where
  "sample_text = ''a'' @ endl @ tab @ ''b c'' @ endl @ '' ''"

theorem comment_by_lines_witness:
  "NUL \<notin> set sample_text \<and>
   format_text_to_comment sample_text True =
     ''/* a'' @ endl @ '' * b c'' @ endl @ '' */'' @ endl @ endl"
proof -
  have n: "NUL \<notin> set sample_text" by (simp add: sample_text_def NUL_def endl_def tab_def)
  have "comment_lines sample_text = [''a'', ''b c'']"
    by (simp add: comment_lines_def sample_text_def endl_def tab_def strip_def)
  with comment_by_lines [OF n, of True] n show ?thesis by simp
qed

text \<open>
  Within its bounds \<^verbatim>\<open>indent(n)\<close> is white space that takes exactly \<open>n\<close> columns; from 104 columns on it
  leaves its strings.
\<close>

lemma indent_columns:
  "(case indent n of
      Inr ws \<Rightarrow> n < 104 \<and> columns ws 0 = n \<and> set ws \<subseteq> {CHR 0x09, CHR '' ''}
    | Inl f \<Rightarrow> 104 \<le> n \<and> f = Crash)"
proof (cases "n div 8 \<le> 12")
  case True
  have blanks: "columns (replicate b (CHR '' '')) col = col + b" for b col
    by (induction b arbitrary: col) auto
  have tabs: "columns (replicate t (CHR 0x09) @ ws) (8 * k) = columns ws (8 * (k + t))" for t k ws
  proof (induction t arbitrary: k)
    case (Suc t)
    from Suc [of "k + 1"] show ?case by (simp add: algebra_simps)
  qed simp
  have i: "indent n = Inr (replicate (n div 8) (CHR 0x09) @ replicate (n mod 8) (CHR '' ''))"
    using True by (simp add: indent_def Let_def)
  have "n < 104" using True by linarith
  moreover have "columns (replicate (n div 8) (CHR 0x09) @ replicate (n mod 8) (CHR '' '')) 0 = n"
    using tabs [of "n div 8" _ 0] by (simp add: blanks)
  ultimately show ?thesis by (auto simp: i)
next
  case False
  then have "104 \<le> n" by linarith
  with False show ?thesis by (simp add: indent_def Let_def)
qed

end
