(* ===== verification/Scanner_Code.thy ===== *)
theory Scanner_Code
  imports Scanner_Emit
begin

text \<open>
  The generated files of \<^verbatim>\<open>scanner/src/scanner.c\<close> as a whole: the forward declarations, the table of
  argument types with the index each message gets into it, the message tables with their
  signatures, \<^verbatim>\<open>emit_header\<close>, \<^verbatim>\<open>emit_code\<close>, and the program that selects between them.
\<close>

section \<open>Forward declarations\<close>

text \<open>
  The first pass over the messages of an interface: it marks the messages whose arguments name no
  interface, records the longest of these in the protocol, and collects the names.
\<close>

definition names_interface :: "arg \<Rightarrow> bool" where
  "names_interface a \<longleftrightarrow> akind a \<in> {NEW_ID, OBJECT} \<and> ainterface a \<noteq> None"

definition arg_interfaces :: "message \<Rightarrow> string list" where
  "arg_interfaces m = map (\<lambda>a. the (ainterface a)) (filter names_interface (arg_list m))"

fun emit_types_forward_declarations :: "message list \<Rightarrow> nat \<Rightarrow> string list \<Rightarrow> message list \<times> nat \<times> string list" where
  "emit_types_forward_declarations [] run types = ([], run, types)"
| "emit_types_forward_declarations (m # ms) run types =
     (let null = (filter names_interface (arg_list m) = []);
          len = length (arg_list m);
          run = (if null \<and> len > run then len else run);
          (ms, run, types) = emit_types_forward_declarations ms run (types @ arg_interfaces m)
      in (m\<lparr>all_null := null\<rparr> # ms, run, types))"

fun forward_declarations :: "interface list \<Rightarrow> nat \<Rightarrow> string list \<Rightarrow> interface list \<times> nat \<times> string list" where
  "forward_declarations [] run types = ([], run, types)"
| "forward_declarations (i # is) run types =
     (let (rs, run, types) = emit_types_forward_declarations (request_list i) run types;
          (es, run, types) = emit_types_forward_declarations (event_list i) run types;
          (is, run, types) = forward_declarations is run types
      in (i\<lparr>request_list := rs, event_list := es\<rparr> # is, run, types))"

text \<open>
  Sorting with \<^verbatim>\<open>qsort\<close> and \<^verbatim>\<open>cmp_names\<close>, which is \<^verbatim>\<open>strcmp\<close>, and the loop that skips a name equal
  to the one printed last.
\<close>

fun skip_repeated :: "string option \<Rightarrow> string list \<Rightarrow> string list" where
  "skip_repeated prev [] = []"
| "skip_repeated prev (p # ps) =
     (if prev \<noteq> None \<and> strcmp p (the prev) = 0 then skip_repeated prev ps
      else p # skip_repeated (Some p) ps)"

definition sorted_names :: "string list \<Rightarrow> string list" where
  "sorted_names types = skip_repeated None (sort types)"

section \<open>The table of types\<close>

definition emit_null_run :: "nat \<Rightarrow> string list" where
  "emit_null_run run = replicate run (tab @ line [''NULL,''])"

definition type_line :: "arg \<Rightarrow> string" where
  "type_line a =
     (if akind a = NEW_ID \<or> akind a = OBJECT then
        (case ainterface a of
           Some t \<Rightarrow> tab @ line [''&'', t, ''_interface,'']
         | None \<Rightarrow> tab @ line [''NULL,''])
      else tab @ line [''NULL,''])"

text \<open>The messages with their index, the protocol's counter, and the lines printed.\<close>

fun emit_types :: "nat \<Rightarrow> nat \<Rightarrow> message list \<Rightarrow> message list \<times> nat \<times> string list" where
  "emit_types run ti [] = ([], ti, [])"
| "emit_types run ti (m # ms) =
     (if all_null m then
        let (ms, ti, out) = emit_types run ti ms in (m\<lparr>type_index := 0\<rparr> # ms, ti, out)
      else
        let (ms, ti', out) = emit_types run (ti + arg_count m) ms
        in (m\<lparr>type_index := run + ti\<rparr> # ms, ti', map type_line (arg_list m) @ out))"

fun emit_all_types :: "nat \<Rightarrow> nat \<Rightarrow> interface list \<Rightarrow> interface list \<times> nat \<times> string list" where
  "emit_all_types run ti [] = ([], ti, [])"
| "emit_all_types run ti (i # is) =
     (let (rs, ti, out1) = emit_types run ti (request_list i);
          (es, ti, out2) = emit_types run ti (event_list i);
          (is, ti, out3) = emit_all_types run ti is
      in (i\<lparr>request_list := rs, event_list := es\<rparr> # is, ti, out1 @ out2 @ out3))"

section \<open>The message tables\<close>

definition arg_signature :: "arg \<Rightarrow> string" where
  "arg_signature a =
     (if is_nullable_type a \<and> anullable a then ''?'' else []) @
     (case akind a of
        INT_T \<Rightarrow> ''i'' | NEW_ID \<Rightarrow> (if ainterface a = None then ''su'' else []) @ ''n''
      | UNSIGNED \<Rightarrow> ''u'' | FIXED \<Rightarrow> ''f'' | STRING \<Rightarrow> ''s'' | OBJECT \<Rightarrow> ''o'' | ARRAY \<Rightarrow> ''a'' | FD \<Rightarrow> ''h'')"

definition message_signature :: "message \<Rightarrow> string" where
  "message_signature m =
     (if msince m > 1 then show_int (msince m) else []) @ concat (map arg_signature (arg_list m))"

definition message_line :: "message \<Rightarrow> string" where
  "message_line m =
     tab @ line [''{ '', quot, mname m, quot, '', '', quot, message_signature m, quot, '', types + '',
       dec (type_index m), '' },'']"

definition emit_messages :: "message list \<Rightarrow> interface \<Rightarrow> string \<Rightarrow> string" where
  "emit_messages ms i suffix =
     (if ms = [] then []
      else line [''static const struct wl_message '', name i, ''_'', suffix, ''[] = {''] @
        concat (map message_line ms) @ line [''};''] @ endl)"

section \<open>The generated code\<close>

definition visibility_prologue :: "visibility \<Rightarrow> string" where
  "visibility_prologue vis =
     (if vis = PRIVATE then
        line [''#ifndef __has_attribute''] @
        line [''# define __has_attribute(x) 0  /* Compatibility with non-clang compilers. */''] @
        line [''#endif''] @ endl @
        line [''#if (__has_attribute(visibility) || defined(__GNUC__) && __GNUC__ >= 4)''] @
        line [''#define WL_PRIVATE __attribute__ ((visibility('', quot, ''hidden'', quot, '')))''] @
        line [''#else''] @ line [''#define WL_PRIVATE''] @ line [''#endif''] @ endl
      else [])"

definition symbol_visibility :: "visibility \<Rightarrow> string" where
  "symbol_visibility vis = (if vis = PRIVATE then ''WL_PRIVATE'' else ''WL_EXPORT'')"

definition table_ref :: "message list \<Rightarrow> interface \<Rightarrow> string \<Rightarrow> string" where
  "table_ref ms i suffix =
     (if ms \<noteq> [] then tab @ line [dec (length ms), '', '', name i, ''_'', suffix, '','']
      else tab @ line [''0, NULL,''])"

definition emit_interface :: "visibility \<Rightarrow> interface \<Rightarrow> string" where
  "emit_interface vis i =
     emit_messages (request_list i) i ''requests'' @
     emit_messages (event_list i) i ''events'' @
     line [symbol_visibility vis, '' const struct wl_interface '', name i, ''_interface = {''] @
     tab @ line [quot, name i, quot, '', '', show_int (version i), '',''] @
     table_ref (request_list i) i ''requests'' @
     table_ref (event_list i) i ''events'' @
     line [''};''] @ endl"

text \<open>
  The two passes over the protocol: the interfaces with their indices, the names to declare, and
  the lines of the table.
\<close>

definition type_table :: "protocol \<Rightarrow> interface list \<times> string list \<times> string list" where
  "type_table p =
     (let (is, run, names) = forward_declarations (interface_list p) (null_run_length p) [];
          (is, ti, out) = emit_all_types run (ptype_index p) is
      in (is, names, emit_null_run run @ out))"

definition emit_code :: "protocol \<Rightarrow> visibility \<Rightarrow> string" where
  "emit_code p vis =
     (let (is, names, table) = type_table p in
      (case copyright p of Some c \<Rightarrow> format_text_to_comment c True | None \<Rightarrow> []) @
      line [''#include <stdlib.h>''] @ line [''#include <stdint.h>''] @
      line [''#include '', quot, ''wayland-util.h'', quot] @ endl @
      visibility_prologue vis @
      concat (map (\<lambda>n. line [''extern const struct wl_interface '', n, ''_interface;'']) (sorted_names names)) @ endl @
      line [''static const struct wl_interface *types[] = {''] @
      concat table @ line [''};''] @ endl @
      concat (map (emit_interface vis) is))"

section \<open>The generated header\<close>

definition get_include_name :: "bool \<Rightarrow> side \<Rightarrow> string" where
  "get_include_name core side =
     (if side = SERVER then (if core then ''wayland-server-core.h'' else ''wayland-server.h'')
      else (if core then ''wayland-client-core.h'' else ''wayland-client.h''))"

definition emit_mainpage_blurb :: "protocol \<Rightarrow> side \<Rightarrow> string" where
  "emit_mainpage_blurb p side =
     line [''/**''] @ line ['' * @page page_'', str (pname p), '' The '', str (pname p), '' protocol''] @
     (case pdescription p of
        Some d \<Rightarrow> line ['' * '', summary d] @ line ['' *''] @
          (case dtext d of
             Some t \<Rightarrow> line ['' * @section page_desc_'', str (pname p), '' Description''] @
               format_text_to_comment t False @ line ['' *'']
           | None \<Rightarrow> [])
      | None \<Rightarrow> []) @
     line ['' * @section page_ifaces_'', str (pname p), '' Interfaces''] @
     concat (map (\<lambda>i. line ['' * - @subpage page_iface_'', name i, '' - '',
       (case idescription i of Some d \<Rightarrow> summary d | None \<Rightarrow> [])]) (interface_list p)) @
     (case copyright p of
        Some c \<Rightarrow> line ['' * @section page_copyright_'', str (pname p), '' Copyright''] @
          line ['' * <pre>''] @ format_text_to_comment c False @ line ['' * </pre>'']
      | None \<Rightarrow> []) @
     line ['' */'']"

definition emit_interface_page :: "interface \<Rightarrow> string" where
  "emit_interface_page i =
     (let text = Option.bind (idescription i) dtext in
      line [''/**''] @ line ['' * @page page_iface_'', name i, '' '', name i] @
      (case text of
         Some t \<Rightarrow> line ['' * @section page_iface_'', name i, ''_desc Description''] @ format_text_to_comment t False
       | None \<Rightarrow> []) @
      line ['' * @section page_iface_'', name i, ''_api API''] @
      line ['' * See @ref iface_'', name i, ''.''] @ line ['' */''] @
      line [''/**''] @ line ['' * @defgroup iface_'', name i, '' The '', name i, '' interface''] @
      (case text of Some t \<Rightarrow> format_text_to_comment t False | None \<Rightarrow> []) @
      line ['' */''] @ line [''extern const struct wl_interface '', name i, ''_interface;''])"

definition emit_interface_header :: "side \<Rightarrow> interface \<Rightarrow> scan_fault + string" where
  "emit_interface_header side i =
     econcat ([Inr (emit_enumerations i)] @
       (if side = SERVER then
          [emit_structs (request_list i) i side,
           Inr (emit_opcodes (event_list i) i),
           Inr (emit_opcode_versions (event_list i) i),
           Inr (emit_opcode_versions (request_list i) i),
           Inr (emit_event_wrappers (event_list i) i)]
        else
          [emit_structs (event_list i) i side,
           Inr (emit_opcodes (request_list i) i),
           Inr (emit_opcode_versions (event_list i) i),
           Inr (emit_opcode_versions (request_list i) i),
           emit_stubs (request_list i) i]))"

definition side_name :: "side \<Rightarrow> string" where
  "side_name side = (if side = SERVER then ''SERVER'' else ''CLIENT'')"

definition emit_header :: "protocol \<Rightarrow> side \<Rightarrow> scan_fault + string" where
  "emit_header p side =
     (let (is, run, names) = forward_declarations (interface_list p) (null_run_length p) [];
          guard = str (puppercase p) @ ''_'' @ side_name side @ ''_PROTOCOL_H''
      in econcat [
        Inr (line [''#ifndef '', guard] @ line [''#define '', guard] @ endl @
          line [''#include <stdint.h>''] @ line [''#include <stddef.h>''] @
          line [''#include '', quot, get_include_name (core_headers p) side, quot] @ endl @
          line [''#ifdef  __cplusplus''] @ line [''extern '', quot, ''C'', quot, '' {''] @ line [''#endif''] @ endl @
          (if side = SERVER then line [''struct wl_client;''] @ line [''struct wl_resource;''] @ endl else []) @
          emit_mainpage_blurb p side @
          concat (map (\<lambda>n. line [''struct '', n, '';'']) (sorted_names (names @ map name is))) @ endl @
          concat (map emit_interface_page is) @ endl),
        econcat (map (emit_interface_header side) is),
        Inr (line [''#ifdef  __cplusplus''] @ line [''}''] @ line [''#endif''] @ endl @ line [''#endif''])])"

section \<open>The program\<close>

datatype mode = CLIENT_HEADER | SERVER_HEADER | PRIVATE_CODE | PUBLIC_CODE | CODE

datatype exit = Usage bool | Version | Failure | Stopped scan_fault | Success string

fun mode_of :: "string \<Rightarrow> mode option" where
  "mode_of s =
     (if s = ''client-header'' then Some CLIENT_HEADER else if s = ''server-header'' then Some SERVER_HEADER
      else if s = ''private-code'' then Some PRIVATE_CODE else if s = ''public-code'' then Some PUBLIC_CODE
      else if s = ''code'' then Some CODE else None)"

definition emit_mode :: "mode \<Rightarrow> protocol \<Rightarrow> scan_fault + string" where
  "emit_mode mode p = (case mode of
     CLIENT_HEADER \<Rightarrow> emit_header p CLIENT
   | SERVER_HEADER \<Rightarrow> emit_header p SERVER
   | PRIVATE_CODE \<Rightarrow> Inr (emit_code p PRIVATE)
   | CODE \<Rightarrow> Inr (emit_code p PUBLIC)
   | PUBLIC_CODE \<Rightarrow> Inr (emit_code p PUBLIC))"

text \<open>
  What the program learns from its environment: the options \<^verbatim>\<open>getopt_long\<close> finds, the remaining
  arguments, whether the files can be opened and the DTD accepts the input, whether expat starts,
  and the callbacks expat makes for each block of input.
\<close>

record environment =
  env_opts :: string
  env_argv :: "string list"
  fopen_ok :: bool
  freopen_ok :: bool
  dtd_valid :: bool
  parser_ok :: bool
  env_blocks :: "(xml_event list \<times> bool) list"

definition original_main :: "environment \<Rightarrow> exit" where
  "original_main e =
     (let help = (CHR ''h'' \<in> set (env_opts e)); version = (CHR ''v'' \<in> set (env_opts e));
          core = (CHR ''c'' \<in> set (env_opts e)); strict = (CHR ''s'' \<in> set (env_opts e));
          failed = (\<exists>c \<in> set (env_opts e). c \<notin> set ''hvcs'')
      in if help then Usage True
         else if version then Version
         else if (length (env_argv e) \<noteq> 1 \<and> length (env_argv e) \<noteq> 3) \<or> failed then Usage False
         else if env_argv e ! 0 = ''help'' then Usage True
         else (case mode_of (env_argv e ! 0) of
             None \<Rightarrow> Usage False
           | Some mode \<Rightarrow>
               if length (env_argv e) = 3 \<and> (\<not> fopen_ok e \<or> \<not> freopen_ok e) then Failure
               else if \<not> dtd_valid e \<and> strict then Failure
               else if \<not> parser_ok e then Failure
               else (case parse_blocks (env_blocks e) (empty_context core) of
                   Inl f \<Rightarrow> Stopped f
                 | Inr ctx \<Rightarrow> (case emit_mode mode (protocol ctx) of Inl f \<Rightarrow> Stopped f | Inr s \<Rightarrow> Success s))))"

section \<open>The first pass\<close>

definition mark_null :: "message \<Rightarrow> message" where
  "mark_null m = m\<lparr>all_null := (filter names_interface (arg_list m) = [])\<rparr>"

lemma forward_messages:
  "emit_types_forward_declarations ms run types = (ms', run', types') \<Longrightarrow>
     ms' = map mark_null ms \<and> types' = types @ concat (map arg_interfaces ms) \<and> run \<le> run' \<and>
     (\<forall>m \<in> set ms'. all_null m \<longrightarrow> length (arg_list m) \<le> run')"
proof (induction ms arbitrary: run types ms' run' types')
  case Nil
  then show ?case by simp
next
  case (Cons m ms)
  let ?null = "filter names_interface (arg_list m) = []"
  let ?run = "if ?null \<and> length (arg_list m) > run then length (arg_list m) else run"
  obtain ms1 run1 types1 where r: "emit_types_forward_declarations ms ?run (types @ arg_interfaces m) = (ms1, run1, types1)"
    by (rule prod_cases3)
  note ih = Cons.IH [OF r]
  have e: "ms' = mark_null m # ms1" "run' = run1" "types' = types1"
    using Cons.prems r by (simp_all add: Let_def mark_null_def)
  have "?null \<longrightarrow> length (arg_list m) \<le> ?run" "run \<le> ?run" by auto
  with ih show ?case by (auto simp: e mark_null_def)
qed

definition mark_interface :: "interface \<Rightarrow> interface" where
  "mark_interface i = i\<lparr>request_list := map mark_null (request_list i), event_list := map mark_null (event_list i)\<rparr>"

definition interface_messages :: "interface \<Rightarrow> message list" where
  "interface_messages i = request_list i @ event_list i"

definition referenced :: "interface list \<Rightarrow> string list" where
  "referenced is = concat (map arg_interfaces (concat (map interface_messages is)))"

lemma forward_declarations_ok:
  "forward_declarations is run types = (is', run', types') \<Longrightarrow>
     is' = map mark_interface is \<and> types' = types @ referenced is \<and> run \<le> run' \<and>
     (\<forall>i \<in> set is'. \<forall>m \<in> set (interface_messages i). all_null m \<longrightarrow> length (arg_list m) \<le> run')"
proof (induction "is" arbitrary: run types is' run' types')
  case Nil
  then show ?case by (simp add: referenced_def)
next
  case (Cons i "is")
  obtain rs run1 types1 where r: "emit_types_forward_declarations (request_list i) run types = (rs, run1, types1)"
    by (rule prod_cases3)
  obtain es run2 types2 where e: "emit_types_forward_declarations (event_list i) run1 types1 = (es, run2, types2)"
    by (rule prod_cases3)
  obtain is1 run3 types3 where f: "forward_declarations is run2 types2 = (is1, run3, types3)"
    by (rule prod_cases3)
  have eq: "is' = i\<lparr>request_list := rs, event_list := es\<rparr> # is1" "run' = run3" "types' = types3"
    using Cons.prems r e f by simp_all
  note r' = forward_messages [OF r] and e' = forward_messages [OF e] and f' = Cons.IH [OF f]
  have "run1 \<le> run3" "run2 \<le> run3" using e' f' by simp_all
  with r' e' f' show ?case
    unfolding eq by (auto simp: mark_interface_def referenced_def interface_messages_def; meson le_trans)
qed

section \<open>Names are declared once and in order\<close>

lemma skip_repeated_set: "sorted ps \<Longrightarrow> set (skip_repeated prev ps) \<union> set_option prev = set ps \<union> set_option prev"
proof (induction ps arbitrary: prev)
  case (Cons p ps)
  have "set (skip_repeated (Some p) ps) \<union> {p} = set ps \<union> {p}"
    using Cons.IH [of "Some p"] Cons.prems by simp
  with Cons.IH [of prev] Cons.prems show ?case by (auto simp: strcmp_def)
qed simp

lemma skip_repeated_sorted:
  "sorted ps \<Longrightarrow> (\<forall>q. prev = Some q \<longrightarrow> (\<forall>p \<in> set ps. q \<le> p)) \<Longrightarrow>
   sorted_wrt (<) (skip_repeated prev ps) \<and> (\<forall>q. prev = Some q \<longrightarrow> (\<forall>p \<in> set (skip_repeated prev ps). q < p))"
proof (induction ps arbitrary: prev)
  case (Cons p ps)
  show ?case
  proof (cases "prev = Some p")
    case True
    with Cons show ?thesis by (auto simp: strcmp_def)
  next
    case False
    have ih: "sorted_wrt (<) (skip_repeated (Some p) ps)" "\<forall>x \<in> set (skip_repeated (Some p) ps). p < x"
      using Cons.IH [of "Some p"] Cons.prems(1) by auto
    have "q < p" if "prev = Some q" for q
      using that Cons.prems(2) False by (auto simp: order_le_less)
    with ih False show ?thesis
      by (cases prev) (auto simp: strcmp_def intro: order_less_trans)
  qed
qed simp

lemma sorted_names_ok:
  "sorted_wrt (<) (sorted_names types)" "set (sorted_names types) = set types"
proof -
  show "sorted_wrt (<) (sorted_names types)"
    using skip_repeated_sorted [of "sort types" None] by (simp add: sorted_names_def)
  show "set (sorted_names types) = set types"
    using skip_repeated_set [of "sort types" None] by (simp add: sorted_names_def)
qed

section \<open>The second pass\<close>

text \<open>The entries from a message's index on are those of its arguments.\<close>

definition aligned :: "string list \<Rightarrow> message \<Rightarrow> bool" where
  "aligned table m \<longleftrightarrow> take (length (arg_list m)) (drop (type_index m) table) = map type_line (arg_list m)"

lemma aligned_append: "aligned table m \<Longrightarrow> aligned (table @ ext) m"
proof -
  assume a: "aligned table m"
  then have "length (take (length (arg_list m)) (drop (type_index m) table)) = length (arg_list m)"
    by (simp add: aligned_def)
  then have "length (arg_list m) \<le> length (drop (type_index m) table)" by simp
  with a show ?thesis by (cases "arg_list m = []") (auto simp: aligned_def)
qed

lemma aligned_nth:
  assumes "aligned table m" "k < length (arg_list m)"
  shows "type_index m + k < length table \<and> table ! (type_index m + k) = type_line (arg_list m ! k)"
proof -
  have a: "take (length (arg_list m)) (drop (type_index m) table) = map type_line (arg_list m)"
    using assms(1) by (simp add: aligned_def)
  from arg_cong [OF a, of length] have "length (arg_list m) \<le> length table - type_index m" by simp
  then have len: "type_index m + k < length table" using assms(2) by linarith
  have "take (length (arg_list m)) (drop (type_index m) table) ! k = table ! (type_index m + k)"
    using assms(2) len by simp
  with a assms(2) len show ?thesis by simp
qed

lemma emit_types_ok:
  "emit_types run ti ms = (ms', ti', out) \<Longrightarrow> \<forall>m \<in> set ms. arg_count m = length (arg_list m) \<Longrightarrow>
   length pre = run + ti \<Longrightarrow>
     ti' = ti + length out \<and>
     (\<forall>m \<in> set ms'. if all_null m then type_index m = 0 else aligned (pre @ out) m) \<and>
     map (\<lambda>m. m\<lparr>type_index := 0\<rparr>) ms' = map (\<lambda>m. m\<lparr>type_index := 0\<rparr>) ms"
proof (induction ms arbitrary: ti ms' ti' out pre)
  case Nil
  then show ?case by simp
next
  case (Cons m ms)
  show ?case
  proof (cases "all_null m")
    case True
    obtain ms1 ti1 out1 where r: "emit_types run ti ms = (ms1, ti1, out1)" by (rule prod_cases3)
    have e: "ms' = m\<lparr>type_index := 0\<rparr> # ms1" "ti' = ti1" "out = out1" using Cons.prems(1) True r by simp_all
    from Cons.IH [OF r _ Cons.prems(3)] Cons.prems(2) True show ?thesis by (simp add: e)
  next
    case False
    obtain ms1 ti1 out1 where r: "emit_types run (ti + arg_count m) ms = (ms1, ti1, out1)" by (rule prod_cases3)
    have e: "ms' = m\<lparr>type_index := run + ti\<rparr> # ms1" "ti' = ti1" "out = map type_line (arg_list m) @ out1"
      using Cons.prems(1) False r by simp_all
    have c: "arg_count m = length (arg_list m)" using Cons.prems(2) by simp
    have "length (pre @ map type_line (arg_list m)) = run + (ti + arg_count m)" using Cons.prems(3) c by simp
    note ih = Cons.IH [OF r _ this, unfolded append_assoc]
    have "aligned (pre @ out) (m\<lparr>type_index := run + ti\<rparr>)"
      using Cons.prems(3) by (simp add: aligned_def e)
    with ih Cons.prems(2) False c show ?thesis by (simp add: e)
  qed
qed

lemma emit_all_types_ok:
  "emit_all_types run ti is = (is', ti', out) \<Longrightarrow>
   \<forall>i \<in> set is. \<forall>m \<in> set (interface_messages i). arg_count m = length (arg_list m) \<Longrightarrow> length pre = run + ti \<Longrightarrow>
     ti' = ti + length out \<and>
     (\<forall>i \<in> set is'. \<forall>m \<in> set (interface_messages i). if all_null m then type_index m = 0 else aligned (pre @ out) m) \<and>
     map (\<lambda>i. map (\<lambda>m. m\<lparr>type_index := 0\<rparr>) (interface_messages i)) is' =
     map (\<lambda>i. map (\<lambda>m. m\<lparr>type_index := 0\<rparr>) (interface_messages i)) is"
proof (induction "is" arbitrary: ti is' ti' out pre)
  case Nil
  then show ?case by simp
next
  case (Cons i "is")
  obtain rs t1 o1 where r: "emit_types run ti (request_list i) = (rs, t1, o1)" by (rule prod_cases3)
  obtain es t2 o2 where e: "emit_types run t1 (event_list i) = (es, t2, o2)" by (rule prod_cases3)
  obtain is1 t3 o3 where f: "emit_all_types run t2 is = (is1, t3, o3)" by (rule prod_cases3)
  have eq: "is' = i\<lparr>request_list := rs, event_list := es\<rparr> # is1" "ti' = t3" "out = o1 @ o2 @ o3"
    using Cons.prems(1) r e f by simp_all
  have cnt: "\<forall>m \<in> set (request_list i). arg_count m = length (arg_list m)"
    "\<forall>m \<in> set (event_list i). arg_count m = length (arg_list m)"
    "\<forall>i \<in> set is. \<forall>m \<in> set (interface_messages i). arg_count m = length (arg_list m)"
    using Cons.prems(2) by (auto simp: interface_messages_def)
  note r' = emit_types_ok [OF r cnt(1) Cons.prems(3)]
  have l1: "length (pre @ o1) = run + t1" using r' Cons.prems(3) by simp
  note e' = emit_types_ok [OF e cnt(2) l1, unfolded append_assoc]
  have l2: "length ((pre @ o1) @ o2) = run + t2" using e' l1 by simp
  note f' = Cons.IH [OF f cnt(3) l2, unfolded append_assoc]
  have "aligned (pre @ o1) m \<Longrightarrow> aligned (pre @ o1 @ o2 @ o3) m" for m
    using aligned_append [of "pre @ o1" m "o2 @ o3"] by simp
  moreover have "aligned (pre @ o1 @ o2) m \<Longrightarrow> aligned (pre @ o1 @ o2 @ o3) m" for m
    using aligned_append [of "pre @ o1 @ o2" m o3] by simp
  ultimately show ?case
    using r' e' f' unfolding eq by (auto simp: interface_messages_def split: if_splits)
qed

lemma type_line_null: "filter names_interface as = [] \<Longrightarrow> map type_line as = replicate (length as) (tab @ line [''NULL,''])"
  by (induction as) (auto simp: names_interface_def type_line_def split: option.splits if_splits)

lemma type_table_aligned:
  assumes wf: "wf_protocol p" and t: "type_table p = (is, names, table)"
    and i: "i \<in> set is" and m: "m \<in> set (interface_messages i)"
  shows "aligned table m"
proof -
  obtain is1 run ns where f: "forward_declarations (interface_list p) (null_run_length p) [] = (is1, run, ns)"
    by (rule prod_cases3)
  obtain is2 ti out where e: "emit_all_types run (ptype_index p) is1 = (is2, ti, out)" by (rule prod_cases3)
  have eq: "is = is2" "table = emit_null_run run @ out" using t by (simp_all add: type_table_def f e)
  note f' = forward_declarations_ok [OF f]
  have cnt: "\<forall>i \<in> set is1. \<forall>m \<in> set (interface_messages i). arg_count m = length (arg_list m)"
    using wf f' by (auto simp: wf_protocol_def list_all_iff wf_interface_def wf_message_def
        mark_interface_def interface_messages_def mark_null_def)
  have "length (emit_null_run run) = run + ptype_index p" using wf by (simp add: emit_null_run_def wf_protocol_def)
  note e' = emit_all_types_ok [OF e cnt this]
  show ?thesis
  proof (cases "all_null m")
    case False
    with e' i m show ?thesis by (auto simp: eq)
  next
    case True
    have "map (\<lambda>m. m\<lparr>type_index := 0\<rparr>) (interface_messages i) \<in>
        set (map (\<lambda>i. map (\<lambda>m. m\<lparr>type_index := 0\<rparr>) (interface_messages i)) is1)"
      using i e' unfolding eq by (metis (no_types, lifting) image_eqI list.set_map)
    then obtain j where j: "j \<in> set is1"
      "map (\<lambda>m. m\<lparr>type_index := 0\<rparr>) (interface_messages i) = map (\<lambda>m. m\<lparr>type_index := 0\<rparr>) (interface_messages j)"
      by auto
    have "m\<lparr>type_index := 0\<rparr> \<in> set (map (\<lambda>m. m\<lparr>type_index := 0\<rparr>) (interface_messages j))"
      using m unfolding j(2) [symmetric] by auto
    then obtain n where n: "n \<in> set (interface_messages j)" "m\<lparr>type_index := 0\<rparr> = n\<lparr>type_index := 0\<rparr>" by auto
    have mn: "arg_list m = arg_list n" "all_null m = all_null n"
      using arg_cong [OF n(2), of arg_list] arg_cong [OF n(2), of all_null] by simp_all
    obtain n0 where n0: "n = mark_null n0"
      using n(1) j(1) f' by (auto simp: mark_interface_def interface_messages_def)
    have null: "filter names_interface (arg_list m) = []"
      using True mn by (simp add: n0 mark_null_def)
    have "length (arg_list m) \<le> run" using f' j(1) n(1) True mn by auto
    moreover have "type_index m = 0" using e' i m True by (auto simp: eq)
    ultimately show ?thesis
      by (simp add: aligned_def eq emit_null_run_def type_line_null [OF null] min_def)
  qed
qed

section \<open>Printing the header\<close>

lemma isl_ebind [simp]: "isl (ebind x f) \<longleftrightarrow> isl x \<or> isl (f (projr x))"
  by (cases x) auto

lemma isl_econcat [simp, scan_simps]: "isl (econcat xs) \<longleftrightarrow> (\<exists>x \<in> set xs. isl x)"
  by (induction xs) auto

lemma indent_defined: "isl (indent n) \<longleftrightarrow> 104 \<le> n"
  by (auto simp: indent_def Let_def div_le_dividend less_eq_div_iff_mult_less_eq)

lemma dump_words_defined: "startcol < 104 \<Longrightarrow> \<not> isl (dump_words hang startcol started col desc)"
proof (induction hang startcol started col desc rule: dump_words.induct)
  case (1 hang startcol started col desc)
  show ?case
    using 1(2) by (subst dump_words.simps) (auto simp: Let_def indent_defined 1(1))
qed

lemma desc_dump_defined: "\<not> isl (desc_dump desc (tab @ '' * ''))"
  by (auto simp: desc_dump_def Let_def tab_def dump_words_defined split: option.splits)

text \<open>The names that fit \<^verbatim>\<open>indent\<close>.\<close>

definition short_names :: "side \<Rightarrow> interface \<Rightarrow> bool" where
  "short_names side i \<longleftrightarrow>
     (if side = SERVER then \<forall>m \<in> set (request_list i). length (mname m) < 87
      else (\<forall>m \<in> set (event_list i). length (mname m) < 87) \<and> (event_list i \<noteq> [] \<longrightarrow> length (name i) < 90))"

lemma emit_struct_member_defined:
  "isl (emit_struct_member i side m) \<longleftrightarrow> 87 \<le> length (mname m)"
  by (auto simp: emit_struct_member_def indent_defined desc_dump_defined split: option.splits)

lemma emit_structs_defined:
  "isl (emit_structs ms i side) \<longleftrightarrow>
     (\<exists>m \<in> set ms. 87 \<le> length (mname m)) \<or> side = CLIENT \<and> ms \<noteq> [] \<and> 90 \<le> length (name i)"
  by (auto simp: emit_structs_def emit_struct_member_defined emit_add_listener_def indent_defined)

lemma emit_stubs_defined:
  assumes "\<forall>m \<in> set ms. mname m = ''destroy'' \<longrightarrow> destructor m"
  shows "\<not> isl (emit_stubs ms i)"
  using assms by (auto simp: emit_stubs_def Let_def list_ex_iff)

lemma emit_interface_header_defined:
  assumes "wf_interface i"
  shows "isl (emit_interface_header side i) \<longleftrightarrow> \<not> short_names side i"
proof -
  have "\<forall>m \<in> set (request_list i). mname m = ''destroy'' \<longrightarrow> destructor m"
    using assms by (simp add: wf_interface_def wf_message_def list_all_iff)
  from emit_stubs_defined [OF this, of i] show ?thesis
    by (cases side) (auto simp: emit_interface_header_def emit_structs_defined short_names_def not_less)
qed

lemma mark_interface_wf: "wf_interface i \<Longrightarrow> wf_interface (mark_interface i)"
  by (auto simp: wf_interface_def mark_interface_def list_all_iff wf_message_def mark_null_def)

lemma mark_interface_short [simp]: "short_names side (mark_interface i) = short_names side i"
  by (auto simp: short_names_def mark_interface_def mark_null_def)

lemma emit_header_defined:
  assumes "wf_protocol p"
  shows "isl (emit_header p side) \<longleftrightarrow> \<not> (\<forall>i \<in> set (interface_list p). short_names side i)"
proof -
  obtain "is" run ns where f: "forward_declarations (interface_list p) (null_run_length p) [] = (is, run, ns)"
    by (rule prod_cases3)
  then have "is = map mark_interface (interface_list p)" using forward_declarations_ok by blast
  moreover have "\<forall>i \<in> set (interface_list p). wf_interface i"
    using assms by (simp add: wf_protocol_def list_all_iff)
  ultimately show ?thesis
    by (auto simp: emit_header_def f Let_def emit_interface_header_defined mark_interface_wf)
qed

section \<open>Properties\<close>

text \<open>
  C15: In the code generated for any accepted protocol the type table serves every message: the
  entries from the message's index on are, argument by argument, the address of the interface the
  argument names, or null, and none lies beyond the end of the table. Messages that name no
  interface share the run of nulls at its start.
\<close>

theorem types_aligned:
  assumes "parse_blocks bs (empty_context core) = Inr ctx" "type_table (protocol ctx) = (is, names, table)"
    and "i \<in> set is" "m \<in> set (request_list i) \<union> set (event_list i)" "k < length (arg_list m)"
  shows "type_index m + k < length table \<and> table ! (type_index m + k) = type_line (arg_list m ! k)"
proof -
  have "m \<in> set (interface_messages i)" using assms(4) by (simp add: interface_messages_def)
  with type_table_aligned [OF parse_wf [OF assms(1)] assms(2,3)] have "aligned table m" by simp
  then show ?thesis by (rule aligned_nth [OF _ assms(5)])
qed

definition reg_indexed :: interface where
  "reg_indexed = reg_interface\<lparr>request_list := [bind_message]\<rparr>"

lemma sample_type_table:
  assumes "interface_list p = [reg_interface]" "ptype_index p = 0" "null_run_length p = 0"
  shows "type_table p = ([reg_indexed], [''reg''], [tab @ line [''NULL,''], tab @ line [''&reg_interface,'']])"
  using assms
  by (simp add: type_table_def reg_indexed_def reg_interface_def bind_message_def names_interface_def
      arg_interfaces_def type_line_def emit_null_run_def line_def)

theorem types_aligned_witness:
  "\<exists>ctx names table. parse_blocks [(sample_document, True)] (empty_context False) = Inr ctx \<and>
     type_table (protocol ctx) = ([reg_indexed], names, table) \<and>
     table ! (type_index bind_message + 1) = tab @ line [''&reg_interface,'']"
proof -
  obtain ctx where p: "parse_blocks [(sample_document, True)] (empty_context False) = Inr ctx"
    and c: "interface_list (protocol ctx) = [reg_interface]" by (rule parse_sample)
  then have t: "type_table (protocol ctx) = ([reg_indexed], [''reg''], [tab @ line [''NULL,''], tab @ line [''&reg_interface,'']])"
    using sample_type_table parse_wf [OF p] by (simp add: wf_protocol_def)
  have "reg_indexed \<in> set [reg_indexed]"
    "bind_message \<in> set (request_list reg_indexed) \<union> set (event_list reg_indexed)"
    "1 < length (arg_list bind_message)"
    by (simp_all add: reg_indexed_def bind_message_def)
  from types_aligned [OF p t this] p t show ?thesis
    by (auto simp: bind_message_def type_line_def line_def)
qed

text \<open>
  The forward declarations of the generated files name every interface that an argument refers
  to exactly once and in increasing order.
\<close>

theorem declared_once:
  "sorted_names types = sorted_list_of_set (set types)"
  using sorted_names_ok [of types]
  by (metis sorted_list_of_set.idem_if_sorted_distinct strict_sorted_iff)

text \<open>
  C38: For an accepted protocol the header is printed to its end unless a name is too long for
  \<^verbatim>\<open>indent\<close>: a message name of 87 characters or, for the client, an interface name of 90 make it read in
  front of its strings. The check for \<^verbatim>\<open>destroy\<close> requests that are no destructors never fails there,
  because the parser has already refused them.
\<close>

theorem header_printed:
  assumes "parse_blocks bs (empty_context core) = Inr ctx"
  shows "(\<exists>text. emit_header (protocol ctx) side = Inr text) \<longleftrightarrow>
    (\<forall>i \<in> set (interface_list (protocol ctx)). short_names side i)"
proof -
  have "wf_protocol (protocol ctx)" by (rule parse_wf [OF assms])
  from emit_header_defined [OF this, of side] show ?thesis by (cases "emit_header (protocol ctx) side") auto
qed

theorem header_printed_witness:
  "\<exists>ctx text. parse_blocks [(sample_document, True)] (empty_context False) = Inr ctx \<and>
     emit_header (protocol ctx) SERVER = Inr text"
proof -
  obtain ctx where p: "parse_blocks [(sample_document, True)] (empty_context False) = Inr ctx"
    and c: "interface_list (protocol ctx) = [reg_interface]" by (rule parse_sample)
  have "short_names SERVER reg_interface" by (simp add: short_names_def reg_interface_def bind_message_def)
  with header_printed [OF p, of SERVER] c p show ?thesis by auto
qed

end
