(* ===== verification/Wl_List.thy ===== *)
theory Wl_List
  imports Prelude
begin

text \<open>
  The intrusive doubly linked lists of \<^verbatim>\<open>wayland-util.c\<close> (\<^verbatim>\<open>wl_list_*\<close>), which hold the scanner's
  interfaces, messages, arguments and enumerations and every listener and source list of the
  Wayland library. Nodes live in an explicit heap, so that aliasing between the list head and
  its elements is that of the C code. A list is abstracted to the sequence of its elements.
\<close>

section \<open>Nodes and the heap\<close>

type_synonym addr = nat

record wl_list =
  prev :: addr
  nxt :: addr

type_synonym list_heap = "addr \<rightharpoonup> wl_list"

definition NULL :: addr where
  "NULL = 0"

text \<open>Reading or writing a field of a node that is not allocated is a crash, \<open>None\<close>.\<close>

definition get_next :: "list_heap \<Rightarrow> addr \<Rightarrow> addr option" where
  "get_next h a = map_option nxt (h a)"

definition get_prev :: "list_heap \<Rightarrow> addr \<Rightarrow> addr option" where
  "get_prev h a = map_option prev (h a)"

definition set_next :: "list_heap \<Rightarrow> addr \<Rightarrow> addr \<Rightarrow> list_heap option" where
  "set_next h a v = map_option (\<lambda>n. h(a \<mapsto> n\<lparr>nxt := v\<rparr>)) (h a)"

definition set_prev :: "list_heap \<Rightarrow> addr \<Rightarrow> addr \<Rightarrow> list_heap option" where
  "set_prev h a v = map_option (\<lambda>n. h(a \<mapsto> n\<lparr>prev := v\<rparr>)) (h a)"

section \<open>Operations\<close>

definition wl_list_init :: "list_heap \<Rightarrow> addr \<Rightarrow> list_heap option" where
  "wl_list_init h list = do {
     h \<leftarrow> set_prev h list list;
     set_next h list list
   }"

definition wl_list_insert :: "list_heap \<Rightarrow> addr \<Rightarrow> addr \<Rightarrow> list_heap option" where
  "wl_list_insert h list elm = do {
     h \<leftarrow> set_prev h elm list;
     list_next \<leftarrow> get_next h list;
     h \<leftarrow> set_next h elm list_next;
     h \<leftarrow> set_next h list elm;
     elm_next \<leftarrow> get_next h elm;
     set_prev h elm_next elm
   }"

definition wl_list_remove :: "list_heap \<Rightarrow> addr \<Rightarrow> list_heap option" where
  "wl_list_remove h elm = do {
     elm_prev \<leftarrow> get_prev h elm;
     elm_next \<leftarrow> get_next h elm;
     h \<leftarrow> set_next h elm_prev elm_next;
     elm_next \<leftarrow> get_next h elm;
     elm_prev \<leftarrow> get_prev h elm;
     h \<leftarrow> set_prev h elm_next elm_prev;
     h \<leftarrow> set_next h elm NULL;
     set_prev h elm NULL
   }"

text \<open>
  The traversals run until they are back at the head. On a damaged ring they may never be, so
  they are partial: \<open>None\<close> is a crash or a loop that does not end.
\<close>

partial_function (option) wl_list_length_loop ::
    "list_heap \<Rightarrow> addr \<Rightarrow> addr \<Rightarrow> nat \<Rightarrow> nat option" where
  "wl_list_length_loop h list e count =
     (if e \<noteq> list then do {
        e' \<leftarrow> get_next h e;
        wl_list_length_loop h list e' (count + 1)
      } else Some count)"

definition wl_list_length :: "list_heap \<Rightarrow> addr \<Rightarrow> nat option" where
  "wl_list_length h list = do {
     e \<leftarrow> get_next h list;
     wl_list_length_loop h list e 0
   }"

definition wl_list_empty :: "list_heap \<Rightarrow> addr \<Rightarrow> bool option" where
  "wl_list_empty h list = do {
     n \<leftarrow> get_next h list;
     Some (n = list)
   }"

definition wl_list_insert_list :: "list_heap \<Rightarrow> addr \<Rightarrow> addr \<Rightarrow> list_heap option" where
  "wl_list_insert_list h list other = do {
     e \<leftarrow> wl_list_empty h other;
     if e then Some h else do {
       other_next \<leftarrow> get_next h other;
       h \<leftarrow> set_prev h other_next list;
       other_prev \<leftarrow> get_prev h other;
       list_next \<leftarrow> get_next h list;
       h \<leftarrow> set_next h other_prev list_next;
       list_next \<leftarrow> get_next h list;
       other_prev \<leftarrow> get_prev h other;
       h \<leftarrow> set_prev h list_next other_prev;
       other_next \<leftarrow> get_next h other;
       set_next h list other_next
     }
   }"

text \<open>The nodes \<^verbatim>\<open>wl_list_for_each\<close> visits, in order.\<close>

partial_function (option) wl_list_for_each_loop ::
    "list_heap \<Rightarrow> addr \<Rightarrow> addr \<Rightarrow> addr list option" where
  "wl_list_for_each_loop h head pos =
     (if pos \<noteq> head then do {
        pos' \<leftarrow> get_next h pos;
        rest \<leftarrow> wl_list_for_each_loop h head pos';
        Some (pos # rest)
      } else Some [])"

definition wl_list_for_each :: "list_heap \<Rightarrow> addr \<Rightarrow> addr list option" where
  "wl_list_for_each h head = do {
     pos \<leftarrow> get_next h head;
     wl_list_for_each_loop h head pos
   }"

section \<open>Abstraction to sequences\<close>

definition linked :: "list_heap \<Rightarrow> addr \<Rightarrow> addr \<Rightarrow> bool" where
  "linked h x y \<longleftrightarrow> get_next h x = Some y \<and> get_prev h y = Some x"

text \<open>\<open>wl_ring h l xs\<close>: the list with head \<open>l\<close> holds exactly the elements \<open>xs\<close>.\<close>

definition wl_ring :: "list_heap \<Rightarrow> addr \<Rightarrow> addr list \<Rightarrow> bool" where
  "wl_ring h l xs \<longleftrightarrow> distinct (l # xs) \<and> successively (linked h) (l # xs @ [l])"

lemma linked_dom: "linked h x y \<Longrightarrow> x \<in> dom h \<and> y \<in> dom h"
  by (auto simp: linked_def get_next_def get_prev_def)

text \<open>A segment is unaffected by writes outside the links it is made of.\<close>

lemma successively_linked_frame:
  assumes "\<forall>x \<in> set (butlast xs). get_next h' x = get_next h x"
    and "\<forall>y \<in> set (tl xs). get_prev h' y = get_prev h y"
    and "successively (linked h) xs"
  shows "successively (linked h') xs"
  using assms
proof (induction "linked h" xs rule: successively.induct)
  case (3 x y xs)
  then show ?case by (cases xs) (auto simp: linked_def split: if_splits)
qed auto

lemma successively_linked_update:
  assumes "successively (linked h) xs"
    and "\<And>x. x \<notin> A \<Longrightarrow> get_next h' x = get_next h x" "A \<inter> set (butlast xs) = {}"
    and "\<And>y. y \<notin> B \<Longrightarrow> get_prev h' y = get_prev h y" "B \<inter> set (tl xs) = {}"
  shows "successively (linked h') xs"
  using assms by (intro successively_linked_frame [of xs h' h]) blast+

lemma wl_ring_dom: "wl_ring h l xs \<Longrightarrow> set (l # xs) \<subseteq> dom h"
proof -
  have "successively (linked h) (xs @ [y]) \<Longrightarrow> xs \<noteq> [] \<Longrightarrow> set xs \<subseteq> dom h" for xs y
    by (induction xs) (auto simp: successively_Cons hd_append dest: linked_dom split: if_splits)
  from this [of "l # xs" l] show "wl_ring h l xs \<Longrightarrow> ?thesis"
    by (auto simp: wl_ring_def)
qed

lemma wl_ring_split:
  "wl_ring h l (as @ bs) \<longleftrightarrow> distinct (l # as @ bs) \<and>
     successively (linked h) (l # as) \<and> linked h (last (l # as)) (hd (bs @ [l])) \<and>
     successively (linked h) (bs @ [l])"
  by (auto simp: wl_ring_def successively_append_iff simp flip: append_Cons)

section \<open>Effect of the operations on the heap\<close>

lemma set_next_next [wlist_simps]:
  "set_next h a v = Some h' \<Longrightarrow> get_next h' = (get_next h)(a := Some v)"
  by (rule ext) (auto simp: set_next_def get_next_def)

lemma set_next_prev [wlist_simps]:
  "set_next h a v = Some h' \<Longrightarrow> get_prev h' = get_prev h"
  by (rule ext) (auto simp: set_next_def get_prev_def)

lemma set_prev_prev [wlist_simps]:
  "set_prev h a v = Some h' \<Longrightarrow> get_prev h' = (get_prev h)(a := Some v)"
  by (rule ext) (auto simp: set_prev_def get_prev_def)

lemma set_prev_next [wlist_simps]:
  "set_prev h a v = Some h' \<Longrightarrow> get_next h' = get_next h"
  by (rule ext) (auto simp: set_prev_def get_next_def)

lemma set_next_total: "a \<in> dom h \<Longrightarrow> \<exists>h'. set_next h a v = Some h' \<and> dom h' = dom h"
  by (auto simp: set_next_def)

lemma set_prev_total: "a \<in> dom h \<Longrightarrow> \<exists>h'. set_prev h a v = Some h' \<and> dom h' = dom h"
  by (auto simp: set_prev_def)

lemma get_next_dom: "a \<in> dom h \<Longrightarrow> \<exists>v. get_next h a = Some v"
  by (auto simp: get_next_def)

lemma get_prev_dom: "a \<in> dom h \<Longrightarrow> \<exists>v. get_prev h a = Some v"
  by (auto simp: get_prev_def)

lemma wl_list_insert_heap:
  assumes "get_next h p = Some q" "elm \<in> dom h" "q \<in> dom h" "elm \<noteq> p"
  obtains h' where "wl_list_insert h p elm = Some h'" "dom h' = dom h"
    "get_next h' = (get_next h)(elm := Some q, p := Some elm)"
    "get_prev h' = (get_prev h)(elm := Some p, q := Some elm)"
proof -
  have p: "p \<in> dom h" using assms(1) by (auto simp: get_next_def)
  obtain h1 where h1: "set_prev h elm p = Some h1" "dom h1 = dom h"
    using assms(2) set_prev_total by blast
  obtain h2 where h2: "set_next h1 elm q = Some h2" "dom h2 = dom h1"
    using assms(2) h1 set_next_total by metis
  obtain h3 where h3: "set_next h2 p elm = Some h3" "dom h3 = dom h2"
    using p h1 h2 set_next_total by metis
  obtain h4 where h4: "set_prev h3 q elm = Some h4" "dom h4 = dom h3"
    using assms(3) h1 h2 h3 set_prev_total by metis
  note eqs = h1(1) [THEN set_prev_prev] h1(1) [THEN set_prev_next]
    h2(1) [THEN set_next_next] h2(1) [THEN set_next_prev]
    h3(1) [THEN set_next_next] h3(1) [THEN set_next_prev]
    h4(1) [THEN set_prev_prev] h4(1) [THEN set_prev_next]
  show ?thesis
  proof (rule that [of h4])
    show "wl_list_insert h p elm = Some h4"
      using assms h1 h2 h3 h4 by (simp add: wl_list_insert_def eqs)
    show "dom h4 = dom h" using h1 h2 h3 h4 by simp
    show "get_next h4 = (get_next h)(elm := Some q, p := Some elm)"
      and "get_prev h4 = (get_prev h)(elm := Some p, q := Some elm)"
      by (simp_all add: eqs)
  qed
qed

lemma wl_list_remove_heap:
  assumes "get_prev h elm = Some p" "get_next h elm = Some q" "p \<in> dom h" "q \<in> dom h"
    "elm \<noteq> p" "elm \<noteq> q"
  obtains h' where "wl_list_remove h elm = Some h'" "dom h' = dom h"
    "get_next h' = (get_next h)(p := Some q, elm := Some NULL)"
    "get_prev h' = (get_prev h)(q := Some p, elm := Some NULL)"
proof -
  have e: "elm \<in> dom h" using assms(1) by (auto simp: get_prev_def)
  obtain h1 where h1: "set_next h p q = Some h1" "dom h1 = dom h"
    using assms(3) set_next_total by blast
  obtain h2 where h2: "set_prev h1 q p = Some h2" "dom h2 = dom h1"
    using assms(4) h1 set_prev_total by metis
  obtain h3 where h3: "set_next h2 elm NULL = Some h3" "dom h3 = dom h2"
    using e h1 h2 set_next_total by metis
  obtain h4 where h4: "set_prev h3 elm NULL = Some h4" "dom h4 = dom h3"
    using e h1 h2 h3 set_prev_total by metis
  note eqs = h1(1) [THEN set_next_next] h1(1) [THEN set_next_prev]
    h2(1) [THEN set_prev_prev] h2(1) [THEN set_prev_next]
    h3(1) [THEN set_next_next] h3(1) [THEN set_next_prev]
    h4(1) [THEN set_prev_prev] h4(1) [THEN set_prev_next]
  show ?thesis
  proof (rule that [of h4])
    show "wl_list_remove h elm = Some h4"
      using assms h1 h2 h3 h4 by (simp add: wl_list_remove_def eqs)
    show "dom h4 = dom h" using h1 h2 h3 h4 by simp
    show "get_next h4 = (get_next h)(p := Some q, elm := Some NULL)"
      and "get_prev h4 = (get_prev h)(q := Some p, elm := Some NULL)"
      by (simp_all add: eqs)
  qed
qed


section \<open>The operations on sequences\<close>

lemma wl_list_init_ring:
  assumes "l \<in> dom h"
  obtains h' where "wl_list_init h l = Some h'" "dom h' = dom h" "wl_ring h' l []"
    "\<And>a. a \<noteq> l \<Longrightarrow> h' a = h a"
proof -
  obtain n where n: "h l = Some n" using assms by blast
  show ?thesis
  proof (rule that [of "h(l \<mapsto> n\<lparr>prev := l, nxt := l\<rparr>)"])
    show "wl_list_init h l = Some (h(l \<mapsto> n\<lparr>prev := l, nxt := l\<rparr>))"
      using n by (simp add: wl_list_init_def set_prev_def set_next_def)
  qed (use n in \<open>auto simp: wl_ring_def linked_def get_next_def get_prev_def\<close>)
qed

lemma last_notin_butlast: "distinct xs \<Longrightarrow> xs \<noteq> [] \<Longrightarrow> last xs \<notin> set (butlast xs)"
  by (induction xs) (auto split: if_splits)

lemma hd_notin_tl: "distinct xs \<Longrightarrow> xs \<noteq> [] \<Longrightarrow> hd xs \<notin> set (tl xs)"
  by (cases xs) auto

text \<open>\<open>wl_list_insert\<close> puts a node right behind any node of the ring, the head included.\<close>

lemma wl_list_insert_ring:
  assumes ring: "wl_ring h l (as @ bs)" and e: "elm \<in> dom h" "elm \<notin> set (l # as @ bs)"
  obtains h' where "wl_list_insert h (last (l # as)) elm = Some h'" "dom h' = dom h"
    "wl_ring h' l (as @ elm # bs)"
proof -
  define p q where "p = last (l # as)" and "q = hd (bs @ [l])"
  have d: "distinct (l # as)" "distinct (bs @ [l])" "set as \<inter> set (bs @ [l]) = {}"
    "set (l # as) \<inter> set bs = {}"
    and s1: "successively (linked h) (l # as)"
    and pq: "linked h p q" and s2: "successively (linked h) (bs @ [l])"
    using ring by (auto simp: wl_ring_split p_def q_def)
  have p: "p \<in> set (l # as)" unfolding p_def by (rule last_in_set) simp
  have q: "q \<in> set (bs @ [l])" unfolding q_def by (rule hd_in_set) simp
  have "elm \<noteq> p" using e p by auto
  moreover have "get_next h p = Some q" "q \<in> dom h" using pq linked_dom by (auto simp: linked_def)
  ultimately obtain h' where h': "wl_list_insert h p elm = Some h'" "dom h' = dom h"
    "get_next h' = (get_next h)(elm := Some q, p := Some elm)"
    "get_prev h' = (get_prev h)(elm := Some p, q := Some elm)"
    using wl_list_insert_heap e(1) by metis
  note upd = successively_linked_update [where A = "{elm, p}" and B = "{elm, q}"]
  have "p \<notin> set (butlast (l # as))" unfolding p_def using d(1) by (rule last_notin_butlast) simp
  then have s1': "successively (linked h') (l # as)"
    using q d e by (intro upd [OF s1]) (auto simp: h'(3,4) dest: in_set_butlastD split: if_splits)
  have "q \<notin> set (tl (bs @ [l]))" unfolding q_def using d(2) by (rule hd_notin_tl) simp
  then have s2': "successively (linked h') (bs @ [l])"
    using p d e by (intro upd [OF s2]) (auto simp: h'(3,4) dest: list.set_sel(2) [rotated])
  have "linked h' p elm" "linked h' elm q"
    using \<open>elm \<noteq> p\<close> q e by (auto simp: linked_def h'(3,4))
  with s1' s2' have "wl_ring h' l (as @ elm # bs)"
    using d e by (auto simp: wl_ring_split successively_Cons p_def q_def)
  with h'(1,2) show ?thesis using that by (simp add: p_def)
qed

lemma wl_list_remove_ring:
  assumes ring: "wl_ring h l (as @ elm # bs)"
  obtains h' where "wl_list_remove h elm = Some h'" "dom h' = dom h" "wl_ring h' l (as @ bs)"
    "get_next h' elm = Some NULL" "get_prev h' elm = Some NULL"
proof -
  define p q where "p = last (l # as)" and "q = hd (bs @ [l])"
  have d: "distinct (l # as)" "distinct (bs @ [l])" "set as \<inter> set (bs @ [l]) = {}"
    "set (l # as) \<inter> set bs = {}" "elm \<notin> set (l # as @ bs)"
    and s1: "successively (linked h) (l # as)"
    and pe: "linked h p elm" and eq: "linked h elm q" and s2: "successively (linked h) (bs @ [l])"
    using ring by (auto simp: wl_ring_split successively_Cons p_def q_def)
  have p: "p \<in> set (l # as)" unfolding p_def by (rule last_in_set) simp
  have q: "q \<in> set (bs @ [l])" unfolding q_def by (rule hd_in_set) simp
  have ne: "elm \<noteq> p" "elm \<noteq> q" using p q d(5) by auto
  moreover have "get_prev h elm = Some p" "get_next h elm = Some q" "p \<in> dom h" "q \<in> dom h"
    using pe eq linked_dom by (auto simp: linked_def)
  ultimately obtain h' where h': "wl_list_remove h elm = Some h'" "dom h' = dom h"
    "get_next h' = (get_next h)(p := Some q, elm := Some NULL)"
    "get_prev h' = (get_prev h)(q := Some p, elm := Some NULL)"
    using wl_list_remove_heap by metis
  note upd = successively_linked_update [where A = "{elm, p}" and B = "{elm, q}"]
  have "p \<notin> set (butlast (l # as))" unfolding p_def using d(1) by (rule last_notin_butlast) simp
  then have s1': "successively (linked h') (l # as)"
    using q d by (intro upd [OF s1]) (auto simp: h'(3,4) dest: in_set_butlastD split: if_splits)
  have "q \<notin> set (tl (bs @ [l]))" unfolding q_def using d(2) by (rule hd_notin_tl) simp
  then have s2': "successively (linked h') (bs @ [l])"
    using p d by (intro upd [OF s2]) (auto simp: h'(3,4) dest: list.set_sel(2) [rotated])
  have "linked h' p q" using ne by (auto simp: linked_def h'(3,4))
  with s1' s2' have "wl_ring h' l (as @ bs)"
    using d by (auto simp: wl_ring_split p_def q_def)
  with h' show ?thesis using that by simp
qed

lemma wl_ring_first: "wl_ring h l xs \<Longrightarrow> get_next h l = Some (hd (xs @ [l]))"
  using wl_ring_split [of h l "[]" xs] by (simp add: linked_def)

lemma wl_ring_last: "wl_ring h l xs \<Longrightarrow> get_prev h l = Some (last (l # xs))"
  using wl_ring_split [of h l xs "[]"] by (simp add: linked_def)

lemma wl_list_for_each_segment:
  "successively (linked h) (xs @ [l]) \<Longrightarrow> l \<notin> set xs \<Longrightarrow>
   wl_list_for_each_loop h l (hd (xs @ [l])) = Some xs"
proof (induction xs)
  case Nil
  then show ?case by (simp add: wl_list_for_each_loop.simps)
next
  case (Cons x xs)
  then have "get_next h x = Some (hd (xs @ [l]))"
    by (simp add: successively_Cons linked_def)
  with Cons show ?case
    by (subst wl_list_for_each_loop.simps) (simp add: successively_Cons)
qed

lemma wl_list_length_segment:
  "successively (linked h) (xs @ [l]) \<Longrightarrow> l \<notin> set xs \<Longrightarrow>
   wl_list_length_loop h l (hd (xs @ [l])) c = Some (c + length xs)"
proof (induction xs arbitrary: c)
  case Nil
  then show ?case by (simp add: wl_list_length_loop.simps)
next
  case (Cons x xs)
  then have "get_next h x = Some (hd (xs @ [l]))"
    by (simp add: successively_Cons linked_def)
  with Cons show ?case
    by (subst wl_list_length_loop.simps) (simp add: successively_Cons)
qed

lemma wl_list_for_each_ring: "wl_ring h l xs \<Longrightarrow> wl_list_for_each h l = Some xs"
  using wl_ring_split [of h l "[]" xs] wl_list_for_each_segment [of h xs l]
  by (simp add: wl_list_for_each_def wl_ring_first)

lemma wl_list_length_ring: "wl_ring h l xs \<Longrightarrow> wl_list_length h l = Some (length xs)"
  using wl_ring_split [of h l "[]" xs] wl_list_length_segment [of h xs l 0]
  by (simp add: wl_list_length_def wl_ring_first)

lemma wl_list_empty_ring: "wl_ring h l xs \<Longrightarrow> wl_list_empty h l = Some (xs = [])"
  using wl_ring_first [of h l xs] by (cases xs) (auto simp: wl_list_empty_def wl_ring_def)

lemma wl_list_insert_list_heap:
  assumes "get_next h other = Some a" "get_prev h other = Some b" "get_next h list = Some c"
    "a \<noteq> other" "{a, b, c} \<subseteq> dom h" "other \<noteq> list" "other \<noteq> c" "b \<noteq> list" "b \<noteq> other"
  obtains h' where "wl_list_insert_list h list other = Some h'" "dom h' = dom h"
    "get_next h' = (get_next h)(b := Some c, list := Some a)"
    "get_prev h' = (get_prev h)(a := Some list, c := Some b)"
proof -
  have l: "list \<in> dom h" using assms(3) by (auto simp: get_next_def)
  obtain h1 where h1: "set_prev h a list = Some h1" "dom h1 = dom h"
    using assms(5) set_prev_total [of a h] by blast
  obtain h2 where h2: "set_next h1 b c = Some h2" "dom h2 = dom h1"
    using assms(5) h1 set_next_total [of b h1 c] by auto
  obtain h3 where h3: "set_prev h2 c b = Some h3" "dom h3 = dom h2"
    using assms(5) h1 h2 set_prev_total [of c h2 b] by auto
  obtain h4 where h4: "set_next h3 list a = Some h4" "dom h4 = dom h3"
    using l h1 h2 h3 set_next_total [of list h3 a] by auto
  note eqs = h1(1) [THEN set_prev_prev] h1(1) [THEN set_prev_next]
    h2(1) [THEN set_next_next] h2(1) [THEN set_next_prev]
    h3(1) [THEN set_prev_prev] h3(1) [THEN set_prev_next]
    h4(1) [THEN set_next_next] h4(1) [THEN set_next_prev]
  show ?thesis
  proof (rule that [of h4])
    show "wl_list_insert_list h list other = Some h4"
      using assms h1 h2 h3 h4 by (simp add: wl_list_insert_list_def wl_list_empty_def eqs)
    show "dom h4 = dom h" using h1 h2 h3 h4 by simp
    show "get_next h4 = (get_next h)(b := Some c, list := Some a)"
      and "get_prev h4 = (get_prev h)(a := Some list, c := Some b)"
      by (simp_all add: eqs)
  qed
qed

lemma wl_list_insert_list_ring:
  assumes r: "wl_ring h l xs" and ro: "wl_ring h other ys"
    and disj: "set (l # xs) \<inter> set (other # ys) = {}"
  obtains h' where "wl_list_insert_list h l other = Some h'" "dom h' = dom h"
    "wl_ring h' l (ys @ xs)"
proof (cases "ys = []")
  case True
  with ro have "wl_list_insert_list h l other = Some h"
    by (simp add: wl_list_insert_list_def wl_list_empty_ring)
  with r True that show ?thesis by simp
next
  case False
  define a b c where "a = hd ys" and "b = last ys" and "c = hd (xs @ [l])"
  have y: "get_next h other = Some a" "get_prev h other = Some b" "get_next h l = Some c"
    "a \<in> set ys" "b \<in> set ys" "c \<in> set (xs @ [l])"
    using False wl_ring_first [OF ro] wl_ring_last [OF ro] wl_ring_first [OF r]
    by (simp_all add: a_def b_def c_def) (metis hd_in_set append_is_Nil_conv list.distinct(1)
        Un_iff empty_iff empty_set insert_iff list.simps(15) set_append)
  have d: "distinct ys" "distinct (l # xs)" "other \<notin> set ys" "distinct (xs @ [l])"
    using r ro by (auto simp: wl_ring_def)
  have "a \<noteq> other \<and> {a, b, c} \<subseteq> dom h \<and> other \<noteq> l \<and> other \<noteq> c \<and> b \<noteq> l \<and> b \<noteq> other"
    using y d disj wl_ring_dom [OF r] wl_ring_dom [OF ro] by auto
  then obtain h' where h': "wl_list_insert_list h l other = Some h'" "dom h' = dom h"
    "get_next h' = (get_next h)(b := Some c, l := Some a)"
    "get_prev h' = (get_prev h)(a := Some l, c := Some b)"
    using wl_list_insert_list_heap y by metis
  have sy: "successively (linked h) ys" and sx: "successively (linked h) (xs @ [l])"
    using ro r by (auto simp: wl_ring_def successively_Cons successively_append_iff)
  note upd = successively_linked_update [where A = "{b, l}" and B = "{a, c}"]
  have sy': "successively (linked h') ys"
    using y d disj last_notin_butlast [OF d(1) False] hd_notin_tl [OF d(1) False] False
    by (intro upd [OF sy]) (auto simp: h' a_def b_def dest: in_set_butlastD list.set_sel(2))
  have "set (tl (xs @ [l])) \<subseteq> set (xs @ [l])" by (cases xs) auto
  then have sx': "successively (linked h') (xs @ [l])"
    using y d disj hd_notin_tl [OF d(4)]
    by (intro upd [OF sx]) (auto simp: h' c_def)
  have "linked h' l a" "linked h' b c"
    using y disj d by (auto simp: linked_def h')
  with sy' sx' have "wl_ring h' l (ys @ xs)"
    using d disj False by (auto simp: wl_ring_split successively_Cons a_def b_def c_def)
  with h' that show ?thesis by simp
qed


section \<open>The interface its clients use\<close>

text \<open>
  The clients append with \<^verbatim>\<open>wl_list_insert(list.prev, &elm)\<close> and otherwise traverse, count and test
  for emptiness. \<open>intrusive_list\<close> states what they rely on; its lemmas justify modelling a
  client's list as an Isabelle list that grows at its end.
\<close>

definition wl_list_append :: "list_heap \<Rightarrow> addr \<Rightarrow> addr \<Rightarrow> list_heap option" where
  "wl_list_append h list elm = do {
     p \<leftarrow> get_prev h list;
     wl_list_insert h p elm
   }"

locale intrusive_list =
  fixes holds :: "'h \<Rightarrow> 'l \<Rightarrow> 'e list \<Rightarrow> bool"
    and can_add :: "'h \<Rightarrow> 'l \<Rightarrow> 'e \<Rightarrow> bool"
    and add :: "'h \<Rightarrow> 'l \<Rightarrow> 'e \<Rightarrow> 'h option"
    and visit :: "'h \<Rightarrow> 'l \<Rightarrow> 'e list option"
    and count :: "'h \<Rightarrow> 'l \<Rightarrow> nat option"
    and empty :: "'h \<Rightarrow> 'l \<Rightarrow> bool option"
  assumes add_holds:
    "holds h l xs \<Longrightarrow> can_add h l e \<Longrightarrow> e \<notin> set xs \<Longrightarrow> \<exists>h'. add h l e = Some h' \<and>
       holds h' l (xs @ [e]) \<and> (\<forall>e'. can_add h l e' \<longrightarrow> can_add h' l e')"
    and visit_holds: "holds h l xs \<Longrightarrow> visit h l = Some xs"
    and count_holds: "holds h l xs \<Longrightarrow> count h l = Some (length xs)"
    and empty_holds: "holds h l xs \<Longrightarrow> empty h l = Some (xs = [])"
begin

primrec add_all :: "'h \<Rightarrow> 'l \<Rightarrow> 'e list \<Rightarrow> 'h option" where
  "add_all h l [] = Some h"
| "add_all h l (e # es) = Option.bind (add h l e) (\<lambda>h'. add_all h' l es)"

lemma add_all_holds:
  assumes "holds h l xs" "\<forall>e \<in> set es. can_add h l e" "distinct es" "set xs \<inter> set es = {}"
  shows "\<exists>h'. add_all h l es = Some h' \<and> holds h' l (xs @ es)"
  using assms
proof (induction es arbitrary: h xs)
  case Nil
  then show ?case by simp
next
  case (Cons e es)
  then obtain h1 where h1: "add h l e = Some h1" "holds h1 l (xs @ [e])"
    "\<forall>e'. can_add h l e' \<longrightarrow> can_add h1 l e'"
    using add_holds [of h l xs e] by auto
  with Cons.prems Cons.IH [of h1 "xs @ [e]"] show ?case by auto
qed

lemma add_all_observed:
  assumes "holds h l xs" "\<forall>e \<in> set es. can_add h l e" "distinct es" "set xs \<inter> set es = {}"
  shows "\<exists>h'. add_all h l es = Some h' \<and> visit h' l = Some (xs @ es) \<and>
    count h' l = Some (length xs + length es) \<and> empty h' l = Some (xs @ es = [])"
  using add_all_holds [OF assms] visit_holds count_holds empty_holds by fastforce

end

lemma wl_list_append_ring:
  assumes "wl_ring h l xs" "elm \<in> dom h" "elm \<notin> set (l # xs)"
  obtains h' where "wl_list_append h l elm = Some h'" "dom h' = dom h" "wl_ring h' l (xs @ [elm])"
  using wl_list_insert_ring [of h l xs "[]" elm] wl_ring_last [of h l xs] assms
  by (auto simp: wl_list_append_def)

interpretation wll: intrusive_list wl_ring "\<lambda>h l e. e \<in> dom h \<and> e \<noteq> l" wl_list_append
  wl_list_for_each wl_list_length wl_list_empty
proof unfold_locales
  fix h l xs e
  assume "wl_ring h l xs" "e \<in> dom h \<and> e \<noteq> l" "e \<notin> set xs"
  then obtain h' where "wl_list_append h l e = Some h'" "dom h' = dom h" "wl_ring h' l (xs @ [e])"
    using wl_list_append_ring [of h l xs e] by auto
  then show "\<exists>h'. wl_list_append h l e = Some h' \<and> wl_ring h' l (xs @ [e]) \<and>
      (\<forall>e'. e' \<in> dom h \<and> e' \<noteq> l \<longrightarrow> e' \<in> dom h' \<and> e' \<noteq> l)"
    by auto
qed (simp_all add: wl_list_for_each_ring wl_list_length_ring wl_list_empty_ring)

section \<open>Properties\<close>

text \<open>
  Inserting an element behind any position of a list and removing it again are inverse: after
  the insertion a traversal visits the element exactly there and the length grows by one, and
  after the removal the traversal is the old one and the element's links are null.
\<close>

theorem list_insert_remove:
  assumes "wl_ring h l (as @ bs)" "elm \<in> dom h" "elm \<notin> set (l # as @ bs)"
  shows "\<exists>h1 h2. wl_list_insert h (last (l # as)) elm = Some h1 \<and>
    wl_list_for_each h1 l = Some (as @ elm # bs) \<and>
    wl_list_length h1 l = Some (Suc (length (as @ bs))) \<and>
    wl_list_remove h1 elm = Some h2 \<and> wl_ring h2 l (as @ bs) \<and>
    wl_list_for_each h2 l = Some (as @ bs) \<and> get_next h2 elm = Some NULL \<and> get_prev h2 elm = Some NULL"
proof -
  obtain h1 where h1: "wl_list_insert h (last (l # as)) elm = Some h1" "wl_ring h1 l (as @ elm # bs)"
    by (rule wl_list_insert_ring [OF assms])
  obtain h2 where "wl_list_remove h1 elm = Some h2" "wl_ring h2 l (as @ bs)"
    "get_next h2 elm = Some NULL" "get_prev h2 elm = Some NULL"
    by (rule wl_list_remove_ring [OF h1(2)])
  with h1 show ?thesis by (simp add: wl_list_for_each_ring wl_list_length_ring)
qed

theorem list_insert_remove_witness:
  "\<exists>h1. wl_list_insert [1 \<mapsto> \<lparr>prev = 1, nxt = 1\<rparr>, 2 \<mapsto> \<lparr>prev = 0, nxt = 0\<rparr>] 1 2 = Some h1 \<and>
    wl_list_for_each h1 1 = Some [2]"
  using list_insert_remove [of "[1 \<mapsto> \<lparr>prev = 1, nxt = 1\<rparr>, 2 \<mapsto> \<lparr>prev = 0, nxt = 0\<rparr>]" 1 "[]" "[]" 2]
  by (auto simp: wl_ring_def linked_def get_next_def get_prev_def)

text \<open>
  Elements appended one after the other are visited in that order, counted, and the list is
  empty exactly when it holds nothing.
\<close>

theorem list_append_in_order:
  assumes "wl_ring h l xs" "\<forall>e \<in> set es. e \<in> dom h \<and> e \<noteq> l" "distinct es" "set xs \<inter> set es = {}"
  shows "\<exists>h'. wll.add_all h l es = Some h' \<and> wl_list_for_each h' l = Some (xs @ es) \<and>
    wl_list_length h' l = Some (length xs + length es) \<and> wl_list_empty h' l = Some (xs @ es = [])"
  using assms by (rule wll.add_all_observed)

theorem list_append_in_order_witness:
  "\<exists>h'. wll.add_all [1 \<mapsto> \<lparr>prev = 1, nxt = 1\<rparr>, 2 \<mapsto> \<lparr>prev = 0, nxt = 0\<rparr>, 3 \<mapsto> \<lparr>prev = 0, nxt = 0\<rparr>]
      1 [2, 3] = Some h' \<and> wl_list_for_each h' 1 = Some [2, 3]"
  using list_append_in_order [of "[1 \<mapsto> \<lparr>prev = 1, nxt = 1\<rparr>, 2 \<mapsto> \<lparr>prev = 0, nxt = 0\<rparr>,
      3 \<mapsto> \<lparr>prev = 0, nxt = 0\<rparr>]" 1 "[]" "[2, 3]"]
  by (auto simp: wl_ring_def linked_def get_next_def get_prev_def)

text \<open>
  Splicing a list into another one puts its elements, in order, in front of the other's.
\<close>

lemma list_insert_list:
  assumes "wl_ring h l xs" "wl_ring h other ys" "set (l # xs) \<inter> set (other # ys) = {}"
  shows "\<exists>h'. wl_list_insert_list h l other = Some h' \<and> dom h' = dom h \<and>
    wl_list_for_each h' l = Some (ys @ xs) \<and> wl_list_length h' l = Some (length ys + length xs)"
proof -
  obtain h' where "wl_list_insert_list h l other = Some h'" "dom h' = dom h" "wl_ring h' l (ys @ xs)"
    by (rule wl_list_insert_list_ring [OF assms])
  then show ?thesis by (simp add: wl_list_for_each_ring wl_list_length_ring)
qed

end
