(* ===== verification/Sparkle_Scanner.thy ===== *)
theory Sparkle_Scanner
  imports Scanner_Code Wl_List
begin

text \<open>
  The program's own generator \<^verbatim>\<open>scanner/scanner.c\<close>, which includes the protocol scanner for its parser and
  writes a C++ class for every interface it is asked for: the events become methods that call
  the C wrappers of the generated protocol header, the requests become signals.
\<close>

section \<open>Arguments and members\<close>

definition scanner_write_type :: "arg \<Rightarrow> string" where
  "scanner_write_type a = (case akind a of
     INT_T \<Rightarrow> ''int32_t '' | FD \<Rightarrow> ''int32_t '' | NEW_ID \<Rightarrow> ''uint32_t '' | UNSIGNED \<Rightarrow> ''uint32_t ''
   | FIXED \<Rightarrow> ''wl_fixed_t '' | STRING \<Rightarrow> ''const char *'' | OBJECT \<Rightarrow> ''struct '' @ str (ainterface a) @ '' *''
   | ARRAY \<Rightarrow> ''struct wl_array *'')"

fun write_args_loop :: "bool \<Rightarrow> bool \<Rightarrow> arg list \<Rightarrow> string" where
  "write_args_loop methods first [] = []"
| "write_args_loop methods first (a # as) =
     (if \<not> first then '', '' else []) @
     (if akind a = OBJECT \<or> (akind a = NEW_ID \<and> methods) then ''struct wl_resource *'' else scanner_write_type a) @
     aname a @ write_args_loop methods False as"

definition scanner_write_args :: "arg list \<Rightarrow> bool \<Rightarrow> string" where
  "scanner_write_args as methods = write_args_loop methods True as"

definition scanner_write_method :: "message \<Rightarrow> string" where
  "scanner_write_method m =
     ''    void send_'' @ mname m @ ''('' @ scanner_write_args (arg_list m) True @ line ['');'']"

definition scanner_write_signal :: "message \<Rightarrow> string" where
  "scanner_write_signal m =
     ''    were_signal<void ('' @ scanner_write_args (arg_list m) False @ line ['')> '', mname m, '';'']"

section \<open>The header of a class\<close>

text \<open>\<^verbatim>\<open>snprintf\<close> into 64 characters keeps the first 63.\<close>

definition file_name :: "string \<Rightarrow> string \<Rightarrow> string" where
  "file_name nm suffix = take 63 (''sparkle_'' @ nm @ suffix)"

definition header_text :: "interface \<Rightarrow> string" where
  "header_text i =
     line [''#ifndef SPARKLE_'', uppercase_name i, ''_H''] @
     line [''#define SPARKLE_'', uppercase_name i, ''_H''] @ endl @
     line [''#include '', quot, ''sparkle_resource.h'', quot] @ endl @
     line [''class sparkle_'', name i, '' : public sparkle_resource''] @ line [''{''] @
     line [''public:''] @
     line [''    ~sparkle_'', name i, ''() override;''] @
     line [''    sparkle_'', name i, ''(struct wl_client *client, int version, uint32_t id);''] @
     line [''    explicit sparkle_'', name i, ''(struct wl_resource *resource);''] @ endl @
     concat (map scanner_write_method (event_list i)) @ endl @
     line [''signals:''] @
     concat (map scanner_write_signal (request_list i)) @ endl @
     line [''};''] @ endl @
     line [''#endif // SPARKLE_'', uppercase_name i, ''_H'']"

text \<open>The files written, newest first; opening a file for writing empties it. \<open>can\<close> says which can be opened.\<close>

type_synonym files = "string \<rightharpoonup> string"

definition scanner_write_header :: "(string \<Rightarrow> bool) \<Rightarrow> interface \<Rightarrow> files \<Rightarrow> files" where
  "scanner_write_header can i fs =
     (let fn = file_name (name i) ''.h'' in if can fn then fs(fn \<mapsto> header_text i) else fs)"

section \<open>The source of a class\<close>

definition bouncer_line :: "interface \<Rightarrow> message \<Rightarrow> string" where
  "bouncer_line i m =
     (if destructor m then line [''    BOUNCER_2_D(sparkle_'', name i, '', '', mname m, ''),'']
      else line [''    BOUNCER_2(sparkle_'', name i, '', '', mname m, ''),''])"

definition scanner_write_bouncers :: "interface \<Rightarrow> string" where
  "scanner_write_bouncers i =
     (if request_list i = [] then []
      else line [''static const struct '', name i, ''_interface interface = {''] @
        concat (map (bouncer_line i) (request_list i)) @ line [''};''] @ endl)"

fun write_args_1_loop :: "bool \<Rightarrow> arg list \<Rightarrow> string" where
  "write_args_1_loop first [] = []"
| "write_args_1_loop first (a # as) =
     (if \<not> first then '', '' else []) @ aname a @ write_args_1_loop False as"

definition scanner_write_args_1 :: "arg list \<Rightarrow> nat \<Rightarrow> string" where
  "scanner_write_args_1 as count = write_args_1_loop True as"

definition scanner_write_method_implementation :: "interface \<Rightarrow> message \<Rightarrow> string" where
  "scanner_write_method_implementation i m =
     ''void sparkle_'' @ name i @ ''::send_'' @ mname m @ ''('' @
     scanner_write_args (arg_list m) True @ line ['')''] @ line [''{''] @
     line [''    if (valid())''] @
     ''        '' @ name i @ ''_send_'' @ mname m @ ''('' @
     ''resource()'' @ (if arg_count m > 0 then '', '' else []) @
     scanner_write_args_1 (arg_list m) (arg_count m) @ line ['');''] @ line [''}'']"

definition source_text :: "interface \<Rightarrow> string" where
  "source_text i =
     line [''#include '', quot, ''sparkle_'', name i, ''.h'', quot] @
     line [''#include '', quot, ''sparkle_bouncer.h'', quot] @ endl @
     scanner_write_bouncers i @
     line [''sparkle_'', name i, ''::~sparkle_'', name i, ''()''] @ line [''{''] @ line [''}''] @ endl @
     line [''sparkle_'', name i, ''::sparkle_'', name i, ''(struct wl_client *client, int version, uint32_t id) :''] @
     (if request_list i = []
      then line [''    sparkle_resource(client, &'', name i, ''_interface, version, id, nullptr)''] @ line [''{'']
      else line [''    sparkle_resource(client, &'', name i, ''_interface, version, id, &interface)''] @ line [''{'']) @
     line [''}''] @ endl @
     line [''sparkle_'', name i, ''::sparkle_'', name i, ''(struct wl_resource *resource) :''] @
     line [''    sparkle_resource(resource)''] @ line [''{''] @ line [''}''] @
     concat (map (\<lambda>m. endl @ scanner_write_method_implementation i m) (event_list i))"

definition scanner_write_source :: "(string \<Rightarrow> bool) \<Rightarrow> interface \<Rightarrow> files \<Rightarrow> files" where
  "scanner_write_source can i fs =
     (let fn = file_name (name i) ''.cpp'' in if can fn then fs(fn \<mapsto> source_text i) else fs)"

section \<open>The program\<close>

fun required :: "string \<Rightarrow> string list \<Rightarrow> bool" where
  "required nm [] = False"
| "required nm (r # rs) = (if strcmp r nm = 0 then True else required nm rs)"

definition scanner_write :: "(string \<Rightarrow> bool) \<Rightarrow> protocol \<Rightarrow> string list \<Rightarrow> files \<Rightarrow> files" where
  "scanner_write can p rv fs =
     fold (\<lambda>i fs. if required (name i) rv then scanner_write_source can i (scanner_write_header can i fs) else fs)
       (interface_list p) fs"

text \<open>
  The last loop frees the interfaces with \<^verbatim>\<open>wl_list_for_each\<close>, which reads the link of the
  interface just freed; the heap holds the links. \<^verbatim>\<open>wl_list_for_each_safe\<close>, used elsewhere, reads it
  before.
\<close>

definition free_interface :: "list_heap \<Rightarrow> addr \<Rightarrow> list_heap" where
  "free_interface h i = h(i := None)"

partial_function (option) free_interfaces_loop :: "list_heap \<Rightarrow> addr \<Rightarrow> addr \<Rightarrow> list_heap option" where
  "free_interfaces_loop h head i =
     (if i \<noteq> head then do {
        i' \<leftarrow> get_next (free_interface h i) i;
        free_interfaces_loop (free_interface h i) head i'
      } else Some h)"

definition free_interfaces :: "list_heap \<Rightarrow> addr \<Rightarrow> list_heap option" where
  "free_interfaces h head = do { i \<leftarrow> get_next h head; free_interfaces_loop h head i }"

partial_function (option) free_interfaces_safe_loop :: "list_heap \<Rightarrow> addr \<Rightarrow> addr \<Rightarrow> addr \<Rightarrow> list_heap option" where
  "free_interfaces_safe_loop h head i tmp =
     (if i \<noteq> head then do {
        tmp' \<leftarrow> get_next (free_interface h i) tmp;
        free_interfaces_safe_loop (free_interface h i) head tmp tmp'
      } else Some h)"

definition free_interfaces_safe :: "list_heap \<Rightarrow> addr \<Rightarrow> list_heap option" where
  "free_interfaces_safe h head = do {
     i \<leftarrow> get_next h head;
     tmp \<leftarrow> get_next h i;
     free_interfaces_safe_loop h head i tmp
   }"

datatype scanner_outcome = Returned int files | Exited | Scan_stopped scan_fault | Use_after_free files

text \<open>
  \<open>links\<close> is the heap that holds the list of interfaces of the protocol, with its head.
\<close>

definition scanner_main ::
    "string list \<Rightarrow> bool \<Rightarrow> bool \<Rightarrow> (xml_event list \<times> bool) list \<Rightarrow> bool \<Rightarrow> (string \<Rightarrow> bool) \<Rightarrow>
     (protocol \<Rightarrow> list_heap \<times> addr) \<Rightarrow> files \<Rightarrow> scanner_outcome" where
  "scanner_main argv fopen parser blocks chdir can links fs =
     (if length argv < 3 then Returned (-1) fs
      else if \<not> fopen then Exited
      else if \<not> parser then Exited
      else case parse_blocks blocks (empty_context False) of
        Inl f \<Rightarrow> Scan_stopped f
      | Inr ctx \<Rightarrow>
          let fs = (if chdir then scanner_write can (protocol ctx) (drop 3 argv) fs else fs);
              (h, head) = links (protocol ctx)
          in (case free_interfaces h head of
                None \<Rightarrow> Use_after_free fs
              | Some _ \<Rightarrow> Returned 0 fs))"

section \<open>Parameters\<close>

lemma write_type_eq: "scanner_write_type a = emit_type a"
  by (simp add: scanner_write_type_def emit_type_def)

lemma write_args_loop_wrapper: "write_args_loop True False as = concat (map wrapper_param as)"
  by (induction as) (auto simp: wrapper_param_def write_type_eq split: arg_type.splits)

lemma write_args_wrapper:
  "concat (map wrapper_param as) = (if as = [] then [] else '', '' @ scanner_write_args as True)"
  using write_args_loop_wrapper
  by (cases as) (auto simp: scanner_write_args_def wrapper_param_def write_type_eq split: arg_type.splits)

lemma write_args_1_loop_names: "write_args_1_loop False as = concat (map (\<lambda>a. '', '' @ aname a) as)"
  by (induction as) auto

lemma write_args_1_names:
  "(if as = [] then [] else '', '' @ scanner_write_args_1 as n) = concat (map (\<lambda>a. '', '' @ aname a) as)"
  using write_args_1_loop_names by (cases as) (auto simp: scanner_write_args_1_def)

section \<open>Files\<close>

lemma file_name_short: "length nm \<le> 51 \<Longrightarrow> length sfx \<le> 4 \<Longrightarrow> file_name nm sfx = ''sparkle_'' @ nm @ sfx"
  by (simp add: file_name_def)

lemma file_name_eq:
  assumes "length a \<le> 51" "length b \<le> 51"
  shows "file_name a ''.h'' = file_name b ''.h'' \<longleftrightarrow> a = b" "file_name a ''.cpp'' = file_name b ''.cpp'' \<longleftrightarrow> a = b"
    "file_name a ''.h'' \<noteq> file_name b ''.cpp''"
proof -
  have "last (a @ ''.h'') \<noteq> last (b @ ''.cpp'')" by simp
  then have "a @ ''.h'' \<noteq> b @ ''.cpp''" by metis
  with assms show "file_name a ''.h'' = file_name b ''.h'' \<longleftrightarrow> a = b" "file_name a ''.cpp'' = file_name b ''.cpp'' \<longleftrightarrow> a = b"
    "file_name a ''.h'' \<noteq> file_name b ''.cpp''" by (simp_all add: file_name_short)
qed

lemma long_names_collide: "55 \<le> length nm \<Longrightarrow> file_name nm ''.h'' = file_name nm ''.cpp''"
  by (simp add: file_name_def)

lemma required_iff: "required nm rv \<longleftrightarrow> nm \<in> set rv"
  by (induction nm rv rule: required.induct) (auto simp: strcmp_def split: if_splits)

definition write_interface :: "(string \<Rightarrow> bool) \<Rightarrow> string list \<Rightarrow> interface \<Rightarrow> files \<Rightarrow> files" where
  "write_interface can rv i fs =
     (if required (name i) rv then scanner_write_source can i (scanner_write_header can i fs) else fs)"

lemma write_other:
  assumes "length (name i) \<le> 51" "length nm \<le> 51" "name i \<noteq> nm"
  shows "write_interface can rv i fs (file_name nm ''.h'') = fs (file_name nm ''.h'')"
    "write_interface can rv i fs (file_name nm ''.cpp'') = fs (file_name nm ''.cpp'')"
  using file_name_eq [OF assms(1,2)] file_name_eq(3) [OF assms(2,1)] assms(3)
  by (auto simp: write_interface_def scanner_write_source_def scanner_write_header_def Let_def)

lemma write_others:
  assumes "\<forall>j \<in> set is. length (name j) \<le> 51 \<and> name j \<noteq> nm" "length nm \<le> 51"
  shows "fold (write_interface can rv) is fs (file_name nm ''.h'') = fs (file_name nm ''.h'')"
    "fold (write_interface can rv) is fs (file_name nm ''.cpp'') = fs (file_name nm ''.cpp'')"
  using assms by (induction "is" arbitrary: fs) (auto simp: write_other)

lemma write_own:
  assumes "required (name i) rv" "can (file_name (name i) ''.h'')" "can (file_name (name i) ''.cpp'')" "length (name i) \<le> 51"
  shows "write_interface can rv i fs (file_name (name i) ''.h'') = Some (header_text i)"
    "write_interface can rv i fs (file_name (name i) ''.cpp'') = Some (source_text i)"
  using assms file_name_eq(3) [OF assms(4,4)]
  by (auto simp: write_interface_def scanner_write_source_def scanner_write_header_def Let_def)

lemma scanner_write_fold: "scanner_write can p rv fs = fold (write_interface can rv) (interface_list p) fs"
  by (simp add: scanner_write_def write_interface_def [abs_def])

section \<open>Freeing a list\<close>

lemma free_loop_safe:
  "successively (linked h) (xs @ [l]) \<Longrightarrow> distinct xs \<Longrightarrow> l \<notin> set xs \<Longrightarrow> get_next h l = Some y \<Longrightarrow>
   xs = x # zs \<Longrightarrow> free_interfaces_safe_loop h l x (hd (zs @ [l])) = Some (h |` (- set xs))"
proof (induction xs arbitrary: h x zs)
  case Nil
  then show ?case by simp
next
  case (Cons a as)
  have step: "free_interfaces_safe_loop h l a t = Option.bind (get_next (free_interface h a) t)
      (\<lambda>t'. free_interfaces_safe_loop (free_interface h a) l t t')" for t
    using Cons.prems(3) by (subst free_interfaces_safe_loop.simps) simp
  have e: "x = a" "zs = as" using Cons.prems(5) by auto
  let ?h = "free_interface h a"
  have same: "get_next ?h b = get_next h b" "get_prev ?h b = get_prev h b" if "b \<noteq> a" for b
    using that by (simp_all add: free_interface_def get_next_def get_prev_def)
  have lk: "successively (linked ?h) (as @ [l])"
  proof -
    have as: "successively (linked h) (as @ [l])" using Cons.prems(1) by (cases as) auto
    have "a \<notin> set (as @ [l])" using Cons.prems(2,3) by auto
    then show ?thesis
      by (intro successively_mono [OF as]) (metis linked_def same)
  qed
  have y: "get_next ?h l = Some y" using same(1) [of l] Cons.prems(3,4) by auto
  have restrict: "?h |` (- set as) = h |` (- set (a # as))"
    by (auto simp: free_interface_def restrict_map_def fun_eq_iff)
  show ?case
  proof (cases as)
    case Nil
    have "free_interfaces_safe_loop ?h l l y = Some ?h" by (subst free_interfaces_safe_loop.simps) simp
    moreover have "?h = ?h |` (- set as)" using Nil by (simp add: restrict_map_def fun_eq_iff)
    ultimately have "free_interfaces_safe_loop h l a l = Some (?h |` (- set as))" using y by (simp add: step)
    then show ?thesis unfolding e restrict using Nil by simp
  next
    case (Cons b bs)
    have "get_next ?h b = Some (hd (bs @ [l]))"
      using lk Cons by (cases bs) (auto simp: linked_def)
    moreover have "free_interfaces_safe_loop ?h l b (hd (bs @ [l])) = Some (?h |` (- set as))"
      using Cons.IH Cons lk y Cons.prems by auto
    ultimately have "free_interfaces_safe_loop h l a b = Some (?h |` (- set as))" by (simp add: step)
    then show ?thesis unfolding e restrict using Cons by simp
  qed
qed

lemma free_interfaces_safe_ok:
  assumes "wl_ring h l (x # xs)"
  shows "free_interfaces_safe h l = Some (h |` (- set (x # xs)))"
proof -
  have r: "distinct (l # x # xs)" "successively (linked h) (l # (x # xs) @ [l])"
    using assms by (simp_all add: wl_ring_def)
  then have n: "get_next h l = Some x" "get_next h x = Some (hd (xs @ [l]))"
    "successively (linked h) ((x # xs) @ [l])"
    by (cases xs; simp add: linked_def)+
  from free_loop_safe [OF n(3) _ _ n(1) refl] r(1) n show ?thesis by (simp add: free_interfaces_safe_def)
qed

lemma free_interfaces_crash:
  assumes "wl_ring h l (x # xs)"
  shows "free_interfaces h l = None"
proof -
  have "get_next h l = Some x" "x \<noteq> l" using assms by (simp_all add: wl_ring_def linked_def)
  then show ?thesis
    by (simp add: free_interfaces_def) (subst free_interfaces_loop.simps, simp add: get_next_def free_interface_def)
qed

section \<open>Properties\<close>

text \<open>
  C32: For every event of an accepted protocol the generated C++ method takes exactly the parameters of
  the C function it calls after the resource, with the same types, names and order, and passes
  each of them on in that order.
\<close>

theorem method_matches_wrapper:
  assumes "parse_blocks bs (empty_context core) = Inr ctx" "i \<in> set (interface_list (protocol ctx))"
    and "m \<in> set (event_list i)"
  shows "concat (map wrapper_param (arg_list m)) =
      (if arg_list m = [] then [] else '', '' @ scanner_write_args (arg_list m) True) \<and>
    (if arg_count m > 0 then '', '' else []) @ scanner_write_args_1 (arg_list m) (arg_count m) =
      concat (map (\<lambda>a. '', '' @ aname a) (arg_list m))"
proof -
  have "arg_count m = length (arg_list m)"
    using parse_wf [OF assms(1)] assms(2,3)
    by (auto simp: wf_protocol_def wf_interface_def wf_message_def list_all_iff)
  then show ?thesis
    using write_args_wrapper [of "arg_list m"] write_args_1_names [of "arg_list m" "arg_count m"]
    by (cases "arg_list m = []") (auto simp: scanner_write_args_1_def)
qed

theorem method_matches_wrapper_witness:
  "\<exists>ctx i m. parse_blocks [(enum_document, True)] (empty_context False) = Inr ctx \<and>
     i \<in> set (interface_list (protocol ctx)) \<and> m \<in> set (event_list i) \<and> arg_list m = [enum_arg] \<and>
     concat (map wrapper_param [enum_arg]) = '', '' @ scanner_write_args [enum_arg] True"
proof -
  obtain ctx i m where c: "parse_blocks [(enum_document, True)] (empty_context False) = Inr ctx"
    "i \<in> set (interface_list (protocol ctx))" "m \<in> set (event_list i)" "arg_list m = [enum_arg]"
    by (rule parse_enum_document)
  with method_matches_wrapper [OF c(1-3)] show ?thesis by auto
qed



text \<open>
  The final loop of the generator reads the link of an interface it has just freed, for every protocol
  that has an interface; with \<^verbatim>\<open>wl_list_for_each_safe\<close> the same loop frees every interface and
  touches nothing else.
\<close>

theorem free_loop_reads_freed:
  assumes "wl_ring h l (x # xs)"
  shows "free_interfaces h l = None \<and> free_interfaces_safe h l = Some (h |` (- set (x # xs)))"
  using free_interfaces_crash [OF assms] free_interfaces_safe_ok [OF assms] by simp

theorem free_loop_reads_freed_witness:
  "free_interfaces [1 \<mapsto> \<lparr>prev = 2, nxt = 2\<rparr>, 2 \<mapsto> \<lparr>prev = 1, nxt = 1\<rparr>] 1 = None"
proof -
  have "wl_ring [1 \<mapsto> \<lparr>prev = 2, nxt = 2\<rparr>, 2 \<mapsto> \<lparr>prev = 1, nxt = 1\<rparr>] 1 [2]"
    by (simp add: wl_ring_def linked_def get_next_def get_prev_def)
  from free_loop_reads_freed [OF this] show ?thesis by simp
qed

end
