(* ===== verification/Wl_Resources.thy ===== *)
theory Wl_Resources
  imports Wl_Server
begin

text \<open>
  The invariant that ties a client's table of object ids to the resources on the heap: an id in
  use names a live resource of that client which carries the id, and every resource is named by
  its id. Creating and destroying resources keeps it, so that no table ever leads to freed memory.
\<close>

section \<open>Changes that do not concern the tables\<close>

text \<open>What is left of the structures when the signals are not looked at.\<close>

definition client_view :: "wl_client \<Rightarrow> wl_connection \<times> u32 \<times> u64 \<times> wl_map \<times> bool" where
  "client_view c = (connection c, csource c, display_resource c, objects c, cerror c)"

definition resource_view ::
    "wl_resource \<Rightarrow> interface_spec \<times> wl_implementation \<times> u32 \<times> wl_destructor \<times> u64 \<times> u64 \<times> int \<times> nat option" where
  "resource_view r = (rinterface r, rimplementation r, rid r, rdestroy r, rclient r, rdata r, rversion r, rdispatcher r)"

definition display_view ::
    "wl_display \<Rightarrow> bool \<times> u32 \<times> u32 \<times> u64 list \<times> u64 list \<times> u64 list \<times> u64 list \<times> wl_array \<times> (u64 \<Rightarrow> u64 \<Rightarrow> bool) option" where
  "display_view d = (drun d, did d, dserial d, registry_resource_list d, global_list d, client_list d,
     protocol_loggers d, additional_shm_formats d, global_filter d)"

text \<open>
  \<open>same_structs s s'\<close>: listeners were notified and the compositor's own state may have changed,
  but no structure of the library was created, freed or altered.
\<close>

definition same_structs :: "'u server \<Rightarrow> 'u server \<Rightarrow> bool" where
  "same_structs s s' \<longleftrightarrow> (\<forall>ca. map_option client_view (clients s' ca) = map_option client_view (clients s ca)) \<and>
     (\<forall>p. map_option resource_view (resources s' p) = map_option resource_view (resources s p)) \<and>
     globals s' = globals s \<and> detached s' = detached s \<and> sockets s' = sockets s \<and>
     display_view (display s') = display_view (display s)"

lemma same_structs_refl [simp]: "same_structs s s"
  by (simp add: same_structs_def)

lemma same_structs_trans: "same_structs s t \<Longrightarrow> same_structs t u \<Longrightarrow> same_structs s u"
  by (simp add: same_structs_def)

lemma same_structs_sym: "same_structs s t \<Longrightarrow> same_structs t s"
  by (simp add: same_structs_def)

lemma same_structs_display:
  assumes "same_structs s s'"
  shows "registry_resource_list (display s') = registry_resource_list (display s)"
    "global_list (display s') = global_list (display s)" "client_list (display s') = client_list (display s)"
    "global_filter (display s') = global_filter (display s)" "dserial (display s') = dserial (display s)"
  using assms by (simp_all add: same_structs_def display_view_def)

lemma same_structs_client:
  assumes "same_structs s s'" "clients s ca = Some c"
  obtains c' where "clients s' ca = Some c'" "connection c' = connection c" "csource c' = csource c"
    "display_resource c' = display_resource c" "objects c' = objects c" "cerror c' = cerror c"
proof -
  have "map_option client_view (clients s' ca) = map_option client_view (clients s ca)"
    using assms(1) unfolding same_structs_def by blast
  with assms(2) that show thesis by (auto simp: client_view_def)
qed

lemma same_structs_resource:
  assumes "same_structs s s'" "resources s p = Some r"
  obtains r' where "resources s' p = Some r'" "rinterface r' = rinterface r" "rimplementation r' = rimplementation r"
    "rid r' = rid r" "rdestroy r' = rdestroy r" "rclient r' = rclient r" "rdata r' = rdata r"
    "rversion r' = rversion r" "rdispatcher r' = rdispatcher r"
proof -
  have "map_option resource_view (resources s' p) = map_option resource_view (resources s p)"
    using assms(1) unfolding same_structs_def by blast
  with assms(2) that show thesis by (auto simp: resource_view_def)
qed

lemma same_structs_none:
  assumes "same_structs s s'"
  shows "clients s' ca = None \<longleftrightarrow> clients s ca = None" "resources s' p = None \<longleftrightarrow> resources s p = None"
  using assms by (metis same_structs_client same_structs_sym option.distinct(1) option.exhaust,
      metis same_structs_resource same_structs_sym option.distinct(1) option.exhaust)

section \<open>The environment\<close>

text \<open>
  The C library's allocator returns fresh aligned memory or a null pointer, and blocks of bytes are
  always found; listeners and destructors of the compositor keep to its own state and to signals.
\<close>

definition env_ok :: "'u senv \<Rightarrow> bool" where
  "env_ok E \<longleftrightarrow> allocator_ok (blocks E) \<and> (\<forall>n. blocks E n \<noteq> None) \<and>
     (\<forall>s. malloc E s = 0 \<or> \<not> live s (malloc E s) \<and> malloc E s AND 3 = 0) \<and>
     (\<forall>l data s s'. notify E l data s = Some s' \<longrightarrow> same_structs s s') \<and>
     (\<forall>k p s s'. destructor E k p s = Some s' \<longrightarrow> same_structs s s')"

text \<open>
  Every structure in use in \<open>t\<close> was in use in \<open>s\<close> or was allocated since. Memory suffices for the next
  \<open>n\<close> structures when \<^verbatim>\<open>malloc\<close> succeeds that often after \<open>s\<close>.
\<close>

definition allocated_since :: "'u senv \<Rightarrow> 'u server \<Rightarrow> 'u server \<Rightarrow> bool" where
  "allocated_since E s t \<longleftrightarrow> ticks s \<le> ticks t \<and>
     (\<forall>p. live t p \<longrightarrow> live s p \<or> (\<exists>u. ticks s \<le> ticks u \<and> ticks u < ticks t \<and> p = malloc E u))"

definition mem_available :: "'u senv \<Rightarrow> nat \<Rightarrow> 'u server \<Rightarrow> bool" where
  "mem_available E n s \<longleftrightarrow> (\<forall>t. allocated_since E s t \<and> ticks t < ticks s + n \<longrightarrow> malloc E t \<noteq> 0)"

lemma mem_availableD:
  assumes "mem_available E n s" "ticks s \<le> ticks t" "ticks t < ticks s + n"
    and "\<And>p. live t p \<Longrightarrow> live s p \<or> (\<exists>u. ticks s \<le> ticks u \<and> ticks u < ticks t \<and> p = malloc E u)"
  shows "malloc E t \<noteq> 0"
  using assms unfolding mem_available_def allocated_since_def by blast

lemma allocated_since_trans:
  assumes "allocated_since E s t" "allocated_since E t u"
  shows "allocated_since E s u"
  using assms unfolding allocated_since_def by (meson le_trans less_le_trans order_le_less_trans)

lemma mem_available_later:
  assumes "mem_available E (k + n) s" "allocated_since E s t" "ticks t \<le> ticks s + k"
  shows "mem_available E n t"
  unfolding mem_available_def
proof (intro allI impI)
  fix u assume u: "allocated_since E t u \<and> ticks u < ticks t + n"
  with assms(2,3) have "allocated_since E s u" "ticks u < ticks s + (k + n)"
    by (auto intro: allocated_since_trans)
  with assms(1) show "malloc E u \<noteq> 0" by (simp add: mem_available_def)
qed

lemma set_signal_same: "same_structs s (set_signal ref sg s)"
proof (cases ref)
  case (Client_destroy ca)
  then show ?thesis by (cases "clients s ca") (auto simp: set_signal_def same_structs_def client_view_def fun_eq_iff)
next
  case (Resource_created ca)
  then show ?thesis by (cases "clients s ca") (auto simp: set_signal_def same_structs_def client_view_def fun_eq_iff)
next
  case (Resource_destroy p)
  then show ?thesis by (cases "resources s p") (auto simp: set_signal_def same_structs_def resource_view_def fun_eq_iff)
qed (auto simp: set_signal_def same_structs_def upd_display_def display_view_def)

lemma emit_same:
  assumes "env_ok E" "emit E ref data s = Some s'"
  shows "same_structs s s'"
  using assms(2) unfolding emit_def
  by (rule priv_emit_rel) (use assms(1) in \<open>auto simp: env_ok_def set_signal_same intro: same_structs_trans\<close>)

lemma signal_emit_same:
  assumes "env_ok E" "wl_signal_emit get (\<lambda>l. notify E l data) s = Some s'"
  shows "same_structs s s'"
  using assms(2) unfolding wl_signal_emit_def
  by (rule for_each_safe_rel) (use assms(1) in \<open>auto simp: env_ok_def intro: same_structs_trans\<close>)

section \<open>The invariant\<close>

definition client_ok :: "'u server \<Rightarrow> u64 \<Rightarrow> wl_client \<Rightarrow> bool" where
  "client_ok s ca c \<longleftrightarrow> ca \<noteq> 0 \<and> conn_ok (connection c) \<and> side (objects c) = WL_MAP_SERVER_SIDE \<and>
     (\<exists>xs. map_ok (objects c) xs) \<and>
     (\<forall>i p. wl_map_lookup (objects c) i = Some p \<longrightarrow> p \<noteq> 0 \<longrightarrow>
        (\<exists>r. resources s p = Some r \<and> rid r = i \<and> rclient r = ca)) \<and>
     (\<forall>i. wl_map_lookup_flags (objects c) i = Some 0) \<and> display_resource_ok s ca"

text \<open>
  What interface tables satisfy: names are C strings, and the table of types has an entry for every
  argument of a request.
\<close>

definition interface_ok :: "interface_spec \<Rightarrow> bool" where
  "interface_ok f \<longleftrightarrow> NUL \<notin> set (iname (ispec f)) \<and>
     (\<forall>m \<in> set (methods f). NUL \<notin> set (msg_name m) \<and> arg_count_for_signature (signature m) \<le> length (types m))"

lemma own_interfaces_ok [simp]:
  "interface_ok wl_display_interface" "interface_ok wl_registry_interface" "interface_ok wl_callback_interface"
  by (simp_all add: interface_ok_def wl_display_interface_def wl_registry_interface_def wl_callback_interface_def
      NUL_def is_arg_char_def)

text \<open>The library's own handlers serve the library's own interfaces.\<close>

definition impl_ok :: "wl_resource \<Rightarrow> bool" where
  "impl_ok r \<longleftrightarrow> (rimplementation r = Display_interface \<longrightarrow> rinterface r = wl_display_interface) \<and>
     (rimplementation r = Registry_interface \<longrightarrow> rinterface r = wl_registry_interface)"

definition resource_ok :: "'u server \<Rightarrow> u64 \<Rightarrow> wl_resource \<Rightarrow> bool" where
  "resource_ok s p r \<longleftrightarrow> p \<noteq> 0 \<and> p AND 3 = 0 \<and> rid r \<noteq> 0 \<and> interface_ok (rinterface r) \<and> impl_ok r \<and>
     (\<exists>c. clients s (rclient r) = Some c \<and> wl_map_lookup (objects c) (rid r) = Some p)"

definition registry_ok :: "'u server \<Rightarrow> bool" where
  "registry_ok s \<longleftrightarrow> distinct (registry_resource_list (display s)) \<and>
     (\<forall>p \<in> set (registry_resource_list (display s)). \<exists>r. resources s p = Some r \<and>
        rinterface r = wl_registry_interface \<and> rdestroy r = Unbind_resource)"

definition server_ok :: "'u server \<Rightarrow> bool" where
  "server_ok s \<longleftrightarrow> (\<forall>ca c. clients s ca = Some c \<longrightarrow> client_ok s ca c) \<and>
     (\<forall>p r. resources s p = Some r \<longrightarrow> resource_ok s p r) \<and> registry_ok s"

lemma server_okD:
  assumes "server_ok s"
  shows "clients s ca = Some c \<Longrightarrow> client_ok s ca c" "resources s p = Some r \<Longrightarrow> resource_ok s p r"
    "registry_ok s" "resources s 0 = None"
  using assms by (auto simp: server_ok_def resource_ok_def) (metis option.exhaust)

lemma client_ok_lookup:
  assumes "client_ok s ca c" "wl_map_lookup (objects c) i = Some p" "p \<noteq> 0"
  obtains r where "resources s p = Some r" "rid r = i" "rclient r = ca"
proof -
  have "\<exists>r. resources s p = Some r \<and> rid r = i \<and> rclient r = ca"
    using assms unfolding client_ok_def by blast
  with that show thesis by blast
qed

text \<open>A client is in order as long as its own resources are there.\<close>

lemma client_ok_heap:
  assumes "client_ok s ca c" "clients s ca = Some c" "clients s' ca = Some c'"
    and "\<And>q x. resources s q = Some x \<Longrightarrow> rclient x = ca \<Longrightarrow> resources s' q = Some x"
    and "objects c' = objects c" "display_resource c' = display_resource c" "conn_ok (connection c')"
  shows "client_ok s' ca c'"
proof -
  have "\<exists>r. resources s' p = Some r \<and> rid r = i \<and> rclient r = ca"
    if "wl_map_lookup (objects c) i = Some p" "p \<noteq> 0" for i p
    using client_ok_lookup [OF assms(1) that] assms(4) by metis
  moreover have "display_resource_ok s' ca"
    using assms unfolding client_ok_def display_resource_ok_def by force
  ultimately show ?thesis using assms(1,5,7) by (simp add: client_ok_def)
qed

lemma display_resource_ok_same:
  assumes "same_structs s s'" "display_resource_ok s ca"
  shows "display_resource_ok s' ca"
  unfolding display_resource_ok_def
proof (intro allI impI)
  fix c' assume c': "clients s' ca = Some c'" "display_resource c' \<noteq> 0"
  obtain c where "clients s ca = Some c" "display_resource c = display_resource c'"
    using same_structs_client [OF same_structs_sym [OF assms(1)] c'(1)] by metis
  with c' assms(2) obtain r where "resources s (display_resource c') = Some r" "rclient r = ca"
    "rid r = 1" "rinterface r = wl_display_interface" "rdestroy r = Destroy_client_display_resource"
    by (auto simp: display_resource_ok_def)
  then show "\<exists>r. resources s' (display_resource c') = Some r \<and> rclient r = ca \<and> rid r = 1 \<and>
      rinterface r = wl_display_interface \<and> rdestroy r = Destroy_client_display_resource"
    using same_structs_resource [OF assms(1)] by metis
qed

text \<open>Signals, listeners and the compositor's own state are no part of the invariant.\<close>

lemma client_ok_same:
  assumes "same_structs s s'" "clients s ca = Some c" "client_ok s ca c" "clients s' ca = Some c'"
  shows "client_ok s' ca c'"
proof -
  have c: "connection c = connection c'" "objects c = objects c'"
    using same_structs_client [OF assms(1,2)] assms(4) by (metis option.inject)+
  have "\<exists>r. resources s' p = Some r \<and> rid r = i \<and> rclient r = ca"
    if look: "wl_map_lookup (objects c') i = Some p" "p \<noteq> 0" for i p
  proof -
    obtain r where "resources s p = Some r" "rid r = i" "rclient r = ca"
      using client_ok_lookup [OF assms(3)] look c(2) by metis
    then show ?thesis using same_structs_resource [OF assms(1)] by metis
  qed
  moreover have "display_resource_ok s' ca"
    using display_resource_ok_same [OF assms(1)] assms(3) by (simp add: client_ok_def)
  ultimately show ?thesis using assms(3) c by (simp add: client_ok_def)
qed

lemma resource_ok_same:
  assumes "same_structs s s'" "resources s p = Some r" "resource_ok s p r" "resources s' p = Some r'"
  shows "resource_ok s' p r'"
proof -
  have r: "rid r' = rid r" "rclient r' = rclient r" "rinterface r' = rinterface r"
    "rimplementation r' = rimplementation r"
    using same_structs_resource [OF assms(1,2)] assms(4) by (metis option.inject)+
  obtain c where c: "clients s (rclient r) = Some c" "wl_map_lookup (objects c) (rid r) = Some p"
    "p \<noteq> 0" "p AND 3 = 0" "rid r \<noteq> 0" "interface_ok (rinterface r)" "impl_ok r"
    using assms(3) by (auto simp: resource_ok_def)
  obtain c' where "clients s' (rclient r) = Some c'" "objects c' = objects c"
    using same_structs_client [OF assms(1) c(1)] by metis
  with c r show ?thesis by (auto simp: resource_ok_def impl_ok_def)
qed

lemma registry_ok_same:
  assumes "same_structs s s'" "registry_ok s"
  shows "registry_ok s'"
  using assms(2) same_structs_resource [OF assms(1)]
  unfolding registry_ok_def same_structs_display(1) [OF assms(1)] by metis

lemma server_ok_same:
  assumes "server_ok s" "same_structs s s'"
  shows "server_ok s'"
  unfolding server_ok_def
proof (intro conjI allI impI)
  fix ca c' assume c': "clients s' ca = Some c'"
  then obtain c where c: "clients s ca = Some c" using same_structs_none(1) [OF assms(2), of ca] by auto
  from client_ok_same [OF assms(2) c server_okD(1) [OF assms(1) c] c'] show "client_ok s' ca c'" .
next
  fix p r' assume r': "resources s' p = Some r'"
  then obtain r where r: "resources s p = Some r" using same_structs_none(2) [OF assms(2), of p] by auto
  from resource_ok_same [OF assms(2) r server_okD(2) [OF assms(1) r] r'] show "resource_ok s' p r'" .
next
  show "registry_ok s'" by (rule registry_ok_same [OF assms(2) server_okD(3) [OF assms(1)]])
qed

text \<open>Output keeps the invariant.\<close>

lemma server_ok_emits:
  assumes "server_ok s" "emits ca bs s s'"
  shows "server_ok s'"
proof -
  obtain c where c: "clients s ca = Some c" using emits_fields(8) [OF assms(2)] by blast
  obtain c' where c': "clients s' ca = Some c'" "objects c' = objects c" "display_resource c' = display_resource c"
    "conn_ok (connection c) \<Longrightarrow> conn_ok (connection c')"
    using emits_client [OF assms(2) c] by metis
  note f = emits_fields [OF assms(2)]
  have cl: "\<exists>d. clients s x = Some d \<and> objects d' = objects d \<and> display_resource d' = display_resource d \<and>
      (conn_ok (connection d) \<longrightarrow> conn_ok (connection d'))"
    if "clients s' x = Some d'" for x d'
    using that c c' f(7) by (cases "x = ca") auto
  have cl': "\<exists>d'. clients s' x = Some d' \<and> objects d' = objects d" if "clients s x = Some d" for x d
    using that c c' f(7) by (cases "x = ca") auto
  show ?thesis
    unfolding server_ok_def
  proof (intro conjI allI impI)
    fix x d' assume d': "clients s' x = Some d'"
    with cl obtain d where d: "clients s x = Some d" "objects d' = objects d" "display_resource d' = display_resource d"
      "conn_ok (connection d) \<longrightarrow> conn_ok (connection d')" by blast
    with server_okD(1) [OF assms(1) d(1)] d' show "client_ok s' x d'"
      by (auto simp: client_ok_def f(1) display_resource_ok_def)
  next
    fix p r assume "resources s' p = Some r"
    then have "resource_ok s p r" using server_okD(2) [OF assms(1)] f(1) by simp
    then show "resource_ok s' p r" using cl' by (fastforce simp: resource_ok_def)
  next
    show "registry_ok s'" using server_okD(3) [OF assms(1)] by (simp add: registry_ok_def f)
  qed
qed

section \<open>Creating resources\<close>

text \<open>
  An id of the client's range that names nothing and has its place in the table: reserved by the
  request that carries it, or the next one of a table with room.
\<close>

definition id_available :: "wl_map \<Rightarrow> u32 \<Rightarrow> bool" where
  "id_available m i \<longleftrightarrow> i \<noteq> 0 \<and> i < WL_SERVER_ID_START \<and> wl_map_lookup m i = Some 0 \<and>
     (snd (slot i) < cell_count (client_entries m) \<or> peer_room m 1)"

lemma client_id_slot: "i < WL_SERVER_ID_START \<Longrightarrow> slot i = (True, unat i)"
  by (simp add: slot_def)

lemma server_side_map: "side m = WL_MAP_SERVER_SIDE \<Longrightarrow> \<not> own_side m"
  by (simp add: own_side_def WL_MAP_SERVER_SIDE_def WL_MAP_CLIENT_SIDE_def)

text \<open>A client id is bound to \<open>data\<close>, or the table is left as it is.\<close>

lemma peer_room_client:
  "client_ok s ca c \<Longrightarrow> peer_room (objects c) n \<longleftrightarrow> cell_count (client_entries (objects c)) + n \<le> table_limit True"
  using server_side_map by (auto simp: client_ok_def peer_room_def entries_of_def Let_def)

lemma insert_at_client:
  assumes "env_ok E" "client_ok s ca c" "i < WL_SERVER_ID_START" "data AND 3 = 0"
    and "snd (slot i) < cell_count (client_entries (objects c)) \<or> peer_room (objects c) 1"
    and "wl_map_insert_at (blocks E) (objects c) 0 i data = Some (m, ret)"
  shows "ret = -1 \<and> m = objects c \<and> cell_count (client_entries (objects c)) < snd (slot i) \<or>
    ret = 0 \<and> (\<exists>xs. map_ok m xs) \<and> side m = WL_MAP_SERVER_SIDE \<and> wl_map_lookup m i = Some data \<and>
      same_except i (objects c) m \<and> (\<forall>j. wl_map_lookup_flags m j = Some 0)"
proof -
  obtain xs where m: "map_ok (objects c) xs" "side (objects c) = WL_MAP_SERVER_SIDE"
    "\<forall>i. wl_map_lookup_flags (objects c) i = Some 0"
    using assms(2) by (auto simp: client_ok_def)
  have A: "allocator_ok (blocks E)" "\<And>n. blocks E n \<noteq> None" using assms(1) by (auto simp: env_ok_def)
  have room: "unat i < cell_count (entries_of True (objects c)) \<or> peer_room (objects c) 1"
    using assms(5) by (simp add: client_id_slot [OF assms(3)] entries_of_def)
  note ins = wl_map_insert_at_ok [OF A m(1) assms(4) client_id_slot [OF assms(3)] _ room, of 0]
  show ?thesis
  proof (cases "cell_count (entries_of True (objects c)) < unat i")
    case True
    with ins assms(6) server_side_map [OF m(2)] show ?thesis
      by (simp add: client_id_slot [OF assms(3)] entries_of_def)
  next
    case False
    with ins assms(6) server_side_map [OF m(2)] have ok: "ret = 0" "map_ok m xs" "side m = side (objects c)"
      "inserted (objects c) i data 0 m" by auto
    have "wl_map_lookup_flags m j = Some 0" for j
      using ok(4) m(3) by (cases "j = i") (auto simp: inserted_def same_except_def)
    with ok m(2) show ?thesis by (auto simp: inserted_def)
  qed
qed

lemma server_ok_create:
  assumes s: "server_ok s" "clients s ca = Some c"
    and p: "resources s p = None" "p \<noteq> 0" "p AND 3 = 0"
    and i: "wl_map_lookup (objects c) i = Some 0" "i \<noteq> 0"
    and m: "\<exists>xs. map_ok m xs" "side m = WL_MAP_SERVER_SIDE" "wl_map_lookup m i = Some p"
      "same_except i (objects c) m" "\<forall>j. wl_map_lookup_flags m j = Some 0"
    and r: "rid r = i" "rclient r = ca" "interface_ok (rinterface r)" "impl_ok r"
  shows "server_ok (s\<lparr>ticks := n, resources := (resources s)(p \<mapsto> r),
    clients := (clients s)(ca \<mapsto> c\<lparr>objects := m\<rparr>)\<rparr>)" (is "server_ok ?s")
proof -
  note cok = server_okD(1) [OF s]
  have other: "q \<noteq> p" if "resources s q = Some x" for q x using that p(1) by auto
  have look: "wl_map_lookup m j = wl_map_lookup (objects c) j" if "j \<noteq> i" for j
    using m(4) that by (simp add: same_except_def)
  show ?thesis
    unfolding server_ok_def
  proof (intro conjI allI impI)
    fix x d assume "clients ?s x = Some d"
    then consider (here) "x = ca" "d = c\<lparr>objects := m\<rparr>" | (there) "x \<noteq> ca" "clients s x = Some d"
      by (auto split: if_splits)
    then show "client_ok ?s x d"
    proof cases
      case here
      have "\<exists>r'. resources ?s q = Some r' \<and> rid r' = j \<and> rclient r' = ca"
        if q: "wl_map_lookup m j = Some q" "q \<noteq> 0" for j q
      proof (cases "j = i")
        case True
        with q m(3) r show ?thesis by simp
      next
        case False
        then obtain r' where "resources s q = Some r'" "rid r' = j" "rclient r' = ca"
          using client_ok_lookup [OF cok, of j q] q look by auto
        with other show ?thesis by auto
      qed
      moreover have "display_resource_ok ?s ca"
        using cok s(2) other unfolding client_ok_def display_resource_ok_def by fastforce
      ultimately show ?thesis using here cok m(1,2,5) by (simp add: client_ok_def)
    next
      case there
      note d = server_okD(1) [OF s(1) there(2)]
      then have "conn_ok (connection d)" by (simp add: client_ok_def)
      with there other show ?thesis by (intro client_ok_heap [OF d there(2)]) auto
    qed
  next
    fix q x assume "resources ?s q = Some x"
    then consider (here) "q = p" "x = r" | (there) "q \<noteq> p" "resources s q = Some x" by (auto split: if_splits)
    then show "resource_ok ?s q x"
    proof cases
      case here
      with m(3) r p i(2) show ?thesis by (auto simp: resource_ok_def)
    next
      case there
      obtain d where d: "q \<noteq> 0" "q AND 3 = 0" "rid x \<noteq> 0" "clients s (rclient x) = Some d"
        "wl_map_lookup (objects d) (rid x) = Some q" "interface_ok (rinterface x)" "impl_ok x"
        using server_okD(2) [OF s(1) there(2)] by (auto simp: resource_ok_def)
      show ?thesis
      proof (cases "rclient x = ca")
        case True
        with d s(2) i(1) have "rid x \<noteq> i" by auto
        with look d True s(2) show ?thesis by (simp add: resource_ok_def)
      next
        case False
        with d show ?thesis by (simp add: resource_ok_def)
      qed
    qed
  next
    show "registry_ok ?s"
      using server_okD(3) [OF s(1)] p(1) by (auto simp: registry_ok_def)
  qed
qed

text \<open>
  Creating a resource for an available id keeps the invariant. The result is the new resource,
  registered under its id, or null after an error was posted or memory ran out.
\<close>

lemma resource_create_ok:
  assumes E: "env_ok E" and s: "server_ok s" "clients s ca = Some c" and i: "id_available (objects c) i"
    and iface: "interface_ok iface" and run: "wl_resource_create E ca iface v i s = Some (p, s')"
  shows "server_ok s'"
    "p \<noteq> 0 \<Longrightarrow> \<exists>r c'. resources s p = None \<and> resources s' p = Some r \<and> rid r = i \<and> rclient r = ca \<and>
      rinterface r = iface \<and> rdestroy r = No_destroy \<and> rimplementation r = No_implementation \<and>
      clients s' ca = Some c' \<and> wl_map_lookup (objects c') i = Some p \<and> same_except i (objects c) (objects c') \<and>
      connection c' = connection c \<and> display_resource c' = display_resource c \<and> cerror c' = cerror c \<and>
      sockets s' = sockets s"
    "p = 0 \<Longrightarrow> \<exists>bs. emits ca bs s s'"
    "display_view (display s') = display_view (display s)" "globals s' = globals s" "detached s' = detached s"
proof -
  let ?p = "malloc E s"
  have i': "i \<noteq> 0" "i < WL_SERVER_ID_START" "wl_map_lookup (objects c) i = Some 0"
    "snd (slot i) < cell_count (client_entries (objects c)) \<or> peer_room (objects c) 1"
    using i by (auto simp: id_available_def)
  have "server_ok s' \<and> (p \<noteq> 0 \<longrightarrow> (\<exists>r c'. resources s p = None \<and> resources s' p = Some r \<and> rid r = i \<and> rclient r = ca \<and>
      rinterface r = iface \<and> rdestroy r = No_destroy \<and> rimplementation r = No_implementation \<and>
      clients s' ca = Some c' \<and> wl_map_lookup (objects c') i = Some p \<and> same_except i (objects c) (objects c') \<and>
      connection c' = connection c \<and> display_resource c' = display_resource c \<and> cerror c' = cerror c \<and>
      sockets s' = sockets s)) \<and>
    (p = 0 \<longrightarrow> (\<exists>bs. emits ca bs s s')) \<and>
    display_view (display s') = display_view (display s) \<and> globals s' = globals s \<and> detached s' = detached s"
  proof (cases "?p = 0")
    case True
    with run have s': "p = 0" "s' = s\<lparr>ticks := ticks s + 1\<rparr>"
      by (auto simp: wl_resource_create_def do_malloc_def Let_def)
    have "same_structs s s'" by (simp add: s'(2) same_structs_def)
    moreover have "emits ca [] s s'"
      by (rule emitsI [OF s(2), of "connection c" _ "sockets s (cfd (connection c))" "cerror c" _ "logged s" "ticks s + 1"])
        (auto simp: s'(2) output_grown_refl fun_upd_idem s(2))
    ultimately show ?thesis using s' server_ok_same [OF s(1)] by auto
  next
    case False
    then have p: "resources s ?p = None" "?p AND 3 = 0"
      using E by (auto simp: env_ok_def live_def)
    define r where "r = \<lparr>rinterface = iface, rimplementation = No_implementation, rid = i, rdestroy = No_destroy,
      deprecated_destroy_signal = wl_signal_init, rclient = ca, rdata = 0, rversion = v,
      rdispatcher = None, rdestroy_signal = wl_priv_signal_init\<rparr>"
    obtain m ret where m: "wl_map_insert_at (blocks E) (objects c) 0 i ?p = Some (m, ret)"
      using run False i'(1) s(2) by (auto simp: wl_resource_create_def do_malloc_def Let_def bind_eq_Some)
    define s1 where "s1 = s\<lparr>ticks := ticks s + 1, resources := (resources s)(?p \<mapsto> r),
      clients := (clients s)(ca \<mapsto> c\<lparr>objects := m\<rparr>)\<rparr>"
    have rest: "(if ret < 0 then do {
         s \<leftarrow> wl_resource_post_error E (display_resource c) WL_DISPLAY_ERROR_INVALID_OBJECT
                (ascii (''invalid new id '' @ show_int (sint i))) s1;
         Some (0, free_resource ?p s) }
       else do { s \<leftarrow> emit E (Resource_created ca) ?p s1; Some (?p, s) }) = Some (p, s')"
      using run False i'(1) s(2) m unfolding s1_def r_def
      by (simp add: wl_resource_create_def do_malloc_def Let_def upd_client_def cong: if_cong)
    from insert_at_client [OF E server_okD(1) [OF s] i'(2) p(2) i'(4) m] show ?thesis
    proof (elim disjE conjE)
      assume fail: "ret = -1" "m = objects c"
      then obtain s2 where s2: "wl_resource_post_error E (display_resource c) WL_DISPLAY_ERROR_INVALID_OBJECT
          (ascii (''invalid new id '' @ show_int (sint i))) s1 = Some s2" "p = 0" "s' = free_resource ?p s2"
        using rest by (auto simp: bind_eq_Some)
      obtain dr where dr: "resources s1 (display_resource c) = Some dr"
        using s2(1) by (auto simp: wl_resource_post_error_def bind_eq_Some)
      have dp: "display_resource_ok s ca" using server_okD(1) [OF s] by (simp add: client_ok_def)
      have ne: "display_resource c \<noteq> ?p \<and> display_resource c \<noteq> 0 \<and> rclient dr = ca"
      proof (cases "display_resource c = 0")
        case True
        with dr False server_okD(4) [OF s(1)] show ?thesis by (simp add: s1_def)
      next
        case d: False
        with dp s(2) obtain x where "resources s (display_resource c) = Some x" "rclient x = ca"
          by (auto simp: display_resource_ok_def)
        with d dr p(1) show ?thesis by (auto simp: s1_def split: if_splits)
      qed
      have "display_resource_ok s1 (rclient dr)"
        using dp s(2) ne p(1) by (auto simp: display_resource_ok_def s1_def fail(2))
      then obtain bs where em: "emits ca bs s1 s2"
        using post_error_frame [OF s2(1) dr] ne by metis
      have c1: "clients s1 ca = Some c" by (simp add: s1_def fail(2))
      obtain conn err w l n where e: "s2 = s1\<lparr>clients := (clients s1)(ca \<mapsto> c\<lparr>connection := conn, cerror := err\<rparr>),
          sockets := (sockets s1)(cfd (connection c) := w), ticks := n, logged := l\<rparr>"
        "cerror c \<Longrightarrow> err" "conn_ok (connection c) \<Longrightarrow> conn_ok conn \<and>
          output_grown (connection c, sockets s1 (cfd (connection c))) bs [] (conn, w)"
        by (rule emitsE [OF em c1], rule that) auto
      have "s' = s\<lparr>clients := (clients s)(ca \<mapsto> c\<lparr>connection := conn, cerror := err\<rparr>),
          sockets := (sockets s)(cfd (connection c) := w), ticks := n, logged := l\<rparr>"
        using p(1) by (simp add: s2(3) e(1) s1_def free_resource_def fun_upd_idem)
      then have "emits ca bs s s'"
        using e(2,3) by (intro emitsI [OF s(2)]) (auto simp: s1_def)
      then show ?thesis
        using s2(2) server_ok_emits [OF s(1)] emits_fields [of ca bs s s'] by auto
    next
      assume ok: "ret = 0" "\<exists>xs. map_ok m xs" "side m = WL_MAP_SERVER_SIDE" "wl_map_lookup m i = Some ?p"
        "same_except i (objects c) m" "\<forall>j. wl_map_lookup_flags m j = Some 0"
      then have s': "emit E (Resource_created ca) ?p s1 = Some s'" "p = ?p"
        using rest by (auto simp: bind_eq_Some)
      note same = emit_same [OF E s'(1)]
      have "server_ok s1"
        unfolding s1_def
        by (rule server_ok_create [OF s p(1) False p(2) i'(3,1) ok(2-6)]) (simp_all add: r_def iface impl_ok_def)
      note ok1 = server_ok_same [OF this same]
      obtain r' where r': "resources s' ?p = Some r'" "rid r' = i" "rclient r' = ca" "rinterface r' = iface"
        "rdestroy r' = No_destroy" "rimplementation r' = No_implementation"
        using same_structs_resource [OF same, of ?p r] by (auto simp: s1_def r_def)
      obtain c' where c': "clients s' ca = Some c'" "connection c' = connection c"
        "display_resource c' = display_resource c" "objects c' = m" "cerror c' = cerror c"
        using same_structs_client [OF same, of ca "c\<lparr>objects := m\<rparr>"] by (auto simp: s1_def)
      have "display_view (display s') = display_view (display s)" "globals s' = globals s"
        "detached s' = detached s" "sockets s' = sockets s"
        using same by (simp_all add: same_structs_def s1_def)
      with ok1 r' c' ok(4,5) p(1) s'(2) False show ?thesis by auto
    qed
  qed
  then show "server_ok s'"
    "p \<noteq> 0 \<Longrightarrow> \<exists>r c'. resources s p = None \<and> resources s' p = Some r \<and> rid r = i \<and> rclient r = ca \<and>
      rinterface r = iface \<and> rdestroy r = No_destroy \<and> rimplementation r = No_implementation \<and>
      clients s' ca = Some c' \<and> wl_map_lookup (objects c') i = Some p \<and> same_except i (objects c) (objects c') \<and>
      connection c' = connection c \<and> display_resource c' = display_resource c \<and> cerror c' = cerror c \<and>
      sockets s' = sockets s"
    "p = 0 \<Longrightarrow> \<exists>bs. emits ca bs s s'"
    "display_view (display s') = display_view (display s)" "globals s' = globals s" "detached s' = detached s"
    by auto
qed

section \<open>Destroying resources\<close>

lemma server_ok_remove:
  assumes s: "server_ok s" and p: "resources s p = Some r" and c: "clients s (rclient r) = Some c"
    and c': "conn_ok (connection c')" "side (objects c') = WL_MAP_SERVER_SIDE" "\<exists>xs. map_ok (objects c') xs"
      "wl_map_lookup (objects c') (rid r) = Some 0" "\<forall>j. wl_map_lookup_flags (objects c') j = Some 0"
      "same_except (rid r) (objects c) (objects c')"
      "display_resource c' = 0 \<or> display_resource c' = display_resource c \<and> display_resource c \<noteq> p"
    and s': "resources s' = (resources s)(p := None)" "clients s' = (clients s)(rclient r \<mapsto> c')"
      "registry_resource_list (display s') = remove1 p (registry_resource_list (display s))"
  shows "server_ok s'"
proof -
  let ?ca = "rclient r"
  note cok = server_okD(1) [OF s c]
  have look: "wl_map_lookup (objects c') j = wl_map_lookup (objects c) j" if "j \<noteq> rid r" for j
    using c'(6) that by (simp add: same_except_def)
  show ?thesis
    unfolding server_ok_def
  proof (intro conjI allI impI)
    fix x d assume "clients s' x = Some d"
    then consider (here) "x = ?ca" "d = c'" | (there) "x \<noteq> ?ca" "clients s x = Some d"
      using s'(2) by (auto split: if_splits)
    then show "client_ok s' x d"
    proof cases
      case here
      have "\<exists>r'. resources s' q = Some r' \<and> rid r' = j \<and> rclient r' = ?ca"
        if q: "wl_map_lookup (objects c') j = Some q" "q \<noteq> 0" for j q
      proof -
        have j: "j \<noteq> rid r" using q c'(4) by auto
        then obtain r' where r': "resources s q = Some r'" "rid r' = j" "rclient r' = ?ca"
          using client_ok_lookup [OF cok, of j q] q look by auto
        with j p have "q \<noteq> p" by auto
        with r' s'(1) show ?thesis by simp
      qed
      moreover have "display_resource_ok s' ?ca"
      proof -
        have "display_resource_ok s ?ca" using cok by (simp add: client_ok_def)
        then show ?thesis using c c'(7) s'(1,2) by (auto simp: display_resource_ok_def)
      qed
      ultimately show ?thesis using here cok c'(1-3,5) by (simp add: client_ok_def)
    next
      case there
      note d = server_okD(1) [OF s there(2)]
      then have "conn_ok (connection d)" by (simp add: client_ok_def)
      with there p s'(1,2) show ?thesis by (intro client_ok_heap [OF d there(2)]) auto
    qed
  next
    fix q x assume "resources s' q = Some x"
    then have q: "q \<noteq> p" "resources s q = Some x" using s'(1) by (auto split: if_splits)
    obtain d where d: "q \<noteq> 0" "q AND 3 = 0" "rid x \<noteq> 0" "clients s (rclient x) = Some d"
      "wl_map_lookup (objects d) (rid x) = Some q" "interface_ok (rinterface x)" "impl_ok x"
      using server_okD(2) [OF s q(2)] by (auto simp: resource_ok_def)
    have "wl_map_lookup (objects c) (rid r) = Some p"
      using server_okD(2) [OF s p] c by (auto simp: resource_ok_def)
    then have "rclient x = ?ca \<Longrightarrow> rid x \<noteq> rid r" using d c q(1) by auto
    with d look s'(2) c show "resource_ok s' q x" by (auto simp: resource_ok_def)
  next
    have "set (remove1 p (registry_resource_list (display s))) = set (registry_resource_list (display s)) - {p}"
      using server_okD(3) [OF s] by (simp add: registry_ok_def set_remove1_eq)
    then show "registry_ok s'"
      using server_okD(3) [OF s] s'(1) by (auto simp: registry_ok_def s'(3))
  qed
qed

text \<open>What the library's own destructors do.\<close>

definition destructed :: "wl_resource \<Rightarrow> u64 \<Rightarrow> 'u server \<Rightarrow> 'u server" where
  "destructed r p s = (case rdestroy r of
     Destroy_client_display_resource \<Rightarrow>
       s\<lparr>clients := (clients s)(rclient r := map_option (display_resource_update (\<lambda>_. 0)) (clients s (rclient r)))\<rparr>
   | Unbind_resource \<Rightarrow> upd_display (registry_resource_list_update (remove1 p)) s
   | _ \<Rightarrow> s)"

lemma destroy_resource_run:
  assumes E: "env_ok E" and p: "resources s p = Some r" "clients s (rclient r) = Some c"
    "\<forall>i. wl_map_lookup_flags (objects c) i = Some 0"
    and run: "destroy_resource E p 0 s = Some s'"
  obtains b rb where "same_structs s b" "resources b p = Some rb" "resource_view rb = resource_view r"
    "s' = free_resource p (destructed rb p b)"
proof -
  obtain s1 where s1: "wl_signal_emit (\<lambda>s. map_option deprecated_destroy_signal (resources s p)) (\<lambda>l. notify E l p) s = Some s1"
    using run by (auto simp: destroy_resource_def bind_eq_Some)
  note same1 = signal_emit_same [OF E s1]
  obtain r1 where r1: "resources s1 p = Some r1" "resource_view r1 = resource_view r"
    using same_structs_resource [OF same1 p(1)] unfolding resource_view_def by metis
  obtain c1 where c1: "clients s1 (rclient r) = Some c1" "objects c1 = objects c"
    using same_structs_client [OF same1 p(2)] by metis
  have "resource_is_deprecated p s1 = Some False"
    using r1 c1 p(3) by (simp add: resource_is_deprecated_def resource_view_def)
  then obtain s2 where s2: "emit E (Resource_destroy p) p s1 = Some s2" "run_destructor E p s2 \<noteq> None"
    "s' = free_resource p (the (run_destructor E p s2))"
    using run s1 by (auto simp: destroy_resource_def bind_eq_Some)
  note same2 = same_structs_trans [OF same1 emit_same [OF E s2(1)]]
  obtain r2 where r2: "resources s2 p = Some r2" "resource_view r2 = resource_view r"
    using same_structs_resource [OF same2 p(1)] unfolding resource_view_def by metis
  show thesis
  proof (cases "rdestroy r2")
    case (Destroy k)
    then obtain s3 where s3: "destructor E k p s2 = Some s3" "s' = free_resource p s3"
      using s2 r2 by (auto simp: run_destructor_def)
    have same3: "same_structs s2 s3" using E s3(1) by (auto simp: env_ok_def)
    obtain r3 where r3: "resources s3 p = Some r3" "resource_view r3 = resource_view r2"
      using same_structs_resource [OF same3 r2(1)] unfolding resource_view_def by metis
    with Destroy have "destructed r3 p s3 = s3" by (simp add: destructed_def resource_view_def)
    with that [OF same_structs_trans [OF same2 same3] r3(1)] r3(2) r2(2) s3(2) show thesis by simp
  qed (use s2 r2 that [OF same2 r2] in \<open>auto simp: run_destructor_def destructed_def unbind_resource_def
      destroy_client_display_resource_def upd_client_def\<close>)
qed

text \<open>A registry, and only a registry, leaves the display's list.\<close>

lemma destructed_registry:
  assumes "registry_ok b" "resources b p = Some r"
  shows "registry_resource_list (display (free_resource p (destructed r p b))) =
    remove1 p (registry_resource_list (display b))"
proof (cases "rdestroy r = Unbind_resource")
  case True
  then show ?thesis by (simp add: free_resource_def destructed_def upd_display_def)
next
  case False
  then have "p \<notin> set (registry_resource_list (display b))"
    using assms by (auto simp: registry_ok_def)
  moreover have "display (free_resource p (destructed r p b)) = display b"
    using False by (auto simp: free_resource_def destructed_def split: wl_destructor.splits)
  ultimately show ?thesis by (simp add: remove1_idem)
qed

lemma registry_ok_remove:
  assumes "registry_ok b" "resources s' = (resources b)(p := None)"
    and "registry_resource_list (display s') = remove1 p (registry_resource_list (display b))"
  shows "registry_ok s'"
proof -
  have "set (remove1 p (registry_resource_list (display b))) = set (registry_resource_list (display b)) - {p}"
    using assms(1) by (simp add: registry_ok_def set_remove1_eq)
  with assms show ?thesis by (auto simp: registry_ok_def)
qed

text \<open>
  The state between the destruction of a resource and the release of its id: the resource is gone,
  and its client's display resource, unless it was the one destroyed, can still be sent events.
\<close>

lemma destructed_state:
  assumes b: "server_ok b" "resources b p = Some r" "clients b (rclient r) = Some cb"
    and sd: "sd = free_resource p (destructed r p b)"
  obtains cd where "clients sd = (clients b)(rclient r \<mapsto> cd)" "objects cd = objects cb" "connection cd = connection cb"
    "cerror cd = cerror cb"
    "display_resource cd = 0 \<or> display_resource cd = display_resource cb \<and> display_resource cb \<noteq> p"
    "display_resource_ok sd (rclient r)" "resources sd = (resources b)(p := None)"
    "registry_resource_list (display sd) = remove1 p (registry_resource_list (display b))"
proof -
  let ?ca = "rclient r"
  have dp: "display_resource_ok b ?ca" using server_okD(1) [OF b(1,3)] by (simp add: client_ok_def)
  let ?cd = "if rdestroy r = Destroy_client_display_resource then cb\<lparr>display_resource := 0\<rparr> else cb"
  have cl: "clients sd = (clients b)(?ca \<mapsto> ?cd)"
    using b(3) by (auto simp: sd free_resource_def destructed_def upd_display_def fun_upd_idem split: wl_destructor.splits)
  have res: "resources sd = (resources b)(p := None)"
    by (auto simp: sd free_resource_def destructed_def upd_display_def split: wl_destructor.splits)
  have di: "display_resource ?cd = 0 \<or> display_resource ?cd = display_resource cb \<and> display_resource cb \<noteq> p"
    using dp b(2,3) by (auto simp: display_resource_ok_def)
  have "display_resource_ok sd ?ca"
    using dp b(3) di by (auto simp: display_resource_ok_def cl res split: if_splits)
  moreover have "registry_resource_list (display sd) = remove1 p (registry_resource_list (display b))"
    unfolding sd by (rule destructed_registry [OF server_okD(3) [OF b(1)] b(2)])
  ultimately show thesis by (intro that [of ?cd]) (use cl res di in auto)
qed

text \<open>Releasing the id of a resource, in the client's or the server's range.\<close>

lemma release_id:
  assumes E: "env_ok E" and c: "client_ok b ca c" "wl_map_lookup (objects c) i = Some p" "p \<noteq> 0"
    and run: "i < WL_SERVER_ID_START \<and> wl_map_insert_at (blocks E) (objects c) 0 i 0 = Some (m, ret) \<or>
      \<not> i < WL_SERVER_ID_START \<and> wl_map_remove (objects c) i = Some m"
  shows "side m = WL_MAP_SERVER_SIDE \<and> (\<exists>xs. map_ok m xs) \<and> wl_map_lookup m i = Some 0 \<and>
    (\<forall>j. wl_map_lookup_flags m j = Some 0) \<and> same_except i (objects c) m"
proof -
  obtain xs where m: "map_ok (objects c) xs" "side (objects c) = WL_MAP_SERVER_SIDE"
    "\<forall>i. wl_map_lookup_flags (objects c) i = Some 0"
    using c(1) by (auto simp: client_ok_def)
  from run show ?thesis
  proof (elim disjE conjE)
    assume i: "i < WL_SERVER_ID_START" "wl_map_insert_at (blocks E) (objects c) 0 i 0 = Some (m, ret)"
    have "snd (slot i) < cell_count (client_entries (objects c))"
      using wl_map_lookup_cells(1) [OF table_ok_entries [OF m(1)] client_id_slot [OF i(1)]] c(2,3)
      by (auto simp: table_lookup_def entries_of_def client_id_slot [OF i(1)] split: if_splits)
    then show ?thesis using insert_at_client [OF E c(1) i(1) _ _ i(2)] by auto
  next
    assume i: "\<not> i < WL_SERVER_ID_START" "wl_map_remove (objects c) i = Some m"
    have own: "fst (slot i) = own_side (objects c)" using i(1) server_side_map [OF m(2)] by (simp add: slot_def)
    have used: "wl_map_lookup (objects c) i \<noteq> Some 0" using c(2,3) by simp
    obtain m' where m': "wl_map_remove (objects c) i = Some m'" "map_ok m' (snd (slot i) # xs)"
      "wl_map_lookup m' i = Some 0" "same_except i (objects c) m'" "side m' = side (objects c)"
      "wl_map_lookup_flags m' i = Some 0"
      by (rule wl_map_remove_ok [OF m(1) own used]) (rule that)
    have "wl_map_lookup_flags m' j = Some 0" for j
      using m'(4,6) m(3) by (cases "j = i") (auto simp: same_except_def)
    with m' m(2) i(2) show ?thesis by auto
  qed
qed

lemma resource_destroy_ok:
  assumes E: "env_ok E" and s: "server_ok s" "resources s p = Some r" "clients s (rclient r) = Some c"
    and run: "wl_resource_destroy E p s = Some s'"
  shows "server_ok s'" "map_option resource_view \<circ> resources s' = (map_option resource_view \<circ> resources s)(p := None)"
    "\<exists>c'. clients s' (rclient r) = Some c' \<and> wl_map_lookup (objects c') (rid r) = Some 0 \<and>
      same_except (rid r) (objects c) (objects c') \<and> inb (connection c') = inb (connection c)"
    "\<forall>ca. ca \<noteq> rclient r \<longrightarrow> map_option client_view (clients s' ca) = map_option client_view (clients s ca)"
proof -
  let ?ca = "rclient r" let ?i = "rid r"
  note cok = server_okD(1) [OF s(1,3)]
  have fl: "\<forall>i. wl_map_lookup_flags (objects c) i = Some 0" using cok by (simp add: client_ok_def)
  have pi: "wl_map_lookup (objects c) ?i = Some p" "p \<noteq> 0"
    using server_okD(2) [OF s(1,2)] s(3) by (auto simp: resource_ok_def)
  obtain sd where sd: "destroy_resource E p 0 s = Some sd"
    using run s fl by (auto simp: wl_resource_destroy_def bind_eq_Some)
  obtain b rb where b: "same_structs s b" "resources b p = Some rb" "resource_view rb = resource_view r"
    "sd = free_resource p (destructed rb p b)"
    using destroy_resource_run [OF E s(2,3) fl sd] by metis
  have rb: "rclient rb = ?ca" "rid rb = ?i" using b(3) by (auto simp: resource_view_def)
  obtain cb where cb: "clients b ?ca = Some cb" "objects cb = objects c" "connection cb = connection c"
    using same_structs_client [OF b(1) s(3)] by metis
  note bok = server_ok_same [OF s(1) b(1)]
  obtain cd where cd: "clients sd = (clients b)(?ca \<mapsto> cd)" "objects cd = objects cb" "connection cd = connection cb"
    "display_resource cd = 0 \<or> display_resource cd = display_resource cb \<and> display_resource cb \<noteq> p"
    "display_resource_ok sd ?ca" "resources sd = (resources b)(p := None)"
    "registry_resource_list (display sd) = remove1 p (registry_resource_list (display b))"
    by (rule destructed_state [OF bok b(2) _ b(4), unfolded rb(1), OF cb(1)]) (rule that)
  have "\<exists>se bs m ret. (se = sd \<or> emits ?ca bs sd se) \<and>
      upd_client ?ca (objects_update (\<lambda>_. m)) se = Some s' \<and>
      (?i < WL_SERVER_ID_START \<and> wl_map_insert_at (blocks E) (objects cd) 0 ?i 0 = Some (m, ret) \<or>
       \<not> ?i < WL_SERVER_ID_START \<and> wl_map_remove (objects cd) ?i = Some m)"
  proof (cases "?i < WL_SERVER_ID_START")
    case True
    then obtain se ce m ret where se: "(if display_resource cd \<noteq> 0
          then wl_resource_queue_event E (display_resource cd) WL_DISPLAY_DELETE_ID [Arg_u ?i] sd
          else Some sd) = Some se" "clients se ?ca = Some ce"
        "wl_map_insert_at (blocks E) (objects ce) 0 ?i 0 = Some (m, ret)"
        "upd_client ?ca (objects_update (\<lambda>_. m)) se = Some s'"
      using run s(2,3) fl sd cd(1) by (auto simp: wl_resource_destroy_def bind_eq_Some)
    show ?thesis
    proof (cases "display_resource cd = 0")
      case True
      with se cd(1) \<open>?i < WL_SERVER_ID_START\<close> show ?thesis by auto
    next
      case False
      then obtain dr where dr: "resources sd (display_resource cd) = Some dr" "rclient dr = ?ca"
        "rinterface dr = wl_display_interface"
        using cd(1,5) by (auto simp: display_resource_ok_def)
      have "wl_resource_queue_event E (display_resource cd) WL_DISPLAY_DELETE_ID [Arg_u ?i] sd = Some se"
        using se(1) False by simp
      then obtain bs where em: "emits ?ca bs sd se"
        using event_frame [OF disjI2 dr(1), of E WL_DISPLAY_DELETE_ID "[Arg_u ?i]" se] own_events dr(2,3)
        by (metis insertI1)
      have "objects ce = objects cd" using emits_client [OF em, of cd] cd(1) se(2) by auto
      with em se(3,4) \<open>?i < WL_SERVER_ID_START\<close> show ?thesis by auto
    qed
  next
    case False
    then show ?thesis
      using run s(2,3) fl sd cd(1) by (auto simp: wl_resource_destroy_def bind_eq_Some)
  qed
  then obtain se bs m ret where se: "se = sd \<or> emits ?ca bs sd se"
    "upd_client ?ca (objects_update (\<lambda>_. m)) se = Some s'"
    "?i < WL_SERVER_ID_START \<and> wl_map_insert_at (blocks E) (objects cb) 0 ?i 0 = Some (m, ret) \<or>
       \<not> ?i < WL_SERVER_ID_START \<and> wl_map_remove (objects cb) ?i = Some m"
    unfolding cd(2) by blast
  note bcok = server_okD(1) [OF bok cb(1)]
  have bl: "wl_map_lookup (objects cb) ?i = Some p" using pi(1) cb(2) by simp
  note m = release_id [OF E bcok bl pi(2) se(3)]
  obtain ce where ce: "clients se ?ca = Some ce" "conn_ok (connection ce)" "display_resource ce = display_resource cd"
    "\<forall>x. x \<noteq> ?ca \<longrightarrow> clients se x = clients b x" "resources se = resources sd" "display se = display sd"
    "inb (connection ce) = inb (connection cd)"
  proof -
    have ok: "conn_ok (connection cd)" using bcok cd(3) by (simp add: client_ok_def)
    from se(1) show thesis
    proof
      assume "se = sd"
      with ok cd(1) show thesis by (intro that [of cd]) auto
    next
      assume em: "emits ?ca bs sd se"
      note f = emits_fields [OF em]
      obtain ce where "clients se ?ca = Some ce" "conn_ok (connection ce)" "display_resource ce = display_resource cd"
        "inb (connection ce) = inb (connection cd)"
        using emits_client [OF em, of cd] cd(1) ok by (auto simp: output_grown_def same_input_def)
      with f cd(1) show thesis by (intro that [of ce]) auto
    qed
  qed
  have s': "s' = se\<lparr>clients := (clients se)(?ca \<mapsto> ce\<lparr>objects := m\<rparr>)\<rparr>"
    using se(2) ce(1) by (auto simp: upd_client_def)
  have cls: "clients s' = (clients b)(?ca \<mapsto> ce\<lparr>objects := m\<rparr>)"
    using ce(4) by (auto simp: s' fun_eq_iff)
  show "server_ok s'"
    by (rule server_ok_remove [OF bok b(2), unfolded rb, OF cb(1), of "ce\<lparr>objects := m\<rparr>"])
      (use m ce cd cls in \<open>auto simp: s'\<close>)
  show "map_option resource_view \<circ> resources s' = (map_option resource_view \<circ> resources s)(p := None)"
    using b(1) ce(5) cd(6) by (auto simp: s' same_structs_def fun_eq_iff)
  show "\<exists>c'. clients s' ?ca = Some c' \<and> wl_map_lookup (objects c') ?i = Some 0 \<and>
      same_except ?i (objects c) (objects c') \<and> inb (connection c') = inb (connection c)"
    using cls m cb(2,3) cd(3) ce(7) by simp
  show "\<forall>ca. ca \<noteq> ?ca \<longrightarrow> map_option client_view (clients s' ca) = map_option client_view (clients s ca)"
    using b(1) by (auto simp: cls same_structs_def)
qed

end
