(* ===== verification/Wl_Events.thy ===== *)
theory Wl_Events
  imports Wl_Server
begin

text \<open>
  Events as the compositor and the library post them: when the connection has room, posting
  succeeds and appends exactly the message of the event to the client's output.
\<close>

section \<open>Plain messages\<close>

text \<open>Arguments that go into the closure as they are: numbers, strings and objects.\<close>

definition plain_sig :: "string \<Rightarrow> bool" where
  "plain_sig sig \<longleftrightarrow> list_all (\<lambda>d. atype d \<in> set ''uifso'') (details sig)"

lemma plain_no_fds: "plain_sig sig \<Longrightarrow> no_fds sig"
  by (auto simp: plain_sig_def no_fds_def list_all_iff is_fd_def)

lemma get_next_argument_end: "details sig = [] \<Longrightarrow> atype (fst (get_next_argument sig)) = NUL"
proof -
  have "details_from nl sig = [] \<Longrightarrow> atype (fst (get_next_argument_loop nl sig)) = NUL" for nl
    by (induction nl sig rule: details_from.induct) (auto split: if_splits)
  then show "details sig = [] \<Longrightarrow> ?thesis" by (simp add: details_def get_next_argument_def)
qed

lemma from_va_list_ok:
  assumes "list_all2 (\<lambda>d a. va_arg (atype d) a) (details sig) as" "length as \<le> n" "i + length as \<le> length args"
  shows "from_va_list_loop i n sig args as = Inr (take i args @ as @ drop (i + length as) args)"
  using assms
proof (induction "details sig" as arbitrary: i n sig args rule: list_all2_induct)
  case Nil
  then show ?case
    using get_next_argument_end [of sig]
    by (cases n) (auto simp: append_take_drop_id split: prod.splits)
next
  case (Cons d ds a as)
  obtain sg where sg: "get_next_argument sig = (d, sg)" "details sg = ds"
    using details_Cons Cons.hyps(4) by metis
  obtain k where n: "n = Suc k" using Cons.prems(1) by (cases n) auto
  have "atype d \<noteq> NUL"
    using details_type [of d sig] by (auto simp flip: Cons.hyps(4) simp: is_arg_char_def NUL_def)
  moreover have "from_va_list_loop (Suc i) k sg (args[i := a]) as =
      Inr (take (Suc i) (args[i := a]) @ as @ drop (Suc i + length as) (args[i := a]))"
    by (rule Cons.hyps(3)) (use sg Cons.prems n in auto)
  moreover have "take (Suc i) (args[i := a]) = take i args @ [a]"
    using Cons.prems(2) by (simp add: take_Suc_conv_app_nth)
  ultimately show ?case
    using sg(1) n Cons.hyps(1) by simp
qed

definition event_closure :: "wl_resource \<Rightarrow> wl_message \<Rightarrow> u32 \<Rightarrow> wl_argument list \<Rightarrow> wl_closure" where
  "event_closure r message opcode as = \<lparr>ccount = length as, cmessage = message, copcode = opcode,
     csender_id = rid r, cargs = as @ replicate (WL_CLOSURE_MAX_ARGS - length as) Arg_unset\<rparr>"

lemma marshal_plain:
  assumes pl: "plain_sig (signature message)"
    and g: "list_all2 (given objs) (details (signature message)) as" "\<not> has_null (details (signature message)) as"
    and n: "length as \<le> WL_CLOSURE_MAX_ARGS"
  shows "wl_closure_marshal True objs (robject r) opcode (as @ rest) message w =
    Inr (Some (event_closure r message opcode as), w)"
proof -
  let ?sig = "signature message" let ?cells = "as @ replicate (WL_CLOSURE_MAX_ARGS - length as) Arg_unset"
  have len: "arg_count_for_signature ?sig = length as" using list_all2_lengthD [OF g(1)] by simp
  have clear: "efold (\<lambda>(j, d). clear_fd j d) (enumerate i ds) cs = Inr cs"
    if "list_all (\<lambda>d. atype d \<in> set ''uifso'') ds" for i ds cs
    using that by (induction ds arbitrary: i) (auto simp: clear_fd_def)
  have fa: "for_args body 0 (length as) ?sig s = efold (\<lambda>(j, d). body j d) (enumerate 0 (details ?sig)) s"
    for body and s :: 'b
    using for_args_details [of body 0 ?sig s] len by simp
  have init: "wl_closure_init True message 0 (Some (as @ rest)) =
      Inr (\<lparr>ccount = length as, cmessage = message, copcode = 0, csender_id = 0, cargs = ?cells\<rparr>, None)"
    using n clear [OF pl [unfolded plain_sig_def]]
    by (simp add: wl_closure_init_def len wl_closure_clear_fds_def Let_def fa)
  have "list_all2 (given objs) ds bs \<Longrightarrow> \<not> has_null ds bs \<Longrightarrow> list_all (\<lambda>d. atype d \<in> set ''uifso'') ds \<Longrightarrow>
      drop i args = bs @ rest \<Longrightarrow>
      efold (\<lambda>(j, d). marshal_arg objs args j d) (enumerate i ds) (cas, w) = Inr (cas, w)" for i ds bs cas args
  proof (induction ds bs arbitrary: i rule: list_all2_induct)
    case (Cons d ds b bs)
    have i: "args ! i = b" "drop (Suc i) args = bs @ rest" using Cons.prems(3) drop_eq_Cons by auto
    have "marshal_arg objs args i d (cas, w) = Inr (cas, w)"
      using Cons.hyps(1) Cons.prems(1,2) i(1)
      by (cases b) (auto simp: marshal_arg_def given_def va_arg_def null_arg_def Let_def split: option.splits)
    with Cons.IH [OF _ _ i(2)] Cons.prems(1,2) show ?case by simp
  qed simp
  from this [OF g pl [unfolded plain_sig_def], of 0 "as @ rest" ?cells]
  show ?thesis
    by (simp add: wl_closure_marshal_def init fa event_closure_def robject_def)
qed

section \<open>Posting with room in the buffer\<close>

definition out_room :: "wl_connection \<Rightarrow> nat \<Rightarrow> bool" where
  "out_room c n \<longleftrightarrow> length (contents (out c)) + n \<le> BUFFER_SIZE"

lemma queue_room:
  assumes "conn_ok c" "out_room c (length data)"
  obtains b where "wl_connection_queue c data w = Some (c\<lparr>out := b\<rparr>, w, 0)"
    "wl_connection_write c data w = Some (c\<lparr>out := b, want_flush := True\<rparr>, w, 0)"
    "buffer_ok b" "contents b = contents (out c) @ data"
proof -
  have room: "make_room c (length data) w = Some (c, w, 0)"
    using assms(2) by (auto simp: make_room_def out_room_def wl_buffer_size_def)
  obtain b where b: "wl_buffer_put (out c) data = (b, 0)" "buffer_ok b" "contents b = contents (out c) @ data"
    using wl_buffer_put_ok [of "out c" data] assms by (auto simp: conn_ok_def out_room_def)
  show thesis
    by (rule that [of b]) (use room b in \<open>simp_all add: wl_connection_queue_def wl_connection_write_def\<close>)
qed

lemma send_room:
  assumes f: "good_send f" and A: "allocator_ok A" "\<And>n. A n \<noteq> None" and c: "conn_ok c"
    and cl: "closure_typed objs cl" "no_fds (signature (cmessage cl))"
    and room: "out_room c (4 * closure_words cl)"
  obtains conn bs where "f A objs cl c w = Some (cl, conn, w, 0)" "conn_ok conn" "same_input c conn"
    "message_bytes objs cl bs" "contents (out conn) = contents (out c) @ bs" "fds_out conn = fds_out c"
proof -
  let ?n = "closure_words cl"
  have small: "4 * ?n \<le> BUFFER_SIZE" using room by (simp add: out_room_def)
  then have un: "unat (ucast (of_nat ?n :: u32) * 4 :: u64) = 4 * ?n" "unat (of_nat (4 * ?n) :: u32) = 4 * ?n"
    by (simp_all add: BUFFER_SIZE_def unat_of_nat unat_word_ariths unsigned_ucast_eq take_bit_nat_eq_self)
  have sg: "\<not> sint (of_nat (4 * ?n) :: u32) < 0"
    using small un(2) by (subst sint_u32_small) (auto simp: BUFFER_SIZE_def)
  have run: "\<exists>buf. message_bytes objs cl buf \<and>
      closure_output put B objs cl c w = Option.bind (put c buf w) (\<lambda>(c, w, r). Some (cl, c, w, r))"
    if B: "allocator_ok B" "\<And>n. B n \<noteq> None" for put B
  proof -
    obtain buf where buf: "B (ucast (of_nat ?n :: u32) * 4) = Some buf" "length buf = 4 * ?n"
      using B un(1) by (metis allocator_ok_def option.exhaust)
    from serialize_closure_ok [OF cl(1) buf(2)] obtain buf' where
      b: "serialize_closure objs cl buf = Inr (of_nat (4 * ?n), buf')" "message_bytes objs cl buf'" by auto
    have "length buf' = 4 * ?n" using b(2) by (simp add: message_bytes_def)
    then have "closure_output put B objs cl c w = Option.bind (put c buf' w) (\<lambda>(c, w, r). Some (cl, c, w, r))"
      using copy_fds_none [OF cl(2)] buffer_size_for_closure_ok [OF cl(1)] buf(1) b(1) sg un(2)
      by (simp add: closure_output_def del: of_nat_mult)
    with b(2) show ?thesis by blast
  qed
  have zA: "allocator_ok (zalloc A)" "\<And>n. zalloc A n \<noteq> None" using A by (auto simp: zalloc_ok zalloc_def)
  obtain buf conn where buf: "message_bytes objs cl buf" "f A objs cl c w = Some (cl, conn, w, 0)"
    "\<exists>b fl. conn = c\<lparr>out := b, want_flush := fl\<rparr> \<and> buffer_ok b \<and> contents b = contents (out c) @ buf"
  proof -
    from f consider "f = wl_closure_send" | "f = wl_closure_queue" by (auto simp: good_send_def)
    then show thesis
    proof cases
      case 1
      obtain buf where b: "message_bytes objs cl buf" "closure_output wl_connection_write (zalloc A) objs cl c w =
          Option.bind (wl_connection_write c buf w) (\<lambda>(c, w, r). Some (cl, c, w, r))"
        using run [OF zA, of wl_connection_write] by auto
      have "out_room c (length buf)" using room b(1) by (simp add: message_bytes_def)
      from queue_room [OF c this] obtain d where
        "wl_connection_write c buf w = Some (c\<lparr>out := d, want_flush := True\<rparr>, w, 0)"
        "buffer_ok d" "contents d = contents (out c) @ buf" by metis
      with b 1 show thesis by (intro that [of buf "c\<lparr>out := d, want_flush := True\<rparr>"]) (auto simp: wl_closure_send_def)
    next
      case 2
      obtain buf where b: "message_bytes objs cl buf" "closure_output wl_connection_queue A objs cl c w =
          Option.bind (wl_connection_queue c buf w) (\<lambda>(c, w, r). Some (cl, c, w, r))"
        using run [OF A, of wl_connection_queue] by auto
      have "out_room c (length buf)" using room b(1) by (simp add: message_bytes_def)
      from queue_room [OF c this] obtain d where
        "wl_connection_queue c buf w = Some (c\<lparr>out := d\<rparr>, w, 0)"
        "buffer_ok d" "contents d = contents (out c) @ buf" by metis
      with b 2 show thesis
        by (intro that [of buf "c\<lparr>out := d\<rparr>"]) (auto simp: wl_closure_queue_def intro!: exI [of _ d] exI [of _ "want_flush c"])
    qed
  qed
  show thesis
    by (rule that [OF buf(2) _ _ buf(1)]) (use buf(3) c in \<open>auto simp: conn_ok_def same_input_def\<close>)
qed

text \<open>What an event needs: a live resource and client, typed arguments of that client, memory, room.\<close>

definition can_post :: "'u senv \<Rightarrow> u64 \<Rightarrow> wl_resource \<Rightarrow> wl_client \<Rightarrow> wl_message \<Rightarrow> u32 \<Rightarrow> wl_argument list \<Rightarrow> 'u server \<Rightarrow> bool" where
  "can_post E p r c m opcode as s \<longleftrightarrow> resources s p = Some r \<and> clients s (rclient r) = Some c \<and> \<not> cerror c \<and>
     conn_ok (connection c) \<and> nth_message (events (rinterface r)) opcode = Some m \<and> plain_sig (signature m) \<and>
     list_all2 (given (object_at s)) (details (signature m)) as \<and> \<not> has_null (details (signature m)) as \<and>
     (\<forall>q. Arg_o q \<in> set as \<longrightarrow> q = 0 \<or> (\<exists>x. resources s q = Some x \<and> rclient x = rclient r)) \<and>
     length as \<le> WL_CLOSURE_MAX_ARGS \<and> malloc E s \<noteq> 0 \<and> allocator_ok (blocks E) \<and> (\<forall>n. blocks E n \<noteq> None) \<and>
     out_room (connection c) (4 * (args_words as + 2))"

lemma verify_objects_ok:
  assumes "list_all2 (given objs) (details (signature m)) as"
    and "\<forall>q. Arg_o q \<in> set as \<longrightarrow> q = 0 \<or> (\<exists>x. resources s q = Some x \<and> rclient x = ca)"
  shows "verify_objects s ca m (as @ rest) = Some True"
proof -
  have "list_all2 (given objs) ds bs \<Longrightarrow>
      \<forall>q. Arg_o q \<in> set bs \<longrightarrow> q = 0 \<or> (\<exists>x. resources s q = Some x \<and> rclient x = ca) \<Longrightarrow>
      drop i args = bs @ rest \<Longrightarrow>
      efold (\<lambda>(j, d). verify_object s ca args j d) (enumerate i ds) () = Inr ()" for i ds bs args
  proof (induction ds bs arbitrary: i rule: list_all2_induct)
    case (Cons d ds b bs)
    have i: "args ! i = b" "drop (Suc i) args = bs @ rest" using Cons.prems(2) drop_eq_Cons by auto
    have "verify_object s ca args i d () = Inr ()"
      using Cons.hyps(1) Cons.prems(1) i(1)
      by (cases b) (auto simp: verify_object_def given_def va_arg_def)
    with Cons.IH [OF _ i(2)] Cons.prems(1) show ?case by simp
  qed simp
  from this [OF assms, of 0 "as @ rest"] show ?thesis
    by (simp add: verify_objects_def for_args_details)
qed

lemma typed_event:
  assumes "plain_sig (signature m)" "list_all2 (given objs) (details (signature m)) as"
    "\<not> has_null (details (signature m)) as"
  shows "closure_typed objs (event_closure r m opcode as)" "closure_words (event_closure r m opcode as) = args_words as + 2"
proof -
  have "list_all2 (given objs) ds bs \<Longrightarrow> list_all (\<lambda>d. atype d \<in> set ''uifso'') ds \<Longrightarrow> \<not> has_null ds bs \<Longrightarrow>
      list_all2 (typed objs) ds bs" for ds bs
  proof (induction ds bs rule: list_all2_induct)
    case (Cons d ds b bs)
    then have "typed objs d b"
      by (cases b) (auto simp: typed_def given_def va_arg_def null_arg_def split: option.splits)
    with Cons show ?case by simp
  qed simp
  from this [OF assms(2) assms(1) [unfolded plain_sig_def] assms(3)]
  show "closure_typed objs (event_closure r m opcode as)"
    using list_all2_lengthD [OF assms(2)] by (simp add: closure_typed_def event_closure_def)
  show "closure_words (event_closure r m opcode as) = args_words as + 2"
    by (simp add: closure_words_def event_closure_def)
qed

definition log_of :: "u64 \<Rightarrow> u32 \<Rightarrow> wl_argument list \<Rightarrow> 'u server \<Rightarrow> logger_message list" where
  "log_of p opcode as s = map (\<lambda>l. \<lparr>llogger = l, lsend = True, lresource = p, lopcode = opcode, largs = as\<rparr>)
     (protocol_loggers (display s))"

lemma handle_array_posts:
  assumes f: "good_send f" and ok: "can_post E p r c m opcode as s"
  obtains conn bs where "handle_array E f p opcode (as @ rest) s = Some (s\<lparr>ticks := ticks s + 1,
      logged := logged s @ log_of p opcode as s, clients := (clients s)(rclient r \<mapsto> c\<lparr>connection := conn\<rparr>)\<rparr>)"
    "message_bytes (object_at s) (event_closure r m opcode as) bs" "conn_ok conn" "same_input (connection c) conn"
    "contents (out conn) = contents (out (connection c)) @ bs" "fds_out conn = fds_out (connection c)"
proof -
  let ?cl = "event_closure r m opcode as" let ?w = "sockets s (cfd (connection c))"
  have o: "resources s p = Some r" "clients s (rclient r) = Some c" "\<not> cerror c" "conn_ok (connection c)"
    "nth_message (events (rinterface r)) opcode = Some m" "plain_sig (signature m)"
    "list_all2 (given (object_at s)) (details (signature m)) as" "\<not> has_null (details (signature m)) as"
    "\<forall>q. Arg_o q \<in> set as \<longrightarrow> q = 0 \<or> (\<exists>x. resources s q = Some x \<and> rclient x = rclient r)"
    "length as \<le> WL_CLOSURE_MAX_ARGS" "malloc E s \<noteq> 0" "allocator_ok (blocks E)" "\<And>n. blocks E n \<noteq> None"
    "out_room (connection c) (4 * closure_words ?cl)"
    using ok typed_event(2) by (auto simp: can_post_def closure_words_def event_closure_def)
  have nf: "no_fds (signature (cmessage ?cl))" using plain_no_fds [OF o(6)] by (simp add: event_closure_def)
  obtain conn bs where snd: "f (blocks E) (object_at s) ?cl (connection c) ?w = Some (?cl, conn, ?w, 0)"
    "conn_ok conn" "same_input (connection c) conn" "message_bytes (object_at s) ?cl bs"
    "contents (out conn) = contents (out (connection c)) @ bs" "fds_out conn = fds_out (connection c)"
    by (rule send_room [OF f o(12,13,4) typed_event(1) [OF o(6-8)] nf o(14)]) (rule that)
  have d: "wl_closure_destroy (Some ?cl) ?w = ?w"
    using nf list_all2_lengthD [OF o(7)] by (intro destroy_no_fds) (auto simp: event_closure_def)
  have e: "c\<lparr>connection := conn, cerror := False\<rparr> = c\<lparr>connection := conn\<rparr>" using o(3) by (cases c) simp
  have "handle_array E f p opcode (as @ rest) s = Some (s\<lparr>ticks := ticks s + 1,
      logged := logged s @ log_of p opcode as s, clients := (clients s)(rclient r \<mapsto> c\<lparr>connection := conn\<rparr>)\<rparr>)"
    using o(1-3,5,11) verify_objects_ok [OF o(7,9)] marshal_plain [OF o(6-8,10)] snd(1) d
    by (simp add: handle_array_def do_malloc_def Let_def upd_client_def upd_socket_def log_closure_def
        log_of_def event_closure_def fun_upd_idem e)
  with snd that show thesis by blast
qed

text \<open>\<open>appended ca bs s s'\<close>: the client's output buffer took \<open>bs\<close>, and nothing else happened.\<close>

definition appended :: "u64 \<Rightarrow> bytes \<Rightarrow> 'u server \<Rightarrow> 'u server \<Rightarrow> bool" where
  "appended ca bs s s' \<longleftrightarrow> (\<exists>c conn l t. clients s ca = Some c \<and>
     s' = s\<lparr>ticks := t, logged := l, clients := (clients s)(ca \<mapsto> c\<lparr>connection := conn\<rparr>)\<rparr> \<and> conn_ok conn \<and>
     same_input (connection c) conn \<and> contents (out conn) = contents (out (connection c)) @ bs \<and>
     fds_out conn = fds_out (connection c))"

lemma appended_trans: "appended ca bs s t \<Longrightarrow> appended ca bs' t u \<Longrightarrow> appended ca (bs @ bs') s u"
proof -
  assume "appended ca bs s t" "appended ca bs' t u"
  then obtain c conn l n conn' l' n' where "clients s ca = Some c"
    "t = s\<lparr>ticks := n, logged := l, clients := (clients s)(ca \<mapsto> c\<lparr>connection := conn\<rparr>)\<rparr>"
    "conn_ok conn" "same_input (connection c) conn" "contents (out conn) = contents (out (connection c)) @ bs"
    "fds_out conn = fds_out (connection c)"
    "u = t\<lparr>ticks := n', logged := l', clients := (clients t)(ca \<mapsto> c\<lparr>connection := conn'\<rparr>)\<rparr>"
    "conn_ok conn'" "same_input conn conn'" "contents (out conn') = contents (out conn) @ bs'"
    "fds_out conn' = fds_out conn" by (auto simp: appended_def)
  then show ?thesis unfolding appended_def
    by (intro exI [of _ c] exI [of _ conn'] exI [of _ l'] exI [of _ n']) (simp add: same_input_def)
qed

lemma event_posts:
  assumes "can_post E p r c m opcode as s"
  shows "\<exists>s' bs. wl_resource_post_event E p opcode as s = Some s' \<and> appended (rclient r) bs s s' \<and>
      message_bytes (object_at s) (event_closure r m opcode as) bs \<and> ticks s' = ticks s + 1"
    "\<exists>s' bs. wl_resource_queue_event E p opcode as s = Some s' \<and> appended (rclient r) bs s s' \<and>
      message_bytes (object_at s) (event_closure r m opcode as) bs \<and> ticks s' = ticks s + 1"
proof -
  let ?args = "as @ replicate (WL_CLOSURE_MAX_ARGS - length as) Arg_unset"
  have o: "resources s p = Some r" "nth_message (events (rinterface r)) opcode = Some m"
    "list_all2 (given (object_at s)) (details (signature m)) as" "length as \<le> WL_CLOSURE_MAX_ARGS"
    "clients s (rclient r) = Some c"
    using assms by (auto simp: can_post_def)
  have "list_all2 (\<lambda>d a. va_arg (atype d) a) (details (signature m)) as"
    using o(3) by (rule list_all2_mono) (simp add: given_def)
  then have va: "wl_argument_from_va_list (signature m) (replicate WL_CLOSURE_MAX_ARGS Arg_unset)
      WL_CLOSURE_MAX_ARGS as = Inr ?args"
    using from_va_list_ok [of "signature m" as WL_CLOSURE_MAX_ARGS 0] o(4) by (simp add: wl_argument_from_va_list_def)
  have "\<exists>s' bs. handle_array E f p opcode ?args s = Some s' \<and> appended (rclient r) bs s s' \<and>
      message_bytes (object_at s) (event_closure r m opcode as) bs \<and> ticks s' = ticks s + 1" if f: "good_send f" for f
  proof -
    obtain conn bs where h: "handle_array E f p opcode ?args s = Some (s\<lparr>ticks := ticks s + 1,
        logged := logged s @ log_of p opcode as s, clients := (clients s)(rclient r \<mapsto> c\<lparr>connection := conn\<rparr>)\<rparr>)"
      "message_bytes (object_at s) (event_closure r m opcode as) bs" "conn_ok conn" "same_input (connection c) conn"
      "contents (out conn) = contents (out (connection c)) @ bs" "fds_out conn = fds_out (connection c)"
      by (rule handle_array_posts [OF f assms]) (rule that)
    with o(5) have "appended (rclient r) bs s (s\<lparr>ticks := ticks s + 1, logged := logged s @ log_of p opcode as s,
        clients := (clients s)(rclient r \<mapsto> c\<lparr>connection := conn\<rparr>)\<rparr>)"
      unfolding appended_def by blast
    with h(1,2) show ?thesis by (intro exI conjI) auto
  qed
  from this [of wl_closure_send] this [of wl_closure_queue]
  show "\<exists>s' bs. wl_resource_post_event E p opcode as s = Some s' \<and> appended (rclient r) bs s s' \<and>
      message_bytes (object_at s) (event_closure r m opcode as) bs \<and> ticks s' = ticks s + 1"
    "\<exists>s' bs. wl_resource_queue_event E p opcode as s = Some s' \<and> appended (rclient r) bs s s' \<and>
      message_bytes (object_at s) (event_closure r m opcode as) bs \<and> ticks s' = ticks s + 1"
    using o(1,2) va
    by (auto simp: wl_resource_post_event_def wl_resource_queue_event_def va_event_def
        wl_resource_post_event_array_def wl_resource_queue_event_array_def good_send_def)
qed

text \<open>The bytes of an event with one unsigned argument: object, size and opcode, argument.\<close>

definition word_event :: "u32 \<Rightarrow> u32 \<Rightarrow> u32 \<Rightarrow> bytes" where
  "word_event sender opcode v = le_bytes 4 sender @ le_bytes 4 (0xc0000 OR opcode) @ le_bytes 4 v"

lemma load_bytes: "k + 4 \<le> length bs \<Longrightarrow> load 4 k bs = (w :: u32) \<Longrightarrow> take 4 (drop k bs) = le_bytes 4 w"
  using le_bytes_of_le [of "take 4 (drop k bs)" 4, where 'a = 32] by (simp add: load_def)

lemma word_event_bytes:
  assumes "message_bytes objs (event_closure r m opcode [Arg_u v]) bs" "opcode < 0x10000"
  shows "bs = word_event (rid r) opcode v"
proof -
  let ?cl = "event_closure r m opcode [Arg_u v]"
  have w: "closure_words ?cl = 3" by (simp add: closure_words_def event_closure_def arg_words_def)
  have op: "opcode AND 0xffff = opcode"
  proof -
    have m: "(0xffff :: u32) = Bit_Operations.mask 16" by (simp add: mask_eq_exp_minus_1)
    have "unat (take_bit 16 opcode) = unat opcode"
      using assms(2) by (simp add: unsigned_take_bit_eq take_bit_nat_eq_self word_less_nat_alt)
    then show ?thesis unfolding m by (simp add: word_unat_eq_iff flip: take_bit_eq_mask)
  qed
  have b: "length bs = 12" "load 4 0 bs = rid r" "load 4 4 bs = 0xc0000 OR opcode"
    "wire_args objs [Arg_u v] (drop 8 bs)"
    using assms(1) w op
    by (simp_all add: message_bytes_def event_closure_def push_bit_eq_mult arg_words_def wire_data_def)
  have "take 4 (drop 0 bs) = le_bytes 4 (rid r)" "take 4 (drop 4 bs) = le_bytes 4 (0xc0000 OR opcode)"
    using load_bytes [of 0 bs] load_bytes [of 4 bs] b(1-3) by auto
  moreover have "drop 8 bs = le_bytes 4 v"
    using b(1,4) by (simp add: wire_data_def arg_words_def)
  moreover have "bs = take 4 (drop 0 bs) @ take 4 (drop 4 bs) @ drop 8 bs"
    by (metis append_take_drop_id drop_0 drop_drop add_numeral_left numeral_Bit0 one_add_one numeral_eq_iff)
  ultimately show ?thesis by (simp add: word_event_def)
qed

lemma word_event_posts:
  assumes "can_post E p r c m opcode [Arg_u v] s" "opcode < 0x10000"
  shows "\<exists>s'. wl_resource_post_event E p opcode [Arg_u v] s = Some s' \<and>
      appended (rclient r) (word_event (rid r) opcode v) s s' \<and> ticks s' = ticks s + 1"
    "\<exists>s'. wl_resource_queue_event E p opcode [Arg_u v] s = Some s' \<and>
      appended (rclient r) (word_event (rid r) opcode v) s s' \<and> ticks s' = ticks s + 1"
  using event_posts [OF assms(1)] word_event_bytes [OF _ assms(2)] by metis+

section \<open>An event is one message\<close>

text \<open>
  C27: Posting an event with room in the buffer returns, appends the one message of the event
  to the client's output, keeps the client free of errors and changes nothing else.
\<close>

theorem event_posted:
  assumes "can_post E p r c m opcode as s"
  shows "\<exists>s' c' bs. wl_resource_post_event E p opcode as s = Some s' \<and> clients s' = (clients s)(rclient r \<mapsto> c') \<and>
    \<not> cerror c' \<and> contents (out (connection c')) = contents (out (connection c)) @ bs \<and>
    message_bytes (object_at s) (event_closure r m opcode as) bs \<and>
    inb (connection c') = inb (connection c) \<and> resources s' = resources s \<and> display s' = display s \<and>
    sockets s' = sockets s \<and> user s' = user s"
proof -
  obtain s' bs where s': "wl_resource_post_event E p opcode as s = Some s'" "appended (rclient r) bs s s'"
    "message_bytes (object_at s) (event_closure r m opcode as) bs"
    using event_posts(1) [OF assms] by blast
  moreover have "clients s (rclient r) = Some c" "\<not> cerror c" using assms by (auto simp: can_post_def)
  ultimately obtain conn l t where
    "s' = s\<lparr>ticks := t, logged := l, clients := (clients s)(rclient r \<mapsto> c\<lparr>connection := conn\<rparr>)\<rparr>"
    "same_input (connection c) conn" "contents (out conn) = contents (out (connection c)) @ bs"
    by (auto simp: appended_def)
  with s'(1,3) \<open>\<not> cerror c\<close> show ?thesis
    by (intro exI [of _ s'] exI [of _ "c\<lparr>connection := conn\<rparr>"] exI [of _ bs]) (simp add: same_input_def)
qed

text \<open>A server with one client, 32, and a callback of it, 48.\<close>

definition demo_env :: "'u senv" where
  "demo_env = \<lparr>malloc = (\<lambda>s. let p = 16 * of_nat (ticks s + 1) in if live s p then 0 else p),
     blocks = (\<lambda>n. Some (replicate (unat n) 0)), notify = (\<lambda>_ _. Some), request = (\<lambda>_ _ _ _. Some),
     dispatch = (\<lambda>_ _ _ _. Some), destructor = (\<lambda>_ _. Some), bind_func = (\<lambda>_ _ _ _ _. Some)\<rparr>"

definition demo_display :: wl_display where
  "demo_display = \<lparr>drun = True, did = 1, dserial = 7, registry_resource_list = [], global_list = [],
     client_list = [32], protocol_loggers = [], ddestroy_signal = wl_priv_signal_init,
     create_client_signal = wl_priv_signal_init, additional_shm_formats = wl_array_init, global_filter = None\<rparr>"

definition demo_client :: wl_client where
  "demo_client = \<lparr>connection = fresh_connection, csource = WL_EVENT_READABLE, display_resource = 0,
     objects = wl_map_init WL_MAP_SERVER_SIDE, cdestroy_signal = wl_priv_signal_init, ucred = (1, 1, 1),
     cerror = False, resource_created_signal = wl_priv_signal_init\<rparr>"

definition demo_callback :: wl_resource where
  "demo_callback = \<lparr>rinterface = wl_callback_interface, rimplementation = No_implementation, rid = 2, rdestroy = No_destroy,
     deprecated_destroy_signal = [], rclient = 32, rdata = 0, rversion = 1, rdispatcher = None,
     rdestroy_signal = wl_priv_signal_init\<rparr>"

definition demo_server :: "unit server" where
  "demo_server = \<lparr>display = demo_display, resources = [48 \<mapsto> demo_callback], clients = [32 \<mapsto> demo_client],
     globals = Map.empty, detached = [], sockets = (\<lambda>_. quiet), ticks = 9, logged = [], user = ()\<rparr>"

theorem event_posted_witness:
  "\<exists>s' c' bs. wl_resource_post_event demo_env 48 WL_CALLBACK_DONE [Arg_u 7] demo_server = Some s' \<and>
    clients s' 32 = Some c' \<and> contents (out (connection c')) = bs \<and> length bs = 12"
proof -
  let ?m = "\<lparr>msg_name = ''done'', signature = ''u'', types = [None]\<rparr>"
  have "can_post demo_env 48 demo_callback demo_client ?m WL_CALLBACK_DONE [Arg_u 7] demo_server"
    by (simp add: can_post_def demo_server_def demo_callback_def demo_client_def wl_callback_interface_def
        nth_message_def WL_CALLBACK_DONE_def plain_sig_def details_def is_arg_char_def given_def va_arg_def
        null_arg_def WL_CLOSURE_MAX_ARGS_def demo_env_def live_def out_room_def arg_words_def BUFFER_SIZE_def
        allocator_ok_def Let_def)
  from event_posted [OF this] show ?thesis
    by (auto simp: demo_callback_def demo_client_def message_bytes_def closure_words_def event_closure_def arg_words_def)
qed

end
