(* ===== verification/Wl_Registry.thy ===== *)
theory Wl_Registry
  imports Wl_Resources Wl_Events
begin

text \<open>
  The globals of the display and the requests of \<^verbatim>\<open>wl_display\<close> and \<^verbatim>\<open>wl_registry\<close>, which the library
  handles itself (\<^verbatim>\<open>wayland-server.c\<close>): advertising globals, binding to them, and the sync request.
\<close>

section \<open>The display\<close>

text \<open>The arguments say whether \<^verbatim>\<open>malloc\<close> and \<^verbatim>\<open>wl_event_loop_create\<close> succeed.\<close>

definition wl_display_create :: "bool \<Rightarrow> bool \<Rightarrow> wl_display option" where
  "wl_display_create mem loop =
     (if \<not> mem \<or> \<not> loop then None
      else Some \<lparr>drun = False, did = 1, dserial = 0, registry_resource_list = [], global_list = [],
        client_list = [], protocol_loggers = [], ddestroy_signal = wl_priv_signal_init,
        create_client_signal = wl_priv_signal_init, additional_shm_formats = wl_array_init,
        global_filter = None\<rparr>)"

definition wl_display_set_global_filter :: "(u64 \<Rightarrow> u64 \<Rightarrow> bool) option \<Rightarrow> 'u server \<Rightarrow> 'u server" where
  "wl_display_set_global_filter f = upd_display (global_filter_update (\<lambda>_. f))"

definition wl_display_get_serial :: "'u server \<Rightarrow> u32" where
  "wl_display_get_serial s = dserial (display s)"

definition wl_display_next_serial :: "'u server \<Rightarrow> u32 \<times> 'u server" where
  "wl_display_next_serial s =
     (let s = upd_display (dserial_update (\<lambda>n. n + 1)) s in (dserial (display s), s))"

definition wl_display_terminate :: "'u server \<Rightarrow> 'u server" where
  "wl_display_terminate = upd_display (drun_update (\<lambda>_. False))"

definition wl_display_add_protocol_logger :: "'u senv \<Rightarrow> 'u server \<Rightarrow> u64 \<times> 'u server" where
  "wl_display_add_protocol_logger E s =
     (let (l, s) = do_malloc E s in
      if l = 0 then (0, s) else (l, upd_display (protocol_loggers_update (\<lambda>ls. l # ls)) s))"

definition wl_protocol_logger_destroy :: "u64 \<Rightarrow> 'u server \<Rightarrow> 'u server" where
  "wl_protocol_logger_destroy l = upd_display (protocol_loggers_update (remove1 l))"

section \<open>Globals\<close>

definition wl_global_is_visible :: "u64 \<Rightarrow> u64 \<Rightarrow> 'u server \<Rightarrow> bool" where
  "wl_global_is_visible ca ga s =
     (case global_filter (display s) of None \<Rightarrow> True | Some f \<Rightarrow> f ca ga)"

definition post_global :: "'u senv \<Rightarrow> wl_global \<Rightarrow> u64 \<Rightarrow> 'u server \<Rightarrow> 'u server option" where
  "post_global E g p = wl_resource_post_event E p WL_REGISTRY_GLOBAL
     [Arg_u (gname g), Arg_s (Some (ascii (iname (ispec (ginterface g))))), Arg_u (gversion g)]"

definition wl_global_create ::
    "'u senv \<Rightarrow> interface_spec \<Rightarrow> int \<Rightarrow> u64 \<Rightarrow> nat \<Rightarrow> 'u server \<Rightarrow> (u64 \<times> 'u server) option" where
  "wl_global_create E iface version data bnd s =
     (if version < 1 then Some (0, s)
      else if version > iversion (ispec iface) then Some (0, s)
      else
        let (ga, s) = do_malloc E s in
        if ga = 0 then Some (0, s)
        else do {
          let g = \<lparr>ginterface = iface, gname = did (display s), gversion = of_int version, gdata = data, gbind = bnd\<rparr>;
          let s = upd_display (\<lambda>d. d\<lparr>did := did d + 1, global_list := global_list d @ [ga]\<rparr>) s;
          let s = s\<lparr>globals := (globals s)(ga \<mapsto> g)\<rparr>;
          s \<leftarrow> ofold (post_global E g) (registry_resource_list (display s)) s;
          Some (ga, s)
        })"

definition wl_global_destroy :: "'u senv \<Rightarrow> u64 \<Rightarrow> 'u server \<Rightarrow> 'u server option" where
  "wl_global_destroy E ga s = do {
     g \<leftarrow> globals s ga;
     s \<leftarrow> ofold (\<lambda>p. wl_resource_post_event E p WL_REGISTRY_GLOBAL_REMOVE [Arg_u (gname g)])
            (registry_resource_list (display s)) s;
     let s = upd_display (global_list_update (remove1 ga)) s;
     Some (s\<lparr>globals := (globals s)(ga := None)\<rparr>)
   }"

section \<open>Requests of the registry and the display\<close>

text \<open>
  The loop that leaves \<^verbatim>\<open>global\<close> at the first one with the name, or at the list head: \<open>Some 0\<close>.
\<close>

fun find_global :: "'u server \<Rightarrow> u32 \<Rightarrow> u64 list \<Rightarrow> u64 option" where
  "find_global s name [] = Some 0"
| "find_global s name (ga # gs) =
     (case globals s ga of
        None \<Rightarrow> None
      | Some g \<Rightarrow> if gname g = name then Some ga else find_global s name gs)"

text \<open>A conversion \<^verbatim>\<open>%s\<close> of a null pointer is undefined.\<close>

definition registry_bind ::
    "'u senv \<Rightarrow> u64 \<Rightarrow> u64 \<Rightarrow> u32 \<Rightarrow> bytes option \<Rightarrow> u32 \<Rightarrow> u32 \<Rightarrow> 'u server \<Rightarrow> 'u server option" where
  "registry_bind E ca p name iface version i s = do {
     let fail = (\<lambda>pre post. Option.bind iface (\<lambda>str.
       wl_resource_post_error E p WL_DISPLAY_ERROR_INVALID_OBJECT
         (ascii pre @ str @ ascii ('' ('' @ show_int (sint name) @ '')'' @ post)) s));
     ga \<leftarrow> find_global s name (global_list (display s));
     if ga = 0 then fail ''invalid global '' []
     else do {
       g \<leftarrow> globals s ga;
       if version = 0 then fail ''invalid version for global '' '': 0 is not a valid version''
       else if gversion g < version then
         fail ''invalid version for global ''
           ('': have '' @ show_int (sint (gversion g)) @ '', wanted '' @ show_int (sint version))
       else if \<not> wl_global_is_visible ca ga s then fail ''invalid global '' []
       else bind_func E (gbind g) ca (gdata g) version i s
     }
   }"

definition display_sync :: "'u senv \<Rightarrow> u64 \<Rightarrow> u64 \<Rightarrow> u32 \<Rightarrow> 'u server \<Rightarrow> 'u server option" where
  "display_sync E ca p i s = do {
     (cb, s) \<leftarrow> wl_resource_create E ca wl_callback_interface 1 i s;
     if cb = 0 then wl_client_post_no_memory E ca s
     else do {
       let serial = wl_display_get_serial s;
       s \<leftarrow> wl_resource_post_event E cb WL_CALLBACK_DONE [Arg_u serial] s;
       wl_resource_destroy E cb s
     }
   }"

definition advertise :: "'u senv \<Rightarrow> u64 \<Rightarrow> u64 \<Rightarrow> u64 \<Rightarrow> 'u server \<Rightarrow> 'u server option" where
  "advertise E ca p ga s = do {
     g \<leftarrow> globals s ga;
     if wl_global_is_visible ca ga s then post_global E g p s else Some s
   }"

definition display_get_registry :: "'u senv \<Rightarrow> u64 \<Rightarrow> u64 \<Rightarrow> u32 \<Rightarrow> 'u server \<Rightarrow> 'u server option" where
  "display_get_registry E ca p i s = do {
     r \<leftarrow> resources s p;
     (rp, s) \<leftarrow> wl_resource_create E ca wl_registry_interface 1 i s;
     if rp = 0 then wl_client_post_no_memory E ca s
     else do {
       s \<leftarrow> wl_resource_set_implementation rp Registry_interface (rdata r) Unbind_resource s;
       let s = upd_display (registry_resource_list_update (\<lambda>ps. rp # ps)) s;
       ofold (advertise E ca rp) (global_list (display s)) s
     }
   }"

text \<open>The result is that of the C function: 0, or -1 on failure. \<open>data\<close> is the address of the display.\<close>

definition bind_display :: "'u senv \<Rightarrow> u64 \<Rightarrow> u64 \<Rightarrow> 'u server \<Rightarrow> (int \<times> 'u server) option" where
  "bind_display E ca data s = do {
     (p, s) \<leftarrow> wl_resource_create E ca wl_display_interface 1 1 s;
     s \<leftarrow> upd_client ca (display_resource_update (\<lambda>_. p)) s;
     if p = 0 then Some (-1, s)
     else do {
       s \<leftarrow> wl_resource_set_implementation p Display_interface data Destroy_client_display_resource s;
       Some (0, s)
     }
   }"

section \<open>The invariant\<close>

lemma post_no_memory_frame:
  assumes "server_ok s" "wl_client_post_no_memory E ca s = Some s'"
  obtains bs where "emits ca bs s s'"
proof -
  obtain c where c: "clients s ca = Some c"
    "wl_resource_post_error E (display_resource c) WL_DISPLAY_ERROR_NO_MEMORY (ascii ''no memory'') s = Some s'"
    using assms(2) by (auto simp: wl_client_post_no_memory_def bind_eq_Some)
  obtain r where r: "resources s (display_resource c) = Some r"
    using c(2) by (auto simp: wl_resource_post_error_def bind_eq_Some)
  have d: "display_resource_ok s ca" using server_okD(1) [OF assms(1) c(1)] by (simp add: client_ok_def)
  have "display_resource c \<noteq> 0" using r server_okD(4) [OF assms(1)] by auto
  with d c(1) r have "rclient r = ca" by (auto simp: display_resource_ok_def)
  with post_error_frame [OF c(2) r] d that show thesis by blast
qed

text \<open>The client is still there and what it sent is still to be read.\<close>

definition input_kept :: "u64 \<Rightarrow> 'u server \<Rightarrow> 'u server \<Rightarrow> bool" where
  "input_kept ca s s' \<longleftrightarrow> (\<forall>c. clients s ca = Some c \<longrightarrow>
     (\<exists>c'. clients s' ca = Some c' \<and> inb (connection c') = inb (connection c)))"

lemma input_kept_trans: "input_kept ca s t \<Longrightarrow> input_kept ca t u \<Longrightarrow> input_kept ca s u"
  by (fastforce simp: input_kept_def)

lemma emits_input:
  assumes "server_ok s" "emits ca bs s s'"
  shows "input_kept ca s s'"
  unfolding input_kept_def
proof (intro allI impI)
  fix c assume c: "clients s ca = Some c"
  have k: "conn_ok (connection c)" using server_okD(1) [OF assms(1) c] by (simp add: client_ok_def)
  obtain c' where c': "clients s' ca = Some c'" "conn_ok (connection c) \<Longrightarrow> conn_ok (connection c') \<and>
      output_grown (connection c, sockets s (cfd (connection c))) bs [] (connection c', sockets s' (cfd (connection c)))"
    by (rule emits_client [OF assms(2) c]) (rule that)
  from c'(2) [OF k] have "inb (connection c') = inb (connection c)" by (simp add: output_grown_def same_input_def)
  with c'(1) show "\<exists>c'. clients s' ca = Some c' \<and> inb (connection c') = inb (connection c)" by blast
qed

lemma post_no_memory_ok:
  assumes "server_ok s" "wl_client_post_no_memory E ca s = Some s'"
  shows "server_ok s'" "input_kept ca s s'"
proof -
  obtain bs where em: "emits ca bs s s'" by (rule post_no_memory_frame [OF assms]) (rule that)
  from server_ok_emits [OF assms(1) em] show "server_ok s'" .
  from emits_input [OF assms(1) em] show "input_kept ca s s'" .
qed

lemma create_input:
  assumes "env_ok E" "server_ok s" "clients s ca = Some c" "id_available (objects c) i" "interface_ok iface"
    and "wl_resource_create E ca iface v i s = Some (p, s')"
  shows "input_kept ca s s'"
proof (cases "p = 0")
  case True
  then obtain bs where "emits ca bs s s'" using resource_create_ok(3) [OF assms] by auto
  then show ?thesis by (rule emits_input [OF assms(2)])
next
  case False
  then obtain c' where "clients s' ca = Some c'" "connection c' = connection c"
    using resource_create_ok(2) [OF assms] by auto
  with assms(3) show ?thesis by (simp add: input_kept_def)
qed

lemma display_sync_ok:
  assumes E: "env_ok E" and s: "server_ok s" "clients s ca = Some c" and i: "id_available (objects c) i"
    and run: "display_sync E ca p i s = Some s'"
  shows "server_ok s'" "input_kept ca s s'"
proof -
  obtain cb s1 where s1: "wl_resource_create E ca wl_callback_interface 1 i s = Some (cb, s1)"
    using run by (auto simp: display_sync_def bind_eq_Some)
  note cr = resource_create_ok [OF E s i own_interfaces_ok(3) s1]
  note inp = create_input [OF E s i own_interfaces_ok(3) s1]
  have "server_ok s' \<and> input_kept ca s s'"
  proof (cases "cb = 0")
    case True
    then have "wl_client_post_no_memory E ca s1 = Some s'"
      using run s1 by (auto simp: display_sync_def bind_eq_Some)
    note no = post_no_memory_ok [OF cr(1) this]
    from no(1) input_kept_trans [OF inp no(2)] show ?thesis ..
  next
    case False
    then obtain r where r: "resources s1 cb = Some r" "rclient r = ca" "rinterface r = wl_callback_interface"
      using cr(2) by blast
    obtain s2 where s2: "wl_resource_post_event E cb WL_CALLBACK_DONE [Arg_u (wl_display_get_serial s1)] s1 = Some s2"
      "wl_resource_destroy E cb s2 = Some s'"
      using run s1 False by (auto simp: display_sync_def bind_eq_Some Let_def)
    obtain bs where em: "emits ca bs s1 s2"
      using event_frame [OF disjI1 [OF s2(1)] r(1)] own_events [of "rinterface r"] r(2,3) by auto
    note ok2 = server_ok_emits [OF cr(1) em]
    have r2: "resources s2 cb = Some r" using r(1) emits_fields(1) [OF em] by simp
    obtain c2 where c2: "clients s2 (rclient r) = Some c2" using emits_fields(9) [OF em] r(2) by auto
    note d = resource_destroy_ok(1,3) [OF E ok2 r2 c2 s2(2)]
    have "input_kept ca s2 s'" using d(2) c2 r(2) by (auto simp: input_kept_def)
    with d(1) input_kept_trans [OF input_kept_trans [OF inp emits_input [OF cr(1) em]]] show ?thesis by blast
  qed
  then show "server_ok s'" "input_kept ca s s'" by auto
qed

text \<open>A new registry resource, with its destructor set and in the display's list.\<close>

lemma server_ok_registry:
  assumes s: "server_ok s" and p: "resources s p = Some r" "rinterface r = wl_registry_interface"
    "rdestroy r = No_destroy"
    and r': "rid r' = rid r" "rclient r' = rclient r" "rinterface r' = rinterface r" "rdestroy r' = Unbind_resource"
      "rimplementation r' = Registry_interface"
  shows "server_ok (upd_display (registry_resource_list_update (\<lambda>ps. p # ps)) (s\<lparr>resources := (resources s)(p \<mapsto> r')\<rparr>))"
    (is "server_ok ?s")
proof -
  have dr: "display_resource_ok ?s ca" if "display_resource_ok s ca" for ca
    using that p r' by (auto simp: display_resource_ok_def upd_display_def)
  have res: "resources ?s = (resources s)(p \<mapsto> r')" "clients ?s = clients s"
    "registry_resource_list (display ?s) = p # registry_resource_list (display s)"
    by (simp_all add: upd_display_def)
  show ?thesis
    unfolding server_ok_def
  proof (intro conjI allI impI)
    fix ca c assume "clients ?s ca = Some c"
    then have c: "clients s ca = Some c" by (simp add: res)
    note ok = server_okD(1) [OF s c]
    have "\<exists>x. resources ?s q = Some x \<and> rid x = i \<and> rclient x = ca"
      if q: "wl_map_lookup (objects c) i = Some q" "q \<noteq> 0" for i q
    proof -
      obtain x where "resources s q = Some x" "rid x = i" "rclient x = ca"
        using client_ok_lookup [OF ok q] by metis
      then show ?thesis using p(1) r' by (cases "q = p") (auto simp: res)
    qed
    with ok dr show "client_ok ?s ca c" by (simp add: client_ok_def)
  next
    fix q x assume "resources ?s q = Some x"
    then show "resource_ok ?s q x"
      using server_okD(2) [OF s] p(1) p(2) r'(1-3,5) by (auto simp: resource_ok_def impl_ok_def res split: if_splits)
  next
    have "p \<notin> set (registry_resource_list (display s))"
      using server_okD(3) [OF s] p by (auto simp: registry_ok_def)
    with server_okD(3) [OF s] p r' show "registry_ok ?s" by (auto simp: registry_ok_def res)
  qed
qed

lemma advertise_frame:
  assumes "resources s p = Some r" "rinterface r = wl_registry_interface" "advertise E ca p ga s = Some s'"
    and "clients s (rclient r) = Some c"
  obtains bs where "emits (rclient r) bs s s'"
proof -
  obtain g where g: "globals s ga = Some g"
    "(if wl_global_is_visible ca ga s then post_global E g p s else Some s) = Some s'"
    using assms(3) by (auto simp: advertise_def bind_eq_Some)
  show thesis
  proof (cases "wl_global_is_visible ca ga s")
    case True
    with g(2) have "post_global E g p s = Some s'" by simp
    from event_frame [OF disjI1 [OF this [unfolded post_global_def]] assms(1)]
    show thesis using own_events [of "rinterface r"] assms(2) that by auto
  next
    case False
    with g(2) emits_refl [OF assms(4)] that show thesis by auto
  qed
qed

lemma display_get_registry_ok:
  assumes E: "env_ok E" and s: "server_ok s" "clients s ca = Some c" and i: "id_available (objects c) i"
    and run: "display_get_registry E ca p i s = Some s'"
  shows "server_ok s'" "input_kept ca s s'"
proof -
  obtain rp s1 where s1: "wl_resource_create E ca wl_registry_interface 1 i s = Some (rp, s1)"
    using run by (auto simp: display_get_registry_def bind_eq_Some)
  note cr = resource_create_ok [OF E s i own_interfaces_ok(2) s1]
  note inp = create_input [OF E s i own_interfaces_ok(2) s1]
  have "server_ok s' \<and> input_kept ca s s'"
  proof (cases "rp = 0")
    case True
    then have "wl_client_post_no_memory E ca s1 = Some s'"
      using run s1 by (auto simp: display_get_registry_def bind_eq_Some)
    note no = post_no_memory_ok [OF cr(1) this]
    from no(1) input_kept_trans [OF inp no(2)] show ?thesis ..
  next
    case False
    then obtain r where r: "resources s1 rp = Some r" "rclient r = ca" "rinterface r = wl_registry_interface"
      "rdestroy r = No_destroy"
      using cr(2) by blast
    obtain d where d: "ofold (advertise E ca rp) (global_list (display s1))
        (upd_display (registry_resource_list_update (\<lambda>ps. rp # ps)) (s1\<lparr>resources := (resources s1)(rp \<mapsto>
           r\<lparr>rimplementation := Registry_interface, rdata := d, rdestroy := Unbind_resource, rdispatcher := None\<rparr>)\<rparr>)) = Some s'"
      using run s1 False r(1)
      by (auto simp: display_get_registry_def bind_eq_Some wl_resource_set_implementation_def
          upd_resource_def upd_display_def Let_def)
    define P where "P t \<longleftrightarrow> server_ok t \<and> clients t ca \<noteq> None \<and> input_kept ca s t \<and>
      (\<exists>x. resources t rp = Some x \<and> rinterface x = wl_registry_interface \<and> rclient x = ca)" for t :: "'a server"
    have "P s'"
    proof (rule ofold_invariant [OF _ _ d, of P])
      show "P t'" if "P t" and step: "advertise E ca rp ga t = Some t'" for ga t t'
      proof -
        obtain x k where x: "resources t rp = Some x" "rinterface x = wl_registry_interface" "rclient x = ca"
          "clients t ca = Some k" using \<open>P t\<close> by (auto simp: P_def)
        then obtain bs where em: "emits ca bs t t'" using advertise_frame [OF x(1,2) step] by auto
        have ok: "server_ok t" "input_kept ca s t" using \<open>P t\<close> by (simp_all add: P_def)
        with server_ok_emits [OF ok(1) em] input_kept_trans [OF ok(2) emits_input [OF ok(1) em]] emits_fields(1,9) [OF em] x
        show ?thesis by (simp add: P_def)
      qed
      show "P (upd_display (registry_resource_list_update (\<lambda>ps. rp # ps)) (s1\<lparr>resources := (resources s1)(rp \<mapsto>
           r\<lparr>rimplementation := Registry_interface, rdata := d, rdestroy := Unbind_resource, rdispatcher := None\<rparr>)\<rparr>))"
        using server_ok_registry [OF cr(1) r(1,3,4)] r cr(2) False inp
        by (auto simp: P_def upd_display_def input_kept_def)
    qed
    then show ?thesis by (simp add: P_def)
  qed
  then show "server_ok s'" "input_kept ca s s'" by auto
qed

section \<open>The sync request\<close>

lemma set_signal_id: "signal_of ref s = Some sg \<Longrightarrow> set_signal ref sg s = s"
  by (cases ref) (auto simp: signal_of_def set_signal_def upd_display_def fun_upd_idem)

lemma emit_no_listener: "signal_of ref s = Some wl_priv_signal_init \<Longrightarrow> emit E ref data s = Some s"
  using sig.emit_nobody [of ref s] set_signal_id [of ref s] by (simp add: emit_def wl_priv_signal_init_def)

lemma signal_emit_no_listener: "get s = Some [] \<Longrightarrow> wl_signal_emit get nf s = Some s"
  by (simp add: wl_signal_emit_def wl_list_for_each_safe_def next_pos_def for_each_safe_loop.simps)

definition new_resource :: "u64 \<Rightarrow> interface_spec \<Rightarrow> int \<Rightarrow> u32 \<Rightarrow> wl_resource" where
  "new_resource ca iface v i = \<lparr>rinterface = iface, rimplementation = No_implementation, rid = i, rdestroy = No_destroy,
     deprecated_destroy_signal = wl_signal_init, rclient = ca, rdata = 0, rversion = v,
     rdispatcher = None, rdestroy_signal = wl_priv_signal_init\<rparr>"

text \<open>An id that the table has a place for: taken by the request, or the next one.\<close>

lemma resource_create_run:
  assumes E: "env_ok E" and s: "server_ok s" "clients s ca = Some c" and i: "id_available (objects c) i"
    "unat i \<le> cell_count (client_entries (objects c))"
    and mem: "malloc E s \<noteq> 0" and sg: "resource_created_signal c = wl_priv_signal_init"
  obtains m where "wl_resource_create E ca iface v i s = Some (malloc E s, s\<lparr>ticks := ticks s + 1,
      resources := (resources s)(malloc E s \<mapsto> new_resource ca iface v i),
      clients := (clients s)(ca \<mapsto> c\<lparr>objects := m\<rparr>)\<rparr>)"
    "wl_map_insert_at (blocks E) (objects c) 0 i (malloc E s) = Some (m, 0)"
proof -
  let ?p = "malloc E s"
  have al: "?p AND 3 = 0" using E mem by (auto simp: env_ok_def)
  have A: "allocator_ok (blocks E)" "\<And>n. blocks E n \<noteq> None" using E by (auto simp: env_ok_def)
  have i': "i \<noteq> 0" "i < WL_SERVER_ID_START"
    "unat i < cell_count (entries_of True (objects c)) \<or> peer_room (objects c) 1"
    using i(1) by (auto simp: id_available_def client_id_slot entries_of_def)
  obtain xs where m: "map_ok (objects c) xs" "side (objects c) = WL_MAP_SERVER_SIDE"
    using server_okD(1) [OF s] by (auto simp: client_ok_def)
  obtain m' where m': "wl_map_insert_at (blocks E) (objects c) 0 i ?p = Some (m', 0)"
    using wl_map_insert_at_ok [OF A m(1) al client_id_slot [OF i'(2)] _ i'(3), of 0] server_side_map [OF m(2)] i(2)
    by (auto simp: entries_of_def)
  have "emit E (Resource_created ca) ?p (s\<lparr>ticks := ticks s + 1,
      resources := (resources s)(?p \<mapsto> new_resource ca iface v i),
      clients := (clients s)(ca \<mapsto> c\<lparr>objects := m'\<rparr>)\<rparr>) = Some (s\<lparr>ticks := ticks s + 1,
      resources := (resources s)(?p \<mapsto> new_resource ca iface v i),
      clients := (clients s)(ca \<mapsto> c\<lparr>objects := m'\<rparr>)\<rparr>)"
    by (rule emit_no_listener) (simp add: signal_of_def sg)
  then have "wl_resource_create E ca iface v i s = Some (?p, s\<lparr>ticks := ticks s + 1,
      resources := (resources s)(?p \<mapsto> new_resource ca iface v i),
      clients := (clients s)(ca \<mapsto> c\<lparr>objects := m'\<rparr>)\<rparr>)"
    using mem m' i'(1) s(2)
    by (simp add: wl_resource_create_def do_malloc_def Let_def upd_client_def new_resource_def cong: if_cong)
  with m' that show thesis by blast
qed

lemma delete_id_event:
  "nth_message (events wl_display_interface) WL_DISPLAY_DELETE_ID = Some \<lparr>msg_name = ''delete_id'', signature = ''u'', types = [None]\<rparr>"
  "nth_message (events wl_callback_interface) WL_CALLBACK_DONE = Some \<lparr>msg_name = ''done'', signature = ''u'', types = [None]\<rparr>"
  by (simp_all add: nth_message_def wl_display_interface_def wl_callback_interface_def WL_DISPLAY_DELETE_ID_def
      WL_CALLBACK_DONE_def)

lemma can_post_word:
  assumes "resources s p = Some r" "clients s (rclient r) = Some c" "\<not> cerror c" "conn_ok (connection c)"
    and "nth_message (events (rinterface r)) opcode = Some m" "signature m = ''u''"
    and "malloc E s \<noteq> 0" "env_ok E" "out_room (connection c) 12"
  shows "can_post E p r c m opcode [Arg_u v] s"
  using assms by (simp add: can_post_def plain_sig_def details_def is_arg_char_def given_def va_arg_def
      null_arg_def WL_CLOSURE_MAX_ARGS_def env_ok_def arg_words_def)

text \<open>Releasing the id of a client's resource always succeeds.\<close>

lemma client_release_run:
  assumes E: "env_ok E" and c: "client_ok s ca c" "wl_map_lookup (objects c) i = Some p" "p \<noteq> 0"
    and i: "i < WL_SERVER_ID_START"
  obtains m where "wl_map_insert_at (blocks E) (objects c) 0 i 0 = Some (m, 0)"
    "wl_map_lookup m = (wl_map_lookup (objects c))(i := Some 0)"
proof -
  obtain xs where m: "map_ok (objects c) xs" "side (objects c) = WL_MAP_SERVER_SIDE"
    using c(1) by (auto simp: client_ok_def)
  have k: "unat i < cell_count (entries_of True (objects c))"
    using wl_map_lookup_cells(1) [OF table_ok_entries [OF m(1)] client_id_slot [OF i]] c(2,3)
    by (auto simp: table_lookup_def split: if_splits)
  then obtain m' where m': "wl_map_insert_at (blocks E) (objects c) 0 i 0 = Some (m', 0)"
    using wl_map_insert_at_ok [of "blocks E" "objects c" xs 0 i True "unat i" 0] E m(1) client_id_slot [OF i]
      server_side_map [OF m(2)] by (auto simp: env_ok_def)
  have "wl_map_lookup m' i = Some 0" "same_except i (objects c) m'"
    using release_id [OF E c, of m' 0] i m' by auto
  then have "wl_map_lookup m' = (wl_map_lookup (objects c))(i := Some 0)"
    by (auto simp: same_except_def fun_eq_iff)
  with m' that show thesis by blast
qed

text \<open>A resource nobody listens to and that has no destructor is destroyed with one \<^verbatim>\<open>delete_id\<close> event.\<close>

lemma quiet_destroy:
  assumes E: "env_ok E" and s: "server_ok s" "resources s p = Some r" "clients s (rclient r) = Some c"
    and r: "deprecated_destroy_signal r = []" "rdestroy_signal r = wl_priv_signal_init" "rdestroy r = No_destroy"
      "rid r < WL_SERVER_ID_START"
    and c: "display_resource c \<noteq> 0" "\<not> cerror c" "out_room (connection c) 12"
    and mem: "malloc E (free_resource p s) \<noteq> 0"
  obtains s' c' where "wl_resource_destroy E p s = Some s'" "clients s' = (clients s)(rclient r \<mapsto> c')"
    "resources s' = (resources s)(p := None)" "wl_map_lookup (objects c') = (wl_map_lookup (objects c))(rid r := Some 0)"
    "\<not> cerror c'" "contents (out (connection c')) = contents (out (connection c)) @ word_event 1 WL_DISPLAY_DELETE_ID (rid r)"
proof -
  let ?ca = "rclient r" and ?t = "free_resource p s"
  note cok = server_okD(1) [OF s(1,3)]
  have fl: "\<forall>i. wl_map_lookup_flags (objects c) i = Some 0" using cok by (simp add: client_ok_def)
  obtain dr where dr: "resources s (display_resource c) = Some dr" "rclient dr = ?ca" "rid dr = 1"
    "rinterface dr = wl_display_interface" "rdestroy dr = Destroy_client_display_resource"
    using cok s(3) c(1) by (auto simp: client_ok_def display_resource_ok_def)
  have ne: "display_resource c \<noteq> p" using dr(1,5) s(2) r(3) by auto
  have "wl_signal_emit (\<lambda>s. map_option deprecated_destroy_signal (resources s p)) (\<lambda>l. notify E l p) s = Some s"
    by (rule signal_emit_no_listener) (simp add: s(2) r(1))
  moreover have "emit E (Resource_destroy p) p s = Some s"
    by (rule emit_no_listener) (simp add: signal_of_def s(2) r(2))
  ultimately have dest: "destroy_resource E p 0 s = Some ?t"
    using fl s(2,3) r(3) by (simp add: destroy_resource_def resource_is_deprecated_def run_destructor_def)
  have t: "clients ?t = clients s" "resources ?t = (resources s)(p := None)" by (simp_all add: free_resource_def)
  have "can_post E (display_resource c) dr c \<lparr>msg_name = ''delete_id'', signature = ''u'', types = [None]\<rparr>
      WL_DISPLAY_DELETE_ID [Arg_u (rid r)] ?t"
    by (rule can_post_word) (use dr ne s(3) c delete_id_event(1) mem E cok in \<open>auto simp: t client_ok_def\<close>)
  then obtain s1 where s1: "wl_resource_queue_event E (display_resource c) WL_DISPLAY_DELETE_ID [Arg_u (rid r)] ?t = Some s1"
    "appended ?ca (word_event 1 WL_DISPLAY_DELETE_ID (rid r)) ?t s1"
    using word_event_posts(2) [of E "display_resource c" dr] dr(2,3) by (fastforce simp: WL_DISPLAY_DELETE_ID_def)
  then obtain conn where c1: "clients s1 = (clients s)(?ca \<mapsto> c\<lparr>connection := conn\<rparr>)" "resources s1 = (resources s)(p := None)"
    "contents (out conn) = contents (out (connection c)) @ word_event 1 WL_DISPLAY_DELETE_ID (rid r)"
    using s(3) by (auto simp: appended_def t)
  have "wl_map_lookup (objects c) (rid r) = Some p" "p \<noteq> 0"
    using server_okD(2) [OF s(1,2)] s(3) by (auto simp: resource_ok_def)
  then obtain m where m: "wl_map_insert_at (blocks E) (objects c) 0 (rid r) 0 = Some (m, 0)"
    "wl_map_lookup m = (wl_map_lookup (objects c))(rid r := Some 0)"
    using client_release_run [OF E cok _ _ r(4)] by metis
  let ?s = "s1\<lparr>clients := (clients s1)(?ca \<mapsto> c\<lparr>connection := conn, objects := m\<rparr>)\<rparr>"
  have "wl_resource_destroy E p s = Some ?s"
    using dest fl r(4) s1(1) c(1) m(1) c1(1) s(2,3)
    by (simp add: wl_resource_destroy_def t upd_client_def)
  with c1 m(2) c(2) that show thesis by simp
qed

text \<open>
  C21: A sync request is answered by the \<^verbatim>\<open>done\<close> event with the display's serial and the \<^verbatim>\<open>delete_id\<close> event that
  frees the id, in this order; the callback exists only during the request, and all ids mean
  what they meant before.
\<close>

theorem sync_answer:
  assumes E: "env_ok E" "mem_available E 3 s" and s: "server_ok s" "clients s ca = Some c" "\<not> cerror c"
    "display_resource c \<noteq> 0" and i: "id_available (objects c) i"
    "unat i \<le> cell_count (client_entries (objects c))"
    and sg: "resource_created_signal c = wl_priv_signal_init" and room: "out_room (connection c) 24"
  shows "\<exists>s' c'. display_sync E ca p i s = Some s' \<and> clients s' = (clients s)(ca \<mapsto> c') \<and> resources s' = resources s \<and>
    wl_map_lookup (objects c') = wl_map_lookup (objects c) \<and> \<not> cerror c' \<and> server_ok s' \<and>
    contents (out (connection c')) = contents (out (connection c)) @
      word_event i WL_CALLBACK_DONE (dserial (display s)) @ word_event 1 WL_DISPLAY_DELETE_ID i"
proof -
  let ?p = "malloc E s" let ?r = "new_resource ca wl_callback_interface 1 i"
  have mem: "?p \<noteq> 0" by (rule mem_availableD [OF E(2)]) auto
  note cok = server_okD(1) [OF s(1,2)]
  have fresh: "resources s ?p = None" "?p AND 3 = 0" using E(1) mem by (auto simp: env_ok_def live_def)
  have i': "i < WL_SERVER_ID_START" "wl_map_lookup (objects c) i = Some 0" using i(1) by (auto simp: id_available_def)
  obtain m where cr: "wl_resource_create E ca wl_callback_interface 1 i s = Some (?p, s\<lparr>ticks := ticks s + 1,
      resources := (resources s)(?p \<mapsto> ?r), clients := (clients s)(ca \<mapsto> c\<lparr>objects := m\<rparr>)\<rparr>)"
    by (rule resource_create_run [OF E(1) s(1,2) i mem sg]) (rule that)
  define s1 where "s1 = s\<lparr>ticks := ticks s + 1, resources := (resources s)(?p \<mapsto> ?r),
    clients := (clients s)(ca \<mapsto> c\<lparr>objects := m\<rparr>)\<rparr>"
  note ok1 = resource_create_ok(1,2) [OF E(1) s(1,2) i(1) own_interfaces_ok(3) cr, folded s1_def]
  have look: "same_except i (objects c) m" using ok1(2) mem by (auto simp: s1_def)
  have conn: "conn_ok (connection c)" using cok by (simp add: client_ok_def)
  have mem1: "malloc E s1 \<noteq> 0"
    by (rule mem_availableD [OF E(2)]) (use s(2) in \<open>auto simp: s1_def live_def split: if_splits\<close>)
  define bs where "bs = word_event i WL_CALLBACK_DONE (dserial (display s))"
  have "can_post E ?p ?r (c\<lparr>objects := m\<rparr>) \<lparr>msg_name = ''done'', signature = ''u'', types = [None]\<rparr>
      WL_CALLBACK_DONE [Arg_u (dserial (display s))] s1"
    by (rule can_post_word) (use s(3) conn delete_id_event(2) mem1 E(1) room in
        \<open>auto simp: s1_def new_resource_def out_room_def\<close>)
  then obtain s2 where s2:
    "wl_resource_post_event E ?p WL_CALLBACK_DONE [Arg_u (dserial (display s))] s1 = Some s2" "appended ca bs s1 s2"
    "ticks s2 = ticks s1 + 1"
    using word_event_posts(1) [of E ?p ?r] by (fastforce simp: new_resource_def WL_CALLBACK_DONE_def bs_def)
  obtain conn2 where c2: "clients s2 = (clients s)(ca \<mapsto> c\<lparr>objects := m, connection := conn2\<rparr>)"
    "resources s2 = (resources s)(?p \<mapsto> ?r)" "globals s2 = globals s" "conn_ok conn2"
    "contents (out conn2) = contents (out (connection c)) @ bs"
    using s2(2) by (auto simp: appended_def s1_def)
  obtain bs' where "emits ca bs' s1 s2"
    using event_frame [OF disjI1 [OF s2(1)], of ?r] own_events [of wl_callback_interface]
    by (auto simp: s1_def new_resource_def)
  note ok2 = server_ok_emits [OF ok1(1) this]
  have mem2: "malloc E (free_resource ?p s2) \<noteq> 0"
  proof (rule mem_availableD [OF E(2)])
    show "ticks s \<le> ticks (free_resource ?p s2)" "ticks (free_resource ?p s2) < ticks s + 3"
      using s2(3) by (simp_all add: free_resource_def s1_def)
    show "live s q \<or> (\<exists>u. ticks s \<le> ticks u \<and> ticks u < ticks (free_resource ?p s2) \<and> q = malloc E u)"
      if "live (free_resource ?p s2) q" for q
      using that s(2) c2(1-3) by (auto simp: live_def free_resource_def split: if_splits)
  qed
  have room2: "out_room conn2 12" using room c2(5) by (simp add: out_room_def bs_def word_event_def)
  obtain s3 c3 where s3: "wl_resource_destroy E ?p s2 = Some s3" "clients s3 = (clients s2)(ca \<mapsto> c3)"
    "resources s3 = (resources s2)(?p := None)" "wl_map_lookup (objects c3) = (wl_map_lookup m)(i := Some 0)"
    "\<not> cerror c3" "contents (out (connection c3)) = contents (out conn2) @ word_event 1 WL_DISPLAY_DELETE_ID i"
    by (rule quiet_destroy [OF E(1) ok2, of ?p ?r "c\<lparr>objects := m, connection := conn2\<rparr>"])
      (use c2(1,2) i'(1) s(3,4) mem2 room2 that in \<open>simp_all add: new_resource_def wl_signal_init_def\<close>)
  have run: "display_sync E ca p i s = Some s3"
    using cr s2(1) s3(1) mem by (simp add: display_sync_def s1_def wl_display_get_serial_def Let_def)
  have "wl_map_lookup (objects c3) = wl_map_lookup (objects c)"
    using s3(4) look i'(2) by (auto simp: same_except_def fun_eq_iff)
  moreover have "resources s3 = resources s" using s3(3) c2(2) fresh(1) by (simp add: fun_upd_idem)
  ultimately show ?thesis
    using run s3(2,5,6) c2(1,5) display_sync_ok(1) [OF E(1) s(1,2) i(1) run]
    by (intro exI [of _ s3] exI [of _ c3]) (simp add: bs_def)
qed

end
