(* ===== verification/Wl_Client.thy ===== *)
theory Wl_Client
  imports Wl_Registry
begin

text \<open>
  Clients (\<^verbatim>\<open>wayland-server.c\<close>): accepting and destroying them, reading their requests from the
  connection and dispatching each to the handler of its object, and flushing their events.
\<close>

section \<open>Creation and destruction\<close>

text \<open>\<^verbatim>\<open>err_map\<close>: the connection and the client are released, the descriptor is left to the caller.\<close>

definition abandon_client :: "u64 \<Rightarrow> 'u server \<Rightarrow> 'u server option" where
  "abandon_client ca s = do {
     c \<leftarrow> clients s ca;
     let (fd, w) = wl_connection_destroy (connection c) (sockets s (cfd (connection c)));
     let s = upd_socket fd w s;
     Some (s\<lparr>clients := (clients s)(ca := None)\<rparr>)
   }"

text \<open>
  \<open>source\<close> says whether \<^verbatim>\<open>wl_event_loop_add_fd\<close> succeeds, \<open>cred\<close> is what \<^verbatim>\<open>getsockopt\<close> returns, \<open>data\<close>
  the address of the display.
\<close>

definition wl_client_create ::
    "'u senv \<Rightarrow> int \<Rightarrow> bool \<Rightarrow> (int \<times> int \<times> int) option \<Rightarrow> u64 \<Rightarrow> 'u server \<Rightarrow> (u64 \<times> 'u server) option" where
  "wl_client_create E fd source cred data s =
     (let (ca, s) = do_malloc E s in
      if ca = 0 then Some (0, s)
      else if \<not> source then Some (0, s)
      else case cred of
        None \<Rightarrow> Some (0, s)
      | Some u \<Rightarrow>
          let (mem, s) = do_malloc E s in
          (case wl_connection_create (mem \<noteq> 0) fd of
             None \<Rightarrow> Some (0, s)
           | Some conn \<Rightarrow> do {
               (m, ret) \<leftarrow> wl_map_insert_at (blocks E) (wl_map_init WL_MAP_SERVER_SIDE) 0 0 0;
               let c = \<lparr>connection = conn, csource = WL_EVENT_READABLE, display_resource = 0, objects = m,
                 cdestroy_signal = wl_priv_signal_init, ucred = u, cerror = False,
                 resource_created_signal = wl_priv_signal_init\<rparr>;
               let s = s\<lparr>clients := (clients s)(ca \<mapsto> c)\<rparr>;
               if ret < 0 then do { s \<leftarrow> abandon_client ca s; Some (0, s) }
               else do {
                 (ret, s) \<leftarrow> bind_display E ca data s;
                 if ret < 0 then do { s \<leftarrow> abandon_client ca s; Some (0, s) }
                 else do {
                   let s = upd_display (client_list_update (\<lambda>cs. cs @ [ca])) s;
                   s \<leftarrow> emit E Create_client ca s;
                   Some (ca, s)
                 }
               }
             }))"

definition wl_client_flush :: "u64 \<Rightarrow> 'u server \<Rightarrow> (int \<times> 'u server) option" where
  "wl_client_flush ca s = do {
     c \<leftarrow> clients s ca;
     let fd = cfd (connection c);
     (conn, w, ret) \<leftarrow> wl_connection_flush (connection c) (sockets s fd);
     s \<leftarrow> upd_client ca (connection_update (\<lambda>_. conn)) (upd_socket fd w s);
     Some (ret, s)
   }"

text \<open>
  \<^verbatim>\<open>wl_map_for_each\<close> with \<^verbatim>\<open>destroy_resource\<close> over one table of the client's objects: the block of
  the table and its end are fixed at the start, the entries are read when their turn comes. A
  table that has been reallocated in between is freed memory.
\<close>

fun destroy_entries :: "'u senv \<Rightarrow> u64 \<Rightarrow> bool \<Rightarrow> u64 \<Rightarrow> nat \<Rightarrow> nat \<Rightarrow> 'u server \<Rightarrow> 'u server option" where
  "destroy_entries E ca cs block k 0 s = Some s"
| "destroy_entries E ca cs block k (Suc n) s = do {
     c \<leftarrow> clients s ca;
     if aalloc (entries_of cs (objects c)) \<noteq> block then None
     else do {
       e \<leftarrow> cell_get (entries_of cs (objects c)) k;
       s \<leftarrow> (if e \<noteq> 0 \<and> \<not> map_entry_is_free e
             then destroy_resource E (map_entry_get_data e) (map_entry_get_flags e) s else Some s);
       destroy_entries E ca cs block (Suc k) n s
     }
   }"

definition destroy_table :: "'u senv \<Rightarrow> u64 \<Rightarrow> bool \<Rightarrow> 'u server \<Rightarrow> 'u server option" where
  "destroy_table E ca cs s = do {
     c \<leftarrow> clients s ca;
     let a = entries_of cs (objects c);
     destroy_entries E ca cs (aalloc a) 0 (cell_count a) s
   }"

definition wl_client_destroy :: "'u senv \<Rightarrow> u64 \<Rightarrow> 'u server \<Rightarrow> 'u server option" where
  "wl_client_destroy E ca s = do {
     s \<leftarrow> emit E (Client_destroy ca) ca s;
     (_, s) \<leftarrow> wl_client_flush ca s;
     s \<leftarrow> destroy_table E ca True s;
     s \<leftarrow> destroy_table E ca False s;
     c \<leftarrow> clients s ca;
     let (fd, w) = wl_connection_destroy (connection c) (sockets s (cfd (connection c)));
     let w = w\<lparr>closed := closed w @ [of_int fd]\<rparr>;
     let s = upd_socket fd w s;
     let s = (upd_display (client_list_update (remove1 ca)) s)\<lparr>detached := remove1 ca (detached s)\<rparr>;
     Some (s\<lparr>clients := (clients s)(ca := None)\<rparr>)
   }"

section \<open>Requests\<close>

text \<open>A call of the handler in the implementation of a resource.\<close>

definition run_request :: "'u senv \<Rightarrow> u64 \<Rightarrow> u64 \<Rightarrow> wl_implementation \<Rightarrow> listener_call \<Rightarrow> 'u server \<Rightarrow> 'u server option" where
  "run_request E ca p impl call s =
     (case impl of
        No_implementation \<Rightarrow> None
      | Display_interface \<Rightarrow>
          (case call_args call of
             [Arg_n i] \<Rightarrow> if call_opcode call = 0 then display_sync E ca p i s else display_get_registry E ca p i s
           | _ \<Rightarrow> None)
      | Registry_interface \<Rightarrow>
          (case call_args call of
             [Arg_u name, Arg_s str, Arg_u version, Arg_n i] \<Rightarrow> registry_bind E ca p name str version i s
           | _ \<Rightarrow> None)
      | Implementation k _ \<Rightarrow> request E k ca p call s)"

text \<open>
  The call of the handler or the dispatcher, and what is left of the closure to be destroyed. The
  closure's descriptors now belong to the handler.
\<close>

definition deliver :: "'u senv \<Rightarrow> u64 \<Rightarrow> u64 \<Rightarrow> wl_resource \<Rightarrow> u32 \<Rightarrow> u32 \<Rightarrow> wl_closure \<Rightarrow> 'u server \<Rightarrow>
     ('u server \<times> wl_closure) option" where
  "deliver E ca p r flags opcode cl s =
     (case (if flags AND WL_MAP_ENTRY_LEGACY \<noteq> 0 then None else rdispatcher r) of
        None \<Rightarrow>
          (case wl_closure_invoke cl WL_CLOSURE_INVOKE_SERVER (robject r) (unat opcode) of
             Inl _ \<Rightarrow> None
           | Inr (call, cl) \<Rightarrow> do { s \<leftarrow> run_request E ca p (rimplementation r) call s; Some (s, cl) })
      | Some d \<Rightarrow>
          do { s \<leftarrow> dispatch E d p opcode (take (ccount cl) (cargs cl)) s; Some (s, wl_closure_clear_fds cl) })"

definition wl_closure_release :: "u64 \<Rightarrow> wl_closure \<Rightarrow> 'u server \<Rightarrow> 'u server option" where
  "wl_closure_release ca cl s = do {
     c \<leftarrow> clients s ca;
     let fd = cfd (connection c);
     Some (upd_socket fd (wl_closure_destroy (Some cl) (sockets s fd)) s)
   }"

text \<open>
  One turn of the loop in \<^verbatim>\<open>wl_client_connection_data\<close>: the new state and, unless the loop is left,
  the number of bytes that can be read on.
\<close>

definition dispatch_one :: "'u senv \<Rightarrow> u64 \<Rightarrow> int \<Rightarrow> 'u server \<Rightarrow> ('u server \<times> int option) option" where
  "dispatch_one E ca len s = do {
     c \<leftarrow> clients s ca;
     let fd = cfd (connection c);
     let buf = wl_connection_copy (connection c) 8;
     let p0 = (load 4 0 buf :: u32);
     let p1 = (load 4 4 buf :: u32);
     let opcode = p1 AND 0xffff;
     let sz = drop_bit 16 p1;
     let leave = (\<lambda>r. Option.bind r (\<lambda>s. Some (s, None)));
     let post_error = wl_resource_post_error E (display_resource c);
     if len < int (unat sz) then Some (s, None)
     else do {
       p \<leftarrow> wl_map_lookup (objects c) p0;
       flags \<leftarrow> wl_map_lookup_flags (objects c) p0;
       if p = 0 then
         leave (post_error WL_DISPLAY_ERROR_INVALID_OBJECT (ascii (''invalid object '' @ dec (unat p0))) s)
       else do {
         r \<leftarrow> resources s p;
         let target = iname (ispec (rinterface r)) @ ''@'' @ dec (unat (rid r));
         case nth_message (methods (rinterface r)) opcode of
           None \<Rightarrow>
             leave (post_error WL_DISPLAY_ERROR_INVALID_METHOD
               (ascii (''invalid method '' @ dec (unat opcode) @ '', object '' @ target)) s)
         | Some message \<Rightarrow>
             let since' = wl_message_get_since message in
             if flags AND WL_MAP_ENTRY_LEGACY = 0 \<and> rversion r > 0 \<and> rversion r < since' then
               leave (post_error WL_DISPLAY_ERROR_INVALID_METHOD
                 (ascii (''invalid method '' @ dec (unat opcode) @ '' (since '' @ show_int (rversion r) @ '' < ''
                    @ show_int since' @ ''), object '' @ target)) s)
             else
               let (mem, s) = do_malloc E s in
               (case wl_connection_demarshal (mem \<noteq> 0) (blocks E) (connection c) sz (objects c) message (sockets s fd) of
                  Inl _ \<Rightarrow> None
                | Inr (res, conn, m, w) \<Rightarrow> do {
                    s \<leftarrow> upd_client ca (\<lambda>c. c\<lparr>connection := conn, objects := m\<rparr>) (upd_socket fd w s);
                    let invalid = post_error WL_DISPLAY_ERROR_INVALID_METHOD
                      (ascii (''invalid arguments for '' @ target @ ''.'' @ msg_name message)) s;
                    case res of
                      None \<Rightarrow>
                        if errno w = ENOMEM then leave (wl_resource_post_no_memory E p s) else leave invalid
                    | Some cl \<Rightarrow>
                        (case wl_closure_lookup_objects (object_at s) cl m of
                           Inl _ \<Rightarrow> None
                         | Inr (cl, ret) \<Rightarrow>
                             if ret < 0 then do { s \<leftarrow> invalid; leave (wl_closure_release ca cl s) }
                             else do {
                               let s = log_closure p cl False s;
                               (s, cl) \<leftarrow> deliver E ca p r flags opcode cl s;
                               s \<leftarrow> wl_closure_release ca cl s;
                               c \<leftarrow> clients s ca;
                               if cerror c then Some (s, None)
                               else Some (s, Some (sint (wl_connection_pending_input (connection c))))
                             })
                  })
       }
     }
   }"

text \<open>The comparison \<^verbatim>\<open>(size_t) len >= sizeof p\<close> takes the 64-bit value of a signed length.\<close>

partial_function (option) dispatch_loop :: "'u senv \<Rightarrow> u64 \<Rightarrow> int \<Rightarrow> 'u server \<Rightarrow> 'u server option" where
  "dispatch_loop E ca len s =
     (if (of_int len :: u64) < 8 then Some s
      else Option.bind (dispatch_one E ca len s) (\<lambda>(s, next_len).
        case next_len of None \<Rightarrow> Some s | Some len \<Rightarrow> dispatch_loop E ca len s))"

definition destroy_client_with_error :: "'u senv \<Rightarrow> u64 \<Rightarrow> 'u server \<Rightarrow> 'u server option" where
  "destroy_client_with_error E ca s = wl_client_destroy E ca s"

definition wl_client_connection_data :: "'u senv \<Rightarrow> u64 \<Rightarrow> u32 \<Rightarrow> 'u server \<Rightarrow> 'u server option" where
  "wl_client_connection_data E ca msk s =
     (if msk AND WL_EVENT_HANGUP \<noteq> 0 then wl_client_destroy E ca s
      else if msk AND WL_EVENT_ERROR \<noteq> 0 then destroy_client_with_error E ca s
      else do {
        (s, bad) \<leftarrow> (if msk AND WL_EVENT_WRITABLE \<noteq> 0 then do {
            (len, s) \<leftarrow> wl_client_flush ca s;
            c \<leftarrow> clients s ca;
            if len < 0 \<and> errno (sockets s (cfd (connection c))) \<noteq> EAGAIN then Some (s, True)
            else if len \<ge> 0 then do { s \<leftarrow> upd_client ca (csource_update (\<lambda>_. WL_EVENT_READABLE)) s; Some (s, False) }
            else Some (s, False)
          } else Some (s, False));
        if bad then destroy_client_with_error E ca s
        else do {
          (s, bad, len) \<leftarrow> (if msk AND WL_EVENT_READABLE \<noteq> 0 then do {
              c \<leftarrow> clients s ca;
              let fd = cfd (connection c);
              (conn, w, len) \<leftarrow> wl_connection_read (connection c) (sockets s fd);
              s \<leftarrow> upd_client ca (connection_update (\<lambda>_. conn)) (upd_socket fd w s);
              Some (s, len = 0 \<or> len < 0 \<and> errno w \<noteq> EAGAIN, len)
            } else Some (s, False, 0));
          if bad then destroy_client_with_error E ca s
          else do {
            s \<leftarrow> dispatch_loop E ca len s;
            c \<leftarrow> clients s ca;
            if cerror c then destroy_client_with_error E ca s else Some s
          }
        }
      })"

section \<open>All clients\<close>

definition flush_client :: "'u senv \<Rightarrow> u64 \<Rightarrow> 'u server \<Rightarrow> 'u server option" where
  "flush_client E ca s = do {
     (ret, s) \<leftarrow> wl_client_flush ca s;
     c \<leftarrow> clients s ca;
     if ret < 0 \<and> errno (sockets s (cfd (connection c))) = EAGAIN
     then upd_client ca (csource_update (\<lambda>_. WL_EVENT_WRITABLE OR WL_EVENT_READABLE)) s
     else if ret < 0 then wl_client_destroy E ca s
     else Some s
   }"

definition wl_display_flush_clients :: "'u senv \<Rightarrow> 'u server \<Rightarrow> 'u server option" where
  "wl_display_flush_clients E s =
     wl_list_for_each_safe (\<lambda>s. Some (client_list (display s))) (flush_client E) s"

partial_function (option) destroy_clients_loop :: "'u senv \<Rightarrow> 'u server \<Rightarrow> 'u server option" where
  "destroy_clients_loop E s =
     (case detached s of
        [] \<Rightarrow> Some s
      | ca # _ \<Rightarrow> Option.bind (wl_client_destroy E ca s) (destroy_clients_loop E))"

definition wl_display_destroy_clients :: "'u senv \<Rightarrow> 'u server \<Rightarrow> 'u server option" where
  "wl_display_destroy_clients E s =
     destroy_clients_loop E
       ((upd_display (client_list_update (\<lambda>_. [])) s)\<lparr>detached := client_list (display s)\<rparr>)"

text \<open>\<open>client_fd\<close> is the result of \<^verbatim>\<open>wl_os_accept_cloexec\<close>.\<close>

definition socket_data :: "'u senv \<Rightarrow> int \<Rightarrow> bool \<Rightarrow> (int \<times> int \<times> int) option \<Rightarrow> u64 \<Rightarrow> 'u server \<Rightarrow> 'u server option" where
  "socket_data E client_fd source cred data s =
     (if client_fd < 0 then Some s
      else do {
        (ca, s) \<leftarrow> wl_client_create E client_fd source cred data s;
        if ca = 0
        then Some (upd_socket client_fd ((sockets s client_fd)\<lparr>closed := closed (sockets s client_fd) @ [of_int client_fd]\<rparr>) s)
        else Some s
      })"

section \<open>A new client\<close>

text \<open>The table of a new client: id 0 is taken by a null entry, nothing else is there.\<close>

lemma fresh_table:
  assumes E: "env_ok E"
  obtains m where "wl_map_insert_at (blocks E) (wl_map_init WL_MAP_SERVER_SIDE) 0 0 0 = Some (m, 0)"
    "\<exists>xs. map_ok m xs" "side m = WL_MAP_SERVER_SIDE" "\<forall>i. wl_map_lookup m i = Some 0"
    "\<forall>i. wl_map_lookup_flags m i = Some 0" "cell_count (client_entries m) = 1" "\<forall>n < 2 ^ 31. peer_room m n"
proof -
  let ?m = "wl_map_init WL_MAP_SERVER_SIDE"
  have A: "allocator_ok (blocks E)" "\<And>n. blocks E n \<noteq> None" using E by (auto simp: env_ok_def)
  have own: "\<not> own_side ?m" by (rule server_side_map) (simp add: wl_map_init_def)
  obtain xs where xs: "map_ok ?m xs" using idmap_inv_server [OF A(1)] by (auto simp: idmap_inv_def)
  have cnt: "cell_count (entries_of c ?m) = 0" for c
    by (simp add: wl_map_init_def entries_of_def cell_count_def wl_array_init_def)
  have look: "wl_map_lookup ?m i = Some 0" "wl_map_lookup_flags ?m i = Some 0" for i
    using wl_map_lookup_cells [OF table_ok_entries [OF xs], of i] cnt
    by (cases "slot i"; simp add: table_lookup_def)+
  have room: "peer_room ?m n" if "n \<le> 2 ^ 31" for n
    using that by (simp add: peer_room_def Let_def cnt own table_limit_def)
  have sl: "slot 0 = (True, 0)" by (simp add: slot_def WL_SERVER_ID_START_def)
  obtain m where m: "wl_map_insert_at (blocks E) ?m 0 0 0 = Some (m, 0)" "map_ok m xs" "side m = side ?m"
    "inserted ?m 0 0 0 m" "\<forall>n. peer_room ?m (Suc n) \<longrightarrow> peer_room m n"
    "cell_count (entries_of True m) = max (cell_count (entries_of True ?m)) (Suc 0)"
    using wl_map_insert_at_ok [OF A xs _ sl, of 0 0] own room [of 1] cnt by (auto split: if_splits)
  have "wl_map_lookup m i = Some 0" "wl_map_lookup_flags m i = Some 0" for i
    using m(4) look by (cases "i = 0"; simp add: inserted_def same_except_def)+
  moreover have "cell_count (client_entries m) = 1" using m(6) cnt [of True] by (simp add: entries_of_def)
  moreover have "peer_room m n" if "n < 2 ^ 31" for n using m(5) room [of "Suc n"] that by simp
  ultimately show thesis
    using m(1-3) that by (auto simp: wl_map_init_def)
qed

lemma server_ok_new_client:
  assumes s: "server_ok s" "clients s ca = None" "ca \<noteq> 0"
    and c: "conn_ok (connection c)" "display_resource c = 0" "side (objects c) = WL_MAP_SERVER_SIDE"
      "\<exists>xs. map_ok (objects c) xs" "\<forall>i. wl_map_lookup (objects c) i = Some 0"
      "\<forall>i. wl_map_lookup_flags (objects c) i = Some 0"
  shows "server_ok (s\<lparr>ticks := n, clients := (clients s)(ca \<mapsto> c)\<rparr>)" (is "server_ok ?s")
  unfolding server_ok_def
proof (intro conjI allI impI)
  fix x d assume "clients ?s x = Some d"
  then consider (here) "x = ca" "d = c" | (there) "x \<noteq> ca" "clients s x = Some d" by (auto split: if_splits)
  then show "client_ok ?s x d"
  proof cases
    case here
    with c s(3) show ?thesis by (simp add: client_ok_def display_resource_ok_def)
  next
    case there
    note d = server_okD(1) [OF s(1) there(2)]
    then have "conn_ok (connection d)" by (simp add: client_ok_def)
    with there show ?thesis by (intro client_ok_heap [OF d there(2)]) auto
  qed
next
  fix p r assume "resources ?s p = Some r"
  then have "resource_ok s p r" using server_okD(2) [OF s(1)] by simp
  with s(2) show "resource_ok ?s p r" by (auto simp: resource_ok_def)
next
  show "registry_ok ?s" using server_okD(3) [OF s(1)] by (simp add: registry_ok_def)
qed

text \<open>The resource of id 1 becomes the client's display resource.\<close>

lemma server_ok_display_resource:
  assumes s: "server_ok s" "clients s ca = Some c" "resources s p = Some r"
    and r: "rclient r = ca" "rid r = 1" "rinterface r = wl_display_interface" "rdestroy r = No_destroy"
    and r': "rclient r' = ca" "rid r' = 1" "rinterface r' = wl_display_interface"
      "rdestroy r' = Destroy_client_display_resource" "rimplementation r' = Display_interface"
  shows "server_ok (s\<lparr>clients := (clients s)(ca \<mapsto> c\<lparr>display_resource := p\<rparr>),
    resources := (resources s)(p \<mapsto> r')\<rparr>)" (is "server_ok ?s")
proof -
  have dr: "display_resource_ok ?s x" if "x \<noteq> ca" "display_resource_ok s x" for x
    using that s(3) r(1) by (auto simp: display_resource_ok_def)
  have look: "\<exists>y. resources ?s q = Some y \<and> rid y = i \<and> rclient y = x"
    if q: "client_ok s x d" "wl_map_lookup (objects d) i = Some q" "q \<noteq> 0" for x d i q
  proof -
    obtain y where "resources s q = Some y" "rid y = i" "rclient y = x"
      using client_ok_lookup [OF q] by metis
    with s(3) r r' show ?thesis by (cases "q = p") auto
  qed
  show ?thesis
    unfolding server_ok_def
  proof (intro conjI allI impI)
    fix x d assume "clients ?s x = Some d"
    then consider (here) "x = ca" "d = c\<lparr>display_resource := p\<rparr>" | (there) "x \<noteq> ca" "clients s x = Some d"
      by (auto split: if_splits)
    then show "client_ok ?s x d"
    proof cases
      case here
      have "display_resource_ok ?s ca" using r' by (auto simp: display_resource_ok_def)
      with here server_okD(1) [OF s(1,2)] look [OF server_okD(1) [OF s(1,2)]] show ?thesis
        by (simp add: client_ok_def)
    next
      case there
      with server_okD(1) [OF s(1) there(2)] look [OF server_okD(1) [OF s(1) there(2)]] dr [OF there(1)]
      show ?thesis by (simp add: client_ok_def)
    qed
  next
    fix q x assume "resources ?s q = Some x"
    then show "resource_ok ?s q x"
      using server_okD(2) [OF s(1)] s(2,3) r r' by (fastforce simp: resource_ok_def impl_ok_def split: if_splits)
  next
    show "registry_ok ?s"
      using server_okD(3) [OF s(1)] s(3) r(4) by (auto simp: registry_ok_def)
  qed
qed

definition new_connection :: "int \<Rightarrow> wl_connection" where
  "new_connection fd = \<lparr>inb = empty_buffer, out = empty_buffer, fds_in = empty_buffer,
     fds_out = empty_buffer, cfd = fd, want_flush = False\<rparr>"

lemma new_connection_ok [simp]: "conn_ok (new_connection fd)" "out_room (new_connection fd) n \<longleftrightarrow> n \<le> BUFFER_SIZE"
proof -
  have "new_connection fd = fresh_connection\<lparr>cfd := fd\<rparr>" by (simp add: new_connection_def fresh_connection_def wl_connection_create_def)
  with fresh_connection_ok show "conn_ok (new_connection fd)" "out_room (new_connection fd) n \<longleftrightarrow> n \<le> BUFFER_SIZE"
    by (simp_all add: conn_ok_def out_room_def)
qed

definition display_bound :: "u64 \<Rightarrow> wl_client \<Rightarrow> wl_map \<Rightarrow> u64 \<Rightarrow> wl_resource \<Rightarrow> 'u server \<Rightarrow> 'u server" where
  "display_bound ca c m p r s = s\<lparr>ticks := ticks s + 1,
     clients := (clients s)(ca \<mapsto> c\<lparr>objects := m, display_resource := p\<rparr>), resources := (resources s)(p \<mapsto> r)\<rparr>"

text \<open>Binding the display object for a client whose table is empty.\<close>

lemma bind_display_run:
  assumes E: "env_ok E" and s: "server_ok s" "clients s ca = Some c"
    and c: "\<forall>i. wl_map_lookup (objects c) i = Some 0" "cell_count (client_entries (objects c)) = 1"
      "peer_room (objects c) 2" "resource_created_signal c = wl_priv_signal_init"
    and mem: "malloc E s \<noteq> 0"
  obtains m r where "bind_display E ca data s = Some (0, display_bound ca c m (malloc E s) r s)"
    "server_ok (display_bound ca c m (malloc E s) r s)" "rimplementation r = Display_interface"
    "wl_map_lookup m = (\<lambda>_. Some 0)(1 := Some (malloc E s))"
    "cell_count (client_entries m) = 2" "rdispatcher r = None"
    "deprecated_destroy_signal r = []" "rdestroy_signal r = wl_priv_signal_init"
proof -
  let ?p = "malloc E s" let ?r = "new_resource ca wl_display_interface 1 1"
  have av: "id_available (objects c) 1" "unat (1 :: u32) \<le> cell_count (client_entries (objects c))"
    using c(1-3) by (simp_all add: id_available_def WL_SERVER_ID_START_def peer_room_def Let_def)
  obtain m where cr: "wl_resource_create E ca wl_display_interface 1 1 s = Some (?p, s\<lparr>ticks := ticks s + 1,
      resources := (resources s)(?p \<mapsto> ?r), clients := (clients s)(ca \<mapsto> c\<lparr>objects := m\<rparr>)\<rparr>)"
    "wl_map_insert_at (blocks E) (objects c) 0 1 ?p = Some (m, 0)"
    by (rule resource_create_run [OF E s av mem c(4)]) (rule that)
  define s1 where "s1 = s\<lparr>ticks := ticks s + 1, resources := (resources s)(?p \<mapsto> ?r),
    clients := (clients s)(ca \<mapsto> c\<lparr>objects := m\<rparr>)\<rparr>"
  note ok1 = resource_create_ok(1,2) [OF E s av(1) own_interfaces_ok(1) cr(1), folded s1_def]
  have look: "wl_map_lookup m = (\<lambda>_. Some 0)(1 := Some ?p)"
    using ok1(2) mem c(1) by (auto simp: s1_def same_except_def fun_eq_iff)
  obtain xs where xs: "map_ok (objects c) xs" "side (objects c) = WL_MAP_SERVER_SIDE"
    using server_okD(1) [OF s] by (auto simp: client_ok_def)
  have sl: "slot 1 = (True, 1)" "\<not> own_side (objects c)" "?p AND 3 = 0"
    using server_side_map [OF xs(2)] E mem by (auto simp: slot_def WL_SERVER_ID_START_def env_ok_def)
  have room: "peer_room (objects c) 1" using c(3) by (simp add: peer_room_def Let_def)
  have cnt: "cell_count (client_entries m) = 2"
    using wl_map_insert_at_ok [of "blocks E" "objects c" xs ?p 1 True 1 0] E xs(1) c(2,3) sl cr(2) room
    by (auto simp: env_ok_def entries_of_def numeral_2_eq_2)
  let ?r' = "?r\<lparr>rimplementation := Display_interface, rdata := data, rdestroy := Destroy_client_display_resource,
    rdispatcher := None\<rparr>"
  have "bind_display E ca data s = Some (0, display_bound ca c m ?p ?r' s)"
    using cr(1) mem by (simp add: display_bound_def bind_display_def upd_client_def wl_resource_set_implementation_def upd_resource_def)
  moreover have "server_ok (display_bound ca c m ?p ?r' s)"
    using server_ok_display_resource [OF ok1(1), of ca "c\<lparr>objects := m\<rparr>" ?p ?r ?r']
    by (simp add: s1_def new_resource_def display_bound_def)
  ultimately show thesis using that [of m ?r'] look cnt by (simp add: new_resource_def wl_signal_init_def)
qed

text \<open>The new client, and the run of \<^verbatim>\<open>wl_client_create\<close> when nothing fails.\<close>

definition quiet_signals :: "wl_client \<Rightarrow> wl_resource \<Rightarrow> bool" where
  "quiet_signals c r \<longleftrightarrow> resource_created_signal c = wl_priv_signal_init \<and> cdestroy_signal c = wl_priv_signal_init \<and>
     deprecated_destroy_signal r = [] \<and> rdestroy_signal r = wl_priv_signal_init"

definition connected :: "'u senv \<Rightarrow> int \<Rightarrow> 'u server \<Rightarrow> u64 \<Rightarrow> wl_client \<Rightarrow> wl_resource \<Rightarrow> 'u server \<Rightarrow> bool" where
  "connected E fd s ca c r s' \<longleftrightarrow> server_ok s' \<and> clients s ca = None \<and> clients s' = (clients s)(ca \<mapsto> c) \<and>
     client_list (display s') = client_list (display s) @ [ca] \<and> display_resource c \<noteq> 0 \<and>
     wl_map_lookup (objects c) = (\<lambda>_. Some 0)(1 := Some (display_resource c)) \<and>
     cell_count (client_entries (objects c)) = 2 \<and>
     resources s' = (resources s)(display_resource c \<mapsto> r) \<and> rimplementation r = Display_interface \<and>
     rdispatcher r = None \<and> quiet_signals c r \<and> sockets s' = sockets s \<and> connection c = new_connection fd \<and> \<not> cerror c \<and>
     ticks s' = ticks s + 3 \<and> allocated_since E s s' \<and> dserial (display s') = dserial (display s)"

lemma client_create_run:
  assumes E: "env_ok E" "mem_available E 3 s" and s: "server_ok s" "create_client_signal (display s) = wl_priv_signal_init"
  shows "\<exists>ca c r s'. wl_client_create E fd True (Some u) data s = Some (ca, s') \<and> connected E fd s ca c r s'"
proof -
  let ?ca = "malloc E s" let ?s1 = "s\<lparr>ticks := ticks s + 1\<rparr>"
  have ca: "?ca \<noteq> 0" by (rule mem_availableD [OF E(2)]) auto
  have fresh: "clients s ?ca = None" using E(1) ca by (auto simp: env_ok_def live_def)
  have mem1: "malloc E ?s1 \<noteq> 0" by (rule mem_availableD [OF E(2)]) (auto simp: live_def)
  obtain m where m: "wl_map_insert_at (blocks E) (wl_map_init WL_MAP_SERVER_SIDE) 0 0 0 = Some (m, 0)"
    "\<exists>xs. map_ok m xs" "side m = WL_MAP_SERVER_SIDE" "\<forall>i. wl_map_lookup m i = Some 0"
    "\<forall>i. wl_map_lookup_flags m i = Some 0" "cell_count (client_entries m) = 1" "\<forall>n < 2 ^ 31. peer_room m n"
    by (rule fresh_table [OF E(1)]) (rule that)
  define c where "c = \<lparr>connection = new_connection fd, csource = WL_EVENT_READABLE, display_resource = 0, objects = m,
    cdestroy_signal = wl_priv_signal_init, ucred = u, cerror = False, resource_created_signal = wl_priv_signal_init\<rparr>"
  define s2 where "s2 = s\<lparr>ticks := ticks s + 2, clients := (clients s)(?ca \<mapsto> c)\<rparr>"
  have ok2: "server_ok s2"
    unfolding s2_def by (rule server_ok_new_client [OF s(1) fresh ca]) (simp_all add: c_def m)
  let ?p = "malloc E s2"
  have mem2: "?p \<noteq> 0"
    by (rule mem_availableD [OF E(2)]) (use fresh in \<open>auto simp: s2_def live_def split: if_splits\<close>)
  obtain m' r where b: "bind_display E ?ca data s2 = Some (0, display_bound ?ca c m' ?p r s2)"
    "server_ok (display_bound ?ca c m' ?p r s2)" "rimplementation r = Display_interface"
    "wl_map_lookup m' = (\<lambda>_. Some 0)(1 := Some ?p)" "cell_count (client_entries m') = 2" "rdispatcher r = None"
    "deprecated_destroy_signal r = []" "rdestroy_signal r = wl_priv_signal_init"
    by (rule bind_display_run [OF E(1) ok2, of ?ca c data]) (use m(4,6,7) mem2 in \<open>simp_all add: s2_def c_def\<close>)
  let ?s = "upd_display (client_list_update (\<lambda>cs. cs @ [?ca])) (display_bound ?ca c m' ?p r s2)"
  have ok5: "server_ok ?s"
    using b(2) by (simp add: server_ok_def client_ok_def resource_ok_def registry_ok_def display_resource_ok_def upd_display_def)
  have "emit E Create_client ?ca ?s = Some ?s"
    by (rule emit_no_listener) (simp add: signal_of_def upd_display_def display_bound_def s2_def s(2))
  then have "wl_client_create E fd True (Some u) data s = Some (?ca, ?s)"
    using ca mem1 m(1) b(1)
    by (simp add: wl_client_create_def do_malloc_def wl_connection_create_def Let_def c_def new_connection_def s2_def)
  moreover have "allocated_since E s ?s"
    unfolding allocated_since_def
  proof (intro conjI allI impI)
    have t: "ticks s2 = ticks s + 2" "ticks ?s = ticks s + 3" by (simp_all add: upd_display_def display_bound_def s2_def)
    then show "ticks s \<le> ticks ?s" by simp
    fix p assume "live ?s p"
    then have "live s p \<or> p = ?ca \<or> p = ?p"
      by (auto simp: live_def upd_display_def display_bound_def s2_def split: if_splits)
    with t show "live s p \<or> (\<exists>u. ticks s \<le> ticks u \<and> ticks u < ticks ?s \<and> p = malloc E u)"
      by (auto intro: exI [of _ s] exI [of _ s2])
  qed
  ultimately show ?thesis
    using ok5 ca fresh b(3-8) mem2
    by (intro exI [of _ ?ca] exI [of _ "c\<lparr>objects := m', display_resource := ?p\<rparr>"] exI [of _ r] exI [of _ ?s])
      (simp add: connected_def quiet_signals_def upd_display_def display_bound_def s2_def c_def)
qed

text \<open>
  C26: A client for which memory, the event source and the credentials are found is created: it is the
  last in the display's list, its table holds nothing but the display object under id 1, its
  connection is empty, and the server is in order.
\<close>

theorem client_created:
  assumes "env_ok E" "mem_available E 3 s" "server_ok s" "create_client_signal (display s) = wl_priv_signal_init"
  shows "\<exists>ca c r s'. wl_client_create E fd True (Some u) data s = Some (ca, s') \<and> server_ok s' \<and>
    clients s ca = None \<and> clients s' = (clients s)(ca \<mapsto> c) \<and> client_list (display s') = client_list (display s) @ [ca] \<and>
    wl_map_lookup (objects c) = (\<lambda>_. Some 0)(1 := Some (display_resource c)) \<and>
    resources s' = (resources s)(display_resource c \<mapsto> r) \<and> rimplementation r = Display_interface \<and>
    connection c = new_connection fd \<and> \<not> cerror c \<and> sockets s' = sockets s"
  using client_create_run [OF assms, of fd u data] unfolding connected_def by fast

section \<open>A running server\<close>

text \<open>The state after \<^verbatim>\<open>wl_display_create\<close>.\<close>

definition empty_server :: "'u \<Rightarrow> 'u server" where
  "empty_server u = \<lparr>display = the (wl_display_create True True), resources = Map.empty, clients = Map.empty,
     globals = Map.empty, detached = [], sockets = (\<lambda>_. quiet), ticks = 0, logged = [], user = u\<rparr>"

lemma empty_server_simps [simp]:
  "\<not> live (empty_server u) p" "ticks (empty_server u) = 0" "clients (empty_server u) = Map.empty"
  "dserial (display (empty_server u)) = 0" "resources (empty_server u) = Map.empty" "sockets (empty_server u) = (\<lambda>_. quiet)"
  by (simp_all add: empty_server_def live_def wl_display_create_def)

lemma empty_server_ok: "server_ok (empty_server u)" "create_client_signal (display (empty_server u)) = wl_priv_signal_init"
  by (simp_all add: server_ok_def empty_server_def registry_ok_def wl_display_create_def)

lemma demo_env_ok: "env_ok demo_env"
proof -
  have "(16 * w) AND 3 = 0" for w :: u64
  proof -
    have "(16 * w) AND 3 = take_bit 2 (push_bit 4 w)" by (simp add: take_bit_eq_mask mask_eq_exp_minus_1 push_bit_eq_mult mult.commute)
    also have "\<dots> = 0" by (rule bit_eqI) (simp add: bit_take_bit_iff bit_push_bit_iff)
    finally show ?thesis .
  qed
  from this [of "of_nat (Suc n)" for n] show ?thesis
    by (auto simp: env_ok_def demo_env_def allocator_ok_def Let_def distrib_left)
qed

lemma demo_mem_available:
  fixes u :: 'u
  assumes "n < 2 ^ 50"
  shows "mem_available demo_env n (empty_server u)"
  unfolding mem_available_def
proof (intro allI impI)
  fix t :: "'u server" assume t: "allocated_since demo_env (empty_server u) t \<and> ticks t < ticks (empty_server u) + n"
  have un: "unat (16 * of_nat k :: u64) = 16 * k" if "k \<le> n" for k
    using that assms by (simp add: unat_word_ariths unat_of_nat)
  have "\<exists>k \<le> ticks t. p = 16 * of_nat k" if "live t p" for p
  proof -
    have "\<exists>v :: 'u server. ticks v < ticks t \<and> p = malloc demo_env v"
      using t \<open>live t p\<close> unfolding allocated_since_def by simp
    then obtain v :: "'u server" where "ticks v < ticks t" "p = malloc demo_env v" by blast
    then show ?thesis
      by (auto simp: demo_env_def Let_def intro: exI [of _ "ticks v + 1"] exI [of _ 0] split: if_splits)
  qed
  moreover have "16 * of_nat (ticks t + 1) \<noteq> (16 * of_nat k :: u64)" if "k \<le> ticks t" for k
    using un [of "ticks t + 1"] un [of k] t that by auto
  ultimately have "\<not> live t (16 * of_nat (ticks t + 1))" by blast
  moreover have "16 * of_nat (ticks t + 1) \<noteq> (0 :: u64)" using un [of "ticks t + 1"] t by auto
  ultimately show "malloc demo_env t \<noteq> 0" by (simp add: demo_env_def Let_def)
qed

lemma demo_connected:
  obtains ca c r and s :: "unit server" where
    "wl_client_create demo_env 9 True (Some (1, 2, 3)) 8 (empty_server ()) = Some (ca, s)"
    "connected demo_env 9 (empty_server ()) ca c r s" "\<And>n. n < 2 ^ 49 \<Longrightarrow> mem_available demo_env n s"
proof -
  have mem: "mem_available demo_env n (empty_server ())" if "n < 2 ^ 50" for n by (rule demo_mem_available [OF that])
  have "mem_available demo_env 3 (empty_server ())" by (rule mem) simp
  from client_create_run [OF demo_env_ok this empty_server_ok, of 9 "(1, 2, 3)" 8]
  obtain ca c r and s :: "unit server" where
    s: "wl_client_create demo_env 9 True (Some (1, 2, 3)) 8 (empty_server ()) = Some (ca, s)"
    "connected demo_env 9 (empty_server ()) ca c r s" by blast
  have "mem_available demo_env n s" if "n < 2 ^ 49" for n
    by (rule mem_available_later [OF mem [of "3 + n"]]) (use that s(2) in \<open>simp_all add: connected_def\<close>)
  with s that show thesis by blast
qed

theorem client_created_witness:
  "\<exists>ca c s'. wl_client_create demo_env 9 True (Some (1, 2, 3)) 8 (empty_server ()) = Some (ca, s') \<and> server_ok s' \<and>
    clients s' = [ca \<mapsto> c] \<and> wl_map_lookup (objects c) 1 = Some (display_resource c)"
proof -
  have "mem_available demo_env 3 (empty_server ())" by (rule demo_mem_available) simp
  from client_created [OF demo_env_ok this empty_server_ok, of 9 "(1, 2, 3)" 8] show ?thesis unfolding connected_def by fastforce
qed

text \<open>The first request of a new client: sync with id 2.\<close>

theorem sync_answer_witness:
  "\<exists>ca p c c' s s'. wl_client_create demo_env 9 True (Some (1, 2, 3)) 8 (empty_server ()) = Some (ca, s) \<and>
    clients s ca = Some c \<and> display_sync demo_env ca p 2 s = Some s' \<and> clients s' ca = Some c' \<and>
    contents (out (connection c')) = word_event 2 WL_CALLBACK_DONE 0 @ word_event 1 WL_DISPLAY_DELETE_ID 2"
proof -
  obtain ca c r and s :: "unit server" where
    s: "wl_client_create demo_env 9 True (Some (1, 2, 3)) 8 (empty_server ()) = Some (ca, s)"
    "connected demo_env 9 (empty_server ()) ca c r s" "\<And>n. n < 2 ^ 49 \<Longrightarrow> mem_available demo_env n s"
    by (rule demo_connected) (rule that)
  have m: "mem_available demo_env 3 s" by (rule s(3)) simp
  have c: "clients s ca = Some c" "resource_created_signal c = wl_priv_signal_init" "server_ok s" "\<not> cerror c"
    "display_resource c \<noteq> 0" "connection c = new_connection 9" "dserial (display s) = 0"
    "wl_map_lookup (objects c) = (\<lambda>_. Some 0)(1 := Some (display_resource c))" "cell_count (client_entries (objects c)) = 2"
    using s(2) by (simp_all add: connected_def quiet_signals_def)
  have i: "id_available (objects c) 2" "unat (2 :: u32) \<le> cell_count (client_entries (objects c))"
    using c(8,9) peer_room_client [OF server_okD(1) [OF c(3,1)], of 1]
    by (simp_all add: id_available_def WL_SERVER_ID_START_def table_limit_def)
  have "out_room (connection c) 24" by (simp add: c(6) BUFFER_SIZE_def)
  with sync_answer [OF demo_env_ok m c(3,1,4,5) i c(2), of 0]
  obtain s' c' where "display_sync demo_env ca 0 2 s = Some s'" "clients s' = (clients s)(ca \<mapsto> c')"
    "contents (out (connection c')) = contents (out (connection c)) @
      word_event 2 WL_CALLBACK_DONE 0 @ word_event 1 WL_DISPLAY_DELETE_ID 2" unfolding c(7) by auto
  moreover have "contents (out (connection c)) = []"
    by (simp add: c(6) new_connection_def empty_buffer_def contents_def wl_buffer_size_def)
  ultimately show ?thesis using s(1) c(1) by fastforce
qed

end
