(* ===== verification/Wl_Teardown.thy ===== *)
theory Wl_Teardown
  imports Wl_Client "HOL-Library.Sublist"
begin

text \<open>
  The destruction of a client (\<^verbatim>\<open>wl_client_destroy\<close> in \<^verbatim>\<open>wayland-server.c\<close>): while its tables are walked
  they name resources that are already freed, so the invariant is the one of a half-destroyed
  client; in the end nothing of the client is left and everything else is as before.
\<close>

section \<open>A client half destroyed\<close>

text \<open>\<open>D\<close> are the slots of the client's tables whose resources have been destroyed.\<close>

definition tearing :: "u64 \<Rightarrow> wl_map \<Rightarrow> (bool \<times> nat) set \<Rightarrow> 'u server \<Rightarrow> bool" where
  "tearing ca m D s \<longleftrightarrow>
     (\<exists>c. clients s ca = Some c \<and> objects c = m \<and> conn_ok (connection c)) \<and>
     (\<forall>x d. clients s x = Some d \<longrightarrow> x \<noteq> ca \<longrightarrow> client_ok s x d) \<and>
     (\<forall>p r. resources s p = Some r \<longrightarrow> rclient r \<noteq> ca \<longrightarrow> resource_ok s p r) \<and>
     (\<forall>p r. resources s p = Some r \<longrightarrow> rclient r = ca \<longrightarrow>
        p \<noteq> 0 \<and> wl_map_lookup m (rid r) = Some p \<and> slot (rid r) \<notin> D) \<and>
     (\<forall>i p. wl_map_lookup m i = Some p \<longrightarrow> p \<noteq> 0 \<longrightarrow> slot i \<notin> D \<longrightarrow>
        (\<exists>r. resources s p = Some r \<and> rid r = i \<and> rclient r = ca)) \<and>
     registry_ok s"

lemma tearingD:
  assumes "tearing ca m D s"
  shows "\<exists>c. clients s ca = Some c \<and> objects c = m \<and> conn_ok (connection c)"
    "clients s x = Some d \<Longrightarrow> x \<noteq> ca \<Longrightarrow> client_ok s x d"
    "resources s p = Some r \<Longrightarrow> rclient r \<noteq> ca \<Longrightarrow> resource_ok s p r"
    "resources s p = Some r \<Longrightarrow> rclient r = ca \<Longrightarrow> p \<noteq> 0 \<and> wl_map_lookup m (rid r) = Some p \<and> slot (rid r) \<notin> D"
    "wl_map_lookup m i = Some p \<Longrightarrow> p \<noteq> 0 \<Longrightarrow> slot i \<notin> D \<Longrightarrow> \<exists>r. resources s p = Some r \<and> rid r = i \<and> rclient r = ca"
    "registry_ok s"
  using assms by (simp_all add: tearing_def)

lemma tearing_start:
  assumes "server_ok s" "clients s ca = Some c"
  shows "tearing ca (objects c) {} s"
proof -
  note ok = server_okD [OF assms(1)]
  have "p \<noteq> 0 \<and> wl_map_lookup (objects c) (rid r) = Some p" if "resources s p = Some r" "rclient r = ca" for p r
    using ok(2) [OF that(1)] that(2) assms(2) by (auto simp: resource_ok_def)
  moreover have "\<exists>r. resources s p = Some r \<and> rid r = i \<and> rclient r = ca"
    if "wl_map_lookup (objects c) i = Some p" "p \<noteq> 0" for i p
    using client_ok_lookup [OF ok(1) [OF assms(2)] that] by metis
  moreover have "conn_ok (connection c)" using ok(1) [OF assms(2)] by (simp add: client_ok_def)
  ultimately show ?thesis using ok(1-3) assms(2) by (simp add: tearing_def)
qed

lemma tearing_same:
  assumes t: "tearing ca m D s" and same: "same_structs s s'"
  shows "tearing ca m D s'"
proof -
  have orig: "\<exists>x. resources s p = Some x \<and> rid x = rid r \<and> rclient x = rclient r" if "resources s' p = Some r" for p r
    using same_structs_resource [OF same_structs_sym [OF same] that] by metis
  have "\<exists>c. clients s' ca = Some c \<and> objects c = m \<and> conn_ok (connection c)"
    using tearingD(1) [OF t] same_structs_client [OF same] by metis
  moreover have "client_ok s' x d'" if x: "clients s' x = Some d'" "x \<noteq> ca" for x d'
  proof -
    obtain d where d: "clients s x = Some d" using x(1) same_structs_none(1) [OF same, of x] by auto
    from client_ok_same [OF same d tearingD(2) [OF t d x(2)] x(1)] show ?thesis .
  qed
  moreover have "resource_ok s' p r'" if p: "resources s' p = Some r'" "rclient r' \<noteq> ca" for p r'
  proof -
    obtain r where r: "resources s p = Some r" "rclient r = rclient r'" using orig [OF p(1)] by blast
    from resource_ok_same [OF same r(1) tearingD(3) [OF t r(1)] p(1)] r(2) p(2) show ?thesis by simp
  qed
  moreover have "p \<noteq> 0 \<and> wl_map_lookup m (rid r) = Some p \<and> slot (rid r) \<notin> D"
    if "resources s' p = Some r" "rclient r = ca" for p r
    using orig [OF that(1)] tearingD(4) [OF t] that(2) by metis
  moreover have "\<exists>r. resources s' p = Some r \<and> rid r = i \<and> rclient r = ca"
    if "wl_map_lookup m i = Some p" "p \<noteq> 0" "slot i \<notin> D" for i p
    using tearingD(5) [OF t that] same_structs_resource [OF same] by metis
  ultimately show ?thesis using registry_ok_same [OF same tearingD(6) [OF t]] by (simp add: tearing_def)
qed

text \<open>One resource is taken out.\<close>

lemma tearing_free:
  assumes t: "tearing ca m D s" and p: "resources s p = Some r" "rclient r = ca"
  shows "tearing ca m (insert (slot (rid r)) D) (free_resource p (destructed r p s))" (is "tearing ca m _ ?s")
proof -
  obtain c where c: "clients s ca = Some c" "objects c = m" "conn_ok (connection c)" using tearingD(1) [OF t] by blast
  have pi: "wl_map_lookup m (rid r) = Some p" "p \<noteq> 0" using tearingD(4) [OF t p] by auto
  have res: "resources ?s = (resources s)(p := None)"
    by (auto simp: free_resource_def destructed_def upd_display_def split: wl_destructor.splits)
  obtain c' where cl: "clients ?s = (clients s)(ca \<mapsto> c')" "objects c' = m" "conn_ok (connection c')"
  proof (cases "rdestroy r = Destroy_client_display_resource")
    case True
    with c p(2) show thesis
      by (intro that [of "c\<lparr>display_resource := 0\<rparr>"]) (simp_all add: free_resource_def destructed_def)
  next
    case False
    then have "clients ?s = clients s"
      by (auto simp: free_resource_def destructed_def upd_display_def split: wl_destructor.splits)
    with c show thesis by (intro that [of c]) (simp_all add: fun_upd_idem)
  qed
  have "client_ok ?s x d" if d: "clients ?s x = Some d" "x \<noteq> ca" for x d
  proof -
    have d': "clients s x = Some d" using d cl(1) by simp
    note ok = tearingD(2) [OF t d' d(2)]
    then have "conn_ok (connection d)" by (simp add: client_ok_def)
    with d p res show ?thesis by (intro client_ok_heap [OF ok d' d(1)]) auto
  qed
  moreover have "resource_ok ?s q x" if "resources ?s q = Some x" "rclient x \<noteq> ca" for q x
    using tearingD(3) [OF t] that res cl(1) by (auto simp: resource_ok_def split: if_splits)
  moreover have "q \<noteq> 0 \<and> wl_map_lookup m (rid x) = Some q \<and> slot (rid x) \<notin> insert (slot (rid r)) D"
    if q: "resources ?s q = Some x" "rclient x = ca" for q x
  proof -
    have q': "resources s q = Some x" "q \<noteq> p" using q(1) res by (auto split: if_splits)
    from tearingD(4) [OF t q'(1) q(2)] pi(1) q'(2) have "rid x \<noteq> rid r" by auto
    with tearingD(4) [OF t q'(1) q(2)] slot_inj show ?thesis by auto
  qed
  moreover have "\<exists>x. resources ?s q = Some x \<and> rid x = i \<and> rclient x = ca"
    if q: "wl_map_lookup m i = Some q" "q \<noteq> 0" "slot i \<notin> insert (slot (rid r)) D" for i q
  proof -
    obtain x where x: "resources s q = Some x" "rid x = i" "rclient x = ca"
      using tearingD(5) [OF t q(1,2)] q(3) by auto
    then have "q \<noteq> p" using q(3) p(1) by auto
    with x res show ?thesis by simp
  qed
  moreover have "registry_ok ?s"
    by (rule registry_ok_remove [OF tearingD(6) [OF t] res destructed_registry [OF tearingD(6) [OF t] p(1)]])
  ultimately show ?thesis using cl by (simp add: tearing_def)
qed

lemma tearing_nothing:
  assumes "tearing ca m D s" "wl_map_lookup m i = Some 0"
  shows "tearing ca m (insert (slot i) D) s"
proof -
  have "slot (rid r) \<noteq> slot i" if "resources s p = Some r" "rclient r = ca" for p r
    using tearingD(4) [OF assms(1) that] assms(2) slot_inj by fastforce
  with assms show ?thesis by (auto simp: tearing_def)
qed

section \<open>Everything else\<close>

text \<open>What belongs to other clients, and the display's lists, stay as they are.\<close>

definition others_kept :: "u64 \<Rightarrow> 'u server \<Rightarrow> 'u server \<Rightarrow> bool" where
  "others_kept ca s s' \<longleftrightarrow>
     (\<forall>x. x \<noteq> ca \<longrightarrow> map_option client_view (clients s' x) = map_option client_view (clients s x)) \<and>
     (\<forall>p r. resources s p = Some r \<longrightarrow> rclient r \<noteq> ca \<longrightarrow>
        map_option resource_view (resources s' p) = Some (resource_view r)) \<and>
     map_option (\<lambda>c. (connection c, objects c)) (clients s' ca) = map_option (\<lambda>c. (connection c, objects c)) (clients s ca) \<and>
     globals s' = globals s \<and> sockets s' = sockets s \<and> detached s' = detached s \<and>
     client_list (display s') = client_list (display s) \<and> global_list (display s') = global_list (display s)"

lemma others_kept_refl [simp]: "others_kept ca s s"
  by (simp add: others_kept_def)

lemma others_kept_trans:
  assumes "others_kept ca s t" "others_kept ca t u"
  shows "others_kept ca s u"
proof -
  have "map_option resource_view (resources u p) = Some (resource_view r)"
    if "resources s p = Some r" "rclient r \<noteq> ca" for p r
  proof -
    have "map_option resource_view (resources t p) = Some (resource_view r)"
      using assms(1) that by (simp add: others_kept_def)
    then obtain r' where r': "resources t p = Some r'" "resource_view r' = resource_view r" by auto
    then have "rclient r' = rclient r" by (simp add: resource_view_def)
    then have "rclient r' \<noteq> ca" using that(2) by simp
    moreover have "\<forall>p r. resources t p = Some r \<longrightarrow> rclient r \<noteq> ca \<longrightarrow>
        map_option resource_view (resources u p) = Some (resource_view r)"
      using assms(2) by (simp add: others_kept_def)
    ultimately have "map_option resource_view (resources u p) = Some (resource_view r')"
      using r'(1) that(2) by blast
    with r'(2) show ?thesis by simp
  qed
  with assms show ?thesis by (simp add: others_kept_def)
qed

lemma others_kept_same: "same_structs s s' \<Longrightarrow> others_kept ca s s'"
proof -
  assume same: "same_structs s s'"
  have "map_option (\<lambda>c. (connection c, objects c)) (clients s' ca) = map_option (\<lambda>c. (connection c, objects c)) (clients s ca)"
  proof (cases "clients s ca")
    case None
    with same_structs_none(1) [OF same, of ca] show ?thesis by simp
  next
    case (Some c)
    obtain c' where "clients s' ca = Some c'" "connection c' = connection c" "objects c' = objects c"
      by (rule same_structs_client [OF same Some]) (rule that)
    with Some show ?thesis by simp
  qed
  with same show ?thesis by (auto simp: others_kept_def same_structs_def display_view_def)
qed

lemma others_kept_free:
  assumes "resources s p = Some r" "rclient r = ca"
  shows "others_kept ca s (free_resource p (destructed r p s))"
  using assms by (cases "clients s ca")
    (auto simp: others_kept_def free_resource_def destructed_def upd_display_def split: wl_destructor.splits)

section \<open>The walk over the tables\<close>

lemma used_entry_data:
  assumes "e \<noteq> 0" "\<not> map_entry_is_free e" "entry_flags e = 0"
  shows "entry_data e = map_entry_get_data e" "map_entry_get_data e \<noteq> 0" "map_entry_get_flags e = 0"
proof -
  show f: "map_entry_get_flags e = 0" "entry_data e = map_entry_get_data e"
    using assms by (simp_all add: entry_flags_def entry_data_def)
  have b0: "\<not> bit e 0" using assms(2) by (simp add: map_entry_is_free_bit)
  have "bit (map_entry_get_flags e) 0 = bit e 1"
    by (simp add: map_entry_get_flags_def bit_unsigned_iff bit_and_iff bit_drop_bit_eq)
  with f(1) have b1: "\<not> bit e 1" by simp
  have "e AND NOT 3 = e"
  proof (rule bit_word_eqI)
    fix n assume n: "n < LENGTH(64)"
    have "bit (3 :: u64) n \<longleftrightarrow> n = 0 \<or> n = 1"
      by (cases n) (auto simp: bit_numeral_rec bit_1_iff split: nat.splits)
    with n b0 b1 show "bit (e AND NOT 3) n = bit e n"
      by (simp only: bit_and_iff bit_not_iff possible_bit_word) auto
  qed
  with assms(1) show "map_entry_get_data e \<noteq> 0" by (simp add: map_entry_get_data_def)
qed

text \<open>The entry of a slot is null or free and names nothing, or it is the address of the resource.\<close>

lemma table_entry:
  assumes m: "map_ok m xs" "\<forall>i. wl_map_lookup_flags m i = Some 0" and k: "k < cell_count (entries_of cs m)"
  obtains e i where "cell_get (entries_of cs m) k = Some e" "slot i = (cs, k)"
    "if e \<noteq> 0 \<and> \<not> map_entry_is_free e
     then wl_map_lookup m i = Some (map_entry_get_data e) \<and> map_entry_get_data e \<noteq> 0 \<and> map_entry_get_flags e = 0
     else wl_map_lookup m i = Some 0"
proof -
  let ?e = "cells (entries_of cs m) ! k" let ?i = "slot_id cs k"
  note tok = table_ok_entries [OF m(1)]
  have "k < table_limit cs" using tok [of cs] k by (simp add: table_ok_def)
  note sl = slot_slot_id [OF this]
  have get: "cell_get (entries_of cs m) k = Some ?e"
    using tok [of cs] k by (intro cell_get_cells) (simp_all add: table_ok_def)
  have look: "wl_map_lookup m ?i = Some (entry_data ?e)" "wl_map_lookup_flags m ?i = Some (entry_flags ?e)"
    using wl_map_lookup_cells [OF tok sl] k by (simp_all add: table_lookup_def)
  have "map_entry_get_data 0 = 0" by (simp add: map_entry_get_data_def)
  then show thesis
    using that [OF get sl] look m(2) used_entry_data [of ?e] by (auto simp: entry_data_def)
qed

definition destroy_entry :: "'u senv \<Rightarrow> u64 \<Rightarrow> 'u server \<Rightarrow> 'u server option" where
  "destroy_entry E e s = (if e \<noteq> 0 \<and> \<not> map_entry_is_free e
     then destroy_resource E (map_entry_get_data e) (map_entry_get_flags e) s else Some s)"

lemma destroy_entry_ok:
  assumes E: "env_ok E" and t: "tearing ca m D s"
    and m: "map_ok m xs" "\<forall>i. wl_map_lookup_flags m i = Some 0"
    and e: "k < cell_count (entries_of cs m)" "(cs, k) \<notin> D" "cell_get (entries_of cs m) k = Some e"
    and run: "destroy_entry E e s = Some s'"
  shows "tearing ca m (insert (cs, k) D) s'" "others_kept ca s s'"
proof -
  obtain i where i: "slot i = (cs, k)"
    "if e \<noteq> 0 \<and> \<not> map_entry_is_free e
     then wl_map_lookup m i = Some (map_entry_get_data e) \<and> map_entry_get_data e \<noteq> 0 \<and> map_entry_get_flags e = 0
     else wl_map_lookup m i = Some 0"
    by (rule table_entry [OF m e(1)]) (use e(3) that in auto)
  have "tearing ca m (insert (cs, k) D) s' \<and> others_kept ca s s'"
  proof (cases "e \<noteq> 0 \<and> \<not> map_entry_is_free e")
    case False
    then have "s' = s" "wl_map_lookup m i = Some 0" using run i(2) by (auto simp: destroy_entry_def)
    with tearing_nothing [OF t this(2)] i(1) show ?thesis by simp
  next
    case True
    let ?p = "map_entry_get_data e"
    have p: "wl_map_lookup m i = Some ?p" "?p \<noteq> 0" "map_entry_get_flags e = 0" using True i(2) by auto
    obtain r where r: "resources s ?p = Some r" "rid r = i" "rclient r = ca"
      using tearingD(5) [OF t p(1,2)] i(1) e(2) by auto
    obtain c where c: "clients s ca = Some c" "objects c = m" using tearingD(1) [OF t] by blast
    have d: "destroy_resource E ?p 0 s = Some s'" using run True p(3) by (simp add: destroy_entry_def)
    obtain b rb where b: "same_structs s b" "resources b ?p = Some rb" "resource_view rb = resource_view r"
      "s' = free_resource ?p (destructed rb ?p b)"
      using destroy_resource_run [OF E r(1) _ _ d, of c] c m(2) r(3) by metis
    have "rclient rb = ca" "rid rb = i" using b(3) r by (simp_all add: resource_view_def)
    with tearing_free [OF tearing_same [OF t b(1)] b(2)] i(1) b(4)
      others_kept_trans [OF others_kept_same [OF b(1)] others_kept_free [OF b(2)]]
    show ?thesis by simp
  qed
  then show "tearing ca m (insert (cs, k) D) s'" "others_kept ca s s'" by auto
qed

lemma destroy_entries_step:
  assumes "clients s ca = Some c" "objects c = m"
  shows "destroy_entries E ca cs (aalloc (entries_of cs m)) k (Suc n) s =
    Option.bind (cell_get (entries_of cs m) k) (\<lambda>e. Option.bind (destroy_entry E e s)
      (destroy_entries E ca cs (aalloc (entries_of cs m)) (Suc k) n))"
  using assms by (simp add: destroy_entry_def cong: if_cong)

lemma destroy_entries_ok:
  assumes E: "env_ok E" and m: "map_ok m xs" "\<forall>i. wl_map_lookup_flags m i = Some 0"
    and "tearing ca m D s" "k + n = cell_count (entries_of cs m)" "\<forall>j \<ge> k. (cs, j) \<notin> D"
    and "destroy_entries E ca cs (aalloc (entries_of cs m)) k n s = Some s'"
  shows "tearing ca m (D \<union> {cs} \<times> {k..<k + n}) s' \<and> others_kept ca s s'"
  using assms(4-)
proof (induction n arbitrary: k D s)
  case 0
  then show ?case by simp
next
  case (Suc n)
  obtain c where c: "clients s ca = Some c" "objects c = m" using tearingD(1) [OF Suc.prems(1)] by blast
  have k: "k < cell_count (entries_of cs m)" using Suc.prems(2) by simp
  obtain e s1 where s1: "cell_get (entries_of cs m) k = Some e" "destroy_entry E e s = Some s1"
    "destroy_entries E ca cs (aalloc (entries_of cs m)) (Suc k) n s1 = Some s'"
    using Suc.prems(4) destroy_entries_step [OF c] by (auto simp: bind_eq_Some)
  note st = destroy_entry_ok [OF E Suc.prems(1) m k _ s1(1,2)]
  have "tearing ca m (insert (cs, k) D \<union> {cs} \<times> {Suc k..<Suc k + n}) s' \<and> others_kept ca s1 s'"
    using Suc.prems(2,3) st(1) s1(3) by (intro Suc.IH) auto
  moreover have "insert (cs, k) D \<union> {cs} \<times> {Suc k..<Suc k + n} = D \<union> {cs} \<times> {k..<k + Suc n}" by auto
  ultimately show ?case using st(2) Suc.prems(3) others_kept_trans [of ca s s1 s'] by simp
qed

lemma destroy_table_ok:
  assumes E: "env_ok E" and m: "map_ok m xs" "\<forall>i. wl_map_lookup_flags m i = Some 0"
    and t: "tearing ca m D s" "\<forall>j. (cs, j) \<notin> D" and run: "destroy_table E ca cs s = Some s'"
  shows "tearing ca m (D \<union> {cs} \<times> {0..<cell_count (entries_of cs m)}) s' \<and> others_kept ca s s'"
proof -
  obtain c where c: "clients s ca = Some c" "objects c = m" using tearingD(1) [OF t(1)] by blast
  have "destroy_entries E ca cs (aalloc (entries_of cs m)) 0 (cell_count (entries_of cs m)) s = Some s'"
    using run c by (simp add: destroy_table_def Let_def)
  from destroy_entries_ok [OF E m t(1) _ _ this] t(2) show ?thesis by simp
qed

text \<open>When both tables have been walked nothing of the client is left.\<close>

lemma tearing_end:
  assumes t: "tearing ca m D s" and m: "map_ok m xs"
    and D: "\<And>cs k. k < cell_count (entries_of cs m) \<Longrightarrow> (cs, k) \<in> D"
    and s': "clients s' = (clients s)(ca := None)" "resources s' = resources s"
      "registry_resource_list (display s') = registry_resource_list (display s)"
  shows "server_ok s'" "resources s p = Some r \<Longrightarrow> rclient r \<noteq> ca"
proof -
  show none: "rclient r \<noteq> ca" if "resources s p = Some r" for p r
  proof
    assume "rclient r = ca"
    from tearingD(4) [OF t that this] have l: "p \<noteq> 0" "wl_map_lookup m (rid r) = Some p" "slot (rid r) \<notin> D" by auto
    obtain cs k where sl: "slot (rid r) = (cs, k)" by (cases "slot (rid r)")
    have "k < cell_count (entries_of cs m)"
      using wl_map_lookup_cells(1) [OF table_ok_entries [OF m] sl] l(1,2) by (auto simp: table_lookup_def split: if_splits)
    with D sl l(3) show False by auto
  qed
  have heap: "clients s' x = Some d \<Longrightarrow> x \<noteq> ca \<and> clients s x = Some d" for x d
    by (simp add: s'(1) split: if_splits)
  show "server_ok s'"
    unfolding server_ok_def
  proof (intro conjI allI impI)
    fix x d assume d': "clients s' x = Some d"
    then have d: "x \<noteq> ca" "clients s x = Some d" using heap by auto
    note ok = tearingD(2) [OF t d(2,1)]
    then have "conn_ok (connection d)" by (simp add: client_ok_def)
    with d' s'(2) show "client_ok s' x d" by (intro client_ok_heap [OF ok d(2)]) auto
  next
    fix p r assume r: "resources s' p = Some r"
    with none s'(2) have "rclient r \<noteq> ca" "resource_ok s p r" using tearingD(3) [OF t] by auto
    with s'(1) show "resource_ok s' p r" by (auto simp: resource_ok_def)
  next
    show "registry_ok s'" using tearingD(6) [OF t] by (simp add: registry_ok_def s')
  qed
qed

section \<open>Destroying a client\<close>

text \<open>Flushing changes the client's connection and socket only.\<close>

lemma server_ok_connection:
  assumes s: "server_ok s" "clients s ca = Some c" and "conn_ok conn"
  shows "server_ok (s\<lparr>sockets := ws, clients := (clients s)(ca \<mapsto> c\<lparr>connection := conn\<rparr>)\<rparr>)" (is "server_ok ?s")
  unfolding server_ok_def
proof (intro conjI allI impI)
  fix x d assume d: "clients ?s x = Some d"
  then obtain d0 where d0: "clients s x = Some d0" "objects d = objects d0" "display_resource d = display_resource d0"
    "conn_ok (connection d)"
    using s assms(3) server_okD(1) [OF s(1)] by (cases "x = ca") (auto simp: client_ok_def)
  from client_ok_heap [OF server_okD(1) [OF s(1) d0(1)] d0(1) d _ d0(2-4)] show "client_ok ?s x d" by simp
next
  fix p r assume "resources ?s p = Some r"
  then have "resource_ok s p r" using server_okD(2) [OF s(1)] by simp
  with s(2) show "resource_ok ?s p r" by (auto simp: resource_ok_def)
next
  show "registry_ok ?s" using server_okD(3) [OF s(1)] by (simp add: registry_ok_def)
qed

lemma client_flush_frame:
  assumes "clients s ca = Some c" "conn_ok (connection c)" "wl_client_flush ca s = Some (ret, s')"
  obtains conn w where "wl_connection_flush (connection c) (sockets s (cfd (connection c))) = Some (conn, w, ret)"
    "conn_ok conn" "cfd conn = cfd (connection c)" "inb conn = inb (connection c)"
    "s' = s\<lparr>sockets := (sockets s)(cfd (connection c) := w), clients := (clients s)(ca \<mapsto> c\<lparr>connection := conn\<rparr>)\<rparr>"
proof -
  obtain conn w where f: "wl_connection_flush (connection c) (sockets s (cfd (connection c))) = Some (conn, w, ret)"
    "s' = s\<lparr>sockets := (sockets s)(cfd (connection c) := w), clients := (clients s)(ca \<mapsto> c\<lparr>connection := conn\<rparr>)\<rparr>"
    using assms(1,3) by (auto simp: wl_client_flush_def bind_eq_Some upd_client_def upd_socket_def Let_def)
  note k = flush_keeps_output(1,2) [OF assms(2) f(1)]
  from k(2) have "cfd conn = cfd (connection c)" "inb conn = inb (connection c)"
    by (simp_all add: output_kept_def same_input_def)
  with f k(1) that show thesis by blast
qed

text \<open>
  Everything of the client is gone: the structure, its resources, its place in the lists, its
  socket; every descriptor still queued in either direction is closed once. Nothing else changed.
\<close>

definition client_gone :: "u64 \<Rightarrow> wl_client \<Rightarrow> 'u server \<Rightarrow> 'u server \<Rightarrow> bool" where
  "client_gone ca c s s' \<longleftrightarrow> clients s' ca = None \<and> (\<forall>p r. resources s' p = Some r \<longrightarrow> rclient r \<noteq> ca) \<and>
     (\<forall>x. x \<noteq> ca \<longrightarrow> map_option client_view (clients s' x) = map_option client_view (clients s x)) \<and>
     (\<forall>p r. resources s p = Some r \<longrightarrow> rclient r \<noteq> ca \<longrightarrow>
        map_option resource_view (resources s' p) = Some (resource_view r)) \<and>
     globals s' = globals s \<and> client_list (display s') = remove1 ca (client_list (display s)) \<and>
     (\<forall>fd. fd \<noteq> cfd (connection c) \<longrightarrow> sockets s' fd = sockets s fd) \<and>
     closed (sockets s' (cfd (connection c))) = closed (sockets s (cfd (connection c))) @
       queued_fds (fds_out (connection c)) @ queued_fds (fds_in (connection c)) @ [of_int (cfd (connection c))]"

lemma connection_destroy_closes:
  assumes "conn_ok c"
  shows "wl_connection_destroy c w = (cfd c, w\<lparr>closed := closed w @ queued_fds (fds_out c) @ queued_fds (fds_in c)\<rparr>)"
proof -
  have ok: "fdbuf_ok (fds_out c)" "fdbuf_ok (fds_in c)" using assms by (auto simp: conn_ok_def)
  obtain b1 w1 where 1: "close_fds (fds_out c) (-1) w = (b1, w1)" by (cases "close_fds (fds_out c) (-1) w")
  obtain b2 w2 where 2: "close_fds (fds_in c) (-1) w1 = (b2, w2)" by (cases "close_fds (fds_in c) (-1) w1")
  from close_fds_queue [OF ok(1) 1] close_fds_queue [OF ok(2) 2] 1 2 show ?thesis
    by (simp add: wl_connection_destroy_def close_count_def)
qed

lemma flush_then_destroy:
  assumes "conn_ok c" "wl_connection_flush c w = Some (c', w', r)"
  shows "\<exists>w''. wl_connection_destroy c' w' = (cfd c, w'') \<and>
    closed w'' = closed w @ queued_fds (fds_out c) @ queued_fds (fds_in c)"
proof -
  note k = flush_keeps_output(1,2) [OF assms]
  obtain ds where ds: "closed w' = closed w @ ds" "sent_fds w' = sent_fds w @ ds" and
    st: "sent_fds w' @ queued_fds (fds_out c') = sent_fds w @ queued_fds (fds_out c)" and
    inp: "fds_in c' = fds_in c" "cfd c' = cfd c"
    using k(2) by (auto simp: output_kept_def fds_released_def fd_stream_def same_input_def)
  have "ds @ queued_fds (fds_out c') = queued_fds (fds_out c)" using ds(2) st by simp
  then have "closed w' @ queued_fds (fds_out c') = closed w @ queued_fds (fds_out c)" using ds(1) by simp
  with inp show ?thesis by (simp add: connection_destroy_closes [OF k(1)] flip: append_assoc)
qed

lemma client_destroy_ok:
  assumes E: "env_ok E" and s: "server_ok s" "clients s ca = Some c"
    and run: "wl_client_destroy E ca s = Some s'"
  shows "server_ok s'" "client_gone ca c s s'"
proof -
  let ?fd = "cfd (connection c)"
  obtain s1 ret s2 s3 s4 c4 where r: "emit E (Client_destroy ca) ca s = Some s1" "wl_client_flush ca s1 = Some (ret, s2)"
    "destroy_table E ca True s2 = Some s3" "destroy_table E ca False s3 = Some s4" "clients s4 ca = Some c4"
    using run by (auto simp: wl_client_destroy_def bind_eq_Some)
  note same = emit_same [OF E r(1)] and ok1 = server_ok_same [OF s(1) emit_same [OF E r(1)]]
  obtain c1 where c1: "clients s1 ca = Some c1" "connection c1 = connection c" "objects c1 = objects c"
    by (rule same_structs_client [OF same s(2)]) (rule that)
  have cok: "conn_ok (connection c)" "\<forall>i. wl_map_lookup_flags (objects c) i = Some 0"
    using server_okD(1) [OF s] by (auto simp: client_ok_def)
  obtain xs where xs: "map_ok (objects c) xs" using server_okD(1) [OF s] by (auto simp: client_ok_def)
  have sock: "sockets s1 = sockets s" using same by (simp add: same_structs_def)
  obtain conn w where fl: "wl_connection_flush (connection c) (sockets s ?fd) = Some (conn, w, ret)" "conn_ok conn"
    "s2 = s1\<lparr>sockets := (sockets s)(?fd := w), clients := (clients s1)(ca \<mapsto> c1\<lparr>connection := conn\<rparr>)\<rparr>"
    by (rule client_flush_frame [OF c1(1) _ r(2)]) (use cok c1 sock that in auto)
  have ok2: "server_ok s2" unfolding fl(3) by (rule server_ok_connection [OF ok1 c1(1) fl(2)])
  have t2: "tearing ca (objects c) {} s2"
    using tearing_start [OF ok2, of ca "c1\<lparr>connection := conn\<rparr>"] c1(3) by (simp add: fl(3))
  note t3 = destroy_table_ok [OF E xs cok(2) t2 _ r(3)]
  have t4: "tearing ca (objects c) ({True} \<times> {0..<cell_count (entries_of True (objects c))} \<union>
      {False} \<times> {0..<cell_count (entries_of False (objects c))}) s4 \<and> others_kept ca s3 s4"
    by (rule destroy_table_ok [OF E xs cok(2) _ _ r(4)]) (use t3 in auto)
  have k: "others_kept ca s2 s4" using t3 t4 others_kept_trans by blast
  have c4: "connection c4 = conn" using k r(5) by (simp add: others_kept_def fl(3))
  obtain w' where w': "wl_connection_destroy conn (sockets s4 ?fd) = (?fd, w')"
    "closed w' = closed (sockets s ?fd) @ queued_fds (fds_out (connection c)) @ queued_fds (fds_in (connection c))"
    using flush_then_destroy [OF cok(1) fl(1)] k by (auto simp: others_kept_def fl(3))
  have fd: "cfd conn = ?fd" using w'(1) by (simp add: wl_connection_destroy_def Let_def split: prod.splits)
  have s': "s' = (upd_display (client_list_update (remove1 ca)) (upd_socket ?fd (w'\<lparr>closed := closed w' @ [of_int ?fd]\<rparr>) s4))
      \<lparr>detached := remove1 ca (detached s4), clients := (clients s4)(ca := None)\<rparr>"
    using run r w'(1) c4 fd
    by (simp add: wl_client_destroy_def upd_display_def upd_socket_def)
  have all: "k < cell_count (entries_of cs (objects c)) \<Longrightarrow> (cs, k) \<in> {True} \<times> {0..<cell_count (entries_of True (objects c))} \<union>
      {False} \<times> {0..<cell_count (entries_of False (objects c))}" for cs k by (cases cs) auto
  note fin = tearing_end [OF conjunct1 [OF t4] xs all, of s']
  show "server_ok s'" by (rule fin(1)) (auto simp: s' upd_display_def upd_socket_def)
  have none: "\<forall>p r. resources s4 p = Some r \<longrightarrow> rclient r \<noteq> ca"
    using fin(2) by (auto simp: s' upd_display_def upd_socket_def)
  have old: "others_kept ca s s1" by (rule others_kept_same [OF same])
  have r2: "resources s2 = resources s1" "display s2 = display s1" "globals s2 = globals s1" by (simp_all add: fl(3))
  have "map_option resource_view (resources s4 p) = Some (resource_view x)"
    if x: "resources s p = Some x" "rclient x \<noteq> ca" for p x
  proof -
    obtain y where y: "resources s2 p = Some y" "rclient y \<noteq> ca" "resource_view y = resource_view x"
      using same_structs_resource [OF same x(1)] x(2) unfolding r2(1) resource_view_def by metis
    moreover have "\<forall>p r. resources s2 p = Some r \<longrightarrow> rclient r \<noteq> ca \<longrightarrow>
        map_option resource_view (resources s4 p) = Some (resource_view r)"
      using k by (simp add: others_kept_def)
    ultimately show ?thesis by metis
  qed
  moreover have "map_option client_view (clients s4 x) = map_option client_view (clients s x)" if "x \<noteq> ca" for x
    using k old that by (simp add: others_kept_def fl(3))
  moreover have "globals s4 = globals s" "client_list (display s4) = client_list (display s)"
    "fd \<noteq> ?fd \<Longrightarrow> sockets s4 fd = sockets s fd" for fd
    using k old by (simp_all add: others_kept_def fl(3))
  ultimately show "client_gone ca c s s'"
    using none w'(2) by (simp add: client_gone_def s' upd_display_def upd_socket_def)
qed

section \<open>The destruction returns\<close>

text \<open>
  The compositor's functions that a destruction may call: a listener with the address it is told,
  the destructor of a resource. \<open>client_callees\<close> are those of a client's resources.
\<close>

datatype callee = Listener u64 u64 | Destructor nat u64

definition signal_callees :: "u64 \<Rightarrow> wl_priv_signal \<Rightarrow> callee set" where
  "signal_callees d sg = (\<lambda>l. Listener l d) ` set (listener_list sg @ emit_list sg)"

definition resource_callees :: "u64 \<Rightarrow> wl_resource \<Rightarrow> callee set" where
  "resource_callees p r = signal_callees p (rdestroy_signal r) \<union>
     (case rdestroy r of Destroy k \<Rightarrow> {Destructor k p} | _ \<Rightarrow> {})"

definition client_callees :: "u64 \<Rightarrow> 'u server \<Rightarrow> callee set" where
  "client_callees ca s = {x. \<exists>p r. resources s p = Some r \<and> rclient r = ca \<and> x \<in> resource_callees p r}"

text \<open>Listeners may be removed from a signal, none is added. \<open>fewer_callees X\<close>: and so for every resource but \<open>X\<close>.\<close>

definition fewer_listeners :: "wl_priv_signal \<Rightarrow> wl_priv_signal \<Rightarrow> bool" where
  "fewer_listeners sg sg' \<longleftrightarrow> subseq (listener_list sg') (listener_list sg) \<and> subseq (emit_list sg') (emit_list sg)"

definition fewer_callees :: "u64 set \<Rightarrow> 'u server \<Rightarrow> 'u server \<Rightarrow> bool" where
  "fewer_callees X s s' \<longleftrightarrow> (\<forall>p r'. p \<notin> X \<longrightarrow> resources s' p = Some r' \<longrightarrow> (\<exists>r. resources s p = Some r \<and>
     rclient r' = rclient r \<and> rdestroy r' = rdestroy r \<and>
     deprecated_destroy_signal r' = deprecated_destroy_signal r \<and> fewer_listeners (rdestroy_signal r) (rdestroy_signal r')))"

definition no_new_callees :: "'u server \<Rightarrow> 'u server \<Rightarrow> bool" where
  "no_new_callees s s' \<longleftrightarrow> fewer_callees {} s s' \<and>
     (\<forall>ca c'. clients s' ca = Some c' \<longrightarrow> (\<exists>c. clients s ca = Some c \<and> fewer_listeners (cdestroy_signal c) (cdestroy_signal c')))"

text \<open>
  The contract of these functions: \<open>J u P\<close> says that in the state \<open>u\<close> of the compositor each function
  of \<open>P\<close> may still be called once. A call then returns, leaves the others callable (it may well free
  what it was itself called for), and may remove listeners but adds none.
\<close>

definition callees_return :: "'u senv \<Rightarrow> ('u \<Rightarrow> callee set \<Rightarrow> bool) \<Rightarrow> bool" where
  "callees_return E J \<longleftrightarrow> (\<forall>u P Q. J u P \<longrightarrow> Q \<subseteq> P \<longrightarrow> J u Q) \<and>
     (\<forall>l d s P. J (user s) P \<longrightarrow> Listener l d \<in> P \<longrightarrow>
        (\<exists>s'. notify E l d s = Some s' \<and> J (user s') (P - {Listener l d}) \<and> no_new_callees s s')) \<and>
     (\<forall>k p s P. J (user s) P \<longrightarrow> Destructor k p \<in> P \<longrightarrow>
        (\<exists>s'. destructor E k p s = Some s' \<and> J (user s') (P - {Destructor k p}) \<and> no_new_callees s s'))"

lemma callees_returnD:
  assumes "callees_return E J" "J (user s) P"
  shows "Q \<subseteq> P \<Longrightarrow> J (user s) Q"
    "Listener l d \<in> P \<Longrightarrow> \<exists>s'. notify E l d s = Some s' \<and> J (user s') (P - {Listener l d}) \<and> no_new_callees s s'"
    "Destructor k p \<in> P \<Longrightarrow> \<exists>s'. destructor E k p s = Some s' \<and> J (user s') (P - {Destructor k p}) \<and> no_new_callees s s'"
  using assms unfolding callees_return_def by blast+

text \<open>
  The listeners of a client's resources: each is linked once (a \<^verbatim>\<open>wl_listener\<close> has one link), and none
  is in the signal of the deprecated kind of resource, where
  \<^verbatim>\<open>wl_resource_add_destroy_listener\<close> puts no listener of a resource of the usual kind.
\<close>

definition linked_once :: "wl_priv_signal \<Rightarrow> bool" where
  "linked_once sg \<longleftrightarrow> distinct (listener_list sg @ emit_list sg)"

definition listeners_linked :: "u64 \<Rightarrow> 'u server \<Rightarrow> bool" where
  "listeners_linked ca s \<longleftrightarrow> (\<forall>p r. resources s p = Some r \<longrightarrow> rclient r = ca \<longrightarrow>
     deprecated_destroy_signal r = [] \<and> linked_once (rdestroy_signal r))"

lemma fewer_listeners_refl [simp]: "fewer_listeners sg sg"
  by (simp add: fewer_listeners_def)

lemma fewer_listeners_trans: "fewer_listeners a b \<Longrightarrow> fewer_listeners b c \<Longrightarrow> fewer_listeners a c"
  unfolding fewer_listeners_def by (meson subseq_order.order_trans)

lemma subseq_subset: "subseq xs ys \<Longrightarrow> set xs \<subseteq> set ys"
  by (auto dest: list_emb_set)

lemma subseq_distinct: "subseq xs ys \<Longrightarrow> distinct ys \<Longrightarrow> distinct xs"
  by (induction rule: list_emb.induct) (auto dest: subseq_subset)

lemma fewer_listenersD:
  assumes "fewer_listeners sg sg'"
  shows "signal_callees d sg' \<subseteq> signal_callees d sg" "linked_once sg \<Longrightarrow> linked_once sg'"
    "length (emit_list sg') \<le> length (emit_list sg)" "set (emit_list sg') \<subseteq> set (emit_list sg)"
    "distinct (emit_list sg) \<Longrightarrow> distinct (emit_list sg')"
proof -
  have s: "subseq (listener_list sg') (listener_list sg)" "subseq (emit_list sg') (emit_list sg)"
    using assms by (simp_all add: fewer_listeners_def)
  have all: "subseq (listener_list sg' @ emit_list sg') (listener_list sg @ emit_list sg)"
    using s by (rule list_emb_append_mono)
  show "signal_callees d sg' \<subseteq> signal_callees d sg"
    using subseq_subset [OF all] by (auto simp: signal_callees_def)
  show "linked_once sg \<Longrightarrow> linked_once sg'"
    using subseq_distinct [OF all] by (simp add: linked_once_def)
  show "length (emit_list sg') \<le> length (emit_list sg)" using s(2) by (rule list_emb_length)
  show "set (emit_list sg') \<subseteq> set (emit_list sg)" using s(2) by (rule subseq_subset)
  show "distinct (emit_list sg) \<Longrightarrow> distinct (emit_list sg')" using s(2) by (rule subseq_distinct)
qed

lemma fewer_callees_refl [simp]: "fewer_callees X s s"
  by (simp add: fewer_callees_def)

lemma fewer_callees_trans:
  assumes "fewer_callees X s t" "fewer_callees X t u"
  shows "fewer_callees X s u"
  unfolding fewer_callees_def
proof (intro allI impI)
  fix p r'' assume p: "p \<notin> X" "resources u p = Some r''"
  obtain r' where r': "resources t p = Some r'" "rclient r'' = rclient r'" "rdestroy r'' = rdestroy r'"
    "deprecated_destroy_signal r'' = deprecated_destroy_signal r'" "fewer_listeners (rdestroy_signal r') (rdestroy_signal r'')"
    using assms(2) p unfolding fewer_callees_def by blast
  obtain r where r: "resources s p = Some r" "rclient r' = rclient r" "rdestroy r' = rdestroy r"
    "deprecated_destroy_signal r' = deprecated_destroy_signal r" "fewer_listeners (rdestroy_signal r) (rdestroy_signal r')"
    using assms(1) p(1) r'(1) unfolding fewer_callees_def by blast
  from r r' fewer_listeners_trans [OF r(5) r'(5)] show "\<exists>r. resources s p = Some r \<and>
     rclient r'' = rclient r \<and> rdestroy r'' = rdestroy r \<and>
     deprecated_destroy_signal r'' = deprecated_destroy_signal r \<and> fewer_listeners (rdestroy_signal r) (rdestroy_signal r'')"
    by simp
qed

lemma fewer_callees_mono: "fewer_callees X s t \<Longrightarrow> X \<subseteq> Y \<Longrightarrow> fewer_callees Y s t"
  unfolding fewer_callees_def by blast

lemma fewer_callees_linked:
  assumes "fewer_callees {} s t" "listeners_linked ca s"
  shows "listeners_linked ca t" "client_callees ca t \<subseteq> client_callees ca s"
proof -
  show "listeners_linked ca t"
    using assms unfolding fewer_callees_def listeners_linked_def by (metis empty_iff fewer_listenersD(2))
  show "client_callees ca t \<subseteq> client_callees ca s"
  proof
    fix x assume "x \<in> client_callees ca t"
    then obtain p r' where x: "resources t p = Some r'" "rclient r' = ca" "x \<in> resource_callees p r'"
      by (auto simp: client_callees_def)
    then obtain r where r: "resources s p = Some r" "rclient r = ca" "rdestroy r' = rdestroy r"
      "fewer_listeners (rdestroy_signal r) (rdestroy_signal r')"
      using assms(1) unfolding fewer_callees_def by (metis empty_iff)
    have "x \<in> resource_callees p r"
      using x(3) r(3) fewer_listenersD(1) [OF r(4), of p] by (auto simp: resource_callees_def)
    with r show "x \<in> client_callees ca s" by (auto simp: client_callees_def)
  qed
qed

section \<open>Notifying the listeners of a destruction\<close>

lemma user_set_signal [simp]: "user (set_signal ref sg s) = user s"
  by (simp add: set_signal_def upd_display_def split: signal_ref.splits)

lemma fewer_callees_set_signal: "fewer_callees {p. ref = Resource_destroy p} s (set_signal ref sg s)"
  by (auto simp: fewer_callees_def set_signal_def upd_display_def split: signal_ref.splits if_splits)

lemma no_new_callees_signal:
  assumes "same_structs s t" "no_new_callees s t" "signal_of ref s = Some sg"
    and "ref = Client_destroy x \<or> ref = Resource_destroy x"
  shows "\<exists>sg'. signal_of ref t = Some sg' \<and> fewer_listeners sg sg'"
  using assms(4)
proof
  assume ref: "ref = Client_destroy x"
  then obtain c where c: "clients s x = Some c" "cdestroy_signal c = sg" using assms(3) by (auto simp: signal_of_def)
  obtain c' where c': "clients t x = Some c'" by (rule same_structs_client [OF assms(1) c(1)])
  with assms(2) c show ?thesis unfolding no_new_callees_def by (fastforce simp: signal_of_def ref)
next
  assume ref: "ref = Resource_destroy x"
  then obtain r where r: "resources s x = Some r" "rdestroy_signal r = sg" using assms(3) by (auto simp: signal_of_def)
  obtain r' where r': "resources t x = Some r'" by (rule same_structs_resource [OF assms(1) r(1)])
  with assms(2) r show ?thesis unfolding no_new_callees_def fewer_callees_def by (fastforce simp: signal_of_def ref)
qed

lemma emit_loop_returns:
  assumes E: "env_ok E" "callees_return E J" and ref: "ref = Client_destroy x \<or> ref = Resource_destroy x"
    and "signal_of ref s = Some sg" "distinct (emit_list sg)" "\<forall>l \<in> set (emit_list sg). Listener l d \<notin> Q" "J (user s) (Q \<union> (\<lambda>l. Listener l d) ` set (emit_list sg))"
  shows "\<exists>s'. priv_emit_loop (signal_of ref) (set_signal ref) (\<lambda>l. notify E l d) s = Some s' \<and>
    J (user s') Q \<and> fewer_callees {p. ref = Resource_destroy p} s s'"
  using assms(4-)
proof (induction "length (emit_list sg)" arbitrary: s sg rule: less_induct)
  case less
  show ?case
  proof (cases "emit_list sg")
    case Nil
    with less.prems show ?thesis by (subst priv_emit_loop.simps) simp
  next
    case (Cons l ls)
    define sg1 where "sg1 = \<lparr>listener_list = l # listener_list sg, emit_list = ls\<rparr>"
    let ?s = "set_signal ref sg1 s" and ?P = "Q \<union> (\<lambda>l. Listener l d) ` set (l # ls)"
    have g: "signal_of ref ?s = Some sg1" using sig.get_put [of ref s sg1] less.prems(1) by simp
    have "J (user ?s) ?P" using less.prems(4) Cons by simp
    from callees_returnD(2) [OF E(2) this, of l d] obtain t where
      t: "notify E l d ?s = Some t" "J (user t) (?P - {Listener l d})" "no_new_callees ?s t" by auto
    have "same_structs ?s t" using E(1) t(1) by (auto simp: env_ok_def)
    from no_new_callees_signal [OF this t(3) g ref] obtain sg' where
      sg': "signal_of ref t = Some sg'" "fewer_listeners sg1 sg'" by blast
    note fw = fewer_listenersD(3-5) [OF sg'(2)]
    have "Q \<union> (\<lambda>l. Listener l d) ` set (emit_list sg') \<subseteq> ?P - {Listener l d}"
      using fw(2) less.prems(2,3) Cons by (auto simp: sg1_def)
    from callees_returnD(1) [OF E(2) t(2) this] have "J (user t) (Q \<union> (\<lambda>l. Listener l d) ` set (emit_list sg'))" .
    with less.hyps [of sg' t] fw sg'(1) less.prems(2,3) Cons obtain u where
      u: "priv_emit_loop (signal_of ref) (set_signal ref) (\<lambda>l. notify E l d) t = Some u" "J (user u) Q"
      "fewer_callees {p. ref = Resource_destroy p} t u" by (auto simp: sg1_def)
    have "fewer_callees {p. ref = Resource_destroy p} s t"
      using fewer_callees_trans [OF fewer_callees_set_signal [of ref s sg1]] t(3) fewer_callees_mono
      unfolding no_new_callees_def by blast
    from fewer_callees_trans [OF this u(3)] t(1) u(1,2) less.prems(1) Cons show ?thesis
      by (subst priv_emit_loop.simps) (simp add: sg1_def)
  qed
qed

lemma emit_returns:
  assumes E: "env_ok E" "callees_return E J" and ref: "ref = Client_destroy x \<or> ref = Resource_destroy x"
    and s: "signal_of ref s = Some sg" "linked_once sg" "J (user s) P" "signal_callees d sg \<subseteq> P"
  shows "\<exists>s'. emit E ref d s = Some s' \<and> J (user s') (P - signal_callees d sg) \<and>
    fewer_callees {p. ref = Resource_destroy p} s s'"
proof -
  let ?Q = "P - signal_callees d sg"
  define sg1 where "sg1 = \<lparr>listener_list = [], emit_list = listener_list sg @ emit_list sg\<rparr>"
  let ?s = "set_signal ref sg1 s"
  have g: "signal_of ref ?s = Some sg1" using sig.get_put [of ref s sg1] s(1) by simp
  have "?Q \<union> (\<lambda>l. Listener l d) ` set (emit_list sg1) \<subseteq> P" using s(4) by (auto simp: sg1_def signal_callees_def)
  from callees_returnD(1) [OF E(2) s(3) this] have j: "J (user ?s) (?Q \<union> (\<lambda>l. Listener l d) ` set (emit_list sg1))" by simp
  have "distinct (emit_list sg1)" "\<forall>l \<in> set (emit_list sg1). Listener l d \<notin> ?Q"
    using s(2) by (auto simp: sg1_def linked_once_def signal_callees_def)
  from emit_loop_returns [OF E ref g this j] obtain s' where
    s': "priv_emit_loop (signal_of ref) (set_signal ref) (\<lambda>l. notify E l d) ?s = Some s'" "J (user s') ?Q"
    "fewer_callees {p. ref = Resource_destroy p} ?s s'" by auto
  from fewer_callees_trans [OF fewer_callees_set_signal [of ref s sg1] s'(3)] s'(1,2) s(1) show ?thesis
    by (simp add: emit_def wl_priv_signal_emit_def sg1_def)
qed

text \<open>\<open>armed\<close>: what the rest of the destruction may call can be called.\<close>

definition armed :: "('u \<Rightarrow> callee set \<Rightarrow> bool) \<Rightarrow> u64 \<Rightarrow> 'u server \<Rightarrow> bool" where
  "armed J ca s \<longleftrightarrow> listeners_linked ca s \<and> J (user s) (client_callees ca s)"

lemma free_fewer_callees:
  assumes "fewer_callees {p} s t"
  shows "fewer_callees {} s (free_resource p t)"
    "client_callees ca (free_resource p t) \<inter> (range (\<lambda>l. Listener l p) \<union> range (\<lambda>k. Destructor k p)) = {}"
proof -
  show "fewer_callees {} s (free_resource p t)"
    using assms by (auto simp: fewer_callees_def free_resource_def)
  have "x \<notin> range (\<lambda>l. Listener l p) \<union> range (\<lambda>k. Destructor k p)" if "x \<in> resource_callees q r" "q \<noteq> p" for x q r
    using that by (auto simp: resource_callees_def signal_callees_def split: wl_destructor.splits)
  then show "client_callees ca (free_resource p t) \<inter> (range (\<lambda>l. Listener l p) \<union> range (\<lambda>k. Destructor k p)) = {}"
    by (fastforce simp: client_callees_def free_resource_def split: if_splits)
qed

lemma destroy_resource_returns:
  assumes E: "env_ok E" "callees_return E J" and s: "armed J ca s"
    and p: "resources s p = Some r" "rclient r = ca" "clients s ca = Some c" "\<forall>i. wl_map_lookup_flags (objects c) i = Some 0"
  shows "\<exists>s'. destroy_resource E p 0 s = Some s' \<and> armed J ca s'"
proof -
  let ?P = "client_callees ca s" and ?L = "signal_callees p (rdestroy_signal r)"
  have l: "deprecated_destroy_signal r = []" "linked_once (rdestroy_signal r)" "J (user s) ?P"
    using s p(1,2) by (auto simp: armed_def listeners_linked_def)
  have sub: "resource_callees p r \<subseteq> ?P" using p(1,2) by (auto simp: client_callees_def)
  have old: "wl_signal_emit (\<lambda>s. map_option deprecated_destroy_signal (resources s p)) (\<lambda>l. notify E l p) s = Some s"
    by (rule signal_emit_no_listener) (simp add: p l)
  have "signal_of (Resource_destroy p) s = Some (rdestroy_signal r)" by (simp add: signal_of_def p)
  from emit_returns [OF E disjI2 [OF refl] this l(2,3), of p] sub obtain s1 where
    s1: "emit E (Resource_destroy p) p s = Some s1" "J (user s1) (?P - ?L)" "fewer_callees {p} s s1"
    by (auto simp: resource_callees_def)
  note same = emit_same [OF E(1) s1(1)]
  obtain r1 where r1: "resources s1 p = Some r1" "rdestroy r1 = rdestroy r" "rclient r1 = ca"
    using same_structs_resource [OF same p(1)] p(2) by metis
  obtain c1 where c1: "clients s1 ca = Some c1" by (rule same_structs_client [OF same p(3)])
  have "\<exists>s2. run_destructor E p s1 = Some s2 \<and> J (user s2) (?P - ?L - range (\<lambda>k. Destructor k p)) \<and> fewer_callees {p} s1 s2"
  proof (cases "rdestroy r")
    case (Destroy k)
    then have "Destructor k p \<in> ?P - ?L" using sub by (auto simp: resource_callees_def signal_callees_def)
    from callees_returnD(3) [OF E(2) s1(2) this] obtain s2 where
      s2: "destructor E k p s1 = Some s2" "J (user s2) (?P - ?L - {Destructor k p})" "no_new_callees s1 s2" by blast
    moreover have "J (user s2) (?P - ?L - range (\<lambda>k. Destructor k p))" by (rule callees_returnD(1) [OF E(2) s2(2)]) auto
    ultimately show ?thesis
      using r1 Destroy fewer_callees_mono [of "{}" s1 s2 "{p}"] by (simp add: run_destructor_def no_new_callees_def)
  qed (use r1 c1 callees_returnD(1) [OF E(2) s1(2)] in \<open>auto simp: run_destructor_def unbind_resource_def
      destroy_client_display_resource_def upd_client_def upd_display_def fewer_callees_def\<close>)
  then obtain s2 where s2: "run_destructor E p s1 = Some s2" "J (user s2) (?P - ?L - range (\<lambda>k. Destructor k p))"
    "fewer_callees {p} s1 s2" by blast
  note fw = free_fewer_callees [OF fewer_callees_trans [OF s1(3) s2(3)]]
  note lk = fewer_callees_linked [OF fw(1), of ca]
  have "client_callees ca (free_resource p s2) \<subseteq> ?P - ?L - range (\<lambda>k. Destructor k p)"
    using lk(2) fw(2) [of ca] s by (auto simp: armed_def signal_callees_def)
  from callees_returnD(1) [OF E(2) s2(2) this] lk(1) s have "armed J ca (free_resource p s2)"
    by (simp add: armed_def free_resource_def)
  with old s1(1) s2(1) p show ?thesis by (simp add: destroy_resource_def resource_is_deprecated_def)
qed

section \<open>Nothing stops the destruction\<close>

lemma destroy_entry_returns:
  assumes E: "env_ok E" "callees_return E J" and t: "tearing ca m D s" "armed J ca s"
    and m: "map_ok m xs" "\<forall>i. wl_map_lookup_flags m i = Some 0"
    and e: "k < cell_count (entries_of cs m)" "(cs, k) \<notin> D" "cell_get (entries_of cs m) k = Some e"
  shows "\<exists>s'. destroy_entry E e s = Some s' \<and> armed J ca s'"
proof (cases "e \<noteq> 0 \<and> \<not> map_entry_is_free e")
  case False
  with t(2) show ?thesis by (auto simp: destroy_entry_def)
next
  case True
  let ?p = "map_entry_get_data e"
  obtain i where i: "slot i = (cs, k)" "wl_map_lookup m i = Some ?p" "?p \<noteq> 0" "map_entry_get_flags e = 0"
    by (rule table_entry [OF m e(1)]) (use e(3) True that in auto)
  obtain r where r: "resources s ?p = Some r" "rclient r = ca"
    using tearingD(5) [OF t(1) i(2,3)] i(1) e(2) by auto
  obtain c where c: "clients s ca = Some c" "objects c = m" using tearingD(1) [OF t(1)] by blast
  from destroy_resource_returns [OF E t(2) r c(1)] c(2) m(2) True i(4) show ?thesis by (auto simp: destroy_entry_def)
qed

lemma destroy_entries_returns:
  assumes E: "env_ok E" "callees_return E J" and m: "map_ok m xs" "\<forall>i. wl_map_lookup_flags m i = Some 0"
    and "tearing ca m D s" "armed J ca s" "k + n = cell_count (entries_of cs m)" "\<forall>j \<ge> k. (cs, j) \<notin> D"
  shows "\<exists>s'. destroy_entries E ca cs (aalloc (entries_of cs m)) k n s = Some s' \<and> armed J ca s'"
  using assms(5-)
proof (induction n arbitrary: k D s)
  case 0
  then show ?case by simp
next
  case (Suc n)
  obtain c where c: "clients s ca = Some c" "objects c = m" using tearingD(1) [OF Suc.prems(1)] by blast
  have k: "k < cell_count (entries_of cs m)" "(cs, k) \<notin> D" using Suc.prems(3,4) by auto
  obtain e where e: "cell_get (entries_of cs m) k = Some e" using table_entry [OF m k(1)] by metis
  obtain s1 where s1: "destroy_entry E e s = Some s1" "armed J ca s1"
    using destroy_entry_returns [OF E Suc.prems(1,2) m k e] by blast
  have "\<exists>s'. destroy_entries E ca cs (aalloc (entries_of cs m)) (Suc k) n s1 = Some s' \<and> armed J ca s'"
    using destroy_entry_ok(1) [OF E(1) Suc.prems(1) m k e s1(1)] s1(2) Suc.prems(3,4) by (intro Suc.IH) auto
  with s1(1) show ?case by (simp only: destroy_entries_step [OF c] e Option.bind.simps)
qed

lemma destroy_table_returns:
  assumes E: "env_ok E" "callees_return E J" and m: "map_ok m xs" "\<forall>i. wl_map_lookup_flags m i = Some 0"
    and t: "tearing ca m D s" "armed J ca s" "\<forall>j. (cs, j) \<notin> D"
  shows "\<exists>s'. destroy_table E ca cs s = Some s' \<and> armed J ca s'"
proof -
  obtain c where "clients s ca = Some c" "objects c = m" using tearingD(1) [OF t(1)] by blast
  with destroy_entries_returns [OF E m t(1,2), of 0 "cell_count (entries_of cs m)" cs] t(3) show ?thesis
    by (simp add: destroy_table_def Let_def)
qed

lemma client_destroy_returns:
  assumes E: "env_ok E" "callees_return E J" and s: "server_ok s" "clients s ca = Some c"
    and q: "listeners_linked ca s" "linked_once (cdestroy_signal c)"
      "client_callees ca s \<inter> signal_callees ca (cdestroy_signal c) = {}"
      "J (user s) (client_callees ca s \<union> signal_callees ca (cdestroy_signal c))"
    and fl: "wl_connection_flush (connection c) (sockets s (cfd (connection c))) \<noteq> None"
  shows "\<exists>s'. wl_client_destroy E ca s = Some s'"
proof -
  let ?fd = "cfd (connection c)"
  have cok: "conn_ok (connection c)" "\<forall>i. wl_map_lookup_flags (objects c) i = Some 0"
    using server_okD(1) [OF s] by (auto simp: client_ok_def)
  obtain xs where xs: "map_ok (objects c) xs" using server_okD(1) [OF s] by (auto simp: client_ok_def)
  have "signal_of (Client_destroy ca) s = Some (cdestroy_signal c)" by (simp add: signal_of_def s(2))
  note e = emit_returns [OF E disjI1 [OF refl] this q(2,4) Un_upper2]
  have "{p. Client_destroy ca = Resource_destroy p} = {}" by simp
  from e [unfolded this] obtain s1 where
    s1: "emit E (Client_destroy ca) ca s = Some s1" "fewer_callees {} s s1"
    "J (user s1) (client_callees ca s \<union> signal_callees ca (cdestroy_signal c) - signal_callees ca (cdestroy_signal c))"
    by (elim exE conjE) (rule that)
  note lk = fewer_callees_linked [OF s1(2), of ca] and same = emit_same [OF E(1) s1(1)]
  have "client_callees ca s1 \<subseteq> client_callees ca s \<union> signal_callees ca (cdestroy_signal c) - signal_callees ca (cdestroy_signal c)"
    using lk(2) [OF q(1)] q(3) by auto
  from callees_returnD(1) [OF E(2) s1(3) this] lk(1) [OF q(1)] have a1: "armed J ca s1" by (simp add: armed_def)
  obtain c1 where c1: "clients s1 ca = Some c1" "connection c1 = connection c" "objects c1 = objects c"
    by (rule same_structs_client [OF same s(2)]) (rule that)
  have sock: "sockets s1 = sockets s" using same by (simp add: same_structs_def)
  obtain conn w ret where f: "wl_connection_flush (connection c) (sockets s ?fd) = Some (conn, w, ret)" using fl by auto
  define s2 where "s2 = s1\<lparr>sockets := (sockets s)(?fd := w), clients := (clients s1)(ca \<mapsto> c1\<lparr>connection := conn\<rparr>)\<rparr>"
  have fr: "wl_client_flush ca s1 = Some (ret, s2)"
    using f c1 sock by (simp add: wl_client_flush_def upd_client_def upd_socket_def s2_def)
  have ok2: "server_ok s2"
    unfolding s2_def by (rule server_ok_connection [OF server_ok_same [OF s(1) same] c1(1) flush_keeps_output(1) [OF cok(1) f]])
  have t2: "tearing ca (objects c) {} s2"
    using tearing_start [OF ok2, of ca "c1\<lparr>connection := conn\<rparr>"] c1(3) by (simp add: s2_def)
  have a2: "armed J ca s2" using a1 by (simp add: armed_def listeners_linked_def client_callees_def s2_def)
  obtain s3 where s3: "destroy_table E ca True s2 = Some s3" "armed J ca s3"
    using destroy_table_returns [OF E xs cok(2) t2 a2] by auto
  note t3 = destroy_table_ok [OF E(1) xs cok(2) t2 _ s3(1)]
  obtain s4 where s4: "destroy_table E ca False s3 = Some s4"
    using destroy_table_returns [OF E xs cok(2) _ s3(2), of "{True} \<times> {0..<cell_count (entries_of True (objects c))}"] t3
    by auto
  have "tearing ca (objects c) ({True} \<times> {0..<cell_count (entries_of True (objects c))} \<union>
      {False} \<times> {0..<cell_count (entries_of False (objects c))}) s4 \<and> others_kept ca s3 s4"
    by (rule destroy_table_ok [OF E(1) xs cok(2) _ _ s4]) (use t3 in auto)
  then obtain c4 where "clients s4 ca = Some c4" using tearingD(1) by blast
  with s1(1) fr s3(1) s4 show ?thesis
    by (cases "wl_connection_destroy (connection c4) (sockets s4 (cfd (connection c4)))")
      (simp add: wl_client_destroy_def Let_def)
qed

text \<open>
  C9: Destroying a client returns, whatever destroy listeners and destructors the compositor has put on the
  client and on its resources, provided these return, add no listener and change no structure of
  the library, and the last flush returns. Afterwards nothing of the client is left: no structure,
  no resource, no place in a list, and its socket and every queued descriptor are closed once.
  Other clients and their resources are untouched and the server is in order.
\<close>

theorem client_destroyed:
  assumes "env_ok E" "callees_return E J" "server_ok s" "clients s ca = Some c"
    and "listeners_linked ca s" "linked_once (cdestroy_signal c)"
    and "client_callees ca s \<inter> signal_callees ca (cdestroy_signal c) = {}"
    and "J (user s) (client_callees ca s \<union> signal_callees ca (cdestroy_signal c))"
    and "wl_connection_flush (connection c) (sockets s (cfd (connection c))) \<noteq> None"
  shows "\<exists>s'. wl_client_destroy E ca s = Some s' \<and> server_ok s' \<and> client_gone ca c s s'"
  using client_destroy_returns [OF assms] client_destroy_ok [OF assms(1,3,4)] by blast

lemma demo_client_callees:
  assumes "connected demo_env 9 (empty_server ()) ca c r (s :: unit server)"
  shows "callees_return (demo_env :: unit senv) (\<lambda>_ _. True)" "listeners_linked ca s" "cdestroy_signal c = wl_priv_signal_init"
    "wl_connection_flush (connection c) (sockets s (cfd (connection c))) \<noteq> None"
proof -
  have c: "connection c = new_connection 9" "quiet_signals c r" "resources s = [display_resource c \<mapsto> r]"
    using assms by (simp_all add: connected_def)
  show "callees_return (demo_env :: unit senv) (\<lambda>_ _. True)"
    by (simp add: callees_return_def no_new_callees_def demo_env_def)
  show "listeners_linked ca s"
    using c(2) by (auto simp: listeners_linked_def quiet_signals_def linked_once_def wl_priv_signal_init_def c(3) split: if_splits)
  show "cdestroy_signal c = wl_priv_signal_init" using c(2) by (simp add: quiet_signals_def)
  show "wl_connection_flush (connection c) (sockets s (cfd (connection c))) \<noteq> None"
    by (simp add: c(1) new_connection_def wl_connection_flush_def)
qed

text \<open>A client connects, the compositor puts a destroy listener on its first resource, the client leaves.\<close>

theorem client_destroyed_witness:
  "\<exists>ca s s1 s' p. wl_client_create demo_env 9 True (Some (1, 2, 3)) 8 (empty_server ()) = Some (ca, s) \<and>
    wl_resource_add_destroy_listener p 77 s = Some s1 \<and> Listener 77 p \<in> client_callees ca s1 \<and>
    wl_client_destroy demo_env ca s1 = Some s' \<and> clients s' ca = None \<and> closed (sockets s' 9) = [9]"
proof -
  obtain ca c r and s :: "unit server" where
    s: "wl_client_create demo_env 9 True (Some (1, 2, 3)) 8 (empty_server ()) = Some (ca, s)"
    "connected demo_env 9 (empty_server ()) ca c r s"
    by (rule demo_connected) (rule that)
  have c: "clients s ca = Some c" "server_ok s" "connection c = new_connection 9" "sockets s = (\<lambda>_. quiet)"
    "resources s = [display_resource c \<mapsto> r]" "quiet_signals c r"
    using s(2) by (simp_all add: connected_def)
  note q = demo_client_callees [OF s(2)]
  let ?p = "display_resource c"
  have p: "rid r \<noteq> 0 \<and> rclient r = ca" "resource_is_deprecated ?p s = Some False"
    using server_okD(1) [OF c(2,1)] server_okD(2) [OF c(2), of ?p r] c(1,5)
    by (auto simp: client_ok_def resource_ok_def display_resource_ok_def resource_is_deprecated_def)
  define s1 where "s1 = s\<lparr>resources := [?p \<mapsto> rdestroy_signal_update (\<lambda>sg. wl_priv_signal_add sg 77) r]\<rparr>"
  have add: "wl_resource_add_destroy_listener ?p 77 s = Some s1"
    using p(2) c(5) by (simp add: wl_resource_add_destroy_listener_def upd_resource_def s1_def)
  have "same_structs s s1" by (simp add: same_structs_def s1_def c(5) resource_view_def)
  note ok = server_ok_same [OF c(2) this]
  have c1: "clients s1 ca = Some c" using c(1) by (simp add: s1_def)
  have l: "listeners_linked ca s1" "client_callees ca s1 \<inter> signal_callees ca (cdestroy_signal c) = {}"
    "linked_once (cdestroy_signal c)" "Listener 77 ?p \<in> client_callees ca s1"
    using c(6) p(1) by (auto simp: listeners_linked_def s1_def linked_once_def quiet_signals_def signal_callees_def
        wl_priv_signal_init_def wl_priv_signal_add_def client_callees_def resource_callees_def)
  have "wl_connection_flush (connection c) (sockets s1 (cfd (connection c))) \<noteq> None" using q(4) by (simp add: s1_def)
  from client_destroyed [OF demo_env_ok q(1) ok c1 l(1,3,2) TrueI this] obtain s' where
    s': "wl_client_destroy demo_env ca s1 = Some s'" "client_gone ca c s1 s'" by blast
  have "closed (sockets s' 9) = [9]"
    using s'(2) by (simp add: client_gone_def c(3,4) s1_def new_connection_def quiet_def)
  with s(1) add l(4) s' show ?thesis by (auto simp: client_gone_def)
qed

end
