(* ===== verification/Wl_Requests.thy ===== *)
theory Wl_Requests
  imports Wl_Teardown
begin

text \<open>
  The dispatch of requests (\<^verbatim>\<open>wl_client_connection_data\<close> in \<^verbatim>\<open>wayland-server.c\<close>) on whatever bytes a
  client sends: what the handler of a request is called with, that the library itself neither
  reads freed memory nor aborts, that the tables stay in order, and that the loop ends.
\<close>

section \<open>What a demarshalled closure holds\<close>

text \<open>Objects are still ids; the id of a new object has its place in the table and names nothing.\<close>

definition received_arg :: "wl_map \<Rightarrow> argument_details \<Rightarrow> wl_argument \<Rightarrow> bool" where
  "received_arg m d a \<longleftrightarrow> (case a of
     Arg_u _ \<Rightarrow> atype d = CHR ''u'' | Arg_i _ \<Rightarrow> atype d = CHR ''i'' | Arg_f _ \<Rightarrow> atype d = CHR ''f''
   | Arg_s _ \<Rightarrow> atype d = CHR ''s'' | Arg_a (Some _) \<Rightarrow> atype d = CHR ''a'' | Arg_h _ \<Rightarrow> atype d = CHR ''h''
   | Arg_n i \<Rightarrow> (i = 0 \<longrightarrow> nullable d) \<and> (atype d = CHR ''o'' \<or> atype d = CHR ''n'' \<and> id_reserved m i)
   | _ \<Rightarrow> False)"

lemma received_arg_mono: "reserved m m' xs \<Longrightarrow> received_arg m d a \<Longrightarrow> received_arg m' d a"
  using id_reserved_mono by (auto simp: received_arg_def split: wl_argument.splits option.splits)

lemma demarshal_arg_received:
  assumes run: "demarshal_arg A n buf i d s = Inr s'" and i: "i < length (dargs s)"
    and A: "allocator_ok A" "\<And>n. A n \<noteq> None" and m: "map_ok (dmap s) xs" "peer_room (dmap s) 1"
  shows "length (dargs s') = length (dargs s) \<and> (\<forall>j. j \<noteq> i \<longrightarrow> dargs s' ! j = dargs s ! j) \<and>
    received_arg (dmap s') d (dargs s' ! i) \<and> reserved (dmap s) (dmap s') xs"
proof -
  have word: "take_word buf s = Inr (v, s\<lparr>dpos := dpos s + 1\<rparr>)" if "take_word buf s = Inr (v, t)" for v t
    using that by (auto simp: take_word_def split: if_splits)
  note refl = reserved_refl [OF m(1)]
  show ?thesis
  proof (cases "atype d = CHR ''n''")
    case False
    with run i show ?thesis
      by (auto simp: demarshal_arg_def Let_def take_word_def received_arg_def refl split: if_splits)
  next
    case True
    then obtain v where v: "take_word buf s = Inr (v, s\<lparr>dpos := dpos s + 1\<rparr>)"
      using run word by (cases "take_word buf s") (auto simp: demarshal_arg_def Let_def split: if_splits)
    obtain m' r where r: "wl_map_reserve_new A (dmap s) v = Some (m', r)" "reserved (dmap s) m' xs"
      "r = (if reservable (dmap s) v then 0 else -1)" "r = 0 \<Longrightarrow> id_reserved m' v"
      by (rule wl_map_reserve_new_ok [OF A m]) (rule that)
    with True v run i show ?thesis
      by (auto simp: demarshal_arg_def Let_def received_arg_def split: if_splits)
  qed
qed

lemma demarshal_args_received:
  assumes "efold (\<lambda>(j, d). demarshal_arg A n buf j d) (enumerate i ds) s = Inr s'"
    and "i + length ds \<le> length (dargs s)"
    and A: "allocator_ok A" "\<And>n. A n \<noteq> None" and "map_ok (dmap s) xs" "peer_room (dmap s) (length ds)"
  shows "length (dargs s') = length (dargs s) \<and> (\<forall>j < i. dargs s' ! j = dargs s ! j) \<and>
    (\<forall>k < length ds. received_arg (dmap s') (ds ! k) (dargs s' ! (i + k))) \<and>
    map_ok (dmap s') xs \<and> side (dmap s') = side (dmap s) \<and> wl_map_lookup (dmap s') = wl_map_lookup (dmap s) \<and>
    wl_map_lookup_flags (dmap s') = wl_map_lookup_flags (dmap s) \<and>
    (\<forall>d a. received_arg (dmap s) d a \<longrightarrow> received_arg (dmap s') d a)"
  using assms(1,2,5,6)
proof (induction ds arbitrary: i s)
  case Nil
  then show ?case by simp
next
  case (Cons d ds)
  obtain s1 where s1: "demarshal_arg A n buf i d s = Inr s1"
    "efold (\<lambda>(j, d). demarshal_arg A n buf j d) (enumerate (Suc i) ds) s1 = Inr s'"
    using Cons.prems(1) by (auto simp: ebind_eq_Inr)
  have "peer_room (dmap s) 1" using Cons.prems(4) by (simp add: peer_room_def Let_def)
  then have st: "length (dargs s1) = length (dargs s)" "\<forall>j. j \<noteq> i \<longrightarrow> dargs s1 ! j = dargs s ! j"
    "received_arg (dmap s1) d (dargs s1 ! i)" "reserved (dmap s) (dmap s1) xs"
    using demarshal_arg_received [OF s1(1) _ A Cons.prems(3)] Cons.prems(2) by auto
  have m1: "map_ok (dmap s1) xs" "peer_room (dmap s1) (length ds)" "side (dmap s1) = side (dmap s)"
    "wl_map_lookup (dmap s1) = wl_map_lookup (dmap s)" "wl_map_lookup_flags (dmap s1) = wl_map_lookup_flags (dmap s)"
    using st(4) Cons.prems(4) by (auto simp: reserved_def)
  have IH: "length (dargs s') = length (dargs s1)" "\<forall>j < Suc i. dargs s' ! j = dargs s1 ! j"
    "\<forall>k < length ds. received_arg (dmap s') (ds ! k) (dargs s' ! (Suc i + k))"
    "map_ok (dmap s') xs" "side (dmap s') = side (dmap s1)" "wl_map_lookup (dmap s') = wl_map_lookup (dmap s1)"
    "wl_map_lookup_flags (dmap s') = wl_map_lookup_flags (dmap s1)"
    "\<forall>d a. received_arg (dmap s1) d a \<longrightarrow> received_arg (dmap s') d a"
    using Cons.IH [OF s1(2) _ m1(1,2)] Cons.prems(2) st(1) by simp_all
  have "received_arg (dmap s') ((d # ds) ! k) (dargs s' ! (i + k))" if "k < length (d # ds)" for k
    using that IH(2,3,8) st(3) by (cases k) auto
  with IH st m1(3-5) received_arg_mono [OF st(4)] show ?case by simp
qed

text \<open>The closure of a request has an argument for every one of the signature.\<close>

definition closure_received :: "wl_map \<Rightarrow> wl_message \<Rightarrow> wl_closure \<Rightarrow> bool" where
  "closure_received m message cl \<longleftrightarrow> cmessage cl = message \<and> ccount cl = arg_count_for_signature (signature message) \<and>
     ccount cl \<le> length (cargs cl) \<and>
     (\<forall>k < ccount cl. received_arg m (details (signature message) ! k) (cargs cl ! k))"

lemma demarshal_received:
  assumes run: "wl_connection_demarshal mem A c sz m message w = Inr (Some cl, c', m', w')"
    and A: "allocator_ok A" "\<And>n. A n \<noteq> None" and m: "map_ok m xs" "peer_room m WL_CLOSURE_MAX_ARGS"
  shows "closure_received m' message cl"
proof -
  let ?sig = "signature message" and ?buf = "wl_connection_copy c (unat sz)"
  let ?cl = "\<lparr>ccount = arg_count_for_signature ?sig, cmessage = message, copcode = 0,
      csender_id = 0, cargs = replicate WL_CLOSURE_MAX_ARGS Arg_unset\<rparr>"
  obtain n where init: "wl_closure_init mem message (unat sz) None = Inr (wl_closure_clear_fds ?cl, Some n)"
    and cnt: "arg_count_for_signature ?sig \<le> WL_CLOSURE_MAX_ARGS"
    using run by (auto simp: wl_connection_demarshal_def wl_closure_init_def Let_def split: if_splits)
  obtain args where args: "wl_closure_clear_fds ?cl = ?cl\<lparr>cargs := args\<rparr>" "length args = WL_CLOSURE_MAX_ARGS"
    by (rule wl_closure_clear_fds_ok [of ?cl]) (use cnt that in simp_all)
  let ?s = "\<lparr>dargs = args, dpos = 2, dextra = 0, dfds = fds_in c, dmap = m\<rparr>"
  obtain s' where s': "for_args (demarshal_arg A n ?buf) 0 (arg_count_for_signature ?sig) ?sig ?s = Inr s'"
    "cl = ?cl\<lparr>csender_id := load 4 0 ?buf, copcode := load 4 4 ?buf AND 0xffff, cargs := dargs s'\<rparr>" "m' = dmap s'"
    using run init args by (auto simp: wl_connection_demarshal_def Let_def split: if_splits sum.splits fault.splits)
  have "peer_room m (arg_count_for_signature ?sig)" using m(2) cnt by (simp add: peer_room_def Let_def)
  with demarshal_args_received [of A n ?buf 0 "details ?sig" ?s s' xs] s'(1) args(2) cnt A m(1)
  show ?thesis by (simp add: for_args_details closure_received_def s'(2,3))
qed

section \<open>Resolving the objects of a request\<close>

lemma lookup_object_arg_safe:
  assumes a: "received_arg m d (args ! i)" "i < length args" "i < length (types message)"
    and m: "map_ok m xs" "side m = WL_MAP_SERVER_SIDE"
    and heap: "\<forall>v p. wl_map_lookup m v = Some p \<longrightarrow> p \<noteq> 0 \<longrightarrow> objs p \<noteq> None"
  shows "\<exists>args'. outcome (lookup_object_arg objs m message i d args) = Some args' \<and>
    length args' = length args \<and> (\<forall>j. j \<noteq> i \<longrightarrow> args' ! j = args ! j) \<and>
    (atype d \<noteq> CHR ''o'' \<longrightarrow> args' ! i = args ! i) \<and> (atype d = CHR ''o'' \<longrightarrow> (\<exists>p. args' ! i = Arg_o p))"
proof (cases "atype d = CHR ''o''")
  case False
  then show ?thesis by (simp add: lookup_object_arg_def)
next
  case True
  obtain v where v: "args ! i = Arg_n v"
    using a(1) True by (auto simp: received_arg_def split: wl_argument.splits option.splits)
  obtain p where p: "wl_map_lookup m v = Some p"
    using wl_map_lookup_cells(1) [OF table_ok_entries [OF m(1)]] by (cases "slot v") auto
  have z: "wl_object_is_zombie m v = Some False" by (simp add: wl_object_is_zombie_def m(2))
  have "outcome (lookup_object_arg objs m message i d args) \<in> {Some (args[i := Arg_o 0]), Some (args[i := Arg_o p])}"
    using True v p z a(2,3) heap [THEN spec, THEN spec, THEN mp, OF p]
    by (auto simp: lookup_object_arg_def Let_def split: option.splits if_splits)
  then show ?thesis using True a(2) by auto
qed

lemma lookup_objects_safe:
  assumes cl: "closure_received m message cl" "ccount cl \<le> length (types message)"
    and m: "map_ok m xs" "side m = WL_MAP_SERVER_SIDE"
    and heap: "\<forall>v p. wl_map_lookup m v = Some p \<longrightarrow> p \<noteq> 0 \<longrightarrow> objs p \<noteq> None"
  shows "\<exists>args ret. wl_closure_lookup_objects objs cl m = Inr (cl\<lparr>cargs := args\<rparr>, ret) \<and> (ret = 0 \<or> ret = -1) \<and>
    length args = length (cargs cl) \<and>
    (\<forall>k < ccount cl. atype (details (signature message) ! k) \<noteq> CHR ''o'' \<longrightarrow> args ! k = cargs cl ! k)"
proof -
  let ?ds = "details (signature message)"
  have "\<exists>args'. outcome (efold (\<lambda>(j, d). lookup_object_arg objs m message j d) (enumerate i ds) args) = Some args' \<and>
      length args' = length args \<and> (\<forall>j < i. args' ! j = args ! j) \<and>
      (\<forall>k < length ds. atype (ds ! k) \<noteq> CHR ''o'' \<longrightarrow> args' ! (i + k) = args ! (i + k))"
    if "\<forall>k < length ds. received_arg m (ds ! k) (args ! (i + k))" "i + length ds \<le> length args"
      "i + length ds \<le> length (types message)" for i ds args
    using that
  proof (induction ds arbitrary: i args)
    case (Cons d ds)
    have "received_arg m d (args ! i)" using Cons.prems(1) by force
    then obtain a1 where a1: "outcome (lookup_object_arg objs m message i d args) = Some a1" "length a1 = length args"
      "\<forall>j. j \<noteq> i \<longrightarrow> a1 ! j = args ! j" "atype d \<noteq> CHR ''o'' \<longrightarrow> a1 ! i = args ! i"
      using lookup_object_arg_safe [where d = d and args = args and i = i and message = message and objs = objs,
          OF _ _ _ m heap] Cons.prems(2,3) by auto
    show ?case
    proof (cases "lookup_object_arg objs m message i d args")
      case (Inl e)
      then have "outcome (efold (\<lambda>(j, d). lookup_object_arg objs m message j d) (enumerate i (d # ds)) args) = Some a1"
        using a1(1) by simp
      moreover have "a1 ! (i + k) = args ! (i + k)" if "atype ((d # ds) ! k) \<noteq> CHR ''o''" for k
        using a1(3,4) that by (cases k) auto
      ultimately show ?thesis using a1(2,3) by auto
    next
      case (Inr x)
      then have x: "x = a1" using a1(1) by simp
      have "\<forall>k < length ds. received_arg m (ds ! k) (a1 ! (Suc i + k))"
        using Cons.prems(1) a1(3) by fastforce
      then obtain a2 where a2: "outcome (efold (\<lambda>(j, d). lookup_object_arg objs m message j d) (enumerate (Suc i) ds) a1) = Some a2"
        "length a2 = length a1" "\<forall>j < Suc i. a2 ! j = a1 ! j"
        "\<forall>k < length ds. atype (ds ! k) \<noteq> CHR ''o'' \<longrightarrow> a2 ! (Suc i + k) = a1 ! (Suc i + k)"
        using Cons.IH [of a1 "Suc i"] Cons.prems(2,3) a1(2) by auto
      have "a2 ! (i + k) = args ! (i + k)" if "k < length (d # ds)" "atype ((d # ds) ! k) \<noteq> CHR ''o''" for k
        using a1(3,4) a2(3,4) that by (cases k) auto
      with Inr x a1(2,3) a2 show ?thesis by auto
    qed
  qed simp
  from this [of ?ds "cargs cl" 0] obtain args where args:
    "outcome (efold (\<lambda>(j, d). lookup_object_arg objs m message j d) (enumerate 0 ?ds) (cargs cl)) = Some args"
    "length args = length (cargs cl)" "\<forall>k < length ?ds. atype (?ds ! k) \<noteq> CHR ''o'' \<longrightarrow> args ! k = cargs cl ! k"
    using cl by (auto simp: closure_received_def)
  have "cmessage cl = message" "ccount cl = length ?ds" using cl(1) by (simp_all add: closure_received_def)
  with args show ?thesis
    by (auto simp: wl_closure_lookup_objects_def Let_def for_args_details outcome_def split: sum.splits if_splits)
qed

section \<open>One request\<close>

text \<open>The header of the request at the front of the input.\<close>

definition request_word :: "wl_client \<Rightarrow> nat \<Rightarrow> u32" where
  "request_word c k = load 4 k (wl_connection_copy (connection c) 8)"

definition request_object :: "wl_client \<Rightarrow> u32" where
  "request_object c = request_word c 0"

definition request_opcode :: "wl_client \<Rightarrow> u32" where
  "request_opcode c = request_word c 4 AND 0xffff"

definition request_size :: "wl_client \<Rightarrow> u32" where
  "request_size c = drop_bit 16 (request_word c 4)"

text \<open>A client's table and connection are replaced by ones with the same meaning.\<close>

lemma server_ok_client:
  assumes s: "server_ok s" "clients s ca = Some c"
    and c': "conn_ok (connection c')" "map_ok (objects c') xs" "side (objects c') = WL_MAP_SERVER_SIDE"
      "wl_map_lookup (objects c') = wl_map_lookup (objects c)"
      "wl_map_lookup_flags (objects c') = wl_map_lookup_flags (objects c)" "display_resource c' = display_resource c"
    and s': "resources s' = resources s" "clients s' = (clients s)(ca \<mapsto> c')" "display s' = display s"
  shows "server_ok s'"
  unfolding server_ok_def
proof (intro conjI allI impI)
  fix x d assume d: "clients s' x = Some d"
  show "client_ok s' x d"
  proof (cases "x = ca")
    case True
    have "display_resource_ok s' ca"
      using server_okD(1) [OF s] s(2) c'(6) by (auto simp: client_ok_def display_resource_ok_def s')
    with True d c' server_okD(1) [OF s] show ?thesis by (auto simp: client_ok_def s')
  next
    case False
    then have x: "clients s x = Some d" using d s'(2) by simp
    note ok = server_okD(1) [OF s(1) x]
    then have "conn_ok (connection d)" by (simp add: client_ok_def)
    then show ?thesis using s'(1) by (intro client_ok_heap [OF ok x d]) auto
  qed
next
  fix p r assume "resources s' p = Some r"
  then have "resource_ok s p r" using server_okD(2) [OF s(1)] s'(1) by simp
  with s(2) c'(4) show "resource_ok s' p r" by (auto simp: resource_ok_def s')
next
  show "registry_ok s'" using server_okD(3) [OF s(1)] by (simp add: registry_ok_def s')
qed

text \<open>The texts of errors are C strings.\<close>

lemma ascii_no_nul: "0 \<in> set (ascii cs) \<longleftrightarrow> NUL \<in> set cs"
proof -
  have "(of_nat (of_char c) :: byte) = 0 \<longleftrightarrow> c = NUL" for c
  proof -
    have dv: "256 dvd x \<longleftrightarrow> x = 0" if "x < 256" for x :: nat
      using that nat_dvd_not_less [of x 256] by (cases "x = 0") auto
    have "(of_nat (of_char c) :: byte) = 0 \<longleftrightarrow> (of_char c :: nat) = 0"
      using dv [of "of_char c"] by (simp add: word_of_nat_eq_0_iff)
    also have "\<dots> \<longleftrightarrow> c = NUL"
      using of_char_eq_iff [of c NUL, where 'a = nat] by (simp add: NUL_def)
    finally show ?thesis .
  qed
  then show ?thesis by (force simp: ascii_def)
qed

lemma dec_no_nul: "NUL \<notin> set (dec n)"
  using dec_digits [of n] by (auto simp: list_all_iff is_digit_def NUL_def)

lemma show_int_no_nul: "NUL \<notin> set (show_int i)"
  using dec_no_nul by (auto simp: show_int_def NUL_def)

text \<open>What follows the call of the handler.\<close>

definition finish_request :: "u64 \<Rightarrow> 'u server \<times> wl_closure \<Rightarrow> ('u server \<times> int option) option" where
  "finish_request ca = (\<lambda>(s, cl). do {
     s \<leftarrow> wl_closure_release ca cl s;
     c \<leftarrow> clients s ca;
     if cerror c then Some (s, None)
     else Some (s, Some (sint (wl_connection_pending_input (connection c))))
   })"

text \<open>
  A state in which a request is refused or its handler is called: the heap is the one before, the
  client has its output, its tables mean the same and its request has been read.
\<close>

definition during_request :: "u64 \<Rightarrow> wl_client \<Rightarrow> 'u server \<Rightarrow> 'u server \<Rightarrow> wl_client \<Rightarrow> bool" where
  "during_request ca c s t ct \<longleftrightarrow> server_ok t \<and> clients t ca = Some ct \<and> resources t = resources s \<and> user t = user s \<and>
     display t = display s \<and> globals t = globals s \<and>
     display_resource ct = display_resource c \<and> cerror ct = cerror c \<and> out (connection ct) = out (connection c) \<and>
     cfd (connection ct) = cfd (connection c) \<and> wl_map_lookup (objects ct) = wl_map_lookup (objects c)"

lemma during_request_refl:
  "server_ok s \<Longrightarrow> clients s ca = Some c \<Longrightarrow> during_request ca c s s c"
  by (simp add: during_request_def)

text \<open>The closure the handler is called with.\<close>

definition request_args :: "u64 \<Rightarrow> 'u server \<Rightarrow> wl_closure \<Rightarrow> bool" where
  "request_args ca t cl \<longleftrightarrow> ccount cl = arg_count_for_signature (signature (cmessage cl)) \<and> ccount cl \<le> length (cargs cl) \<and>
     (\<forall>k < ccount cl. let d = details (signature (cmessage cl)) ! k; a = cargs cl ! k in
        if atype d = CHR ''o'' then (\<exists>q. a = Arg_o q \<and> (q = 0 \<or> (\<exists>r. resources t q = Some r \<and> rclient r = ca)))
        else received_arg (objects (the (clients t ca))) d a)"

lemma lookup_result:
  assumes cl: "closure_received m message cl" and look: "wl_closure_lookup_objects (object_at t) cl m = Inr (cl', 0)"
    and c: "clients t ca = Some ct" "objects ct = m" and ok: "client_ok t ca ct"
    and same: "cl' = cl\<lparr>cargs := args\<rparr>" "length args = length (cargs cl)"
      "\<forall>k < ccount cl. atype (details (signature message) ! k) \<noteq> CHR ''o'' \<longrightarrow> args ! k = cargs cl ! k"
  shows "request_args ca t cl'"
proof -
  have cm: "cmessage cl = message" "ccount cl = arg_count_for_signature (signature message)" "ccount cl \<le> length (cargs cl)"
    "\<forall>k < ccount cl. received_arg m (details (signature message) ! k) (cargs cl ! k)"
    using cl by (simp_all add: closure_received_def)
  have "\<exists>q. args ! k = Arg_o q \<and> (q = 0 \<or> (\<exists>r. resources t q = Some r \<and> rclient r = ca))"
    if k: "k < ccount cl" "atype (details (signature message) ! k) = CHR ''o''" for k
  proof -
    have "resolved (object_at t) m message (details (signature message) ! k) k (cargs cl ! k) (args ! k)"
      using wl_closure_lookup_objects_ok [OF look, of k] cm(1-3) k(1) same(1) by simp
    then obtain v q where q: "args ! k = Arg_o q" "q = 0 \<or> wl_map_lookup m v = Some q"
      using k(2) by (auto simp: resolved_def split: if_splits)
    then show ?thesis using client_ok_lookup [OF ok, of v q] c(2) by metis
  qed
  with cm same c show ?thesis by (auto simp: request_args_def Let_def)
qed

text \<open>The part of a turn after \<^verbatim>\<open>wl_connection_demarshal\<close>.\<close>

definition after_demarshal ::
    "'u senv \<Rightarrow> u64 \<Rightarrow> wl_client \<Rightarrow> u64 \<Rightarrow> wl_resource \<Rightarrow> wl_message \<Rightarrow> u32 \<Rightarrow>
     wl_closure option \<times> wl_map \<times> os \<times> 'u server \<Rightarrow> ('u server \<times> int option) option" where
  "after_demarshal E ca c p r message opcode = (\<lambda>(res, m, w, s).
     let invalid = wl_resource_post_error E (display_resource c) WL_DISPLAY_ERROR_INVALID_METHOD
           (ascii (''invalid arguments for '' @ iname (ispec (rinterface r)) @ ''@'' @ dec (unat (rid r)) @ ''.'' @ msg_name message)) s;
         leave = (\<lambda>r. Option.bind r (\<lambda>s. Some (s, None)))
     in case res of
          None \<Rightarrow> if errno w = ENOMEM then leave (wl_resource_post_no_memory E p s) else leave invalid
        | Some cl \<Rightarrow>
            (case wl_closure_lookup_objects (object_at s) cl m of
               Inl _ \<Rightarrow> None
             | Inr (cl, ret) \<Rightarrow>
                 if ret < 0 then do { s \<leftarrow> invalid; leave (wl_closure_release ca cl s) }
                 else Option.bind (deliver E ca p r 0 opcode cl (log_closure p cl False s)) (finish_request ca)))"

definition demarshalled :: "u64 \<Rightarrow> wl_client \<Rightarrow> wl_connection \<Rightarrow> wl_map \<Rightarrow> os \<Rightarrow> 'u server \<Rightarrow> 'u server" where
  "demarshalled ca c conn m w s = s\<lparr>ticks := ticks s + 1, sockets := (sockets s)(cfd (connection c) := w),
     clients := (clients s)(ca \<mapsto> c\<lparr>connection := conn, objects := m\<rparr>)\<rparr>"

lemma dispatch_one_demarshal:
  assumes "clients s ca = Some c" "\<not> len < int (unat (request_size c))"
    and "wl_map_lookup (objects c) (request_object c) = Some p" "p \<noteq> 0"
    and "wl_map_lookup_flags (objects c) (request_object c) = Some 0" "resources s p = Some r"
    and "nth_message (methods (rinterface r)) (request_opcode c) = Some message"
    and "\<not> (rversion r > 0 \<and> rversion r < wl_message_get_since message)"
  shows "dispatch_one E ca len s =
    (case wl_connection_demarshal (malloc E s \<noteq> 0) (blocks E) (connection c) (request_size c) (objects c) message
            (sockets s (cfd (connection c))) of
       Inl _ \<Rightarrow> None
     | Inr (res, conn, m, w) \<Rightarrow>
         after_demarshal E ca c p r message (request_opcode c) (res, m, w, demarshalled ca c conn m w s))"
proof -
  note def = dispatch_one_def [of E ca len s, unfolded assms(1) Option.bind.simps(2) Let_def, folded request_word_def,
      folded request_object_def request_opcode_def request_size_def]
  show ?thesis
    unfolding def using assms
    by (cases "rversion r > 0"; cases "rversion r < wl_message_get_since message")
      (simp_all add: do_malloc_def upd_client_def upd_socket_def after_demarshal_def demarshalled_def finish_request_def
        Let_def split: sum.split prod.split option.split)
qed

lemma after_demarshal_cases:
  assumes dur: "during_request ca c s t ct" and rec: "\<And>cl. res = Some cl \<Longrightarrow> closure_received m message cl"
    and m: "objects ct = m" "map_ok m xs" "side m = WL_MAP_SERVER_SIDE" and r: "resources s p = Some r" "rclient r = ca"
    and ty: "arg_count_for_signature (signature message) \<le> length (types message)"
    and name: "NUL \<notin> set ((iname (ispec (rinterface r)) @ ''@'' @ dec (unat (rid r))) @ ''.'' @ msg_name message)"
  obtains (refused) code msg fin where "0 \<notin> set msg"
      "after_demarshal E ca c p r message opcode (res, m, w, t) =
         Option.bind (wl_resource_post_error E (display_resource c) code msg t)
         (\<lambda>t. Option.bind (fin t) (\<lambda>t. Some (t, None)))"
      "fin = Some \<or> (\<exists>cl. fin = wl_closure_release ca cl)"
  | (delivered) cl t' where "res \<noteq> None" "during_request ca c s t' ct" "cmessage cl = message" "request_args ca t' cl"
      "after_demarshal E ca c p r message opcode (res, m, w, t) =
         Option.bind (deliver E ca p r 0 opcode cl t') (finish_request ca)"
proof -
  let ?msg = "ascii (''invalid arguments for '' @ iname (ispec (rinterface r)) @ ''@'' @ dec (unat (rid r)) @ ''.'' @ msg_name message)"
  have msg: "0 \<notin> set ?msg" "0 \<notin> set (ascii ''no memory'')" using name by (auto simp: ascii_no_nul NUL_def)
  have t: "server_ok t" "clients t ca = Some ct" "resources t = resources s" "display_resource ct = display_resource c"
    using dur by (simp_all add: during_request_def)
  note tok = server_okD(1) [OF t(1,2)]
  show thesis
  proof (cases res)
    case None
    have "wl_resource_post_no_memory E p t =
        wl_resource_post_error E (display_resource c) WL_DISPLAY_ERROR_NO_MEMORY (ascii ''no memory'') t"
      using t r by (simp add: wl_resource_post_no_memory_def)
    with None msg refused [of "ascii ''no memory''" WL_DISPLAY_ERROR_NO_MEMORY Some]
      refused [of ?msg WL_DISPLAY_ERROR_INVALID_METHOD Some] show thesis
      by (cases "errno w = ENOMEM") (simp_all add: after_demarshal_def Let_def)
  next
    case (Some cl)
    have heap: "\<forall>v p. wl_map_lookup m v = Some p \<longrightarrow> p \<noteq> 0 \<longrightarrow> object_at t p \<noteq> None"
    proof (intro allI impI)
      fix v q assume "wl_map_lookup m v = Some q" "q \<noteq> 0"
      then obtain x where "resources t q = Some x" using client_ok_lookup [OF tok] m(1) by metis
      then show "object_at t q \<noteq> None" by (simp add: object_at_def)
    qed
    have cnt: "ccount cl \<le> length (types message)" using rec [OF Some] ty by (simp add: closure_received_def)
    obtain args ret where look: "wl_closure_lookup_objects (object_at t) cl m = Inr (cl\<lparr>cargs := args\<rparr>, ret)"
      "ret = 0 \<or> ret = -1" "length args = length (cargs cl)"
      "\<forall>k < ccount cl. atype (details (signature message) ! k) \<noteq> CHR ''o'' \<longrightarrow> args ! k = cargs cl ! k"
      using lookup_objects_safe [OF rec [OF Some] cnt m(2,3) heap] by blast
    let ?cl = "cl\<lparr>cargs := args\<rparr>"
    show thesis
    proof (cases "ret = 0")
      case False
      with look Some msg(1) show thesis
        by (intro refused [of ?msg WL_DISPLAY_ERROR_INVALID_METHOD "wl_closure_release ca ?cl"])
          (auto simp: after_demarshal_def Let_def)
    next
      case True
      let ?t = "log_closure p ?cl False t"
      have "request_args ca t ?cl"
        by (rule lookup_result [OF rec [OF Some] _ t(2) m(1) tok refl look(3,4)]) (use look(1) True in simp)
      then have "request_args ca ?t ?cl" by (simp add: request_args_def Let_def log_closure_def)
      moreover have "server_ok ?t"
        by (rule server_ok_same [OF t(1)]) (simp add: same_structs_def log_closure_def)
      then have "during_request ca c s ?t ct" using dur by (simp add: during_request_def log_closure_def)
      moreover have "cmessage ?cl = message" using rec [OF Some] by (simp add: closure_received_def)
      ultimately show thesis using look(1) Some True
        by (intro delivered [of ?t ?cl]) (simp_all add: after_demarshal_def Let_def)
    qed
  qed
qed

text \<open>
  A request whose size field is too small for its own header, to an object of the client and with a method that
  exist: nothing refuses it.
\<close>

definition short_request :: "u64 \<Rightarrow> wl_client \<Rightarrow> 'u server \<Rightarrow> bool" where
  "short_request ca c s \<longleftrightarrow> unat (request_size c) < 8 \<and> (\<exists>p r. wl_map_lookup (objects c) (request_object c) = Some p \<and>
     resources s p = Some r \<and> rclient r = ca \<and> nth_message (methods (rinterface r)) (request_opcode c) \<noteq> None)"

lemma dispatch_one_cases:
  assumes E: "env_ok E" and s: "server_ok s" "clients s ca = Some c"
    and room: "peer_room (objects c) WL_CLOSURE_MAX_ARGS"
    and len: "len = int (length (contents (inb (connection c))))"
  obtains (incomplete) "dispatch_one E ca len s = Some (s, None)" "len < int (unat (request_size c))"
  | (short) "short_request ca c s" "dispatch_one E ca len s = None"
  | (refused) t ct code msg fin where "during_request ca c s t ct" "0 \<notin> set msg"
      "dispatch_one E ca len s = Option.bind (wl_resource_post_error E (display_resource c) code msg t)
         (\<lambda>t. Option.bind (fin t) (\<lambda>t. Some (t, None)))"
      "fin = Some \<or> (\<exists>cl. fin = wl_closure_release ca cl)"
  | (delivered) p r message cl t ct where "8 \<le> unat (request_size c)"
      "unat (request_size c) \<le> length (contents (inb (connection c)))" "during_request ca c s t ct" "resources s p = Some r" "rclient r = ca"
      "rid r = request_object c" "nth_message (methods (rinterface r)) (request_opcode c) = Some message"
      "cmessage cl = message" "request_args ca t cl"
      "contents (inb (connection ct)) = drop (unat (request_size c)) (contents (inb (connection c)))"
      "dispatch_one E ca len s = Option.bind (deliver E ca p r 0 (request_opcode c) cl t) (finish_request ca)"
proof (cases "len < int (unat (request_size c))")
  case True
  then have "dispatch_one E ca len s = Some (s, None)"
    by (simp add: dispatch_one_def s(2) request_size_def request_word_def Let_def)
  with True incomplete show thesis by blast
next
  case complete: False
  let ?fd = "cfd (connection c)" and ?sz = "request_size c" and ?op = "request_opcode c"
  note cok = server_okD(1) [OF s(1,2)]
  obtain xs where m: "map_ok (objects c) xs" "side (objects c) = WL_MAP_SERVER_SIDE" "conn_ok (connection c)"
    "\<forall>i. wl_map_lookup_flags (objects c) i = Some 0" using cok by (auto simp: client_ok_def)
  note def = dispatch_one_def [of E ca len s, unfolded s(2) Option.bind.simps(2) Let_def, folded request_word_def,
      folded request_object_def request_opcode_def request_size_def]
  obtain p where p: "wl_map_lookup (objects c) (request_object c) = Some p"
    using wl_map_lookup_cells(1) [OF table_ok_entries [OF m(1)]] by (cases "slot (request_object c)") auto
  show thesis
  proof (cases "p = 0")
    case True
    have "dispatch_one E ca len s = Option.bind (wl_resource_post_error E (display_resource c) WL_DISPLAY_ERROR_INVALID_OBJECT
        (ascii (''invalid object '' @ dec (unat (request_object c)))) s) (\<lambda>t. Option.bind (Some t) (\<lambda>t. Some (t, None)))"
      using def complete p m(4) True by simp
    then show thesis
      by (rule refused [OF during_request_refl [OF s(1,2)], rotated])
        (use dec_no_nul in \<open>auto simp: ascii_no_nul NUL_def\<close>)
  next
    case p0: False
    obtain r where r: "resources s p = Some r" "rid r = request_object c" "rclient r = ca"
      using client_ok_lookup [OF cok p p0] by metis
    have iface: "interface_ok (rinterface r)" using server_okD(2) [OF s(1) r(1)] by (simp add: resource_ok_def)
    let ?target = "iname (ispec (rinterface r)) @ ''@'' @ dec (unat (rid r))"
    have target: "NUL \<notin> set ?target" using iface dec_no_nul by (auto simp: interface_ok_def NUL_def)
    show thesis
    proof (cases "nth_message (methods (rinterface r)) ?op")
      case None
      have "dispatch_one E ca len s = Option.bind (wl_resource_post_error E (display_resource c) WL_DISPLAY_ERROR_INVALID_METHOD
          (ascii (''invalid method '' @ dec (unat ?op) @ '', object '' @ ?target)) s)
          (\<lambda>t. Option.bind (Some t) (\<lambda>t. Some (t, None)))"
        using def complete p m(4) p0 r(1) None by simp
      then show thesis
        by (rule refused [OF during_request_refl [OF s(1,2)], rotated])
          (use target dec_no_nul in \<open>auto simp: ascii_no_nul NUL_def\<close>)
    next
      case (Some message)
      let ?since = "wl_message_get_since message"
      have mes: "NUL \<notin> set (msg_name message)" "arg_count_for_signature (signature message) \<le> length (types message)"
        using iface Some by (auto simp: interface_ok_def nth_message_def split: if_splits)
      show thesis
      proof (cases "rversion r > 0 \<and> rversion r < ?since")
        case True
        have "dispatch_one E ca len s = Option.bind (wl_resource_post_error E (display_resource c) WL_DISPLAY_ERROR_INVALID_METHOD
            (ascii (''invalid method '' @ dec (unat ?op) @ '' (since '' @ show_int (rversion r) @ '' < ''
              @ show_int ?since @ ''), object '' @ ?target)) s) (\<lambda>t. Option.bind (Some t) (\<lambda>t. Some (t, None)))"
          using def complete p m(4) p0 r(1) Some True by simp
        then show thesis
          by (rule refused [OF during_request_refl [OF s(1,2)], rotated])
            (use target dec_no_nul show_int_no_nul in \<open>auto simp: ascii_no_nul NUL_def\<close>)
      next
        case since: False
        let ?dem = "wl_connection_demarshal (malloc E s \<noteq> 0) (blocks E) (connection c) ?sz (objects c) message (sockets s ?fd)"
        note d1 = dispatch_one_demarshal [OF s(2) complete p p0 m(4) [THEN spec] r(1) Some since, of E]
        have A: "allocator_ok (blocks E)" "\<And>n. blocks E n \<noteq> None" using E by (auto simp: env_ok_def)
        show thesis
        proof (cases "unat ?sz < 8 \<and> ?dem = Inl Undefined")
          case True
          then have "short_request ca c s" using p r(1,3) Some by (auto simp: short_request_def)
          with True d1 short show thesis by simp
        next
        case False
        then have sz: "8 \<le> unat ?sz \<or> ?dem \<noteq> Inl Undefined" by auto
        have fit: "unat ?sz \<le> length (contents (inb (connection c)))"
          using complete unfolding len not_less of_nat_le_iff .
        obtain res conn m' w where dem: "?dem = Inr (res, conn, m', w)" "conn_ok conn"
          "contents (inb conn) = drop (unat ?sz) (contents (inb (connection c)))" "map_ok m' xs"
          "wl_map_lookup m' = wl_map_lookup (objects c)" "wl_map_lookup_flags m' = wl_map_lookup_flags (objects c)"
          "side m' = side (objects c)" "out conn = out (connection c)" "cfd conn = ?fd"
          using wl_connection_demarshal_safe [OF m(3) sz fit A m(1) room] by blast
        let ?t = "demarshalled ca c conn m' w s" and ?c = "c\<lparr>connection := conn, objects := m'\<rparr>"
        have "server_ok ?t"
          by (rule server_ok_client [OF s(1,2), of ?c xs]) (use dem m(2) in \<open>simp_all add: demarshalled_def\<close>)
        then have dur: "during_request ca c s ?t ?c"
          using dem by (simp add: during_request_def demarshalled_def)
        have rec: "closure_received m' message cl" if "res = Some cl" for cl
          using demarshal_received [OF _ A m(1) room] dem(1) that by simp
        have run: "dispatch_one E ca len s = after_demarshal E ca c p r message ?op (res, m', w, ?t)" using d1 dem(1) by simp
        show thesis
        proof (rule after_demarshal_cases [OF dur rec _ _ _ r(1,3) mes(2)])
          show "objects ?c = m'" "map_ok m' xs" "side m' = WL_MAP_SERVER_SIDE" "NUL \<notin> set (?target @ ''.'' @ msg_name message)"
            using dem(4,7) m(2) target mes(1) by (simp_all add: NUL_def)
        next
          fix code msg fin assume "0 \<notin> set msg" "fin = Some \<or> (\<exists>cl. fin = wl_closure_release ca cl)"
            "after_demarshal E ca c p r message ?op (res, m', w, ?t) =
              Option.bind (wl_resource_post_error E (display_resource c) code msg ?t)
                (\<lambda>t. Option.bind (fin t) (\<lambda>t. Some (t, None)))"
          then show thesis by (intro refused [OF dur]) (simp_all add: run)
        next
          fix cl t' assume a: "res \<noteq> None" "during_request ca c s t' ?c" "cmessage cl = message" "request_args ca t' cl"
            "after_demarshal E ca c p r message ?op (res, m', w, ?t) =
              Option.bind (deliver E ca p r 0 ?op cl t') (finish_request ca)"
          have "8 \<le> unat ?sz"
            using dem(1) a(1) by (auto simp: wl_connection_demarshal_def not_le split: sum.splits prod.splits option.splits if_splits)
          then show thesis by (rule delivered [OF _ fit a(2) r(1,3,2) Some a(3,4)]) (simp_all add: run a(5) dem(3))
        qed
        qed
      qed
    qed
  qed
qed

section \<open>Refusals\<close>

lemma error_event:
  "nth_message (events wl_display_interface) WL_DISPLAY_ERROR = Some \<lparr>msg_name = ''error'', signature = ''ous'', types = [None, None, None]\<rparr>"
  by (simp add: nth_message_def wl_display_interface_def WL_DISPLAY_ERROR_def)

text \<open>An event that finds no memory marks the client.\<close>

lemma event_out_of_memory:
  assumes r: "resources s p = Some r" and c: "clients s (rclient r) = Some c" "\<not> cerror c" and mem: "malloc E s = 0"
    and m: "nth_message (events (rinterface r)) opcode = Some m"
    and args: "list_all2 (given (object_at s)) (details (signature m)) as" "length as \<le> WL_CLOSURE_MAX_ARGS"
      "\<forall>q. Arg_o q \<in> set as \<longrightarrow> q = 0 \<or> (\<exists>x. resources s q = Some x \<and> rclient x = rclient r)"
  shows "\<exists>s'. wl_resource_post_event E p opcode as s = Some s'"
proof -
  let ?args = "as @ replicate (WL_CLOSURE_MAX_ARGS - length as) Arg_unset"
  have cnt: "arg_count_for_signature (signature m) = length as" using list_all2_lengthD [OF args(1)] by simp
  have "list_all2 (\<lambda>d a. va_arg (atype d) a) (details (signature m)) as"
    using args(1) by (rule list_all2_mono) (simp add: given_def)
  then have va: "wl_argument_from_va_list (signature m) (replicate WL_CLOSURE_MAX_ARGS Arg_unset) WL_CLOSURE_MAX_ARGS as =
      Inr ?args"
    using from_va_list_ok [of "signature m" as WL_CLOSURE_MAX_ARGS 0] args(2) by (simp add: wl_argument_from_va_list_def)
  show ?thesis
    using r c mem m va verify_objects_ok [OF args(1,3)] args(2) cnt
    by (auto simp: wl_resource_post_event_def va_event_def wl_resource_post_event_array_def handle_array_def do_malloc_def
        wl_closure_marshal_def wl_closure_init_def upd_client_def upd_socket_def Let_def)
qed

text \<open>
  The error event of at most 37 words: it is posted, or memory is short; either way the call returns
  and the client is marked.
\<close>

lemma error_returns:
  assumes E: "env_ok E" and s: "server_ok s" "clients s ca = Some c" "display_resource c \<noteq> 0"
    and room: "out_room (connection c) 148" and msg: "0 \<notin> set msg" and x: "resources s p = Some x" "rclient x = ca"
  shows "\<exists>s'. wl_resource_post_error E p code msg s = Some s'"
proof -
  let ?dr = "display_resource c" and ?as = "[Arg_o p, Arg_u code, Arg_s (Some (take 127 msg))]"
  let ?m = "\<lparr>msg_name = ''error'', signature = ''ous'', types = [None, None, None]\<rparr>"
  note cok = server_okD(1) [OF s(1,2)]
  obtain r where r: "resources s ?dr = Some r" "rclient r = ca" "rinterface r = wl_display_interface"
    using cok s(2,3) by (auto simp: client_ok_def display_resource_ok_def)
  have d: "details ''ous'' = [\<lparr>atype = CHR ''o'', nullable = False\<rparr>, \<lparr>atype = CHR ''u'', nullable = False\<rparr>,
      \<lparr>atype = CHR ''s'', nullable = False\<rparr>]" by (simp add: details_def is_arg_char_def)
  have o: "object_at s p = Some (robject x)" "rid x \<noteq> 0" "p \<noteq> 0"
    using x(1) server_okD(2) [OF s(1) x(1)] by (simp_all add: object_at_def resource_ok_def)
  have g: "list_all2 (given (object_at s)) (details (signature ?m)) ?as" "\<not> has_null (details (signature ?m)) ?as"
    using o msg by (auto simp: d given_def va_arg_def null_arg_def robject_def dest: in_set_takeD)
  have "\<exists>s1. wl_resource_post_event E ?dr WL_DISPLAY_ERROR ?as s = Some s1" if ok: "\<not> cerror c"
  proof (cases "malloc E s = 0")
    case False
    have w: "args_words ?as \<le> 35" by (simp add: args_words_def arg_words_def DIV_ROUNDUP_def)
    have "out_room (connection c) (4 * (args_words ?as + 2))" using room w by (simp add: out_room_def)
    then have "can_post E ?dr r c ?m WL_DISPLAY_ERROR ?as s"
      using E r x s(2) ok False cok g error_event
      by (auto simp: can_post_def env_ok_def client_ok_def plain_sig_def d WL_CLOSURE_MAX_ARGS_def)
    from event_posts(1) [OF this] show ?thesis by blast
  next
    case True
    show ?thesis
      by (rule event_out_of_memory [OF r(1) _ ok True _ g(1)]) (use r x s(2) error_event in \<open>simp_all add: WL_CLOSURE_MAX_ARGS_def\<close>)
  qed
  then obtain s1 where s1: "\<not> cerror c \<Longrightarrow> wl_resource_post_event E ?dr WL_DISPLAY_ERROR ?as s = Some s1" by blast
  show ?thesis
  proof (cases "cerror c")
    case False
    obtain bs where "emits ca bs s s1"
      using event_frame [OF disjI1 [OF s1 [OF False]] r(1)] own_events [of "rinterface r"] r(2,3) by auto
    from emits_fields(9) [OF this] False s1 x s(2,3) show ?thesis
      by (auto simp: wl_resource_post_error_def upd_client_def)
  qed (use x s(2) in \<open>simp add: wl_resource_post_error_def\<close>)
qed

lemma post_error_returns:
  assumes E: "env_ok E" and s: "server_ok s" "clients s ca = Some c" "display_resource c \<noteq> 0"
    and room: "out_room (connection c) 148" and msg: "0 \<notin> set msg"
  shows "\<exists>s'. wl_resource_post_error E (display_resource c) code msg s = Some s'"
proof -
  obtain r where "resources s (display_resource c) = Some r" "rclient r = ca"
    using server_okD(1) [OF s(1,2)] s(2,3) by (auto simp: client_ok_def display_resource_ok_def)
  from error_returns [OF assms this] show ?thesis .
qed

text \<open>An error posted on a resource of the client: it returns, marks the client and changes no resource.\<close>

lemma error_marks:
  assumes "env_ok E" and s: "server_ok s" "clients s ca = Some c" "display_resource c \<noteq> 0"
    and "out_room (connection c) 148" "0 \<notin> set msg" and x: "resources s p = Some x" "rclient x = ca"
  shows "\<exists>s' c'. wl_resource_post_error E p code msg s = Some s' \<and> server_ok s' \<and> resources s' = resources s \<and>
    globals s' = globals s \<and> display s' = display s \<and> user s' = user s \<and> clients s' ca = Some c' \<and> cerror c'"
proof -
  obtain s' where s': "wl_resource_post_error E p code msg s = Some s'" using error_returns [OF assms] by blast
  have "display_resource_ok s (rclient x)" using server_okD(1) [OF s(1,2)] x(2) by (simp add: client_ok_def)
  then obtain bs d c' where e: "emits (rclient x) bs s s'" "clients s (rclient x) = Some d"
    "clients s' (rclient x) = Some c'" "cerror c' \<longleftrightarrow> cerror d \<or> display_resource d \<noteq> 0"
    by (rule post_error_frame [OF s' x(1)]) (rule that)
  with s' x(2) s(2,3) server_ok_emits [OF s(1) e(1)] emits_fields(1-4) [OF e(1)] show ?thesis by auto
qed

lemma release_frame:
  assumes "wl_closure_release ca cl s = Some s'"
  shows "clients s' = clients s" "resources s' = resources s" "server_ok s \<Longrightarrow> server_ok s'"
proof -
  have e: "clients s' = clients s" "resources s' = resources s" "display s' = display s"
    using assms by (auto simp: wl_closure_release_def bind_eq_Some upd_socket_def Let_def)
  then show "clients s' = clients s" "resources s' = resources s" by simp_all
  show "server_ok s \<Longrightarrow> server_ok s'"
    by (simp add: server_ok_def client_ok_def resource_ok_def registry_ok_def display_resource_ok_def e)
qed

text \<open>After a refusal the client is marked, the server in order and the heap as before.\<close>

lemma refusal_ok:
  assumes dur: "during_request ca c s t ct" and dr: "display_resource c \<noteq> 0"
    and run: "Option.bind (wl_resource_post_error E (display_resource c) code msg t)
      (\<lambda>t. Option.bind (fin t) (\<lambda>t. Some (t, None))) = Some (s', n)"
    and fin: "fin = Some \<or> (\<exists>cl. fin = wl_closure_release ca cl)"
  shows "n = None \<and> server_ok s' \<and> resources s' = resources s \<and> (\<exists>c'. clients s' ca = Some c' \<and> cerror c')"
proof -
  have t: "server_ok t" "clients t ca = Some ct" "resources t = resources s" "display_resource ct = display_resource c"
    using dur by (simp_all add: during_request_def)
  have dok: "display_resource_ok t ca" using server_okD(1) [OF t(1,2)] by (simp add: client_ok_def)
  then obtain r where r: "resources t (display_resource c) = Some r" "rclient r = ca"
    using t(2,4) dr by (auto simp: display_resource_ok_def)
  obtain u where u: "wl_resource_post_error E (display_resource c) code msg t = Some u" "fin u = Some s'" "n = None"
    using run by (auto simp: bind_eq_Some)
  obtain bs d c' where e: "emits (rclient r) bs t u" "clients t (rclient r) = Some d" "clients u (rclient r) = Some c'"
    "cerror c' \<longleftrightarrow> cerror d \<or> display_resource d \<noteq> 0"
    by (rule post_error_frame [OF u(1) r(1)]) (use dok r(2) that in auto)
  have c': "clients u ca = Some c'" "cerror c'" using e(2-4) r(2) t(2,4) dr by auto
  have "server_ok u" by (rule server_ok_emits [OF t(1) e(1)])
  with fin u(2) release_frame [of ca _ u s'] have "server_ok s'" "clients s' = clients u" "resources s' = resources u"
    by auto
  with u(3) c' emits_fields(1) [OF e(1)] t(3) show ?thesis by simp
qed

section \<open>Any request is refused or delivered\<close>

definition pending :: "wl_client \<Rightarrow> int" where
  "pending c = int (length (contents (inb (connection c))))"

text \<open>
  A proper call: the target is the live resource of this client that the request names, the message
  is the one of the opcode, the closure has an argument of the right type for each of the signature, its
  objects are null or live resources of this client, its new ids name nothing yet. The request
  has been taken from the input.
\<close>

definition proper_call ::
    "u64 \<Rightarrow> wl_client \<Rightarrow> 'u server \<Rightarrow> u64 \<Rightarrow> wl_resource \<Rightarrow> wl_closure \<Rightarrow> 'u server \<Rightarrow> bool" where
  "proper_call ca c s p r cl t \<longleftrightarrow> resources s p = Some r \<and> rclient r = ca \<and> rid r = request_object c \<and>
     nth_message (methods (rinterface r)) (request_opcode c) = Some (cmessage cl) \<and> request_args ca t cl \<and>
     (\<exists>ct. during_request ca c s t ct \<and>
        contents (inb (connection ct)) = drop (unat (request_size c)) (contents (inb (connection c))))"

lemma turn_cases:
  assumes E: "env_ok E" and s: "server_ok s" "clients s ca = Some c" and dr: "display_resource c \<noteq> 0"
    and room: "peer_room (objects c) WL_CLOSURE_MAX_ARGS" "out_room (connection c) 148"
  obtains (incomplete) "pending c < int (unat (request_size c))" "dispatch_one E ca (pending c) s = Some (s, None)"
  | (refused) s' c' where "dispatch_one E ca (pending c) s = Some (s', None)" "server_ok s'" "resources s' = resources s"
      "clients s' ca = Some c'" "cerror c'"
  | (delivered) p r cl t where "8 \<le> unat (request_size c)" "proper_call ca c s p r cl t"
      "dispatch_one E ca (pending c) s = Option.bind (deliver E ca p r 0 (request_opcode c) cl t) (finish_request ca)"
  | (short) "short_request ca c s" "dispatch_one E ca (pending c) s = None"
proof (rule dispatch_one_cases [OF E s room(1) pending_def])
  assume "dispatch_one E ca (pending c) s = Some (s, None)" "pending c < int (unat (request_size c))"
  then show ?thesis using incomplete by blast
next
  assume "short_request ca c s" "dispatch_one E ca (pending c) s = None"
  then show ?thesis by (rule short)
next
  fix t ct code msg fin
  assume a: "during_request ca c s t ct" "0 \<notin> set msg"
    "dispatch_one E ca (pending c) s = Option.bind (wl_resource_post_error E (display_resource c) code msg t)
       (\<lambda>t. Option.bind (fin t) (\<lambda>t. Some (t, None)))"
    "fin = Some \<or> (\<exists>cl. fin = wl_closure_release ca cl)"
  have t: "server_ok t" "clients t ca = Some ct" "display_resource ct = display_resource c"
    "out (connection ct) = out (connection c)" using a(1) by (simp_all add: during_request_def)
  have "out_room (connection ct) 148" using room(2) t(4) by (simp add: out_room_def)
  then obtain u where u: "wl_resource_post_error E (display_resource c) code msg t = Some u"
    using post_error_returns [OF E t(1,2) _ _ a(2)] t(3) dr by auto
  obtain r where r: "resources t (display_resource c) = Some r" "rclient r = ca"
    using server_okD(1) [OF t(1,2)] t(2,3) dr by (auto simp: client_ok_def display_resource_ok_def)
  have "display_resource_ok t (rclient r)" using server_okD(1) [OF t(1,2)] r(2) by (simp add: client_ok_def)
  from post_error_frame [OF u r(1) this] have "clients u ca \<noteq> None" using r(2) by auto
  then obtain s' where "fin u = Some s'" using a(4) by (auto simp: wl_closure_release_def Let_def)
  with u a(3) have run: "dispatch_one E ca (pending c) s = Some (s', None)" by simp
  from refusal_ok [OF a(1) dr trans [OF a(3) [symmetric] run] a(4)] run refused show ?thesis by blast
next
  fix p r message cl t ct
  assume sz: "8 \<le> unat (request_size c)" and a: "during_request ca c s t ct" "resources s p = Some r" "rclient r = ca"
      "rid r = request_object c" "nth_message (methods (rinterface r)) (request_opcode c) = Some message"
      "cmessage cl = message" "request_args ca t cl"
      "contents (inb (connection ct)) = drop (unat (request_size c)) (contents (inb (connection c)))"
      "dispatch_one E ca (pending c) s = Option.bind (deliver E ca p r 0 (request_opcode c) cl t) (finish_request ca)"
  have "proper_call ca c s p r cl t"
    unfolding proper_call_def by (intro conjI exI [of _ ct]) (rule a, rule a, rule a, simp add: a, rule a, rule a, rule a)
  from delivered [OF sz this a(9)] show ?thesis .
qed


section \<open>Requests shorter than their header\<close>

text \<open>
  A request whose size field says less than eight bytes, to an object and a method that exist, passes
  every check and makes \<^verbatim>\<open>wl_connection_demarshal\<close> read beyond the bytes it has copied.
\<close>

lemma short_request_unchecked:
  assumes "server_ok s" "clients s ca = Some c" "unat (request_size c) < 8" "8 \<le> pending c"
    and "wl_map_lookup (objects c) (request_object c) = Some p" "p \<noteq> 0" "resources s p = Some r"
    and m: "nth_message (methods (rinterface r)) (request_opcode c) = Some message"
      "\<not> (rversion r > 0 \<and> rversion r < wl_message_get_since message)"
      "arg_count_for_signature (signature message) \<le> WL_CLOSURE_MAX_ARGS"
    and "malloc E s \<noteq> 0"
  shows "dispatch_one E ca (pending c) s = None"
proof -
  have fl: "wl_map_lookup_flags (objects c) (request_object c) = Some 0"
    using server_okD(1) [OF assms(1,2)] by (simp add: client_ok_def)
  have "\<not> pending c < int (unat (request_size c))" using assms(3,4) by linarith
  from dispatch_one_demarshal [OF assms(2) this assms(5,6) fl assms(7) m(1,2)] assms(3,11) m(3) show ?thesis
    by (auto simp: wl_connection_demarshal_def wl_closure_init_def Let_def split: option.splits)
qed

section \<open>Binding a global\<close>

lemma find_global_find:
  assumes "\<forall>ga \<in> set gs. ga \<noteq> 0 \<and> globals s ga \<noteq> None"
  shows "find_global s name gs = Some (case find (\<lambda>ga. gname (the (globals s ga)) = name) gs of None \<Rightarrow> 0 | Some ga \<Rightarrow> ga)"
  using assms by (induction gs) auto

definition bind_refused :: "u64 \<Rightarrow> 'u server option \<Rightarrow> 'u server \<Rightarrow> bool" where
  "bind_refused ca res s \<longleftrightarrow> (\<exists>s' c'. res = Some s' \<and> server_ok s' \<and> resources s' = resources s \<and> globals s' = globals s \<and>
     display s' = display s \<and> user s' = user s \<and> clients s' ca = Some c' \<and> cerror c')"

text \<open>
  C22: A client binds only what the display offers it: the bind function runs exactly for the global of that
  name, if it is visible to the client and the version is between 1 and the advertised one.
  In every other case the client gets an error and is marked, and nothing else changes: no resource, no
  global and nothing of the compositor's state.
\<close>

theorem bind_checked:
  assumes E: "env_ok E" and s: "server_ok s" "clients s ca = Some c" "display_resource c \<noteq> 0" "out_room (connection c) 148"
    and p: "resources s p = Some r" "rclient r = ca" and str: "0 \<notin> set str"
    and gl: "\<forall>ga \<in> set (global_list (display s)). ga \<noteq> 0 \<and> globals s ga \<noteq> None"
  shows "case find (\<lambda>ga. gname (the (globals s ga)) = name) (global_list (display s)) of
      Some ga \<Rightarrow> \<exists>g. globals s ga = Some g \<and> gname g = name \<and>
        (if 1 \<le> version \<and> version \<le> gversion g \<and> wl_global_is_visible ca ga s
         then registry_bind E ca p name (Some str) version i s = bind_func E (gbind g) ca (gdata g) version i s
         else bind_refused ca (registry_bind E ca p name (Some str) version i s) s)
    | None \<Rightarrow> bind_refused ca (registry_bind E ca p name (Some str) version i s) s"
proof -
  define err where "err pre post = wl_resource_post_error E p WL_DISPLAY_ERROR_INVALID_OBJECT
      (ascii pre @ str @ ascii ('' ('' @ show_int (sint name) @ '')'' @ post)) s" for pre post
  have fail: "bind_refused ca (err pre post) s" if "NUL \<notin> set pre" "NUL \<notin> set post" for pre post
  proof -
    have "0 \<notin> set (ascii pre @ str @ ascii ('' ('' @ show_int (sint name) @ '')'' @ post))"
      using that str show_int_no_nul by (auto simp: ascii_no_nul NUL_def)
    from error_marks [OF E s this p] show ?thesis unfolding bind_refused_def err_def by blast
  qed
  note find = find_global_find [OF gl, of name]
  show ?thesis
  proof (cases "find (\<lambda>ga. gname (the (globals s ga)) = name) (global_list (display s))")
    case None
    with find fail [of "''invalid global ''" "[]"] show ?thesis by (simp add: registry_bind_def NUL_def err_def)
  next
    case (Some ga)
    then have "ga \<in> set (global_list (display s))" "gname (the (globals s ga)) = name"
      by (auto simp: find_Some_iff)
    with gl obtain g where g: "globals s ga = Some g" "gname g = name" "ga \<noteq> 0" by force
    have v: "1 \<le> version \<longleftrightarrow> version \<noteq> 0" by (simp add: word_le_nat_alt Suc_le_eq unat_gt_0)
    have run: "registry_bind E ca p name (Some str) version i s =
        (if version = 0 then err ''invalid version for global '' '': 0 is not a valid version''
         else if gversion g < version then err ''invalid version for global ''
           ('': have '' @ show_int (sint (gversion g)) @ '', wanted '' @ show_int (sint version))
         else if \<not> wl_global_is_visible ca ga s then err ''invalid global '' []
         else bind_func E (gbind g) ca (gdata g) version i s)"
      using find Some g(1,3) by (simp add: registry_bind_def Let_def err_def)
    have "bind_refused ca (registry_bind E ca p name (Some str) version i s) s"
      if "version = 0 \<or> gversion g < version \<or> \<not> wl_global_is_visible ca ga s"
      using that show_int_no_nul unfolding run by (auto simp: NUL_def intro!: fail)
    moreover have "registry_bind E ca p name (Some str) version i s = bind_func E (gbind g) ca (gdata g) version i s"
      if "version \<noteq> 0" "version \<le> gversion g" "wl_global_is_visible ca ga s"
      using that unfolding run by (simp add: leD)
    ultimately show ?thesis using Some g(1,2) v by (auto simp: not_le)
  qed
qed

section \<open>Handlers\<close>

text \<open>
  What the compositor's functions are held to: called with new ids and objects of the client, they
  keep the tables in order, do not read the client's connection and do not destroy the client.
\<close>

definition call_ok :: "u64 \<Rightarrow> 'u server \<Rightarrow> wl_argument list \<Rightarrow> bool" where
  "call_ok ca t as \<longleftrightarrow> (\<exists>c. clients t ca = Some c \<and>
     (\<forall>i. Arg_n i \<in> set as \<longrightarrow> i = 0 \<or> id_available (objects c) i)) \<and>
     (\<forall>q. Arg_o q \<in> set as \<longrightarrow> q = 0 \<or> (\<exists>r. resources t q = Some r \<and> rclient r = ca))"

definition handlers_ok :: "'u senv \<Rightarrow> bool" where
  "handlers_ok E \<longleftrightarrow>
     (\<forall>k ca p call t t'. server_ok t \<longrightarrow> call_ok ca t (call_args call) \<longrightarrow> request E k ca p call t = Some t' \<longrightarrow>
        server_ok t' \<and> input_kept ca t t') \<and>
     (\<forall>k p r opcode as t t'. server_ok t \<longrightarrow> resources t p = Some r \<longrightarrow> call_ok (rclient r) t as \<longrightarrow>
        dispatch E k p opcode as t = Some t' \<longrightarrow> server_ok t' \<and> input_kept (rclient r) t t') \<and>
     (\<forall>k ca data v i t t'. server_ok t \<longrightarrow> call_ok ca t [Arg_n i] \<longrightarrow> bind_func E k ca data v i t = Some t' \<longrightarrow>
        server_ok t' \<and> input_kept ca t t')"

lemma reserved_available:
  assumes "client_ok s ca c" "id_reserved (objects c) i" "i \<noteq> 0"
  shows "id_available (objects c) i"
  using assms server_side_map [of "objects c"]
  by (auto simp: id_reserved_def id_available_def client_ok_def slot_def entries_of_def split: if_splits)

lemma request_call_ok:
  assumes t: "server_ok t" "clients t ca = Some c" and cl: "request_args ca t cl"
  shows "call_ok ca t (take (ccount cl) (cargs cl))"
proof -
  note cok = server_okD(1) [OF t]
  have arg: "(if atype d = CHR ''o'' then (\<exists>q. a = Arg_o q \<and> (q = 0 \<or> (\<exists>r. resources t q = Some r \<and> rclient r = ca)))
        else received_arg (objects c) d a)"
    if "k < ccount cl" "d = details (signature (cmessage cl)) ! k" "a = cargs cl ! k" for k d a
    using cl that t(2) unfolding request_args_def Let_def by (metis option.sel)
  have "i = 0 \<or> id_available (objects c) i" if "Arg_n i \<in> set (take (ccount cl) (cargs cl))" for i
  proof -
    obtain k where k: "k < ccount cl" "cargs cl ! k = Arg_n i" using \<open>Arg_n i \<in> _\<close> by (auto simp: in_set_conv_nth)
    from arg [OF k(1) refl refl] k(2) show ?thesis
      using reserved_available [OF cok, of i] by (auto simp: received_arg_def split: if_splits)
  qed
  moreover have "q = 0 \<or> (\<exists>r. resources t q = Some r \<and> rclient r = ca)"
    if "Arg_o q \<in> set (take (ccount cl) (cargs cl))" for q
  proof -
    obtain k where k: "k < ccount cl" "cargs cl ! k = Arg_o q" using \<open>Arg_o q \<in> _\<close> by (auto simp: in_set_conv_nth)
    from arg [OF k(1) refl refl] k(2) show ?thesis by (auto simp: received_arg_def split: if_splits)
  qed
  ultimately show ?thesis using t(2) by (auto simp: call_ok_def)
qed

lemma request_new_id:
  assumes "request_args ca t cl" "k < ccount cl" "cargs cl ! k = Arg_n i"
    "\<not> nullable (details (signature (cmessage cl)) ! k)"
  shows "i \<noteq> 0"
  using assms by (auto simp: request_args_def received_arg_def Let_def split: if_splits)

lemma registry_bind_ok:
  assumes H: "handlers_ok E" and t: "server_ok t" "clients t ca = Some c" "resources t p = Some r" "rclient r = ca"
    and i: "id_available (objects c) i" and run: "registry_bind E ca p name str v i t = Some t'"
  shows "server_ok t' \<and> input_kept ca t t'"
proof -
  have "(\<exists>msg. wl_resource_post_error E p WL_DISPLAY_ERROR_INVALID_OBJECT msg t = Some t') \<or>
      (\<exists>k data. bind_func E k ca data v i t = Some t')"
    using run by (auto simp: registry_bind_def bind_eq_Some Let_def split: if_splits)
  then show ?thesis
  proof (elim disjE exE)
    fix msg assume err: "wl_resource_post_error E p WL_DISPLAY_ERROR_INVALID_OBJECT msg t = Some t'"
    have "display_resource_ok t (rclient r)" using server_okD(1) [OF t(1,2)] t(4) by (simp add: client_ok_def)
    then obtain bs where "emits (rclient r) bs t t'" by (rule post_error_frame [OF err t(3)]) (rule that)
    with server_ok_emits [OF t(1)] emits_input [OF t(1)] t(4) show ?thesis by auto
  next
    fix k data assume "bind_func E k ca data v i t = Some t'"
    moreover have "call_ok ca t [Arg_n i]" using t(2) i by (auto simp: call_ok_def)
    ultimately show ?thesis using H t(1) unfolding handlers_ok_def by blast
  qed
qed

lemma own_requests:
  assumes "impl_ok r" "nth_message (methods (rinterface r)) opcode = Some m"
  shows "rimplementation r = Display_interface \<Longrightarrow> details (signature m) = [\<lparr>atype = CHR ''n'', nullable = False\<rparr>]"
    "rimplementation r = Registry_interface \<Longrightarrow> details (signature m) = map (\<lambda>t. \<lparr>atype = t, nullable = False\<rparr>) ''usun''"
  using assms
  by (auto simp: impl_ok_def nth_message_def wl_display_interface_def wl_registry_interface_def details_def is_arg_char_def
      less_2_cases_iff numeral_2_eq_2 nth_Cons split: if_splits nat.splits)

lemma deliver_ok:
  assumes E: "env_ok E" "handlers_ok E" and t: "server_ok t" "clients t ca = Some c" "resources t p = Some r" "rclient r = ca"
    and m: "nth_message (methods (rinterface r)) opcode = Some (cmessage cl)" and cl: "request_args ca t cl"
    and run: "deliver E ca p r 0 opcode cl t = Some (u, cl')"
  shows "server_ok u \<and> input_kept ca t u"
proof -
  let ?as = "take (ccount cl) (cargs cl)"
  note call = request_call_ok [OF t(1,2) cl]
  have impl: "impl_ok r" using server_okD(2) [OF t(1,3)] by (simp add: resource_ok_def)
  note own = own_requests [OF impl m]
  have av: "id_available (objects c) i" if i: "k < length ?as" "?as ! k = Arg_n i"
    "\<not> nullable (details (signature (cmessage cl)) ! k)" for k i
  proof -
    have "Arg_n i \<in> set ?as" using i(1,2) nth_mem by metis
    moreover have "i \<noteq> 0" using request_new_id [OF cl, of k i] i by simp
    ultimately show ?thesis using call t(2) by (auto simp: call_ok_def)
  qed
  show ?thesis
  proof (cases "rdispatcher r")
    case (Some d)
    then have "dispatch E d p opcode ?as t = Some u" using run by (auto simp: deliver_def bind_eq_Some)
    with E(2) t(1,3,4) call show ?thesis unfolding handlers_ok_def by blast
  next
    case None
    then obtain lc where inv: "wl_closure_invoke cl WL_CLOSURE_INVOKE_SERVER (robject r) (unat opcode) = Inr (lc, cl')"
      "run_request E ca p (rimplementation r) lc t = Some u"
      using run by (auto simp: deliver_def bind_eq_Some split: sum.splits)
    have "call_args lc = ?as"
      using inv(1) cl by (auto simp: wl_closure_invoke_def Let_def request_args_def ebind_eq_Inr split: if_splits)
    note lc = this inv(2)
    show ?thesis
    proof (cases "rimplementation r")
      case Display_interface
      then obtain i where i: "?as = [Arg_n i]" "display_sync E ca p i t = Some u \<or> display_get_registry E ca p i t = Some u"
        using lc by (auto simp: run_request_def split: list.splits wl_argument.splits if_splits)
      have "id_available (objects c) i" using av [of 0 i] i(1) own(1) [OF Display_interface] by simp
      with i(2) display_sync_ok [OF E(1) t(1,2)] display_get_registry_ok [OF E(1) t(1,2)] show ?thesis by blast
    next
      case Registry_interface
      then obtain name str v i where i: "?as = [Arg_u name, Arg_s str, Arg_u v, Arg_n i]" "registry_bind E ca p name str v i t = Some u"
        using lc by (auto simp: run_request_def split: list.splits wl_argument.splits)
      have "id_available (objects c) i" using av [of 3 i] i(1) own(2) [OF Registry_interface] by simp
      with i(2) registry_bind_ok [OF E(2) t] show ?thesis by blast
    next
      case (Implementation k slots)
      then have "request E k ca p lc t = Some u" using lc(2) by (simp add: run_request_def)
      with E(2) t(1) call lc(1) show ?thesis unfolding handlers_ok_def by metis
    qed (use lc(2) in \<open>simp add: run_request_def\<close>)
  qed
qed

section \<open>The loop ends\<close>

text \<open>The states in which the loop looks for another request.\<close>

inductive turns :: "'u senv \<Rightarrow> u64 \<Rightarrow> 'u server \<Rightarrow> 'u server \<Rightarrow> bool" for E ca where
  start: "turns E ca s s"
| turn: "clients s ca = Some c \<Longrightarrow> dispatch_one E ca (pending c) s = Some (t, Some n) \<Longrightarrow> turns E ca t u \<Longrightarrow> turns E ca s u"

lemma pending_input:
  assumes "server_ok s" "clients s ca = Some c"
  shows "sint (wl_connection_pending_input (connection c)) = pending c" "pending c \<le> 4096"
proof -
  have b: "buffer_ok (inb (connection c))" using server_okD(1) [OF assms] by (auto simp: client_ok_def conn_ok_def)
  then have le: "length (contents (inb (connection c))) \<le> 4096" by (simp add: buffer_ok_def contents_def BUFFER_SIZE_def)
  then show "pending c \<le> 4096" unfolding pending_def by linarith
  show "sint (wl_connection_pending_input (connection c)) = pending c" 
    using le by (simp add: pending_def wl_connection_pending_input_def sint_u32_small)
qed

text \<open>Nothing more can be done for the client: it is marked, or its next request is not complete.\<close>

definition settled :: "wl_client \<Rightarrow> bool" where
  "settled c \<longleftrightarrow> cerror c \<or> pending c < 8 \<or> pending c < int (unat (request_size c))"

lemma turn_result:
  assumes E: "env_ok E" "handlers_ok E" and s: "server_ok s" "clients s ca = Some c"
    and room: "peer_room (objects c) WL_CLOSURE_MAX_ARGS" and run: "dispatch_one E ca (pending c) s = Some (t, n)"
  shows "server_ok t \<and> (\<exists>c'. clients t ca = Some c' \<and>
    (case n of None \<Rightarrow> settled c' | Some k \<Rightarrow> k = pending c' \<and> pending c' + 8 \<le> pending c))"
proof -
  show ?thesis
  proof (rule dispatch_one_cases [OF E(1) s room pending_def])
    assume "dispatch_one E ca (pending c) s = Some (s, None)" "pending c < int (unat (request_size c))"
    with run s show ?thesis by (auto simp: settled_def)
  next
    assume "dispatch_one E ca (pending c) s = None"
    with run show ?thesis by simp
  next
    fix u ct code msg fin
    assume a: "during_request ca c s u ct"
      "dispatch_one E ca (pending c) s = Option.bind (wl_resource_post_error E (display_resource c) code msg u)
         (\<lambda>t. Option.bind (fin t) (\<lambda>t. Some (t, None)))"
      "fin = Some \<or> (\<exists>cl. fin = wl_closure_release ca cl)"
    note err = trans [OF a(2) [symmetric] run]
    have "resources u (display_resource c) \<noteq> None" using err by (auto simp: bind_eq_Some wl_resource_post_error_def)
    moreover have "resources u 0 = None" by (rule server_okD(4)) (use a(1) in \<open>simp add: during_request_def\<close>)
    ultimately have "display_resource c \<noteq> 0" by metis
    from refusal_ok [OF a(1) this err a(3)] show ?thesis by (auto simp: settled_def)
  next
    fix p r message cl u cu
    assume fit: "unat (request_size c) \<le> length (contents (inb (connection c)))"
      and a: "8 \<le> unat (request_size c)" "during_request ca c s u cu" "resources s p = Some r" "rclient r = ca"
      "nth_message (methods (rinterface r)) (request_opcode c) = Some message" "cmessage cl = message" "request_args ca u cl"
      "contents (inb (connection cu)) = drop (unat (request_size c)) (contents (inb (connection c)))"
      "dispatch_one E ca (pending c) s = Option.bind (deliver E ca p r 0 (request_opcode c) cl u) (finish_request ca)"
    have u: "server_ok u" "clients u ca = Some cu" "resources u p = Some r" using a(2,3) by (simp_all add: during_request_def)
    obtain v cl' where v: "deliver E ca p r 0 (request_opcode c) cl u = Some (v, cl')" "finish_request ca (v, cl') = Some (t, n)"
      using trans [OF a(9) [symmetric] run] by (auto simp: bind_eq_Some)
    have m: "nth_message (methods (rinterface r)) (request_opcode c) = Some (cmessage cl)" using a(5,6) by simp
    note d = deliver_ok [OF E u a(4) m a(7) v(1)]
    obtain c' where c': "wl_closure_release ca cl' v = Some t" "clients t ca = Some c'"
      "n = (if cerror c' then None else Some (sint (wl_connection_pending_input (connection c'))))"
      using v(2) by (auto simp: finish_request_def bind_eq_Some split: if_splits)
    have t: "server_ok t" "clients v ca = Some c'" using release_frame [OF c'(1)] d c'(2) by auto
    have "inb (connection c') = inb (connection cu)" using d u(2) t(2) by (auto simp: input_kept_def)
    then have "length (contents (inb (connection c'))) + unat (request_size c) = length (contents (inb (connection c)))"
      using a(8) fit by (simp del: length_contents)
    then have "pending c' + 8 \<le> pending c" using a(1) unfolding pending_def by linarith
    with t c'(2,3) pending_input(1) [OF t(1) c'(2)] show ?thesis by (auto simp: settled_def)
  qed
qed

text \<open>
  What a turn is given: the display object, room for the ids of one message in the table and for an error
  message in the output; and the handler that it calls, if it calls one properly, returns.
\<close>

definition turn_ready :: "'u senv \<Rightarrow> u64 \<Rightarrow> wl_client \<Rightarrow> 'u server \<Rightarrow> bool" where
  "turn_ready E ca c s \<longleftrightarrow> display_resource c \<noteq> 0 \<and> peer_room (objects c) WL_CLOSURE_MAX_ARGS \<and> out_room (connection c) 148 \<and>
     (\<forall>p r cl t. proper_call ca c s p r cl t \<longrightarrow> deliver E ca p r 0 (request_opcode c) cl t \<noteq> None)"

lemma turn_returns:
  assumes E: "env_ok E" "handlers_ok E" and s: "server_ok s" "clients s ca = Some c" and ready: "turn_ready E ca c s"
  shows "dispatch_one E ca (pending c) s \<noteq> None \<or> short_request ca c s"
proof -
  note r = ready [unfolded turn_ready_def]
  show ?thesis
  proof (rule turn_cases [OF E(1) s])
    fix p x cl t
    assume c: "proper_call ca c s p x cl t"
      "dispatch_one E ca (pending c) s = Option.bind (deliver E ca p x 0 (request_opcode c) cl t) (finish_request ca)"
    obtain ct where t: "server_ok t" "clients t ca = Some ct" "resources t p = Some x" "rclient x = ca" "request_args ca t cl"
      "nth_message (methods (rinterface x)) (request_opcode c) = Some (cmessage cl)"
      using c(1) by (auto simp: proper_call_def during_request_def)
    obtain u cl' where u: "deliver E ca p x 0 (request_opcode c) cl t = Some (u, cl')" using r c(1) by fastforce
    from deliver_ok [OF E t(1-4,6,5) u] t(2) have "clients u ca \<noteq> None" by (auto simp: input_kept_def)
    then obtain v where v: "wl_closure_release ca cl' u = Some v" by (auto simp: wl_closure_release_def Let_def)
    with release_frame [OF v] \<open>clients u ca \<noteq> None\<close> have "finish_request ca (u, cl') \<noteq> None"
      by (auto simp: finish_request_def)
    with c(2) u show ?thesis by simp
  qed (use r in auto)
qed


section \<open>A client that sends a wrong request\<close>

text \<open>
  The running server, where the first client has sent a request of eight bytes to the object 7,
  which it does not have.
\<close>

definition wrong_request :: bytes where
  "wrong_request = le_bytes 4 (7 :: u32) @ le_bytes 4 (0x80000 :: u32)"

definition wrong_client :: "u64 \<Rightarrow> wl_client \<Rightarrow> wl_resource \<Rightarrow> 'u server \<Rightarrow> bool" where
  "wrong_client ca c r s \<longleftrightarrow> server_ok s \<and> clients s = [ca \<mapsto> c] \<and> resources s = [display_resource c \<mapsto> r] \<and> rid r = 1 \<and>
     display_resource c \<noteq> 0 \<and> wl_map_lookup (objects c) = (\<lambda>_. Some 0)(1 := Some (display_resource c)) \<and>
     peer_room (objects c) WL_CLOSURE_MAX_ARGS \<and> out_room (connection c) 148 \<and>
     contents (inb (connection c)) = wrong_request"

lemma wrong_client_exists: "\<exists>ca c r (s :: unit server). wrong_client ca c r s"
proof -
  obtain ca c r and s :: "unit server" where s: "connected demo_env 9 (empty_server ()) ca c r s"
    by (rule demo_connected) (rule that)
  have c: "server_ok s" "clients s = [ca \<mapsto> c]" "resources s = [display_resource c \<mapsto> r]" "display_resource c \<noteq> 0"
    "wl_map_lookup (objects c) = (\<lambda>_. Some 0)(1 := Some (display_resource c))" "cell_count (client_entries (objects c)) = 2"
    using s by (simp_all add: connected_def)
  then have ca: "clients s ca = Some c" by simp
  have "length wrong_request = 8" by (simp add: wrong_request_def)
  then obtain pc where "conn_ok pc" "contents (inb pc) = wrong_request"
    by (auto intro: peer_connection [of wrong_request "[]"] simp: BUFFER_SIZE_def)
  then obtain b where b: "buffer_ok b" "contents b = wrong_request" by (auto simp: conn_ok_def)
  let ?conn = "(new_connection 9)\<lparr>inb := b\<rparr>" let ?c = "c\<lparr>connection := ?conn\<rparr>"
  have conn: "conn_ok ?conn" "out_room ?conn 148"
    using new_connection_ok(1) [of 9] b(1) new_connection_ok(2) [of 9 148] by (simp_all add: conn_ok_def out_room_def BUFFER_SIZE_def)
  note ok = server_ok_connection [OF c(1) ca conn(1), of "sockets s"]
  have room: "peer_room (objects c) WL_CLOSURE_MAX_ARGS"
    using peer_room_client [OF server_okD(1) [OF c(1) ca]] c(6) by (simp add: table_limit_def WL_CLOSURE_MAX_ARGS_def)
  have "rid r = 1" using server_okD(1) [OF c(1) ca] c(3,4) ca by (auto simp: client_ok_def display_resource_ok_def)
  with ok c room conn b(2) have "wrong_client ca ?c r (s\<lparr>sockets := sockets s, clients := (clients s)(ca \<mapsto> ?c)\<rparr>)"
    by (simp add: wrong_client_def)
  then show ?thesis by blast
qed

lemma wrong_input:
  assumes s: "server_ok s" "clients s ca = Some c" "contents (inb (connection c)) = wrong_request"
  shows "pending c = 8" "request_object c = 7" "unat (request_size c) = 8"
proof -
  have len: "length wrong_request = 8" by (simp add: wrong_request_def)
  have "buffer_ok (inb (connection c))" using server_okD(1) [OF s(1,2)] by (simp add: client_ok_def conn_ok_def)
  moreover have "unat (wl_buffer_size (inb (connection c))) = 8" using len unfolding s(3) [symmetric] by simp
  ultimately have "wl_connection_copy (connection c) 8 = wrong_request"
    using wl_buffer_copy_contents [of "inb (connection c)" 8] s(3) len by (simp add: wl_connection_copy_def)
  moreover have "drop_bit 16 (0x80000 :: u32) = 8" by (simp add: drop_bit_eq_div)
  ultimately show "request_object c = 7" "unat (request_size c) = 8"
    by (simp_all add: request_object_def request_size_def request_word_def wrong_request_def load_def)
  show "pending c = 8" using len by (simp add: pending_def s(3) del: length_contents)
qed

lemma wrong_input_refused:
  assumes E: "env_ok E" and s: "server_ok s" "clients s ca = Some c" "contents (inb (connection c)) = wrong_request"
    and c: "display_resource c \<noteq> 0" "out_room (connection c) 148" "wl_map_lookup (objects c) 7 = Some 0"
  obtains msg s' where "wl_resource_post_error E (display_resource c) WL_DISPLAY_ERROR_INVALID_OBJECT msg s = Some s'"
    "dispatch_one E ca (pending c) s = Some (s', None)"
proof -
  note q = wrong_input [OF s]
  have look: "wl_map_lookup (objects c) (request_object c) = Some 0" using c(3) q(2) by simp
  have fl: "wl_map_lookup_flags (objects c) (request_object c) = Some 0"
    using server_okD(1) [OF s(1,2)] by (simp add: client_ok_def)
  let ?msg = "ascii (''invalid object '' @ dec (unat (request_object c)))"
  have "0 \<notin> set ?msg" using dec_no_nul by (auto simp: ascii_no_nul NUL_def)
  then obtain s' where s': "wl_resource_post_error E (display_resource c) WL_DISPLAY_ERROR_INVALID_OBJECT ?msg s = Some s'"
    using post_error_returns [OF E s(1,2) c(1,2)] by blast
  then have "dispatch_one E ca (pending c) s = Some (s', None)"
    using dispatch_one_def [of E ca "pending c" s, unfolded s(2) Option.bind.simps(2) Let_def, folded request_word_def,
        folded request_object_def request_opcode_def request_size_def] q(1,3) look fl by simp
  with s' that show thesis by blast
qed

lemma wrong_client_request:
  assumes "wrong_client ca c r s"
  shows "pending c = 8" "request_object c = 7" "unat (request_size c) = 8"
  by (rule wrong_input [of s ca]; use assms in \<open>simp add: wrong_client_def\<close>)+


lemma wrong_client_refused:
  assumes "wrong_client ca c r s"
  shows "\<exists>s'. dispatch_one demo_env ca (pending c) s = Some (s', None)"
  by (rule wrong_input_refused [OF demo_env_ok, of s ca c]) (use assms in \<open>auto simp: wrong_client_def\<close>)


text \<open>The display offers version 2 of one global; the client asks for version 3 and then for version 1.\<close>

definition offers :: "'u server \<Rightarrow> 'u server" where
  "offers s = (upd_display (\<lambda>d. d\<lparr>global_list := [64], global_filter := None\<rparr>) s)\<lparr>globals :=
     [64 \<mapsto> \<lparr>ginterface = wl_callback_interface, gname = 5, gversion = 2, gdata = 0, gbind = 0\<rparr>]\<rparr>"

theorem bind_checked_witness:
  "\<exists>ca c r (s :: unit server). wrong_client ca c r s \<and>
    bind_refused ca (registry_bind demo_env ca (display_resource c) 5 (Some [0x61]) 3 2 (offers s)) (offers s) \<and>
    registry_bind demo_env ca (display_resource c) 5 (Some [0x61]) 1 2 (offers s) = Some (offers s)"
proof -
  obtain ca c r and s :: "unit server" where w: "wrong_client ca c r s" using wrong_client_exists by blast
  have s: "server_ok s" "clients s ca = Some c" "display_resource c \<noteq> 0" "out_room (connection c) 148"
    "resources s (display_resource c) = Some r" using w by (simp_all add: wrong_client_def)
  have "server_ok (offers s)"
    using s(1) by (simp add: server_ok_def client_ok_def resource_ok_def registry_ok_def display_resource_ok_def offers_def upd_display_def)
  moreover have "clients (offers s) ca = Some c" "resources (offers s) (display_resource c) = Some r"
    using s by (simp_all add: offers_def upd_display_def)
  moreover have "rclient r = ca" using server_okD(1) [OF s(1,2)] s(2,3,5) by (auto simp: client_ok_def display_resource_ok_def)
  ultimately have
    "bind_refused ca (registry_bind demo_env ca (display_resource c) 5 (Some [0x61]) 3 2 (offers s)) (offers s)"
    "registry_bind demo_env ca (display_resource c) 5 (Some [0x61]) 1 2 (offers s) = Some (offers s)"
    using bind_checked [OF demo_env_ok, where s = "offers s" and ca = ca and c = c and p = "display_resource c" and r = r
        and str = "[0x61]" and name = 5 and version = 3 and i = 2]
      bind_checked [OF demo_env_ok, where s = "offers s" and ca = ca and c = c and p = "display_resource c" and r = r
        and str = "[0x61]" and name = 5 and version = 1 and i = 2] s(3,4)
    by (simp_all add: offers_def upd_display_def wl_global_is_visible_def demo_env_def)
  with w show ?thesis by blast
qed

end
