(* ===== verification/Wl_Objects.thy ===== *)
theory Wl_Objects
  imports Wl_Requests
begin

text \<open>
  The server as the protocol sees it: for every client, which ids name an object and of which
  interface. The operations of \<^verbatim>\<open>wayland-server.c\<close> refine operations on that table, with all the memory
  management, signals, events and error handling hidden.
\<close>

section \<open>The abstract state\<close>

type_synonym object_table = "u64 \<times> u32 \<Rightarrow> interface_spec option"

text \<open>What an id stands for is found the way the dispatcher finds it.\<close>

definition object_table :: "'u server \<Rightarrow> object_table" where
  "object_table s = (\<lambda>(ca, i). Option.bind (clients s ca) (\<lambda>c. Option.bind (wl_map_lookup (objects c) i) (\<lambda>p.
     if p = 0 then None else map_option rinterface (resources s p))))"

definition object_of :: "wl_resource \<Rightarrow> (u64 \<times> u32) \<times> interface_spec" where
  "object_of r = ((rclient r, rid r), rinterface r)"

definition live_objects :: "'u server \<Rightarrow> ((u64 \<times> u32) \<times> interface_spec) set" where
  "live_objects s = ran (map_option object_of \<circ> resources s)"

lemma live_objects_iff: "x \<in> live_objects s \<longleftrightarrow> (\<exists>p r. resources s p = Some r \<and> object_of r = x)"
  by (auto simp: live_objects_def ran_def)

lemma object_table_iff:
  assumes "server_ok s"
  shows "object_table s k = Some f \<longleftrightarrow> (k, f) \<in> live_objects s"
proof (cases k)
  case (Pair ca i)
  show ?thesis
  proof
    assume "object_table s k = Some f"
    then obtain c p r where t: "clients s ca = Some c" "wl_map_lookup (objects c) i = Some p" "p \<noteq> 0"
      "resources s p = Some r" "rinterface r = f"
      by (auto simp: object_table_def Pair bind_eq_Some split: if_splits)
    have "rid r = i \<and> rclient r = ca"
      using server_okD(1) [OF assms t(1)] t(2-4) unfolding client_ok_def by (metis option.inject)
    with t(4,5) show "(k, f) \<in> live_objects s" unfolding Pair live_objects_iff object_of_def by blast
  next
    assume "(k, f) \<in> live_objects s"
    then obtain p r where r: "resources s p = Some r" "rclient r = ca" "rid r = i" "rinterface r = f"
      by (auto simp: live_objects_iff object_of_def Pair)
    from server_okD(2) [OF assms r(1)] r show "object_table s k = Some f"
      by (auto simp: resource_ok_def object_table_def Pair)
  qed
qed

lemma object_tableI:
  assumes "server_ok s'" "\<And>k f. (k, f) \<in> live_objects s' \<longleftrightarrow> T k = Some f"
  shows "object_table s' = T"
proof
  fix k
  show "object_table s' k = T k"
    using object_table_iff [OF assms(1), of k] assms(2) by (metis option.exhaust)
qed

lemma object_table_new:
  assumes "server_ok s" "server_ok s'" "live_objects s' = insert (k, f) (live_objects s)" "object_table s k = None"
  shows "object_table s' = (object_table s)(k \<mapsto> f)"
proof (rule object_tableI [OF assms(2)])
  fix j g
  have "(k, g) \<notin> live_objects s" using assms(4) object_table_iff [OF assms(1), of k g] by simp
  then show "(j, g) \<in> live_objects s' \<longleftrightarrow> ((object_table s)(k \<mapsto> f)) j = Some g"
    using object_table_iff [OF assms(1), of j g] assms(3) by (cases "j = k") auto
qed

lemma object_table_filter:
  assumes "server_ok s" "server_ok s'" "live_objects s' = {(k, f) \<in> live_objects s. P k}"
  shows "object_table s' = (\<lambda>k. if P k then object_table s k else None)"
  by (rule object_tableI [OF assms(2)]) (simp add: assms(3) object_table_iff [OF assms(1)])

lemma object_table_same:
  assumes "server_ok s" "server_ok s'" "live_objects s' = live_objects s"
  shows "object_table s' = object_table s"
  by (rule object_tableI [OF assms(2)]) (simp add: assms(3) object_table_iff [OF assms(1)])

text \<open>The objects depend on the views of the resources only.\<close>

lemma object_of_view:
  assumes "map_option resource_view x = map_option resource_view y"
  shows "map_option object_of x = map_option object_of y"
  using assms by (cases x; cases y) (auto simp: resource_view_def object_of_def)

lemma live_objects_same: "same_structs s s' \<Longrightarrow> live_objects s' = live_objects s"
proof -
  assume same: "same_structs s s'"
  have "map_option object_of (resources s' p) = map_option object_of (resources s p)" for p
    by (rule object_of_view) (use same in \<open>simp add: same_structs_def\<close>)
  then show ?thesis by (simp add: live_objects_def comp_def)
qed

lemma live_objects_emits: "emits ca bs s s' \<Longrightarrow> live_objects s' = live_objects s"
  by (simp add: live_objects_def emits_fields(1))

section \<open>Creating and destroying resources\<close>

lemma resource_create_views:
  assumes "env_ok E" "clients s ca = Some c" "i \<noteq> 0" "wl_resource_create E ca iface v i s = Some (p, s')" "p \<noteq> 0"
  shows "map_option resource_view \<circ> resources s' =
    (map_option resource_view \<circ> resources s)(p \<mapsto> resource_view (new_resource ca iface v i))"
proof -
  obtain m s1 where s1: "s1 = s\<lparr>ticks := ticks s + 1, resources := (resources s)(p \<mapsto> new_resource ca iface v i),
      clients := (clients s)(ca \<mapsto> c\<lparr>objects := m\<rparr>)\<rparr>" "emit E (Resource_created ca) p s1 = Some s'"
    using assms(2-5)
    by (auto simp: wl_resource_create_def do_malloc_def Let_def bind_eq_Some upd_client_def new_resource_def split: if_splits)
  have "\<forall>q. map_option resource_view (resources s' q) = map_option resource_view (resources s1 q)"
    using emit_same [OF assms(1) s1(2)] unfolding same_structs_def by blast
  then show ?thesis by (auto simp: s1(1) fun_eq_iff)
qed

lemma create_objects:
  assumes E: "env_ok E" and s: "server_ok s" "clients s ca = Some c" and i: "id_available (objects c) i"
    and f: "interface_ok f" and run: "wl_resource_create E ca f v i s = Some (p, s')"
  shows "live_objects s' = (if p = 0 then live_objects s else insert ((ca, i), f) (live_objects s))"
proof (cases "p = 0")
  case True
  then obtain bs where "emits ca bs s s'" using resource_create_ok(3) [OF E s i f run] by blast
  from live_objects_emits [OF this] True show ?thesis by simp
next
  case False
  have "i \<noteq> 0" using i by (simp add: id_available_def)
  note v = resource_create_views [OF E s(2) this run False]
  have "map_option object_of (resources s' q) = ((map_option object_of \<circ> resources s)(p \<mapsto> ((ca, i), f))) q" for q
    using object_of_view [of "resources s' q" "((resources s)(p \<mapsto> new_resource ca f v i)) q"] fun_cong [OF v, of q]
    by (auto simp: object_of_def new_resource_def)
  then have "map_option object_of \<circ> resources s' = (map_option object_of \<circ> resources s)(p \<mapsto> ((ca, i), f))" by auto
  moreover have "resources s p = None" using resource_create_ok(2) [OF E s i f run False] by blast
  ultimately show ?thesis using False by (simp add: live_objects_def)
qed

lemma destroy_objects:
  assumes E: "env_ok E" and s: "server_ok s" "resources s p = Some r" "clients s (rclient r) = Some c"
    and run: "wl_resource_destroy E p s = Some s'"
  shows "live_objects s' = {(k, f) \<in> live_objects s. k \<noteq> (rclient r, rid r)}"
proof -
  note v = resource_destroy_ok(2) [OF E s run]
  have "map_option object_of (resources s' q) = ((map_option object_of \<circ> resources s)(p := None)) q" for q
    using object_of_view [of "resources s' q" "((resources s)(p := None)) q"] fun_cong [OF v, of q] by auto
  then have w: "map_option object_of \<circ> resources s' = (map_option object_of \<circ> resources s)(p := None)" by auto
  have one: "q \<noteq> p \<longleftrightarrow> (rclient x, rid x) \<noteq> (rclient r, rid r)" if x: "resources s q = Some x" for q x
  proof
    assume "q \<noteq> p"
    with server_okD(2) [OF s(1,2)] server_okD(2) [OF s(1) x] show "(rclient x, rid x) \<noteq> (rclient r, rid r)"
      by (auto simp: resource_ok_def)
  qed (use s(2) x in auto)
  have "(k, f) \<in> ran ((map_option object_of \<circ> resources s)(p := None)) \<longleftrightarrow>
      (k, f) \<in> live_objects s \<and> k \<noteq> (rclient r, rid r)" for k f
  proof -
    have "(k, f) \<in> ran ((map_option object_of \<circ> resources s)(p := None)) \<longleftrightarrow>
        (\<exists>q x. q \<noteq> p \<and> resources s q = Some x \<and> object_of x = (k, f))" by (auto simp: ran_def split: if_splits)
    also have "\<dots> \<longleftrightarrow> (\<exists>q x. resources s q = Some x \<and> object_of x = (k, f) \<and> k \<noteq> (rclient r, rid r))"
      using one unfolding object_of_def by (metis prod.inject)
    also have "\<dots> \<longleftrightarrow> (k, f) \<in> live_objects s \<and> k \<noteq> (rclient r, rid r)" unfolding live_objects_iff by blast
    finally show ?thesis .
  qed
  then show ?thesis by (auto simp: live_objects_def w)
qed

lemma available_free:
  assumes "clients s ca = Some c" "id_available (objects c) i"
  shows "object_table s (ca, i) = None"
  using assms by (auto simp: object_table_def id_available_def)

lemma sync_objects:
  assumes E: "env_ok E" and s: "server_ok s" "clients s ca = Some c" and i: "id_available (objects c) i"
    and run: "display_sync E ca p i s = Some s'"
  shows "live_objects s' = live_objects s"
proof -
  let ?f = wl_callback_interface
  obtain cb s1 where s1: "wl_resource_create E ca ?f 1 i s = Some (cb, s1)"
    using run by (auto simp: display_sync_def bind_eq_Some)
  note cr = resource_create_ok [OF E s i own_interfaces_ok(3) s1] and lo = create_objects [OF E s i own_interfaces_ok(3) s1]
  show ?thesis
  proof (cases "cb = 0")
    case True
    then have "wl_client_post_no_memory E ca s1 = Some s'"
      using run s1 by (auto simp: display_sync_def bind_eq_Some)
    then obtain bs where "emits ca bs s1 s'" by (rule post_no_memory_frame [OF cr(1)]) (rule that)
    with live_objects_emits lo True show ?thesis by metis
  next
    case False
    then obtain r where r: "resources s1 cb = Some r" "rclient r = ca" "rid r = i" "rinterface r = ?f" using cr(2) by blast
    obtain s2 where s2: "wl_resource_post_event E cb WL_CALLBACK_DONE [Arg_u (wl_display_get_serial s1)] s1 = Some s2"
      "wl_resource_destroy E cb s2 = Some s'"
      using run s1 False by (auto simp: display_sync_def bind_eq_Some Let_def)
    obtain bs where em: "emits ca bs s1 s2"
      using event_frame [OF disjI1 [OF s2(1)] r(1)] own_events [of "rinterface r"] r(2,4) by auto
    have r2: "resources s2 cb = Some r" using r(1) emits_fields(1) [OF em] by simp
    obtain c2 where c2: "clients s2 (rclient r) = Some c2" using emits_fields(9) [OF em] r(2) by auto
    have "((ca, i), f) \<notin> live_objects s" for f
      using object_table_iff [OF s(1), of "(ca, i)" f] available_free [OF s(2) i] by simp
    with destroy_objects [OF E server_ok_emits [OF cr(1) em] r2 c2 s2(2)] live_objects_emits [OF em] lo False r(2,3)
    show ?thesis by auto
  qed
qed

lemma registry_objects:
  assumes E: "env_ok E" and s: "server_ok s" "clients s ca = Some c" and i: "id_available (objects c) i"
    and run: "display_get_registry E ca p i s = Some s'" and cr: "wl_resource_create E ca wl_registry_interface 1 i s = Some (rp, s1)"
  shows "live_objects s' = (if rp = 0 then live_objects s else insert ((ca, i), wl_registry_interface) (live_objects s))"
proof -
  note ok = resource_create_ok [OF E s i own_interfaces_ok(2) cr] and lo = create_objects [OF E s i own_interfaces_ok(2) cr]
  show ?thesis
  proof (cases "rp = 0")
    case True
    then have "wl_client_post_no_memory E ca s1 = Some s'"
      using run cr by (auto simp: display_get_registry_def bind_eq_Some)
    then obtain bs where "emits ca bs s1 s'" by (rule post_no_memory_frame [OF ok(1)]) (rule that)
    with live_objects_emits lo True show ?thesis by metis
  next
    case False
    then obtain r where r: "resources s1 rp = Some r" "rclient r = ca" "rinterface r = wl_registry_interface" using ok(2) by blast
    obtain r' s2 where s2: "ofold (advertise E ca rp) (global_list (display s1)) s2 = Some s'"
      "resources s2 = (resources s1)(rp \<mapsto> r')" "object_of r' = object_of r" "clients s2 = clients s1"
      using run cr False r(1)
      by (auto simp: display_get_registry_def bind_eq_Some wl_resource_set_implementation_def
          upd_resource_def upd_display_def Let_def object_of_def)
    define P where "P t \<longleftrightarrow> resources t = resources s2 \<and> clients t ca \<noteq> None" for t :: "'a server"
    have r': "rinterface r' = wl_registry_interface" "rclient r' = ca" using s2(3) r by (simp_all add: object_of_def)
    have "P s'"
    proof (rule ofold_invariant [OF _ _ s2(1), of P])
      show "P u" if "P t" and step: "advertise E ca rp ga t = Some u" for ga t u
      proof -
        obtain k where k: "resources t rp = Some r'" "clients t (rclient r') = Some k" using \<open>P t\<close> s2(2) r'(2) by (auto simp: P_def)
        obtain bs where "emits (rclient r') bs t u" by (rule advertise_frame [OF k(1) r'(1) step k(2)]) (rule that)
        from emits_fields(1,9) [OF this] \<open>P t\<close> r'(2) show ?thesis by (simp add: P_def)
      qed
      show "P s2" using ok(2) False s2(4) by (auto simp: P_def)
    qed
    then have "map_option object_of (resources s' q) = map_option object_of (resources s1 q)" for q
      using s2(2,3) r(1) by (auto simp: P_def)
    then have "live_objects s' = live_objects s1" by (simp add: live_objects_def comp_def)
    with lo False show ?thesis by simp
  qed
qed

lemma leave_objects:
  assumes E: "env_ok E" and s: "server_ok s" "clients s ca = Some c" and run: "wl_client_destroy E ca s = Some s'"
  shows "live_objects s' = {(k, f) \<in> live_objects s. fst k \<noteq> ca}"
proof -
  note ok = client_destroy_ok(1) [OF E s run]
  have gone: "\<And>p r. resources s' p = Some r \<Longrightarrow> rclient r \<noteq> ca"
    "\<And>x. x \<noteq> ca \<Longrightarrow> map_option client_view (clients s' x) = map_option client_view (clients s x)"
    "\<And>p r. resources s p = Some r \<Longrightarrow> rclient r \<noteq> ca \<Longrightarrow> map_option resource_view (resources s' p) = Some (resource_view r)"
    using client_destroy_ok(2) [OF E s run] by (auto simp: client_gone_def)
  have kept: "\<exists>r'. resources s' p = Some r' \<and> object_of r' = object_of r" if "resources s p = Some r" "rclient r \<noteq> ca" for p r
    using gone(3) [OF that] by (auto simp: resource_view_def object_of_def)
  have old: "\<exists>r. resources s p = Some r \<and> rclient r \<noteq> ca \<and> object_of r = object_of r'" if r': "resources s' p = Some r'" for p r'
  proof -
    obtain d' where d': "clients s' (rclient r') = Some d'" "wl_map_lookup (objects d') (rid r') = Some p" "p \<noteq> 0"
      using server_okD(2) [OF ok r'] by (auto simp: resource_ok_def)
    obtain d where d: "clients s (rclient r') = Some d" "objects d = objects d'"
      using gone(2) [OF gone(1) [OF r']] d'(1) by (cases "clients s (rclient r')") (auto simp: client_view_def)
    obtain r where r: "resources s p = Some r" "rid r = rid r'" "rclient r = rclient r'"
      by (rule client_ok_lookup [OF server_okD(1) [OF s(1) d(1)], of "rid r'" p]) (use d(2) d'(2,3) that in auto)
    have "rclient r \<noteq> ca" using gone(1) [OF r'] r(3) by simp
    with kept [OF r(1) this] r' r(1) show ?thesis by auto
  qed
  have "(k, f) \<in> live_objects s' \<longleftrightarrow> (k, f) \<in> live_objects s \<and> fst k \<noteq> ca" for k f
  proof
    assume "(k, f) \<in> live_objects s'"
    then obtain p r where "resources s' p = Some r" "object_of r = (k, f)" by (auto simp: live_objects_iff)
    with old [OF this(1)] show "(k, f) \<in> live_objects s \<and> fst k \<noteq> ca" by (auto simp: live_objects_iff object_of_def)
  next
    assume "(k, f) \<in> live_objects s \<and> fst k \<noteq> ca"
    then obtain p r where r: "resources s p = Some r" "object_of r = (k, f)" "rclient r \<noteq> ca"
      by (auto simp: live_objects_iff object_of_def)
    with kept [OF r(1,3)] show "(k, f) \<in> live_objects s'" unfolding live_objects_iff by metis
  qed
  then show ?thesis by auto
qed

section \<open>New clients\<close>

lemma connect_objects:
  assumes E: "env_ok E" and s: "server_ok s" and run: "wl_client_create E fd src cred data s = Some (ca, s')" "ca \<noteq> 0"
  shows "server_ok s' \<and> clients s ca = None \<and> live_objects s' = insert ((ca, 1), wl_display_interface) (live_objects s)"
proof -
  let ?s1 = "s\<lparr>ticks := ticks s + 1\<rparr>"
  obtain m where m: "wl_map_insert_at (blocks E) (wl_map_init WL_MAP_SERVER_SIDE) 0 0 0 = Some (m, 0)"
    "\<exists>xs. map_ok m xs" "side m = WL_MAP_SERVER_SIDE" "\<forall>i. wl_map_lookup m i = Some 0"
    "\<forall>i. wl_map_lookup_flags m i = Some 0" "cell_count (client_entries m) = 1" "\<forall>n < 2 ^ 31. peer_room m n"
    by (rule fresh_table [OF E]) (rule that)
  obtain u where u: "cred = Some u" using run by (auto simp: wl_client_create_def do_malloc_def Let_def split: if_splits option.splits)
  define c where "c = \<lparr>connection = new_connection fd, csource = WL_EVENT_READABLE, display_resource = 0, objects = m,
    cdestroy_signal = wl_priv_signal_init, ucred = u, cerror = False, resource_created_signal = wl_priv_signal_init\<rparr>"
  define s2 where "s2 = s\<lparr>ticks := ticks s + 2, clients := (clients s)(malloc E s \<mapsto> c)\<rparr>"
  obtain ret s3 where b: "malloc E s = ca" "bind_display E ca data s2 = Some (ret, s3)" "\<not> ret < 0"
    "emit E Create_client ca (upd_display (client_list_update (\<lambda>cs. cs @ [ca])) s3) = Some s'"
    using run m(1) u
    by (auto simp: wl_client_create_def do_malloc_def wl_connection_create_def Let_def bind_eq_Some c_def new_connection_def s2_def
        split: if_splits)
  have fresh: "clients s ca = None" using E run(2) b(1) by (auto simp: env_ok_def live_def)
  have ok2: "server_ok s2"
    unfolding s2_def b(1) by (rule server_ok_new_client [OF s fresh run(2)]) (simp_all add: c_def m)
  let ?p = "malloc E s2"
  have p: "?p \<noteq> 0"
    using b(2,3) by (auto simp: bind_display_def wl_resource_create_def do_malloc_def Let_def bind_eq_Some)
  have p': "resources s2 ?p = None" using E p by (auto simp: env_ok_def live_def)
  obtain m' r where d: "bind_display E ca data s2 = Some (0, display_bound ca c m' ?p r s2)"
    "server_ok (display_bound ca c m' ?p r s2)"
    by (rule bind_display_run [OF E ok2, of ca c data]) (use m(4,6,7) p b(1) that in \<open>simp_all add: s2_def c_def\<close>)
  let ?s3 = "display_bound ca c m' ?p r s2" and ?s4 = "upd_display (client_list_update (\<lambda>cs. cs @ [ca])) (display_bound ca c m' ?p r s2)"
  have s3: "s3 = ?s3" using b(2) d(1) by simp
  have "server_ok ?s4"
    using d(2) by (simp add: server_ok_def client_ok_def resource_ok_def registry_ok_def display_resource_ok_def upd_display_def)
  then have ok: "server_ok s'" using server_ok_same emit_same [OF E b(4)] s3 by metis
  have "display_resource_ok ?s3 ca"
    using server_okD(1) [OF d(2), of ca] by (auto simp: client_ok_def display_bound_def)
  then have "object_of r = ((ca, 1), wl_display_interface)"
    using p by (auto simp: display_resource_ok_def display_bound_def object_of_def)
  moreover have "map_option object_of \<circ> resources ?s4 = (map_option object_of \<circ> resources s)(?p \<mapsto> object_of r)"
    by (auto simp: upd_display_def display_bound_def s2_def)
  ultimately have "live_objects ?s4 = insert ((ca, 1), wl_display_interface) (live_objects s)"
    using p' by (simp add: live_objects_def s2_def)
  with ok fresh live_objects_same [OF emit_same [OF E b(4)]] s3 show ?thesis by simp
qed

section \<open>Ids that the server gives out\<close>

lemma allocate_objects:
  assumes E: "env_ok E" and s: "server_ok s" "clients s ca = Some c" and f: "interface_ok f"
    and room: "cell_count (entries_of False (objects c)) < 2 ^ 24"
    and run: "wl_resource_create E ca f v 0 s = Some (p, s')"
  shows "server_ok s'"
    "p = 0 \<Longrightarrow> live_objects s' = live_objects s"
    "p \<noteq> 0 \<Longrightarrow> \<exists>r. resources s' p = Some r \<and> WL_SERVER_ID_START \<le> rid r \<and> wl_map_lookup (objects c) (rid r) = Some 0 \<and>
      live_objects s' = insert ((ca, rid r), f) (live_objects s)"
proof -
  let ?p = "malloc E s"
  obtain xs where m: "map_ok (objects c) xs" "side (objects c) = WL_MAP_SERVER_SIDE"
    "\<forall>i. wl_map_lookup_flags (objects c) i = Some 0"
    using server_okD(1) [OF s] by (auto simp: client_ok_def)
  have own: "\<not> own_side (objects c)" by (rule server_side_map [OF m(2)])
  have A: "allocator_ok (blocks E)" "\<And>n. blocks E n \<noteq> None" using E by (auto simp: env_ok_def)
  have "server_ok s' \<and> (p = 0 \<longrightarrow> live_objects s' = live_objects s) \<and>
    (p \<noteq> 0 \<longrightarrow> (\<exists>r. resources s' p = Some r \<and> WL_SERVER_ID_START \<le> rid r \<and> wl_map_lookup (objects c) (rid r) = Some 0 \<and>
      live_objects s' = insert ((ca, rid r), f) (live_objects s)))"
  proof (cases "?p = 0")
    case True
    with run have s': "p = 0" "s' = s\<lparr>ticks := ticks s + 1\<rparr>"
      by (auto simp: wl_resource_create_def do_malloc_def Let_def)
    have "same_structs s s'" by (simp add: s'(2) same_structs_def)
    with s' server_ok_same [OF s(1)] live_objects_same show ?thesis by auto
  next
    case False
    then have p: "resources s ?p = None" "?p AND 3 = 0" using E by (auto simp: env_ok_def live_def)
    have room': "cell_count (entries_of (own_side (objects c)) (objects c)) < table_limit (own_side (objects c))"
      using room own by (simp add: table_limit_def)
    obtain m1 i k ys where m1: "wl_map_insert_new (blocks E) (objects c) 0 0 = Some (m1, i)"
      "slot i = (own_side (objects c), k)" "k < cell_count (entries_of (own_side (objects c)) m1)" "k \<notin> set ys" "map_ok m1 ys"
      "side m1 = side (objects c)" "wl_map_lookup (objects c) i = Some 0" "inserted (objects c) i 0 0 m1"
      by (rule wl_map_insert_new_claims [OF A m(1) own _ room', of 0 0]) (simp, rule that)
    have "slot i = (False, k)" "k < cell_count (entries_of False m1)" using m1(2,3) own by simp_all
    from wl_map_insert_at_claimed [OF m1(5) p(2) this(1,2), of "blocks E" 0] m1(4) obtain m2 where
      m2: "wl_map_insert_at (blocks E) m1 0 i ?p = Some (m2, 0)" "map_ok m2 ys" "side m2 = side m1" "inserted m1 i ?p 0 m2"
      by metis
    have i: "WL_SERVER_ID_START \<le> i" "i \<noteq> 0"
      using \<open>slot i = (False, k)\<close> by (auto simp: slot_def WL_SERVER_ID_START_def split: if_splits)
    have m3: "\<exists>zs. map_ok m2 zs" "side m2 = WL_MAP_SERVER_SIDE" "wl_map_lookup m2 i = Some ?p" "same_except i (objects c) m2"
      using m1(6,8) m2(2-4) m(2) by (auto simp: inserted_def same_except_def)
    have m4: "\<forall>j. wl_map_lookup_flags m2 j = Some 0"
    proof
      fix j show "wl_map_lookup_flags m2 j = Some 0"
        using m1(8) m2(4) m(3) by (cases "j = i") (simp_all add: inserted_def same_except_def)
    qed
    let ?r = "new_resource ca f v i"
    define s1 where "s1 = s\<lparr>ticks := ticks s + 1, resources := (resources s)(?p \<mapsto> ?r),
      clients := (clients s)(ca \<mapsto> c\<lparr>objects := m2\<rparr>)\<rparr>"
    have em: "emit E (Resource_created ca) ?p s1 = Some s'" "p = ?p"
      using run False m1(1) m2(1) s(2) unfolding s1_def new_resource_def
      by (auto simp: wl_resource_create_def do_malloc_def Let_def upd_client_def bind_eq_Some)
    note same = emit_same [OF E em(1)]
    have "server_ok s1"
      unfolding s1_def
      by (rule server_ok_create [OF s p(1) False p(2) m1(7) i(2) m3 m4]) (simp_all add: new_resource_def f impl_ok_def)
    note ok = server_ok_same [OF this same]
    obtain r where r: "resources s' ?p = Some r" "rid r = i"
      by (rule same_structs_resource [OF same, of ?p ?r]) (use that in \<open>simp_all add: s1_def new_resource_def\<close>)
    have "map_option object_of \<circ> resources s1 = (map_option object_of \<circ> resources s)(?p \<mapsto> ((ca, i), f))"
      by (auto simp: s1_def object_of_def new_resource_def)
    then have "live_objects s1 = insert ((ca, i), f) (live_objects s)" using p(1) by (simp add: live_objects_def)
    with ok r live_objects_same [OF same] em(2) False i(1) m1(7) show ?thesis by simp
  qed
  then show "server_ok s'" "p = 0 \<Longrightarrow> live_objects s' = live_objects s"
    "p \<noteq> 0 \<Longrightarrow> \<exists>r. resources s' p = Some r \<and> WL_SERVER_ID_START \<le> rid r \<and> wl_map_lookup (objects c) (rid r) = Some 0 \<and>
      live_objects s' = insert ((ca, rid r), f) (live_objects s)" by blast+
qed

section \<open>Events of any kind\<close>

text \<open>
  Events may carry descriptors, and may be queued. The queue of outgoing descriptors stays in order as
  long as no more than 1024 wait in it.
\<close>

definition fds_fit :: "wl_connection \<Rightarrow> wl_message \<Rightarrow> bool" where
  "fds_fit conn m \<longleftrightarrow> no_fds (signature m) \<or>
     length (queued_fds (fds_out conn)) + arg_count_for_signature (signature m) \<le> 1024"

lemma copy_fds_conn_ok:
  assumes "copy_fds_loop i n sig cl c w = Some (cl', c', w', r)" "conn_ok c" "length (queued_fds (fds_out c)) + n \<le> 1024"
  shows "conn_ok c'"
  using assms
proof (induction i n sig cl c w rule: copy_fds_loop.induct)
  case (2 i n sig cl c w)
  obtain arg sg where sg: "get_next_argument sig = (arg, sg)" by (cases "get_next_argument sig")
  show ?case
  proof (cases "atype arg = CHR ''h''")
    case False
    with 2 sg show ?thesis by simp
  next
    case True
    then obtain fd where fd: "cargs cl ! i = Arg_h fd" using 2(3) sg by (auto split: wl_argument.splits)
    obtain c1 w1 r1 where put: "wl_connection_put_fd c fd w = Some (c1, w1, r1)"
      using 2(3) sg True fd by (auto simp: bind_eq_Some)
    have "length (queued_fds (fds_out c)) < 1024" using 2(5) by simp
    note p = wl_connection_put_fd_ok [OF 2(4) put this]
    have "length (queued_fds (fds_out c1)) \<le> Suc (length (queued_fds (fds_out c)))"
      using p(2) by (auto simp: output_grown_def fd_stream_def fds_released_def dest!: arg_cong [of _ _ length] split: if_splits)
    then have len: "length (queued_fds (fds_out c1)) + n \<le> 1024" using 2(5) by simp
    show ?thesis
      using 2(3) sg True fd put p(1) len 2(2) [OF sg [symmetric]] by (auto split: if_splits)
  qed
qed simp

lemma send_conn_ok:
  assumes f: "good_send f" and c: "conn_ok c" "fds_fit c (cmessage cl)" and run: "f A objs cl c w = Some (cl', c', w', r)"
  shows "conn_ok c'"
proof -
  obtain put B where put: "f A objs cl c w = closure_output put B objs cl c w"
    "\<And>c data w c' w' r. conn_ok c \<Longrightarrow> put c data w = Some (c', w', r) \<Longrightarrow> conn_ok c'"
    using f unfolding good_send_def wl_closure_send_def wl_closure_queue_def
    by (elim disjE) (metis wl_connection_write_ok(1), metis wl_connection_queue_ok(1))
  obtain cl1 c1 w1 r1 where cp: "copy_fds_to_connection cl c w = Some (cl1, c1, w1, r1)"
    using run put(1) by (auto simp: closure_output_def bind_eq_Some)
  have "conn_ok c1"
  proof (cases "no_fds (signature (cmessage cl))")
    case True
    with cp c(1) copy_fds_none show ?thesis by auto
  next
    case False
    with c(2) copy_fds_conn_ok [OF _ c(1)] cp show ?thesis
      by (auto simp: fds_fit_def copy_fds_to_connection_def Let_def)
  qed
  with run put cp show ?thesis
    by (auto simp: closure_output_def bind_eq_Some split: sum.splits option.splits fault.splits if_splits)
qed

text \<open>\<open>unmoved\<close>: only the connection of one client, its mark, the sockets, the counter and the log have changed.\<close>

definition unmoved :: "'u server \<Rightarrow> 'u server \<Rightarrow> bool" where
  "unmoved s s' \<longleftrightarrow> server_ok s' \<and> resources s' = resources s \<and> display s' = display s"

lemma unmovedI:
  assumes "server_ok s" "clients s ca = Some c" "conn_ok conn" "resources s' = resources s"
    "clients s' = (clients s)(ca \<mapsto> c\<lparr>connection := conn, cerror := e\<rparr>)" "display s' = display s"
  shows "unmoved s s'"
proof -
  obtain xs where xs: "map_ok (objects c) xs" "side (objects c) = WL_MAP_SERVER_SIDE"
    using server_okD(1) [OF assms(1,2)] by (auto simp: client_ok_def)
  have "server_ok s'"
    by (rule server_ok_client [OF assms(1,2), of "c\<lparr>connection := conn, cerror := e\<rparr>" xs]) (use assms xs in simp_all)
  with assms show ?thesis by (simp add: unmoved_def)
qed

lemma marshal_fields:
  assumes "wl_closure_marshal mem objs sender opcode args message w = Inr (Some cl, w')"
  shows "cmessage cl = message"
  using assms closure_init_fields [of mem message 0 "Some args"]
  by (auto simp: wl_closure_marshal_def split: sum.splits prod.splits fault.splits)

lemma event_unmoved:
  assumes s: "server_ok s" "resources s p = Some r" "clients s (rclient r) = Some c"
    and m: "nth_message (events (rinterface r)) opcode = Some m" "fds_fit (connection c) m"
    and run: "wl_resource_post_event E p opcode ap s = Some s' \<or> wl_resource_queue_event E p opcode ap s = Some s'"
  shows "unmoved s s'"
proof -
  obtain f args where f: "good_send f" and run': "handle_array E f p opcode args s = Some s'"
    using run by (auto simp: wl_resource_post_event_def wl_resource_queue_event_def
        wl_resource_post_event_array_def wl_resource_queue_event_array_def good_send_def elim!: va_event_frame)
  note run = run' [unfolded handle_array_def s(2,3) Option.bind.simps(2) m(1)]
  have cok: "conn_ok (connection c)" using server_okD(1) [OF s(1,3)] by (simp add: client_ok_def)
  have stay: "unmoved s t" if "resources t = resources s" "display t = display s"
    "clients t = (clients s)(rclient r \<mapsto> c\<lparr>cerror := e\<rparr>)" for t e
    by (rule unmovedI [OF s(1,3) cok, of t e]) (use that in simp_all)
  show ?thesis
  proof (cases "cerror c")
    case True
    with run s(1) show ?thesis by (simp add: unmoved_def)
  next
    case err: False
    obtain ok where ok: "verify_objects s (rclient r) m args = Some ok" using run err by (auto simp: bind_eq_Some)
    show ?thesis
    proof (cases ok)
      case False
      with run err ok s(3) show ?thesis by (intro stay [of s' True]) (auto simp: upd_client_def)
    next
      case True
      obtain res w1 where mar: "wl_closure_marshal (malloc E s \<noteq> 0) (object_at s) (robject r) opcode args m
          (sockets s (cfd (connection c))) = Inr (res, w1)"
        using run err ok True by (auto simp: Let_def do_malloc_def bind_eq_Some split: sum.splits)
      show ?thesis
      proof (cases res)
        case None
        with run err ok True mar s(3) show ?thesis
          by (intro stay [of s' True]) (auto simp: Let_def do_malloc_def upd_client_def upd_socket_def)
      next
        case (Some cl)
        obtain cl' conn w2 ret where snd: "f (blocks E) (object_at s) cl (connection c) w1 = Some (cl', conn, w2, ret)"
          "resources s' = resources s" "display s' = display s"
          "clients s' = (clients s)(rclient r \<mapsto> c\<lparr>connection := conn, cerror := ret \<noteq> 0\<rparr>)"
          using run err ok True mar Some s(3)
          by (auto simp: Let_def do_malloc_def upd_client_def upd_socket_def log_closure_def bind_eq_Some)
        have "cmessage cl = m" using marshal_fields mar Some by blast
        then have "conn_ok conn" using send_conn_ok [OF f cok _ snd(1)] m(2) by simp
        from unmovedI [OF s(1,3) this snd(2,4,3)] show ?thesis .
      qed
    qed
  qed
qed

lemma unmoved_emits: "server_ok s \<Longrightarrow> emits ca bs s s' \<Longrightarrow> unmoved s s'"
  by (simp add: unmoved_def server_ok_emits emits_fields)

lemma unmoved_trans: "unmoved s t \<Longrightarrow> unmoved t u \<Longrightarrow> unmoved s u"
  by (simp add: unmoved_def)

section \<open>Errors, globals and the rest\<close>

lemma error_unmoved:
  assumes s: "server_ok s" and run: "wl_resource_post_error E p code msg s = Some s'"
  shows "unmoved s s'"
proof -
  obtain r c where r: "resources s p = Some r" "clients s (rclient r) = Some c"
    using run by (auto simp: wl_resource_post_error_def bind_eq_Some)
  have "display_resource_ok s (rclient r)" using server_okD(1) [OF s r(2)] by (simp add: client_ok_def)
  from post_error_frame [OF run r(1) this] unmoved_emits [OF s] show ?thesis by metis
qed

lemma no_memory_unmoved:
  assumes "server_ok s" "wl_client_post_no_memory E ca s = Some s' \<or> wl_resource_post_no_memory E p s = Some s'"
  shows "unmoved s s'"
  using assms error_unmoved [OF assms(1)]
  by (auto simp: wl_client_post_no_memory_def wl_resource_post_no_memory_def bind_eq_Some)

text \<open>An event to every registry.\<close>

lemma broadcast_unmoved:
  assumes s: "server_ok s" and ps: "set ps \<subseteq> set (registry_resource_list (display s))"
    and run: "ofold (\<lambda>p. wl_resource_post_event E p opcode args) ps s = Some s'"
  shows "unmoved s s'"
proof (rule ofold_invariant [OF _ _ run, of "unmoved s"])
  show "unmoved s s" using s by (simp add: unmoved_def)
  fix p t u assume p: "p \<in> set ps" and t: "unmoved s t" and step: "wl_resource_post_event E p opcode args t = Some u"
  obtain r where r: "resources t p = Some r" "rinterface r = wl_registry_interface"
    using server_okD(3) [OF s] ps p t by (auto simp: registry_ok_def unmoved_def)
  obtain bs where "emits (rclient r) bs t u"
    by (rule event_frame [OF disjI1 [OF step] r(1)]) (use own_events [of "rinterface r"] r(2) that in auto)
  with t show "unmoved s u" using unmoved_trans unmoved_emits by (metis unmoved_def)
qed

text \<open>The list of globals and what is known of them has no part in the objects.\<close>

lemma kept_objects:
  assumes "server_ok s" "resources s' = resources s" "clients s' = clients s"
    "registry_resource_list (display s') = registry_resource_list (display s)"
  shows "server_ok s'" "live_objects s' = live_objects s"
proof -
  show "server_ok s'"
    using assms by (simp add: server_ok_def client_ok_def resource_ok_def registry_ok_def display_resource_ok_def)
  show "live_objects s' = live_objects s" by (simp add: live_objects_def assms(2))
qed

lemma global_create_objects:
  assumes s: "server_ok s" and run: "wl_global_create E iface v data bnd s = Some (ga, s')"
  shows "server_ok s' \<and> live_objects s' = live_objects s"
proof (cases "v < 1 \<or> v > iversion (ispec iface) \<or> malloc E s = 0")
  case True
  with run kept_objects [OF s, of "s\<lparr>ticks := ticks s + 1\<rparr>"] s show ?thesis
    by (auto simp: wl_global_create_def do_malloc_def split: if_splits)
next
  case False
  define g where "g = \<lparr>ginterface = iface, gname = did (display s), gversion = of_int v, gdata = data, gbind = bnd\<rparr>"
  define s1 where "s1 = (upd_display (\<lambda>d. d\<lparr>did := did d + 1, global_list := global_list d @ [malloc E s]\<rparr>)
    (s\<lparr>ticks := ticks s + 1\<rparr>))\<lparr>globals := (globals s)(malloc E s \<mapsto> g)\<rparr>"
  have s1: "resources s1 = resources s" "clients s1 = clients s"
    "registry_resource_list (display s1) = registry_resource_list (display s)"
    by (simp_all add: s1_def upd_display_def)
  note k = kept_objects [OF s s1]
  have "ofold (post_global E g) (registry_resource_list (display s1)) s1 = Some s'"
    using run False by (auto simp: wl_global_create_def do_malloc_def Let_def upd_display_def s1_def g_def bind_eq_Some)
  from broadcast_unmoved [OF k(1) order_refl this [unfolded post_global_def]] k(2)
  show ?thesis by (simp add: unmoved_def live_objects_def)
qed

lemma global_destroy_objects:
  assumes s: "server_ok s" and run: "wl_global_destroy E ga s = Some s'"
  shows "server_ok s' \<and> live_objects s' = live_objects s"
proof -
  obtain g where g: "globals s ga = Some g" using run by (auto simp: wl_global_destroy_def bind_eq_Some)
  obtain s1 where s1: "ofold (\<lambda>p. wl_resource_post_event E p WL_REGISTRY_GLOBAL_REMOVE [Arg_u (gname g)])
      (registry_resource_list (display s)) s = Some s1"
    using run by (auto simp: wl_global_destroy_def g bind_eq_Some)
  have s': "s' = (upd_display (global_list_update (remove1 ga)) s1)\<lparr>globals := (globals s1)(ga := None)\<rparr>"
    using run by (simp add: wl_global_destroy_def g s1 upd_display_def Let_def)
  note u = broadcast_unmoved [OF s order_refl s1]
  then have "server_ok s1" by (simp add: unmoved_def)
  from kept_objects [OF this, of s'] s' u show ?thesis
    by (simp add: upd_display_def unmoved_def live_objects_def)
qed

text \<open>The compositor gives a resource of its own an implementation, and a destructor.\<close>

definition compositors_own :: "wl_resource \<Rightarrow> bool" where
  "compositors_own r \<longleftrightarrow> rimplementation r \<notin> {Display_interface, Registry_interface} \<and>
     rdestroy r \<notin> {Destroy_client_display_resource, Unbind_resource}"

lemma implement_objects:
  assumes s: "server_ok s" and r: "resources s p = Some r" "compositors_own r" "compositors_own r'"
    "rinterface r' = rinterface r" "rid r' = rid r" "rclient r' = rclient r"
    and s': "s' = s\<lparr>resources := (resources s)(p \<mapsto> r')\<rparr>"
  shows "server_ok s' \<and> live_objects s' = live_objects s"
proof
  have res: "resources s' q = (if q = p then Some r' else resources s q)" for q by (simp add: s')
  have same: "clients s' = clients s" "display s' = display s" by (simp_all add: s')
  show "server_ok s'"
    unfolding server_ok_def
  proof (intro conjI allI impI)
    fix ca c assume "clients s' ca = Some c"
    then have c: "clients s ca = Some c" by (simp add: same)
    note ok = server_okD(1) [OF s c]
    have "\<exists>x. resources s' q = Some x \<and> rid x = i \<and> rclient x = ca" if "wl_map_lookup (objects c) i = Some q" "q \<noteq> 0" for i q
    proof -
      obtain x where "resources s q = Some x" "rid x = i" "rclient x = ca"
        by (rule client_ok_lookup [OF ok \<open>wl_map_lookup (objects c) i = Some q\<close> \<open>q \<noteq> 0\<close>])
      with r show ?thesis by (cases "q = p") (auto simp: res)
    qed
    moreover have "display_resource_ok s' ca"
      using ok r(1,2) by (auto simp: client_ok_def display_resource_ok_def same res compositors_own_def)
    ultimately show "client_ok s' ca c" using ok by (simp add: client_ok_def)
  next
    fix q x assume x: "resources s' q = Some x"
    show "resource_ok s' q x"
    proof (cases "q = p")
      case True
      then have "x = r'" using x by (simp add: res)
      with True server_okD(2) [OF s r(1)] r(3-6) show ?thesis by (auto simp: resource_ok_def impl_ok_def compositors_own_def same)
    next
      case False
      then have "resources s q = Some x" using x by (simp add: res)
      from server_okD(2) [OF s this] show ?thesis by (simp add: resource_ok_def same)
    qed
  next
    have "p \<notin> set (registry_resource_list (display s))"
      using server_okD(3) [OF s] r(1,2) by (auto simp: registry_ok_def compositors_own_def)
    then show "registry_ok s'" using server_okD(3) [OF s] by (auto simp: registry_ok_def same res)
  qed
  have "map_option object_of \<circ> resources s' = map_option object_of \<circ> resources s"
    using r by (auto simp: res fun_eq_iff object_of_def)
  then show "live_objects s' = live_objects s" by (simp add: live_objects_def)
qed

text \<open>Bytes come in, bytes go out.\<close>

lemma input_unmoved:
  assumes s: "server_ok s" "clients s ca = Some c" and len: "length (contents (inb (connection c))) < BUFFER_SIZE"
    and w: "recvmsg_retry (recvs (sockets s (cfd (connection c)))) = Some (Deliver bs cs, rest)" "bs \<noteq> []"
      "\<forall>m \<in> set cs. 4 dvd length (cmsg_data m)"
    and run: "wl_connection_read (connection c) (sockets s (cfd (connection c))) = Some (conn, w', n)"
  shows "unmoved s (s\<lparr>sockets := (sockets s)(cfd (connection c) := w'), clients := (clients s)(ca \<mapsto> c\<lparr>connection := conn\<rparr>)\<rparr>)"
proof -
  have cok: "conn_ok (connection c)" using server_okD(1) [OF s] by (simp add: client_ok_def)
  have room: "unat (wl_buffer_size (inb (connection c))) < BUFFER_SIZE" using len by simp
  have "conn_ok conn"
    by (rule wl_connection_read_deliver [OF cok room w(1,2)]) (use w(3) run in auto)
  from unmovedI [OF s this, of _ "cerror c"] show ?thesis by simp
qed

lemma flush_unmoved:
  assumes s: "server_ok s" and run: "wl_client_flush ca s = Some (ret, s')"
  shows "unmoved s s'"
proof -
  obtain c where c: "clients s ca = Some c" using run by (auto simp: wl_client_flush_def bind_eq_Some)
  have cok: "conn_ok (connection c)" using server_okD(1) [OF s c] by (simp add: client_ok_def)
  obtain conn w where f: "conn_ok conn"
    "s' = s\<lparr>sockets := (sockets s)(cfd (connection c) := w), clients := (clients s)(ca \<mapsto> c\<lparr>connection := conn\<rparr>)\<rparr>"
    by (rule client_flush_frame [OF c cok run]) (rule that)
  from unmovedI [OF s c f(1), of s' "cerror c"] f(2) show ?thesis by simp
qed

section \<open>The abstract operations\<close>

text \<open>
  The abstract state: the table of objects, and the ids that requests of clients have announced for new
  objects and that no handler has used yet. The operations, and when the protocol allows them:
  an announced id names nothing and lies in the clients' range, a new object takes an id that was
  announced or, in the server's range, one that names nothing, only an object that is there is
  deleted. \<open>Answer\<close> is an object that lives within one operation only, the callback of sync.
\<close>

type_synonym announced = "(u64 \<times> u32) set"

datatype object_op = Join u64 | Announce u64 "u32 set" | New u64 u32 interface_spec | Answer u64 u32
  | Allocate u64 u32 interface_spec | Delete u64 u32 | Leave u64 | Nothing

fun enabled :: "object_op \<Rightarrow> object_table \<times> announced \<Rightarrow> bool" where
  "enabled (Join ca) (T, A) \<longleftrightarrow> (\<forall>i. T (ca, i) = None)"
| "enabled (Announce ca is) (T, A) \<longleftrightarrow> (\<forall>i \<in> is. i \<noteq> 0 \<and> i < WL_SERVER_ID_START \<and> T (ca, i) = None)"
| "enabled (New ca i f) (T, A) \<longleftrightarrow> (ca, i) \<in> A \<and> T (ca, i) = None"
| "enabled (Answer ca i) (T, A) \<longleftrightarrow> (ca, i) \<in> A \<and> T (ca, i) = None"
| "enabled (Allocate ca i f) (T, A) \<longleftrightarrow> WL_SERVER_ID_START \<le> i \<and> T (ca, i) = None"
| "enabled (Delete ca i) (T, A) \<longleftrightarrow> T (ca, i) \<noteq> None"
| "enabled _ X \<longleftrightarrow> True"

fun apply_op :: "object_op \<Rightarrow> object_table \<times> announced \<Rightarrow> object_table \<times> announced" where
  "apply_op (Join ca) (T, A) = (T((ca, 1) \<mapsto> wl_display_interface), {(x, i) \<in> A. x \<noteq> ca})"
| "apply_op (Announce ca is) (T, A) = (T, A \<union> {ca} \<times> is)"
| "apply_op (New ca i f) (T, A) = (T((ca, i) \<mapsto> f), A - {(ca, i)})"
| "apply_op (Answer ca i) (T, A) = (T, A - {(ca, i)})"
| "apply_op (Allocate ca i f) (T, A) = (T((ca, i) \<mapsto> f), A)"
| "apply_op (Delete ca i) (T, A) = (T((ca, i) := None), A)"
| "apply_op (Leave ca) (T, A) = (\<lambda>(x, i). if x = ca then None else T (x, i), {(x, i) \<in> A. x \<noteq> ca})"
| "apply_op Nothing X = X"

fun object_run :: "object_table \<times> announced \<Rightarrow> object_op list \<Rightarrow> object_table \<times> announced \<Rightarrow> bool" where
  "object_run X [] Y \<longleftrightarrow> Y = X"
| "object_run X (op # ops) Y \<longleftrightarrow> enabled op X \<and> object_run (apply_op op X) ops Y"

fun announced_free :: "object_table \<times> announced \<Rightarrow> bool" where
  "announced_free (T, A) \<longleftrightarrow> (\<forall>(ca, i) \<in> A. i \<noteq> 0 \<and> i < WL_SERVER_ID_START \<and> T (ca, i) = None)"

lemma announced_free_apply: "enabled op X \<Longrightarrow> announced_free X \<Longrightarrow> announced_free (apply_op op X)"
  by (cases X; cases op) auto

section \<open>The operations of the library\<close>

text \<open>The ids of new objects in a demarshalled request.\<close>

definition new_ids :: "wl_closure option \<Rightarrow> u32 set" where
  "new_ids res = (case res of None \<Rightarrow> {} | Some cl \<Rightarrow> {i. i \<noteq> 0 \<and> (\<exists>k < ccount cl.
     atype (details (signature (cmessage cl)) ! k) = CHR ''n'' \<and> cargs cl ! k = Arg_n i)})"

text \<open>
  The operations on a server, with the abstract operation each stands for. A handler creates an object
  under an id that a request has announced (\<open>create\<close>, \<open>sync\<close>, \<open>get_registry\<close>), or lets the library choose
  the id (\<open>allocate\<close>). The tables of ids have room: \<open>2 ^ 31\<close> ids of a client, \<open>2 ^ 24\<close> of the server
  for one client. The bytes of a request may be anything, as may the message they are read for.
\<close>

inductive object_step :: "'u senv \<Rightarrow> 'u server \<times> announced \<Rightarrow> object_op \<Rightarrow> 'u server \<times> announced \<Rightarrow> bool" for E where
  connect: "wl_client_create E fd src cred data s = Some (ca, s') \<Longrightarrow> ca \<noteq> 0 \<Longrightarrow>
     object_step E (s, A) (Join ca) (s', {(x, i) \<in> A. x \<noteq> ca})"
| leave: "clients s ca = Some c \<Longrightarrow> wl_client_destroy E ca s = Some s' \<Longrightarrow>
     object_step E (s, A) (Leave ca) (s', {(x, i) \<in> A. x \<noteq> ca})"
| input: "clients s ca = Some c \<Longrightarrow> length (contents (inb (connection c))) < BUFFER_SIZE \<Longrightarrow>
     recvmsg_retry (recvs (sockets s (cfd (connection c)))) = Some (Deliver bs cs, rest) \<Longrightarrow> bs \<noteq> [] \<Longrightarrow>
     (\<forall>m \<in> set cs. 4 dvd length (cmsg_data m)) \<Longrightarrow>
     wl_connection_read (connection c) (sockets s (cfd (connection c))) = Some (conn, w, n) \<Longrightarrow>
     object_step E (s, A) Nothing (s\<lparr>sockets := (sockets s)(cfd (connection c) := w),
       clients := (clients s)(ca \<mapsto> c\<lparr>connection := conn\<rparr>)\<rparr>, A)"
| receive: "clients s ca = Some c \<Longrightarrow> unat sz \<le> length (contents (inb (connection c))) \<Longrightarrow>
     peer_room (objects c) WL_CLOSURE_MAX_ARGS \<Longrightarrow>
     wl_connection_demarshal mem (blocks E) (connection c) sz (objects c) message (sockets s (cfd (connection c))) =
       Inr (res, conn, m, w) \<Longrightarrow>
     object_step E (s, A) (Announce ca (new_ids res)) (demarshalled ca c conn m w s, A \<union> {ca} \<times> new_ids res)"
| create: "clients s ca = Some c \<Longrightarrow> (ca, i) \<in> A \<Longrightarrow> peer_room (objects c) 1 \<Longrightarrow> interface_ok f \<Longrightarrow>
     wl_resource_create E ca f v i s = Some (p, s') \<Longrightarrow>
     object_step E (s, A) (if p = 0 then Nothing else New ca i f) (s', if p = 0 then A else A - {(ca, i)})"
| allocate: "clients s ca = Some c \<Longrightarrow> cell_count (entries_of False (objects c)) < 2 ^ 24 \<Longrightarrow> interface_ok f \<Longrightarrow>
     wl_resource_create E ca f v 0 s = Some (p, s') \<Longrightarrow>
     object_step E (s, A) (if p = 0 then Nothing else Allocate ca (rid (the (resources s' p))) f) (s', A)"
| destroy: "resources s p = Some r \<Longrightarrow> wl_resource_destroy E p s = Some s' \<Longrightarrow>
     object_step E (s, A) (Delete (rclient r) (rid r)) (s', A)"
| sync: "clients s ca = Some c \<Longrightarrow> (ca, i) \<in> A \<Longrightarrow> peer_room (objects c) 1 \<Longrightarrow> display_sync E ca p i s = Some s' \<Longrightarrow>
     object_step E (s, A) (Answer ca i) (s', A - {(ca, i)})"
| get_registry: "clients s ca = Some c \<Longrightarrow> (ca, i) \<in> A \<Longrightarrow> peer_room (objects c) 1 \<Longrightarrow>
     display_get_registry E ca p i s = Some s' \<Longrightarrow> wl_resource_create E ca wl_registry_interface 1 i s = Some (rp, s1) \<Longrightarrow>
     object_step E (s, A) (if rp = 0 then Nothing else New ca i wl_registry_interface) (s', if rp = 0 then A else A - {(ca, i)})"
| event: "resources s p = Some r \<Longrightarrow> clients s (rclient r) = Some c \<Longrightarrow>
     nth_message (events (rinterface r)) opcode = Some m \<Longrightarrow> fds_fit (connection c) m \<Longrightarrow>
     wl_resource_post_event E p opcode as s = Some s' \<or> wl_resource_queue_event E p opcode as s = Some s' \<Longrightarrow>
     object_step E (s, A) Nothing (s', A)"
| error: "wl_resource_post_error E p code msg s = Some s' \<Longrightarrow> object_step E (s, A) Nothing (s', A)"
| no_memory: "wl_client_post_no_memory E ca s = Some s' \<or> wl_resource_post_no_memory E p s = Some s' \<Longrightarrow>
     object_step E (s, A) Nothing (s', A)"
| global_create: "wl_global_create E iface version data bnd s = Some (ga, s') \<Longrightarrow> object_step E (s, A) Nothing (s', A)"
| global_destroy: "wl_global_destroy E ga s = Some s' \<Longrightarrow> object_step E (s, A) Nothing (s', A)"
| implement: "resources s p = Some r \<Longrightarrow> compositors_own r \<Longrightarrow> impl \<notin> {Display_interface, Registry_interface} \<Longrightarrow>
     dst \<notin> {Destroy_client_display_resource, Unbind_resource} \<Longrightarrow>
     wl_resource_set_implementation p impl data dst s = Some s' \<or> wl_resource_set_dispatcher p disp impl data dst s = Some s' \<Longrightarrow>
     object_step E (s, A) Nothing (s', A)"
| listen: "wl_resource_add_destroy_listener p l s = Some s' \<Longrightarrow> object_step E (s, A) Nothing (s', A)"
| release: "wl_closure_release ca cl s = Some s' \<Longrightarrow> object_step E (s, A) Nothing (s', A)"
| flush: "wl_client_flush ca s = Some (ret, s') \<Longrightarrow> object_step E (s, A) Nothing (s', A)"
| own: "object_step E (s, A) Nothing (s\<lparr>user := u, logged := ls\<rparr>, A)"

inductive object_steps :: "'u senv \<Rightarrow> 'u server \<times> announced \<Rightarrow> object_op list \<Rightarrow> 'u server \<times> announced \<Rightarrow> bool" for E where
  stop: "object_steps E x [] x"
| step: "object_step E x op y \<Longrightarrow> object_steps E y ops z \<Longrightarrow> object_steps E x (op # ops) z"

section \<open>The refinement\<close>

text \<open>An announced id can be given to a new object.\<close>

lemma announced_available:
  assumes "server_ok s" "clients s ca = Some c" "announced_free (object_table s, A)" "(ca, i) \<in> A" "peer_room (objects c) 1"
  shows "id_available (objects c) i"
proof -
  have i: "i \<noteq> 0" "i < WL_SERVER_ID_START" "object_table s (ca, i) = None" using assms(3,4) by auto
  obtain xs where xs: "map_ok (objects c) xs" using server_okD(1) [OF assms(1,2)] by (auto simp: client_ok_def)
  obtain p where p: "wl_map_lookup (objects c) i = Some p"
    using wl_map_lookup_cells(1) [OF table_ok_entries [OF xs]] by (cases "slot i") auto
  have "p = 0"
  proof (rule ccontr)
    assume "p \<noteq> 0"
    then obtain r where "resources s p = Some r" using client_ok_lookup [OF server_okD(1) [OF assms(1,2)] p] by metis
    with p \<open>p \<noteq> 0\<close> i(3) assms(2) show False by (simp add: object_table_def)
  qed
  with p i(1,2) assms(5) show ?thesis by (simp add: id_available_def)
qed

lemma receive_objects:
  assumes E: "env_ok E" and s: "server_ok s" "clients s ca = Some c"
    and fit: "unat sz \<le> length (contents (inb (connection c)))" and room: "peer_room (objects c) WL_CLOSURE_MAX_ARGS"
    and run: "wl_connection_demarshal mem (blocks E) (connection c) sz (objects c) message (sockets s (cfd (connection c))) =
      Inr (res, conn, m, w)"
  shows "server_ok (demarshalled ca c conn m w s)" "live_objects (demarshalled ca c conn m w s) = live_objects s"
    "i \<in> new_ids res \<Longrightarrow> i \<noteq> 0 \<and> i < WL_SERVER_ID_START \<and> object_table s (ca, i) = None"
proof -
  obtain xs where m: "map_ok (objects c) xs" "side (objects c) = WL_MAP_SERVER_SIDE" "conn_ok (connection c)"
    using server_okD(1) [OF s] by (auto simp: client_ok_def)
  have A: "allocator_ok (blocks E)" "\<And>n. blocks E n \<noteq> None" using E by (auto simp: env_ok_def)
  have dem: "conn_ok conn" "map_ok m xs" "wl_map_lookup m = wl_map_lookup (objects c)"
    "wl_map_lookup_flags m = wl_map_lookup_flags (objects c)" "side m = side (objects c)"
    using wl_connection_demarshal_safe [OF m(3) disjI2 fit A m(1) room, of mem message "sockets s (cfd (connection c))"] run
    by auto
  show "server_ok (demarshalled ca c conn m w s)"
    by (rule server_ok_client [OF s, of "c\<lparr>connection := conn, objects := m\<rparr>" xs]) (use dem m(2) in \<open>simp_all add: demarshalled_def\<close>)
  show "live_objects (demarshalled ca c conn m w s) = live_objects s" by (simp add: live_objects_def demarshalled_def)
  show "i \<noteq> 0 \<and> i < WL_SERVER_ID_START \<and> object_table s (ca, i) = None" if new: "i \<in> new_ids res"
  proof -
    obtain cl k where cl: "res = Some cl" "i \<noteq> 0" "k < ccount cl"
      "atype (details (signature (cmessage cl)) ! k) = CHR ''n''" "cargs cl ! k = Arg_n i"
      using new unfolding new_ids_def by (cases res) auto
    have "closure_received m message cl" by (rule demarshal_received [OF run [unfolded cl(1)] A m(1) room])
    then have "received_arg m (details (signature (cmessage cl)) ! k) (Arg_n i)"
      using cl(3,5) by (auto simp: closure_received_def)
    then have "id_reserved m i" using cl(4) by (simp add: received_arg_def)
    then have "i < WL_SERVER_ID_START" "wl_map_lookup m i = Some 0"
      using server_side_map [of m] dem(5) m(2) by (auto simp: id_reserved_def slot_def split: if_splits)
    with cl(2) dem(3) s(2) show ?thesis by (simp add: object_table_def)
  qed
qed

lemma quiet_refines:
  assumes "server_ok s" "server_ok s'" "live_objects s' = live_objects s"
  shows "server_ok s' \<and> enabled Nothing (object_table s, A) \<and> (object_table s', A) = apply_op Nothing (object_table s, A)"
  using assms(2) object_table_same [OF assms] by simp

lemma unmoved_refines:
  assumes "server_ok s" "unmoved s s'"
  shows "server_ok s' \<and> enabled Nothing (object_table s, A) \<and> (object_table s', A) = apply_op Nothing (object_table s, A)"
  using assms by (intro quiet_refines) (simp_all add: unmoved_def live_objects_def)

lemma step_refines:
  assumes E: "env_ok E" and s: "server_ok s" "announced_free (object_table s, A)" and step: "object_step E (s, A) op (s', A')"
  shows "server_ok s' \<and> enabled op (object_table s, A) \<and> (object_table s', A') = apply_op op (object_table s, A)"
  using step
proof cases
  case (connect fd src cred data ca)
  note c = connect_objects [OF E s(1) connect(3,4)]
  then have none: "\<forall>i. object_table s (ca, i) = None" by (simp add: object_table_def)
  with object_table_new [OF s(1)] c have "object_table s' = (object_table s)((ca, 1) \<mapsto> wl_display_interface)" by blast
  with c none connect(1,2) show ?thesis by simp
next
  case (leave ca c)
  note ok = client_destroy_ok(1) [OF E s(1) leave(3,4)]
  from ok object_table_filter [OF s(1) ok leave_objects [OF E s(1) leave(3,4)]] leave(1,2) show ?thesis by (auto simp: fun_eq_iff)
next
  case (input ca c bs cs rest conn w n)
  from unmoved_refines [OF s(1) input_unmoved [OF s(1) input(4-9)]] input(1-3) show ?thesis by simp
next
  case (receive ca c sz mem message res conn m w)
  note r = receive_objects [OF E s(1) receive(4-7)]
  from r(1,3) object_table_same [OF s(1) r(1,2)] receive(1-3) show ?thesis by simp
next
  case (create ca c i f v p)
  note av = announced_available [OF s(1) create(3) s(2) create(4,5)]
  note ok = resource_create_ok(1) [OF E s(1) create(3) av create(6,7)] and lo = create_objects [OF E s(1) create(3) av create(6,7)]
  show ?thesis
  proof (cases "p = 0")
    case True
    with lo quiet_refines [OF s(1) ok] create(1,2) show ?thesis by simp
  next
    case False
    with lo ok object_table_new [OF s(1) ok] available_free [OF create(3) av] create(1,2,4) show ?thesis by simp
  qed
next
  case (allocate ca c f v p)
  note al = allocate_objects [OF E s(1) allocate(3,5,4,6)]
  show ?thesis
  proof (cases "p = 0")
    case True
    with al(1,2) quiet_refines [OF s(1) al(1)] allocate(1,2) show ?thesis by simp
  next
    case False
    obtain r where r: "resources s' p = Some r" "WL_SERVER_ID_START \<le> rid r" "wl_map_lookup (objects c) (rid r) = Some 0"
      "live_objects s' = insert ((ca, rid r), f) (live_objects s)" using al(3) [OF False] by blast
    have "object_table s (ca, rid r) = None" using r(3) allocate(3) by (simp add: object_table_def)
    with object_table_new [OF s(1) al(1) r(4)] al(1) r(1,2) False allocate(1,2) show ?thesis by simp
  qed
next
  case (destroy p r)
  obtain c where c: "clients s (rclient r) = Some c" using server_okD(2) [OF s(1) destroy(3)] by (auto simp: resource_ok_def)
  note ok = resource_destroy_ok(1) [OF E s(1) destroy(3) c destroy(4)] and lo = destroy_objects [OF E s(1) destroy(3) c destroy(4)]
  have "object_table s (rclient r, rid r) = Some (rinterface r)"
    using destroy(3) by (auto simp: object_table_iff [OF s(1)] live_objects_iff object_of_def)
  with ok object_table_filter [OF s(1) ok lo] destroy(1,2) show ?thesis by (auto simp: fun_eq_iff)
next
  case (sync ca c i p)
  note av = announced_available [OF s(1) sync(3) s(2) sync(4,5)]
  note ok = display_sync_ok(1) [OF E s(1) sync(3) av sync(6)]
  from ok object_table_same [OF s(1) ok sync_objects [OF E s(1) sync(3) av sync(6)]] available_free [OF sync(3) av] sync(1,2,4)
  show ?thesis by simp
next
  case (get_registry ca c i p rp s1)
  note av = announced_available [OF s(1) get_registry(3) s(2) get_registry(4,5)]
  note ok = display_get_registry_ok(1) [OF E s(1) get_registry(3) av get_registry(6)]
    and lo = registry_objects [OF E s(1) get_registry(3) av get_registry(6,7)]
  show ?thesis
  proof (cases "rp = 0")
    case True
    with lo quiet_refines [OF s(1) ok] get_registry(1,2) show ?thesis by simp
  next
    case False
    with lo ok object_table_new [OF s(1) ok] available_free [OF get_registry(3) av] get_registry(1,2,4) show ?thesis by simp
  qed
next
  case (event p r c opcode m as)
  from unmoved_refines [OF s(1) event_unmoved [OF s(1) event(3-7)]] event(1,2) show ?thesis by simp
next
  case (error p code msg)
  from unmoved_refines [OF s(1) error_unmoved [OF s(1) error(3)]] error(1,2) show ?thesis by simp
next
  case (no_memory ca p)
  from unmoved_refines [OF s(1) no_memory_unmoved [OF s(1) no_memory(3)]] no_memory(1,2) show ?thesis by simp
next
  case (global_create iface version data bnd ga)
  note g = global_create_objects [OF s(1) global_create(3)]
  from quiet_refines [OF s(1) conjunct1 [OF g] conjunct2 [OF g]] global_create(1,2) show ?thesis by simp
next
  case (global_destroy ga)
  note g = global_destroy_objects [OF s(1) global_destroy(3)]
  from quiet_refines [OF s(1) conjunct1 [OF g] conjunct2 [OF g]] global_destroy(1,2) show ?thesis by simp
next
  case (implement p r impl dst data disp)
  obtain r' where r': "s' = s\<lparr>resources := (resources s)(p \<mapsto> r')\<rparr>" "compositors_own r'"
    "rinterface r' = rinterface r" "rid r' = rid r" "rclient r' = rclient r"
    using implement(3,5-7) by (auto simp: wl_resource_set_implementation_def wl_resource_set_dispatcher_def upd_resource_def
        compositors_own_def)
  note g = implement_objects [OF s(1) implement(3,4) r'(2-5,1)]
  from quiet_refines [OF s(1) conjunct1 [OF g] conjunct2 [OF g]] implement(1,2) show ?thesis by simp
next
  case (listen p l)
  have "same_structs s s'"
    using listen(3) by (auto simp: wl_resource_add_destroy_listener_def bind_eq_Some upd_resource_def same_structs_def
        resource_view_def split: if_splits)
  from quiet_refines [OF s(1) server_ok_same [OF s(1) this] live_objects_same [OF this]] listen(1,2) show ?thesis by simp
next
  case (release ca cl)
  note f = release_frame [OF release(3)]
  from quiet_refines [OF s(1) f(3) [OF s(1)]] f(2) release(1,2) show ?thesis by (simp add: live_objects_def)
next
  case (flush ca ret)
  from unmoved_refines [OF s(1) flush_unmoved [OF s(1) flush(3)]] flush(1,2) show ?thesis by simp
next
  case (own u ls)
  have "same_structs s s'" using own by (simp add: same_structs_def)
  from quiet_refines [OF s(1) server_ok_same [OF s(1) this] live_objects_same [OF this]] own show ?thesis by simp
qed

text \<open>
  C3: The server refines the table of protocol objects. Whatever sequence of these operations runs (clients connecting
  and leaving, requests of any content demarshalled, objects created under the ids the requests announced
  or under ids of the server, destroyed, sync and registry requests, events of every kind posted or queued, errors,
  globals created and destroyed), the objects that the ids of the clients lead to are exactly those the
  abstract operations give, and each of these is allowed: an announced id names nothing, no id in use
  is given out again, nothing is deleted twice. The server is in order all along.
\<close>

theorem server_refines_objects:
  assumes "env_ok E" "server_ok s" "announced_free (object_table s, A)" "object_steps E (s, A) ops (s', A')"
  shows "server_ok s' \<and> announced_free (object_table s', A') \<and> object_run (object_table s, A) ops (object_table s', A')"
  using assms(4,2,3)
proof (induction "(s, A)" ops "(s', A')" arbitrary: s A rule: object_steps.induct)
  case stop
  then show ?case by simp
next
  case (step op y ops)
  obtain t B where y: "y = (t, B)" by (cases y)
  from step_refines [OF assms(1) step.prems step.hyps(1) [unfolded y]] have
    st: "server_ok t" "enabled op (object_table s, A)" "(object_table t, B) = apply_op op (object_table s, A)" by blast+
  with announced_free_apply step.prems(2) have "announced_free (object_table t, B)" by metis
  with step.hyps(3) [OF y st(1)] st(2,3) show ?case by simp
qed

text \<open>A client connects and leaves; another connects, and a handler makes the object 2 that it has announced.\<close>

theorem server_refines_objects_witness:
  "\<exists>ca s s'. object_steps demo_env (empty_server (), {}) [Join ca, Leave ca] (s', {}) \<and> object_table s' = Map.empty \<and>
    (\<exists>t. wl_client_create demo_env 9 True (Some (1, 2, 3)) 8 (empty_server ()) = Some (ca, s) \<and>
      object_steps demo_env (s, {(ca, 2)}) [New ca 2 wl_callback_interface] (t, {}) \<and>
      object_table t = [(ca, 1) \<mapsto> wl_display_interface, (ca, 2) \<mapsto> wl_callback_interface])"
proof -
  obtain ca c r and s :: "unit server" where
    s: "wl_client_create demo_env 9 True (Some (1, 2, 3)) 8 (empty_server ()) = Some (ca, s)"
    "connected demo_env 9 (empty_server ()) ca c r s" "\<And>n. n < 2 ^ 49 \<Longrightarrow> mem_available demo_env n s"
    by (rule demo_connected) (rule that)
  have c: "clients s ca = Some c" "server_ok s" "resource_created_signal c = wl_priv_signal_init"
    "wl_map_lookup (objects c) = (\<lambda>_. Some 0)(1 := Some (display_resource c))" "cell_count (client_entries (objects c)) = 2"
    using s(2) by (simp_all add: connected_def quiet_signals_def)
  note q = demo_client_callees [OF s(2)]
  have ca: "ca \<noteq> 0" using server_okD(1) [OF c(2,1)] by (simp add: client_ok_def)
  have empty: "object_table (empty_server ()) = Map.empty" by (auto simp: object_table_def fun_eq_iff)
  have l: "linked_once (cdestroy_signal c)" "client_callees ca s \<inter> signal_callees ca (cdestroy_signal c) = {}"
    by (simp_all add: q(3) linked_once_def signal_callees_def wl_priv_signal_init_def)
  obtain s' where s': "wl_client_destroy demo_env ca s = Some s'"
    using client_destroy_returns [OF demo_env_ok q(1) c(2,1) q(2) l TrueI q(4)] by blast
  have j: "object_step demo_env (empty_server (), {}) (Join ca) (s, {})"
    using object_step.connect [OF s(1) ca, of "{}"] by simp
  have lv: "object_step demo_env (s, {}) (Leave ca) (s', {})"
    using object_step.leave [OF c(1) s', of "{}"] by simp
  have join: "object_steps demo_env (empty_server (), {}) [Join ca] (s, {})"
    by (rule object_steps.step [OF j object_steps.stop])
  have run: "object_steps demo_env (empty_server (), {}) [Join ca, Leave ca] (s', {})"
    by (rule object_steps.step [OF j object_steps.step [OF lv object_steps.stop]])
  have free: "announced_free (object_table (empty_server ()), {})" by simp
  have gone: "object_table s' = Map.empty"
    using server_refines_objects [OF demo_env_ok empty_server_ok(1) free run] empty by (auto simp: fun_eq_iff split: if_splits)
  have one: "object_table s = [(ca, 1) \<mapsto> wl_display_interface]"
    using server_refines_objects [OF demo_env_ok empty_server_ok(1) free join] empty by auto
  have room: "peer_room (objects c) 1" using peer_room_client [OF server_okD(1) [OF c(2,1)], of 1] c(5) by (simp add: table_limit_def)
  have av: "id_available (objects c) 2" "unat (2 :: u32) \<le> cell_count (client_entries (objects c))"
    using c(4,5) room by (simp_all add: id_available_def WL_SERVER_ID_START_def)
  have "mem_available demo_env 3 s" by (rule s(3)) simp
  then have mem: "malloc demo_env s \<noteq> 0" by (rule mem_availableD) auto
  obtain p t where t: "wl_resource_create demo_env ca wl_callback_interface 1 2 s = Some (p, t)" "p \<noteq> 0"
    using resource_create_run [OF demo_env_ok c(2,1) av mem c(3)] mem by metis
  have "object_step demo_env (s, {(ca, 2)}) (New ca 2 wl_callback_interface) (t, {})"
    using object_step.create [OF c(1) _ room own_interfaces_ok(3) t(1), of "{(ca, 2)}"] t(2) by simp
  then have run2: "object_steps demo_env (s, {(ca, 2)}) [New ca 2 wl_callback_interface] (t, {})"
    by (rule object_steps.step) (rule object_steps.stop)
  have free2: "announced_free (object_table s, {(ca, 2)})" by (simp add: one WL_SERVER_ID_START_def)
  from server_refines_objects [OF demo_env_ok c(2) free2 run2]
  have "object_table t = [(ca, 1) \<mapsto> wl_display_interface, (ca, 2) \<mapsto> wl_callback_interface]" by (simp add: one)
  with run gone run2 s(1) show ?thesis by blast
qed

end
