(* ===== verification/Wl_Event_Loop.thy ===== *)
theory Wl_Event_Loop
  imports Wl_Signal "HOL-Library.Signed_Division"
begin

unbundle bit_operations_syntax

text \<open>
  The event loop (\<^verbatim>\<open>event-loop.c\<close>): sources of events on descriptors, timers and signals, idle tasks,
  and the dispatch of what \<^verbatim>\<open>epoll_wait\<close> reports. There is one loop; its sources are structures by
  address. An access to a source that has been freed, a null function pointer and the insertion of
  a link that is in a list already make the result \<open>None\<close>. The results of \<^verbatim>\<open>malloc\<close> and of the
  system calls are arguments; of the kernel the set of registered descriptors, the closed
  ones, the timers and the blocked signals are kept.
\<close>

section \<open>State\<close>

text \<open>The three kinds of sources and the idle tasks, each with its function.\<close>

datatype source_kind = Fd_source nat int | Timer_source nat | Signal_source nat int | Idle_source nat

record wl_event_source =
  skind :: source_kind
  sdata :: u64
  sfd :: int

record 'u wl_event_loop =
  epoll_fd :: int
  check_list :: "u64 list"
  idle_list :: "u64 list"
  destroy_list :: "u64 list"
  loop_destroy_signal :: "u64 list"
  event_sources :: "u64 \<Rightarrow> wl_event_source option"
  interest :: "(int \<times> u64 \<times> u32) list"
  closed_fds :: "int list"
  timers :: "int \<Rightarrow> int \<times> int"
  blocked_signals :: "int list"
  loop_user :: 'u

text \<open>How a function of a source is called, and the functions: result and new state.\<close>

datatype source_call = Fd_call int u32 u64 | Timer_call u64 | Signal_call int u64 | Idle_call u64

type_synonym 'u callbacks = "nat \<Rightarrow> source_call \<Rightarrow> 'u wl_event_loop \<Rightarrow> (int \<times> 'u wl_event_loop) option"

definition EPOLLIN :: u32 where "EPOLLIN = 1"
definition EPOLLOUT :: u32 where "EPOLLOUT = 4"
definition EPOLLERR :: u32 where "EPOLLERR = 8"
definition EPOLLHUP :: u32 where "EPOLLHUP = 0x10"

definition set_source :: "u64 \<Rightarrow> wl_event_source option \<Rightarrow> 'u wl_event_loop \<Rightarrow> 'u wl_event_loop" where
  "set_source p src s = s\<lparr>event_sources := (event_sources s)(p := src)\<rparr>"

section \<open>Adding sources\<close>

definition epoll_events :: "u32 \<Rightarrow> u32" where
  "epoll_events msk = (if msk AND WL_EVENT_READABLE \<noteq> 0 then EPOLLIN else 0) OR
     (if msk AND WL_EVENT_WRITABLE \<noteq> 0 then EPOLLOUT else 0)"

text \<open>\<open>ctl\<close> says whether \<^verbatim>\<open>epoll_ctl\<close> succeeds. The result is the source, 0 for \<^verbatim>\<open>NULL\<close>.\<close>

definition add_source ::
    "u64 \<Rightarrow> wl_event_source \<Rightarrow> u32 \<Rightarrow> u64 \<Rightarrow> bool \<Rightarrow> 'u wl_event_loop \<Rightarrow> u64 \<times> 'u wl_event_loop" where
  "add_source p src msk data ctl s =
     (if sfd src < 0 then (0, s)
      else if \<not> ctl then (0, s\<lparr>closed_fds := closed_fds s @ [sfd src]\<rparr>)
      else (p, (set_source p (Some (src\<lparr>sdata := data\<rparr>)) s)\<lparr>interest := interest s @ [(sfd src, p, epoll_events msk)]\<rparr>))"

text \<open>\<open>dup\<close> is the result of \<^verbatim>\<open>wl_os_dupfd_cloexec\<close>, \<open>p\<close> that of \<^verbatim>\<open>malloc\<close>.\<close>

definition wl_event_loop_add_fd ::
    "u64 \<Rightarrow> int \<Rightarrow> bool \<Rightarrow> int \<Rightarrow> u32 \<Rightarrow> nat \<Rightarrow> u64 \<Rightarrow> 'u wl_event_loop \<Rightarrow> u64 \<times> 'u wl_event_loop" where
  "wl_event_loop_add_fd p dup ctl fd msk func data s =
     (if p = 0 then (0, s)
      else add_source p \<lparr>skind = Fd_source func fd, sdata = 0, sfd = dup\<rparr> msk data ctl s)"

definition wl_event_loop_add_timer ::
    "u64 \<Rightarrow> int \<Rightarrow> bool \<Rightarrow> nat \<Rightarrow> u64 \<Rightarrow> 'u wl_event_loop \<Rightarrow> u64 \<times> 'u wl_event_loop" where
  "wl_event_loop_add_timer p tfd ctl func data s =
     (if p = 0 then (0, s)
      else add_source p \<lparr>skind = Timer_source func, sdata = 0, sfd = tfd\<rparr> WL_EVENT_READABLE data ctl s)"

definition wl_event_loop_add_signal ::
    "u64 \<Rightarrow> int \<Rightarrow> bool \<Rightarrow> int \<Rightarrow> nat \<Rightarrow> u64 \<Rightarrow> 'u wl_event_loop \<Rightarrow> u64 \<times> 'u wl_event_loop" where
  "wl_event_loop_add_signal p fd ctl signal_number func data s =
     (if p = 0 then (0, s)
      else add_source p \<lparr>skind = Signal_source func signal_number, sdata = 0, sfd = fd\<rparr> WL_EVENT_READABLE data ctl
        (s\<lparr>blocked_signals := signal_number # blocked_signals s\<rparr>))"

definition wl_event_loop_add_idle :: "u64 \<Rightarrow> nat \<Rightarrow> u64 \<Rightarrow> 'u wl_event_loop \<Rightarrow> u64 \<times> 'u wl_event_loop" where
  "wl_event_loop_add_idle p func data s =
     (if p = 0 then (0, s)
      else (p, (set_source p (Some \<lparr>skind = Idle_source func, sdata = data, sfd = -1\<rparr>) s)
        \<lparr>idle_list := idle_list s @ [p]\<rparr>))"

section \<open>Changing and removing sources\<close>

definition wl_event_source_fd_update :: "u64 \<Rightarrow> u32 \<Rightarrow> bool \<Rightarrow> 'u wl_event_loop \<Rightarrow> (int \<times> 'u wl_event_loop) option" where
  "wl_event_source_fd_update p msk ctl s = do {
     src \<leftarrow> event_sources s p;
     Some (if ctl then (0, s\<lparr>interest := map (\<lambda>(fd, q, ev). if fd = sfd src then (fd, p, epoll_events msk) else (fd, q, ev)) (interest s)\<rparr>)
           else (-1, s))
   }"

text \<open>The seconds and nanoseconds of a delay; \<^verbatim>\<open>/\<close> and \<^verbatim>\<open>%\<close> round towards zero.\<close>

definition timer_value :: "int \<Rightarrow> int \<times> int" where
  "timer_value ms = (ms sdiv 1000, (ms smod 1000) * 1000 * 1000)"

definition wl_event_source_timer_update :: "u64 \<Rightarrow> int \<Rightarrow> bool \<Rightarrow> 'u wl_event_loop \<Rightarrow> (int \<times> 'u wl_event_loop) option" where
  "wl_event_source_timer_update p ms ok s = do {
     src \<leftarrow> event_sources s p;
     Some (if ok then (0, s\<lparr>timers := (timers s)(sfd src := timer_value ms)\<rparr>) else (-1, s))
   }"

definition wl_event_source_check :: "u64 \<Rightarrow> 'u wl_event_loop \<Rightarrow> 'u wl_event_loop option" where
  "wl_event_source_check p s =
     (if event_sources s p = None \<or> p \<in> set (check_list s) \<union> set (idle_list s) \<union> set (destroy_list s) then None
      else Some (s\<lparr>check_list := check_list s @ [p]\<rparr>))"

definition wl_event_source_remove :: "u64 \<Rightarrow> 'u wl_event_loop \<Rightarrow> 'u wl_event_loop option" where
  "wl_event_source_remove p s = do {
     src \<leftarrow> event_sources s p;
     let s = (if sfd src \<ge> 0
       then (set_source p (Some (src\<lparr>sfd := -1\<rparr>)) s)
         \<lparr>interest := filter (\<lambda>(fd, _). fd \<noteq> sfd src) (interest s), closed_fds := closed_fds s @ [sfd src]\<rparr>
       else s);
     let s = s\<lparr>check_list := remove1 p (check_list s), idle_list := remove1 p (idle_list s),
               destroy_list := remove1 p (destroy_list s)\<rparr>;
     Some (s\<lparr>destroy_list := p # destroy_list s\<rparr>)
   }"

definition free_source :: "u64 \<Rightarrow> 'u wl_event_loop \<Rightarrow> 'u wl_event_loop option" where
  "free_source p s = (case event_sources s p of None \<Rightarrow> None | Some _ \<Rightarrow> Some (set_source p None s))"

definition wl_event_loop_process_destroy_list :: "'u wl_event_loop \<Rightarrow> 'u wl_event_loop option" where
  "wl_event_loop_process_destroy_list s = do {
     s \<leftarrow> ofold free_source (destroy_list s) s;
     Some (s\<lparr>destroy_list := []\<rparr>)
   }"

section \<open>The loop\<close>

definition wl_event_loop_create :: "bool \<Rightarrow> int \<Rightarrow> 'u \<Rightarrow> 'u wl_event_loop option" where
  "wl_event_loop_create mem fd u =
     (if \<not> mem then None else if fd < 0 then None
      else Some \<lparr>epoll_fd = fd, check_list = [], idle_list = [], destroy_list = [], loop_destroy_signal = wl_signal_init,
        event_sources = Map.empty, interest = [], closed_fds = [], timers = (\<lambda>_. (0, 0)), blocked_signals = [], loop_user = u\<rparr>)"

text \<open>What is left when the loop itself has been freed. \<open>notify\<close> runs a listener of the destroy signal.\<close>

definition wl_event_loop_destroy ::
    "(u64 \<Rightarrow> 'u wl_event_loop \<Rightarrow> 'u wl_event_loop option) \<Rightarrow> 'u wl_event_loop \<Rightarrow> 'u wl_event_loop option" where
  "wl_event_loop_destroy notify s = do {
     s \<leftarrow> wl_signal_emit (\<lambda>s. Some (loop_destroy_signal s)) notify s;
     s \<leftarrow> wl_event_loop_process_destroy_list s;
     Some (s\<lparr>closed_fds := closed_fds s @ [epoll_fd s]\<rparr>)
   }"

definition wl_event_loop_get_fd :: "'u wl_event_loop \<Rightarrow> int" where
  "wl_event_loop_get_fd s = epoll_fd s"

definition wl_event_loop_add_destroy_listener :: "u64 \<Rightarrow> 'u wl_event_loop \<Rightarrow> 'u wl_event_loop" where
  "wl_event_loop_add_destroy_listener l s = s\<lparr>loop_destroy_signal := wl_signal_add (loop_destroy_signal s) l\<rparr>"

definition wl_event_loop_get_destroy_listener :: "(u64 \<Rightarrow> nat) \<Rightarrow> nat \<Rightarrow> 'u wl_event_loop \<Rightarrow> u64 option" where
  "wl_event_loop_get_destroy_listener notify_of notify s = wl_signal_get notify_of (loop_destroy_signal s) notify"

definition wl_event_source_fd_dispatch ::
    "'u callbacks \<Rightarrow> nat \<Rightarrow> int \<Rightarrow> u64 \<Rightarrow> u32 \<Rightarrow> 'u wl_event_loop \<Rightarrow> (int \<times> 'u wl_event_loop) option" where
  "wl_event_source_fd_dispatch call func fd data ep s =
     call func (Fd_call fd ((if ep AND EPOLLIN \<noteq> 0 then WL_EVENT_READABLE else 0) OR
       (if ep AND EPOLLOUT \<noteq> 0 then WL_EVENT_WRITABLE else 0) OR
       (if ep AND EPOLLHUP \<noteq> 0 then WL_EVENT_HANGUP else 0) OR
       (if ep AND EPOLLERR \<noteq> 0 then WL_EVENT_ERROR else 0)) data) s"

text \<open>What timers and signals read from their descriptors is not looked at by the code.\<close>

definition wl_event_source_timer_dispatch :: "'u callbacks \<Rightarrow> nat \<Rightarrow> u64 \<Rightarrow> 'u wl_event_loop \<Rightarrow> (int \<times> 'u wl_event_loop) option" where
  "wl_event_source_timer_dispatch call func data s = call func (Timer_call data) s"

definition wl_event_source_signal_dispatch ::
    "'u callbacks \<Rightarrow> nat \<Rightarrow> int \<Rightarrow> u64 \<Rightarrow> 'u wl_event_loop \<Rightarrow> (int \<times> 'u wl_event_loop) option" where
  "wl_event_source_signal_dispatch call func signal_number data s = call func (Signal_call signal_number data) s"

text \<open>The interface of a source leads to one of the three; that of an idle task has no function.\<close>

definition dispatch_source :: "'u callbacks \<Rightarrow> u64 \<Rightarrow> u32 \<Rightarrow> 'u wl_event_loop \<Rightarrow> (int \<times> 'u wl_event_loop) option" where
  "dispatch_source call p ep s = do {
     src \<leftarrow> event_sources s p;
     case skind src of
       Fd_source func fd \<Rightarrow> wl_event_source_fd_dispatch call func fd (sdata src) ep s
     | Timer_source func \<Rightarrow> wl_event_source_timer_dispatch call func (sdata src) s
     | Signal_source func n \<Rightarrow> wl_event_source_signal_dispatch call func n (sdata src) s
     | Idle_source _ \<Rightarrow> None
   }"

definition check_source :: "'u callbacks \<Rightarrow> u64 \<Rightarrow> 'u wl_event_loop \<times> bool \<Rightarrow> ('u wl_event_loop \<times> bool) option" where
  "check_source call p = (\<lambda>(s, recheck). do {
     (res, s) \<leftarrow> dispatch_source call p 0 s;
     Some (s, recheck \<or> res \<noteq> 0)
   })"

definition post_dispatch_check :: "'u callbacks \<Rightarrow> 'u wl_event_loop \<Rightarrow> ('u wl_event_loop \<times> bool) option" where
  "post_dispatch_check call s =
     wl_list_for_each_safe (\<lambda>(s, _). Some (check_list s)) (check_source call) (s, False)"

partial_function (option) recheck_loop :: "'u callbacks \<Rightarrow> 'u wl_event_loop \<Rightarrow> 'u wl_event_loop option" where
  "recheck_loop call s = Option.bind (post_dispatch_check call s) (\<lambda>(s, again). if again then recheck_loop call s else Some s)"

partial_function (option) wl_event_loop_dispatch_idle :: "'u callbacks \<Rightarrow> 'u wl_event_loop \<Rightarrow> 'u wl_event_loop option" where
  "wl_event_loop_dispatch_idle call s =
     (case idle_list s of
        [] \<Rightarrow> Some s
      | p # _ \<Rightarrow> do {
          src \<leftarrow> event_sources s p;
          (_, s) \<leftarrow> (case skind src of Idle_source func \<Rightarrow> call func (Idle_call (sdata src)) s | _ \<Rightarrow> None);
          s \<leftarrow> wl_event_source_remove p s;
          wl_event_loop_dispatch_idle call s
        })"

definition dispatch_ready :: "'u callbacks \<Rightarrow> u64 \<times> u32 \<Rightarrow> 'u wl_event_loop \<Rightarrow> 'u wl_event_loop option" where
  "dispatch_ready call = (\<lambda>(p, ep) s. do {
     src \<leftarrow> event_sources s p;
     if sfd src \<noteq> -1 then map_option snd (dispatch_source call p ep s) else Some s
   })"

text \<open>\<open>ready\<close> is \<^verbatim>\<open>epoll_wait\<close>: what it reports in the state in which it is called, \<open>None\<close> for an error.\<close>

definition wl_event_loop_dispatch ::
    "'u callbacks \<Rightarrow> ('u wl_event_loop \<Rightarrow> (u64 \<times> u32) list option) \<Rightarrow> 'u wl_event_loop \<Rightarrow> (int \<times> 'u wl_event_loop) option" where
  "wl_event_loop_dispatch call ready s = do {
     s \<leftarrow> wl_event_loop_dispatch_idle call s;
     (case ready s of
        None \<Rightarrow> Some (-1, s)
      | Some eps \<Rightarrow> do {
          s \<leftarrow> ofold (dispatch_ready call) (take 32 eps) s;
          s \<leftarrow> wl_event_loop_process_destroy_list s;
          s \<leftarrow> wl_event_loop_dispatch_idle call s;
          s \<leftarrow> recheck_loop call s;
          Some (0, s)
        })
   }"

section \<open>The invariant\<close>

text \<open>
  Every source is registered with the kernel under its descriptor, or is an idle task, or awaits its
  end in the destroy list; the kernel and the lists lead to live sources only; no source is in two
  lists.
\<close>

definition fd_of :: "'u wl_event_loop \<Rightarrow> u64 \<Rightarrow> int option" where
  "fd_of s p = map_option sfd (event_sources s p)"

definition idle_source :: "'u wl_event_loop \<Rightarrow> u64 \<Rightarrow> bool" where
  "idle_source s p \<longleftrightarrow> (case event_sources s p of Some src \<Rightarrow> (\<exists>f. skind src = Idle_source f) | None \<Rightarrow> False)"

definition loop_ok :: "'u wl_event_loop \<Rightarrow> bool" where
  "loop_ok s \<longleftrightarrow>
     (\<forall>fd p ev. (fd, p, ev) \<in> set (interest s) \<longrightarrow> 0 \<le> fd \<and> fd_of s p = Some fd \<and> \<not> idle_source s p) \<and>
     (\<forall>p fd. fd_of s p = Some fd \<longrightarrow> p \<noteq> 0) \<and>
     (\<forall>p fd. fd_of s p = Some fd \<longrightarrow> fd < 0 \<longrightarrow> fd = -1 \<and> (p \<in> set (idle_list s) \<or> p \<in> set (destroy_list s))) \<and>
     (\<forall>p fd. fd_of s p = Some fd \<longrightarrow> 0 \<le> fd \<longrightarrow> (\<exists>ev. (fd, p, ev) \<in> set (interest s))) \<and>
     distinct (map fst (interest s)) \<and>
     (\<forall>p \<in> set (check_list s). \<exists>fd. fd_of s p = Some fd \<and> 0 \<le> fd) \<and>
     (\<forall>p \<in> set (idle_list s). fd_of s p = Some (-1) \<and> idle_source s p) \<and>
     (\<forall>p \<in> set (destroy_list s). fd_of s p = Some (-1)) \<and>
     distinct (check_list s @ idle_list s @ destroy_list s)"

text \<open>
  \<open>sources_kept s s'\<close>: no source was freed, and one that had been removed was not revived.
\<close>

definition sources_kept :: "'u wl_event_loop \<Rightarrow> 'u wl_event_loop \<Rightarrow> bool" where
  "sources_kept s s' \<longleftrightarrow> (\<forall>p src. event_sources s p = Some src \<longrightarrow>
     (\<exists>src'. event_sources s' p = Some src' \<and> skind src' = skind src \<and> sdata src' = sdata src \<and> (sfd src = -1 \<longrightarrow> sfd src' = -1)))"

lemma sources_kept_refl [simp]: "sources_kept s s"
  by (simp add: sources_kept_def)

lemma sources_kept_trans: "sources_kept s t \<Longrightarrow> sources_kept t u \<Longrightarrow> sources_kept s u"
  unfolding sources_kept_def by metis

lemma loop_okD:
  assumes "loop_ok s"
  shows "(fd, p, ev) \<in> set (interest s) \<Longrightarrow> 0 \<le> fd \<and> fd_of s p = Some fd \<and> \<not> idle_source s p"
    "fd_of s p = Some fd \<Longrightarrow> p \<noteq> 0"
    "fd_of s p = Some fd \<Longrightarrow> fd < 0 \<Longrightarrow> fd = -1 \<and> (p \<in> set (idle_list s) \<or> p \<in> set (destroy_list s))"
    "fd_of s p = Some fd \<Longrightarrow> 0 \<le> fd \<Longrightarrow> \<exists>ev. (fd, p, ev) \<in> set (interest s)"
    "distinct (map fst (interest s))" "p \<in> set (check_list s) \<Longrightarrow> \<exists>fd. fd_of s p = Some fd \<and> 0 \<le> fd"
    "p \<in> set (idle_list s) \<Longrightarrow> fd_of s p = Some (-1) \<and> idle_source s p" "p \<in> set (destroy_list s) \<Longrightarrow> fd_of s p = Some (-1)"
    "distinct (check_list s @ idle_list s @ destroy_list s)"
  subgoal using assms [unfolded loop_ok_def, THEN conjunct1] by blast
  subgoal using assms [unfolded loop_ok_def, THEN conjunct2, THEN conjunct1] by blast
  subgoal using assms [unfolded loop_ok_def, THEN conjunct2, THEN conjunct2, THEN conjunct1] by blast
  subgoal using assms [unfolded loop_ok_def, THEN conjunct2, THEN conjunct2, THEN conjunct2, THEN conjunct1] by blast
  subgoal using assms [unfolded loop_ok_def, THEN conjunct2, THEN conjunct2, THEN conjunct2, THEN conjunct2, THEN conjunct1] by blast
  subgoal using assms [unfolded loop_ok_def, THEN conjunct2, THEN conjunct2, THEN conjunct2, THEN conjunct2, THEN conjunct2, THEN conjunct1] by blast
  subgoal using assms [unfolded loop_ok_def, THEN conjunct2, THEN conjunct2, THEN conjunct2, THEN conjunct2, THEN conjunct2, THEN conjunct2, THEN conjunct1] by blast
  subgoal using assms [unfolded loop_ok_def, THEN conjunct2, THEN conjunct2, THEN conjunct2, THEN conjunct2, THEN conjunct2, THEN conjunct2, THEN conjunct2, THEN conjunct1] by blast
  subgoal using assms [unfolded loop_ok_def, THEN conjunct2, THEN conjunct2, THEN conjunct2, THEN conjunct2, THEN conjunct2, THEN conjunct2, THEN conjunct2, THEN conjunct2] by blast
  done

lemma loop_okI:
  assumes "\<And>fd p ev. (fd, p, ev) \<in> set (interest s) \<Longrightarrow> 0 \<le> fd \<and> fd_of s p = Some fd \<and> \<not> idle_source s p"
    "\<And>p fd. fd_of s p = Some fd \<Longrightarrow> p \<noteq> 0"
    "\<And>p fd. fd_of s p = Some fd \<Longrightarrow> fd < 0 \<Longrightarrow> fd = -1 \<and> (p \<in> set (idle_list s) \<or> p \<in> set (destroy_list s))"
    "\<And>p fd. fd_of s p = Some fd \<Longrightarrow> 0 \<le> fd \<Longrightarrow> \<exists>ev. (fd, p, ev) \<in> set (interest s)"
    "distinct (map fst (interest s))" "\<And>p. p \<in> set (check_list s) \<Longrightarrow> \<exists>fd. fd_of s p = Some fd \<and> 0 \<le> fd"
    "\<And>p. p \<in> set (idle_list s) \<Longrightarrow> fd_of s p = Some (-1) \<and> idle_source s p"
    "\<And>p. p \<in> set (destroy_list s) \<Longrightarrow> fd_of s p = Some (-1)" "distinct (check_list s @ idle_list s @ destroy_list s)"
  shows "loop_ok s"
  unfolding loop_ok_def
  by (intro conjI) (use assms(1) in blast, use assms(2) in blast, use assms(3) in blast, use assms(4) in blast,
      rule assms(5), use assms(6) in blast, use assms(7) in blast, use assms(8) in blast, rule assms(9))

lemma loop_ok_cong:
  assumes "event_sources s' = event_sources s" "interest s' = interest s" "check_list s' = check_list s"
    "idle_list s' = idle_list s" "destroy_list s' = destroy_list s"
  shows "loop_ok s' = loop_ok s" "sources_kept s s'"
  by (simp_all only: loop_ok_def sources_kept_def fd_of_def idle_source_def assms) blast

section \<open>What the functions of the loop keep\<close>

lemma no_source:
  assumes "loop_ok s" "event_sources s p = None"
  shows "p \<notin> set (idle_list s)" "p \<notin> set (check_list s)" "p \<notin> set (destroy_list s)" "(fd, p, ev) \<notin> set (interest s)"
proof -
  have n: "fd_of s p = None" using assms(2) by (simp add: fd_of_def)
  show "p \<notin> set (idle_list s)" using loop_okD(7) [OF assms(1)] n by fastforce
  show "p \<notin> set (check_list s)" using loop_okD(6) [OF assms(1)] n by fastforce
  show "p \<notin> set (destroy_list s)" using loop_okD(8) [OF assms(1)] n by fastforce
  show "(fd, p, ev) \<notin> set (interest s)" using loop_okD(1) [OF assms(1)] n by fastforce
qed

lemma add_source_ok:
  assumes s: "loop_ok s" "event_sources s p = None" "p \<noteq> 0" and src: "sfd src \<notin> fst ` set (interest s)" "\<And>f. skind src \<noteq> Idle_source f"
    and run: "add_source p src msk data ctl s = (q, s')"
  shows "loop_ok s' \<and> sources_kept s s'"
proof (cases "sfd src < 0 \<or> \<not> ctl")
  case True
  then have "event_sources s' = event_sources s" "interest s' = interest s" "check_list s' = check_list s"
    "idle_list s' = idle_list s" "destroy_list s' = destroy_list s"
    using run by (auto simp: add_source_def split: if_splits)
  from loop_ok_cong [OF this] s(1) show ?thesis by simp
next
  case False
  let ?s = "(set_source p (Some (src\<lparr>sdata := data\<rparr>)) s)\<lparr>interest := interest s @ [(sfd src, p, epoll_events msk)]\<rparr>"
  have s': "s' = ?s" using False run by (auto simp: add_source_def)
  have fd: "fd_of ?s x = (if x = p then Some (sfd src) else fd_of s x)"
    "idle_source ?s x = (x \<noteq> p \<and> idle_source s x)" for x
    using src(2) by (simp_all add: fd_of_def idle_source_def set_source_def)
  note out = no_source [OF s(1,2)] and d = loop_okD [OF s(1)]
  have lists: "check_list ?s = check_list s" "idle_list ?s = idle_list s" "destroy_list ?s = destroy_list s"
    by (simp_all add: set_source_def)
  have "loop_ok ?s"
  proof (rule loop_okI, unfold lists)
    show "0 \<le> f \<and> fd_of ?s x = Some f \<and> \<not> idle_source ?s x" if "(f, x, ev) \<in> set (interest ?s)" for f x ev
      using that d(1) [of f x ev] out(4) False fd by auto
    show "\<exists>ev. (f, x, ev) \<in> set (interest ?s)" if "fd_of ?s x = Some f" "0 \<le> f" for x f
      using that d(4) [of x f] fd by (cases "x = p") auto
    show "\<exists>f. fd_of ?s x = Some f \<and> 0 \<le> f" if "x \<in> set (check_list s)" for x
      using that d(6) out(2) fd by auto
    show "distinct (map fst (interest ?s))" using d(5) src(1) by simp
  qed (use d s(3) fd out False in \<open>auto split: if_splits\<close>)
  with s(2) s' show ?thesis by (auto simp: sources_kept_def set_source_def)
qed

lemma add_idle_ok:
  assumes s: "loop_ok s" "event_sources s p = None" and run: "wl_event_loop_add_idle p func data s = (q, s')"
  shows "loop_ok s' \<and> sources_kept s s'"
proof (cases "p = 0")
  case False
  let ?s = "(set_source p (Some \<lparr>skind = Idle_source func, sdata = data, sfd = -1\<rparr>) s)\<lparr>idle_list := idle_list s @ [p]\<rparr>"
  have s': "s' = ?s" using False run by (auto simp: wl_event_loop_add_idle_def)
  have fd: "fd_of ?s x = (if x = p then Some (-1) else fd_of s x)" "idle_source ?s x = (x = p \<or> idle_source s x)" for x
    by (simp_all add: fd_of_def idle_source_def set_source_def)
  note out = no_source [OF s] and d = loop_okD [OF s(1)]
  have lists: "check_list ?s = check_list s" "idle_list ?s = idle_list s @ [p]" "destroy_list ?s = destroy_list s"
    "interest ?s = interest s" by (simp_all add: set_source_def)
  have "loop_ok ?s"
  proof (rule loop_okI, unfold lists)
    show "0 \<le> f \<and> fd_of ?s x = Some f \<and> \<not> idle_source ?s x" if "(f, x, ev) \<in> set (interest s)" for f x ev
      using that d(1) [OF that] out(4) fd by auto
    show "\<exists>ev. (f, x, ev) \<in> set (interest s)" if "fd_of ?s x = Some f" "0 \<le> f" for x f
      using that d(4) [of x f] fd by (cases "x = p") auto
    show "\<exists>f. fd_of ?s x = Some f \<and> 0 \<le> f" if "x \<in> set (check_list s)" for x
      using that d(6) out(2) fd by auto
    show "distinct (check_list s @ (idle_list s @ [p]) @ destroy_list s)" using d(9) out(1-3) by auto
  qed (use d False fd out in \<open>auto split: if_splits\<close>)
  with s(2) s' show ?thesis by (auto simp: sources_kept_def set_source_def)
qed (use assms in \<open>auto simp: wl_event_loop_add_idle_def\<close>)

lemma check_ok:
  assumes s: "loop_ok s" and run: "wl_event_source_check p s = Some s'"
  shows "loop_ok s' \<and> sources_kept s s'"
proof -
  have p: "event_sources s p \<noteq> None" "p \<notin> set (check_list s)" "p \<notin> set (idle_list s)" "p \<notin> set (destroy_list s)"
    and s': "s' = s\<lparr>check_list := check_list s @ [p]\<rparr>"
    using run by (auto simp: wl_event_source_check_def split: if_splits)
  have fd: "fd_of (s\<lparr>check_list := l\<rparr>) x = fd_of s x" "idle_source (s\<lparr>check_list := l\<rparr>) x = idle_source s x" for x l
    by (simp_all add: fd_of_def idle_source_def)
  note d = loop_okD [OF s]
  obtain f where f: "fd_of s p = Some f" using p(1) by (auto simp: fd_of_def)
  then have "0 \<le> f" using d(3) [OF f] p(3,4) by linarith
  have "loop_ok s'"
  proof (unfold s', rule loop_okI, unfold fd)
    show "\<exists>fd. fd_of s x = Some fd \<and> 0 \<le> fd" if "x \<in> set (check_list (s\<lparr>check_list := check_list s @ [p]\<rparr>))" for x
      using that d(6) f \<open>0 \<le> f\<close> by auto
  qed (use d p in auto)
  moreover have "sources_kept s s'" by (simp add: s' sources_kept_def)
  ultimately show ?thesis ..
qed

lemma update_ok:
  assumes s: "loop_ok s" and run: "wl_event_source_fd_update p msk ctl s = Some (r, s')"
  shows "loop_ok s' \<and> sources_kept s s'"
proof -
  obtain src where src: "event_sources s p = Some src" using run by (auto simp: wl_event_source_fd_update_def bind_eq_Some)
  let ?g = "\<lambda>(fd, q, ev). if fd = sfd src then (fd, p, epoll_events msk) else (fd, q, ev)"
  note d = loop_okD [OF s]
  have fp: "fd_of s p = Some (sfd src)" by (simp add: fd_of_def src)
  have same: "q = p" if "(sfd src, q, ev) \<in> set (interest s)" for q ev
  proof -
    have "0 \<le> sfd src" using d(1) [OF that] by simp
    then obtain ev' where "(sfd src, p, ev') \<in> set (interest s)" using d(4) [OF fp] by blast
    with d(5) that show ?thesis by (auto dest: eq_key_imp_eq_value)
  qed
  show ?thesis
  proof (cases ctl)
    case True
    then have s': "s' = s\<lparr>interest := map ?g (interest s)\<rparr>" using run src by (simp add: wl_event_source_fd_update_def)
    have fd: "fd_of s' x = fd_of s x" "idle_source s' x = idle_source s x" for x by (simp_all add: s' fd_of_def idle_source_def)
    have mem: "\<exists>e. (f, x, e) \<in> set (interest s)" if "(f, x, ev) \<in> set (interest s')" for f x ev
      using that same by (force simp: s' split: if_splits)
    have mem': "\<exists>e. (f, x, e) \<in> set (interest s')" if m: "(f, x, ev) \<in> set (interest s)" for f x ev
    proof -
      have "?g (f, x, ev) \<in> set (interest s')" using imageI [OF m, of ?g] by (simp add: s')
      with same m show ?thesis by (auto split: if_splits)
    qed
    have "loop_ok s'"
    proof (rule loop_okI, unfold fd)
      show "0 \<le> f \<and> fd_of s x = Some f \<and> \<not> idle_source s x" if "(f, x, ev) \<in> set (interest s')" for f x ev
        using mem [OF that] d(1) by blast
      show "\<exists>ev. (f, x, ev) \<in> set (interest s')" if "fd_of s x = Some f" "0 \<le> f" for x f
        using d(4) [OF that] mem' by blast
      have "map fst (interest s') = map fst (interest s)" by (auto simp: s')
      then show "distinct (map fst (interest s'))" using d(5) by simp
    qed (use d in \<open>auto simp: s'\<close>)
    then show ?thesis by (simp add: s' sources_kept_def)
  qed (use run src s in \<open>simp add: wl_event_source_fd_update_def\<close>)
qed

lemma remove_ok:
  assumes s: "loop_ok s" and run: "wl_event_source_remove p s = Some s'"
  shows "loop_ok s' \<and> sources_kept s s' \<and> fd_of s' p = Some (-1) \<and> idle_list s' = remove1 p (idle_list s) \<and>
    destroy_list s' = p # remove1 p (destroy_list s) \<and> loop_user s' = loop_user s"
proof -
  obtain src where src: "event_sources s p = Some src" using run by (auto simp: wl_event_source_remove_def bind_eq_Some)
  note d = loop_okD [OF s]
  have fp: "fd_of s p = Some (sfd src)" by (simp add: fd_of_def src)
  have neg: "sfd src < 0 \<Longrightarrow> sfd src = -1" using d(3) [OF fp] by simp
  have f: "fd_of s' x = (if x = p then Some (-1) else fd_of s x)" "idle_source s' x = idle_source s x" for x
    using run src neg by (auto simp: wl_event_source_remove_def Let_def set_source_def fd_of_def idle_source_def split: if_splits)
  have l: "check_list s' = remove1 p (check_list s)" "idle_list s' = remove1 p (idle_list s)"
    "destroy_list s' = p # remove1 p (destroy_list s)" "loop_user s' = loop_user s"
    using run src by (auto simp: wl_event_source_remove_def Let_def set_source_def)
  have i: "interest s' = filter (\<lambda>(fd, _). fd \<noteq> sfd src) (interest s)"
  proof (cases "sfd src < 0")
    case True
    then have "filter (\<lambda>(fd, _). fd \<noteq> sfd src) (interest s) = interest s"
      using d(1) by (fastforce simp: filter_id_conv)
    with True run src show ?thesis by (auto simp: wl_event_source_remove_def Let_def set_source_def)
  qed (use run src in \<open>auto simp: wl_event_source_remove_def Let_def set_source_def\<close>)
  have one: "x \<noteq> p \<Longrightarrow> (f', x, ev) \<in> set (interest s) \<Longrightarrow> f' \<noteq> sfd src" for x f' ev
  proof
    assume x: "x \<noteq> p" "(f', x, ev) \<in> set (interest s)" "f' = sfd src"
    then have "0 \<le> sfd src" using d(1) by blast
    then obtain e where "(sfd src, p, e) \<in> set (interest s)" using d(4) [OF fp] by blast
    with x d(5) show False by (auto dest: eq_key_imp_eq_value)
  qed
  have dist: "distinct (check_list s)" "distinct (idle_list s)" "distinct (destroy_list s)" using d(9) by auto
  have "loop_ok s'"
  proof (rule loop_okI, unfold f l)
    show "0 \<le> f' \<and> (if x = p then Some (-1) else fd_of s x) = Some f' \<and> \<not> idle_source s x"
      if "(f', x, ev) \<in> set (interest s')" for f' x ev
    proof -
      have x: "(f', x, ev) \<in> set (interest s)" "f' \<noteq> sfd src" using that by (auto simp: i)
      then have "x \<noteq> p" using d(1) [OF x(1)] fp by auto
      with d(1) [OF x(1)] show ?thesis by simp
    qed
    show "\<exists>ev. (f', x, ev) \<in> set (interest s')" if "(if x = p then Some (-1) else fd_of s x) = Some f'" "0 \<le> f'" for x f'
    proof -
      have x: "x \<noteq> p" "fd_of s x = Some f'" using that by (auto split: if_splits)
      from d(4) [OF x(2) that(2)] one [OF x(1)] show ?thesis by (auto simp: i)
    qed
    show "distinct (map fst (interest s'))" using d(5) by (simp add: i distinct_map_filter)
    show "\<exists>f'. (if x = p then Some (-1) else fd_of s x) = Some f' \<and> 0 \<le> f'" if "x \<in> set (remove1 p (check_list s))" for x
      using that d(6) dist(1) by auto
    show "distinct (remove1 p (check_list s) @ remove1 p (idle_list s) @ p # remove1 p (destroy_list s))"
      using d(9) dist by (auto simp: distinct_remove1)
  qed (use d dist fp in \<open>auto split: if_splits\<close>)
  moreover have "sources_kept s s'"
    using run src by (auto simp: sources_kept_def wl_event_source_remove_def Let_def set_source_def)
  ultimately show ?thesis using f(1) [of p] l by simp
qed

lemma free_sources:
  assumes "distinct ps" "\<forall>p \<in> set ps. event_sources s p \<noteq> None"
  shows "ofold free_source ps s = Some (s\<lparr>event_sources := (\<lambda>p. if p \<in> set ps then None else event_sources s p)\<rparr>)"
  using assms
proof (induction ps arbitrary: s)
  case (Cons p ps)
  let ?s = "set_source p None s"
  have "\<forall>q \<in> set ps. event_sources ?s q \<noteq> None" using Cons.prems by (auto simp: set_source_def)
  then have "ofold free_source ps ?s = Some (?s\<lparr>event_sources := (\<lambda>q. if q \<in> set ps then None else event_sources ?s q)\<rparr>)"
    using Cons.IH Cons.prems(1) by simp
  moreover have "(\<lambda>q. if q \<in> set ps then None else event_sources ?s q) = (\<lambda>q. if q \<in> set (p # ps) then None else event_sources s q)"
    by (auto simp: set_source_def)
  moreover have "free_source p s = Some ?s" using Cons.prems(2) by (auto simp: free_source_def)
  ultimately show ?case by (simp add: set_source_def)
qed simp

lemma process_destroy_list_ok:
  assumes s: "loop_ok s"
  shows "\<exists>s'. wl_event_loop_process_destroy_list s = Some s' \<and> loop_ok s' \<and> destroy_list s' = [] \<and>
    idle_list s' = idle_list s \<and> check_list s' = check_list s \<and> interest s' = interest s \<and>
    event_sources s' = (\<lambda>p. if p \<in> set (destroy_list s) then None else event_sources s p)"
proof -
  note d = loop_okD [OF s]
  let ?s = "s\<lparr>event_sources := (\<lambda>p. if p \<in> set (destroy_list s) then None else event_sources s p), destroy_list := []\<rparr>"
  have live: "\<forall>p \<in> set (destroy_list s). event_sources s p \<noteq> None" using d(8) by (auto simp: fd_of_def)
  then have run: "wl_event_loop_process_destroy_list s = Some ?s"
    using free_sources [of "destroy_list s" s] d(9) by (simp add: wl_event_loop_process_destroy_list_def)
  have fd: "fd_of ?s p = (if p \<in> set (destroy_list s) then None else fd_of s p)"
    "idle_source ?s p = (p \<notin> set (destroy_list s) \<and> idle_source s p)" for p
    by (simp_all add: fd_of_def idle_source_def)
  have "loop_ok ?s"
  proof (rule loop_okI, unfold fd)
    show "0 \<le> f \<and> (if p \<in> set (destroy_list s) then None else fd_of s p) = Some f \<and> \<not> (p \<notin> set (destroy_list s) \<and> idle_source s p)"
      if "(f, p, ev) \<in> set (interest ?s)" for f p ev
      using that d(1) [of f p ev] d(8) [of p] by auto
    show "\<exists>f. (if p \<in> set (destroy_list s) then None else fd_of s p) = Some f \<and> 0 \<le> f" if "p \<in> set (check_list ?s)" for p
      using that d(6) d(9) by auto
    show "(if p \<in> set (destroy_list s) then None else fd_of s p) = Some (-1) \<and> p \<notin> set (destroy_list s) \<and> idle_source s p"
      if "p \<in> set (idle_list ?s)" for p
      using that d(7,9) by auto
    show "f = -1 \<and> (p \<in> set (idle_list ?s) \<or> p \<in> set (destroy_list ?s))"
      if "(if p \<in> set (destroy_list s) then None else fd_of s p) = Some f" "f < 0" for p f
      using that d(3) [of p f] by (simp split: if_splits)
  qed (use d(2,4,5,9) in \<open>auto split: if_splits\<close>)
  with run show ?thesis by simp
qed

section \<open>Dispatching\<close>

text \<open>
  What the function of a source may do to the loop: add sources (in fresh memory, with a descriptor that
  is not in use), change them, have them checked, remove any of them, its own included, and change the
  program's own state. Nested dispatches and the destruction of the loop are not among it.
\<close>

inductive loop_step :: "'u wl_event_loop \<Rightarrow> 'u wl_event_loop \<Rightarrow> bool" where
  add_fd: "event_sources s p = None \<Longrightarrow> dup \<notin> fst ` set (interest s) \<Longrightarrow>
    wl_event_loop_add_fd p dup ctl fd msk func data s = (q, s') \<Longrightarrow> loop_step s s'"
| add_timer: "event_sources s p = None \<Longrightarrow> tfd \<notin> fst ` set (interest s) \<Longrightarrow>
    wl_event_loop_add_timer p tfd ctl func data s = (q, s') \<Longrightarrow> loop_step s s'"
| add_signal: "event_sources s p = None \<Longrightarrow> fd \<notin> fst ` set (interest s) \<Longrightarrow>
    wl_event_loop_add_signal p fd ctl n func data s = (q, s') \<Longrightarrow> loop_step s s'"
| add_idle: "event_sources s p = None \<Longrightarrow> wl_event_loop_add_idle p func data s = (q, s') \<Longrightarrow> loop_step s s'"
| fd_update: "wl_event_source_fd_update p msk ctl s = Some (r, s') \<Longrightarrow> loop_step s s'"
| timer_update: "wl_event_source_timer_update p ms ok s = Some (r, s') \<Longrightarrow> loop_step s s'"
| check: "wl_event_source_check p s = Some s' \<Longrightarrow> loop_step s s'"
| remove: "wl_event_source_remove p s = Some s' \<Longrightarrow> loop_step s s'"
| listen: "loop_step s (wl_event_loop_add_destroy_listener l s)"
| own_state: "loop_step s (s\<lparr>loop_user := u\<rparr>)"

lemma source_added:
  assumes s: "loop_ok s" "event_sources s p = None" and src: "sfd src \<notin> fst ` set (interest s)" "\<And>f. skind src \<noteq> Idle_source f"
    and run: "(if p = 0 then (0, s) else add_source p src msk data ctl s) = (q, s')"
  shows "loop_ok s' \<and> sources_kept s s'"
  using add_source_ok [OF s _ src] run s(1) by (cases "p = 0") auto

lemma loop_step_ok:
  assumes "loop_step s s'" and s: "loop_ok s"
  shows "loop_ok s' \<and> sources_kept s s'"
  using assms(1)
proof cases
  case (add_fd p dup ctl fd msk func data q)
  from source_added [OF s add_fd(1) _ _ add_fd(3) [unfolded wl_event_loop_add_fd_def]] add_fd(2) show ?thesis by simp
next
  case (add_timer p tfd ctl func data q)
  from source_added [OF s add_timer(1) _ _ add_timer(3) [unfolded wl_event_loop_add_timer_def]] add_timer(2) show ?thesis by simp
next
  case (add_signal p fd ctl n func data q)
  let ?s = "s\<lparr>blocked_signals := n # blocked_signals s\<rparr>"
  have t: "loop_ok ?s" "sources_kept s ?s" using loop_ok_cong [of ?s s] s by simp_all
  have run: "s' = s \<or> (if p = 0 then (0, ?s) else add_source p \<lparr>skind = Signal_source func n, sdata = 0, sfd = fd\<rparr>
      WL_EVENT_READABLE data ctl ?s) = (q, s')"
    using add_signal(3) by (simp add: wl_event_loop_add_signal_def split: if_splits)
  from source_added [OF t(1), of p "\<lparr>skind = Signal_source func n, sdata = 0, sfd = fd\<rparr>"] add_signal(1,2)
    run s sources_kept_trans [OF t(2)] show ?thesis by auto
next
  case (timer_update p ms ok r)
  then have "event_sources s' = event_sources s" "interest s' = interest s" "check_list s' = check_list s"
    "idle_list s' = idle_list s" "destroy_list s' = destroy_list s"
    by (auto simp: wl_event_source_timer_update_def bind_eq_Some split: if_splits)
  from loop_ok_cong [OF this] s show ?thesis by simp
next
  case (listen l)
  from loop_ok_cong [of s' s] s listen show ?thesis by (simp add: wl_event_loop_add_destroy_listener_def)
next
  case (own_state u)
  from loop_ok_cong [of s' s] s own_state show ?thesis by simp
qed (use s add_idle_ok update_ok check_ok remove_ok in blast)+

lemma loop_steps_ok: "loop_step\<^sup>*\<^sup>* s s' \<Longrightarrow> loop_ok s \<Longrightarrow> loop_ok s' \<and> sources_kept s s'"
  by (induction rule: rtranclp_induct) (auto dest: loop_step_ok intro: sources_kept_trans)

text \<open>
  The calls that are made on behalf of a source, and those that may be made: on behalf of a source that is
  there and has not been removed. After the removal the program may have released what the source's
  function works on, so that nothing is known of such a call, not even that it returns.
\<close>

definition call_of :: "wl_event_source \<Rightarrow> nat \<Rightarrow> source_call \<Rightarrow> bool" where
  "call_of src f a \<longleftrightarrow> (case (skind src, a) of
     (Fd_source g fd, Fd_call fd' _ d) \<Rightarrow> f = g \<and> fd' = fd \<and> d = sdata src
   | (Timer_source g, Timer_call d) \<Rightarrow> f = g \<and> d = sdata src
   | (Signal_source g n, Signal_call n' d) \<Rightarrow> f = g \<and> n' = n \<and> d = sdata src
   | (Idle_source g, Idle_call d) \<Rightarrow> f = g \<and> d = sdata src
   | _ \<Rightarrow> False)"

definition may_call :: "nat \<Rightarrow> source_call \<Rightarrow> 'u wl_event_loop \<Rightarrow> bool" where
  "may_call f a s \<longleftrightarrow> (\<exists>p src. event_sources s p = Some src \<and> p \<notin> set (destroy_list s) \<and> call_of src f a)"

definition callbacks_ok :: "'u callbacks \<Rightarrow> bool" where
  "callbacks_ok call \<longleftrightarrow> (\<forall>f a s. loop_ok s \<longrightarrow> may_call f a s \<longrightarrow> (\<exists>r s'. call f a s = Some (r, s') \<and> loop_step\<^sup>*\<^sup>* s s'))"

lemma callbacks_okD:
  assumes "callbacks_ok call" "loop_ok s" "event_sources s p = Some src" "p \<notin> set (destroy_list s)" "call_of src f a"
  obtains r s' where "call f a s = Some (r, s')" "loop_ok s'" "sources_kept s s'"
  using assms loop_steps_ok unfolding callbacks_ok_def may_call_def by metis

lemma dispatch_source_ok:
  assumes call: "callbacks_ok call" and s: "loop_ok s" and src: "event_sources s p = Some src" "0 \<le> sfd src"
  obtains r s' where "dispatch_source call p ep s = Some (r, s')" "loop_ok s'" "sources_kept s s'"
proof -
  have fp: "fd_of s p = Some (sfd src)" by (simp add: fd_of_def src(1))
  obtain ev where "(sfd src, p, ev) \<in> set (interest s)" using loop_okD(4) [OF s fp src(2)] by blast
  then have idle: "\<not> idle_source s p" using loop_okD(1) [OF s] by blast
  have live: "p \<notin> set (destroy_list s)" using loop_okD(8) [OF s] fp src(2) by fastforce
  note run = dispatch_source_def wl_event_source_timer_dispatch_def
    wl_event_source_signal_dispatch_def
  have "\<exists>f a. call_of src f a \<and> dispatch_source call p ep s = call f a s"
  proof (cases "skind src")
    case (Fd_source g fd)
    obtain m where "wl_event_source_fd_dispatch call g fd (sdata src) ep s = call g (Fd_call fd m (sdata src)) s"
      using wl_event_source_fd_dispatch_def by blast
    with Fd_source show ?thesis
      by (intro exI [of _ g] exI [of _ "Fd_call fd m (sdata src)"]) (simp add: run src(1) call_of_def)
  next
    case (Timer_source g)
    then show ?thesis by (intro exI [of _ g] exI [of _ "Timer_call (sdata src)"]) (simp add: run src(1) call_of_def)
  next
    case (Signal_source g n)
    then show ?thesis by (intro exI [of _ g] exI [of _ "Signal_call n (sdata src)"]) (simp add: run src(1) call_of_def)
  next
    case (Idle_source g)
    with idle show ?thesis by (simp add: idle_source_def src(1))
  qed
  then obtain f a where a: "call_of src f a" "dispatch_source call p ep s = call f a s" by blast
  obtain r s' where "call f a s = Some (r, s')" "loop_ok s'" "sources_kept s s'"
    by (rule callbacks_okD [OF call s src(1) live a(1)]) (rule that)
  with a(2) that show thesis by simp
qed

text \<open>
  What is to happen to a reported event: a source that has been removed is left alone, the function of any
  other one is called.
\<close>

definition handled :: "'u callbacks \<Rightarrow> u64 \<times> u32 \<Rightarrow> 'u wl_event_loop \<Rightarrow> 'u wl_event_loop \<Rightarrow> bool" where
  "handled call e s s' \<longleftrightarrow> (case e of (p, ep) \<Rightarrow>
     if p \<in> set (destroy_list s) then s' = s else \<exists>r. dispatch_source call p ep s = Some (r, s'))"

lemma dispatch_ready_ok:
  assumes call: "callbacks_ok call" and s: "loop_ok s" and p: "event_sources s (fst e) \<noteq> None" "\<not> idle_source s (fst e)"
  obtains s' where "dispatch_ready call e s = Some s'" "handled call e s s'" "loop_ok s'" "sources_kept s s'"
proof -
  obtain p ep where e: "e = (p, ep)" by (cases e)
  obtain src where src: "event_sources s p = Some src" using p(1) e by auto
  have fp: "fd_of s p = Some (sfd src)" by (simp add: fd_of_def src)
  show thesis
  proof (cases "p \<in> set (destroy_list s)")
    case True
    then have "sfd src = -1" using loop_okD(8) [OF s] fp by fastforce
    with True src s e show thesis by (intro that [of s]) (simp_all add: dispatch_ready_def handled_def)
  next
    case False
    have "p \<notin> set (idle_list s)" using loop_okD(7) [OF s] p(2) e by auto
    then have fd: "0 \<le> sfd src" using loop_okD(3) [OF s fp] False by linarith
    obtain r s' where "dispatch_source call p ep s = Some (r, s')" "loop_ok s'" "sources_kept s s'"
      by (rule dispatch_source_ok [OF call s src fd]) (rule that)
    with fd src e False show thesis by (intro that [of s']) (simp_all add: dispatch_ready_def handled_def)
  qed
qed

inductive all_handled :: "'u callbacks \<Rightarrow> (u64 \<times> u32) list \<Rightarrow> 'u wl_event_loop \<Rightarrow> 'u wl_event_loop \<Rightarrow> bool" for call where
  none: "all_handled call [] s s"
| event: "handled call e s t \<Longrightarrow> all_handled call es t s' \<Longrightarrow> all_handled call (e # es) s s'"

inductive_cases batch_cases: "all_handled call [] s s'" "all_handled call (e # es) s s'"

lemma kept_idle:
  assumes "sources_kept s t" "event_sources s p \<noteq> None"
  shows "event_sources t p \<noteq> None \<and> idle_source t p = idle_source s p"
proof -
  obtain src where src: "event_sources s p = Some src" using assms(2) by blast
  then obtain src' where "event_sources t p = Some src'" "skind src' = skind src" using assms(1) unfolding sources_kept_def by blast
  with src show ?thesis by (simp add: idle_source_def)
qed

lemma dispatch_batch_ok:
  assumes call: "callbacks_ok call" and s: "loop_ok s"
    and es: "\<forall>e \<in> set es. event_sources s (fst e) \<noteq> None \<and> \<not> idle_source s (fst e)"
  obtains s' where "ofold (dispatch_ready call) es s = Some s'" "all_handled call es s s'" "loop_ok s'" "sources_kept s s'"
proof -
  have "\<exists>s'. ofold (dispatch_ready call) es s = Some s' \<and> all_handled call es s s' \<and> loop_ok s' \<and> sources_kept s s'"
    using s es
  proof (induction es arbitrary: s)
    case Nil
    then show ?case using all_handled.none by simp
  next
    case (Cons e es)
    obtain t where t: "dispatch_ready call e s = Some t" "handled call e s t" "loop_ok t" "sources_kept s t"
      by (rule dispatch_ready_ok [OF call Cons.prems(1), of e]) (use Cons.prems(2) that in auto)
    have "\<forall>e \<in> set es. event_sources t (fst e) \<noteq> None \<and> \<not> idle_source t (fst e)"
      using Cons.prems(2) kept_idle [OF t(4)] by simp
    with Cons.IH [OF t(3)] t show ?case by (auto intro: sources_kept_trans all_handled.event)
  qed
  then show thesis using that by blast
qed

lemma batch_returns:
  assumes call: "callbacks_ok call" and s: "loop_ok s" and es: "\<forall>(p, ep) \<in> set eps. \<exists>fd ev. (fd, p, ev) \<in> set (interest s)"
  shows "\<exists>s' s''. ofold (dispatch_ready call) (take 32 eps) s = Some s' \<and>
    all_handled call (take 32 eps) s s' \<and> sources_kept s s' \<and> wl_event_loop_process_destroy_list s' = Some s'' \<and> loop_ok s'' \<and>
    destroy_list s'' = [] \<and> event_sources s'' = (\<lambda>p. if p \<in> set (destroy_list s') then None else event_sources s' p)"
proof -
  have "event_sources s p \<noteq> None \<and> \<not> idle_source s p" if "(fd, p, ev) \<in> set (interest s)" for fd p ev
    using loop_okD(1) [OF s that] by (auto simp: fd_of_def)
  then have "event_sources s (fst e) \<noteq> None \<and> \<not> idle_source s (fst e)" if "e \<in> set (take 32 eps)" for e
    using bspec [OF es in_set_takeD [OF that]] by (cases e) auto
  then have "\<forall>e \<in> set (take 32 eps). event_sources s (fst e) \<noteq> None \<and> \<not> idle_source s (fst e)" by blast
  then obtain s' where s': "ofold (dispatch_ready call) (take 32 eps) s = Some s'" "all_handled call (take 32 eps) s s'"
    "loop_ok s'" "sources_kept s s'" by (rule dispatch_batch_ok [OF call s])
  with process_destroy_list_ok [OF s'(3)] show ?thesis by blast
qed

text \<open>
  C24: A batch of reported events is dispatched safely whatever the functions do to the loop on the way, within
  \<open>loop_step\<close>. The events are handled in turn: the function of a source is called exactly when the source has not
  been removed by then, by an earlier function or its own, so that no function is called for a source whose data the
  program may have released. Removed sources stay allocated until the batch is done; then they are freed, each
  once, and nothing else is. The lists and the kernel's table lead to live sources again.
\<close>

theorem ready_events_safe:
  assumes "callbacks_ok call" "loop_ok s" "\<forall>(p, ep) \<in> set eps. \<exists>fd ev. (fd, p, ev) \<in> set (interest s)"
  shows "\<exists>s' s''. ofold (dispatch_ready call) (take 32 eps) s = Some s' \<and>
    all_handled call (take 32 eps) s s' \<and> sources_kept s s' \<and>
    wl_event_loop_process_destroy_list s' = Some s'' \<and> loop_ok s'' \<and> destroy_list s'' = [] \<and>
    event_sources s'' = (\<lambda>p. if p \<in> set (destroy_list s') then None else event_sources s' p)"
  by (rule batch_returns [OF assms])

text \<open>
  Idle tasks run once each, in the order they were added, when none of them adds another: the function
  returns, every task has been called with its data, and all of them are in the destroy list.
\<close>

theorem idle_in_order:
  assumes s: "loop_ok s" and call: "\<forall>f d t. loop_ok t \<longrightarrow> (\<exists>r t'. call f (Idle_call d) t = Some (r, t') \<and> loop_ok t' \<and>
      sources_kept t t' \<and> idle_list t' = idle_list t \<and> destroy_list t' = destroy_list t \<and> loop_user t' = loop_user t @ [d])"
  shows "\<exists>s'. wl_event_loop_dispatch_idle call s = Some s' \<and> loop_ok s' \<and> idle_list s' = [] \<and>
    loop_user s' = loop_user s @ map (\<lambda>p. sdata (the (event_sources s p))) (idle_list s) \<and>
    destroy_list s' = rev (idle_list s) @ destroy_list s"
  using s
proof (induction "idle_list s" arbitrary: s)
  case Nil
  then show ?case by (simp add: wl_event_loop_dispatch_idle.simps flip: Nil.hyps)
next
  case (Cons p ps)
  note idle = Cons.hyps(2) [symmetric]
  have p: "p \<in> set (idle_list s)" by (simp add: idle)
  obtain src f where src: "event_sources s p = Some src" "skind src = Idle_source f"
    using loop_okD(7) [OF Cons.prems p] by (auto simp: idle_source_def split: option.splits)
  obtain r t where t: "call f (Idle_call (sdata src)) s = Some (r, t)" "loop_ok t" "sources_kept s t"
    "idle_list t = idle_list s" "destroy_list t = destroy_list s" "loop_user t = loop_user s @ [sdata src]"
    using call Cons.prems by blast
  have "event_sources t p \<noteq> None" using t(3) src(1) unfolding sources_kept_def by fastforce
  then obtain u where u: "wl_event_source_remove p t = Some u" by (auto simp: wl_event_source_remove_def Let_def)
  note ru = remove_ok [OF t(2) u]
  have dist: "p \<notin> set ps" "p \<notin> set (destroy_list s)" using loop_okD(9) [OF Cons.prems] by (auto simp: idle)
  have iu: "idle_list u = ps" "destroy_list u = p # destroy_list s" using ru t(4,5) dist by (auto simp: idle remove1_idem)
  have step: "wl_event_loop_dispatch_idle call s = wl_event_loop_dispatch_idle call u"
    by (subst wl_event_loop_dispatch_idle.simps) (simp add: idle src t(1) u)
  have kept: "sources_kept s u" using t(3) ru sources_kept_trans by blast
  have data: "map (\<lambda>q. sdata (the (event_sources u q))) ps = map (\<lambda>q. sdata (the (event_sources s q))) ps"
  proof (rule map_cong [OF refl])
    fix q assume "q \<in> set ps"
    then have "q \<in> set (idle_list s)" by (simp add: idle)
    then obtain x where x: "event_sources s q = Some x" using loop_okD(7) [OF Cons.prems] by (auto simp: fd_of_def)
    with kept obtain y where "event_sources u q = Some y" "sdata y = sdata x" unfolding sources_kept_def by blast
    with x show "sdata (the (event_sources u q)) = sdata (the (event_sources s q))" by simp
  qed
  have "\<exists>s'. wl_event_loop_dispatch_idle call u = Some s' \<and> loop_ok s' \<and> idle_list s' = [] \<and>
      loop_user s' = loop_user u @ map (\<lambda>q. sdata (the (event_sources u q))) (idle_list u) \<and>
      destroy_list s' = rev (idle_list u) @ destroy_list u"
    by (rule Cons.hyps(1)) (use iu ru in auto)
  with step data iu ru t(6) src(1) show ?case by (auto simp: idle)
qed

section \<open>A whole dispatch\<close>

text \<open>
  A dispatch ends when the idle tasks and the re-checks run dry, which is up to the program. \<open>drains\<close> says so with a
  measure of its work: an idle task that adds idle tasks, and a re-check that reports work or adds a source to
  be re-checked, leave less work behind. The re-check of a source takes at most that source from the list,
  since the traversal does not survive the removal of the next one (\<open>recheck_next_removed\<close> below).
\<close>

definition drains :: "'u callbacks \<Rightarrow> ('u \<Rightarrow> nat) \<Rightarrow> bool" where
  "drains call work \<longleftrightarrow>
     (\<forall>s p src f r s'. loop_ok s \<longrightarrow> p \<in> set (idle_list s) \<longrightarrow> event_sources s p = Some src \<longrightarrow> skind src = Idle_source f \<longrightarrow>
        call f (Idle_call (sdata src)) s = Some (r, s') \<longrightarrow> work (loop_user s') \<le> work (loop_user s) \<and>
        (set (idle_list s') \<subseteq> set (idle_list s) \<or> work (loop_user s') < work (loop_user s))) \<and>
     (\<forall>s p r s'. loop_ok s \<longrightarrow> p \<in> set (check_list s) \<longrightarrow> dispatch_source call p 0 s = Some (r, s') \<longrightarrow>
        (\<exists>new. (check_list s' = check_list s @ new \<or> check_list s' = remove1 p (check_list s) @ new) \<and>
           work (loop_user s') \<le> work (loop_user s) \<and> (r = 0 \<and> new = [] \<or> work (loop_user s') < work (loop_user s))))"

lemma idle_turn:
  assumes call: "callbacks_ok call" "drains call work" and s: "loop_ok s" "idle_list s = p # ps"
  obtains u where "wl_event_loop_dispatch_idle call s = wl_event_loop_dispatch_idle call u" "loop_ok u"
    "work (loop_user u) \<le> work (loop_user s)" "set (idle_list u) \<subseteq> set ps \<or> work (loop_user u) < work (loop_user s)"
proof -
  have p: "p \<in> set (idle_list s)" "p \<notin> set ps" "p \<notin> set (destroy_list s)" using loop_okD(9) [OF s(1)] s(2) by auto
  obtain src f where src: "event_sources s p = Some src" "skind src = Idle_source f"
    using loop_okD(7) [OF s(1) p(1)] by (auto simp: idle_source_def split: option.splits)
  have "call_of src f (Idle_call (sdata src))" by (simp add: call_of_def src(2))
  then obtain r t where t: "call f (Idle_call (sdata src)) s = Some (r, t)" "loop_ok t" "sources_kept s t"
    by (rule callbacks_okD [OF call(1) s(1) src(1) p(3)])
  have work: "work (loop_user t) \<le> work (loop_user s)"
    "set (idle_list t) \<subseteq> set (idle_list s) \<or> work (loop_user t) < work (loop_user s)"
    using call(2) s(1) p(1) src t(1) unfolding drains_def by blast+
  have "event_sources t p \<noteq> None" using kept_idle [OF t(3), of p] src(1) by simp
  then obtain u where u: "wl_event_source_remove p t = Some u" by (auto simp: wl_event_source_remove_def Let_def)
  note ru = remove_ok [OF t(2) u]
  have "set (idle_list u) = set (idle_list t) - {p}" using ru loop_okD(9) [OF t(2)] by simp
  moreover have "wl_event_loop_dispatch_idle call s = wl_event_loop_dispatch_idle call u"
    by (subst wl_event_loop_dispatch_idle.simps) (simp add: s(2) src t(1) u)
  ultimately show thesis using ru work s(2) by (intro that [of u]) auto
qed

lemma idle_returns:
  assumes call: "callbacks_ok call" "drains call work" and s: "loop_ok s"
  obtains s' where "wl_event_loop_dispatch_idle call s = Some s'" "loop_ok s'" "idle_list s' = []"
proof -
  have "\<exists>s'. wl_event_loop_dispatch_idle call s = Some s' \<and> loop_ok s' \<and> idle_list s' = []"
    using s
  proof (induction "(work (loop_user s), card (set (idle_list s)))" arbitrary: s
      rule: wf_induct_rule [OF wf_lex_prod [OF wf_less_than wf_less_than]])
    case 1
    show ?case
    proof (cases "idle_list s")
      case (Cons p ps)
      obtain u where u: "wl_event_loop_dispatch_idle call s = wl_event_loop_dispatch_idle call u" "loop_ok u"
        "work (loop_user u) \<le> work (loop_user s)" "set (idle_list u) \<subseteq> set ps \<or> work (loop_user u) < work (loop_user s)"
        by (rule idle_turn [OF call 1(2) Cons])
      have "distinct (p # ps)" using loop_okD(9) [OF 1(2)] Cons by simp
      then have "card (set ps) < card (set (idle_list s))" using Cons by simp
      then have "((work (loop_user u), card (set (idle_list u))), work (loop_user s), card (set (idle_list s))) \<in> less_than <*lex*> less_than"
        using u(3,4) card_mono [of "set ps" "set (idle_list u)"] by auto
      from 1(1) [OF this u(2)] u(1) show ?thesis by simp
    qed (use 1(2) in \<open>simp add: wl_event_loop_dispatch_idle.simps\<close>)
  qed
  then show thesis using that by blast
qed

text \<open>One pass over the list of the sources to be re-checked; \<open>first_pos\<close> is where a traversal of a list begins.\<close>

abbreviation first_pos :: "u64 list \<Rightarrow> list_pos" where
  "first_pos xs \<equiv> next_pos xs Head"

lemma next_after: "distinct (ys @ x # zs) \<Longrightarrow> next_pos (ys @ x # zs) (Node x) = first_pos zs"
  by (induction ys) (auto simp: next_pos_def split: list.splits)

lemma check_turn:
  assumes call: "callbacks_ok call" "drains call work" and s: "loop_ok s" "check_list s = ys @ x # zs"
  obtains r t ys' new where "dispatch_source call x 0 s = Some (r, t)" "loop_ok t" "check_list t = ys' @ zs @ new"
    "work (loop_user t) \<le> work (loop_user s)" "r = 0 \<and> new = [] \<or> work (loop_user t) < work (loop_user s)"
proof -
  have x: "x \<in> set (check_list s)" "x \<notin> set ys" using loop_okD(9) [OF s(1)] s(2) by auto
  obtain src where src: "event_sources s x = Some src" "0 \<le> sfd src"
    using loop_okD(6) [OF s(1) x(1)] by (auto simp: fd_of_def)
  obtain r t where t: "dispatch_source call x 0 s = Some (r, t)" "loop_ok t"
    by (rule dispatch_source_ok [OF call(1) s(1) src]) (rule that)
  then obtain new where n: "check_list t = check_list s @ new \<or> check_list t = remove1 x (check_list s) @ new"
    "work (loop_user t) \<le> work (loop_user s)" "r = 0 \<and> new = [] \<or> work (loop_user t) < work (loop_user s)"
    using call(2) s(1) x(1) unfolding drains_def by blast
  have "remove1 x (check_list s) = ys @ zs" using s(2) x(2) by (simp add: remove1_append)
  then have "check_list t = (ys @ [x]) @ zs @ new \<or> check_list t = ys @ zs @ new" using n(1) s(2) by auto
  with t n(2,3) that show thesis by blast
qed

lemma check_pass:
  assumes call: "callbacks_ok call" "drains call work" and s: "loop_ok s" "check_list s = ys @ xs"
  shows "\<exists>s' again. for_each_safe_loop (\<lambda>(s, _). Some (check_list s)) (check_source call) (first_pos xs)
      (next_pos (check_list s) (first_pos xs)) (s, b) = Some (s', again) \<and> loop_ok s' \<and>
    work (loop_user s') \<le> work (loop_user s) \<and> (again = b \<or> work (loop_user s') < work (loop_user s))"
  using s
proof (induction "(work (loop_user s), length xs)" arbitrary: s ys xs b
    rule: wf_induct_rule [OF wf_lex_prod [OF wf_less_than wf_less_than]])
  case 1
  show ?case
  proof (cases xs)
    case Nil
    then show ?thesis using 1(2) by (simp add: next_pos_def for_each_safe_loop.simps)
  next
    case (Cons x zs)
    have d: "distinct (check_list s)" using loop_okD(9) [OF 1(2)] by simp
    obtain r t ys' new where t: "dispatch_source call x 0 s = Some (r, t)" "loop_ok t" "check_list t = ys' @ zs @ new"
      "work (loop_user t) \<le> work (loop_user s)" "r = 0 \<and> new = [] \<or> work (loop_user t) < work (loop_user s)"
      by (rule check_turn [OF call 1(2) 1(3) [unfolded Cons]])
    let ?loop = "for_each_safe_loop (\<lambda>(s, _). Some (check_list s)) (check_source call)"
    have step: "?loop (first_pos xs) (next_pos (check_list s) (first_pos xs)) (s, b) =
        ?loop (first_pos zs) (next_pos (check_list t) (first_pos zs)) (t, b \<or> r \<noteq> 0)"
      using next_after [of ys x zs] d 1(3) t(1) Cons
      by (subst for_each_safe_loop.simps) (simp add: next_pos_def [of "x # zs"] check_source_def)
    show ?thesis
    proof (cases zs)
      case Nil
      then show ?thesis using step t by (auto simp: next_pos_def for_each_safe_loop.simps)
    next
      case zs: (Cons z zs')
      have pos: "first_pos (zs @ new) = first_pos zs" by (simp add: next_pos_def zs)
      have less: "((work (loop_user t), length (zs @ new)), work (loop_user s), length xs) \<in> less_than <*lex*> less_than"
        using t(4,5) Cons by auto
      from 1(1) [OF less t(2,3), of "b \<or> r \<noteq> 0"] step t(4,5) show ?thesis unfolding pos by fastforce
    qed
  qed
qed

lemma recheck_returns:
  assumes call: "callbacks_ok call" "drains call work" and s: "loop_ok s"
  obtains s' where "recheck_loop call s = Some s'" "loop_ok s'"
proof -
  have "\<exists>s'. recheck_loop call s = Some s' \<and> loop_ok s'"
    using s
  proof (induction "work (loop_user s)" arbitrary: s rule: less_induct)
    case less
    obtain t again where t: "post_dispatch_check call s = Some (t, again)" "loop_ok t"
      "again \<longrightarrow> work (loop_user t) < work (loop_user s)"
      using check_pass [OF call less.prems, of "[]" "check_list s" False]
      by (auto simp: post_dispatch_check_def wl_list_for_each_safe_def Let_def)
    show ?case
      using less.hyps [OF _ t(2)] t by (cases again) (simp_all add: recheck_loop.simps [of call s])
  qed
  then show thesis using that by blast
qed

text \<open>
  C25: A whole dispatch returns and leaves the loop in order: idle tasks, the reported events, the end of the
  removed sources, idle tasks again and the re-checks. No step works on a source that has been freed, whatever
  sources the functions add, change or remove; the kernel reports sources that are registered when it is
  asked, and the program's work runs dry. The result is -1 exactly when \<^verbatim>\<open>epoll_wait\<close> fails, in the state
  after the first round of idle tasks, and then nothing else has happened.
\<close>

theorem dispatch_keeps_loop:
  assumes call: "callbacks_ok call" "drains call work" and s: "loop_ok s"
    and kernel: "\<forall>t eps. ready t = Some eps \<longrightarrow> (\<forall>(p, ep) \<in> set eps. \<exists>fd ev. (fd, p, ev) \<in> set (interest t))"
  shows "\<exists>t r s'. wl_event_loop_dispatch_idle call s = Some t \<and> loop_ok t \<and> idle_list t = [] \<and>
    wl_event_loop_dispatch call ready s = Some (r, s') \<and> loop_ok s' \<and>
    (case ready t of None \<Rightarrow> r = -1 \<and> s' = t | Some _ \<Rightarrow> r = 0)"
proof -
  obtain t where t: "wl_event_loop_dispatch_idle call s = Some t" "loop_ok t" "idle_list t = []"
    by (rule idle_returns [OF call s])
  show ?thesis
  proof (cases "ready t")
    case (Some eps)
    obtain t1 t2 where t2: "ofold (dispatch_ready call) (take 32 eps) t = Some t1"
      "wl_event_loop_process_destroy_list t1 = Some t2" "loop_ok t2"
      using batch_returns [OF call(1) t(2)] kernel Some by blast
    obtain t3 where t3: "wl_event_loop_dispatch_idle call t2 = Some t3" "loop_ok t3"
      by (rule idle_returns [OF call t2(3)])
    obtain s' where "recheck_loop call t3 = Some s'" "loop_ok s'" by (rule recheck_returns [OF call t3(2)])
    with t t2 t3 Some show ?thesis by (simp add: wl_event_loop_dispatch_def)
  qed (use t in \<open>simp add: wl_event_loop_dispatch_def\<close>)
qed

text \<open>
  A re-check does not survive that the function of a source removes the next source in the list: the
  saved position is then in the destroy list, and the traversal never comes back to its head.
\<close>

lemma recheck_next_removed:
  assumes "check_list s = [p, q]" "p \<noteq> q" "dispatch_source call p 0 s = Some (r, t)" "check_list t = [p]"
    and "\<And>r u. dispatch_source call q 0 t = Some (r, u) \<Longrightarrow> check_list u = [p]"
  shows "post_dispatch_check call s = None"
proof -
  have "for_each_safe_loop (\<lambda>(s, _). Some (check_list s)) (check_source call) (Node q) Null (t, b) = None" for b
    using assms(2,5)
    by (cases "dispatch_source call q 0 t") (auto simp: for_each_safe_loop.simps check_source_def next_pos_def split: list_pos.splits)
  with assms(1-4) show ?thesis
    by (simp add: post_dispatch_check_def wl_list_for_each_safe_def next_pos_def for_each_safe_loop.simps [of _ _ "Node p"] check_source_def)
qed

text \<open>A delay is split exactly; its nanoseconds are below a second.\<close>

lemma timer_value_exact:
  assumes "0 \<le> ms"
  shows "case timer_value ms of (sec, nsec) \<Rightarrow> sec * 10 ^ 9 + nsec = ms * 10 ^ 6 \<and> 0 \<le> nsec \<and> nsec < 10 ^ 9"
proof -
  have e: "ms sdiv 1000 = ms div 1000" "ms smod 1000 = ms mod 1000"
    using assms by (simp_all add: signed_divide_int_def signed_modulo_int_def sgn_if)
  obtain q r where q: "ms div 1000 = q" "ms mod 1000 = r" "ms = q * 1000 + r"
    by (rule that [of "ms div 1000" "ms mod 1000"]) simp_all
  moreover have "ms mod 1000 < 1000" "0 \<le> ms mod 1000" by simp_all
  ultimately show ?thesis unfolding timer_value_def prod.case e q(1,2) by simp
qed

section \<open>A loop with two descriptors\<close>

text \<open>The sources 16 and 32; the function of each removes the source 32. Idle tasks record their data.\<close>

definition empty_loop :: "u64 list wl_event_loop" where
  "empty_loop = the (wl_event_loop_create True 3 [])"

definition demo_loop :: "u64 list wl_event_loop" where
  "demo_loop = snd (wl_event_loop_add_fd 32 6 True 9 WL_EVENT_READABLE 0 0
     (snd (wl_event_loop_add_fd 16 5 True 8 WL_EVENT_READABLE 0 0 empty_loop)))"

definition demo_call :: "u64 list callbacks" where
  "demo_call f a s = (case a of
     Idle_call d \<Rightarrow> Some (0, s\<lparr>loop_user := loop_user s @ [d]\<rparr>)
   | _ \<Rightarrow> Some (0, (case wl_event_source_remove 32 s of None \<Rightarrow> s | Some s' \<Rightarrow> s')))"

lemma empty_loop_ok: "loop_ok empty_loop" "event_sources empty_loop = Map.empty" "interest empty_loop = []"
  "check_list empty_loop = []" "idle_list empty_loop = []" "destroy_list empty_loop = []"
  by (simp_all add: empty_loop_def wl_event_loop_create_def loop_ok_def fd_of_def idle_source_def)

lemma demo_loop_ok: "loop_ok demo_loop"
proof -
  define s where "s = snd (wl_event_loop_add_fd 16 5 True 8 WL_EVENT_READABLE 0 0 empty_loop)"
  have s: "add_source 16 \<lparr>skind = Fd_source 0 8, sdata = 0, sfd = 5\<rparr> WL_EVENT_READABLE 0 True empty_loop = (16, s)"
    by (simp add: s_def wl_event_loop_add_fd_def add_source_def)
  have "loop_ok s" using add_source_ok [OF empty_loop_ok(1) _ _ _ _ s] empty_loop_ok by simp
  moreover have "add_source 32 \<lparr>skind = Fd_source 0 9, sdata = 0, sfd = 6\<rparr> WL_EVENT_READABLE 0 True s = (32, demo_loop)"
    by (simp add: demo_loop_def wl_event_loop_add_fd_def add_source_def s_def)
  moreover have "event_sources s 32 = None" "interest s = [(5, 16, epoll_events WL_EVENT_READABLE)]"
    using empty_loop_ok by (simp_all add: s_def wl_event_loop_add_fd_def add_source_def set_source_def)
  ultimately show ?thesis
    using add_source_ok [of s 32 "\<lparr>skind = Fd_source 0 9, sdata = 0, sfd = 6\<rparr>" WL_EVENT_READABLE 0 True 32 demo_loop] by simp
qed

lemma demo_call_ok: "callbacks_ok demo_call"
proof -
  have "loop_step\<^sup>*\<^sup>* s (case wl_event_source_remove 32 s of None \<Rightarrow> s | Some s' \<Rightarrow> s')" for s :: "u64 list wl_event_loop"
    by (auto intro: loop_step.remove split: option.splits)
  then show ?thesis
    unfolding callbacks_ok_def demo_call_def by (auto intro: loop_step.own_state split: source_call.splits)
qed

lemma demo_loop_interest: "interest demo_loop = [(5, 16, EPOLLIN), (6, 32, EPOLLIN)]"
  by (simp add: demo_loop_def wl_event_loop_add_fd_def add_source_def set_source_def empty_loop_ok epoll_events_def
      WL_EVENT_READABLE_def WL_EVENT_WRITABLE_def)

lemma demo_loop_sources: "event_sources demo_loop 16 = Some \<lparr>skind = Fd_source 0 8, sdata = 0, sfd = 5\<rparr>"
  "event_sources demo_loop 32 = Some \<lparr>skind = Fd_source 0 9, sdata = 0, sfd = 6\<rparr>" "destroy_list demo_loop = []"
  by (simp_all add: demo_loop_def wl_event_loop_add_fd_def add_source_def set_source_def empty_loop_ok)

text \<open>Both sources are reported; the function of the first removes the second, which is skipped and freed.\<close>

theorem ready_events_safe_witness:
  "\<exists>s' s''. ofold (dispatch_ready demo_call) (take 32 [(16, EPOLLIN), (32, EPOLLIN)]) demo_loop = Some s' \<and>
    wl_event_source_remove 32 demo_loop = Some s' \<and> wl_event_loop_process_destroy_list s' = Some s'' \<and> loop_ok s'' \<and>
    destroy_list s'' = [] \<and> event_sources s'' 32 = None"
proof -
  obtain s' s'' where s: "ofold (dispatch_ready demo_call) (take 32 [(16, EPOLLIN), (32, EPOLLIN)]) demo_loop = Some s'"
    "all_handled demo_call (take 32 [(16, EPOLLIN), (32, EPOLLIN)]) demo_loop s'" "wl_event_loop_process_destroy_list s' = Some s''"
    "loop_ok s''" "destroy_list s'' = []" "event_sources s'' = (\<lambda>p. if p \<in> set (destroy_list s') then None else event_sources s' p)"
    using ready_events_safe [OF demo_call_ok demo_loop_ok, of "[(16, EPOLLIN), (32, EPOLLIN)]"] by (auto simp: demo_loop_interest)
  obtain t where t: "wl_event_source_remove 32 demo_loop = Some t"
    by (auto simp: wl_event_source_remove_def demo_loop_sources)
  note rt = remove_ok [OF demo_loop_ok t]
  have "dispatch_source demo_call 16 EPOLLIN demo_loop = Some (0, t)"
    by (simp add: dispatch_source_def wl_event_source_fd_dispatch_def demo_loop_sources demo_call_def t)
  with s(2) rt have "s' = t" by (auto simp: handled_def demo_loop_sources elim!: batch_cases)
  with s t rt show ?thesis by auto
qed

text \<open>Two idle tasks.\<close>

definition idle_loop :: "u64 list wl_event_loop" where
  "idle_loop = snd (wl_event_loop_add_idle 64 0 8 (snd (wl_event_loop_add_idle 48 0 7 empty_loop)))"

lemma idle_loop_ok: "loop_ok idle_loop" "idle_list idle_loop = [48, 64]" "loop_user idle_loop = []"
  "map (\<lambda>p. sdata (the (event_sources idle_loop p))) [48, 64] = [7, 8]"
proof -
  define s where "s = snd (wl_event_loop_add_idle 48 0 7 empty_loop)"
  have "loop_ok s \<and> sources_kept empty_loop s"
    by (rule add_idle_ok [OF empty_loop_ok(1), of 48 0 7 48]) (simp_all add: empty_loop_ok s_def wl_event_loop_add_idle_def)
  then have "loop_ok idle_loop \<and> sources_kept s idle_loop"
    by (intro add_idle_ok [of s 64 0 8 64])
      (simp_all add: idle_loop_def s_def wl_event_loop_add_idle_def set_source_def empty_loop_ok)
  then show "loop_ok idle_loop" ..
  show "idle_list idle_loop = [48, 64]" "loop_user idle_loop = []"
    "map (\<lambda>p. sdata (the (event_sources idle_loop p))) [48, 64] = [7, 8]"
    by (simp_all add: idle_loop_def wl_event_loop_add_idle_def set_source_def empty_loop_ok)
      (simp add: empty_loop_def wl_event_loop_create_def)
qed

theorem idle_in_order_witness:
  "\<exists>s'. wl_event_loop_dispatch_idle demo_call idle_loop = Some s' \<and> idle_list s' = [] \<and> loop_user s' = [7, 8]"
proof -
  have "\<forall>f d t. loop_ok t \<longrightarrow> (\<exists>r t'. demo_call f (Idle_call d) t = Some (r, t') \<and> loop_ok t' \<and>
      sources_kept t t' \<and> idle_list t' = idle_list t \<and> destroy_list t' = destroy_list t \<and> loop_user t' = loop_user t @ [d])"
  proof (intro allI impI)
    fix f d and t :: "u64 list wl_event_loop" assume t: "loop_ok t"
    let ?t = "t\<lparr>loop_user := loop_user t @ [d]\<rparr>"
    show "\<exists>r t'. demo_call f (Idle_call d) t = Some (r, t') \<and> loop_ok t' \<and>
      sources_kept t t' \<and> idle_list t' = idle_list t \<and> destroy_list t' = destroy_list t \<and> loop_user t' = loop_user t @ [d]"
      using loop_ok_cong [of ?t t] t by (intro exI [of _ 0] exI [of _ ?t]) (simp add: demo_call_def)
  qed
  from idle_in_order [OF idle_loop_ok(1) this] idle_loop_ok(2-4) show ?thesis by auto
qed

text \<open>
  A source that is re-checked until the program's list of work is empty, beside an idle task. Its function
  takes one piece of work at a time.
\<close>

definition work_call :: "u64 list callbacks" where
  "work_call f a s = (case a of
     Idle_call _ \<Rightarrow> Some (0, s)
   | _ \<Rightarrow> (case loop_user s of [] \<Rightarrow> Some (0, s) | _ # xs \<Rightarrow> Some (1, s\<lparr>loop_user := xs\<rparr>)))"

definition work_loop :: "u64 list wl_event_loop" where
  "work_loop = (the (wl_event_source_check 16 (snd (wl_event_loop_add_idle 48 0 7 demo_loop))))\<lparr>loop_user := [1, 2]\<rparr>"

lemma work_loop_ok: "loop_ok work_loop"
proof -
  let ?i = "snd (wl_event_loop_add_idle 48 0 7 demo_loop)"
  have none: "event_sources demo_loop 48 = None"
    by (simp add: demo_loop_def wl_event_loop_add_fd_def add_source_def set_source_def empty_loop_ok)
  then have i: "loop_ok ?i" using add_idle_ok [OF demo_loop_ok none] by (metis prod.collapse)
  have "check_list ?i = []" "idle_list ?i = [48]" "destroy_list ?i = []" "event_sources ?i 16 \<noteq> None"
    by (simp_all add: demo_loop_def wl_event_loop_add_idle_def wl_event_loop_add_fd_def add_source_def set_source_def empty_loop_ok)
  then obtain t where "wl_event_source_check 16 ?i = Some t" by (auto simp: wl_event_source_check_def)
  with check_ok [OF i this] loop_ok_cong [of "t\<lparr>loop_user := [1, 2]\<rparr>" t] show ?thesis by (simp add: work_loop_def)
qed

lemma dispatch_source_calls:
  assumes "dispatch_source call p ep s = Some x"
  shows "\<exists>f a. call f a s = Some x"
proof -
  obtain src where "event_sources s p = Some src" using assms by (auto simp: dispatch_source_def bind_eq_Some)
  with assms show ?thesis
    by (cases "skind src") (auto simp: dispatch_source_def wl_event_source_fd_dispatch_def wl_event_source_timer_dispatch_def wl_event_source_signal_dispatch_def)
qed

lemma work_call_ok: "callbacks_ok work_call" "drains work_call length"
proof -
  show "callbacks_ok work_call"
    unfolding callbacks_ok_def work_call_def by (auto intro: loop_step.own_state split: source_call.splits list.splits)
  have idle: "s' = s" if "work_call f (Idle_call d) s = Some (r, s')" for f d s r s' using that by (simp add: work_call_def)
  have call: "check_list s' = check_list s \<and> length (loop_user s') \<le> length (loop_user s) \<and> (r = 0 \<or> length (loop_user s') < length (loop_user s))"
    if "work_call f a s = Some (r, s')" for f a s r s'
    using that by (auto simp: work_call_def split: source_call.splits list.splits)
  show "drains work_call length"
    unfolding drains_def using idle call dispatch_source_calls [of work_call]
    by (metis append_Nil2 order_refl subset_refl)
qed

theorem dispatch_keeps_loop_witness:
  "\<exists>s'. wl_event_loop_dispatch work_call (\<lambda>s. Some (map (\<lambda>(fd, p, ev). (p, ev)) (interest s))) work_loop = Some (0, s') \<and>
    loop_ok s'"
proof -
  let ?ready = "\<lambda>s. Some (map (\<lambda>(fd, p, ev). (p, ev)) (interest s))"
  have "\<forall>t eps. ?ready t = Some eps \<longrightarrow> (\<forall>(p, ep) \<in> set eps. \<exists>fd ev. (fd, p, ev) \<in> set (interest t))" by force
  from dispatch_keeps_loop [OF work_call_ok work_loop_ok this] show ?thesis by auto
qed

end
