(* ===== verification/Wl_Observers.thy ===== *)
theory Wl_Observers
  imports Wl_Objects
begin

text \<open>
  State that the compositor ties to resources. A compositor keeps structures of its own, found through
  the user data of resources and released by their destructors. The locale \<open>resource_invariant\<close> says what an
  invariant of such structures must survive: listeners, destructors, and resources of the library
  coming and going. Then every operation of the server keeps it.
\<close>

section \<open>The steps of the library\<close>

text \<open>The operations that create, destroy and tell of resources, as steps of the server.\<close>

inductive server_step :: "'u senv \<Rightarrow> 'u server \<Rightarrow> 'u server \<Rightarrow> bool" for E where
  connect: "wl_client_create E fd src cred data s = Some (ca, s') \<Longrightarrow> ca \<noteq> 0 \<Longrightarrow> server_step E s s'"
| leave: "clients s ca = Some c \<Longrightarrow> wl_client_destroy E ca s = Some s' \<Longrightarrow> server_step E s s'"
| create: "clients s ca = Some c \<Longrightarrow> id_available (objects c) i \<Longrightarrow> interface_ok f \<Longrightarrow>
     wl_resource_create E ca f v i s = Some (p, s') \<Longrightarrow> server_step E s s'"
| destroy: "resources s p = Some r \<Longrightarrow> wl_resource_destroy E p s = Some s' \<Longrightarrow> server_step E s s'"
| sync: "clients s ca = Some c \<Longrightarrow> id_available (objects c) i \<Longrightarrow> display_sync E ca p i s = Some s' \<Longrightarrow> server_step E s s'"
| get_registry: "clients s ca = Some c \<Longrightarrow> id_available (objects c) i \<Longrightarrow> display_get_registry E ca p i s = Some s' \<Longrightarrow>
     wl_resource_create E ca wl_registry_interface 1 i s = Some (rp, s1) \<Longrightarrow> server_step E s s'"
| event: "resources s p = Some r \<Longrightarrow> nth_message (events (rinterface r)) opcode = Some m \<Longrightarrow> no_fds (signature m) \<Longrightarrow>
     wl_resource_post_event E p opcode as s = Some s' \<Longrightarrow> server_step E s s'"

lemma server_step_ok:
  assumes E: "env_ok E" and s: "server_ok s" and step: "server_step E s s'"
  shows "server_ok s'"
  using step
proof cases
  case (connect fd src cred data ca)
  from connect_objects [OF E s connect] show ?thesis by blast
next
  case (leave ca c)
  from client_destroy_ok(1) [OF E s leave] show ?thesis .
next
  case (create ca c i f v p)
  from resource_create_ok(1) [OF E s create] show ?thesis .
next
  case (destroy p r)
  obtain c where "clients s (rclient r) = Some c" using server_okD(2) [OF s destroy(1)] by (auto simp: resource_ok_def)
  from resource_destroy_ok(1) [OF E s destroy(1) this destroy(2)] show ?thesis .
next
  case (sync ca c i p)
  from display_sync_ok(1) [OF E s sync] show ?thesis .
next
  case (get_registry ca c i p)
  from display_get_registry_ok(1) [OF E s get_registry(1-3)] show ?thesis .
next
  case (event p r opcode m as)
  obtain bs where "emits (rclient r) bs s s'"
    by (rule event_frame [OF disjI1 [OF event(4)] event(1)]) (use event(2,3) that in auto)
  from server_ok_emits [OF s this] show ?thesis .
qed

section \<open>Events leave resources and the compositor's state alone\<close>

definition unobserved :: "'u server \<Rightarrow> 'u server \<Rightarrow> bool" where
  "unobserved s s' \<longleftrightarrow> resources s' = resources s \<and> user s' = user s"

lemma unobserved_refl [simp]: "unobserved s s"
  by (simp add: unobserved_def)

lemma unobserved_trans: "unobserved s t \<Longrightarrow> unobserved t u \<Longrightarrow> unobserved s u"
  by (simp add: unobserved_def)

lemma unobserved_upd [simp]:
  "upd_client ca f s = Some s' \<Longrightarrow> unobserved s s'" "unobserved s (upd_socket fd w s)" "unobserved s (upd_display g s)"
  "unobserved s (log_closure p cl b s)" "unobserved s (s\<lparr>ticks := n\<rparr>)" "unobserved s (s\<lparr>clients := cs\<rparr>)"
  "unobserved s (s\<lparr>detached := ds\<rparr>)" "unobserved s (s\<lparr>globals := gs\<rparr>)"
  by (auto simp: unobserved_def upd_client_def upd_socket_def upd_display_def log_closure_def)

lemma handle_array_quiet:
  assumes run: "handle_array E f p opcode as s = Some s'"
  shows "unobserved s s'"
proof -
  obtain r c where r: "resources s p = Some r" "clients s (rclient r) = Some c"
    using run by (auto simp: handle_array_def bind_eq_Some)
  show ?thesis
  proof (cases "cerror c")
    case True
    with run r show ?thesis by (simp add: handle_array_def)
  next
    case False
    obtain m ok where m: "nth_message (events (rinterface r)) opcode = Some m" "verify_objects s (rclient r) m as = Some ok"
      using run r False by (auto simp: handle_array_def bind_eq_Some)
    let ?s1 = "s\<lparr>ticks := ticks s + 1\<rparr>"
    consider "\<not> ok" | st w where "ok" "wl_closure_marshal (malloc E s \<noteq> 0) (object_at ?s1) (robject r) opcode as m
        (sockets ?s1 (cfd (connection c))) = Inr (st, w)"
      using run r False m by (cases ok) (auto simp: handle_array_def do_malloc_def Let_def split: sum.split_asm)
    then show ?thesis
    proof cases
      case 1
      with run r False m show ?thesis by (auto simp: handle_array_def upd_client_def unobserved_def)
    next
      case 2
      with run r False m show ?thesis
        by (cases st) (auto simp: handle_array_def do_malloc_def Let_def bind_eq_Some upd_client_def upd_socket_def
            log_closure_def unobserved_def)
    qed
  qed
qed

lemma va_event_posts: "va_event post p opcode ap s = Some s' \<Longrightarrow> \<exists>args. post opcode args s = Some s'"
  unfolding va_event_def bind_eq_Some by (elim exE conjE) (simp split: sum.split_asm, blast)

lemma event_quiet:
  "wl_resource_post_event E p opcode as s = Some s' \<Longrightarrow> unobserved s s'"
  "wl_resource_queue_event E p opcode as s = Some s' \<Longrightarrow> unobserved s s'"
  by (auto simp: wl_resource_post_event_def wl_resource_queue_event_def wl_resource_post_event_array_def
      wl_resource_queue_event_array_def dest!: va_event_posts dest: handle_array_quiet)

lemma post_error_quiet: "wl_resource_post_error E p code msg s = Some s' \<Longrightarrow> unobserved s s'"
  by (auto simp: wl_resource_post_error_def bind_eq_Some Let_def split: if_splits
      dest!: event_quiet(1) unobserved_upd(1) intro: unobserved_trans)

lemma no_memory_quiet: "wl_client_post_no_memory E ca s = Some s' \<Longrightarrow> unobserved s s'"
  by (auto simp: wl_client_post_no_memory_def bind_eq_Some dest: post_error_quiet)

section \<open>Invariants of the compositor\<close>

text \<open>A resource that only the library knows.\<close>

definition plain_resource :: "wl_resource \<Rightarrow> bool" where
  "plain_resource r \<longleftrightarrow> (\<forall>k. rdestroy r \<noteq> Destroy k) \<and> (\<forall>k slots. rimplementation r \<noteq> Implementation k slots)"

definition plain_at :: "u64 \<Rightarrow> 'u server \<Rightarrow> bool" where
  "plain_at p s \<longleftrightarrow> (\<forall>r. resources s p = Some r \<longrightarrow> plain_resource r)"

locale listener_invariant =
  fixes E :: "'u senv" and I :: "'u server \<Rightarrow> bool"
  assumes env: "env_ok E"
    and views: "I s \<Longrightarrow> (\<And>q. map_option resource_view (resources s' q) = map_option resource_view (resources s q)) \<Longrightarrow>
      user s' = user s \<Longrightarrow> I s'"
    and listener: "I s \<Longrightarrow> notify E l data s = Some s' \<Longrightarrow> I s'"
    and plain: "I s \<Longrightarrow> plain_at p s \<Longrightarrow> plain_resource r \<Longrightarrow> I (s\<lparr>resources := (resources s)(p \<mapsto> r)\<rparr>)"
    and undestructed: "I s \<Longrightarrow> resources s p = Some r \<Longrightarrow> (\<And>k. rdestroy r \<noteq> Destroy k) \<Longrightarrow> I (free_resource p s)"
begin

lemma keep_quiet: "unobserved s s' \<Longrightarrow> I s \<Longrightarrow> I s'"
  by (rule views [of s]) (simp_all add: unobserved_def)

lemma keep_signal: "I s \<Longrightarrow> I (set_signal ref sg s)"
proof (rule views [of s])
  show "user (set_signal ref sg s) = user s" by (cases ref) (simp_all add: set_signal_def upd_display_def)
  show "map_option resource_view (resources (set_signal ref sg s) q) = map_option resource_view (resources s q)" for q
    using set_signal_same [of s ref sg] by (simp add: same_structs_def)
qed

lemma keep_emit: "emit E ref data s = Some s' \<Longrightarrow> I s \<Longrightarrow> I s'"
proof -
  assume run: "emit E ref data s = Some s'"
  have "I s \<longrightarrow> I s'"
    using run unfolding emit_def
    by (rule priv_emit_rel) (auto intro: keep_signal listener)
  then show "I s \<Longrightarrow> I s'" ..
qed

lemma keep_signal_emit: "wl_signal_emit get (\<lambda>l. notify E l data) s = Some s' \<Longrightarrow> I s \<Longrightarrow> I s'"
proof -
  assume run: "wl_signal_emit get (\<lambda>l. notify E l data) s = Some s'"
  have "I s \<longrightarrow> I s'"
    using run unfolding wl_signal_emit_def
    by (rule for_each_safe_rel) (auto intro: listener)
  then show "I s \<Longrightarrow> I s'" ..
qed

lemma keep_create:
  assumes s: "I s" and i: "i \<noteq> 0" and run: "wl_resource_create E ca f v i s = Some (p, s')"
  shows "I s'"
proof (cases "malloc E s = 0")
  case True
  with run have "unobserved s s'" by (auto simp: wl_resource_create_def do_malloc_def)
  with s show ?thesis by (rule keep_quiet [rotated])
next
  case False
  let ?q = "malloc E s" let ?r = "new_resource ca f v i"
  let ?s1 = "s\<lparr>ticks := ticks s + 1, resources := (resources s)(?q \<mapsto> ?r)\<rparr>"
  have "I (s\<lparr>ticks := ticks s + 1\<rparr>)" by (rule keep_quiet [OF _ s]) simp
  moreover have "resources s ?q = None" using env False by (auto simp: env_ok_def live_def)
  ultimately have s1: "I ?s1"
    using plain [of "s\<lparr>ticks := ticks s + 1\<rparr>" ?q ?r] by (simp add: plain_at_def plain_resource_def new_resource_def)
  obtain c m ret s2 where s2: "clients s ca = Some c" "wl_map_insert_at (blocks E) (objects c) 0 i ?q = Some (m, ret)"
    "upd_client ca (objects_update (\<lambda>_. m)) ?s1 = Some s2"
    using run i False
    by (cases "clients s ca") (auto simp: wl_resource_create_def do_malloc_def Let_def bind_eq_Some new_resource_def)
  let ?msg = "ascii (''invalid new id '' @ show_int (sint i))"
  have rest: "(if ret < 0
      then Option.bind (wl_resource_post_error E (display_resource c) WL_DISPLAY_ERROR_INVALID_OBJECT ?msg s2)
        (\<lambda>s. Some (0, free_resource ?q s))
      else Option.bind (emit E (Resource_created ca) ?q s2) (\<lambda>s. Some (?q, s))) = Some (p, s')"
    using run i False s2 by (simp add: wl_resource_create_def do_malloc_def Let_def new_resource_def cong: if_cong)
  have I2: "I s2" by (rule keep_quiet [OF unobserved_upd(1) [OF s2(3)] s1])
  show ?thesis
  proof (cases "ret < 0")
    case True
    then obtain s3 where s3: "wl_resource_post_error E (display_resource c) WL_DISPLAY_ERROR_INVALID_OBJECT ?msg s2 = Some s3"
      "s' = free_resource ?q s3" using rest by (auto simp: bind_eq_Some)
    have "resources s3 ?q = Some ?r"
      using post_error_quiet [OF s3(1)] unobserved_upd(1) [OF s2(3)] by (simp add: unobserved_def)
    with undestructed [OF keep_quiet [OF post_error_quiet [OF s3(1)] I2]] show ?thesis
      by (simp add: s3(2) new_resource_def)
  next
    case False
    with rest keep_emit I2 show ?thesis by (auto simp: bind_eq_Some)
  qed
qed

lemma keep_set_implementation:
  assumes s: "I s" and p: "plain_at p s" and run: "wl_resource_set_implementation p impl data d s = Some s'"
    and own: "\<And>k slots. impl \<noteq> Implementation k slots" "\<And>k. d \<noteq> Destroy k"
  shows "I s'"
proof -
  obtain r where "s' = s\<lparr>resources := (resources s)(p \<mapsto> r\<lparr>rimplementation := impl, rdata := data, rdestroy := d, rdispatcher := None\<rparr>)\<rparr>"
    using run by (auto simp: wl_resource_set_implementation_def upd_resource_def)
  with plain [OF s p] own show ?thesis by (simp add: plain_resource_def)
qed

lemma created_plain:
  assumes "wl_resource_create E ca f v i s = Some (p, s')" "p \<noteq> 0" "i \<noteq> 0" "clients s ca = Some c"
  shows "plain_at p s'"
proof -
  have "map_option resource_view (resources s' p) = Some (resource_view (new_resource ca f v i))"
    using resource_create_views [OF env assms(4,3,1,2)] by (simp add: fun_eq_iff)
  then show ?thesis by (auto simp: plain_at_def plain_resource_def resource_view_def new_resource_def)
qed

lemma advertise_quiet: "advertise F ca p ga s = Some s' \<Longrightarrow> unobserved s s'"
  by (auto simp: advertise_def post_global_def bind_eq_Some split: if_split_asm dest: event_quiet(1))

lemma keep_registry:
  assumes s: "I s" "clients s ca = Some c" and i: "i \<noteq> 0" and run: "display_get_registry E ca p i s = Some s'"
  shows "I s'"
proof -
  obtain rp s1 where s1: "wl_resource_create E ca wl_registry_interface 1 i s = Some (rp, s1)"
    using run by (auto simp: display_get_registry_def bind_eq_Some)
  note I1 = keep_create [OF s(1) i s1]
  show ?thesis
  proof (cases "rp = 0")
    case True
    with run s1 have "wl_client_post_no_memory E ca s1 = Some s'" by (auto simp: display_get_registry_def bind_eq_Some)
    then show ?thesis by (rule keep_quiet [OF no_memory_quiet I1])
  next
    case False
    let ?f = "upd_display (registry_resource_list_update (\<lambda>ps. rp # ps))"
    obtain data s2 where s2: "wl_resource_set_implementation rp Registry_interface data Unbind_resource s1 = Some s2"
      "ofold (advertise E ca rp) (global_list (display (?f s2))) (?f s2) = Some s'"
      using run s1 False by (auto simp: display_get_registry_def bind_eq_Some Let_def)
    have I3: "I (?f s2)"
      by (rule keep_quiet [OF unobserved_upd(3) keep_set_implementation [OF I1 created_plain [OF s1 False i s(2)] s2(1)]]) simp_all
    show ?thesis
      by (rule ofold_invariant [OF _ _ s2(2)]) (use I3 advertise_quiet keep_quiet in blast)+
  qed
qed

lemma keep_bind_display:
  assumes s: "I s" "clients s ca = Some c" and run: "bind_display E ca data s = Some (ret, s')"
  shows "I s'"
proof -
  obtain p s1 s2 where s1: "wl_resource_create E ca wl_display_interface 1 1 s = Some (p, s1)"
    "upd_client ca (display_resource_update (\<lambda>_. p)) s1 = Some s2"
    "p = 0 \<longrightarrow> s' = s2" "p \<noteq> 0 \<longrightarrow> wl_resource_set_implementation p Display_interface data Destroy_client_display_resource s2 = Some s'"
    using run by (auto simp: bind_display_def bind_eq_Some split: if_split_asm)
  have I2: "I s2" by (rule keep_quiet [OF unobserved_upd(1) [OF s1(2)] keep_create [OF s(1) _ s1(1)]]) simp
  show ?thesis
  proof (cases "p = 0")
    case True
    with I2 s1(3) show ?thesis by simp
  next
    case False
    have "plain_at p s2"
      using created_plain [OF s1(1) False _ s(2)] unobserved_upd(1) [OF s1(2)] by (simp add: plain_at_def unobserved_def)
    from keep_set_implementation [OF I2 this s1(4) [rule_format, OF False]] show ?thesis by simp
  qed
qed

lemma keep_connect:
  assumes s: "I s" and run: "wl_client_create E fd src cred data s = Some (ca, s')" "ca \<noteq> 0"
  shows "I s'"
proof -
  obtain m xs where m: "wl_map_insert_at (blocks E) (wl_map_init WL_MAP_SERVER_SIDE) 0 0 0 = Some (m, 0)" "map_ok m xs"
    by (rule fresh_table [OF env]) (use that in blast)
  obtain u where u: "cred = Some u" using run by (auto simp: wl_client_create_def do_malloc_def Let_def split: if_splits option.splits)
  define c where "c = \<lparr>connection = new_connection fd, csource = WL_EVENT_READABLE, display_resource = 0, objects = m,
    cdestroy_signal = wl_priv_signal_init, ucred = u, cerror = False, resource_created_signal = wl_priv_signal_init\<rparr>"
  define s2 where "s2 = s\<lparr>ticks := ticks s + 2, clients := (clients s)(malloc E s \<mapsto> c)\<rparr>"
  obtain ret s3 where b': "malloc E s = ca" "bind_display E ca data s2 = Some (ret, s3)"
    "emit E Create_client ca (upd_display (client_list_update (\<lambda>cs. cs @ [ca])) s3) = Some s'"
    using run m(1) u
    by (auto simp: wl_client_create_def do_malloc_def wl_connection_create_def Let_def bind_eq_Some c_def new_connection_def s2_def
        split: if_splits)
  have b: "unobserved s s2" "clients s2 ca = Some c" "bind_display E ca data s2 = Some (ret, s3)"
    "emit E Create_client ca (upd_display (client_list_update (\<lambda>cs. cs @ [ca])) s3) = Some s'"
    using b' by (simp_all add: s2_def unobserved_def)
  have "I s3" by (rule keep_bind_display [OF keep_quiet [OF b(1) s] b(2,3)])
  then show ?thesis by (rule keep_emit [OF b(4) keep_quiet [OF unobserved_upd(3)]])
qed

end

text \<open>With the destructors, which run while a resource goes away.\<close>

locale resource_invariant = listener_invariant +
  assumes destructed: "I s \<Longrightarrow> resources s p = Some r \<Longrightarrow> rdestroy r = Destroy k \<Longrightarrow> destructor E k p s = Some s' \<Longrightarrow>
      I (free_resource p s')"
begin

lemma keep_destroy_resource:
  assumes s: "I s" and p: "resources s p = Some r" "clients s (rclient r) = Some c"
    "\<forall>i. wl_map_lookup_flags (objects c) i = Some 0" and run: "destroy_resource E p 0 s = Some s'"
  shows "I s'"
proof -
  obtain s1 where s1: "wl_signal_emit (\<lambda>s. map_option deprecated_destroy_signal (resources s p)) (\<lambda>l. notify E l p) s = Some s1"
    using run by (auto simp: destroy_resource_def bind_eq_Some)
  note same1 = signal_emit_same [OF env s1]
  obtain r1 where r1: "resources s1 p = Some r1" "rclient r1 = rclient r" "rid r1 = rid r"
    by (rule same_structs_resource [OF same1 p(1)]) (rule that)
  obtain c1 where c1: "clients s1 (rclient r) = Some c1" "objects c1 = objects c"
    by (rule same_structs_client [OF same1 p(2)]) (rule that)
  have "resource_is_deprecated p s1 = Some False" using r1 c1 p(3) by (simp add: resource_is_deprecated_def)
  then obtain s2 s3 where s2: "emit E (Resource_destroy p) p s1 = Some s2" "run_destructor E p s2 = Some s3"
    "s' = free_resource p s3"
    using run s1 by (auto simp: destroy_resource_def bind_eq_Some)
  have I2: "I s2" by (rule keep_emit [OF s2(1) keep_signal_emit [OF s1 s]])
  obtain r2 where r2: "resources s2 p = Some r2" using s2(2) by (auto simp: run_destructor_def bind_eq_Some)
  show ?thesis
  proof (cases "rdestroy r2")
    case (Destroy k)
    with s2 r2 destructed [OF I2 r2] show ?thesis by (auto simp: run_destructor_def)
  qed (use s2 r2 undestructed [OF keep_quiet [OF _ I2], of s3 p] in \<open>auto simp: run_destructor_def unbind_resource_def
      destroy_client_display_resource_def upd_client_def upd_display_def unobserved_def\<close>)
qed

lemma keep_destroy:
  assumes s: "I s" "server_ok s" and p: "resources s p = Some r" and run: "wl_resource_destroy E p s = Some s'"
  shows "I s'"
proof -
  obtain c where c: "clients s (rclient r) = Some c" using server_okD(2) [OF s(2) p] by (auto simp: resource_ok_def)
  have fl: "\<forall>i. wl_map_lookup_flags (objects c) i = Some 0" using server_okD(1) [OF s(2) c] by (simp add: client_ok_def)
  obtain sd where sd: "destroy_resource E p 0 s = Some sd" using run p c fl by (auto simp: wl_resource_destroy_def bind_eq_Some)
  have "unobserved sd s'"
    using run p c fl sd
    by (auto simp: wl_resource_destroy_def bind_eq_Some split: if_split_asm
        dest!: event_quiet(2) unobserved_upd(1) intro: unobserved_trans)
  from keep_quiet [OF this keep_destroy_resource [OF s(1) p c fl sd]] show ?thesis .
qed

lemma keep_sync:
  assumes s: "I s" "server_ok s" "clients s ca = Some c" and i: "id_available (objects c) i"
    and run: "display_sync E ca p i s = Some s'"
  shows "I s'"
proof -
  have i0: "i \<noteq> 0" using i by (simp add: id_available_def)
  obtain cb s1 where s1: "wl_resource_create E ca wl_callback_interface 1 i s = Some (cb, s1)"
    using run by (auto simp: display_sync_def bind_eq_Some)
  note I1 = keep_create [OF s(1) i0 s1] and ok = resource_create_ok [OF env s(2,3) i own_interfaces_ok(3) s1]
  show ?thesis
  proof (cases "cb = 0")
    case True
    with run s1 have "wl_client_post_no_memory E ca s1 = Some s'" by (simp add: display_sync_def)
    then show ?thesis by (rule keep_quiet [OF no_memory_quiet I1])
  next
    case False
    obtain s2 where s2: "wl_resource_post_event E cb WL_CALLBACK_DONE [Arg_u (wl_display_get_serial s1)] s1 = Some s2"
      "wl_resource_destroy E cb s2 = Some s'"
      using run s1 False by (auto simp: display_sync_def bind_eq_Some Let_def)
    obtain r where r: "resources s1 cb = Some r" "rinterface r = wl_callback_interface" using ok(2) False by blast
    obtain bs where "emits (rclient r) bs s1 s2" using event_frame [OF disjI1 [OF s2(1)] r(1)] own_events [of "rinterface r"] r(2) by auto
    with server_ok_emits [OF ok(1)] have "server_ok s2" by blast
    moreover have "resources s2 cb = Some r" using event_quiet(1) [OF s2(1)] r(1) by (simp add: unobserved_def)
    ultimately show ?thesis using keep_destroy [OF keep_quiet [OF event_quiet(1) [OF s2(1)] I1] _ _ s2(2)] by blast
  qed
qed

lemma keep_entry:
  assumes s: "I s" "tearing ca m D s" and m: "map_ok m xs" "\<forall>i. wl_map_lookup_flags m i = Some 0"
    and e: "k < cell_count (entries_of cs m)" "(cs, k) \<notin> D" "cell_get (entries_of cs m) k = Some e"
    and run: "destroy_entry E e s = Some s'"
  shows "I s'"
proof (cases "e \<noteq> 0 \<and> \<not> map_entry_is_free e")
  case True
  obtain i where i: "slot i = (cs, k)" "wl_map_lookup m i = Some (map_entry_get_data e)" "map_entry_get_data e \<noteq> 0"
    "map_entry_get_flags e = 0"
    by (rule table_entry [OF m e(1)]) (use e(3) True that in auto)
  obtain c where c: "clients s ca = Some c" "objects c = m" using tearingD(1) [OF s(2)] by blast
  obtain r where "resources s (map_entry_get_data e) = Some r" "rclient r = ca"
    using tearingD(5) [OF s(2) i(2,3)] i(1) e(2) by auto
  with keep_destroy_resource [OF s(1), of "map_entry_get_data e" r c] c m(2) run True i(4) show ?thesis
    by (simp add: destroy_entry_def)
next
  case False
  with run s(1) show ?thesis by (auto simp: destroy_entry_def)
qed

lemma keep_entries:
  assumes m: "map_ok m xs" "\<forall>i. wl_map_lookup_flags m i = Some 0"
    and "I s" "tearing ca m D s" "k + n = cell_count (entries_of cs m)" "\<forall>j \<ge> k. (cs, j) \<notin> D"
    and "destroy_entries E ca cs (aalloc (entries_of cs m)) k n s = Some s'"
  shows "I s'"
  using assms(3-)
proof (induction n arbitrary: k D s)
  case (Suc n)
  obtain c where c: "clients s ca = Some c" "objects c = m" using tearingD(1) [OF Suc.prems(2)] by blast
  have k: "k < cell_count (entries_of cs m)" "(cs, k) \<notin> D" using Suc.prems(3,4) by auto
  obtain e s1 where s1: "cell_get (entries_of cs m) k = Some e" "destroy_entry E e s = Some s1"
    "destroy_entries E ca cs (aalloc (entries_of cs m)) (Suc k) n s1 = Some s'"
    using Suc.prems(5) destroy_entries_step [OF c] by (auto simp: bind_eq_Some)
  note st = destroy_entry_ok(1) [OF env Suc.prems(2) m k s1(1,2)]
  from keep_entry [OF Suc.prems(1,2) m k s1(1,2)] st show ?case
    by (rule Suc.IH) (use Suc.prems(3,4) s1(3) in auto)
qed simp

lemma keep_table:
  assumes m: "map_ok m xs" "\<forall>i. wl_map_lookup_flags m i = Some 0"
    and s: "I s" "tearing ca m D s" "\<forall>j. (cs, j) \<notin> D" and run: "destroy_table E ca cs s = Some s'"
  shows "I s'"
proof -
  obtain c where c: "clients s ca = Some c" "objects c = m" using tearingD(1) [OF s(2)] by blast
  have "destroy_entries E ca cs (aalloc (entries_of cs m)) 0 (cell_count (entries_of cs m)) s = Some s'"
    using run c by (simp add: destroy_table_def Let_def)
  from keep_entries [OF m s(1,2) _ _ this] s(3) show ?thesis by simp
qed

lemma keep_leave:
  assumes s: "I s" "server_ok s" "clients s ca = Some c" and run: "wl_client_destroy E ca s = Some s'"
  shows "I s'"
proof -
  obtain s1 ret s2 s3 s4 c4 where r: "emit E (Client_destroy ca) ca s = Some s1" "wl_client_flush ca s1 = Some (ret, s2)"
    "destroy_table E ca True s2 = Some s3" "destroy_table E ca False s3 = Some s4" "clients s4 ca = Some c4"
    using run by (auto simp: wl_client_destroy_def bind_eq_Some)
  have r': "unobserved s4 s'"
    using run r
    by (cases "wl_connection_destroy (connection c4) (sockets s4 (cfd (connection c4)))")
      (auto simp: wl_client_destroy_def upd_display_def upd_socket_def unobserved_def)
  have ok1: "server_ok s1" by (rule server_ok_same [OF s(2) emit_same [OF env r(1)]])
  obtain c1 where c1: "clients s1 ca = Some c1" by (rule same_structs_client [OF emit_same [OF env r(1)] s(3)]) (rule that)
  have k1: "conn_ok (connection c1)" using server_okD(1) [OF ok1 c1] by (simp add: client_ok_def)
  obtain conn w where f: "conn_ok conn" "s2 = s1\<lparr>sockets := (sockets s1)(cfd (connection c1) := w),
      clients := (clients s1)(ca \<mapsto> c1\<lparr>connection := conn\<rparr>)\<rparr>"
    by (rule client_flush_frame [OF c1 k1 r(2)]) (rule that)
  have ok2: "server_ok s2" unfolding f(2) by (rule server_ok_connection [OF ok1 c1 f(1)])
  define c2 where "c2 = c1\<lparr>connection := conn\<rparr>"
  have c2: "clients s2 ca = Some c2" by (simp add: f(2) c2_def)
  obtain xs where m: "map_ok (objects c2) xs" "\<forall>i. wl_map_lookup_flags (objects c2) i = Some 0"
    using server_okD(1) [OF ok2 c2] by (auto simp: client_ok_def)
  note t2 = tearing_start [OF ok2 c2]
  have "I s2" by (rule keep_quiet [OF _ keep_emit [OF r(1) s(1)]]) (simp add: f(2) unobserved_def)
  then have I3: "I s3" by (rule keep_table [OF m _ t2 _ r(3)]) simp
  have t3: "tearing ca (objects c2) ({True} \<times> {0..<cell_count (entries_of True (objects c2))}) s3"
    using destroy_table_ok [OF env m t2 _ r(3)] by simp
  have "I s4" by (rule keep_table [OF m I3 t3 _ r(4)]) simp
  then show ?thesis by (rule keep_quiet [OF r'])
qed

lemma keep_step:
  assumes s: "I s" "server_ok s" and step: "server_step E s s'"
  shows "I s'"
  using step
proof cases
  case (connect fd src cred data ca)
  from keep_connect [OF s(1) connect(1,2)] show ?thesis .
next
  case (leave ca c)
  from keep_leave [OF s leave(1,2)] show ?thesis .
next
  case (create ca c i f v p)
  from keep_create [OF s(1) _ create(4)] create(2) show ?thesis by (simp add: id_available_def)
next
  case (destroy p r)
  from keep_destroy [OF s destroy(1,2)] show ?thesis .
next
  case (sync ca c i p)
  from keep_sync [OF s sync(1-3)] show ?thesis .
next
  case (get_registry ca c i p rp s1)
  from keep_registry [OF s(1) get_registry(1) _ get_registry(3)] get_registry(2) show ?thesis by (simp add: id_available_def)
next
  case (event p r opcode m as)
  from keep_quiet [OF event_quiet(1) [OF event(4)] s(1)] show ?thesis .
qed

end

end
