(* ===== verification/Wl_Shm.thy ===== *)
theory Wl_Shm
  imports Wl_Observers
begin

text \<open>
  Shared memory pools and buffers (\<^verbatim>\<open>wayland-shm.c\<close>): a client hands over the descriptor of a file, the
  server maps it as a pool, and the client cuts buffers out of it. Pools and buffers are structures by
  address in the compositor's part of the server; \<^verbatim>\<open>mmap\<close> and \<^verbatim>\<open>mremap\<close> are arguments, and the mappings
  of the process are kept. Sizes and coordinates are 32-bit signed numbers, an operation that
  leaves their range is undefined: \<open>None\<close>.
\<close>

section \<open>State\<close>

record wl_shm_pool =
  presource :: u64
  internal_refcount :: int
  external_refcount :: int
  pdata :: u64
  psize :: int
  new_size :: int

record wl_shm_buffer =
  bresource :: u64
  bwidth :: int
  bheight :: int
  bstride :: int
  bformat :: u32
  boffset :: int
  bpool :: u64

record wl_shm_sigbus_data =
  current_pool :: u64
  access_count :: int
  fallback_mapping_used :: bool

text \<open>
  The key of the thread's data is that of the one thread modelled. \<open>compositor\<close> is whatever else the
  compositor keeps.
\<close>

record 'a shm =
  pools :: "u64 \<Rightarrow> wl_shm_pool option"
  buffers :: "u64 \<Rightarrow> wl_shm_buffer option"
  mappings :: "(u64 \<times> int) list"
  shm_closed :: "int list"
  sigbus_installed :: bool
  sigbus_data :: "wl_shm_sigbus_data option"
  compositor :: 'a

text \<open>\<^verbatim>\<open>mmap\<close> of a size and a descriptor: the address or the text of the error. \<^verbatim>\<open>mremap\<close> of an address and the two sizes.\<close>

record 's shm_os =
  mmap_call :: "int \<Rightarrow> int \<Rightarrow> 's \<Rightarrow> string + u64"
  mremap_call :: "u64 \<Rightarrow> int \<Rightarrow> int \<Rightarrow> 's \<Rightarrow> u64 option"

type_synonym 'a shm_env = "'a shm senv"
type_synonym 'a shm_sys = "'a shm server shm_os"

definition set_pool :: "u64 \<Rightarrow> wl_shm_pool option \<Rightarrow> 'a shm \<Rightarrow> 'a shm" where
  "set_pool p x u = u\<lparr>pools := (pools u)(p := x)\<rparr>"

definition set_buffer :: "u64 \<Rightarrow> wl_shm_buffer option \<Rightarrow> 'a shm \<Rightarrow> 'a shm" where
  "set_buffer b x u = u\<lparr>buffers := (buffers u)(b := x)\<rparr>"

definition upd_shm :: "('a shm \<Rightarrow> 'a shm) \<Rightarrow> 'a shm server \<Rightarrow> 'a shm server" where
  "upd_shm f s = s\<lparr>user := f (user s)\<rparr>"

definition INT32_MAX :: int where "INT32_MAX = 2 ^ 31 - 1"

definition int32 :: "int \<Rightarrow> int option" where
  "int32 x = (if - (2 ^ 31) \<le> x \<and> x \<le> INT32_MAX then Some x else None)"

definition WL_SHM_ERROR_INVALID_FORMAT :: u32 where "WL_SHM_ERROR_INVALID_FORMAT = 0"
definition WL_SHM_ERROR_INVALID_STRIDE :: u32 where "WL_SHM_ERROR_INVALID_STRIDE = 1"
definition WL_SHM_ERROR_INVALID_FD :: u32 where "WL_SHM_ERROR_INVALID_FD = 2"
definition WL_SHM_FORMAT_ARGB8888 :: u32 where "WL_SHM_FORMAT_ARGB8888 = 0"
definition WL_SHM_FORMAT_XRGB8888 :: u32 where "WL_SHM_FORMAT_XRGB8888 = 1"
definition WL_SHM_FORMAT :: u32 where "WL_SHM_FORMAT = 0"

section \<open>Interfaces\<close>

definition wl_buffer_interface :: interface_spec where
  "wl_buffer_interface = \<lparr>ispec = \<lparr>iname = ''wl_buffer'', iversion = 1\<rparr>,
     methods = [\<lparr>msg_name = ''destroy'', signature = [], types = [None]\<rparr>],
     events = [\<lparr>msg_name = ''release'', signature = [], types = [None]\<rparr>]\<rparr>"

definition wl_shm_pool_interface :: interface_spec where
  "wl_shm_pool_interface = \<lparr>ispec = \<lparr>iname = ''wl_shm_pool'', iversion = 1\<rparr>,
     methods = [\<lparr>msg_name = ''create_buffer'', signature = ''niiiiu'',
                  types = [Some (ispec wl_buffer_interface), None, None, None, None, None]\<rparr>,
                \<lparr>msg_name = ''destroy'', signature = [], types = [None]\<rparr>,
                \<lparr>msg_name = ''resize'', signature = ''i'', types = [None]\<rparr>],
     events = []\<rparr>"

definition wl_shm_interface :: interface_spec where
  "wl_shm_interface = \<lparr>ispec = \<lparr>iname = ''wl_shm'', iversion = 1\<rparr>,
     methods = [\<lparr>msg_name = ''create_pool'', signature = ''nhi'', types = [Some (ispec wl_shm_pool_interface), None, None]\<rparr>],
     events = [\<lparr>msg_name = ''format'', signature = ''u'', types = [None]\<rparr>]\<rparr>"

text \<open>The tables of handlers and the destructors, as the server's function pointers.\<close>

definition shm_interface :: wl_implementation where
  "shm_interface = Implementation 0 [True]"

definition shm_pool_interface :: wl_implementation where
  "shm_pool_interface = Implementation 1 [True, True, True]"

definition shm_buffer_interface :: wl_implementation where
  "shm_buffer_interface = Implementation 2 [True]"

abbreviation pool_destroyer :: wl_destructor where
  "pool_destroyer \<equiv> Destroy 1"

abbreviation buffer_destroyer :: wl_destructor where
  "buffer_destroyer \<equiv> Destroy 2"

section \<open>Pools\<close>

definition shm_pool_finish_resize :: "'a shm_env \<Rightarrow> 'a shm_sys \<Rightarrow> u64 \<Rightarrow> 'a shm server \<Rightarrow> 'a shm server option" where
  "shm_pool_finish_resize E M p s = do {
     pool \<leftarrow> pools (user s) p;
     if psize pool = new_size pool then Some s
     else case mremap_call M (pdata pool) (psize pool) (new_size pool) s of
       None \<Rightarrow> wl_resource_post_error E (presource pool) WL_SHM_ERROR_INVALID_FD (ascii ''failed mremap'') s
     | Some d \<Rightarrow> Some (upd_shm (\<lambda>u. set_pool p (Some (pool\<lparr>pdata := d, psize := new_size pool\<rparr>))
         (u\<lparr>mappings := (d, new_size pool) # remove1 (pdata pool, psize pool) (mappings u)\<rparr>)) s)
   }"

definition shm_pool_unref :: "'a shm_env \<Rightarrow> 'a shm_sys \<Rightarrow> u64 \<Rightarrow> bool \<Rightarrow> 'a shm server \<Rightarrow> 'a shm server option" where
  "shm_pool_unref E M p ext s = do {
     pool \<leftarrow> pools (user s) p;
     s \<leftarrow> (if ext then do {
             let pool = pool\<lparr>external_refcount := external_refcount pool - 1\<rparr>;
             let s = upd_shm (set_pool p (Some pool)) s;
             if external_refcount pool = 0 then shm_pool_finish_resize E M p s else Some s
           }
           else Some (upd_shm (set_pool p (Some (pool\<lparr>internal_refcount := internal_refcount pool - 1\<rparr>))) s));
     pool \<leftarrow> pools (user s) p;
     if internal_refcount pool + external_refcount pool \<noteq> 0 then Some s
     else Some (upd_shm (\<lambda>u. set_pool p None (u\<lparr>mappings := remove1 (pdata pool, psize pool) (mappings u)\<rparr>)) s)
   }"

definition destroy_buffer :: "'a shm_env \<Rightarrow> 'a shm_sys \<Rightarrow> u64 \<Rightarrow> 'a shm server \<Rightarrow> 'a shm server option" where
  "destroy_buffer E M rp s = do {
     r \<leftarrow> resources s rp;
     buffer \<leftarrow> buffers (user s) (rdata r);
     s \<leftarrow> (if bpool buffer \<noteq> 0 then shm_pool_unref E M (bpool buffer) False s else Some s);
     Some (upd_shm (set_buffer (rdata r) None) s)
   }"

definition destroy_pool :: "'a shm_env \<Rightarrow> 'a shm_sys \<Rightarrow> u64 \<Rightarrow> 'a shm server \<Rightarrow> 'a shm server option" where
  "destroy_pool E M rp s = do {
     r \<leftarrow> resources s rp;
     shm_pool_unref E M (rdata r) False s
   }"

text \<open>The formats the compositor has added, an array of words.\<close>

definition wl_display_get_additional_shm_formats :: "'u server \<Rightarrow> u32 list" where
  "wl_display_get_additional_shm_formats s =
     (let a = additional_shm_formats (display s) in map (\<lambda>k. load 4 (4 * k) (array_bytes a)) [0..<unat (asize a) div 4])"

text \<open>The result is the place of the format in the array, none without memory.\<close>

definition wl_display_add_shm_format :: "'u senv \<Rightarrow> u32 \<Rightarrow> 'u server \<Rightarrow> (nat option \<times> 'u server) option" where
  "wl_display_add_shm_format E format s = do {
     (a, place) \<leftarrow> wl_array_add (blocks E) (additional_shm_formats (display s)) 4;
     let a = (case place of None \<Rightarrow> a | Some k \<Rightarrow> a\<lparr>adata := DBlock (store 4 k format (array_block a))\<rparr>);
     Some (place, upd_display (additional_shm_formats_update (\<lambda>_. a)) s)
   }"

definition format_is_supported :: "u32 \<Rightarrow> 'u server \<Rightarrow> bool" where
  "format_is_supported format s \<longleftrightarrow> format = WL_SHM_FORMAT_ARGB8888 \<or> format = WL_SHM_FORMAT_XRGB8888 \<or>
     format \<in> set (wl_display_get_additional_shm_formats s)"

fun hex :: "nat \<Rightarrow> string" where
  "hex n = (if n < 16 then [''0123456789abcdef'' ! n] else hex (n div 16) @ [''0123456789abcdef'' ! (n mod 16)])"

declare hex.simps [simp del]

text \<open>The tests of \<^verbatim>\<open>shm_pool_create_buffer\<close>, evaluated from left to right.\<close>

definition buffer_fits :: "int \<Rightarrow> int \<Rightarrow> int \<Rightarrow> int \<Rightarrow> int \<Rightarrow> bool option" where
  "buffer_fits sz offset width height stride =
     (if offset < 0 \<or> width \<le> 0 \<or> height \<le> 0 \<or> stride < width \<or> INT32_MAX div stride \<le> height then Some False
      else do {
        n \<leftarrow> int32 (stride * height);
        d \<leftarrow> int32 (sz - n);
        Some (\<not> offset > d)
      })"

definition shm_pool_create_buffer ::
    "'a shm_env \<Rightarrow> 'a shm_sys \<Rightarrow> u64 \<Rightarrow> u64 \<Rightarrow> u32 \<Rightarrow> int \<Rightarrow> int \<Rightarrow> int \<Rightarrow> int \<Rightarrow> u32 \<Rightarrow> 'a shm server \<Rightarrow> 'a shm server option" where
  "shm_pool_create_buffer E M ca rp i offset width height stride format s = do {
     r \<leftarrow> resources s rp;
     let p = rdata r;
     if \<not> format_is_supported format s then
       wl_resource_post_error E rp WL_SHM_ERROR_INVALID_FORMAT (ascii (''invalid format 0x'' @ hex (unat format))) s
     else do {
       pool \<leftarrow> pools (user s) p;
       fits \<leftarrow> buffer_fits (psize pool) offset width height stride;
       if \<not> fits then
         wl_resource_post_error E rp WL_SHM_ERROR_INVALID_STRIDE
           (ascii (''invalid width, height or stride ('' @ show_int width @ ''x'' @ show_int height @ '', '' @
              dec (unat (of_int stride :: u32)) @ '')'')) s
       else do {
         let (b, s) = do_malloc E s;
         if b = 0 then wl_client_post_no_memory E ca s
         else do {
           let buffer = \<lparr>bresource = 0, bwidth = width, bheight = height, bstride = stride, bformat = format,
             boffset = offset, bpool = p\<rparr>;
           let s = upd_shm (\<lambda>u. set_pool p (Some (pool\<lparr>internal_refcount := internal_refcount pool + 1\<rparr>))
             (set_buffer b (Some buffer) u)) s;
           (q, s) \<leftarrow> wl_resource_create E ca wl_buffer_interface 1 i s;
           let s = upd_shm (set_buffer b (Some (buffer\<lparr>bresource := q\<rparr>))) s;
           if q = 0 then do {
             s \<leftarrow> wl_client_post_no_memory E ca s;
             s \<leftarrow> shm_pool_unref E M p False s;
             Some (upd_shm (set_buffer b None) s)
           }
           else wl_resource_set_implementation q shm_buffer_interface b buffer_destroyer s
         }
       }
     }
   }"

definition shm_pool_resize :: "'a shm_env \<Rightarrow> 'a shm_sys \<Rightarrow> u64 \<Rightarrow> int \<Rightarrow> 'a shm server \<Rightarrow> 'a shm server option" where
  "shm_pool_resize E M rp sz s = do {
     r \<leftarrow> resources s rp;
     let p = rdata r;
     pool \<leftarrow> pools (user s) p;
     if sz < psize pool then
       wl_resource_post_error E rp WL_SHM_ERROR_INVALID_FD (ascii ''shrinking pool invalid'') s
     else do {
       let s = upd_shm (set_pool p (Some (pool\<lparr>new_size := sz\<rparr>))) s;
       if external_refcount pool = 0 then shm_pool_finish_resize E M p s else Some s
     }
   }"

definition close_fd :: "int \<Rightarrow> 'a shm server \<Rightarrow> 'a shm server" where
  "close_fd fd = upd_shm (\<lambda>u. u\<lparr>shm_closed := shm_closed u @ [fd]\<rparr>)"

definition shm_create_pool ::
    "'a shm_env \<Rightarrow> 'a shm_sys \<Rightarrow> u64 \<Rightarrow> u64 \<Rightarrow> u32 \<Rightarrow> int \<Rightarrow> int \<Rightarrow> 'a shm server \<Rightarrow> 'a shm server option" where
  "shm_create_pool E M ca rp i fd sz s =
     (if sz \<le> 0 then do {
        s \<leftarrow> wl_resource_post_error E rp WL_SHM_ERROR_INVALID_STRIDE (ascii (''invalid size ('' @ show_int sz @ '')'')) s;
        Some (close_fd fd s)
      }
      else do {
        let (p, s) = do_malloc E s;
        if p = 0 then do { s \<leftarrow> wl_client_post_no_memory E ca s; Some (close_fd fd s) }
        else (case mmap_call M sz fd s of
            Inl msg \<Rightarrow> do {
              s \<leftarrow> wl_resource_post_error E rp WL_SHM_ERROR_INVALID_FD
                (ascii (''failed mmap fd '' @ show_int fd @ '': '' @ msg)) s;
              Some (close_fd fd s)
            }
          | Inr d \<Rightarrow> do {
              let pool = \<lparr>presource = 0, internal_refcount = 1, external_refcount = 0, pdata = d, psize = sz, new_size = sz\<rparr>;
              let s = close_fd fd (upd_shm (\<lambda>u. set_pool p (Some pool) (u\<lparr>mappings := (d, sz) # mappings u\<rparr>)) s);
              (q, s) \<leftarrow> wl_resource_create E ca wl_shm_pool_interface 1 i s;
              let s = upd_shm (set_pool p (Some (pool\<lparr>presource := q\<rparr>))) s;
              if q = 0 then do {
                s \<leftarrow> wl_client_post_no_memory E ca s;
                Some (upd_shm (\<lambda>u. set_pool p None (u\<lparr>mappings := remove1 (d, sz) (mappings u)\<rparr>)) s)
              }
              else wl_resource_set_implementation q shm_pool_interface p pool_destroyer s
            })
      })"

definition wl_shm_send_format :: "'u senv \<Rightarrow> u64 \<Rightarrow> u32 \<Rightarrow> 'u server \<Rightarrow> 'u server option" where
  "wl_shm_send_format E rp format = wl_resource_post_event E rp WL_SHM_FORMAT [Arg_u format]"

definition bind_shm :: "'u senv \<Rightarrow> u64 \<Rightarrow> u64 \<Rightarrow> u32 \<Rightarrow> u32 \<Rightarrow> 'u server \<Rightarrow> 'u server option" where
  "bind_shm E ca data version i s = do {
     (q, s) \<leftarrow> wl_resource_create E ca wl_shm_interface 1 i s;
     if q = 0 then wl_client_post_no_memory E ca s
     else do {
       s \<leftarrow> wl_resource_set_implementation q shm_interface data No_destroy s;
       s \<leftarrow> wl_shm_send_format E q WL_SHM_FORMAT_ARGB8888 s;
       s \<leftarrow> wl_shm_send_format E q WL_SHM_FORMAT_XRGB8888 s;
       ofold (wl_shm_send_format E q) (wl_display_get_additional_shm_formats s) s
     }
   }"

definition wl_display_init_shm :: "'u senv \<Rightarrow> 'u server \<Rightarrow> (int \<times> 'u server) option" where
  "wl_display_init_shm E s = do {
     (ga, s) \<leftarrow> wl_global_create E wl_shm_interface 1 0 0 s;
     Some (if ga = 0 then -1 else 0, s)
   }"

text \<open>The handlers by the table they stand in and the opcode.\<close>

definition shm_request ::
    "'a shm_env \<Rightarrow> 'a shm_sys \<Rightarrow> nat \<Rightarrow> u64 \<Rightarrow> u64 \<Rightarrow> listener_call \<Rightarrow> 'a shm server \<Rightarrow> 'a shm server option" where
  "shm_request E M k ca rp call s =
     (if k = 0 then
        (case call_args call of
           [Arg_n i, Arg_h fd, Arg_i sz] \<Rightarrow> shm_create_pool E M ca rp i (sint fd) (sint sz) s
         | _ \<Rightarrow> None)
      else if k = 1 \<and> call_opcode call = 0 then
        (case call_args call of
           [Arg_n i, Arg_i offset, Arg_i width, Arg_i height, Arg_i stride, Arg_u format] \<Rightarrow>
             shm_pool_create_buffer E M ca rp i (sint offset) (sint width) (sint height) (sint stride) format s
         | _ \<Rightarrow> None)
      else if k = 1 \<and> call_opcode call = 2 then
        (case call_args call of [Arg_i sz] \<Rightarrow> shm_pool_resize E M rp (sint sz) s | _ \<Rightarrow> None)
      else wl_resource_destroy E rp s)"

section \<open>Buffers\<close>

definition wl_shm_buffer_get :: "u64 \<Rightarrow> 'u server \<Rightarrow> u64 option" where
  "wl_shm_buffer_get rp s =
     (if rp = 0 then Some 0
      else do {
        same \<leftarrow> wl_resource_instance_of rp wl_buffer_interface shm_buffer_interface s;
        if same then map_option rdata (resources s rp) else Some 0
      })"

definition wl_shm_buffer_get_stride :: "u64 \<Rightarrow> 'a shm server \<Rightarrow> int option" where
  "wl_shm_buffer_get_stride b s = map_option bstride (buffers (user s) b)"

definition wl_shm_buffer_get_data :: "u64 \<Rightarrow> 'a shm server \<Rightarrow> u64 option" where
  "wl_shm_buffer_get_data b s = do {
     buffer \<leftarrow> buffers (user s) b;
     if bpool buffer = 0 then None
     else do {
       pool \<leftarrow> pools (user s) (bpool buffer);
       Some (pdata pool + of_int (boffset buffer))
     }
   }"

definition wl_shm_buffer_get_format :: "u64 \<Rightarrow> 'a shm server \<Rightarrow> u32 option" where
  "wl_shm_buffer_get_format b s = map_option bformat (buffers (user s) b)"

definition wl_shm_buffer_get_width :: "u64 \<Rightarrow> 'a shm server \<Rightarrow> int option" where
  "wl_shm_buffer_get_width b s = map_option bwidth (buffers (user s) b)"

definition wl_shm_buffer_get_height :: "u64 \<Rightarrow> 'a shm server \<Rightarrow> int option" where
  "wl_shm_buffer_get_height b s = map_option bheight (buffers (user s) b)"

definition wl_shm_buffer_ref_pool :: "u64 \<Rightarrow> 'a shm server \<Rightarrow> (u64 \<times> 'a shm server) option" where
  "wl_shm_buffer_ref_pool b s = do {
     buffer \<leftarrow> buffers (user s) b;
     pool \<leftarrow> pools (user s) (bpool buffer);
     if internal_refcount pool + external_refcount pool = 0 then None
     else Some (bpool buffer,
       upd_shm (set_pool (bpool buffer) (Some (pool\<lparr>external_refcount := external_refcount pool + 1\<rparr>))) s)
   }"

definition wl_shm_pool_unref :: "'a shm_env \<Rightarrow> 'a shm_sys \<Rightarrow> u64 \<Rightarrow> 'a shm server \<Rightarrow> 'a shm server option" where
  "wl_shm_pool_unref E M p = shm_pool_unref E M p True"

section \<open>Access to mapped files that may shrink\<close>

text \<open>A fault is taken over, or the old action of the signal comes back and the signal is raised again.\<close>

datatype sigbus_outcome = Taken_over | Reraised

definition reraise_sigbus :: "'a shm server \<Rightarrow> sigbus_outcome \<times> 'a shm server" where
  "reraise_sigbus s = (Reraised, upd_shm (sigbus_installed_update (\<lambda>_. False)) s)"

text \<open>\<open>anon\<close> says whether the anonymous memory could be mapped over the pool.\<close>

definition sigbus_handler :: "bool \<Rightarrow> u64 \<Rightarrow> 'a shm server \<Rightarrow> (sigbus_outcome \<times> 'a shm server) option" where
  "sigbus_handler anon addr s =
     (case sigbus_data (user s) of
        None \<Rightarrow> Some (reraise_sigbus s)
      | Some sd \<Rightarrow>
          if current_pool sd = 0 then Some (reraise_sigbus s)
          else do {
            pool \<leftarrow> pools (user s) (current_pool sd);
            if addr < pdata pool \<or> addr \<ge> pdata pool + of_int (psize pool) then Some (reraise_sigbus s)
            else do {
              let s = upd_shm (sigbus_data_update (\<lambda>_. Some (sd\<lparr>fallback_mapping_used := True\<rparr>))) s;
              Some (if anon then (Taken_over, s) else reraise_sigbus s)
            }
          })"

definition init_sigbus_data_key :: "'a shm \<Rightarrow> 'a shm" where
  "init_sigbus_data_key u = u\<lparr>sigbus_installed := True\<rparr>"

text \<open>\<open>once\<close> says whether this is the first call, \<open>mem\<close> whether the thread's data can be allocated.\<close>

definition wl_shm_buffer_begin_access :: "bool \<Rightarrow> bool \<Rightarrow> u64 \<Rightarrow> 'a shm server \<Rightarrow> 'a shm server option" where
  "wl_shm_buffer_begin_access once mem b s = do {
     buffer \<leftarrow> buffers (user s) b;
     let s = (if once then upd_shm init_sigbus_data_key s else s);
     case (case sigbus_data (user s) of
             Some sd \<Rightarrow> Some sd
           | None \<Rightarrow> if mem then Some \<lparr>current_pool = 0, access_count = 0, fallback_mapping_used = False\<rparr> else None) of
       None \<Rightarrow> Some s
     | Some sd \<Rightarrow>
         if current_pool sd \<noteq> 0 \<and> current_pool sd \<noteq> bpool buffer then None
         else Some (upd_shm (sigbus_data_update (\<lambda>_. Some (sd\<lparr>current_pool := bpool buffer,
           access_count := access_count sd + 1\<rparr>))) s)
   }"

definition wl_shm_buffer_end_access :: "'a shm_env \<Rightarrow> u64 \<Rightarrow> 'a shm server \<Rightarrow> 'a shm server option" where
  "wl_shm_buffer_end_access E b s =
     (case sigbus_data (user s) of
        None \<Rightarrow> None
      | Some sd \<Rightarrow>
          if access_count sd < 1 then None
          else do {
            let sd = sd\<lparr>access_count := access_count sd - 1\<rparr>;
            if access_count sd = 0 then do {
              s \<leftarrow> (if fallback_mapping_used sd then do {
                       buffer \<leftarrow> buffers (user s) b;
                       wl_resource_post_error E (bresource buffer) WL_SHM_ERROR_INVALID_FD (ascii ''error accessing SHM buffer'') s
                     } else Some s);
              Some (upd_shm (sigbus_data_update (\<lambda>_. Some (sd\<lparr>fallback_mapping_used := False, current_pool := 0\<rparr>))) s)
            }
            else Some (upd_shm (sigbus_data_update (\<lambda>_. Some sd)) s)
          })"

end
