(* ===== verification/Wl_Pools.thy ===== *)
theory Wl_Pools
  imports Wl_Shm
begin

text \<open>
  The safety of shared memory buffers: the reference counts of pools count what refers to them, a pool is
  unmapped exactly when the last reference goes, and a buffer never reaches beyond the mapping of its pool.
  The invariant survives every request, the destruction of any resource and of whole clients.
\<close>

section \<open>The invariant\<close>

text \<open>What a resource stands for is known by its destructor.\<close>

datatype shm_object = Pool_of u64 | Buffer_of u64

definition shm_handle :: "wl_resource \<Rightarrow> shm_object option" where
  "shm_handle r = (if rdestroy r = pool_destroyer then Some (Pool_of (rdata r))
     else if rdestroy r = buffer_destroyer then Some (Buffer_of (rdata r)) else None)"

definition shm_objects :: "'u server \<Rightarrow> u64 \<Rightarrow> shm_object option" where
  "shm_objects s q = Option.bind (resources s q) shm_handle"

definition pool_buffers :: "'a shm \<Rightarrow> u64 \<Rightarrow> u64 set" where
  "pool_buffers u p = {b. \<exists>B. buffers u b = Some B \<and> bpool B = p}"

definition pool_refs :: "(u64 \<Rightarrow> shm_object option) \<Rightarrow> 'a shm \<Rightarrow> u64 \<Rightarrow> int" where
  "pool_refs H u p = int (card (pool_buffers u p)) + (if Pool_of p \<in> ran H then 1 else 0)"

text \<open>The pixels of a buffer are within the pool, and so are the products and sums that address them.\<close>

definition buffer_in :: "wl_shm_buffer \<Rightarrow> wl_shm_pool \<Rightarrow> bool" where
  "buffer_in B P \<longleftrightarrow> 0 \<le> boffset B \<and> 0 < bwidth B \<and> bwidth B \<le> bstride B \<and> 0 < bheight B \<and>
     boffset B + bstride B * bheight B \<le> psize P"

definition pool_ok :: "(u64 \<Rightarrow> shm_object option) \<Rightarrow> 'a shm \<Rightarrow> u64 \<Rightarrow> wl_shm_pool \<Rightarrow> bool" where
  "pool_ok H u p P \<longleftrightarrow> p \<noteq> 0 \<and> 0 < psize P \<and> psize P \<le> new_size P \<and> new_size P \<le> INT32_MAX \<and>
     0 \<le> external_refcount P \<and> internal_refcount P = pool_refs H u p \<and> 0 < internal_refcount P + external_refcount P \<and>
     (pdata P, psize P) \<in> set (mappings u)"

definition shm_inv :: "(u64 \<Rightarrow> shm_object option) \<Rightarrow> 'a shm \<Rightarrow> bool" where
  "shm_inv H u \<longleftrightarrow> finite (dom (buffers u)) \<and>
     (\<forall>p P. pools u p = Some P \<longrightarrow> pool_ok H u p P) \<and>
     (\<forall>b B. buffers u b = Some B \<longrightarrow> b \<noteq> 0 \<and> Buffer_of b \<in> ran H \<and> (\<exists>P. pools u (bpool B) = Some P \<and> buffer_in B P)) \<and>
     (\<forall>b. Buffer_of b \<in> ran H \<longrightarrow> buffers u b \<noteq> None) \<and>
     (\<forall>p. Pool_of p \<in> ran H \<longrightarrow> pools u p \<noteq> None) \<and>
     (\<forall>q q' x. H q = Some x \<longrightarrow> H q' = Some x \<longrightarrow> q = q') \<and>
     distinct (map fst (mappings u)) \<and>
     (\<forall>m \<in> set (mappings u). \<exists>p P. pools u p = Some P \<and> m = (pdata P, psize P)) \<and>
     (\<forall>p p' P P'. pools u p = Some P \<longrightarrow> pools u p' = Some P' \<longrightarrow> pdata P = pdata P' \<longrightarrow> p = p')"

lemma shm_invD:
  assumes "shm_inv H u"
  shows "finite (dom (buffers u))" "pools u p = Some P \<Longrightarrow> pool_ok H u p P"
    "buffers u b = Some B \<Longrightarrow> b \<noteq> 0 \<and> Buffer_of b \<in> ran H"
    "buffers u b = Some B \<Longrightarrow> \<exists>P. pools u (bpool B) = Some P \<and> buffer_in B P"
    "Buffer_of b \<in> ran H \<Longrightarrow> buffers u b \<noteq> None" "Pool_of p \<in> ran H \<Longrightarrow> pools u p \<noteq> None"
    "H q = Some x \<Longrightarrow> H q' = Some x \<Longrightarrow> q = q'" "distinct (map fst (mappings u))"
    "m \<in> set (mappings u) \<Longrightarrow> \<exists>p P. pools u p = Some P \<and> m = (pdata P, psize P)"
    "pools u p = Some P \<Longrightarrow> pools u p' = Some P' \<Longrightarrow> pdata P = pdata P' \<Longrightarrow> p = p'"
  using assms unfolding shm_inv_def by blast+

lemma shm_invI:
  assumes "finite (dom (buffers u))" "\<And>p P. pools u p = Some P \<Longrightarrow> pool_ok H u p P"
    "\<And>b B. buffers u b = Some B \<Longrightarrow> b \<noteq> 0 \<and> Buffer_of b \<in> ran H"
    "\<And>b B. buffers u b = Some B \<Longrightarrow> \<exists>P. pools u (bpool B) = Some P \<and> buffer_in B P"
    "\<And>b. Buffer_of b \<in> ran H \<Longrightarrow> buffers u b \<noteq> None" "\<And>p. Pool_of p \<in> ran H \<Longrightarrow> pools u p \<noteq> None"
    "\<And>q q' x. H q = Some x \<Longrightarrow> H q' = Some x \<Longrightarrow> q = q'" "distinct (map fst (mappings u))"
    "\<And>m. m \<in> set (mappings u) \<Longrightarrow> \<exists>p P. pools u p = Some P \<and> m = (pdata P, psize P)"
    "\<And>p p' P P'. pools u p = Some P \<Longrightarrow> pools u p' = Some P' \<Longrightarrow> pdata P = pdata P' \<Longrightarrow> p = p'"
  shows "shm_inv H u"
  unfolding shm_inv_def by (intro conjI allI impI ballI) (use assms in blast)+

text \<open>Only pools, buffers and mappings matter.\<close>

definition shm_part :: "'a shm \<Rightarrow> (u64 \<Rightarrow> wl_shm_pool option) \<times> (u64 \<Rightarrow> wl_shm_buffer option) \<times> (u64 \<times> int) list" where
  "shm_part u = (pools u, buffers u, mappings u)"

lemma shm_inv_part: "shm_part u' = shm_part u \<Longrightarrow> shm_inv H u' = shm_inv H u"
  by (simp add: shm_part_def shm_inv_def pool_ok_def pool_refs_def pool_buffers_def)

lemma pool_refs_cong: "buffers u' = buffers u \<Longrightarrow> pool_refs H u' p = pool_refs H u p"
  by (simp add: pool_refs_def pool_buffers_def)

lemma set_simps [simp]:
  "pools (set_pool p x u) = (pools u)(p := x)" "buffers (set_pool p x u) = buffers u" "mappings (set_pool p x u) = mappings u"
  "pools (set_buffer b y u) = pools u" "buffers (set_buffer b y u) = (buffers u)(b := y)" "mappings (set_buffer b y u) = mappings u"
  by (simp_all add: set_pool_def set_buffer_def)

lemma user_upd_shm [simp]: "user (upd_shm f s) = f (user s)" "resources (upd_shm f s) = resources s"
  "clients (upd_shm f s) = clients s" "display (upd_shm f s) = display s"
  by (simp_all add: upd_shm_def)

section \<open>Changes of a pool\<close>

text \<open>A pool whose counts and size change, at the place it is mapped or elsewhere.\<close>

definition repool :: "u64 \<Rightarrow> wl_shm_pool \<Rightarrow> wl_shm_pool \<Rightarrow> 'a shm \<Rightarrow> 'a shm" where
  "repool p P P' u = set_pool p (Some P') (u\<lparr>mappings :=
     (if (pdata P', psize P') = (pdata P, psize P) then mappings u
      else (pdata P', psize P') # remove1 (pdata P, psize P) (mappings u))\<rparr>)"

lemma repool_ok:
  assumes inv: "shm_inv H u" and P: "pools u p = Some P"
    and P': "psize P \<le> psize P'" "psize P' \<le> new_size P'" "new_size P' \<le> INT32_MAX" "0 \<le> external_refcount P'"
      "internal_refcount P' = internal_refcount P" "0 < internal_refcount P' + external_refcount P'"
    and d: "pdata P' = pdata P \<or> pdata P' \<notin> fst ` set (mappings u)"
  shows "shm_inv H (repool p P P' u)"
proof -
  note D = shm_invD [OF inv]
  have ok: "pool_ok H u p P" by (rule D(2) [OF P])
  have mem: "(pdata P, psize P) \<in> set (mappings u)" using ok by (simp add: pool_ok_def)
  have dist: "distinct (mappings u)" using D(8) by (simp add: distinct_map)
  have same: "m \<in> set (mappings u) \<Longrightarrow> fst m = pdata P \<Longrightarrow> m = (pdata P, psize P)" for m
    using D(8) mem by (metis eq_key_imp_eq_value fst_conv prod.collapse)
  have maps: "set (mappings (repool p P P' u)) = insert (pdata P', psize P') (set (mappings u) - {(pdata P, psize P)})"
    using mem dist by (auto simp: repool_def)
  have other: "(pdata Q, psize Q) \<noteq> (pdata P, psize P)" if "pools u q = Some Q" "q \<noteq> p" for q Q
    using D(10) [OF that(1) P] that(2) by auto
  show ?thesis
  proof (rule shm_invI)
    show "pool_ok H (repool p P P' u) q Q" if q: "pools (repool p P P' u) q = Some Q" for q Q
    proof (cases "q = p")
      case True
      then show ?thesis using q ok P' maps pool_refs_cong [of "repool p P P' u" u H p] by (auto simp: repool_def pool_ok_def)
    next
      case False
      then have Q: "pools u q = Some Q" using q by (simp add: repool_def)
      from D(2) [OF Q] other [OF Q False] maps pool_refs_cong [of "repool p P P' u" u H q] show ?thesis
        by (simp add: pool_ok_def) (simp add: repool_def)
    qed
    show "\<exists>Q. pools (repool p P P' u) (bpool B) = Some Q \<and> buffer_in B Q" if "buffers (repool p P P' u) b = Some B" for b B
      using D(4) [of b B] that P P'(1) by (auto simp: repool_def buffer_in_def)
    show "distinct (map fst (mappings (repool p P P' u)))"
    proof (cases "(pdata P', psize P') = (pdata P, psize P)")
      case True
      with D(8) show ?thesis by (simp add: repool_def)
    next
      case False
      have "distinct (map fst (remove1 (pdata P, psize P) (mappings u)))" using D(8) by (simp add: distinct_map dist inj_on_def)
      moreover have "pdata P' \<notin> fst ` set (remove1 (pdata P, psize P) (mappings u))"
        using d same by (auto simp: set_remove1_eq [OF dist])
      ultimately show ?thesis using False by (auto simp: repool_def)
    qed
    show "\<exists>q Q. pools (repool p P P' u) q = Some Q \<and> m = (pdata Q, psize Q)" if m: "m \<in> set (mappings (repool p P P' u))" for m
    proof (cases "m = (pdata P', psize P')")
      case True
      then show ?thesis by (intro exI [of _ p] exI [of _ P']) (simp add: repool_def)
    next
      case False
      with m maps have old: "m \<in> set (mappings u)" "m \<noteq> (pdata P, psize P)" by auto
      obtain q Q where "pools u q = Some Q" "m = (pdata Q, psize Q)" using D(9) [OF old(1)] by blast
      with P old(2) show ?thesis by (intro exI [of _ q] exI [of _ Q]) (auto simp: repool_def)
    qed
    show "q = q'" if "pools (repool p P P' u) q = Some Q" "pools (repool p P P' u) q' = Some Q'" "pdata Q = pdata Q'" for q q' Q Q'
    proof -
      have fresh: "pdata P' \<noteq> pdata R" if "pools u x = Some R" "x \<noteq> p" for x R
      proof
        assume e: "pdata P' = pdata R"
        have "(pdata R, psize R) \<in> set (mappings u)" using D(2) [OF that(1)] by (simp add: pool_ok_def)
        with d e have "pdata P = pdata R" by force
        with D(10) [OF P that(1)] that(2) show False by simp
      qed
      from that fresh D(10) show ?thesis by (auto simp: repool_def split: if_splits) metis+
    qed
  qed (use D P in \<open>auto simp: repool_def\<close>)
qed

section \<open>References that come and go\<close>

lemma refs_nonneg: "0 \<le> pool_refs H u p"
  by (simp add: pool_refs_def)

lemma finite_pool_buffers: "shm_inv H u \<Longrightarrow> finite (pool_buffers u p)"
  by (rule finite_subset [OF _ shm_invD(1)]) (auto simp: pool_buffers_def)

lemma ran_without:
  assumes "\<And>q q' x. H q = Some x \<Longrightarrow> H q' = Some x \<Longrightarrow> q = q'" "H q = Some x"
  shows "ran (H(q := None)) = ran H - {x}"
proof -
  have "y \<in> ran (H(q := None)) \<longleftrightarrow> (\<exists>a. a \<noteq> q \<and> H a = Some y)" for y by (auto simp: ran_def)
  also have "(\<exists>a. a \<noteq> q \<and> H a = Some y) \<longleftrightarrow> y \<in> ran H \<and> y \<noteq> x" for y
  proof
    assume "\<exists>a. a \<noteq> q \<and> H a = Some y"
    then obtain a where a: "a \<noteq> q" "H a = Some y" by blast
    with assms(1) [of a x q] assms(2) show "y \<in> ran H \<and> y \<noteq> x" by (auto simp: ran_def)
  next
    assume "y \<in> ran H \<and> y \<noteq> x"
    then obtain a where "H a = Some y" "y \<noteq> x" by (auto simp: ran_def)
    with assms(2) show "\<exists>a. a \<noteq> q \<and> H a = Some y" by (intro exI [of _ a]) auto
  qed
  finally show ?thesis by blast
qed

text \<open>\<open>dropped\<close>: the handle \<open>q\<close> of a pool, or of a buffer in it, has gone.\<close>

definition dropped :: "(u64 \<Rightarrow> shm_object option) \<Rightarrow> u64 \<Rightarrow> u64 \<Rightarrow> 'a shm \<Rightarrow> 'a shm \<Rightarrow> bool" where
  "dropped H q p u v \<longleftrightarrow> H q = Some (Pool_of p) \<and> v = u \<or>
     (\<exists>b B. H q = Some (Buffer_of b) \<and> buffers u b = Some B \<and> bpool B = p \<and> v = set_buffer b None u)"

lemma refs_dropped:
  assumes inv: "shm_inv H u" and d: "dropped H q p u v"
  shows "pool_refs (H(q := None)) v p' = pool_refs H u p' - (if p' = p then 1 else 0)"
proof -
  note D = shm_invD [OF inv]
  have ran: "H q = Some x \<Longrightarrow> ran (H(q := None)) = ran H - {x}" for x by (rule ran_without [OF D(7)])
  from d show ?thesis
    unfolding dropped_def
  proof (elim disjE exE conjE)
    assume "H q = Some (Pool_of p)" "v = u"
    with ran ranI [of H q] show ?thesis by (auto simp: pool_refs_def)
  next
    fix b B assume b: "H q = Some (Buffer_of b)" "buffers u b = Some B" "bpool B = p" "v = set_buffer b None u"
    have "pool_buffers v p' = pool_buffers u p' - {b}" using b(4) by (auto simp: pool_buffers_def)
    moreover have "b \<in> pool_buffers u p' \<longleftrightarrow> p' = p" using b by (auto simp: pool_buffers_def)
    ultimately have "int (card (pool_buffers v p')) = int (card (pool_buffers u p')) - (if p' = p then 1 else 0)"
      using finite_pool_buffers [OF inv, of p'] card_Suc_Diff1 [of "pool_buffers u p'" b] by (cases "p' = p") simp_all
    moreover have "Pool_of p' \<in> ran (H(q := None)) \<longleftrightarrow> Pool_of p' \<in> ran H" using ran [OF b(1)] by simp
    ultimately show ?thesis by (simp add: pool_refs_def)
  qed
qed

text \<open>The pool after one internal reference less: still there with one less, or unmapped.\<close>

definition drop_internal :: "u64 \<Rightarrow> wl_shm_pool \<Rightarrow> 'a shm \<Rightarrow> 'a shm" where
  "drop_internal p P u =
     (if internal_refcount P - 1 + external_refcount P \<noteq> 0
      then set_pool p (Some (P\<lparr>internal_refcount := internal_refcount P - 1\<rparr>)) u
      else set_pool p None (u\<lparr>mappings := remove1 (pdata P, psize P) (mappings u)\<rparr>))"

lemma shm_pool_unref_internal:
  "pools (user s) p = Some P \<Longrightarrow> \<exists>f. shm_pool_unref E M p False s = Some (upd_shm f s) \<and> shm_part (f (user s)) = shm_part (drop_internal p P (user s))"
proof (cases "internal_refcount P - 1 + external_refcount P = 0")
  case True
  assume "pools (user s) p = Some P"
  with True show ?thesis
    by (intro exI [of _ "\<lambda>u. (\<lambda>u. set_pool p None (u\<lparr>mappings := remove1 (pdata P, psize P) (mappings u)\<rparr>))
        (set_pool p (Some (P\<lparr>internal_refcount := internal_refcount P - 1\<rparr>)) u)"])
      (simp add: shm_pool_unref_def drop_internal_def upd_shm_def shm_part_def)
next
  case False
  assume "pools (user s) p = Some P"
  with False show ?thesis
    by (intro exI [of _ "set_pool p (Some (P\<lparr>internal_refcount := internal_refcount P - 1\<rparr>))"])
      (simp add: shm_pool_unref_def drop_internal_def upd_shm_def shm_part_def)
qed

text \<open>A pool that nothing refers to leaves no trace.\<close>

lemma unmap_core:
  assumes inv: "shm_inv H u" and P: "pools u p = Some P"
    and v: "pools v = pools u" "mappings v = mappings u" "\<And>b B. buffers v b = Some B \<Longrightarrow> buffers u b = Some B"
    and sub: "\<And>x. x \<in> ran H' \<Longrightarrow> x \<in> ran H" and inj: "\<And>q q' x. H' q = Some x \<Longrightarrow> H' q' = Some x \<Longrightarrow> q = q'"
    and buf: "\<And>b. Buffer_of b \<in> ran H' \<longleftrightarrow> buffers v b \<noteq> None"
    and refs: "\<And>x. x \<noteq> p \<Longrightarrow> pool_refs H' v x = pool_refs H u x" and none: "pool_refs H' v p = 0"
  shows "shm_inv H' (set_pool p None (v\<lparr>mappings := remove1 (pdata P, psize P) (mappings v)\<rparr>))" (is "shm_inv _ ?w")
proof -
  note D = shm_invD [OF inv]
  have ok: "pool_ok H u p P" by (rule D(2) [OF P])
  have dist: "distinct (mappings u)" using D(8) by (simp add: distinct_map)
  have no_buf: "bpool B \<noteq> p" if "buffers v b = Some B" for b B
  proof
    assume "bpool B = p"
    then have "b \<in> pool_buffers v p" using that by (auto simp: pool_buffers_def)
    moreover have "finite (pool_buffers v p)"
      by (rule finite_subset [OF _ finite_pool_buffers [OF inv, of p]]) (auto simp: pool_buffers_def v(3))
    ultimately have "0 < card (pool_buffers v p)" by (auto simp: card_gt_0_iff)
    with none show False by (simp add: pool_refs_def split: if_splits)
  qed
  have no_pool: "Pool_of p \<notin> ran H'" using none by (auto simp: pool_refs_def split: if_splits)
  have other: "(pdata Q, psize Q) \<noteq> (pdata P, psize P)" if "pools u x = Some Q" "x \<noteq> p" for x Q
    using D(10) [OF that(1) P] that(2) by auto
  show ?thesis
  proof (rule shm_invI)
    show "pool_ok H' ?w x Q" if "pools ?w x = Some Q" for x Q
    proof -
      have Q: "pools u x = Some Q" "x \<noteq> p" using that v(1) by (auto split: if_splits)
      have "pool_refs H' ?w x = pool_refs H u x" using refs [OF Q(2)] pool_refs_cong [of ?w v H' x] by simp
      with D(2) [OF Q(1)] other [OF Q] v(2) show ?thesis by (simp add: pool_ok_def)
    qed
    show "\<exists>Q. pools ?w (bpool B) = Some Q \<and> buffer_in B Q" if "buffers ?w b = Some B" for b B
    proof -
      have B: "buffers v b = Some B" using that by simp
      from no_buf [OF B] D(4) [OF v(3) [OF B]] v(1) show ?thesis by simp
    qed
    show "finite (dom (buffers ?w))" by (rule finite_subset [OF _ D(1)]) (auto dest: v(3))
    show "distinct (map fst (mappings ?w))" using D(8) v(2) by (simp add: distinct_map dist inj_on_def)
    show "\<exists>x Q. pools ?w x = Some Q \<and> m = (pdata Q, psize Q)" if "m \<in> set (mappings ?w)" for m
    proof -
      have "m \<in> set (mappings u)" "m \<noteq> (pdata P, psize P)" using that dist v(2) by auto
      with D(9) P obtain x Q where "pools u x = Some Q" "m = (pdata Q, psize Q)" "x \<noteq> p" by fastforce
      with v(1) show ?thesis by (intro exI [of _ x] exI [of _ Q]) simp
    qed
    show "b \<noteq> 0 \<and> Buffer_of b \<in> ran H'" if "buffers ?w b = Some B" for b B
    proof -
      have B: "buffers v b = Some B" using that by simp
      from D(3) [OF v(3) [OF B]] buf [of b] B show ?thesis by simp
    qed
    show "buffers ?w b \<noteq> None" if "Buffer_of b \<in> ran H'" for b using buf [of b] that by simp
    show "pools ?w x \<noteq> None" if "Pool_of x \<in> ran H'" for x
    proof -
      have "x \<noteq> p" using that no_pool by blast
      with D(6) [OF sub [OF that]] v(1) show ?thesis by simp
    qed
    show "x = y" if "H' x = Some z" "H' y = Some z" for x y z using inj that by blast
    show "x = y" if "pools ?w x = Some Q" "pools ?w y = Some R" "pdata Q = pdata R" for x y Q R
      using D(10) [of x Q y R] that v(1) by (auto split: if_splits)
  qed
qed

lemma unmap_ok:
  assumes inv: "shm_inv H u" and P: "pools u p = Some P" and d: "dropped H q p u v"
    and last: "internal_refcount P - 1 + external_refcount P = 0"
  shows "shm_inv (H(q := None)) (set_pool p None (v\<lparr>mappings := remove1 (pdata P, psize P) (mappings v)\<rparr>))"
proof (rule unmap_core [OF inv P])
  note D = shm_invD [OF inv] and refs = refs_dropped [OF inv d]
  have ok: "pool_ok H u p P" by (rule D(2) [OF P])
  show "pools v = pools u" "mappings v = mappings u" "buffers v b = Some B \<Longrightarrow> buffers u b = Some B" for b B
    using d by (auto simp: dropped_def split: if_splits)
  show "x \<in> ran (H(q := None)) \<Longrightarrow> x \<in> ran H" for x by (auto simp: ran_def split: if_splits)
  show "Buffer_of b \<in> ran (H(q := None)) \<longleftrightarrow> buffers v b \<noteq> None" for b
    using d D(3,5) ran_without [of H, OF D(7)] unfolding dropped_def by (elim disjE exE conjE) auto
  show "pool_refs (H(q := None)) v x = pool_refs H u x" if "x \<noteq> p" for x using refs [of x] that by simp
  show "pool_refs (H(q := None)) v p = 0"
    using ok last refs [of p] refs_nonneg [of "H(q := None)" v p] by (simp add: pool_ok_def)
  show "x = y" if "(H(q := None)) x = Some z" "(H(q := None)) y = Some z" for x y z
    using D(7) [of x z y] that by (auto split: if_splits)
qed

text \<open>A pool that is still referred to stays where it is.\<close>

lemma retain_ok:
  assumes inv: "shm_inv H u" and P: "pools u p = Some P" and d: "dropped H q p u v"
    and more: "internal_refcount P - 1 + external_refcount P \<noteq> 0"
  shows "shm_inv (H(q := None)) (set_pool p (Some (P\<lparr>internal_refcount := internal_refcount P - 1\<rparr>)) v)" (is "shm_inv ?H ?w")
proof -
  note D = shm_invD [OF inv] and refs = refs_dropped [OF inv d]
  have ok: "pool_ok H u p P" by (rule D(2) [OF P])
  have v: "pools v = pools u" "mappings v = mappings u" "buffers v b = Some B \<Longrightarrow> buffers u b = Some B" for b B
    using d by (auto simp: dropped_def split: if_splits)
  have sub: "x \<in> ran ?H \<Longrightarrow> x \<in> ran H" for x by (auto simp: ran_def split: if_splits)
  have buf: "Buffer_of b \<in> ran ?H \<longleftrightarrow> buffers v b \<noteq> None" for b
    using d D(3,5) ran_without [of H, OF D(7)] unfolding dropped_def by (elim disjE exE conjE) auto
  have mem: "(pdata P, psize P) \<in> set (mappings u)" using ok by (simp add: pool_ok_def)
  show ?thesis
  proof (rule shm_invI)
    show "pool_ok ?H ?w x Q" if "pools ?w x = Some Q" for x Q
    proof (cases "x = p")
      case True
      have "pool_refs ?H ?w p = pool_refs H u p - 1" using refs [of p] pool_refs_cong [of ?w v ?H p] by simp
      with that True ok more refs_nonneg [of ?H ?w p] v(2) show ?thesis by (auto simp: pool_ok_def)
    next
      case False
      then have Q: "pools u x = Some Q" using that v(1) by simp
      have "pool_refs ?H ?w x = pool_refs H u x" using refs [of x] False pool_refs_cong [of ?w v ?H x] by simp
      with D(2) [OF Q] v(2) show ?thesis by (simp add: pool_ok_def)
    qed
    show "\<exists>Q. pools ?w (bpool B) = Some Q \<and> buffer_in B Q" if "buffers ?w b = Some B" for b B
    proof -
      have "buffers v b = Some B" using that by simp
      from D(4) [OF v(3) [OF this]] v(1) P show ?thesis by (auto simp: buffer_in_def)
    qed
    show "finite (dom (buffers ?w))" by (rule finite_subset [OF _ D(1)]) (auto dest: v(3))
    show "distinct (map fst (mappings ?w))" using D(8) v(2) by simp
    show "\<exists>x Q. pools ?w x = Some Q \<and> m = (pdata Q, psize Q)" if "m \<in> set (mappings ?w)" for m
    proof -
      have "m \<in> set (mappings u)" using that v(2) by simp
      then obtain x Q where Q: "pools u x = Some Q" "m = (pdata Q, psize Q)" using D(9) by blast
      show ?thesis
      proof (cases "x = p")
        case True
        with Q P show ?thesis by (intro exI [of _ p]) auto
      next
        case False
        with Q v(1) show ?thesis by (intro exI [of _ x]) auto
      qed
    qed
    show "b \<noteq> 0 \<and> Buffer_of b \<in> ran ?H" if "buffers ?w b = Some B" for b B
    proof -
      have B: "buffers v b = Some B" using that by simp
      from D(3) [OF v(3) [OF B]] buf [of b] B show ?thesis by simp
    qed
    show "buffers ?w b \<noteq> None" if "Buffer_of b \<in> ran ?H" for b using buf [of b] that by simp
    show "pools ?w x \<noteq> None" if "Pool_of x \<in> ran ?H" for x using D(6) [OF sub [OF that]] v(1) by simp
    show "x = y" if "?H x = Some z" "?H y = Some z" for x y z using D(7) [of x z y] that by (auto split: if_splits)
    show "x = y" if "pools ?w x = Some Q" "pools ?w y = Some R" "pdata Q = pdata R" for x y Q R
      using D(10) [of x "if x = p then P else Q" y "if y = p then P else R"] that v(1) P by (auto split: if_splits)
  qed
qed

lemma drop_ok:
  assumes "shm_inv H u" "pools u p = Some P" "dropped H q p u v"
  shows "shm_inv (H(q := None)) (drop_internal p P v)"
  using unmap_ok [OF assms] retain_ok [OF assms] by (simp add: drop_internal_def)

text \<open>A new pool, which its resource refers to, and a new buffer.\<close>

lemma ran_with: "H q = None \<Longrightarrow> ran (H(q \<mapsto> x)) = insert x (ran H)"
  by (rule ran_map_upd)

lemma new_pool_ok:
  assumes inv: "shm_inv H u" and p: "p \<noteq> 0" "pools u p = None" "H q = None"
    and P: "0 < psize P" "psize P = new_size P" "new_size P \<le> INT32_MAX" "internal_refcount P = 1" "external_refcount P = 0"
    and d: "pdata P \<notin> fst ` set (mappings u)"
  shows "shm_inv (H(q \<mapsto> Pool_of p)) (set_pool p (Some P) (u\<lparr>mappings := (pdata P, psize P) # mappings u\<rparr>))" (is "shm_inv ?H ?w")
proof -
  note D = shm_invD [OF inv]
  have no_pool: "Pool_of p \<notin> ran H" using D(6) p(2) by blast
  have empty: "pool_buffers u p = {}" using D(4) p(2) by (fastforce simp: pool_buffers_def)
  have refs: "pool_refs ?H ?w x = pool_refs H u x + (if x = p then 1 else 0)" for x
    using no_pool pool_refs_cong [of ?w u] by (auto simp: pool_refs_def ran_with [of H, OF p(3)])
  have fresh: "pdata P \<noteq> pdata Q" if "pools u x = Some Q" for x Q
    using D(2) [OF that] d by (force simp: pool_ok_def)
  show ?thesis
  proof (rule shm_invI)
    show "pool_ok ?H ?w x Q" if "pools ?w x = Some Q" for x Q
    proof (cases "x = p")
      case True
      have "pool_refs H u p = 0" using empty no_pool by (simp add: pool_refs_def)
      with refs [of p] that True P p(1) show ?thesis by (auto simp: pool_ok_def)
    next
      case False
      then have Q: "pools u x = Some Q" using that by simp
      with D(2) [OF Q] refs [of x] False show ?thesis by (auto simp: pool_ok_def)
    qed
    show "\<exists>Q. pools ?w (bpool B) = Some Q \<and> buffer_in B Q" if "buffers ?w b = Some B" for b B
    proof -
      have "buffers u b = Some B" using that by simp
      from D(4) [OF this] p(2) show ?thesis by (auto split: if_splits)
    qed
    show "b \<noteq> 0 \<and> Buffer_of b \<in> ran ?H" if "buffers ?w b = Some B" for b B
      using D(3) [of b B] that by (simp add: ran_with [of H, OF p(3)])
    show "buffers ?w b \<noteq> None" if "Buffer_of b \<in> ran ?H" for b using D(5) [of b] that by (simp add: ran_with [of H, OF p(3)])
    show "pools ?w x \<noteq> None" if "Pool_of x \<in> ran ?H" for x using D(6) [of x] that by (auto simp: ran_with [of H, OF p(3)])
    show "x = y" if "?H x = Some z" "?H y = Some z" for x y z
      using D(7) [of x z y] that no_pool by (auto split: if_splits intro: ranI)
    show "\<exists>x Q. pools ?w x = Some Q \<and> m = (pdata Q, psize Q)" if "m \<in> set (mappings ?w)" for m
    proof (cases "m = (pdata P, psize P)")
      case True
      then show ?thesis by (intro exI [of _ p] exI [of _ P]) simp
    next
      case False
      with that have "m \<in> set (mappings u)" by simp
      then obtain x Q where "pools u x = Some Q" "m = (pdata Q, psize Q)" using D(9) by blast
      with p(2) show ?thesis by (intro exI [of _ x] exI [of _ Q]) auto
    qed
    show "x = y" if "pools ?w x = Some Q" "pools ?w y = Some R" "pdata Q = pdata R" for x y Q R
      using D(10) [of x Q y R] that fresh [of x Q] fresh [of y R] by (auto split: if_splits)
  qed (use D(1,8) d in auto)
qed

lemma new_buffer_ok:
  assumes inv: "shm_inv H u" and b: "b \<noteq> 0" "buffers u b = None" "H q = None"
    and P: "pools u (bpool B) = Some P" "buffer_in B P"
  shows "shm_inv (H(q \<mapsto> Buffer_of b))
    (set_pool (bpool B) (Some (P\<lparr>internal_refcount := internal_refcount P + 1\<rparr>)) (set_buffer b (Some B) u))" (is "shm_inv ?H ?w")
proof -
  note D = shm_invD [OF inv]
  have no_buf: "Buffer_of b \<notin> ran H" using D(5) b(2) by blast
  have bufs: "pool_buffers ?w x = (if x = bpool B then insert b (pool_buffers u x) else pool_buffers u x)" for x
    using b(2) by (auto simp: pool_buffers_def)
  have "b \<notin> pool_buffers u x" for x using b(2) by (simp add: pool_buffers_def)
  then have refs: "pool_refs ?H ?w x = pool_refs H u x + (if x = bpool B then 1 else 0)" for x
    using finite_pool_buffers [OF inv, of x] by (simp add: pool_refs_def ran_with [of H, OF b(3)] bufs)
  have ok: "pool_ok H u (bpool B) P" by (rule D(2) [OF P(1)])
  show ?thesis
  proof (rule shm_invI)
    show "pool_ok ?H ?w x Q" if "pools ?w x = Some Q" for x Q
    proof (cases "x = bpool B")
      case True
      with that ok refs [of x] refs_nonneg [of H u x] show ?thesis by (auto simp: pool_ok_def)
    next
      case False
      then have Q: "pools u x = Some Q" using that by simp
      with D(2) [OF Q] refs [of x] False show ?thesis by (auto simp: pool_ok_def)
    qed
    show "\<exists>Q. pools ?w (bpool C) = Some Q \<and> buffer_in C Q" if "buffers ?w x = Some C" for x C
    proof (cases "x = b")
      case True
      with that P show ?thesis by (auto simp: buffer_in_def)
    next
      case False
      then have "buffers u x = Some C" using that by simp
      from D(4) [OF this] P(1) show ?thesis by (auto simp: buffer_in_def)
    qed
    show "x \<noteq> 0 \<and> Buffer_of x \<in> ran ?H" if "buffers ?w x = Some C" for x C
      using D(3) [of x C] that b(1) by (auto simp: ran_with [of H, OF b(3)] split: if_splits)
    show "buffers ?w x \<noteq> None" if "Buffer_of x \<in> ran ?H" for x using D(5) [of x] that by (auto simp: ran_with [of H, OF b(3)])
    show "pools ?w x \<noteq> None" if "Pool_of x \<in> ran ?H" for x using D(6) [of x] that by (auto simp: ran_with [of H, OF b(3)])
    show "x = y" if "?H x = Some z" "?H y = Some z" for x y z
      using D(7) [of x z y] that no_buf by (auto split: if_splits intro: ranI)
    show "\<exists>x Q. pools ?w x = Some Q \<and> m = (pdata Q, psize Q)" if "m \<in> set (mappings ?w)" for m
    proof -
      from that obtain x Q where Q: "pools u x = Some Q" "m = (pdata Q, psize Q)" using D(9) [of m] by auto
      show ?thesis
      proof (cases "x = bpool B")
        case True
        with Q P(1) show ?thesis by (intro exI [of _ x]) auto
      next
        case False
        with Q show ?thesis by (intro exI [of _ x]) auto
      qed
    qed
    show "x = y" if "pools ?w x = Some Q" "pools ?w y = Some R" "pdata Q = pdata R" for x y Q R
      using D(10) [of x "if x = bpool B then P else Q" y "if y = bpool B then P else R"] that P(1) by (auto split: if_splits)
  qed (use D(1,8) in auto)
qed

section \<open>The server with shared memory\<close>

text \<open>The handlers are in place: destructors 1 and 2, the tables 0, 1 and 2, the bind function 0.\<close>

definition shm_installed :: "'a shm_env \<Rightarrow> 'a shm_sys \<Rightarrow> bool" where
  "shm_installed E M \<longleftrightarrow> destructor E 1 = destroy_pool E M \<and> destructor E 2 = destroy_buffer E M \<and>
     (\<forall>k < 3. request E k = shm_request E M k) \<and> bind_func E 0 = bind_shm E"

text \<open>
  What is relied on: \<^verbatim>\<open>malloc\<close> returns no structure in use, mappings are placed where there is none, and the rest
  of the compositor leaves pools and buffers alone.
\<close>

definition shm_env_ok :: "'a shm_env \<Rightarrow> 'a shm_sys \<Rightarrow> bool" where
  "shm_env_ok E M \<longleftrightarrow> env_ok E \<and> shm_installed E M \<and>
     (\<forall>s. malloc E s \<noteq> 0 \<longrightarrow> pools (user s) (malloc E s) = None \<and> buffers (user s) (malloc E s) = None) \<and>
     (\<forall>sz fd s d. mmap_call M sz fd s = Inr d \<longrightarrow> d \<notin> fst ` set (mappings (user s))) \<and>
     (\<forall>a n m s d. mremap_call M a n m s = Some d \<longrightarrow> d = a \<or> d \<notin> fst ` set (mappings (user s))) \<and>
     (\<forall>l d s s'. notify E l d s = Some s' \<longrightarrow> shm_part (user s') = shm_part (user s)) \<and>
     (\<forall>k p s s'. k \<noteq> 1 \<longrightarrow> k \<noteq> 2 \<longrightarrow> destructor E k p s = Some s' \<longrightarrow> shm_part (user s') = shm_part (user s))"

lemma shm_env_okD:
  assumes "shm_env_ok E M"
  shows "env_ok E" "destructor E 1 = destroy_pool E M" "destructor E 2 = destroy_buffer E M"
    "k < 3 \<Longrightarrow> request E k = shm_request E M k" "bind_func E 0 = bind_shm E"
    "malloc E s \<noteq> 0 \<Longrightarrow> pools (user s) (malloc E s) = None \<and> buffers (user s) (malloc E s) = None"
    "mmap_call M sz fd s = Inr d \<Longrightarrow> d \<notin> fst ` set (mappings (user s))"
    "mremap_call M a n m s = Some d \<Longrightarrow> d = a \<or> d \<notin> fst ` set (mappings (user s))"
    "notify E l x s = Some s' \<Longrightarrow> shm_part (user s') = shm_part (user s)"
    "k \<noteq> 1 \<Longrightarrow> k \<noteq> 2 \<Longrightarrow> destructor E k p s = Some s' \<Longrightarrow> shm_part (user s') = shm_part (user s)"
proof -
  note U = assms [unfolded shm_env_ok_def shm_installed_def]
  show "env_ok E" "destructor E 1 = destroy_pool E M" "destructor E 2 = destroy_buffer E M" "bind_func E 0 = bind_shm E"
    using U by simp_all
  have "\<forall>k < 3. request E k = shm_request E M k" using U by (elim conjE)
  then show "k < 3 \<Longrightarrow> request E k = shm_request E M k" by simp
  have "\<forall>s. malloc E s \<noteq> 0 \<longrightarrow> pools (user s) (malloc E s) = None \<and> buffers (user s) (malloc E s) = None" using U by (elim conjE)
  then show "malloc E s \<noteq> 0 \<Longrightarrow> pools (user s) (malloc E s) = None \<and> buffers (user s) (malloc E s) = None" by simp
  have "\<forall>sz fd s d. mmap_call M sz fd s = Inr d \<longrightarrow> d \<notin> fst ` set (mappings (user s))" using U by (elim conjE)
  then show "mmap_call M sz fd s = Inr d \<Longrightarrow> d \<notin> fst ` set (mappings (user s))" by simp
  have "\<forall>a n m s d. mremap_call M a n m s = Some d \<longrightarrow> d = a \<or> d \<notin> fst ` set (mappings (user s))" using U by (elim conjE)
  then show "mremap_call M a n m s = Some d \<Longrightarrow> d = a \<or> d \<notin> fst ` set (mappings (user s))" by simp
  have "\<forall>l d s s'. notify E l d s = Some s' \<longrightarrow> shm_part (user s') = shm_part (user s)" using U by (elim conjE)
  then show "notify E l x s = Some s' \<Longrightarrow> shm_part (user s') = shm_part (user s)" by simp
  have "\<forall>k p s s'. k \<noteq> 1 \<longrightarrow> k \<noteq> 2 \<longrightarrow> destructor E k p s = Some s' \<longrightarrow> shm_part (user s') = shm_part (user s)"
    using U by (elim conjE)
  then show "k \<noteq> 1 \<Longrightarrow> k \<noteq> 2 \<Longrightarrow> destructor E k p s = Some s' \<Longrightarrow> shm_part (user s') = shm_part (user s)" by simp
qed

text \<open>The tables of handlers stand where they belong.\<close>

definition shm_resource_ok :: "wl_resource \<Rightarrow> bool" where
  "shm_resource_ok r \<longleftrightarrow> (case rimplementation r of
     Implementation k slots \<Rightarrow>
       (k = 0 \<longrightarrow> rinterface r = wl_shm_interface) \<and>
       (k = 1 \<longrightarrow> rinterface r = wl_shm_pool_interface \<and> rdestroy r = pool_destroyer) \<and>
       (k = 2 \<longrightarrow> rinterface r = wl_buffer_interface \<and> rdestroy r = buffer_destroyer)
   | _ \<Rightarrow> True)"

definition shm_ok :: "'a shm server \<Rightarrow> bool" where
  "shm_ok s \<longleftrightarrow> shm_inv (shm_objects s) (user s) \<and> (\<forall>q r. resources s q = Some r \<longrightarrow> shm_resource_ok r)"

lemma view_handle: "resource_view r' = resource_view r \<Longrightarrow> shm_handle r' = shm_handle r \<and> shm_resource_ok r' = shm_resource_ok r"
  by (cases "rimplementation r") (auto simp: resource_view_def shm_handle_def shm_resource_ok_def)

lemma shm_ok_frame:
  assumes "shm_ok s" "\<And>q. map_option resource_view (resources s' q) = map_option resource_view (resources s q)"
    and "shm_part (user s') = shm_part (user s)"
  shows "shm_ok s'"
proof -
  have r: "\<exists>r. resources s q = Some r \<and> resource_view r = resource_view r'" if "resources s' q = Some r'" for q r'
    using assms(2) [of q] that by (cases "resources s q") auto
  have "shm_objects s' q = shm_objects s q" for q
    using assms(2) [of q] by (cases "resources s q"; cases "resources s' q") (auto simp: shm_objects_def dest: view_handle)
  then have "shm_objects s' = shm_objects s" by auto
  with assms(1,3) r show ?thesis unfolding shm_ok_def by (metis shm_inv_part view_handle)
qed

lemma shm_ok_same: "shm_ok s \<Longrightarrow> same_structs s s' \<Longrightarrow> shm_part (user s') = shm_part (user s) \<Longrightarrow> shm_ok s'"
  by (rule shm_ok_frame [of s]) (simp_all add: same_structs_def)

lemma shm_ok_unobserved: "shm_ok s \<Longrightarrow> unobserved s s' \<Longrightarrow> shm_ok s'"
  by (rule shm_ok_frame [of s]) (simp_all add: unobserved_def)

lemma shm_handle_other: "(\<And>k. rdestroy r \<noteq> Destroy k) \<Longrightarrow> shm_handle r = None"
  by (simp add: shm_handle_def)

lemma objects_update: "shm_objects (s\<lparr>resources := (resources s)(q := x)\<rparr>) = (shm_objects s)(q := Option.bind x shm_handle)"
  by (auto simp: shm_objects_def)

lemma objects_free: "shm_objects (free_resource q s) = (shm_objects s)(q := None)"
  by (auto simp: shm_objects_def free_resource_def)

lemma part_invariant: "shm_env_ok E M \<Longrightarrow> listener_invariant E (\<lambda>s. shm_part (user s) = X)"
  by unfold_locales (auto simp: free_resource_def dest: shm_env_okD)

lemma set_buffer_drop: "shm_part (set_buffer b x (drop_internal p P u)) = shm_part (drop_internal p P (set_buffer b x u))"
  by (simp add: drop_internal_def shm_part_def set_pool_def set_buffer_def)

lemma drop_part: "shm_part u = shm_part v \<Longrightarrow> shm_part (drop_internal p P u) = shm_part (drop_internal p P v)"
  by (simp add: drop_internal_def shm_part_def)

lemma set_buffer_part: "shm_part u = shm_part v \<Longrightarrow> shm_part (set_buffer b x u) = shm_part (set_buffer b x v)"
  by (simp add: shm_part_def)

text \<open>
  While the compositor holds references of its own, a pool stays where it is: \<open>pinned\<close>.
\<close>

definition pinned :: "'a shm \<Rightarrow> 'a shm \<Rightarrow> bool" where
  "pinned u u' \<longleftrightarrow> (\<forall>p P. pools u p = Some P \<longrightarrow> 0 < external_refcount P \<longrightarrow>
     (\<exists>P'. pools u' p = Some P' \<and> pdata P' = pdata P \<and> psize P' = psize P \<and> external_refcount P \<le> external_refcount P'))"

lemma pinned_trans: "pinned u v \<Longrightarrow> pinned v w \<Longrightarrow> pinned u w"
  unfolding pinned_def
proof (intro allI impI)
  fix p P
  assume uv: "\<forall>p P. pools u p = Some P \<longrightarrow> 0 < external_refcount P \<longrightarrow>
      (\<exists>P'. pools v p = Some P' \<and> pdata P' = pdata P \<and> psize P' = psize P \<and> external_refcount P \<le> external_refcount P')"
    and vw: "\<forall>p P. pools v p = Some P \<longrightarrow> 0 < external_refcount P \<longrightarrow>
      (\<exists>P'. pools w p = Some P' \<and> pdata P' = pdata P \<and> psize P' = psize P \<and> external_refcount P \<le> external_refcount P')"
    and P: "pools u p = Some P" "0 < external_refcount P"
  obtain Q where Q: "pools v p = Some Q" "pdata Q = pdata P" "psize Q = psize P" "external_refcount P \<le> external_refcount Q"
    using uv P by blast
  then have "0 < external_refcount Q" using P(2) by linarith
  with vw Q(1) obtain R where "pools w p = Some R" "pdata R = pdata Q" "psize R = psize Q" "external_refcount Q \<le> external_refcount R"
    by blast
  with Q show "\<exists>P'. pools w p = Some P' \<and> pdata P' = pdata P \<and> psize P' = psize P \<and> external_refcount P \<le> external_refcount P'"
    by auto
qed

lemma pinned_pools: "pools v' = pools v \<Longrightarrow> pinned u v \<Longrightarrow> pinned u v'"
  by (simp add: pinned_def)

lemma pinned_same: "pools v = pools u \<Longrightarrow> pinned u v"
  by (simp add: pinned_def)

lemma pinned_set:
  assumes "pools u p = Some P" "pools v = (pools u)(p := Q)"
    and "0 < external_refcount P \<Longrightarrow> \<exists>P'. Q = Some P' \<and> pdata P' = pdata P \<and> psize P' = psize P \<and> external_refcount P \<le> external_refcount P'"
  shows "pinned u v"
  using assms by (auto simp: pinned_def)

lemma pinned_drop:
  assumes "shm_inv H u" "pools u p = Some P" "0 < internal_refcount P" "shm_part v = shm_part (set_buffer b x (drop_internal p P u)) \<or> shm_part v = shm_part (drop_internal p P u)"
  shows "pinned u v"
proof (rule pinned_set [OF assms(2)])
  show "pools v = (pools u)(p := if internal_refcount P - 1 + external_refcount P \<noteq> 0
      then Some (P\<lparr>internal_refcount := internal_refcount P - 1\<rparr>) else None)"
    using assms(4) by (auto simp: shm_part_def drop_internal_def)
qed (use assms(3) in simp)

lemma refs_positive:
  assumes "shm_inv H u" "pools u p = Some P" "dropped H q p u v"
  shows "0 < internal_refcount P"
  using refs_dropped [OF assms(1,3), of p] refs_nonneg [of "H(q := None)" v p] shm_invD(2) [OF assms(1,2)] by (simp add: pool_ok_def)

text \<open>The destructors of pools and buffers.\<close>

lemma destroy_pool_ok:
  assumes s: "shm_ok s" "resources s q = Some r" "rdestroy r = pool_destroyer" and run: "destroy_pool E M q s = Some s'"
  shows "shm_ok (free_resource q s')" "pinned (user s) (user s')"
proof -
  have H: "shm_objects s q = Some (Pool_of (rdata r))" using s(2,3) by (simp add: shm_objects_def shm_handle_def)
  have inv: "shm_inv (shm_objects s) (user s)" using s(1) by (simp add: shm_ok_def)
  obtain P where P: "pools (user s) (rdata r) = Some P" using shm_invD(6) [OF inv ranI [of "shm_objects s", OF H]] by blast
  obtain f where f: "s' = upd_shm f s" "shm_part (f (user s)) = shm_part (drop_internal (rdata r) P (user s))"
    using shm_pool_unref_internal [OF P, of E M] run s(2) by (auto simp: destroy_pool_def)
  have d: "dropped (shm_objects s) q (rdata r) (user s) (user s)" by (simp add: dropped_def H)
  show "pinned (user s) (user s')" by (rule pinned_drop [OF inv P refs_positive [OF inv P d] disjI2]) (simp add: f)
  have "shm_inv ((shm_objects s)(q := None)) (drop_internal (rdata r) P (user s))" by (rule drop_ok [OF inv P d])
  moreover have "shm_objects s' = shm_objects s" by (simp add: f(1) shm_objects_def fun_eq_iff)
  ultimately have "shm_inv (shm_objects (free_resource q s')) (user (free_resource q s'))"
    using shm_inv_part [OF f(2)] by (simp add: objects_free f(1)) (simp add: free_resource_def)
  with s(1) show "shm_ok (free_resource q s')" by (auto simp: shm_ok_def f(1) free_resource_def)
qed

lemma destroy_buffer_ok:
  assumes s: "shm_ok s" "resources s q = Some r" "rdestroy r = buffer_destroyer" and run: "destroy_buffer E M q s = Some s'"
  shows "shm_ok (free_resource q s')" "pinned (user s) (user s')"
proof -
  have H: "shm_objects s q = Some (Buffer_of (rdata r))" using s(2,3) by (simp add: shm_objects_def shm_handle_def)
  have inv: "shm_inv (shm_objects s) (user s)" using s(1) by (simp add: shm_ok_def)
  obtain B where B: "buffers (user s) (rdata r) = Some B" using shm_invD(5) [OF inv ranI [of "shm_objects s", OF H]] by blast
  obtain P where P: "pools (user s) (bpool B) = Some P" using shm_invD(4) [OF inv B] by blast
  have "bpool B \<noteq> 0" using shm_invD(2) [OF inv P] by (simp add: pool_ok_def)
  then obtain f where f: "s' = upd_shm (set_buffer (rdata r) None) (upd_shm f s)"
    "shm_part (f (user s)) = shm_part (drop_internal (bpool B) P (user s))"
    using shm_pool_unref_internal [OF P, of E M] run s(2) B by (auto simp: destroy_buffer_def)
  have d: "dropped (shm_objects s) q (bpool B) (user s) (set_buffer (rdata r) None (user s))"
    using H B by (auto simp: dropped_def)
  show "pinned (user s) (user s')"
    by (rule pinned_drop [OF inv P refs_positive [OF inv P d] disjI1, of _ "rdata r" None])
      (use set_buffer_part [OF f(2)] in \<open>simp add: f(1)\<close>)
  have "shm_inv ((shm_objects s)(q := None)) (drop_internal (bpool B) P (set_buffer (rdata r) None (user s)))"
    by (rule drop_ok [OF inv P d])
  moreover have "shm_part (user s') = shm_part (drop_internal (bpool B) P (set_buffer (rdata r) None (user s)))"
    using set_buffer_part [OF f(2)] set_buffer_drop by (simp add: f(1))
  ultimately have "shm_inv ((shm_objects s)(q := None)) (user s')" using shm_inv_part by blast
  moreover have "shm_objects s' = shm_objects s" by (simp add: f(1) shm_objects_def fun_eq_iff)
  ultimately have "shm_inv (shm_objects (free_resource q s')) (user (free_resource q s'))"
    by (simp add: objects_free) (simp add: free_resource_def)
  with s(1) show "shm_ok (free_resource q s')" by (auto simp: shm_ok_def f(1) free_resource_def)
qed

lemma shm_ok_plain:
  assumes "shm_ok s" "shm_objects s q = None" "shm_handle r = None" "shm_resource_ok r"
  shows "shm_ok (s\<lparr>resources := (resources s)(q \<mapsto> r)\<rparr>)"
proof -
  have "(shm_objects s)(q := None) = shm_objects s" using assms(2) by auto
  with assms(1,3,4) show ?thesis by (auto simp: shm_ok_def objects_update)
qed

lemma plain_handle: "plain_at q s \<Longrightarrow> shm_objects s q = None"
  by (cases "resources s q") (auto simp: plain_at_def plain_resource_def shm_objects_def shm_handle_def)

lemma shm_resource_invariant:
  assumes E: "shm_env_ok E M"
  shows "resource_invariant E (\<lambda>s. shm_ok s \<and> pinned u (user s))"
proof unfold_locales
  note D = shm_env_okD [OF E]
  show "env_ok E" by (rule D(1))
  fix s s' :: "'a shm server" and q and r and k :: nat and l d
  assume "shm_ok s \<and> pinned u (user s)"
  then have s: "shm_ok s" and pin: "pinned u (user s)" by simp_all
  have same_pools: "pools (user t) = pools (user s) \<Longrightarrow> pinned u (user t)" for t using pinned_pools pin by blast
  show "shm_ok s' \<and> pinned u (user s')"
    if "\<And>q. map_option resource_view (resources s' q) = map_option resource_view (resources s q)" "user s' = user s"
    using shm_ok_frame [OF s that(1)] that(2) pin by simp
  show "shm_ok s' \<and> pinned u (user s')" if "notify E l d s = Some s'"
  proof
    show "shm_ok s'" by (rule shm_ok_same [OF s _ D(9) [OF that]]) (use D(1) that in \<open>auto simp: env_ok_def\<close>)
    show "pinned u (user s')" by (rule same_pools) (use D(9) [OF that] in \<open>simp add: shm_part_def\<close>)
  qed
  show "shm_ok (s\<lparr>resources := (resources s)(q \<mapsto> r)\<rparr>) \<and> pinned u (user (s\<lparr>resources := (resources s)(q \<mapsto> r)\<rparr>))"
    if "plain_at q s" "plain_resource r"
    using shm_ok_plain [OF s plain_handle [OF that(1)], of r] that(2) pin
    by (auto simp: plain_resource_def shm_handle_def shm_resource_ok_def split: wl_implementation.splits)
  assume r: "resources s q = Some r"
  show "shm_ok (free_resource q s) \<and> pinned u (user (free_resource q s))" if "\<And>k. rdestroy r \<noteq> Destroy k"
  proof -
    have "(shm_objects s)(q := None) = shm_objects s" using r shm_handle_other [OF that] by (auto simp: shm_objects_def)
    with s pin objects_free [of q s] show ?thesis by (auto simp: shm_ok_def) (auto simp: free_resource_def split: if_splits)
  qed
  assume k: "rdestroy r = Destroy k" "destructor E k q s = Some s'"
  have free: "user (free_resource q s') = user s'" by (simp add: free_resource_def)
  consider "k = 1" | "k = 2" | "k \<noteq> 1" "k \<noteq> 2" by blast
  then show "shm_ok (free_resource q s') \<and> pinned u (user (free_resource q s'))"
  proof cases
    case 1
    with destroy_pool_ok [OF s r, of E M s'] k D(2) pinned_trans [OF pin] free show ?thesis by simp
  next
    case 2
    with destroy_buffer_ok [OF s r, of E M s'] k D(3) pinned_trans [OF pin] free show ?thesis by simp
  next
    case 3
    have same: "same_structs s s'" using D(1) k(2) by (auto simp: env_ok_def)
    have ok: "shm_ok s'" by (rule shm_ok_same [OF s same D(10) [OF 3 k(2)]])
    obtain r' where r': "resources s' q = Some r'" "rdestroy r' = rdestroy r" by (rule same_structs_resource [OF same r]) (rule that)
    then have "(shm_objects s')(q := None) = shm_objects s'" using 3 k(1) by (auto simp: shm_objects_def shm_handle_def)
    with ok objects_free [of q s'] have "shm_ok (free_resource q s')"
      by (auto simp: shm_ok_def) (auto simp: free_resource_def split: if_splits)
    moreover have "pinned u (user s')" by (rule same_pools) (use D(10) [OF 3 k(2)] in \<open>simp add: shm_part_def\<close>)
    ultimately show ?thesis using free by simp
  qed
qed

lemma pinned_refl [simp]: "pinned u u"
  by (rule pinned_same) simp

section \<open>New resources with handlers\<close>

lemma server_ok_upd [simp]: "server_ok (upd_shm f s) = server_ok s"
proof -
  have "same_structs s (upd_shm f s)" "same_structs (upd_shm f s) s" by (simp_all add: same_structs_def upd_shm_def)
  then show ?thesis using server_ok_same by blast
qed

lemma input_kept_upd [simp]: "input_kept ca s (upd_shm f s')  = input_kept ca s s'" "input_kept ca (upd_shm f s) s' = input_kept ca s s'"
  by (simp_all add: input_kept_def)

lemma input_kept_refl [simp]: "input_kept ca s s"
  by (simp add: input_kept_def)

lemma server_ok_implemented:
  assumes s: "server_ok s" and q: "resources s q = Some r" "rdestroy r = No_destroy"
    and r': "rid r' = rid r" "rclient r' = rclient r" "rinterface r' = rinterface r" "rimplementation r' = Implementation k slots"
  shows "server_ok (s\<lparr>resources := (resources s)(q \<mapsto> r')\<rparr>)" (is "server_ok ?s")
  unfolding server_ok_def
proof (intro conjI allI impI)
  fix ca c assume "clients ?s ca = Some c"
  then have c: "clients s ca = Some c" by simp
  note ok = server_okD(1) [OF s c]
  have "\<exists>x. resources ?s p = Some x \<and> rid x = i \<and> rclient x = ca"
    if p: "wl_map_lookup (objects c) i = Some p" "p \<noteq> 0" for i p
  proof -
    obtain x where "resources s p = Some x" "rid x = i" "rclient x = ca" using client_ok_lookup [OF ok p] by metis
    then show ?thesis using q(1) r' by (cases "p = q") auto
  qed
  moreover have "display_resource_ok ?s ca" if "display_resource_ok s ca" using that q by (auto simp: display_resource_ok_def)
  ultimately show "client_ok ?s ca c" using ok by (simp add: client_ok_def)
next
  fix p x assume "resources ?s p = Some x"
  then show "resource_ok ?s p x"
    using server_okD(2) [OF s] q(1) r' by (auto simp: resource_ok_def impl_ok_def split: if_splits)
next
  show "registry_ok ?s" using server_okD(3) [OF s] q by (auto simp: registry_ok_def)
qed

text \<open>A resource that is created for a client and given its handlers, its data and its destructor.\<close>

lemma create_shm:
  assumes E: "shm_env_ok E M" and s: "server_ok s" "clients s ca = Some c" "id_available (objects c) i" and f: "interface_ok f"
    and run: "wl_resource_create E ca f 1 i s = Some (q, s')"
  shows "server_ok s'" "input_kept ca s s'" "shm_part (user s') = shm_part (user s)"
    "q = 0 \<Longrightarrow> resources s' = resources s"
    "q \<noteq> 0 \<Longrightarrow> resources s q = None \<and> (\<exists>r. resources s' q = Some r \<and> rid r = i \<and> rclient r = ca \<and> rinterface r = f \<and>
       rdestroy r = No_destroy) \<and> (\<forall>x. x \<noteq> q \<longrightarrow> map_option resource_view (resources s' x) = map_option resource_view (resources s x))"
proof -
  note env = shm_env_okD(1) [OF E] and i0 = s(3) [unfolded id_available_def, THEN conjunct1]
  note ok = resource_create_ok [OF env s f run]
  show "server_ok s'" by (rule ok(1))
  show "input_kept ca s s'" by (rule create_input [OF env s f run])
  show "shm_part (user s') = shm_part (user s)"
    by (rule listener_invariant.keep_create [OF part_invariant [OF E] refl i0 run])
  show "resources s' = resources s" if q: "q = 0"
  proof -
    obtain bs where "emits ca bs s s'" using ok(3) [OF q] by blast
    then show ?thesis by (rule emits_fields(1))
  qed
  assume q: "q \<noteq> 0"
  obtain r where r: "resources s q = None" "resources s' q = Some r" "rid r = i" "rclient r = ca" "rinterface r = f"
    "rdestroy r = No_destroy" using ok(2) [OF q] by blast
  have v: "map_option resource_view (resources s' x) = map_option resource_view (resources s x)" if "x \<noteq> q" for x
    using fun_cong [OF resource_create_views [OF env s(2) i0 run q], of x] that by simp
  with r show "resources s q = None \<and> (\<exists>r. resources s' q = Some r \<and> rid r = i \<and> rclient r = ca \<and> rinterface r = f \<and>
       rdestroy r = No_destroy) \<and> (\<forall>x. x \<noteq> q \<longrightarrow> map_option resource_view (resources s' x) = map_option resource_view (resources s x))"
    by blast
qed

lemma buffer_table: "(2::nat) = 0 \<longrightarrow> x" "(2::nat) = 1 \<longrightarrow> y"
    "(2::nat) = 2 \<longrightarrow> wl_buffer_interface = wl_buffer_interface \<and> buffer_destroyer = buffer_destroyer"
  and pool_table: "(1::nat) = 0 \<longrightarrow> x"
    "(1::nat) = 1 \<longrightarrow> wl_shm_pool_interface = wl_shm_pool_interface \<and> pool_destroyer = pool_destroyer" "(1::nat) = 2 \<longrightarrow> y"
  by simp_all

definition all_shm_ok :: "'a shm server \<Rightarrow> bool" where
  "all_shm_ok s \<longleftrightarrow> (\<forall>q r. resources s q = Some r \<longrightarrow> shm_resource_ok r)"

lemma shm_ok_iff: "shm_ok s \<longleftrightarrow> shm_inv (shm_objects s) (user s) \<and> all_shm_ok s"
  by (simp add: shm_ok_def all_shm_ok_def)

lemma shm_ok_replaced: "shm_ok s \<Longrightarrow> shm_objects s' = shm_objects s \<Longrightarrow> all_shm_ok s' \<Longrightarrow> shm_inv (shm_objects s') (user s') \<Longrightarrow> shm_ok s'"
  by (simp add: shm_ok_iff)

lemma implement_shm:
  assumes E: "shm_env_ok E M" and s: "server_ok s" "clients s ca = Some c" "id_available (objects c) i" and f: "interface_ok f"
    and typed: "all_shm_ok s" and run: "wl_resource_create E ca f 1 i s = Some (q, s1)" "q \<noteq> 0"
    and impl: "wl_resource_set_implementation q (Implementation k slots) data d (upd_shm g s1) = Some s'"
    and table: "k = 0 \<longrightarrow> f = wl_shm_interface" "k = 1 \<longrightarrow> f = wl_shm_pool_interface \<and> d = pool_destroyer"
      "k = 2 \<longrightarrow> f = wl_buffer_interface \<and> d = buffer_destroyer"
  shows "server_ok s'" "input_kept ca s s'" "user s' = g (user s1)" "shm_objects s q = None" "all_shm_ok s'"
    "shm_objects s' = (shm_objects s)(q := (if d = pool_destroyer then Some (Pool_of data)
       else if d = buffer_destroyer then Some (Buffer_of data) else None))"
proof -
  note cr = create_shm [OF E s f run(1)]
  obtain r where r: "resources s q = None" "resources s1 q = Some r" "rid r = i" "rclient r = ca" "rinterface r = f"
    "rdestroy r = No_destroy" "\<forall>x. x \<noteq> q \<longrightarrow> map_option resource_view (resources s1 x) = map_option resource_view (resources s x)"
    using cr(5) [OF run(2)] by blast
  define r' where "r' = r\<lparr>rimplementation := Implementation k slots, rdata := data, rdestroy := d, rdispatcher := None\<rparr>"
  have s': "s' = (upd_shm g s1)\<lparr>resources := (resources s1)(q \<mapsto> r')\<rparr>"
    using impl r(2) by (simp add: wl_resource_set_implementation_def upd_resource_def r'_def)
  have up: "server_ok (upd_shm g s1)" using cr(1) by simp
  have "resources (upd_shm g s1) q = Some r" using r(2) by simp
  from server_ok_implemented [OF up this r(6), of r' k slots] show "server_ok s'" by (simp add: s' r'_def)
  show "input_kept ca s s'" using cr(2) by (simp add: input_kept_def s')
  show "user s' = g (user s1)" by (simp add: s')
  show none: "shm_objects s q = None" using r(1) by (simp add: shm_objects_def)
  have "shm_objects s' x = ((shm_objects s)(q := shm_handle r')) x" for x
    using r(7) [rule_format, of x]
    by (cases "x = q"; cases "resources s x"; cases "resources s1 x") (auto simp: shm_objects_def s' dest: view_handle)
  then show "shm_objects s' = (shm_objects s)(q := (if d = pool_destroyer then Some (Pool_of data)
       else if d = buffer_destroyer then Some (Buffer_of data) else None))"
    by (auto simp: fun_eq_iff shm_handle_def r'_def)
  have "shm_resource_ok x" if x: "resources s' p = Some x" for p x
  proof (cases "p = q")
    case True
    with x table r(5) show ?thesis by (auto simp: s' r'_def shm_resource_ok_def)
  next
    case False
    with x r(7) obtain y where "resources s p = Some y" "resource_view x = resource_view y"
      by (cases "resources s p") (auto simp: s')
    with typed show ?thesis unfolding all_shm_ok_def using view_handle by blast
  qed
  then show "all_shm_ok s'" by (simp add: all_shm_ok_def)
qed

lemma objects_upd [simp]: "shm_objects (upd_shm f s) = shm_objects s"
  by (simp add: shm_objects_def fun_eq_iff)

section \<open>The requests\<close>

text \<open>What every request keeps, and that the sender's input is still to be read.\<close>

definition shm_kept :: "u64 \<Rightarrow> 'a shm server \<Rightarrow> 'a shm server \<Rightarrow> bool" where
  "shm_kept ca s s' \<longleftrightarrow> server_ok s' \<and> shm_ok s' \<and> input_kept ca s s' \<and> pinned (user s) (user s')"

lemma shm_kept_trans: "shm_kept ca s t \<Longrightarrow> shm_kept ca t u \<Longrightarrow> shm_kept ca s u"
  unfolding shm_kept_def using input_kept_trans pinned_trans by blast

lemma emits_input_all: "server_ok s \<Longrightarrow> emits x bs s s' \<Longrightarrow> input_kept ca s s'"
  by (cases "ca = x") (auto simp: input_kept_def emits_fields(7) dest: emits_input)

lemma post_error_server:
  assumes "server_ok s" "wl_resource_post_error E p code msg s = Some s'"
  shows "server_ok s' \<and> input_kept ca s s' \<and> unobserved s s'"
proof -
  obtain r c where r: "resources s p = Some r" "clients s (rclient r) = Some c"
    using assms(2) by (auto simp: wl_resource_post_error_def bind_eq_Some)
  have "display_resource_ok s (rclient r)" using server_okD(1) [OF assms(1) r(2)] by (simp add: client_ok_def)
  then obtain bs where "emits (rclient r) bs s s'" by (rule post_error_frame [OF assms(2) r(1)]) (rule that)
  with assms post_error_quiet [OF assms(2)] server_ok_emits emits_input_all show ?thesis by blast
qed

lemma unobserved_pinned: "unobserved s s' \<Longrightarrow> pinned (user s) (user s')"
  by (simp add: unobserved_def)

lemma post_error_kept:
  assumes "server_ok s" "shm_ok s" "wl_resource_post_error E p code msg s = Some s'"
  shows "shm_kept ca s s'"
  using post_error_server [OF assms(1,3), of ca] shm_ok_unobserved [OF assms(2)] unobserved_pinned unfolding shm_kept_def by blast

lemma no_memory_kept: "server_ok s \<Longrightarrow> shm_ok s \<Longrightarrow> wl_client_post_no_memory E x s = Some s' \<Longrightarrow> shm_kept ca s s'"
  by (auto simp: wl_client_post_no_memory_def bind_eq_Some dest: post_error_kept)

lemma shm_ok_upd:
  assumes "shm_ok s" "shm_inv (shm_objects s) (f (user s))"
  shows "shm_ok (upd_shm f s)"
  using assms by (simp add: shm_ok_def)

lemma upd_kept:
  assumes "server_ok s" "shm_ok s" "shm_part (f (user s)) = shm_part (user s)"
  shows "shm_kept ca s (upd_shm f s)"
  using assms shm_inv_part [OF assms(3)] by (simp add: shm_kept_def shm_ok_upd shm_ok_def pinned_same shm_part_def)

lemma repool_kept:
  assumes s: "server_ok s" "shm_ok s" and P: "pools (user s) p = Some P"
    and P': "psize P \<le> psize P'" "psize P' \<le> new_size P'" "new_size P' \<le> INT32_MAX" "0 \<le> external_refcount P'"
      "internal_refcount P' = internal_refcount P" "0 < internal_refcount P' + external_refcount P'"
    and d: "pdata P' = pdata P \<or> pdata P' \<notin> fst ` set (mappings (user s))"
    and f: "shm_part (f (user s)) = shm_part (repool p P P' (user s))"
    and pin: "0 < external_refcount P \<Longrightarrow> pdata P' = pdata P \<and> psize P' = psize P \<and> external_refcount P \<le> external_refcount P'"
  shows "shm_kept ca s (upd_shm f s)"
proof -
  have "pinned (user s) (f (user s))"
    by (rule pinned_set [OF P, of _ "Some P'"]) (use f pin in \<open>auto simp: shm_part_def repool_def\<close>)
  moreover
  have "shm_inv (shm_objects s) (repool p P P' (user s))"
    using s(2) by (intro repool_ok [OF _ P P' d]) (simp add: shm_ok_def)
  ultimately show ?thesis using s shm_inv_part [OF f] by (simp add: shm_kept_def shm_ok_upd)
qed

lemma close_kept: "server_ok s \<Longrightarrow> shm_ok s \<Longrightarrow> shm_kept ca s (close_fd fd s)"
  unfolding close_fd_def by (rule upd_kept) (simp_all add: shm_part_def)

text \<open>The end of a resize: nothing to do, an error, or the pool is somewhere else.\<close>

lemma finish_resize_cases:
  assumes run: "shm_pool_finish_resize E M p s = Some s'" and P: "pools (user s) p = Some P"
  obtains "s' = s" | msg where "wl_resource_post_error E (presource P) WL_SHM_ERROR_INVALID_FD msg s = Some s'"
    | d where "psize P \<noteq> new_size P" "mremap_call M (pdata P) (psize P) (new_size P) s = Some d"
      "s' = upd_shm (\<lambda>u. set_pool p (Some (P\<lparr>pdata := d, psize := new_size P\<rparr>))
         (u\<lparr>mappings := (d, new_size P) # remove1 (pdata P, psize P) (mappings u)\<rparr>)) s"
proof (cases "psize P = new_size P")
  case True
  with run P that(1) show thesis by (simp add: shm_pool_finish_resize_def)
next
  case False
  with run P that show thesis
    by (cases "mremap_call M (pdata P) (psize P) (new_size P) s") (auto simp: shm_pool_finish_resize_def)
qed

lemma finish_resize_kept:
  assumes E: "shm_env_ok E M" and s: "server_ok s" "shm_ok s" and P: "pools (user s) p = Some P" "external_refcount P = 0"
    and run: "shm_pool_finish_resize E M p s = Some s'"
  shows "shm_kept ca s s'"
proof -
  have ok: "pool_ok (shm_objects s) (user s) p P" using s(2) P(1) by (auto simp: shm_ok_def dest: shm_invD(2))
  from run P(1) show ?thesis
  proof (cases rule: finish_resize_cases)
    case 1
    with s show ?thesis by (simp add: shm_kept_def)
  next
    case 2
    with post_error_kept s show ?thesis by blast
  next
    case (3 d)
    let ?P = "P\<lparr>pdata := d, psize := new_size P\<rparr>"
    show ?thesis
      unfolding 3(3)
      by (rule repool_kept [OF s P(1), of ?P])
        (use ok P(2) 3 shm_env_okD(8) [OF E 3(2)] in \<open>auto simp: pool_ok_def repool_def shm_part_def\<close>)
  qed
qed

lemma resize_kept:
  assumes E: "shm_env_ok E M" and s: "server_ok s" "shm_ok s" and sz: "sz \<le> INT32_MAX"
    and run: "shm_pool_resize E M rp sz s = Some s'"
  shows "shm_kept ca s s'"
proof -
  obtain r P where r: "resources s rp = Some r" "pools (user s) (rdata r) = Some P"
    using run by (auto simp: shm_pool_resize_def bind_eq_Some Let_def)
  have ok: "pool_ok (shm_objects s) (user s) (rdata r) P" using s(2) r(2) by (auto simp: shm_ok_def dest: shm_invD(2))
  show ?thesis
  proof (cases "sz < psize P")
    case True
    with run r post_error_kept [OF s] show ?thesis by (auto simp: shm_pool_resize_def)
  next
    case False
    let ?s1 = "upd_shm (set_pool (rdata r) (Some (P\<lparr>new_size := sz\<rparr>))) s"
    have k: "shm_kept ca s ?s1"
      by (rule repool_kept [OF s r(2), of "P\<lparr>new_size := sz\<rparr>"]) (use ok sz False in \<open>auto simp: pool_ok_def repool_def shm_part_def\<close>)
    then have ok1: "server_ok ?s1" "shm_ok ?s1" by (simp_all add: shm_kept_def)
    show ?thesis
    proof (cases "external_refcount P = 0")
      case True
      then have "shm_pool_finish_resize E M (rdata r) ?s1 = Some s'"
        using run r False by (simp add: shm_pool_resize_def Let_def)
      from shm_kept_trans [OF k finish_resize_kept [OF E ok1 _ _ this]] True show ?thesis by simp
    next
      case ext: False
      then have "?s1 = s'" using run r False by (simp add: shm_pool_resize_def Let_def)
      with k show ?thesis by simp
    qed
  qed
qed

lemma shm_interfaces_ok [simp]: "interface_ok wl_shm_interface" "interface_ok wl_shm_pool_interface" "interface_ok wl_buffer_interface"
  by (simp_all add: interface_ok_def wl_shm_interface_def wl_shm_pool_interface_def wl_buffer_interface_def NUL_def is_arg_char_def)

lemma buffer_fits_exact:
  assumes "0 \<le> sz" "sz \<le> INT32_MAX" "offset \<le> INT32_MAX"
  shows "buffer_fits sz offset w h st = Some (0 \<le> offset \<and> 0 < w \<and> w \<le> st \<and> 0 < h \<and> h < INT32_MAX div st \<and>
    offset + st * h \<le> sz)"
proof (cases "offset < 0 \<or> w \<le> 0 \<or> h \<le> 0 \<or> st < w \<or> INT32_MAX div st \<le> h")
  case True
  then show ?thesis by (auto simp: buffer_fits_def)
next
  case False
  then have st: "0 < st" "0 < h" "h < INT32_MAX div st" by auto
  have "st * h \<le> st * (INT32_MAX div st)" by (rule mult_left_mono) (use st in auto)
  also have "\<dots> \<le> INT32_MAX" using st(1) by (simp add: minus_mod_eq_mult_div [symmetric])
  finally have le: "st * h \<le> INT32_MAX" .
  moreover have "0 < st * h" using st by simp
  ultimately have "int32 (st * h) = Some (st * h)" "int32 (sz - st * h) = Some (sz - st * h)"
    using assms by (auto simp: int32_def INT32_MAX_def)
  with False show ?thesis by (auto simp: buffer_fits_def)
qed

lemma create_buffer_kept:
  assumes E: "shm_env_ok E M" and s: "server_ok s" "shm_ok s" "clients s ca = Some c" "id_available (objects c) i"
    and off: "offset \<le> INT32_MAX" and run: "shm_pool_create_buffer E M ca rp i offset w h st format s = Some s'"
  shows "shm_kept ca s s'"
proof -
  obtain r where r: "resources s rp = Some r" using run by (auto simp: shm_pool_create_buffer_def bind_eq_Some)
  let ?p = "rdata r" let ?b = "malloc E s"
  show ?thesis
  proof (cases "\<exists>code msg. wl_resource_post_error E rp code msg s = Some s'")
    case True
    with post_error_kept [OF s(1,2)] show ?thesis by blast
  next
    case no_error: False
    obtain P where P: "pools (user s) ?p = Some P" "buffer_fits (psize P) offset w h st = Some True"
      using run r no_error by (auto simp: shm_pool_create_buffer_def bind_eq_Some Let_def split: if_split_asm)
    have inv: "shm_inv (shm_objects s) (user s)" "all_shm_ok s" using s(2) by (simp_all add: shm_ok_iff)
    have ok: "pool_ok (shm_objects s) (user s) ?p P" by (rule shm_invD(2) [OF inv(1) P(1)])
    define s0 where "s0 = s\<lparr>ticks := ticks s + 1\<rparr>"
    have s0: "server_ok s0" "shm_ok s0" "input_kept ca s s0" "user s0 = user s" "resources s0 = resources s" "clients s0 = clients s"
      "shm_objects s0 = shm_objects s"
      using s server_ok_same [OF s(1), of s0] shm_ok_unobserved [OF s(2), of s0]
      by (auto simp: s0_def input_kept_def unobserved_def same_structs_def shm_objects_def)
    define B where "B = \<lparr>bresource = 0, bwidth = w, bheight = h, bstride = st, bformat = format, boffset = offset, bpool = ?p\<rparr>"
    define P' where "P' = P\<lparr>internal_refcount := internal_refcount P + 1\<rparr>"
    define s1 where "s1 = upd_shm (\<lambda>u. set_pool ?p (Some P') (set_buffer ?b (Some B) u)) s0"
    have run0: "(if ?b = 0 then wl_client_post_no_memory E ca s0
        else Option.bind (wl_resource_create E ca wl_buffer_interface 1 i s1) (\<lambda>(q, s).
          let s = upd_shm (set_buffer ?b (Some (B\<lparr>bresource := q\<rparr>))) s in
          if q = 0 then Option.bind (wl_client_post_no_memory E ca s) (\<lambda>s. Option.bind (shm_pool_unref E M ?p False s)
            (\<lambda>s. Some (upd_shm (set_buffer ?b None) s)))
          else wl_resource_set_implementation q shm_buffer_interface ?b buffer_destroyer s)) = Some s'"
      using run r no_error P by (simp add: shm_pool_create_buffer_def do_malloc_def Let_def s0_def s1_def B_def P'_def split: if_split_asm cong: if_cong)
    show ?thesis
    proof (cases "?b = 0")
      case True
      with run0 no_memory_kept [OF s0(1,2), of E ca s' ca] s0(3) show ?thesis
        by (auto simp: shm_kept_def s0(4) intro: input_kept_trans)
    next
      case False
      then obtain q s2 where q: "wl_resource_create E ca wl_buffer_interface 1 i s1 = Some (q, s2)"
        using run0 by (auto simp: bind_eq_Some)
      have fresh: "buffers (user s) ?b = None" using shm_env_okD(6) [OF E False] by blast
      have s1: "server_ok s1" "clients s1 ca = Some c" "input_kept ca s s1" "all_shm_ok s1" "shm_objects s1 = shm_objects s"
        using s0 s(3) inv(2) by (simp_all add: s1_def all_shm_ok_def)
      note cr = create_shm [OF E s1(1,2) s(4) shm_interfaces_ok(3) q]
      have part2: "pools (user s2) = (pools (user s))(?p \<mapsto> P')" "buffers (user s2) = (buffers (user s))(?b \<mapsto> B)"
        "mappings (user s2) = mappings (user s)"
        using cr(3) s0(4) by (simp_all add: s1_def shm_part_def)
      let ?g = "set_buffer ?b (Some (B\<lparr>bresource := q\<rparr>))"
      show ?thesis
      proof (cases "q = 0")
        case True
        obtain s3 s4 where s3: "wl_client_post_no_memory E ca (upd_shm ?g s2) = Some s3" "shm_pool_unref E M ?p False s3 = Some s4"
          "s' = upd_shm (set_buffer ?b None) s4"
          using run0 False q True by (auto simp: bind_eq_Some)
        have quiet: "unobserved (upd_shm ?g s2) s3" by (rule no_memory_quiet [OF s3(1)])
        have u3: "pools (user s3) ?p = Some P'" using quiet part2(1) by (simp add: unobserved_def)
        obtain f where f: "s4 = upd_shm f s3" "shm_part (f (user s3)) = shm_part (drop_internal ?p P' (user s3))"
          using shm_pool_unref_internal [OF u3, of E M] s3(2) by auto
        have "shm_part (user s') = shm_part (set_buffer ?b None (drop_internal ?p P' (user s3)))"
          using set_buffer_part [OF f(2)] by (simp add: s3(3) f(1))
        also have "\<dots> = shm_part (user s)"
          using ok quiet part2 P(1) fresh
          by (simp add: drop_internal_def P'_def pool_ok_def shm_part_def unobserved_def fun_upd_idem)
        finally have part: "shm_part (user s') = shm_part (user s)" .
        have res: "resources s' = resources s" using cr(4) [OF True] quiet s0(5) by (simp add: s3(3) f(1) unobserved_def s1_def)
        have ok2: "server_ok (upd_shm ?g s2)" using cr(1) by simp
        have "server_ok s3 \<and> input_kept ca (upd_shm ?g s2) s3" using post_no_memory_ok [OF ok2 s3(1)] by blast
        with cr(2) s1(3) input_kept_trans have "server_ok s' \<and> input_kept ca s s'" by (simp add: s3(3) f(1)) blast
        with shm_ok_frame [OF s(2), of s'] res part show ?thesis by (simp add: shm_kept_def pinned_same shm_part_def)
      next
        case q0: False
        have im: "wl_resource_set_implementation q (Implementation 2 [True]) ?b buffer_destroyer (upd_shm ?g s2) = Some s'"
          using run0 False q q0 by (simp add: shm_buffer_interface_def)
        note nw = implement_shm [OF E s1(1,2) s(4) shm_interfaces_ok(3) s1(4) q q0 im buffer_table]
        have "shm_inv ((shm_objects s)(q \<mapsto> Buffer_of ?b))
            (set_pool (bpool (B\<lparr>bresource := q\<rparr>)) (Some P') (set_buffer ?b (Some (B\<lparr>bresource := q\<rparr>)) (user s)))"
          unfolding P'_def
        proof (rule new_buffer_ok [OF inv(1) False fresh])
          show "shm_objects s q = None" using nw(4) s1(5) by simp
          show "pools (user s) (bpool (B\<lparr>bresource := q\<rparr>)) = Some P" using P(1) by (simp add: B_def)
          show "buffer_in (B\<lparr>bresource := q\<rparr>) P"
            using P(2) buffer_fits_exact [of "psize P" offset w h st] ok off by (simp add: buffer_in_def B_def pool_ok_def)
        qed
        moreover have "shm_part (user s') = shm_part (set_pool (bpool (B\<lparr>bresource := q\<rparr>)) (Some P')
            (set_buffer ?b (Some (B\<lparr>bresource := q\<rparr>)) (user s)))"
          using nw(3) part2 by (simp add: shm_part_def B_def)
        moreover have "shm_objects s' = (shm_objects s)(q \<mapsto> Buffer_of ?b)" using nw(6) s1(5) by simp
        ultimately have "shm_inv (shm_objects s') (user s')" using shm_inv_part by metis
        then have "shm_ok s'" using nw(5) by (simp add: shm_ok_iff)
        moreover have "pinned (user s) (user s')"
          by (rule pinned_set [OF P(1), of _ "Some P'"]) (use nw(3) part2 in \<open>auto simp: P'_def\<close>)
        ultimately show ?thesis using nw(1,2) s1(3) input_kept_trans unfolding shm_kept_def by blast
      qed
    qed
  qed
qed

lemma create_pool_kept:
  assumes E: "shm_env_ok E M" and s: "server_ok s" "shm_ok s" "clients s ca = Some c" "id_available (objects c) i"
    and sz: "sz \<le> INT32_MAX" and run: "shm_create_pool E M ca rp i fd sz s = Some s'"
  shows "shm_kept ca s s'"
proof -
  have closed: "shm_kept ca s (close_fd fd t)" if "shm_kept ca s t" for t
    using close_kept [of t ca fd] shm_kept_trans that by (auto simp: shm_kept_def)
  define s0 where "s0 = s\<lparr>ticks := ticks s + 1\<rparr>"
  have s0: "server_ok s0" "shm_ok s0" "shm_kept ca s s0" "user s0 = user s" "clients s0 = clients s" "shm_objects s0 = shm_objects s"
    using s server_ok_same [OF s(1), of s0] shm_ok_unobserved [OF s(2), of s0]
    by (auto simp: s0_def input_kept_def unobserved_def same_structs_def shm_objects_def shm_kept_def)
  let ?p = "malloc E s"
  define P where "P d = \<lparr>presource = 0, internal_refcount = 1, external_refcount = 0, pdata = d, psize = sz, new_size = sz\<rparr>" for d
  define s1 where "s1 d = close_fd fd (upd_shm (\<lambda>u. set_pool ?p (Some (P d)) (u\<lparr>mappings := (d, sz) # mappings u\<rparr>)) s0)" for d
  consider code msg t where "wl_resource_post_error E rp code msg s = Some t" "s' = close_fd fd t"
    | t where "wl_client_post_no_memory E ca s0 = Some t" "s' = close_fd fd t"
    | code msg t where "wl_resource_post_error E rp code msg s0 = Some t" "s' = close_fd fd t"
    | d where "0 < sz" "?p \<noteq> 0" "mmap_call M sz fd s0 = Inr d" "Option.bind (wl_resource_create E ca wl_shm_pool_interface 1 i (s1 d)) (\<lambda>(q, s).
        let s = upd_shm (set_pool ?p (Some ((P d)\<lparr>presource := q\<rparr>))) s in
        if q = 0 then Option.bind (wl_client_post_no_memory E ca s) (\<lambda>s. Some (upd_shm (\<lambda>u. set_pool ?p None
          (u\<lparr>mappings := remove1 (d, sz) (mappings u)\<rparr>)) s))
        else wl_resource_set_implementation q shm_pool_interface ?p pool_destroyer s) = Some s'"
    using run
    by (cases "sz \<le> 0"; cases "?p = 0"; cases "mmap_call M sz fd s0")
      (auto simp: shm_create_pool_def do_malloc_def Let_def bind_eq_Some s0_def s1_def P_def cong: if_cong)
  then show ?thesis
  proof cases
    case 1
    with closed post_error_kept s(1,2) show ?thesis by blast
  next
    case 2
    with closed no_memory_kept s0(1-3) shm_kept_trans show ?thesis by blast
  next
    case 3
    with closed post_error_kept s0(1-3) shm_kept_trans show ?thesis by blast
  next
    case (4 d)
    obtain q s2 where q: "wl_resource_create E ca wl_shm_pool_interface 1 i (s1 d) = Some (q, s2)"
      using 4(4) by (auto simp: bind_eq_Some)
    have inv: "shm_inv (shm_objects s) (user s)" "all_shm_ok s" using s(2) by (simp_all add: shm_ok_iff)
    have fresh: "pools (user s) ?p = None" using shm_env_okD(6) [OF E 4(2)] by blast
    have s1: "server_ok (s1 d)" "clients (s1 d) ca = Some c" "input_kept ca s (s1 d)" "all_shm_ok (s1 d)" "shm_objects (s1 d) = shm_objects s"
      using s0 s(3) inv(2) by (simp_all add: s1_def close_fd_def all_shm_ok_def shm_kept_def) (simp add: s0_def)
    note cr = create_shm [OF E s1(1,2) s(4) shm_interfaces_ok(2) q]
    have part2: "pools (user s2) = (pools (user s))(?p \<mapsto> P d)" "buffers (user s2) = buffers (user s)"
      "mappings (user s2) = (d, sz) # mappings (user s)"
      using cr(3) s0(4) by (simp_all add: s1_def close_fd_def shm_part_def)
    let ?g = "set_pool ?p (Some ((P d)\<lparr>presource := q\<rparr>))"
    show ?thesis
    proof (cases "q = 0")
      case True
      obtain s3 where s3: "wl_client_post_no_memory E ca (upd_shm ?g s2) = Some s3"
        "s' = upd_shm (\<lambda>u. set_pool ?p None (u\<lparr>mappings := remove1 (d, sz) (mappings u)\<rparr>)) s3"
        using 4(4) q True by (auto simp: bind_eq_Some)
      have quiet: "unobserved (upd_shm ?g s2) s3" by (rule no_memory_quiet [OF s3(1)])
      have part: "shm_part (user s') = shm_part (user s)"
        using quiet part2 fresh by (simp add: s3(2) unobserved_def shm_part_def fun_upd_idem)
      have res: "resources s' = resources s" using cr(4) [OF True] quiet by (simp add: s3(2) unobserved_def s1_def close_fd_def s0_def)
      have ok2: "server_ok (upd_shm ?g s2)" using cr(1) by simp
      have "server_ok s3 \<and> input_kept ca (upd_shm ?g s2) s3" using post_no_memory_ok [OF ok2 s3(1)] by blast
      with cr(2) s1(3) input_kept_trans have "server_ok s' \<and> input_kept ca s s'" by (simp add: s3(2)) blast
      with shm_ok_frame [OF s(2), of s'] res part show ?thesis by (simp add: shm_kept_def pinned_same shm_part_def)
    next
      case q0: False
      have im: "wl_resource_set_implementation q (Implementation 1 [True, True, True]) ?p pool_destroyer (upd_shm ?g s2) = Some s'"
        using 4(4) q q0 by (simp add: shm_pool_interface_def)
      note nw = implement_shm [OF E s1(1,2) s(4) shm_interfaces_ok(2) s1(4) q q0 im pool_table]
      let ?P = "(P d)\<lparr>presource := q\<rparr>"
      have inv': "shm_inv ((shm_objects s)(q \<mapsto> Pool_of ?p))
          (set_pool ?p (Some ?P) (user s\<lparr>mappings := (pdata ?P, psize ?P) # mappings (user s)\<rparr>))"
      proof (rule new_pool_ok [OF inv(1) 4(2) fresh])
        show "shm_objects s q = None" using nw(4) s1(5) by simp
        show "pdata ?P \<notin> fst ` set (mappings (user s))" using shm_env_okD(7) [OF E 4(3)] s0(4) by (simp add: P_def)
      qed (use 4(1) sz in \<open>simp_all add: P_def\<close>)
      have part': "shm_part (user s') = shm_part (set_pool ?p (Some ?P) (user s\<lparr>mappings := (pdata ?P, psize ?P) # mappings (user s)\<rparr>))"
        using nw(3) part2 by (simp add: shm_part_def P_def)
      have obj': "shm_objects s' = (shm_objects s)(q \<mapsto> Pool_of ?p)" using nw(6) s1(5) by simp
      have "shm_inv (shm_objects s') (user s')" unfolding obj' shm_inv_part [OF part'] by (rule inv')
      then have "shm_ok s'" using nw(5) by (simp add: shm_ok_iff)
      moreover have "pinned (user s) (user s')"
        using nw(3) part2 fresh by (auto simp: pinned_def)
      ultimately show ?thesis using nw(1,2) s1(3) input_kept_trans unfolding shm_kept_def by blast
    qed
  qed
qed

lemma destroy_kept:
  assumes E: "shm_env_ok E M" and s: "server_ok s" "shm_ok s" "resources s rp = Some r" "rclient r = ca"
    and run: "wl_resource_destroy E rp s = Some s'"
  shows "shm_kept ca s s'"
proof -
  note env = shm_env_okD(1) [OF E]
  obtain c where c: "clients s (rclient r) = Some c" using server_okD(2) [OF s(1,3)] by (auto simp: resource_ok_def)
  note ok = resource_destroy_ok [OF env s(1,3) c run]
  have "shm_ok s' \<and> pinned (user s) (user s')"
    by (rule resource_invariant.keep_destroy [OF shm_resource_invariant [OF E] _ s(1,3) run]) (simp add: s(2))
  with ok(1,3) c s(4) show ?thesis by (auto simp: shm_kept_def input_kept_def)
qed

lemma shm_request_kept:
  assumes E: "shm_env_ok E M" and s: "server_ok s" "shm_ok s" "clients s ca = Some c" "resources s rp = Some r" "rclient r = ca"
    and i: "\<And>i. Arg_n i \<in> set (call_args call) \<Longrightarrow> id_available (objects c) i"
    and run: "shm_request E M k ca rp call s = Some s'"
  shows "shm_kept ca s s'"
proof -
  have sz: "sint w \<le> INT32_MAX" for w :: u32 using sint_lt [of w] by (simp add: INT32_MAX_def)
  have "(\<exists>i fd w. Arg_n i \<in> set (call_args call) \<and> shm_create_pool E M ca rp i fd (sint (w :: u32)) s = Some s') \<or>
      (\<exists>i (o' :: u32) w h st format. Arg_n i \<in> set (call_args call) \<and>
         shm_pool_create_buffer E M ca rp i (sint o') w h st format s = Some s') \<or>
      (\<exists>w. shm_pool_resize E M rp (sint (w :: u32)) s = Some s') \<or> wl_resource_destroy E rp s = Some s'"
    using run by (auto simp: shm_request_def split: if_split_asm list.split_asm wl_argument.split_asm)
  then show ?thesis
  proof (elim disjE exE conjE)
    fix j fd and w :: u32
    assume j: "Arg_n j \<in> set (call_args call)" and run: "shm_create_pool E M ca rp j fd (sint w) s = Some s'"
    show ?thesis by (rule create_pool_kept [OF E s(1-3) i [OF j] sz run])
  next
    fix j w h st format and x :: u32
    assume j: "Arg_n j \<in> set (call_args call)" and run: "shm_pool_create_buffer E M ca rp j (sint x) w h st format s = Some s'"
    show ?thesis by (rule create_buffer_kept [OF E s(1-3) i [OF j] sz run])
  next
    fix w :: u32
    assume run: "shm_pool_resize E M rp (sint w) s = Some s'"
    show ?thesis by (rule resize_kept [OF E s(1,2) sz run])
  next
    assume run: "wl_resource_destroy E rp s = Some s'"
    show ?thesis by (rule destroy_kept [OF E s(1,2,4,5) run])
  qed
qed

lemma send_format_kept:
  assumes "server_ok s" "shm_ok s" "resources s q = Some r" "rinterface r = wl_shm_interface" "wl_shm_send_format E q format s = Some s'"
  shows "shm_kept ca s s' \<and> resources s' = resources s"
proof -
  have run: "wl_resource_post_event E q WL_SHM_FORMAT [Arg_u format] s = Some s'" using assms(5) by (simp add: wl_shm_send_format_def)
  obtain bs where "emits (rclient r) bs s s'"
    by (rule event_frame [OF disjI1 [OF run] assms(3)])
      (use assms(4) that in \<open>auto simp: nth_message_def wl_shm_interface_def no_fds_def details_def is_arg_char_def is_fd_def split: if_splits\<close>)
  with assms event_quiet(1) [OF run] shm_ok_unobserved server_ok_emits emits_input_all show ?thesis
    by (auto simp: shm_kept_def unobserved_def)
qed

lemma bind_shm_kept:
  assumes E: "shm_env_ok E M" and s: "server_ok s" "shm_ok s" "clients s ca = Some c" "id_available (objects c) i"
    and run: "bind_shm E ca data v i s = Some s'"
  shows "shm_kept ca s s'"
proof -
  obtain q s1 where q: "wl_resource_create E ca wl_shm_interface 1 i s = Some (q, s1)"
    using run by (auto simp: bind_shm_def bind_eq_Some)
  note cr = create_shm [OF E s(1,3,4) shm_interfaces_ok(1) q]
  have inv: "shm_inv (shm_objects s) (user s)" "all_shm_ok s" using s(2) by (simp_all add: shm_ok_iff)
  show ?thesis
  proof (cases "q = 0")
    case True
    have ok1: "shm_ok s1" by (rule shm_ok_frame [OF s(2) _ cr(3)]) (simp add: cr(4) [OF True])
    have "wl_client_post_no_memory E ca s1 = Some s'" using run q True by (simp add: bind_shm_def)
    moreover have "pinned (user s) (user s1)" using cr(3) by (simp add: pinned_same shm_part_def)
    ultimately show ?thesis
      using no_memory_kept [OF cr(1) ok1, of E ca s' ca] cr(2) input_kept_trans pinned_trans unfolding shm_kept_def by blast
  next
    case False
    obtain s2 s3 s4 where s2: "wl_resource_set_implementation q (Implementation 0 [True]) data No_destroy s1 = Some s2"
      "wl_shm_send_format E q WL_SHM_FORMAT_ARGB8888 s2 = Some s3" "wl_shm_send_format E q WL_SHM_FORMAT_XRGB8888 s3 = Some s4"
      "ofold (wl_shm_send_format E q) (wl_display_get_additional_shm_formats s4) s4 = Some s'"
      using run q False by (auto simp: bind_shm_def shm_interface_def bind_eq_Some)
    have "upd_shm (\<lambda>u. u) s1 = s1" by (simp add: upd_shm_def)
    then have im: "wl_resource_set_implementation q (Implementation 0 [True]) data No_destroy (upd_shm (\<lambda>u. u) s1) = Some s2"
      using s2(1) by simp
    note nw = implement_shm [OF E s(1,3,4) shm_interfaces_ok(1) inv(2) q False im]
    have n: "server_ok s2" "input_kept ca s s2" "user s2 = user s1" "shm_objects s q = None" "all_shm_ok s2"
      "shm_objects s2 = (shm_objects s)(q := None)"
      using nw by simp_all
    then have "shm_objects s2 = shm_objects s" by (simp add: fun_upd_idem)
    with inv(1) n(3,5) shm_inv_part [OF cr(3)] have k2: "shm_kept ca s s2"
      using n(1,2) cr(3) by (simp add: shm_kept_def shm_ok_iff pinned_same shm_part_def)
    obtain r where r: "resources s2 q = Some r" "rinterface r = wl_shm_interface"
      using cr(5) [OF False] s2(1) by (auto simp: wl_resource_set_implementation_def upd_resource_def)
    define J where "J t \<longleftrightarrow> shm_kept ca s t \<and> resources t q = Some r" for t
    have J: "J t'" if "J t" "wl_shm_send_format E q format t = Some t'" for format t t'
    proof -
      have t: "server_ok t" "shm_ok t" "resources t q = Some r" using that(1) by (simp_all add: J_def shm_kept_def)
      from send_format_kept [OF t r(2) that(2)] that(1) shm_kept_trans show ?thesis unfolding J_def by metis
    qed
    have "J s2" using k2 r(1) by (simp add: J_def)
    then have "J s4" using J s2(2,3) by blast
    then have "J s'" using s2(4) by (rule ofold_invariant [of _ J, rotated]) (rule J)
    then show ?thesis by (simp add: J_def)
  qed
qed

section \<open>References of the compositor\<close>

lemma ref_pool_kept:
  assumes s: "server_ok s" "shm_ok s" and run: "wl_shm_buffer_ref_pool b s = Some (p, s')"
  shows "shm_kept ca s s'" "\<exists>P. pools (user s') p = Some P \<and> 0 < external_refcount P"
proof -
  obtain B P where P: "buffers (user s) b = Some B" "pools (user s) (bpool B) = Some P" "p = bpool B"
    "s' = upd_shm (set_pool (bpool B) (Some (P\<lparr>external_refcount := external_refcount P + 1\<rparr>))) s"
    using run by (auto simp: wl_shm_buffer_ref_pool_def bind_eq_Some split: if_split_asm)
  have ok: "pool_ok (shm_objects s) (user s) (bpool B) P" using s(2) P(2) by (auto simp: shm_ok_def dest: shm_invD(2))
  show "shm_kept ca s s'"
    unfolding P(4)
    by (rule repool_kept [OF s P(2), of "P\<lparr>external_refcount := external_refcount P + 1\<rparr>"])
      (use ok in \<open>auto simp: pool_ok_def repool_def shm_part_def\<close>)
  show "\<exists>P. pools (user s') p = Some P \<and> 0 < external_refcount P" using ok P(3,4) by (auto simp: pool_ok_def)
qed

text \<open>One reference less; the last one lets a delayed resize through or unmaps the pool.\<close>

lemma unref_pool_ok:
  assumes E: "shm_env_ok E M" and s: "server_ok s" "shm_ok s" and P: "pools (user s) p = Some P" "0 < external_refcount P"
    and run: "wl_shm_pool_unref E M p s = Some s'"
  shows "server_ok s' \<and> shm_ok s'"
proof -
  have inv: "shm_inv (shm_objects s) (user s)" using s(2) by (simp add: shm_ok_def)
  have ok: "pool_ok (shm_objects s) (user s) p P" by (rule shm_invD(2) [OF inv P(1)])
  let ?P = "P\<lparr>external_refcount := external_refcount P - 1\<rparr>"
  let ?s1 = "upd_shm (set_pool p (Some ?P)) s"
  have P1: "pools (user ?s1) p = Some ?P" by simp
  obtain s2 where s2: "if external_refcount P = 1 then shm_pool_finish_resize E M p ?s1 = Some s2 else s2 = ?s1"
    "Option.bind (pools (user s2) p) (\<lambda>Q. if internal_refcount Q + external_refcount Q \<noteq> 0 then Some s2
       else Some (upd_shm (\<lambda>u. set_pool p None (u\<lparr>mappings := remove1 (pdata Q, psize Q) (mappings u)\<rparr>)) s2)) = Some s'"
    using run P by (auto simp: wl_shm_pool_unref_def shm_pool_unref_def bind_eq_Some Let_def split: if_split_asm)
  show ?thesis
  proof (cases "internal_refcount P + external_refcount P - 1 = 0")
    case False
    have "0 \<le> internal_refcount P" using ok refs_nonneg [of "shm_objects s" "user s" p] by (simp add: pool_ok_def)
    with False have pos: "0 < internal_refcount ?P + external_refcount ?P" using P(2) by simp
    have "shm_inv (shm_objects s) (repool p P ?P (user s))"
      by (rule repool_ok [OF inv P(1)]) (use ok P(2) pos in \<open>auto simp: pool_ok_def\<close>)
    moreover have "shm_part (set_pool p (Some ?P) (user s)) = shm_part (repool p P ?P (user s))"
      by (simp add: shm_part_def repool_def)
    ultimately have ok1: "server_ok ?s1" "shm_ok ?s1" using s shm_inv_part by (simp_all add: shm_ok_def) blast
    show ?thesis
    proof (cases "external_refcount P = 1")
      case True
      then have fin: "shm_pool_finish_resize E M p ?s1 = Some s2" using s2(1) by simp
      have k: "shm_kept 0 ?s1 s2" by (rule finish_resize_kept [OF E ok1 P1 _ fin]) (simp add: True)
      have "\<exists>Q. pools (user s2) p = Some Q \<and> internal_refcount Q + external_refcount Q \<noteq> 0"
        using fin P1
      proof (cases rule: finish_resize_cases)
        case (2 msg)
        from post_error_quiet [OF 2] pos show ?thesis by (auto simp: unobserved_def)
      qed (use pos in auto)
      with s2(2) k show ?thesis by (auto simp: shm_kept_def)
    next
      case ext: False
      then have "s' = ?s1" using s2 pos by auto
      with ok1 show ?thesis by blast
    qed
  next
    case True
    then have none: "internal_refcount P = 0" "external_refcount P = 1"
      using ok P(2) refs_nonneg [of "shm_objects s" "user s" p] by (simp_all add: pool_ok_def)
    have refs0: "pool_refs (shm_objects s) (user s) p = 0" using ok none by (simp add: pool_ok_def)
    have gone: "shm_inv (shm_objects s) (set_pool p None (user s\<lparr>mappings := remove1 (pdata P, psize P) (mappings (user s))\<rparr>))"
      by (rule unmap_core [OF inv P(1)]) (use refs0 shm_invD(3,5,7) [OF inv] in \<open>auto dest: shm_invD(3) [OF inv]\<close>)
    have fin: "shm_pool_finish_resize E M p ?s1 = Some s2" using s2(1) none by simp
    have ok1: "server_ok ?s1" using s by simp
    have "server_ok s' \<and> shm_objects s' = shm_objects s \<and> all_shm_ok s' \<and> shm_part (user s') =
        shm_part (set_pool p None (user s\<lparr>mappings := remove1 (pdata P, psize P) (mappings (user s))\<rparr>))"
      using fin P1
    proof (cases rule: finish_resize_cases)
      case 1
      with s2(2) none s show ?thesis by (simp add: shm_ok_iff all_shm_ok_def shm_part_def) (auto simp: shm_part_def all_shm_ok_def)
    next
      case (2 msg)
      from post_error_server [OF ok1 2, of 0] s2(2) none s show ?thesis
        by (auto simp: shm_ok_iff all_shm_ok_def shm_part_def unobserved_def shm_objects_def fun_eq_iff)
    next
      case (3 d)
      with s2(2) none s show ?thesis by (auto simp: shm_ok_iff all_shm_ok_def shm_part_def)
    qed
    with gone shm_inv_part show ?thesis unfolding shm_ok_iff by metis
  qed
qed

lemma upd_shm_same: "same_structs s (upd_shm f s)"
  by (simp add: same_structs_def upd_shm_def)

lemma same_kept:
  assumes "server_ok s" "shm_ok s" "same_structs s s'" "shm_part (user s') = shm_part (user s)" "clients s' = clients s"
  shows "shm_kept ca s s'"
  using server_ok_same [OF assms(1,3)] shm_ok_same [OF assms(2-4)] assms(4,5)
  by (auto simp: shm_kept_def input_kept_def pinned_same shm_part_def)

lemma begin_access_kept:
  assumes s: "server_ok s" "shm_ok s" and run: "wl_shm_buffer_begin_access once mem b s = Some s'"
  shows "shm_kept ca s s'"
proof -
  define s1 where "s1 = (if once then upd_shm init_sigbus_data_key s else s)"
  have s1: "same_structs s s1" "shm_part (user s1) = shm_part (user s)" "clients s1 = clients s"
    by (auto simp: s1_def init_sigbus_data_key_def shm_part_def upd_shm_same)
  obtain x where "s' = s1 \<or> s' = upd_shm (sigbus_data_update (\<lambda>_. x)) s1"
    using run
    by (auto simp: wl_shm_buffer_begin_access_def Let_def bind_eq_Some s1_def [symmetric] split: option.split_asm if_split_asm)
  then have "same_structs s s'" "shm_part (user s') = shm_part (user s)" "clients s' = clients s"
    using s1 by (auto simp: shm_part_def intro: same_structs_trans [OF _ upd_shm_same])
  with same_kept [OF s] show ?thesis by blast
qed

lemma sigbus_kept:
  assumes s: "server_ok s" "shm_ok s" and run: "sigbus_handler anon addr s = Some (oc, s')"
  shows "shm_kept ca s s'"
proof -
  let ?off = "upd_shm (sigbus_installed_update (\<lambda>_. False))"
  have "s' = ?off s \<or> (\<exists>x. s' = upd_shm (sigbus_data_update (\<lambda>_. x)) s \<or> s' = ?off (upd_shm (sigbus_data_update (\<lambda>_. x)) s))"
    using run
    by (auto simp: sigbus_handler_def reraise_sigbus_def bind_eq_Some Let_def split: option.split_asm if_split_asm)
  then have "same_structs s s'" "shm_part (user s') = shm_part (user s)" "clients s' = clients s"
    by (auto simp: shm_part_def intro: same_structs_trans [OF upd_shm_same upd_shm_same] upd_shm_same)
  with same_kept [OF s] show ?thesis by blast
qed

lemma end_access_kept:
  assumes s: "server_ok s" "shm_ok s" and run: "wl_shm_buffer_end_access E b s = Some s'"
  shows "shm_kept ca s s'"
proof -
  obtain sd where sd: "sigbus_data (user s) = Some sd" "\<not> access_count sd < 1"
    using run by (auto simp: wl_shm_buffer_end_access_def split: option.split_asm if_split_asm)
  let ?done = "Some (sd\<lparr>access_count := access_count sd - 1, fallback_mapping_used := False, current_pool := 0\<rparr>)"
  obtain t where t: "t = s \<or> (\<exists>p msg. wl_resource_post_error E p WL_SHM_ERROR_INVALID_FD msg s = Some t)"
    "s' = upd_shm (sigbus_data_update (\<lambda>_. ?done)) t \<or>
     s' = upd_shm (sigbus_data_update (\<lambda>_. Some (sd\<lparr>access_count := access_count sd - 1\<rparr>))) t"
  proof (cases "access_count sd = 1 \<and> fallback_mapping_used sd")
    case True
    with run sd obtain B :: wl_shm_buffer and t where
      t: "wl_resource_post_error E (bresource B) WL_SHM_ERROR_INVALID_FD (ascii ''error accessing SHM buffer'') s = Some t"
        "upd_shm (sigbus_data_update (\<lambda>_. ?done)) t = s'"
      by (auto simp: wl_shm_buffer_end_access_def Let_def bind_eq_Some)
    show thesis by (rule that [of t]) (use t in blast)+
  next
    case False
    have "s' = upd_shm (sigbus_data_update (\<lambda>_. ?done)) s \<or>
        s' = upd_shm (sigbus_data_update (\<lambda>_. Some (sd\<lparr>access_count := access_count sd - 1\<rparr>))) s"
    proof (cases "access_count sd = 1")
      case True
      with False run sd show ?thesis by (simp add: wl_shm_buffer_end_access_def Let_def)
    next
      case False
      with run sd show ?thesis by (simp add: wl_shm_buffer_end_access_def Let_def)
    qed
    with that show thesis by blast
  qed
  have k: "shm_kept ca s t"
  proof (cases "t = s")
    case True
    show ?thesis unfolding True by (rule same_kept [OF s]) simp_all
  next
    case False
    with t(1) obtain p msg where "wl_resource_post_error E p WL_SHM_ERROR_INVALID_FD msg s = Some t" by blast
    from post_error_kept [OF s this] show ?thesis .
  qed
  then have "server_ok t" "shm_ok t" by (simp_all add: shm_kept_def)
  then have "shm_kept ca t s'" using t(2) by (auto intro!: upd_kept simp: shm_part_def)
  with k shm_kept_trans show ?thesis by blast
qed

end
