(* ===== verification/Wl_Safety.thy ===== *)
theory Wl_Safety
  imports Wl_Pools
begin

text \<open>
  What holds of shared memory in every state a server can reach, and what the requests return: the steps
  of a server with pools, the properties of buffers and mappings, and a server on which they can be tried.
\<close>

section \<open>Everything that can happen to a pool\<close>

text \<open>
  The steps of a server with shared memory: those of the library, the requests of clients on resources
  of theirs with new ids that are available, a client that binds \<^verbatim>\<open>wl_shm\<close>, and what the compositor
  does with buffers. A reference is given back only where one has been taken.
\<close>

inductive shm_step :: "'a shm_env \<Rightarrow> 'a shm_sys \<Rightarrow> 'a shm server \<Rightarrow> 'a shm server \<Rightarrow> bool" for E M where
  library: "server_step E s s' \<Longrightarrow> shm_step E M s s'"
| request: "clients s ca = Some c \<Longrightarrow> resources s rp = Some r \<Longrightarrow> rclient r = ca \<Longrightarrow>
     (\<And>i. Arg_n i \<in> set (call_args call) \<Longrightarrow> id_available (objects c) i) \<Longrightarrow>
     shm_request E M k ca rp call s = Some s' \<Longrightarrow> shm_step E M s s'"
| bind: "clients s ca = Some c \<Longrightarrow> id_available (objects c) i \<Longrightarrow> bind_shm E ca data v i s = Some s' \<Longrightarrow> shm_step E M s s'"
| ref: "wl_shm_buffer_ref_pool b s = Some (p, s') \<Longrightarrow> shm_step E M s s'"
| unref: "pools (user s) p = Some P \<Longrightarrow> 0 < external_refcount P \<Longrightarrow> wl_shm_pool_unref E M p s = Some s' \<Longrightarrow> shm_step E M s s'"
| begin_access: "wl_shm_buffer_begin_access once mem b s = Some s' \<Longrightarrow> shm_step E M s s'"
| end_access: "wl_shm_buffer_end_access E b s = Some s' \<Longrightarrow> shm_step E M s s'"
| fault: "sigbus_handler anon addr s = Some (oc, s') \<Longrightarrow> shm_step E M s s'"

lemma shm_step_ok:
  assumes E: "shm_env_ok E M" and s: "server_ok s" "shm_ok s" and step: "shm_step E M s s'"
  shows "server_ok s' \<and> shm_ok s'"
  using step
proof cases
  case library
  have "shm_ok s' \<and> pinned (user s) (user s')"
    by (rule resource_invariant.keep_step [OF shm_resource_invariant [OF E] _ s(1) library]) (simp add: s(2))
  moreover have "server_ok s'" by (rule server_step_ok [OF shm_env_okD(1) [OF E] s(1) library])
  ultimately show ?thesis by blast
next
  case (request ca c rp r call k)
  from shm_request_kept [OF E s request] show ?thesis by (simp add: shm_kept_def)
next
  case (bind ca c i data v)
  from bind_shm_kept [OF E s bind] show ?thesis by (simp add: shm_kept_def)
next
  case (ref b p)
  from ref_pool_kept(1) [OF s ref] show ?thesis by (simp add: shm_kept_def)
next
  case (unref p P)
  from unref_pool_ok [OF E s unref] show ?thesis .
next
  case (begin_access once mem b)
  from begin_access_kept [OF s this] show ?thesis by (simp add: shm_kept_def)
next
  case (end_access b)
  from end_access_kept [OF s this] show ?thesis by (simp add: shm_kept_def)
next
  case (fault anon addr oc)
  from sigbus_kept [OF s this] show ?thesis by (simp add: shm_kept_def)
qed

lemma shm_run_ok:
  assumes E: "shm_env_ok E M" and s: "server_ok s" "shm_ok s" and run: "(shm_step E M)\<^sup>*\<^sup>* s s'"
  shows "server_ok s' \<and> shm_ok s'"
  using run s by induction (use shm_step_ok [OF E] in blast)+

lemma shm_buffer_mapped:
  assumes "shm_ok s" "buffers (user s) b = Some B"
  shows "\<exists>d n. (d, n) \<in> set (mappings (user s)) \<and> wl_shm_buffer_get_data b s = Some (d + of_int (boffset B)) \<and>
    0 \<le> boffset B \<and> 0 < bwidth B \<and> bwidth B \<le> bstride B \<and> 0 < bheight B \<and>
    boffset B + bstride B * bheight B \<le> n \<and> n \<le> INT32_MAX"
proof -
  have inv: "shm_inv (shm_objects s) (user s)" using assms(1) by (simp add: shm_ok_def)
  obtain P where P: "pools (user s) (bpool B) = Some P" "buffer_in B P" using shm_invD(4) [OF inv assms(2)] by blast
  from shm_invD(2) [OF inv P(1)] P assms(2) show ?thesis
    by (intro exI [of _ "pdata P"] exI [of _ "psize P"]) (auto simp: pool_ok_def buffer_in_def wl_shm_buffer_get_data_def)
qed

text \<open>
  C5: Whatever clients and the compositor do, the memory of a buffer stays within the mapping of its pool: every
  buffer has a live pool, the pool is mapped, and the rows of the buffer, from its offset on,
  end before the end of the mapping. The buffer's address is that of the mapping and the offset.
\<close>

theorem buffers_stay_mapped:
  assumes "shm_env_ok E M" "server_ok s" "shm_ok s" "(shm_step E M)\<^sup>*\<^sup>* s s'" "buffers (user s') b = Some B"
  shows "\<exists>d n. (d, n) \<in> set (mappings (user s')) \<and> wl_shm_buffer_get_data b s' = Some (d + of_int (boffset B)) \<and>
    0 \<le> boffset B \<and> 0 < bwidth B \<and> bwidth B \<le> bstride B \<and> 0 < bheight B \<and>
    boffset B + bstride B * bheight B \<le> n \<and> n \<le> INT32_MAX"
  by (rule shm_buffer_mapped [OF conjunct2 [OF shm_run_ok [OF assms(1-4)]] assms(5)])

text \<open>
  C10: No mapping is forgotten and none is used after its end: in every state that can be reached, the mappings of the
  process are exactly those of the live pools, each once, and a live pool is referred to by a resource
  of its own, by a buffer that has a resource, or by the compositor.
\<close>

theorem pools_released:
  assumes "shm_env_ok E M" "server_ok s" "shm_ok s" "(shm_step E M)\<^sup>*\<^sup>* s s'"
  shows "distinct (mappings (user s')) \<and>
    set (mappings (user s')) = {(pdata P, psize P) | p P. pools (user s') p = Some P} \<and>
    (\<forall>p P. pools (user s') p = Some P \<longrightarrow> 0 < external_refcount P \<or> (\<exists>q r. resources s' q = Some r \<and>
      (shm_handle r = Some (Pool_of p) \<or> (\<exists>b B. shm_handle r = Some (Buffer_of b) \<and> buffers (user s') b = Some B \<and> bpool B = p))))"
proof (intro conjI allI impI)
  have inv: "shm_inv (shm_objects s') (user s')" using shm_run_ok [OF assms] by (simp add: shm_ok_def)
  note D = shm_invD [OF inv]
  show "distinct (mappings (user s'))" using D(8) by (simp add: distinct_map)
  show "set (mappings (user s')) = {(pdata P, psize P) | p P. pools (user s') p = Some P}"
    using D(2,9) by (fastforce simp: pool_ok_def)
  fix p P assume P: "pools (user s') p = Some P"
  have found: "\<exists>q r. resources s' q = Some r \<and> shm_handle r = Some x" if "x \<in> ran (shm_objects s')" for x
    using that by (auto simp: ran_def shm_objects_def bind_eq_Some)
  show "0 < external_refcount P \<or> (\<exists>q r. resources s' q = Some r \<and>
      (shm_handle r = Some (Pool_of p) \<or> (\<exists>b B. shm_handle r = Some (Buffer_of b) \<and> buffers (user s') b = Some B \<and> bpool B = p)))"
  proof (cases "0 < external_refcount P")
    case False
    then have "0 < pool_refs (shm_objects s') (user s') p" using D(2) [OF P] by (simp add: pool_ok_def)
    then consider "Pool_of p \<in> ran (shm_objects s')" | b where "b \<in> pool_buffers (user s') p"
      by (auto simp: pool_refs_def card_gt_0_iff split: if_splits)
    then show ?thesis
    proof cases
      case 1
      with found show ?thesis by blast
    next
      case 2
      then obtain B where B: "buffers (user s') b = Some B" "bpool B = p" by (auto simp: pool_buffers_def)
      with found [of "Buffer_of b"] D(3) [OF B(1)] show ?thesis by blast
    qed
  qed simp
qed

section \<open>References of the compositor hold a pool in place\<close>

lemma unref_other:
  assumes run: "wl_shm_pool_unref E M p s = Some s'" and q: "q \<noteq> p"
  shows "pools (user s') q = pools (user s) q"
proof -
  obtain P where P: "pools (user s) p = Some P" using run by (auto simp: wl_shm_pool_unref_def shm_pool_unref_def bind_eq_Some)
  let ?P = "P\<lparr>external_refcount := external_refcount P - 1\<rparr>"
  let ?s1 = "upd_shm (set_pool p (Some ?P)) s"
  have P1: "pools (user ?s1) p = Some ?P" by simp
  obtain s2 where s2: "if external_refcount P = 1 then shm_pool_finish_resize E M p ?s1 = Some s2 else s2 = ?s1"
    "Option.bind (pools (user s2) p) (\<lambda>Q. if internal_refcount Q + external_refcount Q \<noteq> 0 then Some s2
       else Some (upd_shm (\<lambda>u. set_pool p None (u\<lparr>mappings := remove1 (pdata Q, psize Q) (mappings u)\<rparr>)) s2)) = Some s'"
    using run P by (auto simp: wl_shm_pool_unref_def shm_pool_unref_def bind_eq_Some Let_def split: if_split_asm)
  have "pools (user s2) q = pools (user ?s1) q"
  proof (cases "external_refcount P = 1")
    case True
    then have fin: "shm_pool_finish_resize E M p ?s1 = Some s2" using s2(1) by simp
    from fin P1 show ?thesis
    proof (cases rule: finish_resize_cases)
      case (2 msg)
      from post_error_quiet [OF 2] show ?thesis by (simp add: unobserved_def)
    qed (use q in simp_all)
  qed (use s2(1) in simp)
  moreover have "pools (user s') q = pools (user s2) q" using s2(2) q by (auto simp: bind_eq_Some split: if_split_asm)
  ultimately show ?thesis using q by simp
qed

lemma unref_keeps:
  assumes run: "wl_shm_pool_unref E M p s = Some s'" and P: "pools (user s) p = Some P" "1 < external_refcount P" "0 \<le> internal_refcount P"
  shows "pools (user s') p = Some (P\<lparr>external_refcount := external_refcount P - 1\<rparr>)"
  using run P by (auto simp: wl_shm_pool_unref_def shm_pool_unref_def Let_def split: if_split_asm)

lemma shm_step_pinned:
  assumes E: "shm_env_ok E M" and s: "server_ok s" "shm_ok s" and step: "shm_step E M s s'"
  shows "pinned (user s) (user s') \<or> (\<exists>p. wl_shm_pool_unref E M p s = Some s')"
  using step
proof cases
  case library
  have "shm_ok s' \<and> pinned (user s) (user s')"
    by (rule resource_invariant.keep_step [OF shm_resource_invariant [OF E] _ s(1) library]) (simp add: s(2))
  then show ?thesis by blast
next
  case (request ca c rp r call k)
  from shm_request_kept [OF E s request] show ?thesis by (simp add: shm_kept_def)
next
  case (bind ca c i data v)
  from bind_shm_kept [OF E s bind] show ?thesis by (simp add: shm_kept_def)
next
  case (ref b p)
  from ref_pool_kept(1) [OF s ref] show ?thesis by (simp add: shm_kept_def)
next
  case (begin_access once mem b)
  from begin_access_kept [OF s this] show ?thesis by (simp add: shm_kept_def)
next
  case (end_access b)
  from end_access_kept [OF s this] show ?thesis by (simp add: shm_kept_def)
next
  case (fault anon addr oc)
  from sigbus_kept [OF s this] show ?thesis by (simp add: shm_kept_def)
qed blast

text \<open>
  C18: As long as the compositor holds a reference, a pool keeps its place and its size, whatever clients do,
  even when they shrink from it, resize it, destroy it or leave: a step ends that only by giving the
  compositor's last reference back, and takes at most one reference.
\<close>

theorem references_pin_pool:
  assumes "shm_env_ok E M" "server_ok s" "shm_ok s" "shm_step E M s s'" "pools (user s) p = Some P" "0 < external_refcount P"
  shows "(wl_shm_pool_unref E M p s = Some s' \<and> external_refcount P = 1) \<or>
    (\<exists>P'. pools (user s') p = Some P' \<and> pdata P' = pdata P \<and> psize P' = psize P \<and> external_refcount P - 1 \<le> external_refcount P')"
proof -
  have inv: "0 \<le> internal_refcount P"
    using assms(3,5) refs_nonneg [of "shm_objects s" "user s" p] by (auto simp: shm_ok_def pool_ok_def dest: shm_invD(2))
  from shm_step_pinned [OF assms(1-4)] show ?thesis
  proof (elim disjE exE)
    assume "pinned (user s) (user s')"
    with assms(5,6) show ?thesis by (fastforce simp: pinned_def)
  next
    fix q assume run: "wl_shm_pool_unref E M q s = Some s'"
    show ?thesis
    proof (cases "q = p")
      case False
      with unref_other [OF run] assms(5) show ?thesis by simp
    next
      case True
      with unref_keeps [OF run, of P] run assms(5,6) inv show ?thesis by (cases "external_refcount P = 1") simp_all
    qed
  qed
qed

text \<open>
  A resize that was delayed is finished by the last reference of the compositor. When \<^verbatim>\<open>mremap\<close> fails then, the error
  goes to the resource of the pool, even if the client has destroyed it in the meantime: freed memory is used.
\<close>

lemma failed_resize_lost_resource:
  assumes "pools (user s) p = Some P" "external_refcount P = 1" "psize P \<noteq> new_size P" "resources s (presource P) = None"
    and "\<And>t. mremap_call M (pdata P) (psize P) (new_size P) t = None"
  shows "wl_shm_pool_unref E M p s = None"
  using assms
  by (simp add: wl_shm_pool_unref_def shm_pool_unref_def Let_def shm_pool_finish_resize_def wl_resource_post_error_def)

section \<open>What the requests return\<close>

text \<open>Memory suffices for the next \<open>n\<close> allocations, where pools and buffers take addresses as well.\<close>

definition in_use :: "'a shm server \<Rightarrow> u64 \<Rightarrow> bool" where
  "in_use s p \<longleftrightarrow> live s p \<or> pools (user s) p \<noteq> None \<or> buffers (user s) p \<noteq> None"

definition shm_memory :: "'a shm_env \<Rightarrow> nat \<Rightarrow> 'a shm server \<Rightarrow> bool" where
  "shm_memory E n s \<longleftrightarrow> (\<forall>t. ticks s \<le> ticks t \<longrightarrow> ticks t < ticks s + n \<longrightarrow>
     (\<forall>p. in_use t p \<longrightarrow> in_use s p \<or> (\<exists>u. ticks s \<le> ticks u \<and> ticks u < ticks t \<and> p = malloc E u)) \<longrightarrow> malloc E t \<noteq> 0)"

lemma shm_memoryD:
  assumes "shm_memory E n s" "ticks s \<le> ticks t" "ticks t < ticks s + n"
    and "\<And>p. in_use t p \<Longrightarrow> in_use s p \<or> (\<exists>u. ticks s \<le> ticks u \<and> ticks u < ticks t \<and> p = malloc E u)"
  shows "malloc E t \<noteq> 0"
  using assms unfolding shm_memory_def by blast

lemma shm_memory_later:
  fixes E :: "'a shm_env"
  assumes m: "shm_memory E (k + n) s" and t: "ticks s \<le> ticks t" "ticks t \<le> ticks s + k"
    and u: "\<And>p. in_use t p \<Longrightarrow> in_use s p \<or> (\<exists>u. ticks s \<le> ticks u \<and> ticks u < ticks t \<and> p = malloc E u)"
  shows "shm_memory E n t"
  unfolding shm_memory_def
proof (intro allI impI)
  fix v :: "'a shm server" assume v: "ticks t \<le> ticks v" "ticks v < ticks t + n"
    "\<forall>p. in_use v p \<longrightarrow> in_use t p \<or> (\<exists>u. ticks t \<le> ticks u \<and> ticks u < ticks v \<and> p = malloc E u)"
  show "malloc E v \<noteq> 0"
  proof (rule shm_memoryD [OF m])
    fix p assume "in_use v p"
    with v(3) consider "in_use t p" | w where "ticks t \<le> ticks w" "ticks w < ticks v" "p = malloc E w" by blast
    then show "in_use s p \<or> (\<exists>u. ticks s \<le> ticks u \<and> ticks u < ticks v \<and> p = malloc E u)"
    proof cases
      case 1
      from u [OF this] show ?thesis
      proof (elim disjE exE conjE)
        fix x :: "'a shm server" assume "ticks s \<le> ticks x" "ticks x < ticks t" "p = malloc E x"
        with v(1) show ?thesis by (intro disjI2 exI [of _ x]) simp
      qed simp
    next
      case 2
      with t(1) show ?thesis by (blast intro: order_trans)
    qed
  qed (use t v in auto)
qed

text \<open>A resource of a client with the handlers and the data it is given.\<close>

definition implemented :: "u64 \<Rightarrow> interface_spec \<Rightarrow> u32 \<Rightarrow> wl_implementation \<Rightarrow> u64 \<Rightarrow> wl_destructor \<Rightarrow> wl_resource" where
  "implemented ca f i impl data d =
     (new_resource ca f 1 i)\<lparr>rimplementation := impl, rdata := data, rdestroy := d, rdispatcher := None\<rparr>"

definition next_id :: "wl_client \<Rightarrow> u32 \<Rightarrow> bool" where
  "next_id c i \<longleftrightarrow> id_available (objects c) i \<and> unat i \<le> cell_count (client_entries (objects c)) \<and>
     resource_created_signal c = wl_priv_signal_init"

lemma create_run:
  assumes E: "env_ok E" and s: "server_ok s" "clients s ca = Some c" "next_id c i" and f: "interface_ok f" and q: "malloc E s \<noteq> 0"
  obtains m where "wl_resource_create E ca f 1 i s = Some (malloc E s, s\<lparr>ticks := ticks s + 1,
      resources := (resources s)(malloc E s \<mapsto> new_resource ca f 1 i), clients := (clients s)(ca \<mapsto> c\<lparr>objects := m\<rparr>)\<rparr>)"
    "wl_map_lookup m = (wl_map_lookup (objects c))(i := Some (malloc E s))" "side m = WL_MAP_SERVER_SIDE"
    "cell_count (client_entries m) = max (cell_count (client_entries (objects c))) (Suc (unat i))"
proof -
  have i: "id_available (objects c) i" "unat i \<le> cell_count (client_entries (objects c))"
    "resource_created_signal c = wl_priv_signal_init" using s(3) by (simp_all add: next_id_def)
  obtain m where m: "wl_resource_create E ca f 1 i s = Some (malloc E s, s\<lparr>ticks := ticks s + 1,
      resources := (resources s)(malloc E s \<mapsto> new_resource ca f 1 i), clients := (clients s)(ca \<mapsto> c\<lparr>objects := m\<rparr>)\<rparr>)"
    "wl_map_insert_at (blocks E) (objects c) 0 i (malloc E s) = Some (m, 0)"
    by (rule resource_create_run [OF E s(1,2) i(1,2) q i(3)]) (rule that)
  have look: "wl_map_lookup m = (wl_map_lookup (objects c))(i := Some (malloc E s))"
    using resource_create_ok(2) [OF E s(1,2) i(1) f m(1)] q by (auto simp: same_except_def fun_eq_iff)
  obtain xs where xs: "map_ok (objects c) xs" "side (objects c) = WL_MAP_SERVER_SIDE"
    using server_okD(1) [OF s(1,2)] by (auto simp: client_ok_def)
  have "slot i = (True, unat i)" "\<not> own_side (objects c)" "malloc E s AND 3 = 0"
    "unat i < cell_count (entries_of True (objects c)) \<or> peer_room (objects c) 1"
    using server_side_map [OF xs(2)] E q i(1) by (auto simp: id_available_def client_id_slot env_ok_def entries_of_def)
  with wl_map_insert_at_ok [of "blocks E" "objects c" xs "malloc E s" i True "unat i" 0] E xs i(2) m(2)
  have "side m = WL_MAP_SERVER_SIDE" "cell_count (client_entries m) = max (cell_count (client_entries (objects c))) (Suc (unat i))"
    by (auto simp: env_ok_def entries_of_def)
  with that [OF m(1) look] show thesis by blast
qed

lemma implement_run:
  "resources s q = Some (new_resource ca f 1 i) \<Longrightarrow> wl_resource_set_implementation q impl data d s =
     Some (s\<lparr>resources := (resources s)(q \<mapsto> implemented ca f i impl data d)\<rparr>)"
  by (simp add: wl_resource_set_implementation_def upd_resource_def implemented_def)

text \<open>A buffer that is granted, step by step.\<close>

definition buffer_granted :: "u64 \<Rightarrow> u64 \<Rightarrow> u64 \<Rightarrow> wl_client \<Rightarrow> wl_map \<Rightarrow> u32 \<Rightarrow> wl_shm_pool \<Rightarrow> wl_shm_buffer \<Rightarrow> 'a shm server \<Rightarrow> 'a shm server" where
  "buffer_granted ca b q c m i P B s = s\<lparr>ticks := ticks s + 2,
     resources := (resources s)(q \<mapsto> implemented ca wl_buffer_interface i shm_buffer_interface b buffer_destroyer),
     clients := (clients s)(ca \<mapsto> c\<lparr>objects := m\<rparr>),
     user := set_pool (bpool B) (Some (P\<lparr>internal_refcount := internal_refcount P + 1\<rparr>)) (set_buffer b (Some B) (user s))\<rparr>"

lemma create_buffer_run:
  assumes E: "shm_env_ok E M" and s: "server_ok s" "shm_memory E 2 s" "clients s ca = Some c" "next_id c i"
    and r: "resources s rp = Some r" "shm_handle r = Some (Pool_of p)" "pools (user s) p = Some P"
    and format: "format_is_supported format s" and fits: "buffer_fits (psize P) offset w h st = Some True"
  obtains m b q where "shm_pool_create_buffer E M ca rp i offset w h st format s = Some (buffer_granted ca b q c m i P
      \<lparr>bresource = q, bwidth = w, bheight = h, bstride = st, bformat = format, boffset = offset, bpool = p\<rparr> s)"
    "wl_map_lookup m = (wl_map_lookup (objects c))(i := Some q)" "buffers (user s) b = None" "q \<noteq> 0"
    "cell_count (client_entries m) = max (cell_count (client_entries (objects c))) (Suc (unat i))"
proof -
  note env = shm_env_okD(1) [OF E]
  have rd: "rdata r = p" using r(2) by (simp add: shm_handle_def split: if_split_asm)
  let ?b = "malloc E s"
  let ?P = "P\<lparr>internal_refcount := internal_refcount P + 1\<rparr>"
  let ?B = "\<lambda>q. \<lparr>bresource = q, bwidth = w, bheight = h, bstride = st, bformat = format, boffset = offset, bpool = p\<rparr>"
  define s1 where "s1 = upd_shm (\<lambda>u. set_pool p (Some ?P) (set_buffer ?b (Some (?B 0)) u)) (s\<lparr>ticks := ticks s + 1\<rparr>)"
  let ?q = "malloc E s1"
  have b: "?b \<noteq> 0" by (rule shm_memoryD [OF s(2)]) auto
  have q: "?q \<noteq> 0"
    by (rule shm_memoryD [OF s(2)]) (auto simp: s1_def upd_shm_def in_use_def live_def r(3) split: if_split_asm)
  have s1: "server_ok s1" "clients s1 ca = Some c"
    using server_ok_same [OF s(1), of "s\<lparr>ticks := ticks s + 1\<rparr>"] s(3) by (simp_all add: s1_def same_structs_def)
  obtain m where m: "wl_resource_create E ca wl_buffer_interface 1 i s1 = Some (?q, s1\<lparr>ticks := ticks s1 + 1,
      resources := (resources s1)(?q \<mapsto> new_resource ca wl_buffer_interface 1 i), clients := (clients s1)(ca \<mapsto> c\<lparr>objects := m\<rparr>)\<rparr>)"
    "wl_map_lookup m = (wl_map_lookup (objects c))(i := Some ?q)"
    "cell_count (client_entries m) = max (cell_count (client_entries (objects c))) (Suc (unat i))"
    by (rule create_run [OF env s1 s(4) shm_interfaces_ok(3) q]) (rule that)
  have "shm_pool_create_buffer E M ca rp i offset w h st format s =
      Option.bind (wl_resource_create E ca wl_buffer_interface 1 i s1) (\<lambda>(q, s).
        let s = upd_shm (set_buffer ?b (Some ((?B 0)\<lparr>bresource := q\<rparr>))) s in
        if q = 0 then Option.bind (wl_client_post_no_memory E ca s) (\<lambda>s. Option.bind (shm_pool_unref E M p False s)
          (\<lambda>s. Some (upd_shm (set_buffer ?b None) s)))
        else wl_resource_set_implementation q shm_buffer_interface ?b buffer_destroyer s)"
    using r(1,3) format fits rd b by (simp add: shm_pool_create_buffer_def Let_def do_malloc_def s1_def cong: if_cong)
  also have "\<dots> = Some (buffer_granted ca ?b ?q c m i P (?B ?q) s)"
    using q by (simp add: m(1) implement_run [of _ ?q ca wl_buffer_interface i])
      (simp add: buffer_granted_def s1_def upd_shm_def set_pool_def set_buffer_def)
  finally have "shm_pool_create_buffer E M ca rp i offset w h st format s = Some (buffer_granted ca ?b ?q c m i P (?B ?q) s)" .
  from that [OF this m(2) _ q m(3)] shm_env_okD(6) [OF E b] show thesis by simp
qed

text \<open>
  C19: A request for a buffer is granted exactly when the rectangle lies within the pool, from its offset to the end of
  its last row, with no product or sum beyond 32 bits; then the buffer has the fields of the
  request, its own resource under the new id, and its address is that of the pool and the offset.
  Anything else is an error of the client, and nothing is created.
\<close>

theorem create_buffer_exact:
  assumes "shm_env_ok E M" "server_ok s" "shm_ok s" "shm_memory E 2 s" "clients s ca = Some c" "next_id c i"
    "resources s rp = Some r" "shm_handle r = Some (Pool_of p)" "pools (user s) p = Some P"
    "format_is_supported format s" "offset \<le> INT32_MAX"
  shows "if 0 \<le> offset \<and> 0 < w \<and> w \<le> st \<and> 0 < h \<and> h < INT32_MAX div st \<and> offset + st * h \<le> psize P
    then \<exists>s' b q c'. shm_pool_create_buffer E M ca rp i offset w h st format s = Some s' \<and> buffers (user s) b = None \<and>
      buffers (user s') = (buffers (user s))(b \<mapsto> \<lparr>bresource = q, bwidth = w, bheight = h, bstride = st, bformat = format,
        boffset = offset, bpool = p\<rparr>) \<and>
      wl_shm_buffer_get q s' = Some b \<and> clients s' ca = Some c' \<and> wl_map_lookup (objects c') i = Some q \<and>
      wl_shm_buffer_get_data b s' = Some (pdata P + of_int offset)
    else shm_pool_create_buffer E M ca rp i offset w h st format s =
      wl_resource_post_error E rp WL_SHM_ERROR_INVALID_STRIDE (ascii (''invalid width, height or stride ('' @ show_int w @ ''x'' @
        show_int h @ '', '' @ dec (unat (of_int st :: u32)) @ '')'')) s"
proof -
  have rd: "rdata r = p" using assms(8) by (simp add: shm_handle_def split: if_split_asm)
  have ok: "pool_ok (shm_objects s) (user s) p P" using assms(3,9) by (auto simp: shm_ok_def dest: shm_invD(2))
  let ?fits = "0 \<le> offset \<and> 0 < w \<and> w \<le> st \<and> 0 < h \<and> h < INT32_MAX div st \<and> offset + st * h \<le> psize P"
  have fits: "buffer_fits (psize P) offset w h st = Some ?fits"
    by (rule buffer_fits_exact) (use ok assms(11) in \<open>auto simp: pool_ok_def\<close>)
  show ?thesis
  proof (cases ?fits)
    case False
    with fits have no: "buffer_fits (psize P) offset w h st = Some False" by metis
    show ?thesis
      by (subst if_not_P [OF False]) (use assms(7,9,10) rd no in \<open>simp add: shm_pool_create_buffer_def Let_def\<close>)
  next
    case True
    have yes: "buffer_fits (psize P) offset w h st = Some True" using fits True by simp
    obtain m b q where m: "shm_pool_create_buffer E M ca rp i offset w h st format s = Some (buffer_granted ca b q c m i P
        \<lparr>bresource = q, bwidth = w, bheight = h, bstride = st, bformat = format, boffset = offset, bpool = p\<rparr> s)"
      "wl_map_lookup m = (wl_map_lookup (objects c))(i := Some q)" "buffers (user s) b = None" "q \<noteq> 0"
      by (rule create_buffer_run [OF assms(1,2,4-10) yes]) (rule that)
    have p: "p \<noteq> 0" using ok by (simp add: pool_ok_def)
    define s' where "s' = buffer_granted ca b q c m i P
        \<lparr>bresource = q, bwidth = w, bheight = h, bstride = st, bformat = format, boffset = offset, bpool = p\<rparr> s"
    have "wl_shm_buffer_get q s' = Some b"
      using m(4) by (simp add: s'_def buffer_granted_def wl_shm_buffer_get_def wl_resource_instance_of_def implemented_def new_resource_def
          wl_interface_equal_def)
    moreover have "wl_shm_buffer_get_data b s' = Some (pdata P + of_int offset)"
      using p by (simp add: s'_def buffer_granted_def wl_shm_buffer_get_data_def)
    ultimately show ?thesis
      by (subst if_P [OF True], intro exI [of _ s'] exI [of _ b] exI [of _ q] exI [of _ "c\<lparr>objects := m\<rparr>"])
        (simp add: m s'_def buffer_granted_def)
  qed
qed

text \<open>A pool that is granted, step by step.\<close>

definition pool_granted :: "u64 \<Rightarrow> u64 \<Rightarrow> wl_client \<Rightarrow> wl_map \<Rightarrow> u64 \<Rightarrow> u32 \<Rightarrow> int \<Rightarrow> int \<Rightarrow> u64 \<Rightarrow> 'a shm server \<Rightarrow> 'a shm server" where
  "pool_granted ca p c m q i fd sz d s = s\<lparr>ticks := ticks s + 2,
     resources := (resources s)(q \<mapsto> implemented ca wl_shm_pool_interface i shm_pool_interface p pool_destroyer),
     clients := (clients s)(ca \<mapsto> c\<lparr>objects := m\<rparr>),
     user := set_pool p (Some \<lparr>presource = q, internal_refcount = 1, external_refcount = 0, pdata = d, psize = sz, new_size = sz\<rparr>)
       ((user s)\<lparr>mappings := (d, sz) # mappings (user s), shm_closed := shm_closed (user s) @ [fd]\<rparr>)\<rparr>"

lemma create_pool_run:
  assumes E: "shm_env_ok E M" and s: "server_ok s" "shm_memory E 2 s" "clients s ca = Some c" "next_id c i"
    and sz: "0 < sz" "mmap_call M sz fd (s\<lparr>ticks := ticks s + 1\<rparr>) = Inr d"
  obtains m p q where "shm_create_pool E M ca rp i fd sz s = Some (pool_granted ca p c m q i fd sz d s)"
    "wl_map_lookup m = (wl_map_lookup (objects c))(i := Some q)" "side m = WL_MAP_SERVER_SIDE"
    "cell_count (client_entries m) = max (cell_count (client_entries (objects c))) (Suc (unat i))"
    "p = malloc E s" "pools (user s) p = None" "q \<noteq> 0" "\<exists>v. ticks v = ticks s + 1 \<and> q = malloc E v"
proof -
  note env = shm_env_okD(1) [OF E]
  let ?p = "malloc E s"
  let ?P = "\<lambda>q. \<lparr>presource = q, internal_refcount = 1, external_refcount = 0, pdata = d, psize = sz, new_size = sz\<rparr>"
  define s1 where "s1 = close_fd fd (upd_shm (\<lambda>u. set_pool ?p (Some (?P 0)) (u\<lparr>mappings := (d, sz) # mappings u\<rparr>)) (s\<lparr>ticks := ticks s + 1\<rparr>))"
  let ?q = "malloc E s1"
  have p: "?p \<noteq> 0" by (rule shm_memoryD [OF s(2)]) auto
  have q: "?q \<noteq> 0"
    by (rule shm_memoryD [OF s(2)]) (auto simp: s1_def close_fd_def upd_shm_def in_use_def live_def split: if_split_asm)
  have s1: "server_ok s1" "clients s1 ca = Some c" "ticks s1 = ticks s + 1"
    using server_ok_same [OF s(1), of "s\<lparr>ticks := ticks s + 1\<rparr>"] s(3)
    by (simp_all add: s1_def close_fd_def same_structs_def) (simp add: upd_shm_def)
  obtain m where m: "wl_resource_create E ca wl_shm_pool_interface 1 i s1 = Some (?q, s1\<lparr>ticks := ticks s1 + 1,
      resources := (resources s1)(?q \<mapsto> new_resource ca wl_shm_pool_interface 1 i), clients := (clients s1)(ca \<mapsto> c\<lparr>objects := m\<rparr>)\<rparr>)"
    "wl_map_lookup m = (wl_map_lookup (objects c))(i := Some ?q)" "side m = WL_MAP_SERVER_SIDE"
    "cell_count (client_entries m) = max (cell_count (client_entries (objects c))) (Suc (unat i))"
    by (rule create_run [OF env s1(1,2) s(4) shm_interfaces_ok(2) q]) (rule that)
  have "shm_create_pool E M ca rp i fd sz s =
      Option.bind (wl_resource_create E ca wl_shm_pool_interface 1 i s1) (\<lambda>(q, s).
        let s = upd_shm (set_pool ?p (Some ((?P 0)\<lparr>presource := q\<rparr>))) s in
        if q = 0 then Option.bind (wl_client_post_no_memory E ca s)
          (\<lambda>s. Some (upd_shm (\<lambda>u. set_pool ?p None (u\<lparr>mappings := remove1 (d, sz) (mappings u)\<rparr>)) s))
        else wl_resource_set_implementation q shm_pool_interface ?p pool_destroyer s)"
    using sz p by (simp add: shm_create_pool_def Let_def do_malloc_def s1_def cong: if_cong)
  also have "\<dots> = Some (pool_granted ca ?p c m ?q i fd sz d s)"
    using q by (simp add: m(1) implement_run [of _ ?q ca wl_shm_pool_interface i])
      (simp add: pool_granted_def s1_def upd_shm_def close_fd_def set_pool_def)
  finally have "shm_create_pool E M ca rp i fd sz s = Some (pool_granted ca ?p c m ?q i fd sz d s)" .
  from that [OF this m(2-4) refl _ q] shm_env_okD(6) [OF E p] s1(3) show thesis by auto
qed

text \<open>
  A client that hands over a file gets a pool: the descriptor is closed as soon as the file is mapped, the
  mapping is that of the size asked for, and the pool, with its first reference, belongs to the resource
  under the new id.
\<close>

theorem pool_created:
  assumes "shm_env_ok E M" "server_ok s" "shm_memory E 2 s" "clients s ca = Some c" "next_id c i"
    "0 < sz" "mmap_call M sz fd (s\<lparr>ticks := ticks s + 1\<rparr>) = Inr d"
  shows "\<exists>s' p q c' r. shm_create_pool E M ca rp i fd sz s = Some s' \<and> pools (user s) p = None \<and>
    pools (user s') = (pools (user s))(p \<mapsto> \<lparr>presource = q, internal_refcount = 1, external_refcount = 0, pdata = d, psize = sz,
      new_size = sz\<rparr>) \<and>
    mappings (user s') = (d, sz) # mappings (user s) \<and> shm_closed (user s') = shm_closed (user s) @ [fd] \<and>
    clients s' ca = Some c' \<and> wl_map_lookup (objects c') i = Some q \<and> resources s' q = Some r \<and> shm_handle r = Some (Pool_of p)"
proof -
  obtain m p q where m: "shm_create_pool E M ca rp i fd sz s = Some (pool_granted ca p c m q i fd sz d s)"
    "wl_map_lookup m = (wl_map_lookup (objects c))(i := Some q)" "pools (user s) p = None"
    by (rule create_pool_run [OF assms]) (rule that)
  let ?r = "implemented ca wl_shm_pool_interface i shm_pool_interface p pool_destroyer"
  show ?thesis
    by (intro exI [of _ "pool_granted ca p c m q i fd sz d s"] exI [of _ p] exI [of _ q] exI [of _ "c\<lparr>objects := m\<rparr>"] exI [of _ ?r])
      (simp add: m pool_granted_def set_pool_def implemented_def shm_handle_def)
qed

lemma closed_invariant:
  assumes "shm_env_ok E M" "\<And>l d t t'. notify E l d t = Some t' \<Longrightarrow> shm_closed (user t') = shm_closed (user t)"
  shows "listener_invariant E (\<lambda>s. shm_closed (user s) = X)"
  by unfold_locales (use assms in \<open>auto simp: free_resource_def dest: shm_env_okD(1)\<close>)

text \<open>
  C23: Whatever comes of the request, the descriptor that came with it is closed exactly once: with a size that is
  refused, without memory, when the file cannot be mapped, and when the pool is made.
\<close>

theorem descriptor_closed:
  assumes "shm_env_ok E M" "clients s ca = Some c" "i \<noteq> 0" "shm_create_pool E M ca rp i fd sz s = Some s'"
    and "\<And>l d t t'. notify E l d t = Some t' \<Longrightarrow> shm_closed (user t') = shm_closed (user t)"
  shows "shm_closed (user s') = shm_closed (user s) @ [fd]"
proof -
  have closes: "shm_closed (user (close_fd fd t)) = shm_closed (user t) @ [fd]" for t :: "'a shm server" by (simp add: close_fd_def)
  have quiet: "wl_resource_post_error E p code msg t = Some t' \<Longrightarrow> shm_closed (user t') = shm_closed (user t)"
    "wl_client_post_no_memory E x t = Some t' \<Longrightarrow> shm_closed (user t') = shm_closed (user t)" for p code msg t t' x
    by (auto dest: post_error_quiet no_memory_quiet simp: unobserved_def)
  define s0 where "s0 = s\<lparr>ticks := ticks s + 1\<rparr>"
  have s0: "user s0 = user s" by (simp add: s0_def)
  let ?p = "malloc E s"
  define P where "P d = \<lparr>presource = 0, internal_refcount = 1, external_refcount = 0, pdata = d, psize = sz, new_size = sz\<rparr>" for d
  define s1 where "s1 d = close_fd fd (upd_shm (\<lambda>u. set_pool ?p (Some (P d)) (u\<lparr>mappings := (d, sz) # mappings u\<rparr>)) s0)" for d
  consider code msg t where "wl_resource_post_error E rp code msg s = Some t" "s' = close_fd fd t"
    | t where "wl_client_post_no_memory E ca s0 = Some t" "s' = close_fd fd t"
    | code msg t where "wl_resource_post_error E rp code msg s0 = Some t" "s' = close_fd fd t"
    | d where "Option.bind (wl_resource_create E ca wl_shm_pool_interface 1 i (s1 d)) (\<lambda>(q, s).
        let s = upd_shm (set_pool ?p (Some ((P d)\<lparr>presource := q\<rparr>))) s in
        if q = 0 then Option.bind (wl_client_post_no_memory E ca s) (\<lambda>s. Some (upd_shm (\<lambda>u. set_pool ?p None
          (u\<lparr>mappings := remove1 (d, sz) (mappings u)\<rparr>)) s))
        else wl_resource_set_implementation q shm_pool_interface ?p pool_destroyer s) = Some s'"
    using assms(4)
    by (cases "sz \<le> 0"; cases "?p = 0"; cases "mmap_call M sz fd s0")
      (auto simp: shm_create_pool_def do_malloc_def Let_def bind_eq_Some s0_def s1_def P_def cong: if_cong)
  then show ?thesis
  proof cases
    case (4 d)
    obtain q s2 where q: "wl_resource_create E ca wl_shm_pool_interface 1 i (s1 d) = Some (q, s2)"
      using 4 by (auto simp: bind_eq_Some)
    have "shm_closed (user s2) = shm_closed (user (s1 d))"
      by (rule listener_invariant.keep_create [OF closed_invariant [OF assms(1,5)] refl assms(3) q])
    then have s2: "shm_closed (user s2) = shm_closed (user s) @ [fd]" by (simp add: s1_def closes s0 set_pool_def)
    let ?g = "set_pool ?p (Some ((P d)\<lparr>presource := q\<rparr>))"
    show ?thesis
    proof (cases "q = 0")
      case True
      then obtain s3 where "wl_client_post_no_memory E ca (upd_shm ?g s2) = Some s3"
        "s' = upd_shm (\<lambda>u. set_pool ?p None (u\<lparr>mappings := remove1 (d, sz) (mappings u)\<rparr>)) s3"
        using 4 q by (auto simp: bind_eq_Some)
      with quiet(2) s2 show ?thesis by (simp add: set_pool_def)
    next
      case False
      then have "wl_resource_set_implementation q shm_pool_interface ?p pool_destroyer (upd_shm ?g s2) = Some s'" using 4 q by simp
      then have "user s' = user (upd_shm ?g s2)" by (auto simp: wl_resource_set_implementation_def upd_resource_def)
      with s2 show ?thesis by (simp add: set_pool_def)
    qed
  qed (use closes quiet s0 in metis)+
qed

section \<open>A server to try it on\<close>

text \<open>The operations only call \<^verbatim>\<open>malloc\<close>, listeners and destructors, not the table of requests.\<close>

abbreviation (input) rewire :: "'u senv \<Rightarrow> (nat \<Rightarrow> u64 \<Rightarrow> u64 \<Rightarrow> listener_call \<Rightarrow> 'u server \<Rightarrow> 'u server option) \<Rightarrow>
    (nat \<Rightarrow> u64 \<Rightarrow> u64 \<Rightarrow> u32 \<Rightarrow> u32 \<Rightarrow> 'u server \<Rightarrow> 'u server option) \<Rightarrow> 'u senv" where
  "rewire E rq bd \<equiv> E\<lparr>request := rq, bind_func := bd\<rparr>"

lemma rewired_fields:
  "malloc (rewire E rq bd) = malloc E" "blocks (rewire E rq bd) = blocks E" "notify (rewire E rq bd) = notify E"
  "destructor (rewire E rq bd) = destructor E"
  by simp_all

lemma rewired_calls:
  "emit (rewire E rq bd) = emit E" "run_destructor (rewire E rq bd) = run_destructor E" "do_malloc (rewire E rq bd) = do_malloc E"
  by (unfold emit_def run_destructor_def do_malloc_def rewired_fields, (rule refl)+)

lemma rewired_array: "handle_array (rewire E rq bd) = handle_array E"
  by (unfold handle_array_def rewired_fields rewired_calls, (rule refl)+)

lemma rewired_events:
  "wl_resource_post_event (rewire E rq bd) = wl_resource_post_event E" "wl_resource_queue_event (rewire E rq bd) = wl_resource_queue_event E"
  by (unfold wl_resource_post_event_def wl_resource_queue_event_def wl_resource_post_event_array_def
      wl_resource_queue_event_array_def rewired_fields rewired_array, (rule refl)+)

lemma rewired_errors:
  "wl_resource_post_error (rewire E rq bd) = wl_resource_post_error E" "wl_client_post_no_memory (rewire E rq bd) = wl_client_post_no_memory E"
  "wl_shm_send_format (rewire E rq bd) = wl_shm_send_format E"
  by (unfold wl_client_post_no_memory_def wl_resource_post_error_def wl_shm_send_format_def rewired_events, (rule refl)+)

lemma rewired_resources:
  "wl_resource_create (rewire E rq bd) = wl_resource_create E" "wl_resource_destroy (rewire E rq bd) = wl_resource_destroy E"
  by (unfold wl_resource_create_def wl_resource_destroy_def destroy_resource_def rewired_fields rewired_calls rewired_errors rewired_events, (rule refl)+)

lemma rewired_handlers:
  "bind_shm (rewire E rq bd) = bind_shm E" "shm_request (rewire E rq bd) = shm_request E"
  by (unfold bind_shm_def shm_request_def shm_create_pool_def shm_pool_create_buffer_def shm_pool_resize_def
      shm_pool_unref_def shm_pool_finish_resize_def rewired_resources rewired_errors rewired_calls, (rule refl)+)

definition demo_os :: "'a shm_sys" where
  "demo_os = \<lparr>mmap_call = (\<lambda>sz fd s. let d = 2 ^ 32 * of_nat (length (mappings (user s)) + 1) in
       if d \<in> fst ` set (mappings (user s)) then Inl ''Cannot allocate memory'' else Inr d),
     mremap_call = (\<lambda>a n m s. Some a)\<rparr>"

definition demo_libc :: "'a shm_env" where
  "demo_libc = demo_env\<lparr>malloc := (\<lambda>s. let p = malloc demo_env s in
     if pools (user s) p = None \<and> buffers (user s) p = None then p else 0)\<rparr>"

definition demo_unwired :: "'a shm_env" where
  "demo_unwired = demo_libc\<lparr>destructor := (\<lambda>k. if k = 1 then destroy_pool demo_libc demo_os
     else if k = 2 then destroy_buffer demo_libc demo_os else (\<lambda>_. Some))\<rparr>"

definition demo_shm_env :: "'a shm_env" where
  "demo_shm_env = demo_unwired\<lparr>request := (\<lambda>k. if k < 3 then shm_request demo_unwired demo_os k else (\<lambda>_ _ _. Some)),
     bind_func := (\<lambda>k. if k = 0 then bind_shm demo_unwired else (\<lambda>_ _ _ _. Some))\<rparr>"

lemma destructors_env:
  fixes E E' :: "'a shm_env"
  shows "destroy_pool E M = destroy_pool E' M" "destroy_buffer E M = destroy_buffer E' M"
proof -
  have "shm_pool_unref E M p False s = shm_pool_unref E' M p False s" for p and s :: "'a shm server"
    by (simp add: shm_pool_unref_def)
  then show "destroy_pool E M = destroy_pool E' M" "destroy_buffer E M = destroy_buffer E' M"
    by (simp_all only: fun_eq_iff destroy_pool_def destroy_buffer_def simp_thms)
qed

lemma destructor_same:
  "destroy_pool E M p s = Some s' \<Longrightarrow> same_structs s s'" "destroy_buffer E M p s = Some s' \<Longrightarrow> same_structs s s'"
  by (auto simp: destroy_pool_def destroy_buffer_def shm_pool_unref_def bind_eq_Some split: if_split_asm
      intro: upd_shm_same same_structs_trans [OF upd_shm_same upd_shm_same]
        same_structs_trans [OF same_structs_trans [OF upd_shm_same upd_shm_same] upd_shm_same])

lemma demo_shm_env_ok: "shm_env_ok demo_shm_env (demo_os :: 'a shm_sys)"
proof -
  let ?E = "demo_shm_env :: 'a shm_env"
  have simps: "malloc ?E s = (let p = malloc demo_env s in if pools (user s) p = None \<and> buffers (user s) p = None then p else 0)"
    "blocks ?E = blocks (demo_env :: 'a shm_env)" "notify ?E = (\<lambda>_ _. Some)"
    "destructor ?E k = (if k = 1 then destroy_pool demo_libc demo_os else if k = 2 then destroy_buffer demo_libc demo_os else (\<lambda>_. Some))"
    for s :: "'a shm server" and k
    by (simp_all add: demo_shm_env_def demo_unwired_def demo_libc_def demo_env_def Let_def)
  have "env_ok (demo_env :: 'a shm_env)" by (rule demo_env_ok)
  then have env: "env_ok ?E"
    by (auto simp: env_ok_def simps Let_def dest: destructor_same)
  have "shm_installed ?E demo_os"
    unfolding shm_installed_def
  proof (intro conjI allI impI)
    show "destructor ?E 1 = destroy_pool ?E demo_os" "destructor ?E 2 = destroy_buffer ?E demo_os"
      by (simp_all add: simps destructors_env)
    show "request ?E k = shm_request ?E demo_os k" if "k < 3" for k
      using that unfolding demo_shm_env_def rewired_handlers by simp
    show "bind_func ?E 0 = bind_shm ?E" unfolding demo_shm_env_def rewired_handlers by simp
  qed
  with env show ?thesis
    by (auto simp: shm_env_ok_def simps demo_os_def Let_def split: if_split_asm)
qed

text \<open>The laws of \<open>resource_invariant\<close> on this server: whatever becomes of clients and resources, its pools are in order.\<close>

interpretation demo_pools: resource_invariant demo_shm_env "\<lambda>s :: 'a shm server. shm_ok s \<and> pinned u (user s)"
  by (rule shm_resource_invariant [OF demo_shm_env_ok])

definition no_pools :: "unit shm" where
  "no_pools = \<lparr>pools = Map.empty, buffers = Map.empty, mappings = [], shm_closed = [], sigbus_installed = False, sigbus_data = None,
     compositor = ()\<rparr>"

lemma no_pools_ok: "shm_inv Map.empty no_pools"
  by (simp add: shm_inv_def no_pools_def)

text \<open>Addresses in use are those handed out so far.\<close>

definition handed_out :: "unit shm server \<Rightarrow> bool" where
  "handed_out s \<longleftrightarrow> (\<forall>p. in_use s p \<longrightarrow> (\<exists>k \<le> ticks s. p = 16 * of_nat k))"

lemma malloc_handed_out: "malloc demo_shm_env u = 0 \<or> malloc demo_shm_env u = 16 * of_nat (ticks u + 1)"
  by (auto simp: demo_shm_env_def demo_unwired_def demo_libc_def demo_env_def Let_def)

lemma demo_memory:
  assumes s: "handed_out s" "ticks s + n < 2 ^ 50"
  shows "shm_memory demo_shm_env n s"
  unfolding shm_memory_def
proof (intro allI impI)
  fix t :: "unit shm server"
  assume t: "ticks s \<le> ticks t" "ticks t < ticks s + n"
    "\<forall>p. in_use t p \<longrightarrow> in_use s p \<or> (\<exists>u :: unit shm server. ticks s \<le> ticks u \<and> ticks u < ticks t \<and> p = malloc demo_shm_env u)"
  have un: "unat (16 * of_nat k :: u64) = 16 * k" if "k < 2 ^ 51" for k
    using that by (simp add: unat_word_ariths unat_of_nat)
  have old: "\<exists>k \<le> ticks t. p = 16 * of_nat k" if p: "in_use t p" for p
  proof (cases "in_use s p")
    case True
    with s(1) obtain k where "k \<le> ticks s" "p = 16 * of_nat k" unfolding handed_out_def by blast
    with t(1) show ?thesis by (intro exI [of _ k]) simp
  next
    case False
    with t(3) p obtain u :: "unit shm server" where u: "ticks u < ticks t" "p = malloc demo_shm_env u" by blast
    from malloc_handed_out [of u] u show ?thesis
      by (auto intro: exI [of _ 0] exI [of _ "ticks u + 1"])
  qed
  have "16 * of_nat (ticks t + 1) \<noteq> (16 * of_nat k :: u64)" if "k \<le> ticks t" for k
    using un [of "ticks t + 1"] un [of k] t that s(2) by auto
  then have "\<not> in_use t (16 * of_nat (ticks t + 1))" using old by blast
  moreover have "16 * of_nat (ticks t + 1) \<noteq> (0 :: u64)" using un [of "ticks t + 1"] t s(2) by auto
  ultimately show "malloc demo_shm_env t \<noteq> 0"
    by (simp add: demo_shm_env_def demo_unwired_def demo_libc_def demo_env_def Let_def in_use_def)
qed

lemma plain_invariant:
  "listener_invariant demo_env (\<lambda>s. user s = u \<and> (\<forall>q r. resources s q = Some r \<longrightarrow> plain_resource r))"
proof unfold_locales
  fix s s' :: "'a server"
  assume I: "user s = u \<and> (\<forall>q r. resources s q = Some r \<longrightarrow> plain_resource r)"
    and v: "\<And>q. map_option resource_view (resources s' q) = map_option resource_view (resources s q)" "user s' = user s"
  have "plain_resource r'" if r': "resources s' q = Some r'" for q r'
  proof -
    obtain r where "resources s q = Some r" "resource_view r' = resource_view r" using v(1) [of q] r' by (cases "resources s q") auto
    with I show ?thesis by (auto simp: plain_resource_def resource_view_def)
  qed
  with I v(2) show "user s' = u \<and> (\<forall>q r. resources s' q = Some r \<longrightarrow> plain_resource r)" by simp
next
  show "env_ok (demo_env :: 'a senv)" by (rule demo_env_ok)
qed (auto simp: demo_env_def free_resource_def split: if_split_asm)

lemma demo_start:
  obtains ca c and s :: "unit shm server" where "server_ok s" "shm_ok s" "clients s ca = Some c" "next_id c 2"
    "cell_count (client_entries (objects c)) = 2" "\<And>i. i \<noteq> 1 \<Longrightarrow> wl_map_lookup (objects c) i = Some 0"
    "user s = no_pools" "handed_out s" "ticks s = 3" "display_resource c \<noteq> 0"
proof -
  have mem: "mem_available demo_env 3 (empty_server no_pools)" by (rule demo_mem_available) simp
  from client_create_run [OF demo_env_ok mem empty_server_ok, of 9 "(1, 2, 3)" 8]
  obtain ca c r and s :: "unit shm server" where s: "wl_client_create demo_env 9 True (Some (1, 2, 3)) 8 (empty_server no_pools) = Some (ca, s)"
    "connected demo_env 9 (empty_server no_pools) ca c r s" by blast
  have c: "clients s ca = Some c" "resource_created_signal c = wl_priv_signal_init" "server_ok s"
    "wl_map_lookup (objects c) = (\<lambda>_. Some 0)(1 := Some (display_resource c))" "cell_count (client_entries (objects c)) = 2"
    "resources s = [display_resource c \<mapsto> r]" "rimplementation r = Display_interface" "ticks s = 3"
    "allocated_since demo_env (empty_server no_pools) s" "display_resource c \<noteq> 0"
    using s(2) by (simp_all add: connected_def quiet_signals_def)
  have "user s = no_pools \<and> (\<forall>q r. resources s q = Some r \<longrightarrow> plain_resource r)"
    by (rule listener_invariant.keep_connect [OF plain_invariant _ s(1)])
      (use server_okD(1) [OF c(3,1)] in \<open>auto simp: empty_server_def client_ok_def\<close>)
  then have u: "user s = no_pools" "\<And>q x. resources s q = Some x \<Longrightarrow> plain_resource x" by blast+
  then have "shm_objects s = Map.empty" "\<And>q x. resources s q = Some x \<Longrightarrow> shm_resource_ok x"
    by (fastforce simp: fun_eq_iff shm_objects_def bind_eq_Some plain_resource_def shm_handle_def not_Some_eq [symmetric] simp del: not_Some_eq)
      (use u(2) in \<open>auto simp: plain_resource_def shm_resource_ok_def split: wl_implementation.split\<close>)
  with u(1) no_pools_ok have ok: "shm_ok s" by (simp add: shm_ok_def)
  have i: "next_id c 2"
    using c(2,4,5) peer_room_client [OF server_okD(1) [OF c(3,1)], of 1]
    by (simp add: next_id_def id_available_def WL_SERVER_ID_START_def table_limit_def)
  have "handed_out s"
    unfolding handed_out_def
  proof (intro allI impI)
    fix p assume "in_use s p"
    then have "live s p" using u(1) by (simp add: in_use_def no_pools_def)
    then obtain v :: "unit shm server" where "ticks v < 3" "p = malloc demo_env v"
      using c(8,9) by (auto simp: allocated_since_def)
    then show "\<exists>k \<le> ticks s. p = 16 * of_nat k"
      using c(8) by (auto simp: demo_env_def Let_def intro: exI [of _ 0] exI [of _ "ticks v + 1"] split: if_splits)
  qed
  with that [OF c(3) ok c(1) i c(5) _ u(1)] c(4,8,10) show thesis by simp
qed

lemma handed_out_later:
  assumes "handed_out s" "ticks s \<le> ticks t"
    and "\<And>p. in_use t p \<Longrightarrow> in_use s p \<or> (\<exists>u :: unit shm server. ticks u < ticks t \<and> p = malloc demo_shm_env u)"
  shows "handed_out t"
  unfolding handed_out_def
proof (intro allI impI)
  fix p assume "in_use t p"
  from assms(3) [OF this] show "\<exists>k \<le> ticks t. p = 16 * of_nat k"
  proof (elim disjE exE conjE)
    assume "in_use s p"
    with assms(1) obtain k where "k \<le> ticks s" "p = 16 * of_nat k" unfolding handed_out_def by blast
    with assms(2) show ?thesis by (intro exI [of _ k]) simp
  next
    fix u :: "unit shm server" assume "ticks u < ticks t" "p = malloc demo_shm_env u"
    with malloc_handed_out [of u] show ?thesis by (auto intro: exI [of _ 0] exI [of _ "ticks u + 1"])
  qed
qed

text \<open>After \<^verbatim>\<open>wl_shm\<close> under id 2, a pool of a page under id 3; the next id is 4.\<close>

lemma demo_pool:
  obtains s\<^sub>0 ca c rp r p P and s :: "unit shm server" where "server_ok s\<^sub>0" "shm_ok s\<^sub>0" "(shm_step demo_shm_env demo_os)\<^sup>*\<^sup>* s\<^sub>0 s"
    "server_ok s" "shm_ok s" "clients s ca = Some c" "next_id c 4" "resources s rp = Some r" "rclient r = ca"
    "shm_handle r = Some (Pool_of p)" "pools (user s) p = Some P" "psize P = 4096" "external_refcount P = 0" "shm_memory demo_shm_env 9 s"
    "display_resource c \<noteq> 0" "wl_map_lookup (objects c) 7 = Some 0" "cell_count (client_entries (objects c)) = 4"
proof -
  note E = demo_shm_env_ok and env = shm_env_okD(1) [OF demo_shm_env_ok]
  obtain ca c and s :: "unit shm server" where s: "server_ok s" "shm_ok s" "clients s ca = Some c" "next_id c 2"
    "cell_count (client_entries (objects c)) = 2" "\<And>i. i \<noteq> 1 \<Longrightarrow> wl_map_lookup (objects c) i = Some 0"
    "user s = no_pools" "handed_out s" "ticks s = 3" "display_resource c \<noteq> 0"
    by (rule demo_start) (rule that)
  have av: "id_available (objects c) 2" using s(4) by (simp add: next_id_def)
  let ?q = "malloc demo_shm_env s"
  have q: "?q \<noteq> 0" by (rule shm_memoryD [OF demo_memory [OF s(8), of 1]]) (use s(9) in auto)
  obtain m where m: "wl_resource_create demo_shm_env ca wl_shm_interface 1 2 s = Some (?q, s\<lparr>ticks := ticks s + 1,
      resources := (resources s)(?q \<mapsto> new_resource ca wl_shm_interface 1 2), clients := (clients s)(ca \<mapsto> c\<lparr>objects := m\<rparr>)\<rparr>)"
    "wl_map_lookup m = (wl_map_lookup (objects c))(2 := Some ?q)" "cell_count (client_entries m) = 3"
    by (rule create_run [OF env s(1,3,4) shm_interfaces_ok(1) q]) (use s(5) that in simp)
  define s1 where "s1 = s\<lparr>ticks := ticks s + 1,
      resources := (resources s)(?q \<mapsto> new_resource ca wl_shm_interface 1 2), clients := (clients s)(ca \<mapsto> c\<lparr>objects := m\<rparr>)\<rparr>"
  have step1: "shm_step demo_shm_env demo_os s s1"
    by (rule shm_step.library [OF server_step.create [OF s(3) av shm_interfaces_ok(1) m(1), folded s1_def]])
  have ok1: "server_ok s1" "shm_ok s1" using shm_step_ok [OF E s(1,2) step1] by simp_all
  let ?c1 = "c\<lparr>objects := m\<rparr>"
  have c1: "clients s1 ca = Some ?c1" "user s1 = no_pools" "ticks s1 = 4" using s(7,9) by (simp_all add: s1_def)
  have i1: "next_id ?c1 3"
    using s(4,6) m(2,3) peer_room_client [OF server_okD(1) [OF ok1(1) c1(1)], of 1]
    by (simp add: next_id_def id_available_def WL_SERVER_ID_START_def table_limit_def)
  have h1: "handed_out s1"
    by (rule handed_out_later [OF s(8)])
      (use s(3) in \<open>auto simp: s1_def in_use_def live_def intro: exI [of _ s] split: if_split_asm\<close>)
  have mm: "mmap_call demo_os 4096 11 (s1\<lparr>ticks := ticks s1 + 1\<rparr>) = Inr (2 ^ 32)"
    using c1(2) by (simp add: demo_os_def no_pools_def)
  have m1: "shm_memory demo_shm_env 2 s1" by (rule demo_memory [OF h1]) (simp add: c1(3))
  obtain m' p q where m': "shm_create_pool demo_shm_env demo_os ca ?q 3 11 4096 s1 = Some (pool_granted ca p ?c1 m' q 3 11 4096 (2 ^ 32) s1)"
    "wl_map_lookup m' = (wl_map_lookup (objects ?c1))(3 := Some q)"
    "cell_count (client_entries m') = max (cell_count (client_entries (objects ?c1))) (Suc (unat (3 :: u32)))"
    "p = malloc demo_shm_env s1" "\<exists>v :: unit shm server. ticks v = ticks s1 + 1 \<and> q = malloc demo_shm_env v"
    by (rule create_pool_run [OF E ok1(1) m1 c1(1) i1 _ mm]) (use that in simp_all)
  define s2 where "s2 = pool_granted ca p ?c1 m' q 3 11 4096 (2 ^ 32) s1"
  have step2: "shm_step demo_shm_env demo_os s1 s2"
    by (rule shm_step.request [of s1 ca ?c1 ?q "new_resource ca wl_shm_interface 1 2" "\<lparr>call_opcode = 0, call_types = [], call_args = [Arg_n 3, Arg_h 11, Arg_i 4096]\<rparr>" _ _ 0])
      (use i1 c1(1) m'(1) in \<open>simp_all add: s1_def new_resource_def next_id_def shm_request_def s2_def\<close>)
  have ok2: "server_ok s2" "shm_ok s2" using shm_step_ok [OF E ok1 step2] by simp_all
  let ?c2 = "?c1\<lparr>objects := m'\<rparr>"
  let ?r = "implemented ca wl_shm_pool_interface 3 shm_pool_interface p pool_destroyer"
  let ?P = "\<lparr>presource = q, internal_refcount = 1, external_refcount = 0, pdata = 2 ^ 32, psize = 4096, new_size = 4096\<rparr>"
  have s2: "clients s2 ca = Some ?c2" "resources s2 q = Some ?r" "pools (user s2) p = Some ?P" "ticks s2 = 6"
    using c1(3) by (simp_all add: s2_def pool_granted_def set_pool_def)
  have i2: "next_id ?c2 4"
    using s(4,6) m(2,3) m'(2,3) peer_room_client [OF server_okD(1) [OF ok2(1) s2(1)], of 1]
    by (simp add: next_id_def id_available_def WL_SERVER_ID_START_def table_limit_def)
  obtain v :: "unit shm server" where v: "ticks v = ticks s1 + 1" "q = malloc demo_shm_env v" using m'(5) by blast
  have "handed_out s2"
    by (rule handed_out_later [OF h1])
      (use c1(1) m'(4) v in \<open>auto simp: s2_def pool_granted_def set_pool_def in_use_def live_def
        intro: exI [of _ s1] exI [of _ v] split: if_split_asm\<close>)
  then have "shm_memory demo_shm_env 9 s2" by (rule demo_memory) (simp add: s2(4))
  moreover have "(shm_step demo_shm_env demo_os)\<^sup>*\<^sup>* s s2" using step1 step2 by (meson r_into_rtranclp rtranclp.rtrancl_into_rtrancl)
  moreover have "cell_count (client_entries (objects ?c2)) = 4" "wl_map_lookup (objects ?c2) 7 = Some 0" "display_resource ?c2 \<noteq> 0"
    using s(6,10) m(2,3) m'(2,3) by simp_all
  ultimately show thesis
    using that [OF s(1,2) _ ok2 s2(1) i2 s2(2) _ _ s2(3)] by (simp add: implemented_def new_resource_def shm_handle_def)
qed

text \<open>And a buffer of 32 rows of 128 bytes that fills it.\<close>

lemma demo_fits: "buffer_fits 4096 0 32 32 128 = Some True"
  by (simp add: buffer_fits_def int32_def INT32_MAX_def)

lemma demo_buffer:
  obtains s\<^sub>0 b B p P ca c and s :: "unit shm server" where "server_ok s\<^sub>0" "shm_ok s\<^sub>0" "(shm_step demo_shm_env demo_os)\<^sup>*\<^sup>* s\<^sub>0 s"
    "server_ok s" "shm_ok s" "buffers (user s) b = Some B" "bpool B = p" "bheight B = 32" "bstride B = 128"
    "pools (user s) p = Some P" "internal_refcount P + external_refcount P \<noteq> 0" "0 \<le> external_refcount P"
    "clients s ca = Some c" "display_resource c \<noteq> 0" "wl_map_lookup (objects c) 7 = Some 0" "peer_room (objects c) WL_CLOSURE_MAX_ARGS"
proof -
  note E = demo_shm_env_ok
  obtain s\<^sub>0 ca c rp r p P and s :: "unit shm server" where s: "server_ok s\<^sub>0" "shm_ok s\<^sub>0" "(shm_step demo_shm_env demo_os)\<^sup>*\<^sup>* s\<^sub>0 s"
    "server_ok s" "shm_ok s" "clients s ca = Some c" "next_id c 4" "resources s rp = Some r" "rclient r = ca"
    "shm_handle r = Some (Pool_of p)" "pools (user s) p = Some P" "psize P = 4096" "external_refcount P = 0" "shm_memory demo_shm_env 9 s"
    "display_resource c \<noteq> 0" "wl_map_lookup (objects c) 7 = Some 0" "cell_count (client_entries (objects c)) = 4"
    by (rule demo_pool) (rule that)
  have m2: "shm_memory demo_shm_env 2 s" using s(14) by (auto simp: shm_memory_def)
  have format: "format_is_supported 0 s" by (simp add: format_is_supported_def WL_SHM_FORMAT_ARGB8888_def)
  have fits: "buffer_fits (psize P) 0 32 32 128 = Some True" using demo_fits s(12) by simp
  obtain m b q where b: "shm_pool_create_buffer demo_shm_env demo_os ca rp 4 0 32 32 128 0 s = Some (buffer_granted ca b q c m 4 P
      \<lparr>bresource = q, bwidth = 32, bheight = 32, bstride = 128, bformat = 0, boffset = 0, bpool = p\<rparr> s)"
    "wl_map_lookup m = (wl_map_lookup (objects c))(4 := Some q)"
    "cell_count (client_entries m) = max (cell_count (client_entries (objects c))) (Suc (unat (4 :: u32)))"
    by (rule create_buffer_run [OF E s(4) m2 s(6-8,10,11) format fits]) (rule that)
  define s' where "s' = buffer_granted ca b q c m 4 P
      \<lparr>bresource = q, bwidth = 32, bheight = 32, bstride = 128, bformat = 0, boffset = 0, bpool = p\<rparr> s"
  have step: "shm_step demo_shm_env demo_os s s'"
    by (rule shm_step.request [of s ca c rp r "\<lparr>call_opcode = 0, call_types = [],
        call_args = [Arg_n 4, Arg_i 0, Arg_i 32, Arg_i 32, Arg_i 128, Arg_u 0]\<rparr>" _ _ 1])
      (use s b(1) in \<open>simp_all add: next_id_def shm_request_def s'_def\<close>)
  have ok: "server_ok s'" "shm_ok s'" using shm_step_ok [OF E s(4,5) step] by simp_all
  have run: "(shm_step demo_shm_env demo_os)\<^sup>*\<^sup>* s\<^sub>0 s'" using s(3) step by (rule rtranclp.rtrancl_into_rtrancl)
  have B: "buffers (user s') b = Some \<lparr>bresource = q, bwidth = 32, bheight = 32, bstride = 128, bformat = 0, boffset = 0, bpool = p\<rparr>"
    "pools (user s') p = Some (P\<lparr>internal_refcount := internal_refcount P + 1\<rparr>)"
    by (simp_all add: s'_def buffer_granted_def)
  have "pool_ok (shm_objects s) (user s) p P" using s(5,11) by (auto simp: shm_ok_def dest: shm_invD(2))
  then have "0 \<le> internal_refcount P" using refs_nonneg [of "shm_objects s" "user s" p] by (simp add: pool_ok_def)
  have c': "clients s' ca = Some (c\<lparr>objects := m\<rparr>)" by (simp add: s'_def buffer_granted_def)
  have "peer_room (objects (c\<lparr>objects := m\<rparr>)) WL_CLOSURE_MAX_ARGS"
    using peer_room_client [OF server_okD(1) [OF ok(1) c'], of WL_CLOSURE_MAX_ARGS] b(3) s(17)
    by (simp add: table_limit_def WL_CLOSURE_MAX_ARGS_def)
  with that [OF s(1,2) run ok B(1) _ _ _ B(2) _ _ c'] \<open>0 \<le> internal_refcount P\<close> s(13,15,16) b(2) show thesis by simp
qed

theorem buffers_stay_mapped_witness:
  "\<exists>(s :: unit shm server) s' b B d n. (shm_step demo_shm_env demo_os)\<^sup>*\<^sup>* s s' \<and> buffers (user s') b = Some B \<and> bstride B * bheight B = 4096 \<and>
    (d, n) \<in> set (mappings (user s')) \<and> 4096 \<le> n"
proof -
  obtain s\<^sub>0 b B p P and s :: "unit shm server" where s: "server_ok s\<^sub>0" "shm_ok s\<^sub>0" "(shm_step demo_shm_env demo_os)\<^sup>*\<^sup>* s\<^sub>0 s"
    "buffers (user s) b = Some B" "bheight B = 32" "bstride B = 128"
    by (rule demo_buffer) (rule that)
  from buffers_stay_mapped [OF demo_shm_env_ok s(1-4)] obtain d n where
    d: "(d, n) \<in> set (mappings (user s))" "0 \<le> boffset B" "boffset B + bstride B * bheight B \<le> n" by blast
  then have "4096 \<le> n" using s(5,6) by simp
  with d s show ?thesis by (intro exI [of _ s\<^sub>0] exI [of _ s] exI [of _ b] exI [of _ B] exI [of _ d] exI [of _ n]) simp
qed

theorem pools_released_witness:
  "\<exists>(s :: unit shm server) s' p P. (shm_step demo_shm_env demo_os)\<^sup>*\<^sup>* s s' \<and> pools (user s') p = Some P \<and>
    (pdata P, psize P) \<in> set (mappings (user s')) \<and> distinct (mappings (user s'))"
proof -
  obtain s\<^sub>0 p P and s :: "unit shm server" where s: "server_ok s\<^sub>0" "shm_ok s\<^sub>0" "(shm_step demo_shm_env demo_os)\<^sup>*\<^sup>* s\<^sub>0 s"
    "pools (user s) p = Some P"
    by (rule demo_buffer) (rule that)
  from pools_released [OF demo_shm_env_ok s(1-3)] s(3,4) show ?thesis by blast
qed

theorem references_pin_pool_witness:
  "\<exists>(s :: unit shm server) s' p P P'. wl_shm_pool_unref demo_shm_env demo_os p s = Some s' \<and> pools (user s) p = Some P \<and>
    1 < external_refcount P \<and> pools (user s') p = Some P' \<and> pdata P' = pdata P \<and> 1 \<le> external_refcount P'"
proof -
  note E = demo_shm_env_ok
  obtain s\<^sub>0 b B p P and s :: "unit shm server" where s: "server_ok s" "shm_ok s" "buffers (user s) b = Some B" "bpool B = p"
    "pools (user s) p = Some P" "internal_refcount P + external_refcount P \<noteq> 0" "0 \<le> external_refcount P"
    by (rule demo_buffer) (rule that)
  have "0 \<le> internal_refcount P"
    using s(2,5) refs_nonneg [of "shm_objects s" "user s" p] by (auto simp: shm_ok_def pool_ok_def dest: shm_invD(2))
  with s(6,7) have pos: "0 < internal_refcount P + external_refcount P" by simp
  define s1 where "s1 = upd_shm (set_pool p (Some (P\<lparr>external_refcount := external_refcount P + 1\<rparr>))) s"
  define s2 where "s2 = upd_shm (set_pool p (Some (P\<lparr>external_refcount := external_refcount P + 2\<rparr>))) s1"
  define s3 where "s3 = upd_shm (set_pool p (Some (P\<lparr>external_refcount := external_refcount P + 1\<rparr>))) s2"
  have r1: "wl_shm_buffer_ref_pool b s = Some (p, s1)" using s(3-5) pos by (simp add: wl_shm_buffer_ref_pool_def s1_def)
  have r2: "wl_shm_buffer_ref_pool b s1 = Some (p, s2)" using s(3,4) pos by (simp add: wl_shm_buffer_ref_pool_def s1_def s2_def algebra_simps)
  have ok1: "server_ok s1" "shm_ok s1" using shm_step_ok [OF E s(1,2) shm_step.ref [OF r1]] by simp_all
  have ok2: "server_ok s2" "shm_ok s2" using shm_step_ok [OF E ok1 shm_step.ref [OF r2]] by simp_all
  have P2: "pools (user s2) p = Some (P\<lparr>external_refcount := external_refcount P + 2\<rparr>)" by (simp add: s2_def)
  have r3: "wl_shm_pool_unref demo_shm_env demo_os p s2 = Some s3"
    using P2 pos s(7) by (simp add: wl_shm_pool_unref_def shm_pool_unref_def Let_def s3_def algebra_simps)
  have "shm_step demo_shm_env demo_os s2 s3" by (rule shm_step.unref [OF P2 _ r3]) (use s(7) in simp)
  from references_pin_pool [OF E ok2 this P2] s(7) obtain P' where "pools (user s3) p = Some P'" "pdata P' = pdata P"
    "external_refcount P + 1 \<le> external_refcount P'" by auto
  with r3 P2 s(7) show ?thesis
    by (intro exI [of _ s2] exI [of _ s3] exI [of _ p] exI [of _ "P\<lparr>external_refcount := external_refcount P + 2\<rparr>"] exI [of _ P']) simp
qed

theorem create_buffer_exact_witness:
  "\<exists>(s :: unit shm server) s' ca rp b B. shm_pool_create_buffer demo_shm_env demo_os ca rp 4 0 32 32 128 0 s = Some s' \<and>
    buffers (user s') b = Some B \<and> bwidth B = 32 \<and> bstride B = 128"
proof -
  obtain s\<^sub>0 ca c rp r p P and s :: "unit shm server" where s: "server_ok s" "shm_ok s" "clients s ca = Some c" "next_id c 4"
    "resources s rp = Some r" "shm_handle r = Some (Pool_of p)" "pools (user s) p = Some P" "psize P = 4096" "shm_memory demo_shm_env 9 s"
    by (rule demo_pool) (rule that)
  have m2: "shm_memory demo_shm_env 2 s" using s(9) by (auto simp: shm_memory_def)
  have format: "format_is_supported 0 s" by (simp add: format_is_supported_def WL_SHM_FORMAT_ARGB8888_def)
  have "0 \<le> INT32_MAX" "32 < INT32_MAX div (128 :: int)" by (simp_all add: INT32_MAX_def)
  with create_buffer_exact [OF demo_shm_env_ok s(1,2) m2 s(3-7) format, of 0 32 128 32] s(8) show ?thesis by fastforce
qed

theorem pool_created_witness:
  "\<exists>(s :: unit shm server) s' ca. shm_create_pool demo_shm_env demo_os ca 0 2 11 4096 s = Some s' \<and>
    mappings (user s') = [(2 ^ 32, 4096)] \<and> shm_closed (user s') = [11]"
proof -
  obtain ca c and s :: "unit shm server" where s: "server_ok s" "clients s ca = Some c" "next_id c 2"
    "user s = no_pools" "handed_out s" "ticks s = 3"
    by (rule demo_start) (rule that)
  have mm: "mmap_call demo_os 4096 11 (s\<lparr>ticks := ticks s + 1\<rparr>) = Inr (2 ^ 32)"
    using s(4) by (simp add: demo_os_def no_pools_def)
  have "shm_memory demo_shm_env 2 s" by (rule demo_memory [OF s(5)]) (simp add: s(6))
  from pool_created [OF demo_shm_env_ok s(1) this s(2,3) _ mm, of 0] s(4) show ?thesis by (fastforce simp: no_pools_def)
qed

theorem descriptor_closed_witness:
  "\<exists>(s :: unit shm server) s' ca. shm_create_pool demo_shm_env demo_os ca 0 2 11 4096 s = Some s' \<and> shm_closed (user s') = [11]"
proof -
  obtain ca c and s :: "unit shm server" where s: "server_ok s" "clients s ca = Some c" "next_id c 2"
    "user s = no_pools" "handed_out s" "ticks s = 3"
    by (rule demo_start) (rule that)
  have mm: "mmap_call demo_os 4096 11 (s\<lparr>ticks := ticks s + 1\<rparr>) = Inr (2 ^ 32)"
    using s(4) by (simp add: demo_os_def no_pools_def)
  have mem: "shm_memory demo_shm_env 2 s" by (rule demo_memory [OF s(5)]) (simp add: s(6))
  obtain s' where s': "shm_create_pool demo_shm_env demo_os ca 0 2 11 4096 s = Some s'"
    by (rule create_pool_run [OF demo_shm_env_ok s(1) mem s(2,3) _ mm]) (use that in simp_all)
  have "shm_closed (user s') = shm_closed (user s) @ [11]"
    by (rule descriptor_closed [OF demo_shm_env_ok s(2) _ s']) (simp_all add: demo_shm_env_def demo_unwired_def demo_libc_def demo_env_def)
  with s(4) s' show ?thesis by (auto simp: no_pools_def)
qed

end
