(* ===== verification/Wl_Dispatch.thy ===== *)
theory Wl_Dispatch
  imports Wl_Safety
begin

text \<open>
  Requests of clients and the compositor's state together: \<open>request_invariant\<close> adds to an invariant of the
  compositor's structures that its handlers keep it when they are called as the library calls them. Then
  it holds after any bytes a client sends. Shared memory is such a part of the compositor.
\<close>

section \<open>What the handlers of a compositor keep\<close>

text \<open>A new id that the signature does not let be null is not null.\<close>

definition proper_args :: "wl_resource \<Rightarrow> nat \<Rightarrow> wl_argument list \<Rightarrow> bool" where
  "proper_args r n as \<longleftrightarrow> (\<exists>opcode m. n = unat opcode \<and> nth_message (methods (rinterface r)) opcode = Some m \<and>
     length as = arg_count_for_signature (signature m) \<and>
     (\<forall>k < length as. \<forall>i. as ! k = Arg_n i \<longrightarrow> \<not> nullable (details (signature m) ! k) \<longrightarrow> i \<noteq> 0))"

locale request_invariant = resource_invariant +
  assumes requested: "I t \<Longrightarrow> server_ok t \<Longrightarrow> clients t ca = Some c \<Longrightarrow> resources t p = Some r \<Longrightarrow> rclient r = ca \<Longrightarrow>
      rimplementation r = Implementation k slots \<Longrightarrow> call_ok ca t (call_args call) \<Longrightarrow>
      proper_args r (call_opcode call) (call_args call) \<Longrightarrow> request E k ca p call t = Some t' \<Longrightarrow>
      I t' \<and> server_ok t' \<and> input_kept ca t t'"
    and dispatched: "I t \<Longrightarrow> server_ok t \<Longrightarrow> resources t p = Some r \<Longrightarrow> call_ok (rclient r) t as \<Longrightarrow>
      dispatch E k p opcode as t = Some t' \<Longrightarrow> I t' \<and> server_ok t' \<and> input_kept (rclient r) t t'"
    and bound: "I t \<Longrightarrow> server_ok t \<Longrightarrow> clients t ca = Some c \<Longrightarrow> id_available (objects c) i \<Longrightarrow>
      bind_func E k ca data v i t = Some t' \<Longrightarrow> I t' \<and> server_ok t' \<and> input_kept ca t t'"
begin

lemma keep_bind:
  assumes t: "I t" "server_ok t" "clients t ca = Some c" "resources t p = Some r" "rclient r = ca"
    and i: "id_available (objects c) i" and run: "registry_bind E ca p name str v i t = Some t'"
  shows "I t' \<and> server_ok t' \<and> input_kept ca t t'"
proof -
  have "(\<exists>msg. wl_resource_post_error E p WL_DISPLAY_ERROR_INVALID_OBJECT msg t = Some t') \<or>
      (\<exists>k data. bind_func E k ca data v i t = Some t')"
    using run by (auto simp: registry_bind_def bind_eq_Some Let_def split: if_splits)
  then show ?thesis
  proof (elim disjE exE)
    fix msg assume err: "wl_resource_post_error E p WL_DISPLAY_ERROR_INVALID_OBJECT msg t = Some t'"
    from post_error_server [OF t(2) err, of ca] keep_quiet [OF post_error_quiet [OF err] t(1)] show ?thesis by blast
  next
    fix k data assume "bind_func E k ca data v i t = Some t'"
    with bound t(1-3) i show ?thesis by blast
  qed
qed

lemma keep_deliver:
  assumes t: "I t" "server_ok t" "clients t ca = Some c" "resources t p = Some r" "rclient r = ca"
    and m: "nth_message (methods (rinterface r)) opcode = Some (cmessage cl)" and cl: "request_args ca t cl"
    and run: "deliver E ca p r 0 opcode cl t = Some (u, cl')"
  shows "I u \<and> server_ok u \<and> input_kept ca t u"
proof -
  let ?as = "take (ccount cl) (cargs cl)"
  note call = request_call_ok [OF t(2,3) cl]
  have impl: "impl_ok r" using server_okD(2) [OF t(2,4)] by (simp add: resource_ok_def)
  note own = own_requests [OF impl m]
  have new: "i \<noteq> 0" if "k < length ?as" "?as ! k = Arg_n i" "\<not> nullable (details (signature (cmessage cl)) ! k)" for k i
    using request_new_id [OF cl, of k i] that by simp
  have av: "id_available (objects c) i" if i: "k < length ?as" "?as ! k = Arg_n i"
    "\<not> nullable (details (signature (cmessage cl)) ! k)" for k i
  proof -
    have "Arg_n i \<in> set ?as" using i(1,2) nth_mem by metis
    with new [OF i] call t(3) show ?thesis by (auto simp: call_ok_def)
  qed
  show ?thesis
  proof (cases "rdispatcher r")
    case (Some d)
    then have run: "dispatch E d p opcode ?as t = Some u" using run by (auto simp: deliver_def bind_eq_Some)
    have "call_ok (rclient r) t ?as" using call t(5) by simp
    from dispatched [OF t(1,2,4) this run] t(5) show ?thesis by simp
  next
    case None
    then obtain lc where inv: "wl_closure_invoke cl WL_CLOSURE_INVOKE_SERVER (robject r) (unat opcode) = Inr (lc, cl')"
      "run_request E ca p (rimplementation r) lc t = Some u"
      using run by (auto simp: deliver_def bind_eq_Some split: sum.splits)
    have lc: "call_args lc = ?as" "call_opcode lc = unat opcode"
      using inv(1) cl by (auto simp: wl_closure_invoke_def Let_def request_args_def ebind_eq_Inr split: if_splits)
    show ?thesis
    proof (cases "rimplementation r")
      case Display_interface
      then obtain i where i: "?as = [Arg_n i]" "display_sync E ca p i t = Some u \<or> display_get_registry E ca p i t = Some u"
        using lc inv(2) by (auto simp: run_request_def split: list.splits wl_argument.splits if_splits)
      have av: "id_available (objects c) i" using av [of 0 i] i(1) own(1) [OF Display_interface] by simp
      then have i0: "i \<noteq> 0" by (simp add: id_available_def)
      from i(2) show ?thesis
      proof
        assume run: "display_sync E ca p i t = Some u"
        from keep_sync [OF t(1-3) av run] display_sync_ok [OF env t(2,3) av run] show ?thesis by blast
      next
        assume run: "display_get_registry E ca p i t = Some u"
        from keep_registry [OF t(1,3) i0 run] display_get_registry_ok [OF env t(2,3) av run] show ?thesis by blast
      qed
    next
      case Registry_interface
      then obtain name str v i where i: "?as = [Arg_u name, Arg_s str, Arg_u v, Arg_n i]" "registry_bind E ca p name str v i t = Some u"
        using lc inv(2) by (auto simp: run_request_def split: list.splits wl_argument.splits)
      have "id_available (objects c) i" using av [of 3 i] i(1) own(2) [OF Registry_interface] by simp
      from keep_bind [OF t this i(2)] show ?thesis .
    next
      case (Implementation k slots)
      then have run: "request E k ca p lc t = Some u" using inv(2) by (simp add: run_request_def)
      have "length ?as = arg_count_for_signature (signature (cmessage cl))" using cl by (auto simp: request_args_def)
      then have "proper_args r (call_opcode lc) (call_args lc)"
        unfolding proper_args_def lc using m new by (intro exI [of _ opcode] exI [of _ "cmessage cl"]) blast
      moreover have "call_ok ca t (call_args lc)" using call lc(1) by simp
      ultimately show ?thesis using requested [OF t Implementation _ _ run] by blast
    qed (use inv(2) in \<open>simp add: run_request_def\<close>)
  qed
qed

lemma keep_turn:
  assumes s: "I s" "server_ok s" "clients s ca = Some c" and room: "peer_room (objects c) WL_CLOSURE_MAX_ARGS"
    and run: "dispatch_one E ca (pending c) s = Some (t, n)"
  shows "I t \<and> server_ok t \<and> (\<exists>c'. clients t ca = Some c' \<and> (\<forall>k. n = Some k \<longrightarrow> k = pending c' \<and> pending c' + 8 \<le> pending c))"
proof -
  show ?thesis
  proof (rule dispatch_one_cases [OF env s(2,3) room pending_def])
    assume "dispatch_one E ca (pending c) s = Some (s, None)"
    with run s show ?thesis by simp
  next
    assume "dispatch_one E ca (pending c) s = None"
    with run show ?thesis by simp
  next
    fix u ct code msg fin
    assume a: "during_request ca c s u ct"
      "dispatch_one E ca (pending c) s = Option.bind (wl_resource_post_error E (display_resource c) code msg u)
         (\<lambda>t. Option.bind (fin t) (\<lambda>t. Some (t, None)))"
      "fin = Some \<or> (\<exists>cl. fin = wl_closure_release ca cl)"
    note err = trans [OF a(2) [symmetric] run]
    obtain v where v: "wl_resource_post_error E (display_resource c) code msg u = Some v" "fin v = Some t" "n = None"
      using err by (auto simp: bind_eq_Some)
    have "resources u (display_resource c) \<noteq> None" using v(1) by (auto simp: bind_eq_Some wl_resource_post_error_def)
    moreover have "resources u 0 = None" by (rule server_okD(4)) (use a(1) in \<open>simp add: during_request_def\<close>)
    ultimately have dr: "display_resource c \<noteq> 0" by metis
    have "unobserved s u" using a(1) by (simp add: during_request_def unobserved_def)
    moreover have "unobserved v t" using v(2) a(3) by (auto simp: wl_closure_release_def bind_eq_Some Let_def)
    ultimately have "I t" using s(1) post_error_quiet [OF v(1)] keep_quiet by blast
    with refusal_ok [OF a(1) dr err a(3)] show ?thesis by auto
  next
    fix p r message cl u cu
    assume fit: "unat (request_size c) \<le> length (contents (inb (connection c)))"
      and a: "8 \<le> unat (request_size c)" "during_request ca c s u cu" "resources s p = Some r" "rclient r = ca"
      "nth_message (methods (rinterface r)) (request_opcode c) = Some message" "cmessage cl = message" "request_args ca u cl"
      "contents (inb (connection cu)) = drop (unat (request_size c)) (contents (inb (connection c)))"
      "dispatch_one E ca (pending c) s = Option.bind (deliver E ca p r 0 (request_opcode c) cl u) (finish_request ca)"
    have u: "server_ok u" "clients u ca = Some cu" "resources u p = Some r" "unobserved s u"
      using a(2,3) by (simp_all add: during_request_def unobserved_def)
    obtain v cl' where v: "deliver E ca p r 0 (request_opcode c) cl u = Some (v, cl')" "finish_request ca (v, cl') = Some (t, n)"
      using trans [OF a(9) [symmetric] run] by (auto simp: bind_eq_Some)
    have m: "nth_message (methods (rinterface r)) (request_opcode c) = Some (cmessage cl)" using a(5,6) by simp
    note d = keep_deliver [OF keep_quiet [OF u(4) s(1)] u(1-3) a(4) m a(7) v(1)]
    obtain c' where c': "wl_closure_release ca cl' v = Some t" "clients t ca = Some c'"
      "n = (if cerror c' then None else Some (sint (wl_connection_pending_input (connection c'))))"
      using v(2) by (auto simp: finish_request_def bind_eq_Some split: if_splits)
    have t: "server_ok t" "clients v ca = Some c'" using release_frame [OF c'(1)] d c'(2) by auto
    have "unobserved v t" using c'(1) by (auto simp: wl_closure_release_def bind_eq_Some Let_def)
    then have It: "I t" using d keep_quiet by blast
    have "inb (connection c') = inb (connection cu)" using d u(2) t(2) by (auto simp: input_kept_def)
    then have "length (contents (inb (connection c'))) + unat (request_size c) = length (contents (inb (connection c)))"
      using a(8) fit by (simp del: length_contents)
    then have "pending c' + 8 \<le> pending c" using a(1) unfolding pending_def by linarith
    with It t c'(2,3) pending_input(1) [OF t(1) c'(2)] show ?thesis by auto
  qed
qed

lemma keep_loop:
  assumes "I s" "server_ok s" "clients s ca = Some c"
    and "\<forall>t d. turns E ca s t \<longrightarrow> clients t ca = Some d \<longrightarrow> peer_room (objects d) WL_CLOSURE_MAX_ARGS"
    and "dispatch_loop E ca (pending c) s = Some s'"
  shows "I s' \<and> server_ok s' \<and> clients s' ca \<noteq> None"
  using assms
proof (induction "nat (pending c)" arbitrary: s c rule: less_induct)
  case less
  show ?case
  proof (cases "(of_int (pending c) :: u64) < 8")
    case True
    with less.prems show ?thesis by (simp add: dispatch_loop.simps)
  next
    case False
    obtain t n where run: "dispatch_one E ca (pending c) s = Some (t, n)"
      "(case n of None \<Rightarrow> Some t | Some k \<Rightarrow> dispatch_loop E ca k t) = Some s'"
      using less.prems(5) False by (subst (asm) dispatch_loop.simps) (auto simp: bind_eq_Some)
    have room: "peer_room (objects c) WL_CLOSURE_MAX_ARGS" using less.prems(3,4) turns.start by blast
    obtain c' where c': "I t" "server_ok t" "clients t ca = Some c'"
      "\<forall>k. n = Some k \<longrightarrow> k = pending c' \<and> pending c' + 8 \<le> pending c"
      using keep_turn [OF less.prems(1-3) room run(1)] by blast
    show ?thesis
    proof (cases n)
      case None
      with run(2) c' show ?thesis by simp
    next
      case (Some k)
      have k: "k = pending c'" "pending c' + 8 \<le> pending c" "0 \<le> pending c'" using c'(4) Some by (auto simp: pending_def)
      then have lt: "nat (pending c') < nat (pending c)" by linarith
      have "\<forall>u d. turns E ca t u \<longrightarrow> clients u ca = Some d \<longrightarrow> peer_room (objects d) WL_CLOSURE_MAX_ARGS"
        using less.prems(4) turns.turn [OF less.prems(3) run(1) [unfolded Some]] by blast
      from less.hyps [OF lt c'(1-3) this] run(2) Some k(1) show ?thesis by simp
    qed
  qed
qed

end

section \<open>Shared memory\<close>

text \<open>The rest of the compositor, held to the same: its handlers leave pools and buffers in order.\<close>

definition compositor_ok :: "'a shm_env \<Rightarrow> bool" where
  "compositor_ok E \<longleftrightarrow>
     (\<forall>k ca p call t t'. 3 \<le> k \<longrightarrow> server_ok t \<longrightarrow> shm_ok t \<longrightarrow> call_ok ca t (call_args call) \<longrightarrow> request E k ca p call t = Some t' \<longrightarrow>
        shm_kept ca t t') \<and>
     (\<forall>k p r opcode as t t'. server_ok t \<longrightarrow> shm_ok t \<longrightarrow> resources t p = Some r \<longrightarrow> call_ok (rclient r) t as \<longrightarrow>
        dispatch E k p opcode as t = Some t' \<longrightarrow> shm_kept (rclient r) t t') \<and>
     (\<forall>k ca data v i t t'. k \<noteq> 0 \<longrightarrow> server_ok t \<longrightarrow> shm_ok t \<longrightarrow> call_ok ca t [Arg_n i] \<longrightarrow> bind_func E k ca data v i t = Some t' \<longrightarrow>
        shm_kept ca t t')"

text \<open>In the requests of shared memory no new id may be null.\<close>

lemma shm_new_ids:
  assumes r: "shm_resource_ok r" "rimplementation r = Implementation k slots" "k < 3"
    and as: "proper_args r n as" "Arg_n i \<in> set as"
  shows "i \<noteq> 0"
proof -
  obtain opcode m where m: "nth_message (methods (rinterface r)) opcode = Some m" "length as = arg_count_for_signature (signature m)"
    "\<And>j x. j < length as \<Longrightarrow> as ! j = Arg_n x \<Longrightarrow> \<not> nullable (details (signature m) ! j) \<Longrightarrow> x \<noteq> 0"
    using as(1) unfolding proper_args_def by blast
  have "k = 0 \<or> k = 1 \<or> k = 2" using r(3) by auto
  then have "rinterface r \<in> {wl_shm_interface, wl_shm_pool_interface, wl_buffer_interface}"
    using r(1,2) by (auto simp: shm_resource_ok_def)
  then have "signature m \<in> {''nhi'', ''niiiiu'', [], ''i''}"
    using m(1) by (auto simp: nth_message_def wl_shm_interface_def wl_shm_pool_interface_def wl_buffer_interface_def
        nth_Cons split: if_splits nat.splits)
  then have plain: "\<forall>j < arg_count_for_signature (signature m). \<not> nullable (details (signature m) ! j)"
    by (auto simp: details_def is_arg_char_def nth_Cons split: nat.splits)
  obtain j where "j < length as" "as ! j = Arg_n i" using as(2) by (auto simp: in_set_conv_nth)
  with m(2,3) plain show ?thesis by simp
qed

lemma shm_request_invariant:
  assumes E: "shm_env_ok E M" and others: "compositor_ok E"
  shows "request_invariant E (\<lambda>s. shm_ok s \<and> pinned u (user s))"
proof (rule request_invariant.intro [OF shm_resource_invariant [OF E]], unfold_locales)
  have kept: "shm_kept ca t t' \<Longrightarrow> pinned u (user t) \<Longrightarrow> (shm_ok t' \<and> pinned u (user t')) \<and> server_ok t' \<and> input_kept ca t t'"
    for ca and t t' :: "'a shm server"
    using pinned_trans by (auto simp: shm_kept_def)
  fix t t' :: "'a shm server" and ca c p r k slots call
  assume t: "shm_ok t \<and> pinned u (user t)" "server_ok t" "clients t ca = Some c" "resources t p = Some r" "rclient r = ca"
    "rimplementation r = Implementation k slots" "call_ok ca t (call_args call)" "proper_args r (call_opcode call) (call_args call)"
    "request E k ca p call t = Some t'"
  have "shm_kept ca t t'"
  proof (cases "k < 3")
    case True
    have "shm_resource_ok r" using t(1,4) by (auto simp: shm_ok_def)
    then have "id_available (objects c) i" if "Arg_n i \<in> set (call_args call)" for i
      using shm_new_ids [OF _ t(6) True t(8) that] t(3,7) that by (auto simp: call_ok_def)
    moreover have "shm_request E M k ca p call t = Some t'" using t(9) shm_env_okD(4) [OF E True] by simp
    ultimately show ?thesis using shm_request_kept [OF E t(2) _ t(3-5)] t(1) by blast
  next
    case False
    with others t show ?thesis unfolding compositor_ok_def by (metis not_less)
  qed
  with kept t(1) show "(shm_ok t' \<and> pinned u (user t')) \<and> server_ok t' \<and> input_kept ca t t'" by blast
next
  fix t t' :: "'a shm server" and p r as k opcode
  assume t: "shm_ok t \<and> pinned u (user t)" "server_ok t" "resources t p = Some r" "call_ok (rclient r) t as"
    "dispatch E k p opcode as t = Some t'"
  have "shm_kept (rclient r) t t'" using others t unfolding compositor_ok_def by blast
  with t(1) show "(shm_ok t' \<and> pinned u (user t')) \<and> server_ok t' \<and> input_kept (rclient r) t t'"
    using pinned_trans by (auto simp: shm_kept_def)
next
  fix t t' :: "'a shm server" and ca c i k data v
  assume t: "shm_ok t \<and> pinned u (user t)" "server_ok t" "clients t ca = Some c" "id_available (objects c) i"
    "bind_func E k ca data v i t = Some t'"
  have "shm_kept ca t t'"
  proof (cases "k = 0")
    case True
    with t(5) have "bind_shm E ca data v i t = Some t'" using shm_env_okD(5) [OF E] by simp
    with bind_shm_kept [OF E t(2) _ t(3,4)] t(1) show ?thesis by blast
  next
    case False
    have "call_ok ca t [Arg_n i]" using t(3,4) by (auto simp: call_ok_def)
    with False others t show ?thesis unfolding compositor_ok_def by blast
  qed
  with t(1) show "(shm_ok t' \<and> pinned u (user t')) \<and> server_ok t' \<and> input_kept ca t t'"
    using pinned_trans by (auto simp: shm_kept_def)
qed

text \<open>
  C4: Whatever bytes a client has sent, when its requests have been dispatched every buffer still lies within the
  mapping of its pool, and the pools that the compositor holds references to are where they
  were. The client is still there and the server is in order.
\<close>

theorem any_input_keeps_buffers:
  assumes "shm_env_ok E M" "compositor_ok E" "server_ok s" "shm_ok s" "clients s ca = Some c"
    and "\<forall>t d. turns E ca s t \<longrightarrow> clients t ca = Some d \<longrightarrow> peer_room (objects d) WL_CLOSURE_MAX_ARGS"
    and "dispatch_loop E ca (pending c) s = Some s'"
  shows "server_ok s' \<and> clients s' ca \<noteq> None \<and> pinned (user s) (user s') \<and>
    (\<forall>b B. buffers (user s') b = Some B \<longrightarrow> (\<exists>d n. (d, n) \<in> set (mappings (user s')) \<and>
       wl_shm_buffer_get_data b s' = Some (d + of_int (boffset B)) \<and> 0 \<le> boffset B \<and> boffset B + bstride B * bheight B \<le> n))"
proof (intro conjI allI impI)
  have k: "(shm_ok s' \<and> pinned (user s) (user s')) \<and> server_ok s' \<and> clients s' ca \<noteq> None"
    by (rule request_invariant.keep_loop [OF shm_request_invariant [OF assms(1,2)] _ assms(3,5-7)]) (simp add: assms(4))
  then show "server_ok s'" "clients s' ca \<noteq> None" "pinned (user s) (user s')" by simp_all
  fix b B assume b: "buffers (user s') b = Some B"
  have "shm_ok s'" using k by simp
  from shm_buffer_mapped [OF this b] show "\<exists>d n. (d, n) \<in> set (mappings (user s')) \<and>
      wl_shm_buffer_get_data b s' = Some (d + of_int (boffset B)) \<and> 0 \<le> boffset B \<and> boffset B + bstride B * bheight B \<le> n" by blast
qed

text \<open>The demonstration server: its compositor has no handlers but those of shared memory.\<close>

lemma demo_compositor_ok: "compositor_ok (demo_shm_env :: 'a shm_env)"
proof -
  let ?E = "demo_shm_env :: 'a shm_env"
  have "3 \<le> k \<Longrightarrow> request ?E k = (\<lambda>_ _ _. Some)" "dispatch ?E = (\<lambda>_ _ _ _. Some)" "k \<noteq> 0 \<Longrightarrow> bind_func ?E k = (\<lambda>_ _ _ _. Some)" for k
    by (simp_all add: demo_shm_env_def demo_unwired_def demo_libc_def demo_env_def)
  then show ?thesis by (simp add: compositor_ok_def shm_kept_def)
qed

interpretation demo_input: request_invariant demo_shm_env "\<lambda>s :: 'a shm server. shm_ok s \<and> pinned u (user s)"
  by (rule shm_request_invariant [OF demo_shm_env_ok demo_compositor_ok])

theorem any_input_keeps_buffers_witness:
  "\<exists>(s :: unit shm server) s' ca c b B d n. clients s ca = Some c \<and> contents (inb (connection c)) = wrong_request \<and>
    dispatch_loop demo_shm_env ca (pending c) s = Some s' \<and> buffers (user s') b = Some B \<and>
    (d, n) \<in> set (mappings (user s')) \<and> boffset B + bstride B * bheight B \<le> n"
proof -
  note E = demo_shm_env_ok
  obtain s\<^sub>0 b B p P ca c and s :: "unit shm server" where s: "server_ok s" "shm_ok s" "buffers (user s) b = Some B"
    "clients s ca = Some c" "display_resource c \<noteq> 0" "wl_map_lookup (objects c) 7 = Some 0" "peer_room (objects c) WL_CLOSURE_MAX_ARGS"
    by (rule demo_buffer) (rule that)
  have "length wrong_request = 8" by (simp add: wrong_request_def)
  then obtain pc where "conn_ok pc" "contents (inb pc) = wrong_request"
    by (auto intro: peer_connection [of wrong_request "[]"] simp: BUFFER_SIZE_def)
  then obtain buf where buf: "buffer_ok buf" "contents buf = wrong_request" by (auto simp: conn_ok_def)
  let ?conn = "(new_connection 9)\<lparr>inb := buf\<rparr>" let ?c = "c\<lparr>connection := ?conn\<rparr>"
  have conn: "conn_ok ?conn" "out_room ?conn 148"
    using new_connection_ok(1) [of 9] buf(1) new_connection_ok(2) [of 9 148] by (simp_all add: conn_ok_def out_room_def BUFFER_SIZE_def)
  define t where "t = s\<lparr>sockets := sockets s, clients := (clients s)(ca \<mapsto> ?c)\<rparr>"
  have t: "server_ok t" "clients t ca = Some ?c"
    using server_ok_connection [OF s(1,4) conn(1), of "sockets s"] by (simp_all add: t_def)
  have "unobserved s t" by (simp add: t_def unobserved_def)
  then have tk: "shm_ok t" "user t = user s" using shm_ok_unobserved [OF s(2)] by (simp_all add: unobserved_def)
  obtain msg t' where t': "wl_resource_post_error demo_shm_env (display_resource ?c) WL_DISPLAY_ERROR_INVALID_OBJECT msg t = Some t'"
    "dispatch_one demo_shm_env ca (pending ?c) t = Some (t', None)"
    by (rule wrong_input_refused [OF shm_env_okD(1) [OF E] t]) (use buf(2) s(5,6) conn(2) in simp_all)
  have turn1: "u = t" if "turns demo_shm_env ca t u" for u using that by cases (use t(2) t'(2) in auto)
  have turn: "\<forall>u d. turns demo_shm_env ca t u \<longrightarrow> clients u ca = Some d \<longrightarrow> peer_room (objects d) WL_CLOSURE_MAX_ARGS"
    using t(2) s(7) by (auto dest!: turn1)
  have p8: "pending ?c = 8" using wrong_input(1) [OF t] buf(2) by simp
  have run: "dispatch_loop demo_shm_env ca (pending ?c) t = Some t'"
    using t'(2) p8 by (subst dispatch_loop.simps) simp
  have B: "buffers (user t') b = Some B" using post_error_quiet [OF t'(1)] tk(2) s(3) by (simp add: unobserved_def)
  from any_input_keeps_buffers [OF E demo_compositor_ok t(1) tk(1) t(2) turn run] B
  obtain d n where "(d, n) \<in> set (mappings (user t'))" "boffset B + bstride B * bheight B \<le> n" by blast
  with t(2) buf(2) run B show ?thesis
    by (intro exI [of _ t] exI [of _ t'] exI [of _ ca] exI [of _ ?c] exI [of _ b] exI [of _ B] exI [of _ d] exI [of _ n]) simp
qed

end
