(* ===== verification/Spec2Isabelle.thy ===== *)
theory Spec2Isabelle
  imports Wl_References Wl_Closure Pcm_Sparkle Sparkle_Scanner Wl_Objects Wl_Event_Loop Wl_Dispatch
begin

text \<open>
  Sparkle is a Wayland server for Android: programs of a Linux system on the same device draw through
  it into Android surfaces and play sound through it. This development models its C core and proves
  it correct.

  \<^bold>\<open>Parts and how they interact.\<close> The protocol scanner (\<^verbatim>\<open>scanner/src/scanner.c\<close>) reads the XML description of a
  protocol and prints the C tables of its messages; \<^verbatim>\<open>scanner/scanner.c\<close>, Sparkle's own generator,
  includes it and writes C++ classes around the C interface. At run time libwayland
  (\<^verbatim>\<open>foreign/wayland/src\<close>) connects the processes: \<^verbatim>\<open>connection.c\<close> reads those tables, puts messages on the
  wire and takes them off it; \<^verbatim>\<open>wayland-server.c\<close> keeps clients, their objects and the globals,
  dispatches the requests of the clients and sends them events; \<^verbatim>\<open>wayland-shm.c\<close> is a part of the
  server like any other behind that interface and maps the files in which clients draw; at the other end
  \<^verbatim>\<open>wayland-client.c\<close> keeps proxies for the objects of the server and queues their events; \<^verbatim>\<open>event-loop.c\<close> calls
  the server when a descriptor is ready; \<^verbatim>\<open>wayland-util.c\<close> has the lists, arrays and id maps below all of them. Sound
  goes another way: the ALSA plugin \<^verbatim>\<open>pcm_sparkle.c\<close> writes into a ring buffer in shared memory
  (\<^verbatim>\<open>were1_ring_buffer.c\<close>), which \<^verbatim>\<open>sparkle_player.cpp\<close> plays; the memory and the connection are set
  up by \<^verbatim>\<open>were1_tmpfile.c\<close> and \<^verbatim>\<open>were1_unix_socket.c\<close>.

  \<^bold>\<open>Theories and sources.\<close>
  \<^item> \<open>Prelude\<close>, \<open>Bytes\<close>, \<open>Circular\<close>, \<open>C_String\<close>: machine types, the error monad, byte images of words,
    circular storage with free-running positions, and the C library's strings.
  \<^item> \<open>Wl_List\<close>, \<open>Wl_Array\<close>, \<open>Wl_Map\<close>: \<^verbatim>\<open>wayland-util.c\<close>. Lists are a heap of nodes; arrays have 64-bit sizes
    and an allocator that may fail; maps keep the encoded entries with their free list.
  \<^item> \<open>Wl_Buffer\<close>, \<open>Wl_Connection\<close>, \<open>Wl_Closure\<close>: \<^verbatim>\<open>connection.c\<close>. \<open>wl_buffer\<close> is the ring with 32-bit positions,
    \<open>wl_connection\<close> the four rings and the socket, \<open>wl_closure\<close> a message with its arguments.
  \<^item> \<open>Wl_Signal\<close>, \<open>Wl_Server\<close>: signals with listeners that may remove themselves and others, and the
    structures and functions of \<^verbatim>\<open>wayland-server.c\<close> on resources, events and errors. \<open>Wl_Registry\<close> has the
    globals and the handlers of \<^verbatim>\<open>wl_display\<close> and \<^verbatim>\<open>wl_registry\<close>, \<open>Wl_Client\<close> the clients and the dispatch
    loop. \<open>Wl_Events\<close>, \<open>Wl_Resources\<close>, \<open>Wl_Teardown\<close>, \<open>Wl_Requests\<close> and \<open>Wl_Objects\<close> hold the
    proofs: events, the invariant \<open>server_ok\<close>, the end of a client, requests, the abstraction.
  \<^item> \<open>Wl_Shm\<close>: \<^verbatim>\<open>wayland-shm.c\<close>, with pools and buffers as structures by address and the mappings of the process.
    \<open>Wl_Observers\<close> says what a part of the compositor may rely on when its structures hang on resources (locales
    \<open>listener_invariant\<close> and \<open>resource_invariant\<close>); \<open>Wl_Pools\<close> and \<open>Wl_Safety\<close> have the invariant of pools
    and what follows from it; \<open>Wl_Dispatch\<close> adds the requests (\<open>request_invariant\<close>) and puts pools behind the
    dispatch loop.
  \<^item> \<open>Wl_Proxy\<close>, \<open>Wl_Queue\<close>: \<^verbatim>\<open>wayland-client.c\<close>, one display with its proxies by address, the zombies left in the table
    of ids, and the queues of closures. \<open>Wl_Threads\<close>: the threads that share a display, as a step relation
    (\<open>client_step\<close>) in which every operation under the lock is a step and listeners run between steps. \<open>Wl_References\<close>
    has the reference counts of proxies.
  \<^item> \<open>Wl_Event_Loop\<close>: \<^verbatim>\<open>event-loop.c\<close>.
  \<^item> \<open>Scanner_Data\<close>, \<open>Scanner_Parse\<close>, \<open>Scanner_Emit\<close>, \<open>Scanner_Code\<close>: \<^verbatim>\<open>scanner/src/scanner.c\<close>, from the
    callbacks of the XML parser to the generated files. \<open>Sparkle_Scanner\<close>: \<^verbatim>\<open>scanner/scanner.c\<close>.
  \<^item> \<open>Ring_Buffer\<close>, \<open>Unix_Socket\<close>, \<open>Pcm_Sparkle\<close>: the audio path.
  \<^item> This theory: what spans the scanner and the wire, and two processes at the ends of a socket.

  Definitions carry the names of the C functions; a loop inside a function has a name of its own,
  \<^verbatim>\<open>flush_loop\<close> in \<^verbatim>\<open>wl_connection_flush\<close>. A structure is a record, a pointer the address (a 64-bit
  word) under which a store holds the structure.

  \<^bold>\<open>What is shown.\<close>
  \<^item> Containers: lists keep their ring, arrays their contents; ids handed out by a map are
    distinct and unused, and what was inserted is found (locales \<open>intrusive_list\<close>, \<open>id_allocator\<close>).
  \<^item> Transport: the byte and descriptor streams survive partial writes, interrupts and refills; every
    descriptor is sent or closed, once; messages arrive in order and whole (locale \<open>message_sink\<close>).
  \<^item> Messages: what is marshalled is demarshalled as the same message, across a flush and a read of the
    peer; demarshalling is safe on any bytes.
  \<^item> Server: the table of ids of every client leads to live resources only, whatever requests arrive and
    however clients come and go; requests are refused or delivered as declared; the dispatch loop
    ends; a destroyed client leaves nothing behind; the operations refine a table from client and
    id to interface.
  \<^item> Shared memory: reference counts count what refers to a pool, a pool is unmapped with its last reference and
    not before, no buffer reaches beyond its mapping, and a pool the compositor refers to does not
    move, whatever clients send.
  \<^item> Client: no thread that waits for another one to read is forgotten, whatever the threads do in between; the
    reference count of a proxy in use is one for the application and one for every mention in an event, so that no
    event leads to freed memory, and listeners are only called for and with proxies that are in use. The steps of the
    application are those the documentation allows: it does not use what it has destroyed, and a queue is dispatched
    by one thread at a time; \<open>cenv_ok\<close> says what is asked of \<^verbatim>\<open>malloc\<close>.
  \<^item> Event loop: reported sources that were removed in the meantime are not called and not freed too
    early.
  \<^item> Scanner: accepted protocols are well-formed, the generated tables are aligned with the signatures,
    and \<^verbatim>\<open>connection.c\<close> reads those signatures the way the scanner meant them.
  \<^item> Audio: what is played is a prefix of what was written, however the two processes interleave.

  \<^bold>\<open>Faults and fuel.\<close> Undefined behaviour (an access out of bounds, to freed memory or through null), an
  \<^verbatim>\<open>abort\<close>, and a loop that never ends are the values \<open>None\<close>, or \<open>Inl Undefined\<close> where an error must be told
  apart; a theorem that says \<open>Some\<close> excludes all of them. Loops that the code does not bound
  (\<^verbatim>\<open>wl_connection_flush\<close>, the dispatch loop, the re-check of event sources) are partial functions into
  \<open>option\<close>, not cut off by fuel, and their ends are theorems. The system calls are scripts: the list of
  outcomes of the calls to come (interrupts, short writes, errors), and a trace of what was asked. The
  code around the library (handlers, bind functions, destructors, listeners) and \<^verbatim>\<open>malloc\<close> are the record
  \<open>env\<close> of state transformers; \<open>env_ok\<close> and \<open>handlers_ok\<close> say what is documented of them: fresh aligned memory,
  and no change of the library's structures but through the library. \<^verbatim>\<open>wayland-shm.c\<close> is wired into that record
  (\<open>shm_env_ok\<close>), with \<^verbatim>\<open>mmap\<close> and \<^verbatim>\<open>mremap\<close> that never place a mapping over another (\<open>shm_os\<close>). Numbers in the statements are
  those of the code: 20 arguments (\<^verbatim>\<open>WL_CLOSURE_MAX_ARGS\<close>), 4096 bytes in a buffer, 28 descriptors in a
  message, 32 events in a batch; 148 bytes are the longest error message of the library (a header of 8, two words,
  a text of 128 with its length).

  \<^bold>\<open>Not modelled.\<close> \<^verbatim>\<open>wl_closure_print\<close> and \<^verbatim>\<open>wl_log\<close> (debug output); the listening sockets, lock files
  and environment variables of \<^verbatim>\<open>wl_display\<close>, and \<^verbatim>\<open>wayland-os.c\<close> (system calls with a fallback); in \<^verbatim>\<open>wayland-client.c\<close>
  how \<^verbatim>\<open>wl_display_connect\<close> finds its socket; the C++ objects of \<^verbatim>\<open>were\<close> and \<^verbatim>\<open>sparkle_common\<close> (templates and glue around epoll,
  X11 and Android); OpenSL ES; the Java application; libffi, whose call is an argument of
  \<^verbatim>\<open>wl_closure_invoke\<close>. Of the kernel only what the code relies on is kept.
\<close>

section \<open>Signatures: from the scanner to the wire\<close>

text \<open>
  The arguments on the wire of an argument of the protocol. An untyped new id is preceded by the
  name and the version of its interface, and its mark for null ends up at the name.
\<close>

definition wire_details :: "arg \<Rightarrow> argument_details list" where
  "wire_details a =
     (let q = (is_nullable_type a \<and> anullable a) in
      case akind a of
        INT_T \<Rightarrow> [\<lparr>atype = CHR ''i'', nullable = q\<rparr>]
      | NEW_ID \<Rightarrow>
          if ainterface a = None
          then [\<lparr>atype = CHR ''s'', nullable = q\<rparr>, \<lparr>atype = CHR ''u'', nullable = False\<rparr>, \<lparr>atype = CHR ''n'', nullable = False\<rparr>]
          else [\<lparr>atype = CHR ''n'', nullable = q\<rparr>]
      | UNSIGNED \<Rightarrow> [\<lparr>atype = CHR ''u'', nullable = q\<rparr>]
      | FIXED \<Rightarrow> [\<lparr>atype = CHR ''f'', nullable = q\<rparr>]
      | STRING \<Rightarrow> [\<lparr>atype = CHR ''s'', nullable = q\<rparr>]
      | OBJECT \<Rightarrow> [\<lparr>atype = CHR ''o'', nullable = q\<rparr>]
      | ARRAY \<Rightarrow> [\<lparr>atype = CHR ''a'', nullable = q\<rparr>]
      | FD \<Rightarrow> [\<lparr>atype = CHR ''h'', nullable = q\<rparr>])"

lemma details_from_arg: "details_from False (arg_signature a @ rest) = wire_details a @ details_from False rest"
  by (cases "akind a") (auto simp: arg_signature_def wire_details_def is_arg_char_def Let_def)

lemma details_from_args:
  "details_from False (concat (map arg_signature as)) = concat (map wire_details as)"
  by (induction as) (auto simp: details_from_arg)

lemma digit_not_arg: "is_digit c \<Longrightarrow> \<not> is_arg_char c \<and> c \<noteq> CHR ''?''"
  by (auto simp: is_digit_def is_arg_char_def)

lemma details_from_digits: "list_all is_digit ds \<Longrightarrow> details_from False (ds @ rest) = details_from False rest"
  by (induction ds) (auto simp: digit_not_arg)

lemma arg_signature_head:
  "arg_signature a \<noteq> [] \<and> (is_arg_char (hd (arg_signature a)) \<or> hd (arg_signature a) = CHR ''?'')"
  by (cases "akind a") (auto simp: arg_signature_def is_arg_char_def)

lemma args_signature_head:
  "concat (map arg_signature as) = [] \<or>
   is_arg_char (hd (concat (map arg_signature as))) \<or> hd (concat (map arg_signature as)) = CHR ''?''"
  using arg_signature_head by (cases as) (auto simp: hd_append)

lemma arg_head_number:
  assumes "s = [] \<or> is_arg_char (hd s) \<or> hd s = CHR ''?''"
  shows "s = [] \<or> \<not> is_digit (hd s)" "atoi s = 0"
proof -
  show "s = [] \<or> \<not> is_digit (hd s)" using assms digit_not_arg by blast
  have "\<not> is_space c \<and> c \<noteq> CHR ''-'' \<and> c \<noteq> CHR ''+'' \<and> \<not> is_digit c" if "is_arg_char c \<or> c = CHR ''?''" for c
    using that by (auto simp: is_arg_char_def is_space_def is_digit_def)
  with assms show "atoi s = 0" by (cases s) (auto simp: atoi_def)
qed

lemma signature_details: "details (message_signature m) = concat (map wire_details (arg_list m))"
  by (auto simp: details_def message_signature_def show_int_def details_from_digits dec_digits details_from_args)

lemma signature_since:
  assumes "0 \<le> msince m"
  shows "wl_message_get_since \<lparr>msg_name = nm, signature = message_signature m, types = ts\<rparr> = max 1 (msince m)"
proof (cases "msince m > 1")
  case True
  then have "message_signature m = dec (nat (msince m)) @ concat (map arg_signature (arg_list m))"
    by (simp add: message_signature_def show_int_def)
  with True atoi_dec [OF arg_head_number(1) [OF args_signature_head], of "nat (msince m)" "arg_list m"] show ?thesis
    by (simp add: wl_message_get_since_def)
next
  case False
  then have "message_signature m = concat (map arg_signature (arg_list m))" by (simp add: message_signature_def)
  with False arg_head_number(2) [OF args_signature_head, of "arg_list m"] show ?thesis
    by (simp add: wl_message_get_since_def)
qed

lemma typed_wire_details:
  "\<not> (akind a = NEW_ID \<and> ainterface a = None) \<Longrightarrow> length (wire_details a) = 1"
  by (cases "akind a") (auto simp: wire_details_def Let_def)

lemma typed_args_details:
  assumes "\<forall>a \<in> set as. \<not> (akind a = NEW_ID \<and> ainterface a = None)"
  shows "concat (map wire_details as) = map (\<lambda>a. hd (wire_details a)) as"
  using assms
proof (induction as)
  case (Cons a as)
  then obtain d where "wire_details a = [d]" using typed_wire_details [of a] by (auto simp: length_Suc_conv)
  with Cons show ?case by simp
qed simp

text \<open>
  C16: The signature the scanner prints for a message of an accepted protocol is read back by the
  connection code as exactly the arguments of that message, in order, with their types and their
  marks for null, and as the version the message was introduced in.
\<close>

theorem signature_understood:
  assumes "parse_blocks bs (empty_context core) = Inr ctx" "i \<in> set (interface_list (protocol ctx))"
    and "m \<in> set (request_list i) \<union> set (event_list i)"
  shows "details (message_signature m) = concat (map wire_details (arg_list m)) \<and>
    arg_count_for_signature (message_signature m) = length (concat (map wire_details (arg_list m))) \<and>
    wl_message_get_since \<lparr>msg_name = mname m, signature = message_signature m, types = ts\<rparr> = max 1 (msince m)"
proof -
  have "0 \<le> msince m"
    using parse_wf [OF assms(1)] assms(2,3)
    by (auto simp: wf_protocol_def wf_interface_def wf_message_def list_all_iff)
  with signature_details [of m] signature_since [of m "mname m" ts] length_details [of "message_signature m"]
  show ?thesis by metis
qed

theorem signature_understood_witness:
  "\<exists>ctx. parse_blocks [(sample_document, True)] (empty_context False) = Inr ctx \<and>
     interface_list (protocol ctx) = [reg_interface] \<and>
     wl_message_get_since \<lparr>msg_name = mname bind_message, signature = message_signature bind_message, types = []\<rparr> = 2 \<and>
     arg_count_for_signature (message_signature bind_message) = 4"
proof -
  obtain ctx where p: "parse_blocks [(sample_document, True)] (empty_context False) = Inr ctx"
    and c: "interface_list (protocol ctx) = [reg_interface]" by (rule parse_sample)
  have "reg_interface \<in> set (interface_list (protocol ctx))"
    "bind_message \<in> set (request_list reg_interface) \<union> set (event_list reg_interface)"
    by (simp_all add: c reg_interface_def)
  from signature_understood [OF p this, of "[]"] p c show ?thesis
    by (auto simp: bind_message_def wire_details_def)
qed

text \<open>
  C31: When no argument of a message is an untyped new id, the table of types that the scanner generates
  and the signature agree: the entry at the message's index plus \<open>k\<close> is the interface of the
  \<open>k\<close>-th argument that the connection code sees.
\<close>

theorem signature_types_agree:
  assumes "parse_blocks bs (empty_context core) = Inr ctx" "type_table (protocol ctx) = (is, names, table)"
    and "i \<in> set is" "m \<in> set (request_list i) \<union> set (event_list i)"
    and "\<forall>a \<in> set (arg_list m). \<not> (akind a = NEW_ID \<and> ainterface a = None)"
    and "k < arg_count_for_signature (message_signature m)"
  shows "k < length (arg_list m) \<and> details (message_signature m) ! k = hd (wire_details (arg_list m ! k)) \<and>
    type_index m + k < length table \<and> table ! (type_index m + k) = type_line (arg_list m ! k)"
proof -
  have d: "details (message_signature m) = map (\<lambda>a. hd (wire_details a)) (arg_list m)"
    using signature_details typed_args_details [OF assms(5)] by simp
  then have k: "k < length (arg_list m)" using assms(6) length_details [of "message_signature m"] by simp
  have "m \<in> set (interface_messages i)" using assms(4) by (simp add: interface_messages_def)
  from aligned_nth [OF type_table_aligned [OF parse_wf [OF assms(1)] assms(2,3) this] k] d k show ?thesis by simp
qed

definition typed_document :: "xml_event list" where
  "typed_document =
     [Start 1 ''interface'' [(''name'', ''i''), (''version'', ''1'')], Start 2 ''request'' [(''name'', ''r'')],
      Start 3 ''arg'' [(''name'', ''a''), (''type'', ''int'')],
      Start 4 ''arg'' [(''name'', ''b''), (''type'', ''object''), (''interface'', ''j'')], End ''request'']"

lemma typed_document_table:
  "map_sum id (\<lambda>ctx. map (\<lambda>i. map (\<lambda>m. (type_index m, map akind (arg_list m), message_signature m)) (request_list i))
       (fst (type_table (protocol ctx))))
     (parse_blocks [(typed_document, True)] (empty_context False)) = Inr [[(0, [INT_T, OBJECT], ''io'')]]"
  by code_simp

theorem signature_types_agree_witness:
  "\<exists>ctx is names table i m. parse_blocks [(typed_document, True)] (empty_context False) = Inr ctx \<and>
     type_table (protocol ctx) = (is, names, table) \<and> i \<in> set is \<and> m \<in> set (request_list i) \<and>
     message_signature m = ''io'' \<and> table ! (type_index m + 1) = type_line (arg_list m ! 1)"
proof -
  obtain ctx where c: "parse_blocks [(typed_document, True)] (empty_context False) = Inr ctx"
    "map (\<lambda>i. map (\<lambda>m. (type_index m, map akind (arg_list m), message_signature m)) (request_list i))
       (fst (type_table (protocol ctx))) = [[(0, [INT_T, OBJECT], ''io'')]]"
    using typed_document_table by (cases "parse_blocks [(typed_document, True)] (empty_context False)") auto
  obtain "is" names table where t: "type_table (protocol ctx) = (is, names, table)" by (rule prod_cases3)
  with c(2) obtain i m where i: "i \<in> set is" "m \<in> set (request_list i)" "map akind (arg_list m) = [INT_T, OBJECT]"
    "message_signature m = ''io''" by (auto simp: map_eq_Cons_conv)
  then have "\<forall>a \<in> set (arg_list m). \<not> (akind a = NEW_ID \<and> ainterface a = None)"
    "1 < arg_count_for_signature (message_signature m)" "m \<in> set (request_list i) \<union> set (event_list i)"
    by (auto simp: map_eq_Cons_conv is_arg_char_def)
  from signature_types_agree [OF c(1) t i(1) this(3,1,2)] c(1) t i show ?thesis by blast
qed

text \<open>
  An untyped new id breaks this: the request of the sample protocol has four arguments on the
  wire, but only two entries in the table, so the last two are read beyond its end.
\<close>

lemma untyped_new_id_overruns:
  assumes "parse_blocks [(sample_document, True)] (empty_context False) = Inr ctx"
    "type_table (protocol ctx) = (is, names, table)"
  shows "arg_count_for_signature (message_signature bind_message) = 4 \<and> length table = 2"
proof -
  have "interface_list (protocol ctx) = [reg_interface]"
    using parse_sample assms(1) by (metis sum.inject(2))
  then have "length table = 2"
    using sample_type_table [of "protocol ctx"] parse_wf [OF assms(1)] assms(2) by (simp add: wf_protocol_def)
  then show ?thesis
    using signature_details [of bind_message] length_details [of "message_signature bind_message"]
    by (simp add: bind_message_def wire_details_def)
qed

section \<open>A message from one process to another\<close>

text \<open>
  C1: A closure sent over an idle connection and flushed arrives whole: a peer that has read the bytes and
  descriptors the socket carried demarshals a closure with the same sender, opcode and
  arguments, and nothing is left over.
\<close>

theorem message_delivered:
  assumes "allocator_ok A" "closure_typed objs cl" "ccount cl \<le> WL_CLOSURE_MAX_ARGS" "4 * closure_words cl \<le> BUFFER_SIZE"
    and "conn_ok c" "contents (out c) = []" "queued_fds (fds_out c) = []" "sent w = []" "sent_fds w = []"
    and "length (arg_fds (take (ccount cl) (cargs cl))) \<le> 1024"
    and "wl_closure_send A objs cl c w = Some (cl1, c1, w1, 0)"
    and "wl_connection_flush c1 w1 = Some (c2, w2, r)" "contents (out c2) = []" "queued_fds (fds_out c2) = []"
    and "conn_ok p" "contents (inb p) = sent w2" "queued_fds (fds_in p) = sent_fds w2"
    and "reserve_all B m (arg_news (take (ccount cl) (cargs cl))) = Some m'"
  shows "\<exists>cl' p'. wl_connection_demarshal True B p (of_nat (length (sent w2))) m (cmessage cl) v =
      Inr (Some cl', p', m', v) \<and>
    csender_id cl' = csender_id cl \<and> copcode cl' = copcode cl AND 0xffff \<and>
    take (ccount cl) (cargs cl') = map (received objs) (take (ccount cl) (cargs cl)) \<and>
    contents (inb p') = [] \<and> queued_fds (fds_in p') = []"
proof -
  have sz: "4 * closure_words cl < 2 ^ 31" using assms(4) by (simp add: BUFFER_SIZE_def)
  have fd: "length (queued_fds (fds_out c)) + length (arg_fds (take (ccount cl) (cargs cl))) \<le> 1024"
    using assms(7,10) by simp
  from wl_closure_send_ok [OF assms(1,2,5) sz fd assms(11)] obtain bs where
    s: "conn_ok c1" "message_bytes objs cl bs" "stream c1 w1 = bs"
      "fd_stream c1 w1 = arg_fds (take (ccount cl) (cargs cl))"
    using assms(6-9) by (auto simp: sent_closure_def output_grown_def stream_def fd_stream_def)
  from flush_keeps_output(2) [OF s(1) assms(12)] assms(13,14) s(3,4) have
    f: "sent w2 = bs" "sent_fds w2 = arg_fds (take (ccount cl) (cargs cl))"
    by (auto simp: output_kept_def stream_def fd_stream_def)
  have i: "contents (inb p) = bs @ []" "queued_fds (fds_in p) = arg_fds (take (ccount cl) (cargs cl)) @ []"
    using assms(16,17) f by simp_all
  from demarshal_message_bytes [OF assms(2,3) s(2) assms(4,15) i assms(18), of v] f(1) show ?thesis by auto
qed

theorem message_delivered_witness:
  "\<exists>c1 w1 c2 w2 r p cl' p'.
     wl_closure_send (\<lambda>n. Some (replicate (unat n) 1)) (\<lambda>_. None) plain_closure fresh_connection
       (quiet\<lparr>sends := [Accept 12]\<rparr>) = Some (plain_closure, c1, w1, 0) \<and>
     wl_connection_flush c1 w1 = Some (c2, w2, r) \<and> contents (inb p) = sent w2 \<and>
     wl_connection_demarshal True (\<lambda>_. None) p (of_nat (length (sent w2))) (wl_map_init 1) (cmessage plain_closure) quiet =
       Inr (Some cl', p', wl_map_init 1, quiet) \<and> take 1 (cargs cl') = [Arg_u 7]"
proof -
  let ?A = "\<lambda>n :: u64. Some (replicate (unat n) 1 :: bytes)" and ?o = "\<lambda>_ :: u64. None :: wl_object option"
  let ?w = "quiet\<lparr>sends := [Accept 12]\<rparr>"
  have pc: "cargs plain_closure = [Arg_u 7]" "ccount plain_closure = 1"
    by (simp_all add: plain_closure_def)
  obtain c1 where s: "wl_closure_send ?A ?o plain_closure fresh_connection ?w = Some (plain_closure, c1, ?w, 0)"
    "conn_ok c1" "length (contents (out c1)) = 12" "want_flush c1" by (rule plain_closure_send)
  have ne: "contents (out c1) \<noteq> []" using s(3) by (metis list.size(3) zero_neq_numeral)
  obtain c2 w2 r where f: "wl_connection_flush c1 ?w = Some (c2, w2, r)" "contents (out c2) = []"
    by (rule flush_one_write [OF s(2,4) ne, of ?w 12 "[]"]) (use s(3) in auto)
  have a: "allocator_ok ?A" by (simp add: allocator_ok_def)
  have n: "ccount plain_closure \<le> WL_CLOSURE_MAX_ARGS" "4 * closure_words plain_closure \<le> BUFFER_SIZE"
    "4 * closure_words plain_closure < 2 ^ 31"
    "length (queued_fds (fds_out fresh_connection)) + length (arg_fds (take (ccount plain_closure) (cargs plain_closure))) \<le> 1024"
    by (simp_all add: pc plain_closure_ok WL_CLOSURE_MAX_ARGS_def BUFFER_SIZE_def)
  from wl_closure_send_ok [OF a plain_closure_ok(1) fresh_connection_ok(1) n(3,4) s(1)] have
    "fd_stream c1 ?w = []" by (auto simp: sent_closure_def output_grown_def fd_stream_def pc quiet_def)
  with flush_keeps_output(2) [OF s(2) f(1)] have q: "sent_fds w2 = []" "queued_fds (fds_out c2) = []"
    by (simp_all add: output_kept_def fd_stream_def)
  have l: "length (sent w2) = 12"
    using flush_keeps_output(2) [OF s(2) f(1)] s(3) f(2) by (simp add: output_kept_def stream_def quiet_def)
  obtain p where p: "conn_ok p" "contents (inb p) = sent w2" "queued_fds (fds_in p) = []"
    by (rule peer_connection [of "sent w2" "[]"]) (use l in \<open>auto simp: BUFFER_SIZE_def\<close>)
  have m: "reserve_all (\<lambda>_. None) (wl_map_init 1) (arg_news (take (ccount plain_closure) (cargs plain_closure))) =
      Some (wl_map_init 1)" by (simp add: pc)
  have q': "queued_fds (fds_in p) = sent_fds w2" using p(3) q(1) by simp
  have e: "contents (out fresh_connection) = []" "queued_fds (fds_out fresh_connection) = []" "sent ?w = []" "sent_fds ?w = []"
    "length (arg_fds (take (ccount plain_closure) (cargs plain_closure))) \<le> 1024"
    by (simp_all add: quiet_def pc)
  from message_delivered [OF a plain_closure_ok(1) n(1,2) fresh_connection_ok(1) e s(1) f q(2) p(1,2) q' m, of quiet]
  obtain cl' p' where "wl_connection_demarshal True (\<lambda>_. None) p (of_nat (length (sent w2))) (wl_map_init 1)
      (cmessage plain_closure) quiet = Inr (Some cl', p', wl_map_init 1, quiet)" "take 1 (cargs cl') = [Arg_u 7]"
    by (auto simp: pc received_def)
  with s(1) f(1) p(2) show ?thesis by blast
qed

end
